(* ===== verification/Xinu_Base.thy ===== *)
theory Xinu_Base
  imports Main "HOL-Library.Word" "HOL-Library.Monad_Syntax"
begin

text \<open>
  Shared vocabulary of the development: the C integer types of
  \<^verbatim>\<open>include/kernel.h\<close>, the universal return codes, the configuration constants of
  \<^verbatim>\<open>include/conf.h\<close>, \<^verbatim>\<open>include/process.h\<close>, \<^verbatim>\<open>include/semaphore.h\<close> and
  \<^verbatim>\<open>include/queue.h\<close>, checked table access, and the generic list and
  option facts the component theories share.

  An operation of the kernel is a function from a state to an \<open>option\<close>: \<open>None\<close> is
  execution that C leaves undefined (a table access out of range) or a loop
  that never ends, and \<open>Some (r, s')\<close> is a return of \<open>r\<close> in state \<open>s'\<close>. A
  theorem that an operation yields \<open>Some\<close> is therefore a proof of memory safety
  and termination for that call.
\<close>

section \<open>Collections of rewrite rules\<close>

named_theorems range_simps \<open>checked accesses whose index is in range\<close>

section \<open>Integer types\<close>

text \<open>
  \<open>int32\<close> and \<open>int16\<close> values are integers with the two's complement wrap-around
  written out where C stores a computed value; \<open>uint32\<close> values are words.
\<close>

type_synonym pid32 = int
type_synonym qid16 = int
type_synonym sid32 = int
type_synonym did32 = int
type_synonym uint32 = "32 word"

definition s32 :: "int \<Rightarrow> int" where
  "s32 x = (x + 2 ^ 31) mod 2 ^ 32 - 2 ^ 31"

definition s16 :: "int \<Rightarrow> int" where
  "s16 x = (x + 2 ^ 15) mod 2 ^ 16 - 2 ^ 15"

lemma s32_id: "- (2 ^ 31) \<le> x \<Longrightarrow> x < 2 ^ 31 \<Longrightarrow> s32 x = x"
  by (simp add: s32_def)

lemma s16_id: "- (2 ^ 15) \<le> x \<Longrightarrow> x < 2 ^ 15 \<Longrightarrow> s16 x = x"
  by (simp add: s16_def)

lemma s32_range: "- (2 ^ 31) \<le> s32 x" "s32 x < 2 ^ 31"
proof -
  have "0 \<le> (x + 2147483648) mod 4294967296" "(x + 2147483648) mod 4294967296 < (4294967296 :: int)"
    by simp_all
  then show "- (2 ^ 31) \<le> s32 x" "s32 x < 2 ^ 31"
    by (simp_all add: s32_def)
qed

lemma s32_add_s32: "s32 (s32 x + y) = s32 (x + y)"
proof -
  have "(s32 x + y + 2 ^ 31) mod 2 ^ 32 = ((x + 2 ^ 31) mod 2 ^ 32 + y) mod (2 :: int) ^ 32"
    by (simp add: s32_def algebra_simps)
  also have "\<dots> = (x + y + 2 ^ 31) mod 2 ^ 32"
    by (simp add: mod_simps algebra_simps)
  finally show ?thesis
    by (simp add: s32_def)
qed

section \<open>Constants\<close>

text \<open>Return codes of \<^verbatim>\<open>include/kernel.h\<close>.\<close>

abbreviation (input) OK :: int where "OK \<equiv> 1"
abbreviation (input) SYSERR :: int where "SYSERR \<equiv> - 1"
abbreviation (input) TIMEOUT :: int where "TIMEOUT \<equiv> - 3"

text \<open>Sizes of \<^verbatim>\<open>include/conf.h\<close> and \<^verbatim>\<open>include/queue.h\<close>: \<open>NQENT = NPROC + 4 + NSEM + NSEM\<close>.\<close>

abbreviation (input) NPROC :: int where "NPROC \<equiv> 100"
abbreviation (input) NSEM :: int where "NSEM \<equiv> 100"
abbreviation (input) NQENT :: int where "NQENT \<equiv> 304"
abbreviation (input) NDEVS :: int where "NDEVS \<equiv> 24"
abbreviation (input) EMPTY :: int where "EMPTY \<equiv> - 1"
abbreviation (input) MAXKEY :: int where "MAXKEY \<equiv> 2147483647"
abbreviation (input) MINKEY :: int where "MINKEY \<equiv> - 2147483648"
abbreviation (input) NULLPROC :: int where "NULLPROC \<equiv> 0"
abbreviation (input) QUANTUM :: uint32 where "QUANTUM \<equiv> 2"

section \<open>Lists\<close>

lemma takeWhile_dropWhile_split:
  obtains ys zs where "xs = ys @ zs" "ys = takeWhile P xs" "zs = dropWhile P xs"
    "\<forall>y \<in> set ys. P y" "zs = [] \<or> \<not> P (hd zs)"
  using takeWhile_dropWhile_id[of P xs] hd_dropWhile[of P xs]
  by (metis set_takeWhileD)

lemma distinct_subset_length:
  fixes xs :: "int list"
  assumes "distinct xs" "set xs \<subseteq> {0..<int n}"
  shows "length xs \<le> n"
proof -
  have "length xs = card (set xs)"
    using assms(1) by (simp add: distinct_card)
  also have "\<dots> \<le> card {0..<int n}"
    by (rule card_mono) (use assms(2) in auto)
  finally show ?thesis by simp
qed

lemma remove1_split: "x \<notin> set ys \<Longrightarrow> remove1 x (ys @ x # zs) = ys @ zs"
  by (simp add: remove1_append)

section \<open>Options\<close>

lemma bind_Some_iff:
  "(m \<bind> f) = Some y \<longleftrightarrow> (\<exists>x. m = Some x \<and> f x = Some y)"
  by (cases m) auto

end
