(* ===== verification/Queue_Table.thy ===== *)
theory Queue_Table
  imports Xinu_Base
begin

text \<open>
  The table of process queues (\<^verbatim>\<open>include/queue.h\<close>, \<^verbatim>\<open>system/queue.c\<close>,
  \<^verbatim>\<open>system/getitem.c\<close>, \<^verbatim>\<open>system/insert.c\<close>, \<^verbatim>\<open>system/insertd.c\<close>,
  \<^verbatim>\<open>system/newqueue.c\<close>): the pointer surgery of every queue operation, on the table
  alone, and its abstraction to lists. Entries \<open>0 \<dots> NPROC - 1\<close> are the nodes of
  the processes, the others are head/tail pairs of queues, \<open>q\<close> and \<open>q + 1\<close>.
  The argument checks that look at the process table are added in
  \<open>Kernel_State\<close>.
\<close>

section \<open>The table\<close>

record qentry =
  qkey :: int
  qnext :: int
  qprev :: int

type_synonym qtab = "int \<Rightarrow> qentry"

definition q_rd :: "qtab \<Rightarrow> int \<Rightarrow> qentry option" where
  "q_rd t i = (if 0 \<le> i \<and> i < NQENT then Some (t i) else None)"

definition set_qnext :: "int \<Rightarrow> int \<Rightarrow> qtab \<Rightarrow> qtab option" where
  "set_qnext i v t =
     (if 0 \<le> i \<and> i < NQENT then Some (t(i := (t i)\<lparr>qnext := s16 v\<rparr>)) else None)"

definition set_qprev :: "int \<Rightarrow> int \<Rightarrow> qtab \<Rightarrow> qtab option" where
  "set_qprev i v t =
     (if 0 \<le> i \<and> i < NQENT then Some (t(i := (t i)\<lparr>qprev := s16 v\<rparr>)) else None)"

definition set_qkey :: "int \<Rightarrow> int \<Rightarrow> qtab \<Rightarrow> qtab option" where
  "set_qkey i v t =
     (if 0 \<le> i \<and> i < NQENT then Some (t(i := (t i)\<lparr>qkey := s32 v\<rparr>)) else None)"

text \<open>The inline functions of \<^verbatim>\<open>queue.h\<close>.\<close>

definition isbadqid :: "int \<Rightarrow> bool" where
  "isbadqid x \<longleftrightarrow> x < 0 \<or> x \<ge> NQENT - 1"

definition queuehead :: "int \<Rightarrow> int" where
  "queuehead q = q"

definition queuetail :: "int \<Rightarrow> int" where
  "queuetail q = q + 1"

definition firstid :: "qtab \<Rightarrow> int \<Rightarrow> int option" where
  "firstid t q = do { e \<leftarrow> q_rd t (queuehead q); Some (qnext e) }"

definition lastid :: "qtab \<Rightarrow> int \<Rightarrow> int option" where
  "lastid t q = do { e \<leftarrow> q_rd t (queuetail q); Some (qprev e) }"

definition isempty :: "qtab \<Rightarrow> int \<Rightarrow> bool option" where
  "isempty t q = do { f \<leftarrow> firstid t q; Some (f \<ge> NPROC) }"

definition nonempty :: "qtab \<Rightarrow> int \<Rightarrow> bool option" where
  "nonempty t q = do { f \<leftarrow> firstid t q; Some (f < NPROC) }"

definition firstkey :: "qtab \<Rightarrow> int \<Rightarrow> int option" where
  "firstkey t q = do { f \<leftarrow> firstid t q; e \<leftarrow> q_rd t f; Some (qkey e) }"

definition lastkey :: "qtab \<Rightarrow> int \<Rightarrow> int option" where
  "lastkey t q = do { f \<leftarrow> lastid t q; e \<leftarrow> q_rd t f; Some (qkey e) }"

section \<open>Operations on the table\<close>

text \<open>\<open>getitem\<close>, \<open>getfirst\<close> and \<open>getlast\<close> of \<^verbatim>\<open>getitem.c\<close>.\<close>

definition getitem :: "int \<Rightarrow> qtab \<Rightarrow> (int \<times> qtab) option" where
  "getitem pid t = do {
     e \<leftarrow> q_rd t pid;
     let next = qnext e;
     let prev = qprev e;
     t \<leftarrow> set_qnext prev next t;
     t \<leftarrow> set_qprev next prev t;
     Some (pid, t) }"

definition getfirst :: "int \<Rightarrow> qtab \<Rightarrow> (int \<times> qtab) option" where
  "getfirst q t = do {
     emp \<leftarrow> isempty t q;
     if emp then Some (EMPTY, t)
     else do { e \<leftarrow> q_rd t (queuehead q); getitem (qnext e) t } }"

definition getlast :: "int \<Rightarrow> qtab \<Rightarrow> (int \<times> qtab) option" where
  "getlast q t = do {
     emp \<leftarrow> isempty t q;
     if emp then Some (EMPTY, t)
     else do { e \<leftarrow> q_rd t (queuetail q); getitem (qprev e) t } }"

text \<open>The body of \<open>enqueue\<close> after its argument check, and \<open>dequeue\<close> (\<^verbatim>\<open>queue.c\<close>).\<close>

definition enqueue_links :: "int \<Rightarrow> int \<Rightarrow> qtab \<Rightarrow> qtab option" where
  "enqueue_links pid q t = do {
     let tail = queuetail q;
     e \<leftarrow> q_rd t tail;
     let prev = qprev e;
     t \<leftarrow> set_qnext pid tail t;
     t \<leftarrow> set_qprev pid prev t;
     t \<leftarrow> set_qnext prev pid t;
     set_qprev tail pid t }"

definition dequeue :: "int \<Rightarrow> qtab \<Rightarrow> (int \<times> qtab) option" where
  "dequeue q t =
     (if isbadqid q then Some (SYSERR, t)
      else do {
        emp \<leftarrow> isempty t q;
        if emp then Some (EMPTY, t)
        else do {
          (pid, t) \<leftarrow> getfirst q t;
          t \<leftarrow> set_qprev pid EMPTY t;
          t \<leftarrow> set_qnext pid EMPTY t;
          Some (pid, t) } })"

text \<open>
  \<open>insert\<close> (\<^verbatim>\<open>insert.c\<close>) after its argument check. The walk may run off the table, so
  it is a partial function: with \<open>key = MINKEY\<close> it passes the tail node.
\<close>

partial_function (option) insert_walk :: "int \<Rightarrow> int \<Rightarrow> qtab \<Rightarrow> int option" where
  "insert_walk key cur t =
     (case q_rd t cur of
        None \<Rightarrow> None
      | Some e \<Rightarrow> if qkey e \<ge> key then insert_walk key (qnext e) t else Some cur)"

definition insert_links :: "int \<Rightarrow> int \<Rightarrow> int \<Rightarrow> qtab \<Rightarrow> qtab option" where
  "insert_links pid q key t = do {
     first \<leftarrow> firstid t q;
     cur \<leftarrow> insert_walk key first t;
     e \<leftarrow> q_rd t cur;
     let prev = qprev e;
     t \<leftarrow> set_qnext pid cur t;
     t \<leftarrow> set_qprev pid prev t;
     t \<leftarrow> set_qkey pid key t;
     t \<leftarrow> set_qnext prev pid t;
     set_qprev cur pid t }"

text \<open>\<open>insertd\<close> (\<^verbatim>\<open>insertd.c\<close>) after its argument check; the loop carries \<open>key\<close>, \<open>prev\<close>
  and \<open>next\<close>.\<close>

partial_function (option) insertd_walk ::
  "int \<Rightarrow> int \<Rightarrow> int \<Rightarrow> int \<Rightarrow> qtab \<Rightarrow> (int \<times> int \<times> int) option" where
  "insertd_walk q key prev next t =
     (if next \<noteq> queuetail q
      then (case q_rd t next of
              None \<Rightarrow> None
            | Some e \<Rightarrow>
                if qkey e \<le> key
                then insertd_walk q (s32 (key - qkey e)) next (qnext e) t
                else Some (key, prev, next))
      else Some (key, prev, next))"

definition insertd_links :: "int \<Rightarrow> int \<Rightarrow> int \<Rightarrow> qtab \<Rightarrow> qtab option" where
  "insertd_links pid q key t = do {
     h \<leftarrow> q_rd t (queuehead q);
     (key, prev, next) \<leftarrow> insertd_walk q key (queuehead q) (qnext h) t;
     t \<leftarrow> set_qnext pid next t;
     t \<leftarrow> set_qprev pid prev t;
     t \<leftarrow> set_qkey pid key t;
     t \<leftarrow> set_qnext prev pid t;
     t \<leftarrow> set_qprev next pid t;
     if next \<noteq> queuetail q
     then do { e \<leftarrow> q_rd t next; set_qkey next (qkey e - key) t }
     else Some t }"

text \<open>\<open>newqueue\<close> (\<^verbatim>\<open>newqueue.c\<close>); the static \<open>nextqid\<close> is threaded.\<close>

definition newqueue :: "int \<Rightarrow> qtab \<Rightarrow> (int \<times> int \<times> qtab) option" where
  "newqueue nextqid t =
     (let q = nextqid in
      if q > NQENT then Some (SYSERR, nextqid, t)
      else do {
        let nextqid = s16 (nextqid + 2);
        t \<leftarrow> set_qnext (queuehead q) (queuetail q) t;
        t \<leftarrow> set_qprev (queuehead q) EMPTY t;
        t \<leftarrow> set_qkey (queuehead q) MAXKEY t;
        t \<leftarrow> set_qnext (queuetail q) EMPTY t;
        t \<leftarrow> set_qprev (queuetail q) (queuehead q) t;
        t \<leftarrow> set_qkey (queuetail q) MINKEY t;
        Some (q, nextqid, t) })"

section \<open>Checked accesses in range\<close>

lemma q_rd_in [range_simps]: "0 \<le> i \<Longrightarrow> i < NQENT \<Longrightarrow> q_rd t i = Some (t i)"
  by (simp add: q_rd_def)

lemma set_qnext_in [range_simps]:
  "0 \<le> i \<Longrightarrow> i < NQENT \<Longrightarrow> set_qnext i v t = Some (t(i := (t i)\<lparr>qnext := s16 v\<rparr>))"
  by (simp add: set_qnext_def)

lemma set_qprev_in [range_simps]:
  "0 \<le> i \<Longrightarrow> i < NQENT \<Longrightarrow> set_qprev i v t = Some (t(i := (t i)\<lparr>qprev := s16 v\<rparr>))"
  by (simp add: set_qprev_def)

lemma set_qkey_in [range_simps]:
  "0 \<le> i \<Longrightarrow> i < NQENT \<Longrightarrow> set_qkey i v t = Some (t(i := (t i)\<lparr>qkey := s32 v\<rparr>))"
  by (simp add: set_qkey_def)

lemma s16_node: "- 1 \<le> i \<Longrightarrow> i < NQENT \<Longrightarrow> s16 i = i"
  by (simp add: s16_id)

lemmas queue_inline = queuehead_def queuetail_def firstid_def lastid_def isempty_def
  nonempty_def firstkey_def lastkey_def

section \<open>Doubly linked segments\<close>

text \<open>\<open>dll t a xs b\<close>: following \<open>qnext\<close> from \<open>a\<close> visits \<open>xs\<close> and then \<open>b\<close>, and the
  \<open>qprev\<close> fields point back along the same path.\<close>

fun dll :: "qtab \<Rightarrow> int \<Rightarrow> int list \<Rightarrow> int \<Rightarrow> bool" where
  "dll t a [] b \<longleftrightarrow> qnext (t a) = b \<and> qprev (t b) = a"
| "dll t a (x # xs) b \<longleftrightarrow> qnext (t a) = x \<and> qprev (t x) = a \<and> dll t x xs b"

lemma dll_split: "dll t a (xs @ y # ys) b \<longleftrightarrow> dll t a xs y \<and> dll t y ys b"
  by (induction xs arbitrary: a) auto

lemma dll_cong:
  assumes "\<And>i. i = a \<or> i \<in> set xs \<Longrightarrow> qnext (t' i) = qnext (t i)"
    and "\<And>i. i = b \<or> i \<in> set xs \<Longrightarrow> qprev (t' i) = qprev (t i)"
  shows "dll t' a xs b = dll t a xs b"
  using assms by (induction xs arbitrary: a) auto

lemma dll_first: "dll t a xs b \<Longrightarrow> qnext (t a) = hd (xs @ [b])"
  by (cases xs) auto

lemma dll_last: "dll t a xs b \<Longrightarrow> qprev (t b) = last (a # xs)"
  by (induction xs arbitrary: a) auto

lemma dll_append: "dll t a (ys @ zs) b \<Longrightarrow> dll t a ys (hd (zs @ [b])) \<and> dll t (last (a # ys)) zs b"
proof (cases zs)
  case Nil
  assume "dll t a (ys @ zs) b"
  moreover have "dll t a ys b \<Longrightarrow> dll t (last (a # ys)) [] b"
    by (induction ys arbitrary: a) auto
  ultimately show ?thesis using Nil by simp
next
  case (Cons z zs')
  assume "dll t a (ys @ zs) b"
  then have d: "dll t a ys z" "dll t z zs' b"
    by (simp_all add: Cons dll_split)
  moreover have "dll t a ys z \<Longrightarrow> qnext (t (last (a # ys))) = z \<and> qprev (t z) = last (a # ys)"
    by (induction ys arbitrary: a) auto
  ultimately show ?thesis using Cons by simp
qed

text \<open>Changing the far end, or the near end, of a segment.\<close>

lemma dll_retarget_end:
  assumes "dll t a ys n" "last (a # ys) = p" "distinct (a # ys)"
    and "qnext (t' p) = m" "qprev (t' m) = p"
    and "\<And>i. i = a \<or> i \<in> set ys \<Longrightarrow> i \<noteq> p \<Longrightarrow> qnext (t' i) = qnext (t i)"
    and "\<And>i. i \<in> set ys \<Longrightarrow> qprev (t' i) = qprev (t i)"
  shows "dll t' a ys m"
  using assms
proof (induction ys arbitrary: a)
  case (Cons y ys)
  then have "a \<noteq> p"
    using last_in_set[of "y # ys"] by auto
  with Cons show ?case by auto
qed simp

lemma dll_retarget_start:
  assumes "dll t p zs b" "hd (zs @ [b]) = n" "distinct (zs @ [b])"
    and "qnext (t' m) = n" "qprev (t' n) = m"
    and "\<And>i. i \<in> set zs \<Longrightarrow> qnext (t' i) = qnext (t i)"
    and "\<And>i. i = b \<or> i \<in> set zs \<Longrightarrow> i \<noteq> n \<Longrightarrow> qprev (t' i) = qprev (t i)"
  shows "dll t' m zs b"
proof (cases zs)
  case Nil
  then show ?thesis using assms by simp
next
  case (Cons z zs')
  have "dll t' z zs' b = dll t z zs' b"
    by (rule dll_cong) (use assms Cons in auto)
  then show ?thesis using assms Cons by simp
qed

lemma dll_join:
  assumes "dll t a ys (hd (zs @ [b]))" "dll t (last (a # ys)) zs b"
  shows "dll t a (ys @ zs) b"
  using assms by (cases zs) (auto simp: dll_split)

text \<open>The table after a node has been linked between two neighbours, and after it has
  been unlinked.\<close>

definition link_between :: "int \<Rightarrow> int \<Rightarrow> int \<Rightarrow> int \<Rightarrow> qtab \<Rightarrow> qtab" where
  "link_between pid prev next key t =
     t(pid := \<lparr>qkey = key, qnext = next, qprev = prev\<rparr>,
       prev := (t prev)\<lparr>qnext := pid\<rparr>, next := (t next)\<lparr>qprev := pid\<rparr>)"

definition unlink :: "int \<Rightarrow> int \<Rightarrow> qtab \<Rightarrow> qtab" where
  "unlink prev next t = t(prev := (t prev)\<lparr>qnext := next\<rparr>, next := (t next)\<lparr>qprev := prev\<rparr>)"

lemma path_ends:
  assumes "distinct (a # ys @ zs @ [b])" "last (a # ys) = p" "hd (zs @ [b]) = n"
  shows "p \<noteq> n" "p \<notin> set zs" "p \<noteq> b" "n \<notin> set ys" "n \<noteq> a" "p = a \<or> p \<in> set ys" "n = b \<or> n \<in> set zs"
  using assms by (cases ys rule: rev_cases; cases zs; auto)+

lemma dll_link_between:
  assumes d: "dll t a (ys @ zs) b" and dist: "distinct (a # ys @ zs @ [b])"
    and fresh: "pid \<notin> set (a # ys @ zs @ [b])"
    and p: "last (a # ys) = p" and n: "hd (zs @ [b]) = n"
  shows "dll (link_between pid p n key t) a (ys @ pid # zs) b"
proof -
  note ends = path_ends[OF dist p n]
  note ap = dll_append[OF d, unfolded p n]
  have "dll (link_between pid p n key t) a ys pid"
    by (rule dll_retarget_end[OF conjunct1[OF ap] p])
      (use ends fresh dist in \<open>auto simp: link_between_def\<close>)
  moreover have "dll (link_between pid p n key t) pid zs b"
    by (rule dll_retarget_start[OF conjunct2[OF ap] n])
      (use ends fresh dist in \<open>auto simp: link_between_def\<close>)
  ultimately show ?thesis
    by (simp add: dll_split)
qed

lemma dll_unlink:
  assumes d: "dll t a (ys @ pid # zs) b" and dist: "distinct (a # ys @ pid # zs @ [b])"
    and p: "last (a # ys) = p" and n: "hd (zs @ [b]) = n"
  shows "dll (unlink p n t) a (ys @ zs) b"
proof -
  have dist': "distinct (a # ys @ zs @ [b])" using dist by auto
  note ends = path_ends[OF dist' p n]
  from d have ap: "dll t a ys pid" "dll t pid zs b" by (simp_all add: dll_split)
  have "dll (unlink p n t) a ys n"
    by (rule dll_retarget_end[OF ap(1) p])
      (use ends dist' in \<open>auto simp: unlink_def\<close>)
  moreover have "dll (unlink p n t) p zs b"
    by (rule dll_retarget_start[OF ap(2) n])
      (use ends dist' in \<open>auto simp: unlink_def\<close>)
  ultimately show ?thesis
    by (auto intro: dll_join simp only: p n)
qed

end
