(* ===== verification/Queue_Refine.thy ===== *)
theory Queue_Refine
  imports Queue_Table
begin

text \<open>
  Data refinement of the queue table: \<open>qrep n t Q\<close> says that the table \<open>t\<close>, of which
  the queues below \<open>n\<close> have been allocated, represents the family \<open>Q\<close> of process lists.
  Every operation of \<open>Queue_Table\<close> is shown to be defined on represented tables and to
  implement the list operation its comment in the source promises.
\<close>

section \<open>The representation relation\<close>

definition qid_ok :: "int \<Rightarrow> int \<Rightarrow> bool" where
  "qid_ok n q \<longleftrightarrow> NPROC \<le> q \<and> q + 1 < n \<and> even q"

definition qrep_at :: "qtab \<Rightarrow> int \<Rightarrow> int list \<Rightarrow> bool" where
  "qrep_at t q xs \<longleftrightarrow> dll t q xs (q + 1) \<and> distinct xs \<and> set xs \<subseteq> {0..<NPROC} \<and>
     qkey (t q) = MAXKEY \<and> qkey (t (q + 1)) = MINKEY"

definition qrep :: "int \<Rightarrow> qtab \<Rightarrow> (int \<Rightarrow> int list) \<Rightarrow> bool" where
  "qrep n t Q \<longleftrightarrow> n \<le> NQENT \<and> (\<forall>q. qid_ok n q \<longrightarrow> qrep_at t q (Q q)) \<and>
     (\<forall>q q'. qid_ok n q \<longrightarrow> qid_ok n q' \<longrightarrow> q \<noteq> q' \<longrightarrow> set (Q q) \<inter> set (Q q') = {})"

definition queued :: "int \<Rightarrow> (int \<Rightarrow> int list) \<Rightarrow> int set" where
  "queued n Q = (\<Union>q \<in> {q. qid_ok n q}. set (Q q))"

text \<open>The list a queue holds, read off the table: an executable abstraction function. A
  queue never holds more than \<open>NPROC\<close> processes, so \<open>NPROC\<close> steps suffice.\<close>

fun qwalk :: "nat \<Rightarrow> qtab \<Rightarrow> int \<Rightarrow> int list" where
  "qwalk 0 t x = []"
| "qwalk (Suc k) t x = (if x < NPROC then x # qwalk k t (qnext (t x)) else [])"

definition queue_of :: "qtab \<Rightarrow> int \<Rightarrow> int list" where
  "queue_of t q = qwalk (nat NPROC) t (qnext (t q))"

lemma qwalk_dll:
  assumes "dll t a xs b" "\<forall>x \<in> set xs. x < NPROC" "b \<ge> NPROC" "length xs \<le> k"
  shows "qwalk k t (qnext (t a)) = xs"
  using assms
proof (induction xs arbitrary: a k)
  case Nil
  then show ?case by (cases k) auto
next
  case (Cons x xs)
  then obtain k' where k: "k = Suc k'" "length xs \<le> k'" by (cases k) auto
  with Cons show ?case by (auto simp: k)
qed

lemma qrep_at_queue_of:
  assumes "qrep_at t q xs" "NPROC \<le> q"
  shows "queue_of t q = xs"
proof -
  have "length xs \<le> nat NPROC"
    by (rule distinct_subset_length) (use assms in \<open>auto simp: qrep_at_def\<close>)
  then show ?thesis
    unfolding queue_of_def using assms
    by (intro qwalk_dll[where b = "q + 1"]) (auto simp: qrep_at_def)
qed

lemma qrep_queue_of: "qrep n t Q \<Longrightarrow> qid_ok n q \<Longrightarrow> queue_of t q = Q q"
  by (rule qrep_at_queue_of) (auto simp: qrep_def qid_ok_def)

lemma qrepD:
  assumes "qrep n t Q" "qid_ok n q"
  shows "dll t q (Q q) (q + 1)" "distinct (Q q)" "\<forall>x \<in> set (Q q). 0 \<le> x \<and> x < NPROC"
    "qkey (t q) = MAXKEY" "qkey (t (q + 1)) = MINKEY"
    "NPROC \<le> q" "q + 1 < NQENT" "q < NQENT" "even q"
proof -
  have "qrep_at t q (Q q)" and n: "n \<le> NQENT"
    using assms by (auto simp: qrep_def)
  then show "dll t q (Q q) (q + 1)" "distinct (Q q)" "\<forall>x \<in> set (Q q). 0 \<le> x \<and> x < NPROC"
    "qkey (t q) = MAXKEY" "qkey (t (q + 1)) = MINKEY"
    by (auto simp: qrep_at_def)
  show "NPROC \<le> q" "q + 1 < NQENT" "q < NQENT" "even q"
    using assms(2) n by (auto simp: qid_ok_def)
qed

lemma qrep_nodes_distinct:
  "qrep n t Q \<Longrightarrow> qid_ok n q \<Longrightarrow> distinct (q # Q q @ [q + 1])"
  using qrepD[of n t Q q] by fastforce

lemma qrep_disjoint:
  "qrep n t Q \<Longrightarrow> qid_ok n q \<Longrightarrow> qid_ok n q' \<Longrightarrow> q \<noteq> q' \<Longrightarrow> set (Q q) \<inter> set (Q q') = {}"
  by (auto simp: qrep_def)

lemma isbadqid_ok: "qrep n t Q \<Longrightarrow> qid_ok n q \<Longrightarrow> \<not> isbadqid q"
  by (auto simp: qrep_def qid_ok_def isbadqid_def)

section \<open>Frame rules\<close>

text \<open>A table that differs only at nodes of one queue and at unqueued nodes represents the
  same lists elsewhere.\<close>

lemma qrep_frame:
  assumes rep: "qrep n t Q" and q: "qid_ok n q"
    and at: "qrep_at t' q xs"
    and same: "\<And>i. i \<notin> insert pid (insert q (insert (q + 1) (set (Q q)))) \<Longrightarrow>
        qnext (t' i) = qnext (t i) \<and> qprev (t' i) = qprev (t i)"
    and keys: "\<And>i. NPROC \<le> i \<Longrightarrow> qkey (t' i) = qkey (t i)"
    and sub: "set xs \<subseteq> insert pid (set (Q q))"
    and pid: "pid \<in> set (Q q) \<or> pid \<notin> queued n Q" "pid < NPROC"
  shows "qrep n t' (Q(q := xs))"
  unfolding qrep_def
proof (intro conjI allI impI)
  show "n \<le> NQENT" using rep by (simp add: qrep_def)
next
  fix r assume r: "qid_ok n r"
  show "qrep_at t' r ((Q(q := xs)) r)"
  proof (cases "r = q")
    case True with at show ?thesis by simp
  next
    case False
    note R = qrepD[OF rep r] and K = qrepD[OF rep q] and dis = qrep_disjoint[OF rep r q False]
    have "pid \<notin> set (Q r)" using pid(1) dis r by (auto simp: queued_def)
    moreover have "r \<noteq> q + 1" "r + 1 \<noteq> q" using R(9) K(9) by auto
    ultimately have out: "i \<notin> insert pid (insert q (insert (q + 1) (set (Q q))))"
      if "i = r \<or> i = r + 1 \<or> i \<in> set (Q r)" for i
      using that dis R K False pid(2) by fastforce
    have "dll t' r (Q r) (r + 1) = dll t r (Q r) (r + 1)"
      by (rule dll_cong) (use same out in blast)+
    with R keys[of r] keys[of "r + 1"] False show ?thesis by (auto simp: qrep_at_def)
  qed
next
  fix r r' assume r: "qid_ok n r" "qid_ok n r'" "r \<noteq> r'"
  have "set xs \<inter> set (Q s) = {}" if "qid_ok n s" "s \<noteq> q" for s
    using sub pid(1) qrep_disjoint[OF rep q that(1)] that by (auto simp: queued_def)
  with r qrep_disjoint[OF rep r] show "set ((Q(q := xs)) r) \<inter> set ((Q(q := xs)) r') = {}"
    by auto
qed

lemma qrep_key_upd:
  assumes "qrep n t Q" "i < NPROC"
  shows "qrep n (t(i := (t i)\<lparr>qkey := k\<rparr>)) Q"
proof -
  have "dll (t(i := (t i)\<lparr>qkey := k\<rparr>)) a xs b = dll t a xs b" for a xs b
    by (rule dll_cong) auto
  then show ?thesis
    using assms by (auto simp: qrep_def qrep_at_def qid_ok_def)
qed

lemma qrep_free_upd:
  assumes "qrep n t Q" "pid < NPROC" "pid \<notin> queued n Q"
  shows "qrep n (t(pid := e)) Q"
proof -
  have "qrep_at (t(pid := e)) q (Q q)" if q: "qid_ok n q" for q
  proof -
    have "pid \<notin> set (Q q)" "pid \<noteq> q" "pid \<noteq> q + 1"
      using assms(2,3) q by (auto simp: queued_def qid_ok_def)
    then have "dll (t(pid := e)) q (Q q) (q + 1) = dll t q (Q q) (q + 1)"
      by (intro dll_cong) auto
    with qrepD[OF assms(1) q] \<open>pid \<noteq> q\<close> \<open>pid \<noteq> q + 1\<close> show ?thesis
      by (auto simp: qrep_at_def)
  qed
  with assms(1) show ?thesis by (simp add: qrep_def)
qed

section \<open>Linking and unlinking\<close>

lemma qrep_link:
  assumes rep: "qrep n t Q" and q: "qid_ok n q" and Q: "Q q = ys @ zs"
    and pid: "0 \<le> pid" "pid < NPROC" "pid \<notin> queued n Q"
    and p: "last (q # ys) = p" and s: "hd (zs @ [q + 1]) = s"
  shows "qrep n (link_between pid p s key t) (Q(q := ys @ pid # zs))"
proof -
  note K = qrepD[OF rep q]
  have dist: "distinct (q # ys @ zs @ [q + 1])"
    using qrep_nodes_distinct[OF rep q] by (simp add: Q)
  have fresh: "pid \<notin> set (q # ys @ zs @ [q + 1])"
    using K pid q by (auto simp: queued_def Q)
  note ends = path_ends[OF dist p s]
  have "dll (link_between pid p s key t) q (ys @ pid # zs) (q + 1)"
    by (rule dll_link_between) (use K(1) dist fresh p s Q in simp_all)
  moreover have keys: "qkey (link_between pid p s key t i) = qkey (t i)" if "NPROC \<le> i" for i
    using that pid(2) ends by (auto simp: link_between_def)
  ultimately have at: "qrep_at (link_between pid p s key t) q (ys @ pid # zs)"
    using K fresh pid Q by (auto simp: qrep_at_def)
  show ?thesis
    by (rule qrep_frame[OF rep q at, where pid = pid])
      (use ends keys pid Q in \<open>auto simp: link_between_def\<close>)
qed

lemma qrep_unlink:
  assumes rep: "qrep n t Q" and q: "qid_ok n q" and Q: "Q q = ys @ pid # zs"
    and p: "last (q # ys) = p" and s: "hd (zs @ [q + 1]) = s"
  shows "qrep n (unlink p s t) (Q(q := ys @ zs))"
proof -
  note K = qrepD[OF rep q]
  have dist: "distinct (q # ys @ pid # zs @ [q + 1])"
    using qrep_nodes_distinct[OF rep q] by (simp add: Q)
  then have dist': "distinct (q # ys @ zs @ [q + 1])" by auto
  note ends = path_ends[OF dist' p s]
  have "dll (unlink p s t) q (ys @ zs) (q + 1)"
    by (rule dll_unlink[where pid = pid]) (use K(1) dist p s Q in simp_all)
  moreover have keys: "qkey (unlink p s t i) = qkey (t i)" for i
    using ends by (auto simp: unlink_def)
  ultimately have at: "qrep_at (unlink p s t) q (ys @ zs)"
    using K dist Q by (auto simp: qrep_at_def)
  show ?thesis
    by (rule qrep_frame[OF rep q at, where pid = pid])
      (use ends keys K Q in \<open>auto simp: unlink_def\<close>)
qed

lemma qrep_neighbours:
  assumes rep: "qrep n t Q" and q: "qid_ok n q" and Q: "Q q = ys @ zs"
    and p: "last (q # ys) = p" and s: "hd (zs @ [q + 1]) = s"
  shows "0 \<le> p" "p < NQENT" "0 \<le> s" "s < NQENT" "p \<noteq> s" "qnext (t p) = s" "qprev (t s) = p"
    "p = q \<or> p \<in> set (Q q)" "s = q + 1 \<or> s \<in> set (Q q)"
proof -
  note K = qrepD[OF rep q]
  have dist: "distinct (q # ys @ zs @ [q + 1])"
    using qrep_nodes_distinct[OF rep q] by (simp add: Q)
  note ends = path_ends[OF dist p s]
  from ends(6,7) Q show ps: "p = q \<or> p \<in> set (Q q)" "s = q + 1 \<or> s \<in> set (Q q)" by auto
  with K(3,6,7) show "0 \<le> p" "p < NQENT" "0 \<le> s" "s < NQENT" by fastforce+
  show "p \<noteq> s" by (rule ends(1))
  have "dll t q ys s" "dll t p zs (q + 1)"
    using dll_append[of t q ys zs "q + 1", unfolded p s] K(1) by (simp_all add: Q)
  then show "qnext (t p) = s" "qprev (t s) = p"
    using dll_first[of t p zs "q + 1", unfolded s] dll_last[of t q ys s, unfolded p] by simp_all
qed

end
