(* ===== verification/Queue_Ops.thy ===== *)
theory Queue_Ops
  imports Queue_Refine
begin

text \<open>
  What each queue operation does to the lists it represents: \<open>enqueue\<close> appends,
  \<open>getitem\<close> removes a process wherever it is, \<open>getfirst\<close>, \<open>dequeue\<close> and \<open>getlast\<close>
  remove an end, \<open>insert\<close> keeps a queue in descending key order with equal keys in
  arrival order, \<open>insertd\<close> keeps a delta list, and \<open>newqueue\<close> adds an empty queue.
\<close>

section \<open>Queue emptiness and ends\<close>

lemma firstid_rep:
  assumes "qrep n t Q" "qid_ok n q"
  shows "firstid t q = Some (hd (Q q @ [q + 1]))"
  using qrepD[OF assms] dll_first[OF qrepD(1)[OF assms]] by (simp add: firstid_def queuehead_def range_simps)

lemma isempty_rep:
  assumes "qrep n t Q" "qid_ok n q"
  shows "isempty t q = Some (Q q = [])"
  using qrepD[OF assms] by (cases "Q q") (auto simp: isempty_def firstid_rep[OF assms])

lemma nonempty_rep:
  assumes "qrep n t Q" "qid_ok n q"
  shows "nonempty t q = Some (Q q \<noteq> [])"
  using qrepD[OF assms] by (cases "Q q") (auto simp: nonempty_def firstid_rep[OF assms])

lemma firstkey_rep:
  assumes "qrep n t Q" "qid_ok n q"
  shows "firstkey t q = Some (if Q q = [] then MINKEY else qkey (t (hd (Q q))))"
  using qrepD[OF assms]
  by (cases "Q q") (auto simp: firstkey_def firstid_rep[OF assms] range_simps)

section \<open>Removal\<close>

lemma qentry_links: "e\<lparr>qnext := a, qprev := b\<rparr> = \<lparr>qkey = qkey e, qnext = a, qprev = b\<rparr>"
  by (cases e) simp

lemma qentry_all: "e\<lparr>qnext := a, qprev := b, qkey := k\<rparr> = \<lparr>qkey = k, qnext = a, qprev = b\<rparr>"
  by (cases e) simp

lemma getitem_rep:
  assumes rep: "qrep n t Q" and q: "qid_ok n q" and mem: "pid \<in> set (Q q)"
  shows "\<exists>t'. getitem pid t = Some (pid, t') \<and> qrep n t' (Q(q := remove1 pid (Q q))) \<and>
    (\<forall>i. qkey (t' i) = qkey (t i))"
proof -
  from mem obtain ys zs where Q: "Q q = ys @ pid # zs" "pid \<notin> set ys"
    by (meson split_list_first)
  obtain p s where p: "last (q # ys) = p" and s: "hd (zs @ [q + 1]) = s" by blast
  have Qp: "Q q = ys @ (pid # zs)" and Qs: "Q q = (ys @ [pid]) @ zs" using Q(1) by simp_all
  note P = qrep_neighbours[OF rep q Qp p refl] and S = qrep_neighbours[OF rep q Qs refl s]
  have links: "qnext (t pid) = s" "qprev (t pid) = p"
    using P S by simp_all
  have "distinct (q # ys @ zs @ [q + 1])"
    using qrep_nodes_distinct[OF rep q] by (simp add: Q)
  then have ne: "p \<noteq> s" using p s by (rule path_ends)
  have "0 \<le> pid" "pid < NQENT" using qrepD(3)[OF rep q] mem by auto
  then have "getitem pid t = Some (pid, unlink p s t)"
    using P(1,2) S(3,4) links ne by (simp add: getitem_def range_simps unlink_def s16_node)
  moreover have "qrep n (unlink p s t) (Q(q := ys @ zs))"
    by (rule qrep_unlink[OF rep q Q(1) p s])
  moreover have "qkey (unlink p s t i) = qkey (t i)" for i
    by (auto simp: unlink_def)
  ultimately show ?thesis
    using Q by (simp add: remove1_split)
qed

lemma getfirst_rep_empty:
  "qrep n t Q \<Longrightarrow> qid_ok n q \<Longrightarrow> Q q = [] \<Longrightarrow> getfirst q t = Some (EMPTY, t)"
  by (simp add: getfirst_def isempty_rep)

lemma getfirst_rep:
  assumes rep: "qrep n t Q" and q: "qid_ok n q" and Q: "Q q = x # xs"
  shows "\<exists>t'. getfirst q t = Some (x, t') \<and> qrep n t' (Q(q := xs)) \<and>
    (\<forall>i. qkey (t' i) = qkey (t i))"
proof -
  have "qnext (t q) = x" using dll_first[OF qrepD(1)[OF rep q]] Q by simp
  moreover obtain t' where "getitem x t = Some (x, t')" "qrep n t' (Q(q := remove1 x (Q q)))"
    "\<forall>i. qkey (t' i) = qkey (t i)"
    using getitem_rep[OF rep q, of x] Q by auto
  ultimately show ?thesis
    using Q qrepD[OF rep q] by (auto simp: getfirst_def isempty_rep[OF rep q] queuehead_def range_simps)
qed

lemma getlast_rep_empty:
  "qrep n t Q \<Longrightarrow> qid_ok n q \<Longrightarrow> Q q = [] \<Longrightarrow> getlast q t = Some (EMPTY, t)"
  by (simp add: getlast_def isempty_rep)

lemma getlast_rep:
  assumes rep: "qrep n t Q" and q: "qid_ok n q" and Q: "Q q = xs @ [x]"
  shows "\<exists>t'. getlast q t = Some (x, t') \<and> qrep n t' (Q(q := xs)) \<and>
    (\<forall>i. qkey (t' i) = qkey (t i))"
proof -
  have "qprev (t (q + 1)) = x" using dll_last[OF qrepD(1)[OF rep q]] Q by simp
  moreover obtain t' where "getitem x t = Some (x, t')" "qrep n t' (Q(q := remove1 x (Q q)))"
    "\<forall>i. qkey (t' i) = qkey (t i)"
    using getitem_rep[OF rep q, of x] Q by auto
  moreover have "x \<notin> set xs" using qrepD(2)[OF rep q] Q by simp
  ultimately show ?thesis
    using Q qrepD[OF rep q]
    by (auto simp: getlast_def isempty_rep[OF rep q] queuetail_def range_simps remove1_append)
qed

lemma dequeue_rep_empty:
  "qrep n t Q \<Longrightarrow> qid_ok n q \<Longrightarrow> Q q = [] \<Longrightarrow> dequeue q t = Some (EMPTY, t)"
  by (simp add: dequeue_def isempty_rep isbadqid_ok)

lemma queued_remove_hd:
  assumes "qrep n t Q" "qid_ok n q" "Q q = x # xs"
  shows "x \<notin> queued n (Q(q := xs))"
proof -
  have "x \<notin> set (Q q')" if "qid_ok n q'" "q' \<noteq> q" for q'
    using qrep_disjoint[OF assms(1) that(1) assms(2)] that assms(3) by auto
  moreover have "x \<notin> set xs" using qrepD(2)[OF assms(1,2)] assms(3) by simp
  ultimately show ?thesis by (auto simp: queued_def)
qed

lemma dequeue_rep:
  assumes rep: "qrep n t Q" and q: "qid_ok n q" and Q: "Q q = x # xs"
  shows "\<exists>t'. dequeue q t = Some (x, t') \<and> qrep n t' (Q(q := xs)) \<and>
    (\<forall>i. qkey (t' i) = qkey (t i))"
proof -
  obtain t1 where g: "getfirst q t = Some (x, t1)" "qrep n t1 (Q(q := xs))"
    "\<forall>i. qkey (t1 i) = qkey (t i)"
    using getfirst_rep[OF rep q Q] by blast
  have x: "0 \<le> x" "x < NPROC" using qrepD(3)[OF rep q] Q by auto
  let ?t = "t1(x := (t1 x)\<lparr>qprev := EMPTY, qnext := EMPTY\<rparr>)"
  have "dequeue q t = Some (x, ?t)"
    using g(1) x Q
    by (simp add: dequeue_def isbadqid_ok[OF rep q] isempty_rep[OF rep q] range_simps s16_node)
  moreover have "qrep n ?t (Q(q := xs))"
    by (rule qrep_free_upd[OF g(2) x(2) queued_remove_hd[OF rep q Q]])
  ultimately show ?thesis using g(3) by auto
qed

section \<open>Insertion at the tail\<close>

lemma not_queued_mem: "pid \<notin> queued n Q \<Longrightarrow> qid_ok n q \<Longrightarrow> pid \<notin> set (Q q)"
  by (auto simp: queued_def)

lemma enqueue_links_rep:
  assumes rep: "qrep n t Q" and q: "qid_ok n q"
    and pid: "0 \<le> pid" "pid < NPROC" "pid \<notin> queued n Q"
  shows "\<exists>t'. enqueue_links pid q t = Some t' \<and> qrep n t' (Q(q := Q q @ [pid])) \<and>
    (\<forall>i. qkey (t' i) = qkey (t i))"
proof -
  have Q: "Q q = Q q @ []" by simp
  obtain p where p: "last (q # Q q) = p" by blast
  note N = qrep_neighbours[OF rep q Q p refl, simplified]
  have ne: "pid \<noteq> p" "pid \<noteq> q + 1"
    using not_queued_mem[OF pid(3) q] N(8) pid qrepD(6)[OF rep q] by auto
  let ?t = "link_between pid p (q + 1) (qkey (t pid)) t"
  have "enqueue_links pid q t = Some ?t"
    using pid N ne qrepD(6,7)[OF rep q]
    by (simp add: enqueue_links_def queuetail_def range_simps s16_node link_between_def Let_def
        qentry_links)
  moreover have "qrep n ?t (Q(q := Q q @ [pid]))"
    using qrep_link[OF rep q Q pid p refl] by simp
  moreover have "qkey (?t i) = qkey (t i)" for i
    using ne by (auto simp: link_between_def)
  ultimately show ?thesis by blast
qed

section \<open>Insertion by key\<close>

lemma insert_walk_dll:
  assumes "dll t a xs b" "\<forall>x \<in> set xs. 0 \<le> x \<and> x < NQENT" "0 \<le> b" "b < NQENT" "qkey (t b) < key"
  shows "insert_walk key (qnext (t a)) t = Some (hd (dropWhile (\<lambda>x. qkey (t x) \<ge> key) xs @ [b]))"
  using assms
proof (induction xs arbitrary: a)
  case Nil
  then show ?case by (subst insert_walk.simps) (simp add: range_simps)
next
  case (Cons x xs)
  then show ?case by (subst insert_walk.simps) (simp add: range_simps)
qed

lemma insert_links_rep:
  assumes rep: "qrep n t Q" and q: "qid_ok n q"
    and pid: "0 \<le> pid" "pid < NPROC" "pid \<notin> queued n Q"
    and key: "MINKEY < key" "key \<le> MAXKEY"
  shows "\<exists>t'. insert_links pid q key t = Some t' \<and>
    qrep n t' (Q(q := takeWhile (\<lambda>x. qkey (t x) \<ge> key) (Q q) @ pid #
                      dropWhile (\<lambda>x. qkey (t x) \<ge> key) (Q q))) \<and>
    (\<forall>i. qkey (t' i) = (if i = pid then key else qkey (t i)))"
proof -
  let ?ys = "takeWhile (\<lambda>x. qkey (t x) \<ge> key) (Q q)"
  let ?zs = "dropWhile (\<lambda>x. qkey (t x) \<ge> key) (Q q)"
  have Q: "Q q = ?ys @ ?zs" by simp
  obtain p s where p: "last (q # ?ys) = p" and s: "hd (?zs @ [q + 1]) = s" by blast
  note N = qrep_neighbours[OF rep q Q p s] and K = qrepD[OF rep q]
  have ne: "pid \<noteq> p" "pid \<noteq> s"
    using not_queued_mem[OF pid(3) q] N(8,9) pid K(6) by auto
  have "insert_walk key (qnext (t q)) t = Some (hd (?zs @ [q + 1]))"
    by (rule insert_walk_dll) (use K key in auto)
  then have walk: "insert_walk key (qnext (t q)) t = Some s" unfolding s .
  let ?t = "link_between pid p s key t"
  have "insert_links pid q key t = Some ?t"
    using pid N ne K walk key
    by (simp add: insert_links_def firstid_def queuehead_def range_simps s16_node s32_id
        link_between_def Let_def qentry_all)
  moreover have "qrep n ?t (Q(q := ?ys @ pid # ?zs))"
    by (rule qrep_link[OF rep q Q pid p s])
  moreover have "qkey (?t i) = (if i = pid then key else qkey (t i))" for i
    using ne by (auto simp: link_between_def)
  ultimately show ?thesis by blast
qed

section \<open>Insertion into a delta list\<close>

text \<open>Where \<open>insertd\<close> stops: the remaining key, the nodes passed and the nodes left.\<close>

fun delta_walk :: "(int \<Rightarrow> int) \<Rightarrow> int \<Rightarrow> int list \<Rightarrow> int \<times> int list \<times> int list" where
  "delta_walk f k [] = (k, [], [])"
| "delta_walk f k (x # xs) =
     (if f x \<le> k
      then (case delta_walk f (s32 (k - f x)) xs of (k', ys, zs) \<Rightarrow> (k', x # ys, zs))
      else (k, [], x # xs))"

lemma delta_walk_append: "delta_walk f k xs = (k', ys, zs) \<Longrightarrow> xs = ys @ zs"
  by (induction f k xs arbitrary: k' ys zs rule: delta_walk.induct)
    (auto split: if_splits prod.splits)

lemma delta_walk_range:
  "delta_walk f k xs = (k', ys, zs) \<Longrightarrow> MINKEY \<le> k \<Longrightarrow> k \<le> MAXKEY \<Longrightarrow> MINKEY \<le> k' \<and> k' \<le> MAXKEY"
proof (induction f k xs arbitrary: k' ys zs rule: delta_walk.induct)
  case (2 f k x xs)
  have "MINKEY \<le> s32 (k - f x)" "s32 (k - f x) \<le> MAXKEY"
    using s32_range[of "k - f x"] by auto
  with 2 show ?case by (auto split: if_splits prod.splits)
qed auto

lemma insertd_walk_dll:
  assumes "dll t a xs (q + 1)" "\<forall>x \<in> set xs. 0 \<le> x \<and> x < NPROC" "NPROC \<le> q"
  shows "insertd_walk q k a (qnext (t a)) t =
    (case delta_walk (\<lambda>x. qkey (t x)) k xs of
       (k', ys, zs) \<Rightarrow> Some (k', last (a # ys), hd (zs @ [q + 1])))"
  using assms
proof (induction xs arbitrary: a k)
  case Nil
  then show ?case by (subst insertd_walk.simps) (simp add: queuetail_def)
next
  case (Cons x xs)
  then have "x \<noteq> q + 1" by auto
  with Cons show ?case
    by (subst insertd_walk.simps) (auto simp: queuetail_def range_simps split: prod.splits)
qed

lemma insertd_links_rep:
  assumes rep: "qrep n t Q" and q: "qid_ok n q"
    and pid: "0 \<le> pid" "pid < NPROC" "pid \<notin> queued n Q"
    and key: "MINKEY \<le> key" "key \<le> MAXKEY"
    and w: "delta_walk (\<lambda>x. qkey (t x)) key (Q q) = (k', ys, zs)"
  shows "\<exists>t'. insertd_links pid q key t = Some t' \<and> qrep n t' (Q(q := ys @ pid # zs)) \<and>
    (\<forall>i. qkey (t' i) = (if i = pid then k'
        else if zs \<noteq> [] \<and> i = hd zs then s32 (qkey (t i) - k') else qkey (t i)))"
proof -
  have Q: "Q q = ys @ zs" using delta_walk_append[OF w] .
  obtain p s where p: "last (q # ys) = p" and s: "hd (zs @ [q + 1]) = s" by blast
  note N = qrep_neighbours[OF rep q Q p s] and K = qrepD[OF rep q]
  have k': "MINKEY \<le> k'" "k' \<le> MAXKEY" using delta_walk_range[OF w key] by auto
  have ne: "pid \<noteq> p" "pid \<noteq> s"
    using not_queued_mem[OF pid(3) q] N(8,9) pid K(6) by auto
  have "insertd_walk q key q (qnext (t q)) t = Some (k', last (q # ys), hd (zs @ [q + 1]))"
    using insertd_walk_dll[of t q "Q q" q key] K w by simp
  then have walk: "insertd_walk q key q (qnext (t q)) t = Some (k', p, s)" unfolding p s .
  let ?t = "link_between pid p s k' t"
  have linked: "qrep n ?t (Q(q := ys @ pid # zs))" by (rule qrep_link[OF rep q Q pid p s])
  have keys: "qkey (?t i) = (if i = pid then k' else qkey (t i))" for i
    using ne by (auto simp: link_between_def)
  have run: "insertd_links pid q key t =
      (if s \<noteq> q + 1 then set_qkey s (qkey (t s) - k') ?t else Some ?t)"
    using pid N ne K walk k'
    by (simp add: insertd_links_def queuehead_def queuetail_def range_simps s16_node s32_id
        link_between_def Let_def qentry_all)
  show ?thesis
  proof (cases zs)
    case Nil
    then have "s = q + 1" using s by simp
    then show ?thesis using run linked keys Nil by auto
  next
    case (Cons z zs')
    then have z: "s = z" "z < NPROC" "z \<noteq> q + 1" using s K(3,6) Q by auto
    have "insertd_links pid q key t = Some (?t(s := (?t s)\<lparr>qkey := s32 (qkey (t s) - k')\<rparr>))"
      using run z N by (simp add: range_simps)
    moreover have "qrep n (?t(s := (?t s)\<lparr>qkey := s32 (qkey (t s) - k')\<rparr>)) (Q(q := ys @ pid # zs))"
      by (rule qrep_key_upd[OF linked]) (use z in simp)
    ultimately show ?thesis using keys ne Cons z by auto
  qed
qed

text \<open>The same as an insertion into the list of (process, delay) pairs.\<close>

fun delta_insert :: "int \<Rightarrow> int \<Rightarrow> (int \<times> int) list \<Rightarrow> (int \<times> int) list" where
  "delta_insert pid k [] = [(pid, k)]"
| "delta_insert pid k ((x, d) # xs) =
     (if d \<le> k then (x, d) # delta_insert pid (s32 (k - d)) xs
      else (pid, k) # (x, s32 (d - k)) # xs)"

definition deltas :: "qtab \<Rightarrow> int list \<Rightarrow> (int \<times> int) list" where
  "deltas t xs = map (\<lambda>x. (x, qkey (t x))) xs"

lemma delta_walk_insert:
  assumes "delta_walk f k xs = (k', ys, zs)" "distinct xs" "pid \<notin> set xs"
    and "\<And>i. g i = (if i = pid then k'
        else if zs \<noteq> [] \<and> i = hd zs then s32 (f i - k') else f i)"
  shows "map (\<lambda>x. (x, g x)) (ys @ pid # zs) = delta_insert pid k (map (\<lambda>x. (x, f x)) xs)"
  using assms
proof (induction f k xs arbitrary: k' ys zs rule: delta_walk.induct)
  case (2 f k x xs)
  show ?case
  proof (cases "f x \<le> k")
    case True
    then obtain ys' where ys: "ys = x # ys'"
      and w: "delta_walk f (s32 (k - f x)) xs = (k', ys', zs)"
      using "2.prems"(1) by (auto split: prod.splits)
    have "x \<notin> set zs" using delta_walk_append[OF w] "2.prems"(2) by auto
    then have "g x = f x" using "2.prems"(3,4) hd_in_set[of zs] by auto
    then show ?thesis using "2.IH"[OF True w] "2.prems" True ys by auto
  next
    case False
    then have "k' = k" "ys = []" "zs = x # xs" using "2.prems"(1) by auto
    with False "2.prems" show ?thesis by auto
  qed
qed auto

lemma insertd_links_deltas:
  assumes rep: "qrep n t Q" and q: "qid_ok n q"
    and pid: "0 \<le> pid" "pid < NPROC" "pid \<notin> queued n Q"
    and key: "MINKEY \<le> key" "key \<le> MAXKEY"
  shows "\<exists>t' xs. insertd_links pid q key t = Some t' \<and> qrep n t' (Q(q := xs)) \<and>
    set xs = insert pid (set (Q q)) \<and>
    deltas t' xs = delta_insert pid key (deltas t (Q q)) \<and>
    (\<forall>i. i \<notin> insert pid (set (Q q)) \<longrightarrow> qkey (t' i) = qkey (t i))"
proof -
  obtain k' ys zs where w: "delta_walk (\<lambda>x. qkey (t x)) key (Q q) = (k', ys, zs)"
    by (metis prod_cases3)
  obtain t' where t': "insertd_links pid q key t = Some t'" "qrep n t' (Q(q := ys @ pid # zs))"
    "\<forall>i. qkey (t' i) = (if i = pid then k'
        else if zs \<noteq> [] \<and> i = hd zs then s32 (qkey (t i) - k') else qkey (t i))"
    using insertd_links_rep[OF rep q pid key w] by blast
  have Q: "Q q = ys @ zs" using delta_walk_append[OF w] .
  have "deltas t' (ys @ pid # zs) = delta_insert pid key (deltas t (Q q))"
    unfolding deltas_def
    by (rule delta_walk_insert[OF w]) (use t'(3) qrepD(2)[OF rep q] not_queued_mem[OF pid(3) q] in auto)
  moreover have "qkey (t' i) = qkey (t i)" if "i \<notin> insert pid (set (Q q))" for i
    using that t'(3) Q hd_in_set[of zs] by auto
  moreover have "set (ys @ pid # zs) = insert pid (set (Q q))" using Q by auto
  ultimately show ?thesis using t' by blast
qed

section \<open>A new queue\<close>

lemma newqueue_rep:
  assumes rep: "qrep n t Q" and n: "NPROC \<le> n" "n + 1 < NQENT" "even n"
  shows "\<exists>t'. newqueue n t = Some (n, n + 2, t') \<and> qrep (n + 2) t' (Q(n := [])) \<and>
    (\<forall>i. i < n \<longrightarrow> t' i = t i)"
proof -
  let ?t = "t(n := \<lparr>qkey = MAXKEY, qnext = n + 1, qprev = EMPTY\<rparr>,
              n + 1 := \<lparr>qkey = MINKEY, qnext = EMPTY, qprev = n\<rparr>)"
  have "newqueue n t = Some (n, n + 2, ?t)"
    using n by (simp add: newqueue_def queuehead_def queuetail_def range_simps s16_node s16_id
        s32_id Let_def qentry_all)
  moreover have "qrep (n + 2) ?t (Q(n := []))"
    unfolding qrep_def
  proof (intro conjI allI impI)
    show "n + 2 \<le> NQENT" using n by simp
  next
    fix q assume q: "qid_ok (n + 2) q"
    show "qrep_at ?t q ((Q(n := [])) q)"
    proof (cases "q = n")
      case True then show ?thesis by (simp add: qrep_at_def)
    next
      case False
      have q': "qid_ok n q" using q False n(3) by (auto simp: qid_ok_def elim!: evenE)
      note K = qrepD[OF rep q']
      have out: "q \<noteq> n" "q \<noteq> n + 1" "q + 1 \<noteq> n" "\<forall>x \<in> set (Q q). x < n"
        using q' n K(3) by (auto simp: qid_ok_def)
      then have "dll ?t q (Q q) (q + 1) = dll t q (Q q) (q + 1)"
        by (intro dll_cong) auto
      with K out show ?thesis by (auto simp: qrep_at_def)
    qed
  next
    fix q q' assume "qid_ok (n + 2) q" "qid_ok (n + 2) q'" "q \<noteq> q'"
    moreover have "qid_ok n r" if "qid_ok (n + 2) r" "r \<noteq> n" for r
      using that n(3) by (auto simp: qid_ok_def elim!: evenE)
    ultimately show "set ((Q(n := [])) q) \<inter> set ((Q(n := [])) q') = {}"
      using qrep_disjoint[OF rep] by (cases "q = n"; cases "q' = n") auto
  qed
  ultimately show ?thesis by auto
qed

end
