(* ===== verification/Memory.thy ===== *)
theory Memory
  imports Xinu_Base
begin

unbundle bit_operations_syntax

text \<open>
  The heap allocator (\<^verbatim>\<open>include/memory.h\<close>, \<^verbatim>\<open>system/meminit.c\<close>, \<^verbatim>\<open>system/getmem.c\<close>,
  \<^verbatim>\<open>system/getstk.c\<close>, \<^verbatim>\<open>system/freemem.c\<close>). The free list lives inside the memory it
  manages: a free block at address \<open>b\<close> is a \<open>struct memblk\<close> whose \<open>mnext\<close> is the word at
  \<open>b\<close> and whose \<open>mlength\<close> is the word at \<open>b + 4\<close>. The global \<open>memlist\<close> is such a block
  too, at an address \<open>ml\<close> chosen by the linker, so that \<open>prev = &memlist\<close> needs no special
  case, as in the source. Memory is read and written a word at a time; a misaligned access
  and a dereference of \<open>NULL\<close> are outside the model (\<open>None\<close>).
\<close>

section \<open>Words of memory\<close>

type_synonym memory = "uint32 \<Rightarrow> uint32"

definition ld :: "uint32 \<Rightarrow> memory \<Rightarrow> uint32 option" where
  "ld a m = (if a \<noteq> 0 \<and> a AND 3 = 0 then Some (m a) else None)"

definition st :: "uint32 \<Rightarrow> uint32 \<Rightarrow> memory \<Rightarrow> memory option" where
  "st a v m = (if a \<noteq> 0 \<and> a AND 3 = 0 then Some (m(a := v)) else None)"

abbreviation (input) SYSERR_ptr :: uint32 where "SYSERR_ptr \<equiv> - 1"

section \<open>The allocator\<close>

definition roundmb :: "uint32 \<Rightarrow> uint32" where
  "roundmb x = (7 + x) AND NOT 7"

definition truncmb :: "uint32 \<Rightarrow> uint32" where
  "truncmb x = x AND NOT 7"

definition meminit :: "uint32 \<Rightarrow> uint32 \<Rightarrow> uint32 \<Rightarrow> memory \<Rightarrow> memory option" where
  "meminit ml minheap maxheap m = do {
     m \<leftarrow> st ml minheap m;
     memptr \<leftarrow> ld ml m;
     m \<leftarrow> st memptr 0 m;
     st (memptr + 4) (maxheap - minheap) m }"

text \<open>The search loop of \<open>getmem\<close>: first fit, splitting the low end off a larger block.\<close>

partial_function (option) getmem_loop ::
  "uint32 \<Rightarrow> uint32 \<Rightarrow> uint32 \<Rightarrow> uint32 \<Rightarrow> memory \<Rightarrow> (uint32 \<times> memory) option" where
  "getmem_loop ml nbytes prev cur m =
     (if cur = 0 then Some (SYSERR_ptr, m)
      else case ld (cur + 4) m of
        None \<Rightarrow> None
      | Some len \<Rightarrow>
          if len = nbytes then do {
            nx \<leftarrow> ld cur m;
            m \<leftarrow> st prev nx m;
            total \<leftarrow> ld (ml + 4) m;
            m \<leftarrow> st (ml + 4) (total - nbytes) m;
            Some (cur, m) }
          else if len > nbytes then do {
            let leftover = cur + nbytes;
            m \<leftarrow> st prev leftover m;
            nx \<leftarrow> ld cur m;
            m \<leftarrow> st leftover nx m;
            len \<leftarrow> ld (cur + 4) m;
            m \<leftarrow> st (leftover + 4) (len - nbytes) m;
            total \<leftarrow> ld (ml + 4) m;
            m \<leftarrow> st (ml + 4) (total - nbytes) m;
            Some (cur, m) }
          else (case ld cur m of None \<Rightarrow> None | Some nx \<Rightarrow> getmem_loop ml nbytes cur nx m))"

definition getmem :: "uint32 \<Rightarrow> uint32 \<Rightarrow> memory \<Rightarrow> (uint32 \<times> memory) option" where
  "getmem ml nbytes m =
     (if nbytes = 0 then Some (SYSERR_ptr, m)
      else do { first \<leftarrow> ld ml m; getmem_loop ml (roundmb nbytes) ml first m })"

text \<open>\<open>getstk\<close>: the last block that fits, its high end; the result is the highest word.\<close>

partial_function (option) getstk_loop ::
  "uint32 \<Rightarrow> uint32 \<Rightarrow> uint32 \<Rightarrow> uint32 \<Rightarrow> uint32 \<Rightarrow> memory \<Rightarrow> (uint32 \<times> uint32) option" where
  "getstk_loop nbytes prev cur fits fitsprev m =
     (if cur = 0 then Some (fits, fitsprev)
      else case ld (cur + 4) m of
        None \<Rightarrow> None
      | Some len \<Rightarrow> (case ld cur m of
          None \<Rightarrow> None
        | Some nx \<Rightarrow>
            if len \<ge> nbytes then getstk_loop nbytes cur nx cur prev m
            else getstk_loop nbytes cur nx fits fitsprev m))"

definition getstk :: "uint32 \<Rightarrow> uint32 \<Rightarrow> memory \<Rightarrow> (uint32 \<times> memory) option" where
  "getstk ml nbytes m =
     (if nbytes = 0 then Some (SYSERR_ptr, m)
      else do {
        let nbytes = roundmb nbytes;
        first \<leftarrow> ld ml m;
        (fits, fitsprev) \<leftarrow> getstk_loop nbytes ml first 0 0 m;
        if fits = 0 then Some (SYSERR_ptr, m)
        else do {
          len \<leftarrow> ld (fits + 4) m;
          (fits, m) \<leftarrow>
            (if nbytes = len
             then do { nx \<leftarrow> ld fits m; m \<leftarrow> st fitsprev nx m; Some (fits, m) }
             else do { m \<leftarrow> st (fits + 4) (len - nbytes) m;
                       len \<leftarrow> ld (fits + 4) m;
                       Some (fits + len, m) });
          total \<leftarrow> ld (ml + 4) m;
          m \<leftarrow> st (ml + 4) (total - nbytes) m;
          Some (fits + nbytes - 4, m) } })"

text \<open>\<open>freemem\<close>: find the neighbours, refuse an overlap, link, and coalesce on both sides.\<close>

partial_function (option) freemem_loop ::
  "uint32 \<Rightarrow> uint32 \<Rightarrow> uint32 \<Rightarrow> memory \<Rightarrow> (uint32 \<times> uint32) option" where
  "freemem_loop block prev next m =
     (if next \<noteq> 0 \<and> next < block
      then (case ld next m of None \<Rightarrow> None | Some nx \<Rightarrow> freemem_loop block next nx m)
      else Some (prev, next))"

definition freemem ::
  "uint32 \<Rightarrow> uint32 \<Rightarrow> uint32 \<Rightarrow> uint32 \<Rightarrow> uint32 \<Rightarrow> memory \<Rightarrow> (int \<times> memory) option" where
  "freemem ml minheap maxheap blkaddr nbytes m =
     (if nbytes = 0 \<or> blkaddr < minheap \<or> blkaddr > maxheap then Some (SYSERR, m)
      else do {
        let nbytes = roundmb nbytes;
        let block = blkaddr;
        first \<leftarrow> ld ml m;
        (prev, next) \<leftarrow> freemem_loop block ml first m;
        top \<leftarrow> (if prev = ml then Some 0
                else do { len \<leftarrow> ld (prev + 4) m; Some (prev + len) });
        if (prev \<noteq> ml \<and> block < top) \<or> (next \<noteq> 0 \<and> block + nbytes > next)
        then Some (SYSERR, m)
        else do {
          total \<leftarrow> ld (ml + 4) m;
          m \<leftarrow> st (ml + 4) (total + nbytes) m;
          (block, m) \<leftarrow>
            (if top = block
             then do { len \<leftarrow> ld (prev + 4) m;
                       m \<leftarrow> st (prev + 4) (len + nbytes) m;
                       Some (prev, m) }
             else do { m \<leftarrow> st block next m;
                       m \<leftarrow> st (block + 4) nbytes m;
                       m \<leftarrow> st prev block m;
                       Some (block, m) });
          len \<leftarrow> ld (block + 4) m;
          m \<leftarrow>
            (if block + len = next
             then do { nlen \<leftarrow> ld (next + 4) m;
                       m \<leftarrow> st (block + 4) (len + nlen) m;
                       nx \<leftarrow> ld next m;
                       st block nx m }
             else Some m);
          Some (OK, m) } })"

text \<open>The macro \<open>freestk\<close> of \<^verbatim>\<open>memory.h\<close>.\<close>

definition freestk ::
  "uint32 \<Rightarrow> uint32 \<Rightarrow> uint32 \<Rightarrow> uint32 \<Rightarrow> uint32 \<Rightarrow> memory \<Rightarrow> (int \<times> memory) option" where
  "freestk ml minheap maxheap p len m =
     freemem ml minheap maxheap (p - roundmb len + 4) (roundmb len) m"

section \<open>Rounding\<close>

lemma and_not_7: "x AND NOT 7 = x - (x AND (7 :: uint32))"
proof -
  have "x - (x AND 7) = x AND NOT (x AND 7)"
    by (rule disjunctive_diff) (simp add: bit_simps)
  also have "\<dots> = x AND NOT 7"
    by (rule bit_word_eqI) (auto simp: bit_simps)
  finally show ?thesis by simp
qed

lemma unat_and_7: "unat (x AND (7 :: uint32)) = unat x mod 8"
proof -
  have "x AND 7 = take_bit 3 x" by (simp add: take_bit_eq_mask mask_numeral)
  then have "x AND 7 = x mod 8" by (simp add: take_bit_eq_mod)
  then show ?thesis by (simp add: unat_mod)
qed

lemma unat_truncmb: "unat (truncmb x) = unat x - unat x mod 8"
proof -
  have "x AND 7 \<le> x" by (simp add: word_and_le2)
  then show ?thesis
    unfolding truncmb_def and_not_7 by (simp add: unat_sub unat_and_7)
qed

lemma nat_minus_mod_8: "n - n mod 8 = n div 8 * (8 :: nat)"
  by (rule minus_mod_eq_div_mult)

lemma roundmb_truncmb: "roundmb x = truncmb (7 + x)"
  by (simp add: roundmb_def truncmb_def)

lemma unat_roundmb:
  assumes "unat x + 7 < 2 ^ 32"
  shows "unat (roundmb x) = (unat x + 7) div 8 * 8"
proof -
  have "unat (7 + x) = unat x + 7"
    using assms by (simp add: unat_word_ariths)
  then show ?thesis
    by (simp only: roundmb_truncmb unat_truncmb nat_minus_mod_8)
qed

lemma roundmb_dvd: "8 dvd unat (roundmb x)"
  unfolding roundmb_truncmb unat_truncmb nat_minus_mod_8 by simp

lemma roundmb_id: "8 dvd unat x \<Longrightarrow> unat x + 7 < 2 ^ 32 \<Longrightarrow> roundmb x = x"
  by (rule word_unat_eq_iff[THEN iffD2]) (subst unat_roundmb; simp add: div_add1_eq)

lemma roundmb_pos: "x \<noteq> 0 \<Longrightarrow> unat x + 7 < 2 ^ 32 \<Longrightarrow> 8 \<le> unat (roundmb x)"
  using unat_gt_0[of x] by (simp add: unat_roundmb)

end
