(* ===== verification/Memory_Refine.thy ===== *)
theory Memory_Refine
  imports Memory
begin

unbundle bit_operations_syntax

text \<open>
  The allocator refines operations on a list of (address, length) blocks: first fit for
  \<open>getmem\<close>, last fit for \<open>getstk\<close>, coalescing insertion for \<open>freemem\<close>. \<open>heap_rep\<close> links
  the words of memory to the list; \<open>fl_ok\<close> is the invariant of the free list (ascending,
  8-byte aligned, inside the heap, no two blocks adjacent).
\<close>

section \<open>Well-formed free lists\<close>

type_synonym blk = "uint32 \<times> uint32"

fun fl_ok :: "nat \<Rightarrow> nat \<Rightarrow> blk list \<Rightarrow> bool" where
  "fl_ok lo hi [] \<longleftrightarrow> True"
| "fl_ok lo hi ((b, l) # xs) \<longleftrightarrow>
     lo \<le> unat b \<and> 8 dvd unat b \<and> 8 dvd unat l \<and> 8 \<le> unat l \<and> unat b + unat l \<le> hi \<and>
     fl_ok (unat b + unat l + 1) hi xs"

fun fl_end :: "nat \<Rightarrow> blk list \<Rightarrow> nat" where
  "fl_end lo [] = lo"
| "fl_end lo ((b, l) # xs) = fl_end (unat b + unat l + 1) xs"

lemma fl_ok_append: "fl_ok lo hi (ys @ zs) \<longleftrightarrow> fl_ok lo hi ys \<and> fl_ok (fl_end lo ys) hi zs"
  by (induction lo hi ys rule: fl_ok.induct) auto

lemma fl_ok_mono: "fl_ok lo hi xs \<Longrightarrow> lo' \<le> lo \<Longrightarrow> fl_ok lo' hi xs"
  by (cases xs) auto

lemma fl_end_ge: "fl_ok lo hi ys \<Longrightarrow> lo \<le> fl_end lo ys"
  by (induction lo hi ys rule: fl_ok.induct) auto

lemma fl_ok_mem:
  "fl_ok lo hi xs \<Longrightarrow> (b, l) \<in> set xs \<Longrightarrow>
    lo \<le> unat b \<and> 8 dvd unat b \<and> 8 dvd unat l \<and> 8 \<le> unat l \<and> unat b + unat l \<le> hi \<and>
    unat b + unat l < fl_end lo xs"
proof (induction lo hi xs rule: fl_ok.induct)
  case (2 lo hi c k xs)
  then show ?case using fl_end_ge[of "unat c + unat k + 1" hi xs] by auto
qed simp

section \<open>Free lists in memory\<close>

fun fpath :: "memory \<Rightarrow> uint32 \<Rightarrow> blk list \<Rightarrow> bool" where
  "fpath m a [] \<longleftrightarrow> True"
| "fpath m a ((b, l) # xs) \<longleftrightarrow> m a = b \<and> m (b + 4) = l \<and> fpath m b xs"

fun lastaddr :: "uint32 \<Rightarrow> blk list \<Rightarrow> uint32" where
  "lastaddr a [] = a"
| "lastaddr a ((b, l) # xs) = lastaddr b xs"

definition nextaddr :: "blk list \<Rightarrow> uint32" where
  "nextaddr xs = (case xs of [] \<Rightarrow> 0 | (b, l) # _ \<Rightarrow> b)"

definition chain :: "memory \<Rightarrow> uint32 \<Rightarrow> blk list \<Rightarrow> bool" where
  "chain m a xs \<longleftrightarrow> fpath m a xs \<and> m (lastaddr a xs) = 0"

definition heap_rep :: "uint32 \<Rightarrow> nat \<Rightarrow> nat \<Rightarrow> memory \<Rightarrow> blk list \<Rightarrow> bool" where
  "heap_rep ml lo hi m xs \<longleftrightarrow> ml \<noteq> 0 \<and> 4 dvd unat ml \<and> unat ml + 8 \<le> lo \<and> hi < 2 ^ 32 \<and>
     fl_ok lo hi xs \<and> chain m ml xs"

lemma nextaddr_simps [simp]: "nextaddr [] = 0" "nextaddr ((b, l) # xs) = b"
  by (simp_all add: nextaddr_def)

lemma fpath_append: "fpath m a (ys @ zs) \<longleftrightarrow> fpath m a ys \<and> fpath m (lastaddr a ys) zs"
  by (induction m a ys rule: fpath.induct) auto

lemma lastaddr_append: "lastaddr a (ys @ zs) = lastaddr (lastaddr a ys) zs"
  by (induction a ys rule: lastaddr.induct) auto

lemma chain_append:
  "chain m a (ys @ zs) \<longleftrightarrow> fpath m a ys \<and> chain m (lastaddr a ys) zs"
  by (simp add: chain_def fpath_append lastaddr_append)

lemma chain_Cons: "chain m a ((b, l) # zs) \<longleftrightarrow> m a = b \<and> m (b + 4) = l \<and> chain m b zs"
  by (auto simp: chain_def)

lemma chain_next: "chain m a zs \<Longrightarrow> m a = nextaddr zs"
  by (cases zs) (auto simp: chain_def nextaddr_def)

text \<open>The words a path is read from.\<close>

fun reads :: "uint32 \<Rightarrow> blk list \<Rightarrow> uint32 set" where
  "reads a [] = {}"
| "reads a ((b, l) # xs) = insert a (insert (b + 4) (reads b xs))"

lemma fpath_cong: "\<forall>x \<in> reads a ys. m' x = m x \<Longrightarrow> fpath m' a ys = fpath m a ys"
  by (induction m a ys rule: fpath.induct) auto

lemma chain_start:
  "chain m a zs \<Longrightarrow> m' p = m a \<Longrightarrow> (\<forall>(b, l) \<in> set zs. m' b = m b \<and> m' (b + 4) = m (b + 4)) \<Longrightarrow>
   chain m' p zs"
proof (induction zs arbitrary: a p)
  case (Cons z zs)
  then show ?case by (cases z) (auto simp: chain_Cons)
qed (simp add: chain_def)

section \<open>Address arithmetic\<close>

lemma aligned4: "a AND 3 = 0 \<longleftrightarrow> 4 dvd unat (a :: uint32)"
proof -
  have "a AND 3 = take_bit 2 a" by (simp add: take_bit_eq_mask mask_numeral)
  then have "a AND 3 = a mod 4" by (simp add: take_bit_eq_mod)
  then have "unat (a AND 3) = unat a mod 4" by (simp add: unat_mod)
  then show ?thesis using unat_eq_zero[of "a AND 3"] by (auto simp: dvd_eq_mod_eq_0)
qed

lemma ld_in [range_simps]: "a \<noteq> 0 \<Longrightarrow> 4 dvd unat a \<Longrightarrow> ld a m = Some (m a)"
  by (simp add: ld_def aligned4)

lemma st_in [range_simps]: "a \<noteq> 0 \<Longrightarrow> 4 dvd unat a \<Longrightarrow> st a v m = Some (m(a := v))"
  by (simp add: st_def aligned4)

lemma unat_add: "unat a + unat b < 2 ^ 32 \<Longrightarrow> unat (a + b :: uint32) = unat a + unat b"
  by (simp add: unat_word_ariths)

lemma unat_add4: "unat a + 4 < 2 ^ 32 \<Longrightarrow> unat (a + 4 :: uint32) = unat a + 4"
  using unat_add[of a 4] by simp

lemma word_neq_unat: "unat a \<noteq> unat b \<Longrightarrow> a \<noteq> (b :: uint32)"
  by auto

lemma dvd8_4: "8 dvd n \<Longrightarrow> 4 dvd (n :: nat)"
  by (auto elim: dvdE)

text \<open>Consequences of the invariant for one block: its two header words are aligned, non-null
  and distinct from those of every other block and of \<open>memlist\<close>.\<close>

lemma heap_repD:
  assumes "heap_rep ml lo hi m xs"
  shows "ml \<noteq> 0" "4 dvd unat ml" "unat ml + 8 \<le> lo" "hi < 2 ^ 32" "fl_ok lo hi xs" "chain m ml xs"
  using assms by (auto simp: heap_rep_def)

lemma memlist_words:
  assumes "heap_rep ml lo hi m xs" "fl_ok lo hi xs" "(b, l) \<in> set xs"
  shows "b \<noteq> ml" "b \<noteq> ml + 4" "b + 4 \<noteq> ml" "b + 4 \<noteq> ml + 4" "b \<noteq> 0" "b + 4 \<noteq> 0"
    "4 dvd unat b" "4 dvd unat (b + 4)" "unat (b + 4) = unat b + 4"
proof -
  note H = heap_repD[OF assms(1)] and B = fl_ok_mem[OF assms(2,3)]
  have l: "unat l \<ge> 8" "unat b + unat l < 2 ^ 32" using B H(4) by auto
  then have b4: "unat (b + 4) = unat b + 4" by (intro unat_add4) simp
  have ml4: "unat (ml + 4) = unat ml + 4" using H(3) B l by (intro unat_add4) simp
  show "unat (b + 4) = unat b + 4" by (rule b4)
  show "b \<noteq> ml" "b \<noteq> ml + 4" "b + 4 \<noteq> ml" "b + 4 \<noteq> ml + 4" "b \<noteq> 0" "b + 4 \<noteq> 0"
    by (rule word_neq_unat; use H(3) B b4 ml4 in simp)+
  show "4 dvd unat b" using B dvd8_4 by blast
  then show "4 dvd unat (b + 4)" by (simp add: b4)
qed

lemma ml_words:
  assumes "heap_rep ml lo hi m xs" "lo < 2 ^ 32"
  shows "ml + 4 \<noteq> 0" "4 dvd unat (ml + 4)" "ml \<noteq> ml + 4"
proof -
  note H = heap_repD[OF assms(1)]
  have ml4: "unat (ml + 4) = unat ml + 4" using H(3) assms(2) by (intro unat_add4) simp
  show "ml + 4 \<noteq> 0" "ml \<noteq> ml + 4" by (rule word_neq_unat; use ml4 in simp)+
  show "4 dvd unat (ml + 4)" using H(2) by (simp add: ml4)
qed

lemma dvd8_neq4: "8 dvd a \<Longrightarrow> 8 dvd b \<Longrightarrow> a \<noteq> b + (4 :: nat)"
  by presburger

lemma header_words:
  assumes "fl_ok lo hi xs" "hi < 2 ^ 32" "(b, l) \<in> set xs" "(c, k) \<in> set xs"
  shows "b \<noteq> c + 4" "b + 4 = c + 4 \<longleftrightarrow> b = c"
proof -
  note B = fl_ok_mem[OF assms(1,3)] and C = fl_ok_mem[OF assms(1,4)]
  have "unat (c + 4) = unat c + 4" using C assms(2) by (intro unat_add4) simp
  then show "b \<noteq> c + 4" using B C dvd8_neq4[of "unat b" "unat c"] by auto
  show "b + 4 = c + 4 \<longleftrightarrow> b = c" by simp
qed

lemma lastaddr_cases: "lastaddr a ys = a \<or> (\<exists>l. (lastaddr a ys, l) \<in> set ys)"
  by (induction a ys rule: lastaddr.induct) auto

lemma reads_cases: "x \<in> reads a ys \<Longrightarrow> x = a \<or> (\<exists>b l. (b, l) \<in> set ys \<and> (x = b \<or> x = b + 4))"
  by (induction a ys rule: reads.induct) auto

lemma lastaddr_notin_reads:
  "fl_ok lo hi ys \<Longrightarrow> hi < 2 ^ 32 \<Longrightarrow> unat a < lo \<Longrightarrow> lastaddr a ys \<notin> reads a ys"
proof (induction ys arbitrary: a lo)
  case (Cons y ys)
  obtain b l where y: "y = (b, l)" by (cases y)
  have ok: "fl_ok (unat b + unat l + 1) hi ys" and B: "lo \<le> unat b" "8 dvd unat b" "8 \<le> unat l"
      "unat b + unat l \<le> hi"
    using Cons.prems by (auto simp: y)
  have b4: "unat (b + 4) = unat b + 4" using B Cons.prems(2) by (intro unat_add4) simp
  have "8 dvd unat (lastaddr b ys) \<and> unat b \<le> unat (lastaddr b ys)"
    using lastaddr_cases[of b ys] fl_ok_mem[OF ok] B by fastforce
  then have "lastaddr b ys \<noteq> a" "lastaddr b ys \<noteq> b + 4"
    using Cons.prems(3) B b4 dvd8_neq4[of "unat (lastaddr b ys)" "unat b"] by auto
  moreover have "lastaddr b ys \<notin> reads b ys"
    by (rule Cons.IH[OF ok Cons.prems(2)]) simp
  ultimately show ?case by (simp add: y)
qed simp

lemma fl_ok_order:
  "fl_ok lo hi (ys @ zs) \<Longrightarrow> (b, l) \<in> set ys \<Longrightarrow> (c, k) \<in> set zs \<Longrightarrow> unat b + unat l < unat c"
  using fl_ok_mem[of lo hi ys b l] fl_ok_mem[of "fl_end lo ys" hi zs c k] by (auto simp: fl_ok_append)

text \<open>The node before a suffix of the free list, and the words of the prefix.\<close>

lemma prev_facts:
  assumes rep: "heap_rep ml lo hi m (ys @ zs)" and lo: "lo < 2 ^ 32" and p: "p = lastaddr ml ys"
  shows "p \<noteq> 0" "4 dvd unat p" "p \<noteq> ml + 4" "p \<notin> reads ml ys" "ml + 4 \<notin> reads ml ys"
    "\<And>c k. (c, k) \<in> set zs \<Longrightarrow> c \<noteq> p \<and> c + 4 \<noteq> p \<and> c \<notin> reads ml ys \<and> c + 4 \<notin> reads ml ys \<and>
       unat p + 8 \<le> unat c"
    "\<And>x. x \<in> reads ml ys \<Longrightarrow> x = ml \<or> (\<exists>b l. (b, l) \<in> set ys \<and> unat x < unat b + unat l)"
proof -
  note H = heap_repD[OF rep] and M = ml_words[OF rep lo]
  have ok: "fl_ok lo hi ys" using H(5) by (simp add: fl_ok_append)
  have W: "b \<noteq> ml" "b \<noteq> ml + 4" "b + 4 \<noteq> ml" "b + 4 \<noteq> ml + 4" "b \<noteq> 0" "4 dvd unat b"
      "unat (b + 4) = unat b + 4" if "(b, l) \<in> set (ys @ zs)" for b l
    using memlist_words[OF rep H(5) that] by blast+
  note pc = lastaddr_cases[of ml ys, folded p]
  have Wy: "b \<noteq> 0 \<and> 4 dvd unat b \<and> b \<noteq> ml + 4" if "(b, l) \<in> set ys" for b l
    using W(2,5,6)[of b l] that by simp
  have "p \<noteq> 0 \<and> 4 dvd unat p \<and> p \<noteq> ml + 4"
    using pc Wy H(1,2) M(3) by (elim disjE exE) simp_all
  then show "p \<noteq> 0" "4 dvd unat p" "p \<noteq> ml + 4" by blast+
  show "p \<notin> reads ml ys" unfolding p by (rule lastaddr_notin_reads[OF ok H(4)]) (use H(3) in simp)
  show "ml + 4 \<notin> reads ml ys" using reads_cases[of "ml + 4" ml ys] M(3) W(2,4) by auto
  show R: "x = ml \<or> (\<exists>b l. (b, l) \<in> set ys \<and> unat x < unat b + unat l)" if x: "x \<in> reads ml ys" for x
  proof -
    from reads_cases[OF x] consider "x = ml" | b l where "(b, l) \<in> set ys" "x = b \<or> x = b + 4" by blast
    then show ?thesis
    proof cases
      case (2 b l)
      have "unat x \<le> unat b + 4" using 2 W(7)[of b l] by auto
      moreover have "8 \<le> unat l" using fl_ok_mem[OF ok 2(1)] by simp
      ultimately have "unat x < unat b + unat l" by simp
      with 2(1) show ?thesis by blast
    qed simp
  qed
  fix c k assume ck: "(c, k) \<in> set zs"
  have far: "unat p + 8 \<le> unat c"
    using pc
  proof
    assume "p = ml"
    then show ?thesis using H(3) fl_ok_mem[OF H(5), of c k] ck by auto
  next
    assume "\<exists>l. (p, l) \<in> set ys"
    then obtain l where pl: "(p, l) \<in> set ys" by blast
    then show ?thesis using fl_ok_order[OF H(5) pl ck] fl_ok_mem[OF ok pl] by auto
  qed
  have "unat x < unat c" if "x \<in> reads ml ys" for x
    using R[OF that] fl_ok_order[OF H(5) _ ck] H(3) fl_ok_mem[OF H(5), of c k] ck by force
  moreover have "unat (c + 4) = unat c + 4" using W(7)[of c k] ck by auto
  ultimately show "c \<noteq> p \<and> c + 4 \<noteq> p \<and> c \<notin> reads ml ys \<and> c + 4 \<notin> reads ml ys \<and> unat p + 8 \<le> unat c"
    using far by (auto dest!: spec[of _ "c + 4"]) (fastforce)+
qed

end
