(* ===== verification/Memory_Alloc.thy ===== *)
theory Memory_Alloc
  imports Memory_Refine
begin

unbundle bit_operations_syntax

text \<open>
  \<open>getmem\<close> implements first fit: what it returns, what remains free, and what it leaves alone.
\<close>

section \<open>First fit on block lists\<close>

fun ff_alloc :: "uint32 \<Rightarrow> blk list \<Rightarrow> (uint32 \<times> blk list) option" where
  "ff_alloc n [] = None"
| "ff_alloc n ((b, l) # xs) =
     (if l = n then Some (b, xs)
      else if l > n then Some (b, (b + n, l - n) # xs)
      else map_option (\<lambda>(r, ys). (r, (b, l) # ys)) (ff_alloc n xs))"

definition free_bytes :: "blk list \<Rightarrow> nat set" where
  "free_bytes xs = (\<Union>(b, l) \<in> set xs. {unat b..<unat b + unat l})"

lemma free_bytes_simps [simp]:
  "free_bytes [] = {}" "free_bytes ((b, l) # xs) = {unat b..<unat b + unat l} \<union> free_bytes xs"
  "free_bytes (xs @ ys) = free_bytes xs \<union> free_bytes ys"
  by (auto simp: free_bytes_def)

lemma free_bytes_ge: "fl_ok lo hi xs \<Longrightarrow> a \<in> free_bytes xs \<Longrightarrow> lo \<le> a \<and> a < hi"
  using fl_ok_mem by (fastforce simp: free_bytes_def)

text \<open>A block that is split keeps the invariant and loses exactly the bytes handed out.\<close>

lemma split_block:
  fixes b l n :: uint32
  assumes "unat b + unat l \<le> hi" "hi < 2 ^ 32" "n < l" "8 dvd unat b" "8 dvd unat l" "8 dvd unat n"
  shows "unat (b + n) = unat b + unat n" "unat (l - n) = unat l - unat n"
    "8 dvd unat (b + n)" "8 dvd unat (l - n)" "8 \<le> unat (l - n)" "unat (b + n) + unat (l - n) = unat b + unat l"
proof -
  have nl: "unat n < unat l" using assms(3) by (simp add: word_less_nat_alt)
  show bn: "unat (b + n) = unat b + unat n" using assms(1,2) nl by (intro unat_add) simp
  show ln: "unat (l - n) = unat l - unat n" using assms(3) by (simp add: unat_sub)
  show "8 dvd unat (b + n)" using assms(4,6) by (simp add: bn)
  show d: "8 dvd unat (l - n)" using assms(5,6) by (simp add: ln dvd_diff_nat)
  show "8 \<le> unat (l - n)" using d nl ln by (auto elim!: dvdE)
  show "unat (b + n) + unat (l - n) = unat b + unat l" using bn ln nl by simp
qed

lemma ff_alloc_ok:
  assumes "ff_alloc n xs = Some (r, ys)" "fl_ok lo hi xs" "hi < 2 ^ 32" "8 dvd unat n" "n \<noteq> 0"
  shows "fl_ok lo hi ys \<and> {unat r..<unat r + unat n} \<subseteq> free_bytes xs \<and>
    free_bytes ys = free_bytes xs - {unat r..<unat r + unat n} \<and>
    8 dvd unat r \<and> lo \<le> unat r \<and> unat r + unat n \<le> hi"
  using assms
proof (induction n xs arbitrary: lo r ys rule: ff_alloc.induct)
  case (2 n b l xs)
  have B: "lo \<le> unat b" "8 dvd unat b" "8 dvd unat l" "8 \<le> unat l" "unat b + unat l \<le> hi"
    and ok: "fl_ok (unat b + unat l + 1) hi xs" using "2.prems"(2) by auto
  have far: "\<forall>a \<in> free_bytes xs. unat b + unat l < a" using free_bytes_ge[OF ok] by fastforce
  consider (eq) "l = n" | (gt) "l > n" | (lt) "l < n" by (metis linorder_less_linear)
  then show ?case
  proof cases
    case eq
    then have "r = b" "ys = xs" using "2.prems"(1) by auto
    moreover have "fl_ok lo hi xs" using fl_ok_mono[OF ok] B by simp
    ultimately show ?thesis using B far eq by fastforce
  next
    case gt
    then have r: "r = b" "ys = (b + n, l - n) # xs" using "2.prems"(1) by (auto split: if_splits)
    note S = split_block[OF B(5) "2.prems"(3) gt B(2,3) "2.prems"(4)]
    have nl: "unat n < unat l" using gt by (simp add: word_less_nat_alt)
    have "fl_ok lo hi ys" using B S r ok by simp
    moreover have "free_bytes ys = {unat b + unat n..<unat b + unat l} \<union> free_bytes xs"
      using S(1,6) by (simp add: r add.assoc)
    then have "free_bytes ys = free_bytes ((b, l) # xs) - {unat r..<unat r + unat n}"
      using r(1) far nl by fastforce
    moreover have "{unat r..<unat r + unat n} \<subseteq> free_bytes ((b, l) # xs)"
      using r(1) nl by (auto simp del: r)
    ultimately show ?thesis by (intro conjI) (assumption | use r(1) B nl in simp)+
  next
    case lt
    then obtain zs where z: "ff_alloc n xs = Some (r, zs)" "ys = (b, l) # zs"
      using "2.prems"(1) by (auto split: if_splits)
    have IH: "fl_ok (unat b + unat l + 1) hi zs \<and> {unat r..<unat r + unat n} \<subseteq> free_bytes xs \<and>
      free_bytes zs = free_bytes xs - {unat r..<unat r + unat n} \<and> 8 dvd unat r \<and>
      unat b + unat l + 1 \<le> unat r \<and> unat r + unat n \<le> hi"
      using "2.IH"[OF _ _ z(1) ok "2.prems"(3-5)] lt by auto
    then show ?thesis using z B by auto
  qed
qed simp

section \<open>The search loop\<close>

lemma heap_rep_splice:
  assumes "heap_rep ml lo hi m (ys @ zs)" "fl_ok (fl_end lo ys) hi zs'"
    "chain m' (lastaddr ml ys) zs'" "\<forall>x \<in> reads ml ys. m' x = m x"
  shows "heap_rep ml lo hi m' (ys @ zs')"
  using assms fpath_cong[OF assms(4)] by (auto simp: heap_rep_def fl_ok_append chain_append)

definition alloc_post ::
  "uint32 \<Rightarrow> nat \<Rightarrow> nat \<Rightarrow> uint32 \<Rightarrow> memory \<Rightarrow> blk list \<Rightarrow> memory \<Rightarrow> blk list \<Rightarrow> bool" where
  "alloc_post ml lo hi n m xs m' xs' \<longleftrightarrow> heap_rep ml lo hi m' xs' \<and> m' (ml + 4) = m (ml + 4) - n \<and>
     (\<forall>a. a \<noteq> ml \<longrightarrow> a \<noteq> ml + 4 \<longrightarrow> unat a \<notin> free_bytes xs \<longrightarrow> m' a = m a)"

lemma block_bytes: "(b, l) \<in> set xs \<Longrightarrow> unat b \<le> k \<Longrightarrow> k < unat b + unat l \<Longrightarrow> k \<in> free_bytes xs"
  unfolding free_bytes_def by (rule UN_I) auto

lemma prev_free:
  assumes "fl_ok lo hi ys"
  shows "lastaddr ml ys = ml \<or> unat (lastaddr ml ys) \<in> free_bytes ys"
  using lastaddr_cases[of ml ys] fl_ok_mem[OF assms] by (fastforce intro: block_bytes)

lemma getmem_loop_rep:
  assumes "heap_rep ml lo hi m (ys @ zs)" "lo < 2 ^ 32" "8 dvd unat n" "n \<noteq> 0"
  shows "case ff_alloc n zs of
      None \<Rightarrow> getmem_loop ml n (lastaddr ml ys) (nextaddr zs) m = Some (SYSERR_ptr, m)
    | Some (r, zs') \<Rightarrow> \<exists>m'. getmem_loop ml n (lastaddr ml ys) (nextaddr zs) m = Some (r, m') \<and>
        alloc_post ml lo hi n m (ys @ zs) m' (ys @ zs')"
  using assms
proof (induction zs arbitrary: ys)
  case Nil
  then show ?case by (subst getmem_loop.simps) (simp add: nextaddr_def)
next
  case (Cons z zs)
  obtain b l where z: "z = (b, l)" by (cases z)
  let ?p = "lastaddr ml ys"
  note rep = Cons.prems(1)[unfolded z] and lo = Cons.prems(2) and n8 = Cons.prems(3)
  note H = heap_repD[OF rep] and M = ml_words[OF rep lo] and P = prev_facts[OF rep lo refl]
  note W = memlist_words[OF rep H(5), of b l, simplified]
  have in_b: "(b, l) \<in> set ((b, l) # zs)" by simp
  note Pb = P(6)[OF in_b]
  have okb: "fl_ok (fl_end lo ys) hi ((b, l) # zs)" using H(5) by (simp add: fl_ok_append)
  then have okz: "fl_ok (unat b + unat l + 1) hi zs" by simp
  have B: "8 dvd unat b" "8 dvd unat l" "8 \<le> unat l" "unat b + unat l \<le> hi" "fl_end lo ys \<le> unat b"
    using okb by auto
  have ch: "m ?p = b" "m (b + 4) = l" "chain m b zs"
    using H(6) by (simp_all add: chain_append chain_Cons)
  have frame_p: "a \<noteq> ?p" if "a \<noteq> ml" "unat a \<notin> free_bytes (ys @ (b, l) # zs)" for a
    using prev_free[of lo hi ys ml] H(5) that by (auto simp: fl_ok_append)
  have far: "unat b + unat l < unat c" "(c, k) \<in> set ((b, l) # zs)" if "(c, k) \<in> set zs" for c k
    using fl_ok_mem[OF okz that] that by auto
  have Wz: "c \<noteq> ml \<and> c \<noteq> ml + 4 \<and> c + 4 \<noteq> ml \<and> c \<noteq> ?p \<and> c + 4 \<noteq> ?p \<and> unat (c + 4) = unat c + 4 \<and>
      unat b + unat l < unat c" if "(c, k) \<in> set zs" for c k
    using P(6)[of c k] memlist_words[OF rep H(5), of c k] far(1)[OF that] that by simp
  consider (eq) "l = n" | (gt) "l > n" | (lt) "l < n" by (metis linorder_less_linear)
  then show ?case
  proof cases
    case eq
    let ?m1 = "m(?p := m b)"
    let ?m2 = "?m1(ml + 4 := m (ml + 4) - n)"
    have run: "getmem_loop ml n ?p b m = Some (b, ?m2)"
      using P(1-3) M W ch eq by (subst getmem_loop.simps) (simp add: range_simps)
    have "chain ?m2 ?p zs"
      by (rule chain_start[OF ch(3)]) (use P(3) in \<open>auto dest!: Wz\<close>)
    with fl_ok_mono[OF okz, of "fl_end lo ys"] have "heap_rep ml lo hi ?m2 (ys @ zs)"
      by (intro heap_rep_splice[OF rep]) (use P(4,5) B in auto)
    then have "alloc_post ml lo hi n m (ys @ (b, l) # zs) ?m2 (ys @ zs)"
      unfolding alloc_post_def using frame_p by auto
    with run eq show ?thesis by (auto simp: z)
  next
    case gt
    note S = split_block[OF B(4) H(4) gt B(1,2) n8]
    have nl: "unat n < unat l" using gt by (simp add: word_less_nat_alt)
    have n_pos: "8 \<le> unat n" using n8 Cons.prems(4) unat_gt_0[of n] by (auto elim!: dvdE)
    let ?c = "b + n"
    have c4: "unat (?c + 4) = unat ?c + 4" using S H(4) B by (intro unat_add4) simp
    have c: "?c \<noteq> 0" "4 dvd unat ?c" "?c + 4 \<noteq> 0" "4 dvd unat (?c + 4)"
      using S(1,3) n_pos c4 dvd8_4[OF S(3)] by (auto intro!: word_neq_unat)
    have ml_b: "unat (ml + 4) = unat ml + 4" "unat ml + 8 \<le> unat b"
      using H(3) B(5) fl_end_ge[of lo hi ys] H(5) unat_add4[of ml] lo by (auto simp: fl_ok_append)
    have ne: "?c \<noteq> ?p" "?c + 4 \<noteq> ?p" "?c \<noteq> b" "?c \<noteq> b + 4" "?c + 4 \<noteq> b" "?c + 4 \<noteq> b + 4" "?c \<noteq> ml + 4" "?c + 4 \<noteq> ml + 4"
      "?c \<noteq> ?c + 4"
      by (rule word_neq_unat; use S(1) c4 n_pos W(9) Pb ml_b in simp)+
    let ?m1 = "m(?p := ?c, ?c := m b, ?c + 4 := l - n)"
    let ?m2 = "?m1(ml + 4 := m (ml + 4) - n)"
    have "l \<noteq> n" using gt by auto
    then have run: "getmem_loop ml n ?p b m = Some (b, ?m2)"
      using P(1-3) M W ch gt c ne Pb by (subst getmem_loop.simps) (simp add: range_simps Let_def)
    have inner: "c' \<noteq> ?c \<and> c' \<noteq> ?c + 4 \<and> c' + 4 \<noteq> ?c \<and> c' + 4 \<noteq> ?c + 4" if "(c', k) \<in> set zs" for c' k
      using Wz[OF that] S(1,5,6) c4 by (intro conjI word_neq_unat) simp_all
    have "chain ?m2 ?c zs"
      by (rule chain_start[OF ch(3)]) (use ne in \<open>auto dest: Wz inner\<close>)
    then have "chain ?m2 ?p ((?c, l - n) # zs)"
      using ne P(3) by (simp add: chain_Cons)
    moreover have "x \<noteq> ?c \<and> x \<noteq> ?c + 4" if "x \<in> reads ml ys" for x
      using P(7)[OF that] fl_ok_order[OF H(5) _ in_b] S(1) c4 H(3) B(5) fl_end_ge[of lo hi ys] H(5)
      by (fastforce simp: fl_ok_append)
    ultimately have "heap_rep ml lo hi ?m2 (ys @ (?c, l - n) # zs)"
      by (intro heap_rep_splice[OF rep]) (use P(4,5) B S okz in auto)
    moreover have "unat ?c \<in> free_bytes (ys @ (b, l) # zs)" "unat (?c + 4) \<in> free_bytes (ys @ (b, l) # zs)"
      using S(1,5,6) c4 nl by auto
    ultimately have "alloc_post ml lo hi n m (ys @ (b, l) # zs) ?m2 (ys @ (?c, l - n) # zs)"
      unfolding alloc_post_def using frame_p by auto
    with run gt show ?thesis by (auto simp: z)
  next
    case lt
    have "l \<noteq> n" "\<not> n < l" using lt by auto
    then have "getmem_loop ml n ?p b m = getmem_loop ml n (lastaddr ml (ys @ [(b, l)])) (nextaddr zs) m"
      using W ch chain_next[OF ch(3)] by (subst getmem_loop.simps) (simp add: range_simps lastaddr_append)
    moreover have "heap_rep ml lo hi m ((ys @ [(b, l)]) @ zs)" using rep by simp
    note Cons.IH[OF this lo n8 Cons.prems(4)]
    ultimately show ?thesis using lt
      by (auto simp: z split: option.splits)
  qed
qed

section \<open>getmem\<close>

theorem getmem_rep:
  assumes rep: "heap_rep ml lo hi m xs" and lo: "lo < 2 ^ 32" and n: "n \<noteq> 0" "unat n + 7 < 2 ^ 32"
  shows "case ff_alloc (roundmb n) xs of
      None \<Rightarrow> getmem ml n m = Some (SYSERR_ptr, m)
    | Some (r, ys) \<Rightarrow> \<exists>m'. getmem ml n m = Some (r, m') \<and> alloc_post ml lo hi (roundmb n) m xs m' ys"
proof -
  have "roundmb n \<noteq> 0" using roundmb_pos[OF n] by auto
  moreover have "heap_rep ml lo hi m ([] @ xs)" using rep by simp
  note getmem_loop_rep[OF this lo roundmb_dvd, of n]
  moreover have "getmem ml n m = getmem_loop ml (roundmb n) ml (nextaddr xs) m"
    using n(1) heap_repD[OF rep] chain_next by (simp add: getmem_def range_simps)
  ultimately show ?thesis by (auto split: option.splits)
qed

end
