(* ===== verification/Memory_Stack.thy ===== *)
theory Memory_Stack
  imports Memory_Alloc
begin

unbundle bit_operations_syntax

text \<open>\<open>getstk\<close> takes the high end of the last block that fits.\<close>

section \<open>Last fit on block lists\<close>

fun last_fit :: "uint32 \<Rightarrow> blk list \<Rightarrow> (blk list \<times> uint32 \<times> uint32 \<times> blk list) option" where
  "last_fit n [] = None"
| "last_fit n ((b, l) # xs) =
     (case last_fit n xs of
        Some (us, c, k, vs) \<Rightarrow> Some ((b, l) # us, c, k, vs)
      | None \<Rightarrow> if n \<le> l then Some ([], b, l, xs) else None)"

definition lf_alloc :: "uint32 \<Rightarrow> blk list \<Rightarrow> (uint32 \<times> blk list) option" where
  "lf_alloc n xs =
     (case last_fit n xs of
        None \<Rightarrow> None
      | Some (us, b, l, vs) \<Rightarrow>
          if n = l then Some (b, us @ vs) else Some (b + (l - n), us @ (b, l - n) # vs))"

lemma last_fit_split:
  "last_fit n xs = Some (us, b, l, vs) \<Longrightarrow> xs = us @ (b, l) # vs \<and> n \<le> l \<and> (\<forall>(c, k) \<in> set vs. k < n)"
proof (induction n xs arbitrary: us b l vs rule: last_fit.induct)
  case (2 n c k xs)
  have none: "last_fit n xs = None \<Longrightarrow> \<forall>(c, k) \<in> set xs. k < n" for xs
    by (induction n xs rule: last_fit.induct) (auto split: option.splits if_splits)
  show ?case
  proof (cases "last_fit n xs")
    case None
    with "2.prems" none show ?thesis by (auto split: if_splits)
  next
    case (Some q)
    with "2.prems" "2.IH" show ?thesis by (cases q) auto
  qed
qed simp

lemma last_fit_None: "last_fit n xs = None \<longleftrightarrow> (\<forall>(b, l) \<in> set xs. l < n)"
  by (induction n xs rule: last_fit.induct) (auto split: option.splits)

lemma lf_alloc_ok:
  assumes "lf_alloc n xs = Some (r, ys)" "fl_ok lo hi xs" "hi < 2 ^ 32" "8 dvd unat n" "n \<noteq> 0"
  shows "fl_ok lo hi ys \<and> {unat r..<unat r + unat n} \<subseteq> free_bytes xs \<and>
    free_bytes ys = free_bytes xs - {unat r..<unat r + unat n} \<and>
    8 dvd unat r \<and> lo \<le> unat r \<and> unat r + unat n \<le> hi"
proof -
  obtain us b l vs where f: "last_fit n xs = Some (us, b, l, vs)"
    and cs: "(n = l \<and> r = b \<and> ys = us @ vs) \<or> (n \<noteq> l \<and> r = b + (l - n) \<and> ys = us @ (b, l - n) # vs)"
    using assms(1) by (auto simp: lf_alloc_def split: option.splits if_splits)
  have xs: "xs = us @ (b, l) # vs" and nl: "n \<le> l" using last_fit_split[OF f] by auto
  have oku: "fl_ok lo hi us" and B: "fl_end lo us \<le> unat b" "8 dvd unat b" "8 dvd unat l" "8 \<le> unat l"
      "unat b + unat l \<le> hi" and okv: "fl_ok (unat b + unat l + 1) hi vs"
    using assms(2) by (auto simp: xs fl_ok_append)
  have lo_b: "lo \<le> unat b" using B(1) fl_end_ge[OF oku] by simp
  have far: "unat b + unat l < a" if "a \<in> free_bytes vs" for a
    using free_bytes_ge[OF okv that] by simp
  have near: "a < unat b" if "a \<in> free_bytes us" for a
    using that fl_ok_mem[OF oku] B(1) unfolding free_bytes_def by fastforce
  from cs show ?thesis
  proof
    assume c: "n = l \<and> r = b \<and> ys = us @ vs"
    have "fl_ok lo hi ys" using c oku fl_ok_mono[OF okv] B(1) by (simp add: fl_ok_append)
    moreover have "free_bytes ys = free_bytes xs - {unat r..<unat r + unat n}"
      using c far near by (fastforce simp: xs)
    moreover have "{unat r..<unat r + unat n} \<subseteq> free_bytes xs" using c by (auto simp: xs)
    ultimately show ?thesis using c B lo_b by blast
  next
    assume c: "n \<noteq> l \<and> r = b + (l - n) \<and> ys = us @ (b, l - n) # vs"
    then have lt: "n < l" using nl by auto
    have ul: "unat (l - n) = unat l - unat n" using lt by (simp add: unat_sub)
    have un: "unat n < unat l" using lt by (simp add: word_less_nat_alt)
    have ur: "unat r = unat b + (unat l - unat n)" using c B assms(3) ul by (simp add: unat_add)
    have d: "8 dvd unat l - unat n" using B(3) assms(4) by (rule dvd_diff_nat)
    then have "8 \<le> unat l - unat n" using un by (auto elim!: dvdE)
    then have "fl_ok lo hi ys"
      using c oku B d ul fl_ok_mono[OF okv, of "unat b + (unat l - unat n) + 1"] by (simp add: fl_ok_append)
    moreover have "free_bytes ys = free_bytes us \<union> {unat b..<unat r} \<union> free_bytes vs"
      using ur by (simp add: c ul Un_assoc)
    then have "free_bytes ys = free_bytes xs - {unat r..<unat r + unat n}"
      using far near ur un by (fastforce simp: xs)
    moreover have "{unat r..<unat r + unat n} \<subseteq> free_bytes xs"
      using ur un by (auto simp: xs)
    moreover have "8 dvd unat r" using ur B(2) d by simp
    ultimately show ?thesis using ur un lo_b B(5) by simp
  qed
qed

section \<open>getstk\<close>

lemma getstk_loop_rep:
  assumes "heap_rep ml lo hi m (ys @ zs)"
  shows "getstk_loop n (lastaddr ml ys) (nextaddr zs) f fp m =
    Some (case last_fit n zs of None \<Rightarrow> (f, fp) | Some (us, b, l, vs) \<Rightarrow> (b, lastaddr ml (ys @ us)))"
  using assms
proof (induction zs arbitrary: ys f fp)
  case Nil
  then show ?case by (subst getstk_loop.simps) simp
next
  case (Cons z zs)
  obtain b l where z: "z = (b, l)" by (cases z)
  note rep = Cons.prems[unfolded z]
  note H = heap_repD[OF rep]
  note W = memlist_words[OF rep H(5), of b l, simplified]
  have ch: "m (b + 4) = l" "chain m b zs" using H(6) by (simp_all add: chain_append chain_Cons)
  have IH: "getstk_loop n b (nextaddr zs) f' fp' m =
    Some (case last_fit n zs of None \<Rightarrow> (f', fp') | Some (us, c, k, vs) \<Rightarrow> (c, lastaddr ml ((ys @ [(b, l)]) @ us)))"
    for f' fp'
    using Cons.IH[of "ys @ [(b, l)]" f' fp'] rep by (simp add: lastaddr_append)
  show ?case
    using W ch chain_next[OF ch(2)] IH
    by (subst getstk_loop.simps) (auto simp: z range_simps split: option.splits)
qed

theorem getstk_rep:
  assumes rep: "heap_rep ml lo hi m xs" and lo: "lo < 2 ^ 32" and n: "n \<noteq> 0" "unat n + 7 < 2 ^ 32"
  shows "case lf_alloc (roundmb n) xs of
      None \<Rightarrow> getstk ml n m = Some (SYSERR_ptr, m)
    | Some (r, ys) \<Rightarrow> \<exists>m'. getstk ml n m = Some (r + roundmb n - 4, m') \<and>
        alloc_post ml lo hi (roundmb n) m xs m' ys"
proof -
  let ?n = "roundmb n"
  note H = heap_repD[OF rep] and M = ml_words[OF rep lo]
  have n8: "?n \<noteq> 0" "8 dvd unat ?n" using roundmb_pos[OF n] roundmb_dvd by auto
  have loop: "getstk_loop ?n ml (nextaddr xs) 0 0 m =
    Some (case last_fit ?n xs of None \<Rightarrow> (0, 0) | Some (us, b, l, vs) \<Rightarrow> (b, lastaddr ml us))"
    using getstk_loop_rep[of ml lo hi m "[]" xs ?n 0 0] rep by (simp split: option.splits)
  have first: "ld ml m = Some (nextaddr xs)" using H chain_next[OF H(6)] by (simp add: range_simps)
  show ?thesis
  proof (cases "last_fit ?n xs")
    case None
    then show ?thesis using loop first n(1) by (simp add: getstk_def Let_def lf_alloc_def)
  next
    case (Some q)
    then obtain us b l vs where f: "last_fit ?n xs = Some (us, b, l, vs)" by (cases q) auto
    then have xs: "xs = us @ (b, l) # vs" and nl: "?n \<le> l" using last_fit_split[OF f] by auto
    let ?p = "lastaddr ml us"
    note rep' = rep[unfolded xs]
    note W = memlist_words[OF rep H(5), of b l, unfolded xs, simplified] and P = prev_facts[OF rep' lo refl]
    have in_b: "(b, l) \<in> set ((b, l) # vs)" by simp
    note Pb = P(6)[OF in_b]
    have okb: "fl_ok (fl_end lo us) hi ((b, l) # vs)" using H(5) by (simp add: xs fl_ok_append)
    have ch: "m ?p = b" "m (b + 4) = l" "chain m b vs"
      using H(6) by (simp_all add: xs chain_append chain_Cons)
    have Wv: "c \<noteq> ml \<and> c \<noteq> ml + 4 \<and> c + 4 \<noteq> ml \<and> c \<noteq> ?p \<and> c + 4 \<noteq> ?p \<and> c \<noteq> b + 4 \<and> c \<noteq> b"
      if "(c, k) \<in> set vs" for c k
    proof -
      have "unat b + unat l < unat c"
        using okb that fl_ok_mem[of "unat b + unat l + 1" hi vs c k] by auto
      moreover have "8 \<le> unat l" using okb by simp
      ultimately have "c \<noteq> b + 4" "c \<noteq> b" using W(9) by auto
      then show ?thesis using P(6)[of c k] memlist_words[OF rep H(5), of c k] that by (simp add: xs)
    qed
    have frame_p: "a \<noteq> ?p" if "a \<noteq> ml" "unat a \<notin> free_bytes xs" for a
      using prev_free[of lo hi us ml] H(5) that by (auto simp: xs fl_ok_append)
    have alloc: "lf_alloc ?n xs = (if ?n = l then Some (b, us @ vs) else Some (b + (l - ?n), us @ (b, l - ?n) # vs))"
      by (simp add: lf_alloc_def f)
    have ok': "fl_ok lo hi ys" if "lf_alloc ?n xs = Some (r, ys)" for r ys
      using lf_alloc_ok[OF that H(5,4) n8(2,1)] by blast
    show ?thesis
    proof (cases "?n = l")
      case True
      let ?m = "m(?p := m b, ml + 4 := m (ml + 4) - ?n)"
      have run: "getstk ml n m = Some (b + ?n - 4, ?m)"
        using loop first n(1) f W P(1-3) M ch True by (simp add: getstk_def Let_def range_simps)
      have "chain ?m ?p vs"
        by (rule chain_start[OF ch(3)]) (use P(3) in \<open>auto dest!: Wv\<close>)
      then have "heap_rep ml lo hi ?m (us @ vs)"
        by (intro heap_rep_splice[OF rep']) (use P(4,5) ok' alloc True in \<open>auto simp: fl_ok_append\<close>)
      with run alloc True frame_p show ?thesis by (auto simp: alloc_post_def)
    next
      case False
      let ?m = "m(b + 4 := l - ?n, ml + 4 := m (ml + 4) - ?n)"
      have run: "getstk ml n m = Some (b + (l - ?n) + ?n - 4, ?m)"
        using loop first n(1) f W M ch False by (simp add: getstk_def Let_def range_simps)
      have "chain ?m b vs"
        by (rule chain_start[OF ch(3)]) (use W in \<open>auto dest!: Wv\<close>)
      then have "chain ?m ?p ((b, l - ?n) # vs)"
        using W P(3) Pb ch(1) by (auto simp: chain_Cons)
      then have "heap_rep ml lo hi ?m (us @ (b, l - ?n) # vs)"
        by (intro heap_rep_splice[OF rep']) (use P(5) Pb ok' alloc False in \<open>auto simp: fl_ok_append\<close>)
      moreover have "unat (b + 4) \<in> free_bytes xs" using W(9) okb by (auto simp: xs)
      ultimately show ?thesis using run alloc False by (auto simp: alloc_post_def)
    qed
  qed
qed

end
