(* ===== verification/Memory_Free.thy ===== *)
theory Memory_Free
  imports Memory_Stack
begin

unbundle bit_operations_syntax

text \<open>
  \<open>freemem\<close> puts a block back in address order, refuses one that overlaps a free block, and
  coalesces it with both neighbours, so that the free list stays canonical.
\<close>

section \<open>Coalescing insertion on block lists\<close>

definition fl_below :: "uint32 \<Rightarrow> blk list \<Rightarrow> blk list" where
  "fl_below blk xs = takeWhile (\<lambda>(b, l). b < blk) xs"

definition fl_above :: "uint32 \<Rightarrow> blk list \<Rightarrow> blk list" where
  "fl_above blk xs = dropWhile (\<lambda>(b, l). b < blk) xs"

definition fl_overlap :: "uint32 \<Rightarrow> uint32 \<Rightarrow> blk list \<Rightarrow> bool" where
  "fl_overlap blk n xs \<longleftrightarrow>
     (fl_below blk xs \<noteq> [] \<and> (case last (fl_below blk xs) of (b, l) \<Rightarrow> blk < b + l)) \<or>
     (fl_above blk xs \<noteq> [] \<and> blk + n > fst (hd (fl_above blk xs)))"

text \<open>Join a block with the list after it, and with the block before it, where they touch.\<close>

definition join_next :: "uint32 \<Rightarrow> uint32 \<Rightarrow> blk list \<Rightarrow> blk list" where
  "join_next b l zs =
     (case zs of [] \<Rightarrow> [(b, l)] | (c, k) # zs' \<Rightarrow> if b + l = c then (b, l + k) # zs' else (b, l) # zs)"

definition fl_free :: "uint32 \<Rightarrow> uint32 \<Rightarrow> blk list \<Rightarrow> blk list" where
  "fl_free blk n xs =
     (let ys = fl_below blk xs; zs = fl_above blk xs in
      if ys \<noteq> [] \<and> fst (last ys) + snd (last ys) = blk
      then butlast ys @ join_next (fst (last ys)) (snd (last ys) + n) zs
      else ys @ join_next blk n zs)"

lemma fl_split: "fl_below blk xs @ fl_above blk xs = xs"
  by (simp add: fl_below_def fl_above_def)

lemma fl_below_less: "(b, l) \<in> set (fl_below blk xs) \<Longrightarrow> b < blk"
  by (auto simp: fl_below_def dest: set_takeWhileD)

lemma fl_below_subset: "set (fl_below blk xs) \<subseteq> set xs"
  by (auto simp: fl_below_def dest: set_takeWhileD)

lemma fl_above_ge: "fl_above blk xs = (c, k) # zs \<Longrightarrow> blk \<le> c"
  using hd_dropWhile[of "\<lambda>(b, l). b < blk" xs] by (auto simp: fl_above_def)

lemma join_next_ok:
  assumes "fl_ok (unat b + unat l) hi zs" "hi < 2 ^ 32" "lo \<le> unat b" "8 dvd unat b" "8 dvd unat l"
    "8 \<le> unat l" "unat b + unat l \<le> hi"
  shows "fl_ok lo hi (join_next b l zs)"
    "free_bytes (join_next b l zs) = {unat b..<unat b + unat l} \<union> free_bytes zs"
proof -
  have bl: "unat (b + l) = unat b + unat l" using assms by (intro unat_add) simp
  have "fl_ok lo hi (join_next b l zs) \<and>
    free_bytes (join_next b l zs) = {unat b..<unat b + unat l} \<union> free_bytes zs"
  proof (cases zs)
    case Nil
    then show ?thesis using assms by (simp add: join_next_def)
  next
    case (Cons z zs')
    obtain c k where z: "z = (c, k)" by (cases z)
    have C: "unat b + unat l \<le> unat c" "8 dvd unat c" "8 dvd unat k" "8 \<le> unat k" "unat c + unat k \<le> hi"
      "fl_ok (unat c + unat k + 1) hi zs'"
      using assms(1) by (auto simp: Cons z)
    show ?thesis
    proof (cases "b + l = c")
      case True
      then have c: "unat c = unat b + unat l" using bl by simp
      have lk: "unat (l + k) = unat l + unat k" using C c assms(2) by (intro unat_add) simp
      have "fl_ok lo hi ((b, l + k) # zs')"
        using assms C c lk by (simp add: add.assoc)
      moreover have "free_bytes ((b, l + k) # zs') = {unat b..<unat b + unat l} \<union> free_bytes zs"
        using c lk by (auto simp: Cons z)
      ultimately show ?thesis using True by (simp add: join_next_def Cons z)
    next
      case False
      then have "unat b + unat l \<noteq> unat c" using bl by (metis word_unat_eq_iff)
      then show ?thesis using assms C False by (simp add: join_next_def Cons z)
    qed
  qed
  then show "fl_ok lo hi (join_next b l zs)"
    "free_bytes (join_next b l zs) = {unat b..<unat b + unat l} \<union> free_bytes zs" by blast+
qed

text \<open>The two checks of \<open>freemem\<close> detect exactly the blocks that overlap free memory.\<close>

lemma fl_overlap_iff:
  assumes ok: "fl_ok lo hi xs" and hi: "hi < 2 ^ 32" and n: "0 < unat n" and fit: "unat blk + unat n \<le> hi"
  shows "fl_overlap blk n xs \<longleftrightarrow> {unat blk..<unat blk + unat n} \<inter> free_bytes xs \<noteq> {}"
proof -
  let ?ys = "fl_below blk xs" and ?zs = "fl_above blk xs"
  have fb: "free_bytes xs = free_bytes ?ys \<union> free_bytes ?zs"
    by (metis fl_split free_bytes_simps(3))
  have oky: "fl_ok lo hi ?ys" and okz: "fl_ok (fl_end lo ?ys) hi ?zs"
    using ok fl_split[of blk xs] fl_ok_append[of lo hi ?ys ?zs] by auto
  have bn: "unat (blk + n) = unat blk + unat n" using fit hi by (intro unat_add) simp
  have below: "{unat blk..<unat blk + unat n} \<inter> free_bytes ?ys \<noteq> {} \<longleftrightarrow>
      ?ys \<noteq> [] \<and> blk < fst (last ?ys) + snd (last ?ys)"
  proof (cases "?ys = []")
    case False
    obtain b l where bl: "last ?ys = (b, l)" by (cases "last ?ys")
    then have mem: "(b, l) \<in> set ?ys" using last_in_set[OF False] by simp
    have B: "unat b + unat l \<le> hi" using fl_ok_mem[OF oky mem] by blast
    have lt: "unat b < unat blk" using fl_below_less[OF mem] by (simp add: word_less_nat_alt)
    have ub: "unat (b + l) = unat b + unat l" using B hi by (intro unat_add) simp
    have sp: "?ys = butlast ?ys @ [(b, l)]" using False bl by (metis append_butlast_last_id)
    have "a < unat b" if "a \<in> free_bytes (butlast ?ys)" for a
    proof -
      have "fl_ok lo hi (butlast ?ys @ [(b, l)])" using oky sp by simp
      then show ?thesis using that fl_ok_order[of lo hi "butlast ?ys" "[(b, l)]" _ _ b l]
        unfolding free_bytes_def by fastforce
    qed
    moreover have "free_bytes ?ys = free_bytes (butlast ?ys) \<union> {unat b..<unat b + unat l}"
      by (subst sp) simp
    ultimately have "{unat blk..<unat blk + unat n} \<inter> free_bytes ?ys \<noteq> {} \<longleftrightarrow> unat blk < unat b + unat l"
      using lt n by (fastforce)
    then show ?thesis using False bl ub by (simp add: word_less_nat_alt)
  qed simp
  have above: "{unat blk..<unat blk + unat n} \<inter> free_bytes ?zs \<noteq> {} \<longleftrightarrow>
      ?zs \<noteq> [] \<and> blk + n > fst (hd ?zs)"
  proof (cases ?zs)
    case (Cons z zs')
    obtain c k where z: "z = (c, k)" by (cases z)
    have C: "unat blk \<le> unat c" using fl_above_ge[of blk xs c k zs'] Cons z by (simp add: word_le_nat_alt)
    have k: "8 \<le> unat k" "fl_ok (unat c + unat k + 1) hi zs'" using okz by (auto simp: Cons z)
    have "unat c < a" if "a \<in> free_bytes zs'" for a using free_bytes_ge[OF k(2) that] by simp
    then have "{unat blk..<unat blk + unat n} \<inter> free_bytes ?zs \<noteq> {} \<longleftrightarrow> unat c < unat blk + unat n"
      using C k(1) by (auto simp: Cons z) (fastforce)+
    then show ?thesis using bn by (simp add: Cons z word_less_nat_alt)
  qed simp
  show ?thesis
    unfolding fl_overlap_def fb Int_Un_distrib using below above
    by (auto simp: case_prod_beta)
qed

lemma last_below:
  assumes "fl_below blk xs \<noteq> []"
  shows "last (fl_below blk xs) = (lastaddr ml (fl_below blk xs), snd (last (fl_below blk xs)))"
proof -
  have "lastaddr ml ys = fst (last ys)" if "ys \<noteq> []" for ys ml
    using that by (induction ml ys rule: lastaddr.induct) (auto split: if_splits)
  from this[OF assms] show ?thesis by (metis prod.collapse)
qed

lemma fl_free_ok:
  assumes ok: "fl_ok lo hi xs" and hi: "hi < 2 ^ 32" and n: "8 dvd unat n" "8 \<le> unat n"
    and blk: "8 dvd unat blk" "lo \<le> unat blk" "unat blk + unat n \<le> hi" and no: "\<not> fl_overlap blk n xs"
  shows "fl_ok lo hi (fl_free blk n xs)"
    "free_bytes (fl_free blk n xs) = free_bytes xs \<union> {unat blk..<unat blk + unat n}"
proof -
  let ?ys = "fl_below blk xs" and ?zs = "fl_above blk xs"
  have oky: "fl_ok lo hi ?ys" and okz: "fl_ok (fl_end lo ?ys) hi ?zs"
    using ok fl_split[of blk xs] fl_ok_append[of lo hi ?ys ?zs] by auto
  have fb: "free_bytes xs = free_bytes ?ys \<union> free_bytes ?zs" by (metis fl_split free_bytes_simps(3))
  have bn: "unat (blk + n) = unat blk + unat n" using blk(3) hi by (intro unat_add) simp
  have z: "fl_ok (unat blk + unat n) hi ?zs"
  proof (cases ?zs)
    case (Cons z zs')
    obtain c k where z: "z = (c, k)" by (cases z)
    have "unat blk + unat n \<le> unat c"
      using no bn by (auto simp: fl_overlap_def Cons z word_less_nat_alt)
    then show ?thesis using okz by (simp add: Cons z)
  qed simp
  have "fl_ok lo hi (fl_free blk n xs) \<and>
    free_bytes (fl_free blk n xs) = free_bytes xs \<union> {unat blk..<unat blk + unat n}"
  proof (cases "?ys \<noteq> [] \<and> fst (last ?ys) + snd (last ?ys) = blk")
    case True
    obtain b l where bl: "last ?ys = (b, l)" by (cases "last ?ys")
    then have mem: "(b, l) \<in> set ?ys" using last_in_set[of ?ys] True by simp
    have sp: "?ys = butlast ?ys @ [(b, l)]" using True bl by (metis append_butlast_last_id)
    note B = fl_ok_mem[OF oky mem]
    have ub: "unat blk = unat b + unat l" using True bl B hi unat_add[of b l] by auto
    have ln: "unat (l + n) = unat l + unat n" using ub blk(3) hi by (intro unat_add) simp
    have pre: "fl_ok lo hi (butlast ?ys)" "fl_end lo (butlast ?ys) \<le> unat b"
      using oky sp fl_ok_append[of lo hi "butlast ?ys" "[(b, l)]"] by auto
    have J: "fl_ok (fl_end lo (butlast ?ys)) hi (join_next b (l + n) ?zs)"
      "free_bytes (join_next b (l + n) ?zs) = {unat b..<unat b + unat (l + n)} \<union> free_bytes ?zs"
      by (rule join_next_ok; use z ub ln B pre hi n blk in \<open>simp add: add.assoc\<close>)+
    have "free_bytes ?ys = free_bytes (butlast ?ys) \<union> {unat b..<unat b + unat l}" by (subst sp) simp
    then have "free_bytes (butlast ?ys @ join_next b (l + n) ?zs) =
        free_bytes xs \<union> {unat blk..<unat blk + unat n}"
      using J(2) fb ub ln by auto
    then show ?thesis using True pre J bl by (simp add: fl_free_def Let_def fl_ok_append)
  next
    case False
    have "fl_end lo ?ys \<le> unat blk"
    proof (cases "?ys = []")
      case ne: False
      obtain b l where bl: "last ?ys = (b, l)" by (cases "last ?ys")
      then have mem: "(b, l) \<in> set ?ys" using last_in_set[OF ne] by simp
      note B = fl_ok_mem[OF oky mem]
      have bl': "unat (b + l) = unat b + unat l" using B hi by (intro unat_add) simp
      have "\<not> blk < b + l" using no ne bl by (auto simp: fl_overlap_def)
      moreover have "b + l \<noteq> blk" using False ne bl by auto
      ultimately have "unat b + unat l < unat blk"
        using bl' by (metis linorder_neqE word_less_nat_alt)
      moreover have sp: "?ys = butlast ?ys @ [(b, l)]" using ne bl by (metis append_butlast_last_id)
      have "fl_end lo (us @ [(b, l)]) = unat b + unat l + 1" for us
        by (induction lo us rule: fl_end.induct) auto
      then have "fl_end lo ?ys = unat b + unat l + 1" by (subst sp)
      ultimately show ?thesis by simp
    qed (simp add: blk)
    then have J: "fl_ok (fl_end lo ?ys) hi (join_next blk n ?zs)"
      "free_bytes (join_next blk n ?zs) = {unat blk..<unat blk + unat n} \<union> free_bytes ?zs"
      by (rule join_next_ok[OF z hi]; use n blk in simp)+
    have eq: "fl_free blk n xs = ?ys @ join_next blk n ?zs"
      using False by (auto simp: fl_free_def Let_def)
    show ?thesis using oky J fb by (auto simp: eq fl_ok_append)
  qed
  then show "fl_ok lo hi (fl_free blk n xs)"
    "free_bytes (fl_free blk n xs) = free_bytes xs \<union> {unat blk..<unat blk + unat n}" by blast+
qed

section \<open>The walk and the coalescing step\<close>

lemma freemem_loop_rep:
  assumes "heap_rep ml lo hi m (ys @ zs)"
  shows "freemem_loop blk (lastaddr ml ys) (nextaddr zs) m =
    Some (lastaddr ml (ys @ fl_below blk zs), nextaddr (fl_above blk zs))"
  using assms
proof (induction zs arbitrary: ys)
  case Nil
  then show ?case by (subst freemem_loop.simps) (simp add: fl_below_def fl_above_def)
next
  case (Cons z zs)
  obtain b l where z: "z = (b, l)" by (cases z)
  note rep = Cons.prems[unfolded z]
  note H = heap_repD[OF rep]
  note W = memlist_words[OF rep H(5), of b l, simplified]
  have ch: "chain m b zs" using H(6) by (simp add: chain_append chain_Cons)
  show ?case
  proof (cases "b < blk")
    case True
    then show ?thesis
      using W chain_next[OF ch] Cons.IH[of "ys @ [(b, l)]"] rep
      by (subst freemem_loop.simps)
        (simp add: z range_simps lastaddr_append fl_below_def fl_above_def)
  next
    case False
    then show ?thesis by (subst freemem_loop.simps) (simp add: z fl_below_def fl_above_def)
  qed
qed

definition join_mem :: "uint32 \<Rightarrow> uint32 \<Rightarrow> uint32 \<Rightarrow> memory \<Rightarrow> memory" where
  "join_mem c k nx m = (if c + k = nx then m(c + 4 := k + m (nx + 4), c := m nx) else m)"

lemma join_mem_chain:
  assumes ch: "chain m q ((c, k) # zs)" and q: "q \<noteq> c" "q \<noteq> c + 4" and c: "c + k \<noteq> 0" "c \<noteq> c + 4"
    and zs: "\<And>d j. (d, j) \<in> set zs \<Longrightarrow> d \<noteq> c \<and> d \<noteq> c + 4 \<and> d + 4 \<noteq> c \<and> d + 4 \<noteq> c + 4"
  shows "chain (join_mem c k (nextaddr zs) m) q (join_next c k zs)"
proof (cases zs)
  case Nil
  then show ?thesis using ch c by (simp add: join_mem_def join_next_def)
next
  case (Cons z zs')
  obtain d j where z: "z = (d, j)" by (cases z)
  show ?thesis
  proof (cases "c + k = d")
    case True
    let ?m = "m(c + 4 := k + m (d + 4), c := m d)"
    have m: "m q = c" "m (c + 4) = k" "m (d + 4) = j" "chain m d zs'"
      using ch by (auto simp: Cons z chain_Cons)
    have zs': "d' \<noteq> c \<and> d' \<noteq> c + 4 \<and> d' + 4 \<noteq> c \<and> d' + 4 \<noteq> c + 4" if "(d', j') \<in> set zs'" for d' j'
      using zs[of d' j'] Cons that by simp
    have "chain ?m c zs'"
      by (rule chain_start[OF m(4)]) (auto dest!: zs')
    then show ?thesis
      using True m q c zs[of d j] by (simp add: join_mem_def join_next_def Cons z chain_Cons)
  next
    case False
    then show ?thesis using ch by (simp add: join_mem_def join_next_def Cons z)
  qed
qed

section \<open>freemem\<close>

definition free_post ::
  "uint32 \<Rightarrow> nat \<Rightarrow> nat \<Rightarrow> uint32 \<Rightarrow> uint32 \<Rightarrow> memory \<Rightarrow> blk list \<Rightarrow> memory \<Rightarrow> blk list \<Rightarrow> bool" where
  "free_post ml lo hi blk n m xs m' xs' \<longleftrightarrow> heap_rep ml lo hi m' xs' \<and> m' (ml + 4) = m (ml + 4) + n \<and>
     (\<forall>a. a \<noteq> ml \<longrightarrow> a \<noteq> ml + 4 \<longrightarrow> unat a \<notin> free_bytes xs \<union> {unat blk..<unat blk + unat n} \<longrightarrow>
        m' a = m a)"

text \<open>One node \<open>(c, k)\<close> has been placed in front of the upper part; join it and splice.\<close>

lemma join_splice:
  assumes rep: "heap_rep ml lo hi m (us @ vs)"
    and pre: "\<forall>x \<in> reads ml us. m1 x = m x"
    and ch: "chain m1 (lastaddr ml us) ((c, k) # zs)"
    and ok: "fl_ok lo hi (us @ join_next c k zs)"
    and c: "c + k \<noteq> 0" "c \<noteq> c + 4" "lastaddr ml us \<noteq> c" "lastaddr ml us \<noteq> c + 4"
    and cr: "c \<notin> reads ml us" "c + 4 \<notin> reads ml us"
    and zs: "\<And>d j. (d, j) \<in> set zs \<Longrightarrow> d \<noteq> c \<and> d \<noteq> c + 4 \<and> d + 4 \<noteq> c \<and> d + 4 \<noteq> c + 4"
  shows "heap_rep ml lo hi (join_mem c k (nextaddr zs) m1) (us @ join_next c k zs)"
proof (rule heap_rep_splice[OF rep])
  show "fl_ok (fl_end lo us) hi (join_next c k zs)" using ok by (simp add: fl_ok_append)
  show "chain (join_mem c k (nextaddr zs) m1) (lastaddr ml us) (join_next c k zs)"
    by (rule join_mem_chain[OF ch c(3,4,1,2) zs])
  show "\<forall>x \<in> reads ml us. join_mem c k (nextaddr zs) m1 x = m x"
    using pre cr by (auto simp: join_mem_def)
qed

lemma cell_free:
  assumes "fl_ok lo hi xs" "hi < 2 ^ 32" "(b, l) \<in> set xs"
  shows "unat b \<in> free_bytes xs" "unat (b + 4) \<in> free_bytes xs"
proof -
  note B = fl_ok_mem[OF assms(1,3)]
  have "unat (b + 4) = unat b + 4" using B assms(2) by (intro unat_add4) simp
  then show "unat b \<in> free_bytes xs" "unat (b + 4) \<in> free_bytes xs"
    using B by (auto intro!: block_bytes[OF assms(3)])
qed

text \<open>Coalescing with the block below.\<close>

lemma freemem_low:
  assumes rep: "heap_rep ml lo hi m (us @ (p, pl) # zs)" and lo: "lo < 2 ^ 32" and hi: "hi < 2 ^ 32"
    and fit: "unat (p + pl) + unat n \<le> hi" and n: "8 \<le> unat n"
    and ok: "fl_ok lo hi (us @ join_next p (pl + n) zs)"
    and m1: "m1 = m(ml + 4 := m (ml + 4) + n, p + 4 := pl + n)"
  shows "heap_rep ml lo hi (join_mem p (pl + n) (nextaddr zs) m1) (us @ join_next p (pl + n) zs)"
proof -
  note H = heap_repD[OF rep] and P = prev_facts[OF rep lo refl]
  have mem: "(p, pl) \<in> set ((p, pl) # zs)" by simp
  note Pp = P(6)[OF mem] and W = memlist_words[OF rep H(5), of p pl, simplified]
  have okp: "fl_ok (fl_end lo us) hi ((p, pl) # zs)" using H(5) by (simp add: fl_ok_append)
  have B: "unat p + unat pl \<le> hi" "8 \<le> unat pl" using okp by auto
  have ch: "m (lastaddr ml us) = p" "m (p + 4) = pl" "chain m p zs"
    using H(6) by (simp_all add: chain_append chain_Cons)
  have upl: "unat (p + pl) = unat p + unat pl" using B hi by (intro unat_add) simp
  have "unat (p + pl + n) = unat p + unat pl + unat n" using upl fit hi by (subst unat_add) simp_all
  then have nz: "p + (pl + n) \<noteq> 0" using n by (intro word_neq_unat) (simp add: add.assoc)
  have D: "d \<noteq> p \<and> d \<noteq> p + 4 \<and> d + 4 \<noteq> p \<and> d + 4 \<noteq> p + 4 \<and> d \<noteq> ml + 4 \<and> d + 4 \<noteq> ml + 4"
    if dj: "(d, j) \<in> set zs" for d j
  proof -
    have "unat p + unat pl < unat d" using okp fl_ok_mem[of "unat p + unat pl + 1" hi zs d j] dj by auto
    moreover have d4: "unat (d + 4) = unat d + 4" "d \<noteq> ml + 4" "d + 4 \<noteq> ml + 4"
      using memlist_words[OF rep H(5), of d j] dj by auto
    ultimately have "d \<noteq> p" "d \<noteq> p + 4" "d + 4 \<noteq> p" "d + 4 \<noteq> p + 4"
      using W(9) B(2) by (intro word_neq_unat; simp)+
    with d4 show ?thesis by blast
  qed
  have "chain m1 p zs"
    by (rule chain_start[OF ch(3)]) (use W m1 in \<open>auto dest!: D\<close>)
  then have c1: "chain m1 (lastaddr ml us) ((p, pl + n) # zs)"
    using ch P(3) Pp W m1 by (auto simp: chain_Cons)
  show ?thesis
    by (rule join_splice[OF rep _ c1 ok nz]) (use P(4,5) Pp m1 D in auto)
qed

text \<open>Linking a new node.\<close>

lemma freemem_new:
  assumes rep: "heap_rep ml lo hi m (ys @ zs)" and lo: "lo < 2 ^ 32" and hi: "hi < 2 ^ 32"
    and blk: "lo \<le> unat blk" "unat blk + unat n \<le> hi" and n: "8 \<le> unat n"
    and dis: "{unat blk..<unat blk + unat n} \<inter> free_bytes (ys @ zs) = {}"
    and ok: "fl_ok lo hi (ys @ join_next blk n zs)"
    and m1: "m1 = m(ml + 4 := m (ml + 4) + n, blk := nextaddr zs, blk + 4 := n, lastaddr ml ys := blk)"
  shows "heap_rep ml lo hi (join_mem blk n (nextaddr zs) m1) (ys @ join_next blk n zs)"
    "lastaddr ml ys \<noteq> blk" "lastaddr ml ys \<noteq> blk + 4" "blk \<noteq> ml + 4" "blk + 4 \<noteq> ml + 4"
proof -
  note H = heap_repD[OF rep] and P = prev_facts[OF rep lo refl]
  have b4: "unat (blk + 4) = unat blk + 4" using blk n hi by (intro unat_add4) simp
  have out: "unat blk \<notin> free_bytes (ys @ zs)" "unat (blk + 4) \<notin> free_bytes (ys @ zs)"
    using dis b4 n disjoint_iff[of "{unat blk..<unat blk + unat n}" "free_bytes (ys @ zs)"] by auto
  have ml4: "unat (ml + 4) = unat ml + 4" using H(3) lo by (intro unat_add4) simp
  have mlb: "ml \<noteq> blk" "ml \<noteq> blk + 4" "blk \<noteq> ml + 4" "blk + 4 \<noteq> ml + 4"
    by (rule word_neq_unat; use H(3) blk(1) b4 ml4 in simp)+
  then show "blk \<noteq> ml + 4" "blk + 4 \<noteq> ml + 4" by blast+
  have cells: "d \<noteq> blk \<and> d \<noteq> blk + 4 \<and> d + 4 \<noteq> blk \<and> d + 4 \<noteq> blk + 4" if "(d, j) \<in> set (ys @ zs)" for d j
    using cell_free[OF H(5,4) that] out by metis
  show pb: "lastaddr ml ys \<noteq> blk" "lastaddr ml ys \<noteq> blk + 4"
    using lastaddr_cases[of ml ys] mlb cells by auto
  have rd: "blk \<notin> reads ml ys" "blk + 4 \<notin> reads ml ys"
    using reads_cases[of blk ml ys] reads_cases[of "blk + 4" ml ys] mlb cells by auto
  have ch: "m (lastaddr ml ys) = nextaddr zs" "chain m (lastaddr ml ys) zs"
    using H(6) chain_next by (auto simp: chain_append)
  have D: "d \<noteq> blk \<and> d \<noteq> blk + 4 \<and> d + 4 \<noteq> blk \<and> d + 4 \<noteq> blk + 4 \<and> d \<noteq> ml + 4 \<and> d + 4 \<noteq> ml + 4 \<and>
      d \<noteq> lastaddr ml ys \<and> d + 4 \<noteq> lastaddr ml ys" if "(d, j) \<in> set zs" for d j
    using cells[of d j] memlist_words[OF rep H(5), of d j] P(6)[OF that] that by simp
  have nb: "blk \<noteq> blk + 4" by (rule word_neq_unat) (simp add: b4)
  have "chain m1 blk zs"
    by (rule chain_start[OF ch(2)]) (use ch pb mlb nb m1 in \<open>auto dest!: D\<close>)
  then have c1: "chain m1 (lastaddr ml ys) ((blk, n) # zs)"
    using pb mlb m1 by (auto simp: chain_Cons)
  have "unat (blk + n) = unat blk + unat n" using blk hi by (intro unat_add) simp
  then have nz: "blk + n \<noteq> 0" using n by (intro word_neq_unat) simp
  show "heap_rep ml lo hi (join_mem blk n (nextaddr zs) m1) (ys @ join_next blk n zs)"
    by (rule join_splice[OF rep _ c1 ok nz nb]) (use P(4,5) pb rd m1 D in auto)
qed

text \<open>The straight-line part of \<open>freemem\<close> as a memory transformer.\<close>

definition free_mem1 :: "uint32 \<Rightarrow> uint32 \<Rightarrow> uint32 \<Rightarrow> blk list \<Rightarrow> memory \<Rightarrow> memory" where
  "free_mem1 ml blk n xs m =
     (let ys = fl_below blk xs; zs = fl_above blk xs; p = lastaddr ml ys in
      if ys \<noteq> [] \<and> fst (last ys) + snd (last ys) = blk
      then join_mem p (snd (last ys) + n) (nextaddr zs)
             (m(ml + 4 := m (ml + 4) + n, p + 4 := snd (last ys) + n))
      else join_mem blk n (nextaddr zs)
             (m(ml + 4 := m (ml + 4) + n, blk := nextaddr zs, blk + 4 := n, p := blk)))"

lemma join_run:
  assumes "c \<noteq> 0" "4 dvd unat c" "c + 4 \<noteq> 0" "4 dvd unat (c + 4)" "m (c + 4) = k" "c + k \<noteq> 0"
    and zs: "\<And>d j. (d, j) \<in> set zs \<Longrightarrow>
      d \<noteq> 0 \<and> 4 dvd unat d \<and> d + 4 \<noteq> 0 \<and> 4 dvd unat (d + 4) \<and> d \<noteq> c + 4 \<and> d \<noteq> c"
  shows "do { len \<leftarrow> ld (c + 4) m;
              m \<leftarrow> (if c + len = nextaddr zs
                 then do { nlen \<leftarrow> ld (nextaddr zs + 4) m;
                           m \<leftarrow> st (c + 4) (len + nlen) m;
                           nx \<leftarrow> ld (nextaddr zs) m;
                           st c nx m }
                 else Some m);
              Some (OK, m) } = Some (OK, join_mem c k (nextaddr zs) m)"
proof (cases zs)
  case Nil
  then show ?thesis using assms by (simp add: range_simps join_mem_def)
next
  case (Cons z zs')
  obtain d j where z: "z = (d, j)" by (cases z)
  then show ?thesis using assms(1-6) zs[of d j] Cons by (simp add: range_simps join_mem_def)
qed

lemma free_overlap_eq:
  "fl_overlap blk n xs \<longleftrightarrow>
     (fl_below blk xs \<noteq> [] \<and> blk < lastaddr ml (fl_below blk xs) + snd (last (fl_below blk xs))) \<or>
     (fl_above blk xs \<noteq> [] \<and> blk + n > nextaddr (fl_above blk xs))"
proof -
  have a: "fl_above blk xs \<noteq> [] \<Longrightarrow> nextaddr (fl_above blk xs) = fst (hd (fl_above blk xs))"
    by (cases "fl_above blk xs") (auto simp: nextaddr_def split: prod.splits)
  have b: "fl_below blk xs \<noteq> [] \<Longrightarrow> lastaddr ml (fl_below blk xs) = fst (last (fl_below blk xs))"
    using last_below[of blk xs ml] by (metis fst_conv)
  show ?thesis unfolding fl_overlap_def using a b by (auto simp: case_prod_beta)
qed

lemma freemem_run:
  assumes rep: "heap_rep ml lo hi m xs" and lo: "lo < 2 ^ 32"
    and mm: "unat minheap = lo" "unat maxheap = hi"
    and n: "n \<noteq> 0" "unat n + 7 < 2 ^ 32"
    and blk: "8 dvd unat blk" "lo \<le> unat blk" "unat blk + unat (roundmb n) \<le> hi"
  shows "freemem ml minheap maxheap blk n m =
    (if fl_overlap blk (roundmb n) xs then Some (SYSERR, m)
     else Some (OK, free_mem1 ml blk (roundmb n) xs m))"
proof -
  let ?n = "roundmb n"
  obtain ys zs where Y: "fl_below blk xs = ys" and Z: "fl_above blk xs = zs" by blast
  obtain p pl where p: "lastaddr ml ys = p" and pl: "snd (last ys) = pl" by blast
  note H = heap_repD[OF rep] and M = ml_words[OF rep lo]
  have xs: "xs = ys @ zs" using fl_split[of blk xs] Y Z by simp
  have rep': "heap_rep ml lo hi m (ys @ zs)" using rep xs by simp
  note P = prev_facts[OF rep' lo p[symmetric]]
  have n8: "8 \<le> unat ?n" by (rule roundmb_pos[OF n])
  have b4: "unat (blk + 4) = unat blk + 4" using blk(3) n8 H(4) by (intro unat_add4) simp
  have b: "blk \<noteq> 0" "4 dvd unat blk" "blk + 4 \<noteq> 0" "4 dvd unat (blk + 4)"
    using blk(1,2) H(3) b4 dvd8_4[OF blk(1)] by (auto intro!: word_neq_unat)
  have guard: "\<not> (n = 0 \<or> blk < minheap \<or> blk > maxheap)"
    using n(1) blk(2,3) mm by (auto simp: word_less_nat_alt)
  have first: "ld ml m = Some (nextaddr xs)" using H chain_next[OF H(6)] by (simp add: range_simps)
  have loop: "freemem_loop blk ml (nextaddr xs) m = Some (p, nextaddr zs)"
    using freemem_loop_rep[of ml lo hi m "[]" xs blk] rep by (simp add: Y Z p)
  have memz: "d \<noteq> 0 \<and> 4 dvd unat d \<and> d + 4 \<noteq> 0 \<and> 4 dvd unat (d + 4)" if "(d, j) \<in> set xs" for d j
    using memlist_words[OF rep H(5) that] by blast
  have nx0: "nextaddr zs \<noteq> 0 \<longleftrightarrow> zs \<noteq> []"
    using memz[of "fst (hd zs)" "snd (hd zs)"] by (cases zs) (auto simp: xs)
  have lst: "last ys = (p, pl)" if "ys \<noteq> []"
    using last_below[of blk xs ml] that by (simp add: Y p pl)
  have pin: "(p, pl) \<in> set xs" if "ys \<noteq> []"
    using last_in_set[OF that] lst[OF that] by (simp add: xs)
  have pml: "p = ml \<longleftrightarrow> ys = []"
    using pin memlist_words(1)[OF rep H(5), of p pl] p by (cases "ys = []") auto
  have pm: "m (p + 4) = pl \<and> p + 4 \<noteq> 0 \<and> 4 dvd unat (p + 4) \<and> p + 4 \<noteq> ml + 4 \<and> p \<noteq> p + 4"
    if ne: "ys \<noteq> []"
  proof -
    have "ys = butlast ys @ [(p, pl)]" using append_butlast_last_id[OF ne] lst[OF ne] by simp
    then have "chain m ml ((butlast ys @ [(p, pl)]) @ zs)" using H(6) xs by simp
    then have "m (p + 4) = pl" by (simp add: chain_append chain_Cons)
    moreover note W = memlist_words[OF rep H(5) pin[OF ne]]
    moreover have "p \<noteq> p + 4" using W(9) by (intro word_neq_unat) simp
    ultimately show ?thesis by blast
  qed
  obtain top where top_def: "top = (if ys = [] then 0 else p + pl)" by blast
  have top: "(if p = ml then Some 0 else do { len \<leftarrow> ld (p + 4) m; Some (p + len) }) = Some top"
    using pm by (simp add: pml range_simps top_def)
  have ov: "(p \<noteq> ml \<and> blk < top) \<or> (nextaddr zs \<noteq> 0 \<and> blk + ?n > nextaddr zs) \<longleftrightarrow> fl_overlap blk ?n xs"
    unfolding free_overlap_eq[of blk ?n xs ml] Y Z p pl pml nx0 top_def by auto
  show ?thesis
  proof (cases "fl_overlap blk ?n xs")
    case True
    then show ?thesis using guard first loop top ov by (simp add: freemem_def Let_def)
  next
    case no: False
    then have nov: "\<not> ((p \<noteq> ml \<and> blk < top) \<or> (nextaddr zs \<noteq> 0 \<and> blk + ?n > nextaddr zs))"
      using ov by blast
    have dis: "{unat blk..<unat blk + unat ?n} \<inter> free_bytes (ys @ zs) = {}"
      using fl_overlap_iff[OF H(5,4) _ blk(3)] no n8 xs by simp
    have ubn: "unat (blk + ?n) = unat blk + unat ?n" using blk(3) H(4) by (intro unat_add) simp
    then have bn0: "blk + ?n \<noteq> 0" using n8 by (intro word_neq_unat) simp
    have zc: "d \<noteq> 0 \<and> 4 dvd unat d \<and> d + 4 \<noteq> 0 \<and> 4 dvd unat (d + 4)" if "(d, j) \<in> set zs" for d j
      using memz[of d j] that by (simp add: xs)
    note unfold = freemem_def Let_def guard first loop top ov no
    show ?thesis
    proof (cases "ys \<noteq> [] \<and> p + pl = blk")
      case True
      let ?m = "m(ml + 4 := m (ml + 4) + ?n, p + 4 := pl + ?n)"
      have p4: "unat (p + 4) = unat p + 4" using memlist_words(9)[OF rep H(5) pin] True by blast
      have zp: "d \<noteq> p + 4 \<and> d \<noteq> p" if "(d, j) \<in> set zs" for d j
        using P(6)[OF that] p4 by auto
      have "freemem ml minheap maxheap blk n m =
          do { len \<leftarrow> ld (p + 4) ?m;
               m \<leftarrow> (if p + len = nextaddr zs
                  then do { nlen \<leftarrow> ld (nextaddr zs + 4) ?m;
                            m \<leftarrow> st (p + 4) (len + nlen) ?m;
                            nx \<leftarrow> ld (nextaddr zs) m;
                            st p nx m }
                  else Some ?m);
               Some (OK, m) }"
        using pm True M P(1-3)
        by (simp only: freemem_def Let_def first loop top guard nov if_False bind.bind_lunit split)
          (simp add: range_simps top_def)
      also have "\<dots> = Some (OK, join_mem p (pl + ?n) (nextaddr zs) ?m)"
        by (rule join_run) (use P(1,2) pm True bn0 zc zp in \<open>auto simp: add.assoc[symmetric]\<close>)
      finally show ?thesis using True no lst by (simp add: free_mem1_def Let_def Y Z p)
    next
      case False
      let ?m = "m(ml + 4 := m (ml + 4) + ?n, blk := nextaddr zs, blk + 4 := ?n, p := blk)"
      have tb: "top \<noteq> blk" using False b by (auto simp: top_def)
      have oks: "fl_ok lo hi (ys @ join_next blk ?n zs)"
        using fl_free_ok(1)[OF H(5,4) roundmb_dvd n8 blk no] False lst
        by (auto simp: fl_free_def Let_def Y Z split: if_splits)
      note N = freemem_new[OF rep' lo H(4) blk(2,3) n8 dis oks refl, unfolded p]
      have zb: "d \<noteq> blk + 4 \<and> d \<noteq> blk" if dj: "(d, j) \<in> set zs" for d j
      proof -
        have "unat d \<in> free_bytes (ys @ zs)" using cell_free(1)[OF H(5,4), of d j] dj by (simp add: xs)
        moreover have "unat blk \<notin> free_bytes (ys @ zs)" "unat (blk + 4) \<notin> free_bytes (ys @ zs)"
          using dis b4 n8 by (auto simp: disjoint_iff)
        ultimately show ?thesis by metis
      qed
      have "freemem ml minheap maxheap blk n m =
          do { len \<leftarrow> ld (blk + 4) ?m;
               m \<leftarrow> (if blk + len = nextaddr zs
                  then do { nlen \<leftarrow> ld (nextaddr zs + 4) ?m;
                            m \<leftarrow> st (blk + 4) (len + nlen) ?m;
                            nx \<leftarrow> ld (nextaddr zs) m;
                            st blk nx m }
                  else Some ?m);
               Some (OK, m) }"
        using tb M P(1-3) b N(2-5)
        by (simp only: freemem_def Let_def first loop top guard nov if_False bind.bind_lunit split)
          (simp add: range_simps)
      also have "\<dots> = Some (OK, join_mem blk ?n (nextaddr zs) ?m)"
        by (rule join_run) (use b N(2-5) bn0 zc zb in auto)
      finally show ?thesis using False no lst by (auto simp: free_mem1_def Let_def Y Z p)
    qed
  qed
qed


text \<open>The transformed memory holds the coalesced list and differs from the old one only in the
  words of free memory, of the block and of \<open>memlist\<close>.\<close>

lemma below_cell:
  assumes "fl_below blk xs \<noteq> []"
  shows "(lastaddr ml (fl_below blk xs), snd (last (fl_below blk xs))) \<in> set xs"
  using last_in_set[OF assms] last_below[OF assms, of ml] fl_below_subset[of blk xs] by (metis subset_iff)

lemma below_cell_neq:
  assumes "\<And>d j. (d, j) \<in> set xs \<Longrightarrow> d \<noteq> a \<and> d + 4 \<noteq> a" "a \<noteq> ml"
  shows "lastaddr ml (fl_below blk xs) \<noteq> a"
    "fl_below blk xs \<noteq> [] \<Longrightarrow> lastaddr ml (fl_below blk xs) + 4 \<noteq> a"
  using below_cell[of blk xs ml] assms by (cases "fl_below blk xs = []"; force)+

lemma join_mem_other: "a \<noteq> c \<Longrightarrow> a \<noteq> c + 4 \<Longrightarrow> join_mem c k nx m a = m a"
  by (simp add: join_mem_def)

lemma free_mem1_other:
  assumes "a \<noteq> blk" "a \<noteq> blk + 4" "lastaddr ml (fl_below blk xs) \<noteq> a"
    "fl_below blk xs \<noteq> [] \<Longrightarrow> lastaddr ml (fl_below blk xs) + 4 \<noteq> a"
  shows "free_mem1 ml blk n xs m a = (if a = ml + 4 then m (ml + 4) + n else m a)"
proof (cases "fl_below blk xs \<noteq> [] \<and> fst (last (fl_below blk xs)) + snd (last (fl_below blk xs)) = blk")
  case True
  obtain p where p: "lastaddr ml (fl_below blk xs) = p" by blast
  have ap: "a \<noteq> p" "a \<noteq> p + 4" using assms(3,4) True p by auto
  show ?thesis
    unfolding free_mem1_def Let_def p if_P[OF True]
    by (subst join_mem_other[OF ap]) (use ap in simp)
next
  case False
  show ?thesis
    unfolding free_mem1_def Let_def if_not_P[OF False]
    by (subst join_mem_other[OF assms(1,2)]) (use assms in simp)
qed

lemma free_mem1_frame:
  assumes rep: "heap_rep ml lo hi m xs" and n: "8 \<le> unat n" and fit: "unat blk + unat n \<le> hi"
    and a: "a \<noteq> ml" "a \<noteq> ml + 4" "unat a \<notin> free_bytes xs \<union> {unat blk..<unat blk + unat n}"
  shows "free_mem1 ml blk n xs m a = m a"
proof -
  note H = heap_repD[OF rep]
  have b4: "unat (blk + 4) = unat blk + 4" using fit n H(4) by (intro unat_add4) simp
  have ab: "a \<noteq> blk" "a \<noteq> blk + 4" using a(3) n b4 by auto
  have "d \<noteq> a \<and> d + 4 \<noteq> a" if "(d, j) \<in> set xs" for d j
    using cell_free[OF H(5,4) that] a(3) by auto
  note N = below_cell_neq[of xs a ml blk, OF this a(1)]
  show ?thesis using free_mem1_other[OF ab N] a(2) by simp
qed

lemma free_mem1_total:
  assumes rep: "heap_rep ml lo hi m xs" and lo: "lo < 2 ^ 32" and n: "8 \<le> unat n"
    and blk: "lo \<le> unat blk" "unat blk + unat n \<le> hi"
  shows "free_mem1 ml blk n xs m (ml + 4) = m (ml + 4) + n"
proof -
  note H = heap_repD[OF rep]
  have b4: "unat (blk + 4) = unat blk + 4" using blk n H(4) by (intro unat_add4) simp
  have ml4: "unat (ml + 4) = unat ml + 4" using H(3) lo by (intro unat_add4) simp
  have mlb: "ml + 4 \<noteq> blk" "ml + 4 \<noteq> blk + 4" "ml + 4 \<noteq> ml"
    by (rule word_neq_unat; use H(3) blk(1) b4 ml4 in simp)+
  have far: "ml + 4 \<noteq> d \<and> ml + 4 \<noteq> d + 4" if "(d, j) \<in> set xs" for d j
    using memlist_words[OF rep H(5) that] by metis
  have N: "lastaddr ml (fl_below blk xs) \<noteq> ml + 4"
    "fl_below blk xs \<noteq> [] \<Longrightarrow> lastaddr ml (fl_below blk xs) + 4 \<noteq> ml + 4"
    by (rule below_cell_neq; use far mlb(3) in metis)+
  show ?thesis using free_mem1_other[OF mlb(1,2) N] by simp
qed

lemma free_mem1_rep:
  assumes rep: "heap_rep ml lo hi m xs" and lo: "lo < 2 ^ 32" and n: "8 dvd unat n" "8 \<le> unat n"
    and blk: "8 dvd unat blk" "lo \<le> unat blk" "unat blk + unat n \<le> hi" and no: "\<not> fl_overlap blk n xs"
  shows "heap_rep ml lo hi (free_mem1 ml blk n xs m) (fl_free blk n xs)"
proof -
  let ?ys = "fl_below blk xs" and ?zs = "fl_above blk xs"
  note H = heap_repD[OF rep]
  have rep': "heap_rep ml lo hi m (?ys @ ?zs)" using rep by (simp add: fl_split)
  have dis: "{unat blk..<unat blk + unat n} \<inter> free_bytes (?ys @ ?zs) = {}"
    using fl_overlap_iff[OF H(5,4) _ blk(3)] no n by (simp add: fl_split)
  note ok = fl_free_ok(1)[OF H(5,4) n blk no]
  show ?thesis
  proof (cases "?ys \<noteq> [] \<and> fst (last ?ys) + snd (last ?ys) = blk")
    case True
    obtain p pl where pl: "last ?ys = (p, pl)" by (cases "last ?ys")
    have p: "lastaddr ml ?ys = p" using last_below[of blk xs ml] True pl by simp
    have ys: "?ys = butlast ?ys @ [(p, pl)]" using True pl by (metis append_butlast_last_id)
    then have "heap_rep ml lo hi m (butlast ?ys @ (p, pl) # ?zs)" using rep'
      by (metis append.assoc append_Cons append_Nil)
    from freemem_low[OF this lo H(4) _ n(2) _ refl] show ?thesis
      using True pl p ok blk(3) by (simp add: free_mem1_def fl_free_def Let_def)
  next
    case False
    then show ?thesis
      using freemem_new(1)[OF rep' lo H(4) blk(2,3) n(2) dis _ refl] ok
      unfolding free_mem1_def fl_free_def Let_def by (simp only: if_False)
  qed
qed

theorem freemem_rep:
  assumes rep: "heap_rep ml lo hi m xs" and lo: "lo < 2 ^ 32"
    and mm: "unat minheap = lo" "unat maxheap = hi"
    and n: "n \<noteq> 0" "unat n + 7 < 2 ^ 32"
    and blk: "8 dvd unat blk" "lo \<le> unat blk" "unat blk + unat (roundmb n) \<le> hi"
  shows "if {unat blk..<unat blk + unat (roundmb n)} \<inter> free_bytes xs \<noteq> {}
    then freemem ml minheap maxheap blk n m = Some (SYSERR, m)
    else \<exists>m'. freemem ml minheap maxheap blk n m = Some (OK, m') \<and>
      free_post ml lo hi blk (roundmb n) m xs m' (fl_free blk (roundmb n) xs) \<and>
      free_bytes (fl_free blk (roundmb n) xs) = free_bytes xs \<union> {unat blk..<unat blk + unat (roundmb n)}"
proof -
  let ?n = "roundmb n"
  note H = heap_repD[OF rep]
  have n8: "8 \<le> unat ?n" by (rule roundmb_pos[OF n])
  note run = freemem_run[OF assms]
  have iff: "fl_overlap blk ?n xs \<longleftrightarrow> {unat blk..<unat blk + unat ?n} \<inter> free_bytes xs \<noteq> {}"
    using fl_overlap_iff[OF H(5,4) _ blk(3)] n8 by simp
  show ?thesis
  proof (cases "fl_overlap blk ?n xs")
    case True
    then show ?thesis using run iff by simp
  next
    case no: False
    let ?m = "free_mem1 ml blk ?n xs m"
    note rep1 = free_mem1_rep[OF rep lo roundmb_dvd n8 blk no]
    have "free_post ml lo hi blk ?n m xs ?m (fl_free blk ?n xs)"
      unfolding free_post_def
      using rep1 free_mem1_total[OF rep lo n8 blk(2,3)] free_mem1_frame[OF rep n8 blk(3)] by blast
    then show ?thesis using no iff run fl_free_ok(2)[OF H(5,4) roundmb_dvd n8 blk no] by auto
  qed
qed

end
