(* ===== verification/Kernel_State.thy ===== *)
theory Kernel_State
  imports Queue_Ops Memory_Free
begin

unbundle bit_operations_syntax

text \<open>
  The global variables of the kernel (\<^verbatim>\<open>system/initialize.c\<close>, \<^verbatim>\<open>include/process.h\<close>,
  \<^verbatim>\<open>include/semaphore.h\<close>, \<^verbatim>\<open>system/resched.c\<close>, \<^verbatim>\<open>system/clkinit.c\<close>) as one record,
  checked access to the process and semaphore tables, and the queue operations with their
  argument checks.

  Interrupts are off inside every system call, so a call is one transition up to the points
  where it gives up the processor. \<open>ctxsw\<close> is the change of \<open>currpid\<close>: the rest of a call
  that was under way is kept per process in \<open>pkont\<close> (on the machine it is the return address
  on the process's stack) and is run when \<open>currpid\<close> is that process again. A call whose
  remaining code only returns a value that is already fixed needs no entry.
\<close>

section \<open>Types\<close>

datatype prstate = PR_FREE | PR_CURR | PR_READY | PR_RECV | PR_SLEEP | PR_SUSP | PR_WAIT | PR_RECTIM

record procent =
  prstate :: prstate
  prprio :: int
  prstkptr :: uint32
  prstkbase :: uint32
  prstklen :: uint32
  prname :: "char list"
  prsem :: int
  prparent :: int
  prmsg :: uint32
  prhasmsg :: bool
  prdesc :: "int list"

datatype sstate = S_FREE | S_USED

record sentry =
  sstate :: sstate
  scount :: int
  squeue :: int

text \<open>A buffer pool (\<^verbatim>\<open>include/bufpool.h\<close>).\<close>

record bpentry =
  bpnext :: uint32
  bpsem :: int
  bpsize :: uint32

text \<open>The code after a point where a system call gives up the processor.\<close>

datatype kcont = K_receive | K_recvtime | K_suspend int | K_kill int | K_clkhandler

record kstate =
  mem :: memory
  memlist :: uint32
  minheap :: uint32
  maxheap :: uint32
  queuetab :: qtab
  nextqid :: int
  proctab :: "int \<Rightarrow> procent"
  prcount :: int
  currpid :: int
  nextpid :: int
  semtab :: "int \<Rightarrow> sentry"
  nextsem :: int
  readylist :: int
  sleepq :: int
  ndefers :: int
  attempt :: bool
  preempt :: uint32
  clktime :: uint32
  count1000 :: uint32
  buftab :: "int \<Rightarrow> bpentry"
  nbpools :: int
  pkont :: "int \<Rightarrow> kcont option"
  halted :: bool

text \<open>What a call hands back now: a value, or nothing yet because the rest of it is pending.\<close>

datatype 'a outcome = Done 'a | Pending

section \<open>Table access\<close>

definition pr_rd :: "int \<Rightarrow> 'z kstate_scheme \<Rightarrow> procent option" where
  "pr_rd p s = (if 0 \<le> p \<and> p < NPROC then Some (proctab s p) else None)"

definition pr_upd :: "int \<Rightarrow> (procent \<Rightarrow> procent) \<Rightarrow> 'z kstate_scheme \<Rightarrow> 'z kstate_scheme option" where
  "pr_upd p f s =
     (if 0 \<le> p \<and> p < NPROC then Some (s\<lparr>proctab := (proctab s)(p := f (proctab s p))\<rparr>) else None)"

definition sem_rd :: "int \<Rightarrow> 'z kstate_scheme \<Rightarrow> sentry option" where
  "sem_rd k s = (if 0 \<le> k \<and> k < NSEM then Some (semtab s k) else None)"

definition sem_upd :: "int \<Rightarrow> (sentry \<Rightarrow> sentry) \<Rightarrow> 'z kstate_scheme \<Rightarrow> 'z kstate_scheme option" where
  "sem_upd k f s =
     (if 0 \<le> k \<and> k < NSEM then Some (s\<lparr>semtab := (semtab s)(k := f (semtab s k))\<rparr>) else None)"

definition isbadpid :: "int \<Rightarrow> 'z kstate_scheme \<Rightarrow> bool" where
  "isbadpid x s \<longleftrightarrow> x < 0 \<or> x \<ge> NPROC \<or> prstate (proctab s x) = PR_FREE"

definition isbadsem :: "int \<Rightarrow> bool" where
  "isbadsem x \<longleftrightarrow> x < 0 \<or> x \<ge> NSEM"

text \<open>An operation on the queue table alone, run on the kernel state.\<close>

definition on_qtab :: "(qtab \<Rightarrow> ('a \<times> qtab) option) \<Rightarrow> 'z kstate_scheme \<Rightarrow> ('a \<times> 'z kstate_scheme) option" where
  "on_qtab f s = map_option (\<lambda>(r, t). (r, s\<lparr>queuetab := t\<rparr>)) (f (queuetab s))"

text \<open>The allocator, run on the kernel state.\<close>

definition on_mem :: "(memory \<Rightarrow> ('a \<times> memory) option) \<Rightarrow> 'z kstate_scheme \<Rightarrow> ('a \<times> 'z kstate_scheme) option" where
  "on_mem f s = map_option (\<lambda>(r, m). (r, s\<lparr>mem := m\<rparr>)) (f (mem s))"

definition getmem_k :: "uint32 \<Rightarrow> 'z kstate_scheme \<Rightarrow> (uint32 \<times> 'z kstate_scheme) option" where
  "getmem_k n s = on_mem (getmem (memlist s) n) s"

definition getstk_k :: "uint32 \<Rightarrow> 'z kstate_scheme \<Rightarrow> (uint32 \<times> 'z kstate_scheme) option" where
  "getstk_k n s = on_mem (getstk (memlist s) n) s"

definition freemem_k :: "uint32 \<Rightarrow> uint32 \<Rightarrow> 'z kstate_scheme \<Rightarrow> (int \<times> 'z kstate_scheme) option" where
  "freemem_k b n s = on_mem (freemem (memlist s) (minheap s) (maxheap s) b n) s"

definition freestk_k :: "uint32 \<Rightarrow> uint32 \<Rightarrow> 'z kstate_scheme \<Rightarrow> (int \<times> 'z kstate_scheme) option" where
  "freestk_k p len s = on_mem (freestk (memlist s) (minheap s) (maxheap s) p len) s"

section \<open>Process queues\<close>

text \<open>\<open>enqueue\<close> (\<^verbatim>\<open>queue.c\<close>), \<open>insert\<close> (\<^verbatim>\<open>insert.c\<close>) and \<open>insertd\<close> (\<^verbatim>\<open>insertd.c\<close>) in full.\<close>

definition enqueue :: "int \<Rightarrow> int \<Rightarrow> 'z kstate_scheme \<Rightarrow> (int \<times> 'z kstate_scheme) option" where
  "enqueue pid q s =
     (if isbadqid q \<or> isbadpid pid s then Some (SYSERR, s)
      else do { t \<leftarrow> enqueue_links pid q (queuetab s); Some (pid, s\<lparr>queuetab := t\<rparr>) })"

definition insert_q :: "int \<Rightarrow> int \<Rightarrow> int \<Rightarrow> 'z kstate_scheme \<Rightarrow> (int \<times> 'z kstate_scheme) option" where
  "insert_q pid q key s =
     (if isbadqid q \<or> isbadpid pid s then Some (SYSERR, s)
      else do { t \<leftarrow> insert_links pid q key (queuetab s); Some (OK, s\<lparr>queuetab := t\<rparr>) })"

definition insertd :: "int \<Rightarrow> int \<Rightarrow> int \<Rightarrow> 'z kstate_scheme \<Rightarrow> (int \<times> 'z kstate_scheme) option" where
  "insertd pid q key s =
     (if isbadqid q \<or> isbadpid pid s then Some (SYSERR, s)
      else do { t \<leftarrow> insertd_links pid q key (queuetab s); Some (OK, s\<lparr>queuetab := t\<rparr>) })"

section \<open>Reading the queues as lists\<close>

abbreviation qlist :: "'z kstate_scheme \<Rightarrow> int \<Rightarrow> int list" where
  "qlist s \<equiv> queue_of (queuetab s)"

abbreviation rdy :: "'z kstate_scheme \<Rightarrow> int list" where
  "rdy s \<equiv> qlist s (readylist s)"

abbreviation slp :: "'z kstate_scheme \<Rightarrow> int list" where
  "slp s \<equiv> qlist s (sleepq s)"

abbreviation semq :: "'z kstate_scheme \<Rightarrow> int \<Rightarrow> int list" where
  "semq s k \<equiv> qlist s (squeue (semtab s k))"

abbreviation pid_ok :: "int \<Rightarrow> bool" where
  "pid_ok p \<equiv> 0 \<le> p \<and> p < NPROC"

abbreviation sem_ok :: "int \<Rightarrow> bool" where
  "sem_ok k \<equiv> 0 \<le> k \<and> k < NSEM"

section \<open>Accesses in range\<close>

lemma pr_rd_in [range_simps]: "pid_ok p \<Longrightarrow> pr_rd p s = Some (proctab s p)"
  by (simp add: pr_rd_def)

lemma pr_upd_in [range_simps]:
  "pid_ok p \<Longrightarrow> pr_upd p f s = Some (s\<lparr>proctab := (proctab s)(p := f (proctab s p))\<rparr>)"
  by (simp add: pr_upd_def)

lemma sem_rd_in [range_simps]: "sem_ok k \<Longrightarrow> sem_rd k s = Some (semtab s k)"
  by (simp add: sem_rd_def)

lemma sem_upd_in [range_simps]:
  "sem_ok k \<Longrightarrow> sem_upd k f s = Some (s\<lparr>semtab := (semtab s)(k := f (semtab s k))\<rparr>)"
  by (simp add: sem_upd_def)

lemma isbadpid_iff: "\<not> isbadpid p s \<longleftrightarrow> pid_ok p \<and> prstate (proctab s p) \<noteq> PR_FREE"
  by (auto simp: isbadpid_def)

lemma isbadsem_iff: "\<not> isbadsem k \<longleftrightarrow> sem_ok k"
  by (auto simp: isbadsem_def)

text \<open>The lists read off a table are the ones it represents.\<close>

lemma qrep_cong: "qrep n t Q \<Longrightarrow> (\<And>q. qid_ok n q \<Longrightarrow> Q' q = Q q) \<Longrightarrow> qrep n t Q'"
  unfolding qrep_def by metis

lemma qrep_canon: "qrep n t Q \<Longrightarrow> qrep n t (queue_of t)"
  using qrep_cong[of n t Q "queue_of t"] qrep_queue_of[of n t Q] by blast

end
