(* ===== verification/Scheduler.thy ===== *)
theory Scheduler
  imports Kernel_State
begin

text \<open>
  Process scheduling: \<^verbatim>\<open>system/ready.c\<close>, \<^verbatim>\<open>system/resched.c\<close>, \<^verbatim>\<open>system/yield.c\<close>.
\<close>

section \<open>Operations\<close>

definition resched_switch :: "'z kstate_scheme \<Rightarrow> 'z kstate_scheme option" where
  "resched_switch s = do {
     (pid, s) \<leftarrow> on_qtab (dequeue (readylist s)) s;
     let s = s\<lparr>currpid := pid\<rparr>;
     s \<leftarrow> pr_upd pid (\<lambda>e. e\<lparr>prstate := PR_CURR\<rparr>) s;
     Some (s\<lparr>preempt := QUANTUM\<rparr>) }"

definition resched :: "'z kstate_scheme \<Rightarrow> 'z kstate_scheme option" where
  "resched s =
     (if ndefers s > 0 then Some (s\<lparr>attempt := True\<rparr>)
      else do {
        ptold \<leftarrow> pr_rd (currpid s) s;
        if prstate ptold = PR_CURR
        then do {
          k \<leftarrow> firstkey (queuetab s) (readylist s);
          if prprio ptold > k then Some s
          else do {
            s \<leftarrow> pr_upd (currpid s) (\<lambda>e. e\<lparr>prstate := PR_READY\<rparr>) s;
            (_, s) \<leftarrow> insert_q (currpid s) (readylist s) (prprio ptold) s;
            resched_switch s } }
        else resched_switch s })"

abbreviation (input) DEFER_START :: int where "DEFER_START \<equiv> 1"
abbreviation (input) DEFER_STOP :: int where "DEFER_STOP \<equiv> 2"

definition resched_cntl :: "int \<Rightarrow> 'z kstate_scheme \<Rightarrow> (int \<times> 'z kstate_scheme) option" where
  "resched_cntl defer s =
     (if defer = DEFER_START then
        (let s' = s\<lparr>ndefers := s32 (ndefers s + 1)\<rparr> in
         Some (OK, if ndefers s = 0 then s'\<lparr>attempt := False\<rparr> else s'))
      else if defer = DEFER_STOP then
        (if ndefers s \<le> 0 then Some (SYSERR, s)
         else (let s = s\<lparr>ndefers := ndefers s - 1\<rparr> in
           if ndefers s = 0 \<and> attempt s then do { s \<leftarrow> resched s; Some (OK, s) }
           else Some (OK, s)))
      else Some (SYSERR, s))"

definition ready :: "int \<Rightarrow> 'z kstate_scheme \<Rightarrow> (int \<times> 'z kstate_scheme) option" where
  "ready pid s =
     (if isbadpid pid s then Some (SYSERR, s)
      else do {
        s \<leftarrow> pr_upd pid (\<lambda>e. e\<lparr>prstate := PR_READY\<rparr>) s;
        prptr \<leftarrow> pr_rd pid s;
        (_, s) \<leftarrow> insert_q pid (readylist s) (prprio prptr) s;
        s \<leftarrow> resched s;
        Some (OK, s) })"

definition yield :: "'z kstate_scheme \<Rightarrow> (int \<times> 'z kstate_scheme) option" where
  "yield s = do { s \<leftarrow> resched s; Some (OK, s) }"

end
