(* ===== verification/Kernel_Inv.thy ===== *)
theory Kernel_Inv
  imports Scheduler
begin

text \<open>
  The invariant that ties the process table to the queues: a process is on the queue its
  state names, and on no other. \<open>kq F\<close> is the invariant with the processes in \<open>F\<close> off every
  queue whatever their state, which is what holds between the updates an operation makes.
\<close>

section \<open>Queue invariant\<close>

definition kids :: "'z kstate_scheme \<Rightarrow> bool" where
  "kids s \<longleftrightarrow> qid_ok (nextqid s) (readylist s) \<and> qid_ok (nextqid s) (sleepq s) \<and>
     readylist s \<noteq> sleepq s \<and>
     (\<forall>k. sem_ok k \<longrightarrow> qid_ok (nextqid s) (squeue (semtab s k)) \<and>
        squeue (semtab s k) \<noteq> readylist s \<and> squeue (semtab s k) \<noteq> sleepq s) \<and>
     (\<forall>j k. sem_ok j \<longrightarrow> sem_ok k \<longrightarrow> squeue (semtab s j) = squeue (semtab s k) \<longrightarrow> j = k)"

text \<open>The queue a process belongs on, by its state.\<close>

definition qof :: "'z kstate_scheme \<Rightarrow> int \<Rightarrow> int option" where
  "qof s p = (case prstate (proctab s p) of
       PR_READY \<Rightarrow> Some (readylist s)
     | PR_SLEEP \<Rightarrow> Some (sleepq s)
     | PR_RECTIM \<Rightarrow> Some (sleepq s)
     | PR_WAIT \<Rightarrow> Some (squeue (semtab s (prsem (proctab s p))))
     | _ \<Rightarrow> None)"

definition prio_ok :: "int \<Rightarrow> bool" where
  "prio_ok x \<longleftrightarrow> - (2 ^ 15) \<le> x \<and> x < 2 ^ 15"

definition kq :: "int set \<Rightarrow> 'z kstate_scheme \<Rightarrow> bool" where
  "kq F s \<longleftrightarrow>
     qrep (nextqid s) (queuetab s) (qlist s) \<and> kids s \<and>
     (\<forall>q. qid_ok (nextqid s) q \<longrightarrow> set (qlist s q) = {p. pid_ok p \<and> p \<notin> F \<and> qof s p = Some q}) \<and>
     (\<forall>p. pid_ok p \<longrightarrow> prio_ok (prprio (proctab s p)) \<and>
        (prstate (proctab s p) = PR_WAIT \<longrightarrow> sem_ok (prsem (proctab s p)))) \<and>
     sorted_wrt (\<lambda>a b. qkey (queuetab s a) \<ge> qkey (queuetab s b)) (rdy s) \<and>
     pid_ok (currpid s) \<and> (\<forall>p. pid_ok p \<longrightarrow> prstate (proctab s p) = PR_CURR \<longrightarrow> p = currpid s) \<and>
     prstate (proctab s NULLPROC) \<in> {PR_CURR, PR_READY}"

lemma kqD:
  assumes "kq F s"
  shows "qrep (nextqid s) (queuetab s) (qlist s)" "kids s"
    "\<And>q. qid_ok (nextqid s) q \<Longrightarrow> set (qlist s q) = {p. pid_ok p \<and> p \<notin> F \<and> qof s p = Some q}"
    "\<And>p. pid_ok p \<Longrightarrow> prio_ok (prprio (proctab s p))"
    "\<And>p. pid_ok p \<Longrightarrow> prstate (proctab s p) = PR_WAIT \<Longrightarrow> sem_ok (prsem (proctab s p))"
    "sorted_wrt (\<lambda>a b. qkey (queuetab s a) \<ge> qkey (queuetab s b)) (rdy s)"
    "pid_ok (currpid s)"
    "\<And>p. pid_ok p \<Longrightarrow> prstate (proctab s p) = PR_CURR \<Longrightarrow> p = currpid s"
    "prstate (proctab s NULLPROC) \<in> {PR_CURR, PR_READY}"
  using assms unfolding kq_def by blast+

lemma kqI:
  assumes "qrep (nextqid s) (queuetab s) (qlist s)" "kids s"
    "\<And>q. qid_ok (nextqid s) q \<Longrightarrow> set (qlist s q) = {p. pid_ok p \<and> p \<notin> F \<and> qof s p = Some q}"
    "\<And>p. pid_ok p \<Longrightarrow> prio_ok (prprio (proctab s p))"
    "\<And>p. pid_ok p \<Longrightarrow> prstate (proctab s p) = PR_WAIT \<Longrightarrow> sem_ok (prsem (proctab s p))"
    "sorted_wrt (\<lambda>a b. qkey (queuetab s a) \<ge> qkey (queuetab s b)) (rdy s)"
    "pid_ok (currpid s)"
    "\<And>p. pid_ok p \<Longrightarrow> prstate (proctab s p) = PR_CURR \<Longrightarrow> p = currpid s"
    "prstate (proctab s NULLPROC) \<in> {PR_CURR, PR_READY}"
  shows "kq F s"
  unfolding kq_def using assms by blast

lemma kidsD:
  assumes "kids s"
  shows "qid_ok (nextqid s) (readylist s)" "qid_ok (nextqid s) (sleepq s)" "readylist s \<noteq> sleepq s"
    "\<And>k. sem_ok k \<Longrightarrow> qid_ok (nextqid s) (squeue (semtab s k))"
    "\<And>k. sem_ok k \<Longrightarrow> squeue (semtab s k) \<noteq> readylist s"
    "\<And>k. sem_ok k \<Longrightarrow> squeue (semtab s k) \<noteq> sleepq s"
    "\<And>j k. sem_ok j \<Longrightarrow> sem_ok k \<Longrightarrow> squeue (semtab s j) = squeue (semtab s k) \<longleftrightarrow> j = k"
  using assms unfolding kids_def by blast+

lemma kq_ids:
  assumes "kq F s"
  shows "qid_ok (nextqid s) (readylist s)" "qid_ok (nextqid s) (sleepq s)" "readylist s \<noteq> sleepq s"
    "\<And>k. sem_ok k \<Longrightarrow> qid_ok (nextqid s) (squeue (semtab s k))"
    "\<And>k. sem_ok k \<Longrightarrow> squeue (semtab s k) \<noteq> readylist s"
    "\<And>k. sem_ok k \<Longrightarrow> squeue (semtab s k) \<noteq> sleepq s"
    "\<And>j k. sem_ok j \<Longrightarrow> sem_ok k \<Longrightarrow> squeue (semtab s j) = squeue (semtab s k) \<longleftrightarrow> j = k"
  using kidsD[OF kqD(2)[OF assms]] by blast+

lemma kq_not_queued:
  assumes "kq F s" "p \<in> F \<or> qof s p = None"
  shows "p \<notin> queued (nextqid s) (qlist s)"
  using kqD(3)[OF assms(1)] assms(2) by (auto simp: queued_def)

lemma qof_ok:
  assumes "kq F s" "pid_ok p" "qof s p = Some q"
  shows "qid_ok (nextqid s) q"
  using assms(3) kq_ids(1,2,4)[OF assms(1)] kqD(5)[OF assms(1,2)]
  by (auto simp: qof_def split: prstate.splits)

text \<open>Taking a process that is on no queue out of consideration, and back.\<close>

lemma kq_float: "kq {} s \<Longrightarrow> qof s p = None \<Longrightarrow> kq {p} s"
  unfolding kq_def by auto

lemma kq_land: "kq {p} s \<Longrightarrow> qof s p = None \<Longrightarrow> kq {} s"
  unfolding kq_def by auto

text \<open>The entry of a process that is off the queues may change.\<close>

lemma kq_set_proc:
  assumes kq: "kq {p} s" and p: "pid_ok p"
    and prio: "prio_ok (prprio e)" and wait: "prstate e = PR_WAIT \<Longrightarrow> sem_ok (prsem e)"
    and c: "prstate e = PR_CURR \<Longrightarrow> p = currpid s" and nul: "p = NULLPROC \<Longrightarrow> prstate e \<in> {PR_CURR, PR_READY}"
  shows "kq {p} (s\<lparr>proctab := (proctab s)(p := e)\<rparr>)"
proof -
  let ?s = "s\<lparr>proctab := (proctab s)(p := e)\<rparr>"
  have "qof ?s r = qof s r" if "r \<noteq> p" for r using that by (simp add: qof_def cong: prstate.case_cong)
  then have "{r. pid_ok r \<and> r \<notin> {p} \<and> qof ?s r = Some q} = {r. pid_ok r \<and> r \<notin> {p} \<and> qof s r = Some q}" for q
    by auto
  note eq = this
  note K = kqD[OF kq]
  show ?thesis
  proof (rule kqI)
    show "kids ?s" using K(2) by (simp add: kids_def)
    show "set (qlist ?s q) = {r. pid_ok r \<and> r \<notin> {p} \<and> qof ?s r = Some q}" if "qid_ok (nextqid ?s) q" for q
      using K(3)[of q] that eq[of q] by simp
    show "prio_ok (prprio (proctab ?s r))" if "pid_ok r" for r using K(4)[OF that] prio by simp
    show "sem_ok (prsem (proctab ?s r))" if "pid_ok r" "prstate (proctab ?s r) = PR_WAIT" for r
      using K(5)[OF that(1)] that(2) wait by (cases "r = p") simp_all
    show "r = currpid ?s" if "pid_ok r" "prstate (proctab ?s r) = PR_CURR" for r
      using K(8)[OF that(1)] that(2) c by (cases "r = p") simp_all
    show "prstate (proctab ?s NULLPROC) \<in> {PR_CURR, PR_READY}" using K(9) nul by (cases "p = NULLPROC") simp_all
  qed (use K(1,6,7) in simp_all)
qed

text \<open>Changing the queue table alone.\<close>

lemma kq_set_qtab:
  assumes kq: "kq F s" and rep: "qrep (nextqid s) t Q"
    and mem: "\<And>q. qid_ok (nextqid s) q \<Longrightarrow> set (Q q) = {p. pid_ok p \<and> p \<notin> G \<and> qof s p = Some q}"
    and sorted: "sorted_wrt (\<lambda>a b. qkey (t a) \<ge> qkey (t b)) (Q (readylist s))"
  shows "kq G (s\<lparr>queuetab := t\<rparr>)"
proof -
  have "qof (s\<lparr>queuetab := t\<rparr>) = qof s" by (simp add: qof_def fun_eq_iff cong: prstate.case_cong)
  moreover have "queue_of t q = Q q" if "qid_ok (nextqid s) q" for q by (rule qrep_queue_of[OF rep that])
  moreover note kq_ids(1)[OF kq] qrep_canon[OF rep]
  ultimately show ?thesis
    using kqD[OF kq] mem sorted unfolding kq_def kids_def by simp
qed

section \<open>Insertion and removal under the invariant\<close>

definition ins_key :: "(int \<Rightarrow> int) \<Rightarrow> int \<Rightarrow> int \<Rightarrow> int list \<Rightarrow> int list" where
  "ins_key f k p xs = takeWhile (\<lambda>x. f x \<ge> k) xs @ p # dropWhile (\<lambda>x. f x \<ge> k) xs"

lemma set_ins_key: "set (ins_key f k p xs) = insert p (set xs)"
  unfolding ins_key_def by (metis list.set(2) set_append takeWhile_dropWhile_id Un_insert_right)

lemma sorted_ins_key:
  assumes "sorted_wrt (\<lambda>a b. f a \<ge> f b) xs" "p \<notin> set xs"
  shows "sorted_wrt (\<lambda>a b. (f(p := k)) a \<ge> (f(p := k)) b) (ins_key f k p xs)"
proof -
  obtain ys zs where Y: "ys = takeWhile (\<lambda>x. f x \<ge> k) xs" and Z: "zs = dropWhile (\<lambda>x. f x \<ge> k) xs" by blast
  have xs: "xs = ys @ zs" by (simp add: Y Z)
  have ge: "\<forall>y \<in> set ys. f y \<ge> k" by (auto simp: Y dest: set_takeWhileD)
  have le: "\<forall>z \<in> set zs. f z < k"
  proof (cases zs)
    case (Cons z zs')
    then have "f z < k" using hd_dropWhile[of "\<lambda>x. f x \<ge> k" xs] by (simp add: Z[symmetric])
    then show ?thesis using assms(1) by (auto simp: xs Cons sorted_wrt_append)
  qed simp
  have "sorted_wrt (\<lambda>a b. (f(p := k)) a \<ge> (f(p := k)) b) us" if "sorted_wrt (\<lambda>a b. f a \<ge> f b) us" "p \<notin> set us" for us
    using that by (induction us) auto
  then have Y': "sorted_wrt (\<lambda>a b. (f(p := k)) a \<ge> (f(p := k)) b) ys"
    and Z': "sorted_wrt (\<lambda>a b. (f(p := k)) a \<ge> (f(p := k)) b) zs"
    using assms by (simp_all add: xs sorted_wrt_append)
  have "f a \<ge> f b" if "a \<in> set ys" "b \<in> set zs" for a b using ge le that by fastforce
  then show ?thesis
    unfolding ins_key_def Y[symmetric] Z[symmetric] sorted_wrt_append
    using Y' Z' ge le assms(2) by (auto simp: xs less_imp_le)
qed

lemma sorted_keys_cong:
  "(\<And>i. f i = g i) \<Longrightarrow> sorted_wrt (\<lambda>a b. (f a :: int) \<ge> f b) xs \<Longrightarrow> sorted_wrt (\<lambda>a b. g a \<ge> g b) xs"
  by simp

lemma insert_ready:
  assumes kq: "kq {p} s" and p: "pid_ok p" "prstate (proctab s p) = PR_READY"
    and k: "k = prprio (proctab s p)"
  shows "\<exists>t. insert_q p (readylist s) k s = Some (OK, s\<lparr>queuetab := t\<rparr>) \<and> kq {} (s\<lparr>queuetab := t\<rparr>) \<and>
    queue_of t (readylist s) = ins_key (\<lambda>x. qkey (queuetab s x)) k p (rdy s) \<and>
    (\<forall>q. qid_ok (nextqid s) q \<longrightarrow> q \<noteq> readylist s \<longrightarrow> queue_of t q = qlist s q) \<and>
    (\<forall>i. qkey (t i) = (if i = p then k else qkey (queuetab s i)))"
proof -
  note K = kqD[OF kq] and I = kq_ids[OF kq]
  have nq: "p \<notin> queued (nextqid s) (qlist s)" by (rule kq_not_queued[OF kq]) simp
  have key: "MINKEY < k" "k \<le> MAXKEY" using K(4)[OF p(1)] k by (auto simp: prio_ok_def)
  obtain t where t: "insert_links p (readylist s) k (queuetab s) = Some t"
    "qrep (nextqid s) t ((qlist s)(readylist s := ins_key (\<lambda>x. qkey (queuetab s x)) k p (rdy s)))"
    "\<forall>i. qkey (t i) = (if i = p then k else qkey (queuetab s i))"
    using insert_links_rep[OF K(1) I(1) _ _ nq key] p(1) unfolding ins_key_def by blast
  have "insert_q p (readylist s) k s = Some (OK, s\<lparr>queuetab := t\<rparr>)"
    using t(1) p isbadqid_ok[OF K(1) I(1)] by (simp add: insert_q_def isbadpid_def)
  moreover have "qof s p = Some (readylist s)" using p(2) by (simp add: qof_def)
  then have "kq {} (s\<lparr>queuetab := t\<rparr>)"
  proof (intro kq_set_qtab[OF kq t(2)])
    fix q assume q: "qid_ok (nextqid s) q" and pq: "qof s p = Some (readylist s)"
    show "set (((qlist s)(readylist s := ins_key (\<lambda>x. qkey (queuetab s x)) k p (rdy s))) q) =
        {r. pid_ok r \<and> r \<notin> {} \<and> qof s r = Some q}"
    proof (cases "q = readylist s")
      case True
      then show ?thesis using K(3)[OF q] pq p(1) by (auto simp: set_ins_key)
    next
      case False
      then have "qof s p \<noteq> Some q" using pq by simp
      then show ?thesis using K(3)[OF q] False by auto
    qed
  next
    have "p \<notin> set (rdy s)" using K(3)[OF I(1)] by simp
    from sorted_ins_key[OF K(6) this, of k]
    show "sorted_wrt (\<lambda>a b. qkey (t a) \<ge> qkey (t b))
        (((qlist s)(readylist s := ins_key (\<lambda>x. qkey (queuetab s x)) k p (rdy s))) (readylist s))"
      using t(3) by (auto elim!: sorted_keys_cong[rotated])
  qed
  moreover have "queue_of t q = ((qlist s)(readylist s := ins_key (\<lambda>x. qkey (queuetab s x)) k p (rdy s))) q"
    if "qid_ok (nextqid s) q" for q by (rule qrep_queue_of[OF t(2) that])
  ultimately show ?thesis using t(3) I(1) by (intro exI[of _ t]) simp
qed


lemma sorted_wrt_remove: "sorted_wrt P xs \<Longrightarrow> sorted_wrt P (remove1 x xs)"
  by (induction xs) (auto dest: set_remove1_subset[THEN subsetD])

text \<open>Unlinking a process from the queue it is on.\<close>

lemma kq_unlink:
  assumes kq: "kq {} s" and q: "qid_ok (nextqid s) q" and p: "p \<in> set (qlist s q)"
    and rep: "qrep (nextqid s) t ((qlist s)(q := remove1 p (qlist s q)))"
    and keys: "\<forall>i. qkey (t i) = qkey (queuetab s i)"
  shows "kq {p} (s\<lparr>queuetab := t\<rparr>)" "pid_ok p" "qof s p = Some q"
    "\<And>r. qid_ok (nextqid s) r \<Longrightarrow> queue_of t r = ((qlist s)(q := remove1 p (qlist s q))) r"
proof -
  note K = kqD[OF kq]
  show p': "pid_ok p" "qof s p = Some q" using K(3)[OF q] p by auto
  have dist: "distinct (qlist s q)" by (rule qrepD(2)[OF K(1) q])
  show "kq {p} (s\<lparr>queuetab := t\<rparr>)"
  proof (rule kq_set_qtab[OF kq rep])
    fix r assume r: "qid_ok (nextqid s) r"
    show "set (((qlist s)(q := remove1 p (qlist s q))) r) = {x. pid_ok x \<and> x \<notin> {p} \<and> qof s x = Some r}"
    proof (cases "r = q")
      case True
      then show ?thesis using K(3)[OF q] dist by (auto simp: set_remove1_eq)
    next
      case False
      then have "qof s p \<noteq> Some r" using p'(2) by simp
      then have "{x. pid_ok x \<and> x \<notin> {p} \<and> qof s x = Some r} = {x. pid_ok x \<and> x \<notin> {} \<and> qof s x = Some r}"
        by blast
      then show ?thesis using K(3)[OF r] False by simp
    qed
  next
    have "sorted_wrt (\<lambda>a b. qkey (t a) \<ge> qkey (t b)) (rdy s)" using K(6) keys by simp
    then show "sorted_wrt (\<lambda>a b. qkey (t a) \<ge> qkey (t b))
        (((qlist s)(q := remove1 p (qlist s q))) (readylist s))"
      by (auto simp: sorted_wrt_remove)
  qed
  show "queue_of t r = ((qlist s)(q := remove1 p (qlist s q))) r" if "qid_ok (nextqid s) r" for r
    by (rule qrep_queue_of[OF rep that])
qed

lemma getitem_kq:
  assumes kq: "kq {} s" and p: "pid_ok p" "qof s p = Some q"
  shows "\<exists>t. getitem p (queuetab s) = Some (p, t) \<and> kq {p} (s\<lparr>queuetab := t\<rparr>) \<and>
    (\<forall>r. qid_ok (nextqid s) r \<longrightarrow> queue_of t r = ((qlist s)(q := remove1 p (qlist s q))) r) \<and>
    (\<forall>i. qkey (t i) = qkey (queuetab s i))"
proof -
  have q: "qid_ok (nextqid s) q" by (rule qof_ok[OF kq p])
  have mem: "p \<in> set (qlist s q)" using kqD(3)[OF kq q] p by simp
  obtain t where t: "getitem p (queuetab s) = Some (p, t)"
    "qrep (nextqid s) t ((qlist s)(q := remove1 p (qlist s q)))" "\<forall>i. qkey (t i) = qkey (queuetab s i)"
    using getitem_rep[OF kqD(1)[OF kq] q mem] by blast
  show ?thesis using t(1,3) kq_unlink[OF kq q mem t(2,3)] by blast
qed

lemma dequeue_kq:
  assumes kq: "kq {} s" and q: "qid_ok (nextqid s) q" and Q: "qlist s q = x # xs"
  shows "\<exists>t. dequeue q (queuetab s) = Some (x, t) \<and> kq {x} (s\<lparr>queuetab := t\<rparr>) \<and> pid_ok x \<and> qof s x = Some q \<and>
    (\<forall>r. qid_ok (nextqid s) r \<longrightarrow> queue_of t r = ((qlist s)(q := xs)) r) \<and>
    (\<forall>i. qkey (t i) = qkey (queuetab s i))"
proof -
  obtain t where t: "dequeue q (queuetab s) = Some (x, t)" "qrep (nextqid s) t ((qlist s)(q := xs))"
    "\<forall>i. qkey (t i) = qkey (queuetab s i)"
    using dequeue_rep[OF kqD(1)[OF kq] q Q] by blast
  have xs: "remove1 x (qlist s q) = xs" using Q by simp
  have mem: "x \<in> set (qlist s q)" using Q by simp
  show ?thesis using t(1,3) kq_unlink[OF kq q mem, unfolded xs, OF t(2,3)] by blast
qed

lemma getfirst_kq:
  assumes kq: "kq {} s" and q: "qid_ok (nextqid s) q" and Q: "qlist s q = x # xs"
  shows "\<exists>t. getfirst q (queuetab s) = Some (x, t) \<and> kq {x} (s\<lparr>queuetab := t\<rparr>) \<and> pid_ok x \<and> qof s x = Some q \<and>
    (\<forall>r. qid_ok (nextqid s) r \<longrightarrow> queue_of t r = ((qlist s)(q := xs)) r) \<and>
    (\<forall>i. qkey (t i) = qkey (queuetab s i))"
proof -
  obtain t where t: "getfirst q (queuetab s) = Some (x, t)" "qrep (nextqid s) t ((qlist s)(q := xs))"
    "\<forall>i. qkey (t i) = qkey (queuetab s i)"
    using getfirst_rep[OF kqD(1)[OF kq] q Q] by blast
  have xs: "remove1 x (qlist s q) = xs" using Q by simp
  have mem: "x \<in> set (qlist s q)" using Q by simp
  show ?thesis using t(1,3) kq_unlink[OF kq q mem, unfolded xs, OF t(2,3)] by blast
qed

section \<open>Fields the queue invariant does not read\<close>

lemma qof_frame [simp]:
  "qof (s\<lparr>preempt := a\<rparr>) = qof s" "qof (s\<lparr>attempt := b\<rparr>) = qof s" "qof (s\<lparr>ndefers := c\<rparr>) = qof s"
  "qof (s\<lparr>clktime := d\<rparr>) = qof s" "qof (s\<lparr>count1000 := e\<rparr>) = qof s" "qof (s\<lparr>pkont := f\<rparr>) = qof s"
  "qof (s\<lparr>halted := g\<rparr>) = qof s" "qof (s\<lparr>prcount := h\<rparr>) = qof s" "qof (s\<lparr>nextpid := i\<rparr>) = qof s"
  "qof (s\<lparr>nextsem := j\<rparr>) = qof s" "qof (s\<lparr>mem := k\<rparr>) = qof s" "qof (s\<lparr>queuetab := l\<rparr>) = qof s"
  "qof (s\<lparr>currpid := m\<rparr>) = qof s"
  by (simp_all add: qof_def fun_eq_iff cong: prstate.case_cong)

lemma kq_frame [simp]:
  "kq F (s\<lparr>preempt := a\<rparr>) = kq F s" "kq F (s\<lparr>attempt := b\<rparr>) = kq F s" "kq F (s\<lparr>ndefers := c\<rparr>) = kq F s"
  "kq F (s\<lparr>clktime := d\<rparr>) = kq F s" "kq F (s\<lparr>count1000 := e\<rparr>) = kq F s" "kq F (s\<lparr>pkont := f\<rparr>) = kq F s"
  "kq F (s\<lparr>halted := g\<rparr>) = kq F s" "kq F (s\<lparr>prcount := h\<rparr>) = kq F s" "kq F (s\<lparr>nextpid := i\<rparr>) = kq F s"
  "kq F (s\<lparr>nextsem := j\<rparr>) = kq F s" "kq F (s\<lparr>mem := k\<rparr>) = kq F s"
  by (simp_all add: kq_def kids_def)

lemma kq_set_curr:
  assumes "kq F s" "pid_ok r" "\<And>p. pid_ok p \<Longrightarrow> prstate (proctab s p) \<noteq> PR_CURR"
  shows "kq F (s\<lparr>currpid := r\<rparr>)"
  by (rule kqI) (use kqD[OF assms(1)] assms(2,3) in \<open>simp_all add: kids_def\<close>)

end
