(* ===== verification/Sched_Inv.thy ===== *)
theory Sched_Inv
  imports Kernel_Inv
begin

text \<open>
  \<open>resched\<close> implements a priority scheduler with round robin among equals: the abstract
  decision is \<open>sched_pick\<close>, on the ready list and the current process.
\<close>

section \<open>The scheduling decision\<close>

definition eligible :: "'z kstate_scheme \<Rightarrow> bool" where
  "eligible s \<longleftrightarrow> prstate (proctab s (currpid s)) = PR_CURR"

definition sched_pick :: "'z kstate_scheme \<Rightarrow> int \<times> int list" where
  "sched_pick s =
     (let c = currpid s; k = prprio (proctab s c); key = (\<lambda>x. qkey (queuetab s x)) in
      if eligible s then
        if rdy s = [] \<or> k > key (hd (rdy s)) then (c, rdy s)
        else (hd (rdy s), tl (ins_key key k c (rdy s)))
      else (hd (rdy s), tl (rdy s)))"

text \<open>
  What happens to the rest of the state when the processes in \<open>P\<close> are made ready and the
  processor is rescheduled. \<open>kloose X P\<close>: only the queues in \<open>X\<close>, process states, the semaphore
  table, the current process, its time slice and the note of a deferred attempt change, and
  outside \<open>P\<close> states change only between \<open>PR_CURR\<close> and \<open>PR_READY\<close>. \<open>kframe P\<close>: moreover
  no semaphore changes and \<open>X\<close> is just the ready list.
\<close>

abbreviation runnable :: "prstate \<Rightarrow> bool" where
  "runnable x \<equiv> x = PR_CURR \<or> x = PR_READY"

definition kloose :: "int set \<Rightarrow> int set \<Rightarrow> 'z kstate_scheme \<Rightarrow> 'z kstate_scheme \<Rightarrow> bool" where
  "kloose X P s s' \<longleftrightarrow>
     s' = s\<lparr>queuetab := queuetab s', proctab := proctab s', currpid := currpid s', semtab := semtab s',
            preempt := preempt s', attempt := attempt s'\<rparr> \<and>
     (\<forall>q. qid_ok (nextqid s) q \<longrightarrow> q \<notin> X \<longrightarrow> qlist s' q = qlist s q) \<and>
     (\<forall>p. p \<notin> P \<longrightarrow> \<not> runnable (prstate (proctab s p)) \<longrightarrow>
        qkey (queuetab s' p) = qkey (queuetab s p)) \<and>
     (\<forall>p. proctab s' p = (proctab s p)\<lparr>prstate := prstate (proctab s' p)\<rparr>) \<and>
     (\<forall>p. p \<notin> P \<longrightarrow> prstate (proctab s' p) \<noteq> prstate (proctab s p) \<longrightarrow>
        runnable (prstate (proctab s' p)) \<and> runnable (prstate (proctab s p))) \<and>
     (\<forall>p \<in> P. runnable (prstate (proctab s' p)))"

definition kframe :: "int set \<Rightarrow> 'z kstate_scheme \<Rightarrow> 'z kstate_scheme \<Rightarrow> bool" where
  "kframe P s s' \<longleftrightarrow> kloose {readylist s} P s s' \<and> semtab s' = semtab s"

lemma kframe_refl: "kframe {} s s"
  by (simp add: kframe_def kloose_def)

lemma kloose_fields:
  assumes "kloose X P s s'"
  shows "mem s' = mem s" "memlist s' = memlist s" "minheap s' = minheap s" "maxheap s' = maxheap s"
    "nextqid s' = nextqid s" "prcount s' = prcount s" "nextpid s' = nextpid s"
    "nextsem s' = nextsem s" "readylist s' = readylist s" "sleepq s' = sleepq s" "ndefers s' = ndefers s"
    "clktime s' = clktime s" "count1000 s' = count1000 s" "pkont s' = pkont s" "halted s' = halted s"
    "buftab s' = buftab s" "nbpools s' = nbpools s" "kstate.more s' = kstate.more s"
proof -
  from assms have E: "s' = s\<lparr>queuetab := queuetab s', proctab := proctab s', currpid := currpid s',
      semtab := semtab s', preempt := preempt s', attempt := attempt s'\<rparr>" by (simp add: kloose_def)
  show "mem s' = mem s" "memlist s' = memlist s" "minheap s' = minheap s" "maxheap s' = maxheap s"
    "nextqid s' = nextqid s" "prcount s' = prcount s" "nextpid s' = nextpid s"
    "nextsem s' = nextsem s" "readylist s' = readylist s" "sleepq s' = sleepq s" "ndefers s' = ndefers s"
    "clktime s' = clktime s" "count1000 s' = count1000 s" "pkont s' = pkont s" "halted s' = halted s"
    "buftab s' = buftab s" "nbpools s' = nbpools s" "kstate.more s' = kstate.more s" by (subst E, simp)+
qed

lemma kframe_fields:
  assumes "kframe P s s'"
  shows "mem s' = mem s" "memlist s' = memlist s" "minheap s' = minheap s" "maxheap s' = maxheap s"
    "nextqid s' = nextqid s" "prcount s' = prcount s" "nextpid s' = nextpid s" "semtab s' = semtab s"
    "nextsem s' = nextsem s" "readylist s' = readylist s" "sleepq s' = sleepq s" "ndefers s' = ndefers s"
    "clktime s' = clktime s" "count1000 s' = count1000 s" "pkont s' = pkont s" "halted s' = halted s"
    "buftab s' = buftab s" "nbpools s' = nbpools s" "kstate.more s' = kstate.more s"
  using assms kloose_fields[of "{readylist s}" P s s'] by (simp_all add: kframe_def)

lemma klooseD:
  assumes "kloose X P s s'"
  shows "\<And>q. qid_ok (nextqid s) q \<Longrightarrow> q \<notin> X \<Longrightarrow> qlist s' q = qlist s q"
    "\<And>p. p \<notin> P \<Longrightarrow> \<not> runnable (prstate (proctab s p)) \<Longrightarrow> qkey (queuetab s' p) = qkey (queuetab s p)"
    "\<And>p. proctab s' p = (proctab s p)\<lparr>prstate := prstate (proctab s' p)\<rparr>"
    "\<And>p. p \<notin> P \<Longrightarrow> prstate (proctab s' p) \<noteq> prstate (proctab s p) \<Longrightarrow>
       runnable (prstate (proctab s' p)) \<and> runnable (prstate (proctab s p))"
    "\<And>p. p \<in> P \<Longrightarrow> runnable (prstate (proctab s' p))"
  using assms unfolding kloose_def by blast+

lemma kframe_loose: "kframe P s s' \<Longrightarrow> readylist s \<in> X \<Longrightarrow> kloose X P s s'"
  unfolding kframe_def kloose_def by blast

lemma kframeD:
  assumes "kframe P s s'"
  shows "\<And>q. qid_ok (nextqid s) q \<Longrightarrow> q \<noteq> readylist s \<Longrightarrow> qlist s' q = qlist s q"
    "\<And>p. p \<notin> P \<Longrightarrow> \<not> runnable (prstate (proctab s p)) \<Longrightarrow> qkey (queuetab s' p) = qkey (queuetab s p)"
    "\<And>p. proctab s' p = (proctab s p)\<lparr>prstate := prstate (proctab s' p)\<rparr>"
    "\<And>p. p \<notin> P \<Longrightarrow> prstate (proctab s' p) \<noteq> prstate (proctab s p) \<Longrightarrow>
       runnable (prstate (proctab s' p)) \<and> runnable (prstate (proctab s p))"
    "\<And>p. p \<in> P \<Longrightarrow> runnable (prstate (proctab s' p))"
  using assms klooseD[of "{readylist s}" P s s'] unfolding kframe_def by simp_all

lemma kloose_proc:
  assumes "kloose X P s s'"
  shows "prprio (proctab s' p) = prprio (proctab s p)" "prstkptr (proctab s' p) = prstkptr (proctab s p)"
    "prstkbase (proctab s' p) = prstkbase (proctab s p)" "prstklen (proctab s' p) = prstklen (proctab s p)"
    "prname (proctab s' p) = prname (proctab s p)" "prsem (proctab s' p) = prsem (proctab s p)"
    "prparent (proctab s' p) = prparent (proctab s p)" "prmsg (proctab s' p) = prmsg (proctab s p)"
    "prhasmsg (proctab s' p) = prhasmsg (proctab s p)" "prdesc (proctab s' p) = prdesc (proctab s p)"
proof -
  note E = klooseD(3)[OF assms, of p]
  show "prprio (proctab s' p) = prprio (proctab s p)" "prstkptr (proctab s' p) = prstkptr (proctab s p)"
    "prstkbase (proctab s' p) = prstkbase (proctab s p)" "prstklen (proctab s' p) = prstklen (proctab s p)"
    "prname (proctab s' p) = prname (proctab s p)" "prsem (proctab s' p) = prsem (proctab s p)"
    "prparent (proctab s' p) = prparent (proctab s p)" "prmsg (proctab s' p) = prmsg (proctab s p)"
    "prhasmsg (proctab s' p) = prhasmsg (proctab s p)" "prdesc (proctab s' p) = prdesc (proctab s p)"
    by (subst E, simp)+
qed

lemmas kframe_proc = kloose_proc[OF kframe_loose[OF _ singletonI]]

lemma kloose_attempt:
  assumes "kloose X P s s'"
  shows "kloose X P s (s'\<lparr>attempt := b\<rparr>)"
proof -
  have "s' = s\<lparr>queuetab := queuetab s', proctab := proctab s', currpid := currpid s',
            semtab := semtab s', preempt := preempt s', attempt := attempt s'\<rparr>" using assms by (simp add: kloose_def)
  from arg_cong[OF this, of "\<lambda>x. x\<lparr>attempt := b\<rparr>"]
  have "s'\<lparr>attempt := b\<rparr> = s\<lparr>queuetab := queuetab s', proctab := proctab s', currpid := currpid s',
            semtab := semtab s', preempt := preempt s', attempt := b\<rparr>" by simp
  with klooseD[OF assms] show ?thesis unfolding kloose_def by simp
qed

lemma kframe_attempt: "kframe P s s' \<Longrightarrow> kframe P s (s'\<lparr>attempt := b\<rparr>)"
  by (simp add: kframe_def kloose_attempt)

lemma kloose_trans:
  assumes 1: "kloose X P s s'" and 2: "kloose X P' s' s''"
  shows "kloose X (P \<union> P') s s''"
proof -
  have "s'' = s\<lparr>queuetab := queuetab s'', proctab := proctab s'', currpid := currpid s'',
            semtab := semtab s'', preempt := preempt s'', attempt := attempt s''\<rparr>"
  proof -
    have "s'' = s'\<lparr>queuetab := queuetab s'', proctab := proctab s'', currpid := currpid s'',
            semtab := semtab s'', preempt := preempt s'', attempt := attempt s''\<rparr>" using 2 by (simp add: kloose_def)
    also have "s' = s\<lparr>queuetab := queuetab s', proctab := proctab s', currpid := currpid s',
            semtab := semtab s', preempt := preempt s', attempt := attempt s'\<rparr>" using 1 by (simp add: kloose_def)
    finally show ?thesis by simp
  qed
  moreover have "qlist s'' q = qlist s q" if "qid_ok (nextqid s) q" "q \<notin> X" for q
    using klooseD(1)[OF 1 that] klooseD(1)[OF 2, of q] that kloose_fields[OF 1] by simp
  moreover have "qkey (queuetab s'' p) = qkey (queuetab s p)"
    if "p \<notin> P \<union> P'" "\<not> runnable (prstate (proctab s p))" for p
    using klooseD(2,4)[OF 1, of p] klooseD(2)[OF 2, of p] that by fastforce
  moreover have "proctab s'' p = (proctab s p)\<lparr>prstate := prstate (proctab s'' p)\<rparr>" for p
  proof -
    have "proctab s'' p = (proctab s' p)\<lparr>prstate := prstate (proctab s'' p)\<rparr>" by (rule klooseD(3)[OF 2])
    also have "proctab s' p = (proctab s p)\<lparr>prstate := prstate (proctab s' p)\<rparr>" by (rule klooseD(3)[OF 1])
    finally show ?thesis by simp
  qed
  moreover have "runnable (prstate (proctab s'' p)) \<and> runnable (prstate (proctab s p))"
    if "p \<notin> P \<union> P'" "prstate (proctab s'' p) \<noteq> prstate (proctab s p)" for p
    using klooseD(4)[OF 1, of p] klooseD(4)[OF 2, of p] that by (metis UnI1 UnI2)
  moreover have "runnable (prstate (proctab s'' p))" if "p \<in> P \<union> P'" for p
    using klooseD(5)[OF 1, of p] klooseD(4,5)[OF 2, of p] that by (metis UnE)
  ultimately show ?thesis unfolding kloose_def by blast
qed

lemma kloose_runnable:
  "kloose X P s s' \<Longrightarrow> runnable (prstate (proctab s p)) \<Longrightarrow> runnable (prstate (proctab s' p))"
  using klooseD(4,5)[of X P s s' p] by metis

lemmas kframe_runnable = kloose_runnable[OF kframe_loose[OF _ singletonI]]

lemma kframe_trans:
  assumes 1: "kframe P s s'" and 2: "kframe P' s' s''"
  shows "kframe (P \<union> P') s s''"
  using kloose_trans[of "{readylist s}" P s s' P' s''] 1 2 kframe_fields[OF 1] unfolding kframe_def by simp

section \<open>resched\<close>

lemma rdy_nonempty:
  assumes kq: "kq {} s" and ne: "\<not> eligible s"
  shows "rdy s \<noteq> []"
proof -
  have "prstate (proctab s NULLPROC) \<noteq> PR_CURR"
    using kqD(8)[OF kq, of NULLPROC] ne by (auto simp: eligible_def)
  then have "prstate (proctab s NULLPROC) = PR_READY" using kqD(9)[OF kq] by simp
  then have "NULLPROC \<in> set (rdy s)" using kqD(3)[OF kq kq_ids(1)[OF kq]] by (simp add: qof_def)
  then show ?thesis by auto
qed

lemma resched_switch_kq:
  assumes kq: "kq {} s" and ne: "\<not> eligible s" and R: "rdy s = r # xs"
  shows "\<exists>t. resched_switch s = Some (s\<lparr>queuetab := t, currpid := r,
      proctab := (proctab s)(r := (proctab s r)\<lparr>prstate := PR_CURR\<rparr>), preempt := QUANTUM\<rparr>) \<and>
    kq {} (s\<lparr>queuetab := t, currpid := r,
      proctab := (proctab s)(r := (proctab s r)\<lparr>prstate := PR_CURR\<rparr>), preempt := QUANTUM\<rparr>) \<and>
    prstate (proctab s r) = PR_READY \<and>
    (\<forall>q. qid_ok (nextqid s) q \<longrightarrow> queue_of t q = ((qlist s)(readylist s := xs)) q) \<and>
    (\<forall>i. qkey (t i) = qkey (queuetab s i))"
proof -
  obtain t where t: "dequeue (readylist s) (queuetab s) = Some (r, t)" "kq {r} (s\<lparr>queuetab := t\<rparr>)"
    "pid_ok r" "qof s r = Some (readylist s)"
    "\<forall>q. qid_ok (nextqid s) q \<longrightarrow> queue_of t q = ((qlist s)(readylist s := xs)) q"
    "\<forall>i. qkey (t i) = qkey (queuetab s i)"
    using dequeue_kq[OF kq kq_ids(1)[OF kq] R] by blast
  have rd: "prstate (proctab s r) = PR_READY"
    using t(4) kq_ids(3,5)[OF kq] kqD(5)[OF kq t(3)] by (auto simp: qof_def split: prstate.splits)
  let ?s1 = "s\<lparr>queuetab := t, currpid := r\<rparr>"
  let ?e = "(proctab s r)\<lparr>prstate := PR_CURR\<rparr>"
  have nc: "prstate (proctab s p) \<noteq> PR_CURR" if "pid_ok p" for p
    using kqD(8)[OF kq that] ne by (auto simp: eligible_def)
  have "kq {r} (s\<lparr>queuetab := t, currpid := r\<rparr>)"
    using kq_set_curr[OF t(2,3)] nc by simp
  then have "kq {r} (?s1\<lparr>proctab := (proctab ?s1)(r := ?e)\<rparr>)"
    by (rule kq_set_proc) (use t(3) kqD(4)[OF kq t(3)] in simp_all)
  then have "kq {r} (s\<lparr>queuetab := t, currpid := r, proctab := (proctab s)(r := ?e)\<rparr>)" by simp
  then have "kq {} (s\<lparr>queuetab := t, currpid := r, proctab := (proctab s)(r := ?e)\<rparr>)"
    by (rule kq_land) (simp add: qof_def)
  moreover have "resched_switch s = Some (s\<lparr>queuetab := t, currpid := r, proctab := (proctab s)(r := ?e),
      preempt := QUANTUM\<rparr>)"
    using t(1,3) by (simp add: resched_switch_def on_qtab_def range_simps)
  ultimately show ?thesis using t(5,6) rd by (intro exI[of _ t]) simp
qed

lemma ins_key_hd:
  assumes "xs \<noteq> []" "\<not> k > f (hd xs)"
  shows "hd (ins_key f k c xs) = hd xs" "ins_key f k c xs \<noteq> []"
  using assms by (cases xs; simp add: ins_key_def)+

theorem resched_rep:
  assumes kq: "kq {} s" and nd: "ndefers s \<le> 0"
  shows "\<exists>s'. resched s = Some s' \<and> kq {} s' \<and> eligible s' \<and> kframe {} s s' \<and>
    (currpid s', rdy s') = sched_pick s"
proof (cases "eligible s")
  case el: True
  let ?c = "currpid s"
  let ?k = "prprio (proctab s ?c)"
  let ?key = "\<lambda>x. qkey (queuetab s x)"
  note K = kqD[OF kq] and I = kq_ids[OF kq]
  have fk: "firstkey (queuetab s) (readylist s) = Some (if rdy s = [] then MINKEY else ?key (hd (rdy s)))"
    by (rule firstkey_rep[OF K(1) I(1)])
  have big: "?k > MINKEY" using K(4)[OF K(7)] by (simp add: prio_ok_def)
  show ?thesis
  proof (cases "rdy s = [] \<or> ?k > ?key (hd (rdy s))")
    case True
    then have "resched s = Some s"
      using nd el K(7) fk big by (auto simp: resched_def eligible_def range_simps)
    moreover have "sched_pick s = (?c, rdy s)" using True el by (simp add: sched_pick_def Let_def)
    ultimately show ?thesis using kq el kframe_refl by auto
  next
    case False
    let ?e = "(proctab s ?c)\<lparr>prstate := PR_READY\<rparr>"
    let ?s1 = "s\<lparr>proctab := (proctab s)(?c := ?e)\<rparr>"
    have "qof s ?c = None" using el by (simp add: qof_def eligible_def)
    then have "kq {?c} s" by (rule kq_float[OF kq])
    then have kq1: "kq {?c} ?s1" by (rule kq_set_proc) (use K(4,7) in simp_all)
    obtain t1 where t1: "insert_q ?c (readylist s) ?k ?s1 = Some (OK, ?s1\<lparr>queuetab := t1\<rparr>)"
      "kq {} (?s1\<lparr>queuetab := t1\<rparr>)" "queue_of t1 (readylist s) = ins_key ?key ?k ?c (rdy s)"
      "\<forall>q. qid_ok (nextqid s) q \<longrightarrow> q \<noteq> readylist s \<longrightarrow> queue_of t1 q = qlist s q"
      "\<forall>i. qkey (t1 i) = (if i = ?c then ?k else ?key i)"
      using insert_ready[OF kq1 K(7), of ?k] by auto
    let ?s2 = "?s1\<lparr>queuetab := t1\<rparr>"
    obtain r xs where rx: "ins_key ?key ?k ?c (rdy s) = r # xs"
      using False ins_key_hd(2)[of "rdy s" ?key ?k ?c] by (cases "ins_key ?key ?k ?c (rdy s)") auto
    then have rh: "r = hd (rdy s)" using False ins_key_hd(1)[of "rdy s" ?key ?k ?c] by simp
    have ne2: "\<not> eligible ?s2" by (simp add: eligible_def)
    have R2: "rdy ?s2 = r # xs" using t1(3) rx by simp
    from resched_switch_kq[OF t1(2) ne2 R2] obtain t where t:
      "resched_switch ?s2 = Some (?s2\<lparr>queuetab := t, currpid := r,
         proctab := (proctab ?s2)(r := (proctab ?s2 r)\<lparr>prstate := PR_CURR\<rparr>), preempt := QUANTUM\<rparr>)"
      "kq {} (?s2\<lparr>queuetab := t, currpid := r,
         proctab := (proctab ?s2)(r := (proctab ?s2 r)\<lparr>prstate := PR_CURR\<rparr>), preempt := QUANTUM\<rparr>)"
      "prstate (proctab ?s2 r) = PR_READY"
      "\<forall>q. qid_ok (nextqid s) q \<longrightarrow> queue_of t q = ((qlist ?s2)(readylist s := xs)) q"
      "\<forall>i. qkey (t i) = qkey (t1 i)"
      by auto
    let ?s' = "?s2\<lparr>queuetab := t, currpid := r,
         proctab := (proctab ?s2)(r := (proctab ?s2 r)\<lparr>prstate := PR_CURR\<rparr>), preempt := QUANTUM\<rparr>"
    have "resched s = Some ?s'"
      using nd el K(7) fk False t1(1) t(1) by (simp add: resched_def eligible_def range_simps)
    moreover have "kframe {} s ?s'"
      unfolding kframe_def kloose_def using t(3-5) t1(4,5) el by (auto simp: eligible_def)
    moreover have "sched_pick s = (r, xs)"
      using False el rx rh by (simp add: sched_pick_def Let_def)
    moreover have "rdy ?s' = xs" using t(4) I(1) by simp
    ultimately show ?thesis using t(2) by (intro exI[of _ ?s']) (simp add: eligible_def)
  qed
next
  case ne: False
  note K = kqD[OF kq] and I = kq_ids[OF kq]
  obtain r xs where R: "rdy s = r # xs" using rdy_nonempty[OF kq ne] by (cases "rdy s") auto
  from resched_switch_kq[OF kq ne R] obtain t where t:
    "resched_switch s = Some (s\<lparr>queuetab := t, currpid := r,
       proctab := (proctab s)(r := (proctab s r)\<lparr>prstate := PR_CURR\<rparr>), preempt := QUANTUM\<rparr>)"
    "kq {} (s\<lparr>queuetab := t, currpid := r,
       proctab := (proctab s)(r := (proctab s r)\<lparr>prstate := PR_CURR\<rparr>), preempt := QUANTUM\<rparr>)"
    "prstate (proctab s r) = PR_READY"
    "\<forall>q. qid_ok (nextqid s) q \<longrightarrow> queue_of t q = ((qlist s)(readylist s := xs)) q"
    "\<forall>i. qkey (t i) = qkey (queuetab s i)" by auto
  let ?s' = "s\<lparr>queuetab := t, currpid := r,
       proctab := (proctab s)(r := (proctab s r)\<lparr>prstate := PR_CURR\<rparr>), preempt := QUANTUM\<rparr>"
  have "resched s = Some ?s'" using nd ne K(7) t(1) by (simp add: resched_def eligible_def range_simps)
  moreover have "kframe {} s ?s'"
    unfolding kframe_def kloose_def using t(3-5) by auto
  moreover have "sched_pick s = (r, xs)" using ne R by (simp add: sched_pick_def Let_def)
  moreover have "rdy ?s' = xs" using t(4) I(1) by simp
  ultimately show ?thesis using t(2) by (intro exI[of _ ?s']) (simp add: eligible_def)
qed


section \<open>ready\<close>

text \<open>\<open>ready\<close> puts a process that is on no queue on the ready list, then reschedules.\<close>

lemma ready_run:
  assumes kq: "kq {p} s" and p: "pid_ok p" "prstate (proctab s p) \<noteq> PR_FREE"
  obtains s1 where "ready p s = map_option (Pair OK) (resched s1)" "kq {} s1" "kframe {p} s s1"
    "currpid s1 = currpid s" "attempt s1 = attempt s"
    "rdy s1 = ins_key (\<lambda>x. qkey (queuetab s x)) (prprio (proctab s p)) p (rdy s)"
    "proctab s1 = (proctab s)(p := (proctab s p)\<lparr>prstate := PR_READY\<rparr>)"
    "\<And>x. x \<noteq> p \<Longrightarrow> qkey (queuetab s1 x) = qkey (queuetab s x)"
proof -
  let ?s0 = "s\<lparr>proctab := (proctab s)(p := (proctab s p)\<lparr>prstate := PR_READY\<rparr>)\<rparr>"
  note K = kqD[OF kq]
  have kq0: "kq {p} ?s0" by (rule kq_set_proc[OF kq p(1)]) (use K(4)[OF p(1)] in simp_all)
  obtain t where t: "insert_q p (readylist s) (prprio (proctab s p)) ?s0 = Some (OK, ?s0\<lparr>queuetab := t\<rparr>)"
    "kq {} (?s0\<lparr>queuetab := t\<rparr>)"
    "queue_of t (readylist s) = ins_key (\<lambda>x. qkey (queuetab s x)) (prprio (proctab s p)) p (rdy s)"
    "\<forall>q. qid_ok (nextqid s) q \<longrightarrow> q \<noteq> readylist s \<longrightarrow> queue_of t q = qlist s q"
    "\<forall>i. qkey (t i) = (if i = p then prprio (proctab s p) else qkey (queuetab s i))"
    using insert_ready[OF kq0 p(1), of "prprio (proctab s p)"] by auto
  let ?s1 = "?s0\<lparr>queuetab := t\<rparr>"
  have run: "ready p s = map_option (Pair OK) (resched ?s1)"
    using p t(1) by (cases "resched ?s1") (simp_all add: ready_def isbadpid_def range_simps)
  have frame: "kframe {p} s ?s1" unfolding kframe_def kloose_def using t(4,5) by auto
  show ?thesis by (rule that[OF run t(2) frame]) (use t(3,5) in simp_all)
qed

lemma ready_deferred:
  assumes kq: "kq {p} s" and p: "pid_ok p" "prstate (proctab s p) \<noteq> PR_FREE" and nd: "ndefers s > 0"
  obtains s' where "ready p s = Some (OK, s')" "kq {} s'" "kframe {p} s s'"
    "currpid s' = currpid s" "attempt s'"
    "rdy s' = ins_key (\<lambda>x. qkey (queuetab s x)) (prprio (proctab s p)) p (rdy s)"
    "proctab s' = (proctab s)(p := (proctab s p)\<lparr>prstate := PR_READY\<rparr>)"
    "\<And>x. x \<noteq> p \<Longrightarrow> qkey (queuetab s' x) = qkey (queuetab s x)"
proof -
  from ready_run[OF kq p] obtain s1 where s1: "ready p s = map_option (Pair OK) (resched s1)" "kq {} s1"
    "kframe {p} s s1" "currpid s1 = currpid s"
    "rdy s1 = ins_key (\<lambda>x. qkey (queuetab s x)) (prprio (proctab s p)) p (rdy s)"
    "proctab s1 = (proctab s)(p := (proctab s p)\<lparr>prstate := PR_READY\<rparr>)"
    "\<And>x. x \<noteq> p \<Longrightarrow> qkey (queuetab s1 x) = qkey (queuetab s x)" by metis
  have "resched s1 = Some (s1\<lparr>attempt := True\<rparr>)" using nd kframe_fields[OF s1(3)] by (simp add: resched_def)
  moreover have "kframe {p} s (s1\<lparr>attempt := True\<rparr>)" by (rule kframe_attempt[OF s1(3)])
  ultimately show ?thesis using s1 by (intro that[of "s1\<lparr>attempt := True\<rparr>"]) simp_all
qed

lemma ready_now:
  assumes kq: "kq {p} s" and p: "pid_ok p" "prstate (proctab s p) \<noteq> PR_FREE" and nd: "ndefers s \<le> 0"
  obtains s1 s' where "ready p s = Some (OK, s')" "kq {} s'" "eligible s'" "kframe {p} s s'"
    "rdy s1 = ins_key (\<lambda>x. qkey (queuetab s x)) (prprio (proctab s p)) p (rdy s)"
    "kframe {p} s s1" "currpid s1 = currpid s" "(currpid s', rdy s') = sched_pick s1"
proof -
  from ready_run[OF kq p] obtain s1 where s1: "ready p s = map_option (Pair OK) (resched s1)" "kq {} s1"
    "kframe {p} s s1" "currpid s1 = currpid s"
    "rdy s1 = ins_key (\<lambda>x. qkey (queuetab s x)) (prprio (proctab s p)) p (rdy s)" by metis
  have "ndefers s1 \<le> 0" using nd kframe_fields[OF s1(3)] by simp
  from resched_rep[OF s1(2) this] obtain s' where s': "resched s1 = Some s'" "kq {} s'" "eligible s'"
    "kframe {} s1 s'" "(currpid s', rdy s') = sched_pick s1" by blast
  have "kframe {p} s s'" using kframe_trans[OF s1(3) s'(4)] by simp
  then show ?thesis using that[of s' s1] s1 s' by simp
qed

section \<open>Deferral\<close>

lemma defer_start:
  assumes "ndefers s = 0"
  shows "resched_cntl DEFER_START s = Some (OK, s\<lparr>ndefers := 1, attempt := False\<rparr>)"
  using assms by (simp add: resched_cntl_def s32_id)

lemma defer_stop:
  assumes kq: "kq {} s" and nd: "ndefers s = 1" and el: "\<not> attempt s \<Longrightarrow> eligible s"
  obtains s' where "resched_cntl DEFER_STOP s = Some (OK, s')" "kq {} s'" "eligible s'"
    "kframe {} (s\<lparr>ndefers := 0\<rparr>) s'" "attempt s \<Longrightarrow> (currpid s', rdy s') = sched_pick s"
    "\<not> attempt s \<Longrightarrow> s' = s\<lparr>ndefers := 0\<rparr>"
proof (cases "attempt s")
  case True
  let ?s = "s\<lparr>ndefers := 0\<rparr>"
  have kq0: "kq {} ?s" using kq by simp
  obtain s' where s': "resched ?s = Some s'" "kq {} s'" "eligible s'" "kframe {} ?s s'"
    "(currpid s', rdy s') = sched_pick ?s" using resched_rep[OF kq0] by auto
  have "sched_pick ?s = sched_pick s" by (simp add: sched_pick_def eligible_def Let_def)
  then show ?thesis using s' True nd by (intro that[of s']) (simp_all add: resched_cntl_def Let_def)
next
  case False
  then show ?thesis using nd kq el
    by (intro that[of "s\<lparr>ndefers := 0\<rparr>"]) (simp_all add: resched_cntl_def Let_def eligible_def kframe_def kloose_def)
qed

end
