(* ===== verification/Kernel_Global.thy ===== *)
theory Kernel_Global
  imports Sched_Inv
begin

text \<open>
  The invariant of the kernel between system calls: the queue invariant, one running process,
  no deferral, semaphore counts that agree with the waiting processes, message flags that agree
  with the receivers, a well-formed heap, and stack descriptions that lie inside it.
\<close>

section \<open>The parts of the invariant\<close>

definition sem_inv :: "'z kstate_scheme \<Rightarrow> int \<Rightarrow> bool" where
  "sem_inv s k \<longleftrightarrow>
     (if sstate (semtab s k) = S_FREE then semq s k = []
      else if scount (semtab s k) < 0 then int (length (semq s k)) = - scount (semtab s k)
      else semq s k = [] \<and> scount (semtab s k) < 2 ^ 31)"

definition ksem :: "'z kstate_scheme \<Rightarrow> bool" where
  "ksem s \<longleftrightarrow> (\<forall>k. sem_ok k \<longrightarrow> sem_inv s k)"

lemma ksemD: "ksem s \<Longrightarrow> sem_ok k \<Longrightarrow> sem_inv s k"
  by (simp add: ksem_def)

definition msg_inv :: "'z kstate_scheme \<Rightarrow> int \<Rightarrow> bool" where
  "msg_inv s p \<longleftrightarrow>
     (prstate (proctab s p) = PR_RECV \<longrightarrow> \<not> prhasmsg (proctab s p) \<and> pkont s p = Some K_receive) \<and>
     (pkont s p = Some K_receive \<longrightarrow> prstate (proctab s p) \<in> {PR_FREE, PR_RECV} \<or> prhasmsg (proctab s p)) \<and>
     (prstate (proctab s p) = PR_RECTIM \<longrightarrow> \<not> prhasmsg (proctab s p) \<and> pkont s p = Some K_recvtime)"

definition kmsg :: "'z kstate_scheme \<Rightarrow> bool" where
  "kmsg s \<longleftrightarrow> (\<forall>p. pid_ok p \<longrightarrow> msg_inv s p)"

definition kheap :: "'z kstate_scheme \<Rightarrow> bool" where
  "kheap s \<longleftrightarrow> (\<exists>xs. heap_rep (memlist s) (unat (minheap s)) (unat (maxheap s)) (mem s) xs)"

definition stk_ok :: "'z kstate_scheme \<Rightarrow> procent \<Rightarrow> bool" where
  "stk_ok s e \<longleftrightarrow> (prstklen e = 0 \<or>
     (unat (prstklen e) + 7 < 2 ^ 32 \<and> 8 dvd unat (prstkbase e - roundmb (prstklen e) + 4) \<and>
      unat (minheap s) \<le> unat (prstkbase e - roundmb (prstklen e) + 4) \<and>
      unat (prstkbase e - roundmb (prstklen e) + 4) + unat (roundmb (prstklen e)) \<le> unat (maxheap s))) \<and>
     take 3 (prdesc e) = [0, 0, 0]"

definition kstk :: "'z kstate_scheme \<Rightarrow> bool" where
  "kstk s \<longleftrightarrow> (\<forall>p. pid_ok p \<longrightarrow> p \<noteq> NULLPROC \<longrightarrow> stk_ok s (proctab s p))"

text \<open>The static search positions are in range, and a pending kill is never of the null process.\<close>

definition kpend :: "'z kstate_scheme \<Rightarrow> bool" where
  "kpend s \<longleftrightarrow> (\<forall>p v. pkont s p = Some (K_kill v) \<longrightarrow> pid_ok v \<and> v \<noteq> NULLPROC) \<and>
     (\<forall>p v. pkont s p = Some (K_suspend v) \<longrightarrow> pid_ok v) \<and>
     0 \<le> nextsem s \<and> nextsem s < NSEM \<and> 0 \<le> nextpid s \<and> nextpid s \<le> NPROC"

definition kinv :: "'z kstate_scheme \<Rightarrow> bool" where
  "kinv s \<longleftrightarrow> kq {} s \<and> eligible s \<and> ndefers s = 0 \<and> ksem s \<and> kmsg s \<and> kheap s \<and> kstk s \<and> kpend s"

lemma kinvD:
  assumes "kinv s"
  shows "kq {} s" "eligible s" "ndefers s = 0" "ksem s" "kmsg s" "kheap s" "kstk s" "kpend s"
  using assms by (simp_all add: kinv_def)

section \<open>Frame rules\<close>

lemma kq_set_sem:
  assumes kq: "kq F s" and e: "squeue e = squeue (semtab s k)"
  shows "kq F (s\<lparr>semtab := (semtab s)(k := e)\<rparr>)" "qof (s\<lparr>semtab := (semtab s)(k := e)\<rparr>) = qof s"
proof -
  have sq: "squeue (((semtab s)(k := e)) j) = squeue (semtab s j)" for j using e by simp
  have qf: "qof (s\<lparr>semtab := (semtab s)(k := e)\<rparr>) = qof s"
    using e by (intro ext) (simp add: qof_def split: prstate.split)
  then show "qof (s\<lparr>semtab := (semtab s)(k := e)\<rparr>) = qof s" .
  have "kids (s\<lparr>semtab := (semtab s)(k := e)\<rparr>)" using kqD(2)[OF kq] unfolding kids_def by (simp add: sq del: fun_upd_apply)
  then show "kq F (s\<lparr>semtab := (semtab s)(k := e)\<rparr>)" using kq qf unfolding kq_def by simp
qed

lemma sem_inv_cong:
  assumes "sem_inv s k" "semtab s' k = semtab s k" "semq s' k = semq s k"
  shows "sem_inv s' k"
  using assms(1) unfolding sem_inv_def assms(3) unfolding assms(2) .

lemma ksem_kframe:
  assumes "ksem s" "kframe P s s'" "kq F s"
  shows "ksem s'"
  unfolding ksem_def
proof (intro allI impI)
  fix k assume k: "sem_ok k"
  have "semq s' k = semq s k"
    using kframeD(1)[OF assms(2) kq_ids(4,5)[OF assms(3) k]] kframe_fields[OF assms(2)] by simp
  then show "sem_inv s' k"
    using sem_inv_cong[of s k s'] assms(1) k kframe_fields[OF assms(2)] by (simp add: ksem_def)
qed

lemma kmsg_kloose:
  assumes msg: "kmsg s" and fr: "kloose X P s s'"
    and P: "\<And>p. p \<in> P \<Longrightarrow> prstate (proctab s p) \<notin> {PR_FREE, PR_RECV} \<or> pkont s p \<noteq> Some K_receive \<or> prhasmsg (proctab s p)"
  shows "kmsg s'"
  unfolding kmsg_def
proof (intro allI impI)
  fix p assume "pid_ok p"
  then have m: "msg_inv s p" using msg by (simp add: kmsg_def)
  have pk: "pkont s' p = pkont s p" "prhasmsg (proctab s' p) = prhasmsg (proctab s p)"
    using kloose_fields[OF fr] kloose_proc[OF fr] by simp_all
  show "msg_inv s' p"
  proof (cases "p \<in> P")
    case True
    then have "runnable (prstate (proctab s' p))" by (rule klooseD(5)[OF fr])
    then show ?thesis using m P[OF True] unfolding msg_inv_def pk by auto
  next
    case False
    consider "prstate (proctab s' p) = prstate (proctab s p)" |
      "runnable (prstate (proctab s' p))" "runnable (prstate (proctab s p))"
      using klooseD(4)[OF fr False] by blast
    then show ?thesis using m unfolding msg_inv_def pk by cases auto
  qed
qed

lemma kheap_cong:
  "kheap s \<Longrightarrow> mem s' = mem s \<Longrightarrow> memlist s' = memlist s \<Longrightarrow> minheap s' = minheap s \<Longrightarrow>
   maxheap s' = maxheap s \<Longrightarrow> kheap s'"
  by (simp add: kheap_def)

lemma kheap_kloose: "kheap s \<Longrightarrow> kloose X P s s' \<Longrightarrow> kheap s'"
  by (erule kheap_cong) (simp_all add: kloose_fields)

lemma kstk_kloose: "kstk s \<Longrightarrow> kloose X P s s' \<Longrightarrow> kstk s'"
  by (simp add: kstk_def stk_ok_def kloose_fields kloose_proc)

lemma kpend_kloose: "kpend s \<Longrightarrow> kloose X P s s' \<Longrightarrow> kpend s'"
  by (simp add: kpend_def kloose_fields)

text \<open>The parts a reschedule cannot break, as one step.\<close>

lemma kinv_kframe:
  assumes s: "ksem s" "kmsg s" "kheap s" "kstk s" "kpend s" "kq F s" "ndefers s = 0"
    and s': "kframe P s s'" "kq {} s'" "eligible s'"
    and P: "\<And>p. p \<in> P \<Longrightarrow> prstate (proctab s p) \<notin> {PR_FREE, PR_RECV} \<or> pkont s p \<noteq> Some K_receive \<or> prhasmsg (proctab s p)"
  shows "kinv s'"
  unfolding kinv_def
  using s' ksem_kframe[OF s(1) s'(1) s(6)] kmsg_kloose[OF s(2) kframe_loose[OF s'(1) singletonI] P]
    kheap_kloose[OF s(3) kframe_loose[OF s'(1) singletonI]]
    kstk_kloose[OF s(4) kframe_loose[OF s'(1) singletonI]]
    kpend_kloose[OF s(5) kframe_loose[OF s'(1) singletonI]] kframe_fields[OF s'(1)] s(7) by simp

text \<open>Fields the parts do not read.\<close>

lemma ksem_frame [simp]:
  "ksem (s\<lparr>proctab := a\<rparr>) = ksem s" "ksem (s\<lparr>pkont := b\<rparr>) = ksem s" "ksem (s\<lparr>ndefers := c\<rparr>) = ksem s"
  "ksem (s\<lparr>attempt := d\<rparr>) = ksem s" "ksem (s\<lparr>mem := e\<rparr>) = ksem s" "ksem (s\<lparr>currpid := f\<rparr>) = ksem s"
  "ksem (s\<lparr>clktime := g\<rparr>) = ksem s" "ksem (s\<lparr>count1000 := h\<rparr>) = ksem s" "ksem (s\<lparr>preempt := i\<rparr>) = ksem s"
  "ksem (s\<lparr>prcount := j\<rparr>) = ksem s" "ksem (s\<lparr>nextpid := k\<rparr>) = ksem s" "ksem (s\<lparr>nextsem := l\<rparr>) = ksem s"
  "ksem (s\<lparr>halted := m\<rparr>) = ksem s"
  by (simp_all add: ksem_def sem_inv_def)

lemma kmsg_frame [simp]:
  "kmsg (s\<lparr>queuetab := a\<rparr>) = kmsg s" "kmsg (s\<lparr>semtab := b\<rparr>) = kmsg s" "kmsg (s\<lparr>ndefers := c\<rparr>) = kmsg s"
  "kmsg (s\<lparr>attempt := d\<rparr>) = kmsg s" "kmsg (s\<lparr>mem := e\<rparr>) = kmsg s" "kmsg (s\<lparr>currpid := f\<rparr>) = kmsg s"
  "kmsg (s\<lparr>clktime := g\<rparr>) = kmsg s" "kmsg (s\<lparr>count1000 := h\<rparr>) = kmsg s" "kmsg (s\<lparr>preempt := i\<rparr>) = kmsg s"
  "kmsg (s\<lparr>prcount := j\<rparr>) = kmsg s" "kmsg (s\<lparr>nextpid := k\<rparr>) = kmsg s" "kmsg (s\<lparr>nextsem := l\<rparr>) = kmsg s"
  "kmsg (s\<lparr>halted := m\<rparr>) = kmsg s"
  by (simp_all add: kmsg_def msg_inv_def)

lemma kheap_frame [simp]:
  "kheap (s\<lparr>queuetab := a\<rparr>) = kheap s" "kheap (s\<lparr>semtab := b\<rparr>) = kheap s" "kheap (s\<lparr>ndefers := c\<rparr>) = kheap s"
  "kheap (s\<lparr>attempt := d\<rparr>) = kheap s" "kheap (s\<lparr>proctab := e\<rparr>) = kheap s" "kheap (s\<lparr>currpid := f\<rparr>) = kheap s"
  "kheap (s\<lparr>clktime := g\<rparr>) = kheap s" "kheap (s\<lparr>count1000 := h\<rparr>) = kheap s" "kheap (s\<lparr>preempt := i\<rparr>) = kheap s"
  "kheap (s\<lparr>prcount := j\<rparr>) = kheap s" "kheap (s\<lparr>nextpid := k\<rparr>) = kheap s" "kheap (s\<lparr>nextsem := l\<rparr>) = kheap s"
  "kheap (s\<lparr>halted := m\<rparr>) = kheap s" "kheap (s\<lparr>pkont := n\<rparr>) = kheap s"
  by (simp_all add: kheap_def)

lemma stk_ok_frame [simp]:
  "stk_ok (s\<lparr>queuetab := a\<rparr>) = stk_ok s" "stk_ok (s\<lparr>semtab := b\<rparr>) = stk_ok s" "stk_ok (s\<lparr>ndefers := c\<rparr>) = stk_ok s"
  "stk_ok (s\<lparr>attempt := d\<rparr>) = stk_ok s" "stk_ok (s\<lparr>proctab := e\<rparr>) = stk_ok s" "stk_ok (s\<lparr>currpid := f\<rparr>) = stk_ok s"
  "stk_ok (s\<lparr>clktime := g\<rparr>) = stk_ok s" "stk_ok (s\<lparr>count1000 := h\<rparr>) = stk_ok s" "stk_ok (s\<lparr>preempt := i\<rparr>) = stk_ok s"
  "stk_ok (s\<lparr>prcount := j\<rparr>) = stk_ok s" "stk_ok (s\<lparr>nextpid := k\<rparr>) = stk_ok s" "stk_ok (s\<lparr>nextsem := l\<rparr>) = stk_ok s"
  "stk_ok (s\<lparr>halted := m\<rparr>) = stk_ok s" "stk_ok (s\<lparr>pkont := n\<rparr>) = stk_ok s" "stk_ok (s\<lparr>mem := p\<rparr>) = stk_ok s"
  by (simp_all add: stk_ok_def fun_eq_iff)

lemma kstk_frame [simp]:
  "kstk (s\<lparr>queuetab := a\<rparr>) = kstk s" "kstk (s\<lparr>semtab := b\<rparr>) = kstk s" "kstk (s\<lparr>ndefers := c\<rparr>) = kstk s"
  "kstk (s\<lparr>attempt := d\<rparr>) = kstk s" "kstk (s\<lparr>mem := e\<rparr>) = kstk s" "kstk (s\<lparr>currpid := f\<rparr>) = kstk s"
  "kstk (s\<lparr>clktime := g\<rparr>) = kstk s" "kstk (s\<lparr>count1000 := h\<rparr>) = kstk s" "kstk (s\<lparr>preempt := i\<rparr>) = kstk s"
  "kstk (s\<lparr>prcount := j\<rparr>) = kstk s" "kstk (s\<lparr>nextpid := k\<rparr>) = kstk s" "kstk (s\<lparr>nextsem := l\<rparr>) = kstk s"
  "kstk (s\<lparr>halted := m\<rparr>) = kstk s" "kstk (s\<lparr>pkont := n\<rparr>) = kstk s"
  by (simp_all add: kstk_def)

lemma kpend_frame [simp]:
  "kpend (s\<lparr>queuetab := a\<rparr>) = kpend s" "kpend (s\<lparr>semtab := b\<rparr>) = kpend s" "kpend (s\<lparr>ndefers := c\<rparr>) = kpend s"
  "kpend (s\<lparr>attempt := d\<rparr>) = kpend s" "kpend (s\<lparr>proctab := e\<rparr>) = kpend s" "kpend (s\<lparr>currpid := f\<rparr>) = kpend s"
  "kpend (s\<lparr>clktime := g\<rparr>) = kpend s" "kpend (s\<lparr>count1000 := h\<rparr>) = kpend s" "kpend (s\<lparr>preempt := i\<rparr>) = kpend s"
  "kpend (s\<lparr>prcount := j\<rparr>) = kpend s"
  "kpend (s\<lparr>halted := m\<rparr>) = kpend s" "kpend (s\<lparr>mem := n\<rparr>) = kpend s"
  by (simp_all add: kpend_def)

lemma eligible_frame [simp]:
  "eligible (s\<lparr>queuetab := a\<rparr>) = eligible s" "eligible (s\<lparr>semtab := b\<rparr>) = eligible s" "eligible (s\<lparr>ndefers := c\<rparr>) = eligible s"
  "eligible (s\<lparr>attempt := d\<rparr>) = eligible s" "eligible (s\<lparr>mem := e\<rparr>) = eligible s"
  "eligible (s\<lparr>clktime := g\<rparr>) = eligible s" "eligible (s\<lparr>count1000 := h\<rparr>) = eligible s" "eligible (s\<lparr>preempt := i\<rparr>) = eligible s"
  "eligible (s\<lparr>prcount := j\<rparr>) = eligible s" "eligible (s\<lparr>nextpid := k\<rparr>) = eligible s" "eligible (s\<lparr>nextsem := l\<rparr>) = eligible s"
  "eligible (s\<lparr>halted := m\<rparr>) = eligible s" "eligible (s\<lparr>pkont := n\<rparr>) = eligible s"
  by (simp_all add: eligible_def)

lemma kinv_mem: "kinv s \<Longrightarrow> kheap (s\<lparr>mem := m\<rparr>) \<Longrightarrow> kinv (s\<lparr>mem := m\<rparr>)"
  by (simp add: kinv_def)

text \<open>One process entry changes without its stack description or its message.\<close>

lemma kstk_set_proc:
  assumes "kstk s" "p \<noteq> NULLPROC \<Longrightarrow> pid_ok p \<Longrightarrow> stk_ok s (proctab s p) \<Longrightarrow> stk_ok s e"
  shows "kstk (s\<lparr>proctab := (proctab s)(p := e)\<rparr>)"
  using assms by (simp add: kstk_def)

lemma stk_ok_upd [simp]:
  "stk_ok s (e\<lparr>prstate := a\<rparr>) = stk_ok s e" "stk_ok s (e\<lparr>prsem := b\<rparr>) = stk_ok s e"
  "stk_ok s (e\<lparr>prmsg := c\<rparr>) = stk_ok s e" "stk_ok s (e\<lparr>prhasmsg := d\<rparr>) = stk_ok s e"
  "stk_ok s (e\<lparr>prprio := f\<rparr>) = stk_ok s e"
  by (simp_all add: stk_ok_def)

lemma kmsg_set_proc:
  assumes "kmsg s" "pid_ok p \<Longrightarrow> msg_inv s p \<Longrightarrow> msg_inv (s\<lparr>proctab := (proctab s)(p := e)\<rparr>) p"
  shows "kmsg (s\<lparr>proctab := (proctab s)(p := e)\<rparr>)"
  unfolding kmsg_def
proof (intro allI impI)
  fix r assume r: "pid_ok r"
  show "msg_inv (s\<lparr>proctab := (proctab s)(p := e)\<rparr>) r"
    using assms r by (cases "r = p") (simp_all add: kmsg_def msg_inv_def)
qed

lemma eligible_pid: "kq {} s \<Longrightarrow> eligible s \<Longrightarrow> qof s (currpid s) = None"
  by (simp add: eligible_def qof_def)


section \<open>Releasing the first process of a queue\<close>

text \<open>\<open>dequeue\<close> and \<open>getfirst\<close> leave the same lists behind; \<open>unqueued\<close> is what they share.\<close>

definition unqueued :: "int \<Rightarrow> int \<Rightarrow> int list \<Rightarrow> 'z kstate_scheme \<Rightarrow> qtab \<Rightarrow> bool" where
  "unqueued q p ps s t \<longleftrightarrow> kq {p} (s\<lparr>queuetab := t\<rparr>) \<and> pid_ok p \<and> qof s p = Some q \<and>
     (\<forall>r. qid_ok (nextqid s) r \<longrightarrow> queue_of t r = ((qlist s)(q := ps)) r) \<and>
     (\<forall>i. qkey (t i) = qkey (queuetab s i))"

lemma dequeue_unqueued:
  assumes "kq {} s" "qid_ok (nextqid s) q" "qlist s q = p # ps"
  obtains t where "dequeue q (queuetab s) = Some (p, t)" "unqueued q p ps s t"
  using dequeue_kq[OF assms] unfolding unqueued_def by blast

lemma getfirst_unqueued:
  assumes "kq {} s" "qid_ok (nextqid s) q" "qlist s q = p # ps"
  obtains t where "getfirst q (queuetab s) = Some (p, t)" "unqueued q p ps s t"
  using getfirst_kq[OF assms] unfolding unqueued_def by blast

lemma unqueued_loose: "unqueued q p ps s t \<Longrightarrow> kloose {readylist s, q} {} s (s\<lparr>queuetab := t\<rparr>)"
  unfolding unqueued_def kloose_def by auto

lemma qof_state: "qof s p = Some q \<Longrightarrow> prstate (proctab s p) \<notin> {PR_FREE, PR_CURR, PR_RECV, PR_SUSP}"
  by (auto simp: qof_def split: prstate.splits)

lemma release_deferred:
  assumes el: "eligible s" and nd: "ndefers s > 0" and ok: "qid_ok (nextqid s) q" and q: "q \<noteq> readylist s"
    and t: "unqueued q p ps s t"
  obtains s' where "ready p (s\<lparr>queuetab := t\<rparr>) = Some (OK, s')" "kq {} s'" "eligible s'"
    "currpid s' = currpid s" "kloose {readylist s, q} {p} s s'" "semtab s' = semtab s" "qlist s' q = ps" "attempt s'"
proof -
  let ?s = "s\<lparr>queuetab := t\<rparr>"
  have T: "kq {p} ?s" "pid_ok p" "qof s p = Some q"
    "\<And>r. qid_ok (nextqid s) r \<Longrightarrow> queue_of t r = ((qlist s)(q := ps)) r"
    using t unfolding unqueued_def by blast+
  have p: "prstate (proctab ?s p) \<noteq> PR_FREE" "p \<noteq> currpid s"
    using qof_state[OF T(3)] el by (auto simp: eligible_def)
  have nd': "ndefers ?s > 0" using nd by simp
  from ready_deferred[OF T(1,2) p(1) nd'] obtain s' where s': "ready p ?s = Some (OK, s')" "kq {} s'"
    "kframe {p} ?s s'" "currpid s' = currpid ?s" "attempt s'"
    "proctab s' = (proctab ?s)(p := (proctab ?s p)\<lparr>prstate := PR_READY\<rparr>)" by metis
  have "kloose {readylist s, q} ({} \<union> {p}) s s'"
    by (rule kloose_trans[OF unqueued_loose[OF t] kframe_loose[OF s'(3)]]) simp
  moreover have "qlist s' q = ps" using kframeD(1)[OF s'(3), of q] ok q T(4)[OF ok] by simp
  moreover have "eligible s'" using el s'(4,6) p(2) by (simp add: eligible_def)
  ultimately show ?thesis using that s' kframe_fields[OF s'(3)] by simp
qed

lemma release_now:
  assumes nd: "ndefers s = 0" and ok: "qid_ok (nextqid s) q" and q: "q \<noteq> readylist s"
    and t: "unqueued q p ps s t"
  obtains s' where "ready p (s\<lparr>queuetab := t\<rparr>) = Some (OK, s')" "kq {} s'" "eligible s'"
    "kloose {readylist s, q} {p} s s'" "semtab s' = semtab s" "qlist s' q = ps"
proof -
  let ?s = "s\<lparr>queuetab := t\<rparr>"
  have T: "kq {p} ?s" "pid_ok p" "qof s p = Some q"
    "\<And>r. qid_ok (nextqid s) r \<Longrightarrow> queue_of t r = ((qlist s)(q := ps)) r"
    using t unfolding unqueued_def by blast+
  have p: "prstate (proctab ?s p) \<noteq> PR_FREE" using qof_state[OF T(3)] by simp
  have nd': "ndefers ?s \<le> 0" using nd by simp
  from ready_now[OF T(1,2) p nd'] obtain s' where s': "ready p ?s = Some (OK, s')" "kq {} s'" "eligible s'"
    "kframe {p} ?s s'" by metis
  have "kloose {readylist s, q} ({} \<union> {p}) s s'"
    by (rule kloose_trans[OF unqueued_loose[OF t] kframe_loose[OF s'(4)]]) simp
  moreover have "qlist s' q = ps" using kframeD(1)[OF s'(4), of q] ok q T(4)[OF ok] by simp
  ultimately show ?thesis using that s' kframe_fields[OF s'(4)] by simp
qed

text \<open>The parts of the invariant after a loop that released the processes in \<open>P\<close>.\<close>

lemma kinv_kloose:
  assumes s: "kmsg s" "kheap s" "kstk s" "kpend s" and fr: "kloose X P s s'"
    and s': "kq {} s'" "eligible s'" "ndefers s' = 0" "ksem s'"
    and P: "\<And>p. p \<in> P \<Longrightarrow> prstate (proctab s p) \<notin> {PR_FREE, PR_RECV}"
  shows "kinv s'"
  unfolding kinv_def
  using s' kmsg_kloose[OF s(1) fr] P kheap_kloose[OF s(2) fr] kstk_kloose[OF s(3) fr] kpend_kloose[OF s(4) fr]
  by blast

lemma kloose_semtab: "kloose X {} s (s\<lparr>semtab := x\<rparr>)"
  unfolding kloose_def by simp

end
