(* ===== verification/Semaphore.thy ===== *)
theory Semaphore
  imports Kernel_Global
begin

text \<open>
  Counting semaphores: \<^verbatim>\<open>system/semcreate.c\<close>, \<^verbatim>\<open>system/wait.c\<close>, \<^verbatim>\<open>system/signal.c\<close>,
  \<^verbatim>\<open>system/signaln.c\<close>, \<^verbatim>\<open>system/semdelete.c\<close>, \<^verbatim>\<open>system/semreset.c\<close> and
  \<^verbatim>\<open>system/semcount.c\<close>.
\<close>

section \<open>Operations\<close>

text \<open>\<open>newsem\<close>: the loop tries \<open>i\<close> more entries from the static \<open>nextsem\<close> on.\<close>

fun newsem_loop :: "nat \<Rightarrow> 'z kstate_scheme \<Rightarrow> (int \<times> 'z kstate_scheme) option" where
  "newsem_loop 0 s = Some (SYSERR, s)"
| "newsem_loop (Suc i) s =
     (let sem = nextsem s;
          nx = (if sem + 1 \<ge> NSEM then 0 else sem + 1);
          s = s\<lparr>nextsem := nx\<rparr> in
      case sem_rd sem s of
        None \<Rightarrow> None
      | Some e \<Rightarrow>
          if sstate e = S_FREE
          then (case sem_upd sem (\<lambda>e. e\<lparr>sstate := S_USED\<rparr>) s of None \<Rightarrow> None | Some s \<Rightarrow> Some (sem, s))
          else newsem_loop i s)"

definition newsem :: "'z kstate_scheme \<Rightarrow> (int \<times> 'z kstate_scheme) option" where
  "newsem s = newsem_loop (nat NSEM) s"

definition semcreate :: "int \<Rightarrow> 'z kstate_scheme \<Rightarrow> (int \<times> 'z kstate_scheme) option" where
  "semcreate count s =
     (if count < 0 then Some (SYSERR, s)
      else do {
        (sem, s) \<leftarrow> newsem s;
        if sem = SYSERR then Some (SYSERR, s)
        else do { s \<leftarrow> sem_upd sem (\<lambda>e. e\<lparr>scount := count\<rparr>) s; Some (sem, s) } })"

definition wait :: "int \<Rightarrow> 'z kstate_scheme \<Rightarrow> (int \<times> 'z kstate_scheme) option" where
  "wait sem s =
     (if isbadsem sem then Some (SYSERR, s)
      else do {
        semptr \<leftarrow> sem_rd sem s;
        if sstate semptr = S_FREE then Some (SYSERR, s)
        else do {
          let c = s32 (scount semptr - 1);
          s \<leftarrow> sem_upd sem (\<lambda>e. e\<lparr>scount := c\<rparr>) s;
          if c < 0
          then do {
            s \<leftarrow> pr_upd (currpid s) (\<lambda>e. e\<lparr>prstate := PR_WAIT, prsem := sem\<rparr>) s;
            (_, s) \<leftarrow> enqueue (currpid s) (squeue semptr) s;
            s \<leftarrow> resched s;
            Some (OK, s) }
          else Some (OK, s) } })"

text \<open>One increment of the count, releasing the first waiting process if there is one.\<close>

definition signal_one :: "int \<Rightarrow> 'z kstate_scheme \<Rightarrow> 'z kstate_scheme option" where
  "signal_one sem s = do {
     semptr \<leftarrow> sem_rd sem s;
     s \<leftarrow> sem_upd sem (\<lambda>e. e\<lparr>scount := s32 (scount e + 1)\<rparr>) s;
     if scount semptr < 0
     then do {
       (pid, s) \<leftarrow> on_qtab (dequeue (squeue semptr)) s;
       (_, s) \<leftarrow> ready pid s;
       Some s }
     else Some s }"

definition signal :: "int \<Rightarrow> 'z kstate_scheme \<Rightarrow> (int \<times> 'z kstate_scheme) option" where
  "signal sem s =
     (if isbadsem sem then Some (SYSERR, s)
      else do {
        semptr \<leftarrow> sem_rd sem s;
        if sstate semptr = S_FREE then Some (SYSERR, s)
        else do { s \<leftarrow> signal_one sem s; Some (OK, s) } })"

fun signaln_loop :: "nat \<Rightarrow> int \<Rightarrow> 'z kstate_scheme \<Rightarrow> 'z kstate_scheme option" where
  "signaln_loop 0 sem s = Some s"
| "signaln_loop (Suc c) sem s =
     (case signal_one sem s of None \<Rightarrow> None | Some s \<Rightarrow> signaln_loop c sem s)"

definition signaln :: "int \<Rightarrow> int \<Rightarrow> 'z kstate_scheme \<Rightarrow> (int \<times> 'z kstate_scheme) option" where
  "signaln sem count s =
     (if isbadsem sem \<or> count < 0 then Some (SYSERR, s)
      else do {
        semptr \<leftarrow> sem_rd sem s;
        if sstate semptr = S_FREE then Some (SYSERR, s)
        else do {
          (_, s) \<leftarrow> resched_cntl DEFER_START s;
          s \<leftarrow> signaln_loop (nat count) sem s;
          (_, s) \<leftarrow> resched_cntl DEFER_STOP s;
          Some (OK, s) } })"

partial_function (option) semdelete_loop :: "int \<Rightarrow> 'z kstate_scheme \<Rightarrow> 'z kstate_scheme option" where
  "semdelete_loop sem s =
     (case sem_rd sem s of
        None \<Rightarrow> None
      | Some e \<Rightarrow>
        (case sem_upd sem (\<lambda>e. e\<lparr>scount := s32 (scount e + 1)\<rparr>) s of
           None \<Rightarrow> None
         | Some s \<Rightarrow>
           if scount e < 0 then
             (case on_qtab (getfirst (squeue e)) s of
                None \<Rightarrow> None
              | Some (pid, s) \<Rightarrow>
                (case ready pid s of None \<Rightarrow> None | Some (_, s) \<Rightarrow> semdelete_loop sem s))
           else Some s))"

definition semdelete :: "int \<Rightarrow> 'z kstate_scheme \<Rightarrow> (int \<times> 'z kstate_scheme) option" where
  "semdelete sem s =
     (if isbadsem sem then Some (SYSERR, s)
      else do {
        semptr \<leftarrow> sem_rd sem s;
        if sstate semptr = S_FREE then Some (SYSERR, s)
        else do {
          s \<leftarrow> sem_upd sem (\<lambda>e. e\<lparr>sstate := S_FREE\<rparr>) s;
          (_, s) \<leftarrow> resched_cntl DEFER_START s;
          s \<leftarrow> semdelete_loop sem s;
          (_, s) \<leftarrow> resched_cntl DEFER_STOP s;
          Some (OK, s) } })"

partial_function (option) semreset_loop :: "int \<Rightarrow> 'z kstate_scheme \<Rightarrow> 'z kstate_scheme option" where
  "semreset_loop semqueue s =
     (case on_qtab (getfirst semqueue) s of
        None \<Rightarrow> None
      | Some (pid, s) \<Rightarrow>
        if pid \<noteq> EMPTY
        then (case ready pid s of None \<Rightarrow> None | Some (_, s) \<Rightarrow> semreset_loop semqueue s)
        else Some s)"

definition semreset :: "int \<Rightarrow> int \<Rightarrow> 'z kstate_scheme \<Rightarrow> (int \<times> 'z kstate_scheme) option" where
  "semreset sem count s =
     (if count < 0 \<or> isbadsem sem \<or> sstate (semtab s sem) = S_FREE then Some (SYSERR, s)
      else do {
        semptr \<leftarrow> sem_rd sem s;
        let semqueue = squeue semptr;
        (_, s) \<leftarrow> resched_cntl DEFER_START s;
        s \<leftarrow> semreset_loop semqueue s;
        s \<leftarrow> sem_upd sem (\<lambda>e. e\<lparr>scount := count\<rparr>) s;
        (_, s) \<leftarrow> resched_cntl DEFER_STOP s;
        Some (OK, s) })"

definition semcount :: "int \<Rightarrow> 'z kstate_scheme \<Rightarrow> int" where
  "semcount semid s =
     (if isbadsem semid \<or> sstate (semtab s semid) = S_FREE then SYSERR else scount (semtab s semid))"

section \<open>wait\<close>

lemma enqueue_kq:
  assumes kq: "kq {p} s" and p: "pid_ok p" "prstate (proctab s p) = PR_WAIT" "prsem (proctab s p) = k"
  obtains t where "enqueue p (squeue (semtab s k)) s = Some (p, s\<lparr>queuetab := t\<rparr>)"
    "kq {} (s\<lparr>queuetab := t\<rparr>)"
    "\<And>q. qid_ok (nextqid s) q \<Longrightarrow>
       queue_of t q = ((qlist s)(squeue (semtab s k) := semq s k @ [p])) q"
    "\<And>i. qkey (t i) = qkey (queuetab s i)"
proof -
  let ?q = "squeue (semtab s k)"
  note K = kqD[OF kq]
  have k: "sem_ok k" using K(5)[OF p(1,2)] p(3) by simp
  note I = kq_ids[OF kq] and q = kq_ids(4)[OF kq k]
  have nq: "p \<notin> queued (nextqid s) (qlist s)" by (rule kq_not_queued[OF kq]) simp
  obtain t where t: "enqueue_links p ?q (queuetab s) = Some t"
    "qrep (nextqid s) t ((qlist s)(?q := semq s k @ [p]))" "\<forall>i. qkey (t i) = qkey (queuetab s i)"
    using enqueue_links_rep[OF K(1) q _ _ nq] p(1) by blast
  have qp: "qof s p = Some ?q" using p by (simp add: qof_def)
  have "kq {} (s\<lparr>queuetab := t\<rparr>)"
  proof (rule kq_set_qtab[OF kq t(2)])
    fix r assume r: "qid_ok (nextqid s) r"
    show "set (((qlist s)(?q := semq s k @ [p])) r) = {x. pid_ok x \<and> x \<notin> {} \<and> qof s x = Some r}"
    proof (cases "r = ?q")
      case True
      then show ?thesis using K(3)[OF r] qp p(1) by auto
    next
      case False
      then have "qof s p \<noteq> Some r" using qp by simp
      then show ?thesis using K(3)[OF r] False by auto
    qed
  next
    show "sorted_wrt (\<lambda>a b. qkey (t a) \<ge> qkey (t b)) (((qlist s)(?q := semq s k @ [p])) (readylist s))"
      using K(6) t(3) I(5)[OF k] by simp
  qed
  moreover have "enqueue p ?q s = Some (p, s\<lparr>queuetab := t\<rparr>)"
    using t(1) p isbadqid_ok[OF K(1) q] by (simp add: enqueue_def isbadpid_def)
  ultimately show ?thesis using that t(3) qrep_queue_of[OF t(2)] by blast
qed

lemma ksem_upd:
  assumes sem: "ksem s" and kq: "kq F s" and k: "sem_ok k"
    and others: "\<And>j. sem_ok j \<Longrightarrow> j \<noteq> k \<Longrightarrow> semtab s' j = semtab s j \<and> semq s' j = semq s j"
    and this_one: "sem_inv s' k"
  shows "ksem s'"
  unfolding ksem_def
proof (intro allI impI)
  fix j assume j: "sem_ok j"
  show "sem_inv s' j"
  proof (cases "j = k")
    case False
    then show ?thesis using sem_inv_cong[OF ksemD[OF sem j]] others[OF j False] by blast
  qed (simp add: this_one)
qed

text \<open>\<open>wait\<close> with a positive count only takes one unit; otherwise the caller joins the end of
  the semaphore's queue and another process runs.\<close>

lemma wait_free:
  assumes inv: "kinv s" and k: "sem_ok k" "sstate (semtab s k) = S_USED" and c: "scount (semtab s k) > 0"
  shows "\<exists>s'. wait k s = Some (OK, s') \<and> kinv s' \<and>
    s' = s\<lparr>semtab := (semtab s)(k := (semtab s k)\<lparr>scount := scount (semtab s k) - 1\<rparr>)\<rparr>"
proof -
  note V = kinvD[OF inv]
  let ?e = "(semtab s k)\<lparr>scount := scount (semtab s k) - 1\<rparr>"
  let ?s = "s\<lparr>semtab := (semtab s)(k := ?e)\<rparr>"
  have inv_k: "semq s k = []" "scount (semtab s k) < 2 ^ 31"
    using ksemD[OF V(4) k(1)] k(2) c unfolding sem_inv_def by (simp_all split: if_splits)
  then have "s32 (scount (semtab s k) - 1) = scount (semtab s k) - 1" using c by (intro s32_id) auto
  then have "wait k s = Some (OK, ?s)"
    using k c by (simp add: wait_def isbadsem_def range_simps Let_def)
  moreover have "ksem ?s"
    by (rule ksem_upd[OF V(4) V(1) k(1)]) (use inv_k k c in \<open>simp_all add: sem_inv_def\<close>)
  then have "kinv ?s" unfolding kinv_def using V kq_set_sem(1)[OF V(1)] by simp
  ultimately show ?thesis by blast
qed

lemma wait_block:
  assumes inv: "kinv s" and k: "sem_ok k" "sstate (semtab s k) = S_USED" and c: "scount (semtab s k) \<le> 0"
    and cur: "currpid s \<noteq> NULLPROC"
  shows "\<exists>s'. wait k s = Some (OK, s') \<and> kinv s' \<and>
    semq s' k = semq s k @ [currpid s] \<and> scount (semtab s' k) = scount (semtab s k) - 1 \<and>
    prstate (proctab s' (currpid s)) = PR_WAIT \<and> currpid s' = hd (rdy s) \<and> rdy s' = tl (rdy s)"
proof -
  note V = kinvD[OF inv] and K = kqD[OF kinvD(1)[OF inv]] and I = kq_ids[OF kinvD(1)[OF inv]]
  let ?c = "currpid s" and ?q = "squeue (semtab s k)"
  let ?se = "(semtab s k)\<lparr>scount := scount (semtab s k) - 1\<rparr>"
  let ?pe = "(proctab s ?c)\<lparr>prstate := PR_WAIT, prsem := k\<rparr>"
  let ?s1 = "s\<lparr>semtab := (semtab s)(k := ?se)\<rparr>"
  let ?s2 = "?s1\<lparr>proctab := (proctab s)(?c := ?pe)\<rparr>"
  have len: "int (length (semq s k)) = - scount (semtab s k)"
    using ksemD[OF V(4) k(1)] k(2) c unfolding sem_inv_def by (simp_all split: if_splits)
  have "length (semq s k) \<le> nat NPROC"
    by (rule distinct_subset_length) (use qrepD(2,3)[OF K(1) I(4)[OF k(1)]] in auto)
  then have ge: "scount (semtab s k) \<ge> - NPROC" using len by simp
  have wrap: "s32 (scount (semtab s k) - 1) = scount (semtab s k) - 1" using c ge by (intro s32_id) auto
  have "kq {?c} s" by (rule kq_float[OF V(1) eligible_pid[OF V(1,2)]])
  then have "kq {?c} ?s1" by (rule kq_set_sem) simp
  then have kq2: "kq {?c} ?s2"
    using kq_set_proc[of ?c ?s1 ?pe] K(4)[OF K(7)] K(7) k(1) cur by simp
  have p2: "prstate (proctab ?s2 ?c) = PR_WAIT" "prsem (proctab ?s2 ?c) = k" by simp_all
  obtain t where t: "enqueue ?c (squeue (semtab ?s2 k)) ?s2 = Some (?c, ?s2\<lparr>queuetab := t\<rparr>)"
    "kq {} (?s2\<lparr>queuetab := t\<rparr>)"
    "\<And>q. qid_ok (nextqid ?s2) q \<Longrightarrow>
       queue_of t q = ((qlist ?s2)(squeue (semtab ?s2 k) := semq ?s2 k @ [?c])) q"
    using enqueue_kq[OF kq2 K(7) p2] by metis
  let ?s3 = "?s2\<lparr>queuetab := t\<rparr>"
  have t3: "queue_of t q = ((qlist s)(?q := semq s k @ [?c])) q" if "qid_ok (nextqid s) q" for q
    using t(3)[of q] that by simp
  obtain s' where s': "resched ?s3 = Some s'" "kq {} s'" "eligible s'" "kframe {} ?s3 s'"
    "(currpid s', rdy s') = sched_pick ?s3"
    using resched_rep[OF t(2)] V(3) by auto
  have run: "wait k s = Some (OK, s')"
    using k c wrap K(7) t(1) s'(1) by (simp add: wait_def isbadsem_def range_simps Let_def)
  have "ksem ?s3"
  proof (rule ksem_upd[OF V(4) V(1) k(1)])
    show "semtab ?s3 j = semtab s j \<and> semq ?s3 j = semq s j" if j: "sem_ok j" "j \<noteq> k" for j
      using t3[OF I(4)[OF j(1)]] I(7)[OF j(1) k(1)] j by simp
    show "sem_inv ?s3 k" using t3[OF I(4)[OF k(1)]] len k c by (simp add: sem_inv_def)
  qed
  moreover have "kmsg ?s3"
    using kmsg_set_proc[of ?s1 ?c ?pe] V(5) V(2) by (simp add: msg_inv_def eligible_def)
  moreover have "kstk ?s3" using kstk_set_proc[of ?s1 ?c ?pe] V(7) by simp
  ultimately have "kinv s'"
    using kinv_kframe[OF _ _ _ _ _ t(2) _ s'(4,2,3)] V(3,6,8) by simp
  moreover have "semq s' k = semq s k @ [?c]"
    using kframeD(1)[OF s'(4), of ?q] kframe_fields[OF s'(4)] I(4,5)[OF k(1)] t3[of ?q] by simp
  moreover have "prstate (proctab s' ?c) = PR_WAIT" using kframeD(4)[OF s'(4), of ?c] by auto
  moreover have "rdy ?s3 = rdy s" using t3[OF I(1)] I(5)[OF k(1)] by simp
  then have "sched_pick ?s3 = (hd (rdy s), tl (rdy s))" by (simp add: sched_pick_def eligible_def Let_def)
  ultimately show ?thesis using run s'(5) kframe_fields[OF s'(4)] by simp
qed


section \<open>signal\<close>

text \<open>Taking the first process off a semaphore's queue.\<close>

lemma sem_head:
  assumes kq: "kq {} s" and k: "sem_ok k" and Q: "semq s k = p # ps"
  shows "pid_ok p" "prstate (proctab s p) = PR_WAIT" "prsem (proctab s p) = k"
proof -
  have "pid_ok p \<and> qof s p = Some (squeue (semtab s k))" using kqD(3)[OF kq kq_ids(4)[OF kq k]] Q by auto
  then show p: "pid_ok p" "prstate (proctab s p) = PR_WAIT" "prsem (proctab s p) = k"
    using kq_ids(5-7)[OF kq] k kqD(5)[OF kq, of p] by (auto simp: qof_def split: prstate.splits)
qed

text \<open>One step of \<open>signal\<close> or \<open>signaln\<close>, with and without a waiting process.\<close>

lemma signal_one_idle:
  assumes k: "sem_ok k" and c: "0 \<le> scount (semtab s k)" "scount (semtab s k) < 2 ^ 31 - 1"
  shows "signal_one k s = Some (s\<lparr>semtab := (semtab s)(k := (semtab s k)\<lparr>scount := scount (semtab s k) + 1\<rparr>)\<rparr>)"
  using k c by (simp add: signal_one_def range_simps s32_id)

lemma signal_one_wake:
  assumes k: "sem_ok k" and c: "scount (semtab s k) < 0" "scount (semtab s k) \<ge> - NPROC"
    and s1: "s1 = s\<lparr>semtab := (semtab s)(k := (semtab s k)\<lparr>scount := scount (semtab s k) + 1\<rparr>)\<rparr>"
    and t: "dequeue (squeue (semtab s k)) (queuetab s) = Some (p, t)"
    and r: "ready p (s1\<lparr>queuetab := t\<rparr>) = Some (r, s')"
  shows "signal_one k s = Some s'"
  using k c t r by (simp add: s1 signal_one_def range_simps s32_id on_qtab_def)

lemma sem_count_range:
  assumes "kq {} s" "ksem s" "sem_ok k" "sstate (semtab s k) = S_USED"
  shows "scount (semtab s k) \<ge> - NPROC" "scount (semtab s k) < 2 ^ 31"
    "scount (semtab s k) < 0 \<longleftrightarrow> semq s k \<noteq> []"
proof -
  have "length (semq s k) \<le> nat NPROC"
    by (rule distinct_subset_length) (use qrepD(2,3)[OF kqD(1)[OF assms(1)] kq_ids(4)[OF assms(1,3)]] in auto)
  then show "scount (semtab s k) \<ge> - NPROC" "scount (semtab s k) < 2 ^ 31"
    "scount (semtab s k) < 0 \<longleftrightarrow> semq s k \<noteq> []"
    using ksemD[OF assms(2,3)] assms(4) unfolding sem_inv_def by (auto split: if_splits)
qed

lemma sem_inv_pop:
  assumes "sem_inv s k" "sstate (semtab s k) = S_USED" "semq s k = p # ps"
    and "semtab s' k = (semtab s k)\<lparr>scount := scount (semtab s k) + 1\<rparr>" "qlist s' (squeue (semtab s k)) = ps"
  shows "sem_inv s' k"
proof -
  have "int (length ps) = - (scount (semtab s k) + 1)"
    using assms(1-3) unfolding sem_inv_def by (simp split: if_splits)
  then show ?thesis using assms(2,4,5) unfolding sem_inv_def by (cases ps) auto
qed

lemma signal_one_deferred:
  assumes kq: "kq {} s" and el: "eligible s" and nd: "ndefers s > 0" and sem: "ksem s"
    and k: "sem_ok k" "sstate (semtab s k) = S_USED" and c: "scount (semtab s k) < 2 ^ 31 - 1"
  obtains s' where "signal_one k s = Some s'" "kq {} s'" "eligible s'" "ksem s'" "currpid s' = currpid s"
    "semtab s' = (semtab s)(k := (semtab s k)\<lparr>scount := scount (semtab s k) + 1\<rparr>)"
    "semq s' k = drop 1 (semq s k)"
    "kloose {readylist s, squeue (semtab s k)} (set (take 1 (semq s k))) s s'"
proof -
  let ?e = "(semtab s k)\<lparr>scount := scount (semtab s k) + 1\<rparr>"
  let ?s1 = "s\<lparr>semtab := (semtab s)(k := ?e)\<rparr>" and ?q = "squeue (semtab s k)"
  note R = sem_count_range[OF kq sem k] and S = ksemD[OF sem k(1)] and I = kq_ids[OF kq]
  have kq1: "kq {} ?s1" by (rule kq_set_sem[OF kq]) simp
  show ?thesis
  proof (cases "semq s k")
    case Nil
    then have nn: "0 \<le> scount (semtab s k)" using R by auto
    have "ksem ?s1"
      by (rule ksem_upd[OF sem kq k(1)]) (use Nil nn k c in \<open>simp_all add: sem_inv_def\<close>)
    then show ?thesis
      by (intro that[of ?s1]) (use signal_one_idle[OF k(1) nn c] kq1 el Nil kloose_semtab in simp_all)
  next
    case (Cons p ps)
    have c0: "scount (semtab s k) < 0" using R Cons by auto
    obtain t where t: "dequeue ?q (queuetab ?s1) = Some (p, t)" "unqueued ?q p ps ?s1 t"
      using dequeue_unqueued[OF kq1, of ?q p ps] I(4)[OF k(1)] Cons by auto
    obtain s' where s': "ready p (?s1\<lparr>queuetab := t\<rparr>) = Some (OK, s')" "kq {} s'" "eligible s'"
      "currpid s' = currpid ?s1" "kloose {readylist ?s1, ?q} {p} ?s1 s'" "semtab s' = semtab ?s1" "qlist s' ?q = ps"
      using release_deferred[OF _ _ _ _ t(2)] el nd I(4,5)[OF k(1)] by auto
    have run: "signal_one k s = Some s'"
      by (rule signal_one_wake[OF k(1) c0 R(1) refl _ s'(1)]) (use t(1) in simp)
    have "kloose {readylist s, ?q} ({} \<union> {p}) s s'"
      by (rule kloose_trans[OF kloose_semtab]) (use s'(5) in simp)
    moreover have "ksem s'"
    proof (rule ksem_upd[OF sem kq k(1)])
      show "semtab s' j = semtab s j \<and> semq s' j = semq s j" if j: "sem_ok j" "j \<noteq> k" for j
        using s'(6) j klooseD(1)[OF s'(5), of "squeue (semtab s j)"] I(4,5)[OF j(1)] I(7)[OF j(1) k(1)] by simp
      show "sem_inv s' k" by (rule sem_inv_pop[OF S k(2) Cons]) (use s'(6,7) in simp_all)
    qed
    ultimately show ?thesis using that[of s'] run s' Cons by simp
  qed
qed

theorem signal_inv:
  assumes inv: "kinv s" and k: "sem_ok k" "sstate (semtab s k) = S_USED" and c: "scount (semtab s k) < 2 ^ 31 - 1"
  shows "\<exists>s'. signal k s = Some (OK, s') \<and> kinv s' \<and> scount (semtab s' k) = scount (semtab s k) + 1 \<and>
    semq s' k = drop 1 (semq s k) \<and> (\<forall>p \<in> set (take 1 (semq s k)). runnable (prstate (proctab s' p)))"
proof -
  let ?e = "(semtab s k)\<lparr>scount := scount (semtab s k) + 1\<rparr>"
  let ?s1 = "s\<lparr>semtab := (semtab s)(k := ?e)\<rparr>" and ?q = "squeue (semtab s k)"
  note V = kinvD[OF inv]
  note R = sem_count_range[OF V(1,4) k] and S = ksemD[OF V(4) k(1)] and I = kq_ids[OF V(1)]
  have sig: "signal k s = map_option (Pair OK) (signal_one k s)"
    using k by (simp add: signal_def isbadsem_def range_simps map_option_case split: option.split)
  have kq1: "kq {} ?s1" by (rule kq_set_sem[OF V(1)]) simp
  show ?thesis
  proof (cases "semq s k")
    case Nil
    then have nn: "0 \<le> scount (semtab s k)" using R by auto
    have "ksem ?s1"
      by (rule ksem_upd[OF V(4,1) k(1)]) (use Nil nn k c in \<open>simp_all add: sem_inv_def\<close>)
    then have "kinv ?s1" unfolding kinv_def using V kq1 by simp
    then show ?thesis using sig signal_one_idle[OF k(1) nn c] Nil by (intro exI[of _ ?s1]) simp
  next
    case (Cons p ps)
    have c0: "scount (semtab s k) < 0" using R Cons by auto
    obtain t where t: "dequeue ?q (queuetab ?s1) = Some (p, t)" "unqueued ?q p ps ?s1 t"
      using dequeue_unqueued[OF kq1, of ?q p ps] I(4)[OF k(1)] Cons by auto
    obtain s' where s': "ready p (?s1\<lparr>queuetab := t\<rparr>) = Some (OK, s')" "kq {} s'" "eligible s'"
      "kloose {readylist ?s1, ?q} {p} ?s1 s'" "semtab s' = semtab ?s1" "qlist s' ?q = ps"
      using release_now[OF _ _ _ t(2)] V(3) I(4,5)[OF k(1)] by auto
    have run: "signal_one k s = Some s'"
      by (rule signal_one_wake[OF k(1) c0 R(1) refl _ s'(1)]) (use t(1) in simp)
    have fr: "kloose {readylist s, ?q} ({} \<union> {p}) s s'"
      by (rule kloose_trans[OF kloose_semtab]) (use s'(4) in simp)
    have "ksem s'"
    proof (rule ksem_upd[OF V(4,1) k(1)])
      show "semtab s' j = semtab s j \<and> semq s' j = semq s j" if j: "sem_ok j" "j \<noteq> k" for j
        using s'(5) j klooseD(1)[OF s'(4), of "squeue (semtab s j)"] I(4,5)[OF j(1)] I(7)[OF j(1) k(1)] by simp
      show "sem_inv s' k" by (rule sem_inv_pop[OF S k(2) Cons]) (use s'(5,6) in simp_all)
    qed
    then have "kinv s'"
      using kinv_kloose[OF V(5-8) fr s'(2,3)] sem_head[OF V(1) k(1) Cons] kloose_fields[OF fr] V(3) by simp
    then show ?thesis using sig run s'(5,6) Cons klooseD(5)[OF fr] by simp
  qed
qed


section \<open>signaln\<close>

lemma signaln_loop_deferred:
  assumes "kq {} s" "eligible s" "ndefers s > 0" "ksem s"
    and "sem_ok k" "sstate (semtab s k) = S_USED" "scount (semtab s k) + int n < 2 ^ 31"
  shows "\<exists>s'. signaln_loop n k s = Some s' \<and> kq {} s' \<and> eligible s' \<and> ksem s' \<and> currpid s' = currpid s \<and>
    semtab s' = (semtab s)(k := (semtab s k)\<lparr>scount := scount (semtab s k) + int n\<rparr>) \<and>
    semq s' k = drop n (semq s k) \<and>
    kloose {readylist s, squeue (semtab s k)} (set (take n (semq s k))) s s'"
  using assms
proof (induction n arbitrary: s)
  case 0
  have "kloose X {} s s" for X unfolding kloose_def by simp
  then show ?case using 0 by simp
next
  case (Suc n)
  have c: "scount (semtab s k) < 2 ^ 31 - 1" using Suc.prems(7) by simp
  obtain s1 where s1: "signal_one k s = Some s1" "kq {} s1" "eligible s1" "ksem s1" "currpid s1 = currpid s"
    "semtab s1 = (semtab s)(k := (semtab s k)\<lparr>scount := scount (semtab s k) + 1\<rparr>)"
    "semq s1 k = drop 1 (semq s k)"
    "kloose {readylist s, squeue (semtab s k)} (set (take 1 (semq s k))) s s1"
    using signal_one_deferred[OF Suc.prems(1-6) c] by metis
  note F = kloose_fields[OF s1(8)]
  have pre: "ndefers s1 > 0" "sstate (semtab s1 k) = S_USED" "scount (semtab s1 k) + int n < 2 ^ 31"
    using Suc.prems(3,6,7) F s1(6) by simp_all
  obtain s' where s': "signaln_loop n k s1 = Some s'" "kq {} s'" "eligible s'" "ksem s'" "currpid s' = currpid s1"
    "semtab s' = (semtab s1)(k := (semtab s1 k)\<lparr>scount := scount (semtab s1 k) + int n\<rparr>)"
    "semq s' k = drop n (semq s1 k)"
    "kloose {readylist s1, squeue (semtab s1 k)} (set (take n (semq s1 k))) s1 s'"
    using Suc.IH[OF s1(2,3) pre(1) s1(4) Suc.prems(5) pre(2,3)] by blast
  have fr: "kloose {readylist s, squeue (semtab s k)} (set (take n (semq s1 k))) s1 s'"
    using s'(8) F s1(6) by simp
  have "set (take 1 (semq s k)) \<union> set (take n (semq s1 k)) = set (take (Suc n) (semq s k))"
    unfolding s1(7) by (cases "semq s k") auto
  then have "kloose {readylist s, squeue (semtab s k)} (set (take (Suc n) (semq s k))) s s'"
    using kloose_trans[OF s1(8) fr] by simp
  moreover have "semq s' k = drop (Suc n) (semq s k)" using s'(7) unfolding s1(7) by simp
  moreover have "semtab s' = (semtab s)(k := (semtab s k)\<lparr>scount := scount (semtab s k) + int (Suc n)\<rparr>)"
    using s'(6) s1(6) by (simp add: add.assoc)
  moreover have "signaln_loop (Suc n) k s = Some s'" "currpid s' = currpid s" using s1(1,5) s'(1,5) by simp_all
  ultimately show ?case using s'(2-4) by blast
qed

theorem signaln_inv:
  assumes inv: "kinv s" and k: "sem_ok k" "sstate (semtab s k) = S_USED"
    and n: "0 \<le> n" "scount (semtab s k) + n < 2 ^ 31"
  shows "\<exists>s'. signaln k n s = Some (OK, s') \<and> kinv s' \<and> scount (semtab s' k) = scount (semtab s k) + n \<and>
    semq s' k = drop (nat n) (semq s k) \<and>
    (\<forall>p \<in> set (take (nat n) (semq s k)). runnable (prstate (proctab s' p)))"
proof -
  note V = kinvD[OF inv] and I = kq_ids[OF kinvD(1)[OF inv]]
  let ?s0 = "s\<lparr>ndefers := 1, attempt := False\<rparr>" and ?q = "squeue (semtab s k)"
  obtain s1 where s1: "signaln_loop (nat n) k ?s0 = Some s1" "kq {} s1" "eligible s1" "ksem s1"
    "semtab s1 = (semtab s)(k := (semtab s k)\<lparr>scount := scount (semtab s k) + n\<rparr>)"
    "semq s1 k = drop (nat n) (semq s k)"
    "kloose {readylist s, ?q} (set (take (nat n) (semq s k))) ?s0 s1"
    using signaln_loop_deferred[of ?s0 k "nat n"] V k n by auto
  note F = kloose_fields[OF s1(7)]
  have nd: "ndefers s1 = 1" using F by simp
  obtain s' where s': "resched_cntl DEFER_STOP s1 = Some (OK, s')" "kq {} s'" "eligible s'"
    "kframe {} (s1\<lparr>ndefers := 0\<rparr>) s'"
    using defer_stop[OF s1(2) nd] s1(3) by metis
  have run: "signaln k n s = Some (OK, s')"
    using k n s1(1) s'(1) defer_start[OF V(3)] by (simp add: signaln_def isbadsem_def range_simps)
  have P: "prstate (proctab ?s0 p) \<notin> {PR_FREE, PR_RECV}" if "p \<in> set (take (nat n) (semq s k))" for p
    using in_set_takeD[OF that] kqD(3)[OF V(1) I(4)[OF k(1)]] qof_state[of s p ?q] by auto
  have parts: "kmsg s1" "kheap s1" "kstk s1" "kpend s1"
    using kmsg_kloose[OF _ s1(7)] P kheap_kloose[OF _ s1(7)] kstk_kloose[OF _ s1(7)] kpend_kloose[OF _ s1(7)]
      V(5-8) by auto
  have "kinv s'"
    using kinv_kframe[OF _ _ _ _ _ _ _ s'(4,2,3), of "{}"] s1(2,4) parts by simp
  moreover have "semq s' k = drop (nat n) (semq s k)"
    using kframeD(1)[OF s'(4), of ?q] kframe_fields[OF s'(4)] F I(4,5)[OF k(1)] s1(5,6) by simp
  moreover have "runnable (prstate (proctab s' p))" if "p \<in> set (take (nat n) (semq s k))" for p
    using kframe_runnable[OF s'(4), of p] klooseD(5)[OF s1(7) that] by simp
  ultimately show ?thesis using run kframe_fields[OF s'(4)] s1(5) by simp
qed


section \<open>semdelete and semreset\<close>

text \<open>Both drain a queue under deferral; \<open>semreset\<close> stops when it is empty, \<open>semdelete\<close> when the
  count says so.\<close>

lemma on_qtab_Some: "f (queuetab s) = Some (r, t) \<Longrightarrow> on_qtab f s = Some (r, s\<lparr>queuetab := t\<rparr>)"
  by (simp add: on_qtab_def)

lemma semreset_loop_drain:
  assumes "kq {} s" "eligible s" "ndefers s > 0" "qid_ok (nextqid s) q" "q \<noteq> readylist s"
  shows "\<exists>s'. semreset_loop q s = Some s' \<and> kq {} s' \<and> eligible s' \<and> semtab s' = semtab s \<and> qlist s' q = [] \<and>
    kloose {readylist s, q} (set (qlist s q)) s s'"
  using assms
proof (induction "qlist s q" arbitrary: s)
  case Nil
  have "getfirst q (queuetab s) = Some (EMPTY, queuetab s)"
    by (rule getfirst_rep_empty[OF kqD(1)[OF Nil.prems(1)] Nil.prems(4)]) (use Nil.hyps in simp)
  then have "semreset_loop q s = Some s" by (subst semreset_loop.simps) (simp add: on_qtab_def)
  moreover have "kloose X {} s s" for X unfolding kloose_def by simp
  ultimately show ?case using Nil.prems Nil.hyps[symmetric] by simp
next
  case (Cons p ps)
  note Q = Cons.hyps(2)[symmetric]
  obtain t where t: "getfirst q (queuetab s) = Some (p, t)" "unqueued q p ps s t"
    by (rule getfirst_unqueued[OF Cons.prems(1,4) Q])
  obtain s1 where s1: "ready p (s\<lparr>queuetab := t\<rparr>) = Some (OK, s1)" "kq {} s1" "eligible s1"
    "kloose {readylist s, q} {p} s s1" "semtab s1 = semtab s" "qlist s1 q = ps"
    using release_deferred[OF Cons.prems(2-5) t(2)] by metis
  note F = kloose_fields[OF s1(4)]
  have "ps = qlist s1 q" using s1(6) by simp
  from Cons.hyps(1)[OF this s1(2,3)] obtain s' where s': "semreset_loop q s1 = Some s'" "kq {} s'" "eligible s'"
    "semtab s' = semtab s1" "qlist s' q = []" "kloose {readylist s1, q} (set (qlist s1 q)) s1 s'"
    using Cons.prems(3-5) F by auto
  have p: "p \<noteq> EMPTY" using t(2) by (auto simp: unqueued_def)
  have "semreset_loop q s = Some s'"
    using on_qtab_Some[of "getfirst q" s, OF t(1)] s1(1) s'(1) p by (subst semreset_loop.simps) simp
  moreover have "kloose {readylist s, q} ({p} \<union> set ps) s s'"
    by (rule kloose_trans[OF s1(4)]) (use s'(6) s1(6) F in simp)
  ultimately show ?case using s' s1(5) Q by simp
qed

lemma semdelete_loop_drain:
  assumes "kq {} s" "eligible s" "ndefers s > 0" "sem_ok k"
    and "scount (semtab s k) < 2 ^ 31" "int (length (semq s k)) = max 0 (- scount (semtab s k))"
    and "scount (semtab s k) \<ge> - NPROC"
  shows "\<exists>s' c. semdelete_loop k s = Some s' \<and> kq {} s' \<and> eligible s' \<and>
    semtab s' = (semtab s)(k := (semtab s k)\<lparr>scount := c\<rparr>) \<and> semq s' k = [] \<and>
    kloose {readylist s, squeue (semtab s k)} (set (semq s k)) s s'"
  using assms
proof (induction "semq s k" arbitrary: s)
  case Nil
  let ?s1 = "s\<lparr>semtab := (semtab s)(k := (semtab s k)\<lparr>scount := s32 (scount (semtab s k) + 1)\<rparr>)\<rparr>"
  have "\<not> scount (semtab s k) < 0" using Nil.prems(6) Nil.hyps[symmetric] by simp
  then have "semdelete_loop k s = Some ?s1"
    using Nil.prems(4) by (subst semdelete_loop.simps) (simp add: range_simps)
  moreover have "kq {} ?s1" by (rule kq_set_sem[OF Nil.prems(1)]) simp
  moreover have "eligible ?s1" "semq ?s1 k = []"
    "semtab ?s1 = (semtab s)(k := (semtab s k)\<lparr>scount := s32 (scount (semtab s k) + 1)\<rparr>)"
    using Nil.prems(2) Nil.hyps[symmetric] by simp_all
  moreover have "kloose {readylist s, squeue (semtab s k)} (set (semq s k)) s ?s1"
    using kloose_semtab Nil.hyps[symmetric] by simp
  ultimately show ?case by blast
next
  case (Cons p ps)
  note Q = Cons.hyps(2)[symmetric] and k = Cons.prems(4)
  let ?q = "squeue (semtab s k)"
  let ?s0 = "s\<lparr>semtab := (semtab s)(k := (semtab s k)\<lparr>scount := scount (semtab s k) + 1\<rparr>)\<rparr>"
  note I = kq_ids[OF Cons.prems(1)]
  have neg: "scount (semtab s k) < 0" using Cons.prems(6) Q by simp
  have kq0: "kq {} ?s0" by (rule kq_set_sem[OF Cons.prems(1)]) simp
  obtain t where t: "getfirst ?q (queuetab ?s0) = Some (p, t)" "unqueued ?q p ps ?s0 t"
    using getfirst_unqueued[OF kq0, of ?q p ps] I(4)[OF k] Q by auto
  obtain s1 where s1: "ready p (?s0\<lparr>queuetab := t\<rparr>) = Some (OK, s1)" "kq {} s1" "eligible s1"
    "kloose {readylist s, ?q} {p} ?s0 s1" "semtab s1 = semtab ?s0" "qlist s1 ?q = ps"
    using release_deferred[OF _ _ _ _ t(2)] Cons.prems(2,3) I(4,5)[OF k] by auto
  note F = kloose_fields[OF s1(4)]
  have pre: "ps = semq s1 k" "ndefers s1 > 0" "scount (semtab s1 k) < 2 ^ 31" "scount (semtab s1 k) \<ge> - NPROC"
    "int (length (semq s1 k)) = max 0 (- scount (semtab s1 k))"
    using s1(5,6) F Cons.prems(3,6,7) Q neg by auto
  obtain s' c where s': "semdelete_loop k s1 = Some s'" "kq {} s'" "eligible s'"
    "semtab s' = (semtab s1)(k := (semtab s1 k)\<lparr>scount := c\<rparr>)" "semq s' k = []"
    "kloose {readylist s1, squeue (semtab s1 k)} (set (semq s1 k)) s1 s'"
    using Cons.hyps(1)[OF pre(1) s1(2,3) pre(2) k pre(3,5,4)] by blast
  have "s32 (scount (semtab s k) + 1) = scount (semtab s k) + 1"
    using neg Cons.prems(7) by (intro s32_id) simp_all
  then have "semdelete_loop k s = Some s'"
    using on_qtab_Some[of "getfirst ?q" ?s0, OF t(1)] s1(1) s'(1) neg k by (subst semdelete_loop.simps) (simp add: range_simps)
  moreover have "kloose {readylist s, ?q} {p} s s1"
    using kloose_trans[OF kloose_semtab s1(4)] by simp
  then have "kloose {readylist s, ?q} ({p} \<union> set ps) s s'"
    by (rule kloose_trans) (use s'(6) s1(5,6) F in simp)
  moreover have "semtab s' = (semtab s)(k := (semtab s k)\<lparr>scount := c\<rparr>)" "semq s' k = []"
    using s'(4,5) s1(5) by simp_all
  moreover have "{p} \<union> set ps = set (semq s k)" using Q by simp
  ultimately show ?case using s'(2,3) by metis
qed

text \<open>After the queue of \<open>k\<close> has been drained and deferral ends, the invariant holds again.\<close>

lemma drained_inv:
  assumes inv: "kinv s" and k: "sem_ok k" and fr: "kloose {readylist s, squeue (semtab s k)} (set (semq s k)) s0 s1"
    and s0: "kmsg s0" "kheap s0" "kstk s0" "kpend s0" "proctab s0 = proctab s" "ndefers s0 = 1" "nextqid s0 = nextqid s"
      "readylist s0 = readylist s" "queuetab s0 = queuetab s"
    and s1: "kq {} s1" "eligible s1" "\<And>j. sem_ok j \<Longrightarrow> j \<noteq> k \<Longrightarrow> semtab s1 j = semtab s j"
      "squeue (semtab s1 k) = squeue (semtab s k)" "semq s1 k = []"
      "sstate (semtab s1 k) = S_FREE \<or> (0 \<le> scount (semtab s1 k) \<and> scount (semtab s1 k) < 2 ^ 31)"
  obtains s' where "resched_cntl DEFER_STOP s1 = Some (OK, s')" "kinv s'" "semtab s' = semtab s1"
    "semq s' k = []" "\<And>p. p \<in> set (semq s k) \<Longrightarrow> runnable (prstate (proctab s' p))"
proof -
  note V = kinvD[OF inv] and I = kq_ids[OF kinvD(1)[OF inv]]
  note F = kloose_fields[OF fr]
  obtain s' where s': "resched_cntl DEFER_STOP s1 = Some (OK, s')" "kq {} s'" "eligible s'"
    "kframe {} (s1\<lparr>ndefers := 0\<rparr>) s'"
    using defer_stop[OF s1(1)] s1(2) F s0(6) by metis
  have P: "prstate (proctab s0 p) \<notin> {PR_FREE, PR_RECV}" if "p \<in> set (semq s k)" for p
    using that kqD(3)[OF V(1) I(4)[OF k]] qof_state[of s p "squeue (semtab s k)"] s0(5) by auto
  have "ksem s1"
  proof (rule ksem_upd[OF V(4,1) k])
    show "semtab s1 j = semtab s j \<and> semq s1 j = semq s j" if j: "sem_ok j" "j \<noteq> k" for j
      using s1(3)[OF j] klooseD(1)[OF fr, of "squeue (semtab s j)"] s0(7,9) I(4,5)[OF j(1)] I(7)[OF j(1) k] j(2) by simp
    show "sem_inv s1 k" using s1(4-6) by (auto simp: sem_inv_def)
  qed
  moreover have "kmsg s1" "kheap s1" "kstk s1" "kpend s1"
    using kmsg_kloose[OF s0(1) fr] P kheap_kloose[OF s0(2) fr] kstk_kloose[OF s0(3) fr] kpend_kloose[OF s0(4) fr] by blast+
  ultimately have "kinv s'"
    using kinv_kframe[OF _ _ _ _ _ _ _ s'(4,2,3), of "{}"] s1(1) by simp
  moreover have "semq s' k = []"
    using kframeD(1)[OF s'(4), of "squeue (semtab s k)"] kframe_fields[OF s'(4)] F s0(7,8) I(4,5)[OF k] s1(4,5) by simp
  moreover have "runnable (prstate (proctab s' p))" if "p \<in> set (semq s k)" for p
    using kframe_runnable[OF s'(4), of p] klooseD(5)[OF fr that] by simp
  ultimately show ?thesis using that[of s'] s'(1) kframe_fields[OF s'(4)] by simp
qed

theorem semreset_inv:
  assumes inv: "kinv s" and k: "sem_ok k" "sstate (semtab s k) = S_USED" and n: "0 \<le> n" "n < 2 ^ 31"
  shows "\<exists>s'. semreset k n s = Some (OK, s') \<and> kinv s' \<and> scount (semtab s' k) = n \<and>
    semq s' k = [] \<and> (\<forall>p \<in> set (semq s k). runnable (prstate (proctab s' p)))"
proof -
  note V = kinvD[OF inv] and I = kq_ids[OF kinvD(1)[OF inv]]
  let ?s0 = "s\<lparr>ndefers := 1, attempt := False\<rparr>" and ?q = "squeue (semtab s k)"
  obtain s1 where s1: "semreset_loop ?q ?s0 = Some s1" "kq {} s1" "eligible s1" "semtab s1 = semtab s"
    "qlist s1 ?q = []" "kloose {readylist s, ?q} (set (semq s k)) ?s0 s1"
    using semreset_loop_drain[of ?s0 ?q] V I(4,5)[OF k(1)] by auto
  let ?s2 = "s1\<lparr>semtab := (semtab s1)(k := (semtab s1 k)\<lparr>scount := n\<rparr>)\<rparr>"
  have kq2: "kq {} ?s2" by (rule kq_set_sem[OF s1(2)]) simp
  have fr: "kloose {readylist s, ?q} (set (semq s k)) ?s0 ?s2" using kloose_trans[OF s1(6) kloose_semtab] by simp
  obtain s' where s': "resched_cntl DEFER_STOP ?s2 = Some (OK, s')" "kinv s'" "semtab s' = semtab ?s2"
    "semq s' k = []" "\<And>p. p \<in> set (semq s k) \<Longrightarrow> runnable (prstate (proctab s' p))"
    by (rule drained_inv[OF inv k(1) fr]) (use V s1(3-5) kq2 n in auto)
  have "semreset k n s = Some (OK, s')"
    using k n s1(1) s'(1) defer_start[OF V(3)] by (simp add: semreset_def isbadsem_def range_simps Let_def)
  then show ?thesis using s' by auto
qed

theorem semdelete_inv:
  assumes inv: "kinv s" and k: "sem_ok k" "sstate (semtab s k) = S_USED"
  shows "\<exists>s'. semdelete k s = Some (OK, s') \<and> kinv s' \<and> sstate (semtab s' k) = S_FREE \<and>
    semq s' k = [] \<and> (\<forall>p \<in> set (semq s k). runnable (prstate (proctab s' p)))"
proof -
  note V = kinvD[OF inv] and I = kq_ids[OF kinvD(1)[OF inv]]
  note R = sem_count_range[OF V(1,4) k]
  let ?e = "(semtab s k)\<lparr>sstate := S_FREE\<rparr>" and ?q = "squeue (semtab s k)"
  let ?s0 = "s\<lparr>semtab := (semtab s)(k := ?e), ndefers := 1, attempt := False\<rparr>"
  have kq0: "kq {} ?s0" using kq_set_sem(1)[OF V(1), of ?e k] by simp
  have len: "int (length (semq s k)) = max 0 (- scount (semtab s k))"
    using ksemD[OF V(4) k(1)] k(2) unfolding sem_inv_def by (auto split: if_splits)
  have pre: "eligible ?s0" "ndefers ?s0 > 0" "scount (semtab ?s0 k) < 2 ^ 31"
    "int (length (semq ?s0 k)) = max 0 (- scount (semtab ?s0 k))" "scount (semtab ?s0 k) \<ge> - NPROC"
    "semq ?s0 k = semq s k" "{readylist ?s0, squeue (semtab ?s0 k)} = {readylist s, ?q}"
    using V(2) R(1,2) len by simp_all
  obtain s1 c where s1: "semdelete_loop k ?s0 = Some s1" "kq {} s1" "eligible s1"
    "semtab s1 = (semtab ?s0)(k := (semtab ?s0 k)\<lparr>scount := c\<rparr>)" "semq s1 k = []"
    "kloose {readylist s, ?q} (set (semq s k)) ?s0 s1"
    using semdelete_loop_drain[OF kq0 pre(1,2) k(1) pre(3-5)] unfolding pre(6,7) by blast
  obtain s' where s': "resched_cntl DEFER_STOP s1 = Some (OK, s')" "kinv s'" "semtab s' = semtab s1"
    "semq s' k = []" "\<And>p. p \<in> set (semq s k) \<Longrightarrow> runnable (prstate (proctab s' p))"
    by (rule drained_inv[OF inv k(1) s1(6)]) (use V s1(2-5) in auto)
  have "semdelete k s = Some (OK, s')"
    using k s1(1) s'(1) V(3) by (simp add: semdelete_def isbadsem_def range_simps resched_cntl_def s32_id)
  then show ?thesis using s' s1(4) by auto
qed


section \<open>semcreate\<close>

lemma newsem_loop_spec:
  assumes "0 \<le> nextsem s" "nextsem s < NSEM"
  shows "\<exists>r s' nx. newsem_loop i s = Some (r, s') \<and> 0 \<le> nx \<and> nx < NSEM \<and>
    (r = SYSERR \<and> s' = s\<lparr>nextsem := nx\<rparr> \<and>
       (\<forall>j. 0 \<le> j \<longrightarrow> j < int i \<longrightarrow> sstate (semtab s ((nextsem s + j) mod NSEM)) = S_USED) \<or>
     sem_ok r \<and> sstate (semtab s r) = S_FREE \<and>
       s' = s\<lparr>nextsem := nx, semtab := (semtab s)(r := (semtab s r)\<lparr>sstate := S_USED\<rparr>)\<rparr>)"
  using assms
proof (induction i arbitrary: s)
  case 0
  have "newsem_loop 0 s = Some (SYSERR, s)" "s = s\<lparr>nextsem := nextsem s\<rparr>" by simp_all
  moreover have "\<forall>j. 0 \<le> j \<longrightarrow> j < int 0 \<longrightarrow> sstate (semtab s ((nextsem s + j) mod NSEM)) = S_USED" by simp
  ultimately show ?case using 0 by blast
next
  case (Suc i)
  let ?nx = "if nextsem s + 1 \<ge> NSEM then 0 else nextsem s + 1"
  have nx: "?nx = (nextsem s + 1) mod NSEM"
  proof (cases "nextsem s + 1 \<ge> NSEM")
    case True
    then have "nextsem s + 1 = NSEM" using Suc.prems by simp
    then show ?thesis by simp
  next
    case False
    then show ?thesis using Suc.prems by simp
  qed
  have nxr: "0 \<le> ?nx" "?nx < NSEM" using Suc.prems by auto
  show ?case
  proof (cases "sstate (semtab s (nextsem s))")
    case S_FREE
    then have "newsem_loop (Suc i) s = Some (nextsem s,
        s\<lparr>nextsem := ?nx, semtab := (semtab s)(nextsem s := (semtab s (nextsem s))\<lparr>sstate := S_USED\<rparr>)\<rparr>)"
      using Suc.prems by (simp add: Let_def range_simps del: if_split split del: if_split)
    then show ?thesis using S_FREE Suc.prems nxr by blast
  next
    case S_USED
    let ?s = "s\<lparr>nextsem := ?nx\<rparr>"
    have step: "newsem_loop (Suc i) s = newsem_loop i ?s"
      using S_USED Suc.prems by (simp add: Let_def range_simps)
    have "0 \<le> nextsem ?s" "nextsem ?s < NSEM" using nxr by simp_all
    from Suc.IH[OF this] obtain r s' nx' where IH: "newsem_loop i ?s = Some (r, s')" "0 \<le> nx'" "nx' < NSEM"
      "r = SYSERR \<and> s' = ?s\<lparr>nextsem := nx'\<rparr> \<and>
       (\<forall>j. 0 \<le> j \<longrightarrow> j < int i \<longrightarrow> sstate (semtab ?s ((nextsem ?s + j) mod NSEM)) = S_USED) \<or>
       sem_ok r \<and> sstate (semtab ?s r) = S_FREE \<and>
       s' = ?s\<lparr>nextsem := nx', semtab := (semtab ?s)(r := (semtab ?s r)\<lparr>sstate := S_USED\<rparr>)\<rparr>" by blast
    have all: "sstate (semtab s ((nextsem s + j) mod NSEM)) = S_USED"
      if h: "\<forall>j. 0 \<le> j \<longrightarrow> j < int i \<longrightarrow> sstate (semtab s ((?nx + j) mod NSEM)) = S_USED" and j: "0 \<le> j" "j < int (Suc i)" for j
    proof (cases "j = 0")
      case True
      then show ?thesis using S_USED Suc.prems by simp
    next
      case False
      then have "sstate (semtab s ((?nx + (j - 1)) mod NSEM)) = S_USED" using h j by simp
      moreover have "(?nx + (j - 1)) mod NSEM = (nextsem s + j) mod NSEM" unfolding nx by (simp add: mod_simps)
      ultimately show ?thesis by simp
    qed
    from IH(4) show ?thesis
    proof
      assume "r = SYSERR \<and> s' = ?s\<lparr>nextsem := nx'\<rparr> \<and>
       (\<forall>j. 0 \<le> j \<longrightarrow> j < int i \<longrightarrow> sstate (semtab ?s ((nextsem ?s + j) mod NSEM)) = S_USED)"
      then have "r = SYSERR" "s' = s\<lparr>nextsem := nx'\<rparr>"
        "\<forall>j. 0 \<le> j \<longrightarrow> j < int (Suc i) \<longrightarrow> sstate (semtab s ((nextsem s + j) mod NSEM)) = S_USED"
        using all by simp_all
      then show ?thesis using step IH(1-3) by metis
    next
      assume "sem_ok r \<and> sstate (semtab ?s r) = S_FREE \<and>
       s' = ?s\<lparr>nextsem := nx', semtab := (semtab ?s)(r := (semtab ?s r)\<lparr>sstate := S_USED\<rparr>)\<rparr>"
      then have "sem_ok r" "sstate (semtab s r) = S_FREE"
        "s' = s\<lparr>nextsem := nx', semtab := (semtab s)(r := (semtab s r)\<lparr>sstate := S_USED\<rparr>)\<rparr>" by simp_all
      then show ?thesis using step IH(1-3) by metis
    qed
  qed
qed

text \<open>The search starts anywhere, so a full turn visits every semaphore.\<close>

lemma full_turn:
  assumes "0 \<le> a" "a < NSEM" "\<forall>j. 0 \<le> j \<longrightarrow> j < NSEM \<longrightarrow> P ((a + j) mod NSEM)" "sem_ok k"
  shows "P k"
proof -
  have "(a + (k - a) mod NSEM) mod NSEM = k" using assms(4) by (simp add: mod_simps)
  moreover have "0 \<le> (k - a) mod NSEM" "(k - a) mod NSEM < NSEM" by simp_all
  ultimately show ?thesis using assms(3) by metis
qed

theorem semcreate_inv:
  assumes inv: "kinv s" and n: "0 \<le> n" "n < 2 ^ 31"
  shows "\<exists>r s'. semcreate n s = Some (r, s') \<and> kinv s' \<and>
    (if \<exists>k. sem_ok k \<and> sstate (semtab s k) = S_FREE
     then sem_ok r \<and> sstate (semtab s r) = S_FREE \<and> sstate (semtab s' r) = S_USED \<and>
       scount (semtab s' r) = n \<and> semq s' r = [] \<and> (\<forall>j. j \<noteq> r \<longrightarrow> semtab s' j = semtab s j)
     else r = SYSERR \<and> semtab s' = semtab s)"
proof -
  note V = kinvD[OF inv]
  have nx: "0 \<le> nextsem s" "nextsem s < NSEM" using V(8) by (auto simp: kpend_def)
  obtain r s1 nx where L: "newsem s = Some (r, s1)" "0 \<le> nx" "nx < NSEM"
    "r = SYSERR \<and> s1 = s\<lparr>nextsem := nx\<rparr> \<and>
       (\<forall>j. 0 \<le> j \<longrightarrow> j < NSEM \<longrightarrow> sstate (semtab s ((nextsem s + j) mod NSEM)) = S_USED) \<or>
     sem_ok r \<and> sstate (semtab s r) = S_FREE \<and>
       s1 = s\<lparr>nextsem := nx, semtab := (semtab s)(r := (semtab s r)\<lparr>sstate := S_USED\<rparr>)\<rparr>"
    using newsem_loop_spec[OF nx, of "nat NSEM"] unfolding newsem_def by auto
  have pend: "kpend (s\<lparr>nextsem := nx\<rparr>)" using V(8) L(2,3) by (simp add: kpend_def)
  from L(4) show ?thesis
  proof
    assume A: "r = SYSERR \<and> s1 = s\<lparr>nextsem := nx\<rparr> \<and>
       (\<forall>j. 0 \<le> j \<longrightarrow> j < NSEM \<longrightarrow> sstate (semtab s ((nextsem s + j) mod NSEM)) = S_USED)"
    then have "semcreate n s = Some (SYSERR, s1)" using n L(1) by (simp add: semcreate_def)
    moreover have "kinv s1" unfolding kinv_def using A V pend by simp
    moreover have "sstate (semtab s k) = S_USED" if "sem_ok k" for k
      by (rule full_turn[OF nx _ that]) (use A in simp)
    ultimately show ?thesis using A by auto
  next
    assume A: "sem_ok r \<and> sstate (semtab s r) = S_FREE \<and>
       s1 = s\<lparr>nextsem := nx, semtab := (semtab s)(r := (semtab s r)\<lparr>sstate := S_USED\<rparr>)\<rparr>"
    let ?e = "(semtab s r)\<lparr>sstate := S_USED, scount := n\<rparr>"
    let ?s = "s\<lparr>nextsem := nx, semtab := (semtab s)(r := ?e)\<rparr>"
    have emp: "semq s r = []" using ksemD[OF V(4)] A by (simp add: sem_inv_def)
    have "semcreate n s = Some (r, ?s)" using n L(1) A by (simp add: semcreate_def range_simps)
    moreover have "kq {} ?s" using kq_set_sem(1)[of "{}" "s\<lparr>nextsem := nx\<rparr>" ?e r] V(1) by simp
    moreover have "ksem ?s"
      by (rule ksem_upd[OF V(4,1), of r]) (use A emp n in \<open>simp_all add: sem_inv_def\<close>)
    ultimately have "semcreate n s = Some (r, ?s) \<and> kinv ?s" unfolding kinv_def using V pend by simp
    then show ?thesis using A emp by auto
  qed
qed

end
