(* ===== verification/Clock.thy ===== *)
theory Clock
  imports Semaphore
begin

text \<open>
  Timed delays: \<^verbatim>\<open>system/sleep.c\<close>, \<^verbatim>\<open>system/unsleep.c\<close>, \<^verbatim>\<open>system/wakeup.c\<close> and the clock interrupt
  handler \<^verbatim>\<open>system/clkhandler.c\<close>. The sleep queue is a delta list: the key of a sleeping process
  is its delay after the process in front of it.
\<close>

section \<open>Operations\<close>

definition unsleep :: "int \<Rightarrow> 'z kstate_scheme \<Rightarrow> (int \<times> 'z kstate_scheme) option" where
  "unsleep pid s =
     (if isbadpid pid s then Some (SYSERR, s)
      else do {
        prptr \<leftarrow> pr_rd pid s;
        if prstate prptr \<noteq> PR_SLEEP \<and> prstate prptr \<noteq> PR_RECTIM then Some (SYSERR, s)
        else do {
          e \<leftarrow> q_rd (queuetab s) pid;
          let pidnext = qnext e;
          t \<leftarrow> (if pidnext < NPROC
                then do { f \<leftarrow> q_rd (queuetab s) pidnext; set_qkey pidnext (qkey f + qkey e) (queuetab s) }
                else Some (queuetab s));
          (_, t) \<leftarrow> getitem pid t;
          Some (OK, s\<lparr>queuetab := t\<rparr>) } })"

text \<open>The delay is a \<open>uint32\<close> that \<open>insertd\<close> takes as an \<open>int32\<close>.\<close>

definition sleepms :: "uint32 \<Rightarrow> 'z kstate_scheme \<Rightarrow> (int \<times> 'z kstate_scheme) option" where
  "sleepms delay s =
     (if delay = 0 then do { (_, s) \<leftarrow> yield s; Some (OK, s) }
      else do {
        (r, s) \<leftarrow> insertd (currpid s) (sleepq s) (sint delay) s;
        if r = SYSERR then Some (SYSERR, s)
        else do {
          s \<leftarrow> pr_upd (currpid s) (\<lambda>e. e\<lparr>prstate := PR_SLEEP\<rparr>) s;
          s \<leftarrow> resched s;
          Some (OK, s) } })"

abbreviation (input) MAXSECONDS :: uint32 where "MAXSECONDS \<equiv> 4294967"

definition sleep :: "uint32 \<Rightarrow> 'z kstate_scheme \<Rightarrow> (int \<times> 'z kstate_scheme) option" where
  "sleep delay s =
     (if delay > MAXSECONDS then Some (SYSERR, s)
      else do { (_, s) \<leftarrow> sleepms (1000 * delay) s; Some (OK, s) })"

partial_function (option) wakeup_loop :: "'z kstate_scheme \<Rightarrow> 'z kstate_scheme option" where
  "wakeup_loop s =
     (case nonempty (queuetab s) (sleepq s) of
        None \<Rightarrow> None
      | Some b \<Rightarrow>
        (case (if b then firstkey (queuetab s) (sleepq s) else Some 1) of
           None \<Rightarrow> None
         | Some k \<Rightarrow>
           if b \<and> k \<le> 0 then
             (case on_qtab (dequeue (sleepq s)) s of
                None \<Rightarrow> None
              | Some (pid, s) \<Rightarrow> (case ready pid s of None \<Rightarrow> None | Some (_, s) \<Rightarrow> wakeup_loop s))
           else Some s))"

definition wakeup :: "'z kstate_scheme \<Rightarrow> 'z kstate_scheme option" where
  "wakeup s = do {
     (_, s) \<leftarrow> resched_cntl DEFER_START s;
     s \<leftarrow> wakeup_loop s;
     (_, s) \<leftarrow> resched_cntl DEFER_STOP s;
     Some s }"

text \<open>
  \<open>clkhandler\<close>. \<open>ovf\<close> is the overflow flag of the timer. When \<open>wakeup\<close> releases a process it
  may give up the processor, so the code after it, \<open>clkhandler_rest\<close>, is pending for the
  interrupted process.
\<close>

definition clkhandler_rest :: "'z kstate_scheme \<Rightarrow> 'z kstate_scheme option" where
  "clkhandler_rest s =
     (let s = s\<lparr>preempt := preempt s - 1\<rparr> in
      if preempt s = 0 then resched (s\<lparr>preempt := QUANTUM\<rparr>) else Some s)"

definition clock_count :: "'z kstate_scheme \<Rightarrow> 'z kstate_scheme" where
  "clock_count s =
     (let s = s\<lparr>count1000 := count1000 s - 1\<rparr> in
      if count1000 s = 0 then s\<lparr>clktime := clktime s + 1, count1000 := 1000\<rparr> else s)"

definition clkhandler :: "bool \<Rightarrow> 'z kstate_scheme \<Rightarrow> (unit outcome \<times> 'z kstate_scheme) option" where
  "clkhandler ovf s =
     (if \<not> ovf then Some (Done (), s)
      else do {
        let s = clock_count s;
        emp \<leftarrow> isempty (queuetab s) (sleepq s);
        if \<not> emp then do {
          f \<leftarrow> firstid (queuetab s) (sleepq s);
          e \<leftarrow> q_rd (queuetab s) f;
          t \<leftarrow> set_qkey f (qkey e - 1) (queuetab s);
          let s = s\<lparr>queuetab := t\<rparr>;
          e \<leftarrow> q_rd (queuetab s) f;
          if qkey e = 0
          then do {
            let s = s\<lparr>pkont := (pkont s)(currpid s := Some K_clkhandler)\<rparr>;
            s \<leftarrow> wakeup s;
            Some (Pending, s) }
          else do { s \<leftarrow> clkhandler_rest s; Some (Done (), s) } }
        else do { s \<leftarrow> clkhandler_rest s; Some (Done (), s) } })"

section \<open>Removal from the sleep queue\<close>

lemma kq_key_upd:
  assumes kq: "kq F s" and p: "p < NPROC" "p \<notin> set (rdy s)"
  shows "kq F (s\<lparr>queuetab := (queuetab s)(p := (queuetab s p)\<lparr>qkey := v\<rparr>)\<rparr>)"
    "\<And>q. qid_ok (nextqid s) q \<Longrightarrow>
      queue_of ((queuetab s)(p := (queuetab s p)\<lparr>qkey := v\<rparr>)) q = qlist s q"
proof -
  let ?t = "(queuetab s)(p := (queuetab s p)\<lparr>qkey := v\<rparr>)"
  note K = kqD[OF kq]
  have rep: "qrep (nextqid s) ?t (qlist s)" by (rule qrep_key_upd[OF K(1) p(1)])
  have "sorted_wrt (\<lambda>a b. qkey (?t a) \<ge> qkey (?t b)) xs"
    if "p \<notin> set xs" "sorted_wrt (\<lambda>a b. qkey (queuetab s a) \<ge> qkey (queuetab s b)) xs" for xs
    using that by (induction xs) auto
  then show "kq F (s\<lparr>queuetab := ?t\<rparr>)" by (intro kq_set_qtab[OF kq rep]) (use K(3,6) p(2) in auto)
  show "queue_of ?t q = qlist s q" if "qid_ok (nextqid s) q" for q by (rule qrep_queue_of[OF rep that])
qed


section \<open>Insertion into the sleep queue\<close>

lemma upd_comm: "s\<lparr>proctab := a, queuetab := b\<rparr> = s\<lparr>queuetab := b, proctab := a\<rparr>"
  by (rule kstate.equality) simp_all

lemma insertd_sleep:
  assumes kq: "kq {p} s" and p: "pid_ok p" "prstate (proctab s p) \<noteq> PR_FREE" "p \<noteq> NULLPROC"
    and e: "prstate e \<in> {PR_SLEEP, PR_RECTIM}" "prio_ok (prprio e)" and k: "MINKEY \<le> k" "k \<le> MAXKEY"
  obtains t where "insertd p (sleepq s) k s = Some (OK, s\<lparr>queuetab := t\<rparr>)"
    "kq {} (s\<lparr>queuetab := t, proctab := (proctab s)(p := e)\<rparr>)"
    "deltas t (queue_of t (sleepq s)) = delta_insert p k (deltas (queuetab s) (slp s))"
    "set (queue_of t (sleepq s)) = insert p (set (slp s))"
    "\<And>q. qid_ok (nextqid s) q \<Longrightarrow> q \<noteq> sleepq s \<Longrightarrow> queue_of t q = qlist s q"
    "\<And>i. i \<noteq> p \<Longrightarrow> i \<notin> set (slp s) \<Longrightarrow> qkey (t i) = qkey (queuetab s i)"
proof -
  note K = kqD[OF kq] and I = kq_ids[OF kq]
  have nq: "p \<notin> queued (nextqid s) (qlist s)" by (rule kq_not_queued[OF kq]) simp
  obtain t xs where t: "insertd_links p (sleepq s) k (queuetab s) = Some t"
    "qrep (nextqid s) t ((qlist s)(sleepq s := xs))" "set xs = insert p (set (slp s))"
    "deltas t xs = delta_insert p k (deltas (queuetab s) (slp s))"
    "\<forall>i. i \<notin> insert p (set (slp s)) \<longrightarrow> qkey (t i) = qkey (queuetab s i)"
    using insertd_links_deltas[OF K(1) I(2) _ _ nq k] p(1) by blast
  have q: "queue_of t q = ((qlist s)(sleepq s := xs)) q" if "qid_ok (nextqid s) q" for q
    by (rule qrep_queue_of[OF t(2) that])
  let ?s0 = "s\<lparr>proctab := (proctab s)(p := e)\<rparr>"
  have kq0: "kq {p} ?s0" by (rule kq_set_proc[OF kq p(1)]) (use e p(3) in auto)
  have qp: "qof ?s0 p = Some (sleepq s)" using e(1) by (auto simp: qof_def)
  have sl: "slp s = qlist ?s0 (sleepq s)" by simp
  have "kq {} (?s0\<lparr>queuetab := t\<rparr>)"
  proof (rule kq_set_qtab[OF kq0])
    show "qrep (nextqid ?s0) t ((qlist s)(sleepq s := xs))" using t(2) by simp
    fix r assume r: "qid_ok (nextqid ?s0) r"
    note K0 = kqD(3)[OF kq0 r]
    show "set (((qlist s)(sleepq s := xs)) r) = {x. pid_ok x \<and> x \<notin> {} \<and> qof ?s0 x = Some r}"
    proof (cases "r = sleepq s")
      case True
      then show ?thesis using K0 qp p(1) t(3) by auto
    next
      case False
      then have "qof ?s0 p \<noteq> Some r" using qp by simp
      then show ?thesis using K0 False by auto
    qed
  next
    have "sorted_wrt (\<lambda>a b. qkey (t a) \<ge> qkey (t b)) (rdy s)"
    proof -
      have "x \<notin> insert p (set (slp s))" if "x \<in> set (rdy s)" for x
        using that K(3)[OF I(1)] K(3)[OF I(2)] I(3) by auto
      then have "qkey (t x) = qkey (queuetab s x)" if "x \<in> set (rdy s)" for x using that t(5) by blast
      then show ?thesis using K(6) sorted_wrt_mono_rel[of "rdy s" "\<lambda>a b. qkey (queuetab s a) \<ge> qkey (queuetab s b)"]
        by auto
    qed
    then show "sorted_wrt (\<lambda>a b. qkey (t a) \<ge> qkey (t b)) (((qlist s)(sleepq s := xs)) (readylist ?s0))"
      using I(3) by simp
  qed
  then have "kq {} (s\<lparr>queuetab := t, proctab := (proctab s)(p := e)\<rparr>)" by (simp only: upd_comm)
  moreover have "insertd p (sleepq s) k s = Some (OK, s\<lparr>queuetab := t\<rparr>)"
    using t(1) p isbadqid_ok[OF K(1) I(2)] by (simp add: insertd_def isbadpid_def)
  ultimately show ?thesis using that t(3-5) q I(2) by auto
qed

text \<open>A process goes to sleep: it joins the delta list and another process runs.\<close>

lemma sint_range: "MINKEY \<le> sint (d :: uint32)" "sint (d :: uint32) \<le> MAXKEY"
  using sint_ge[of d] sint_lt[of d] by simp_all

lemma kloose_setup:
  assumes "kq {} s" "eligible s"
  shows "kq {currpid s} s" "pid_ok (currpid s)" "prstate (proctab s (currpid s)) \<noteq> PR_FREE"
  using assms kq_float[OF assms(1) eligible_pid[OF assms]] kqD(7)[OF assms(1)] by (auto simp: eligible_def)

theorem sleepms_inv:
  assumes inv: "kinv s" and cur: "currpid s \<noteq> NULLPROC" and d: "d \<noteq> 0"
  shows "\<exists>s'. sleepms d s = Some (OK, s') \<and> kinv s' \<and> prstate (proctab s' (currpid s)) = PR_SLEEP \<and>
    deltas (queuetab s') (slp s') = delta_insert (currpid s) (sint d) (deltas (queuetab s) (slp s)) \<and>
    currpid s' = hd (rdy s) \<and> rdy s' = tl (rdy s)"
proof -
  note V = kinvD[OF inv] and I = kq_ids[OF kinvD(1)[OF inv]] and S = kloose_setup[OF kinvD(1,2)[OF inv]]
  let ?c = "currpid s" and ?e = "(proctab s (currpid s))\<lparr>prstate := PR_SLEEP\<rparr>"
  have e: "prstate ?e \<in> {PR_SLEEP, PR_RECTIM}" "prio_ok (prprio ?e)" using kqD(4)[OF V(1) S(2)] by simp_all
  from insertd_sleep[OF S cur e sint_range, of d] obtain t where
    t: "insertd ?c (sleepq s) (sint d) s = Some (OK, s\<lparr>queuetab := t\<rparr>)"
    "kq {} (s\<lparr>queuetab := t, proctab := (proctab s)(?c := ?e)\<rparr>)"
    "deltas t (queue_of t (sleepq s)) = delta_insert ?c (sint d) (deltas (queuetab s) (slp s))"
    "\<And>q. qid_ok (nextqid s) q \<Longrightarrow> q \<noteq> sleepq s \<Longrightarrow> queue_of t q = qlist s q" by metis
  let ?s1 = "s\<lparr>queuetab := t, proctab := (proctab s)(?c := ?e)\<rparr>"
  obtain s' where s': "resched ?s1 = Some s'" "kq {} s'" "eligible s'" "kframe {} ?s1 s'"
    "(currpid s', rdy s') = sched_pick ?s1"
    using resched_rep[OF t(2)] V(3) by auto
  have run: "sleepms d s = Some (OK, s')"
    using d t(1) s'(1) S(2) by (simp add: sleepms_def range_simps)
  have sq: "semq ?s1 k = semq s k" if "sem_ok k" for k using t(4) I(4,6)[OF that] by simp
  have "ksem ?s1" unfolding ksem_def
    using sem_inv_cong[OF ksemD[OF V(4)], where s' = ?s1] sq by simp
  moreover have "kmsg ?s1"
    using kmsg_set_proc[of "s\<lparr>queuetab := t\<rparr>" ?c ?e] V(2,5) by (simp add: msg_inv_def eligible_def)
  moreover have "kstk ?s1" using kstk_set_proc[of "s\<lparr>queuetab := t\<rparr>" ?c ?e] V(7) by simp
  ultimately have "kinv s'" using kinv_kframe[OF _ _ _ _ _ t(2) _ s'(4,2,3)] V(3,6,8) by simp
  moreover have slp: "slp s' = queue_of t (sleepq s)"
    using kframeD(1)[OF s'(4), of "sleepq s"] kframe_fields[OF s'(4)] I(2,3) by simp
  moreover have "deltas (queuetab s') (queue_of t (sleepq s)) = deltas t (queue_of t (sleepq s))"
  proof -
    have "qkey (queuetab s' x) = qkey (t x)" if "x \<in> set (queue_of t (sleepq s))" for x
    proof -
      have "qof ?s1 x = Some (sleepq s)" using kqD(3)[OF t(2), of "sleepq s"] that I(2) by simp
      then have "\<not> runnable (prstate (proctab ?s1 x))" using I(3) by (auto simp: qof_def)
      then show ?thesis using kframeD(2)[OF s'(4), of x] by simp
    qed
    then show ?thesis by (simp add: deltas_def)
  qed
  moreover have "prstate (proctab s' ?c) = PR_SLEEP" using kframeD(4)[OF s'(4), of ?c] by auto
  moreover have "rdy ?s1 = rdy s" using t(4)[of "readylist s"] I(1,3) by simp
  then have "sched_pick ?s1 = (hd (rdy s), tl (rdy s))" by (simp add: sched_pick_def eligible_def Let_def)
  ultimately show ?thesis using run s'(5) t(3) by simp
qed


theorem yield_inv:
  assumes inv: "kinv s"
  shows "\<exists>s'. yield s = Some (OK, s') \<and> kinv s' \<and> (currpid s', rdy s') = sched_pick s \<and> kframe {} s s'"
proof -
  note V = kinvD[OF inv]
  obtain s' where s': "resched s = Some s'" "kq {} s'" "eligible s'" "kframe {} s s'"
    "(currpid s', rdy s') = sched_pick s"
    using resched_rep[OF V(1)] V(3) by auto
  have "kinv s'" by (rule kinv_kframe[OF V(4-8) V(1) V(3) s'(4,2,3)]) simp
  then show ?thesis using s' by (simp add: yield_def)
qed

section \<open>unsleep\<close>

text \<open>Leaving the delta list early: the next process inherits the delay.\<close>

fun delta_remove :: "int \<Rightarrow> (int \<times> int) list \<Rightarrow> (int \<times> int) list" where
  "delta_remove p [] = []"
| "delta_remove p ((x, d) # xs) =
     (if x = p then (case xs of [] \<Rightarrow> [] | (y, e) # ys \<Rightarrow> (y, s32 (e + d)) # ys)
      else (x, d) # delta_remove p xs)"

lemma delta_remove_split:
  assumes "p \<notin> set ys" "distinct (ys @ p # zs)"
    and "\<And>i. g i = (if zs \<noteq> [] \<and> i = hd zs then s32 (f i + f p) else f i)"
  shows "map (\<lambda>x. (x, g x)) (ys @ zs) = delta_remove p (map (\<lambda>x. (x, f x)) (ys @ p # zs))"
  using assms(1,2)
proof (induction ys)
  case Nil
  then show ?case using assms(3) by (cases zs) auto
next
  case (Cons y ys)
  then have "zs = [] \<or> y \<noteq> hd zs" by (cases zs) auto
  then show ?case using Cons assms(3)[of y] by auto
qed

lemma unsleep_kq:
  assumes kq: "kq {} s" and p: "pid_ok p" "prstate (proctab s p) \<in> {PR_SLEEP, PR_RECTIM}"
  obtains t where "unsleep p s = Some (OK, s\<lparr>queuetab := t\<rparr>)" "kq {p} (s\<lparr>queuetab := t\<rparr>)"
    "\<And>q. qid_ok (nextqid s) q \<Longrightarrow> queue_of t q = ((qlist s)(sleepq s := remove1 p (slp s))) q"
    "deltas t (queue_of t (sleepq s)) = delta_remove p (deltas (queuetab s) (slp s))"
    "\<And>i. i \<notin> set (slp s) \<Longrightarrow> qkey (t i) = qkey (queuetab s i)"
proof -
  note K = kqD[OF kq] and I = kq_ids[OF kq]
  have qp: "qof s p = Some (sleepq s)" using p(2) by (auto simp: qof_def)
  then have "p \<in> set (slp s)" using K(3)[OF I(2)] p(1) by simp
  then obtain ys zs where Q: "slp s = ys @ p # zs" "p \<notin> set ys" by (meson split_list_first)
  have dist: "distinct (ys @ p # zs)" using qrepD(2)[OF K(1) I(2)] Q by simp
  have Qs: "slp s = (ys @ [p]) @ zs" using Q by simp
  have nx: "qnext (queuetab s p) = hd (zs @ [sleepq s + 1])"
    using qrep_neighbours[OF K(1) I(2) Qs refl refl] by simp
  define t1 where "t1 = (if zs = [] then queuetab s else (queuetab s)(hd zs := (queuetab s (hd zs))
      \<lparr>qkey := s32 (qkey (queuetab s (hd zs)) + qkey (queuetab s p))\<rparr>))"
  have hz: "hd zs \<in> set (slp s)" if "zs \<noteq> []" using that Q by simp
  have hzr: "pid_ok (hd zs)" "hd zs \<notin> set (rdy s)" if "zs \<noteq> []"
    using K(3)[OF I(2)] K(3)[OF I(1)] hz[OF that] I(3) by auto
  have kq1: "kq {} (s\<lparr>queuetab := t1\<rparr>)" and q1: "\<And>q. qid_ok (nextqid s) q \<Longrightarrow> queue_of t1 q = qlist s q"
    using kq kq_key_upd[OF kq, of "hd zs"] hzr by (cases "zs = []"; simp add: t1_def)+
  have qp1: "qof (s\<lparr>queuetab := t1\<rparr>) p = Some (sleepq s)" using qp by simp
  from getitem_kq[OF kq1 p(1) qp1] obtain t where t: "getitem p t1 = Some (p, t)" "kq {p} (s\<lparr>queuetab := t\<rparr>)"
    "\<forall>r. qid_ok (nextqid s) r \<longrightarrow> queue_of t r = ((queue_of t1)(sleepq s := remove1 p (queue_of t1 (sleepq s)))) r"
    "\<forall>i. qkey (t i) = qkey (t1 i)" by auto
  have slt: "queue_of t (sleepq s) = ys @ zs" using t(3) q1[OF I(2)] I(2) Q by (simp add: remove1_split)
  have "unsleep p s = Some (OK, s\<lparr>queuetab := t\<rparr>)"
  proof (cases "zs = []")
    case True
    have "sleepq s + 1 \<ge> NPROC" using qrepD(6)[OF K(1) I(2)] by simp
    then show ?thesis using p t(1) nx True
      by (auto simp: unsleep_def isbadpid_def range_simps t1_def)
  next
    case False
    then have "qnext (queuetab s p) = hd zs" using nx by (cases zs) auto
    then show ?thesis using p t(1) False hzr[OF False]
      by (auto simp: unsleep_def isbadpid_def range_simps t1_def)
  qed
  moreover have "queue_of t q = ((qlist s)(sleepq s := remove1 p (slp s))) q" if "qid_ok (nextqid s) q" for q
    using t(3) q1 that I(2) by auto
  moreover have "deltas t (queue_of t (sleepq s)) = delta_remove p (deltas (queuetab s) (slp s))"
    unfolding slt deltas_def Q(1)
    by (rule delta_remove_split[OF Q(2) dist]) (use t(4) in \<open>auto simp: t1_def\<close>)
  moreover have "qkey (t i) = qkey (queuetab s i)" if "i \<notin> set (slp s)" for i
    using t(4) hz that by (auto simp: t1_def)
  ultimately show ?thesis using that t(2) by blast
qed

section \<open>wakeup\<close>

lemma wakeup_loop_run:
  assumes "kq {} s" "eligible s" "ndefers s > 0"
  shows "\<exists>s'. wakeup_loop s = Some s' \<and> kq {} s' \<and> eligible s' \<and> semtab s' = semtab s \<and>
    slp s' = dropWhile (\<lambda>x. qkey (queuetab s x) \<le> 0) (slp s) \<and>
    kloose {readylist s, sleepq s} (set (takeWhile (\<lambda>x. qkey (queuetab s x) \<le> 0) (slp s))) s s'"
  using assms
proof (induction "slp s" arbitrary: s)
  case Nil
  note K = kqD[OF Nil.prems(1)] and I = kq_ids[OF Nil.prems(1)]
  have "wakeup_loop s = Some s"
    using nonempty_rep[OF K(1) I(2)] Nil.hyps by (subst wakeup_loop.simps) simp
  moreover have "kloose X {} s s" for X unfolding kloose_def by simp
  ultimately show ?case using Nil.prems Nil.hyps[symmetric] by simp
next
  case (Cons p ps)
  note Q = Cons.hyps(2)[symmetric]
  note K = kqD[OF Cons.prems(1)] and I = kq_ids[OF Cons.prems(1)]
  have ne: "nonempty (queuetab s) (sleepq s) = Some True" using nonempty_rep[OF K(1) I(2)] Q by simp
  have fk: "firstkey (queuetab s) (sleepq s) = Some (qkey (queuetab s p))" using firstkey_rep[OF K(1) I(2)] Q by simp
  show ?case
  proof (cases "qkey (queuetab s p) \<le> 0")
    case False
    then have "wakeup_loop s = Some s" using ne fk by (subst wakeup_loop.simps) simp
    moreover have "kloose X {} s s" for X unfolding kloose_def by simp
    ultimately show ?thesis using Cons.prems False Q by simp
  next
    case True
    obtain t where t: "dequeue (sleepq s) (queuetab s) = Some (p, t)" "unqueued (sleepq s) p ps s t"
      by (rule dequeue_unqueued[OF Cons.prems(1) I(2) Q])
    obtain s1 where s1: "ready p (s\<lparr>queuetab := t\<rparr>) = Some (OK, s1)" "kq {} s1" "eligible s1"
      "kloose {readylist s, sleepq s} {p} s s1" "semtab s1 = semtab s" "qlist s1 (sleepq s) = ps"
      using release_deferred[OF Cons.prems(2,3) I(2) I(3)[symmetric] t(2)] by metis
    note F = kloose_fields[OF s1(4)]
    have keys: "qkey (queuetab s1 x) = qkey (queuetab s x)" if "x \<in> set ps" for x
    proof -
      have "x \<noteq> p" using that qrepD(2)[OF K(1) I(2)] Q by auto
      moreover have "qof s x = Some (sleepq s)" using that K(3)[OF I(2)] Q by auto
      then have "\<not> runnable (prstate (proctab s x))" using I(3) by (auto simp: qof_def)
      ultimately show ?thesis using klooseD(2)[OF s1(4), of x] by simp
    qed
    have tw: "takeWhile (\<lambda>x. qkey (queuetab s1 x) \<le> 0) ps = takeWhile (\<lambda>x. qkey (queuetab s x) \<le> 0) ps"
      "dropWhile (\<lambda>x. qkey (queuetab s1 x) \<le> 0) ps = dropWhile (\<lambda>x. qkey (queuetab s x) \<le> 0) ps"
      using keys by (auto intro!: takeWhile_cong dropWhile_cong)
    have ps: "ps = slp s1" using s1(6) F by simp
    from Cons.hyps(1)[OF this s1(2,3)] obtain s' where s': "wakeup_loop s1 = Some s'" "kq {} s'" "eligible s'"
      "semtab s' = semtab s1" "slp s' = dropWhile (\<lambda>x. qkey (queuetab s1 x) \<le> 0) ps"
      "kloose {readylist s1, sleepq s1} (set (takeWhile (\<lambda>x. qkey (queuetab s1 x) \<le> 0) ps)) s1 s'"
      using Cons.prems(3) F ps by auto
    have "wakeup_loop s = Some s'"
      using ne fk True on_qtab_Some[of "dequeue (sleepq s)" s, OF t(1)] s1(1) s'(1) by (subst wakeup_loop.simps) simp
    moreover have "kloose {readylist s, sleepq s} ({p} \<union> set (takeWhile (\<lambda>x. qkey (queuetab s x) \<le> 0) ps)) s s'"
      by (rule kloose_trans[OF s1(4)]) (use s'(6) F tw in simp)
    ultimately show ?thesis using s' s1(5) Q True tw by simp
  qed
qed


section \<open>clkhandler\<close>

lemma sleeper_state:
  assumes "kq F s" "x \<in> set (slp s)"
  shows "prstate (proctab s x) = PR_SLEEP \<or> prstate (proctab s x) = PR_RECTIM" "pid_ok x" "x \<notin> F" "x \<notin> set (rdy s)"
proof -
  note I = kq_ids[OF assms(1)]
  have x: "pid_ok x \<and> x \<notin> F \<and> qof s x = Some (sleepq s)" using kqD(3)[OF assms(1) I(2)] assms(2) by simp
  then show "pid_ok x" "x \<notin> F" by simp_all
  show "prstate (proctab s x) = PR_SLEEP \<or> prstate (proctab s x) = PR_RECTIM"
    using x I(3,6) kqD(5)[OF assms(1)] by (auto simp: qof_def split: prstate.splits)
  show "x \<notin> set (rdy s)" using x kqD(3)[OF assms(1) I(1)] I(3) by auto
qed

lemma deltas_kloose:
  assumes "kq F s" "kloose X P s s'" "set xs \<subseteq> set (slp s)" "set xs \<inter> P = {}"
  shows "deltas (queuetab s') xs = deltas (queuetab s) xs"
proof -
  have "qkey (queuetab s' x) = qkey (queuetab s x)" if "x \<in> set xs" for x
  proof -
    have "x \<in> set (slp s)" "x \<notin> P" using assms(3,4) that by auto
    then show ?thesis using klooseD(2)[OF assms(2), of x] sleeper_state(1)[OF assms(1), of x] by auto
  qed
  then show ?thesis by (simp add: deltas_def)
qed

lemma slp_kframe: "kq F s \<Longrightarrow> kframe P s s' \<Longrightarrow> slp s' = slp s"
  using kframeD(1)[of P s s' "sleepq s"] kframe_fields[of P s s'] kq_ids[of F s] by simp

lemma clkhandler_rest_inv:
  assumes inv: "kinv s"
  obtains s' where "clkhandler_rest s = Some s'" "kinv s'" "kframe {} s s'"
    "(currpid s', rdy s') = (if preempt s = 1 then sched_pick s else (currpid s, rdy s))"
proof (cases "preempt s = 1")
  case True
  note V = kinvD[OF inv]
  let ?s = "s\<lparr>preempt := QUANTUM\<rparr>"
  have kq: "kq {} ?s" using V(1) by simp
  obtain s' where s': "resched ?s = Some s'" "kq {} s'" "eligible s'" "kframe {} ?s s'"
    "(currpid s', rdy s') = sched_pick ?s"
    using resched_rep[OF kq] V(3) by auto
  have fr: "kframe {} s ?s" by (simp add: kframe_def kloose_def)
  have "kframe {} s s'" using kframe_trans[OF fr s'(4)] by simp
  moreover have "kinv s'" by (rule kinv_kframe[OF V(4-8) V(1) V(3) calculation s'(2,3)]) simp
  moreover have "sched_pick ?s = sched_pick s" by (simp add: sched_pick_def eligible_def Let_def)
  ultimately show ?thesis using that[of s'] s' True by (simp add: clkhandler_rest_def)
next
  case False
  let ?s = "s\<lparr>preempt := preempt s - 1\<rparr>"
  have "clkhandler_rest s = Some ?s" using False by (simp add: clkhandler_rest_def)
  moreover have "kinv ?s" using inv by (simp add: kinv_def)
  moreover have "kframe {} s ?s" by (simp add: kframe_def kloose_def)
  ultimately show ?thesis using that[of ?s] False by simp
qed

text \<open>One tick on the delta list, and what it releases.\<close>

definition tick :: "(int \<times> int) list \<Rightarrow> (int \<times> int) list" where
  "tick ds = (case ds of [] \<Rightarrow> []
     | (p, d) # xs \<Rightarrow> (let ds' = (p, s32 (d - 1)) # xs in
         if s32 (d - 1) = 0 then dropWhile (\<lambda>(_, d). d \<le> 0) ds' else ds'))"

lemma clock_count_frame:
  "clock_count s = s\<lparr>clktime := clktime (clock_count s), count1000 := count1000 (clock_count s)\<rparr>"
  by (simp add: clock_count_def Let_def)

lemma clock_count_inv: "kinv s \<Longrightarrow> kinv (clock_count s)"
  by (subst clock_count_frame) (simp add: kinv_def)

lemma clock_count_fields [simp]:
  "queuetab (clock_count s) = queuetab s" "sleepq (clock_count s) = sleepq s" "readylist (clock_count s) = readylist s"
  "currpid (clock_count s) = currpid s" "proctab (clock_count s) = proctab s" "pkont (clock_count s) = pkont s"
  "nextqid (clock_count s) = nextqid s"
  by (subst clock_count_frame, simp)+

lemma wakeup_inv:
  assumes inv: "kinv s"
  obtains s' where "wakeup s = Some s'" "kinv s'"
    "slp s' = dropWhile (\<lambda>x. qkey (queuetab s x) \<le> 0) (slp s)"
    "deltas (queuetab s') (slp s') = deltas (queuetab s) (slp s')"
    "\<And>p. p \<in> set (takeWhile (\<lambda>x. qkey (queuetab s x) \<le> 0) (slp s)) \<Longrightarrow> runnable (prstate (proctab s' p))"
proof -
  note V = kinvD[OF inv] and I = kq_ids[OF kinvD(1)[OF inv]]
  let ?s0 = "s\<lparr>ndefers := 1, attempt := False\<rparr>"
  let ?P = "set (takeWhile (\<lambda>x. qkey (queuetab s x) \<le> 0) (slp s))"
  let ?rest = "dropWhile (\<lambda>x. qkey (queuetab s x) \<le> 0) (slp s)"
  have kq0: "kq {} ?s0" using V(1) by simp
  obtain s1 where s1: "wakeup_loop ?s0 = Some s1" "kq {} s1" "eligible s1" "semtab s1 = semtab s"
    "slp s1 = ?rest" "kloose {readylist s, sleepq s} ?P ?s0 s1"
    using wakeup_loop_run[OF kq0] V(2) by auto
  note F = kloose_fields[OF s1(6)]
  have nd: "ndefers s1 = 1" using F by simp
  obtain s' where s': "resched_cntl DEFER_STOP s1 = Some (OK, s')" "kq {} s'" "eligible s'"
    "kframe {} (s1\<lparr>ndefers := 0\<rparr>) s'"
    using defer_stop[OF s1(2) nd] s1(3) by metis
  have run: "wakeup s = Some s'" using s1(1) s'(1) defer_start[OF V(3)] by (simp add: wakeup_def)
  have P: "prstate (proctab ?s0 p) \<notin> {PR_FREE, PR_RECV}" if "p \<in> ?P" for p
    using sleeper_state(1)[OF V(1), of p] set_takeWhileD[OF that] by auto
  have sq: "semq s1 k = semq s k" if "sem_ok k" for k
    using klooseD(1)[OF s1(6), of "squeue (semtab s k)"] I(4-6)[OF that] s1(4) by simp
  have "ksem s1" unfolding ksem_def using sem_inv_cong[OF ksemD[OF V(4)], where s' = s1] sq s1(4) by simp
  moreover have "kmsg s1" "kheap s1" "kstk s1" "kpend s1"
    using kmsg_kloose[OF _ s1(6)] P kheap_kloose[OF _ s1(6)] kstk_kloose[OF _ s1(6)] kpend_kloose[OF _ s1(6)]
      V(5-8) by auto
  ultimately have inv': "kinv s'"
    using kinv_kframe[OF _ _ _ _ _ _ _ s'(4,2,3), of "{}"] s1(2) by simp
  have kq1: "kq {} (s1\<lparr>ndefers := 0\<rparr>)" using s1(2) by simp
  have slp': "slp s' = ?rest" using slp_kframe[OF kq1 s'(4)] s1(5) by simp
  have d1: "deltas (queuetab s') ?rest = deltas (queuetab s1) ?rest"
    using deltas_kloose[OF kq1 kframe_loose[OF s'(4) singletonI], of ?rest] s1(5) by simp
  have "distinct (slp s)" by (rule qrepD(2)[OF kqD(1)[OF V(1)] I(2)])
  then have "set ?rest \<inter> ?P = {}"
    by (metis Int_commute distinct_append takeWhile_dropWhile_id)
  moreover have "set ?rest \<subseteq> set (slp s)" by (auto dest: set_dropWhileD)
  ultimately have d2: "deltas (queuetab s1) ?rest = deltas (queuetab s) ?rest"
    using deltas_kloose[OF kq0 s1(6), of ?rest] by simp
  have "runnable (prstate (proctab s' p))" if "p \<in> ?P" for p
    using kframe_runnable[OF s'(4), of p] klooseD(5)[OF s1(6) that] by simp
  then show ?thesis using that[OF run inv'] slp' d1 d2 by simp
qed


lemma deltas_dropWhile:
  "deltas t (dropWhile (\<lambda>x. qkey (t x) \<le> 0) xs) = dropWhile (\<lambda>(_, d). d \<le> 0) (deltas t xs)"
  by (induction xs) (simp_all add: deltas_def)

lemma in_takeWhile_zero: "x # xs = ys \<Longrightarrow> P x \<Longrightarrow> x \<in> set (takeWhile P ys)"
  by auto

theorem clkhandler_inv:
  assumes inv: "kinv s"
  shows "\<exists>r s'. clkhandler True s = Some (r, s') \<and> kinv s' \<and>
    deltas (queuetab s') (slp s') = tick (deltas (queuetab s) (slp s)) \<and>
    (\<forall>p \<in> set (slp s) - set (slp s'). runnable (prstate (proctab s' p)))"
proof -
  let ?c = "clock_count s"
  note V = kinvD[OF inv] and I = kq_ids[OF kinvD(1)[OF inv]] and K = kqD[OF kinvD(1)[OF inv]]
  have invc: "kinv ?c" by (rule clock_count_inv[OF inv])
  note Vc = kinvD[OF invc]
  have emp: "isempty (queuetab ?c) (sleepq ?c) = Some (slp s = [])" using isempty_rep[OF K(1) I(2)] by simp
  show ?thesis
  proof (cases "slp s")
    case Nil
    obtain s' where s': "clkhandler_rest ?c = Some s'" "kinv s'" "kframe {} ?c s'"
      using clkhandler_rest_inv[OF invc] by metis
    have "slp s' = []" using slp_kframe[OF Vc(1) s'(3)] Nil by simp
    moreover have "clkhandler True s = Some (Done (), s')" using emp Nil s'(1) by (simp add: clkhandler_def Let_def)
    ultimately show ?thesis using s'(2) Nil by (simp add: deltas_def tick_def)
  next
    case (Cons p ps)
    let ?k = "s32 (qkey (queuetab s p) - 1)"
    let ?t = "(queuetab s)(p := (queuetab s p)\<lparr>qkey := ?k\<rparr>)"
    let ?s1 = "?c\<lparr>queuetab := ?t\<rparr>"
    have p: "pid_ok p" "p \<notin> set (rdy s)" using sleeper_state(2,4)[OF V(1), of p] Cons by simp_all
    have fid: "firstid (queuetab ?c) (sleepq ?c) = Some p" using firstid_rep[OF K(1) I(2)] Cons by simp
    have kq1: "kq {} ?s1" and q1: "\<And>q. qid_ok (nextqid s) q \<Longrightarrow> queue_of ?t q = qlist s q"
      using kq_key_upd(1)[OF Vc(1), of p ?k] kq_key_upd(2)[OF Vc(1), of p _ ?k] p by simp_all
    have sq: "semq ?s1 k = semq ?c k" if "sem_ok k" for k
      using q1 kq_ids(4)[OF Vc(1) that] by simp
    have "ksem ?s1" unfolding ksem_def using sem_inv_cong[OF ksemD[OF Vc(4)], where s' = ?s1] sq by simp
    then have inv1: "kinv ?s1" unfolding kinv_def using Vc kq1 by simp
    have slp1: "slp ?s1 = p # ps" using q1[OF I(2)] Cons by simp
    have dist: "distinct (p # ps)" using qrepD(2)[OF K(1) I(2)] Cons by simp
    have d1: "deltas ?t (p # ps) = (p, ?k) # deltas (queuetab s) ps"
      using dist by (auto simp: deltas_def)
    have d0: "deltas (queuetab s) (slp s) = (p, qkey (queuetab s p)) # deltas (queuetab s) ps"
      by (simp add: Cons deltas_def)
    show ?thesis
    proof (cases "?k = 0")
      case True
      let ?s2 = "?s1\<lparr>pkont := (pkont s)(currpid s := Some K_clkhandler)\<rparr>"
      have "kmsg ?s2" using kinvD(2,5)[OF inv1] by (auto simp: kmsg_def msg_inv_def eligible_def)
      moreover have "kpend ?s2" using kinvD(8)[OF inv1] by (simp add: kpend_def)
      ultimately have inv2: "kinv ?s2" using kinvD[OF inv1] by (simp add: kinv_def)
      obtain s2 where s2: "s2 = ?s2" by blast
      have qt2: "queuetab s2 = ?t" "queue_of ?t (sleepq s2) = p # ps" using slp1 by (simp_all add: s2)
      obtain s' where s': "wakeup s2 = Some s'" "kinv s'"
        "slp s' = dropWhile (\<lambda>x. qkey (?t x) \<le> 0) (p # ps)"
        "deltas (queuetab s') (slp s') = deltas ?t (slp s')"
        "\<And>x. x \<in> set (takeWhile (\<lambda>x. qkey (?t x) \<le> 0) (p # ps)) \<Longrightarrow> runnable (prstate (proctab s' x))"
        using wakeup_inv[OF inv2[folded s2], unfolded qt2] by metis
      have "clkhandler True s = Some (Pending, s')"
        using emp Cons fid p True s'(1) by (simp add: clkhandler_def Let_def range_simps s2)
      moreover have "deltas (queuetab s') (slp s') = tick (deltas (queuetab s) (slp s))"
        unfolding s'(4) unfolding s'(3) deltas_dropWhile d1 d0 tick_def using True by simp
      moreover have "runnable (prstate (proctab s' x))" if "x \<in> set (slp s) - set (slp s')" for x
      proof -
        have "x \<in> set (takeWhile (\<lambda>x. qkey (?t x) \<le> 0) (p # ps)) \<union> set (slp s')"
          unfolding s'(3) set_append[symmetric] takeWhile_dropWhile_id using that Cons by simp
        then show ?thesis using that s'(5) by blast
      qed
      ultimately show ?thesis using s'(2) by blast
    next
      case False
      obtain s' where s': "clkhandler_rest ?s1 = Some s'" "kinv s'" "kframe {} ?s1 s'"
        using clkhandler_rest_inv[OF inv1] by metis
      have "slp s' = p # ps" using slp_kframe[OF kq1 s'(3)] slp1 by simp
      moreover have "deltas (queuetab s') (p # ps) = deltas ?t (p # ps)"
        using deltas_kloose[OF kq1 kframe_loose[OF s'(3) singletonI], of "p # ps"] slp1 by (simp add: subset_insertI)
      moreover have "clkhandler True s = Some (Done (), s')"
        using emp Cons fid p False s'(1) by (simp add: clkhandler_def Let_def range_simps)
      ultimately show ?thesis using s'(2) False d0 d1 Cons by (simp add: tick_def)
    qed
  qed
qed

end
