(* ===== verification/Messages.thy ===== *)
theory Messages
  imports Clock
begin

text \<open>
  One-word messages: \<^verbatim>\<open>system/send.c\<close>, \<^verbatim>\<open>system/receive.c\<close>, \<^verbatim>\<open>system/recvclr.c\<close> and
  \<^verbatim>\<open>system/recvtime.c\<close>. \<open>receive\<close> and \<open>recvtime\<close> read the message after they have been
  resumed; that part is \<open>receive_rest\<close> and \<open>recvtime_rest\<close>.
\<close>

section \<open>Operations\<close>

definition send :: "int \<Rightarrow> uint32 \<Rightarrow> 'z kstate_scheme \<Rightarrow> (int \<times> 'z kstate_scheme) option" where
  "send pid msg s =
     (if isbadpid pid s then Some (SYSERR, s)
      else do {
        prptr \<leftarrow> pr_rd pid s;
        if prhasmsg prptr then Some (SYSERR, s)
        else do {
          s \<leftarrow> pr_upd pid (\<lambda>e. e\<lparr>prmsg := msg, prhasmsg := True\<rparr>) s;
          if prstate prptr = PR_RECV
          then do { (_, s) \<leftarrow> ready pid s; Some (OK, s) }
          else if prstate prptr = PR_RECTIM
          then do { (_, s) \<leftarrow> unsleep pid s; (_, s) \<leftarrow> ready pid s; Some (OK, s) }
          else Some (OK, s) } })"

definition receive_rest :: "'z kstate_scheme \<Rightarrow> (uint32 \<times> 'z kstate_scheme) option" where
  "receive_rest s = do {
     prptr \<leftarrow> pr_rd (currpid s) s;
     let msg = prmsg prptr;
     s \<leftarrow> pr_upd (currpid s) (\<lambda>e. e\<lparr>prhasmsg := False\<rparr>) s;
     Some (msg, s) }"

definition receive :: "'z kstate_scheme \<Rightarrow> (uint32 outcome \<times> 'z kstate_scheme) option" where
  "receive s = do {
     prptr \<leftarrow> pr_rd (currpid s) s;
     if \<not> prhasmsg prptr
     then do {
       s \<leftarrow> pr_upd (currpid s) (\<lambda>e. e\<lparr>prstate := PR_RECV\<rparr>) s;
       let s = s\<lparr>pkont := (pkont s)(currpid s := Some K_receive)\<rparr>;
       s \<leftarrow> resched s;
       Some (Pending, s) }
     else do { (m, s) \<leftarrow> receive_rest s; Some (Done m, s) } }"

definition recvclr :: "'z kstate_scheme \<Rightarrow> (uint32 \<times> 'z kstate_scheme) option" where
  "recvclr s = do {
     prptr \<leftarrow> pr_rd (currpid s) s;
     if prhasmsg prptr
     then do { s \<leftarrow> pr_upd (currpid s) (\<lambda>e. e\<lparr>prhasmsg := False\<rparr>) s; Some (prmsg prptr, s) }
     else Some (1, s) }"

definition recvtime_rest :: "'z kstate_scheme \<Rightarrow> (uint32 \<times> 'z kstate_scheme) option" where
  "recvtime_rest s = do {
     prptr \<leftarrow> pr_rd (currpid s) s;
     if prhasmsg prptr
     then do { s \<leftarrow> pr_upd (currpid s) (\<lambda>e. e\<lparr>prhasmsg := False\<rparr>) s; Some (prmsg prptr, s) }
     else Some (- 3, s) }"

definition recvtime :: "int \<Rightarrow> 'z kstate_scheme \<Rightarrow> (uint32 outcome \<times> 'z kstate_scheme) option" where
  "recvtime maxwait s =
     (if maxwait < 0 then Some (Done (- 1), s)
      else do {
        prptr \<leftarrow> pr_rd (currpid s) s;
        if \<not> prhasmsg prptr
        then do {
          (r, s) \<leftarrow> insertd (currpid s) (sleepq s) maxwait s;
          if r = SYSERR then Some (Done (- 1), s)
          else do {
            s \<leftarrow> pr_upd (currpid s) (\<lambda>e. e\<lparr>prstate := PR_RECTIM\<rparr>) s;
            let s = s\<lparr>pkont := (pkont s)(currpid s := Some K_recvtime)\<rparr>;
            s \<leftarrow> resched s;
            Some (Pending, s) } }
        else do { (m, s) \<leftarrow> recvtime_rest s; Some (Done m, s) } })"

section \<open>Delivery\<close>

lemma kq_same_state:
  assumes kq: "kq F s" and p: "pid_ok p" and e: "prstate e = prstate (proctab s p)" "prsem e = prsem (proctab s p)"
    "prio_ok (prprio e)"
  shows "kq F (s\<lparr>proctab := (proctab s)(p := e)\<rparr>)"
proof -
  let ?s = "s\<lparr>proctab := (proctab s)(p := e)\<rparr>"
  note K = kqD[OF kq]
  have st: "prstate (proctab ?s r) = prstate (proctab s r)" "prsem (proctab ?s r) = prsem (proctab s r)" for r
    using e by simp_all
  have qf: "qof ?s r = qof s r" for r unfolding qof_def st by (simp cong: prstate.case_cong)
  show ?thesis
  proof (rule kqI)
    show "kids ?s" using K(2) by (simp add: kids_def)
    show "set (qlist ?s q) = {r. pid_ok r \<and> r \<notin> F \<and> qof ?s r = Some q}" if "qid_ok (nextqid ?s) q" for q
      unfolding qf using K(3)[of q] that by simp
    show "prio_ok (prprio (proctab ?s r))" if "pid_ok r" for r using K(4)[OF that] e(3) by simp
    show "sem_ok (prsem (proctab ?s r))" if "pid_ok r" "prstate (proctab ?s r) = PR_WAIT" for r
      using K(5)[OF that(1)] that(2) unfolding st by blast
    show "r = currpid ?s" if "pid_ok r" "prstate (proctab ?s r) = PR_CURR" for r
      using K(8)[OF that(1)] that(2) unfolding st by simp
    show "prstate (proctab ?s NULLPROC) \<in> {PR_CURR, PR_READY}" using K(9) unfolding st .
  qed (use K(1,6,7) in simp_all)
qed

lemma kinv_set_proc:
  assumes inv: "kinv s" and p: "pid_ok p" and e: "prstate e = prstate (proctab s p)" "prsem e = prsem (proctab s p)"
    "prio_ok (prprio e)" and stk: "stk_ok s (proctab s p) \<Longrightarrow> stk_ok s e"
    and msg: "msg_inv s p \<Longrightarrow> msg_inv (s\<lparr>proctab := (proctab s)(p := e)\<rparr>) p"
  shows "kinv (s\<lparr>proctab := (proctab s)(p := e)\<rparr>)"
proof -
  let ?s = "s\<lparr>proctab := (proctab s)(p := e)\<rparr>"
  note V = kinvD[OF inv]
  have "kq {} ?s" by (rule kq_same_state[OF V(1) p e])
  moreover have "eligible ?s" using V(2) e(1) by (auto simp: eligible_def)
  moreover have "kmsg ?s" by (rule kmsg_set_proc[OF V(5) msg])
  moreover have "kstk ?s" by (rule kstk_set_proc[OF V(7) stk])
  ultimately show ?thesis unfolding kinv_def using V by simp
qed

text \<open>\<open>send\<close> to a process that is not waiting for a message leaves it in the process's slot.\<close>

lemma send_store:
  assumes inv: "kinv s" and p: "pid_ok p" "prstate (proctab s p) \<notin> {PR_FREE, PR_RECV, PR_RECTIM}"
    "\<not> prhasmsg (proctab s p)"
  shows "\<exists>s'. send p m s = Some (OK, s') \<and> kinv s' \<and>
    s' = s\<lparr>proctab := (proctab s)(p := (proctab s p)\<lparr>prmsg := m, prhasmsg := True\<rparr>)\<rparr>"
proof -
  let ?s = "s\<lparr>proctab := (proctab s)(p := (proctab s p)\<lparr>prmsg := m, prhasmsg := True\<rparr>)\<rparr>"
  have "kinv ?s"
    by (rule kinv_set_proc[OF inv p(1)])
      (use p kqD(4)[OF kinvD(1)[OF inv] p(1)] in \<open>auto simp: msg_inv_def stk_ok_def\<close>)
  moreover have "send p m s = Some (OK, ?s)" using p by (simp add: send_def isbadpid_def range_simps)
  ultimately show ?thesis by blast
qed

text \<open>\<open>send\<close> to a receiver delivers the message and makes the receiver runnable, taking it off the
  sleep queue if it was there.\<close>

lemma send_release:
  assumes inv: "kinv s" and p: "pid_ok p" "prstate (proctab s p) \<in> {PR_RECV, PR_RECTIM}"
  shows "\<exists>s'. send p m s = Some (OK, s') \<and> kinv s' \<and> prmsg (proctab s' p) = m \<and> prhasmsg (proctab s' p) \<and>
    runnable (prstate (proctab s' p)) \<and> pkont s' p = pkont s p"
proof -
  note V = kinvD[OF inv] and K = kqD[OF kinvD(1)[OF inv]] and I = kq_ids[OF kinvD(1)[OF inv]]
  have mi: "msg_inv s p" using V(5) p(1) by (simp add: kmsg_def)
  have nm: "\<not> prhasmsg (proctab s p)" using mi p(2) by (auto simp: msg_inv_def)
  let ?e = "(proctab s p)\<lparr>prmsg := m, prhasmsg := True\<rparr>"
  let ?s1 = "s\<lparr>proctab := (proctab s)(p := ?e)\<rparr>"
  have p0: "p \<noteq> NULLPROC" using K(9) p(2) by auto
  obtain s2 t where s2: "s2 = ?s1\<lparr>queuetab := t\<rparr>" "kq {p} s2"
    "\<And>k. sem_ok k \<Longrightarrow> semq s2 k = semq s k"
    "prstate (proctab s p) = PR_RECV \<Longrightarrow> t = queuetab s"
    "prstate (proctab s p) = PR_RECTIM \<Longrightarrow> unsleep p ?s1 = Some (OK, s2)"
  proof (cases "prstate (proctab s p) = PR_RECV")
    case True
    have "kq {p} s" by (rule kq_float[OF V(1)]) (simp add: qof_def True)
    then have "kq {p} ?s1" by (rule kq_set_proc[OF _ p(1)]) (use K(4)[OF p(1)] True p0 in simp_all)
    then show ?thesis using that[of "?s1\<lparr>queuetab := queuetab s\<rparr>" "queuetab s"] True by simp
  next
    case False
    then have rt: "prstate (proctab s p) = PR_RECTIM" using p(2) by simp
    have kq1: "kq {} ?s1" by (rule kq_same_state[OF V(1) p(1)]) (use K(4)[OF p(1)] in simp_all)
    have rt1: "prstate (proctab ?s1 p) \<in> {PR_SLEEP, PR_RECTIM}" using rt by simp
    obtain t where t: "unsleep p ?s1 = Some (OK, ?s1\<lparr>queuetab := t\<rparr>)" "kq {p} (?s1\<lparr>queuetab := t\<rparr>)"
      "\<And>q. qid_ok (nextqid ?s1) q \<Longrightarrow> queue_of t q = ((qlist ?s1)(sleepq ?s1 := remove1 p (slp ?s1))) q"
      using unsleep_kq[OF kq1 p(1) rt1] by metis
    have "queue_of t (squeue (semtab s k)) = semq s k" if "sem_ok k" for k
      using t(3)[of "squeue (semtab s k)"] I(4,6)[OF that] by simp
    then show ?thesis using that[of "?s1\<lparr>queuetab := t\<rparr>" t] t rt by simp
  qed
  have F2: "proctab s2 p = ?e" "semtab s2 = semtab s" "ndefers s2 = 0" "pkont s2 = pkont s"
    "proctab s2 = (proctab s)(p := ?e)"
    using s2(1) V(3) by simp_all
  have st2: "prstate (proctab s2 p) \<noteq> PR_FREE" "ndefers s2 \<le> 0" using p(2) F2 by auto
  obtain s' where s': "ready p s2 = Some (OK, s')" "kq {} s'" "eligible s'" "kframe {p} s2 s'"
    using ready_now[OF s2(2) p(1) st2] by metis
  have run: "send p m s = Some (OK, s')"
    using p nm s2 s'(1) by (auto simp: send_def isbadpid_def range_simps)
  have "ksem s2" unfolding ksem_def using sem_inv_cong[OF ksemD[OF V(4)], where s' = s2] s2(3) F2(2) by simp
  moreover have "kheap s2" "kpend s2" using V(6,8) s2(1) by simp_all
  moreover have "kstk s2" using kstk_set_proc[OF V(7), of p ?e] s2(1) by (simp add: stk_ok_def)
  ultimately have parts: "ksem s'" "kheap s'" "kpend s'" "kstk s'"
    using ksem_kframe[OF _ s'(4) s2(2)] kheap_kloose[OF _ kframe_loose[OF s'(4) singletonI]]
      kpend_kloose[OF _ kframe_loose[OF s'(4) singletonI]] kstk_kloose[OF _ kframe_loose[OF s'(4) singletonI]] by blast+
  have "kmsg s'"
    unfolding kmsg_def
  proof (intro allI impI)
    fix r assume r: "pid_ok r"
    have pk: "pkont s' r = pkont s r" "prhasmsg (proctab s' r) = prhasmsg (proctab s2 r)"
      using kframe_fields[OF s'(4)] kframe_proc[OF s'(4)] F2 by simp_all
    show "msg_inv s' r"
    proof (cases "r = p")
      case True
      then show ?thesis using kframeD(5)[OF s'(4), of p] pk F2(1) by (auto simp: msg_inv_def)
    next
      case False
      have "msg_inv s r" using V(5) r by (simp add: kmsg_def)
      moreover have "proctab s2 r = proctab s r" using F2(5) False by simp
      moreover have "prstate (proctab s' r) = prstate (proctab s2 r) \<or>
          runnable (prstate (proctab s' r)) \<and> runnable (prstate (proctab s2 r))"
        using kframeD(4)[OF s'(4), of r] False by blast
      ultimately show ?thesis unfolding msg_inv_def pk by auto
    qed
  qed
  then have "kinv s'" unfolding kinv_def using parts s'(2,3) kframe_fields[OF s'(4)] F2(3) by simp
  moreover have "prmsg (proctab s' p) = m" "prhasmsg (proctab s' p)" "pkont s' p = pkont s p"
    using kframe_proc[OF s'(4), of p] kframe_fields[OF s'(4)] F2 by simp_all
  moreover have "runnable (prstate (proctab s' p))" using kframeD(5)[OF s'(4), of p] by simp
  ultimately show ?thesis using run by blast
qed


lemma send_error:
  assumes "isbadpid p s \<or> prhasmsg (proctab s p)"
  shows "send p m s = Some (SYSERR, s)"
  using assms by (auto simp: send_def isbadpid_def range_simps)

section \<open>Receipt\<close>

text \<open>The current process blocks in state \<open>e\<close> with the rest of its call pending, and another runs.\<close>

lemma block_current:
  assumes inv: "kinv s" and e: "prstate e \<in> {PR_RECV, PR_SUSP, PR_FREE}"
    "e = (proctab s (currpid s))\<lparr>prstate := prstate e\<rparr>" and cur: "currpid s \<noteq> NULLPROC"
    and msg: "prstate e = PR_RECV \<Longrightarrow> \<not> prhasmsg e \<and> k = Some K_receive" "prstate e = PR_SUSP \<Longrightarrow> k \<noteq> Some K_receive"
    and kill: "\<And>v. k = Some (K_kill v) \<Longrightarrow> pid_ok v \<and> v \<noteq> NULLPROC" "\<And>v. k = Some (K_suspend v) \<Longrightarrow> pid_ok v"
  obtains s' where "resched (s\<lparr>proctab := (proctab s)(currpid s := e), pkont := (pkont s)(currpid s := k)\<rparr>) = Some s'"
    "kinv s'" "prstate (proctab s' (currpid s)) = prstate e" "pkont s' (currpid s) = k"
    "currpid s' = hd (rdy s)" "rdy s' = tl (rdy s)"
proof -
  note V = kinvD[OF inv] and S = kloose_setup[OF kinvD(1,2)[OF inv]]
  let ?c = "currpid s"
  let ?s0 = "s\<lparr>proctab := (proctab s)(?c := e)\<rparr>"
  let ?s1 = "s\<lparr>proctab := (proctab s)(?c := e), pkont := (pkont s)(?c := k)\<rparr>"
  have pr: "prprio e = prprio (proctab s ?c)" "stk_ok s e = stk_ok s (proctab s ?c)" "prhasmsg e = prhasmsg (proctab s ?c)"
    by (subst e(2), simp)+
  have "kq {?c} ?s0" by (rule kq_set_proc[OF S(1,2)]) (use pr(1) kqD(4)[OF V(1) S(2)] e(1) cur in auto)
  then have "kq {} ?s0" by (rule kq_land) (use e(1) in \<open>auto simp: qof_def\<close>)
  then have kq1: "kq {} ?s1" by simp
  obtain s' where s': "resched ?s1 = Some s'" "kq {} s'" "eligible s'" "kframe {} ?s1 s'"
    "(currpid s', rdy s') = sched_pick ?s1"
    using resched_rep[OF kq1] V(3) by auto
  have "msg_inv ?s1 r" if r: "pid_ok r" for r
  proof (cases "r = ?c")
    case True
    then show ?thesis using e(1) msg by (auto simp: msg_inv_def)
  next
    case False
    then show ?thesis using V(5) r by (simp add: kmsg_def msg_inv_def)
  qed
  then have "kmsg ?s1" by (simp add: kmsg_def)
  moreover have "kpend ?s1" using V(8) kill by (auto simp: kpend_def)
  moreover have "kstk ?s1" using kstk_set_proc[OF V(7), of ?c e] pr(2) by simp
  ultimately have "kinv s'" using kinv_kframe[OF _ _ _ _ _ kq1 _ s'(4,2,3)] V(3,4,6) by simp
  moreover have "\<not> runnable (prstate e)" using e(1) by auto
  then have "prstate (proctab s' ?c) = prstate e" using kframeD(4)[OF s'(4), of ?c] by fastforce
  moreover have "sched_pick ?s1 = (hd (rdy s), tl (rdy s))"
    using e(1) by (auto simp: sched_pick_def eligible_def Let_def)
  ultimately show ?thesis using that[of s'] s' kframe_fields[OF s'(4)] by simp
qed

theorem receive_block:
  assumes inv: "kinv s" and cur: "currpid s \<noteq> NULLPROC" and nm: "\<not> prhasmsg (proctab s (currpid s))"
  shows "\<exists>s'. receive s = Some (Pending, s') \<and> kinv s' \<and> prstate (proctab s' (currpid s)) = PR_RECV \<and>
    pkont s' (currpid s) = Some K_receive \<and> currpid s' = hd (rdy s) \<and> rdy s' = tl (rdy s)"
proof -
  let ?e = "(proctab s (currpid s))\<lparr>prstate := PR_RECV\<rparr>"
  obtain s' where s': "resched (s\<lparr>proctab := (proctab s)(currpid s := ?e), pkont := (pkont s)(currpid s := Some K_receive)\<rparr>) = Some s'"
    "kinv s'" "prstate (proctab s' (currpid s)) = prstate ?e" "pkont s' (currpid s) = Some K_receive"
    "currpid s' = hd (rdy s)" "rdy s' = tl (rdy s)"
    by (rule block_current[OF inv, of ?e "Some K_receive"]) (use nm cur in simp_all)
  have "receive s = Some (Pending, s')"
    using nm s'(1) kqD(7)[OF kinvD(1)[OF inv]] by (simp add: receive_def range_simps Let_def)
  then show ?thesis using s' by auto
qed

text \<open>Taking the message: the slot is emptied and the value returned is the one delivered.\<close>

lemma clear_msg_inv:
  assumes inv: "kinv s" and k: "pkont s (currpid s) \<noteq> Some K_receive"
  shows "kinv (s\<lparr>proctab := (proctab s)(currpid s := (proctab s (currpid s))\<lparr>prhasmsg := False\<rparr>)\<rparr>)"
  using kinvD[OF inv] k kqD(4,7)[OF kinvD(1)[OF inv]]
  by (intro kinv_set_proc[OF inv]) (simp_all add: msg_inv_def eligible_def)

theorem receive_rest_inv:
  assumes inv: "kinv s" and k: "pkont s (currpid s) \<noteq> Some K_receive"
  shows "\<exists>s'. receive_rest s = Some (prmsg (proctab s (currpid s)), s') \<and> kinv s' \<and>
    \<not> prhasmsg (proctab s' (currpid s)) \<and> currpid s' = currpid s"
  using clear_msg_inv[OF inv k] kqD(7)[OF kinvD(1)[OF inv]] by (simp add: receive_rest_def range_simps)

lemma recvtime_rest_inv:
  assumes inv: "kinv s" and k: "pkont s (currpid s) \<noteq> Some K_receive"
  shows "\<exists>s'. recvtime_rest s = Some (if prhasmsg (proctab s (currpid s)) then prmsg (proctab s (currpid s)) else - 3, s') \<and>
    kinv s' \<and> \<not> prhasmsg (proctab s' (currpid s)) \<and> currpid s' = currpid s"
  using clear_msg_inv[OF inv k] inv kqD(7)[OF kinvD(1)[OF inv]] by (simp add: recvtime_rest_def range_simps)

lemma recvclr_inv:
  assumes inv: "kinv s" and k: "pkont s (currpid s) \<noteq> Some K_receive"
  shows "\<exists>s'. recvclr s = Some (if prhasmsg (proctab s (currpid s)) then prmsg (proctab s (currpid s)) else 1, s') \<and>
    kinv s' \<and> \<not> prhasmsg (proctab s' (currpid s)) \<and> currpid s' = currpid s"
  using clear_msg_inv[OF inv k] inv kqD(7)[OF kinvD(1)[OF inv]] by (simp add: recvclr_def range_simps)

lemma receive_now:
  assumes inv: "kinv s" and k: "pkont s (currpid s) = None" and m: "prhasmsg (proctab s (currpid s))"
  shows "\<exists>s'. receive s = Some (Done (prmsg (proctab s (currpid s))), s') \<and> kinv s' \<and>
    \<not> prhasmsg (proctab s' (currpid s)) \<and> currpid s' = currpid s"
proof -
  have "pkont s (currpid s) \<noteq> Some K_receive" using k by simp
  from receive_rest_inv[OF inv this] show ?thesis
    using m kqD(7)[OF kinvD(1)[OF inv]] by (auto simp: receive_def range_simps)
qed

theorem recvtime_block:
  assumes inv: "kinv s" and cur: "currpid s \<noteq> NULLPROC" and nm: "\<not> prhasmsg (proctab s (currpid s))"
    and w: "0 \<le> w" "w < 2 ^ 31"
  shows "\<exists>s'. recvtime w s = Some (Pending, s') \<and> kinv s' \<and> prstate (proctab s' (currpid s)) = PR_RECTIM \<and>
    pkont s' (currpid s) = Some K_recvtime \<and> currpid s' = hd (rdy s) \<and> rdy s' = tl (rdy s) \<and>
    deltas (queuetab s') (slp s') = delta_insert (currpid s) w (deltas (queuetab s) (slp s))"
proof -
  note V = kinvD[OF inv] and I = kq_ids[OF kinvD(1)[OF inv]] and S = kloose_setup[OF kinvD(1,2)[OF inv]]
  let ?c = "currpid s" and ?e = "(proctab s (currpid s))\<lparr>prstate := PR_RECTIM\<rparr>"
  have e: "prstate ?e \<in> {PR_SLEEP, PR_RECTIM}" "prio_ok (prprio ?e)" using kqD(4)[OF V(1) S(2)] by simp_all
  have wr: "MINKEY \<le> w" "w \<le> MAXKEY" using w by simp_all
  from insertd_sleep[OF S cur e wr] obtain t where
    t: "insertd ?c (sleepq s) w s = Some (OK, s\<lparr>queuetab := t\<rparr>)"
    "kq {} (s\<lparr>queuetab := t, proctab := (proctab s)(?c := ?e)\<rparr>)"
    "deltas t (queue_of t (sleepq s)) = delta_insert ?c w (deltas (queuetab s) (slp s))"
    "\<And>q. qid_ok (nextqid s) q \<Longrightarrow> q \<noteq> sleepq s \<Longrightarrow> queue_of t q = qlist s q" by metis
  let ?s0 = "s\<lparr>queuetab := t, proctab := (proctab s)(?c := ?e)\<rparr>"
  let ?s1 = "?s0\<lparr>pkont := (pkont s)(?c := Some K_recvtime)\<rparr>"
  have kq1: "kq {} ?s1" using t(2) by simp
  obtain s' where s': "resched ?s1 = Some s'" "kq {} s'" "eligible s'" "kframe {} ?s1 s'"
    "(currpid s', rdy s') = sched_pick ?s1"
    using resched_rep[OF kq1] V(3) by auto
  have run: "recvtime w s = Some (Pending, s')"
    using w nm t(1) s'(1) S(2) by (simp add: recvtime_def range_simps Let_def)
  have sq: "semq ?s1 k = semq s k" if "sem_ok k" for k using t(4) I(4,6)[OF that] by simp
  have "ksem ?s1" unfolding ksem_def
    using sem_inv_cong[OF ksemD[OF V(4)], where s' = ?s1] sq by simp
  moreover have "msg_inv ?s1 r" if r: "pid_ok r" for r
  proof (cases "r = ?c")
    case True
    then show ?thesis using nm by (simp add: msg_inv_def)
  next
    case False
    then show ?thesis using V(5) r by (simp add: kmsg_def msg_inv_def)
  qed
  then have "kmsg ?s1" by (simp add: kmsg_def)
  moreover have "kstk ?s1" using kstk_set_proc[of "s\<lparr>queuetab := t\<rparr>" ?c ?e] V(7) by simp
  moreover have "kpend ?s1" using V(8) by (simp add: kpend_def)
  ultimately have "kinv s'" using kinv_kframe[OF _ _ _ _ _ kq1 _ s'(4,2,3)] V(3,6) by simp
  moreover have slp1: "slp ?s1 = queue_of t (sleepq s)" by simp
  have "slp s' = slp ?s1" by (rule slp_kframe[OF kq1 s'(4)])
  moreover have "deltas (queuetab s') (slp ?s1) = deltas (queuetab ?s1) (slp ?s1)"
    by (rule deltas_kloose[OF kq1 kframe_loose[OF s'(4) singletonI]]) simp_all
  moreover have "prstate (proctab s' ?c) = PR_RECTIM" using kframeD(4)[OF s'(4), of ?c] by auto
  moreover have "rdy ?s1 = rdy s" using t(4)[of "readylist s"] I(1,3) by simp
  then have "sched_pick ?s1 = (hd (rdy s), tl (rdy s))" by (simp add: sched_pick_def eligible_def Let_def)
  ultimately show ?thesis using run s'(5) t(3) kframe_fields[OF s'(4)] by simp
qed

lemma recvtime_now:
  assumes inv: "kinv s" and k: "pkont s (currpid s) = None" and m: "prhasmsg (proctab s (currpid s))" and w: "0 \<le> w"
  shows "\<exists>s'. recvtime w s = Some (Done (prmsg (proctab s (currpid s))), s') \<and> kinv s' \<and> currpid s' = currpid s"
proof -
  have "pkont s (currpid s) \<noteq> Some K_receive" using k by simp
  from recvtime_rest_inv[OF inv this] show ?thesis
    using m w kqD(7)[OF kinvD(1)[OF inv]] by (auto simp: recvtime_def range_simps)
qed

end
