(* ===== verification/Device_Switch.thy ===== *)
theory Device_Switch
  imports Xinu_Base
begin

text \<open>
  The device-independent I/O calls (\<^verbatim>\<open>system/init.c\<close>, \<^verbatim>\<open>open.c\<close>, \<^verbatim>\<open>close.c\<close>, \<^verbatim>\<open>read.c\<close>,
  \<^verbatim>\<open>write.c\<close>, \<^verbatim>\<open>seek.c\<close>, \<^verbatim>\<open>getc.c\<close>, \<^verbatim>\<open>putc.c\<close>, \<^verbatim>\<open>control.c\<close>, \<^verbatim>\<open>getdev.c\<close>, \<^verbatim>\<open>ioerr.c\<close>,
  \<^verbatim>\<open>ionull.c\<close>). Each checks the descriptor and calls through the device switch table. The table
  itself (\<^verbatim>\<open>system/conf.c\<close>) is generated from the configuration, so it is a parameter \<open>devtab\<close>:
  an entry holds the driver routines as functions on the system state \<open>'s\<close>.
\<close>

section \<open>The switch table\<close>

type_synonym 's devcall = "'s \<Rightarrow> (int \<times> 's) option"

record 's dentry =
  dvnum :: int
  dvminor :: int
  dvname :: string
  dvinit :: "'s devcall"
  dvopen :: "string \<Rightarrow> string \<Rightarrow> 's devcall"
  dvclose :: "'s devcall"
  dvread :: "uint32 \<Rightarrow> uint32 \<Rightarrow> 's devcall"
  dvwrite :: "uint32 \<Rightarrow> uint32 \<Rightarrow> 's devcall"
  dvseek :: "uint32 \<Rightarrow> 's devcall"
  dvgetc :: "'s devcall"
  dvputc :: "char \<Rightarrow> 's devcall"
  dvcntl :: "int \<Rightarrow> int \<Rightarrow> int \<Rightarrow> 's devcall"

type_synonym 's devtab = "int \<Rightarrow> 's dentry"

definition isbaddev :: "int \<Rightarrow> bool" where
  "isbaddev f \<longleftrightarrow> f < 0 \<or> f \<ge> NDEVS"

definition ioerr :: "'s devcall" where
  "ioerr s = Some (SYSERR, s)"

definition ionull :: "'s devcall" where
  "ionull s = Some (OK, s)"

section \<open>The calls\<close>

definition init_dev :: "'s devtab \<Rightarrow> int \<Rightarrow> 's devcall" where
  "init_dev devtab descrp s =
     (if isbaddev descrp then Some (SYSERR, s) else dvinit (devtab descrp) s)"

definition open_dev :: "'s devtab \<Rightarrow> int \<Rightarrow> string \<Rightarrow> string \<Rightarrow> 's devcall" where
  "open_dev devtab descrp name mode s =
     (if isbaddev descrp then Some (SYSERR, s) else dvopen (devtab descrp) name mode s)"

definition close :: "'s devtab \<Rightarrow> int \<Rightarrow> 's devcall" where
  "close devtab descrp s =
     (if isbaddev descrp then Some (SYSERR, s) else dvclose (devtab descrp) s)"

definition read_dev :: "'s devtab \<Rightarrow> int \<Rightarrow> uint32 \<Rightarrow> uint32 \<Rightarrow> 's devcall" where
  "read_dev devtab descrp buffer count s =
     (if isbaddev descrp then Some (SYSERR, s) else dvread (devtab descrp) buffer count s)"

definition write_dev :: "'s devtab \<Rightarrow> int \<Rightarrow> uint32 \<Rightarrow> uint32 \<Rightarrow> 's devcall" where
  "write_dev devtab descrp buffer count s =
     (if isbaddev descrp then Some (SYSERR, s) else dvwrite (devtab descrp) buffer count s)"

definition seek :: "'s devtab \<Rightarrow> int \<Rightarrow> uint32 \<Rightarrow> 's devcall" where
  "seek devtab descrp pos s =
     (if isbaddev descrp then Some (SYSERR, s) else dvseek (devtab descrp) pos s)"

definition getc :: "'s devtab \<Rightarrow> int \<Rightarrow> 's devcall" where
  "getc devtab descrp s =
     (if isbaddev descrp then Some (SYSERR, s) else dvgetc (devtab descrp) s)"

definition putc :: "'s devtab \<Rightarrow> int \<Rightarrow> char \<Rightarrow> 's devcall" where
  "putc devtab descrp ch s =
     (if isbaddev descrp then Some (SYSERR, s) else dvputc (devtab descrp) ch s)"

definition control :: "'s devtab \<Rightarrow> int \<Rightarrow> int \<Rightarrow> int \<Rightarrow> int \<Rightarrow> 's devcall" where
  "control devtab descrp func arg1 arg2 s =
     (if isbaddev descrp then Some (SYSERR, s) else dvcntl (devtab descrp) func arg1 arg2 s)"

text \<open>\<open>sysinit\<close> initialises every device in order.\<close>

fun init_devs :: "'s devtab \<Rightarrow> nat \<Rightarrow> 's \<Rightarrow> 's option" where
  "init_devs devtab 0 s = Some s"
| "init_devs devtab (Suc n) s =
     (case init_devs devtab n s of
        None \<Rightarrow> None
      | Some s \<Rightarrow> map_option snd (init_dev devtab (int n) s))"

lemma close_null: "0 \<le> d \<Longrightarrow> d < NDEVS \<Longrightarrow> dvclose (devtab d) = ionull \<Longrightarrow> close devtab d s = Some (OK, s)"
  by (simp add: close_def isbaddev_def ionull_def)

text \<open>In the configuration, closing the console does nothing.\<close>

definition null_console :: "'s devtab \<Rightarrow> bool" where
  "null_console devtab \<longleftrightarrow> dvclose (devtab 0) = ionull"

end
