(* ===== verification/System_Init.thy ===== *)
theory System_Init
  imports Semaphore Device_Switch
begin

unbundle bit_operations_syntax

text \<open>
  System start: the data structures \<open>sysinit\<close> (\<^verbatim>\<open>system/initialize.c\<close>) builds, with
  \<open>meminit\<close>, \<open>newqueue\<close>, \<open>bufinit\<close> and the kernel part of \<open>clkinit\<close> (\<^verbatim>\<open>system/clkinit.c\<close>). The state before it
  is the zeroed data segment: any record whose statically initialised variables have their
  values (\<open>loaded\<close>). Platform set-up, interrupt vectors and the timer registers are hardware and are
  left out; the device initialisation loop calls through the switch table.
\<close>

section \<open>Operations\<close>

abbreviation (input) NULLSTK :: uint32 where "NULLSTK \<equiv> 8192"
abbreviation (input) MAXADDR :: uint32 where "MAXADDR \<equiv> 0xA0000000"

definition newqueue_k :: "'z kstate_scheme \<Rightarrow> (int \<times> 'z kstate_scheme) option" where
  "newqueue_k s = do {
     (q, n, t) \<leftarrow> newqueue (nextqid s) (queuetab s);
     Some (q, s\<lparr>nextqid := n, queuetab := t\<rparr>) }"

definition meminit_k :: "uint32 \<Rightarrow> 'z kstate_scheme \<Rightarrow> 'z kstate_scheme option" where
  "meminit_k end_addr s = do {
     let s = s\<lparr>minheap := end_addr, maxheap := MAXADDR\<rparr>;
     m \<leftarrow> meminit (memlist s) (minheap s) (maxheap s) (mem s);
     Some (s\<lparr>mem := m\<rparr>) }"

fun init_procs :: "nat \<Rightarrow> 'z kstate_scheme \<Rightarrow> 'z kstate_scheme option" where
  "init_procs 0 s = Some s"
| "init_procs (Suc n) s =
     (case init_procs n s of
        None \<Rightarrow> None
      | Some s \<Rightarrow> pr_upd (int n) (\<lambda>e. e\<lparr>prstate := PR_FREE, prname := (prname e)[0 := CHR 0x00],
          prstkbase := 0, prprio := 0\<rparr>) s)"

fun init_sems :: "nat \<Rightarrow> 'z kstate_scheme \<Rightarrow> 'z kstate_scheme option" where
  "init_sems 0 s = Some s"
| "init_sems (Suc n) s =
     (case init_sems n s of
        None \<Rightarrow> None
      | Some s \<Rightarrow>
        (case sem_upd (int n) (\<lambda>e. e\<lparr>sstate := S_FREE, scount := 0\<rparr>) s of
           None \<Rightarrow> None
         | Some s \<Rightarrow>
           (case newqueue_k s of
              None \<Rightarrow> None
            | Some (q, s) \<Rightarrow> sem_upd (int n) (\<lambda>e. e\<lparr>squeue := q\<rparr>) s)))"

definition bufinit :: "'z kstate_scheme \<Rightarrow> int \<times> 'z kstate_scheme" where
  "bufinit s = (OK, s\<lparr>nbpools := 0\<rparr>)"

definition clkinit :: "'z kstate_scheme \<Rightarrow> 'z kstate_scheme option" where
  "clkinit s = do {
     (q, s) \<leftarrow> newqueue_k s;
     Some (s\<lparr>sleepq := q, preempt := QUANTUM, clktime := 0\<rparr>) }"

text \<open>\<open>sysinit\<close>: memory and process table first, then semaphores, buffer pools, ready list and clock
  (\<open>sysinit_kernel\<close>), and last the initialisation routine of every device.\<close>

definition sysinit_procs :: "uint32 \<Rightarrow> 'z kstate_scheme \<Rightarrow> 'z kstate_scheme option" where
  "sysinit_procs end_addr s = do {
     s \<leftarrow> meminit_k end_addr s;
     let s = s\<lparr>prcount := 1, ndefers := 0\<rparr>;
     s \<leftarrow> init_procs (nat NPROC) s;
     s \<leftarrow> pr_upd NULLPROC (\<lambda>e. e\<lparr>prstate := PR_CURR, prprio := 0,
            prname := ''prnull'' @ [CHR 0x00] @ drop 7 (prname e)\<rparr>) s;
     (stk, s) \<leftarrow> getstk_k NULLSTK s;
     s \<leftarrow> pr_upd NULLPROC (\<lambda>e. e\<lparr>prstkbase := stk, prstklen := NULLSTK, prstkptr := 0\<rparr>) s;
     Some (s\<lparr>currpid := NULLPROC\<rparr>) }"

definition sysinit_kernel :: "uint32 \<Rightarrow> 'z kstate_scheme \<Rightarrow> 'z kstate_scheme option" where
  "sysinit_kernel end_addr s = do {
     s \<leftarrow> sysinit_procs end_addr s;
     s \<leftarrow> init_sems (nat NSEM) s;
     let s = snd (bufinit s);
     (q, s) \<leftarrow> newqueue_k s;
     let s = s\<lparr>readylist := q\<rparr>;
     clkinit s }"

definition sysinit :: "'z kstate_scheme devtab \<Rightarrow> uint32 \<Rightarrow> 'z kstate_scheme \<Rightarrow> 'z kstate_scheme option" where
  "sysinit devtab end_addr s = do {
     s \<leftarrow> sysinit_kernel end_addr s;
     init_devs devtab (nat NDEVS) s }"

text \<open>The image the boot loader leaves: static initialisers and a zeroed process table.\<close>

definition loaded :: "uint32 \<Rightarrow> 'z kstate_scheme \<Rightarrow> bool" where
  "loaded end_addr s \<longleftrightarrow> nextqid s = NPROC \<and> nextsem s = 0 \<and> nextpid s = 1 \<and> count1000 s = 1000 \<and>
     pkont s = (\<lambda>_. None) \<and> \<not> halted s \<and>
     (\<forall>p. prstklen (proctab s p) = 0 \<and> prdesc (proctab s p) = [0, 0, 0, 0, 0] \<and> \<not> prhasmsg (proctab s p)) \<and>
     8 dvd unat end_addr \<and> unat end_addr + 8 \<le> unat MAXADDR \<and>
     memlist s \<noteq> 0 \<and> 4 dvd unat (memlist s) \<and> unat (memlist s) + 8 \<le> unat end_addr"

section \<open>The heap after start\<close>

lemma meminit_rep:
  assumes ml: "ml \<noteq> 0" "4 dvd unat ml" "unat ml + 8 \<le> unat lo" and lo: "8 dvd unat lo"
    and hi: "8 dvd unat hi" "unat lo + 8 \<le> unat hi"
  shows "\<exists>m'. meminit ml lo hi m = Some m' \<and> heap_rep ml (unat lo) (unat hi) m' [(lo, hi - lo)]"
proof -
  have hi32: "unat hi < 2 ^ 32" using unsigned_less[of hi] by simp
  have len: "unat (hi - lo) = unat hi - unat lo" using hi(2) by (intro unat_sub) (simp add: word_le_nat_alt)
  have l4: "unat (lo + 4) = unat lo + 4" using hi hi32 by (intro unat_add4) simp
  have m4: "unat (ml + 4) = unat ml + 4" using ml(3) hi(2) hi32 by (intro unat_add4) simp
  have d4: "4 dvd unat lo" by (rule dvd8_4[OF lo])
  have ne: "lo \<noteq> 0" "lo + 4 \<noteq> 0" "ml \<noteq> lo" "ml \<noteq> lo + 4" "lo \<noteq> lo + 4"
    by (rule word_neq_unat; use ml(3) l4 in simp)+
  let ?m = "m(ml := lo, lo := 0, lo + 4 := hi - lo)"
  have "meminit ml lo hi m = Some ?m"
    using ml ne d4 l4 by (simp add: meminit_def range_simps)
  moreover have "heap_rep ml (unat lo) (unat hi) ?m [(lo, hi - lo)]"
    unfolding heap_rep_def using ml lo hi hi32 ne len by (simp add: chain_def dvd_diff_nat)
  ultimately show ?thesis by blast
qed


section \<open>The tables after start\<close>

lemma init_procs_run:
  assumes "int n \<le> NPROC"
  shows "init_procs n s = Some (s\<lparr>proctab := (\<lambda>p. if 0 \<le> p \<and> p < int n
      then (proctab s p)\<lparr>prstate := PR_FREE, prname := (prname (proctab s p))[0 := CHR 0x00], prstkbase := 0, prprio := 0\<rparr>
      else proctab s p)\<rparr>)"
  using assms
proof (induction n)
  case 0
  have "(\<lambda>p. if 0 \<le> p \<and> p < int 0 then f p else proctab s p) = proctab s" for f by (rule ext) auto
  then show ?case by simp
next
  case (Suc n)
  then show ?case by (auto simp: range_simps fun_eq_iff intro!: arg_cong[of _ _ "\<lambda>f. s\<lparr>proctab := f\<rparr>"])
qed

lemma qrep_empty: "qrep NPROC t (\<lambda>_. [])"
  by (auto simp: qrep_def qid_ok_def)

lemma newqueue_k_run:
  assumes "qrep (nextqid s) (queuetab s) (\<lambda>_. [])" "NPROC \<le> nextqid s" "nextqid s + 1 < NQENT" "even (nextqid s)"
  obtains t where "newqueue_k s = Some (nextqid s, s\<lparr>nextqid := nextqid s + 2, queuetab := t\<rparr>)"
    "qrep (nextqid s + 2) t (\<lambda>_. [])"
proof -
  obtain t where t: "newqueue (nextqid s) (queuetab s) = Some (nextqid s, nextqid s + 2, t)"
    "qrep (nextqid s + 2) t ((\<lambda>_. [])(nextqid s := []))"
    using newqueue_rep[OF assms] by blast
  then show ?thesis using that[of t] by (simp add: newqueue_k_def fun_upd_idem)
qed

lemma init_sems_run:
  assumes "nextqid s = NPROC" "int n \<le> NSEM"
  shows "\<exists>st t. init_sems n s = Some (s\<lparr>semtab := st, queuetab := t, nextqid := NPROC + 2 * int n\<rparr>) \<and>
    qrep (NPROC + 2 * int n) t (\<lambda>_. []) \<and>
    (\<forall>k. 0 \<le> k \<longrightarrow> k < int n \<longrightarrow> sstate (st k) = S_FREE \<and> scount (st k) = 0 \<and> squeue (st k) = NPROC + 2 * k)"
  using assms(2)
proof (induction n)
  case 0
  have "s = s\<lparr>semtab := semtab s, queuetab := queuetab s, nextqid := NPROC\<rparr>" using assms(1) by simp
  then show ?case using qrep_empty[of "queuetab s"]
    by (intro exI[of _ "semtab s"] exI[of _ "queuetab s"]) simp
next
  case (Suc n)
  then obtain st t where IH: "init_sems n s = Some (s\<lparr>semtab := st, queuetab := t, nextqid := NPROC + 2 * int n\<rparr>)"
    "qrep (NPROC + 2 * int n) t (\<lambda>_. [])"
    "\<forall>k. 0 \<le> k \<longrightarrow> k < int n \<longrightarrow> sstate (st k) = S_FREE \<and> scount (st k) = 0 \<and> squeue (st k) = NPROC + 2 * k"
    by auto
  let ?st = "st(int n := (st (int n))\<lparr>sstate := S_FREE, scount := 0\<rparr>)"
  let ?s = "s\<lparr>queuetab := t, nextqid := NPROC + 2 * int n, semtab := ?st\<rparr>"
  obtain t' where t': "newqueue_k ?s = Some (nextqid ?s, ?s\<lparr>nextqid := nextqid ?s + 2, queuetab := t'\<rparr>)"
    "qrep (nextqid ?s + 2) t' (\<lambda>_. [])"
    by (rule newqueue_k_run[of ?s]) (use IH(2) Suc.prems in simp_all)
  let ?st' = "?st(int n := (?st (int n))\<lparr>squeue := NPROC + 2 * int n\<rparr>)"
  have "init_sems (Suc n) s = Some (s\<lparr>semtab := ?st', queuetab := t', nextqid := NPROC + 2 * int (Suc n)\<rparr>)"
    using IH(1) t'(1) Suc.prems by (simp add: range_simps algebra_simps)
  moreover have "\<forall>k. 0 \<le> k \<longrightarrow> k < int (Suc n) \<longrightarrow>
      sstate (?st' k) = S_FREE \<and> scount (?st' k) = 0 \<and> squeue (?st' k) = NPROC + 2 * k"
    using IH(3) by auto
  moreover have "qrep (NPROC + 2 * int (Suc n)) t' (\<lambda>_. [])" using t'(2) by (simp add: algebra_simps)
  ultimately show ?case by blast
qed

text \<open>What the rest of the start-up code leaves: the state \<open>booted\<close> describes.\<close>

definition booted :: "'z kstate_scheme \<Rightarrow> bool" where
  "booted s \<longleftrightarrow> nextqid s = NQENT \<and> qrep NQENT (queuetab s) (\<lambda>_. []) \<and>
     (\<forall>k. sem_ok k \<longrightarrow> sstate (semtab s k) = S_FREE \<and> squeue (semtab s k) = NPROC + 2 * k) \<and>
     readylist s = NPROC + 2 * NSEM \<and> sleepq s = NPROC + 2 * NSEM + 2 \<and>
     (\<forall>p. pid_ok p \<longrightarrow> prstate (proctab s p) = (if p = NULLPROC then PR_CURR else PR_FREE) \<and>
        prprio (proctab s p) = 0 \<and> \<not> prhasmsg (proctab s p)) \<and>
     currpid s = NULLPROC \<and> ndefers s = 0 \<and> pkont s = (\<lambda>_. None) \<and> prcount s = 1 \<and>
     nextsem s = 0 \<and> nextpid s = 1 \<and> \<not> halted s \<and> kheap s \<and> kstk s"

lemma booted_inv:
  assumes b: "booted s"
  shows "kinv s"
proof -
  have rep: "qrep (nextqid s) (queuetab s) (\<lambda>_. [])" using b by (simp add: booted_def)
  have emp: "qlist s q = []" if "qid_ok (nextqid s) q" for q using qrep_queue_of[OF rep that] by simp
  have pr: "prstate (proctab s p) = (if p = NULLPROC then PR_CURR else PR_FREE)" "prprio (proctab s p) = 0"
    "\<not> prhasmsg (proctab s p)" if "pid_ok p" for p using b that by (simp_all add: booted_def)
  have ids: "kids s" using b unfolding kids_def booted_def qid_ok_def by auto
  have "kq {} s"
  proof (rule kqI)
    show "qrep (nextqid s) (queuetab s) (qlist s)" by (rule qrep_canon[OF rep])
    show "set (qlist s q) = {p. pid_ok p \<and> p \<notin> {} \<and> qof s p = Some q}" if "qid_ok (nextqid s) q" for q
      using emp[OF that] pr by (auto simp: qof_def split: prstate.splits if_splits)
    show "sorted_wrt (\<lambda>a b. qkey (queuetab s a) \<ge> qkey (queuetab s b)) (rdy s)"
      using emp kidsD(1)[OF ids] by simp
    show "p = currpid s" if "pid_ok p" "prstate (proctab s p) = PR_CURR" for p
      using pr(1)[OF that(1)] that(2) b by (auto simp: booted_def split: if_splits)
    show "sem_ok (prsem (proctab s p))" if "pid_ok p" "prstate (proctab s p) = PR_WAIT" for p
      using pr(1)[OF that(1)] that(2) by (auto split: if_splits)
  qed (use ids pr b in \<open>simp_all add: prio_ok_def booted_def\<close>)
  moreover have "ksem s"
    unfolding ksem_def sem_inv_def using b emp kidsD(4)[OF ids] by (simp add: booted_def)
  moreover have "msg_inv s p" if "pid_ok p" for p
    using pr[OF that] b by (auto simp: msg_inv_def booted_def split: if_splits)
  then have "kmsg s" by (simp add: kmsg_def)
  moreover have "eligible s" "kpend s" using b pr[of NULLPROC] by (simp_all add: eligible_def booted_def kpend_def)
  ultimately show ?thesis using b by (simp add: kinv_def booted_def)
qed


text \<open>The null process runs on the top \<open>NULLSTK\<close> bytes of memory, where \<^verbatim>\<open>start.S\<close> set the stack
  pointer; \<open>getstk\<close> takes exactly these bytes, because it allocates from the high end.\<close>

lemma sysinit_procs_run:
  assumes l: "loaded end_addr s" and big: "unat end_addr + 8192 < unat MAXADDR"
  obtains s1 where "sysinit_procs end_addr s = Some s1" "kheap s1" "kstk s1"
    "heap_rep (memlist s1) (unat (minheap s1)) (unat (maxheap s1)) (mem s1) [(end_addr, MAXADDR - end_addr - NULLSTK)]"
    "\<And>p. pid_ok p \<Longrightarrow> prstate (proctab s1 p) = (if p = NULLPROC then PR_CURR else PR_FREE) \<and>
        prprio (proctab s1 p) = 0 \<and> \<not> prhasmsg (proctab s1 p)"
    "prstkbase (proctab s1 NULLPROC) = MAXADDR - 4" "currpid s1 = NULLPROC" "ndefers s1 = 0" "prcount s1 = 1"
    "nextqid s1 = NPROC" "nextsem s1 = 0" "nextpid s1 = 1" "pkont s1 = (\<lambda>_. None)" "\<not> halted s1"
proof -
  have L: "nextqid s = NPROC" "nextsem s = 0" "nextpid s = 1" "pkont s = (\<lambda>_. None)" "\<not> halted s"
    "\<And>p. prstklen (proctab s p) = 0" "\<And>p. prdesc (proctab s p) = [0, 0, 0, 0, 0]" "\<And>p. \<not> prhasmsg (proctab s p)"
    "8 dvd unat end_addr" "unat end_addr + 8 \<le> unat MAXADDR"
    "memlist s \<noteq> 0" "4 dvd unat (memlist s)" "unat (memlist s) + 8 \<le> unat end_addr"
    using l unfolding loaded_def by blast+
  obtain m1 where m1: "meminit (memlist s) end_addr MAXADDR (mem s) = Some m1"
    "heap_rep (memlist s) (unat end_addr) (unat MAXADDR) m1 [(end_addr, MAXADDR - end_addr)]"
    using meminit_rep[OF L(11-13,9) _ L(10)] by auto
  have len: "unat (MAXADDR - end_addr) = unat MAXADDR - unat end_addr"
    using big by (intro unat_sub) (simp add: word_le_nat_alt)
  have rnd: "roundmb NULLSTK = NULLSTK" by (rule roundmb_id) simp_all
  have ne: "MAXADDR - end_addr \<noteq> NULLSTK" "NULLSTK \<le> MAXADDR - end_addr"
    using len big by (auto simp: word_le_nat_alt intro!: word_neq_unat)
  have "lf_alloc NULLSTK [(end_addr, MAXADDR - end_addr)] =
      Some (end_addr + (MAXADDR - end_addr - NULLSTK), [(end_addr, MAXADDR - end_addr - NULLSTK)])"
    using ne by (simp add: lf_alloc_def)
  with getstk_rep[OF m1(2), of NULLSTK] L(10) obtain m2 where
    m2: "getstk (memlist s) NULLSTK m1 = Some (MAXADDR - 4, m2)"
      "alloc_post (memlist s) (unat end_addr) (unat MAXADDR) NULLSTK m1 [(end_addr, MAXADDR - end_addr)] m2
        [(end_addr, MAXADDR - end_addr - NULLSTK)]"
    by (auto simp: rnd)
  let ?nul = "\<lambda>e. e\<lparr>prstate := PR_CURR, prprio := 0, prname := ''prnull'' @ [CHR 0x00] @ drop 7 (prname e)\<rparr>"
  let ?free = "\<lambda>e. e\<lparr>prstate := PR_FREE, prname := (prname e)[0 := CHR 0x00], prstkbase := 0, prprio := 0\<rparr>"
  let ?stk = "\<lambda>e. e\<lparr>prstkbase := MAXADDR - 4, prstklen := NULLSTK, prstkptr := 0\<rparr>"
  let ?pt = "(\<lambda>p. if 0 \<le> p \<and> p < NPROC then ?free (proctab s p) else proctab s p)
      (NULLPROC := ?stk (?nul (?free (proctab s NULLPROC))))"
  let ?s1 = "s\<lparr>minheap := end_addr, maxheap := MAXADDR, prcount := 1, ndefers := 0, mem := m2,
      proctab := ?pt, currpid := NULLPROC\<rparr>"
  have "sysinit_procs end_addr s = Some ?s1"
    using m1(1) m2(1) by (simp add: sysinit_procs_def meminit_k_def getstk_k_def on_mem_def init_procs_run range_simps Let_def cong: if_cong)
  moreover have "kheap ?s1" using m2(2) by (auto simp: kheap_def alloc_post_def)
  moreover have "heap_rep (memlist ?s1) (unat (minheap ?s1)) (unat (maxheap ?s1)) (mem ?s1) [(end_addr, MAXADDR - end_addr - NULLSTK)]"
    using m2(2) by (simp add: alloc_post_def)
  moreover have "kstk ?s1" using L(6,7) by (simp add: kstk_def stk_ok_def)
  ultimately show ?thesis using that[of ?s1] L by simp
qed

theorem sysinit_kernel_booted:
  assumes l: "loaded end_addr s" and big: "unat end_addr + 8192 < unat MAXADDR"
  shows "\<exists>s'. sysinit_kernel end_addr s = Some s' \<and> booted s' \<and> prstkbase (proctab s' NULLPROC) = MAXADDR - 4 \<and> nbpools s' = 0 \<and>
    heap_rep (memlist s') (unat (minheap s')) (unat (maxheap s')) (mem s') [(end_addr, MAXADDR - end_addr - NULLSTK)]"
proof -
  from sysinit_procs_run[OF l big] obtain s1 where s1: "sysinit_procs end_addr s = Some s1"
    "heap_rep (memlist s1) (unat (minheap s1)) (unat (maxheap s1)) (mem s1) [(end_addr, MAXADDR - end_addr - NULLSTK)]" "kstk s1"
    "\<And>p. pid_ok p \<Longrightarrow> prstate (proctab s1 p) = (if p = NULLPROC then PR_CURR else PR_FREE) \<and>
        prprio (proctab s1 p) = 0 \<and> \<not> prhasmsg (proctab s1 p)"
    "prstkbase (proctab s1 NULLPROC) = MAXADDR - 4" "currpid s1 = NULLPROC" "ndefers s1 = 0" "prcount s1 = 1"
    "nextqid s1 = NPROC" "nextsem s1 = 0" "nextpid s1 = 1" "pkont s1 = (\<lambda>_. None)" "\<not> halted s1" by blast
  obtain st t where ist: "init_sems (nat NSEM) s1 = Some (s1\<lparr>semtab := st, queuetab := t, nextqid := NPROC + 2 * NSEM\<rparr>)"
    "qrep (NPROC + 2 * NSEM) t (\<lambda>_. [])"
    "\<forall>k. 0 \<le> k \<longrightarrow> k < NSEM \<longrightarrow> sstate (st k) = S_FREE \<and> scount (st k) = 0 \<and> squeue (st k) = NPROC + 2 * k"
    using init_sems_run[of s1 "nat NSEM"] s1(9) by auto
  let ?s2 = "s1\<lparr>semtab := st, queuetab := t, nextqid := NPROC + 2 * NSEM, nbpools := 0\<rparr>"
  obtain t3 where t3: "newqueue_k ?s2 = Some (nextqid ?s2, ?s2\<lparr>nextqid := nextqid ?s2 + 2, queuetab := t3\<rparr>)"
    "qrep (nextqid ?s2 + 2) t3 (\<lambda>_. [])" by (rule newqueue_k_run[of ?s2]) (use ist(2) in simp_all)
  let ?s3 = "?s2\<lparr>nextqid := NPROC + 2 * NSEM + 2, queuetab := t3, readylist := NPROC + 2 * NSEM\<rparr>"
  obtain t4 where t4: "newqueue_k ?s3 = Some (nextqid ?s3, ?s3\<lparr>nextqid := nextqid ?s3 + 2, queuetab := t4\<rparr>)"
    "qrep (nextqid ?s3 + 2) t4 (\<lambda>_. [])" by (rule newqueue_k_run[of ?s3]) (use t3(2) in simp_all)
  let ?s4 = "?s3\<lparr>nextqid := NQENT, queuetab := t4, sleepq := NPROC + 2 * NSEM + 2, preempt := QUANTUM, clktime := 0\<rparr>"
  have "sysinit_kernel end_addr s = Some ?s4"
    using s1(1) ist(1) t3(1) t4(1) by (simp add: sysinit_kernel_def bufinit_def clkinit_def Let_def)
  moreover have "kheap ?s4" using s1(2) by (auto simp: kheap_def)
  moreover have "kstk ?s4" using s1(3) by (simp add: kstk_def stk_ok_def)
  ultimately show ?thesis using t4(2) ist(3) s1(2) s1(4-13) by (intro exI[of _ ?s4]) (simp add: booted_def)
qed

section \<open>The device loop\<close>

lemma init_devs_inv:
  assumes "P s" "\<And>n t. n < m \<Longrightarrow> P t \<Longrightarrow> init_devs devtab n s = Some t \<Longrightarrow> \<exists>r t'. dvinit (devtab (int n)) t = Some (r, t') \<and> P t'"
    "m \<le> nat NDEVS"
  shows "\<exists>t. init_devs devtab m s = Some t \<and> P t"
  using assms(2,3)
proof (induction m)
  case 0
  then show ?case using assms(1) by simp
next
  case (Suc m)
  from Suc.IH obtain t where t: "init_devs devtab m s = Some t" "P t" using Suc.prems by (metis Suc_leD less_SucI)
  then obtain r t' where "dvinit (devtab (int m)) t = Some (r, t')" "P t'" using Suc.prems(1)[of m] by blast
  then show ?case using t(1) Suc.prems(2) by (simp add: init_dev_def isbaddev_def)
qed

end
