(* ===== verification/Process.thy ===== *)
theory Process
  imports Messages Device_Switch System_Init
begin

unbundle bit_operations_syntax

text \<open>
  Process management: \<^verbatim>\<open>system/create.c\<close>, \<^verbatim>\<open>system/kill.c\<close>, \<^verbatim>\<open>system/resume.c\<close>,
  \<^verbatim>\<open>system/suspend.c\<close>, \<^verbatim>\<open>system/chprio.c\<close>, \<^verbatim>\<open>system/getprio.c\<close>, \<^verbatim>\<open>system/getpid.c\<close>,
  \<^verbatim>\<open>system/exit.c\<close>, \<^verbatim>\<open>system/userret.c\<close>, \<^verbatim>\<open>system/xdone.c\<close>, and the part of
  \<^verbatim>\<open>system/ctxsw.S\<close> that restores a process.
\<close>

section \<open>create\<close>

abbreviation (input) MINSTK :: uint32 where "MINSTK \<equiv> 400"
abbreviation (input) STACKMAGIC :: uint32 where "STACKMAGIC \<equiv> 0x0A0AAAA9"
abbreviation (input) CONSOLE :: int where "CONSOLE \<equiv> 0"

definition roundew :: "uint32 \<Rightarrow> uint32" where
  "roundew x = (x + 3) AND NOT 3"

fun newpid_loop :: "nat \<Rightarrow> 'z kstate_scheme \<Rightarrow> (int \<times> 'z kstate_scheme) option" where
  "newpid_loop 0 s = Some (SYSERR, s)"
| "newpid_loop (Suc i) s =
     (let n = nextpid s mod NPROC; s = s\<lparr>nextpid := n + 1\<rparr> in
      case pr_rd n s of
        None \<Rightarrow> None
      | Some e \<Rightarrow> if prstate e = PR_FREE then Some (n, s) else newpid_loop i s)"

definition newpid :: "'z kstate_scheme \<Rightarrow> (int \<times> 'z kstate_scheme) option" where
  "newpid s = newpid_loop (nat NPROC) s"

text \<open>\<open>prname\<close> receives at most 15 characters of the name and is always terminated.\<close>

definition copy_name :: "char list \<Rightarrow> char list \<Rightarrow> char list" where
  "copy_name name old =
     (let c = (if length name < 15 then name @ [CHR 0x00] else take 15 name) in
      c @ drop (length c) (old[15 := CHR 0x00]))"

text \<open>\<open>*--saddr = v\<close>, for a list of values in the order they are pushed.\<close>

fun pushes :: "uint32 list \<Rightarrow> uint32 \<Rightarrow> memory \<Rightarrow> (uint32 \<times> memory) option" where
  "pushes [] saddr m = Some (saddr, m)"
| "pushes (v # vs) saddr m =
     (let saddr = saddr - 4 in
      case st saddr v m of None \<Rightarrow> None | Some m \<Rightarrow> pushes vs saddr m)"

text \<open>The words \<open>create\<close> pushes under the marker: the arguments from the fifth on, last first; the
  start address; registers 11 to 4; registers 3 to 0 with the first four arguments; the return
  address; and the status word.\<close>

definition init_frame :: "uint32 \<Rightarrow> uint32 \<Rightarrow> uint32 list \<Rightarrow> uint32 list" where
  "init_frame procaddr initret args =
     rev (drop 4 args) @ [procaddr] @ replicate 8 0 @
     map (\<lambda>i. if i \<le> length args then args ! (i - 1) else 0) [4, 3, 2, 1] @ [initret, 0x53]"

definition create ::
  "uint32 \<Rightarrow> uint32 \<Rightarrow> uint32 \<Rightarrow> int \<Rightarrow> char list \<Rightarrow> uint32 list \<Rightarrow> 'z kstate_scheme \<Rightarrow> (int \<times> 'z kstate_scheme) option" where
  "create initret procaddr ssize priority name args s = do {
     let ssize = (if ssize < MINSTK then MINSTK else ssize);
     let ssize = roundew ssize;
     (saddr, s) \<leftarrow> getstk_k ssize s;
     if saddr = SYSERR_ptr then Some (SYSERR, s)
     else do {
       (pid, s) \<leftarrow> newpid s;
       if pid = SYSERR \<or> priority < 1 then Some (SYSERR, s)
       else do {
         let s = s\<lparr>prcount := s32 (prcount s + 1)\<rparr>;
         s \<leftarrow> pr_upd pid (\<lambda>e. e\<lparr>prstate := PR_SUSP, prprio := priority, prstkbase := saddr, prstklen := ssize,
                prname := copy_name name (prname e), prsem := - 1, prparent := currpid s, prhasmsg := False,
                prdesc := (prdesc e)[0 := CONSOLE, 1 := CONSOLE, 2 := CONSOLE]\<rparr>) s;
         m \<leftarrow> st saddr STACKMAGIC (mem s);
         (saddr, m) \<leftarrow> pushes (init_frame procaddr initret args) saddr m;
         let s = s\<lparr>mem := m, pkont := (pkont s)(pid := None)\<rparr>;
         s \<leftarrow> pr_upd pid (\<lambda>e. e\<lparr>prstkptr := saddr\<rparr>) s;
         Some (pid, s) } } }"

text \<open>What \<open>ctxsw\<close> loads when it resumes a process whose stack pointer is \<open>sp\<close>: status word, link
  register, registers 0 to 12 (12 is the address it jumps to) and the new stack pointer.\<close>

record regs =
  r_cpsr :: uint32
  r_lr :: uint32
  r_regs :: "uint32 list"
  r_pc :: uint32
  r_sp :: uint32

fun ldn :: "nat \<Rightarrow> uint32 \<Rightarrow> memory \<Rightarrow> uint32 list option" where
  "ldn 0 a m = Some []"
| "ldn (Suc n) a m =
     (case ld a m of None \<Rightarrow> None
      | Some v \<Rightarrow> (case ldn n (a + 4) m of None \<Rightarrow> None | Some vs \<Rightarrow> Some (v # vs)))"

definition ctxsw_load :: "uint32 \<Rightarrow> memory \<Rightarrow> regs option" where
  "ctxsw_load sp m = do {
     cpsr \<leftarrow> ld sp m;
     lr \<leftarrow> ld (sp + 4) m;
     rs \<leftarrow> ldn 13 (sp + 8) m;
     Some \<lparr>r_cpsr = cpsr, r_lr = lr, r_regs = take 12 rs, r_pc = rs ! 12, r_sp = sp + 60\<rparr> }"

section \<open>Other calls\<close>

definition getpid :: "'z kstate_scheme \<Rightarrow> int" where
  "getpid s = currpid s"

definition getprio :: "int \<Rightarrow> 'z kstate_scheme \<Rightarrow> int" where
  "getprio pid s = (if isbadpid pid s then SYSERR else prprio (proctab s pid))"

definition chprio :: "int \<Rightarrow> int \<Rightarrow> 'z kstate_scheme \<Rightarrow> (int \<times> 'z kstate_scheme) option" where
  "chprio pid newprio s =
     (if isbadpid pid s then Some (SYSERR, s)
      else do {
        prptr \<leftarrow> pr_rd pid s;
        s \<leftarrow> pr_upd pid (\<lambda>e. e\<lparr>prprio := newprio\<rparr>) s;
        Some (prprio prptr, s) })"

definition resume :: "int \<Rightarrow> 'z kstate_scheme \<Rightarrow> (int \<times> 'z kstate_scheme) option" where
  "resume pid s =
     (if isbadpid pid s then Some (SYSERR, s)
      else do {
        prptr \<leftarrow> pr_rd pid s;
        if prstate prptr \<noteq> PR_SUSP then Some (SYSERR, s)
        else do { (_, s) \<leftarrow> ready pid s; Some (prprio prptr, s) } })"

definition suspend_rest :: "int \<Rightarrow> 'z kstate_scheme \<Rightarrow> (int \<times> 'z kstate_scheme) option" where
  "suspend_rest pid s = do { prptr \<leftarrow> pr_rd pid s; Some (prprio prptr, s) }"

definition suspend :: "int \<Rightarrow> 'z kstate_scheme \<Rightarrow> (int outcome \<times> 'z kstate_scheme) option" where
  "suspend pid s =
     (if isbadpid pid s \<or> pid = NULLPROC then Some (Done SYSERR, s)
      else do {
        prptr \<leftarrow> pr_rd pid s;
        if prstate prptr \<noteq> PR_CURR \<and> prstate prptr \<noteq> PR_READY then Some (Done SYSERR, s)
        else if prstate prptr = PR_READY
        then do {
          (_, s) \<leftarrow> on_qtab (getitem pid) s;
          s \<leftarrow> pr_upd pid (\<lambda>e. e\<lparr>prstate := PR_SUSP\<rparr>) s;
          (p, s) \<leftarrow> suspend_rest pid s;
          Some (Done p, s) }
        else do {
          s \<leftarrow> pr_upd pid (\<lambda>e. e\<lparr>prstate := PR_SUSP\<rparr>) s;
          let s = s\<lparr>pkont := (pkont s)(currpid s := Some (K_suspend pid))\<rparr>;
          s \<leftarrow> resched s;
          Some (Pending, s) } })"

text \<open>
  \<open>kill\<close>. The message to the parent may give up the processor, so everything after it is
  \<open>kill_rest\<close>; it looks at the state of the victim again. \<open>xdone\<close> halts the machine. In the case
  \<open>PR_CURR\<close> the code after \<open>resched\<close> is never reached: the entry is free and on no queue.
\<close>

definition xdone :: "'z kstate_scheme \<Rightarrow> 'z kstate_scheme" where
  "xdone s = s\<lparr>halted := True\<rparr>"

fun close_list :: "'z kstate_scheme devtab \<Rightarrow> int list \<Rightarrow> 'z kstate_scheme \<Rightarrow> 'z kstate_scheme option" where
  "close_list devtab [] s = Some s"
| "close_list devtab (d # ds) s =
     (case close devtab d s of None \<Rightarrow> None | Some (_, s) \<Rightarrow> close_list devtab ds s)"

definition kill_rest :: "'z kstate_scheme devtab \<Rightarrow> int \<Rightarrow> 'z kstate_scheme \<Rightarrow> (int outcome \<times> 'z kstate_scheme) option" where
  "kill_rest devtab pid s = do {
     prptr \<leftarrow> pr_rd pid s;
     s \<leftarrow> close_list devtab (take 3 (prdesc prptr)) s;
     prptr \<leftarrow> pr_rd pid s;
     (_, s) \<leftarrow> freestk_k (prstkbase prptr) (prstklen prptr) s;
     case prstate prptr of
       PR_CURR \<Rightarrow> do {
         s \<leftarrow> pr_upd pid (\<lambda>e. e\<lparr>prstate := PR_FREE\<rparr>) s;
         s \<leftarrow> resched s;
         Some (Pending, s) }
     | PR_SLEEP \<Rightarrow> do {
         (_, s) \<leftarrow> unsleep pid s;
         s \<leftarrow> pr_upd pid (\<lambda>e. e\<lparr>prstate := PR_FREE\<rparr>) s;
         Some (Done OK, s) }
     | PR_RECTIM \<Rightarrow> do {
         (_, s) \<leftarrow> unsleep pid s;
         s \<leftarrow> pr_upd pid (\<lambda>e. e\<lparr>prstate := PR_FREE\<rparr>) s;
         Some (Done OK, s) }
     | PR_WAIT \<Rightarrow> do {
         s \<leftarrow> sem_upd (prsem prptr) (\<lambda>e. e\<lparr>scount := s32 (scount e + 1)\<rparr>) s;
         (_, s) \<leftarrow> on_qtab (getitem pid) s;
         s \<leftarrow> pr_upd pid (\<lambda>e. e\<lparr>prstate := PR_FREE\<rparr>) s;
         Some (Done OK, s) }
     | PR_READY \<Rightarrow> do {
         (_, s) \<leftarrow> on_qtab (getitem pid) s;
         s \<leftarrow> pr_upd pid (\<lambda>e. e\<lparr>prstate := PR_FREE\<rparr>) s;
         Some (Done OK, s) }
     | _ \<Rightarrow> do {
         s \<leftarrow> pr_upd pid (\<lambda>e. e\<lparr>prstate := PR_FREE\<rparr>) s;
         Some (Done OK, s) } }"

definition kill :: "int \<Rightarrow> 'z kstate_scheme \<Rightarrow> (int outcome \<times> 'z kstate_scheme) option" where
  "kill pid s =
     (if isbadpid pid s \<or> pid = NULLPROC then Some (Done SYSERR, s)
      else do {
        let s = s\<lparr>prcount := s32 (prcount s - 1)\<rparr>;
        if prcount s \<le> 1 then Some (Pending, xdone s)
        else do {
          prptr \<leftarrow> pr_rd pid s;
          let s = s\<lparr>pkont := (pkont s)(currpid s := Some (K_kill pid))\<rparr>;
          (_, s) \<leftarrow> send (prparent prptr) (word_of_int pid) s;
          Some (Pending, s) } })"

definition exit :: "'z kstate_scheme \<Rightarrow> (int outcome \<times> 'z kstate_scheme) option" where
  "exit s = kill (getpid s) s"

definition userret :: "'z kstate_scheme \<Rightarrow> (int outcome \<times> 'z kstate_scheme) option" where
  "userret s = kill (getpid s) s"

end
