(* ===== verification/Process_Inv.thy ===== *)
theory Process_Inv
  imports Process
begin

unbundle bit_operations_syntax

text \<open>
  The process-management calls keep the kernel invariant, and what each does: a new process is
  suspended, has a fresh stack and starts at its procedure with its arguments; \<open>resume\<close> and
  \<open>suspend\<close> move a process between the suspended and the runnable states; \<open>kill\<close> frees the entry
  and the stack and takes the process off whatever queue it is on.
\<close>

section \<open>resume, suspend, chprio\<close>

theorem resume_inv:
  assumes inv: "kinv s" and p: "pid_ok p" "prstate (proctab s p) = PR_SUSP"
  shows "\<exists>s'. resume p s = Some (prprio (proctab s p), s') \<and> kinv s' \<and> runnable (prstate (proctab s' p))"
proof -
  note V = kinvD[OF inv]
  have kq: "kq {p} s" by (rule kq_float[OF V(1)]) (simp add: qof_def p(2))
  have pre: "prstate (proctab s p) \<noteq> PR_FREE" "ndefers s \<le> 0" using p(2) V(3) by simp_all
  obtain s' where s': "ready p s = Some (OK, s')" "kq {} s'" "eligible s'" "kframe {p} s s'"
    using ready_now[OF kq p(1) pre] by metis
  have "kinv s'" by (rule kinv_kframe[OF V(4-8) kq V(3) s'(4,2,3)]) (use p(2) in simp)
  then show ?thesis using s' p kframeD(5)[OF s'(4), of p] by (simp add: resume_def isbadpid_def range_simps)
qed

theorem chprio_inv:
  assumes inv: "kinv s" and p: "pid_ok p" "prstate (proctab s p) \<noteq> PR_FREE" and n: "prio_ok n"
  shows "\<exists>s'. chprio p n s = Some (prprio (proctab s p), s') \<and> kinv s' \<and> prprio (proctab s' p) = n \<and>
    s' = s\<lparr>proctab := (proctab s)(p := (proctab s p)\<lparr>prprio := n\<rparr>)\<rparr>"
proof -
  let ?s = "s\<lparr>proctab := (proctab s)(p := (proctab s p)\<lparr>prprio := n\<rparr>)\<rparr>"
  have "kinv ?s" by (rule kinv_set_proc[OF inv p(1)]) (use n in \<open>simp_all add: msg_inv_def\<close>)
  then show ?thesis using p by (simp add: chprio_def isbadpid_def range_simps)
qed

lemma suspend_self:
  assumes inv: "kinv s" and cur: "currpid s \<noteq> NULLPROC"
  shows "\<exists>s'. suspend (currpid s) s = Some (Pending, s') \<and> kinv s' \<and>
    prstate (proctab s' (currpid s)) = PR_SUSP \<and> pkont s' (currpid s) = Some (K_suspend (currpid s)) \<and>
    currpid s' = hd (rdy s) \<and> rdy s' = tl (rdy s)"
proof -
  note V = kinvD[OF inv] and K = kqD[OF kinvD(1)[OF inv]]
  let ?e = "(proctab s (currpid s))\<lparr>prstate := PR_SUSP\<rparr>"
  obtain s' where s': "resched (s\<lparr>proctab := (proctab s)(currpid s := ?e),
      pkont := (pkont s)(currpid s := Some (K_suspend (currpid s)))\<rparr>) = Some s'"
    "kinv s'" "prstate (proctab s' (currpid s)) = prstate ?e" "pkont s' (currpid s) = Some (K_suspend (currpid s))"
    "currpid s' = hd (rdy s)" "rdy s' = tl (rdy s)"
    by (rule block_current[OF inv, of ?e "Some (K_suspend (currpid s))"]) (use cur K(7) in simp_all)
  have "suspend (currpid s) s = Some (Pending, s')"
    using s'(1) K(7) V(2) cur by (simp add: suspend_def isbadpid_def range_simps eligible_def Let_def)
  then show ?thesis using s' by auto
qed

text \<open>Taking a process off its queue and out of the running, for \<open>suspend\<close> and \<open>kill\<close>.\<close>

lemma retire:
  assumes inv: "kinv s" and kq: "kq {p} s1" and p: "pid_ok p" "p \<noteq> NULLPROC" "p \<noteq> currpid s"
    and e: "prstate e \<in> {PR_FREE, PR_SUSP}" "prio_ok (prprio e)" "stk_ok s (proctab s p) \<Longrightarrow> stk_ok s e"
      "prhasmsg e = prhasmsg (proctab s p)"
    and s1: "s1 = s\<lparr>semtab := sm, queuetab := t, mem := m\<rparr>" and sem: "ksem s1" and heap: "kheap s1"
    and msg: "prstate e = PR_SUSP \<Longrightarrow> prstate (proctab s p) \<notin> {PR_FREE, PR_RECV}"
  shows "kinv (s1\<lparr>proctab := (proctab s)(p := e)\<rparr>)"
proof -
  note V = kinvD[OF inv]
  let ?s = "s1\<lparr>proctab := (proctab s)(p := e)\<rparr>"
  have pt: "proctab s1 = proctab s" "currpid s1 = currpid s" using s1 by simp_all
  have "kq {p} (s1\<lparr>proctab := (proctab s1)(p := e)\<rparr>)"
    by (rule kq_set_proc[OF kq p(1)]) (use e p in auto)
  then have "kq {p} ?s" using pt by simp
  then have "kq {} ?s" by (rule kq_land) (use e(1) in \<open>auto simp: qof_def\<close>)
  moreover have "eligible ?s" using V(2) p(3) pt by (simp add: eligible_def)
  moreover have "kmsg (s\<lparr>proctab := (proctab s)(p := e)\<rparr>)"
    by (rule kmsg_set_proc[OF V(5)]) (use e(1,4) msg in \<open>auto simp: msg_inv_def\<close>)
  then have "kmsg ?s" using s1 by (simp add: kmsg_def msg_inv_def)
  moreover have "kstk ?s" using kstk_set_proc[OF V(7) e(3)] s1 by (simp add: kstk_def stk_ok_def)
  moreover have "kpend ?s" "ndefers ?s = 0" using V(3,8) s1 by (simp_all add: kpend_def)
  moreover have "ksem ?s" "kheap ?s" using sem heap by simp_all
  ultimately show ?thesis by (simp add: kinv_def)
qed

lemma suspend_ready:
  assumes inv: "kinv s" and p: "pid_ok p" "p \<noteq> NULLPROC" "prstate (proctab s p) = PR_READY"
  shows "\<exists>s'. suspend p s = Some (Done (prprio (proctab s p)), s') \<and> kinv s' \<and>
    prstate (proctab s' p) = PR_SUSP \<and> rdy s' = remove1 p (rdy s) \<and> currpid s' = currpid s"
proof -
  note V = kinvD[OF inv] and I = kq_ids[OF kinvD(1)[OF inv]]
  have qp: "qof s p = Some (readylist s)" using p(3) by (simp add: qof_def)
  obtain t where t: "getitem p (queuetab s) = Some (p, t)" "kq {p} (s\<lparr>queuetab := t\<rparr>)"
    "\<forall>r. qid_ok (nextqid s) r \<longrightarrow> queue_of t r = ((qlist s)(readylist s := remove1 p (rdy s))) r"
    using getitem_kq[OF V(1) p(1) qp] by blast
  let ?s1 = "s\<lparr>semtab := semtab s, queuetab := t, mem := mem s\<rparr>"
  let ?e = "(proctab s p)\<lparr>prstate := PR_SUSP\<rparr>"
  have sq: "semq ?s1 k = semq s k" if "sem_ok k" for k using t(3) I(4,5)[OF that] by simp
  have sem: "ksem ?s1" unfolding ksem_def using sem_inv_cong[OF ksemD[OF V(4)], where s' = ?s1] sq by simp
  have "p \<noteq> currpid s" using V(2) p(3) by (auto simp: eligible_def)
  then have "kinv (?s1\<lparr>proctab := (proctab s)(p := ?e)\<rparr>)"
    by (intro retire[OF inv _ p(1,2) _ _ _ _ _ refl sem])
      (use t(2) p(3) V(6) kqD(4)[OF V(1) p(1)] in simp_all)
  moreover have "suspend p s = Some (Done (prprio (proctab s p)), s\<lparr>queuetab := t, proctab := (proctab s)(p := ?e)\<rparr>)"
    using p t(1) by (simp add: suspend_def isbadpid_def range_simps on_qtab_def suspend_rest_def)
  ultimately show ?thesis using t(3) I(1) by simp
qed


section \<open>Stacks and the heap\<close>

lemma heap_rep_frame:
  assumes rep: "heap_rep ml lo hi m xs" and same: "m' ml = m ml" "\<And>a. unat a \<in> free_bytes xs \<Longrightarrow> m' a = m a"
  shows "heap_rep ml lo hi m' xs"
proof -
  note H = heap_repD[OF rep]
  have "chain m' ml xs"
    by (rule chain_start[where m' = m', OF H(6) same(1)]) (use cell_free[OF H(5,4)] same(2) in auto)
  then show ?thesis using rep by (simp add: heap_rep_def)
qed

lemma freestk_any:
  assumes heap: "kheap s" and stk: "stk_ok s e"
  obtains r m where "freestk_k (prstkbase e) (prstklen e) s = Some (r, s\<lparr>mem := m\<rparr>)" "kheap (s\<lparr>mem := m\<rparr>)"
proof -
  obtain xs where rep: "heap_rep (memlist s) (unat (minheap s)) (unat (maxheap s)) (mem s) xs"
    using heap by (auto simp: kheap_def)
  note H = heap_repD[OF rep]
  let ?b = "prstkbase e - roundmb (prstklen e) + 4" and ?n = "roundmb (prstklen e)"
  have lo: "unat (minheap s) < 2 ^ 32" using unsigned_less[of "minheap s"] by simp
  obtain r m where fm: "freemem (memlist s) (minheap s) (maxheap s) ?b ?n (mem s) = Some (r, m)"
    "kheap (s\<lparr>mem := m\<rparr>)"
  proof (cases "prstklen e = 0")
    case True
    then have "?n = 0" by (simp add: roundmb_def)
    then show ?thesis using that[of SYSERR "mem s"] heap by (simp add: freemem_def)
  next
    case False
    then have S: "unat (prstklen e) + 7 < 2 ^ 32" "8 dvd unat ?b" "unat (minheap s) \<le> unat ?b"
      "unat ?b + unat ?n \<le> unat (maxheap s)" using stk by (simp_all add: stk_ok_def)
    have n8: "8 \<le> unat ?n" by (rule roundmb_pos[OF False S(1)])
    have n7: "unat ?n + 7 < 2 ^ 32" using S(3,4) H(3,4) by simp
    have rr: "roundmb ?n = ?n" by (rule roundmb_id[OF roundmb_dvd n7])
    have "?n \<noteq> 0" using n8 by auto
    note R = freemem_rep[OF rep lo refl refl this n7 S(2,3), unfolded rr, OF S(4)]
    show ?thesis
    proof (cases "{unat ?b..<unat ?b + unat ?n} \<inter> free_bytes xs \<noteq> {}")
      case True
      then show ?thesis using that[of SYSERR "mem s"] R heap by simp
    next
      case no: False
      then obtain m' where "freemem (memlist s) (minheap s) (maxheap s) ?b ?n (mem s) = Some (OK, m')"
        "free_post (memlist s) (unat (minheap s)) (unat (maxheap s)) ?b ?n (mem s) xs m' (fl_free ?b ?n xs)"
        using R by auto
      then show ?thesis using that[of OK m'] by (auto simp: kheap_def free_post_def)
    qed
  qed
  then show ?thesis using that[of r m] by (simp add: freestk_k_def freestk_def on_mem_def)
qed

section \<open>The first stack frame\<close>

lemma unat_sub_nat: "k \<le> unat sa \<Longrightarrow> unat (sa - of_nat k :: uint32) = unat sa - k"
proof -
  assume k: "k \<le> unat sa"
  have "unat sa < 2 ^ 32" using unsigned_less[of sa] by simp
  then have ok: "unat (of_nat k :: uint32) = k" using k by (simp add: unat_of_nat)
  then have "(of_nat k :: uint32) \<le> sa" using k by (simp add: word_le_nat_alt)
  then show ?thesis using ok by (simp add: unat_sub)
qed

lemma pushes_run:
  assumes "4 dvd unat sa" "4 * length vs < unat sa"
  shows "\<exists>m'. pushes vs sa m = Some (sa - of_nat (4 * length vs), m') \<and>
    (\<forall>a. unat a < unat sa - 4 * length vs \<or> unat sa \<le> unat a \<longrightarrow> m' a = m a) \<and>
    (\<forall>i < length vs. m' (sa - of_nat (4 * Suc i)) = vs ! i)"
  using assms
proof (induction vs arbitrary: sa m)
  case (Cons v vs)
  let ?sa = "sa - 4"
  have u: "unat ?sa = unat sa - 4" using unat_sub_nat[of 4 sa] Cons.prems(2) by simp
  have al: "4 dvd unat ?sa" "?sa \<noteq> 0" using u Cons.prems by (auto simp: dvd_diff_nat intro!: word_neq_unat)
  have lt: "4 * length vs < unat ?sa" using u Cons.prems(2) by simp
  obtain m' where m': "pushes vs ?sa (m(?sa := v)) = Some (?sa - of_nat (4 * length vs), m')"
    "\<forall>a. unat a < unat ?sa - 4 * length vs \<or> unat ?sa \<le> unat a \<longrightarrow> m' a = (m(?sa := v)) a"
    "\<forall>i < length vs. m' (?sa - of_nat (4 * Suc i)) = vs ! i"
    using Cons.IH[OF al(1) lt] by blast
  have "pushes (v # vs) sa m = Some (sa - of_nat (4 * length (v # vs)), m')"
    using m'(1) al by (simp add: range_simps algebra_simps)
  moreover have "m' a = m a" if "unat a < unat sa - 4 * length (v # vs) \<or> unat sa \<le> unat a" for a
  proof -
    have "a \<noteq> ?sa" using that u Cons.prems(2) by auto
    then show ?thesis using m'(2) that u Cons.prems(2) by auto
  qed
  moreover have "m' (sa - of_nat (4 * Suc i)) = (v # vs) ! i" if "i < length (v # vs)" for i
  proof (cases i)
    case 0
    then show ?thesis using m'(2) by simp
  next
    case (Suc j)
    then show ?thesis using m'(3) that by (simp add: algebra_simps)
  qed
  ultimately show ?case by blast
qed simp


text \<open>Restoring the frame \<open>create\<close> builds: the process starts at its procedure with its first four
  arguments in registers and the others on top of its stack, and will return to \<open>INITRET\<close>.\<close>

lemma ldn_run:
  assumes "4 dvd unat a" "a \<noteq> 0" "unat a + 4 * n < 2 ^ 32"
  shows "ldn n a m = Some (map (\<lambda>i. m (a + of_nat (4 * i))) [0..<n])"
  using assms
proof (induction n arbitrary: a)
  case (Suc n)
  have u: "unat (a + 4) = unat a + 4" using Suc.prems(3) by (intro unat_add4) simp
  have "ldn n (a + 4) m = Some (map (\<lambda>i. m (a + 4 + of_nat (4 * i))) [0..<n])"
    by (rule Suc.IH) (use Suc.prems u in \<open>auto intro!: word_neq_unat\<close>)
  moreover have "map (\<lambda>i. m (a + of_nat (4 * i))) [0..<Suc n] = m a # map (\<lambda>i. m (a + 4 + of_nat (4 * i))) [0..<n]"
    by (simp add: upt_conv_Cons map_Suc_upt[symmetric] del: upt_Suc) (simp add: add.assoc)
  ultimately show ?case using Suc.prems by (simp add: range_simps)
qed simp

definition first_regs :: "uint32 \<Rightarrow> uint32 \<Rightarrow> uint32 list \<Rightarrow> uint32 \<Rightarrow> regs" where
  "first_regs procaddr initret args sp = \<lparr>r_cpsr = 0x53, r_lr = initret,
     r_regs = map (\<lambda>i. if i < length args then args ! i else 0) [0, 1, 2, 3] @ replicate 8 0,
     r_pc = procaddr, r_sp = sp\<rparr>"

lemma frame_load:
  assumes sa: "4 dvd unat sa" "4 * (15 + length (drop 4 args)) < unat sa"
    and p: "pushes (init_frame procaddr initret args) sa m = Some (sp, m')"
  shows "ctxsw_load sp m' = Some (first_regs procaddr initret args (sa - of_nat (4 * length (drop 4 args))))"
    "\<And>j. 4 + j < length args \<Longrightarrow> m' (sa - of_nat (4 * length (drop 4 args)) + of_nat (4 * j)) = args ! (4 + j)"
    "unat sp = unat sa - 4 * (15 + length (drop 4 args))"
proof -
  let ?k = "length (drop 4 args)" and ?vs = "init_frame procaddr initret args"
  have len: "length ?vs = 15 + ?k" by (simp add: init_frame_def)
  obtain m1 where m1: "pushes ?vs sa m = Some (sa - of_nat (4 * length ?vs), m1)"
    "\<forall>i < length ?vs. m1 (sa - of_nat (4 * Suc i)) = ?vs ! i"
    using pushes_run[OF sa(1), of ?vs m] sa(2) len by auto
  have sp: "sp = sa - of_nat (4 * (15 + ?k))" "m' = m1" using m1(1) p len by simp_all
  show usp: "unat sp = unat sa - 4 * (15 + ?k)" unfolding sp(1) by (rule unat_sub_nat) (use sa(2) in simp)
  have top: "unat sa < 2 ^ 32" using unsigned_less[of sa] by simp
  have at: "m' (sp + of_nat (4 * i)) = ?vs ! (14 + ?k - i)" if "i < 15 + ?k" for i
  proof -
    have "sp + of_nat (4 * i) = sa - of_nat (4 * Suc (14 + ?k - i))"
    proof -
      have "4 * (15 + ?k) = 4 * i + 4 * Suc (14 + ?k - i)" using that by simp
      then have "(of_nat (4 * (15 + ?k)) :: uint32) = of_nat (4 * i) + of_nat (4 * Suc (14 + ?k - i))"
        by (metis of_nat_add)
      moreover have "sa - (x + y) + x = sa - y" for x y :: uint32 by simp
      ultimately show ?thesis unfolding sp(1) by metis
    qed
    moreover have "14 + ?k - i < length ?vs" using len that by linarith
    ultimately show ?thesis using m1(2)[rule_format, of "14 + ?k - i"] unfolding sp(2) by (simp only:)
  qed
  let ?L = "[procaddr] @ replicate 8 0 @
     map (\<lambda>i. if i \<le> length args then args ! (i - 1) else 0) [4, 3, 2, 1] @ [initret, 0x53]"
  have nth: "?vs ! (?k + j) = ?L ! j" for j
    unfolding init_frame_def by (subst nth_append) simp
  have r8: "replicate 8 (0 :: uint32) = [0, 0, 0, 0, 0, 0, 0, 0]" by (simp add: numeral_eq_Suc)
  have L: "?L ! 14 = 0x53" "?L ! 13 = initret" by (simp_all add: nth_append)
  have al: "4 dvd unat sp" "sp \<noteq> 0" using usp sa by (auto simp: dvd_diff_nat intro!: word_neq_unat)
  have sp8: "unat (sp + 4) = unat sp + 4" "unat (sp + 8) = unat sp + 8"
    using usp top sa(2) by (auto simp: unat_word_ariths)
  have "?vs ! (14 + ?k) = 0x53" using nth[of 14] L(1) by (simp only: add.commute)
  then have "m' sp = 0x53" using at[of 0] by simp
  then have l0: "ld sp m' = Some 0x53" using al by (simp add: range_simps)
  have "?vs ! (13 + ?k) = initret" using nth[of 13] L(2) by (simp only: add.commute)
  then have "m' (sp + 4) = initret" using at[of 1] by simp
  then have l1: "ld (sp + 4) m' = Some initret" using al sp8(1) by (simp add: range_simps word_neq_unat)
  have "ldn 13 (sp + 8) m' = Some (map (\<lambda>i. m' (sp + 8 + of_nat (4 * i))) [0..<13])"
  proof (rule ldn_run)
    show "4 dvd unat (sp + 8)" unfolding sp8(2) using al(1) by simp
    show "sp + 8 \<noteq> 0" by (rule word_neq_unat) (simp add: sp8)
    show "unat (sp + 8) + 4 * 13 < 2 ^ 32" unfolding sp8(2) usp using top sa(2) by simp
  qed
  also have "map (\<lambda>i. m' (sp + 8 + of_nat (4 * i))) [0..<13] =
      map (\<lambda>i. if i < length args then args ! i else 0) [0, 1, 2, 3] @ replicate 8 0 @ [procaddr]"
  proof -
    have "m' (sp + 8 + of_nat (4 * i)) = ?vs ! (?k + (12 - i))" if "i < 13" for i
    proof -
      have "sp + of_nat (4 * (i + 2)) = sp + 8 + of_nat (4 * i)" by (simp add: add.assoc)
      moreover have "i + 2 < 15 + ?k" "14 + ?k - (i + 2) = ?k + (12 - i)" using that by simp_all
      ultimately show ?thesis using at[of "i + 2"] by (simp only:)
    qed
    then have "map (\<lambda>i. m' (sp + 8 + of_nat (4 * i))) [0..<13] = map (\<lambda>i. ?vs ! (?k + (12 - i))) [0..<13]" by simp
    also have "\<dots> = map (\<lambda>i. if i < length args then args ! i else 0) [0, 1, 2, 3] @ replicate 8 0 @ [procaddr]"
      unfolding nth by (cases args) (auto simp: upt_rec nth_append r8 less_Suc_eq_le)
    finally show ?thesis .
  qed
  finally have l2: "ldn 13 (sp + 8) m' = Some (map (\<lambda>i. if i < length args then args ! i else 0) [0, 1, 2, 3] @
      replicate 8 0 @ [procaddr])" .
  have sp60: "sp + 60 = sa - of_nat (4 * ?k)" unfolding sp(1) by (simp add: algebra_simps)
  show "ctxsw_load sp m' = Some (first_regs procaddr initret args (sa - of_nat (4 * ?k)))"
    unfolding ctxsw_load_def l0 l1 l2 using sp60 by (simp add: first_regs_def numeral_nat)
  show "m' (sa - of_nat (4 * ?k) + of_nat (4 * j)) = args ! (4 + j)" if j: "4 + j < length args" for j
  proof -
    have "m' (sp + of_nat (4 * (15 + j))) = ?vs ! (?k - 1 - j)" using at[of "15 + j"] j by simp
    also have "\<dots> = args ! (4 + j)"
    proof -
      have "length args - (5 + j) < length args - 4" using j by linarith
      then show ?thesis using j by (simp add: init_frame_def nth_append rev_nth)
    qed
    finally show ?thesis unfolding sp60[symmetric] by (simp add: add.assoc)
  qed
qed


section \<open>create\<close>

lemma and_not_3: "unat (x AND NOT 3 :: uint32) = unat x - unat x mod 4"
proof -
  have "x AND 3 = take_bit 2 x" by (simp add: take_bit_eq_mask mask_numeral)
  then have m: "x AND 3 = x mod 4" by (simp add: take_bit_eq_mod)
  have "x - (x AND 3) = x AND NOT (x AND 3)" by (rule disjunctive_diff) (simp add: bit_simps)
  also have "\<dots> = x AND NOT 3" by (rule bit_word_eqI) (auto simp: bit_simps)
  finally have "x AND NOT 3 = x - (x mod 4)" using m by simp
  moreover have "x mod 4 \<le> x" unfolding m[symmetric] by (simp add: word_and_le2)
  ultimately show ?thesis by (simp add: unat_sub unat_mod)
qed

lemma roundew_bounds:
  assumes "unat x + 3 < 2 ^ 32"
  shows "unat x \<le> unat (roundew x)" "unat (roundew x) \<le> unat x + 3"
proof -
  have "unat (x + 3) = unat x + 3" using assms by (simp add: unat_word_ariths)
  then have "unat (roundew x) = (unat x + 3) - (unat x + 3) mod 4" unfolding roundew_def and_not_3 by simp
  moreover have "(unat x + 3) mod 4 \<le> 3" by (simp add: less_Suc_eq_le[symmetric])
  ultimately show "unat x \<le> unat (roundew x)" "unat (roundew x) \<le> unat x + 3" by auto
qed

lemma newpid_loop_spec:
  assumes "0 \<le> nextpid s" "nextpid s \<le> NPROC"
  shows "\<exists>r n. newpid_loop i s = Some (r, s\<lparr>nextpid := n\<rparr>) \<and> 0 \<le> n \<and> n \<le> NPROC \<and>
    (r = SYSERR \<and> (\<forall>j. 0 \<le> j \<longrightarrow> j < int i \<longrightarrow> prstate (proctab s ((nextpid s + j) mod NPROC)) \<noteq> PR_FREE) \<or>
     pid_ok r \<and> prstate (proctab s r) = PR_FREE)"
  using assms
proof (induction i arbitrary: s)
  case 0
  have "s = s\<lparr>nextpid := nextpid s\<rparr>" by simp
  then show ?case using 0 by (intro exI[of _ SYSERR] exI[of _ "nextpid s"]) simp
next
  case (Suc i)
  let ?n = "nextpid s mod NPROC"
  have n: "0 \<le> ?n" "?n < NPROC" by simp_all
  show ?case
  proof (cases "prstate (proctab s ?n) = PR_FREE")
    case True
    then have "newpid_loop (Suc i) s = Some (?n, s\<lparr>nextpid := ?n + 1\<rparr>)" using n by (simp add: Let_def range_simps)
    moreover have "0 \<le> ?n + 1" "?n + 1 \<le> NPROC" using n by simp_all
    ultimately show ?thesis using True n by blast
  next
    case False
    let ?s = "s\<lparr>nextpid := ?n + 1\<rparr>"
    have step: "newpid_loop (Suc i) s = newpid_loop i ?s" using False n by (simp add: Let_def range_simps)
    have "0 \<le> nextpid ?s" "nextpid ?s \<le> NPROC" using n by simp_all
    from Suc.IH[OF this] obtain r k where IH: "newpid_loop i ?s = Some (r, ?s\<lparr>nextpid := k\<rparr>)" "0 \<le> k" "k \<le> NPROC"
      "r = SYSERR \<and> (\<forall>j. 0 \<le> j \<longrightarrow> j < int i \<longrightarrow> prstate (proctab ?s ((nextpid ?s + j) mod NPROC)) \<noteq> PR_FREE) \<or>
       pid_ok r \<and> prstate (proctab ?s r) = PR_FREE" by blast
    have "prstate (proctab s ((nextpid s + j) mod NPROC)) \<noteq> PR_FREE"
      if h: "\<forall>j. 0 \<le> j \<longrightarrow> j < int i \<longrightarrow> prstate (proctab s ((?n + 1 + j) mod NPROC)) \<noteq> PR_FREE" and j: "0 \<le> j" "j < int (Suc i)" for j
    proof (cases "j = 0")
      case True
      then show ?thesis using False by simp
    next
      case jn: False
      then have "0 \<le> j - 1" "j - 1 < int i" using j by simp_all
      then have "prstate (proctab s ((?n + 1 + (j - 1)) mod NPROC)) \<noteq> PR_FREE" using h by blast
      moreover have "(?n + 1 + (j - 1)) mod NPROC = (nextpid s + j) mod NPROC" by (simp add: mod_simps)
      ultimately show ?thesis by simp
    qed
    then have "r = SYSERR \<and> (\<forall>j. 0 \<le> j \<longrightarrow> j < int (Suc i) \<longrightarrow> prstate (proctab s ((nextpid s + j) mod NPROC)) \<noteq> PR_FREE) \<or>
       pid_ok r \<and> prstate (proctab s r) = PR_FREE" using IH(4) by auto
    moreover have "newpid_loop (Suc i) s = Some (r, s\<lparr>nextpid := k\<rparr>)" using step IH(1) by simp
    ultimately show ?thesis using IH(2,3) by blast
  qed
qed

lemma newpid_spec:
  assumes "kpend s"
  obtains r n where "newpid s = Some (r, s\<lparr>nextpid := n\<rparr>)" "0 \<le> n" "n \<le> NPROC"
    "r = SYSERR \<and> (\<forall>p. pid_ok p \<longrightarrow> prstate (proctab s p) \<noteq> PR_FREE) \<or> pid_ok r \<and> prstate (proctab s r) = PR_FREE"
proof -
  have nx: "0 \<le> nextpid s" "nextpid s \<le> NPROC" using assms by (auto simp: kpend_def)
  obtain r n where L: "newpid s = Some (r, s\<lparr>nextpid := n\<rparr>)" "0 \<le> n" "n \<le> NPROC"
    "r = SYSERR \<and> (\<forall>j. 0 \<le> j \<longrightarrow> j < NPROC \<longrightarrow> prstate (proctab s ((nextpid s + j) mod NPROC)) \<noteq> PR_FREE) \<or>
     pid_ok r \<and> prstate (proctab s r) = PR_FREE"
    using newpid_loop_spec[OF nx, of "nat NPROC"] unfolding newpid_def by auto
  have "prstate (proctab s p) \<noteq> PR_FREE"
    if h: "\<forall>j. 0 \<le> j \<longrightarrow> j < NPROC \<longrightarrow> prstate (proctab s ((nextpid s + j) mod NPROC)) \<noteq> PR_FREE" and p: "pid_ok p" for p
  proof -
    have "(nextpid s + (p - nextpid s) mod NPROC) mod NPROC = p" using p by (simp add: mod_simps)
    moreover have "0 \<le> (p - nextpid s) mod NPROC" "(p - nextpid s) mod NPROC < NPROC" by simp_all
    ultimately show ?thesis using h by metis
  qed
  then show ?thesis using that[OF L(1-3)] L(4) by blast
qed


text \<open>The memory part of \<open>create\<close>: the stack comes out of the heap and the frame is written inside it.\<close>

lemma frame_room: "z = a + n - 4 \<Longrightarrow> 4 * (16 + k) \<le> n \<Longrightarrow> 8 \<le> a \<Longrightarrow> 4 * (15 + k) < (z :: nat)"
  by simp

lemma stack_frame:
  assumes rep: "heap_rep ml lo hi m xs" and lo: "lo < 2 ^ 32" and sz: "sz \<noteq> 0" "unat sz + 7 < 2 ^ 32"
    and al: "lf_alloc (roundmb sz) xs = Some (r, ys)"
    and fit: "4 * (16 + length (drop 4 args)) \<le> unat (roundmb sz)"
    and sa: "sa = r + roundmb sz - 4"
  obtains m1 m2 sp where "getstk ml sz m = Some (sa, m1)" "sa \<noteq> SYSERR_ptr"
    "do { m \<leftarrow> st sa STACKMAGIC m1; pushes (init_frame procaddr initret args) sa m } = Some (sp, m2)"
    "heap_rep ml lo hi m2 ys"
    "ctxsw_load sp m2 = Some (first_regs procaddr initret args (sa - of_nat (4 * length (drop 4 args))))"
    "\<And>j. 4 + j < length args \<Longrightarrow> m2 (sa - of_nat (4 * length (drop 4 args)) + of_nat (4 * j)) = args ! (4 + j)"
    "sa - roundmb sz + 4 = r" "8 dvd unat r" "lo \<le> unat r" "unat r + unat (roundmb sz) \<le> hi"
    "unat r \<le> unat sp" "unat sp < unat sa"
proof -
  let ?n = "roundmb sz" and ?k = "length (drop 4 args)"
  note H = heap_repD[OF rep]
  have n8: "8 \<le> unat ?n" by (rule roundmb_pos[OF sz])
  have n0: "?n \<noteq> 0" using n8 by auto
  note A = lf_alloc_ok[OF al H(5,4) roundmb_dvd n0]
  obtain m1 where m1: "getstk ml sz m = Some (sa, m1)" "heap_rep ml lo hi m1 ys"
    using getstk_rep[OF rep lo sz] al sa by (auto simp: alloc_post_def)
  have rn: "unat (r + ?n) = unat r + unat ?n" using A H(4) by (intro unat_add) simp
  have usa: "unat sa = unat r + unat ?n - 4" unfolding sa using unat_sub_nat[of 4 "r + ?n"] rn n8 by simp
  have sa4: "4 dvd unat sa" using usa n8 dvd8_4 A roundmb_dvd[of sz] by (simp add: dvd8_4 dvd_diff_nat)
  have sane: "sa \<noteq> 0" "sa \<noteq> SYSERR_ptr"
  proof -
    show "sa \<noteq> 0" using usa n8 A H(3) by (intro word_neq_unat) simp
    have "unat (- 1 :: uint32) = 4294967295" by (simp add: unsigned_minus_1_eq_mask mask_eq_exp_minus_1)
    then have "\<not> 4 dvd unat (- 1 :: uint32)" by simp
    then show "sa \<noteq> SYSERR_ptr" using sa4 by auto
  qed
  have r8: "8 \<le> unat r" using A H(3) by auto
  have room: "4 * (15 + ?k) < unat sa" by (rule frame_room[OF usa fit r8])
  let ?m = "m1(sa := STACKMAGIC)" and ?vs = "init_frame procaddr initret args"
  have len: "length ?vs = 15 + ?k" by (simp add: init_frame_def)
  obtain m2 where m2: "pushes ?vs sa ?m = Some (sa - of_nat (4 * length ?vs), m2)"
    "\<forall>a. unat a < unat sa - 4 * length ?vs \<or> unat sa \<le> unat a \<longrightarrow> m2 a = ?m a"
    using pushes_run[OF sa4, of ?vs ?m] room len by auto
  let ?sp = "sa - of_nat (4 * length ?vs)"
  note F = frame_load[OF sa4 room m2(1)]
  have low: "unat r \<le> unat sa - 4 * length ?vs" using usa fit len by simp
  have same: "m2 a = m1 a" if "unat a < unat r \<or> unat r + unat ?n \<le> unat a" for a
  proof -
    have "a \<noteq> sa" using that usa n8 by auto
    moreover have "unat a < unat sa - 4 * length ?vs \<or> unat sa \<le> unat a" using that low usa n8 by linarith
    ultimately show ?thesis using m2(2) by (metis fun_upd_other)
  qed
  have "heap_rep ml lo hi m2 ys"
  proof (rule heap_rep_frame[OF m1(2)])
    show "m2 ml = m1 ml" by (rule same) (use A H(3) in simp)
    show "m2 a = m1 a" if "unat a \<in> free_bytes ys" for a
      by (rule same) (use A that in auto)
  qed
  moreover have "do { m \<leftarrow> st sa STACKMAGIC m1; pushes ?vs sa m } = Some (?sp, m2)"
    using m2(1) sa4 sane(1) by (simp add: range_simps)
  moreover have "sa - ?n + 4 = r" unfolding sa by simp
  moreover have "unat r \<le> unat ?sp" "unat ?sp < unat sa" using F(3) low len room by simp_all
  ultimately show ?thesis using that[OF m1(1) sane(2)] F(1,2) A by blast
qed


definition stack_size :: "uint32 \<Rightarrow> uint32" where
  "stack_size ssize = roundew (if ssize < MINSTK then MINSTK else ssize)"

lemma stack_size_bounds:
  assumes "unat ssize + 10 < 2 ^ 32"
  shows "stack_size ssize \<noteq> 0" "unat (stack_size ssize) + 7 < 2 ^ 32" "400 \<le> unat (roundmb (stack_size ssize))"
proof -
  let ?x = "if ssize < MINSTK then MINSTK else ssize"
  have x: "400 \<le> unat ?x" "unat ?x + 10 < 2 ^ 32" using assms by (auto simp: word_less_nat_alt)
  have b: "unat ?x \<le> unat (roundew ?x)" "unat (roundew ?x) \<le> unat ?x + 3" using roundew_bounds[of ?x] x(2) by simp_all
  show nz: "stack_size ssize \<noteq> 0" using b(1) x(1) by (intro word_neq_unat) (simp add: stack_size_def)
  show sm: "unat (stack_size ssize) + 7 < 2 ^ 32" using b(2) x(2) by (simp add: stack_size_def)
  show "400 \<le> unat (roundmb (stack_size ssize))"
    unfolding unat_roundmb[OF sm] using b(1) x(1) unfolding stack_size_def by linarith
qed

text \<open>The entry \<open>create\<close> fills in.\<close>

definition new_entry :: "int \<Rightarrow> uint32 \<Rightarrow> uint32 \<Rightarrow> char list \<Rightarrow> int \<Rightarrow> uint32 \<Rightarrow> procent \<Rightarrow> procent" where
  "new_entry prio sa sz name parent sp e = e\<lparr>prstate := PR_SUSP, prprio := prio, prstkbase := sa, prstklen := sz,
     prname := copy_name name (prname e), prsem := - 1, prparent := parent, prhasmsg := False,
     prdesc := (prdesc e)[0 := CONSOLE, 1 := CONSOLE, 2 := CONSOLE], prstkptr := sp\<rparr>"

lemma take3_console: "take 3 d = [0, 0, 0] \<Longrightarrow> take 3 (d[0 := 0, 1 := 0, 2 := (0 :: int)]) = [0, 0, 0]"
  by (simp add: take_update_swap list_update_same_conv numeral_3_eq_3)

theorem create_inv:
  assumes inv: "kinv s" and prio: "prio_ok prio" and sz: "unat ssize + 10 < 2 ^ 32"
    and fit: "4 * (16 + length (drop 4 args)) \<le> unat (roundmb (stack_size ssize))"
  shows "\<exists>r s'. create initret procaddr ssize prio name args s = Some (r, s') \<and> kinv s' \<and>
    (r = SYSERR \<and> proctab s' = proctab s \<and> prcount s' = prcount s \<and>
       (prio < 1 \<or> (\<forall>p. pid_ok p \<longrightarrow> prstate (proctab s p) \<noteq> PR_FREE) \<or>
        (\<exists>xs. heap_rep (memlist s) (unat (minheap s)) (unat (maxheap s)) (mem s) xs \<and>
           (\<forall>(b, l) \<in> set xs. l < roundmb (stack_size ssize)))) \<or>
     pid_ok r \<and> r \<noteq> NULLPROC \<and> 1 \<le> prio \<and> prstate (proctab s r) = PR_FREE \<and> prcount s' = s32 (prcount s + 1) \<and>
     (\<exists>sa sp. proctab s' = (proctab s)(r := new_entry prio sa (stack_size ssize) name (currpid s) sp (proctab s r)) \<and>
       ctxsw_load sp (mem s') =
         Some (first_regs procaddr initret args (sa - of_nat (4 * length (drop 4 args)))) \<and>
       (\<forall>j. 4 + j < length args \<longrightarrow>
         mem s' (sa - of_nat (4 * length (drop 4 args)) + of_nat (4 * j)) = args ! (4 + j))))"
proof -
  let ?sz = "stack_size ssize"
  note V = kinvD[OF inv] and Z = stack_size_bounds[OF sz]
  have szd: "roundew (if ssize < MINSTK then MINSTK else ssize) = ?sz" by (simp add: stack_size_def)
  obtain xs where rep: "heap_rep (memlist s) (unat (minheap s)) (unat (maxheap s)) (mem s) xs"
    using V(6) by (auto simp: kheap_def)
  have lo: "unat (minheap s) < 2 ^ 32" using unsigned_less[of "minheap s"] by simp
  show ?thesis
  proof (cases "lf_alloc (roundmb ?sz) xs")
    case None
    then have "getstk (memlist s) ?sz (mem s) = Some (SYSERR_ptr, mem s)" using getstk_rep[OF rep lo Z(1,2)] by simp
    then have "create initret procaddr ssize prio name args s = Some (SYSERR, s)"
      by (simp add: create_def szd getstk_k_def on_mem_def Let_def)
    moreover have "\<forall>(b, l) \<in> set xs. l < roundmb ?sz"
      using None last_fit_None[of "roundmb ?sz" xs] by (auto simp: lf_alloc_def split: option.splits if_splits)
    ultimately show ?thesis using inv rep by blast
  next
    case (Some ry)
    obtain r ys where al: "lf_alloc (roundmb ?sz) xs = Some (r, ys)" using Some by (cases ry) auto
    obtain sa where sa: "sa = r + roundmb ?sz - 4" by blast
    obtain m1 m2 sp where M: "getstk (memlist s) ?sz (mem s) = Some (sa, m1)" "sa \<noteq> SYSERR_ptr"
      "do { m \<leftarrow> st sa STACKMAGIC m1; pushes (init_frame procaddr initret args) sa m } = Some (sp, m2)"
      "heap_rep (memlist s) (unat (minheap s)) (unat (maxheap s)) m2 ys"
      "ctxsw_load sp m2 = Some (first_regs procaddr initret args (sa - of_nat (4 * length (drop 4 args))))"
      "\<And>j. 4 + j < length args \<Longrightarrow> m2 (sa - of_nat (4 * length (drop 4 args)) + of_nat (4 * j)) = args ! (4 + j)"
      "sa - roundmb ?sz + 4 = r" "8 dvd unat r" "unat (minheap s) \<le> unat r"
      "unat r + unat (roundmb ?sz) \<le> unat (maxheap s)"
      using stack_frame[OF rep lo Z(1,2) al fit sa, of procaddr initret] by metis
    have heap1: "kheap (s\<lparr>mem := m1\<rparr>)"
      using getstk_rep[OF rep lo Z(1,2)] al M(1) by (auto simp: kheap_def alloc_post_def)
    have pend1: "kpend (s\<lparr>mem := m1\<rparr>)" using V(8) by simp
    obtain p n where P0: "newpid (s\<lparr>mem := m1\<rparr>) = Some (p, s\<lparr>mem := m1\<rparr>\<lparr>nextpid := n\<rparr>)" "0 \<le> n" "n \<le> NPROC"
      "p = SYSERR \<and> (\<forall>q. pid_ok q \<longrightarrow> prstate (proctab (s\<lparr>mem := m1\<rparr>) q) \<noteq> PR_FREE) \<or>
       pid_ok p \<and> prstate (proctab (s\<lparr>mem := m1\<rparr>) p) = PR_FREE"
      by (rule newpid_spec[OF pend1])
    have "proctab (s\<lparr>mem := m1\<rparr>) = proctab s" by simp
    note P = P0(1-3) P0(4)[unfolded this]
    have pend: "kpend (s\<lparr>mem := m, nextpid := n\<rparr>)" for m using V(8) P(2,3) by (simp add: kpend_def)
    show ?thesis
    proof (cases "p = SYSERR \<or> prio < 1")
      case True
      have "create initret procaddr ssize prio name args s = Some (SYSERR, s\<lparr>mem := m1, nextpid := n\<rparr>)"
        using M(1,2) P(1) True by (simp add: create_def szd getstk_k_def on_mem_def Let_def)
      moreover have "kinv (s\<lparr>mem := m1, nextpid := n\<rparr>)" using V heap1 pend by (simp add: kinv_def)
      moreover have "prio < 1 \<or> (\<forall>q. pid_ok q \<longrightarrow> prstate (proctab s q) \<noteq> PR_FREE)" using P(4) True by auto
      ultimately show ?thesis by (intro exI[of _ SYSERR] exI[of _ "s\<lparr>mem := m1, nextpid := n\<rparr>"]) auto
    next
      case False
      then have p: "pid_ok p" "prstate (proctab s p) = PR_FREE" and pr1: "1 \<le> prio" using P(4) by auto
      have p0: "p \<noteq> NULLPROC" using p(2) kqD(9)[OF V(1)] by auto
      have pc: "p \<noteq> currpid s" using p(2) V(2) by (auto simp: eligible_def)
      let ?e = "new_entry prio sa ?sz name (currpid s) sp (proctab s p)"
      let ?s' = "s\<lparr>nextpid := n, prcount := s32 (prcount s + 1), mem := m2, pkont := (pkont s)(p := None),
          proctab := (proctab s)(p := ?e)\<rparr>"
      have run: "create initret procaddr ssize prio name args s = Some (p, ?s')"
        using M(1,2) P(1) False pr1 p(1) M(3)
        by (auto simp: create_def szd getstk_k_def on_mem_def Let_def range_simps new_entry_def bind_eq_Some_conv
            split: option.splits)
      have "kq {p} s" by (rule kq_float[OF V(1)]) (simp add: qof_def p(2))
      then have "kq {p} (s\<lparr>proctab := (proctab s)(p := ?e)\<rparr>)"
        by (rule kq_set_proc[OF _ p(1)]) (use prio p0 in \<open>simp_all add: new_entry_def\<close>)
      then have "kq {} (s\<lparr>proctab := (proctab s)(p := ?e)\<rparr>)"
        by (rule kq_land) (simp add: qof_def new_entry_def)
      moreover have perm: "?s' = s\<lparr>proctab := (proctab s)(p := ?e)\<rparr>\<lparr>nextpid := n, prcount := s32 (prcount s + 1),
          mem := m2, pkont := (pkont s)(p := None)\<rparr>" by (rule kstate.equality) simp_all
      ultimately have "kq {} ?s'" unfolding perm by simp
      moreover have "eligible ?s'" using V(2) pc by (simp add: eligible_def)
      moreover have "ksem ?s'" using V(4) by simp
      moreover have "msg_inv ?s' q" if "pid_ok q" for q
        using V(5) that by (cases "q = p") (simp_all add: kmsg_def msg_inv_def new_entry_def)
      then have "kmsg ?s'" by (simp add: kmsg_def)
      moreover have "kheap ?s'" using M(4) by (auto simp: kheap_def)
      moreover have "stk_ok s ?e"
        using V(7) p(1) p0 M(7-10) Z(2) take3_console by (simp add: kstk_def stk_ok_def new_entry_def)
      then have "kstk ?s'" using kstk_set_proc[OF V(7), of p ?e] by (simp add: kstk_def stk_ok_def)
      moreover have "kpend ?s'" using V(8) P(2,3) by (simp add: kpend_def)
      ultimately have "kinv ?s'" using V(3) by (simp add: kinv_def)
      moreover have "proctab ?s' = (proctab s)(p := ?e)" "mem ?s' = m2" "prcount ?s' = s32 (prcount s + 1)" by simp_all
      ultimately show ?thesis using run p p0 pr1 M(5,6)
        by (intro exI[of _ p] exI[of _ ?s'] conjI disjI2 exI[of _ sa] exI[of _ sp]) (simp_all del: kstate.select_convs)
    qed
  qed
qed

section \<open>kill\<close>

lemma sem_inv_remove:
  assumes "sem_inv s k" "p \<in> set (semq s k)" "scount (semtab s k) \<ge> - NPROC"
    and "semtab s' k = (semtab s k)\<lparr>scount := s32 (scount (semtab s k) + 1)\<rparr>"
    and "qlist s' (squeue (semtab s k)) = remove1 p (semq s k)"
  shows "sem_inv s' k"
proof -
  have ne: "semq s k \<noteq> []" using assms(2) by auto
  then have c: "sstate (semtab s k) \<noteq> S_FREE" "scount (semtab s k) < 0"
    "int (length (semq s k)) = - scount (semtab s k)"
    using assms(1) unfolding sem_inv_def by (auto split: if_splits)
  have "s32 (scount (semtab s k) + 1) = scount (semtab s k) + 1" using c(2) assms(3) by (intro s32_id) auto
  moreover have "int (length (remove1 p (semq s k))) = - (scount (semtab s k) + 1)"
    using c(3) assms(2) ne by (simp add: length_remove1 of_nat_diff Suc_leI)
  ultimately show ?thesis using c(1,2) assms(4,5) unfolding sem_inv_def
    by (cases "remove1 p (semq s k)") auto
qed

lemma close_console:
  assumes "take 3 (prdesc e) = [0, 0, 0]" "null_console devtab"
  shows "close_list devtab (take 3 (prdesc e)) s = Some s"
  using assms by (simp add: close_null null_console_def)

lemma kill_self:
  assumes inv: "kinv s" and cur: "currpid s \<noteq> NULLPROC"
  obtains s' where "resched (s\<lparr>proctab := (proctab s)(currpid s := (proctab s (currpid s))\<lparr>prstate := PR_FREE\<rparr>)\<rparr>) = Some s'"
    "kinv s'" "prstate (proctab s' (currpid s)) = PR_FREE" "currpid s' = hd (rdy s)" "rdy s' = tl (rdy s)" "semtab s' = semtab s"
    "\<And>k. sem_ok k \<Longrightarrow> semq s' k = semq s k" "slp s' = slp s" "mem s' = mem s" "memlist s' = memlist s" "minheap s' = minheap s"
    "maxheap s' = maxheap s"
proof -
  let ?e = "(proctab s (currpid s))\<lparr>prstate := PR_FREE\<rparr>" and ?k = "pkont s (currpid s)"
  let ?s1 = "s\<lparr>proctab := (proctab s)(currpid s := ?e)\<rparr>"
  obtain s' where s': "resched (s\<lparr>proctab := (proctab s)(currpid s := ?e), pkont := (pkont s)(currpid s := ?k)\<rparr>) = Some s'"
    "kinv s'" "prstate (proctab s' (currpid s)) = prstate ?e" "currpid s' = hd (rdy s)" "rdy s' = tl (rdy s)"
    by (rule block_current[OF inv, of ?e ?k]) (use cur kinvD(8)[OF inv] in \<open>simp_all add: kpend_def\<close>)
  have r: "resched ?s1 = Some s'" using s'(1) by simp
  note V = kinvD[OF inv] and S = kloose_setup[OF kinvD(1,2)[OF inv]] and I = kq_ids[OF kinvD(1)[OF inv]]
  have "kq {currpid s} ?s1" by (rule kq_set_proc[OF S(1,2)]) (use kqD(4)[OF V(1) S(2)] cur in auto)
  then have "kq {} ?s1" by (rule kq_land) (auto simp: qof_def)
  from resched_rep[OF this] have f: "kframe {} ?s1 s'" using r V(3) by auto
  note f' = kframe_fields[OF f]
  have q: "qlist s' q = qlist s q" if "qid_ok (nextqid s) q" "q \<noteq> readylist s" for q
    using f that by (simp add: kframe_def kloose_def)
  show ?thesis
    by (rule that[OF r s'(2) _ s'(4,5)]) (use s'(3) f f' q I in \<open>auto simp: kframe_def\<close>)
qed

lemma kill_dequeue:
  assumes inv: "kinv s" and p: "pid_ok p" "p \<noteq> NULLPROC"
    and st: "qof s p = Some q" "q \<noteq> sleepq s"
    and sm: "sm = (if prstate (proctab s p) = PR_WAIT then
        (semtab s)(prsem (proctab s p) := (semtab s (prsem (proctab s p)))
          \<lparr>scount := s32 (scount (semtab s (prsem (proctab s p))) + 1)\<rparr>) else semtab s)"
  obtains t where "getitem p (queuetab s) = Some (p, t)"
    "kinv (s\<lparr>semtab := sm, queuetab := t, proctab := (proctab s)(p := (proctab s p)\<lparr>prstate := PR_FREE\<rparr>)\<rparr>)"
    "\<And>r. qid_ok (nextqid s) r \<Longrightarrow> queue_of t r = ((qlist s)(q := remove1 p (qlist s q))) r"
proof -
  note V = kinvD[OF inv] and I = kq_ids[OF kinvD(1)[OF inv]]
  obtain t where t: "getitem p (queuetab s) = Some (p, t)" "kq {p} (s\<lparr>queuetab := t\<rparr>)"
    "\<And>r. qid_ok (nextqid s) r \<Longrightarrow> queue_of t r = ((qlist s)(q := remove1 p (qlist s q))) r"
    using getitem_kq[OF V(1) p(1) st(1)] by blast
  let ?k = "prsem (proctab s p)" and ?e = "(proctab s p)\<lparr>prstate := PR_FREE\<rparr>"
  let ?s1 = "s\<lparr>semtab := sm, queuetab := t, mem := mem s\<rparr>"
  have sq: "squeue (sm j) = squeue (semtab s j)" for j by (simp add: sm)
  have semc: "sm j = semtab s j \<and> squeue (semtab s j) \<noteq> q \<or> prstate (proctab s p) = PR_WAIT \<and> j = ?k" if j: "sem_ok j" for j
  proof -
    consider "prstate (proctab s p) = PR_WAIT" "q = squeue (semtab s ?k)" "sem_ok ?k" |
      "prstate (proctab s p) \<noteq> PR_WAIT" "q = readylist s"
      using st kqD(5)[OF V(1) p(1)] by (auto simp: qof_def split: prstate.splits)
    then show ?thesis using I(5)[OF j] I(7)[OF j, of ?k] by cases (auto simp: sm)
  qed
  have sem: "sem_inv ?s1 j" if j: "sem_ok j" for j
    using semc[OF j]
  proof
    assume "sm j = semtab s j \<and> squeue (semtab s j) \<noteq> q"
    then show ?thesis using sem_inv_cong[OF ksemD[OF V(4) j], where s' = ?s1] t(3)[OF I(4)[OF j]] by simp
  next
    assume w: "prstate (proctab s p) = PR_WAIT \<and> j = ?k"
    have q: "q = squeue (semtab s j)" using w st(1) by (simp add: qof_def)
    have mem: "p \<in> set (semq s j)" using kqD(3)[OF V(1) I(4)[OF j]] st(1) p(1) q by simp
    have used: "sstate (semtab s j) = S_USED"
      using ksemD[OF V(4) j] mem by (cases "sstate (semtab s j)") (auto simp: sem_inv_def)
    show ?thesis
      by (rule sem_inv_remove[OF ksemD[OF V(4) j] mem sem_count_range(1)[OF V(1,4) j used]])
        (use w q t(3)[OF I(4)[OF j]] in \<open>simp_all add: sm\<close>)
  qed
  have "kq {p} ((s\<lparr>queuetab := t\<rparr>)\<lparr>semtab := sm\<rparr>)"
    using kq_set_sem(1)[OF t(2), of "sm ?k" ?k] t(2) by (auto simp: sm)
  moreover have perm: "(s\<lparr>queuetab := t\<rparr>)\<lparr>semtab := sm\<rparr> = ?s1" by (rule kstate.equality) simp_all
  ultimately have kq1: "kq {p} ?s1" by (simp only:)
  have "p \<noteq> currpid s" using V(2) st(1) by (auto simp: eligible_def qof_def)
  then have K: "kinv (?s1\<lparr>proctab := (proctab s)(p := ?e)\<rparr>)"
    by (intro retire[OF inv kq1 p _ _ _ _ _ refl])
      (use sem V(6) kqD(4)[OF V(1) p(1)] in \<open>simp_all add: ksem_def stk_ok_def\<close>)
  moreover have "?s1\<lparr>proctab := (proctab s)(p := ?e)\<rparr> = s\<lparr>semtab := sm, queuetab := t, proctab := (proctab s)(p := ?e)\<rparr>"
    by (rule kstate.equality) simp_all
  ultimately show ?thesis using that[OF t(1) _ t(3)] by (simp only:)
qed

lemma kill_sleeper:
  assumes inv: "kinv s" and p: "pid_ok p" "p \<noteq> NULLPROC" and st: "prstate (proctab s p) \<in> {PR_SLEEP, PR_RECTIM}"
  obtains t where "unsleep p s = Some (OK, s\<lparr>queuetab := t\<rparr>)"
    "kinv (s\<lparr>queuetab := t, proctab := (proctab s)(p := (proctab s p)\<lparr>prstate := PR_FREE\<rparr>)\<rparr>)"
    "\<And>q. qid_ok (nextqid s) q \<Longrightarrow> queue_of t q = ((qlist s)(sleepq s := remove1 p (slp s))) q"
proof -
  note V = kinvD[OF inv] and I = kq_ids[OF kinvD(1)[OF inv]]
  obtain t where t: "unsleep p s = Some (OK, s\<lparr>queuetab := t\<rparr>)" "kq {p} (s\<lparr>queuetab := t\<rparr>)"
    "\<And>q. qid_ok (nextqid s) q \<Longrightarrow> queue_of t q = ((qlist s)(sleepq s := remove1 p (slp s))) q"
    using unsleep_kq[OF V(1) p(1) st] by metis
  let ?s1 = "s\<lparr>semtab := semtab s, queuetab := t, mem := mem s\<rparr>"
  have "semq ?s1 k = semq s k" if "sem_ok k" for k using t(3)[OF I(4)[OF that]] I(6)[OF that] by simp
  then have sem: "ksem ?s1" unfolding ksem_def using sem_inv_cong[OF ksemD[OF V(4)], where s' = ?s1] by simp
  have "p \<noteq> currpid s" using V(2) st by (auto simp: eligible_def)
  then have "kinv (?s1\<lparr>proctab := (proctab s)(p := (proctab s p)\<lparr>prstate := PR_FREE\<rparr>)\<rparr>)"
    by (intro retire[OF inv _ p _ _ _ _ _ refl sem]) (use t(2) V(6) kqD(4)[OF V(1) p(1)] in \<open>simp_all add: stk_ok_def\<close>)
  then show ?thesis using that[OF t(1) _ t(3)] by simp
qed

lemma kill_unqueued:
  assumes inv: "kinv s" and p: "pid_ok p" "p \<noteq> NULLPROC" and st: "prstate (proctab s p) \<in> {PR_FREE, PR_RECV, PR_SUSP}"
  shows "kinv (s\<lparr>proctab := (proctab s)(p := (proctab s p)\<lparr>prstate := PR_FREE\<rparr>)\<rparr>)"
proof -
  note V = kinvD[OF inv]
  let ?s1 = "s\<lparr>semtab := semtab s, queuetab := queuetab s, mem := mem s\<rparr>"
  have kq: "kq {p} ?s1" using kq_float[OF V(1), of p] st by (auto simp: qof_def)
  have "p \<noteq> currpid s" using V(2) st by (auto simp: eligible_def)
  then have "kinv (?s1\<lparr>proctab := (proctab s)(p := (proctab s p)\<lparr>prstate := PR_FREE\<rparr>)\<rparr>)"
    by (intro retire[OF inv kq p _ _ _ _ _ refl]) (use V(4,6) kqD(4)[OF V(1) p(1)] in \<open>simp_all add: stk_ok_def\<close>)
  then show ?thesis by simp
qed

text \<open>Once the message to the parent is sent, \<open>kill\<close> frees the victim whatever it is doing: its stack
  goes back to the heap, it leaves the queue it is on, and a semaphore it waits for is given back.\<close>

definition stack_bytes :: "procent \<Rightarrow> nat set" where
  "stack_bytes e = (let b = unat (prstkbase e - roundmb (prstklen e) + 4) in {b..<b + unat (roundmb (prstklen e))})"

text \<open>The heap after the stack is returned; a stack that overlaps free memory is refused.\<close>

definition stack_freed :: "procent \<Rightarrow> 'z kstate_scheme \<Rightarrow> 'z kstate_scheme \<Rightarrow> bool" where
  "stack_freed e s s' \<longleftrightarrow> (\<exists>xs ys. heap_rep (memlist s) (unat (minheap s)) (unat (maxheap s)) (mem s) xs \<and>
     heap_rep (memlist s') (unat (minheap s')) (unat (maxheap s')) (mem s') ys \<and>
     free_bytes ys = free_bytes xs \<union> (if prstklen e = 0 \<or> stack_bytes e \<inter> free_bytes xs \<noteq> {} then {} else stack_bytes e))"

text \<open>The victim is on no queue, the others keep their places, and a semaphore it waited on counts one more.\<close>

definition off_queues :: "int \<Rightarrow> 'z kstate_scheme \<Rightarrow> 'z kstate_scheme \<Rightarrow> bool" where
  "off_queues p s s' \<longleftrightarrow> (\<forall>k. sem_ok k \<longrightarrow> semq s' k = remove1 p (semq s k) \<and> sstate (semtab s' k) = sstate (semtab s k) \<and>
       scount (semtab s' k) = scount (semtab s k) + (if p \<in> set (semq s k) then 1 else 0)) \<and>
     slp s' = remove1 p (slp s) \<and>
     (if prstate (proctab s p) = PR_CURR then currpid s' = hd (rdy s) \<and> rdy s' = tl (rdy s)
      else currpid s' = currpid s \<and> rdy s' = remove1 p (rdy s) \<and> (\<forall>q. q \<noteq> p \<longrightarrow> proctab s' q = proctab s q))"

lemma freestk_frees:
  assumes heap: "kheap s" and stk: "stk_ok s e"
  obtains r m where "freestk_k (prstkbase e) (prstklen e) s = Some (r, s\<lparr>mem := m\<rparr>)" "kheap (s\<lparr>mem := m\<rparr>)" "stack_freed e s (s\<lparr>mem := m\<rparr>)"
proof -
  obtain xs where rep: "heap_rep (memlist s) (unat (minheap s)) (unat (maxheap s)) (mem s) xs"
    using heap by (auto simp: kheap_def)
  note H = heap_repD[OF rep]
  let ?b = "prstkbase e - roundmb (prstklen e) + 4" and ?n = "roundmb (prstklen e)"
  have lo: "unat (minheap s) < 2 ^ 32" using unsigned_less[of "minheap s"] by simp
  have bytes: "stack_bytes e = {unat ?b..<unat ?b + unat ?n}" by (simp add: stack_bytes_def Let_def)
  obtain r m ys where fm: "freemem (memlist s) (minheap s) (maxheap s) ?b ?n (mem s) = Some (r, m)"
    "heap_rep (memlist s) (unat (minheap s)) (unat (maxheap s)) m ys"
    "free_bytes ys = free_bytes xs \<union> (if prstklen e = 0 \<or> stack_bytes e \<inter> free_bytes xs \<noteq> {} then {} else stack_bytes e)"
  proof (cases "prstklen e = 0")
    case True
    then have "?n = 0" by (simp add: roundmb_def)
    then show ?thesis using that[of SYSERR "mem s" xs] rep True by (simp add: freemem_def)
  next
    case False
    then have S: "unat (prstklen e) + 7 < 2 ^ 32" "8 dvd unat ?b" "unat (minheap s) \<le> unat ?b"
      "unat ?b + unat ?n \<le> unat (maxheap s)" using stk by (simp_all add: stk_ok_def)
    have n8: "8 \<le> unat ?n" by (rule roundmb_pos[OF False S(1)])
    have n7: "unat ?n + 7 < 2 ^ 32" using S(3,4) H(3,4) by simp
    have rr: "roundmb ?n = ?n" by (rule roundmb_id[OF roundmb_dvd n7])
    have "?n \<noteq> 0" using n8 by auto
    note R = freemem_rep[OF rep lo refl refl this n7 S(2,3), unfolded rr, OF S(4)]
    show ?thesis
    proof (cases "{unat ?b..<unat ?b + unat ?n} \<inter> free_bytes xs \<noteq> {}")
      case True
      then show ?thesis using that[of SYSERR "mem s" xs] R rep by (simp add: bytes)
    next
      case no: False
      then obtain m' where m': "freemem (memlist s) (minheap s) (maxheap s) ?b ?n (mem s) = Some (OK, m')"
        "free_post (memlist s) (unat (minheap s)) (unat (maxheap s)) ?b ?n (mem s) xs m' (fl_free ?b ?n xs)"
        "free_bytes (fl_free ?b ?n xs) = free_bytes xs \<union> stack_bytes e"
        using R unfolding bytes by auto
      have d: "stack_bytes e \<inter> free_bytes xs = {}" using no unfolding bytes by blast
      have "heap_rep (memlist s) (unat (minheap s)) (unat (maxheap s)) m' (fl_free ?b ?n xs)"
        using m'(2) by (simp add: free_post_def)
      then show ?thesis using that[OF m'(1)] m'(3) False d by simp
    qed
  qed
  have "kheap (s\<lparr>mem := m\<rparr>)" using fm(2) by (auto simp: kheap_def)
  moreover have "stack_freed e s (s\<lparr>mem := m\<rparr>)"
    unfolding stack_freed_def using rep fm(2,3) by (intro exI[of _ xs] exI[of _ ys] conjI) simp_all
  ultimately show ?thesis using that[of r m] fm(1) by (simp add: freestk_k_def freestk_def on_mem_def)
qed

lemma off_queues_remove:
  assumes kq: "kq {} s" and p: "pid_ok p" and c: "prstate (proctab s p) \<noteq> PR_CURR"
    and q: "\<And>r. qid_ok (nextqid s) r \<Longrightarrow> qlist s' r = (if qof s p = Some r then remove1 p (qlist s r) else qlist s r)"
    and k: "\<And>k. sem_ok k \<Longrightarrow> semtab s' k = (semtab s k)\<lparr>scount := scount (semtab s k) + (if qof s p = Some (squeue (semtab s k)) then 1 else 0)\<rparr>"
    and f: "currpid s' = currpid s" "readylist s' = readylist s" "sleepq s' = sleepq s" "\<And>q. q \<noteq> p \<Longrightarrow> proctab s' q = proctab s q"
  shows "off_queues p s s'"
proof -
  note I = kq_ids[OF kq]
  have on: "p \<in> set (qlist s r) \<longleftrightarrow> qof s p = Some r" if "qid_ok (nextqid s) r" for r using kqD(3)[OF kq that] p by simp
  have l: "qlist s' r = remove1 p (qlist s r)" if "qid_ok (nextqid s) r" for r
    using q[OF that] on[OF that] by (auto simp: remove1_idem)
  have "semq s' j = remove1 p (semq s j)" "sstate (semtab s' j) = sstate (semtab s j)"
    "scount (semtab s' j) = scount (semtab s j) + (if p \<in> set (semq s j) then 1 else 0)" if "sem_ok j" for j
    using k[OF that] l[OF I(4)[OF that]] on[OF I(4)[OF that]] by simp_all
  then show ?thesis unfolding off_queues_def using l[OF I(1)] l[OF I(2)] f c by simp
qed

theorem kill_rest_does:
  assumes inv: "kinv s" and p: "pid_ok p" "p \<noteq> NULLPROC" and dev: "null_console devtab"
  shows "\<exists>s'. kill_rest devtab p s = Some (if prstate (proctab s p) = PR_CURR then Pending else Done OK, s') \<and>
    kinv s' \<and> prstate (proctab s' p) = PR_FREE \<and> off_queues p s s' \<and> stack_freed (proctab s p) s s'"
proof -
  note V = kinvD[OF inv]
  have stk: "stk_ok s (proctab s p)" using V(7) p by (simp add: kstk_def)
  obtain r m where m: "freestk_k (prstkbase (proctab s p)) (prstklen (proctab s p)) s = Some (r, s\<lparr>mem := m\<rparr>)"
    "kheap (s\<lparr>mem := m\<rparr>)" "stack_freed (proctab s p) s (s\<lparr>mem := m\<rparr>)" using freestk_frees[OF V(6) stk] by metis
  have cl: "close_list devtab (take 3 (prdesc (proctab s p))) s = Some s"
    using stk dev by (intro close_console) (simp_all add: stk_ok_def)
  obtain s1 where s1: "s1 = s\<lparr>mem := m\<rparr>" by blast
  have inv1: "kinv s1" using V m(2) by (simp add: kinv_def s1)
  have pt: "proctab s1 = proctab s" "semtab s1 = semtab s" "queuetab s1 = queuetab s" by (simp_all add: s1)
  note start = kill_rest_def cl p range_simps m(1)[folded s1]
  have wait: "sem_ok (prsem (proctab s p))" if "prstate (proctab s p) = PR_WAIT"
    using kqD(5)[OF V(1) p(1) that] .
  note I = kq_ids[OF kinvD(1)[OF inv1]] and I0 = kq_ids[OF V(1)]
  have fr: "stack_freed (proctab s p) s s'" if "mem s' = m" "memlist s' = memlist s" "minheap s' = minheap s" "maxheap s' = maxheap s" for s' :: "'a kstate_scheme"
    using m(3) that by (simp add: stack_freed_def)
  have un: ?thesis if u: "prstate (proctab s p) \<in> {PR_FREE, PR_RECV, PR_SUSP}"
  proof -
    let ?s = "s1\<lparr>proctab := (proctab s1)(p := (proctab s1 p)\<lparr>prstate := PR_FREE\<rparr>)\<rparr>"
    have "qof s p = None" using u by (auto simp: qof_def)
    then have "off_queues p s ?s" by (intro off_queues_remove[OF V(1) p(1)]) (use u in \<open>auto simp: s1\<close>)
    moreover have "stack_freed (proctab s p) s ?s" by (rule fr) (simp_all add: s1)
    moreover have "kill_rest devtab p s = Some (Done OK, ?s)" using u by (auto simp: start pt)
    ultimately show ?thesis using kill_unqueued[OF inv1 p] u by (auto simp: pt)
  qed
  have sl: ?thesis if u: "prstate (proctab s p) \<in> {PR_SLEEP, PR_RECTIM}"
  proof -
    have st: "prstate (proctab s1 p) \<in> {PR_SLEEP, PR_RECTIM}" using u by (simp add: pt)
    obtain t where t: "unsleep p s1 = Some (OK, s1\<lparr>queuetab := t\<rparr>)"
      "kinv (s1\<lparr>queuetab := t, proctab := (proctab s1)(p := (proctab s1 p)\<lparr>prstate := PR_FREE\<rparr>)\<rparr>)"
      "\<And>q. qid_ok (nextqid s1) q \<Longrightarrow> queue_of t q = ((qlist s1)(sleepq s1 := remove1 p (slp s1))) q"
      using kill_sleeper[OF inv1 p st] by metis
    let ?s = "s1\<lparr>queuetab := t, proctab := (proctab s1)(p := (proctab s1 p)\<lparr>prstate := PR_FREE\<rparr>)\<rparr>"
    have qf: "qof s p = Some (sleepq s)" using u by (auto simp: qof_def)
    have "sem_ok k \<Longrightarrow> sleepq s \<noteq> squeue (semtab s k)" for k using I0(6)[of k] by auto
    then have "off_queues p s ?s"
      by (intro off_queues_remove[OF V(1) p(1)]) (use u t(3) in \<open>auto simp: s1 qf\<close>)
    moreover have "stack_freed (proctab s p) s ?s" by (rule fr) (simp_all add: s1)
    moreover have "kill_rest devtab p s = Some (Done OK, ?s)" using u t(1) by (auto simp: start pt)
    ultimately show ?thesis using t(2) u by (auto simp: pt)
  qed
  show ?thesis
  proof (cases "prstate (proctab s p)")
    case PR_CURR
    have c: "p = currpid s1" using kqD(8)[OF V(1) p(1) PR_CURR] by (simp add: s1)
    with p(2) have "currpid s1 \<noteq> NULLPROC" by simp
    then obtain s' where s': "resched (s1\<lparr>proctab := (proctab s1)(p := (proctab s1 p)\<lparr>prstate := PR_FREE\<rparr>)\<rparr>) = Some s'"
      "kinv s'" "prstate (proctab s' p) = PR_FREE" "currpid s' = hd (rdy s1)" "rdy s' = tl (rdy s1)" "semtab s' = semtab s1"
      "\<And>k. sem_ok k \<Longrightarrow> semq s' k = semq s1 k" "slp s' = slp s1" "mem s' = mem s1" "memlist s' = memlist s1" "minheap s' = minheap s1"
      "maxheap s' = maxheap s1" using kill_self[OF inv1] c by metis
    have "kill_rest devtab p s = Some (Pending, s')" using PR_CURR s'(1) by (simp add: start pt)
    moreover have "stack_freed (proctab s p) s s'" by (rule fr) (use s'(9-12) in \<open>simp_all add: s1\<close>)
    moreover have "qof s p = None" using PR_CURR by (simp add: qof_def)
    then have "p \<notin> set (qlist s r)" if "qid_ok (nextqid s) r" for r using kqD(3)[OF V(1) that] by simp
    then have "off_queues p s s'" using s'(4-8) I0(2,4) PR_CURR by (simp add: off_queues_def s1 remove1_idem)
    ultimately show ?thesis using s'(2,3) PR_CURR by simp
  next
    case PR_WAIT
    have q: "qof s1 p = Some (squeue (semtab s1 (prsem (proctab s p))))" using PR_WAIT by (simp add: qof_def pt)
    let ?k = "prsem (proctab s p)"
    let ?sm = "(semtab s)(?k := (semtab s ?k)\<lparr>scount := s32 (scount (semtab s ?k) + 1)\<rparr>)"
    obtain t where t: "getitem p (queuetab s) = Some (p, t)"
      "kinv (s1\<lparr>semtab := ?sm, queuetab := t, proctab := (proctab s)(p := (proctab s p)\<lparr>prstate := PR_FREE\<rparr>)\<rparr>)"
      "\<And>r. qid_ok (nextqid s) r \<Longrightarrow> queue_of t r = ((qlist s)(squeue (semtab s ?k) := remove1 p (semq s ?k))) r"
      using kill_dequeue[OF inv1 p q I(6)[OF wait[OF PR_WAIT]] refl] PR_WAIT by (auto simp: pt s1)
    let ?s = "s1\<lparr>semtab := ?sm, queuetab := t, proctab := (proctab s)(p := (proctab s p)\<lparr>prstate := PR_FREE\<rparr>)\<rparr>"
    have qf: "qof s p = Some (squeue (semtab s ?k))" using PR_WAIT by (simp add: qof_def)
    have mem: "p \<in> set (semq s ?k)" using kqD(3)[OF V(1) I0(4)[OF wait[OF PR_WAIT]]] qf p(1) by simp
    have used: "sstate (semtab s ?k) = S_USED"
      using ksemD[OF V(4) wait[OF PR_WAIT]] mem by (cases "sstate (semtab s ?k)") (auto simp: sem_inv_def)
    have neg: "scount (semtab s ?k) < 0" "- (2 ^ 31) \<le> scount (semtab s ?k)"
      using ksemD[OF V(4) wait[OF PR_WAIT]] mem used sem_count_range[OF V(1,4) wait[OF PR_WAIT] used]
      by (auto simp: sem_inv_def split: if_splits)
    have s32: "s32 (scount (semtab s ?k) + 1) = scount (semtab s ?k) + 1" by (rule s32_id) (use neg in auto)
    have other: "squeue (semtab s ?k) = squeue (semtab s j) \<longleftrightarrow> j = ?k" if "sem_ok j" for j using I0(7)[OF wait[OF PR_WAIT] that] by auto
    have "off_queues p s ?s"
      by (rule off_queues_remove[OF V(1) p(1)]) (use PR_WAIT t(3) other s32 in \<open>auto simp: s1 qf\<close>)
    moreover have "stack_freed (proctab s p) s ?s" by (rule fr) (simp_all add: s1)
    moreover have "kill_rest devtab p s = Some (Done OK, ?s)" using PR_WAIT t(1) wait by (simp add: start pt on_qtab_def)
    ultimately show ?thesis using t(2) PR_WAIT by auto
  next
    case PR_READY
    have q: "qof s1 p = Some (readylist s1)" using PR_READY by (simp add: qof_def pt)
    obtain t where t: "getitem p (queuetab s) = Some (p, t)"
      "kinv (s1\<lparr>semtab := semtab s, queuetab := t, proctab := (proctab s)(p := (proctab s p)\<lparr>prstate := PR_FREE\<rparr>)\<rparr>)"
      "\<And>r. qid_ok (nextqid s) r \<Longrightarrow> queue_of t r = ((qlist s)(readylist s := remove1 p (rdy s))) r"
      using kill_dequeue[OF inv1 p q I(3) refl] PR_READY by (auto simp: pt s1)
    let ?s = "s1\<lparr>semtab := semtab s, queuetab := t, proctab := (proctab s)(p := (proctab s p)\<lparr>prstate := PR_FREE\<rparr>)\<rparr>"
    have qf: "qof s p = Some (readylist s)" using PR_READY by (simp add: qof_def)
    have "sem_ok k \<Longrightarrow> readylist s \<noteq> squeue (semtab s k)" for k using I0(5)[of k] by auto
    then have "off_queues p s ?s"
      by (intro off_queues_remove[OF V(1) p(1)]) (use PR_READY t(3) in \<open>auto simp: s1 qf\<close>)
    moreover have "stack_freed (proctab s p) s ?s" by (rule fr) (simp_all add: s1)
    moreover have "s1\<lparr>semtab := semtab s\<rparr> = s1" by (simp add: s1)
    then have "kill_rest devtab p s = Some (Done OK, ?s)" using PR_READY t(1) by (simp add: start pt on_qtab_def s1)
    ultimately show ?thesis using t(2) PR_READY by auto
  qed (use un sl in simp_all)
qed

theorem kill_rest_inv:
  assumes "kinv s" "pid_ok p" "p \<noteq> NULLPROC" "null_console devtab"
  shows "\<exists>s'. kill_rest devtab p s = Some (if prstate (proctab s p) = PR_CURR then Pending else Done OK, s') \<and>
    kinv s' \<and> prstate (proctab s' p) = PR_FREE"
  using kill_rest_does[OF assms] by blast

section \<open>The message to the parent\<close>

lemma send_inv:
  assumes inv: "kinv s"
  shows "\<exists>r s'. send p m s = Some (r, s') \<and> kinv s'"
proof (cases "isbadpid p s \<or> prhasmsg (proctab s p)")
  case True
  then show ?thesis using send_error inv by blast
next
  case False
  then have p: "pid_ok p" "prstate (proctab s p) \<noteq> PR_FREE" "\<not> prhasmsg (proctab s p)" using isbadpid_iff by auto
  show ?thesis
  proof (cases "prstate (proctab s p) \<in> {PR_RECV, PR_RECTIM}")
    case True
    then show ?thesis using send_release[OF inv p(1)] by blast
  next
    case no: False
    then show ?thesis using send_store[OF inv p(1) _ p(3)] p(2) by auto
  qed
qed

lemma pend_inv:
  assumes inv: "kinv s" and k: "k \<noteq> Some K_receive" "\<And>v. k = Some (K_kill v) \<Longrightarrow> pid_ok v \<and> v \<noteq> NULLPROC"
    "\<And>v. k = Some (K_suspend v) \<Longrightarrow> pid_ok v"
  shows "kinv (s\<lparr>pkont := (pkont s)(currpid s := k)\<rparr>)"
proof -
  note V = kinvD[OF inv]
  have "kmsg (s\<lparr>pkont := (pkont s)(currpid s := k)\<rparr>)"
    using V(2,5) k(1) by (auto simp: kmsg_def msg_inv_def eligible_def)
  moreover have "kpend (s\<lparr>pkont := (pkont s)(currpid s := k)\<rparr>)" using V(8) k(2,3) by (simp add: kpend_def)
  ultimately show ?thesis using V by (simp add: kinv_def)
qed

theorem kill_inv:
  assumes inv: "kinv s"
  shows "\<exists>r s'. kill p s = Some (r, s') \<and> kinv s' \<and>
    (isbadpid p s \<or> p = NULLPROC \<longrightarrow> r = Done SYSERR \<and> s' = s)"
proof (cases "isbadpid p s \<or> p = NULLPROC")
  case True
  then show ?thesis using inv by (auto simp: kill_def)
next
  case False
  then have p: "pid_ok p" "p \<noteq> NULLPROC" using isbadpid_iff by auto
  let ?s = "s\<lparr>prcount := s32 (prcount s - 1)\<rparr>"
  have inv1: "kinv ?s" using inv by (simp add: kinv_def)
  show ?thesis
  proof (cases "prcount ?s \<le> 1")
    case True
    have "kinv (xdone ?s)" using inv1 by (simp add: xdone_def kinv_def)
    then show ?thesis using True False by (auto simp: kill_def Let_def)
  next
    case no: False
    have "kinv (?s\<lparr>pkont := (pkont ?s)(currpid ?s := Some (K_kill p))\<rparr>)"
      by (rule pend_inv[OF inv1]) (use p in simp_all)
    from send_inv[OF this, of "prparent (proctab s p)" "word_of_int p"] obtain r s' where
      "send (prparent (proctab s p)) (word_of_int p) (?s\<lparr>pkont := (pkont ?s)(currpid ?s := Some (K_kill p))\<rparr>) = Some (r, s')"
      "kinv s'" by blast
    then show ?thesis using no False p by (simp add: kill_def Let_def range_simps)
  qed
qed

end
