(* ===== verification/Kernel_Machine.thy ===== *)
theory Kernel_Machine
  imports Process_Inv System_Init
begin

text \<open>
  The kernel as a step machine. A step is a system call by the current process, a clock
  interrupt, or, when the current process has just been switched back to inside a call, the rest
  of that call. Kernel code runs with interrupts disabled, so steps do not interleave. The
  invariant holds in every reachable state and no step is stuck.
\<close>

section \<open>Calls and steps\<close>

datatype syscall =
    Wait int | Signal int | Signaln int int | Semcreate int | Semdelete int | Semreset int int
  | Send int uint32 | Receive | Recvclr | Recvtime int
  | Create uint32 uint32 int string "uint32 list" | Resume int | Suspend int | Kill int | Chprio int int
  | Sleepms uint32 | Yield | Getmem uint32 | Freemem uint32 uint32

definition after :: "('a \<times> 's) option \<Rightarrow> 's option" where
  "after r = map_option snd r"

fun run_call :: "uint32 \<Rightarrow> syscall \<Rightarrow> 'z kstate_scheme \<Rightarrow> 'z kstate_scheme option" where
  "run_call initret (Wait k) s = after (wait k s)"
| "run_call initret (Signal k) s = after (signal k s)"
| "run_call initret (Signaln k n) s = after (signaln k n s)"
| "run_call initret (Semcreate n) s = after (semcreate n s)"
| "run_call initret (Semdelete k) s = after (semdelete k s)"
| "run_call initret (Semreset k n) s = after (semreset k n s)"
| "run_call initret (Send p m) s = after (send p m s)"
| "run_call initret Receive s = after (receive s)"
| "run_call initret Recvclr s = after (recvclr s)"
| "run_call initret (Recvtime w) s = after (recvtime w s)"
| "run_call initret (Create pa sz prio nm args) s = after (create initret pa sz prio nm args s)"
| "run_call initret (Resume p) s = after (resume p s)"
| "run_call initret (Suspend p) s = after (suspend p s)"
| "run_call initret (Kill p) s = after (kill p s)"
| "run_call initret (Chprio p n) s = after (chprio p n s)"
| "run_call initret (Sleepms d) s = after (sleepms d s)"
| "run_call initret Yield s = after (yield s)"
| "run_call initret (Getmem n) s = after (getmem_k n s)"
| "run_call initret (Freemem b n) s = after (freemem_k b n s)"

text \<open>The rest of a call, when its process is running again.\<close>

definition run_kont :: "'z kstate_scheme devtab \<Rightarrow> 'z kstate_scheme \<Rightarrow> 'z kstate_scheme option" where
  "run_kont devtab s =
     (let s0 = s\<lparr>pkont := (pkont s)(currpid s := None)\<rparr> in
      case pkont s (currpid s) of
        None \<Rightarrow> Some s
      | Some K_receive \<Rightarrow> after (receive_rest s0)
      | Some K_recvtime \<Rightarrow> after (recvtime_rest s0)
      | Some (K_suspend p) \<Rightarrow> after (suspend_rest p s0)
      | Some (K_kill p) \<Rightarrow> after (kill_rest devtab p s0)
      | Some K_clkhandler \<Rightarrow> clkhandler_rest s0)"

text \<open>
  What a call may be asked for. The null process must not block (it is always on the ready list or
  running); a semaphore count must not overflow; numbers are in the range of their C types; the
  arguments of a new process fit on its stack; a freed block lies inside the heap.
\<close>

fun legal :: "syscall \<Rightarrow> 'z kstate_scheme \<Rightarrow> bool" where
  "legal (Wait k) s = (currpid s \<noteq> NULLPROC)"
| "legal (Signal k) s = (sem_ok k \<longrightarrow> sstate (semtab s k) = S_USED \<longrightarrow> scount (semtab s k) < 2 ^ 31 - 1)"
| "legal (Signaln k n) s = (sem_ok k \<longrightarrow> sstate (semtab s k) = S_USED \<longrightarrow> scount (semtab s k) + n < 2 ^ 31)"
| "legal (Semcreate n) s = (n < 2 ^ 31)"
| "legal (Semdelete k) s = True"
| "legal (Semreset k n) s = (n < 2 ^ 31)"
| "legal (Send p m) s = True"
| "legal Receive s = (currpid s \<noteq> NULLPROC)"
| "legal Recvclr s = True"
| "legal (Recvtime w) s = (currpid s \<noteq> NULLPROC \<and> w < 2 ^ 31)"
| "legal (Create pa sz prio nm args) s =
     (prio_ok prio \<and> unat sz + 10 < 2 ^ 32 \<and> 4 * (16 + length (drop 4 args)) \<le> unat (roundmb (stack_size sz)))"
| "legal (Resume p) s = True"
| "legal (Suspend p) s = True"
| "legal (Kill p) s = True"
| "legal (Chprio p n) s = prio_ok n"
| "legal (Sleepms d) s = (currpid s \<noteq> NULLPROC)"
| "legal Yield s = True"
| "legal (Getmem n) s = (unat n + 7 < 2 ^ 32)"
| "legal (Freemem b n) s = (unat n + 7 < 2 ^ 32 \<and> 8 dvd unat b \<and> unat (minheap s) \<le> unat b \<and>
     unat b + unat (roundmb n) \<le> unat (maxheap s))"

inductive kstep :: "uint32 \<Rightarrow> 'z kstate_scheme devtab \<Rightarrow> 'z kstate_scheme \<Rightarrow> 'z kstate_scheme \<Rightarrow> bool"
  for initret devtab where
  call: "\<lbrakk>\<not> halted s; pkont s (currpid s) = None; legal c s; run_call initret c s = Some s'\<rbrakk>
    \<Longrightarrow> kstep initret devtab s s'"
| clock: "\<lbrakk>\<not> halted s; pkont s (currpid s) = None; clkhandler True s = Some (r, s')\<rbrakk>
    \<Longrightarrow> kstep initret devtab s s'"
| finish: "\<lbrakk>\<not> halted s; pkont s (currpid s) \<noteq> None; run_kont devtab s = Some s'\<rbrakk>
    \<Longrightarrow> kstep initret devtab s s'"

inductive_cases kstep_elim: "kstep initret devtab s s'"

section \<open>Calls on every branch\<close>

lemma after_Some [simp]: "after (Some (a, s)) = Some s"
  by (simp add: after_def)

lemma afterI: "\<exists>r s'. f = Some (r, s') \<and> P s' \<Longrightarrow> \<exists>s'. after f = Some s' \<and> P s'"
  by auto

lemma semstate_free: "sstate e \<noteq> S_FREE \<longleftrightarrow> sstate e = S_USED"
  by (cases "sstate e") simp_all

lemma wait_step: "kinv s \<Longrightarrow> legal (Wait k) s \<Longrightarrow> \<exists>s'. after (wait k s) = Some s' \<and> kinv s'"
proof (cases "sem_ok k \<and> sstate (semtab s k) = S_USED")
  case True
  assume A: "kinv s" "legal (Wait k) s"
  show ?thesis
  proof (cases "scount (semtab s k) > 0")
    case c: True
    then show ?thesis using wait_free[of s k] True A by auto
  next
    case False
    then show ?thesis using wait_block[of s k] True A by auto
  qed
next
  case False
  assume "kinv s"
  then show ?thesis using False semstate_free[of "semtab s k"] by (auto simp: wait_def isbadsem_def range_simps)
qed

lemma sem_call_error:
  assumes "\<not> (sem_ok k \<and> sstate (semtab s k) = S_USED)"
  shows "signal k s = Some (SYSERR, s)" "signaln k n s = Some (SYSERR, s)" "semdelete k s = Some (SYSERR, s)"
    "semreset k n s = Some (SYSERR, s)" "wait k s = Some (SYSERR, s)" "semcount k s = SYSERR"
  using assms semstate_free[of "semtab s k"]
  by (auto simp: wait_def signal_def signaln_def semdelete_def semreset_def semcount_def isbadsem_def range_simps)

lemma signal_step: "kinv s \<Longrightarrow> legal (Signal k) s \<Longrightarrow> \<exists>s'. after (signal k s) = Some s' \<and> kinv s'"
  by (cases "sem_ok k \<and> sstate (semtab s k) = S_USED") (use signal_inv[of s k] sem_call_error(1)[of k s] in auto)

lemma signaln_step: "kinv s \<Longrightarrow> legal (Signaln k n) s \<Longrightarrow> \<exists>s'. after (signaln k n s) = Some s' \<and> kinv s'"
proof (cases "sem_ok k \<and> sstate (semtab s k) = S_USED \<and> 0 \<le> n")
  case True
  assume "kinv s" "legal (Signaln k n) s"
  then show ?thesis using True signaln_inv[of s k n] by auto
next
  case False
  assume "kinv s"
  moreover have "signaln k n s = Some (SYSERR, s)"
    using False sem_call_error(2)[of k s n] by (cases "n < 0") (auto simp: signaln_def)
  ultimately show ?thesis by simp
qed

lemma semreset_step: "kinv s \<Longrightarrow> legal (Semreset k n) s \<Longrightarrow> \<exists>s'. after (semreset k n s) = Some s' \<and> kinv s'"
proof (cases "sem_ok k \<and> sstate (semtab s k) = S_USED \<and> 0 \<le> n")
  case True
  assume "kinv s" "legal (Semreset k n) s"
  then show ?thesis using True semreset_inv[of s k n] by auto
next
  case False
  assume "kinv s"
  moreover have "semreset k n s = Some (SYSERR, s)"
    using False sem_call_error(4)[of k s n] by (cases "n < 0") (auto simp: semreset_def)
  ultimately show ?thesis by simp
qed

lemma semdelete_step: "kinv s \<Longrightarrow> \<exists>s'. after (semdelete k s) = Some s' \<and> kinv s'"
  by (cases "sem_ok k \<and> sstate (semtab s k) = S_USED") (use semdelete_inv[of s k] sem_call_error(3)[of k s] in auto)

lemma semcreate_step: "kinv s \<Longrightarrow> legal (Semcreate n) s \<Longrightarrow> \<exists>s'. after (semcreate n s) = Some s' \<and> kinv s'"
proof (cases "0 \<le> n")
  case True
  assume A: "kinv s" "legal (Semcreate n) s"
  then obtain r s' where "semcreate n s = Some (r, s')" "kinv s'" using semcreate_inv[of s n] True by auto
  then show ?thesis by simp
next
  case False
  assume "kinv s"
  then show ?thesis using False by (simp add: semcreate_def)
qed

lemma receive_step:
  assumes "kinv s" "legal Receive s" "pkont s (currpid s) = None"
  shows "\<exists>s'. after (receive s) = Some s' \<and> kinv s'"
  by (cases "prhasmsg (proctab s (currpid s))")
    (use receive_block[of s] receive_now[of s] assms in auto)

lemma recvclr_step:
  assumes "kinv s" "pkont s (currpid s) = None"
  shows "\<exists>s'. after (recvclr s) = Some s' \<and> kinv s'"
  using recvclr_inv[of s] assms by auto

lemma recvtime_step:
  assumes "kinv s" "legal (Recvtime w) s" "pkont s (currpid s) = None"
  shows "\<exists>s'. after (recvtime w s) = Some s' \<and> kinv s'"
proof (cases "w < 0")
  case True
  then show ?thesis using assms(1) by (simp add: recvtime_def)
next
  case False
  then show ?thesis
    by (cases "prhasmsg (proctab s (currpid s))") (use recvtime_block[of s w] recvtime_now[of s w] assms in auto)
qed

lemma resume_step: "kinv s \<Longrightarrow> \<exists>s'. after (resume p s) = Some s' \<and> kinv s'"
proof (cases "pid_ok p \<and> prstate (proctab s p) = PR_SUSP")
  case True
  assume "kinv s"
  then show ?thesis using resume_inv[of s p] True by auto
next
  case False
  assume "kinv s"
  then show ?thesis using False by (auto simp: resume_def isbadpid_def range_simps)
qed

lemma suspend_step: "kinv s \<Longrightarrow> \<exists>s'. after (suspend p s) = Some s' \<and> kinv s'"
proof -
  assume inv: "kinv s"
  consider "\<not> pid_ok p \<or> p = NULLPROC \<or> \<not> runnable (prstate (proctab s p))" |
    "pid_ok p" "p \<noteq> NULLPROC" "prstate (proctab s p) = PR_CURR" |
    "pid_ok p" "p \<noteq> NULLPROC" "prstate (proctab s p) = PR_READY" by blast
  then show ?thesis
  proof cases
    case 1
    then show ?thesis using inv by (auto simp: suspend_def isbadpid_def range_simps)
  next
    case 2
    then have "p = currpid s" using kqD(8)[OF kinvD(1)[OF inv] 2(1,3)] by simp
    then show ?thesis using suspend_self[OF inv] 2(2) by auto
  next
    case 3
    then show ?thesis using suspend_ready[OF inv 3] by auto
  qed
qed

lemma chprio_step: "kinv s \<Longrightarrow> legal (Chprio p n) s \<Longrightarrow> \<exists>s'. after (chprio p n s) = Some s' \<and> kinv s'"
  by (cases "isbadpid p s") (use chprio_inv[of s p n] in \<open>auto simp: chprio_def isbadpid_iff isbadpid_def\<close>)

lemma sleepms_step: "kinv s \<Longrightarrow> legal (Sleepms d) s \<Longrightarrow> \<exists>s'. after (sleepms d s) = Some s' \<and> kinv s'"
proof (cases "d = 0")
  case True
  assume "kinv s"
  from yield_inv[OF this] show ?thesis using True by (auto simp: sleepms_def)
next
  case False
  assume "kinv s" "legal (Sleepms d) s"
  then show ?thesis using sleepms_inv[of s d] False by auto
qed

lemma getmem_k_step:
  assumes inv: "kinv s" and l: "legal (Getmem n) s"
  shows "\<exists>s'. after (getmem_k n s) = Some s' \<and> kinv s'"
proof (cases "n = 0")
  case True
  then show ?thesis using inv by (simp add: getmem_k_def on_mem_def getmem_def)
next
  case False
  obtain xs where rep: "heap_rep (memlist s) (unat (minheap s)) (unat (maxheap s)) (mem s) xs"
    using kinvD(6)[OF inv] by (auto simp: kheap_def)
  have lo: "unat (minheap s) < 2 ^ 32" using unsigned_less[of "minheap s"] by simp
  have n: "unat n + 7 < 2 ^ 32" using l by simp
  obtain r m where "getmem (memlist s) n (mem s) = Some (r, m)" "kheap (s\<lparr>mem := m\<rparr>)"
    using getmem_rep[OF rep lo False n] kinvD(6)[OF inv]
    by (cases "ff_alloc (roundmb n) xs") (auto simp: kheap_def alloc_post_def)
  then show ?thesis using kinv_mem[OF inv] by (auto simp: getmem_k_def on_mem_def)
qed

lemma freemem_k_step:
  assumes inv: "kinv s" and l: "legal (Freemem b n) s"
  shows "\<exists>s'. after (freemem_k b n s) = Some s' \<and> kinv s'"
proof (cases "n = 0")
  case True
  then show ?thesis using inv by (simp add: freemem_k_def on_mem_def freemem_def)
next
  case False
  obtain xs where rep: "heap_rep (memlist s) (unat (minheap s)) (unat (maxheap s)) (mem s) xs"
    using kinvD(6)[OF inv] by (auto simp: kheap_def)
  have lo: "unat (minheap s) < 2 ^ 32" using unsigned_less[of "minheap s"] by simp
  have L: "unat n + 7 < 2 ^ 32" "8 dvd unat b" "unat (minheap s) \<le> unat b"
    "unat b + unat (roundmb n) \<le> unat (maxheap s)" using l by simp_all
  obtain r m where "freemem (memlist s) (minheap s) (maxheap s) b n (mem s) = Some (r, m)" "kheap (s\<lparr>mem := m\<rparr>)"
    using freemem_rep[OF rep lo refl refl False L] rep
    by (cases "{unat b..<unat b + unat (roundmb n)} \<inter> free_bytes xs \<noteq> {}") (auto simp: kheap_def free_post_def)
  then show ?thesis using kinv_mem[OF inv] by (auto simp: freemem_k_def on_mem_def)
qed

section \<open>The invariant and progress\<close>

theorem run_call_inv:
  assumes inv: "kinv s" and k: "pkont s (currpid s) = None" and l: "legal c s"
  shows "\<exists>s'. run_call initret c s = Some s' \<and> kinv s'"
proof (cases c)
  case (Create pa sz prio nm args)
  then have "\<exists>r s'. create initret pa sz prio nm args s = Some (r, s') \<and> kinv s'"
    using create_inv[OF inv, of prio sz args initret pa nm] l by auto
  then show ?thesis using Create afterI by auto
next
  case (Kill p)
  have "\<exists>r s'. kill p s = Some (r, s') \<and> kinv s'" using kill_inv[OF inv, of p] by blast
  then show ?thesis using Kill by auto
next
  case (Send p m)
  then show ?thesis using send_inv[OF inv, of p m] by auto
next
  case Yield
  then show ?thesis using yield_inv[OF inv] by auto
next
  case (Recvtime w)
  then show ?thesis using recvtime_step[OF inv _ k, of w] l by simp
next
  case Receive
  then show ?thesis using receive_step[OF inv _ k] l by simp
qed (use inv k l in \<open>simp_all add: wait_step signal_step signaln_step semcreate_step semdelete_step
  semreset_step recvclr_step resume_step suspend_step chprio_step
  sleepms_step getmem_k_step freemem_k_step del: legal.simps\<close>)

text \<open>A process that is switched back to inside \<open>receive\<close> has a message, and gets it.\<close>

lemma pending_receive:
  assumes inv: "kinv s" and k: "pkont s (currpid s) = Some K_receive"
  shows "prhasmsg (proctab s (currpid s))"
  using kinvD(2,5)[OF inv] kqD(7)[OF kinvD(1)[OF inv]] k by (auto simp: kmsg_def msg_inv_def eligible_def)

theorem run_kont_inv:
  assumes inv: "kinv s" and dev: "null_console devtab"
  shows "\<exists>s'. run_kont devtab s = Some s' \<and> kinv s'"
proof -
  let ?s = "s\<lparr>pkont := (pkont s)(currpid s := None)\<rparr>"
  have inv0: "kinv ?s" by (rule pend_inv[OF inv]) simp_all
  have nr: "pkont ?s (currpid ?s) \<noteq> Some K_receive" by simp
  show ?thesis
  proof (cases "pkont s (currpid s)")
    case None
    then show ?thesis using inv by (simp add: run_kont_def)
  next
    case (Some k)
    show ?thesis
    proof (cases k)
      case K_receive
      then show ?thesis using Some receive_rest_inv[OF inv0 nr] by (auto simp: run_kont_def)
    next
      case K_recvtime
      then show ?thesis using Some recvtime_rest_inv[OF inv0 nr] by (auto simp: run_kont_def)
    next
      case (K_suspend v)
      then have "pid_ok v" using kinvD(8)[OF inv] Some by (auto simp: kpend_def)
      then show ?thesis using Some K_suspend inv0 by (simp add: run_kont_def suspend_rest_def range_simps)
    next
      case (K_kill v)
      then have "pid_ok v" "v \<noteq> NULLPROC" using kinvD(8)[OF inv] Some by (auto simp: kpend_def)
      from kill_rest_inv[OF inv0 this dev] show ?thesis using Some K_kill by (auto simp: run_kont_def)
    next
      case K_clkhandler
      obtain s' where "clkhandler_rest ?s = Some s'" "kinv s'" using clkhandler_rest_inv[OF inv0] by metis
      then show ?thesis using Some K_clkhandler by (simp add: run_kont_def)
    qed
  qed
qed

lemma clock_step: "kinv s \<Longrightarrow> \<exists>r s'. clkhandler ovf s = Some (r, s') \<and> kinv s'"
  using clkhandler_inv[of s] by (cases ovf) (auto simp: clkhandler_def)

lemma kstep_inv:
  assumes "kstep initret devtab s s'" "kinv s" "null_console devtab"
  shows "kinv s'"
  using assms(1)
proof cases
  case (call c)
  then show ?thesis using run_call_inv[OF assms(2), of c initret] by auto
next
  case (clock r)
  then show ?thesis using clock_step[OF assms(2), of True] by auto
next
  case finish
  then show ?thesis using run_kont_inv[OF assms(2,3)] by auto
qed

text \<open>What is enabled: with no call pending, every legal call and the clock's tick; otherwise the rest of the pending call. Each runs to its end.\<close>

lemma kstep_enabled:
  assumes inv: "kinv s" and dev: "null_console devtab" and h: "\<not> halted s"
  shows "if pkont s (currpid s) = None
    then (\<exists>r s'. clkhandler True s = Some (r, s') \<and> kstep initret devtab s s' \<and> kinv s') \<and>
      (\<forall>c. legal c s \<longrightarrow> (\<exists>s'. run_call initret c s = Some s' \<and> kstep initret devtab s s' \<and> kinv s'))
    else \<exists>s'. run_kont devtab s = Some s' \<and> kstep initret devtab s s' \<and> kinv s'"
proof (cases "pkont s (currpid s) = None")
  case True
  have "\<exists>r s'. clkhandler True s = Some (r, s') \<and> kstep initret devtab s s' \<and> kinv s'"
    using clock_step[OF inv, of True] kstep.clock[OF h True] by metis
  moreover have "\<exists>s'. run_call initret c s = Some s' \<and> kstep initret devtab s s' \<and> kinv s'" if "legal c s" for c
    using run_call_inv[OF inv True that, of initret] kstep.call[OF h True that] by metis
  ultimately show ?thesis using True by simp
next
  case False
  then show ?thesis using run_kont_inv[OF inv dev] kstep.finish[OF h False] by (metis (no_types, lifting))
qed

lemma kstep_total:
  assumes "kinv s" "null_console devtab" "\<not> halted s"
  shows "\<exists>s'. kstep initret devtab s s'"
proof (cases "pkont s (currpid s) = None")
  case True
  then show ?thesis using clock_step[OF assms(1), of True] kstep.clock assms(3) by metis
next
  case False
  then show ?thesis using run_kont_inv[OF assms(1,2)] kstep.finish assms(3) by metis
qed

section \<open>Reachable states\<close>

text \<open>The contract between a start-up routine, a step relation and an invariant, and what follows
  from it for every execution.\<close>

locale safe_machine =
  fixes init :: "'s \<Rightarrow> bool" and step :: "'s \<Rightarrow> 's \<Rightarrow> bool" and inv :: "'s \<Rightarrow> bool" and stopped :: "'s \<Rightarrow> bool"
  assumes init_inv: "init s \<Longrightarrow> inv s"
    and step_inv: "inv s \<Longrightarrow> step s s' \<Longrightarrow> inv s'"
    and step_total: "inv s \<Longrightarrow> \<not> stopped s \<Longrightarrow> \<exists>s'. step s s'"
begin

lemma steps_inv: "step\<^sup>*\<^sup>* s s' \<Longrightarrow> inv s \<Longrightarrow> inv s'"
  by (induction rule: rtranclp_induct) (auto intro: step_inv)

lemma reachable_inv: "init s \<Longrightarrow> step\<^sup>*\<^sup>* s s' \<Longrightarrow> inv s'"
  using steps_inv init_inv by blast

lemma reachable_not_stuck: "init s \<Longrightarrow> step\<^sup>*\<^sup>* s s' \<Longrightarrow> stopped s' \<or> (\<exists>s''. step s' s'')"
  using reachable_inv step_total by blast

end

interpretation kernel: safe_machine "\<lambda>s. booted s \<and> null_console devtab" "kstep initret devtab"
  "\<lambda>s. kinv s \<and> null_console devtab" halted for initret devtab
  by unfold_locales (use booted_inv kstep_inv kstep_total in \<open>blast+\<close>)

text \<open>The states the kernel can be in: \<open>sysinit_kernel\<close> on a loaded image, then any steps. What the
  device loop of \<open>sysinit\<close> asks of the kernel is system calls, which are such steps.\<close>

definition reachable :: "uint32 \<Rightarrow> 'z kstate_scheme devtab \<Rightarrow> 'z kstate_scheme \<Rightarrow> bool" where
  "reachable initret devtab s \<longleftrightarrow> null_console devtab \<and>
     (\<exists>end_addr s0 s1. loaded end_addr s0 \<and> unat end_addr + 8192 < unat MAXADDR \<and>
        sysinit_kernel end_addr s0 = Some s1 \<and> (kstep initret devtab)\<^sup>*\<^sup>* s1 s)"

lemma reachable_from_boot: "reachable initret devtab s \<Longrightarrow>
  \<exists>s1. booted s1 \<and> null_console devtab \<and> (kstep initret devtab)\<^sup>*\<^sup>* s1 s"
  unfolding reachable_def using sysinit_kernel_booted by (metis option.inject)

lemma reachable_kinv: "reachable initret devtab s \<Longrightarrow> kinv s"
  using reachable_from_boot kernel.reachable_inv by blast

lemma reachable_step: "reachable initret devtab s \<Longrightarrow> kstep initret devtab s s' \<Longrightarrow> reachable initret devtab s'"
  unfolding reachable_def by (meson rtranclp.rtrancl_into_rtrancl)

lemma reachable_null_console: "reachable initret devtab s \<Longrightarrow> null_console devtab"
  by (simp add: reachable_def)

lemma reachable_total: "reachable initret devtab s \<Longrightarrow> halted s \<or> (\<exists>s'. kstep initret devtab s s')"
  using reachable_from_boot kernel.reachable_not_stuck by blast

section \<open>What the invariant says of the queues\<close>

lemma qof_sem:
  assumes "kids s" "sem_ok k" "pid_ok p" "prstate (proctab s p) = PR_WAIT \<Longrightarrow> sem_ok (prsem (proctab s p))"
  shows "qof s p = Some (squeue (semtab s k)) \<longleftrightarrow> prstate (proctab s p) = PR_WAIT \<and> prsem (proctab s p) = k"
proof -
  note K = kidsD[OF assms(1)]
  have "squeue (semtab s k) \<noteq> readylist s" "squeue (semtab s k) \<noteq> sleepq s"
    "sem_ok j \<Longrightarrow> squeue (semtab s j) = squeue (semtab s k) \<longleftrightarrow> j = k" for j
    using K assms(2) by blast+
  then show ?thesis using assms(4) by (auto simp: qof_def split: prstate.splits)
qed

lemma waiters:
  assumes inv: "kinv s" and k: "sem_ok k"
  shows "set (semq s k) = {p. pid_ok p \<and> prstate (proctab s p) = PR_WAIT \<and> prsem (proctab s p) = k}"
    "distinct (semq s k)" "length (semq s k) \<le> nat NPROC"
proof -
  note Q = kqD[OF kinvD(1)[OF inv]]
  have ok: "qid_ok (nextqid s) (squeue (semtab s k))" using kidsD[OF Q(2)] k by blast
  show "set (semq s k) = {p. pid_ok p \<and> prstate (proctab s p) = PR_WAIT \<and> prsem (proctab s p) = k}"
    using Q(3)[OF ok] qof_sem[OF Q(2) k] Q(5) by auto
  show d: "distinct (semq s k)" by (rule qrepD(2)[OF Q(1) ok])
  have "set (semq s k) \<subseteq> {0..<NPROC}" using qrepD(3)[OF Q(1) ok] by auto
  from card_mono[OF _ this] show "length (semq s k) \<le> nat NPROC" by (simp add: distinct_card[OF d])
qed

lemma sem_count:
  assumes inv: "kinv s" and k: "sem_ok k" "sstate (semtab s k) = S_USED"
  shows "int (length (semq s k)) = max 0 (- scount (semtab s k))" "- NPROC \<le> scount (semtab s k)" "scount (semtab s k) < 2 ^ 31"
proof -
  have "sem_inv s k" by (rule ksemD[OF kinvD(4)[OF inv] k(1)])
  then show L: "int (length (semq s k)) = max 0 (- scount (semtab s k))" and "scount (semtab s k) < 2 ^ 31"
    using k(2) by (auto simp: sem_inv_def split: if_splits)
  show "- NPROC \<le> scount (semtab s k)" using L waiters(3)[OF inv k(1)] by simp
qed

lemma ready_list:
  assumes inv: "kinv s"
  shows "set (rdy s) = {p. pid_ok p \<and> prstate (proctab s p) = PR_READY}" "distinct (rdy s)"
    "sorted_wrt (\<lambda>p q. qkey (queuetab s p) \<ge> qkey (queuetab s q)) (rdy s)"
proof -
  note Q = kqD[OF kinvD(1)[OF inv]]
  have ok: "qid_ok (nextqid s) (readylist s)" using kidsD[OF Q(2)] by blast
  have "qof s p = Some (readylist s) \<longleftrightarrow> prstate (proctab s p) = PR_READY" if "pid_ok p" for p
  proof -
    have "readylist s \<noteq> sleepq s" "sem_ok k \<Longrightarrow> squeue (semtab s k) \<noteq> readylist s" for k using kidsD[OF Q(2)] by blast+
    then show ?thesis using Q(5)[OF that] by (auto simp: qof_def split: prstate.splits)
  qed
  then show "set (rdy s) = {p. pid_ok p \<and> prstate (proctab s p) = PR_READY}" using Q(3)[OF ok] by auto
  show "distinct (rdy s)" by (rule qrepD(2)[OF Q(1) ok])
  show "sorted_wrt (\<lambda>p q. qkey (queuetab s p) \<ge> qkey (queuetab s q)) (rdy s)" by (rule Q(6))
qed

lemma free_not_asleep:
  assumes inv: "kinv s" and f: "prstate (proctab s p) = PR_FREE"
  shows "p \<notin> set (slp s)"
proof
  assume m: "p \<in> set (slp s)"
  note Q = kqD[OF kinvD(1)[OF inv]]
  have ok: "qid_ok (nextqid s) (sleepq s)" using kidsD[OF Q(2)] by blast
  have "pid_ok p" using qrepD(3)[OF Q(1) ok] m by auto
  then have "qof s p = Some (sleepq s)" using Q(3)[OF ok] m by auto
  then show False using f by (simp add: qof_def)
qed

end
