(* ===== verification/Sleep_Time.thy ===== *)
theory Sleep_Time
  imports Clock
begin

text \<open>
  What the delays of the sleep queue mean: every entry keeps its distance from the one before, so the
  times at which the processes are due are the sums. On these times \<open>insertd\<close> is insertion in order, and
  removal leaves the other times as they were.
\<close>

fun due :: "int \<Rightarrow> (int \<times> int) list \<Rightarrow> (int \<times> int) list" where
  "due a [] = []"
| "due a ((p, d) # xs) = (p, a + d) # due (a + d) xs"

definition delays :: "(int \<times> int) list \<Rightarrow> bool" where
  "delays xs \<longleftrightarrow> (\<forall>(p, d) \<in> set xs. 0 \<le> d \<and> d < 2 ^ 31)"

lemma due_shift: "due (a + k) xs = map (\<lambda>(p, t). (p, t + k)) (due a xs)"
  by (induction a xs rule: due.induct) (auto simp: algebra_simps)

lemma due_ge: "delays xs \<Longrightarrow> (p, t) \<in> set (due a xs) \<Longrightarrow> a \<le> t"
  by (induction a xs rule: due.induct) (auto simp: delays_def)

lemma due_sorted: "delays xs \<Longrightarrow> sorted_wrt (\<le>) (map snd (due a xs))"
proof (induction a xs rule: due.induct)
  case (2 a p d xs)
  then have "delays xs" by (simp add: delays_def)
  then show ?case using "2.IH" due_ge[of xs _ _ "a + d"] by force
qed simp

text \<open>A process with delay \<open>k\<close> goes behind all that are due no later.\<close>

theorem delta_insert_due:
  assumes "delays xs" "0 \<le> k" "k < 2 ^ 31"
  shows "due a (delta_insert p k xs) =
    takeWhile (\<lambda>(q, t). t \<le> a + k) (due a xs) @ (p, a + k) # dropWhile (\<lambda>(q, t). t \<le> a + k) (due a xs)"
    "delays (delta_insert p k xs)"
proof -
  have "due a (delta_insert p k xs) =
      takeWhile (\<lambda>(q, t). t \<le> a + k) (due a xs) @ (p, a + k) # dropWhile (\<lambda>(q, t). t \<le> a + k) (due a xs) \<and>
    delays (delta_insert p k xs)"
    using assms
  proof (induction p k xs arbitrary: a rule: delta_insert.induct)
    case (2 p k x d xs)
    have xs: "delays xs" "0 \<le> d" "d < 2 ^ 31" using "2.prems"(1) by (auto simp: delays_def)
    show ?case
    proof (cases "d \<le> k")
      case True
      have s: "s32 (k - d) = k - d" using True xs "2.prems" by (intro s32_id) auto
      have "due (a + d) (delta_insert p (k - d) xs) =
          takeWhile (\<lambda>(q, t). t \<le> a + k) (due (a + d) xs) @ (p, a + k) # dropWhile (\<lambda>(q, t). t \<le> a + k) (due (a + d) xs)"
        "delays (delta_insert p (k - d) xs)"
        using "2.IH"[OF True, of "a + d"] xs True "2.prems" unfolding s by simp_all
      then show ?thesis using True s xs by (simp add: delays_def)
    next
      case False
      have s: "s32 (d - k) = d - k" using False xs "2.prems" by (intro s32_id) auto
      then show ?thesis using False xs "2.prems" by (auto simp: delays_def)
    qed
  qed (simp add: delays_def)
  then show "due a (delta_insert p k xs) =
      takeWhile (\<lambda>(q, t). t \<le> a + k) (due a xs) @ (p, a + k) # dropWhile (\<lambda>(q, t). t \<le> a + k) (due a xs)"
    "delays (delta_insert p k xs)" by simp_all
qed

text \<open>A clock tick brings every time one closer and takes off the processes that are due.\<close>

theorem tick_due:
  assumes xs: "delays xs" "\<And>p d ys. xs = (p, d) # ys \<Longrightarrow> 0 < d"
  shows "due 0 (tick xs) = filter (\<lambda>(q, t). 0 < t) (map (\<lambda>(q, t). (q, t - 1)) (due 0 xs))"
proof (cases xs)
  case (Cons x ys)
  obtain p d where x: "x = (p, d)" by (cases x)
  have d: "0 < d" "d < 2 ^ 31" "delays ys" using xs x Cons by (auto simp: delays_def)
  have s: "s32 (d - 1) = d - 1" using d by (intro s32_id) auto
  have sh: "map (\<lambda>(q, t). (q, t - 1)) (due d ys) = due (d - 1) ys"
    using due_shift[of d "- 1" ys] by (simp add: case_prod_beta)
  have pos: "filter (\<lambda>(q, t). 0 < t) (due e zs) = due e zs" if "0 < e" "delays zs" for e zs
    using due_ge[OF that(2)] that(1) by (intro filter_True) fastforce
  have zero: "due 0 (dropWhile (\<lambda>(_, d). d \<le> 0) zs) = filter (\<lambda>(q, t). 0 < t) (due 0 zs)" if "delays zs" for zs
    using that
  proof (induction zs)
    case (Cons z zs)
    obtain q e where z: "z = (q, e)" by (cases z)
    have "0 \<le> e" "delays zs" using Cons.prems z by (auto simp: delays_def)
    then show ?case using Cons.IH pos[of e zs] z by (cases "e = 0") auto
  qed simp
  show ?thesis
  proof (cases "d = 1")
    case True
    then show ?thesis using Cons x s zero[OF d(3)] sh by (simp add: tick_def)
  next
    case False
    then show ?thesis using Cons x s d sh pos[of "d - 1" ys] by (simp add: tick_def)
  qed
qed (simp add: tick_def)

text \<open>Removal from the middle, as when a message arrives before the timeout.\<close>

theorem delta_remove_due:
  assumes "delays xs" "distinct (map fst xs)" "sum_list (map snd xs) < 2 ^ 31"
  shows "due a (delta_remove p xs) = filter (\<lambda>(q, t). q \<noteq> p) (due a xs)"
  using assms
proof (induction p xs arbitrary: a rule: delta_remove.induct)
  case (2 p x d xs)
  have xs: "delays xs" "0 \<le> d" using "2.prems"(1) by (auto simp: delays_def)
  have fst_due: "map fst (due b ys) = map fst ys" for b ys by (induction b ys rule: due.induct) auto
  have keep: "filter (\<lambda>(q, t). q \<noteq> p) (due b ys) = due b ys" if "p \<notin> set (map fst ys)" for b ys
    using that unfolding fst_due[of b ys, symmetric] by (intro filter_True) (auto simp: rev_image_eqI)
  show ?case
  proof (cases "x = p")
    case True
    show ?thesis
    proof (cases xs)
      case (Cons y ys)
      obtain q e where y: "y = (q, e)" by (cases y)
      have "0 \<le> sum_list (map snd ys)"
        using xs(1) Cons by (intro sum_list_nonneg) (auto simp: delays_def)
      then have "s32 (e + d) = e + d" using "2.prems"(3) xs Cons y by (intro s32_id) (auto simp: delays_def)
      then show ?thesis using True Cons y "2.prems"(2) keep[of ys "a + (d + e)"] by (auto simp: algebra_simps)
    qed (use True in simp)
  next
    case False
    then show ?thesis using "2.IH"[of "a + d"] "2.prems" xs by simp
  qed
qed simp

end
