(* ===== verification/Simulation.thy ===== *)
theory Simulation
  imports Xinu_Base
begin

text \<open>
  Forward simulation, the form in which a component's contract is stated: a sequence of calls that
  an abstract specification defines runs on the code's state without a fault and gives the same
  replies. The heap, the queue table and the message ports are interpretations.
\<close>

fun run :: "('c \<Rightarrow> 's \<Rightarrow> ('r \<times> 's) option) \<Rightarrow> 'c list \<Rightarrow> 's \<Rightarrow> ('r list \<times> 's) option" where
  "run step [] s = Some ([], s)"
| "run step (c # cs) s = do { (r, s) \<leftarrow> step c s; (rs, s) \<leftarrow> run step cs s; Some (r # rs, s) }"

locale simulation =
  fixes R :: "'s \<Rightarrow> 'a \<Rightarrow> bool"
    and step :: "'c \<Rightarrow> 's \<Rightarrow> ('r \<times> 's) option"
    and spec :: "'c \<Rightarrow> 'a \<Rightarrow> ('r \<times> 'a) option"
  assumes sim: "\<lbrakk>R s a; spec c a = Some (r, a')\<rbrakk> \<Longrightarrow> \<exists>s'. step c s = Some (r, s') \<and> R s' a'"
begin

lemma run_sim:
  assumes "R s a" "run spec cs a = Some (rs, a')"
  shows "\<exists>s'. run step cs s = Some (rs, s') \<and> R s' a'"
  using assms
proof (induction cs arbitrary: s a rs)
  case (Cons c cs)
  obtain r a1 rs' where a1: "spec c a = Some (r, a1)" "run spec cs a1 = Some (rs', a')" "rs = r # rs'"
    using Cons.prems(2) by (auto simp: bind_Some_iff)
  obtain s1 where s1: "step c s = Some (r, s1)" "R s1 a1" using sim[OF Cons.prems(1) a1(1)] by blast
  obtain s2 where "run step cs s1 = Some (rs', s2)" "R s2 a'" using Cons.IH[OF s1(2) a1(2)] by blast
  then show ?case using s1(1) a1(3) by auto
qed simp

text \<open>Two implementations of one specification are indistinguishable by their replies.\<close>

lemma run_replies:
  assumes "R s a" "R t a" "run spec cs a = Some (rs, a')"
  shows "map_option fst (run step cs s) = map_option fst (run step cs t)"
  using run_sim[OF assms(1,3)] run_sim[OF assms(2,3)] by auto

end

end
