(* ===== verification/Memory_Sim.thy ===== *)
theory Memory_Sim
  imports Memory_Free Memory_Stack Simulation
begin

text \<open>
  The allocator against its specification: the calls on the linked blocks in memory against the
  list of free blocks.
\<close>

datatype mem_call = Getmem uint32 | Getstk uint32 | Freemem uint32 uint32

datatype mem_reply = Addr uint32 | Code int

fun mem_step :: "uint32 \<Rightarrow> uint32 \<Rightarrow> uint32 \<Rightarrow> mem_call \<Rightarrow> memory \<Rightarrow> (mem_reply \<times> memory) option" where
  "mem_step ml mn mx (Getmem n) m = map_option (map_prod Addr id) (getmem ml n m)"
| "mem_step ml mn mx (Getstk n) m = map_option (map_prod Addr id) (getstk ml n m)"
| "mem_step ml mn mx (Freemem b n) m = map_option (map_prod Code id) (freemem ml mn mx b n m)"

definition small :: "uint32 \<Rightarrow> bool" where
  "small n \<longleftrightarrow> unat n + 7 < 2 ^ 32"

fun mem_spec :: "uint32 \<Rightarrow> uint32 \<Rightarrow> mem_call \<Rightarrow> blk list \<Rightarrow> (mem_reply \<times> blk list) option" where
  "mem_spec mn mx (Getmem n) xs =
     (if n = 0 then Some (Addr SYSERR_ptr, xs)
      else if \<not> small n then None
      else (case ff_alloc (roundmb n) xs of None \<Rightarrow> Some (Addr SYSERR_ptr, xs) | Some (a, ys) \<Rightarrow> Some (Addr a, ys)))"
| "mem_spec mn mx (Getstk n) xs =
     (if n = 0 then Some (Addr SYSERR_ptr, xs)
      else if \<not> small n then None
      else (case lf_alloc (roundmb n) xs of
              None \<Rightarrow> Some (Addr SYSERR_ptr, xs) | Some (a, ys) \<Rightarrow> Some (Addr (a + roundmb n - 4), ys)))"
| "mem_spec mn mx (Freemem b n) xs =
     (if n = 0 \<or> b < mn \<or> b > mx then Some (Code SYSERR, xs)
      else if \<not> small n \<or> \<not> 8 dvd unat b \<or> unat mx < unat b + unat (roundmb n) then None
      else if {unat b..<unat b + unat (roundmb n)} \<inter> free_bytes xs \<noteq> {} then Some (Code SYSERR, xs)
      else Some (Code OK, fl_free b (roundmb n) xs))"

definition heap_is :: "uint32 \<Rightarrow> uint32 \<Rightarrow> uint32 \<Rightarrow> memory \<Rightarrow> blk list \<Rightarrow> bool" where
  "heap_is ml mn mx m xs \<longleftrightarrow> heap_rep ml (unat mn) (unat mx) m xs"

lemma mem_sim:
  assumes rep: "heap_is ml mn mx m xs" and spec: "mem_spec mn mx c xs = Some (r, ys)"
  shows "\<exists>m'. mem_step ml mn mx c m = Some (r, m') \<and> heap_is ml mn mx m' ys"
proof -
  have lo: "unat mn < 2 ^ 32" using unsigned_less[of mn] by simp
  note rep' = rep[unfolded heap_is_def]
  show ?thesis
  proof (cases c)
    case (Getmem n)
    show ?thesis
    proof (cases "n = 0")
      case False
      then have s: "unat n + 7 < 2 ^ 32" using spec Getmem by (simp add: small_def split: if_splits)
      show ?thesis using getmem_rep[OF rep' lo False s] spec rep False Getmem s
        by (auto simp: small_def heap_is_def alloc_post_def split: option.splits)
    qed (use spec rep Getmem in \<open>simp add: getmem_def\<close>)
  next
    case (Getstk n)
    show ?thesis
    proof (cases "n = 0")
      case False
      then have s: "unat n + 7 < 2 ^ 32" using spec Getstk by (simp add: small_def split: if_splits)
      show ?thesis using getstk_rep[OF rep' lo False s] spec rep False Getstk s
        by (auto simp: small_def heap_is_def alloc_post_def split: option.splits)
    qed (use spec rep Getstk in \<open>simp add: getstk_def\<close>)
  next
    case (Freemem b n)
    show ?thesis
    proof (cases "n = 0 \<or> b < mn \<or> b > mx")
      case True
      then show ?thesis using spec rep Freemem by (simp add: freemem_def)
    next
      case False
      then have s: "n \<noteq> 0" "unat n + 7 < 2 ^ 32" "8 dvd unat b" "unat mn \<le> unat b" "unat b + unat (roundmb n) \<le> unat mx"
        using spec Freemem by (simp_all add: small_def word_less_nat_alt not_less split: if_splits)
      show ?thesis using freemem_rep[OF rep' lo refl refl s] spec rep False Freemem
        by (auto simp: heap_is_def free_post_def split: if_splits)
    qed
  qed
qed

interpretation heap: simulation "heap_is ml mn mx" "mem_step ml mn mx" "mem_spec mn mx" for ml mn mx
  by unfold_locales (rule mem_sim)

text \<open>In a history of the specification, blocks handed out and not yet freed never overlap free memory: the
  bytes an allocation takes are exactly those that leave the free list.\<close>

lemma mem_spec_getmem:
  assumes "mem_spec mn mx (Getmem n) xs = Some (Addr a, ys)" "a \<noteq> SYSERR_ptr" "fl_ok (unat mn) (unat mx) xs"
  shows "free_bytes xs = free_bytes ys \<union> {unat a..<unat a + unat (roundmb n)} \<and>
    free_bytes ys \<inter> {unat a..<unat a + unat (roundmb n)} = {}"
proof -
  have n: "n \<noteq> 0" "unat n + 7 < 2 ^ 32" using assms(1,2) by (auto simp: small_def split: if_splits)
  have al: "ff_alloc (roundmb n) xs = Some (a, ys)" using assms(1,2) n by (auto simp: small_def split: option.splits)
  have mx: "unat mx < 2 ^ 32" using unsigned_less[of mx] by simp
  have "roundmb n \<noteq> 0" using roundmb_pos[OF n] by auto
  from ff_alloc_ok[OF al assms(3) mx roundmb_dvd this] show ?thesis by auto
qed

section \<open>Single calls\<close>

text \<open>A successful allocation hands out free bytes inside the heap, aligned to eight, and touches no other byte
  outside the free list.\<close>

lemma getmem_gives:
  assumes h: "heap_is ml mn mx m xs" and n: "n \<noteq> 0" "small n" and run: "getmem ml n m = Some (a, m')" and a: "a \<noteq> SYSERR_ptr"
  shows "\<exists>ys. heap_is ml mn mx m' ys \<and> 8 dvd unat a \<and> unat mn \<le> unat a \<and> unat a + unat (roundmb n) \<le> unat mx \<and>
    {unat a..<unat a + unat (roundmb n)} \<subseteq> free_bytes xs \<and>
    free_bytes ys = free_bytes xs - {unat a..<unat a + unat (roundmb n)} \<and>
    (\<forall>b. b \<noteq> ml \<longrightarrow> b \<noteq> ml + 4 \<longrightarrow> unat b \<notin> free_bytes xs \<longrightarrow> m' b = m b)"
proof -
  have lo: "unat mn < 2 ^ 32" using unsigned_less[of mn] by simp
  have rep: "heap_rep ml (unat mn) (unat mx) m xs" using h by (simp add: heap_is_def)
  note R = getmem_rep[OF rep lo n(1) n(2)[unfolded small_def]]
  have "roundmb n \<noteq> 0" using roundmb_pos[OF n(1) n(2)[unfolded small_def]] by auto
  note A = ff_alloc_ok[OF _ heap_repD(5,4)[OF rep] roundmb_dvd this]
  obtain ys where ys: "ff_alloc (roundmb n) xs = Some (a, ys)" "alloc_post ml (unat mn) (unat mx) (roundmb n) m xs m' ys"
    using R run a by (auto split: option.splits)
  show ?thesis using A[OF ys(1)] ys(2) unfolding heap_is_def alloc_post_def by blast
qed

text \<open>A block that is freed joins the free bytes; freeing it again is refused.\<close>

lemma freemem_gives:
  assumes h: "heap_is ml mn mx m xs" and n: "n \<noteq> 0" "small n"
    and b: "8 dvd unat b" "unat mn \<le> unat b" "unat b + unat (roundmb n) \<le> unat mx"
    and no: "{unat b..<unat b + unat (roundmb n)} \<inter> free_bytes xs = {}"
  shows "\<exists>m' ys. freemem ml mn mx b n m = Some (OK, m') \<and> heap_is ml mn mx m' ys \<and>
    free_bytes ys = free_bytes xs \<union> {unat b..<unat b + unat (roundmb n)} \<and> freemem ml mn mx b n m' = Some (SYSERR, m')"
proof -
  have lo: "unat mn < 2 ^ 32" using unsigned_less[of mn] by simp
  note n' = n(1) n(2)[unfolded small_def]
  have rep: "heap_rep ml (unat mn) (unat mx) m xs" using h by (simp add: heap_is_def)
  obtain m' where m': "freemem ml mn mx b n m = Some (OK, m')"
    "free_post ml (unat mn) (unat mx) b (roundmb n) m xs m' (fl_free b (roundmb n) xs)"
    "free_bytes (fl_free b (roundmb n) xs) = free_bytes xs \<union> {unat b..<unat b + unat (roundmb n)}"
    using freemem_rep[OF rep lo refl refl n' b] no by auto
  have rep': "heap_rep ml (unat mn) (unat mx) m' (fl_free b (roundmb n) xs)" using m'(2) by (simp add: free_post_def)
  have "unat b \<in> {unat b..<unat b + unat (roundmb n)} \<inter> free_bytes (fl_free b (roundmb n) xs)"
    using roundmb_pos[OF n'] m'(3) by simp
  then have "{unat b..<unat b + unat (roundmb n)} \<inter> free_bytes (fl_free b (roundmb n) xs) \<noteq> {}" by blast
  then have "freemem ml mn mx b n m' = Some (SYSERR, m')" using freemem_rep[OF rep' lo refl refl n' b] by (simp only: if_True simp_thms)
  then show ?thesis using m' rep' unfolding heap_is_def by blast
qed

lemma getmem_freemem:
  assumes h: "heap_is ml mn mx m xs" and n: "n \<noteq> 0" "small n" and run: "getmem ml n m = Some (a, m1)" and a: "a \<noteq> SYSERR_ptr"
  shows "\<exists>m2 ys. freemem ml mn mx a n m1 = Some (OK, m2) \<and> heap_is ml mn mx m2 ys \<and> free_bytes ys = free_bytes xs \<and>
    freemem ml mn mx a n m2 = Some (SYSERR, m2)"
proof -
  obtain ys where ys: "heap_is ml mn mx m1 ys" "8 dvd unat a" "unat mn \<le> unat a" "unat a + unat (roundmb n) \<le> unat mx"
    "{unat a..<unat a + unat (roundmb n)} \<subseteq> free_bytes xs" "free_bytes ys = free_bytes xs - {unat a..<unat a + unat (roundmb n)}"
    using getmem_gives[OF h n run a] by blast
  have "{unat a..<unat a + unat (roundmb n)} \<inter> free_bytes ys = {}" using ys(6) by blast
  from freemem_gives[OF ys(1) n ys(2-4) this] show ?thesis using ys(5,6) by (metis Un_Diff_cancel2 sup.absorb1)
qed

end
