(* ===== verification/Queue_Sim.thy ===== *)
theory Queue_Sim
  imports Queue_Ops Simulation
begin

text \<open>
  The queue table against its specification: the calls on the linked entries of \<open>queuetab\<close> against
  a family of process lists with a key for every process.
\<close>

datatype queue_call = Enqueue int int | Insert int int int | Dequeue int | Getfirst int | Getlast int | Getitem int int

fun queue_step :: "queue_call \<Rightarrow> qtab \<Rightarrow> (int \<times> qtab) option" where
  "queue_step (Enqueue p q) t = map_option (Pair p) (enqueue_links p q t)"
| "queue_step (Insert p q k) t = map_option (Pair OK) (insert_links p q k t)"
| "queue_step (Dequeue q) t = dequeue q t"
| "queue_step (Getfirst q) t = getfirst q t"
| "queue_step (Getlast q) t = getlast q t"
| "queue_step (Getitem p q) t = getitem p t"

type_synonym queues = "(int \<Rightarrow> int list) \<times> (int \<Rightarrow> int)"

definition free_pid :: "int \<Rightarrow> int \<Rightarrow> (int \<Rightarrow> int list) \<Rightarrow> bool" where
  "free_pid n p Q \<longleftrightarrow> 0 \<le> p \<and> p < NPROC \<and> p \<notin> queued n Q"

text \<open>\<open>insert\<close> keeps a queue in descending order of the keys, later arrivals behind equal keys.\<close>

definition by_key :: "(int \<Rightarrow> int) \<Rightarrow> int \<Rightarrow> int \<Rightarrow> int list \<Rightarrow> int list" where
  "by_key f p k xs = takeWhile (\<lambda>x. f x \<ge> k) xs @ p # dropWhile (\<lambda>x. f x \<ge> k) xs"

fun queue_spec :: "int \<Rightarrow> queue_call \<Rightarrow> queues \<Rightarrow> (int \<times> queues) option" where
  "queue_spec n (Enqueue p q) (Q, f) =
     (if qid_ok n q \<and> free_pid n p Q then Some (p, Q(q := Q q @ [p]), f) else None)"
| "queue_spec n (Insert p q k) (Q, f) =
     (if qid_ok n q \<and> free_pid n p Q \<and> MINKEY < k \<and> k \<le> MAXKEY
      then Some (OK, Q(q := by_key f p k (Q q)), f(p := k)) else None)"
| "queue_spec n (Dequeue q) (Q, f) =
     (if qid_ok n q then (case Q q of [] \<Rightarrow> Some (EMPTY, Q, f) | x # xs \<Rightarrow> Some (x, Q(q := xs), f)) else None)"
| "queue_spec n (Getfirst q) (Q, f) =
     (if qid_ok n q then (case Q q of [] \<Rightarrow> Some (EMPTY, Q, f) | x # xs \<Rightarrow> Some (x, Q(q := xs), f)) else None)"
| "queue_spec n (Getlast q) (Q, f) =
     (if qid_ok n q then (if Q q = [] then Some (EMPTY, Q, f) else Some (last (Q q), Q(q := butlast (Q q)), f)) else None)"
| "queue_spec n (Getitem p q) (Q, f) =
     (if qid_ok n q \<and> p \<in> set (Q q) then Some (p, Q(q := remove1 p (Q q)), f) else None)"

definition queues_are :: "int \<Rightarrow> qtab \<Rightarrow> queues \<Rightarrow> bool" where
  "queues_are n t A \<longleftrightarrow> qrep n t (fst A) \<and> (\<forall>i. qkey (t i) = snd A i)"

lemma queue_sim:
  assumes rep: "queues_are n t (Q, f)" and spec: "queue_spec n c (Q, f) = Some (r, A)"
  shows "\<exists>t'. queue_step c t = Some (r, t') \<and> queues_are n t' A"
proof -
  have R: "qrep n t Q" and f: "f = (\<lambda>i. qkey (t i))" using rep by (auto simp: queues_are_def)
  show ?thesis
  proof (cases c)
    case (Enqueue p q)
    then show ?thesis using enqueue_links_rep[OF R, of q p] spec f
      by (fastforce simp: queues_are_def free_pid_def split: if_splits)
  next
    case (Insert p q k)
    then show ?thesis using insert_links_rep[OF R, of q p k] spec f
      by (fastforce simp: queues_are_def free_pid_def by_key_def split: if_splits)
  next
    case (Dequeue q)
    then show ?thesis using dequeue_rep[OF R, of q] dequeue_rep_empty[OF R, of q] spec f rep
      by (fastforce simp: queues_are_def split: if_splits list.splits)
  next
    case (Getfirst q)
    then show ?thesis using getfirst_rep[OF R, of q] getfirst_rep_empty[OF R, of q] spec f rep
      by (fastforce simp: queues_are_def split: if_splits list.splits)
  next
    case (Getlast q)
    show ?thesis
    proof (cases "Q q = []")
      case True
      then show ?thesis using getlast_rep_empty[OF R, of q] Getlast spec rep by (auto split: if_splits)
    next
      case False
      then have q: "qid_ok n q" "Q q = butlast (Q q) @ [last (Q q)]" using spec Getlast by (auto split: if_splits)
      show ?thesis using getlast_rep[OF R q] Getlast spec f False q(1) by (auto simp: queues_are_def)
    qed
  next
    case (Getitem p q)
    then show ?thesis using getitem_rep[OF R, of q p] spec f by (fastforce simp: queues_are_def split: if_splits)
  qed
qed

interpretation queues: simulation "queues_are n" queue_step "queue_spec n" for n
proof unfold_locales
  fix t A c r A'
  assume "queues_are n t A" "queue_spec n c A = Some (r, A')"
  then show "\<exists>t'. queue_step c t = Some (r, t') \<and> queues_are n t' A'"
    using queue_sim[of n t "fst A" "snd A" c r A'] by simp
qed

text \<open>A queue filled by \<open>insert\<close> alone is in order of its keys, and \<open>insert\<close> keeps it so.\<close>

lemma by_key_sorted:
  assumes "sorted_wrt (\<lambda>x y. f x \<ge> f y) xs" "p \<notin> set xs"
  shows "sorted_wrt (\<lambda>x y. (f(p := k)) x \<ge> (f(p := k)) y) (by_key f p k xs)"
proof -
  let ?ts = "takeWhile (\<lambda>x. f x \<ge> k) xs" and ?ds = "dropWhile (\<lambda>x. f x \<ge> k) xs" and ?g = "f(p := k)"
  have d: "\<forall>x \<in> set ?ds. f x < k"
    using assms(1)
  proof (induction xs)
    case (Cons y ys)
    then show ?case by (cases "f y \<ge> k") auto
  qed simp
  have t: "\<forall>x \<in> set ?ts. f x \<ge> k" by (auto dest: set_takeWhileD)
  have xs: "set ?ts \<subseteq> set xs" "set ?ds \<subseteq> set xs" by (auto dest: set_takeWhileD set_dropWhileD)
  have g: "?g x = f x" if "x \<in> set xs" for x using that assms(2) by auto
  have "sorted_wrt (\<lambda>x y. f x \<ge> f y) (?ts @ ?ds)" using assms(1) by simp
  then have s: "sorted_wrt (\<lambda>x y. f x \<ge> f y) ?ts" "sorted_wrt (\<lambda>x y. f x \<ge> f y) ?ds"
    "\<forall>x \<in> set ?ts. \<forall>y \<in> set ?ds. f x \<ge> f y" unfolding sorted_wrt_append by blast+
  have sw: "sorted_wrt (\<lambda>x y. ?g x \<ge> ?g y) ys" if "sorted_wrt (\<lambda>x y. f x \<ge> f y) ys" "set ys \<subseteq> set xs" for ys
    by (rule sorted_wrt_mono_rel[OF _ that(1)]) (use that(2) assms(2) in auto)
  have "\<forall>x \<in> set ?ts. \<forall>y \<in> set (p # ?ds). ?g x \<ge> ?g y"
  proof (intro ballI)
    fix x y
    assume "x \<in> set ?ts" "y \<in> set (p # ?ds)"
    then have x: "x \<in> set ?ts" "?g x = f x" and y: "y = p \<or> y \<in> set ?ds \<and> ?g y = f y" using xs assms(2) by auto
    have "f x \<ge> ?g y" using y x(1) t s(3) by (metis fun_upd_same)
    then show "?g x \<ge> ?g y" using x(2) by simp
  qed
  moreover have "sorted_wrt (\<lambda>x y. ?g x \<ge> ?g y) (p # ?ds)"
  proof -
    have "?g y = f y" if "y \<in> set ?ds" for y by (rule g) (use that xs(2) in blast)
    then have "\<forall>y \<in> set ?ds. ?g p \<ge> ?g y" using d by (metis fun_upd_same less_imp_le)
    then show ?thesis using sw[OF s(2) xs(2)] by simp
  qed
  ultimately show ?thesis using sw[OF s(1) xs(1)] unfolding by_key_def sorted_wrt_append by blast
qed

text \<open>Processes put on a queue come off it in the same order.\<close>

lemma spec_enqueues:
  assumes "qid_ok n q" "distinct ps" "set ps \<subseteq> {0..<NPROC}" "set ps \<inter> queued n Q = {}"
  shows "\<exists>Q'. run (queue_spec n) (map (\<lambda>p. Enqueue p q) ps) (Q, f) = Some (ps, Q', f) \<and> Q' = Q(q := Q q @ ps)"
  using assms(2-4)
proof (induction ps arbitrary: Q)
  case (Cons p ps)
  have q: "queued n (Q(q := Q q @ [p])) = insert p (queued n Q)"
    using assms(1) by (auto simp: queued_def split: if_splits)
  have "free_pid n p Q" using Cons.prems by (auto simp: free_pid_def)
  moreover have "\<exists>Q'. run (queue_spec n) (map (\<lambda>p. Enqueue p q) ps) (Q(q := Q q @ [p]), f) = Some (ps, Q', f) \<and>
    Q' = (Q(q := Q q @ [p]))(q := (Q(q := Q q @ [p])) q @ ps)"
    by (rule Cons.IH; (unfold q)?) (use Cons.prems in auto)
  ultimately show ?case using assms(1) by auto
qed simp

lemma spec_dequeues:
  assumes "qid_ok n q" "Q q = ps @ xs"
  shows "run (queue_spec n) (map (\<lambda>_. Dequeue q) ps) (Q, f) = Some (ps, Q(q := xs), f)"
  using assms(2)
proof (induction ps arbitrary: Q)
  case Nil
  then have "Q(q := xs) = Q" by auto
  then show ?case by simp
next
  case (Cons p ps)
  have "(Q(q := ps @ xs))(q := xs) = Q(q := xs)" by simp
  moreover have "run (queue_spec n) (map (\<lambda>_. Dequeue q) ps) (Q(q := ps @ xs), f) = Some (ps, (Q(q := ps @ xs))(q := xs), f)"
    by (rule Cons.IH) simp
  ultimately have "run (queue_spec n) (map (\<lambda>_. Dequeue q) ps) (Q(q := ps @ xs), f) = Some (ps, Q(q := xs), f)" by (simp only:)
  then show ?case using assms(1) Cons.prems by (simp del: fun_upd_apply)
qed

end
