(* ===== verification/Kernel_Frame.thy ===== *)
theory Kernel_Frame
  imports Semaphore
begin

text \<open>
  What the semaphore calls leave alone, whatever the state: memory, the allocator, pending
  continuations, every semaphore but the one they are called on, and whatever a larger state
  adds to the kernel's. The components built on semaphores (buffer pools, ports, the tty driver)
  keep their own invariants by this.
\<close>

definition untouched :: "int set \<Rightarrow> 'z kstate_scheme \<Rightarrow> 'z kstate_scheme \<Rightarrow> bool" where
  "untouched K s s' \<longleftrightarrow>
     s' = s\<lparr>queuetab := queuetab s', proctab := proctab s', currpid := currpid s', semtab := semtab s',
            preempt := preempt s', attempt := attempt s', ndefers := ndefers s'\<rparr> \<and>
     (\<forall>j. j \<notin> K \<longrightarrow> semtab s' j = semtab s j)"

lemma untouched_refl [simp, intro]: "untouched K s s"
  by (simp add: untouched_def)

lemma untouchedD:
  assumes "untouched K s s'"
  shows "mem s' = mem s" "memlist s' = memlist s" "minheap s' = minheap s" "maxheap s' = maxheap s"
    "nextqid s' = nextqid s" "prcount s' = prcount s" "nextpid s' = nextpid s" "nextsem s' = nextsem s"
    "readylist s' = readylist s" "sleepq s' = sleepq s" "clktime s' = clktime s" "count1000 s' = count1000 s"
    "buftab s' = buftab s" "nbpools s' = nbpools s" "pkont s' = pkont s" "halted s' = halted s"
    "kstate.more s' = kstate.more s" "j \<notin> K \<Longrightarrow> semtab s' j = semtab s j"
proof -
  from assms have E: "s' = s\<lparr>queuetab := queuetab s', proctab := proctab s', currpid := currpid s', semtab := semtab s',
     preempt := preempt s', attempt := attempt s', ndefers := ndefers s'\<rparr>" by (simp add: untouched_def)
  show "mem s' = mem s" "memlist s' = memlist s" "minheap s' = minheap s" "maxheap s' = maxheap s"
    "nextqid s' = nextqid s" "prcount s' = prcount s" "nextpid s' = nextpid s" "nextsem s' = nextsem s"
    "readylist s' = readylist s" "sleepq s' = sleepq s" "clktime s' = clktime s" "count1000 s' = count1000 s"
    "buftab s' = buftab s" "nbpools s' = nbpools s" "pkont s' = pkont s" "halted s' = halted s"
    "kstate.more s' = kstate.more s" by (subst E, simp)+
  show "j \<notin> K \<Longrightarrow> semtab s' j = semtab s j" using assms by (simp add: untouched_def)
qed

lemma untouchedI:
  assumes "mem s' = mem s" "memlist s' = memlist s" "minheap s' = minheap s" "maxheap s' = maxheap s"
    "nextqid s' = nextqid s" "prcount s' = prcount s" "nextpid s' = nextpid s" "nextsem s' = nextsem s"
    "readylist s' = readylist s" "sleepq s' = sleepq s" "clktime s' = clktime s" "count1000 s' = count1000 s"
    "buftab s' = buftab s" "nbpools s' = nbpools s" "pkont s' = pkont s" "halted s' = halted s"
    "kstate.more s' = kstate.more s" "\<And>j. j \<notin> K \<Longrightarrow> semtab s' j = semtab s j"
  shows "untouched K s s'"
  unfolding untouched_def using assms by (intro conjI kstate.equality) simp_all

lemma untouched_trans:
  assumes "untouched K s1 s2" "untouched K s2 s3"
  shows "untouched K s1 s3"
  by (rule untouchedI) (simp_all add: untouchedD[OF assms(1)] untouchedD[OF assms(2)])

lemma untouched_upd [simp]:
  "untouched K s (s\<lparr>queuetab := t\<rparr>)" "untouched K s (s\<lparr>proctab := p\<rparr>)" "untouched K s (s\<lparr>currpid := c\<rparr>)"
  "untouched K s (s\<lparr>preempt := r\<rparr>)" "untouched K s (s\<lparr>attempt := a\<rparr>)" "untouched K s (s\<lparr>ndefers := n\<rparr>)"
  "k \<in> K \<Longrightarrow> untouched K s (s\<lparr>semtab := (semtab s)(k := e)\<rparr>)"
  by (auto intro!: untouchedI)

section \<open>The primitives\<close>

lemma pr_upd_untouched: "pr_upd p f s = Some s' \<Longrightarrow> untouched K s s'"
  by (auto simp: pr_upd_def split: if_splits)

lemma sem_upd_untouched: "sem_upd k f s = Some s' \<Longrightarrow> k \<in> K \<Longrightarrow> untouched K s s'"
  by (auto simp: sem_upd_def split: if_splits)

lemma on_qtab_untouched: "on_qtab f s = Some (r, s') \<Longrightarrow> untouched K s s'"
  by (auto simp: on_qtab_def)

lemma insert_q_untouched: "insert_q p q k s = Some (r, s') \<Longrightarrow> untouched K s s'"
  by (auto simp: insert_q_def bind_eq_Some_conv split: if_splits)

lemma enqueue_untouched: "enqueue p q s = Some (r, s') \<Longrightarrow> untouched K s s'"
  by (auto simp: enqueue_def bind_eq_Some_conv split: if_splits)

lemma resched_switch_untouched: "resched_switch s = Some s' \<Longrightarrow> untouched K s s'"
proof -
  assume "resched_switch s = Some s'"
  then obtain pid s1 s2 where 1: "on_qtab (dequeue (readylist s)) s = Some (pid, s1)"
    and 2: "pr_upd pid (\<lambda>e. e\<lparr>prstate := PR_CURR\<rparr>) (s1\<lparr>currpid := pid\<rparr>) = Some s2" and 3: "s' = s2\<lparr>preempt := QUANTUM\<rparr>"
    by (auto simp: resched_switch_def bind_eq_Some_conv)
  show ?thesis unfolding 3
    by (rule untouched_trans[OF on_qtab_untouched[OF 1] untouched_trans[OF untouched_upd(3)
          untouched_trans[OF pr_upd_untouched[OF 2] untouched_upd(4)]]])
qed

lemma resched_cases:
  assumes "resched s = Some s'"
  obtains "s' = s\<lparr>attempt := True\<rparr>" | "s' = s" | "resched_switch s = Some s'" |
    k s1 s2 r where "pr_upd (currpid s) (\<lambda>e. e\<lparr>prstate := PR_READY\<rparr>) s = Some s1"
      "insert_q (currpid s1) (readylist s1) k s1 = Some (r, s2)" "resched_switch s2 = Some s'"
proof (cases "ndefers s > 0")
  case True
  then show ?thesis using assms that(1) by (simp add: resched_def)
next
  case False
  then obtain e where e: "pr_rd (currpid s) s = Some e" using assms by (auto simp: resched_def bind_eq_Some_conv)
  show ?thesis
  proof (cases "prstate e = PR_CURR")
    case True
    then obtain k where k: "firstkey (queuetab s) (readylist s) = Some k"
      using assms False e by (auto simp: resched_def bind_eq_Some_conv)
    show ?thesis
    proof (cases "prprio e > k")
      case True
      then show ?thesis using assms False e k \<open>prstate e = PR_CURR\<close> that(2) by (simp add: resched_def)
    next
      case no: False
      then have "do { s \<leftarrow> pr_upd (currpid s) (\<lambda>e. e\<lparr>prstate := PR_READY\<rparr>) s;
          (_, s) \<leftarrow> insert_q (currpid s) (readylist s) (prprio e) s; resched_switch s } = Some s'"
        using assms False e k True by (simp add: resched_def)
      then obtain s1 rs where "pr_upd (currpid s) (\<lambda>e. e\<lparr>prstate := PR_READY\<rparr>) s = Some s1"
        "insert_q (currpid s1) (readylist s1) (prprio e) s1 = Some rs" "resched_switch (snd rs) = Some s'"
        by (auto simp: bind_eq_Some_conv)
      then show ?thesis using that(4) by (metis prod.collapse)
    qed
  next
    case no: False
    then show ?thesis using assms False e that(3) by (simp add: resched_def)
  qed
qed

lemma resched_untouched: "resched s = Some s' \<Longrightarrow> untouched K s s'"
proof (erule resched_cases)
  fix k s1 s2 r
  assume 1: "pr_upd (currpid s) (\<lambda>e. e\<lparr>prstate := PR_READY\<rparr>) s = Some s1"
    and 2: "insert_q (currpid s1) (readylist s1) k s1 = Some (r, s2)" and 3: "resched_switch s2 = Some s'"
  show "untouched K s s'"
    by (rule untouched_trans[OF pr_upd_untouched[OF 1]
          untouched_trans[OF insert_q_untouched[OF 2] resched_switch_untouched[OF 3]]])
qed (auto intro: resched_switch_untouched)

lemma resched_cntl_untouched: "resched_cntl d s = Some (r, s') \<Longrightarrow> untouched K s s'"
  unfolding resched_cntl_def Let_def
  by (auto simp: bind_eq_Some_conv split: if_splits
      intro: untouched_trans[OF untouched_upd(6) resched_untouched] untouched_trans[OF untouched_upd(6) untouched_upd(5)])

lemma ready_untouched: "ready p s = Some (r, s') \<Longrightarrow> untouched K s s'"
proof -
  assume r: "ready p s = Some (r, s')"
  consider "s' = s" | s1 k r1 s2 where "pr_upd p (\<lambda>e. e\<lparr>prstate := PR_READY\<rparr>) s = Some s1"
      "insert_q p (readylist s1) k s1 = Some (r1, s2)" "resched s2 = Some s'"
    using r by (auto simp: ready_def bind_eq_Some_conv split: if_splits)
  then show ?thesis
  proof cases
    case 2
    show ?thesis
      by (rule untouched_trans[OF pr_upd_untouched[OF 2(1)]
            untouched_trans[OF insert_q_untouched[OF 2(2)] resched_untouched[OF 2(3)]]])
  qed simp
qed

section \<open>The semaphore calls\<close>

lemma wait_untouched: "wait k s = Some (r, s') \<Longrightarrow> k \<in> K \<Longrightarrow> untouched K s s'"
proof -
  assume r: "wait k s = Some (r, s')" and k: "k \<in> K"
  consider "s' = s" | c where "sem_upd k (\<lambda>e. e\<lparr>scount := c\<rparr>) s = Some s'" |
    c s1 s2 q r1 s3 where "sem_upd k (\<lambda>e. e\<lparr>scount := c\<rparr>) s = Some s1"
      "pr_upd (currpid s1) (\<lambda>e. e\<lparr>prstate := PR_WAIT, prsem := k\<rparr>) s1 = Some s2"
      "enqueue (currpid s2) q s2 = Some (r1, s3)" "resched s3 = Some s'"
    using r by (auto simp: wait_def bind_eq_Some_conv Let_def split: if_splits)
  then show ?thesis
  proof cases
    case (2 c)
    then show ?thesis using sem_upd_untouched k by blast
  next
    case 3
    show ?thesis
      by (rule untouched_trans[OF sem_upd_untouched[OF 3(1) k] untouched_trans[OF pr_upd_untouched[OF 3(2)]
            untouched_trans[OF enqueue_untouched[OF 3(3)] resched_untouched[OF 3(4)]]]])
  qed simp
qed

lemma signal_one_untouched: "signal_one k s = Some s' \<Longrightarrow> k \<in> K \<Longrightarrow> untouched K s s'"
proof -
  assume r: "signal_one k s = Some s'" and k: "k \<in> K"
  consider "sem_upd k (\<lambda>e. e\<lparr>scount := s32 (scount e + 1)\<rparr>) s = Some s'" |
    s1 q p s2 r1 where "sem_upd k (\<lambda>e. e\<lparr>scount := s32 (scount e + 1)\<rparr>) s = Some s1"
      "on_qtab (dequeue q) s1 = Some (p, s2)" "ready p s2 = Some (r1, s')"
    using r by (auto simp: signal_one_def bind_eq_Some_conv split: if_splits)
  then show ?thesis
  proof cases
    case 1
    then show ?thesis using sem_upd_untouched k by blast
  next
    case 2
    show ?thesis
      by (rule untouched_trans[OF sem_upd_untouched[OF 2(1) k]
            untouched_trans[OF on_qtab_untouched[OF 2(2)] ready_untouched[OF 2(3)]]])
  qed
qed

lemma signal_untouched: "signal k s = Some (r, s') \<Longrightarrow> k \<in> K \<Longrightarrow> untouched K s s'"
  by (auto simp: signal_def bind_eq_Some_conv split: if_splits intro: signal_one_untouched)

lemma signaln_loop_untouched: "signaln_loop n k s = Some s' \<Longrightarrow> k \<in> K \<Longrightarrow> untouched K s s'"
  by (induction n arbitrary: s)
    (auto split: option.splits intro: untouched_trans signal_one_untouched)

lemma signaln_untouched: "signaln k n s = Some (r, s') \<Longrightarrow> k \<in> K \<Longrightarrow> untouched K s s'"
proof -
  assume r: "signaln k n s = Some (r, s')" and k: "k \<in> K"
  consider "s' = s" | s1 s2 r1 r2 where "resched_cntl DEFER_START s = Some (r1, s1)"
      "signaln_loop (nat n) k s1 = Some s2" "resched_cntl DEFER_STOP s2 = Some (r2, s')"
    using r by (auto simp: signaln_def bind_eq_Some_conv split: if_splits)
  then show ?thesis
  proof cases
    case 2
    show ?thesis
      by (rule untouched_trans[OF resched_cntl_untouched[OF 2(1)]
            untouched_trans[OF signaln_loop_untouched[OF 2(2) k] resched_cntl_untouched[OF 2(3)]]])
  qed simp
qed

lemma semreset_loop_untouched: "semreset_loop q s = Some s' \<Longrightarrow> untouched K s s'"
proof (induction rule: semreset_loop.raw_induct[rotated 1, consumes 1, case_names 1])
  case (1 f q s s')
  then obtain p s1 where s1: "on_qtab (getfirst q) s = Some (p, s1)" by (auto split: option.splits)
  show ?case
  proof (cases "p = EMPTY")
    case True
    then show ?thesis using 1(2) s1 on_qtab_untouched[OF s1] by simp
  next
    case False
    then obtain r2 s2 where s2: "ready p s1 = Some (r2, s2)" "f q s2 = Some s'"
      using 1(2) s1 by (auto split: option.splits)
    show ?thesis
      by (rule untouched_trans[OF on_qtab_untouched[OF s1] untouched_trans[OF ready_untouched[OF s2(1)] 1(1)[OF s2(2)]]])
  qed
qed

lemma semreset_untouched: "semreset k n s = Some (r, s') \<Longrightarrow> k \<in> K \<Longrightarrow> untouched K s s'"
proof -
  assume r: "semreset k n s = Some (r, s')" and k: "k \<in> K"
  consider "s' = s" | s1 q s2 s3 r1 r2 where "resched_cntl DEFER_START s = Some (r1, s1)"
      "semreset_loop q s1 = Some s2" "sem_upd k (\<lambda>e. e\<lparr>scount := n\<rparr>) s2 = Some s3"
      "resched_cntl DEFER_STOP s3 = Some (r2, s')"
    using r by (auto simp: semreset_def bind_eq_Some_conv Let_def split: if_splits)
  then show ?thesis
  proof cases
    case 2
    show ?thesis
      by (rule untouched_trans[OF resched_cntl_untouched[OF 2(1)] untouched_trans[OF semreset_loop_untouched[OF 2(2)]
            untouched_trans[OF sem_upd_untouched[OF 2(3) k] resched_cntl_untouched[OF 2(4)]]]])
  qed simp
qed

lemma semdelete_loop_frame: "semdelete_loop k s = Some s' \<Longrightarrow> k \<in> K \<longrightarrow> untouched K s s'"
proof (induction rule: semdelete_loop.raw_induct[rotated 1, consumes 1, case_names 1])
  case (1 f k s s')
  show ?case
  proof
    assume k: "k \<in> K"
    obtain e s1 where s1: "sem_upd k (\<lambda>e. e\<lparr>scount := s32 (scount e + 1)\<rparr>) s = Some s1" and e: "sem_rd k s = Some e"
      using 1(2) by (auto split: option.splits)
    show "untouched K s s'"
    proof (cases "scount e < 0")
      case False
      then show ?thesis using 1(2) s1 e sem_upd_untouched[OF s1 k] by simp
    next
      case True
      then obtain p s2 r3 s3 where s2: "on_qtab (getfirst (squeue e)) s1 = Some (p, s2)" "ready p s2 = Some (r3, s3)"
        "f k s3 = Some s'" using 1(2) s1 e by (auto split: option.splits)
      show ?thesis
        by (rule untouched_trans[OF sem_upd_untouched[OF s1 k] untouched_trans[OF on_qtab_untouched[OF s2(1)]
              untouched_trans[OF ready_untouched[OF s2(2)] 1(1)[OF s2(3), rule_format, OF k]]]])
    qed
  qed
qed

lemma semdelete_loop_untouched: "semdelete_loop k s = Some s' \<Longrightarrow> k \<in> K \<Longrightarrow> untouched K s s'"
  using semdelete_loop_frame by blast

lemma semdelete_untouched: "semdelete k s = Some (r, s') \<Longrightarrow> k \<in> K \<Longrightarrow> untouched K s s'"
proof -
  assume r: "semdelete k s = Some (r, s')" and k: "k \<in> K"
  consider "s' = s" | s0 s1 s2 r1 r2 where "sem_upd k (\<lambda>e. e\<lparr>sstate := S_FREE\<rparr>) s = Some s0"
      "resched_cntl DEFER_START s0 = Some (r1, s1)" "semdelete_loop k s1 = Some s2" "resched_cntl DEFER_STOP s2 = Some (r2, s')"
    using r by (auto simp: semdelete_def bind_eq_Some_conv Let_def split: if_splits)
  then show ?thesis
  proof cases
    case 2
    show ?thesis
      by (rule untouched_trans[OF sem_upd_untouched[OF 2(1) k] untouched_trans[OF resched_cntl_untouched[OF 2(2)]
            untouched_trans[OF semdelete_loop_untouched[OF 2(3) k] resched_cntl_untouched[OF 2(4)]]]])
  qed simp
qed

text \<open>\<open>semcreate\<close> changes the semaphore table and its search position only.\<close>

lemma newsem_loop_frame: "newsem_loop i s = Some (r, s') \<Longrightarrow> \<exists>nx sm. s' = s\<lparr>nextsem := nx, semtab := sm\<rparr>"
proof (induction i arbitrary: s)
  case 0
  then have "s' = s\<lparr>nextsem := nextsem s, semtab := semtab s\<rparr>" by simp
  then show ?case by blast
next
  case (Suc i)
  let ?nx = "if nextsem s + 1 \<ge> NSEM then 0 else nextsem s + 1"
  consider sm where "s' = s\<lparr>nextsem := ?nx, semtab := sm\<rparr>" | "newsem_loop i (s\<lparr>nextsem := ?nx\<rparr>) = Some (r, s')"
    using Suc.prems by (auto simp: Let_def sem_rd_def sem_upd_def split: if_splits option.splits)
  then show ?case
  proof cases
    case 2
    from Suc.IH[OF this] show ?thesis by auto
  qed blast
qed

lemma semcreate_frame: "semcreate n s = Some (r, s') \<Longrightarrow> \<exists>nx sm. s' = s\<lparr>nextsem := nx, semtab := sm\<rparr>"
proof -
  assume r: "semcreate n s = Some (r, s')"
  consider "s' = s" | k s1 where "newsem_loop (nat NSEM) s = Some (k, s1)" "s' = s1 \<or> (\<exists>sm. s' = s1\<lparr>semtab := sm\<rparr>)"
    using r by (auto simp: semcreate_def newsem_def sem_upd_def bind_eq_Some_conv split: if_splits)
  then show ?thesis
  proof cases
    case 1
    then have "s' = s\<lparr>nextsem := nextsem s, semtab := semtab s\<rparr>" by simp
    then show ?thesis by blast
  next
    case 2
    obtain nx sm where s1: "s1 = s\<lparr>nextsem := nx, semtab := sm\<rparr>" using newsem_loop_frame[OF 2(1)] by blast
    from 2(2) obtain sm' where "s' = s\<lparr>nextsem := nx, semtab := sm'\<rparr>" unfolding s1 by auto
    then show ?thesis by blast
  qed
qed

end
