(* ===== verification/Lib_String.thy ===== *)
theory Lib_String
  imports Xinu_Base
begin

text \<open>
  The string and memory routines of \<^verbatim>\<open>lib\<close>, on a byte-addressed memory. A pointer is a
  \<open>uint32\<close> and \<open>p++\<close> is \<open>p + 1\<close>; \<open>char\<close> is unsigned, as it is for the ARM compiler. Routines
  that scan for a terminating zero byte may run forever on memory without one, so they are
  partial functions; routines that count down are total.

  The abstract view is a list of bytes: \<open>cstr m a xs\<close> says that the C string at \<open>a\<close> is \<open>xs\<close>,
  \<open>get m a n\<close> reads and \<open>put m a xs\<close> writes a block.
\<close>

section \<open>Bytes of memory\<close>

type_synonym byte = "8 word"
type_synonym bytes = "uint32 \<Rightarrow> byte"

fun cstr :: "bytes \<Rightarrow> uint32 \<Rightarrow> byte list \<Rightarrow> bool" where
  "cstr m a [] = (m a = 0)"
| "cstr m a (x # xs) = (x \<noteq> 0 \<and> m a = x \<and> cstr m (a + 1) xs)"

fun put :: "bytes \<Rightarrow> uint32 \<Rightarrow> byte list \<Rightarrow> bytes" where
  "put m a [] = m"
| "put m a (x # xs) = put (m(a := x)) (a + 1) xs"

fun get :: "bytes \<Rightarrow> uint32 \<Rightarrow> nat \<Rightarrow> byte list" where
  "get m a 0 = []"
| "get m a (Suc n) = m a # get m (a + 1) n"

definition area :: "uint32 \<Rightarrow> nat \<Rightarrow> uint32 set" where
  "area a n = (\<lambda>i. a + of_nat i) ` {..<n}"

section \<open>Operations\<close>

partial_function (option) strlen_loop :: "bytes \<Rightarrow> uint32 \<Rightarrow> int \<Rightarrow> int option" where
  "strlen_loop m str len = (if m str \<noteq> 0 then strlen_loop m (str + 1) (s32 (len + 1)) else Some len)"

definition strlen :: "bytes \<Rightarrow> uint32 \<Rightarrow> int option" where
  "strlen m str = strlen_loop m str 0"

partial_function (option) strcmp :: "bytes \<Rightarrow> uint32 \<Rightarrow> uint32 \<Rightarrow> int option" where
  "strcmp m str1 str2 =
     (if m str1 = m str2 then if m str1 = 0 then Some 0 else strcmp m (str1 + 1) (str2 + 1)
      else if m str1 < m str2 then Some (- 1) else Some 1)"

text \<open>In \<open>strncmp\<close> the second pointer is one ahead when the loop ends, so \<open>*--s2\<close> is the byte that
  was compared last.\<close>

function strncmp :: "bytes \<Rightarrow> uint32 \<Rightarrow> uint32 \<Rightarrow> int \<Rightarrow> int" where
  "strncmp m s1 s2 n =
     (let n = n - 1 in
      if n \<ge> 0 \<and> m s1 = m s2 then if m s1 = 0 then 0 else strncmp m (s1 + 1) (s2 + 1) n
      else if n < 0 then 0 else uint (m s1) - uint (m s2))"
  by auto
termination by (relation "measure (\<lambda>(_, _, _, n). nat n)") auto

partial_function (option) strcpy_loop :: "uint32 \<Rightarrow> uint32 \<Rightarrow> bytes \<Rightarrow> bytes option" where
  "strcpy_loop tar src m =
     (let c = m src; m' = m(tar := c) in
      if c \<noteq> 0 then strcpy_loop (tar + 1) (src + 1) m' else Some m')"

definition strcpy :: "uint32 \<Rightarrow> uint32 \<Rightarrow> bytes \<Rightarrow> (int \<times> bytes) option" where
  "strcpy tar src m = map_option (Pair 0) (strcpy_loop tar src m)"

text \<open>The padding loop of \<open>strncpy\<close> runs \<open>n - i - 1\<close> times, the copying loop at most \<open>n - i\<close> times.\<close>

fun zero_fill :: "nat \<Rightarrow> uint32 \<Rightarrow> bytes \<Rightarrow> bytes" where
  "zero_fill 0 s1 m = m"
| "zero_fill (Suc k) s1 m = zero_fill k (s1 + 1) (m(s1 := 0))"

fun strncpy_loop :: "nat \<Rightarrow> uint32 \<Rightarrow> uint32 \<Rightarrow> bytes \<Rightarrow> bytes" where
  "strncpy_loop 0 s1 s2 m = m"
| "strncpy_loop (Suc k) s1 s2 m =
     (let c = m s2; m = m(s1 := c) in
      if c = 0 then zero_fill k (s1 + 1) m else strncpy_loop k (s1 + 1) (s2 + 1) m)"

definition strncpy :: "uint32 \<Rightarrow> uint32 \<Rightarrow> int \<Rightarrow> bytes \<Rightarrow> uint32 \<times> bytes" where
  "strncpy s1 s2 n m = (s1, strncpy_loop (nat n) s1 s2 m)"

partial_function (option) scan_end :: "bytes \<Rightarrow> uint32 \<Rightarrow> uint32 option" where
  "scan_end m s = (if m s \<noteq> 0 then scan_end m (s + 1) else Some s)"

partial_function (option) strncat_loop :: "uint32 \<Rightarrow> uint32 \<Rightarrow> int \<Rightarrow> bytes \<Rightarrow> bytes option" where
  "strncat_loop s1 s2 n m =
     (let c = m s2; m' = m(s1 := c) in
      if c \<noteq> 0 then if n - 1 < 0 then Some (m'(s1 := 0)) else strncat_loop (s1 + 1) (s2 + 1) (n - 1) m'
      else Some m')"

definition strncat :: "uint32 \<Rightarrow> uint32 \<Rightarrow> int \<Rightarrow> bytes \<Rightarrow> (uint32 \<times> bytes) option" where
  "strncat s1 s2 n m = (case scan_end m s1 of
     None \<Rightarrow> None
   | Some e \<Rightarrow> map_option (Pair s1) (strncat_loop e s2 n m))"

text \<open>The searched character is an \<open>int\<close> that is converted to \<open>char\<close>; \<open>0\<close> is the null pointer.\<close>

partial_function (option) strchr_loop :: "bytes \<Rightarrow> uint32 \<Rightarrow> byte \<Rightarrow> uint32 option" where
  "strchr_loop m s c =
     (if m s \<noteq> 0 then if m s = c then Some s else strchr_loop m (s + 1) c
      else if c = m s then Some s else Some 0)"

definition strchr :: "bytes \<Rightarrow> uint32 \<Rightarrow> int \<Rightarrow> uint32 option" where
  "strchr m s c = strchr_loop m s (word_of_int c)"

partial_function (option) strrchr_loop :: "bytes \<Rightarrow> uint32 \<Rightarrow> byte \<Rightarrow> uint32 \<Rightarrow> uint32 option" where
  "strrchr_loop m s c r =
     (if m s \<noteq> 0 then strrchr_loop m (s + 1) c (if m s = c then s else r)
      else if c = m s then Some s else Some r)"

definition strrchr :: "bytes \<Rightarrow> uint32 \<Rightarrow> int \<Rightarrow> uint32 option" where
  "strrchr m s c = strrchr_loop m s (word_of_int c) 0"

partial_function (option) match_loop :: "bytes \<Rightarrow> uint32 \<Rightarrow> uint32 \<Rightarrow> uint32 option" where
  "match_loop m cq cr =
     (if m cq \<noteq> 0 \<and> m cr \<noteq> 0 then if m cq \<noteq> m cr then Some cr else match_loop m (cq + 1) (cr + 1)
      else Some cr)"

partial_function (option) strstr :: "bytes \<Rightarrow> uint32 \<Rightarrow> uint32 \<Rightarrow> uint32 option" where
  "strstr m cs ct =
     (if m cs \<noteq> 0 then
        if m cs = m ct then
          (case match_loop m cs ct of
             None \<Rightarrow> None
           | Some cr \<Rightarrow> if m cr = 0 then Some cs else strstr m (cs + 1) ct)
        else strstr m (cs + 1) ct
      else Some 0)"

text \<open>\<open>n\<close> is an \<open>int\<close> compared with an \<open>unsigned\<close>, so as an unsigned number.\<close>

function strnlen_loop :: "bytes \<Rightarrow> uint32 \<Rightarrow> uint32 \<Rightarrow> uint32 \<Rightarrow> uint32" where
  "strnlen_loop m s len n = (if m s \<noteq> 0 \<and> n < len then strnlen_loop m (s + 1) len (n + 1) else n)"
  by auto
termination
proof (relation "measure (\<lambda>(_, _, len, n). unat len - unat n)")
  fix m :: bytes and s len n :: uint32
  assume "m s \<noteq> (0 :: byte) \<and> n < len"
  then have lt: "unat n < unat len" by (simp add: word_less_nat_alt)
  moreover have "unat len < 2 ^ 32" using unsigned_less[of len] by simp
  ultimately have "unat (n + 1) = Suc (unat n)" by (simp add: unat_word_ariths)
  then show "((m, s + 1, len, n + 1), m, s, len, n) \<in> measure (\<lambda>(_, _, len, n). unat len - unat n)"
    using lt by simp
qed simp

definition strnlen :: "bytes \<Rightarrow> uint32 \<Rightarrow> uint32 \<Rightarrow> int" where
  "strnlen m s len = sint (strnlen_loop m s len 0)"

fun memcmp_loop :: "bytes \<Rightarrow> uint32 \<Rightarrow> uint32 \<Rightarrow> nat \<Rightarrow> int" where
  "memcmp_loop m c1 c2 0 = 0"
| "memcmp_loop m c1 c2 (Suc n) =
     (if m c1 \<noteq> m c2 then uint (m c1) - uint (m c2) else memcmp_loop m (c1 + 1) (c2 + 1) n)"

definition memcmp :: "bytes \<Rightarrow> uint32 \<Rightarrow> uint32 \<Rightarrow> int \<Rightarrow> int" where
  "memcmp m s1 s2 n = memcmp_loop m s1 s2 (nat n)"

text \<open>\<open>memchr\<close> takes a length and does not use it.\<close>

partial_function (option) memchr_loop :: "bytes \<Rightarrow> uint32 \<Rightarrow> byte \<Rightarrow> uint32 option" where
  "memchr_loop m cp c = (if m cp \<noteq> 0 then if m cp = c then Some cp else memchr_loop m (cp + 1) c else Some 0)"

definition memchr :: "bytes \<Rightarrow> uint32 \<Rightarrow> int \<Rightarrow> int \<Rightarrow> uint32 option" where
  "memchr m cs c n = memchr_loop m cs (word_of_int c)"

fun memset_loop :: "nat \<Rightarrow> uint32 \<Rightarrow> byte \<Rightarrow> bytes \<Rightarrow> bytes" where
  "memset_loop 0 cp c m = m"
| "memset_loop (Suc k) cp c m = memset_loop k (cp + 1) c (m(cp := c))"

definition memset :: "uint32 \<Rightarrow> int \<Rightarrow> int \<Rightarrow> bytes \<Rightarrow> uint32 \<times> bytes" where
  "memset s c n m = (s, memset_loop (nat n) s (word_of_int c) m)"

fun memcpy_loop :: "nat \<Rightarrow> uint32 \<Rightarrow> uint32 \<Rightarrow> bytes \<Rightarrow> bytes" where
  "memcpy_loop 0 dst src m = m"
| "memcpy_loop (Suc k) dst src m = memcpy_loop k (dst + 1) (src + 1) (m(dst := m src))"

definition memcpy :: "uint32 \<Rightarrow> uint32 \<Rightarrow> int \<Rightarrow> bytes \<Rightarrow> uint32 \<times> bytes" where
  "memcpy s ct n m = (s, memcpy_loop (nat n) s ct m)"

definition bzero :: "uint32 \<Rightarrow> int \<Rightarrow> bytes \<Rightarrow> bytes" where
  "bzero p len m = (if len \<le> 0 then m else zero_fill (nat len) p m)"

text \<open>\<open>atoi\<close>: blanks and tabs, one sign, digits.\<close>

partial_function (option) skip_blanks :: "bytes \<Rightarrow> uint32 \<Rightarrow> uint32 option" where
  "skip_blanks m p = (if m p = 0x20 \<or> m p = 9 then skip_blanks m (p + 1) else Some p)"

partial_function (option) digits_loop :: "bytes \<Rightarrow> uint32 \<Rightarrow> int \<Rightarrow> int option" where
  "digits_loop m p n =
     (if m p \<ge> 0x30 \<and> m p \<le> 0x39 then digits_loop m (p + 1) (s32 (n * 10 + uint (m p) - 0x30)) else Some n)"

definition atoi :: "bytes \<Rightarrow> uint32 \<Rightarrow> int option" where
  "atoi m p = (case skip_blanks m p of
     None \<Rightarrow> None
   | Some p \<Rightarrow>
     if m p = 0x2D then map_option (\<lambda>n. s32 (- n)) (digits_loop m (p + 1) 0)
     else if m p = 0x2B then digits_loop m (p + 1) 0
     else digits_loop m p 0)"

definition atol :: "bytes \<Rightarrow> uint32 \<Rightarrow> int option" where
  "atol m p = atoi m p"

definition abs32 :: "int \<Rightarrow> int" where
  "abs32 arg = (if arg < 0 then s32 (- arg) else arg)"

definition srand :: "uint32 \<Rightarrow> uint32" where
  "srand x = x"

definition rand :: "uint32 \<Rightarrow> uint32 \<times> uint32" where
  "rand randx = (let randx = randx * 1103515245 + 12345 in
     (and (drop_bit 16 randx) 0x7FFF, randx))"

declare strncmp.simps [simp del] strnlen_loop.simps [simp del]

section \<open>Blocks\<close>

lemma area_0 [simp]: "area a 0 = {}"
  by (simp add: area_def)

lemma area_Suc: "area a (Suc n) = insert a (area (a + 1) n)"
proof -
  have "{..<Suc n} = insert 0 (Suc ` {..<n})" by (auto simp: image_iff less_Suc_eq_0_disj)
  then show ?thesis by (simp add: area_def image_image algebra_simps)
qed

lemma unat_of_nat32: "k < 2 ^ 32 \<Longrightarrow> unat (of_nat k :: uint32) = k"
  by (simp add: unat_of_nat)

lemma area_fresh:
  assumes "Suc n \<le> 2 ^ 32"
  shows "a \<notin> area (a + 1) n"
proof
  assume "a \<in> area (a + 1) n"
  then obtain i where i: "i < n" "a = a + 1 + of_nat i" by (auto simp: area_def)
  have "a + of_nat (Suc i) = a + 1 + of_nat i" by (simp add: add.assoc)
  with i(2) have "a = a + of_nat (Suc i)" by (rule trans[OF _ sym])
  then have "(of_nat (Suc i) :: uint32) = 0" by (simp only: add_cancel_right_right)
  moreover have "unat (of_nat (Suc i) :: uint32) = Suc i" by (rule unat_of_nat32) (use i(1) assms in linarith)
  ultimately show False by (simp only: unsigned_0 nat.distinct)
qed

lemma put_same: "x \<notin> area a (length xs) \<Longrightarrow> put m a xs x = m x"
  by (induction xs arbitrary: m a) (auto simp: area_Suc)

lemma put_upd: "x \<notin> area a (length xs) \<Longrightarrow> put (m(x := v)) a xs = (put m a xs)(x := v)"
  by (induction xs arbitrary: m a) (auto simp: area_Suc fun_upd_twist)

lemma put_append: "put m a (xs @ ys) = put (put m a xs) (a + of_nat (length xs)) ys"
  by (induction xs arbitrary: m a) (simp_all add: algebra_simps)

lemma get_cong: "(\<And>x. x \<in> area a n \<Longrightarrow> m x = m' x) \<Longrightarrow> get m a n = get m' a n"
  by (induction n arbitrary: a) (auto simp: area_Suc)

lemma get_put: "length xs \<le> 2 ^ 32 \<Longrightarrow> get (put m a xs) a (length xs) = xs"
proof (induction xs arbitrary: m a)
  case (Cons x xs)
  then have "a \<notin> area (a + 1) (length xs)" by (intro area_fresh) simp
  then show ?case using Cons by (simp add: put_same)
qed simp

lemma get_length [simp]: "length (get m a n) = n"
  by (induction n arbitrary: a) simp_all

lemma get_nth: "i < n \<Longrightarrow> get m a n ! i = m (a + of_nat i)"
proof (induction n arbitrary: a i)
  case (Suc n)
  then show ?case by (cases i) (simp_all add: algebra_simps)
qed simp

lemma cstr_get: "cstr m a xs \<longleftrightarrow> get m a (Suc (length xs)) = xs @ [0] \<and> 0 \<notin> set xs"
  by (induction xs arbitrary: a) auto

lemma cstr_cong:
  assumes "cstr m a xs" "\<And>x. x \<in> area a (Suc (length xs)) \<Longrightarrow> m' x = m x"
  shows "cstr m' a xs"
  using assms
proof (induction xs arbitrary: a)
  case (Cons x xs)
  have "m' y = m y" if "y \<in> area (a + 1) (Suc (length xs))" for y
    using Cons.prems(2) that by (simp add: area_Suc[of a])
  then show ?case using Cons by (simp add: area_Suc[of a])
qed (simp add: area_Suc)

lemma cstr_unique: "cstr m a xs \<Longrightarrow> cstr m a ys \<Longrightarrow> xs = ys"
proof (induction xs arbitrary: a ys)
  case Nil
  then show ?case by (cases ys) auto
next
  case (Cons x xs)
  then show ?case by (cases ys) auto
qed

section \<open>Length and comparison\<close>

lemma strlen_loop_cstr:
  "cstr m a xs \<Longrightarrow> 0 \<le> k \<Longrightarrow> k + int (length xs) < 2 ^ 31 \<Longrightarrow> strlen_loop m a k = Some (k + int (length xs))"
proof (induction xs arbitrary: a k)
  case (Cons x xs)
  have "s32 (k + 1) = k + 1" using Cons.prems by (intro s32_id) simp_all
  then show ?case using Cons by (subst strlen_loop.simps) (simp add: algebra_simps)
qed (simp add: strlen_loop.simps)

lemma strlen_cstr: "cstr m a xs \<Longrightarrow> length xs < 2 ^ 31 \<Longrightarrow> strlen m a = Some (int (length xs))"
  using strlen_loop_cstr[of m a xs 0] by (simp add: strlen_def)

lemma strcmp_cstr:
  "cstr m a xs \<Longrightarrow> cstr m b ys \<Longrightarrow>
   strcmp m a b = Some (if xs = ys then 0 else if (xs, ys) \<in> lexord {(u, v). u < v} then - 1 else 1)"
proof (induction xs arbitrary: a b ys)
  case Nil
  then show ?case by (cases ys) (auto simp: strcmp.simps[of m a b] word_gt_0)
next
  case (Cons x xs)
  then show ?case by (cases ys) (auto simp: strcmp.simps[of m a b])
qed

lemma strncmp_zero:
  "cstr m a xs \<Longrightarrow> cstr m b ys \<Longrightarrow> strncmp m a b (int n) = 0 \<longleftrightarrow> take n xs = take n ys"
proof (induction n arbitrary: a b xs ys)
  case (Suc n)
  show ?case using Suc.prems Suc.IH[of "a + 1" _ "b + 1"]
    by (cases xs; cases ys) (auto simp: strncmp.simps[of m a b] Let_def word_uint_eq_iff)
qed (simp add: strncmp.simps)

lemma memcmp_zero: "memcmp m a b (int n) = 0 \<longleftrightarrow> get m a n = get m b n"
proof -
  have "memcmp_loop m a b n = 0 \<longleftrightarrow> get m a n = get m b n"
    by (induction n arbitrary: a b) (auto simp: word_uint_eq_iff)
  then show ?thesis by (simp add: memcmp_def)
qed

lemma strnlen_cstr:
  assumes "cstr m a xs" "len < 2 ^ 31"
  shows "strnlen m a (of_nat len) = int (min (length xs) len)"
proof -
  have "strnlen_loop m a (of_nat len) (of_nat k) = of_nat (k + min (length xs) (len - k))" if "k \<le> len" for k
    using assms that
  proof (induction xs arbitrary: a k)
    case Nil
    then show ?case by (simp add: strnlen_loop.simps)
  next
    case (Cons x xs)
    have lt: "(of_nat k :: uint32) < of_nat len \<longleftrightarrow> k < len"
      using Cons.prems by (simp add: word_less_nat_alt unat_of_nat)
    show ?case
    proof (cases "k < len")
      case True
      then have "strnlen_loop m (a + 1) (of_nat len) (of_nat (Suc k)) = of_nat (Suc k + min (length xs) (len - Suc k))"
        by (intro Cons.IH) (use Cons.prems in simp_all)
      moreover have "Suc k + min (length xs) (len - Suc k) = k + min (length (x # xs)) (len - k)" using True by simp
      ultimately have "strnlen_loop m (a + 1) (of_nat len) (of_nat (Suc k)) = of_nat (k + min (length (x # xs)) (len - k))"
        by (simp only:)
      moreover have "strnlen_loop m a (of_nat len) (of_nat k) = strnlen_loop m (a + 1) (of_nat len) (of_nat (Suc k))"
        using True lt Cons.prems(1) by (subst strnlen_loop.simps) (simp add: add.commute)
      ultimately show ?thesis by (simp only:)
    next
      case False
      then show ?thesis using lt by (subst strnlen_loop.simps) simp
    qed
  qed
  from this[of 0] have "strnlen_loop m a (of_nat len) 0 = of_nat (min (length xs) len)" by simp
  moreover have "sint (of_nat (min (length xs) len) :: uint32) = int (min (length xs) len)"
    using assms(2) by (simp add: signed_of_nat signed_take_bit_int_eq_self min_def)
  ultimately show ?thesis by (simp add: strnlen_def)
qed

section \<open>Copying\<close>

text \<open>Moving a source pointer past a byte just written elsewhere.\<close>

lemma disjoint_Suc:
  assumes "area a (Suc n) \<inter> area b (Suc k) = {}"
  shows "a \<notin> area b (Suc k)" "b \<notin> area a (Suc n)" "area (a + 1) n \<inter> area (b + 1) k = {}"
  using assms by (auto simp: area_Suc)

lemma strcpy_loop_cstr:
  "cstr m src xs \<Longrightarrow> area tar (Suc (length xs)) \<inter> area src (Suc (length xs)) = {} \<Longrightarrow>
   strcpy_loop tar src m = Some (put m tar (xs @ [0]))"
proof (induction xs arbitrary: src tar m)
  case Nil
  then show ?case by (simp add: strcpy_loop.simps fun_upd_def)
next
  case (Cons x xs)
  have d: "area tar (Suc (Suc (length xs))) \<inter> area src (Suc (Suc (length xs))) = {}" using Cons.prems(2) by simp
  have "cstr (m(tar := x)) (src + 1) xs"
    by (rule cstr_cong[of m]) (use Cons.prems(1) disjoint_Suc(1)[OF d] in \<open>auto simp: area_Suc[of src]\<close>)
  then have "strcpy_loop (tar + 1) (src + 1) (m(tar := x)) = Some (put (m(tar := x)) (tar + 1) (xs @ [0]))"
    using Cons.IH disjoint_Suc(3)[OF d] by blast
  then show ?case using Cons.prems(1) by (subst strcpy_loop.simps) (simp add: Let_def)
qed

lemma zero_fill_put: "zero_fill k a m = put m a (replicate k 0)"
  by (induction k arbitrary: a m) simp_all

lemma strncpy_loop_cstr:
  "cstr m s2 xs \<Longrightarrow> area s1 n \<inter> area s2 (Suc (length xs)) = {} \<Longrightarrow>
   strncpy_loop n s1 s2 m = put m s1 (take n (xs @ replicate n 0))"
proof (induction n arbitrary: s1 s2 xs m)
  case (Suc n)
  show ?case
  proof (cases xs)
    case Nil
    then show ?thesis using Suc.prems(1) by (simp add: zero_fill_put)
  next
    case (Cons y ys)
    have d: "area s1 (Suc n) \<inter> area s2 (Suc (Suc (length ys))) = {}" using Suc.prems(2) Cons by simp
    have c: "cstr m s2 (y # ys)" using Suc.prems(1) Cons by simp
    have "cstr (m(s1 := y)) (s2 + 1) ys"
      by (rule cstr_cong[of m]) (use c disjoint_Suc(1)[OF d] in \<open>auto simp: area_Suc[of s2]\<close>)
    then have "strncpy_loop n (s1 + 1) (s2 + 1) (m(s1 := y)) = put (m(s1 := y)) (s1 + 1) (take n (ys @ replicate n 0))"
      using Suc.IH disjoint_Suc(3)[OF d] by blast
    moreover have "take n (ys @ replicate (Suc n) 0) = take n (ys @ replicate n 0)"
      by (simp del: replicate_Suc)
    ultimately show ?thesis using c Cons by (simp add: Let_def)
  qed
qed simp

lemma memcpy_loop_get:
  "area dst n \<inter> area src n = {} \<Longrightarrow> memcpy_loop n dst src m = put m dst (get m src n)"
proof (induction n arbitrary: dst src m)
  case (Suc n)
  have "get (m(dst := m src)) (src + 1) n = get m (src + 1) n"
    by (rule get_cong) (use disjoint_Suc(1)[OF Suc.prems] in \<open>auto simp: area_Suc\<close>)
  moreover have "memcpy_loop n (dst + 1) (src + 1) (m(dst := m src)) =
      put (m(dst := m src)) (dst + 1) (get (m(dst := m src)) (src + 1) n)"
    by (rule Suc.IH[OF disjoint_Suc(3)[OF Suc.prems]])
  ultimately show ?case by (simp del: fun_upd_apply)
qed simp

lemma memset_loop_put: "memset_loop k a c m = put m a (replicate k c)"
  by (induction k arbitrary: a m) simp_all

lemma scan_end_cstr: "cstr m a xs \<Longrightarrow> scan_end m a = Some (a + of_nat (length xs))"
proof (induction xs arbitrary: a)
  case (Cons x xs)
  then show ?case by (subst scan_end.simps) (simp add: algebra_simps)
qed (simp add: scan_end.simps)

lemma strncat_loop_cstr:
  "cstr m s2 xs \<Longrightarrow> area s1 (Suc (min n (length xs))) \<inter> area s2 (Suc (length xs)) = {} \<Longrightarrow>
   strncat_loop s1 s2 (int n) m = Some (put m s1 (take n xs @ [0]))"
proof (induction xs arbitrary: s1 s2 n m)
  case Nil
  then show ?case by (simp add: strncat_loop.simps fun_upd_def)
next
  case (Cons x xs)
  show ?case
  proof (cases n)
    case 0
    then show ?thesis using Cons.prems(1) by (subst strncat_loop.simps) (auto simp: Let_def)
  next
    case (Suc k)
    have d: "area s1 (Suc (Suc (min k (length xs)))) \<inter> area s2 (Suc (Suc (length xs))) = {}"
      using Cons.prems(2) Suc by simp
    have "cstr (m(s1 := x)) (s2 + 1) xs"
      by (rule cstr_cong[of m]) (use Cons.prems(1) disjoint_Suc(1)[OF d] in \<open>auto simp: area_Suc[of s2]\<close>)
    then have "strncat_loop (s1 + 1) (s2 + 1) (int k) (m(s1 := x)) = Some (put (m(s1 := x)) (s1 + 1) (take k xs @ [0]))"
      using Cons.IH disjoint_Suc(3)[OF d] by blast
    then show ?thesis using Cons.prems(1) Suc by (subst strncat_loop.simps) (simp add: Let_def)
  qed
qed

section \<open>Searching\<close>

text \<open>The index of the first and of the last occurrence.\<close>

fun first_at :: "byte \<Rightarrow> byte list \<Rightarrow> nat option" where
  "first_at c [] = None"
| "first_at c (x # xs) = (if x = c then Some 0 else map_option Suc (first_at c xs))"

fun last_at :: "byte \<Rightarrow> byte list \<Rightarrow> nat option" where
  "last_at c [] = None"
| "last_at c (x # xs) = (case last_at c xs of Some i \<Rightarrow> Some (Suc i) | None \<Rightarrow> if x = c then Some 0 else None)"

definition ptr_at :: "uint32 \<Rightarrow> nat option \<Rightarrow> uint32" where
  "ptr_at a i = (case i of None \<Rightarrow> 0 | Some i \<Rightarrow> a + of_nat i)"

lemma ptr_at_Suc: "ptr_at a (map_option Suc i) = ptr_at (a + 1) i"
  by (simp add: ptr_at_def split: option.split)

lemma first_at_iff: "first_at c xs = Some i \<longleftrightarrow> i < length xs \<and> xs ! i = c \<and> (\<forall>j < i. xs ! j \<noteq> c)"
proof (induction xs arbitrary: i)
  case (Cons x xs)
  then show ?case by (cases i) (auto simp: nth_Cons split: nat.splits)
qed simp

lemma last_at_iff: "last_at c xs = Some i \<longleftrightarrow> i < length xs \<and> xs ! i = c \<and> (\<forall>j. i < j \<longrightarrow> j < length xs \<longrightarrow> xs ! j \<noteq> c)"
proof (induction xs arbitrary: i)
  case (Cons x xs)
  have none: "last_at c xs = None \<longleftrightarrow> c \<notin> set xs"
    by (induction xs) (auto split: option.splits)
  show ?case
  proof (cases i)
    case 0
    then show ?thesis using none
      by (auto simp: in_set_conv_nth nth_Cons split: option.splits nat.splits)
  next
    case (Suc k)
    have "(\<forall>j. Suc k < j \<longrightarrow> j < length (x # xs) \<longrightarrow> (x # xs) ! j \<noteq> c) \<longleftrightarrow>
        (\<forall>j. k < j \<longrightarrow> j < length xs \<longrightarrow> xs ! j \<noteq> c)" (is "?l \<longleftrightarrow> ?r")
    proof
      assume l: ?l
      then show ?r by (metis Suc_less_eq length_Cons nth_Cons_Suc)
    qed (auto simp: nth_Cons split: nat.splits)
    then show ?thesis using Suc Cons.IH[of k] by (auto split: option.splits)
  qed
qed simp

lemma strchr_loop_cstr: "cstr m a xs \<Longrightarrow> strchr_loop m a c = Some (ptr_at a (first_at c (xs @ [0])))"
proof (induction xs arbitrary: a)
  case Nil
  then show ?case by (simp add: strchr_loop.simps ptr_at_def)
next
  case (Cons x xs)
  then show ?case by (subst strchr_loop.simps) (auto simp: ptr_at_Suc ptr_at_def[of a "Some 0"])
qed

lemma strrchr_loop_cstr:
  "cstr m a xs \<Longrightarrow>
   strrchr_loop m a c r = Some (case last_at c (xs @ [0]) of None \<Rightarrow> r | Some i \<Rightarrow> a + of_nat i)"
proof (induction xs arbitrary: a r)
  case Nil
  then show ?case by (simp add: strrchr_loop.simps)
next
  case (Cons x xs)
  then show ?case by (subst strrchr_loop.simps) (auto simp: algebra_simps split: option.splits)
qed

lemma memchr_loop_cstr: "cstr m a xs \<Longrightarrow> memchr_loop m a c = Some (ptr_at a (first_at c xs))"
proof (induction xs arbitrary: a)
  case Nil
  then show ?case by (simp add: memchr_loop.simps ptr_at_def)
next
  case (Cons x xs)
  then show ?case by (subst memchr_loop.simps) (auto simp: ptr_at_Suc ptr_at_def[of a "Some 0"])
qed

text \<open>The index of the first suffix that starts with \<open>ys\<close>.\<close>

fun first_prefix :: "byte list \<Rightarrow> byte list \<Rightarrow> nat option" where
  "first_prefix ys [] = None"
| "first_prefix ys (x # xs) =
     (if take (length ys) (x # xs) = ys then Some 0 else map_option Suc (first_prefix ys xs))"

lemma first_prefix_iff:
  "first_prefix ys xs = Some i \<longleftrightarrow> i < length xs \<and> take (length ys) (drop i xs) = ys \<and>
     (\<forall>j < i. take (length ys) (drop j xs) \<noteq> ys)"
proof (induction xs arbitrary: i)
  case (Cons x xs)
  then show ?case by (cases i) (auto simp: less_Suc_eq_0_disj)
qed simp

lemma match_loop_cstr:
  "cstr m cq xs \<Longrightarrow> cstr m cr ys \<Longrightarrow> \<exists>p. match_loop m cq cr = Some p \<and> (m p = 0 \<longleftrightarrow> take (length ys) xs = ys)"
proof (induction xs arbitrary: cq cr ys)
  case Nil
  then show ?case by (cases ys) (auto simp: match_loop.simps[of m cq cr])
next
  case (Cons x xs)
  then show ?case by (cases ys) (auto simp: match_loop.simps[of m cq cr])
qed

lemma strstr_cstr:
  "cstr m cs xs \<Longrightarrow> cstr m ct ys \<Longrightarrow> ys \<noteq> [] \<Longrightarrow> strstr m cs ct = Some (ptr_at cs (first_prefix ys xs))"
proof (induction xs arbitrary: cs)
  case Nil
  then show ?case by (simp add: strstr.simps ptr_at_def)
next
  case (Cons x xs)
  obtain p where p: "match_loop m cs ct = Some p" "m p = 0 \<longleftrightarrow> take (length ys) (x # xs) = ys"
    using match_loop_cstr[OF Cons.prems(1,2)] by blast
  have IH: "strstr m (cs + 1) ct = Some (ptr_at (cs + 1) (first_prefix ys xs))" using Cons by simp
  have "take (length ys) (x # xs) = ys \<Longrightarrow> m cs = m ct" using Cons.prems by (cases ys) auto
  moreover have "m cs \<noteq> 0" using Cons.prems(1) by auto
  ultimately have "strstr m cs ct =
      (if take (length ys) (x # xs) = ys then Some cs else strstr m (cs + 1) ct)"
    using p by (subst strstr.simps) simp
  then show ?case using IH by (simp add: ptr_at_Suc ptr_at_def[of cs "Some 0"])
qed

text \<open>An empty needle is never found, not even in an empty string.\<close>

lemma strstr_empty: "cstr m cs xs \<Longrightarrow> m ct = 0 \<Longrightarrow> strstr m cs ct = Some 0"
proof (induction xs arbitrary: cs)
  case (Cons x xs)
  then have "m cs \<noteq> m ct" "m cs \<noteq> 0" "strstr m (cs + 1) ct = Some 0" by auto
  then show ?case by (subst strstr.simps) simp
qed (simp add: strstr.simps)

section \<open>Numbers\<close>

text \<open>The decimal notation of a number, and the bytes at an address.\<close>

fun dec :: "nat \<Rightarrow> byte list" where
  "dec n = (if n < 10 then [0x30 + of_nat n] else dec (n div 10) @ [0x30 + of_nat (n mod 10)])"

declare dec.simps [simp del]

definition dec_int :: "int \<Rightarrow> byte list" where
  "dec_int v = (if v < 0 then 0x2D # dec (nat (- v)) else dec (nat v))"

fun starts :: "bytes \<Rightarrow> uint32 \<Rightarrow> byte list \<Rightarrow> bool" where
  "starts m a [] = True"
| "starts m a (x # xs) = (m a = x \<and> starts m (a + 1) xs)"

lemma starts_append: "starts m a (xs @ ys) \<longleftrightarrow> starts m a xs \<and> starts m (a + of_nat (length xs)) ys"
  by (induction xs arbitrary: a) (auto simp: algebra_simps)

abbreviation is_dig :: "byte \<Rightarrow> bool" where
  "is_dig c \<equiv> c \<ge> 0x30 \<and> c \<le> 0x39"

definition dval :: "byte \<Rightarrow> int" where
  "dval c = uint c - 0x30"

lemma dig_byte:
  assumes "d < 10"
  shows "is_dig (0x30 + of_nat d)" "dval (0x30 + of_nat d) = int d"
proof -
  have u: "uint (0x30 + of_nat d :: byte) = 0x30 + int d"
    using assms by (simp add: uint_word_ariths unsigned_of_nat take_bit_eq_mod)
  then show "is_dig (0x30 + of_nat d)" using assms by (simp add: word_le_def)
  show "dval (0x30 + of_nat d) = int d" using u by (simp add: dval_def)
qed

definition horner :: "int \<Rightarrow> byte list \<Rightarrow> int" where
  "horner n ds = foldl (\<lambda>n c. n * 10 + dval c) n ds"

lemma horner_mono: "0 \<le> n \<Longrightarrow> list_all is_dig ds \<Longrightarrow> n \<le> horner n ds"
proof (induction ds arbitrary: n)
  case (Cons c ds)
  then have "0 \<le> dval c" by (simp add: dval_def word_le_def)
  then have "n \<le> n * 10 + dval c" "0 \<le> n * 10 + dval c" using Cons.prems(1) by simp_all
  then show ?case using Cons.IH[of "n * 10 + dval c"] Cons.prems(2) by (simp add: horner_def)
qed (simp add: horner_def)

lemma digits_loop_run:
  "starts m p ds \<Longrightarrow> list_all is_dig ds \<Longrightarrow> \<not> is_dig (m (p + of_nat (length ds))) \<Longrightarrow> 0 \<le> n \<Longrightarrow>
   horner n ds < 2 ^ 31 \<Longrightarrow> digits_loop m p n = Some (horner n ds)"
proof (induction ds arbitrary: p n)
  case Nil
  then have "\<not> is_dig (m p)" by simp
  then show ?case by (subst digits_loop.simps) (simp only: if_False horner_def foldl.simps)
next
  case (Cons c ds)
  let ?n = "n * 10 + dval c"
  have pos: "0 \<le> ?n" using Cons.prems(2,4) by (simp add: dval_def word_le_def)
  have h: "horner n (c # ds) = horner ?n ds" by (simp add: horner_def)
  have "?n < 2 ^ 31" using horner_mono[OF pos, of ds] Cons.prems(2,5) h by simp
  then have "s32 (n * 10 + uint c - 0x30) = ?n" using pos s32_id[of ?n] by (simp add: dval_def algebra_simps)
  moreover have "digits_loop m (p + 1) ?n = Some (horner ?n ds)"
    by (rule Cons.IH) (use Cons.prems pos h in \<open>simp_all add: algebra_simps\<close>)
  moreover have "is_dig (m p)" "m p = c" using Cons.prems(1,2) by simp_all
  ultimately show ?case unfolding h by (subst digits_loop.simps) (simp only: if_True simp_thms)
qed

lemma dec_digits: "list_all is_dig (dec n)" "horner 0 (dec n) = int n" "dec n \<noteq> []"
proof (induction n rule: dec.induct)
  case (1 n)
  show "dec n \<noteq> []" by (subst dec.simps) simp
  show "list_all is_dig (dec n)" using 1(1) dig_byte(1)[of n] dig_byte(1)[of "n mod 10"] by (subst dec.simps) simp
  show "horner 0 (dec n) = int n"
  proof (cases "n < 10")
    case True
    then show ?thesis by (subst dec.simps) (simp add: horner_def dig_byte)
  next
    case False
    have "horner 0 (dec n) = horner 0 (dec (n div 10)) * 10 + dval (0x30 + of_nat (n mod 10))"
      using False by (subst dec.simps) (simp add: horner_def)
    also have "\<dots> = int (n div 10) * 10 + int (n mod 10)" using 1(2)[OF False] dig_byte(2)[of "n mod 10"] by simp
    also have "\<dots> = int n" by presburger
    finally show ?thesis .
  qed
qed

lemma skip_blanks_run:
  "starts m p bs \<Longrightarrow> list_all (\<lambda>c. c = 0x20 \<or> c = 9) bs \<Longrightarrow> m (p + of_nat (length bs)) \<noteq> 0x20 \<Longrightarrow>
   m (p + of_nat (length bs)) \<noteq> 9 \<Longrightarrow> skip_blanks m p = Some (p + of_nat (length bs))"
proof (induction bs arbitrary: p)
  case Nil
  then show ?case by (simp add: skip_blanks.simps)
next
  case (Cons c bs)
  then show ?case by (subst skip_blanks.simps) (simp add: algebra_simps)
qed

theorem atoi_dec:
  assumes s: "starts m p (bs @ dec_int v @ [e])" and bs: "list_all (\<lambda>c. c = 0x20 \<or> c = 9) bs"
    and e: "\<not> is_dig e" and v: "- (2 ^ 31) < v" "v < 2 ^ 31"
  shows "atoi m p = Some v"
proof -
  let ?p = "p + of_nat (length bs)"
  have s': "starts m p bs" "starts m ?p (dec_int v @ [e])" using s by (simp_all add: starts_append)
  note D = dec_digits[of "nat \<bar>v\<bar>"]
  have first: "is_dig (hd (dec k))" for k using dec_digits(1,3)[of k] by (cases "dec k") auto
  have hd: "m ?p = (if v < 0 then 0x2D else hd (dec (nat v)))"
    using s'(2) dec_digits(3)[of "nat v"] by (cases "dec (nat v)") (auto simp: dec_int_def)
  have nd: "\<not> is_dig 0x20" "\<not> is_dig 9" "\<not> is_dig 0x2D" "\<not> is_dig 0x2B" by simp_all
  have "m ?p \<noteq> 0x20" "m ?p \<noteq> 9" using hd nd first[of "nat v"] by (auto split: if_splits)
  then have skip: "skip_blanks m p = Some ?p" by (rule skip_blanks_run[OF s'(1) bs])
  have run: "digits_loop m q 0 = Some \<bar>v\<bar>" if "starts m q (dec (nat \<bar>v\<bar>) @ [e])" for q
    using digits_loop_run[of m q "dec (nat \<bar>v\<bar>)" 0] that e v D by (simp add: starts_append)
  show ?thesis
  proof (cases "v < 0")
    case True
    then have "starts m (?p + 1) (dec (nat \<bar>v\<bar>) @ [e])" using s'(2) by (simp add: dec_int_def)
    then show ?thesis using run[of "?p + 1"] skip hd True s32_id[of v] v by (simp add: atoi_def)
  next
    case False
    then have "starts m ?p (dec (nat \<bar>v\<bar>) @ [e])" using s'(2) by (simp add: dec_int_def)
    moreover have "m ?p \<noteq> 0x2D" "m ?p \<noteq> 0x2B" using hd nd first[of "nat v"] False by auto
    ultimately show ?thesis using run[of ?p] skip False by (simp add: atoi_def)
  qed
qed

end
