(* ===== verification/Upper_State.thy ===== *)
theory Upper_State
  imports Kernel_Frame Process_Inv Lib_String
begin

text \<open>
  The state of the components built on the kernel: message ports (\<^verbatim>\<open>include/ports.h\<close>), the
  console line (\<^verbatim>\<open>include/tty.h\<close>) and its UART, as an extension of the kernel's record, so that
  the kernel calls run on it unchanged. Calls of these components wait on semaphores; what is
  left to do when the process runs again is in \<open>ukont\<close>.

  Heap memory in use: \<open>busy s a\<close> says that the word at \<open>a\<close> belongs to nobody's free block, so
  writing it cannot damage the allocator.
\<close>

section \<open>Ports\<close>

datatype ptstate = PT_FREE | PT_LIMBO | PT_ALLOC

record ptentry =
  ptssem :: int
  ptrsem :: int
  ptstate :: ptstate
  ptmaxcnt :: int
  ptseq :: int
  pthead :: uint32
  pttail :: uint32

section \<open>The console\<close>

text \<open>The pointers into the buffers are offsets from their first character.\<close>

datatype tymode = TY_IMRAW | TY_IMCOOKED | TY_IMCBREAK

record ttycblk =
  tyihead :: int
  tyitail :: int
  tyibuff :: "int \<Rightarrow> byte"
  tyisem :: int
  tyohead :: int
  tyotail :: int
  tyobuff :: "int \<Rightarrow> byte"
  tyosem :: int
  tyehead :: int
  tyetail :: int
  tyebuff :: "int \<Rightarrow> byte"
  tyimode :: tymode
  tyiecho :: bool
  tyieback :: bool
  tyevis :: bool
  tyecrlf :: bool
  tyicrlf :: bool
  tyierase :: bool
  tyierasec :: byte
  tyeof :: bool
  tyeofch :: byte
  tyikill :: bool
  tyikillc :: byte
  tyicursor :: int
  tyoflow :: bool
  tyoheld :: bool
  tyostop :: byte
  tyostart :: byte
  tyocrlf :: bool
  tyifullc :: byte

text \<open>
  The UART as the driver sees it: a read of \<open>buffer\<close> takes the next received character off \<open>rx\<close>, a write of
  \<open>buffer\<close> appends one to \<open>tx\<close>, \<open>lsr\<close> tells whether a received character is there, \<open>txfifo_lvl\<close> how
  full the transmitter is, and \<open>ier\<close> which interrupts it may raise. The divisor latches \<open>dll\<close> and \<open>dlm\<close>, which
  share addresses with \<open>buffer\<close> and \<open>ier\<close> while \<open>lcr\<close> selects them, and the FIFO control register \<open>fcr\<close>, which
  shares one with \<open>iir\<close>, are fields of their own.
\<close>

record uart_csreg =
  rx :: "byte list"
  tx :: "byte list"
  txfifo_lvl :: int
  ier :: uint32
  lcr :: uint32
  dlm :: uint32
  dll :: uint32
  fcr :: uint32
  mdr1 :: uint32

section \<open>The extended state\<close>

text \<open>Where \<open>ttyread\<close> stands: reading \<open>count\<close> characters without editing, waiting for the first
  character of a line, or inside a line. The characters already stored are in \<open>acc\<close>.\<close>

datatype ttyread_at =
    Read_raw (rd_nread: int) (rd_count: int) (rd_acc: "byte list")
  | Read_first (rd_count: int)
  | Read_line (rd_nread: int) (rd_count: int) (rd_acc: "byte list")

datatype ucont =
    U_getbuf int
  | U_ptsend int int uint32
  | U_ptrecv int int
  | U_ptclear1 int ptstate
  | U_ptclear2 int ptstate
  | U_ttygetc
  | U_ttynextc
  | U_ttyread ttyread_at
  | U_ttyputc byte "(bool \<times> byte) list"

record ustate = kstate +
  porttab :: "int \<Rightarrow> ptentry"
  ptfree :: uint32
  ptnextid :: int
  tty :: ttycblk
  uart :: uart_csreg
  intc_vector :: "int \<Rightarrow> uint32"
  mir :: "int \<Rightarrow> uint32"
  ukont :: "int \<Rightarrow> ucont option"

section \<open>Memory in use\<close>

abbreviation heap_of :: "'z kstate_scheme \<Rightarrow> blk list \<Rightarrow> bool" where
  "heap_of s xs \<equiv> heap_rep (memlist s) (unat (minheap s)) (unat (maxheap s)) (mem s) xs"

definition busy :: "'z kstate_scheme \<Rightarrow> uint32 \<Rightarrow> bool" where
  "busy s a \<longleftrightarrow> a \<noteq> 0 \<and> 4 dvd unat a \<and> a \<noteq> memlist s \<and> a \<noteq> memlist s + 4 \<and>
     (\<forall>xs. heap_of s xs \<longrightarrow> unat a \<notin> free_bytes xs)"

lemma chain_unique:
  assumes "chain m a xs" "chain m a ys" "\<forall>(b, l) \<in> set xs. b \<noteq> 0" "\<forall>(b, l) \<in> set ys. b \<noteq> 0"
  shows "xs = ys"
  using assms
proof (induction xs arbitrary: a ys)
  case Nil
  show ?case
  proof (cases ys)
    case (Cons y zs)
    then show ?thesis using Nil chain_next[OF Nil(1)] by (cases y) (auto simp: chain_Cons)
  qed simp
next
  case (Cons x xs)
  obtain b l where x: "x = (b, l)" by (cases x)
  have ma: "m a = b" "b \<noteq> 0" using Cons.prems(1,3) x by (auto simp: chain_Cons)
  then obtain y zs where ys: "ys = y # zs" using chain_next[OF Cons.prems(2)] by (cases ys) auto
  obtain c k where y: "y = (c, k)" by (cases y)
  have "c = b" "k = l" "chain m b xs" "chain m b zs" using Cons.prems(1,2) ma x ys y by (auto simp: chain_Cons)
  then show ?case using Cons.IH[of b zs] Cons.prems(3,4) x y ys by simp
qed

lemma heap_rep_unique:
  assumes "heap_rep ml lo hi m xs" "heap_rep ml lo hi m ys"
  shows "xs = ys"
proof -
  note X = heap_repD[OF assms(1)] and Y = heap_repD[OF assms(2)]
  have nz: "b \<noteq> 0" if "fl_ok lo hi zs" "(b, l) \<in> set zs" for zs b l
    using fl_ok_mem[OF that] X(3) by auto
  show ?thesis by (rule chain_unique[OF X(6) Y(6)]) (use nz[OF X(5)] nz[OF Y(5)] in auto)
qed

lemma kheap_write:
  assumes heap: "kheap s" and a: "busy s a"
  shows "kheap (s\<lparr>mem := (mem s)(a := v)\<rparr>)" "busy (s\<lparr>mem := (mem s)(a := v)\<rparr>) = busy s"
proof -
  obtain xs where xs: "heap_of s xs" using heap by (auto simp: kheap_def)
  have na: "unat a \<notin> free_bytes xs" "a \<noteq> memlist s" using a xs by (auto simp: busy_def)
  have "heap_rep (memlist s) (unat (minheap s)) (unat (maxheap s)) ((mem s)(a := v)) xs"
    by (rule heap_rep_frame[OF xs]) (use na in auto)
  then have xs': "heap_of (s\<lparr>mem := (mem s)(a := v)\<rparr>) xs" by simp
  then show "kheap (s\<lparr>mem := (mem s)(a := v)\<rparr>)" by (auto simp: kheap_def)
  have eq: "heap_of (s\<lparr>mem := (mem s)(a := v)\<rparr>) ys = heap_of s ys" for ys
    using heap_rep_unique xs xs' by (metis (no_types, lifting) kstate.select_convs(1))
  have "busy (s\<lparr>mem := (mem s)(a := v)\<rparr>) x = busy s x" for x
    unfolding busy_def eq by simp
  then show "busy (s\<lparr>mem := (mem s)(a := v)\<rparr>) = busy s" by blast
qed

lemma kinv_write: "kinv s \<Longrightarrow> busy s a \<Longrightarrow> kinv (s\<lparr>mem := (mem s)(a := v)\<rparr>)"
  using kheap_write(1)[of s a v] by (simp add: kinv_def)

lemma busy_cong:
  "memlist s' = memlist s \<Longrightarrow> minheap s' = minheap s \<Longrightarrow> maxheap s' = maxheap s \<Longrightarrow> mem s' = mem s \<Longrightarrow> busy s' = busy s"
  by (rule ext) (simp add: busy_def)

lemma busy_untouched: "untouched K s s' \<Longrightarrow> busy s' = busy s"
  by (rule busy_cong) (simp_all add: untouchedD)

lemma busy_access:
  assumes "busy s a"
  shows "ld a m = Some (m a)" "st a v m = Some (m(a := v))"
  using assms by (simp_all add: busy_def range_simps)

text \<open>Fields of the extension the kernel invariant does not read.\<close>

lemma kinv_ext [simp]:
  "kinv (s\<lparr>porttab := a\<rparr>) = kinv s" "kinv (s\<lparr>ptfree := b\<rparr>) = kinv s" "kinv (s\<lparr>ptnextid := c\<rparr>) = kinv s"
  "kinv (s\<lparr>tty := d\<rparr>) = kinv s" "kinv (s\<lparr>uart := e\<rparr>) = kinv s" "kinv (s\<lparr>ukont := f\<rparr>) = kinv s"
  "kinv (s\<lparr>intc_vector := g\<rparr>) = kinv s" "kinv (s\<lparr>mir := h\<rparr>) = kinv s"
  by (simp_all add: kinv_def kq_def kids_def qof_def eligible_def ksem_def sem_inv_def kmsg_def msg_inv_def
      kheap_def kstk_def stk_ok_def kpend_def cong: prstate.case_cong)

lemma kinv_pools [simp]:
  "kinv (s\<lparr>buftab := a\<rparr>) = kinv s" "kinv (s\<lparr>nbpools := b\<rparr>) = kinv s"
  by (simp_all add: kinv_def kq_def kids_def qof_def eligible_def ksem_def sem_inv_def kmsg_def msg_inv_def
      kheap_def kstk_def stk_ok_def kpend_def cong: prstate.case_cong)

lemma busy_ext [simp]:
  "busy (s\<lparr>porttab := a\<rparr>) = busy s" "busy (s\<lparr>ptfree := b\<rparr>) = busy s" "busy (s\<lparr>ptnextid := c\<rparr>) = busy s"
  "busy (s\<lparr>tty := d\<rparr>) = busy s" "busy (s\<lparr>uart := e\<rparr>) = busy s" "busy (s\<lparr>ukont := f\<rparr>) = busy s"
  "busy (s\<lparr>intc_vector := g\<rparr>) = busy s" "busy (s\<lparr>mir := h\<rparr>) = busy s"
  by (rule busy_cong; simp)+

lemma busy_pools [simp]: "busy (s\<lparr>buftab := g\<rparr>) = busy s" "busy (s\<lparr>nbpools := h\<rparr>) = busy s"
  by (rule busy_cong; simp)+

lemma more_fields:
  assumes "kstate.more s' = kstate.more (s :: 'z ustate_scheme)"
  shows "porttab s' = porttab s" "ptfree s' = ptfree s" "ptnextid s' = ptnextid s" "tty s' = tty s" "uart s' = uart s"
    "ukont s' = ukont s"
  using assms by (cases s; cases s'; simp)+

lemmas untouched_upper = untouchedD(17)[THEN more_fields(1)] untouchedD(17)[THEN more_fields(2)]
  untouchedD(17)[THEN more_fields(3)] untouchedD(17)[THEN more_fields(4)] untouchedD(17)[THEN more_fields(5)]
  untouchedD(17)[THEN more_fields(6)]

section \<open>Semaphores nobody waits for\<close>

text \<open>On a semaphore without waiting processes \<open>signal\<close> and \<open>signaln\<close> only add to the count.\<close>

abbreviation sem_live :: "'z kstate_scheme \<Rightarrow> int \<Rightarrow> bool" where
  "sem_live s k \<equiv> sem_ok k \<and> sstate (semtab s k) = S_USED"

lemma signal_idle:
  assumes "sem_live s k" "0 \<le> scount (semtab s k)" "scount (semtab s k) < 2 ^ 31 - 1"
  shows "signal k s = Some (OK, s\<lparr>semtab := (semtab s)(k := (semtab s k)\<lparr>scount := scount (semtab s k) + 1\<rparr>)\<rparr>)"
  using assms by (simp add: signal_def signal_one_def isbadsem_def range_simps s32_id)

lemma signaln_loop_idle:
  assumes "sem_live s k" "0 \<le> scount (semtab s k)" "scount (semtab s k) + int n < 2 ^ 31"
  shows "signaln_loop n k s = Some (s\<lparr>semtab := (semtab s)(k := (semtab s k)\<lparr>scount := scount (semtab s k) + int n\<rparr>)\<rparr>)"
  using assms
proof (induction n arbitrary: s)
  case 0
  have "s\<lparr>semtab := (semtab s)(k := (semtab s k)\<lparr>scount := scount (semtab s k) + int 0\<rparr>)\<rparr> = s"
    by (rule kstate.equality) simp_all
  then show ?case by simp
next
  case (Suc n)
  let ?s = "s\<lparr>semtab := (semtab s)(k := (semtab s k)\<lparr>scount := scount (semtab s k) + 1\<rparr>)\<rparr>"
  have "signal_one k s = Some ?s" using Suc.prems by (simp add: signal_one_def range_simps s32_id)
  then show ?case using Suc.IH[of ?s] Suc.prems by (simp add: algebra_simps cong: if_cong)
qed

lemma signaln_idle:
  assumes k: "sem_live s k" "0 \<le> scount (semtab s k)" and n: "0 \<le> n" "scount (semtab s k) + n < 2 ^ 31"
    and d: "0 < ndefers s" "ndefers s < 2 ^ 31 - 1"
  shows "signaln k n s = Some (OK, s\<lparr>semtab := (semtab s)(k := (semtab s k)\<lparr>scount := scount (semtab s k) + n\<rparr>)\<rparr>)"
proof -
  let ?e = "(semtab s k)\<lparr>scount := scount (semtab s k) + n\<rparr>" and ?s1 = "s\<lparr>ndefers := ndefers s + 1\<rparr>"
  have "resched_cntl DEFER_START s = Some (OK, ?s1)" using d by (simp add: resched_cntl_def s32_id Let_def)
  moreover have "signaln_loop (nat n) k ?s1 = Some (?s1\<lparr>semtab := (semtab s)(k := ?e)\<rparr>)"
    using signaln_loop_idle[where s = ?s1 and k = k and n = "nat n"] k n by simp
  moreover have "resched_cntl DEFER_STOP (?s1\<lparr>semtab := (semtab s)(k := ?e)\<rparr>) =
      Some (OK, s\<lparr>semtab := (semtab s)(k := ?e)\<rparr>)"
  proof -
    have "?s1\<lparr>semtab := (semtab s)(k := ?e)\<rparr>\<lparr>ndefers := ndefers s\<rparr> = s\<lparr>semtab := (semtab s)(k := ?e)\<rparr>"
      by (rule kstate.equality) simp_all
    then show ?thesis using d by (simp add: resched_cntl_def Let_def)
  qed
  ultimately show ?thesis using k n by (simp add: signaln_def isbadsem_def range_simps)
qed

end
