(* ===== verification/Bufpool.thy ===== *)
theory Bufpool
  imports Upper_State
begin

unbundle bit_operations_syntax

text \<open>
  Buffer pools (\<^verbatim>\<open>include/bufpool.h\<close>, \<^verbatim>\<open>system/mkbufpool.c\<close>, \<^verbatim>\<open>getbuf.c\<close>, \<^verbatim>\<open>freebuf.c\<close>). A pool is a
  list of equal buffers cut out of one heap block and linked through their first word; a semaphore
  counts them. A buffer handed out carries its pool's number in that word, and the caller gets the
  address behind it.
\<close>

section \<open>Operations\<close>

abbreviation (input) NBPOOLS :: int where "NBPOOLS \<equiv> 20"
abbreviation (input) BP_MAXB :: int where "BP_MAXB \<equiv> 8192"
abbreviation (input) BP_MINB :: int where "BP_MINB \<equiv> 8"
abbreviation (input) BP_MAXN :: int where "BP_MAXN \<equiv> 2048"

fun link_bufs :: "nat \<Rightarrow> uint32 \<Rightarrow> uint32 \<Rightarrow> memory \<Rightarrow> memory option" where
  "link_bufs 0 bufsiz buf m = st buf 0 m"
| "link_bufs (Suc n) bufsiz buf m = do {
     m \<leftarrow> st buf (buf + bufsiz) m;
     link_bufs n bufsiz (buf + bufsiz) m }"

definition mkbufpool :: "int \<Rightarrow> int \<Rightarrow> 'z kstate_scheme \<Rightarrow> (int \<times> 'z kstate_scheme) option" where
  "mkbufpool bufsiz numbufs s =
     (if bufsiz < BP_MINB \<or> bufsiz > BP_MAXB \<or> numbufs < 1 \<or> numbufs > BP_MAXN \<or> nbpools s \<ge> NBPOOLS
      then Some (SYSERR, s)
      else do {
        let bufsiz = (bufsiz + 3) AND NOT 3;
        (buf, s) \<leftarrow> getmem_k (word_of_int (numbufs * (bufsiz + 4))) s;
        if buf = SYSERR_ptr then Some (SYSERR, s)
        else do {
          let poolid = nbpools s;
          let s = s\<lparr>nbpools := nbpools s + 1,
                   buftab := (buftab s)(poolid := (buftab s poolid)\<lparr>bpnext := buf, bpsize := word_of_int bufsiz\<rparr>)\<rparr>;
          (sem, s) \<leftarrow> semcreate numbufs s;
          let s = s\<lparr>buftab := (buftab s)(poolid := (buftab s poolid)\<lparr>bpsem := sem\<rparr>)\<rparr>;
          if sem = SYSERR then Some (SYSERR, s\<lparr>nbpools := nbpools s - 1\<rparr>)
          else do {
            m \<leftarrow> link_bufs (nat (numbufs - 1)) (word_of_int (bufsiz + 4)) buf (mem s);
            Some (poolid, s\<lparr>mem := m\<rparr>) } } })"

definition getbuf :: "int \<Rightarrow> 'z ustate_scheme \<Rightarrow> (uint32 outcome \<times> 'z ustate_scheme) option" where
  "getbuf poolid s =
     (if poolid < 0 \<or> poolid \<ge> nbpools s then Some (Done SYSERR_ptr, s)
      else do {
        let s = s\<lparr>ukont := (ukont s)(currpid s := Some (U_getbuf poolid))\<rparr>;
        (_, s) \<leftarrow> wait (bpsem (buftab s poolid)) s;
        Some (Pending, s) })"

definition getbuf_rest :: "int \<Rightarrow> 'z kstate_scheme \<Rightarrow> (uint32 \<times> 'z kstate_scheme) option" where
  "getbuf_rest poolid s = do {
     let bufptr = bpnext (buftab s poolid);
     next \<leftarrow> ld bufptr (mem s);
     let s = s\<lparr>buftab := (buftab s)(poolid := (buftab s poolid)\<lparr>bpnext := next\<rparr>)\<rparr>;
     m \<leftarrow> st bufptr (word_of_int poolid) (mem s);
     Some (bufptr + 4, s\<lparr>mem := m\<rparr>) }"

definition freebuf :: "uint32 \<Rightarrow> 'z kstate_scheme \<Rightarrow> (int \<times> 'z kstate_scheme) option" where
  "freebuf bufaddr s = do {
     let bufaddr = bufaddr - 4;
     w \<leftarrow> ld bufaddr (mem s);
     let poolid = sint w;
     if poolid < 0 \<or> poolid \<ge> nbpools s then Some (SYSERR, s)
     else do {
       m \<leftarrow> st bufaddr (bpnext (buftab s poolid)) (mem s);
       let s = s\<lparr>mem := m, buftab := (buftab s)(poolid := (buftab s poolid)\<lparr>bpnext := bufaddr\<rparr>)\<rparr>;
       (_, s) \<leftarrow> signal (bpsem (buftab s poolid)) s;
       Some (OK, s) } }"

section \<open>The list of free buffers\<close>

fun bufs :: "memory \<Rightarrow> uint32 \<Rightarrow> uint32 list \<Rightarrow> bool" where
  "bufs m a [] = (a = 0)"
| "bufs m a (x # xs) = (a = x \<and> bufs m (m x) xs)"

text \<open>The free buffers of a pool: linked, distinct, and in memory the allocator has handed out.\<close>

definition pool_rep :: "'z kstate_scheme \<Rightarrow> int \<Rightarrow> uint32 list \<Rightarrow> bool" where
  "pool_rep s p xs \<longleftrightarrow> bufs (mem s) (bpnext (buftab s p)) xs \<and> distinct xs \<and> (\<forall>x \<in> set xs. busy s x)"

lemma bufs_cong: "bufs m a xs \<Longrightarrow> (\<And>x. x \<in> set xs \<Longrightarrow> m' x = m x) \<Longrightarrow> bufs m' a xs"
  by (induction xs arbitrary: a) auto

section \<open>Taking and returning a buffer\<close>

theorem getbuf_rest_pops:
  assumes inv: "kinv s" and rep: "pool_rep s p (x # xs)"
  shows "\<exists>s'. getbuf_rest p s = Some (x + 4, s') \<and> kinv s' \<and> pool_rep s' p xs \<and> mem s' x = word_of_int p \<and>
    busy s' = busy s \<and> (\<forall>a. a \<noteq> x \<longrightarrow> mem s' a = mem s a) \<and> (\<forall>q. q \<noteq> p \<longrightarrow> buftab s' q = buftab s q) \<and>
    bpsem (buftab s' p) = bpsem (buftab s p) \<and> nbpools s' = nbpools s"
proof -
  have x: "busy s x" "bpnext (buftab s p) = x" "bufs (mem s) (mem s x) xs" "distinct (x # xs)" "\<forall>y \<in> set xs. busy s y"
    using rep by (auto simp: pool_rep_def)
  let ?s1 = "s\<lparr>mem := (mem s)(x := word_of_int p)\<rparr>"
  let ?s = "?s1\<lparr>buftab := (buftab s)(p := (buftab s p)\<lparr>bpnext := mem s x\<rparr>)\<rparr>"
  have run: "getbuf_rest p s = Some (x + 4, ?s)" using x(1,2) by (simp add: getbuf_rest_def busy_access)
  have busy: "busy ?s = busy s" using kheap_write(2)[OF kinvD(6)[OF inv] x(1)] by simp
  have "kinv ?s" using kinv_write[OF inv x(1)] by simp
  moreover have "bufs (mem ?s) (mem s x) xs" by (rule bufs_cong[OF x(3)]) (use x(4) in auto)
  then have "pool_rep ?s p xs" unfolding pool_rep_def busy using x(4,5) by simp
  ultimately show ?thesis using run busy by (intro exI[of _ ?s]) simp
qed

theorem freebuf_pushes:
  assumes inv: "kinv s" and rep: "pool_rep s p xs" and p: "0 \<le> p" "p < nbpools s" "nbpools s \<le> NBPOOLS"
    and x: "busy s x" "x \<notin> set xs" "mem s x = word_of_int p"
    and sem: "sem_ok (bpsem (buftab s p))" "sstate (semtab s (bpsem (buftab s p))) = S_USED"
      "scount (semtab s (bpsem (buftab s p))) < 2 ^ 31 - 1"
  shows "\<exists>s'. freebuf (x + 4) s = Some (OK, s') \<and> kinv s' \<and> pool_rep s' p (x # xs) \<and>
    scount (semtab s' (bpsem (buftab s p))) = scount (semtab s (bpsem (buftab s p))) + 1"
proof -
  let ?k = "bpsem (buftab s p)"
  let ?s0 = "s\<lparr>mem := (mem s)(x := bpnext (buftab s p))\<rparr>"
  let ?s1 = "?s0\<lparr>buftab := (buftab s)(p := (buftab s p)\<lparr>bpnext := x\<rparr>)\<rparr>"
  have sp: "sint (word_of_int p :: uint32) = p"
    using p by (simp add: signed_of_int signed_take_bit_int_eq_self)
  have inv1: "kinv ?s1" using kinv_write[OF inv x(1)] by simp
  have busy1: "busy ?s1 = busy s" using kheap_write(2)[OF kinvD(6)[OF inv] x(1)] by simp
  have "bufs (mem ?s1) (bpnext (buftab s p)) xs"
    by (rule bufs_cong[of "mem s"]) (use rep x(2) in \<open>auto simp: pool_rep_def\<close>)
  then have rep1: "pool_rep ?s1 p (x # xs)"
    unfolding pool_rep_def busy1 using rep x(1,2) by (simp add: pool_rep_def)
  have "sstate (semtab ?s1 ?k) = S_USED" "scount (semtab ?s1 ?k) < 2 ^ 31 - 1" using sem by simp_all
  then obtain s' where s': "signal ?k ?s1 = Some (OK, s')" "kinv s'" "scount (semtab s' ?k) = scount (semtab s ?k) + 1"
    using signal_inv[OF inv1 sem(1)] by auto
  have u: "untouched UNIV ?s1 s'" by (rule signal_untouched[OF s'(1)]) simp
  have "freebuf (x + 4) s = Some (OK, s')"
    using x(1,3) p sp s'(1) by (simp add: freebuf_def busy_access Let_def)
  moreover have "pool_rep s' p (x # xs)"
    using rep1 unfolding pool_rep_def busy_untouched[OF u] untouchedD(1,13)[OF u] .
  ultimately show ?thesis using s'(2,3) by blast
qed

text \<open>A pointer that does not follow a valid pool number is refused.\<close>

lemma freebuf_bad:
  assumes "ld (b - 4) (mem s) = Some w" "sint w < 0 \<or> sint w \<ge> nbpools s"
  shows "freebuf b s = Some (SYSERR, s)"
  using assms by (simp add: freebuf_def Let_def)

section \<open>Making a pool\<close>

lemma int_and_not_3: "(x :: int) AND NOT 3 = x - x mod 4"
proof -
  have m: "x AND 3 = x mod 4" using take_bit_eq_mask[of 2 x] by (simp add: mask_numeral take_bit_eq_mod)
  have "x - (x AND 3) = x AND NOT (x AND 3)" by (rule disjunctive_diff) (simp add: bit_simps)
  moreover have "x AND NOT (x AND 3) = x AND NOT 3" by (rule bit_eqI) (auto simp: bit_simps)
  ultimately show ?thesis using m by simp
qed

fun buf_addrs :: "nat \<Rightarrow> uint32 \<Rightarrow> uint32 \<Rightarrow> uint32 list" where
  "buf_addrs 0 sz buf = [buf]"
| "buf_addrs (Suc n) sz buf = buf # buf_addrs n sz (buf + sz)"

lemma buf_addrs_length: "length (buf_addrs n sz buf) = Suc n"
  by (induction n arbitrary: buf) simp_all

lemma buf_addrs_in:
  assumes "a \<in> set (buf_addrs n sz buf)" "unat buf + Suc n * unat sz < 2 ^ 32" "4 dvd unat buf" "4 dvd unat sz"
  shows "unat buf \<le> unat a \<and> unat a + unat sz \<le> unat buf + Suc n * unat sz \<and> 4 dvd unat a"
  using assms
proof (induction n arbitrary: buf)
  case (Suc n)
  have u: "unat (buf + sz) = unat buf + unat sz" using Suc.prems(2) by (intro unat_add) simp
  show ?case
  proof (cases "a = buf")
    case False
    then have "unat (buf + sz) \<le> unat a \<and> unat a + unat sz \<le> unat (buf + sz) + Suc n * unat sz \<and> 4 dvd unat a"
      using Suc.IH[of "buf + sz"] Suc.prems u by simp
    then show ?thesis using u by simp
  qed (use Suc.prems in simp)
qed simp

lemma buf_addrs_dvd:
  assumes "a \<in> set (buf_addrs n sz buf)" "unat buf + Suc n * unat sz < 2 ^ 32" "d dvd unat buf" "d dvd unat sz"
  shows "d dvd unat a"
  using assms
proof (induction n arbitrary: buf)
  case (Suc n)
  have u: "unat (buf + sz) = unat buf + unat sz" using Suc.prems(2) by (intro unat_add) simp
  then show ?case using Suc.IH[of "buf + sz"] Suc.prems by (cases "a = buf") simp_all
qed simp

lemma buf_addrs_distinct:
  assumes "unat buf + Suc n * unat sz < 2 ^ 32" "4 dvd unat buf" "4 dvd unat sz" "0 < unat sz"
  shows "distinct (buf_addrs n sz buf)"
  using assms
proof (induction n arbitrary: buf)
  case (Suc n)
  have u: "unat (buf + sz) = unat buf + unat sz" using Suc.prems(1) by (intro unat_add) simp
  have "buf \<notin> set (buf_addrs n sz (buf + sz))"
    using buf_addrs_in[of buf n sz "buf + sz"] Suc.prems u by auto
  then show ?case using Suc.IH[of "buf + sz"] Suc.prems u by simp
qed simp

lemma link_bufs_run:
  assumes "unat buf + Suc n * unat sz < 2 ^ 32" "4 dvd unat buf" "4 dvd unat sz" "0 < unat sz" "buf \<noteq> 0"
  shows "\<exists>m'. link_bufs n sz buf m = Some m' \<and> bufs m' buf (buf_addrs n sz buf) \<and>
    (\<forall>a. a \<notin> set (buf_addrs n sz buf) \<longrightarrow> m' a = m a)"
  using assms
proof (induction n arbitrary: buf m)
  case 0
  then show ?case by (auto simp: range_simps)
next
  case (Suc n)
  have u: "unat (buf + sz) = unat buf + unat sz" using Suc.prems(1) by (intro unat_add) simp
  have nz: "buf + sz \<noteq> 0" using u Suc.prems(4) by (intro word_neq_unat) simp
  have fit: "unat (buf + sz) + Suc n * unat sz < 2 ^ 32" using Suc.prems(1) u by simp
  have al: "4 dvd unat (buf + sz)" using Suc.prems(2,3) u by simp
  obtain m' where m': "link_bufs n sz (buf + sz) (m(buf := buf + sz)) = Some m'" "bufs m' (buf + sz) (buf_addrs n sz (buf + sz))"
    "\<forall>a. a \<notin> set (buf_addrs n sz (buf + sz)) \<longrightarrow> m' a = (m(buf := buf + sz)) a"
    using Suc.IH[OF fit al Suc.prems(3,4) nz, of "m(buf := buf + sz)"] by blast
  have "distinct (buf_addrs (Suc n) sz buf)" by (rule buf_addrs_distinct) (use Suc.prems in simp_all)
  then have "m' buf = buf + sz" using m'(3) by simp
  then show ?case using m' Suc.prems by (auto simp: range_simps)
qed

text \<open>Memory the allocator has just handed out is in use.\<close>

lemma alloc_busy:
  assumes rep: "heap_of s xs" and al: "ff_alloc n xs = Some (r, ys)" "8 dvd unat n" "n \<noteq> 0"
    and rep': "heap_of s' ys" "memlist s' = memlist s" "minheap s' = minheap s" "maxheap s' = maxheap s"
    and a: "unat r \<le> unat a" "unat a < unat r + unat n" "4 dvd unat a"
  shows "busy s' a"
proof -
  note H = heap_repD[OF rep] and A = ff_alloc_ok[OF al(1) heap_repD(5,4)[OF rep] al(2,3)]
  have lo: "unat (memlist s) + 8 \<le> unat a" using H(3) A a(1) by auto
  then have "a \<noteq> 0" "a \<noteq> memlist s" by auto
  have top: "unat a < 2 ^ 32" using unsigned_less[of a] by simp
  have "unat (memlist s + 4) = unat (memlist s) + 4"
    by (rule unat_add4) (use lo top in simp)
  then have "a \<noteq> memlist s + 4" using lo by auto
  moreover have "unat a \<notin> free_bytes zs" if "heap_of s' zs" for zs
    using heap_rep_unique[OF that rep'(1)] A a by auto
  ultimately show ?thesis using a(3) rep'(2) \<open>a \<noteq> 0\<close> \<open>a \<noteq> memlist s\<close> by (simp add: busy_def)
qed

lemma alloc_fresh:
  assumes inv: "kinv s" and heap: "heap_of s xs" "ff_alloc (roundmb n) xs = Some (a, ys)" and n: "n \<noteq> 0" "unat n + 7 < 2 ^ 32"
  shows "\<exists>m. getmem_k n s = Some (a, s\<lparr>mem := m\<rparr>) \<and> heap_of (s\<lparr>mem := m\<rparr>) ys"
    "a \<noteq> SYSERR_ptr" "a \<noteq> 0" "8 dvd unat a" "unat a + unat n < 2 ^ 32"
    "unat a \<le> unat x \<Longrightarrow> unat x < unat a + unat n \<Longrightarrow> unat x \<notin> free_bytes ys \<and> x \<noteq> memlist s"
    "unat a \<le> unat x \<Longrightarrow> unat x < unat a + unat n \<Longrightarrow> 4 dvd unat x \<Longrightarrow> heap_of s' ys \<Longrightarrow>
      memlist s' = memlist s \<Longrightarrow> minheap s' = minheap s \<Longrightarrow> maxheap s' = maxheap s \<Longrightarrow> busy s' x"
proof -
  have lo: "unat (minheap s) < 2 ^ 32" using unsigned_less[of "minheap s"] by simp
  have rn: "unat n \<le> unat (roundmb n)" "roundmb n \<noteq> 0" using roundmb_pos[OF n] unat_roundmb[OF n(2)] by (linarith, auto)
  note A = ff_alloc_ok[OF heap(2) heap_repD(5,4)[OF heap(1)] roundmb_dvd rn(2)]
  show "\<exists>m. getmem_k n s = Some (a, s\<lparr>mem := m\<rparr>) \<and> heap_of (s\<lparr>mem := m\<rparr>) ys"
    using getmem_rep[OF heap(1) lo n] heap(2) by (auto simp: alloc_post_def getmem_k_def on_mem_def)
  show a8: "8 dvd unat a" using A by simp
  have "\<not> 4 dvd unat (- 1 :: uint32)" by (simp add: unsigned_minus_1_eq_mask mask_eq_exp_minus_1)
  then show "a \<noteq> SYSERR_ptr" using dvd8_4[OF a8] by auto
  show "a \<noteq> 0" using A heap_repD(3)[OF heap(1)] by auto
  show "unat a + unat n < 2 ^ 32" using A rn(1) heap_repD(4)[OF heap(1)] by auto
  show "unat x \<notin> free_bytes ys \<and> x \<noteq> memlist s" if "unat a \<le> unat x" "unat x < unat a + unat n"
    using that A rn(1) heap_repD(3)[OF heap(1)] by auto
  show "busy s' x" if "unat a \<le> unat x" "unat x < unat a + unat n" "4 dvd unat x" "heap_of s' ys"
    "memlist s' = memlist s" "minheap s' = minheap s" "maxheap s' = maxheap s"
    by (rule alloc_busy[OF heap roundmb_dvd rn(2) that(4-7,1) _ that(3)]) (use that(2) rn(1) in simp)
qed

lemma unat_word_of_int: "0 \<le> k \<Longrightarrow> k < 2 ^ 32 \<Longrightarrow> unat (word_of_int k :: uint32) = nat k"
  by (simp add: unsigned_of_int take_bit_int_eq_self)

lemma pool_size:
  assumes "BP_MINB \<le> b" "b \<le> BP_MAXB" "1 \<le> n" "n \<le> BP_MAXN"
  defines "c \<equiv> (b + 3) AND NOT 3"
  shows "b \<le> c" "c \<le> b + 3" "c mod 4 = 0" "unat (word_of_int (c + 4) :: uint32) = nat (c + 4)"
    "unat (word_of_int (n * (c + 4)) :: uint32) = nat n * nat (c + 4)" "n * (c + 4) \<le> 16800000"
proof -
  have c: "c = b + 3 - (b + 3) mod 4" unfolding c_def by (rule int_and_not_3)
  show bc: "b \<le> c" "c \<le> b + 3" using c by presburger+
  show "c mod 4 = 0" unfolding c by (simp add: mod_simps)
  have "n * (c + 4) \<le> BP_MAXN * (BP_MAXB + 7)" by (rule mult_mono) (use assms(1-4) bc in auto)
  then show le: "n * (c + 4) \<le> 16800000" by simp
  show "unat (word_of_int (c + 4) :: uint32) = nat (c + 4)"
    by (rule unat_word_of_int) (use assms(1,2) bc in simp_all)
  have "0 \<le> n * (c + 4)" using assms(1,3) bc by simp
  then have "unat (word_of_int (n * (c + 4)) :: uint32) = nat (n * (c + 4))"
    by (rule unat_word_of_int) (use le in simp)
  then show "unat (word_of_int (n * (c + 4)) :: uint32) = nat n * nat (c + 4)"
    using assms(3) by (simp add: nat_mult_distrib)
qed

text \<open>The pool consists of \<open>numbufs\<close> distinct buffers of at least \<open>bufsiz\<close> bytes behind their header word, in
  memory just taken from the heap, and its semaphore counts them.\<close>

theorem mkbufpool_makes_frame:
  assumes inv: "kinv s" and args: "BP_MINB \<le> b" "b \<le> BP_MAXB" "1 \<le> n" "n \<le> BP_MAXN"
    and np: "0 \<le> nbpools s" "nbpools s < NBPOOLS"
    and heap: "heap_of s xs" "ff_alloc (roundmb (word_of_int (n * ((b + 3 AND NOT 3) + 4)))) xs = Some (buf, ys)"
    and sem: "\<exists>k. sem_ok k \<and> sstate (semtab s k) = S_FREE"
  shows "\<exists>s' sz. mkbufpool b n s = Some (nbpools s, s') \<and> kinv s' \<and> nbpools s' = nbpools s + 1 \<and>
    pool_rep s' (nbpools s) (buf_addrs (nat (n - 1)) sz buf) \<and> nat (b + 4) \<le> unat sz \<and>
    sem_live s' (bpsem (buftab s' (nbpools s))) \<and> scount (semtab s' (bpsem (buftab s' (nbpools s)))) = n \<and>
    kstate.more s' = kstate.more s \<and> currpid s' = currpid s \<and> pkont s' = pkont s \<and> proctab s' = proctab s \<and>
    (\<forall>j. j \<noteq> bpsem (buftab s' (nbpools s)) \<longrightarrow> semtab s' j = semtab s j)"
proof -
  obtain c where c: "c = (b + 3) AND NOT 3" by blast
  note Z = pool_size[OF args, folded c]
  let ?sz = "word_of_int (c + 4) :: uint32" and ?n = "word_of_int (n * (c + 4)) :: uint32" and ?p = "nbpools s"
  have cpos: "0 < c + 4" using Z(1) args(1) by simp
  have usz: "unat ?sz = nat (c + 4)" "unat ?n = nat n * unat ?sz" using Z(4,5) by simp_all
  have big: "unat ?n \<le> 16800000" using Z(5,6) args(3) cpos by (simp add: nat_mult_distrib[symmetric])
  have "0 < unat ?n" using usz args(3) cpos by simp
  then have n0: "?n \<noteq> 0" by auto
  have n7: "unat ?n + 7 < 2 ^ 32" using big by simp
  have al: "ff_alloc (roundmb ?n) xs = Some (buf, ys)" using heap(2) c by simp
  note A = alloc_fresh[OF inv heap(1) al n0 n7]
  obtain m1 where m1: "getmem_k ?n s = Some (buf, s\<lparr>mem := m1\<rparr>)" "heap_of (s\<lparr>mem := m1\<rparr>) ys" using A(1) by blast
  have b4: "4 dvd unat buf" by (rule dvd8_4[OF A(4)])
  let ?s2 = "s\<lparr>mem := m1\<rparr>\<lparr>nbpools := ?p + 1, buftab := (buftab s)(?p := (buftab s ?p)\<lparr>bpnext := buf, bpsize := word_of_int c\<rparr>)\<rparr>"
  have "kheap (s\<lparr>mem := m1\<rparr>)" using m1(2) by (auto simp: kheap_def)
  then have inv2: "kinv ?s2" using kinv_mem[OF inv] by simp
  have "n < 2 ^ 31" "0 \<le> n" using args by simp_all
  then obtain k s3 where s3: "semcreate n ?s2 = Some (k, s3)" "kinv s3" "sem_live s3 k" "scount (semtab s3 k) = n"
    "\<forall>j. j \<noteq> k \<longrightarrow> semtab s3 j = semtab s j"
    using semcreate_inv[OF inv2, of n] sem by auto
  obtain nx sm where f3: "s3 = ?s2\<lparr>nextsem := nx, semtab := sm\<rparr>" using semcreate_frame[OF s3(1)] by blast
  let ?s4 = "s3\<lparr>buftab := (buftab s3)(?p := (buftab s3 ?p)\<lparr>bpsem := k\<rparr>)\<rparr>"
  let ?as = "buf_addrs (nat (n - 1)) ?sz buf"
  have sn: "Suc (nat (n - 1)) * unat ?sz = unat ?n" using args(3) usz(2) by (simp add: Suc_nat_eq_nat_zadd1)
  have fit: "unat buf + Suc (nat (n - 1)) * unat ?sz < 2 ^ 32" unfolding sn by (rule A(5))
  have "4 dvd c + 4" using Z(3) by presburger
  then have d4: "4 dvd unat ?sz" unfolding usz(1) using cpos nat_dvd_iff[of 4 "nat (c + 4)"] by simp
  have szp: "0 < unat ?sz" using usz cpos by simp
  obtain m5 where m5: "link_bufs (nat (n - 1)) ?sz buf m1 = Some m5" "bufs m5 buf ?as" "\<forall>a. a \<notin> set ?as \<longrightarrow> m5 a = m1 a"
    using link_bufs_run[OF fit b4 d4 szp A(3), of m1] by blast
  have bs: "unat buf \<le> unat a" "unat a < unat buf + unat ?n" "4 dvd unat a" if "a \<in> set ?as" for a
    using buf_addrs_in[OF that fit b4 d4] szp unfolding sn by auto
  have "heap_rep (memlist s) (unat (minheap s)) (unat (maxheap s)) m5 ys"
    by (rule heap_rep_frame[of _ _ _ m1]) (use m1(2) m5(3) A(6) bs in auto)
  then have rep5: "heap_of (?s4\<lparr>mem := m5\<rparr>) ys" by (simp add: f3)
  let ?s5 = "?s4\<lparr>mem := m5\<rparr>"
  have "kheap ?s5" using rep5 by (auto simp: kheap_def)
  then have inv5: "kinv ?s5" using kinv_mem[of ?s4 m5] s3(2) by simp
  have busy5: "busy ?s5 a" if "a \<in> set ?as" for a
    by (rule A(7)[OF bs[OF that] rep5]) (simp_all add: f3)
  have run: "mkbufpool b n s = Some (?p, ?s5)"
    using args np m1(1) A(2) s3(1,3) m5(1) unfolding mkbufpool_def c[symmetric]
    by (simp add: Let_def f3)
  have "pool_rep ?s5 ?p ?as"
    using m5(2) buf_addrs_distinct[OF fit b4 d4 szp] busy5 by (simp add: pool_rep_def f3)
  moreover have "nat (b + 4) \<le> unat ?sz" using usz(1) Z(1) by simp
  moreover have "\<forall>j. j \<noteq> k \<longrightarrow> semtab ?s5 j = semtab s j" using s3(5) by simp
  ultimately show ?thesis using run inv5 s3(3,4) by (intro exI[of _ ?s5] exI[of _ ?sz]) (simp add: f3)
qed

theorem mkbufpool_makes:
  assumes inv: "kinv s" and args: "BP_MINB \<le> b" "b \<le> BP_MAXB" "1 \<le> n" "n \<le> BP_MAXN"
    and np: "0 \<le> nbpools s" "nbpools s < NBPOOLS"
    and heap: "heap_of s xs" "ff_alloc (roundmb (word_of_int (n * ((b + 3 AND NOT 3) + 4)))) xs = Some (buf, ys)"
    and sem: "\<exists>k. sem_ok k \<and> sstate (semtab s k) = S_FREE"
  shows "\<exists>s' sz. mkbufpool b n s = Some (nbpools s, s') \<and> kinv s' \<and> nbpools s' = nbpools s + 1 \<and>
    pool_rep s' (nbpools s) (buf_addrs (nat (n - 1)) sz buf) \<and> nat (b + 4) \<le> unat sz \<and>
    sem_live s' (bpsem (buftab s' (nbpools s))) \<and> scount (semtab s' (bpsem (buftab s' (nbpools s)))) = n"
  using mkbufpool_makes_frame[OF assms] by blast

section \<open>A buffer taken and given back\<close>

lemma pool_rep_sems [simp]:
  "pool_rep (s\<lparr>semtab := a\<rparr>) p xs = pool_rep s p xs" "pool_rep (s\<lparr>ukont := b\<rparr>) p xs = pool_rep s p xs"
  unfolding pool_rep_def by (simp_all add: busy_cong[of "s\<lparr>semtab := a\<rparr>" s])

lemma getbuf_rest_sems: "getbuf_rest p s = Some (v, s') \<Longrightarrow> semtab s' = semtab s"
  by (auto simp: getbuf_rest_def Let_def bind_eq_Some_conv)

lemma getbuf_freebuf:
  assumes inv: "kinv s" and rep: "pool_rep s p (x # xs)" and p: "0 \<le> p" "p < nbpools s" "nbpools s \<le> NBPOOLS"
    and sem: "sem_live s (bpsem (buftab s p))" "0 < scount (semtab s (bpsem (buftab s p)))"
  shows "\<exists>s0 s1 s2. getbuf p s = Some (Pending, s0) \<and> currpid s0 = currpid s \<and> ukont s0 (currpid s) = Some (U_getbuf p) \<and>
    getbuf_rest p s0 = Some (x + 4, s1) \<and> kinv s1 \<and> pool_rep s1 p xs \<and>
    freebuf (x + 4) s1 = Some (OK, s2) \<and> kinv s2 \<and> pool_rep s2 p (x # xs) \<and>
    scount (semtab s2 (bpsem (buftab s p))) = scount (semtab s (bpsem (buftab s p)))"
proof -
  let ?k = "bpsem (buftab s p)" and ?s = "s\<lparr>ukont := (ukont s)(currpid s := Some (U_getbuf p))\<rparr>"
  have inv': "kinv ?s" using inv by simp
  obtain s0 where s0: "wait ?k ?s = Some (OK, s0)" "kinv s0"
    "s0 = ?s\<lparr>semtab := (semtab s)(?k := (semtab s ?k)\<lparr>scount := scount (semtab s ?k) - 1\<rparr>)\<rparr>"
    using wait_free[OF inv', of ?k] sem by auto
  have get: "getbuf p s = Some (Pending, s0)" using p s0(1) by (simp add: getbuf_def Let_def)
  have f0: "pool_rep s0 p (x # xs)" "buftab s0 = buftab s" "nbpools s0 = nbpools s" "currpid s0 = currpid s"
    "ukont s0 (currpid s) = Some (U_getbuf p)" "scount (semtab s0 ?k) = scount (semtab s ?k) - 1" "sem_live s0 ?k"
    using rep s0(3) sem by simp_all
  obtain s1 where s1: "getbuf_rest p s0 = Some (x + 4, s1)" "kinv s1" "pool_rep s1 p xs" "mem s1 x = word_of_int p"
    "busy s1 = busy s0" "bpsem (buftab s1 p) = ?k" "nbpools s1 = nbpools s"
    using getbuf_rest_pops[OF s0(2) f0(1)] f0(2,3) by auto
  have sm: "semtab s1 = semtab s0" by (rule getbuf_rest_sems[OF s1(1)])
  have "scount (semtab s ?k) < 2 ^ 31"
    using ksemD[OF kinvD(4)[OF inv], of ?k] sem by (simp add: sem_inv_def)
  then have live: "sem_ok (bpsem (buftab s1 p))" "sstate (semtab s1 (bpsem (buftab s1 p))) = S_USED"
    "scount (semtab s1 (bpsem (buftab s1 p))) < 2 ^ 31 - 1"
    unfolding sm s1(6) using f0(6,7) by simp_all
  have x: "busy s1 x" "x \<notin> set xs" using f0(1) s1(5) by (simp_all add: pool_rep_def)
  have p1: "p < nbpools s1" "nbpools s1 \<le> NBPOOLS" using p s1(7) by simp_all
  obtain s2 where "freebuf (x + 4) s1 = Some (OK, s2)" "kinv s2" "pool_rep s2 p (x # xs)"
    "scount (semtab s2 ?k) = scount (semtab s1 ?k) + 1"
    using freebuf_pushes[OF s1(2,3) p(1) p1 x s1(4) live] unfolding s1(6) by blast
  then show ?thesis using get f0(4-6) s1(1-3) sm by auto
qed

end
