(* ===== verification/Ports.thy ===== *)
theory Ports
  imports Bufpool
begin

text \<open>
  Message ports (\<^verbatim>\<open>include/ports.h\<close>, \<^verbatim>\<open>system/pt*.c\<close>). The messages of all ports are nodes of one
  block of heap memory: a node at \<open>a\<close> keeps its message at \<open>a\<close> and the next node at \<open>a + 4\<close>. A port is
  a list of nodes with head and tail pointers, the unused nodes form a free list. Senders wait for
  space and receivers for messages on the port's two semaphores; the part of \<open>ptsend\<close> and \<open>ptrecv\<close> after
  the wait is \<open>ptsend_rest\<close> and \<open>ptrecv_rest\<close>. \<open>semreset\<close> and \<open>semdelete\<close> may switch to a released
  process, so \<open>_ptclear\<close> is in three parts as well.
\<close>

section \<open>Operations\<close>

abbreviation (input) NPORTS :: int where "NPORTS \<equiv> 30"

definition isbadport :: "int \<Rightarrow> bool" where
  "isbadport portid \<longleftrightarrow> portid < 0 \<or> portid \<ge> NPORTS"

text \<open>\<open>panic\<close> stops all processing.\<close>

definition panic :: "'z kstate_scheme \<Rightarrow> 'z kstate_scheme" where
  "panic s = s\<lparr>halted := True\<rparr>"

fun link_nodes :: "nat \<Rightarrow> uint32 \<Rightarrow> memory \<Rightarrow> memory option" where
  "link_nodes 0 cur m = st (cur + 4) 0 m"
| "link_nodes (Suc n) cur m = do {
     m \<leftarrow> st (cur + 4) (cur + 8) m;
     link_nodes n (cur + 8) m }"

definition ptinit :: "int \<Rightarrow> 'z ustate_scheme \<Rightarrow> (int outcome \<times> 'z ustate_scheme) option" where
  "ptinit maxmsgs s = do {
     (p, s) \<leftarrow> getmem_k (word_of_int (maxmsgs * 8)) s;
     let s = s\<lparr>ptfree := p\<rparr>;
     if p = SYSERR_ptr then Some (Pending, panic s)
     else do {
       let s = s\<lparr>porttab := (\<lambda>i. if 0 \<le> i \<and> i < NPORTS then (porttab s i)\<lparr>ptstate := PT_FREE, ptseq := 0\<rparr> else porttab s i),
                ptnextid := 0\<rparr>;
       m \<leftarrow> link_nodes (nat (maxmsgs - 1)) p (mem s);
       Some (Done OK, s\<lparr>mem := m\<rparr>) } }"

definition pt_upd :: "int \<Rightarrow> (ptentry \<Rightarrow> ptentry) \<Rightarrow> 'z ustate_scheme \<Rightarrow> 'z ustate_scheme" where
  "pt_upd i f s = s\<lparr>porttab := (porttab s)(i := f (porttab s i))\<rparr>"

text \<open>\<open>ptcreate\<close>: the loop tries \<open>i\<close> more entries from the static \<open>ptnextid\<close> on. \<open>ptmaxcnt\<close> is a \<open>uint16\<close>.\<close>

definition ptcreate_entry :: "int \<Rightarrow> int \<Rightarrow> 'z ustate_scheme \<Rightarrow> (int \<times> 'z ustate_scheme) option" where
  "ptcreate_entry ptnum count s = do {
     let s = pt_upd ptnum (\<lambda>e. e\<lparr>ptstate := PT_ALLOC\<rparr>) s;
     (ssem, s) \<leftarrow> semcreate count s;
     (rsem, s) \<leftarrow> semcreate 0 s;
     Some (ptnum, pt_upd ptnum (\<lambda>e. e\<lparr>ptssem := ssem, ptrsem := rsem, pthead := 0, pttail := 0,
        ptseq := s32 (ptseq e + 1), ptmaxcnt := count mod 2 ^ 16\<rparr>) s) }"

fun ptcreate_loop :: "nat \<Rightarrow> int \<Rightarrow> 'z ustate_scheme \<Rightarrow> (int \<times> 'z ustate_scheme) option" where
  "ptcreate_loop 0 count s = Some (SYSERR, s)"
| "ptcreate_loop (Suc i) count s =
     (let ptnum = ptnextid s;
          s = s\<lparr>ptnextid := (if ptnum + 1 \<ge> NPORTS then 0 else ptnum + 1)\<rparr> in
      if isbadport ptnum then None
      else if ptstate (porttab s ptnum) = PT_FREE then ptcreate_entry ptnum count s
      else ptcreate_loop i count s)"

definition ptcreate :: "int \<Rightarrow> 'z ustate_scheme \<Rightarrow> (int \<times> 'z ustate_scheme) option" where
  "ptcreate count s = (if count < 0 then Some (SYSERR, s) else ptcreate_loop (nat NPORTS) count s)"

definition ptsend :: "int \<Rightarrow> uint32 \<Rightarrow> 'z ustate_scheme \<Rightarrow> (int outcome \<times> 'z ustate_scheme) option" where
  "ptsend portid msg s =
     (if isbadport portid \<or> ptstate (porttab s portid) \<noteq> PT_ALLOC then Some (Done SYSERR, s)
      else do {
        let seq = ptseq (porttab s portid);
        (r, s') \<leftarrow> wait (ptssem (porttab s portid)) (s\<lparr>ukont := (ukont s)(currpid s := Some (U_ptsend portid seq msg))\<rparr>);
        if r = SYSERR then Some (Done SYSERR, s) else Some (Pending, s') })"

definition ptsend_rest :: "int \<Rightarrow> int \<Rightarrow> uint32 \<Rightarrow> 'z ustate_scheme \<Rightarrow> (int outcome \<times> 'z ustate_scheme) option" where
  "ptsend_rest portid seq msg s =
     (if ptstate (porttab s portid) \<noteq> PT_ALLOC \<or> ptseq (porttab s portid) \<noteq> seq then Some (Done SYSERR, s)
      else if ptfree s = 0 then Some (Pending, panic s)
      else do {
        let msgnode = ptfree s;
        nx \<leftarrow> ld (msgnode + 4) (mem s);
        let s = s\<lparr>ptfree := nx\<rparr>;
        m \<leftarrow> st (msgnode + 4) 0 (mem s);
        m \<leftarrow> st msgnode msg m;
        let tailnode = pttail (porttab s portid);
        s \<leftarrow> (if tailnode = 0 then Some (pt_upd portid (\<lambda>e. e\<lparr>pttail := msgnode, pthead := msgnode\<rparr>) (s\<lparr>mem := m\<rparr>))
             else do { m \<leftarrow> st (tailnode + 4) msgnode m;
                       Some (pt_upd portid (\<lambda>e. e\<lparr>pttail := msgnode\<rparr>) (s\<lparr>mem := m\<rparr>)) });
        (_, s) \<leftarrow> signal (ptrsem (porttab s portid)) s;
        Some (Done OK, s) })"

definition ptrecv :: "int \<Rightarrow> 'z ustate_scheme \<Rightarrow> (uint32 outcome \<times> 'z ustate_scheme) option" where
  "ptrecv portid s =
     (if isbadport portid \<or> ptstate (porttab s portid) \<noteq> PT_ALLOC then Some (Done (- 1), s)
      else do {
        let seq = ptseq (porttab s portid);
        (r, s') \<leftarrow> wait (ptrsem (porttab s portid)) (s\<lparr>ukont := (ukont s)(currpid s := Some (U_ptrecv portid seq))\<rparr>);
        if r = SYSERR then Some (Done (- 1), s) else Some (Pending, s') })"

definition ptrecv_rest :: "int \<Rightarrow> int \<Rightarrow> 'z ustate_scheme \<Rightarrow> (uint32 \<times> 'z ustate_scheme) option" where
  "ptrecv_rest portid seq s =
     (if ptstate (porttab s portid) \<noteq> PT_ALLOC \<or> ptseq (porttab s portid) \<noteq> seq then Some (- 1, s)
      else do {
        let msgnode = pthead (porttab s portid);
        msg \<leftarrow> ld msgnode (mem s);
        s \<leftarrow> (if pthead (porttab s portid) = pttail (porttab s portid)
             then Some (pt_upd portid (\<lambda>e. e\<lparr>pthead := 0, pttail := 0\<rparr>) s)
             else do { nx \<leftarrow> ld (msgnode + 4) (mem s); Some (pt_upd portid (\<lambda>e. e\<lparr>pthead := nx\<rparr>) s) });
        m \<leftarrow> st (msgnode + 4) (ptfree s) (mem s);
        let s = s\<lparr>mem := m, ptfree := msgnode\<rparr>;
        (_, s) \<leftarrow> signal (ptssem (porttab s portid)) s;
        Some (msg, s) })"

text \<open>\<open>_ptclear\<close>. The disposal function is an argument; it is called on every message in order.\<close>

partial_function (option) dispose_walk ::
  "(uint32 \<Rightarrow> 'z ustate_scheme \<Rightarrow> 'z ustate_scheme option) \<Rightarrow> uint32 \<Rightarrow> 'z ustate_scheme \<Rightarrow> 'z ustate_scheme option" where
  "dispose_walk dispose walk s =
     (if walk = 0 then Some s
      else (case ld walk (mem s) of
          None \<Rightarrow> None
        | Some msg \<Rightarrow> (case dispose msg s of
            None \<Rightarrow> None
          | Some s \<Rightarrow> (case ld (walk + 4) (mem s) of None \<Rightarrow> None | Some nx \<Rightarrow> dispose_walk dispose nx s))))"

definition ptclear_msgs ::
  "int \<Rightarrow> (uint32 \<Rightarrow> 'z ustate_scheme \<Rightarrow> 'z ustate_scheme option) \<Rightarrow> 'z ustate_scheme \<Rightarrow> 'z ustate_scheme option" where
  "ptclear_msgs portid dispose s =
     (if pthead (porttab s portid) \<noteq> 0
      then do {
        s \<leftarrow> dispose_walk dispose (pthead (porttab s portid)) s;
        m \<leftarrow> st (pttail (porttab s portid) + 4) (ptfree s) (mem s);
        Some (s\<lparr>mem := m, ptfree := pthead (porttab s portid)\<rparr>) }
      else Some s)"

definition ptclear ::
  "int \<Rightarrow> ptstate \<Rightarrow> (uint32 \<Rightarrow> 'z ustate_scheme \<Rightarrow> 'z ustate_scheme option) \<Rightarrow> 'z ustate_scheme \<Rightarrow> 'z ustate_scheme option" where
  "ptclear portid newstate dispose s = do {
     let s = pt_upd portid (\<lambda>e. e\<lparr>ptstate := PT_LIMBO, ptseq := s32 (ptseq e + 1)\<rparr>) s;
     s \<leftarrow> ptclear_msgs portid dispose s;
     let s = s\<lparr>ukont := (ukont s)(currpid s := Some (U_ptclear1 portid newstate))\<rparr>;
     if newstate = PT_ALLOC
     then do {
       let s = pt_upd portid (\<lambda>e. e\<lparr>pttail := 0, pthead := 0\<rparr>) s;
       (_, s) \<leftarrow> semreset (ptssem (porttab s portid)) (ptmaxcnt (porttab s portid)) s;
       Some s }
     else do { (_, s) \<leftarrow> semdelete (ptssem (porttab s portid)) s; Some s } }"

definition ptclear_rest1 :: "int \<Rightarrow> ptstate \<Rightarrow> 'z ustate_scheme \<Rightarrow> 'z ustate_scheme option" where
  "ptclear_rest1 portid newstate s = do {
     let s = s\<lparr>ukont := (ukont s)(currpid s := Some (U_ptclear2 portid newstate))\<rparr>;
     if newstate = PT_ALLOC then do { (_, s) \<leftarrow> semreset (ptrsem (porttab s portid)) 0 s; Some s }
     else do { (_, s) \<leftarrow> semdelete (ptrsem (porttab s portid)) s; Some s } }"

definition ptclear_rest2 :: "int \<Rightarrow> ptstate \<Rightarrow> 'z ustate_scheme \<Rightarrow> 'z ustate_scheme" where
  "ptclear_rest2 portid newstate s = pt_upd portid (\<lambda>e. e\<lparr>ptstate := newstate\<rparr>) s"

definition ptdelete ::
  "int \<Rightarrow> (uint32 \<Rightarrow> 'z ustate_scheme \<Rightarrow> 'z ustate_scheme option) \<Rightarrow> 'z ustate_scheme \<Rightarrow> (int outcome \<times> 'z ustate_scheme) option" where
  "ptdelete portid disp s =
     (if isbadport portid \<or> ptstate (porttab s portid) \<noteq> PT_ALLOC then Some (Done SYSERR, s)
      else do { s \<leftarrow> ptclear portid PT_FREE disp s; Some (Pending, s) })"

definition ptdelete_rest :: "int \<Rightarrow> 'z ustate_scheme \<Rightarrow> (int \<times> 'z ustate_scheme) option" where
  "ptdelete_rest portid s = Some (OK, (ptclear_rest2 portid PT_FREE s)\<lparr>ptnextid := portid\<rparr>)"

definition ptreset ::
  "int \<Rightarrow> (uint32 \<Rightarrow> 'z ustate_scheme \<Rightarrow> 'z ustate_scheme option) \<Rightarrow> 'z ustate_scheme \<Rightarrow> (int outcome \<times> 'z ustate_scheme) option" where
  "ptreset portid disp s =
     (if isbadport portid \<or> ptstate (porttab s portid) \<noteq> PT_ALLOC then Some (Done SYSERR, s)
      else do { s \<leftarrow> ptclear portid PT_ALLOC disp s; Some (Pending, s) })"

definition ptreset_rest :: "int \<Rightarrow> 'z ustate_scheme \<Rightarrow> (int \<times> 'z ustate_scheme) option" where
  "ptreset_rest portid s = Some (OK, ptclear_rest2 portid PT_ALLOC s)"

definition ptcount :: "int \<Rightarrow> 'z ustate_scheme \<Rightarrow> int" where
  "ptcount portid s =
     (if isbadport portid \<or> ptstate (porttab s portid) \<noteq> PT_ALLOC then SYSERR
      else
        (let count = semcount (ptrsem (porttab s portid)) s in
         if count \<ge> 0 then
           (let sndcnt = semcount (ptssem (porttab s portid)) s in
            if sndcnt < 0 then s32 (count - sndcnt) else count)
         else count))"

section \<open>Message lists\<close>

text \<open>A chain of nodes, linked through their second word.\<close>

fun nodes :: "memory \<Rightarrow> uint32 \<Rightarrow> uint32 list \<Rightarrow> bool" where
  "nodes m a [] = (a = 0)"
| "nodes m a (x # xs) = (a = x \<and> nodes m (m (x + 4)) xs)"

definition node_ok :: "'z kstate_scheme \<Rightarrow> uint32 \<Rightarrow> bool" where
  "node_ok s x \<longleftrightarrow> busy s x \<and> busy s (x + 4) \<and> 8 dvd unat x"

text \<open>
  \<open>ports_rep s F Q\<close>: the free list holds the nodes \<open>F\<close>, port \<open>p\<close> the nodes \<open>Q p\<close> from its head to its tail
  pointer (only an allocated port has any), and every node is in one place only.
\<close>

abbreviation port_live :: "'z ustate_scheme \<Rightarrow> int \<Rightarrow> bool" where
  "port_live s p \<equiv> \<not> isbadport p \<and> ptstate (porttab s p) = PT_ALLOC"

definition ports_rep :: "'z ustate_scheme \<Rightarrow> uint32 list \<Rightarrow> (int \<Rightarrow> uint32 list) \<Rightarrow> bool" where
  "ports_rep s F Q \<longleftrightarrow>
     nodes (mem s) (ptfree s) F \<and> distinct F \<and> (\<forall>x \<in> set F. node_ok s x) \<and>
     (\<forall>p. (if port_live s p
           then nodes (mem s) (pthead (porttab s p)) (Q p) \<and>
             pttail (porttab s p) = (if Q p = [] then 0 else last (Q p))
           else Q p = []) \<and>
        distinct (Q p) \<and> set (Q p) \<inter> set F = {} \<and> (\<forall>x \<in> set (Q p). node_ok s x) \<and>
        (\<forall>r. r \<noteq> p \<longrightarrow> set (Q p) \<inter> set (Q r) = {}))"

text \<open>The messages waiting in a port, oldest first.\<close>

definition messages :: "'z ustate_scheme \<Rightarrow> uint32 list \<Rightarrow> uint32 list" where
  "messages s xs = map (mem s) xs"

lemma nodes_cong: "nodes m a xs \<Longrightarrow> (\<And>x. x \<in> set xs \<Longrightarrow> m' (x + 4) = m (x + 4)) \<Longrightarrow> nodes m' a xs"
  by (induction xs arbitrary: a) auto

lemma nodes_append:
  "nodes m a (xs @ [y]) \<Longrightarrow> nodes (m(y + 4 := z)) z zs \<Longrightarrow> y \<notin> set xs \<Longrightarrow> y \<notin> set zs \<Longrightarrow>
    nodes (m(y + 4 := z)) a (xs @ y # zs)"
  by (induction xs arbitrary: a) auto

lemma node_offset:
  assumes "8 dvd unat x" "8 dvd unat y"
  shows "x + 4 \<noteq> (y :: uint32)"
proof
  assume e: "x + 4 = y"
  have "unat x < 2 ^ 32" using unsigned_less[of x] by simp
  then have "unat x + 8 \<le> 2 ^ 32" using assms(1) by (auto elim!: dvdE)
  then have "unat y = unat x + 4" using unat_add4[of x] e by simp
  then show False using assms by presburger
qed

lemma ports_repD:
  assumes "ports_rep s F Q"
  shows "nodes (mem s) (ptfree s) F" "distinct F" "x \<in> set F \<Longrightarrow> node_ok s x"
    "port_live s p \<Longrightarrow> nodes (mem s) (pthead (porttab s p)) (Q p)"
    "port_live s p \<Longrightarrow> pttail (porttab s p) = (if Q p = [] then 0 else last (Q p))"
    "\<not> port_live s p \<Longrightarrow> Q p = []"
    "distinct (Q p)" "set (Q p) \<inter> set F = {}" "y \<in> set (Q p) \<Longrightarrow> node_ok s y"
    "r \<noteq> p \<Longrightarrow> set (Q p) \<inter> set (Q r) = {}"
  using assms unfolding ports_rep_def by (presburger | blast)+

text \<open>The semaphore calls leave the lists alone.\<close>

lemma node_ok_cong: "busy s' = busy s \<Longrightarrow> node_ok s' = node_ok s"
  unfolding node_ok_def by simp

lemma node_ok_untouched: "untouched K s s' \<Longrightarrow> node_ok s' = node_ok s"
  by (rule ext) (simp add: node_ok_def busy_untouched)

lemma ports_rep_untouched: "untouched K s s' \<Longrightarrow> ports_rep s' F Q = ports_rep s F Q"
  unfolding ports_rep_def by (simp add: node_ok_untouched untouchedD(1) untouched_upper)

lemma messages_untouched: "untouched K s s' \<Longrightarrow> messages s' xs = messages s xs"
  by (simp add: messages_def untouchedD(1))

section \<open>Appending, removing, clearing\<close>

lemma send_rep:
  assumes rep: "ports_rep s (f # F) Q" and al: "port_live s p"
    and m': "mem s' = (if Q p = [] then (mem s)(f + 4 := 0, f := v) else (mem s)(f + 4 := 0, f := v, last (Q p) + 4 := f))"
    and f': "ptfree s' = mem s (f + 4)" and b': "node_ok s' = node_ok s"
    and p': "porttab s' = (porttab s)(p := e)" "ptstate e = PT_ALLOC" "pttail e = f"
      "pthead e = (if Q p = [] then f else pthead (porttab s p))"
  shows "ports_rep s' F (Q(p := Q p @ [f]))" "messages s' (Q p @ [f]) = messages s (Q p) @ [v]"
    "r \<noteq> p \<Longrightarrow> messages s' (Q r) = messages s (Q r)"
proof -
  note R = ports_repD[OF rep]
  have f8: "8 dvd unat f" using R(3)[of f] by (simp add: node_ok_def)
  have q8: "8 dvd unat y" "y \<noteq> f" "y \<notin> set F" if "y \<in> set (Q r)" for y r
    using R(9)[OF that] R(8)[of r] that by (auto simp: node_ok_def)
  have F8: "8 dvd unat y" "y \<noteq> f" if "y \<in> set F" for y using R(3)[of y] R(2) that by (auto simp: node_ok_def)
  have l8: "last (Q p) \<in> set (Q p)" if "Q p \<noteq> []" using that by simp
  have off: "y + 4 \<noteq> f" "f + 4 \<noteq> y" "last (Q p) + 4 \<noteq> y" if "8 dvd unat y" "Q p \<noteq> []" for y
    using node_offset that f8 q8(1)[OF l8] by blast+
  have off0: "y + 4 \<noteq> f" "f + 4 \<noteq> y" if "8 dvd unat y" for y using node_offset that f8 by blast+
  have free: "nodes (mem s') (ptfree s') F"
  proof (rule nodes_cong[of "mem s"])
    show "nodes (mem s) (ptfree s') F" using R(1) f' by simp
    show "mem s' (y + 4) = mem s (y + 4)" if "y \<in> set F" for y
      using F8[OF that] off0 q8(3)[OF l8] that m' by auto
  qed
  have other: "nodes (mem s') a (Q r)" if "nodes (mem s) a (Q r)" "r \<noteq> p" for a r
  proof (rule nodes_cong[OF that(1)])
    show "mem s' (y + 4) = mem s (y + 4)" if "y \<in> set (Q r)" for y
    proof -
      have "y \<noteq> last (Q p)" if "Q p \<noteq> []" using l8[OF that] R(10)[OF \<open>r \<noteq> p\<close>] \<open>y \<in> set (Q r)\<close> by auto
      then show ?thesis using q8[OF that] off0 m' by auto
    qed
  qed
  have own: "nodes (mem s') (pthead e) (Q p @ [f])"
  proof (cases "Q p = []")
    case True
    then show ?thesis using p' m' off0[OF f8] by simp
  next
    case False
    let ?m = "(mem s)(f + 4 := 0, f := v)"
    obtain xs y where q: "Q p = xs @ [y]" using False by (metis rev_exhaust)
    have "nodes ?m (pthead (porttab s p)) (xs @ [y])"
      by (rule nodes_cong[of "mem s"]) (use R(4)[OF al] q q8[of _ p] off0 in auto)
    moreover have "nodes (?m(y + 4 := f)) f [f]" using off0[OF f8] q8[of y p] q by auto
    moreover have "y \<notin> set xs" "y \<notin> set [f]" using R(7)[of p] q q8[of y p] by auto
    ultimately have "nodes (?m(y + 4 := f)) (pthead (porttab s p)) (xs @ [y, f])" using nodes_append by blast
    then show ?thesis using m' p' q by simp
  qed
  show "ports_rep s' F (Q(p := Q p @ [f]))"
    unfolding ports_rep_def b' using R free other own p' al by auto
  show "messages s' (Q p @ [f]) = messages s (Q p) @ [v]"
    using m' off0 off q8[of _ p] f8 by (auto simp: messages_def)
  show "messages s' (Q r) = messages s (Q r)" if "r \<noteq> p"
    using m' off0 off q8[of _ r] by (auto simp: messages_def)
qed

lemma recv_rep:
  assumes rep: "ports_rep s F Q" and al: "port_live s p" and q: "Q p = x # xs"
    and m': "mem s' = (mem s)(x + 4 := ptfree s)" and f': "ptfree s' = x" and b': "node_ok s' = node_ok s"
    and p': "porttab s' = (porttab s)(p := e)" "ptstate e = PT_ALLOC"
      "pthead e = (if xs = [] then 0 else mem s (x + 4))" "pttail e = (if xs = [] then 0 else pttail (porttab s p))"
  shows "ports_rep s' (x # F) (Q(p := xs))" "messages s' ((Q(p := xs)) r) = messages s ((Q(p := xs)) r)"
proof -
  note R = ports_repD[OF rep]
  have x: "8 dvd unat x" "x \<notin> set F" "x \<notin> set xs" using R(9)[of x p] R(8)[of p] R(7)[of p] q by (auto simp: node_ok_def)
  have q8: "8 dvd unat y" if "y \<in> set (Q r)" for y r using R(9)[OF that] by (simp add: node_ok_def)
  have xr: "x \<notin> set (Q r)" if "r \<noteq> p" for r using R(10)[OF that] q by auto
  have free: "nodes (mem s') (ptfree s') (x # F)"
  proof -
    have "nodes (mem s') (ptfree s) F" by (rule nodes_cong[OF R(1)]) (use m' x(2) in auto)
    then show ?thesis using m' f' by simp
  qed
  have other: "nodes (mem s') a (Q r)" if "nodes (mem s) a (Q r)" "r \<noteq> p" for a r
    by (rule nodes_cong[OF that(1)]) (use m' xr[OF that(2)] in auto)
  have own: "nodes (mem s') (pthead e) xs"
  proof (rule nodes_cong[of "mem s"])
    show "nodes (mem s) (pthead e) xs" using R(4)[OF al] q p' by (cases xs) auto
  qed (use m' x in auto)
  have tl: "pttail e = (if xs = [] then 0 else last xs)" using R(5)[OF al] q p' by simp
  have dj: "set (Q r) \<inter> set (x # F) = {}" if "r \<noteq> p" for r using R(8)[of r] xr[OF that] by auto
  have dj0: "set xs \<inter> set (x # F) = {}" using R(8)[of p] x(3) q by auto
  have djr: "set xs \<inter> set (Q r) = {}" "set (Q r) \<inter> set xs = {}" if "r \<noteq> p" for r using R(10)[OF that] q by auto
  show "ports_rep s' (x # F) (Q(p := xs))"
    unfolding ports_rep_def b'
  proof (intro conjI allI)
    show "nodes (mem s') (ptfree s') (x # F)" by (rule free)
    show "distinct (x # F)" using R(2) x(2) by simp
    show "\<forall>y \<in> set (x # F). node_ok s y" using R(3) R(9)[of x p] q by auto
  next
    fix r
    show "if port_live s' r
           then nodes (mem s') (pthead (porttab s' r)) ((Q(p := xs)) r) \<and>
             pttail (porttab s' r) = (if (Q(p := xs)) r = [] then 0 else last ((Q(p := xs)) r))
           else (Q(p := xs)) r = []"
      using p' own tl al R(4,5,6)[of r] other[of _ r] by (cases "r = p") auto
    show "distinct ((Q(p := xs)) r)" using R(7)[of r] q by auto
    show "set ((Q(p := xs)) r) \<inter> set (x # F) = {}" using dj0 dj by auto
    show "\<forall>y \<in> set ((Q(p := xs)) r). node_ok s y" using R(9)[of _ r] R(9)[of _ p] q by auto
    show "t \<noteq> r \<longrightarrow> set ((Q(p := xs)) r) \<inter> set ((Q(p := xs)) t) = {}" for t
      using djr[of r] djr[of t] R(10)[of t r] by auto
  qed
  show "messages s' ((Q(p := xs)) r) = messages s ((Q(p := xs)) r)"
    using m' node_offset[OF x(1)] q8[of _ r] q8[of _ p] q by (cases "r = p") (auto simp: messages_def)
qed

text \<open>The whole list of a port goes to the front of the free list.\<close>

lemma nodes_join:
  "nodes m a xs \<Longrightarrow> xs \<noteq> [] \<Longrightarrow> distinct xs \<Longrightarrow> nodes m b ys \<Longrightarrow> set xs \<inter> set ys = {} \<Longrightarrow>
    nodes (m(last xs + 4 := b)) a (xs @ ys)"
proof (induction xs arbitrary: a)
  case (Cons x xs)
  show ?case
  proof (cases "xs = []")
    case True
    have "nodes (m(x + 4 := b)) b ys" by (rule nodes_cong[OF Cons.prems(4)]) (use Cons.prems(5) in auto)
    then show ?thesis using Cons.prems(1) True by (simp add: fun_upd_def)
  next
    case False
    then have "nodes (m(last xs + 4 := b)) (m (x + 4)) (xs @ ys)" using Cons.IH[of "m (x + 4)"] Cons.prems by (simp add: fun_upd_def)
    moreover have "last xs \<noteq> x" using False Cons.prems(3) last_in_set by fastforce
    ultimately show ?thesis using Cons.prems(1) False by (simp add: fun_upd_def)
  qed
qed simp

lemma clear_rep:
  assumes rep: "ports_rep s F Q" and al: "port_live s p"
    and m': "mem s' = (if Q p = [] then mem s else (mem s)(pttail (porttab s p) + 4 := ptfree s))"
    and f': "ptfree s' = (if Q p = [] then ptfree s else pthead (porttab s p))" and b': "node_ok s' = node_ok s"
    and p': "porttab s' = (porttab s)(p := e)" "ptstate e \<noteq> PT_ALLOC"
  shows "ports_rep s' (Q p @ F) (Q(p := []))" "r \<noteq> p \<Longrightarrow> messages s' (Q r) = messages s (Q r)"
proof -
  note R = ports_repD[OF rep]
  have l: "pttail (porttab s p) = last (Q p)" if "Q p \<noteq> []" using R(5)[OF al] that by simp
  have free: "nodes (mem s') (ptfree s') (Q p @ F)"
  proof (cases "Q p = []")
    case False
    then show ?thesis using nodes_join[OF R(4)[OF al] _ R(7) R(1) R(8)] m' f' l by simp
  qed (use R(1) m' f' in simp)
  have other: "nodes (mem s') a (Q r)" if "nodes (mem s) a (Q r)" "r \<noteq> p" for a r
  proof (rule nodes_cong[OF that(1)])
    show "mem s' (y + 4) = mem s (y + 4)" if y: "y \<in> set (Q r)" for y
    proof -
      have "y \<noteq> last (Q p)" if "Q p \<noteq> []" using last_in_set[OF that] R(10)[OF \<open>r \<noteq> p\<close>] y by auto
      then show ?thesis using m' l by auto
    qed
  qed
  have dj: "set (Q r) \<inter> set (Q p @ F) = {}" if "r \<noteq> p" for r using R(8)[of r] R(10)[OF that] by auto
  show "ports_rep s' (Q p @ F) (Q(p := []))"
    unfolding ports_rep_def b'
  proof (intro conjI allI)
    show "nodes (mem s') (ptfree s') (Q p @ F)" by (rule free)
    show "distinct (Q p @ F)" using R(2) R(7)[of p] R(8)[of p] by simp
    show "\<forall>x \<in> set (Q p @ F). node_ok s x" using R(3) R(9)[of _ p] by auto
  next
    fix r
    show "if port_live s' r
          then nodes (mem s') (pthead (porttab s' r)) ((Q(p := [])) r) \<and>
            pttail (porttab s' r) = (if (Q(p := [])) r = [] then 0 else last ((Q(p := [])) r))
          else (Q(p := [])) r = []"
      using p' R(4,5,6)[of r] other[of _ r] by (cases "r = p") auto
    show "distinct ((Q(p := [])) r)" "\<forall>x \<in> set ((Q(p := [])) r). node_ok s x" using R(7)[of r] R(9)[of _ r] by auto
    show "set ((Q(p := [])) r) \<inter> set (Q p @ F) = {}" using dj by auto
    show "t \<noteq> r \<longrightarrow> set ((Q(p := [])) r) \<inter> set ((Q(p := [])) t) = {}" for t using R(10)[of t r] by auto
  qed
  show "messages s' (Q r) = messages s (Q r)" if r: "r \<noteq> p"
  proof -
    have "pttail (porttab s p) + 4 \<noteq> y" if "y \<in> set (Q r)" "Q p \<noteq> []" for y
      using node_offset[of "last (Q p)" y] R(9)[OF that(1)] R(9)[of "last (Q p)" p] l that by (auto simp: node_ok_def)
    then show ?thesis using m' by (auto simp: messages_def)
  qed
qed

section \<open>Sending and receiving\<close>

text \<open>Independent assignments in one order.\<close>

lemma port_upd_comm:
  fixes s :: "'z ustate_scheme"
  shows "s\<lparr>porttab := a\<rparr>\<lparr>mem := m\<rparr> = s\<lparr>mem := m\<rparr>\<lparr>porttab := a\<rparr>" "s\<lparr>ptfree := f\<rparr>\<lparr>mem := m\<rparr> = s\<lparr>mem := m\<rparr>\<lparr>ptfree := f\<rparr>"
    "s\<lparr>ptnextid := k\<rparr>\<lparr>mem := m\<rparr> = s\<lparr>mem := m\<rparr>\<lparr>ptnextid := k\<rparr>"
  by (cases s; simp)+

lemma kinv_writes:
  assumes "kinv s" "\<forall>(a, v) \<in> set ws. busy s a"
  shows "kinv (s\<lparr>mem := fold (\<lambda>(a, v) m. m(a := v)) ws (mem s)\<rparr>)"
    "busy (s\<lparr>mem := fold (\<lambda>(a, v) m. m(a := v)) ws (mem s)\<rparr>) = busy s"
proof -
  have "kinv (s\<lparr>mem := fold (\<lambda>(a, v) m. m(a := v)) ws (mem s)\<rparr>) \<and>
    busy (s\<lparr>mem := fold (\<lambda>(a, v) m. m(a := v)) ws (mem s)\<rparr>) = busy s"
    using assms
  proof (induction ws arbitrary: s)
    case (Cons w ws)
    obtain a v where w: "w = (a, v)" by (cases w)
    let ?s = "s\<lparr>mem := (mem s)(a := v)\<rparr>"
    have a: "busy s a" using Cons.prems(2) w by auto
    have b: "busy ?s = busy s" by (rule kheap_write(2)[OF kinvD(6)[OF Cons.prems(1)] a])
    show ?case using Cons.IH[of ?s] kinv_write[OF Cons.prems(1) a, of v] Cons.prems(2) w b by auto
  qed simp
  then show "kinv (s\<lparr>mem := fold (\<lambda>(a, v) m. m(a := v)) ws (mem s)\<rparr>)"
    "busy (s\<lparr>mem := fold (\<lambda>(a, v) m. m(a := v)) ws (mem s)\<rparr>) = busy s" by simp_all
qed

definition same_ports :: "'z ustate_scheme \<Rightarrow> 'z ustate_scheme \<Rightarrow> bool" where
  "same_ports s s' \<longleftrightarrow> (\<forall>q. ptstate (porttab s' q) = ptstate (porttab s q) \<and> ptseq (porttab s' q) = ptseq (porttab s q) \<and>
     ptssem (porttab s' q) = ptssem (porttab s q) \<and> ptrsem (porttab s' q) = ptrsem (porttab s q) \<and>
     ptmaxcnt (porttab s' q) = ptmaxcnt (porttab s q))"

lemma ptsend_rest_links:
  assumes inv: "kinv s" and rep: "ports_rep s (f # F) Q"
    and p: "port_live s p" "ptseq (porttab s p) = seq"
  shows "\<exists>s'. ptsend_rest p seq msg s = do { (_, s) \<leftarrow> signal (ptrsem (porttab s p)) s'; Some (Done OK, s) } \<and>
    kinv s' \<and> ports_rep s' F (Q(p := Q p @ [f])) \<and> messages s' (Q p @ [f]) = messages s (Q p) @ [msg] \<and>
    (\<forall>r. r \<noteq> p \<longrightarrow> messages s' (Q r) = messages s (Q r)) \<and> semtab s' = semtab s \<and> same_ports s s'"
proof -
  note R = ports_repD[OF rep]
  let ?e = "porttab s p"
  have f: "node_ok s f" "ptfree s = f" "busy s f" "busy s (f + 4)" "f \<noteq> 0" using R(1) R(3)[of f] by (auto simp: node_ok_def busy_def)
  have tl: "pttail ?e = (if Q p = [] then 0 else last (Q p))" by (rule R(5)[OF p(1)])
  have l: "busy s (last (Q p) + 4)" "last (Q p) \<noteq> 0" if "Q p \<noteq> []"
    using R(9)[OF last_in_set[OF that]] by (auto simp: node_ok_def busy_def)
  define ws where "ws = [(f + 4, 0), (f, msg)] @ (if Q p = [] then [] else [(last (Q p) + 4, f)])"
  define e where "e = (if Q p = [] then ?e\<lparr>pttail := f, pthead := f\<rparr> else ?e\<lparr>pttail := f\<rparr>)"
  let ?s0 = "s\<lparr>mem := fold (\<lambda>(a, v) m. m(a := v)) ws (mem s)\<rparr>"
  let ?s1 = "?s0\<lparr>ptfree := mem s (f + 4), porttab := (porttab s)(p := e)\<rparr>"
  have ws: "\<forall>(a, v) \<in> set ws. busy s a" using f l by (auto simp: ws_def)
  have inv1: "kinv ?s1" and b1: "busy ?s1 = busy s" using kinv_writes[OF inv ws] by simp_all
  have n1: "node_ok ?s1 = node_ok s" by (rule node_ok_cong[OF b1])
  note S = send_rep[OF rep p(1), where s' = ?s1 and e = e and v = msg, OF _ _ n1]
  have rep1: "ports_rep ?s1 F (Q(p := Q p @ [f]))" "messages ?s1 (Q p @ [f]) = messages s (Q p) @ [msg]"
    "r \<noteq> p \<Longrightarrow> messages ?s1 (Q r) = messages s (Q r)" for r
    by (rule S; use p(1) in \<open>simp add: ws_def e_def\<close>)+
  have "ptsend_rest p seq msg s = do { (_, s) \<leftarrow> signal (ptrsem (porttab s p)) ?s1; Some (Done OK, s) }"
    using p f l tl by (cases "Q p = []") (simp_all add: ptsend_rest_def busy_access Let_def pt_upd_def ws_def e_def port_upd_comm)
  moreover have "same_ports s ?s1" by (simp add: same_ports_def e_def)
  ultimately show ?thesis using inv1 rep1 by (intro exI[of _ ?s1]) simp
qed

theorem ptsend_rest_appends:
  assumes inv: "kinv s" and rep: "ports_rep s (f # F) Q"
    and p: "port_live s p" "ptseq (porttab s p) = seq"
    and sem: "sem_live s (ptrsem (porttab s p))" "scount (semtab s (ptrsem (porttab s p))) < 2 ^ 31 - 1"
  shows "\<exists>s'. ptsend_rest p seq msg s = Some (Done OK, s') \<and> kinv s' \<and> ports_rep s' F (Q(p := Q p @ [f])) \<and>
    messages s' (Q p @ [f]) = messages s (Q p) @ [msg] \<and> (\<forall>r. r \<noteq> p \<longrightarrow> messages s' (Q r) = messages s (Q r)) \<and>
    scount (semtab s' (ptrsem (porttab s p))) = scount (semtab s (ptrsem (porttab s p))) + 1"
proof -
  let ?k = "ptrsem (porttab s p)"
  obtain s1 where s1: "ptsend_rest p seq msg s = do { (_, s) \<leftarrow> signal ?k s1; Some (Done OK, s) }" "kinv s1"
    "ports_rep s1 F (Q(p := Q p @ [f]))" "messages s1 (Q p @ [f]) = messages s (Q p) @ [msg]"
    "\<forall>r. r \<noteq> p \<longrightarrow> messages s1 (Q r) = messages s (Q r)" "semtab s1 = semtab s"
    using ptsend_rest_links[OF inv rep p] by blast
  obtain s' where s': "signal ?k s1 = Some (OK, s')" "kinv s'" "scount (semtab s' ?k) = scount (semtab s ?k) + 1"
    using signal_inv[OF s1(2), of ?k] sem s1(6) by auto
  have u: "untouched UNIV s1 s'" by (rule signal_untouched[OF s'(1)]) simp
  show ?thesis using s1 s' by (intro exI[of _ s']) (simp add: ports_rep_untouched[OF u] messages_untouched[OF u])
qed

lemma ptrecv_rest_links:
  assumes inv: "kinv s" and rep: "ports_rep s F Q" and q: "Q p = x # xs"
    and p: "port_live s p" "ptseq (porttab s p) = seq"
  shows "\<exists>s'. ptrecv_rest p seq s = do { (_, s) \<leftarrow> signal (ptssem (porttab s p)) s'; Some (hd (messages s' (Q p)), s) } \<and>
    kinv s' \<and> ports_rep s' (x # F) (Q(p := xs)) \<and> (\<forall>r. messages s' (Q r) = messages s (Q r)) \<and>
    semtab s' = semtab s \<and> same_ports s s'"
proof -
  note R = ports_repD[OF rep]
  let ?e = "porttab s p"
  have x: "busy s x" "busy s (x + 4)" "pthead ?e = x" "8 dvd unat x" using R(9)[of x p] R(4)[OF p(1)] q by (auto simp: node_ok_def)
  have ht: "pthead ?e = pttail ?e \<longleftrightarrow> xs = []" using R(5)[OF p(1)] R(7)[of p] x(3) q by (auto simp: last_in_set)
  define e where "e = (if xs = [] then ?e\<lparr>pthead := 0, pttail := 0\<rparr> else ?e\<lparr>pthead := mem s (x + 4)\<rparr>)"
  let ?s0 = "s\<lparr>mem := (mem s)(x + 4 := ptfree s)\<rparr>"
  let ?s1 = "?s0\<lparr>porttab := (porttab s)(p := e), ptfree := x\<rparr>"
  have inv1: "kinv ?s1" using kinv_write[OF inv x(2)] by simp
  have b1: "busy ?s1 = busy s" using kheap_write(2)[OF kinvD(6)[OF inv] x(2)] by simp
  have n1: "node_ok ?s1 = node_ok s" by (rule node_ok_cong[OF b1])
  note S = recv_rep[OF rep p(1) q, where s' = ?s1 and e = e, OF _ _ n1]
  have rep1: "ports_rep ?s1 (x # F) (Q(p := xs))" "messages ?s1 ((Q(p := xs)) r) = messages s ((Q(p := xs)) r)" for r
    by (rule S; use p(1) in \<open>simp add: e_def\<close>)+
  have mx: "mem ?s1 x = mem s x" using node_offset[OF x(4) x(4)] by simp
  have "messages ?s1 (Q p) = mem s x # messages s xs" using rep1(2)[of p] q mx by (simp add: messages_def)
  then have ms: "messages ?s1 (Q r) = messages s (Q r)" for r
    using rep1(2)[of r] q by (cases "r = p") (simp_all add: messages_def)
  have "ptrecv_rest p seq s = do { (_, s) \<leftarrow> signal (ptssem (porttab s p)) ?s1; Some (hd (messages ?s1 (Q p)), s) }"
    unfolding ms using p x ht q
    by (cases "xs = []") (simp_all add: ptrecv_rest_def busy_access Let_def pt_upd_def e_def port_upd_comm messages_def)
  moreover have "same_ports s ?s1" by (simp add: same_ports_def e_def)
  ultimately show ?thesis using inv1 rep1(1) ms by (intro exI[of _ ?s1]) simp
qed

theorem ptrecv_rest_pops:
  assumes inv: "kinv s" and rep: "ports_rep s F Q" and q: "Q p = x # xs"
    and p: "port_live s p" "ptseq (porttab s p) = seq"
    and sem: "sem_live s (ptssem (porttab s p))" "scount (semtab s (ptssem (porttab s p))) < 2 ^ 31 - 1"
  shows "\<exists>s'. ptrecv_rest p seq s = Some (hd (messages s (Q p)), s') \<and> kinv s' \<and> ports_rep s' (x # F) (Q(p := xs)) \<and>
    messages s' xs = tl (messages s (Q p)) \<and> (\<forall>r. r \<noteq> p \<longrightarrow> messages s' (Q r) = messages s (Q r)) \<and>
    scount (semtab s' (ptssem (porttab s p))) = scount (semtab s (ptssem (porttab s p))) + 1"
proof -
  let ?k = "ptssem (porttab s p)"
  obtain s1 where s1: "ptrecv_rest p seq s = do { (_, s) \<leftarrow> signal ?k s1; Some (hd (messages s1 (Q p)), s) }" "kinv s1"
    "ports_rep s1 (x # F) (Q(p := xs))" "\<forall>r. messages s1 (Q r) = messages s (Q r)" "semtab s1 = semtab s"
    using ptrecv_rest_links[OF inv rep q p] by blast
  obtain s' where s': "signal ?k s1 = Some (OK, s')" "kinv s'" "scount (semtab s' ?k) = scount (semtab s ?k) + 1"
    using signal_inv[OF s1(2), of ?k] sem s1(5) by auto
  have u: "untouched UNIV s1 s'" by (rule signal_untouched[OF s'(1)]) simp
  have "messages s1 xs = tl (messages s (Q p))" using s1(4)[rule_format, of p] q by (simp add: messages_def)
  then show ?thesis using s1 s' by (intro exI[of _ s']) (simp add: ports_rep_untouched[OF u] messages_untouched[OF u])
qed

text \<open>A message list whose port was reset or deleted meanwhile is not touched: the caller gets \<open>SYSERR\<close>.\<close>

lemma port_changed:
  assumes "ptstate (porttab s p) \<noteq> PT_ALLOC \<or> ptseq (porttab s p) \<noteq> seq"
  shows "ptsend_rest p seq msg s = Some (Done SYSERR, s)" "ptrecv_rest p seq s = Some (- 1, s)"
  using assms by (auto simp: ptsend_rest_def ptrecv_rest_def)

lemma port_refused:
  assumes "isbadport p \<or> ptstate (porttab s p) \<noteq> PT_ALLOC"
  shows "ptsend p msg s = Some (Done SYSERR, s)" "ptrecv p s = Some (Done (- 1), s)" "ptcount p s = SYSERR"
    "ptdelete p disp s = Some (Done SYSERR, s)" "ptreset p disp s = Some (Done SYSERR, s)"
  using assms by (auto simp: ptsend_def ptrecv_def ptcount_def ptdelete_def ptreset_def)

section \<open>Clearing a port\<close>

text \<open>What is required of a disposal function: it returns, and changes neither memory nor the ports.\<close>

definition disposes :: "(uint32 \<Rightarrow> 'z ustate_scheme \<Rightarrow> 'z ustate_scheme option) \<Rightarrow> bool" where
  "disposes d \<longleftrightarrow> (\<forall>v s. kinv s \<longrightarrow> (\<exists>s'. d v s = Some s' \<and> kinv s' \<and> untouched {} s s'))"

lemma dispose_walk_runs:
  assumes d: "disposes d" and inv: "kinv s" and xs: "nodes (mem s) a xs" "\<forall>x \<in> set xs. node_ok s x"
  shows "\<exists>s'. dispose_walk d a s = Some s' \<and> kinv s' \<and> untouched {} s s'"
  using inv xs
proof (induction xs arbitrary: a s)
  case Nil
  then show ?case using dispose_walk.simps[of d a s] by auto
next
  case (Cons x xs)
  have x: "a = x" "busy s x" "busy s (x + 4)" "x \<noteq> 0" using Cons.prems by (auto simp: node_ok_def busy_def)
  obtain s1 where s1: "d (mem s x) s = Some s1" "kinv s1" "untouched {} s s1"
    using d Cons.prems(1) unfolding disposes_def by blast
  note U = untouchedD(1)[OF s1(3)]
  have "nodes (mem s1) (mem s (x + 4)) xs" "\<forall>y \<in> set xs. node_ok s1 y"
    using Cons.prems(2,3) by (simp_all add: U node_ok_untouched[OF s1(3)])
  then obtain s2 where s2: "dispose_walk d (mem s (x + 4)) s1 = Some s2" "kinv s2" "untouched {} s1 s2"
    using Cons.IH[OF s1(2)] by blast
  have "dispose_walk d a s = Some s2"
    using dispose_walk.simps[of d a s] x s1(1) s2(1) U by (simp add: busy_access)
  then show ?case using s2(2) untouched_trans[OF s1(3) s2(3)] by blast
qed

text \<open>\<open>_ptclear\<close> up to the first semaphore call: the port is in limbo under a new sequence number and its
  nodes are free.\<close>

theorem ptclear_frees:
  assumes inv: "kinv s" and rep: "ports_rep s F Q" and p: "port_live s p"
    and d: "disposes d" and sem: "sem_live s (ptssem (porttab s p))"
    and n: "0 \<le> ptmaxcnt (porttab s p)" "ptmaxcnt (porttab s p) < 2 ^ 16"
  shows "\<exists>s'. ptclear p new d s = Some s' \<and> kinv s' \<and> ports_rep s' (Q p @ F) (Q(p := [])) \<and>
    ptstate (porttab s' p) = PT_LIMBO \<and> ptseq (porttab s' p) = s32 (ptseq (porttab s p) + 1) \<and>
    (new = PT_ALLOC \<longrightarrow> pthead (porttab s' p) = 0 \<and> pttail (porttab s' p) = 0) \<and>
    (\<forall>r. r \<noteq> p \<longrightarrow> messages s' (Q r) = messages s (Q r)) \<and>
    (if new = PT_ALLOC then scount (semtab s' (ptssem (porttab s p))) = ptmaxcnt (porttab s p)
     else sstate (semtab s' (ptssem (porttab s p))) = S_FREE)"
proof -
  note R = ports_repD[OF rep]
  let ?e = "porttab s p" and ?k = "ptssem (porttab s p)"
  let ?e1 = "?e\<lparr>ptstate := PT_LIMBO, ptseq := s32 (ptseq ?e + 1)\<rparr>"
  let ?s1 = "s\<lparr>porttab := (porttab s)(p := ?e1)\<rparr>"
  have inv1: "kinv ?s1" using inv by simp
  have b1: "busy ?s1 = busy s" by simp
  have "nodes (mem ?s1) (pthead ?e) (Q p)" "\<forall>x \<in> set (Q p). node_ok ?s1 x"
    using R(4)[OF p] R(9)[of _ p] by (simp_all add: node_ok_cong[OF b1])
  then obtain s2 where s2: "dispose_walk d (pthead ?e) ?s1 = Some s2" "kinv s2" "untouched {} ?s1 s2"
    using dispose_walk_runs[OF d inv1] by blast
  have hd: "pthead ?e = 0 \<longleftrightarrow> Q p = []"
    using R(4)[OF p] R(9)[of "hd (Q p)" p] by (cases "Q p") (auto simp: node_ok_def busy_def)
  have w2: "dispose_walk d (pthead ?e) ?s1 = Some ?s1" if "Q p = []" using dispose_walk.simps[of d 0] hd that by simp
  have tb: "busy s (pttail ?e + 4)" if "Q p \<noteq> []"
    using R(5)[OF p] R(9)[OF last_in_set[OF that]] that by (simp add: node_ok_def)
  have s2f: "mem s2 = mem s" "porttab s2 = (porttab s)(p := ?e1)" "ptfree s2 = ptfree s" "busy s2 = busy s"
    "semtab s2 = semtab s" "ukont s2 = ukont s"
    using untouchedD(1,18)[OF s2(3)] untouched_upper[OF s2(3)] busy_untouched[OF s2(3)] by auto
  define s3 where "s3 = (if Q p = [] then s2 else s2\<lparr>mem := (mem s)(pttail ?e + 4 := ptfree s), ptfree := pthead ?e\<rparr>)"
  define e3 where "e3 = (if new = PT_ALLOC then ?e1\<lparr>pttail := 0, pthead := 0\<rparr> else ?e1)"
  define s4 where "s4 = s3\<lparr>ukont := (ukont s3)(currpid s3 := Some (U_ptclear1 p new)), porttab := (porttab s)(p := e3)\<rparr>"
  have "kinv (s2\<lparr>mem := (mem s2)(pttail ?e + 4 := ptfree s)\<rparr>)" "busy (s2\<lparr>mem := (mem s2)(pttail ?e + 4 := ptfree s)\<rparr>) = busy s"
    if "Q p \<noteq> []" using kinv_write[OF s2(2)] kheap_write(2)[OF kinvD(6)[OF s2(2)]] tb[OF that] s2f(4) by auto
  then have inv4: "kinv s4" and b4: "busy s4 = busy s"
    using s2(2) s2f(1,4) by (auto simp: s3_def s4_def)
  have f4: "mem s4 = (if Q p = [] then mem s else (mem s)(pttail ?e + 4 := ptfree s))"
    "ptfree s4 = (if Q p = [] then ptfree s else pthead ?e)" "porttab s4 = (porttab s)(p := e3)" "semtab s4 = semtab s"
    "ptstate e3 \<noteq> PT_ALLOC" "ptssem e3 = ?k" "ptmaxcnt e3 = ptmaxcnt ?e"
    using s2f by (simp_all add: s3_def s4_def e3_def)
  note S = clear_rep[OF rep p f4(1,2) node_ok_cong[OF b4] f4(3,5)]
  have sem4: "sem_live s4 ?k" using sem f4(4) by simp
  obtain s' r where s': "(if new = PT_ALLOC then semreset ?k (ptmaxcnt ?e) s4 else semdelete ?k s4) = Some (r, s')"
    "kinv s'" "if new = PT_ALLOC then scount (semtab s' ?k) = ptmaxcnt ?e else sstate (semtab s' ?k) = S_FREE"
    using semreset_inv[OF inv4, of ?k "ptmaxcnt ?e"] semdelete_inv[OF inv4, of ?k] sem4 n by (cases "new = PT_ALLOC") auto
  have u: "untouched UNIV s4 s'" using s'(1) by (auto intro: semreset_untouched semdelete_untouched split: if_splits)
  have e': "porttab s' p = e3" using untouched_upper(1)[OF u] f4(3) by simp
  have s3r: "ptclear_msgs p d ?s1 = Some s3"
    using s2(1) w2 hd tb s2f by (cases "Q p = []") (simp_all add: ptclear_msgs_def s3_def busy_access)
  have s3p: "porttab s3 = (porttab s)(p := ?e1)" using s2f by (simp add: s3_def)
  have "ptclear p new d s = Some s'"
  proof (cases "new = PT_ALLOC")
    case True
    then have "s4 = pt_upd p (\<lambda>e. e\<lparr>pttail := 0, pthead := 0\<rparr>) (s3\<lparr>ukont := (ukont s3)(currpid s3 := Some (U_ptclear1 p new))\<rparr>)"
      using s3p by (simp add: s4_def e3_def pt_upd_def)
    moreover have "ptssem (porttab s3 p) = ?k" "ptmaxcnt (porttab s3 p) = ptmaxcnt ?e" using s3p by simp_all
    ultimately show ?thesis using s3r s'(1) True f4(3) unfolding ptclear_def pt_upd_def Let_def by simp
  next
    case False
    then have "s4 = s3\<lparr>ukont := (ukont s3)(currpid s3 := Some (U_ptclear1 p new))\<rparr>"
      using s3p by (simp add: s4_def e3_def)
    then show ?thesis using s3r s'(1) False s3p unfolding ptclear_def pt_upd_def Let_def by simp
  qed
  moreover have "\<forall>r. r \<noteq> p \<longrightarrow> messages s' (Q r) = messages s (Q r)" using S(2) messages_untouched[OF u] by simp
  moreover have "ports_rep s' (Q p @ F) (Q(p := []))" using S(1) ports_rep_untouched[OF u] by simp
  moreover have "ptstate e3 = PT_LIMBO" "ptseq e3 = s32 (ptseq ?e + 1)" "new = PT_ALLOC \<longrightarrow> pthead e3 = 0 \<and> pttail e3 = 0"
    by (simp_all add: e3_def)
  ultimately show ?thesis using s'(2,3) unfolding e'[symmetric] by blast
qed

section \<open>Creating a port\<close>

lemma ptcreate_loop_spec:
  assumes "0 \<le> ptnextid s" "ptnextid s < NPORTS"
  shows "\<exists>nx. 0 \<le> nx \<and> nx < NPORTS \<and>
    (if \<exists>j < int n. 0 \<le> j \<and> ptstate (porttab s ((ptnextid s + j) mod NPORTS)) = PT_FREE
     then \<exists>p. 0 \<le> p \<and> p < NPORTS \<and> ptstate (porttab s p) = PT_FREE \<and>
       ptcreate_loop n count s = ptcreate_entry p count (s\<lparr>ptnextid := nx\<rparr>)
     else ptcreate_loop n count s = Some (SYSERR, s\<lparr>ptnextid := nx\<rparr>))"
  using assms
proof (induction n arbitrary: s)
  case 0
  then show ?case by (intro exI[of _ "ptnextid s"]) auto
next
  case (Suc n)
  obtain nx where nx_def: "nx = (if ptnextid s + 1 \<ge> NPORTS then 0 else ptnextid s + 1)" by blast
  let ?s = "s\<lparr>ptnextid := nx\<rparr>"
  have nx: "0 \<le> nx" "nx < NPORTS" using Suc.prems by (auto simp: nx_def)
  have nxm: "nx = (ptnextid s + 1) mod NPORTS" using Suc.prems by (cases "ptnextid s = 29") (auto simp: nx_def)
  show ?case
  proof (cases "ptstate (porttab s (ptnextid s)) = PT_FREE")
    case True
    then have "ptstate (porttab s ((ptnextid s + 0) mod NPORTS)) = PT_FREE" using Suc.prems by simp
    then have "\<exists>j < int (Suc n). 0 \<le> j \<and> ptstate (porttab s ((ptnextid s + j) mod NPORTS)) = PT_FREE" by (intro exI[of _ 0]) simp
    moreover have "ptcreate_loop (Suc n) count s = ptcreate_entry (ptnextid s) count ?s"
      using Suc.prems True by (simp add: isbadport_def Let_def nx_def)
    ultimately show ?thesis using nx(1,2) Suc.prems True by (intro exI[of _ nx]) auto
  next
    case False
    have run: "ptcreate_loop (Suc n) count s = ptcreate_loop n count ?s"
      using Suc.prems False by (simp add: isbadport_def Let_def nx_def)
    have step: "(nx + j) mod NPORTS = (ptnextid s + (j + 1)) mod NPORTS" for j
      unfolding nxm by (simp add: mod_simps algebra_simps)
    have ex: "(\<exists>j < int (Suc n). 0 \<le> j \<and> ptstate (porttab s ((ptnextid s + j) mod NPORTS)) = PT_FREE) \<longleftrightarrow>
      (\<exists>j < int n. 0 \<le> j \<and> ptstate (porttab ?s ((ptnextid ?s + j) mod NPORTS)) = PT_FREE)" (is "?L \<longleftrightarrow> ?R")
    proof
      assume ?L
      then obtain j where j: "j < int (Suc n)" "0 \<le> j" "ptstate (porttab s ((ptnextid s + j) mod NPORTS)) = PT_FREE" by blast
      have "j \<noteq> 0" using j(3) False Suc.prems by auto
      then show ?R using j step[of "j - 1"] by (intro exI[of _ "j - 1"]) simp
    next
      assume ?R
      then obtain j where "j < int n" "0 \<le> j" "ptstate (porttab s ((nx + j) mod NPORTS)) = PT_FREE" by auto
      then show ?L using step[of j] by (intro exI[of _ "j + 1"]) simp
    qed
    have "0 \<le> ptnextid ?s" "ptnextid ?s < NPORTS" using nx by simp_all
    from Suc.IH[OF this] show ?thesis unfolding run ex by (simp cong: if_cong split del: if_split)
  qed
qed

text \<open>Filling in the entry: the port is empty, under a new sequence number, and whichever semaphores
  \<open>semcreate\<close> could provide are fresh.\<close>

lemma ports_rep_entry:
  assumes rep: "ports_rep s F Q" and p: "\<not> port_live s p"
    and s': "mem s' = mem s" "ptfree s' = ptfree s" "busy s' = busy s" "porttab s' = (porttab s)(p := e)"
      "pthead e = 0" "pttail e = 0"
  shows "ports_rep s' F Q"
proof -
  have q: "Q p = []" by (rule ports_repD(6)[OF rep p])
  have "if port_live s' r
       then nodes (mem s) (pthead (porttab s' r)) (Q r) \<and> pttail (porttab s' r) = (if Q r = [] then 0 else last (Q r))
       else Q r = []" for r
    using ports_repD(4,5,6)[OF rep, of r] q s' by (cases "r = p") auto
  then show ?thesis
    using ports_repD(1,2,3,7,8,9,10)[OF rep] s'(1,2) unfolding ports_rep_def node_ok_cong[OF s'(3)]
    by (intro conjI allI ballI impI) simp_all
qed

text \<open>Two free semaphores, what a new port needs.\<close>

abbreviation spare_sems :: "'z kstate_scheme \<Rightarrow> bool" where
  "spare_sems s \<equiv> \<exists>i j. i \<noteq> j \<and> sem_ok i \<and> sem_ok j \<and> sstate (semtab s i) = S_FREE \<and> sstate (semtab s j) = S_FREE"

lemma ptcreate_entry_makes:
  assumes inv: "kinv s" and rep: "ports_rep s F Q" and p: "ptstate (porttab s p) = PT_FREE" and n: "0 \<le> n" "n < 2 ^ 31"
  shows "\<exists>s'. ptcreate_entry p n s = Some (p, s') \<and> kinv s' \<and> ports_rep s' F Q \<and> Q p = [] \<and>
    ptstate (porttab s' p) = PT_ALLOC \<and> ptseq (porttab s' p) = s32 (ptseq (porttab s p) + 1) \<and>
    (\<forall>r. r \<noteq> p \<longrightarrow> porttab s' r = porttab s r) \<and> ptnextid s' = ptnextid s \<and>
    (ptssem (porttab s' p) \<noteq> SYSERR \<longrightarrow> sem_live s' (ptssem (porttab s' p)) \<and> scount (semtab s' (ptssem (porttab s' p))) = n) \<and>
    (ptrsem (porttab s' p) \<noteq> SYSERR \<longrightarrow> sem_live s' (ptrsem (porttab s' p)) \<and> scount (semtab s' (ptrsem (porttab s' p))) = 0) \<and>
    (spare_sems s \<longrightarrow> ptssem (porttab s' p) \<noteq> SYSERR \<and> ptrsem (porttab s' p) \<noteq> SYSERR \<and> ptssem (porttab s' p) \<noteq> ptrsem (porttab s' p)) \<and>
    ptmaxcnt (porttab s' p) = n mod 2 ^ 16"
proof -
  let ?e = "porttab s p" and ?s1 = "pt_upd p (\<lambda>e. e\<lparr>ptstate := PT_ALLOC\<rparr>) s"
  have inv1: "kinv ?s1" using inv by (simp add: pt_upd_def)
  obtain a s2 where s2: "semcreate n ?s1 = Some (a, s2)" "kinv s2"
    "if \<exists>k. sem_ok k \<and> sstate (semtab ?s1 k) = S_FREE
     then sem_ok a \<and> sstate (semtab ?s1 a) = S_FREE \<and> sstate (semtab s2 a) = S_USED \<and> scount (semtab s2 a) = n \<and>
       semq s2 a = [] \<and> (\<forall>j. j \<noteq> a \<longrightarrow> semtab s2 j = semtab ?s1 j)
     else a = SYSERR \<and> semtab s2 = semtab ?s1"
    using semcreate_inv[OF inv1 n] by blast
  obtain b s3 where s3: "semcreate 0 s2 = Some (b, s3)" "kinv s3"
    "if \<exists>k. sem_ok k \<and> sstate (semtab s2 k) = S_FREE
     then sem_ok b \<and> sstate (semtab s2 b) = S_FREE \<and> sstate (semtab s3 b) = S_USED \<and> scount (semtab s3 b) = 0 \<and>
       semq s3 b = [] \<and> (\<forall>j. j \<noteq> b \<longrightarrow> semtab s3 j = semtab s2 j)
     else b = SYSERR \<and> semtab s3 = semtab s2"
    using semcreate_inv[OF s2(2), of 0] by auto
  obtain nx sm where f2: "s2 = ?s1\<lparr>nextsem := nx, semtab := sm\<rparr>" using semcreate_frame[OF s2(1)] by blast
  obtain nx' sm' where f3: "s3 = s2\<lparr>nextsem := nx', semtab := sm'\<rparr>" using semcreate_frame[OF s3(1)] by blast
  have A: "a \<noteq> SYSERR \<longrightarrow> sem_live s3 a \<and> scount (semtab s3 a) = n"
  proof (rule impI)
    assume "a \<noteq> SYSERR"
    then have a: "sem_ok a" "sstate (semtab s2 a) = S_USED" "scount (semtab s2 a) = n"
      using s2(3) by (simp_all split: if_splits)
    then have "semtab s3 a = semtab s2 a" using s3(3) by (cases "a = b") (auto split: if_splits)
    then show "sem_live s3 a \<and> scount (semtab s3 a) = n" using a by simp
  qed
  have B: "b \<noteq> SYSERR \<longrightarrow> sem_live s3 b \<and> scount (semtab s3 b) = 0" using s3(3) by (auto split: if_splits)
  have C: "spare_sems s \<longrightarrow> a \<noteq> SYSERR \<and> b \<noteq> SYSERR \<and> a \<noteq> b"
  proof
    assume "spare_sems s"
    then obtain i j where ij: "i \<noteq> j" "sem_ok i" "sem_ok j" "sstate (semtab s i) = S_FREE" "sstate (semtab s j) = S_FREE" by blast
    have f1: "semtab ?s1 = semtab s" by (simp add: pt_upd_def)
    have "\<exists>k. sem_ok k \<and> sstate (semtab ?s1 k) = S_FREE" using ij(2,4) f1 by metis
    note a = s2(3)[unfolded if_P[OF this]]
    have "\<exists>k. sem_ok k \<and> sstate (semtab s2 k) = S_FREE" using ij a f1 by metis
    note b = s3(3)[unfolded if_P[OF this]]
    have "a \<noteq> b" using a b by auto
    then show "a \<noteq> SYSERR \<and> b \<noteq> SYSERR \<and> a \<noteq> b" using a b by auto
  qed
  let ?e3 = "?e\<lparr>ptstate := PT_ALLOC, ptssem := a, ptrsem := b, pthead := 0, pttail := 0, ptseq := s32 (ptseq ?e + 1), ptmaxcnt := n mod 2 ^ 16\<rparr>"
  let ?s = "s3\<lparr>porttab := (porttab s)(p := ?e3)\<rparr>"
  have f: "porttab s3 = (porttab s)(p := ?e\<lparr>ptstate := PT_ALLOC\<rparr>)" "mem s3 = mem s" "ptfree s3 = ptfree s"
    "ptnextid s3 = ptnextid s" using f2 f3 by (simp_all add: pt_upd_def)
  have bz: "busy s3 = busy s" by (rule busy_cong) (use f2 f3 in \<open>simp_all add: pt_upd_def\<close>)
  have run: "ptcreate_entry p n s = Some (p, ?s)"
    using s2(1) s3(1) f(1) by (simp add: ptcreate_entry_def pt_upd_def Let_def)
  have "pthead ?e3 = 0" "pttail ?e3 = 0" by simp_all
  then have "ports_rep ?s F Q" by (intro ports_rep_entry[OF rep, of p ?s ?e3]) (use p f bz in simp_all)
  moreover have "Q p = []" using ports_repD(6)[OF rep] p by simp
  ultimately show ?thesis using run s3(2) A B C f by (intro exI[of _ ?s]) simp
qed

theorem ptcreate_makes:
  assumes inv: "kinv s" and rep: "ports_rep s F Q" and n: "0 \<le> n" "n < 2 ^ 31"
    and nx: "0 \<le> ptnextid s" "ptnextid s < NPORTS"
  shows "\<exists>r s'. ptcreate n s = Some (r, s') \<and> kinv s' \<and> ports_rep s' F Q \<and> 0 \<le> ptnextid s' \<and> ptnextid s' < NPORTS \<and>
    (if \<exists>p. \<not> isbadport p \<and> ptstate (porttab s p) = PT_FREE
     then \<not> isbadport r \<and> ptstate (porttab s r) = PT_FREE \<and> port_live s' r \<and> Q r = [] \<and>
       ptseq (porttab s' r) = s32 (ptseq (porttab s r) + 1) \<and> ptmaxcnt (porttab s' r) = n mod 2 ^ 16 \<and>
       (\<forall>p. p \<noteq> r \<longrightarrow> porttab s' p = porttab s p) \<and>
       (spare_sems s \<longrightarrow> sem_live s' (ptssem (porttab s' r)) \<and> sem_live s' (ptrsem (porttab s' r)) \<and>
          ptssem (porttab s' r) \<noteq> ptrsem (porttab s' r) \<and> scount (semtab s' (ptssem (porttab s' r))) = n \<and>
          scount (semtab s' (ptrsem (porttab s' r))) = 0)
     else r = SYSERR \<and> porttab s' = porttab s)"
proof -
  have run: "ptcreate n s = ptcreate_loop (nat NPORTS) n s" using n by (simp add: ptcreate_def)
  obtain nxt where nxt: "0 \<le> nxt" "nxt < NPORTS"
    "if \<exists>j < int (nat NPORTS). 0 \<le> j \<and> ptstate (porttab s ((ptnextid s + j) mod NPORTS)) = PT_FREE
     then \<exists>p. 0 \<le> p \<and> p < NPORTS \<and> ptstate (porttab s p) = PT_FREE \<and>
       ptcreate_loop (nat NPORTS) n s = ptcreate_entry p n (s\<lparr>ptnextid := nxt\<rparr>)
     else ptcreate_loop (nat NPORTS) n s = Some (SYSERR, s\<lparr>ptnextid := nxt\<rparr>)"
    using ptcreate_loop_spec[OF nx, of "nat NPORTS" n] by blast
  have turn: "(\<exists>j < int (nat NPORTS). 0 \<le> j \<and> ptstate (porttab s ((ptnextid s + j) mod NPORTS)) = PT_FREE) \<longleftrightarrow>
    (\<exists>p. \<not> isbadport p \<and> ptstate (porttab s p) = PT_FREE)" (is "?L \<longleftrightarrow> ?R")
  proof
    assume ?L
    then obtain j where "ptstate (porttab s ((ptnextid s + j) mod NPORTS)) = PT_FREE" by blast
    then show ?R by (intro exI[of _ "(ptnextid s + j) mod NPORTS"]) (simp add: isbadport_def not_less)
  next
    assume ?R
    then obtain p where p: "0 \<le> p" "p < NPORTS" "ptstate (porttab s p) = PT_FREE" by (auto simp: isbadport_def not_less not_le)
    have "(ptnextid s + (p - ptnextid s) mod NPORTS) mod NPORTS = p" using p by (simp add: mod_simps)
    then show ?L using p(3) by (intro exI[of _ "(p - ptnextid s) mod NPORTS"]) simp
  qed
  let ?s = "s\<lparr>ptnextid := nxt\<rparr>"
  have inv1: "kinv ?s" using inv by simp
  have b1: "busy ?s = busy s" by simp
  have rep1: "ports_rep ?s F Q" using rep unfolding ports_rep_def node_ok_cong[OF b1] by simp
  show ?thesis
  proof (cases ?R)
    case True
    then obtain p where p: "0 \<le> p" "p < NPORTS" "ptstate (porttab s p) = PT_FREE" "ptcreate_loop (nat NPORTS) n s = ptcreate_entry p n ?s"
      using nxt(3) unfolding turn if_P[OF True] by blast
    then have ok: "\<not> isbadport p" by (simp add: isbadport_def)
    have p1: "ptstate (porttab ?s p) = PT_FREE" using p(3) by simp
    obtain s' where s': "ptcreate_entry p n ?s = Some (p, s')" "kinv s'" "ports_rep s' F Q" "Q p = []"
      "ptstate (porttab s' p) = PT_ALLOC" "ptseq (porttab s' p) = s32 (ptseq (porttab ?s p) + 1)"
      "\<forall>r. r \<noteq> p \<longrightarrow> porttab s' r = porttab ?s r" "ptnextid s' = ptnextid ?s"
      "ptssem (porttab s' p) \<noteq> SYSERR \<longrightarrow> sem_live s' (ptssem (porttab s' p)) \<and> scount (semtab s' (ptssem (porttab s' p))) = n"
      "ptrsem (porttab s' p) \<noteq> SYSERR \<longrightarrow> sem_live s' (ptrsem (porttab s' p)) \<and> scount (semtab s' (ptrsem (porttab s' p))) = 0"
      "spare_sems ?s \<longrightarrow> ptssem (porttab s' p) \<noteq> SYSERR \<and> ptrsem (porttab s' p) \<noteq> SYSERR \<and> ptssem (porttab s' p) \<noteq> ptrsem (porttab s' p)"
      "ptmaxcnt (porttab s' p) = n mod 2 ^ 16"
      using ptcreate_entry_makes[OF inv1 rep1 p1 n] by blast
    have "ptcreate n s = Some (p, s')" using run p(4) s'(1) by simp
    moreover have "ptseq (porttab s' p) = s32 (ptseq (porttab s p) + 1)" "\<forall>r. r \<noteq> p \<longrightarrow> porttab s' r = porttab s r"
      "0 \<le> ptnextid s'" "ptnextid s' < NPORTS" using s'(6-8) nxt(1,2) by simp_all
    moreover have "semtab ?s = semtab s" by simp
    then have "spare_sems s \<longrightarrow> sem_live s' (ptssem (porttab s' p)) \<and> sem_live s' (ptrsem (porttab s' p)) \<and>
        ptssem (porttab s' p) \<noteq> ptrsem (porttab s' p) \<and> scount (semtab s' (ptssem (porttab s' p))) = n \<and>
        scount (semtab s' (ptrsem (porttab s' p))) = 0"
      using s'(9-11) by presburger
    ultimately show ?thesis unfolding if_P[OF True] using p(3) ok s'(2-5,12) by (intro exI[of _ p] exI[of _ s'] conjI) assumption+
  next
    case False
    have "ptcreate n s = Some (SYSERR, ?s)" using nxt(3) unfolding turn if_not_P[OF False] run .
    then show ?thesis unfolding if_not_P[OF False] using inv1 rep1 nxt(1,2) by (intro exI[of _ SYSERR] exI[of _ ?s]) simp
  qed
qed

section \<open>Start\<close>

lemma link_nodes_run:
  assumes "unat a + Suc n * 8 < 2 ^ 32" "4 dvd unat a" "a \<noteq> 0"
  shows "\<exists>m'. link_nodes n a m = Some m' \<and> nodes m' a (buf_addrs n 8 a) \<and>
    (\<forall>x. x \<notin> (\<lambda>y. y + 4) ` set (buf_addrs n 8 a) \<longrightarrow> m' x = m x)"
  using assms
proof (induction n arbitrary: a m)
  case 0
  have u4: "unat (a + 4) = unat a + 4" using 0(1) by (intro unat_add4) simp
  then have "a + 4 \<noteq> 0" "4 dvd unat (a + 4)" using 0(2) by (auto intro!: word_neq_unat)
  then show ?case by (auto simp: range_simps)
next
  case (Suc n)
  have u4: "unat (a + 4) = unat a + 4" using Suc.prems(1) by (intro unat_add4) simp
  have u: "unat (a + 8) = unat a + 8" using Suc.prems(1) unat_add[of a 8] by simp
  have nz: "a + 4 \<noteq> 0" "4 dvd unat (a + 4)" "a + 8 \<noteq> 0" "4 dvd unat (a + 8)"
    using Suc.prems(2) u4 u by (auto intro!: word_neq_unat)
  have fit: "unat (a + 8) + Suc n * 8 < 2 ^ 32" using Suc.prems(1) u by simp
  obtain m' where m': "link_nodes n (a + 8) (m(a + 4 := a + 8)) = Some m'" "nodes m' (a + 8) (buf_addrs n 8 (a + 8))"
    "\<forall>x. x \<notin> (\<lambda>y. y + 4) ` set (buf_addrs n 8 (a + 8)) \<longrightarrow> m' x = (m(a + 4 := a + 8)) x"
    using Suc.IH[OF fit nz(4,3), of "m(a + 4 := a + 8)"] by blast
  have "a \<notin> set (buf_addrs n 8 (a + 8))"
    using buf_addrs_in[of a n 8 "a + 8"] fit nz(4) u by auto
  then have "a + 4 \<notin> (\<lambda>y. y + 4) ` set (buf_addrs n 8 (a + 8))" by auto
  then have "m' (a + 4) = a + 8" using m'(3) by simp
  then show ?case using m' nz by (auto simp: range_simps)
qed

theorem ptinit_makes:
  assumes inv: "kinv s" and n: "1 \<le> n" "n < 2 ^ 28"
    and heap: "heap_of s xs" "ff_alloc (roundmb (word_of_int (n * 8))) xs = Some (a, ys)"
  shows "\<exists>s'. ptinit n s = Some (Done OK, s') \<and> kinv s' \<and> ports_rep s' (buf_addrs (nat (n - 1)) 8 a) (\<lambda>_. []) \<and>
    length (buf_addrs (nat (n - 1)) 8 a) = nat n \<and>
    (\<forall>p. \<not> isbadport p \<longrightarrow> ptstate (porttab s' p) = PT_FREE) \<and> ptnextid s' = 0 \<and> semtab s' = semtab s"
proof -
  let ?n = "word_of_int (n * 8) :: uint32"
  have un: "unat ?n = nat n * 8" using unat_word_of_int[of "n * 8"] n by (simp add: nat_mult_distrib)
  have n0: "?n \<noteq> 0" using un n by auto
  have n7: "unat ?n + 7 < 2 ^ 32" using un n by simp
  note A = alloc_fresh[OF inv heap n0 n7]
  obtain m1 where m1: "getmem_k ?n s = Some (a, s\<lparr>mem := m1\<rparr>)" "heap_of (s\<lparr>mem := m1\<rparr>) ys" using A(1) by blast
  have a4: "4 dvd unat a" by (rule dvd8_4[OF A(4)])
  let ?as = "buf_addrs (nat (n - 1)) 8 a"
  have u8: "unat (8 :: uint32) = 8" by simp
  have sn: "Suc (nat (n - 1)) * 8 = unat ?n" using n un by simp
  have fit: "unat a + Suc (nat (n - 1)) * 8 < 2 ^ 32" unfolding sn by (rule A(5))
  have fit8: "unat a + Suc (nat (n - 1)) * unat (8 :: uint32) < 2 ^ 32" using fit u8 by simp
  obtain m2 where m2: "link_nodes (nat (n - 1)) a m1 = Some m2" "nodes m2 a ?as"
    "\<forall>x. x \<notin> (\<lambda>y. y + 4) ` set ?as \<longrightarrow> m2 x = m1 x"
    using link_nodes_run[OF fit a4 A(3), of m1] by blast
  have bs: "unat a \<le> unat x" "unat x + 8 \<le> unat a + unat ?n" "8 dvd unat x" "unat (x + 4) = unat x + 4" if "x \<in> set ?as" for x
  proof -
    note B = buf_addrs_in[OF that fit8 a4]
    show "unat a \<le> unat x" "unat x + 8 \<le> unat a + unat ?n" using B sn by simp_all
    show "unat (x + 4) = unat x + 4" using B fit by (intro unat_add4) simp
    show "8 dvd unat x" by (rule buf_addrs_dvd[OF that fit8 A(4)]) simp
  qed
  define s' where "s' = s\<lparr>mem := m2\<rparr>\<lparr>ptfree := a, porttab := (\<lambda>i. if 0 \<le> i \<and> i < NPORTS then (porttab s i)\<lparr>ptstate := PT_FREE, ptseq := 0\<rparr> else porttab s i),
                ptnextid := 0\<rparr>"
  have "heap_rep (memlist s) (unat (minheap s)) (unat (maxheap s)) m2 ys"
  proof (rule heap_rep_frame[of _ _ _ m1])
    have far: "unat x \<notin> free_bytes ys \<and> x \<noteq> memlist s" if x: "x \<in> (\<lambda>y. y + 4) ` set ?as" for x
    proof -
      obtain y where y: "y \<in> set ?as" "x = y + 4" using x by blast
      have "unat a \<le> unat x" "unat x < unat a + unat ?n" using bs[OF y(1)] y(2) by simp_all
      then show ?thesis by (rule A(6))
    qed
    show "m2 (memlist s) = m1 (memlist s)" using m2(3) far by blast
    show "m2 x = m1 x" if "unat x \<in> free_bytes ys" for x using m2(3) far that by blast
  qed (use m1(2) in simp)
  then have rep': "heap_of s' ys" by (simp add: s'_def)
  then have "kheap (s\<lparr>mem := m2\<rparr>)" by (auto simp: kheap_def s'_def)
  then have inv': "kinv s'" using kinv_mem[OF inv] by (simp add: s'_def)
  have ok: "node_ok s' x" if "x \<in> set ?as" for x
  proof -
    have "busy s' x" "busy s' (x + 4)"
      by (rule A(7)[OF _ _ _ rep']; use bs[OF that] dvd8_4[OF bs(3)[OF that]] in \<open>simp add: s'_def\<close>)+
    then show ?thesis using bs(3)[OF that] by (simp add: node_ok_def)
  qed
  have "distinct ?as" by (rule buf_addrs_distinct[OF fit8 a4]) simp_all
  moreover have "\<not> port_live s' p" for p by (auto simp add: s'_def isbadport_def)
  moreover have "mem s' = m2" "ptfree s' = a" by (simp_all add: s'_def)
  ultimately have "ports_rep s' ?as (\<lambda>_. [])" using m2(2) ok by (simp add: ports_rep_def del: de_Morgan_conj)
  moreover have "ptinit n s = Some (Done OK, s')"
    using m1(1) A(2) m2(1) by (simp add: ptinit_def Let_def s'_def port_upd_comm cong: if_cong)
  ultimately show ?thesis using inv' buf_addrs_length[of "nat (n - 1)" 8 a] n
    by (intro exI[of _ s']) (simp add: s'_def isbadport_def)
qed

end
