(* ===== verification/Port_Sim.thy ===== *)
theory Port_Sim
  imports Ports Simulation
begin

text \<open>
  A port against its specification, a bounded queue of messages: calls that find room (a message)
  return at once, and messages come out in the order they went in.
\<close>

datatype port_call = Send uint32 | Recv

datatype port_reply = Sent int | Received uint32

text \<open>A whole call of a process that is not suspended in it: the part before the wait, then the rest.\<close>

fun port_step :: "int \<Rightarrow> port_call \<Rightarrow> 'z ustate_scheme \<Rightarrow> (port_reply \<times> 'z ustate_scheme) option" where
  "port_step p (Send m) s = do {
     (r, s') \<leftarrow> ptsend p m s;
     case (r, ukont s' (currpid s)) of
       (Done v, _) \<Rightarrow> Some (Sent v, s')
     | (Pending, Some (U_ptsend p seq m)) \<Rightarrow>
         if currpid s' \<noteq> currpid s then None
         else do { (r, s) \<leftarrow> ptsend_rest p seq m s'; (case r of Done v \<Rightarrow> Some (Sent v, s) | Pending \<Rightarrow> None) }
     | _ \<Rightarrow> None }"
| "port_step p Recv s = do {
     (r, s') \<leftarrow> ptrecv p s;
     case (r, ukont s' (currpid s)) of
       (Done v, _) \<Rightarrow> Some (Received v, s')
     | (Pending, Some (U_ptrecv p seq)) \<Rightarrow>
         if currpid s' \<noteq> currpid s then None
         else do { (v, s) \<leftarrow> ptrecv_rest p seq s'; Some (Received v, s) }
     | _ \<Rightarrow> None }"

text \<open>The specification's state: how many messages still fit, and the messages waiting.\<close>

fun port_spec :: "port_call \<Rightarrow> nat \<times> uint32 list \<Rightarrow> (port_reply \<times> nat \<times> uint32 list) option" where
  "port_spec (Send m) (n, ms) = (if n = 0 then None else Some (Sent OK, n - 1, ms @ [m]))"
| "port_spec Recv (n, ms) = (case ms of [] \<Rightarrow> None | m # ms \<Rightarrow> Some (Received m, n + 1, ms))"

definition port_is :: "int \<Rightarrow> 'z ustate_scheme \<Rightarrow> nat \<times> uint32 list \<Rightarrow> bool" where
  "port_is p s A \<longleftrightarrow> kinv s \<and> port_live s p \<and> sem_live s (ptssem (porttab s p)) \<and> sem_live s (ptrsem (porttab s p)) \<and>
     ptssem (porttab s p) \<noteq> ptrsem (porttab s p) \<and> scount (semtab s (ptssem (porttab s p))) = int (fst A) \<and>
     scount (semtab s (ptrsem (porttab s p))) = int (length (snd A)) \<and> int (fst A) + int (length (snd A)) < 2 ^ 31 - 1 \<and>
     (\<exists>F Q. ports_rep s F Q \<and> messages s (Q p) = snd A \<and> fst A \<le> length F)"

lemma ports_rep_sems [simp]:
  "ports_rep (s\<lparr>semtab := a\<rparr>) F Q = ports_rep s F Q" "ports_rep (s\<lparr>ukont := b\<rparr>) F Q = ports_rep s F Q"
  unfolding ports_rep_def node_ok_def by (simp_all add: busy_cong[of "s\<lparr>semtab := a\<rparr>" s])

lemma messages_sems [simp]:
  "messages (s\<lparr>semtab := a\<rparr>) xs = messages s xs" "messages (s\<lparr>ukont := b\<rparr>) xs = messages s xs"
  by (simp_all add: messages_def)

lemma send_sim:
  assumes "port_is p s (Suc n, ms)"
  shows "\<exists>s'. port_step p (Send m) s = Some (Sent OK, s') \<and> port_is p s' (n, ms @ [m])"
proof -
  let ?a = "ptssem (porttab s p)" and ?b = "ptrsem (porttab s p)" and ?seq = "ptseq (porttab s p)"
  obtain F Q where A: "kinv s" "port_live s p" "sem_live s ?a" "sem_live s ?b" "?a \<noteq> ?b"
    "scount (semtab s ?a) = int (Suc n)" "scount (semtab s ?b) = int (length ms)" "int (Suc n) + int (length ms) < 2 ^ 31 - 1"
    "ports_rep s F Q" "messages s (Q p) = ms" "Suc n \<le> length F" using assms by (auto simp: port_is_def)
  obtain f F' where F: "F = f # F'" "n \<le> length F'" using A(11) by (cases F) auto
  let ?s0 = "s\<lparr>ukont := (ukont s)(currpid s := Some (U_ptsend p ?seq m))\<rparr>"
  obtain s1 where s1: "wait ?a ?s0 = Some (OK, s1)" "kinv s1"
    "s1 = ?s0\<lparr>semtab := (semtab s)(?a := (semtab s ?a)\<lparr>scount := scount (semtab s ?a) - 1\<rparr>)\<rparr>"
    using wait_free[of ?s0 ?a] A by auto
  have p1: "port_live s1 p" "ptseq (porttab s1 p) = ?seq" "ports_rep s1 (f # F') Q" "porttab s1 = porttab s"
    using A(2,9) F s1(3) by simp_all
  obtain s2 where s2: "ptsend_rest p ?seq m s1 = do { (_, s) \<leftarrow> signal ?b s2; Some (Done OK, s) }" "kinv s2"
    "ports_rep s2 F' (Q(p := Q p @ [f]))" "messages s2 (Q p @ [f]) = messages s1 (Q p) @ [m]" "semtab s2 = semtab s1" "same_ports s1 s2"
    using ptsend_rest_links[OF s1(2) p1(3,1,2), of m] p1(4) by auto
  have sb: "sem_live s2 ?b" "scount (semtab s2 ?b) = int (length ms)" using A(4,5,7) s2(5) s1(3) by simp_all
  let ?s' = "s2\<lparr>semtab := (semtab s2)(?b := (semtab s2 ?b)\<lparr>scount := scount (semtab s2 ?b) + 1\<rparr>)\<rparr>"
  have sg: "signal ?b s2 = Some (OK, ?s')" by (rule signal_idle) (use sb A(8) in simp_all)
  have "kinv ?s'" using signal_inv[OF s2(2), of ?b] sb sg A(8) by auto
  moreover have E: "port_live s2 p" "ptssem (porttab s2 p) = ?a" "ptrsem (porttab s2 p) = ?b"
    using s2(6) A(2) p1(4) by (auto simp: same_ports_def)
  moreover have "messages ?s' ((Q(p := Q p @ [f])) p) = ms @ [m]" using s2(4) A(10) s1(3) by simp
  moreover have "ports_rep ?s' F' (Q(p := Q p @ [f]))" using s2(3) by simp
  ultimately have "port_is p ?s' (n, ms @ [m])"
    unfolding port_is_def using A(3-8) F(2) s2(5) s1(3) sb by (auto intro!: exI[of _ F'] exI[of _ "Q(p := Q p @ [f])"])
  moreover have "port_step p (Send m) s = Some (Sent OK, ?s')"
    using A(2) s1(1) s1(3) s2(1) sg by (simp add: ptsend_def Let_def)
  ultimately show ?thesis by blast
qed

lemma recv_sim:
  assumes "port_is p s (n, m # ms)"
  shows "\<exists>s'. port_step p Recv s = Some (Received m, s') \<and> port_is p s' (n + 1, ms)"
proof -
  let ?a = "ptssem (porttab s p)" and ?b = "ptrsem (porttab s p)" and ?seq = "ptseq (porttab s p)"
  obtain F Q where A: "kinv s" "port_live s p" "sem_live s ?a" "sem_live s ?b" "?a \<noteq> ?b"
    "scount (semtab s ?a) = int n" "scount (semtab s ?b) = int (Suc (length ms))" "int n + int (Suc (length ms)) < 2 ^ 31 - 1"
    "ports_rep s F Q" "messages s (Q p) = m # ms" "n \<le> length F" using assms by (auto simp: port_is_def)
  obtain x xs where q: "Q p = x # xs" "messages s xs = ms" using A(10) by (cases "Q p") (auto simp: messages_def)
  let ?s0 = "s\<lparr>ukont := (ukont s)(currpid s := Some (U_ptrecv p ?seq))\<rparr>"
  obtain s1 where s1: "wait ?b ?s0 = Some (OK, s1)" "kinv s1"
    "s1 = ?s0\<lparr>semtab := (semtab s)(?b := (semtab s ?b)\<lparr>scount := scount (semtab s ?b) - 1\<rparr>)\<rparr>"
    using wait_free[of ?s0 ?b] A by auto
  have p1: "port_live s1 p" "ptseq (porttab s1 p) = ?seq" "ports_rep s1 F Q" "porttab s1 = porttab s"
    using A(2,9) s1(3) by simp_all
  obtain s2 where s2: "ptrecv_rest p ?seq s1 = do { (_, s) \<leftarrow> signal ?a s2; Some (hd (messages s2 (Q p)), s) }" "kinv s2"
    "ports_rep s2 (x # F) (Q(p := xs))" "\<forall>r. messages s2 (Q r) = messages s1 (Q r)" "semtab s2 = semtab s1" "same_ports s1 s2"
    using ptrecv_rest_links[OF s1(2) p1(3) q(1) p1(1,2)] p1(4) by auto
  have m2: "messages s2 (Q p) = m # ms" using s2(4) A(10) s1(3) by simp
  then have m2': "messages s2 xs = ms" using q by (simp add: messages_def)
  have sa: "sem_live s2 ?a" "scount (semtab s2 ?a) = int n" using A(3,5,6) s2(5) s1(3) by simp_all
  let ?s' = "s2\<lparr>semtab := (semtab s2)(?a := (semtab s2 ?a)\<lparr>scount := scount (semtab s2 ?a) + 1\<rparr>)\<rparr>"
  have sg: "signal ?a s2 = Some (OK, ?s')" by (rule signal_idle) (use sa A(8) in simp_all)
  have "kinv ?s'" using signal_inv[OF s2(2), of ?a] sa sg A(8) by auto
  moreover have E: "port_live s2 p" "ptssem (porttab s2 p) = ?a" "ptrsem (porttab s2 p) = ?b"
    using s2(6) A(2) p1(4) by (auto simp: same_ports_def)
  moreover have "ports_rep ?s' (x # F) (Q(p := xs))" using s2(3) by simp
  ultimately have "port_is p ?s' (n + 1, ms)"
    unfolding port_is_def using A(3-8,11) s2(5) s1(3) sa m2' by (auto intro!: exI[of _ "x # F"] exI[of _ "Q(p := xs)"])
  moreover have "port_step p Recv s = Some (Received m, ?s')"
    using A(2) s1(1) s1(3) s2(1) sg m2 by (simp add: ptrecv_def Let_def)
  ultimately show ?thesis by blast
qed

interpretation port: simulation "port_is p" "port_step p" port_spec for p
proof unfold_locales
  fix s A c r A'
  assume R: "port_is p s A" and spec: "port_spec c A = Some (r, A')"
  obtain n ms where A: "A = (n, ms)" by (cases A)
  show "\<exists>s'. port_step p c s = Some (r, s') \<and> port_is p s' A'"
  proof (cases c)
    case (Send m)
    then obtain k where "n = Suc k" "r = Sent OK" "A' = (k, ms @ [m])" using spec A by (cases n) auto
    then show ?thesis using send_sim[of p s k ms m] R A Send by simp
  next
    case Recv
    then obtain m ms' where "ms = m # ms'" "r = Received m" "A' = (n + 1, ms')" using spec A by (cases ms) auto
    then show ?thesis using recv_sim[of p s n m ms'] R A Recv by simp
  qed
qed

text \<open>A port just created is an empty queue.\<close>

lemma ptcreate_port_is:
  assumes inv: "kinv s" and rep: "ports_rep s F Q" and n: "0 \<le> n" "nat n \<le> length F" "n < 2 ^ 31 - 1"
    and nx: "0 \<le> ptnextid s" "ptnextid s < NPORTS"
    and ex: "\<exists>p. \<not> isbadport p \<and> ptstate (porttab s p) = PT_FREE" "spare_sems s"
  shows "\<exists>p s'. ptcreate n s = Some (p, s') \<and> port_is p s' (nat n, []) \<and> ptmaxcnt (porttab s' p) = n mod 2 ^ 16"
proof -
  have n': "n < 2 ^ 31" using n by simp
  from ptcreate_makes[OF inv rep n(1) n' nx, unfolded if_P[OF ex(1)]] ex(2) obtain p s'
    where s': "ptcreate n s = Some (p, s')" "kinv s'" "ports_rep s' F Q" "port_live s' p" "Q p = []"
      "sem_live s' (ptssem (porttab s' p))" "sem_live s' (ptrsem (porttab s' p))" "ptssem (porttab s' p) \<noteq> ptrsem (porttab s' p)"
      "scount (semtab s' (ptssem (porttab s' p))) = n" "scount (semtab s' (ptrsem (porttab s' p))) = 0"
    "ptmaxcnt (porttab s' p) = n mod 2 ^ 16" by blast
  have "\<exists>F Q. ports_rep s' F Q \<and> messages s' (Q p) = [] \<and> nat n \<le> length F"
    using s'(3,5) n(2) by (intro exI[of _ F] exI[of _ Q]) (simp add: messages_def)
  then have "port_is p s' (nat n, [])" unfolding port_is_def using s' n by simp
  then show ?thesis using s'(1,11) by blast
qed

text \<open>Sending \<open>ms\<close> and then receiving as often yields \<open>ms\<close> again, behind what was there.\<close>

lemma spec_sends: "length ms \<le> n \<Longrightarrow> run port_spec (map Send ms) (n, xs) = Some (map (\<lambda>_. Sent OK) ms, n - length ms, xs @ ms)"
  by (induction ms arbitrary: n xs) auto

lemma spec_recvs: "run port_spec (map (\<lambda>_. Recv) xs) (n, xs @ ys) = Some (map Received xs, n + length xs, ys)"
  by (induction xs arbitrary: n) auto

end
