(* ===== verification/Tty.thy ===== *)
theory Tty
  imports Upper_State
begin

unbundle bit_operations_syntax

text \<open>
  The console driver (\<^verbatim>\<open>device/tty\<close>) on the one tty line the system has (\<open>Ntty\<close> is 1). Characters
  arrive by interrupt, are edited and echoed by \<open>ttyhandle_in\<close> and wait in the input ring, counted
  by the semaphore \<open>tyisem\<close>; \<open>ttyputc\<close> puts characters into the output ring, whose free places
  \<open>tyosem\<close> counts, and \<open>ttyhandle_out\<close> moves echoed characters first and then output to the UART.

  A pointer into a ring is its offset from the first character; access outside the ring is undefined
  (\<open>None\<close>). \<open>char\<close> is unsigned. Upper-half routines wait on a semaphore in the middle; what comes after
  is the corresponding \<open>_rest\<close>.
\<close>

section \<open>Constants\<close>

abbreviation (input) TY_IBUFLEN :: int where "TY_IBUFLEN \<equiv> 128"
abbreviation (input) TY_OBUFLEN :: int where "TY_OBUFLEN \<equiv> 64"
abbreviation (input) TY_EBUFLEN :: int where "TY_EBUFLEN \<equiv> 20"
abbreviation (input) UART_FIFO_SIZE :: int where "UART_FIFO_SIZE \<equiv> 64"
abbreviation (input) EOF :: int where "EOF \<equiv> - 2"
abbreviation (input) TY_BACKSP :: byte where "TY_BACKSP \<equiv> 8"
abbreviation (input) TY_BELL :: byte where "TY_BELL \<equiv> 7"
abbreviation (input) TY_EOFCH :: byte where "TY_EOFCH \<equiv> 4"
abbreviation (input) TY_BLANK :: byte where "TY_BLANK \<equiv> 32"
abbreviation (input) TY_NEWLINE :: byte where "TY_NEWLINE \<equiv> 10"
abbreviation (input) TY_RETURN :: byte where "TY_RETURN \<equiv> 13"
abbreviation (input) TY_STOPCH :: byte where "TY_STOPCH \<equiv> 19"
abbreviation (input) TY_STRTCH :: byte where "TY_STRTCH \<equiv> 17"
abbreviation (input) TY_KILLCH :: byte where "TY_KILLCH \<equiv> 21"
abbreviation (input) TY_UPARROW :: byte where "TY_UPARROW \<equiv> 94"
abbreviation (input) DEL :: byte where "DEL \<equiv> 127"

section \<open>The rings\<close>

text \<open>\<open>*typtr->tyitail++ = ch\<close> and the like; the wrap is a statement of its own in the source.\<close>

definition set_tty :: "(ttycblk \<Rightarrow> ttycblk) \<Rightarrow> 'z ustate_scheme \<Rightarrow> 'z ustate_scheme" where
  "set_tty f s = s\<lparr>tty := f (tty s)\<rparr>"

definition i_put :: "byte \<Rightarrow> 'z ustate_scheme \<Rightarrow> 'z ustate_scheme option" where
  "i_put ch s =
     (let t = tty s; a = tyitail t in
      if 0 \<le> a \<and> a < TY_IBUFLEN
      then Some (s\<lparr>tty := t\<lparr>tyibuff := (tyibuff t)(a := ch), tyitail := a + 1\<rparr>\<rparr>) else None)"

definition i_wrap :: "'z ustate_scheme \<Rightarrow> 'z ustate_scheme" where
  "i_wrap s = (if tyitail (tty s) \<ge> TY_IBUFLEN then set_tty (\<lambda>t. t\<lparr>tyitail := 0\<rparr>) s else s)"

definition ttykickout :: "'z ustate_scheme \<Rightarrow> 'z ustate_scheme" where
  "ttykickout s = s\<lparr>uart := (uart s)\<lparr>ier := 0x01 OR 0x02\<rparr>\<rparr>"

section \<open>Input\<close>

definition eputc :: "byte \<Rightarrow> 'z ustate_scheme \<Rightarrow> 'z ustate_scheme option" where
  "eputc ch s =
     (let t = tty s; a = tyetail t in
      if 0 \<le> a \<and> a < TY_EBUFLEN
      then Some (ttykickout (s\<lparr>tty := t\<lparr>tyebuff := (tyebuff t)(a := ch),
             tyetail := (if a + 1 \<ge> TY_EBUFLEN then 0 else a + 1)\<rparr>\<rparr>))
      else None)"

fun eputs :: "byte list \<Rightarrow> 'z ustate_scheme \<Rightarrow> 'z ustate_scheme option" where
  "eputs [] s = Some s"
| "eputs (c # cs) s = (case eputc c s of None \<Rightarrow> None | Some s \<Rightarrow> eputs cs s)"

text \<open>\<open>echoch\<close> and \<open>erase1\<close> are sequences of \<open>eputc\<close> calls that depend on the modes only.\<close>

definition echo_of :: "byte \<Rightarrow> ttycblk \<Rightarrow> byte list" where
  "echo_of ch t =
     (if (ch = TY_NEWLINE \<or> ch = TY_RETURN) \<and> tyecrlf t then [TY_RETURN, TY_NEWLINE]
      else if (ch < TY_BLANK \<or> ch = DEL) \<and> tyevis t then [TY_UPARROW, ch + 64]
      else [ch])"

definition echoch :: "byte \<Rightarrow> 'z ustate_scheme \<Rightarrow> 'z ustate_scheme option" where
  "echoch ch s = eputs (echo_of ch (tty s)) s"

definition erase_of :: "byte \<Rightarrow> ttycblk \<Rightarrow> byte list" where
  "erase_of ch t =
     (let rub = (if tyieback t then [TY_BLANK, TY_BACKSP] else []) in
      if \<not> tyiecho t then []
      else if ch < TY_BLANK \<or> ch = DEL
      then (if tyevis t then TY_BACKSP # rub else []) @ TY_BACKSP # rub
      else TY_BACKSP # rub)"

definition erase1 :: "'z ustate_scheme \<Rightarrow> 'z ustate_scheme option" where
  "erase1 s = do {
     let a = tyitail (tty s) - 1;
     let a = (if a < 0 then a + TY_IBUFLEN else a);
     let s = set_tty (\<lambda>t. t\<lparr>tyitail := a\<rparr>) s;
     if 0 \<le> a \<and> a < TY_IBUFLEN then eputs (erase_of (tyibuff (tty s) a) (tty s)) s else None }"

definition avail_in :: "'z ustate_scheme \<Rightarrow> int" where
  "avail_in s = (let avail = semcount (tyisem (tty s)) s in if avail < 0 then 0 else avail)"

text \<open>Raw mode. The wrap looks at the output ring.\<close>

definition handle_raw :: "byte \<Rightarrow> 'z ustate_scheme \<Rightarrow> 'z ustate_scheme option" where
  "handle_raw ch s =
     (if avail_in s \<ge> TY_IBUFLEN then Some s
      else do {
        s \<leftarrow> i_put ch s;
        let s = (if tyotail (tty s) \<ge> TY_OBUFLEN then set_tty (\<lambda>t. t\<lparr>tyotail := 0\<rparr>) s else s);
        (_, s) \<leftarrow> signal (tyisem (tty s)) s;
        Some s })"

definition handle_cbreak :: "byte \<Rightarrow> 'z ustate_scheme \<Rightarrow> 'z ustate_scheme option" where
  "handle_cbreak ch s =
     (if avail_in s \<ge> TY_IBUFLEN then eputc (tyifullc (tty s)) s
      else do {
        s \<leftarrow> i_put ch s;
        let s = i_wrap s;
        if tyiecho (tty s) then echoch ch s else Some s })"

definition handle_cooked :: "byte \<Rightarrow> 'z ustate_scheme \<Rightarrow> 'z ustate_scheme option" where
  "handle_cooked ch s =
     (let t = tty s in
      if ch = tyikillc t \<and> tyikill t
      then do {
        let s = set_tty (\<lambda>t. t\<lparr>tyitail := tyitail t - tyicursor t\<rparr>) s;
        let s = (if tyitail (tty s) < 0 then set_tty (\<lambda>t. t\<lparr>tyihead := tyihead t + TY_IBUFLEN\<rparr>) s else s);
        let s = set_tty (\<lambda>t. t\<lparr>tyicursor := 0\<rparr>) s;
        eputs [TY_RETURN, TY_NEWLINE] s }
      else if ch = tyierasec t \<and> tyierase t
      then (if tyicursor t > 0 then erase1 (set_tty (\<lambda>t. t\<lparr>tyicursor := tyicursor t - 1\<rparr>) s) else Some s)
      else if ch = TY_NEWLINE \<or> ch = TY_RETURN
      then do {
        s \<leftarrow> (if tyiecho t then echoch ch s else Some s);
        s \<leftarrow> i_put ch s;
        let s = i_wrap s;
        (_, s) \<leftarrow> signaln (tyisem (tty s)) (tyicursor (tty s) + 1) s;
        Some (set_tty (\<lambda>t. t\<lparr>tyicursor := 0\<rparr>) s) }
      else if avail_in s + tyicursor t \<ge> TY_IBUFLEN - 1 then eputc (tyifullc t) s
      else if ch = tyeofch t \<and> tyeof t
      then do {
        s \<leftarrow> (if tyiecho t then echoch ch s else Some s);
        if tyicursor t \<noteq> 0 then Some s
        else do {
          s \<leftarrow> i_put ch s;
          (_, s) \<leftarrow> signal (tyisem (tty s)) s;
          Some s } }
      else do {
        s \<leftarrow> (if tyiecho t then echoch ch s else Some s);
        let s = set_tty (\<lambda>t. t\<lparr>tyicursor := tyicursor t + 1\<rparr>) s;
        s \<leftarrow> i_put ch s;
        Some (i_wrap s) })"

text \<open>\<open>ttyhandle_in\<close>: one character from the UART, which has one (\<open>rx\<close> is not empty).\<close>

definition ttyhandle_in :: "'z ustate_scheme \<Rightarrow> 'z ustate_scheme option" where
  "ttyhandle_in s =
     (case rx (uart s) of
        [] \<Rightarrow> None
      | ch # rest \<Rightarrow>
        (let s = s\<lparr>uart := (uart s)\<lparr>rx := rest\<rparr>\<rparr>; t = tty s in
         if tyimode t = TY_IMRAW then handle_raw ch s
         else
           (let ch = (if ch = TY_RETURN \<and> tyicrlf t then TY_NEWLINE else ch) in
            if tyoflow t \<and> ch = tyostart t then Some (ttykickout (set_tty (\<lambda>t. t\<lparr>tyoheld := False\<rparr>) s))
            else if tyoflow t \<and> ch = tyostop t then Some (set_tty (\<lambda>t. t\<lparr>tyoheld := True\<rparr>) s)
            else
              (let s = set_tty (\<lambda>t. t\<lparr>tyoheld := False\<rparr>) s in
               if tyimode t = TY_IMCBREAK then handle_cbreak ch s else handle_cooked ch s))))"

text \<open>\<open>ttygetc\<close>; the value of \<open>(devcall)ch\<close> is between 0 and 255.\<close>

definition ttygetc :: "ucont \<Rightarrow> 'z ustate_scheme \<Rightarrow> 'z ustate_scheme option" where
  "ttygetc k s = do {
     (_, s) \<leftarrow> wait (tyisem (tty s)) (s\<lparr>ukont := (ukont s)(currpid s := Some k)\<rparr>);
     Some s }"

definition ttygetc_rest :: "'z ustate_scheme \<Rightarrow> (int \<times> 'z ustate_scheme) option" where
  "ttygetc_rest s =
     (let t = tty s; a = tyihead t in
      if 0 \<le> a \<and> a < TY_IBUFLEN
      then
        (let ch = tyibuff t a;
             s = set_tty (\<lambda>t. t\<lparr>tyihead := (if a + 1 \<ge> TY_IBUFLEN then 0 else a + 1)\<rparr>) s in
         Some (if tyimode t = TY_IMCOOKED \<and> tyeof t \<and> ch = tyeofch t then EOF else uint ch, s))
      else None)"

section \<open>Reading\<close>

text \<open>\<open>ttyread\<close>: the result is the return value and the characters stored in the caller's buffer.
  \<open>ttyread_next\<close> is the loop test, followed by the next \<open>ttygetc\<close>.\<close>

definition ttyread_next :: "ttyread_at \<Rightarrow> 'z ustate_scheme \<Rightarrow> ((int \<times> byte list) outcome \<times> 'z ustate_scheme) option" where
  "ttyread_next at s =
     (if (case at of Read_raw n c acc \<Rightarrow> n < c
                   | Read_first c \<Rightarrow> True
                   | Read_line n c acc \<Rightarrow> n < c \<and> last acc \<noteq> TY_NEWLINE \<and> last acc \<noteq> TY_RETURN)
      then do { s \<leftarrow> ttygetc (U_ttyread at) s; Some (Pending, s) }
      else Some (Done (rd_nread at, rd_acc at), s))"

definition ttyread :: "int \<Rightarrow> 'z ustate_scheme \<Rightarrow> ((int \<times> byte list) outcome \<times> 'z ustate_scheme) option" where
  "ttyread count s =
     (if count < 0 then Some (Done (SYSERR, []), s)
      else if tyimode (tty s) \<noteq> TY_IMCOOKED
      then
        (let avail = semcount (tyisem (tty s)) s in
         if count = 0 \<and> avail = 0 then Some (Done (0, []), s)
         else ttyread_next (Read_raw 0 (if count = 0 then avail else count) []) s)
      else ttyread_next (Read_first count) s)"

definition ttyread_rest :: "ttyread_at \<Rightarrow> 'z ustate_scheme \<Rightarrow> ((int \<times> byte list) outcome \<times> 'z ustate_scheme) option" where
  "ttyread_rest at s = do {
     (v, s) \<leftarrow> ttygetc_rest s;
     case at of
       Read_raw n c acc \<Rightarrow> ttyread_next (Read_raw (n + 1) c (acc @ [word_of_int v])) s
     | Read_first c \<Rightarrow>
         if v = EOF then Some (Done (EOF, []), s) else ttyread_next (Read_line 1 c [word_of_int v]) s
     | Read_line n c acc \<Rightarrow> ttyread_next (Read_line (n + 1) c (acc @ [word_of_int v])) s }"

section \<open>Writing\<close>

text \<open>The characters \<open>ttywrite\<close> still has to hand to \<open>ttyputc\<close>, in order; the flag marks one whose
  carriage return has been sent already.\<close>

definition ttyputs :: "(bool \<times> byte) list \<Rightarrow> 'z ustate_scheme \<Rightarrow> (int outcome \<times> 'z ustate_scheme) option" where
  "ttyputs todo s =
     (case todo of
        [] \<Rightarrow> Some (Done OK, s)
      | (sent, ch) # todo \<Rightarrow>
        (let (ch, todo) = (if \<not> sent \<and> ch = TY_NEWLINE \<and> tyocrlf (tty s) then (TY_RETURN, (True, ch) # todo) else (ch, todo)) in
         do {
           (_, s) \<leftarrow> wait (tyosem (tty s)) (s\<lparr>ukont := (ukont s)(currpid s := Some (U_ttyputc ch todo))\<rparr>);
           Some (Pending, s) }))"

definition ttyputs_rest :: "byte \<Rightarrow> (bool \<times> byte) list \<Rightarrow> 'z ustate_scheme \<Rightarrow> (int outcome \<times> 'z ustate_scheme) option" where
  "ttyputs_rest ch todo s =
     (let t = tty s; a = tyotail t in
      if 0 \<le> a \<and> a < TY_OBUFLEN
      then
        (let s = s\<lparr>tty := t\<lparr>tyobuff := (tyobuff t)(a := ch), tyotail := (if a + 1 \<ge> TY_OBUFLEN then 0 else a + 1)\<rparr>\<rparr> in
         ttyputs todo (ttykickout s))
      else None)"

definition ttyputc :: "byte \<Rightarrow> 'z ustate_scheme \<Rightarrow> (int outcome \<times> 'z ustate_scheme) option" where
  "ttyputc ch s = ttyputs [(False, ch)] s"

definition ttywrite :: "byte list \<Rightarrow> int \<Rightarrow> 'z ustate_scheme \<Rightarrow> (int outcome \<times> 'z ustate_scheme) option" where
  "ttywrite buff count s =
     (if count < 0 then Some (Done SYSERR, s)
      else if count = 0 then Some (Done OK, s)
      else ttyputs (map (Pair False) (take (nat count) buff)) s)"

section \<open>Output\<close>

fun xmit_echo :: "nat \<Rightarrow> 'z ustate_scheme \<Rightarrow> (nat \<times> 'z ustate_scheme) option" where
  "xmit_echo 0 s = Some (0, s)"
| "xmit_echo (Suc uspace) s =
     (let t = tty s; a = tyehead t in
      if a = tyetail t then Some (Suc uspace, s)
      else if 0 \<le> a \<and> a < TY_EBUFLEN
      then xmit_echo uspace (s\<lparr>uart := (uart s)\<lparr>tx := tx (uart s) @ [tyebuff t a]\<rparr>,
             tty := t\<lparr>tyehead := (if a + 1 \<ge> TY_EBUFLEN then 0 else a + 1)\<rparr>\<rparr>)
      else None)"

fun xmit_out :: "nat \<Rightarrow> 'z ustate_scheme \<Rightarrow> 'z ustate_scheme option" where
  "xmit_out 0 s = Some s"
| "xmit_out (Suc n) s =
     (let t = tty s; a = tyohead t in
      if 0 \<le> a \<and> a < TY_OBUFLEN
      then xmit_out n (s\<lparr>uart := (uart s)\<lparr>tx := tx (uart s) @ [tyobuff t a]\<rparr>,
             tty := t\<lparr>tyohead := (if a + 1 \<ge> TY_OBUFLEN then 0 else a + 1)\<rparr>\<rparr>)
      else None)"

definition all_sent :: "'z ustate_scheme \<Rightarrow> bool" where
  "all_sent s \<longleftrightarrow> tyehead (tty s) = tyetail (tty s) \<and> semcount (tyosem (tty s)) s \<ge> TY_OBUFLEN"

definition out_intr_off :: "'z ustate_scheme \<Rightarrow> 'z ustate_scheme" where
  "out_intr_off s = s\<lparr>uart := (uart s)\<lparr>ier := ier (uart s) AND NOT 0x02\<rparr>\<rparr>"

definition ttyhandle_out :: "'z ustate_scheme \<Rightarrow> 'z ustate_scheme option" where
  "ttyhandle_out s =
     (if tyoheld (tty s) then Some s
      else if all_sent s then Some (out_intr_off s)
      else do {
        let uspace = nat (UART_FIFO_SIZE - txfifo_lvl (uart s));
        (uspace, s) \<leftarrow> xmit_echo uspace s;
        let avail = nat (TY_OBUFLEN - semcount (tyosem (tty s)) s);
        let ochars = min uspace avail;
        s \<leftarrow> xmit_out ochars s;
        s \<leftarrow> (if ochars > 0 then map_option snd (signaln (tyosem (tty s)) (int ochars) s) else Some s);
        Some (if all_sent s then out_intr_off s else s) })"

section \<open>Interrupts\<close>

text \<open>\<open>ttyhandler\<close>: \<open>iir\<close> and \<open>brk\<close> (the break bit of \<open>lsr\<close>) are what the UART's registers say. The
  loop on received characters ends when there is none left.\<close>

partial_function (option) drain_rx :: "'z ustate_scheme \<Rightarrow> 'z ustate_scheme option" where
  "drain_rx s = (if rx (uart s) = [] then Some s else (case ttyhandle_in s of None \<Rightarrow> None | Some s \<Rightarrow> drain_rx s))"

definition ttyhandler :: "uint32 \<Rightarrow> bool \<Rightarrow> 'z ustate_scheme \<Rightarrow> 'z ustate_scheme option" where
  "ttyhandler iir brk s =
     (if iir AND 0x01 \<noteq> 0 then Some s
      else
        (let iir = iir AND 0x0E in
         if iir = 0x06 then Some (if brk then s\<lparr>uart := (uart s)\<lparr>rx := drop 1 (rx (uart s))\<rparr>\<rparr> else s)
         else if iir = 0x04 \<or> iir = 0x0C
         then do {
           (_, s) \<leftarrow> resched_cntl DEFER_START s;
           s \<leftarrow> drain_rx s;
           (_, s) \<leftarrow> resched_cntl DEFER_STOP s;
           Some s }
         else if iir = 0x02 then ttyhandle_out s
         else Some s))"

section \<open>Control\<close>

definition ttycontrol :: "int \<Rightarrow> int \<Rightarrow> int \<Rightarrow> 'z ustate_scheme \<Rightarrow> (int outcome \<times> 'z ustate_scheme) option" where
  "ttycontrol func arg1 arg2 s =
     (if func = 3 then do { s \<leftarrow> ttygetc U_ttynextc s; Some (Pending, s) }
      else if func = 4 then Some (Done OK, set_tty (\<lambda>t. t\<lparr>tyimode := TY_IMRAW\<rparr>) s)
      else if func = 5 then Some (Done OK, set_tty (\<lambda>t. t\<lparr>tyimode := TY_IMCOOKED\<rparr>) s)
      else if func = 6 then Some (Done OK, set_tty (\<lambda>t. t\<lparr>tyimode := TY_IMCBREAK\<rparr>) s)
      else if func = 8 then Some (Done (semcount (tyisem (tty s)) s), s)
      else if func = 9 then Some (Done OK, set_tty (\<lambda>t. t\<lparr>tyiecho := True\<rparr>) s)
      else if func = 10 then Some (Done OK, set_tty (\<lambda>t. t\<lparr>tyiecho := False\<rparr>) s)
      else Some (Done SYSERR, s))"

definition ttynextc_rest :: "'z ustate_scheme \<Rightarrow> (int \<times> 'z ustate_scheme) option" where
  "ttynextc_rest s =
     (let t = tty s; a = tyitail t in
      if 0 \<le> a \<and> a < TY_IBUFLEN
      then do { (_, s) \<leftarrow> signal (tyisem t) s; Some (uint (tyibuff t a), s) }
      else None)"

section \<open>Start\<close>

definition set_evec :: "int \<Rightarrow> uint32 \<Rightarrow> 'z ustate_scheme \<Rightarrow> int \<times> 'z ustate_scheme" where
  "set_evec xnum handler s =
     (if xnum > 127 then (SYSERR, s)
      else
        (OK, s\<lparr>intc_vector := (intc_vector s)(xnum := handler),
               mir := (mir s)(xnum div 32 := mir s (xnum div 32) AND NOT (push_bit (nat (xnum mod 32)) 1))\<rparr>))"

definition ttyinit_modes :: "int \<Rightarrow> ttycblk \<Rightarrow> ttycblk" where
  "ttyinit_modes osem t = t\<lparr>tyosem := osem, tyehead := 0, tyetail := 0, tyimode := TY_IMCOOKED, tyiecho := True,
     tyieback := True, tyevis := True, tyecrlf := True, tyicrlf := True, tyierase := True, tyierasec := TY_BACKSP,
     tyeof := True, tyeofch := TY_EOFCH, tyikill := True, tyikillc := TY_KILLCH, tyicursor := 0, tyoflow := True,
     tyoheld := False, tyostop := TY_STOPCH, tyostart := TY_STRTCH, tyocrlf := True, tyifullc := TY_BELL\<rparr>"

definition ttyinit_uart :: "int \<Rightarrow> uint32 \<Rightarrow> 'z ustate_scheme \<Rightarrow> 'z ustate_scheme" where
  "ttyinit_uart dvirq dvintr s =
     (let s = s\<lparr>uart := (uart s)\<lparr>lcr := 0x80, dlm := 0, dll := 26\<rparr>\<rparr>;
          s = s\<lparr>uart := (uart s)\<lparr>lcr := 0x03, fcr := 0\<rparr>\<rparr>;
          (_, s) = set_evec dvirq dvintr s;
          s = s\<lparr>uart := (uart s)\<lparr>fcr := 0x01 OR 0x02 OR 0x04 OR 0x80, mdr1 := 0\<rparr>\<rparr> in
      ttykickout s)"

definition ttyinit :: "int \<Rightarrow> uint32 \<Rightarrow> 'z ustate_scheme \<Rightarrow> (int \<times> 'z ustate_scheme) option" where
  "ttyinit dvirq dvintr s = do {
     let s = set_tty (\<lambda>t. t\<lparr>tyihead := 0, tyitail := 0\<rparr>) s;
     (isem, s) \<leftarrow> semcreate 0 s;
     let s = set_tty (\<lambda>t. t\<lparr>tyisem := isem, tyohead := 0, tyotail := 0\<rparr>) s;
     (osem, s) \<leftarrow> semcreate TY_OBUFLEN s;
     Some (OK, ttyinit_uart dvirq dvintr (set_tty (ttyinit_modes osem) s)) }"

end
