(* ===== verification/Ring.thy ===== *)
theory Ring
  imports Xinu_Base
begin

text \<open>
  Ring buffers: \<open>ring n b h t xs\<close> says that the buffer \<open>b\<close> of \<open>n\<close> places holds \<open>xs\<close> from its head \<open>h\<close> up to
  its tail \<open>t\<close>. The tty driver has three of them.
\<close>

definition ring :: "int \<Rightarrow> (int \<Rightarrow> 'b) \<Rightarrow> int \<Rightarrow> int \<Rightarrow> 'b list \<Rightarrow> bool" where
  "ring n b h t xs \<longleftrightarrow> 0 \<le> h \<and> h < n \<and> int (length xs) \<le> n \<and> t = (h + int (length xs)) mod n \<and>
     (\<forall>i < length xs. b ((h + int i) mod n) = xs ! i)"

definition wrap :: "int \<Rightarrow> int \<Rightarrow> int" where
  "wrap n a = (if a + 1 \<ge> n then 0 else a + 1)"

lemma wrap_mod: "0 \<le> a \<Longrightarrow> a < n \<Longrightarrow> wrap n a = (a + 1) mod n"
  by (cases "a + 1 = n") (auto simp: wrap_def)

lemma wrap_range: "0 \<le> a \<Longrightarrow> a < n \<Longrightarrow> 0 \<le> wrap n a \<and> wrap n a < n"
  by (simp add: wrap_def)

lemma ringD:
  assumes "ring n b h t xs"
  shows "0 \<le> h" "h < n" "0 \<le> t" "t < n" "int (length xs) \<le> n" "t = (h + int (length xs)) mod n"
    "i < length xs \<Longrightarrow> b ((h + int i) mod n) = xs ! i"
  using assms by (auto simp: ring_def)

lemma ring_empty: "0 \<le> h \<Longrightarrow> h < n \<Longrightarrow> ring n b h h []"
  by (simp add: ring_def)

lemma ring_slot:
  assumes "0 \<le> h" "h < (n :: int)" "0 \<le> i" "i < j" "j < n"
  shows "(h + i) mod n \<noteq> (h + j) mod n"
proof
  assume "(h + i) mod n = (h + j) mod n"
  then have "n dvd (h + j) - (h + i)" by (metis mod_eq_dvd_iff)
  then have "n dvd j - i" by simp
  moreover have "0 < j - i" "j - i < n" using assms by auto
  ultimately show False using zdvd_imp_le by force
qed

lemma ring_put:
  assumes r: "ring n b h t xs" and room: "int (length xs) < n"
  shows "ring n (b(t := c)) h (wrap n t) (xs @ [c])"
proof -
  note R = ringD[OF r]
  have "wrap n t = (h + int (length (xs @ [c]))) mod n"
    using wrap_mod[OF R(3,4)] R(6) by (simp add: mod_simps algebra_simps)
  moreover have "(b(t := c)) ((h + int i) mod n) = (xs @ [c]) ! i" if "i < length (xs @ [c])" for i
  proof (cases "i = length xs")
    case False
    then have i: "i < length xs" using that by simp
    have "(h + int i) mod n \<noteq> t" unfolding R(6) by (rule ring_slot) (use R i room in auto)
    then show ?thesis using R(7)[OF i] i by (simp add: nth_append)
  qed (simp add: R(6))
  ultimately show ?thesis using R(1,2) room by (simp add: ring_def)
qed

lemma ring_get:
  assumes r: "ring n b h t (x # xs)"
  shows "b h = x" "ring n b (wrap n h) t xs"
proof -
  note R = ringD[OF r]
  show "b h = x" using R(7)[of 0] R(1,2) by simp
  have "(wrap n h + int i) mod n = (h + int (Suc i)) mod n" for i
    unfolding wrap_mod[OF R(1,2)] by (simp add: mod_simps algebra_simps)
  then show "ring n b (wrap n h) t xs"
    using R(5,6) R(7)[of "Suc _"] wrap_range[OF R(1,2)] by (simp add: ring_def)
qed

text \<open>Taking back the character put last.\<close>

lemma ring_unput:
  assumes r: "ring n b h t (xs @ [c])"
  defines "a \<equiv> (if t - 1 < 0 then t - 1 + n else t - 1)"
  shows "b a = c" "ring n b h a xs" "0 \<le> a" "a < n"
proof -
  note R = ringD[OF r]
  have "a = (t - 1) mod n"
  proof (cases "t = 0")
    case True
    have "(- 1) mod n = n - 1" using zmod_minus1[of n] R(1,2) by simp
    then show ?thesis using True by (simp add: a_def)
  qed (use R(3,4) in \<open>simp add: a_def\<close>)
  then have a: "a = (h + int (length xs)) mod n" using R(6) by (simp add: mod_simps)
  show "b a = c" unfolding a using R(7)[of "length xs"] by simp
  show "ring n b h a xs" using a R(1,2,5) R(7) by (auto simp: ring_def nth_append)
  show "0 \<le> a" "a < n" unfolding a using R(1,2) by simp_all
qed

lemma ring_full_or_empty: "ring n b h t xs \<Longrightarrow> int (length xs) < n \<Longrightarrow> h = t \<longleftrightarrow> xs = []"
  using ring_slot[of h n 0 "int (length xs)"] by (cases "xs = []") (auto simp: ring_def)

end
