(* ===== verification/Tty_In.thy ===== *)
theory Tty_In
  imports Tty Ring Simulation
begin

text \<open>
  The input side of the console: what each kind of key does to the input ring, to the echo ring and to the semaphore,
  in the mode the line starts in. The characters are two lists, the complete lines a reader may take and the line being
  edited.
\<close>

section \<open>The driver's state\<close>

definition line_modes :: "ttycblk \<Rightarrow> bool" where
  "line_modes t \<longleftrightarrow> tyimode t = TY_IMCOOKED \<and> tyicrlf t \<and> tyierase t \<and> tyierasec t = TY_BACKSP \<and> tyeof t \<and>
     tyeofch t = TY_EOFCH \<and> tyikill t \<and> tyikillc t = TY_KILLCH \<and> tyoflow t \<and> tyostop t = TY_STOPCH \<and>
     tyostart t = TY_STRTCH"

definition line_ring :: "ttycblk \<Rightarrow> byte list \<Rightarrow> byte list \<Rightarrow> bool" where
  "line_ring t A L \<longleftrightarrow> ring TY_IBUFLEN (tyibuff t) (tyihead t) (tyitail t) (A @ L) \<and> tyicursor t = int (length L) \<and>
     0 \<le> tyetail t \<and> tyetail t < TY_EBUFLEN \<and> line_modes t"

abbreviation isem :: "'z ustate_scheme \<Rightarrow> int" where
  "isem s \<equiv> tyisem (tty s)"

definition line_is :: "'z ustate_scheme \<Rightarrow> byte list \<Rightarrow> byte list \<Rightarrow> bool" where
  "line_is s A L \<longleftrightarrow> line_ring (tty s) A L \<and> sem_live s (isem s) \<and>
     scount (semtab s (isem s)) = int (length A)"

text \<open>What the input side may change: the control block's input and echo parts, the UART, the count of the
  input semaphore.\<close>

definition in_frame :: "'z ustate_scheme \<Rightarrow> 'z ustate_scheme \<Rightarrow> bool" where
  "in_frame s s' \<longleftrightarrow> (\<exists>t u n. s' = s\<lparr>tty := t, uart := u, semtab := (semtab s)(isem s := (semtab s (isem s))\<lparr>scount := n\<rparr>)\<rparr> \<and>
     tyisem t = isem s \<and> tyosem t = tyosem (tty s) \<and> tyohead t = tyohead (tty s) \<and> tyotail t = tyotail (tty s) \<and>
     tyobuff t = tyobuff (tty s) \<and> rx u = rx (uart s) \<and> tx u = tx (uart s))"

lemma in_frame_trans: "in_frame s1 s2 \<Longrightarrow> in_frame s2 s3 \<Longrightarrow> in_frame s1 s3"
  unfolding in_frame_def by (elim exE conjE, intro exI conjI) (assumption | simp)+

lemma in_frame_tty:
  assumes "tyisem t = isem s" "tyosem t = tyosem (tty s)" "tyohead t = tyohead (tty s)" "tyotail t = tyotail (tty s)"
    "tyobuff t = tyobuff (tty s)" "rx u = rx (uart s)" "tx u = tx (uart s)"
  shows "in_frame s (s\<lparr>tty := t, uart := u\<rparr>)"
  unfolding in_frame_def
  by (rule exI[of _ t], rule exI[of _ u], rule exI[of _ "scount (semtab s (isem s))"], intro conjI ustate.equality)
    (simp_all add: assms)

lemma in_frame_tty1:
  assumes "tyisem t = isem s" "tyosem t = tyosem (tty s)" "tyohead t = tyohead (tty s)" "tyotail t = tyotail (tty s)"
    "tyobuff t = tyobuff (tty s)"
  shows "in_frame s (s\<lparr>tty := t\<rparr>)"
proof -
  have "s\<lparr>tty := t, uart := uart s\<rparr> = s\<lparr>tty := t\<rparr>" by (rule ustate.equality) simp_all
  then show ?thesis using in_frame_tty[of t s "uart s"] assms by simp
qed

lemma in_frame_sem: "in_frame s (s\<lparr>semtab := (semtab s)(isem s := (semtab s (isem s))\<lparr>scount := n\<rparr>)\<rparr>)"
  unfolding in_frame_def
  by (rule exI[of _ "tty s"], rule exI[of _ "uart s"], rule exI[of _ n], intro conjI ustate.equality) simp_all

text \<open>The characters \<open>X\<close> are put behind what waits in the echo ring, when they fit.\<close>

definition echo_put :: "'z ustate_scheme \<Rightarrow> byte list \<Rightarrow> (int \<Rightarrow> byte) \<Rightarrow> int \<Rightarrow> bool" where
  "echo_put s X b a \<longleftrightarrow> (\<forall>E. ring TY_EBUFLEN (tyebuff (tty s)) (tyehead (tty s)) (tyetail (tty s)) E \<longrightarrow> length E + length X < 20 \<longrightarrow>
     ring TY_EBUFLEN b (tyehead (tty s)) a (E @ X))"

definition echo_modes :: "ttycblk \<Rightarrow> bool" where
  "echo_modes t \<longleftrightarrow> tyiecho t \<and> tyieback t \<and> tyevis t \<and> tyecrlf t \<and> tyifullc t = TY_BELL"

text \<open>What a key does besides the input ring: \<open>X\<close> is echoed, and the next character goes to place \<open>p\<close>.\<close>

definition key_frame :: "byte list \<Rightarrow> int \<Rightarrow> 'z ustate_scheme \<Rightarrow> 'z ustate_scheme \<Rightarrow> bool" where
  "key_frame X p s s' \<longleftrightarrow> in_frame s s' \<and> tyitail (tty s') = p \<and> tyoheld (tty s') = tyoheld (tty s) \<and>
     echo_modes (tty s') = echo_modes (tty s) \<and> tyocrlf (tty s') = tyocrlf (tty s) \<and> tyehead (tty s') = tyehead (tty s) \<and>
     echo_put s X (tyebuff (tty s')) (tyetail (tty s'))"

text \<open>Echoing changes the echo ring and the UART's interrupt enable register only.\<close>

abbreviation echoed :: "'z ustate_scheme \<Rightarrow> (int \<Rightarrow> byte) \<Rightarrow> int \<Rightarrow> uint32 \<Rightarrow> 'z ustate_scheme" where
  "echoed s b a i \<equiv> s\<lparr>tty := (tty s)\<lparr>tyetail := a, tyebuff := b\<rparr>, uart := (uart s)\<lparr>ier := i\<rparr>\<rparr>"

lemma echoed_id: "echoed s (tyebuff (tty s)) (tyetail (tty s)) (ier (uart s)) = s"
  by (rule ustate.equality) simp_all

lemma eputs_runs:
  assumes "0 \<le> tyetail (tty s)" "tyetail (tty s) < TY_EBUFLEN"
  shows "\<exists>b a i. eputs cs s = Some (echoed s b a i) \<and> 0 \<le> a \<and> a < TY_EBUFLEN \<and> echo_put s cs b a"
  using assms
proof (induction cs arbitrary: s)
  case Nil
  have "echo_put s [] (tyebuff (tty s)) (tyetail (tty s))" by (simp add: echo_put_def)
  then show ?case using Nil echoed_id[of s] by (metis eputs.simps(1))
next
  case (Cons c cs)
  let ?a = "tyetail (tty s)" and ?b = "tyebuff (tty s)"
  let ?s = "echoed s (?b(?a := c)) (wrap TY_EBUFLEN ?a) (0x01 OR 0x02)"
  have "eputc c s = Some ?s" using Cons.prems by (simp add: eputc_def ttykickout_def Let_def wrap_def)
  moreover have "0 \<le> tyetail (tty ?s)" "tyetail (tty ?s) < TY_EBUFLEN" using Cons.prems by (simp_all add: wrap_def)
  then obtain b a i where h: "eputs cs ?s = Some (echoed ?s b a i)" "0 \<le> a" "a < TY_EBUFLEN" "echo_put ?s cs b a"
    using Cons.IH[of ?s] by blast
  have "echo_put s (c # cs) b a" unfolding echo_put_def
  proof (intro allI impI)
    fix E assume E: "ring TY_EBUFLEN ?b (tyehead (tty s)) ?a E" "length E + length (c # cs) < 20"
    have "ring TY_EBUFLEN (?b(?a := c)) (tyehead (tty s)) (wrap TY_EBUFLEN ?a) (E @ [c])" by (rule ring_put[OF E(1)]) (use E(2) in simp)
    then have "ring TY_EBUFLEN b (tyehead (tty s)) a ((E @ [c]) @ cs)"
      using h(4)[unfolded echo_put_def, rule_format, of "E @ [c]"] E(2) by (simp del: fun_upd_apply)
    then show "ring TY_EBUFLEN b (tyehead (tty s)) a (E @ c # cs)" by simp
  qed
  ultimately show ?case using h by (intro exI[of _ b] exI[of _ a] exI[of _ i]) simp
qed

text \<open>What is echoed for a key.\<close>

abbreviation echo_text :: "byte \<Rightarrow> 'z ustate_scheme \<Rightarrow> byte list" where
  "echo_text ch s \<equiv> if tyiecho (tty s) then echo_of ch (tty s) else []"

lemma echo_in_range:
  assumes r: "0 \<le> tyetail (tty s)" "tyetail (tty s) < TY_EBUFLEN"
  shows "\<exists>b a i. (if tyiecho (tty s) then echoch ch s else Some s) = Some (echoed s b a i) \<and> 0 \<le> a \<and> a < TY_EBUFLEN \<and>
    echo_put s (echo_text ch s) b a"
proof (cases "tyiecho (tty s)")
  case False
  then have "(if tyiecho (tty s) then echoch ch s else Some s) =
      Some (echoed s (tyebuff (tty s)) (tyetail (tty s)) (ier (uart s)))" by (simp add: echoed_id)
  moreover have "echo_put s (echo_text ch s) (tyebuff (tty s)) (tyetail (tty s))" using False by (simp add: echo_put_def)
  ultimately show ?thesis using r by blast
qed (use eputs_runs[OF r] in \<open>simp add: echoch_def\<close>)

lemma echo_runs:
  assumes "line_is s A L"
  shows "\<exists>b a i. (if tyiecho (tty s) then echoch ch s else Some s) = Some (echoed s b a i) \<and> 0 \<le> a \<and> a < TY_EBUFLEN \<and>
    echo_put s (echo_text ch s) b a"
  using assms by (intro echo_in_range) (auto simp: line_is_def line_ring_def)

lemma line_is_echoed:
  assumes "line_is s A L" "0 \<le> a" "a < TY_EBUFLEN"
  shows "line_is (echoed s b a i) A L" "in_frame s (echoed s b a i)"
proof -
  show "line_is (echoed s b a i) A L" using assms by (simp add: line_is_def line_ring_def line_modes_def)
  show "in_frame s (echoed s b a i)" by (rule in_frame_tty) simp_all
qed

lemma key_frame_echoed: "echo_put s X b a \<Longrightarrow> key_frame X (tyitail (tty s)) s (echoed s b a i)"
  by (simp add: key_frame_def echo_modes_def in_frame_tty)

text \<open>A character goes into the ring.\<close>

abbreviation stored :: "'z ustate_scheme \<Rightarrow> byte \<Rightarrow> int \<Rightarrow> 'z ustate_scheme" where
  "stored s ch c \<equiv> s\<lparr>tty := (tty s)\<lparr>tyicursor := c, tyibuff := (tyibuff (tty s))(tyitail (tty s) := ch),
     tyitail := wrap TY_IBUFLEN (tyitail (tty s))\<rparr>\<rparr>"

lemma store_runs:
  assumes r: "ring TY_IBUFLEN (tyibuff (tty s)) (tyihead (tty s)) (tyitail (tty s)) xs"
  shows "map_option i_wrap (i_put ch (set_tty (\<lambda>t. t\<lparr>tyicursor := c\<rparr>) s)) = Some (stored s ch c)"
  using ringD(3,4)[OF r] by (simp add: i_put_def i_wrap_def set_tty_def wrap_def Let_def)

lemma line_is_stored:
  assumes s: "line_is s A L" and room: "length (A @ L) < 128"
  shows "line_ring (tty (stored s ch (int (Suc (length L))))) A (L @ [ch])"
    "line_ring (tty (stored s ch 0)) (A @ L @ [ch]) []"
proof -
  have r: "ring TY_IBUFLEN (tyibuff (tty s)) (tyihead (tty s)) (tyitail (tty s)) (A @ L)"
    using s by (simp add: line_is_def line_ring_def)
  have n: "int (length (A @ L)) < TY_IBUFLEN" using room by simp
  note P = ring_put[OF r n, of ch]
  show "line_ring (tty (stored s ch (int (Suc (length L))))) A (L @ [ch])" "line_ring (tty (stored s ch 0)) (A @ L @ [ch]) []"
    using s P by (simp_all add: line_is_def line_ring_def line_modes_def)
qed

lemma ordinary_key:
  assumes s: "line_is s A L" and room: "length (A @ L) < 127"
    and ch: "ch \<notin> {TY_KILLCH, TY_BACKSP, TY_NEWLINE, TY_RETURN, TY_EOFCH}"
  shows "\<exists>s'. handle_cooked ch s = Some s' \<and> line_is s' A (L @ [ch]) \<and>
    key_frame (echo_text ch s) (wrap TY_IBUFLEN (tyitail (tty s))) s s'"
proof -
  obtain b a i where e: "(if tyiecho (tty s) then echoch ch s else Some s) = Some (echoed s b a i)" "0 \<le> a" "a < TY_EBUFLEN"
    "echo_put s (echo_text ch s) b a"
    using echo_runs[OF s] by blast
  let ?s1 = "echoed s b a i"
  note E = line_is_echoed[OF s e(2,3), where b = b and i = i]
  have m: "line_modes (tty s)" "tyicursor (tty s) = int (length L)" "semcount (isem s) s = int (length A)"
    using s by (auto simp: line_is_def line_ring_def semcount_def isbadsem_def)
  let ?s' = "stored ?s1 ch (int (Suc (length L)))"
  have r: "ring TY_IBUFLEN (tyibuff (tty ?s1)) (tyihead (tty ?s1)) (tyitail (tty ?s1)) (A @ L)"
    using E(1) by (simp add: line_is_def line_ring_def)
  have st: "map_option i_wrap (i_put ch (set_tty (\<lambda>t. t\<lparr>tyicursor := int (Suc (length L))\<rparr>) ?s1)) = Some ?s'" by (rule store_runs[OF r])
  have set1: "set_tty (\<lambda>t. t\<lparr>tyicursor := tyicursor t + 1\<rparr>) ?s1 = set_tty (\<lambda>t. t\<lparr>tyicursor := int (Suc (length L))\<rparr>) ?s1"
    using m(2) by (simp add: set_tty_def)
  have "handle_cooked ch s = map_option i_wrap (i_put ch (set_tty (\<lambda>t. t\<lparr>tyicursor := int (Suc (length L))\<rparr>) ?s1))"
    unfolding set1[symmetric] using m ch room e(1)
    by (simp add: handle_cooked_def line_modes_def avail_in_def Let_def map_conv_bind_option comp_def)
  then have "handle_cooked ch s = Some ?s'" using st by simp
  moreover have "line_is ?s' A (L @ [ch])"
    using line_is_stored(1)[OF E(1), of ch] room s by (simp add: line_is_def)
  moreover have "in_frame s ?s'"
    by (rule in_frame_trans[OF E(2)], rule in_frame_tty1) simp_all
  then have "key_frame (echo_text ch s) (wrap TY_IBUFLEN (tyitail (tty s))) s ?s'"
    using e(4) by (simp add: key_frame_def echo_modes_def)
  ultimately show ?thesis by blast
qed

lemma bell_key:
  assumes s: "line_is s A L" and full: "length (A @ L) \<ge> 127"
    and ch: "ch \<notin> {TY_KILLCH, TY_BACKSP, TY_NEWLINE, TY_RETURN}"
  shows "\<exists>s'. handle_cooked ch s = Some s' \<and> line_is s' A L \<and> key_frame [tyifullc (tty s)] (tyitail (tty s)) s s'"
proof -
  have m: "line_modes (tty s)" "tyicursor (tty s) = int (length L)" "semcount (isem s) s = int (length A)"
    and r: "0 \<le> tyetail (tty s)" "tyetail (tty s) < TY_EBUFLEN"
    using s by (auto simp: line_is_def line_ring_def semcount_def isbadsem_def)
  obtain b a i where e: "eputs [tyifullc (tty s)] s = Some (echoed s b a i)" "0 \<le> a" "a < TY_EBUFLEN"
    "echo_put s [tyifullc (tty s)] b a" using eputs_runs[OF r] by blast
  have "eputc (tyifullc (tty s)) s = Some (echoed s b a i)" using e(1) by (simp split: option.splits)
  then have "handle_cooked ch s = Some (echoed s b a i)"
    using m ch full by (simp add: handle_cooked_def line_modes_def avail_in_def Let_def)
  then show ?thesis using key_frame_echoed[OF e(4)] line_is_echoed[OF s e(2,3)] by blast
qed

lemma eof_key:
  assumes s: "line_is s A L" and room: "length (A @ L) < 127" and L: "L \<noteq> []"
  shows "\<exists>s'. handle_cooked TY_EOFCH s = Some s' \<and> line_is s' A L \<and> key_frame (echo_text TY_EOFCH s) (tyitail (tty s)) s s'"
proof -
  obtain b a i where e: "(if tyiecho (tty s) then echoch TY_EOFCH s else Some s) = Some (echoed s b a i)" "0 \<le> a" "a < TY_EBUFLEN"
    "echo_put s (echo_text TY_EOFCH s) b a"
    using echo_runs[OF s] by blast
  have m: "line_modes (tty s)" "tyicursor (tty s) = int (length L)" "semcount (isem s) s = int (length A)"
    using s by (auto simp: line_is_def line_ring_def semcount_def isbadsem_def)
  have "handle_cooked TY_EOFCH s = Some (echoed s b a i)"
    using m L room e(1) by (simp add: handle_cooked_def line_modes_def avail_in_def Let_def)
  then show ?thesis using key_frame_echoed[OF e(4)] line_is_echoed[OF s e(2,3)] by blast
qed

text \<open>At the beginning of a line it is made available at once. The place behind it is not wrapped, so the last place of
  the ring is left out.\<close>

lemma eof_alone:
  assumes s: "line_is s A []" and room: "length A < 127" and p: "tyitail (tty s) < 127"
  shows "\<exists>s'. handle_cooked TY_EOFCH s = Some s' \<and> line_is s' (A @ [TY_EOFCH]) [] \<and>
    key_frame (echo_text TY_EOFCH s) (tyitail (tty s) + 1) s s'"
proof -
  obtain b a i where e: "(if tyiecho (tty s) then echoch TY_EOFCH s else Some s) = Some (echoed s b a i)" "0 \<le> a" "a < TY_EBUFLEN"
    "echo_put s (echo_text TY_EOFCH s) b a"
    using echo_runs[OF s] by blast
  let ?s1 = "echoed s b a i"
  note E = line_is_echoed[OF s e(2,3), where b = b and i = i]
  have m: "line_modes (tty s)" "tyicursor (tty s) = 0" "semcount (isem s) s = int (length A)" "sem_live s (isem s)"
    "scount (semtab s (isem s)) = int (length A)" and r: "0 \<le> tyitail (tty s)"
    using s ringD(3) by (auto simp: line_is_def line_ring_def semcount_def isbadsem_def)
  have w: "wrap TY_IBUFLEN (tyitail (tty s)) = tyitail (tty s) + 1" using p by (simp add: wrap_def)
  let ?s2 = "stored ?s1 TY_EOFCH 0" and ?k = "isem s"
  let ?s3 = "?s1\<lparr>tty := (tty ?s1)\<lparr>tyibuff := (tyibuff (tty s))(tyitail (tty s) := TY_EOFCH), tyitail := tyitail (tty s) + 1\<rparr>\<rparr>"
  have "?s3 = ?s2" using m(2) w by (intro ustate.equality ttycblk.equality) simp_all
  moreover have "i_put TY_EOFCH ?s1 = Some ?s3" using r p by (simp add: i_put_def set_tty_def Let_def)
  ultimately have put: "i_put TY_EOFCH ?s1 = Some ?s2" by simp
  let ?e = "(semtab s ?k)\<lparr>scount := scount (semtab s ?k) + 1\<rparr>"
  let ?s' = "?s2\<lparr>semtab := (semtab s)(?k := ?e)\<rparr>"
  have sg: "signal ?k ?s2 = Some (OK, ?s')" using signal_idle[where s = ?s2 and k = ?k] m(4,5) room by simp
  have "handle_cooked TY_EOFCH s = do {
      s \<leftarrow> (if tyiecho (tty s) then echoch TY_EOFCH s else Some s);
      s \<leftarrow> i_put TY_EOFCH s;
      (_, s) \<leftarrow> signal (tyisem (tty s)) s;
      Some s }"
    using m(1-3) room by (simp add: handle_cooked_def line_modes_def avail_in_def Let_def)
  then have run: "handle_cooked TY_EOFCH s = Some ?s'" unfolding e(1) using put sg by simp
  have "line_ring (tty ?s') (A @ [TY_EOFCH]) []" using line_is_stored(2)[OF E(1), of TY_EOFCH] room by simp
  then have "line_is ?s' (A @ [TY_EOFCH]) []" using m(4,5) by (simp add: line_is_def)
  moreover have "in_frame s ?s'"
  proof -
    have f2: "in_frame ?s1 ?s2" by (rule in_frame_tty1) simp_all
    have f3: "in_frame ?s2 ?s'" using in_frame_sem[where s = ?s2 and n = "scount (semtab s ?k) + 1"] by simp
    show ?thesis by (rule in_frame_trans[OF E(2) in_frame_trans[OF f2 f3]])
  qed
  then have "key_frame (echo_text TY_EOFCH s) (tyitail (tty s) + 1) s ?s'" using e(4) w by (simp add: key_frame_def echo_modes_def)
  ultimately show ?thesis using run by blast
qed

text \<open>Line kill takes the line out of the ring, when it does not go round its end.\<close>

lemma ring_unput_many:
  "ring n b h t (xs @ ys) \<Longrightarrow> int (length ys) \<le> t \<Longrightarrow> ring n b h (t - int (length ys)) xs"
proof (induction ys arbitrary: t rule: rev_induct)
  case (snoc c ys)
  have r: "ring n b h t ((xs @ ys) @ [c])" using snoc.prems(1) by simp
  have "ring n b h (if t - 1 < 0 then t - 1 + n else t - 1) (xs @ ys)" by (rule ring_unput(2)[OF r])
  then have "ring n b h (t - 1) (xs @ ys)" using snoc.prems(2) by simp
  from snoc.IH[OF this] snoc.prems(2) show ?case by (simp add: algebra_simps)
qed simp

lemma kill_key:
  assumes s: "line_is s A L" and p: "int (length L) \<le> tyitail (tty s)"
  shows "\<exists>s'. handle_cooked TY_KILLCH s = Some s' \<and> line_is s' A [] \<and>
    key_frame [TY_RETURN, TY_NEWLINE] (tyitail (tty s) - int (length L)) s s'"
proof -
  let ?s1 = "s\<lparr>tty := (tty s)\<lparr>tyitail := tyitail (tty s) - int (length L), tyicursor := 0\<rparr>\<rparr>"
  have m: "line_modes (tty s)" "tyicursor (tty s) = int (length L)"
    and r: "ring TY_IBUFLEN (tyibuff (tty s)) (tyihead (tty s)) (tyitail (tty s)) (A @ L)"
    using s by (auto simp: line_is_def line_ring_def)
  have s1: "line_is ?s1 A []" using s ring_unput_many[OF r p] by (simp add: line_is_def line_ring_def line_modes_def)
  have f1: "in_frame s ?s1" by (rule in_frame_tty1) simp_all
  have e: "0 \<le> tyetail (tty ?s1)" "tyetail (tty ?s1) < TY_EBUFLEN" using s by (auto simp: line_is_def line_ring_def)
  obtain b d i where x: "eputs [TY_RETURN, TY_NEWLINE] ?s1 = Some (echoed ?s1 b d i)" "0 \<le> d" "d < TY_EBUFLEN"
    "echo_put ?s1 [TY_RETURN, TY_NEWLINE] b d" using eputs_runs[OF e] by blast
  have "handle_cooked TY_KILLCH s = Some (echoed ?s1 b d i)"
    using m x(1) p by (simp add: handle_cooked_def line_modes_def set_tty_def Let_def del: eputs.simps)
  moreover have "key_frame [TY_RETURN, TY_NEWLINE] (tyitail (tty s) - int (length L)) s (echoed ?s1 b d i)"
    using in_frame_trans[OF f1 line_is_echoed(2)[OF s1 x(2,3)]] x(4) by (simp add: key_frame_def echo_modes_def echo_put_def)
  ultimately show ?thesis using line_is_echoed(1)[OF s1 x(2,3)] by blast
qed

lemma erase_key:
  assumes s: "line_is s A L"
  shows "\<exists>s'. handle_cooked TY_BACKSP s = Some s' \<and> line_is s' A (butlast L) \<and>
    key_frame (if L = [] then [] else erase_of (last L) (tty s))
      (if L = [] then tyitail (tty s) else if tyitail (tty s) = 0 then TY_IBUFLEN - 1 else tyitail (tty s) - 1) s s'"
proof (cases "L = []")
  case True
  have "handle_cooked TY_BACKSP s = Some s"
    using s True by (simp add: handle_cooked_def line_is_def line_ring_def line_modes_def Let_def)
  moreover have "in_frame s (s\<lparr>tty := tty s, uart := uart s\<rparr>)" by (rule in_frame_tty) simp_all
  moreover have "s\<lparr>tty := tty s, uart := uart s\<rparr> = s" by (rule ustate.equality) simp_all
  ultimately show ?thesis using s True by (simp add: key_frame_def echo_put_def)
next
  case False
  obtain M c where L: "L = M @ [c]" using False by (metis rev_exhaust)
  have m: "line_modes (tty s)" "tyicursor (tty s) = int (length L)"
    and r: "ring TY_IBUFLEN (tyibuff (tty s)) (tyihead (tty s)) (tyitail (tty s)) ((A @ M) @ [c])"
    using s L by (auto simp: line_is_def line_ring_def)
  let ?a = "if tyitail (tty s) - 1 < 0 then tyitail (tty s) - 1 + TY_IBUFLEN else tyitail (tty s) - 1"
  note U = ring_unput[OF r]
  let ?s1 = "s\<lparr>tty := (tty s)\<lparr>tyicursor := int (length M), tyitail := ?a\<rparr>\<rparr>"
  have s1: "line_is ?s1 A M" using s L U(2) by (simp add: line_is_def line_ring_def line_modes_def)
  have f1: "in_frame s ?s1" by (rule in_frame_tty1) simp_all
  have e: "0 \<le> tyetail (tty ?s1)" "tyetail (tty ?s1) < TY_EBUFLEN" using s by (auto simp: line_is_def line_ring_def)
  obtain b d i where x: "eputs (erase_of c (tty ?s1)) ?s1 = Some (echoed ?s1 b d i)" "0 \<le> d" "d < TY_EBUFLEN"
    "echo_put ?s1 (erase_of c (tty ?s1)) b d" using eputs_runs[OF e] by blast
  have er: "erase_of c (tty ?s1) = erase_of c (tty s)" by (simp add: erase_of_def)
  have "0 \<le> tyitail (tty s)" by (rule ringD(3)[OF r])
  then have kf: "key_frame (erase_of c (tty s)) (if tyitail (tty s) = 0 then TY_IBUFLEN - 1 else tyitail (tty s) - 1) s (echoed ?s1 b d i)"
    using in_frame_trans[OF f1 line_is_echoed(2)[OF s1 x(2,3)]] x(4) unfolding er
    by (auto simp: key_frame_def echo_modes_def echo_put_def)
  have erase: "erase1 (set_tty (\<lambda>t. t\<lparr>tyicursor := tyicursor t - 1\<rparr>) s) = Some (echoed ?s1 b d i)"
    using x(1) U(1,3,4) m(2) L by (simp add: erase1_def set_tty_def Let_def)
  have "handle_cooked TY_BACKSP s = erase1 (set_tty (\<lambda>t. t\<lparr>tyicursor := tyicursor t - 1\<rparr>) s)"
    using m L by (simp add: handle_cooked_def line_modes_def Let_def)
  then show ?thesis using erase line_is_echoed(1)[OF s1 x(2,3)] kf L by simp
qed

text \<open>The end of a line makes the line available.\<close>

lemma newline_key:
  assumes s: "line_is s A L" and room: "length (A @ L) < 128" and d: "0 < ndefers s" "ndefers s < 2 ^ 31 - 1"
  shows "\<exists>s'. handle_cooked TY_NEWLINE s = Some s' \<and> line_is s' (A @ L @ [TY_NEWLINE]) [] \<and>
    key_frame (echo_text TY_NEWLINE s) (wrap TY_IBUFLEN (tyitail (tty s))) s s'"
proof -
  obtain b a i where e: "(if tyiecho (tty s) then echoch TY_NEWLINE s else Some s) = Some (echoed s b a i)" "0 \<le> a" "a < TY_EBUFLEN"
    "echo_put s (echo_text TY_NEWLINE s) b a"
    using echo_runs[OF s] by blast
  let ?s1 = "echoed s b a i"
  note E = line_is_echoed[OF s e(2,3), where b = b and i = i]
  have m: "line_modes (tty s)" "tyicursor (tty s) = int (length L)" "sem_live s (isem s)" "scount (semtab s (isem s)) = int (length A)"
    using s by (auto simp: line_is_def line_ring_def)
  have r: "ring TY_IBUFLEN (tyibuff (tty ?s1)) (tyihead (tty ?s1)) (tyitail (tty ?s1)) (A @ L)"
    using E(1) by (simp add: line_is_def line_ring_def)
  let ?s2 = "stored ?s1 TY_NEWLINE (int (length L))"
  have id1: "set_tty (\<lambda>t. t\<lparr>tyicursor := int (length L)\<rparr>) ?s1 = ?s1"
    using m(2) by (intro ustate.equality) (simp_all add: set_tty_def)
  obtain s2' where p2: "i_put TY_NEWLINE ?s1 = Some s2'" "i_wrap s2' = ?s2"
    using store_runs[OF r, of TY_NEWLINE "int (length L)"] unfolding id1 by blast
  let ?k = "isem s" and ?n = "int (length L) + 1"
  let ?e = "(semtab s ?k)\<lparr>scount := scount (semtab s ?k) + ?n\<rparr>"
  let ?s3 = "?s2\<lparr>semtab := (semtab s)(?k := ?e)\<rparr>"
  have n: "scount (semtab s ?k) + ?n < 2 ^ 31" using m(4) room by simp
  have sg: "signaln ?k ?n ?s2 = Some (OK, ?s3)"
    using signaln_idle[where s = ?s2 and k = ?k and n = ?n] m(3,4) n d by simp
  let ?s' = "set_tty (\<lambda>t. t\<lparr>tyicursor := 0\<rparr>) ?s3"
  have cur: "tyisem (tty ?s2) = ?k" "tyicursor (tty ?s2) + 1 = ?n" by simp_all
  have "handle_cooked TY_NEWLINE s = do {
      s \<leftarrow> (if tyiecho (tty s) then echoch TY_NEWLINE s else Some s);
      s \<leftarrow> i_put TY_NEWLINE s;
      (_, s) \<leftarrow> signaln (tyisem (tty (i_wrap s))) (tyicursor (tty (i_wrap s)) + 1) (i_wrap s);
      Some (set_tty (\<lambda>t. t\<lparr>tyicursor := 0\<rparr>) s) }"
    using m(1) by (simp add: handle_cooked_def line_modes_def Let_def)
  then have run: "handle_cooked TY_NEWLINE s = Some ?s'"
    using e(1) p2 sg unfolding e(1) by (simp add: cur p2 del: fun_upd_apply)
  have "tty ?s' = tty (stored ?s1 TY_NEWLINE 0)" by (simp add: set_tty_def)
  then have "line_ring (tty ?s') (A @ L @ [TY_NEWLINE]) []" using line_is_stored(2)[OF E(1) room, of TY_NEWLINE] by simp
  moreover have "semtab ?s' = (semtab s)(?k := ?e)" "isem ?s' = ?k" by (simp_all add: set_tty_def)
  ultimately have "line_is ?s' (A @ L @ [TY_NEWLINE]) []" using m(3,4) by (simp add: line_is_def)
  moreover have "in_frame s ?s'"
  proof -
    have f2: "in_frame ?s1 ?s2" by (rule in_frame_tty1) simp_all
    have f3: "in_frame ?s2 ?s3" using in_frame_sem[where s = ?s2 and n = "scount (semtab s ?k) + ?n"] by simp
    have f4: "in_frame ?s3 ?s'" unfolding set_tty_def by (rule in_frame_tty1) simp_all
    show ?thesis by (rule in_frame_trans[OF E(2) in_frame_trans[OF f2 in_frame_trans[OF f3 f4]]])
  qed
  then have "key_frame (echo_text TY_NEWLINE s) (wrap TY_IBUFLEN (tyitail (tty s))) s ?s'"
    using e(4) by (simp add: key_frame_def echo_modes_def set_tty_def)
  ultimately show ?thesis using run by blast
qed

section \<open>The count of a semaphore nobody waits on\<close>

lemma kinv_count:
  assumes inv: "kinv s" and k: "sem_live s k" "0 \<le> scount (semtab s k)" and n: "0 \<le> n" "n < 2 ^ 31"
  shows "kinv (s\<lparr>semtab := (semtab s)(k := (semtab s k)\<lparr>scount := n\<rparr>)\<rparr>)"
proof -
  note V = kinvD[OF inv]
  let ?s = "s\<lparr>semtab := (semtab s)(k := (semtab s k)\<lparr>scount := n\<rparr>)\<rparr>"
  have "semq s k = []" using ksemD[OF V(4)] k by (auto simp: sem_inv_def split: if_splits)
  then have "ksem ?s" by (intro ksem_upd[OF V(4) V(1), of k]) (use k n in \<open>simp_all add: sem_inv_def\<close>)
  then show ?thesis unfolding kinv_def using V kq_set_sem(1)[OF V(1)] by simp
qed

lemma kinv_attempt [simp]: "kinv (s\<lparr>attempt := a\<rparr>) = kinv s"
  by (simp add: kinv_def kq_def kids_def qof_def eligible_def ksem_def sem_inv_def kmsg_def msg_inv_def
      kheap_def kstk_def stk_ok_def kpend_def cong: prstate.case_cong)

end
