(* ===== verification/Tty_Out.thy ===== *)
theory Tty_Out
  imports Tty_In
begin

unbundle bit_operations_syntax

text \<open>
  The output side of the console: characters leave in the order they were written, echoed ones first.
\<close>

section \<open>The echo and output rings\<close>

abbreviation osem :: "'z ustate_scheme \<Rightarrow> int" where
  "osem s \<equiv> tyosem (tty s)"

text \<open>\<open>E\<close> waits in the echo ring, \<open>W\<close> in the output ring, and the semaphore counts the free places.\<close>

definition out_is :: "'z ustate_scheme \<Rightarrow> byte list \<Rightarrow> byte list \<Rightarrow> bool" where
  "out_is s E W \<longleftrightarrow> ring TY_EBUFLEN (tyebuff (tty s)) (tyehead (tty s)) (tyetail (tty s)) E \<and> length E < 20 \<and>
     ring TY_OBUFLEN (tyobuff (tty s)) (tyohead (tty s)) (tyotail (tty s)) W \<and> sem_live s (osem s) \<and>
     scount (semtab s (osem s)) = TY_OBUFLEN - int (length W)"

lemma out_isD:
  assumes "out_is s E W"
  shows "ring TY_EBUFLEN (tyebuff (tty s)) (tyehead (tty s)) (tyetail (tty s)) E" "length E < 20"
    "ring TY_OBUFLEN (tyobuff (tty s)) (tyohead (tty s)) (tyotail (tty s)) W" "sem_live s (osem s)"
    "scount (semtab s (osem s)) = TY_OBUFLEN - int (length W)" "length W \<le> 64" "semcount (osem s) s = TY_OBUFLEN - int (length W)"
  using assms ringD(5)[of TY_OBUFLEN "tyobuff (tty s)" _ _ W] by (auto simp: out_is_def semcount_def isbadsem_def)

text \<open>What the output side leaves alone.\<close>

definition out_frame :: "'z ustate_scheme \<Rightarrow> 'z ustate_scheme \<Rightarrow> bool" where
  "out_frame s s' \<longleftrightarrow> (\<exists>b a h g. tty s' = (tty s)\<lparr>tyobuff := b, tyotail := a, tyehead := h, tyohead := g\<rparr>) \<and>
     (\<forall>k. k \<noteq> osem s \<longrightarrow> semtab s' k = semtab s k)"

lemma out_frame_refl: "out_frame s s"
  unfolding out_frame_def
  by (rule conjI, rule exI[of _ "tyobuff (tty s)"], rule exI[of _ "tyotail (tty s)"], rule exI[of _ "tyehead (tty s)"],
    rule exI[of _ "tyohead (tty s)"]) simp_all

lemma out_frame_trans: "out_frame s1 s2 \<Longrightarrow> out_frame s2 s3 \<Longrightarrow> out_frame s1 s3"
  unfolding out_frame_def by (elim conjE exE) (intro conjI exI allI impI; simp)

section \<open>Transmission\<close>

abbreviation sent_echo :: "'z ustate_scheme \<Rightarrow> byte list \<Rightarrow> int \<Rightarrow> 'z ustate_scheme" where
  "sent_echo s cs h \<equiv> s\<lparr>uart := (uart s)\<lparr>tx := tx (uart s) @ cs\<rparr>, tty := (tty s)\<lparr>tyehead := h\<rparr>\<rparr>"

abbreviation sent_out :: "'z ustate_scheme \<Rightarrow> byte list \<Rightarrow> int \<Rightarrow> 'z ustate_scheme" where
  "sent_out s cs h \<equiv> s\<lparr>uart := (uart s)\<lparr>tx := tx (uart s) @ cs\<rparr>, tty := (tty s)\<lparr>tyohead := h\<rparr>\<rparr>"

lemma xmit_echo_sends:
  assumes "ring TY_EBUFLEN (tyebuff (tty s)) (tyehead (tty s)) (tyetail (tty s)) E" "length E < 20"
  shows "\<exists>h. xmit_echo u s = Some (u - length E, sent_echo s (take u E) h) \<and>
    ring TY_EBUFLEN (tyebuff (tty s)) h (tyetail (tty s)) (drop u E)"
  using assms
proof (induction u arbitrary: s E)
  case 0
  have "sent_echo s (take 0 E) (tyehead (tty s)) = s" by (rule ustate.equality) simp_all
  then show ?case using 0 by (intro exI[of _ "tyehead (tty s)"]) simp
next
  case (Suc u)
  note R = ringD[OF Suc.prems(1)]
  show ?case
  proof (cases E)
    case Nil
    have "sent_echo s [] (tyehead (tty s)) = s" by (rule ustate.equality) simp_all
    then show ?thesis using Nil Suc.prems(1) ring_full_or_empty[OF Suc.prems(1)]
      by (intro exI[of _ "tyehead (tty s)"]) simp
  next
    case (Cons c F)
    note G = ring_get[OF Suc.prems(1)[unfolded Cons]]
    have ne: "tyehead (tty s) \<noteq> tyetail (tty s)" using ring_full_or_empty[OF Suc.prems(1)] Suc.prems(2) Cons by simp
    let ?s = "sent_echo s [c] (wrap TY_EBUFLEN (tyehead (tty s)))"
    have step: "xmit_echo (Suc u) s = xmit_echo u ?s" using ne R(1,2) G(1) by (simp add: Let_def wrap_def)
    obtain h where h: "xmit_echo u ?s = Some (u - length F, sent_echo ?s (take u F) h)"
      "ring TY_EBUFLEN (tyebuff (tty ?s)) h (tyetail (tty ?s)) (drop u F)"
      using Suc.IH[of ?s F] G(2) Suc.prems(2) Cons by auto
    show ?thesis unfolding step using h Cons by (intro exI[of _ h]) simp
  qed
qed

lemma xmit_out_sends:
  assumes "ring TY_OBUFLEN (tyobuff (tty s)) (tyohead (tty s)) (tyotail (tty s)) W" "n \<le> length W"
  shows "\<exists>h. xmit_out n s = Some (sent_out s (take n W) h) \<and> ring TY_OBUFLEN (tyobuff (tty s)) h (tyotail (tty s)) (drop n W)"
  using assms
proof (induction n arbitrary: s W)
  case 0
  have "sent_out s (take 0 W) (tyohead (tty s)) = s" by (rule ustate.equality) simp_all
  then show ?case using 0 by (intro exI[of _ "tyohead (tty s)"]) simp
next
  case (Suc n)
  obtain c F where Cons: "W = c # F" using Suc.prems(2) by (cases W) auto
  note R = ringD[OF Suc.prems(1)] and G = ring_get[OF Suc.prems(1)[unfolded Cons]]
  let ?s = "sent_out s [c] (wrap TY_OBUFLEN (tyohead (tty s)))"
  have step: "xmit_out (Suc n) s = xmit_out n ?s" using R(1,2) G(1) by (simp add: Let_def wrap_def)
  obtain h where h: "xmit_out n ?s = Some (sent_out ?s (take n F) h)"
    "ring TY_OBUFLEN (tyobuff (tty ?s)) h (tyotail (tty ?s)) (drop n F)"
    using Suc.IH[of ?s F] G(2) Suc.prems(2) Cons by auto
  show ?case unfolding step using h Cons by (intro exI[of _ h]) simp
qed

lemma signaln_idle0:
  assumes k: "sem_live s k" "0 \<le> scount (semtab s k)" and n: "0 \<le> n" "scount (semtab s k) + n < 2 ^ 31" and d: "ndefers s = 0"
  shows "signaln k n s = Some (OK, s\<lparr>semtab := (semtab s)(k := (semtab s k)\<lparr>scount := scount (semtab s k) + n\<rparr>), attempt := False\<rparr>)"
proof -
  let ?e = "(semtab s k)\<lparr>scount := scount (semtab s k) + n\<rparr>" and ?s1 = "s\<lparr>ndefers := 1, attempt := False\<rparr>"
  have "resched_cntl DEFER_START s = Some (OK, ?s1)" using d by (simp add: resched_cntl_def s32_id Let_def)
  moreover have "signaln_loop (nat n) k ?s1 = Some (?s1\<lparr>semtab := (semtab s)(k := ?e)\<rparr>)"
    using signaln_loop_idle[where s = ?s1 and k = k and n = "nat n"] k n by simp
  moreover have "?s1\<lparr>semtab := (semtab s)(k := ?e)\<rparr>\<lparr>ndefers := 0\<rparr> = s\<lparr>semtab := (semtab s)(k := ?e), attempt := False\<rparr>"
    using d by (intro kstate.equality) simp_all
  then have "resched_cntl DEFER_STOP (?s1\<lparr>semtab := (semtab s)(k := ?e)\<rparr>) =
      Some (OK, s\<lparr>semtab := (semtab s)(k := ?e), attempt := False\<rparr>)"
    by (simp add: resched_cntl_def Let_def)
  ultimately show ?thesis using k n by (simp add: signaln_def isbadsem_def range_simps)
qed

text \<open>One output interrupt: as many characters as the UART has room for, echo first; when nothing is left the
  transmit interrupt is switched off.\<close>

lemma all_sent_iff: "out_is s E W \<Longrightarrow> all_sent s \<longleftrightarrow> E = [] \<and> W = []"
  using out_isD[of s E W] ring_full_or_empty[of TY_EBUFLEN "tyebuff (tty s)"] by (auto simp: all_sent_def)

lemma out_is_off:
  "out_is (out_intr_off s) E W = out_is s E W" "kinv (out_intr_off s) = kinv s" "tx (uart (out_intr_off s)) = tx (uart s)"
  "ier (uart (out_intr_off s)) AND 2 = 0" "rx (uart (out_intr_off s)) = rx (uart s)"
proof -
  have "(x AND NOT 2) AND 2 = (0 :: uint32)" for x by (rule bit_eqI) (auto simp: bit_simps)
  then show "out_is (out_intr_off s) E W = out_is s E W" "kinv (out_intr_off s) = kinv s" "tx (uart (out_intr_off s)) = tx (uart s)"
    "ier (uart (out_intr_off s)) AND 2 = 0" "rx (uart (out_intr_off s)) = rx (uart s)"
    by (simp_all add: out_is_def out_intr_off_def)
qed

lemma ttyhandle_out_steps:
  assumes "\<not> tyoheld (tty s)" "\<not> all_sent s" "xmit_echo (nat (UART_FIFO_SIZE - txfifo_lvl (uart s))) s = Some (v, s1)"
    "n = min v (nat (TY_OBUFLEN - semcount (osem s1) s1))" "xmit_out n s1 = Some s2"
    "(if n > 0 then map_option snd (signaln (osem s2) (int n) s2) else Some s2) = Some s3"
  shows "ttyhandle_out s = Some (if all_sent s3 then out_intr_off s3 else s3)"
proof -
  have "ttyhandle_out s = do {
      (uspace, s) \<leftarrow> xmit_echo (nat (UART_FIFO_SIZE - txfifo_lvl (uart s))) s;
      s' \<leftarrow> xmit_out (min uspace (nat (TY_OBUFLEN - semcount (osem s) s))) s;
      s' \<leftarrow> (if min uspace (nat (TY_OBUFLEN - semcount (osem s) s)) > 0
             then map_option snd (signaln (osem s') (int (min uspace (nat (TY_OBUFLEN - semcount (osem s) s)))) s') else Some s');
      Some (if all_sent s' then out_intr_off s' else s') }"
    unfolding ttyhandle_out_def Let_def if_not_P[OF assms(1)] if_not_P[OF assms(2)] ..
  then show ?thesis unfolding assms(3) by (simp only: bind.bind_lunit prod.case assms(4)[symmetric] assms(5,6))
qed

theorem ttyhandle_out_sends:
  assumes inv: "kinv s" and s: "out_is s E W" and held: "\<not> tyoheld (tty s)"
  defines "u \<equiv> nat (UART_FIFO_SIZE - txfifo_lvl (uart s))"
  shows "\<exists>s'. ttyhandle_out s = Some s' \<and> kinv s' \<and> out_is s' (drop u E) (drop (u - length E) W) \<and>
    tx (uart s') = tx (uart s) @ take u E @ take (u - length E) W \<and>
    (drop u E = [] \<and> drop (u - length E) W = [] \<longrightarrow> ier (uart s') AND 2 = 0) \<and> out_frame s s'"
proof (cases "all_sent s")
  case True
  then have e: "E = []" "W = []" using all_sent_iff[OF s] by simp_all
  have "ttyhandle_out s = Some (out_intr_off s)" using True held by (simp add: ttyhandle_out_def)
  moreover have "out_frame s (out_intr_off s)" using out_frame_refl[of s] by (simp add: out_frame_def out_intr_off_def)
  ultimately show ?thesis using inv s e by (simp add: out_is_off)
next
  case False
  note D = out_isD[OF s]
  obtain h where h: "xmit_echo u s = Some (u - length E, sent_echo s (take u E) h)"
    "ring TY_EBUFLEN (tyebuff (tty s)) h (tyetail (tty s)) (drop u E)" using xmit_echo_sends[OF D(1,2)] by blast
  let ?s1 = "sent_echo s (take u E) h"
  let ?v = "u - length E"
  obtain n where n: "n = min ?v (length W)" by blast
  have r1: "ring TY_OBUFLEN (tyobuff (tty ?s1)) (tyohead (tty ?s1)) (tyotail (tty ?s1)) W" using D(3) by simp
  obtain g where g: "xmit_out n ?s1 = Some (sent_out ?s1 (take n W) g)"
    "ring TY_OBUFLEN (tyobuff (tty ?s1)) g (tyotail (tty ?s1)) (drop n W)" using xmit_out_sends[OF r1, of n] n by auto
  let ?s2 = "sent_out ?s1 (take n W) g" and ?k = "osem s"
  let ?e = "(semtab s ?k)\<lparr>scount := scount (semtab s ?k) + int n\<rparr>"
  define s3 where "s3 = (if n > 0 then ?s2\<lparr>semtab := (semtab s)(?k := ?e), attempt := False\<rparr> else ?s2)"
  have nd: "ndefers s = 0" by (rule kinvD(3)[OF inv])
  have c: "0 \<le> scount (semtab s ?k)" "scount (semtab s ?k) + int n \<le> TY_OBUFLEN" "scount (semtab s ?k) + int n < 2 ^ 31"
    using D(5,6) n by auto
  have tk: "take n W = take ?v W" "drop n W = drop ?v W" by (simp_all add: min_def n)
  have sg: "(if n > 0 then map_option snd (signaln ?k (int n) ?s2) else Some ?s2) = Some s3"
  proof (cases "n > 0")
    case True
    have "signaln ?k (int n) ?s2 = Some (OK, ?s2\<lparr>semtab := (semtab ?s2)(?k := (semtab ?s2 ?k)\<lparr>scount := scount (semtab ?s2 ?k) + int n\<rparr>), attempt := False\<rparr>)"
      by (rule signaln_idle0) (use D(4) c nd in simp_all)
    then show ?thesis using True by (simp add: s3_def)
  qed (simp add: s3_def)
  have av: "nat (TY_OBUFLEN - semcount ?k ?s1) = length W" using D(4,5) by (simp add: semcount_def isbadsem_def)
  have x: "xmit_echo (nat (UART_FIFO_SIZE - txfifo_lvl (uart s))) s = Some (?v, ?s1)" using h(1) by (simp only: u_def)
  have k: "osem ?s1 = ?k" "osem ?s2 = ?k" by simp_all
  have nn: "n = min ?v (nat (TY_OBUFLEN - semcount (osem ?s1) ?s1))" unfolding k av by (rule n)
  have run: "ttyhandle_out s = Some (if all_sent s3 then out_intr_off s3 else s3)"
    by (rule ttyhandle_out_steps[OF held False x nn g(1) sg[folded k(2)]])
  have e0: "(semtab s)(?k := ?e) = semtab s" if "\<not> n > 0" using that by simp
  have sem3: "semtab s3 = (semtab s)(?k := ?e)" using e0 by (simp add: s3_def)
  have f3: "tty s3 = (tty s)\<lparr>tyehead := h, tyohead := g\<rparr>" "uart s3 = (uart s)\<lparr>tx := tx (uart s) @ take u E @ take ?v W\<rparr>"
    unfolding tk(1)[symmetric] by (simp_all add: s3_def)
  have out3: "out_is s3 (drop u E) (drop ?v W)"
  proof -
    have "length (drop u E) < 20" using D(2) by simp
    moreover have "int n - int (length W) = - int (length (drop ?v W))" using n by simp
    ultimately show ?thesis using h(2) g(2) D(4,5) tk(2) by (simp add: out_is_def f3(1) sem3)
  qed
  have "kinv (s\<lparr>semtab := (semtab s)(?k := ?e)\<rparr>)" using kinv_count[OF inv D(4) c(1) _ c(3)] c(1) by simp
  moreover have "s3 = s\<lparr>semtab := (semtab s)(?k := ?e)\<rparr>\<lparr>attempt := attempt s3\<rparr>\<lparr>uart := uart s3, tty := tty s3\<rparr>"
    using sem3 by (intro ustate.equality) (simp_all add: s3_def)
  ultimately have "kinv s3" by (metis kinv_attempt kinv_ext(4,5))
  moreover have "tx (uart s3) = tx (uart s) @ take u E @ take ?v W" using f3(2) by simp
  moreover have fr: "out_frame s s3" unfolding out_frame_def
    by (rule conjI, rule exI[of _ "tyobuff (tty s)"], rule exI[of _ "tyotail (tty s)"], rule exI[of _ h], rule exI[of _ g])
      (simp_all add: f3(1) sem3)
  moreover have "out_frame s (out_intr_off s3)" using fr by (simp add: out_frame_def out_intr_off_def)
  ultimately show ?thesis
    using run out3 unfolding all_sent_iff[OF out3, symmetric]
    by (intro exI[of _ "if all_sent s3 then out_intr_off s3 else s3"]) (simp add: out_is_off)
qed

section \<open>Writing\<close>

text \<open>A write that finds room: the pending parts follow one another.\<close>

fun run_puts :: "nat \<Rightarrow> int outcome \<times> 'z ustate_scheme \<Rightarrow> (int \<times> 'z ustate_scheme) option" where
  "run_puts 0 x = None"
| "run_puts (Suc n) (Done v, s) = Some (v, s)"
| "run_puts (Suc n) (Pending, s) =
     (case ukont s (currpid s) of
        Some (U_ttyputc ch todo) \<Rightarrow> (case ttyputs_rest ch todo s of None \<Rightarrow> None | Some x \<Rightarrow> run_puts n x)
      | _ \<Rightarrow> None)"

text \<open>What goes on the line for the characters handed to \<open>ttyputc\<close>.\<close>

fun out_chars :: "bool \<Rightarrow> (bool \<times> byte) list \<Rightarrow> byte list" where
  "out_chars crlf [] = []"
| "out_chars crlf ((sent, c) # cs) = (if \<not> sent \<and> c = TY_NEWLINE \<and> crlf then [TY_RETURN, c] else [c]) @ out_chars crlf cs"

lemma put_one:
  assumes inv: "kinv s" and s: "out_is s E W" and room: "length W < 64"
  shows "\<exists>s1 s'. wait (osem s) (s\<lparr>ukont := (ukont s)(currpid s := Some (U_ttyputc c todo))\<rparr>) = Some (OK, s1) \<and>
    currpid s1 = currpid s \<and> ukont s1 (currpid s) = Some (U_ttyputc c todo) \<and> ttyputs_rest c todo s1 = ttyputs todo s' \<and>
    kinv s' \<and> out_is s' E (W @ [c]) \<and> tyocrlf (tty s') = tyocrlf (tty s) \<and> tx (uart s') = tx (uart s) \<and> out_frame s s'"
proof -
  note D = out_isD[OF s] and R = ringD[OF out_isD(3)[OF s]]
  let ?s0 = "s\<lparr>ukont := (ukont s)(currpid s := Some (U_ttyputc c todo))\<rparr>" and ?a = "tyotail (tty s)"
  obtain s1 where s1: "wait (osem s) ?s0 = Some (OK, s1)" "kinv s1"
    "s1 = ?s0\<lparr>semtab := (semtab s)(osem s := (semtab s (osem s))\<lparr>scount := TY_OBUFLEN - int (length (W @ [c]))\<rparr>)\<rparr>"
    using wait_free[of ?s0 "osem s"] inv D(4,5) room by auto
  let ?s' = "ttykickout (s1\<lparr>tty := (tty s)\<lparr>tyobuff := (tyobuff (tty s))(?a := c), tyotail := wrap TY_OBUFLEN ?a\<rparr>\<rparr>)"
  have "ttyputs_rest c todo s1 = ttyputs todo ?s'" using R(3,4) s1(3) by (simp add: ttyputs_rest_def Let_def wrap_def)
  moreover have "out_is ?s' E (W @ [c])"
    using D ring_put[OF D(3), of c] room s1(3) by (simp add: out_is_def ttykickout_def)
  moreover have "kinv ?s'" using s1(2) by (simp add: ttykickout_def)
  moreover have "out_frame s ?s'" unfolding out_frame_def
    by (rule conjI, rule exI[of _ "(tyobuff (tty s))(?a := c)"], rule exI[of _ "wrap TY_OBUFLEN ?a"], rule exI[of _ "tyehead (tty s)"],
      rule exI[of _ "tyohead (tty s)"]) (simp_all add: ttykickout_def s1(3))
  ultimately show ?thesis using s1(1,3) by (intro exI[of _ s1] exI[of _ ?s']) (simp add: ttykickout_def)
qed

lemma ttyputs_puts:
  assumes "kinv s" "out_is s E W" "length W + length (out_chars (tyocrlf (tty s)) todo) \<le> 64"
  shows "\<exists>s'. (ttyputs todo s \<bind> run_puts (Suc (length (out_chars (tyocrlf (tty s)) todo)))) = Some (OK, s') \<and>
    kinv s' \<and> out_is s' E (W @ out_chars (tyocrlf (tty s)) todo) \<and> tx (uart s') = tx (uart s) \<and> out_frame s s'"
  using assms
proof (induction "length (out_chars (tyocrlf (tty s)) todo)" arbitrary: s W todo)
  case 0
  then have "todo = []" by (cases todo) (auto split: if_splits)
  then show ?case using 0 out_frame_refl by (simp add: ttyputs_def)
next
  case (Suc n)
  obtain sent c rest where todo: "todo = (sent, c) # rest" using Suc.hyps(2) by (cases todo) auto
  let ?crlf = "tyocrlf (tty s)"
  obtain d todo' where d: "(d, todo') = (if \<not> sent \<and> c = TY_NEWLINE \<and> ?crlf then (TY_RETURN, (True, c) # rest) else (c, rest))"
    by (metis surj_pair)
  have oc: "out_chars ?crlf todo = d # out_chars ?crlf todo'" using d todo by (auto split: if_splits)
  obtain s1 s2 where P: "wait (osem s) (s\<lparr>ukont := (ukont s)(currpid s := Some (U_ttyputc d todo'))\<rparr>) = Some (OK, s1)"
    "currpid s1 = currpid s" "ukont s1 (currpid s) = Some (U_ttyputc d todo')" "ttyputs_rest d todo' s1 = ttyputs todo' s2"
    "kinv s2" "out_is s2 E (W @ [d])" "tyocrlf (tty s2) = ?crlf" "tx (uart s2) = tx (uart s)" "out_frame s s2"
    using put_one[OF Suc.prems(1,2), of d todo'] Suc.prems(3) oc by auto
  have "ttyputs todo s = Some (Pending, s1)"
    using P(1) todo unfolding ttyputs_def by (simp add: d[symmetric])
  then have run: "(ttyputs todo s \<bind> run_puts (Suc (Suc n))) = (ttyputs todo' s2 \<bind> run_puts (Suc n))"
    using P(2-4) by (simp add: bind_eq_None_conv split: option.splits)
  have len: "n = length (out_chars (tyocrlf (tty s2)) todo')" using Suc.hyps(2) oc P(7) by simp
  obtain s' where "(ttyputs todo' s2 \<bind> run_puts (Suc n)) = Some (OK, s')" "kinv s'"
    "out_is s' E ((W @ [d]) @ out_chars ?crlf todo')" "tx (uart s') = tx (uart s2)" "out_frame s2 s'"
    using Suc.hyps(1)[OF len P(5,6)] Suc.prems(3) oc P(7) len by auto
  then show ?case using run oc P(8) Suc.hyps(2) out_frame_trans[OF P(9)] by simp
qed

theorem ttywrite_puts:
  assumes inv: "kinv s" and s: "out_is s E W" and len: "length buff = nat count" "0 < count"
    and room: "length W + length (out_chars (tyocrlf (tty s)) (map (Pair False) buff)) \<le> 64"
  shows "\<exists>s'. (ttywrite buff count s \<bind> run_puts (Suc (length (out_chars (tyocrlf (tty s)) (map (Pair False) buff))))) = Some (OK, s') \<and>
    kinv s' \<and> out_is s' E (W @ out_chars (tyocrlf (tty s)) (map (Pair False) buff)) \<and> tx (uart s') = tx (uart s) \<and> out_frame s s'"
  using ttyputs_puts[OF inv s room] len by (simp add: ttywrite_def)

end
