(* ===== verification/Tty_IO.thy ===== *)
theory Tty_IO
  imports Tty_Out
begin

unbundle bit_operations_syntax

text \<open>
  The upper half of the console driver on lines that are there, the start of the console, and the places where the
  driver leaves its buffers.
\<close>

section \<open>Taking a character\<close>

definition getc_value :: "byte \<Rightarrow> int" where
  "getc_value c = (if c = TY_EOFCH then EOF else uint c)"

lemma getc_takes:
  assumes inv: "kinv s" and s: "line_is s (c # A) L"
  shows "\<exists>s1 s'. ttygetc k s = Some s1 \<and> currpid s1 = currpid s \<and> ukont s1 (currpid s) = Some k \<and>
    ttygetc_rest s1 = Some (getc_value c, s') \<and> kinv s' \<and> line_is s' A L \<and> currpid s' = currpid s \<and> uart s' = uart s \<and>
    (\<exists>h. tty s' = (tty s)\<lparr>tyihead := h\<rparr>) \<and> (\<forall>k. k \<noteq> isem s \<longrightarrow> semtab s' k = semtab s k)"
proof -
  let ?s0 = "s\<lparr>ukont := (ukont s)(currpid s := Some k)\<rparr>"
  have live: "sem_live s (isem s)" "scount (semtab s (isem s)) = int (length (c # A))" using s by (auto simp: line_is_def)
  obtain s1 where s1: "wait (isem s) ?s0 = Some (OK, s1)" "kinv s1"
    "s1 = ?s0\<lparr>semtab := (semtab s)(isem s := (semtab s (isem s))\<lparr>scount := int (length A)\<rparr>)\<rparr>"
    using wait_free[of ?s0 "isem s"] inv live by auto
  have r: "ring TY_IBUFLEN (tyibuff (tty s)) (tyihead (tty s)) (tyitail (tty s)) (c # (A @ L))"
    and m: "line_modes (tty s)" using s by (simp_all add: line_is_def line_ring_def)
  note G = ring_get[OF r] and R = ringD[OF r]
  let ?s' = "set_tty (\<lambda>t. t\<lparr>tyihead := wrap TY_IBUFLEN (tyihead (tty s))\<rparr>) s1"
  have "ttygetc_rest s1 = Some (getc_value c, ?s')"
    using G(1) R(1,2) m s1(3) by (simp add: ttygetc_rest_def Let_def getc_value_def line_modes_def wrap_def)
  moreover have "line_is ?s' A L"
    using s G(2) s1(3) by (simp add: line_is_def line_ring_def line_modes_def set_tty_def)
  moreover have "kinv ?s'" using s1(2) by (simp add: set_tty_def)
  moreover have "ttygetc k s = Some s1" using s1(1) by (simp add: ttygetc_def)
  moreover have "\<exists>h. tty ?s' = (tty s)\<lparr>tyihead := h\<rparr>" using s1(3) by (intro exI[of _ "wrap TY_IBUFLEN (tyihead (tty s))"]) (simp add: set_tty_def)
  ultimately show ?thesis using s1(3) by (intro exI[of _ s1] exI[of _ ?s']) (simp add: set_tty_def)
qed

section \<open>Reading a line\<close>

text \<open>A read by a process that does not have to wait: the pending parts follow one another.\<close>

fun run_read :: "nat \<Rightarrow> (int \<times> byte list) outcome \<times> 'z ustate_scheme \<Rightarrow> ((int \<times> byte list) \<times> 'z ustate_scheme) option" where
  "run_read 0 x = None"
| "run_read (Suc n) (Done v, s) = Some (v, s)"
| "run_read (Suc n) (Pending, s) =
     (case ukont s (currpid s) of
        Some (U_ttyread at) \<Rightarrow> (case ttyread_rest at s of None \<Rightarrow> None | Some x \<Rightarrow> run_read n x)
      | _ \<Rightarrow> None)"

definition plain :: "byte \<Rightarrow> bool" where
  "plain c \<longleftrightarrow> c \<noteq> TY_NEWLINE \<and> c \<noteq> TY_RETURN \<and> c \<noteq> TY_EOFCH"

lemma getc_value_char: "c \<noteq> TY_EOFCH \<Longrightarrow> getc_value c = uint c" "c \<noteq> TY_EOFCH \<Longrightarrow> getc_value c \<noteq> EOF"
proof -
  assume "c \<noteq> TY_EOFCH"
  then show v: "getc_value c = uint c" by (simp add: getc_value_def)
  have "0 \<le> uint c" by simp
  then show "getc_value c \<noteq> EOF" unfolding v by linarith
qed

lemma read_step:
  assumes inv: "kinv s" and s: "line_is s (c # A) L" and go: "ttyread_next at s = do { s \<leftarrow> ttygetc (U_ttyread at) s; Some (Pending, s) }"
  shows "\<exists>s'. kinv s' \<and> line_is s' A L \<and>
    (ttyread_next at s \<bind> run_read (Suc n)) =
    (case (case at of
       Read_raw n c' acc \<Rightarrow> ttyread_next (Read_raw (n + 1) c' (acc @ [word_of_int (getc_value c)])) s'
     | Read_first c' \<Rightarrow>
         if getc_value c = EOF then Some (Done (EOF, []), s') else ttyread_next (Read_line 1 c' [word_of_int (getc_value c)]) s'
     | Read_line n c' acc \<Rightarrow> ttyread_next (Read_line (n + 1) c' (acc @ [word_of_int (getc_value c)])) s') of
       None \<Rightarrow> None | Some x \<Rightarrow> run_read n x)"
proof -
  obtain s1 s' where S: "ttygetc (U_ttyread at) s = Some s1" "currpid s1 = currpid s" "ukont s1 (currpid s) = Some (U_ttyread at)"
    "ttygetc_rest s1 = Some (getc_value c, s')" "kinv s'" "line_is s' A L"
    using getc_takes[OF inv s] by blast
  show ?thesis using S unfolding go by (intro exI[of _ s']) (simp add: ttyread_rest_def)
qed

lemma read_tail:
  assumes "kinv s" "line_is s (ln @ TY_NEWLINE # A) L" "\<forall>c \<in> set ln. plain c" "acc \<noteq> []" "plain (last acc)"
    "n + int (length ln) < count"
  shows "\<exists>s'. (ttyread_next (Read_line n count acc) s \<bind> run_read (length ln + 2)) =
      Some ((n + int (length ln) + 1, acc @ ln @ [TY_NEWLINE]), s') \<and> kinv s' \<and> line_is s' A L"
  using assms
proof (induction ln arbitrary: s n acc)
  case Nil
  have s0: "line_is s (TY_NEWLINE # A) L" using Nil.prems(2) by simp
  have go: "ttyread_next (Read_line n count acc) s = do { s \<leftarrow> ttygetc (U_ttyread (Read_line n count acc)) s; Some (Pending, s) }"
    using Nil.prems(5,6) by (simp add: ttyread_next_def plain_def)
  have v: "word_of_int (getc_value TY_NEWLINE) = TY_NEWLINE" by (simp add: getc_value_def)
  obtain s' where "kinv s'" "line_is s' A L" "(ttyread_next (Read_line n count acc) s \<bind> run_read (Suc 1)) =
      (case ttyread_next (Read_line (n + 1) count (acc @ [TY_NEWLINE])) s' of None \<Rightarrow> None | Some x \<Rightarrow> run_read 1 x)"
    using read_step[OF Nil.prems(1) s0 go, of 1] unfolding v by auto
  then show ?case by (intro exI[of _ s']) (simp add: ttyread_next_def)
next
  case (Cons c ln)
  have s0: "line_is s (c # (ln @ TY_NEWLINE # A)) L" using Cons.prems(2) by simp
  have c: "plain c" using Cons.prems(3) by simp
  have go: "ttyread_next (Read_line n count acc) s = do { s \<leftarrow> ttygetc (U_ttyread (Read_line n count acc)) s; Some (Pending, s) }"
    using Cons.prems(5,6) by (simp add: ttyread_next_def plain_def)
  have v: "word_of_int (getc_value c) = c" using c getc_value_char(1) by (simp add: plain_def)
  obtain s1 where s1: "kinv s1" "line_is s1 (ln @ TY_NEWLINE # A) L"
    "(ttyread_next (Read_line n count acc) s \<bind> run_read (Suc (length ln + 2))) =
      (case ttyread_next (Read_line (n + 1) count (acc @ [c])) s1 of None \<Rightarrow> None | Some x \<Rightarrow> run_read (length ln + 2) x)"
    using read_step[OF Cons.prems(1) s0 go, of "length ln + 2"] unfolding v by auto
  have "\<exists>s'. (ttyread_next (Read_line (n + 1) count (acc @ [c])) s1 \<bind> run_read (length ln + 2)) =
      Some ((n + 1 + int (length ln) + 1, (acc @ [c]) @ ln @ [TY_NEWLINE]), s') \<and> kinv s' \<and> line_is s' A L"
    by (rule Cons.IH[OF s1(1,2)]) (use Cons.prems c in simp_all)
  then show ?case using s1(3) by (simp add: bind_eq_Some_conv split: option.splits) (auto simp: add.assoc add.commute)
qed

theorem ttyread_line:
  assumes inv: "kinv s" and s: "line_is s (ln @ TY_NEWLINE # A) L" and ln: "\<forall>c \<in> set ln. plain c"
    and count: "int (length ln) < count"
  shows "\<exists>s'. (ttyread count s \<bind> run_read (length ln + 2)) = Some ((int (length ln) + 1, ln @ [TY_NEWLINE]), s') \<and>
    kinv s' \<and> line_is s' A L"
proof -
  have m: "tyimode (tty s) = TY_IMCOOKED" using s by (simp add: line_is_def line_ring_def line_modes_def)
  have rd: "ttyread count s = ttyread_next (Read_first count) s" using m count by (simp add: ttyread_def)
  have go: "ttyread_next (Read_first count) s = do { s \<leftarrow> ttygetc (U_ttyread (Read_first count)) s; Some (Pending, s) }"
    by (simp add: ttyread_next_def)
  show ?thesis
  proof (cases ln)
    case Nil
    have s0: "line_is s (TY_NEWLINE # A) L" using s Nil by simp
    have v: "word_of_int (getc_value TY_NEWLINE) = TY_NEWLINE" "getc_value TY_NEWLINE \<noteq> EOF" by (simp_all add: getc_value_def)
    obtain s' where "kinv s'" "line_is s' A L" "(ttyread_next (Read_first count) s \<bind> run_read (Suc 1)) =
        (case ttyread_next (Read_line 1 count [TY_NEWLINE]) s' of None \<Rightarrow> None | Some x \<Rightarrow> run_read 1 x)"
      using read_step[OF inv s0 go, of 1] v by auto
    then show ?thesis unfolding rd Nil by (intro exI[of _ s']) (simp add: ttyread_next_def)
  next
    case (Cons c ms)
    have s0: "line_is s (c # (ms @ TY_NEWLINE # A)) L" using s Cons by simp
    have c: "plain c" using ln Cons by simp
    have v: "word_of_int (getc_value c) = c" "getc_value c \<noteq> EOF" using c getc_value_char[of c] by (auto simp: plain_def)
    obtain s1 where s1: "kinv s1" "line_is s1 (ms @ TY_NEWLINE # A) L"
      "(ttyread_next (Read_first count) s \<bind> run_read (Suc (length ms + 2))) =
        (case ttyread_next (Read_line 1 count [c]) s1 of None \<Rightarrow> None | Some x \<Rightarrow> run_read (length ms + 2) x)"
      using read_step[OF inv s0 go, of "length ms + 2"] v by auto
    have "\<exists>s'. (ttyread_next (Read_line 1 count [c]) s1 \<bind> run_read (length ms + 2)) =
        Some ((1 + int (length ms) + 1, [c] @ ms @ [TY_NEWLINE]), s') \<and> kinv s' \<and> line_is s' A L"
      by (rule read_tail[OF s1(1,2)]) (use ln c Cons count in simp_all)
    then show ?thesis using s1(3) unfolding rd Cons by (simp add: bind_eq_Some_conv split: option.splits) (auto simp: add.commute)
  qed
qed

section \<open>Start\<close>

lemma semcreate_some:
  assumes inv: "kinv s" and n: "0 \<le> n" "n < 2 ^ 31" and ex: "\<exists>k. sem_ok k \<and> sstate (semtab s k) = S_FREE"
  shows "\<exists>r s'. semcreate n s = Some (r, s') \<and> kinv s' \<and> sem_ok r \<and> sstate (semtab s r) = S_FREE \<and>
    sstate (semtab s' r) = S_USED \<and> scount (semtab s' r) = n \<and> (\<forall>j. j \<noteq> r \<longrightarrow> semtab s' j = semtab s j)"
  using semcreate_inv[OF inv n] unfolding if_P[OF ex] by blast

lemma ttyinit_uart_fields:
  "tty (ttyinit_uart irq intr s) = tty s" "semtab (ttyinit_uart irq intr s) = semtab s"
  "kinv (ttyinit_uart irq intr s) = kinv s" "ier (uart (ttyinit_uart irq intr s)) = 3"
  "irq \<le> 127 \<longrightarrow> intc_vector (ttyinit_uart irq intr s) irq = intr"
  by (cases "irq > 127"; simp add: ttyinit_uart_def set_evec_def ttykickout_def Let_def)+

theorem ttyinit_starts:
  assumes inv: "kinv s" and sems: "\<exists>i j. i \<noteq> j \<and> sem_ok i \<and> sem_ok j \<and> sstate (semtab s i) = S_FREE \<and> sstate (semtab s j) = S_FREE"
  shows "\<exists>s'. ttyinit irq intr s = Some (OK, s') \<and> kinv s' \<and> line_is s' [] [] \<and> out_is s' [] [] \<and>
    (tyitail (tty s') = 0 \<and> \<not> tyoheld (tty s') \<and> echo_modes (tty s') \<and> tyocrlf (tty s') \<and> isem s' \<noteq> osem s') \<and>
    ier (uart s') = 3 \<and> (irq \<le> 127 \<longrightarrow> intc_vector s' irq = intr)"
proof -
  let ?s1 = "set_tty (\<lambda>t. t\<lparr>tyihead := 0, tyitail := 0\<rparr>) s"
  have inv1: "kinv ?s1" and sem1: "semtab ?s1 = semtab s" using inv by (simp_all add: set_tty_def)
  obtain a s2 where s2: "semcreate 0 ?s1 = Some (a, s2)" "kinv s2" "sem_ok a" "sstate (semtab s a) = S_FREE"
    "sstate (semtab s2 a) = S_USED" "scount (semtab s2 a) = 0" "\<forall>j. j \<noteq> a \<longrightarrow> semtab s2 j = semtab s j"
    using semcreate_some[OF inv1, of 0] sems unfolding sem1 by auto
  obtain n2 m2 where f2: "s2 = ?s1\<lparr>nextsem := n2, semtab := m2\<rparr>" using semcreate_frame[OF s2(1)] by blast
  let ?s3 = "set_tty (\<lambda>t. t\<lparr>tyisem := a, tyohead := 0, tyotail := 0\<rparr>) s2"
  have inv3: "kinv ?s3" and sem3: "semtab ?s3 = semtab s2" using s2(2) by (simp_all add: set_tty_def)
  have ex: "\<exists>k. sem_ok k \<and> sstate (semtab s2 k) = S_FREE" using sems s2(7) by metis
  obtain b s4 where s4: "semcreate 64 ?s3 = Some (b, s4)" "kinv s4" "sem_ok b" "sstate (semtab s2 b) = S_FREE"
    "sstate (semtab s4 b) = S_USED" "scount (semtab s4 b) = 64" "\<forall>j. j \<noteq> b \<longrightarrow> semtab s4 j = semtab s2 j"
    using semcreate_some[OF inv3, of 64] ex unfolding sem3 by auto
  obtain n4 m4 where f4: "s4 = ?s3\<lparr>nextsem := n4, semtab := m4\<rparr>" using semcreate_frame[OF s4(1)] by blast
  have ab: "a \<noteq> b" using s2(5) s4(4) by auto
  have a4: "semtab s4 a = semtab s2 a" using s4(7) ab by blast
  let ?s5 = "set_tty (ttyinit_modes b) s4"
  let ?s' = "ttyinit_uart irq intr ?s5"
  have run: "ttyinit irq intr s = Some (OK, ?s')" using s2(1) s4(1) by (simp add: ttyinit_def)
  obtain s' where s': "s' = ?s'" by blast
  have t4: "tyihead (tty s4) = 0" "tyitail (tty s4) = 0" "tyisem (tty s4) = a" "tyohead (tty s4) = 0" "tyotail (tty s4) = 0"
    using f4 f2 by (simp_all add: set_tty_def)
  note U = ttyinit_uart_fields[of irq intr ?s5, folded s']
  have E: "semtab s' = semtab s4" "tyihead (tty s') = 0" "tyitail (tty s') = 0" "tyicursor (tty s') = 0"
    "tyisem (tty s') = a" "tyosem (tty s') = b" "tyohead (tty s') = 0" "tyotail (tty s') = 0" "tyehead (tty s') = 0"
    "tyetail (tty s') = 0" "line_modes (tty s')"
    unfolding U using t4 by (simp_all add: set_tty_def ttyinit_modes_def line_modes_def)
  have "line_is s' [] []" using E s2(3,5,6) a4 ring_empty[of 0 TY_IBUFLEN "tyibuff (tty s')"] by (simp add: line_is_def line_ring_def)
  moreover have "out_is s' [] []"
    using E s4(3,5,6) ring_empty[of 0 TY_EBUFLEN "tyebuff (tty s')"] ring_empty[of 0 TY_OBUFLEN "tyobuff (tty s')"] by (simp add: out_is_def)
  moreover have "kinv s'" using U(3) s4(2) by (simp add: set_tty_def)
  moreover have "tyitail (tty s') = 0 \<and> \<not> tyoheld (tty s') \<and> echo_modes (tty s') \<and> tyocrlf (tty s') \<and> isem s' \<noteq> osem s'"
    using E(3,5,6) ab by (simp add: U(1) set_tty_def ttyinit_modes_def echo_modes_def)
  moreover note run[folded s']
  ultimately show ?thesis using U(4,5) by blast
qed

section \<open>Leaving the buffers\<close>

text \<open>In raw mode the pointer into the input ring is never wrapped: the 129th character is stored outside.\<close>

lemma raw_overrun:
  assumes m: "tyimode (tty s) = TY_IMRAW" and rx: "rx (uart s) = c # d # rest" and t: "tyitail (tty s) = 127"
    and sem: "sem_live s (isem s)" "0 \<le> scount (semtab s (isem s))" "scount (semtab s (isem s)) < 127"
  shows "ttyhandle_in s \<bind> ttyhandle_in = None"
proof -
  let ?s1 = "s\<lparr>uart := (uart s)\<lparr>rx := d # rest\<rparr>, tty := (tty s)\<lparr>tyibuff := (tyibuff (tty s))(127 := c), tyitail := 128\<rparr>\<rparr>"
  let ?s2 = "if tyotail (tty ?s1) \<ge> TY_OBUFLEN then set_tty (\<lambda>t. t\<lparr>tyotail := 0\<rparr>) ?s1 else ?s1"
  have "sem_live ?s2 (isem s)" "scount (semtab ?s2 (isem s)) = scount (semtab s (isem s))" "isem ?s2 = isem s" using sem by (simp_all add: set_tty_def)
  then obtain s3 where s3: "signal (isem ?s2) ?s2 = Some (OK, s3)"
    "s3 = ?s2\<lparr>semtab := (semtab s)(isem s := (semtab s (isem s))\<lparr>scount := scount (semtab s (isem s)) + 1\<rparr>)\<rparr>"
    using signal_idle[where s = ?s2 and k = "isem s"] sem by (auto simp: set_tty_def)
  have "semcount (isem s) s = scount (semtab s (isem s))" using sem(1) by (simp add: semcount_def isbadsem_def)
  then have "avail_in (s\<lparr>uart := (uart s)\<lparr>rx := d # rest\<rparr>\<rparr>) < TY_IBUFLEN" using sem by (simp add: avail_in_def semcount_def Let_def)
  then have "ttyhandle_in s = Some s3"
    using m rx t s3(1) by (simp add: ttyhandle_in_def handle_raw_def i_put_def Let_def)
  moreover have "tyimode (tty s3) = TY_IMRAW" "rx (uart s3) = d # rest" "tyitail (tty s3) = 128" "isem s3 = isem s"
    "semtab s3 (isem s) = (semtab s (isem s))\<lparr>scount := scount (semtab s (isem s)) + 1\<rparr>"
    using s3(2) m by (simp_all add: set_tty_def)
  then have "ttyhandle_in s3 = None"
    using sem by (simp add: ttyhandle_in_def handle_raw_def i_put_def avail_in_def semcount_def isbadsem_def Let_def)
  ultimately show ?thesis by simp
qed

text \<open>In cbreak mode a character is stored without a signal, so a waiting reader is not released.\<close>

definition silent :: "'z ustate_scheme \<Rightarrow> 'z ustate_scheme \<Rightarrow> bool" where
  "silent s s' \<longleftrightarrow> semtab s' = semtab s \<and> queuetab s' = queuetab s \<and> proctab s' = proctab s"

lemma silent_trans: "silent a b \<Longrightarrow> silent b c \<Longrightarrow> silent a c"
  by (simp add: silent_def)

lemma silent_steps:
  "silent s (set_tty f s)" "silent s (ttykickout s)" "silent s (i_wrap s)" "i_put ch s = Some s' \<Longrightarrow> silent s s'"
  "silent s (s\<lparr>uart := u\<rparr>)"
  by (auto simp: silent_def set_tty_def ttykickout_def i_wrap_def i_put_def Let_def split: if_splits)

lemma eputc_silent: "eputc c s = Some s' \<Longrightarrow> silent s s'"
  by (auto simp: silent_def eputc_def ttykickout_def Let_def split: if_splits)

lemma eputs_silent: "eputs cs s = Some s' \<Longrightarrow> silent s s'"
proof (induction cs arbitrary: s)
  case (Cons c cs)
  then show ?case using eputc_silent silent_trans by (fastforce split: option.splits)
qed (simp add: silent_def)

lemma handle_cbreak_silent:
  assumes "handle_cbreak ch s = Some s'"
  shows "silent s s'"
proof (cases "avail_in s \<ge> TY_IBUFLEN")
  case True
  then show ?thesis using assms by (auto simp: handle_cbreak_def intro: eputc_silent)
next
  case False
  then obtain s1 where s1: "i_put ch s = Some s1" and r: "(if tyiecho (tty (i_wrap s1)) then echoch ch (i_wrap s1) else Some (i_wrap s1)) = Some s'"
    using assms by (auto simp: handle_cbreak_def Let_def bind_eq_Some_conv)
  have "silent (i_wrap s1) s'" using r by (auto simp: echoch_def silent_def[of s' s'] split: if_splits intro: eputs_silent)
  then show ?thesis using silent_trans[OF silent_steps(4)[OF s1] silent_trans[OF silent_steps(3)]] by blast
qed

lemma cbreak_silent:
  assumes m: "tyimode (tty s) = TY_IMCBREAK" and run: "ttyhandle_in s = Some s'"
  shows "silent s s'"
proof -
  obtain ch rest where rx: "rx (uart s) = ch # rest" using run by (auto simp: ttyhandle_in_def split: list.splits)
  let ?s0 = "s\<lparr>uart := (uart s)\<lparr>rx := rest\<rparr>\<rparr>"
  obtain c where c: "c = (if ch = TY_RETURN \<and> tyicrlf (tty s) then TY_NEWLINE else ch)" by blast
  have "s' = ttykickout (set_tty (\<lambda>t. t\<lparr>tyoheld := False\<rparr>) ?s0) \<or> s' = set_tty (\<lambda>t. t\<lparr>tyoheld := True\<rparr>) ?s0 \<or>
    handle_cbreak c (set_tty (\<lambda>t. t\<lparr>tyoheld := False\<rparr>) ?s0) = Some s'"
    using run rx m unfolding ttyhandle_in_def c by (auto simp: Let_def split: if_splits)
  moreover have "silent s ?s0" by (rule silent_steps(5))
  ultimately show ?thesis using silent_trans silent_steps(1,2) handle_cbreak_silent by blast
qed

text \<open>A line kill across the wrap moves the head instead of the tail: the tail ends up before the buffer, and the
  next character is stored there.\<close>

lemma kill_underrun:
  assumes m: "line_modes (tty s)" "0 \<le> tyetail (tty s)" "tyetail (tty s) < TY_EBUFLEN" and c: "tyitail (tty s) < tyicursor (tty s)"
  shows "\<exists>s'. handle_cooked TY_KILLCH s = Some s' \<and> tyitail (tty s') < 0 \<and> tyihead (tty s') = tyihead (tty s) + TY_IBUFLEN \<and>
    handle_cooked TY_NEWLINE s' = None"
proof -
  let ?s1 = "set_tty (\<lambda>t. t\<lparr>tyitail := tyitail t - tyicursor t, tyihead := tyihead t + TY_IBUFLEN, tyicursor := 0\<rparr>) s"
  have "0 \<le> tyetail (tty ?s1)" "tyetail (tty ?s1) < TY_EBUFLEN" using m by (simp_all add: set_tty_def)
  then obtain b a i where e: "eputs [TY_RETURN, TY_NEWLINE] ?s1 = Some (echoed ?s1 b a i)" "0 \<le> a" "a < TY_EBUFLEN"
    using eputs_runs[of ?s1] by blast
  let ?s' = "echoed ?s1 b a i"
  have run: "handle_cooked TY_KILLCH s = Some ?s'"
    using m(1) c e(1) by (simp add: handle_cooked_def line_modes_def set_tty_def Let_def)
  obtain s' where s': "s' = ?s'" by blast
  have F: "0 \<le> tyetail (tty s')" "tyetail (tty s') < TY_EBUFLEN" "line_modes (tty s')" "tyitail (tty s') < 0"
    "tyihead (tty s') = tyihead (tty s) + TY_IBUFLEN" "tyicursor (tty s') = 0"
    using m(1) e(2,3) c by (simp_all add: s' set_tty_def line_modes_def)
  obtain b2 a2 i2 where e2: "(if tyiecho (tty s') then echoch TY_NEWLINE s' else Some s') = Some (echoed s' b2 a2 i2)"
    using echo_in_range[OF F(1,2)] by blast
  have "i_put TY_NEWLINE (echoed s' b2 a2 i2) = None" using F(4) by (simp add: i_put_def Let_def)
  then have "handle_cooked TY_NEWLINE s' = None"
    using F(3) e2 by (simp add: handle_cooked_def line_modes_def Let_def)
  then show ?thesis using run F(4,5) s' by blast
qed

end
