(* ===== verification/Tty_Console.thy ===== *)
theory Tty_Console
  imports Tty_IO Simulation
begin

text \<open>
  The console as a whole, in the mode it starts in. Its specification is a line editor with an echo: the complete lines
  a reader may take, the line being edited, what waits to be echoed and to be sent, and whether output is held. Typing,
  reading, writing and sending are shown to refine it.
\<close>

section \<open>The line editor\<close>

text \<open>\<open>c_place\<close> is the place in the input ring the next character goes to; only line kill and end of file, whose wrapping
  is wrong or missing in the driver, depend on it.\<close>

record con =
  c_avail :: "byte list"
  c_line :: "byte list"
  c_place :: int
  c_held :: bool
  c_echo :: "byte list"
  c_out :: "byte list"

definition shown :: "byte \<Rightarrow> byte list" where
  "shown ch = (if ch = TY_NEWLINE \<or> ch = TY_RETURN then [TY_RETURN, TY_NEWLINE]
     else if ch < TY_BLANK \<or> ch = DEL then [TY_UPARROW, ch + 64] else [ch])"

definition rubout :: "byte \<Rightarrow> byte list" where
  "rubout ch = (let r = [TY_BACKSP, TY_BLANK, TY_BACKSP] in if ch < TY_BLANK \<or> ch = DEL then r @ r else r)"

definition con_echo :: "byte list \<Rightarrow> con \<Rightarrow> con option" where
  "con_echo X c = (if length (c_echo c) + length X < 20 then Some (c\<lparr>c_echo := c_echo c @ X\<rparr>) else None)"

text \<open>A key that is not flow control. \<open>None\<close> are the cases in which the driver leaves its rings: more echo than the echo
  ring holds, a newline when the input ring is full, line kill of a line that goes round the end of the ring, and end of
  file in the last place.\<close>

definition con_edit :: "byte \<Rightarrow> con \<Rightarrow> con option" where
  "con_edit ch c =
     (let A = c_avail c; L = c_line c; p = c_place c in
      if ch = TY_KILLCH
      then (if p < int (length L) then None
            else con_echo [TY_RETURN, TY_NEWLINE] (c\<lparr>c_line := [], c_place := p - int (length L)\<rparr>))
      else if ch = TY_BACKSP
      then (if L = [] then Some c
            else con_echo (rubout (last L)) (c\<lparr>c_line := butlast L, c_place := (if p = 0 then 127 else p - 1)\<rparr>))
      else if ch = TY_NEWLINE
      then (if length (A @ L) \<ge> 128 then None
            else con_echo (shown ch) (c\<lparr>c_avail := A @ L @ [ch], c_line := [], c_place := wrap TY_IBUFLEN p\<rparr>))
      else if length (A @ L) \<ge> 127 then con_echo [TY_BELL] c
      else if ch = TY_EOFCH
      then (if L \<noteq> [] then con_echo (shown ch) c
            else if p \<ge> 127 then None
            else con_echo (shown ch) (c\<lparr>c_avail := A @ [ch], c_place := p + 1\<rparr>))
      else con_echo (shown ch) (c\<lparr>c_line := L @ [ch], c_place := wrap TY_IBUFLEN p\<rparr>))"

definition con_key :: "byte \<Rightarrow> con \<Rightarrow> con option" where
  "con_key ch c =
     (let ch = (if ch = TY_RETURN then TY_NEWLINE else ch) in
      if ch = TY_STRTCH then Some (c\<lparr>c_held := False\<rparr>)
      else if ch = TY_STOPCH then Some (c\<lparr>c_held := True\<rparr>)
      else con_edit ch (c\<lparr>c_held := False\<rparr>))"

fun con_keys :: "byte list \<Rightarrow> con \<Rightarrow> con option" where
  "con_keys [] c = Some c"
| "con_keys (ch # chs) c = (case con_key ch c of None \<Rightarrow> None | Some c \<Rightarrow> con_keys chs c)"

section \<open>A state of the driver\<close>

definition con_at :: "'z ustate_scheme \<Rightarrow> con \<Rightarrow> bool" where
  "con_at s c \<longleftrightarrow> line_is s (c_avail c) (c_line c) \<and> out_is s (c_echo c) (c_out c) \<and> tyitail (tty s) = c_place c \<and>
     tyoheld (tty s) = c_held c \<and> echo_modes (tty s) \<and> tyocrlf (tty s) \<and> isem s \<noteq> osem s"

lemma con_atD:
  assumes "con_at s c"
  shows "line_is s (c_avail c) (c_line c)" "out_is s (c_echo c) (c_out c)" "tyitail (tty s) = c_place c"
    "tyoheld (tty s) = c_held c" "echo_modes (tty s)" "tyocrlf (tty s)" "isem s \<noteq> osem s"
  using assms by (simp_all add: con_at_def)

lemma con_at_cong:
  assumes "con_at s c" "tty s' = tty s" "semtab s' = semtab s"
  shows "con_at s' c"
  using assms by (simp add: con_at_def line_is_def out_is_def)

lemma echo_modes_text: "echo_modes (tty s) \<Longrightarrow> echo_text ch s = shown ch" "echo_modes t \<Longrightarrow> erase_of ch t = rubout ch"
  by (auto simp: echo_modes_def echo_of_def shown_def erase_of_def rubout_def Let_def)

section \<open>Keys\<close>

text \<open>What a key did to the rings is the step of the line editor.\<close>

lemma con_at_key:
  assumes at: "con_at s c" and l: "line_is s' A L" and k: "key_frame X p s s'"
    and c': "con_echo X (c\<lparr>c_avail := A, c_line := L, c_place := p\<rparr>) = Some c'"
  shows "con_at s' c'"
proof -
  note C = con_atD[OF at] and O = out_isD[OF con_atD(2)[OF at]]
  have room: "length (c_echo c) + length X < 20" and e: "c' = c\<lparr>c_avail := A, c_line := L, c_place := p, c_echo := c_echo c @ X\<rparr>"
    using c' by (auto simp: con_echo_def split: if_splits)
  obtain t u n where F: "s' = s\<lparr>tty := t, uart := u, semtab := (semtab s)(isem s := (semtab s (isem s))\<lparr>scount := n\<rparr>)\<rparr>"
    "tyisem t = isem s" "tyosem t = tyosem (tty s)" "tyohead t = tyohead (tty s)" "tyotail t = tyotail (tty s)"
    "tyobuff t = tyobuff (tty s)" using k by (auto simp: key_frame_def in_frame_def)
  have K: "tyitail t = p" "tyoheld t = tyoheld (tty s)" "echo_modes t" "tyocrlf t" "tyehead t = tyehead (tty s)"
    "echo_put s X (tyebuff t) (tyetail t)" using k C(5,6) by (simp_all add: key_frame_def F(1))
  have "ring TY_EBUFLEN (tyebuff t) (tyehead (tty s)) (tyetail t) (c_echo c @ X)"
    using K(6) O(1) room unfolding echo_put_def by blast
  then have "out_is s' (c_echo c @ X) (c_out c)" using O room C(7) by (simp add: out_is_def F(1)) (simp add: F(2-) K(5))
  then show ?thesis using l K F C by (simp add: con_at_def e)
qed

lemma con_edit_step:
  assumes at: "con_at s c" and ed: "con_edit ch c = Some c'" and d: "0 < ndefers s" "ndefers s < 2 ^ 31 - 1"
    and ch: "ch \<noteq> TY_RETURN"
  shows "\<exists>s'. handle_cooked ch s = Some s' \<and> con_at s' c' \<and> in_frame s s'"
proof -
  let ?A = "c_avail c" and ?L = "c_line c" and ?p = "c_place c"
  note C = con_atD[OF at] and E = echo_modes_text[OF con_atD(5)[OF at]]
  have bell: "tyifullc (tty s) = TY_BELL" using C(5) by (simp add: echo_modes_def)
  have fin: ?thesis if "handle_cooked ch s = Some s'" "line_is s' A L" "key_frame X p s s'"
    "con_echo X (c\<lparr>c_avail := A, c_line := L, c_place := p\<rparr>) = Some c'" for s' A L X p
    using that(1) con_at_key[OF at that(2-4)] that(3) by (auto simp: key_frame_def)
  have same: "c\<lparr>c_avail := ?A, c_line := ?L, c_place := ?p\<rparr> = c" "c\<lparr>c_avail := ?A\<rparr> = c" by simp_all
  consider (kill) "ch = TY_KILLCH" "int (length ?L) \<le> ?p"
    | (erase) "ch = TY_BACKSP" | (newline) "ch = TY_NEWLINE" "length (?A @ ?L) < 128"
    | (bell) "ch \<notin> {TY_KILLCH, TY_BACKSP, TY_NEWLINE, TY_RETURN}" "length (?A @ ?L) \<ge> 127"
    | (eof) "ch = TY_EOFCH" "length (?A @ ?L) < 127" "?L \<noteq> []"
    | (alone) "ch = TY_EOFCH" "length ?A < 127" "?L = []" "?p < 127"
    | (ordinary) "ch \<notin> {TY_KILLCH, TY_BACKSP, TY_NEWLINE, TY_RETURN, TY_EOFCH}" "length (?A @ ?L) < 127"
    using ed ch by (auto simp: con_edit_def Let_def split: if_splits)
  then show ?thesis
  proof cases
    case kill
    obtain s' where "handle_cooked ch s = Some s'" "line_is s' ?A []" "key_frame [TY_RETURN, TY_NEWLINE] (?p - int (length ?L)) s s'"
      using kill_key[OF C(1)] kill C(3) by auto
    then show ?thesis by (rule fin) (use ed kill in \<open>simp add: con_edit_def Let_def\<close>)
  next
    case erase
    obtain s' where s': "handle_cooked ch s = Some s'" "line_is s' ?A (butlast ?L)"
      "key_frame (if ?L = [] then [] else rubout (last ?L)) (if ?L = [] then ?p else if ?p = 0 then TY_IBUFLEN - 1 else ?p - 1) s s'"
      using erase_key[OF C(1)] unfolding C(3) E(2) erase by blast
    show ?thesis
    proof (rule fin[OF s'])
      have "length (c_echo c) < 20" using out_isD(2)[OF C(2)] .
      then show "con_echo (if ?L = [] then [] else rubout (last ?L))
          (c\<lparr>c_avail := ?A, c_line := butlast ?L, c_place := (if ?L = [] then ?p else if ?p = 0 then TY_IBUFLEN - 1 else ?p - 1)\<rparr>) = Some c'"
        using ed erase by (cases "?L = []"; cases "?p = 0") (simp_all add: con_edit_def Let_def con_echo_def split: if_splits)
    qed
  next
    case newline
    obtain s' where "handle_cooked ch s = Some s'" "line_is s' (?A @ ?L @ [TY_NEWLINE]) []" "key_frame (shown TY_NEWLINE) (wrap TY_IBUFLEN ?p) s s'"
      using newline_key[OF C(1) newline(2) d] newline C(3) E(1)[of TY_NEWLINE] by auto
    then show ?thesis by (rule fin) (use ed newline in \<open>simp add: con_edit_def Let_def\<close>)
  next
    case bell
    obtain s' where "handle_cooked ch s = Some s'" "line_is s' ?A ?L" "key_frame [TY_BELL] ?p s s'"
      using bell_key[OF C(1) bell(2,1)] C(3) \<open>tyifullc (tty s) = TY_BELL\<close> by auto
    then show ?thesis by (rule fin) (use ed bell in \<open>simp add: con_edit_def Let_def\<close>)
  next
    case eof
    obtain s' where "handle_cooked ch s = Some s'" "line_is s' ?A ?L" "key_frame (shown TY_EOFCH) ?p s s'"
      using eof_key[OF C(1) eof(2,3)] eof(1) C(3) E(1)[of TY_EOFCH] by auto
    then show ?thesis by (rule fin) (use ed eof in \<open>simp add: con_edit_def Let_def\<close>)
  next
    case alone
    have l: "line_is s ?A []" "tyitail (tty s) < 127" using C(1,3) alone by simp_all
    obtain s' where "handle_cooked ch s = Some s'" "line_is s' (?A @ [TY_EOFCH]) []" "key_frame (shown TY_EOFCH) (?p + 1) s s'"
      using eof_alone[OF l(1) alone(2) l(2)] alone(1) C(3) E(1)[of TY_EOFCH] by auto
    then show ?thesis
    proof (rule fin)
      have e: "c\<lparr>c_avail := x, c_line := [], c_place := y\<rparr> = c\<lparr>c_avail := x, c_place := y\<rparr>" for x y
        using alone(3) by (intro con.equality) simp_all
      show "con_echo (shown TY_EOFCH) (c\<lparr>c_avail := ?A @ [TY_EOFCH], c_line := [], c_place := ?p + 1\<rparr>) = Some c'"
        unfolding e using ed alone by (simp add: con_edit_def Let_def)
    qed
  next
    case ordinary
    obtain s' where "handle_cooked ch s = Some s'" "line_is s' ?A (?L @ [ch])" "key_frame (shown ch) (wrap TY_IBUFLEN ?p) s s'"
      using ordinary_key[OF C(1) ordinary(2,1)] C(3) E(1)[of ch] by auto
    then show ?thesis by (rule fin) (use ed ordinary in \<open>simp add: con_edit_def Let_def\<close>)
  qed
qed

text \<open>\<open>in_frame\<close> when characters have been taken off the UART.\<close>

definition in_step :: "'z ustate_scheme \<Rightarrow> 'z ustate_scheme \<Rightarrow> bool" where
  "in_step s s' \<longleftrightarrow> (\<exists>t u n. s' = s\<lparr>tty := t, uart := u, semtab := (semtab s)(isem s := (semtab s (isem s))\<lparr>scount := n\<rparr>)\<rparr> \<and>
     tyisem t = isem s \<and> tyosem t = tyosem (tty s) \<and> tyohead t = tyohead (tty s) \<and> tyotail t = tyotail (tty s) \<and>
     tyobuff t = tyobuff (tty s) \<and> tx u = tx (uart s))"

lemma in_step_trans: "in_step s1 s2 \<Longrightarrow> in_step s2 s3 \<Longrightarrow> in_step s1 s3"
  unfolding in_step_def by (elim exE conjE, intro exI conjI) (assumption | simp)+

lemma in_frame_step: "in_frame (s\<lparr>uart := (uart s)\<lparr>rx := r\<rparr>\<rparr>) s' \<Longrightarrow> in_step s s'"
proof -
  assume "in_frame (s\<lparr>uart := (uart s)\<lparr>rx := r\<rparr>\<rparr>) s'"
  then obtain t u n where F: "s' = s\<lparr>uart := (uart s)\<lparr>rx := r\<rparr>\<rparr>\<lparr>tty := t, uart := u,
      semtab := (semtab s)(isem s := (semtab s (isem s))\<lparr>scount := n\<rparr>)\<rparr>"
    "tyisem t = isem s" "tyosem t = tyosem (tty s)" "tyohead t = tyohead (tty s)" "tyotail t = tyotail (tty s)"
    "tyobuff t = tyobuff (tty s)" "tx u = tx (uart s)" by (auto simp: in_frame_def)
  have "s' = s\<lparr>tty := t, uart := u, semtab := (semtab s)(isem s := (semtab s (isem s))\<lparr>scount := n\<rparr>)\<rparr>"
    unfolding F(1) by (rule ustate.equality) simp_all
  then show ?thesis using F(2-) unfolding in_step_def by blast
qed

lemma in_step_refl: "in_step s s"
  unfolding in_step_def
  by (rule exI[of _ "tty s"], rule exI[of _ "uart s"], rule exI[of _ "scount (semtab s (isem s))"], intro conjI ustate.equality)
    simp_all

lemma in_step_fields:
  assumes "in_step s s'"
  shows "ndefers s' = ndefers s" "attempt s' = attempt s" "currpid s' = currpid s" "tx (uart s') = tx (uart s)"
  using assms by (auto simp: in_step_def)

lemma con_key_step:
  assumes at: "con_at s c" and rx: "rx (uart s) = ch # rest" and key: "con_key ch c = Some c'"
    and d: "0 < ndefers s" "ndefers s < 2 ^ 31 - 1"
  shows "\<exists>s'. ttyhandle_in s = Some s' \<and> con_at s' c' \<and> rx (uart s') = rest \<and> in_step s s'"
proof -
  let ?s0 = "s\<lparr>uart := (uart s)\<lparr>rx := rest\<rparr>\<rparr>"
  obtain k where k: "k = (if ch = TY_RETURN then TY_NEWLINE else ch)" by blast
  have m: "line_modes (tty s)" using con_atD(1)[OF at] by (simp add: line_is_def line_ring_def)
  have run: "ttyhandle_in s =
      (if k = TY_STRTCH then Some (ttykickout (set_tty (\<lambda>t. t\<lparr>tyoheld := False\<rparr>) ?s0))
       else if k = TY_STOPCH then Some (set_tty (\<lambda>t. t\<lparr>tyoheld := True\<rparr>) ?s0)
       else handle_cooked k (set_tty (\<lambda>t. t\<lparr>tyoheld := False\<rparr>) ?s0))"
    using rx m k by (simp add: ttyhandle_in_def line_modes_def Let_def)
  have held: "con_at (set_tty (\<lambda>t. t\<lparr>tyoheld := h\<rparr>) ?s0) (c\<lparr>c_held := h\<rparr>)" "in_frame ?s0 (set_tty (\<lambda>t. t\<lparr>tyoheld := h\<rparr>) ?s0)" for h
  proof -
    show "con_at (set_tty (\<lambda>t. t\<lparr>tyoheld := h\<rparr>) ?s0) (c\<lparr>c_held := h\<rparr>)"
      using con_atD[OF at] by (simp add: con_at_def line_is_def line_ring_def line_modes_def out_is_def echo_modes_def set_tty_def)
    show "in_frame ?s0 (set_tty (\<lambda>t. t\<lparr>tyoheld := h\<rparr>) ?s0)" unfolding set_tty_def by (rule in_frame_tty1) simp_all
  qed
  have fin: ?thesis if "ttyhandle_in s = Some s'" "con_at s' c'" "in_frame ?s0 s'" for s'
  proof -
    have "rx (uart s') = rest" using that(3) by (auto simp: in_frame_def)
    then show ?thesis using that in_frame_step by blast
  qed
  consider (start) "k = TY_STRTCH" "c' = c\<lparr>c_held := False\<rparr>" | (stop) "k = TY_STOPCH" "c' = c\<lparr>c_held := True\<rparr>"
    | (edit) "k \<noteq> TY_STRTCH" "k \<noteq> TY_STOPCH" "con_edit k (c\<lparr>c_held := False\<rparr>) = Some c'"
    using key unfolding con_key_def k[symmetric] Let_def by (auto split: if_splits)
  then show ?thesis
  proof cases
    case start
    let ?s1 = "set_tty (\<lambda>t. t\<lparr>tyoheld := False\<rparr>) ?s0"
    have "con_at (ttykickout ?s1) c'"
      by (rule con_at_cong[OF held(1)[of False, folded start(2)]]) (simp_all add: ttykickout_def)
    moreover have "in_frame ?s0 (ttykickout ?s1)"
    proof (rule in_frame_trans[OF held(2)[of False]])
      have "ttykickout ?s1 = ?s1\<lparr>tty := tty ?s1, uart := uart (ttykickout ?s1)\<rparr>" by (rule ustate.equality) (simp_all add: ttykickout_def)
      moreover have "in_frame ?s1 (?s1\<lparr>tty := tty ?s1, uart := uart (ttykickout ?s1)\<rparr>)"
        by (rule in_frame_tty) (simp_all add: ttykickout_def set_tty_def)
      ultimately show "in_frame ?s1 (ttykickout ?s1)" by metis
    qed
    ultimately show ?thesis by (intro fin[of "ttykickout ?s1"]) (use run start in simp_all)
  next
    case stop
    show ?thesis by (rule fin[OF _ held(1)[of True, folded stop(2)] held(2)]) (use run stop in simp)
  next
    case edit
    have d': "0 < ndefers (set_tty (\<lambda>t. t\<lparr>tyoheld := False\<rparr>) ?s0)" "ndefers (set_tty (\<lambda>t. t\<lparr>tyoheld := False\<rparr>) ?s0) < 2 ^ 31 - 1"
      using d by (simp_all add: set_tty_def)
    have nr: "k \<noteq> TY_RETURN" using k by auto
    obtain s' where s': "handle_cooked k (set_tty (\<lambda>t. t\<lparr>tyoheld := False\<rparr>) ?s0) = Some s'" "con_at s' c'"
      "in_frame (set_tty (\<lambda>t. t\<lparr>tyoheld := False\<rparr>) ?s0) s'"
      using con_edit_step[OF held(1) edit(3) d' nr] by blast
    show ?thesis by (rule fin[OF _ s'(2) in_frame_trans[OF held(2) s'(3)]]) (use run edit s'(1) in simp)
  qed
qed

section \<open>The receive interrupt\<close>

lemma drain_rx_keys:
  assumes "con_at s c" "rx (uart s) = chs" "con_keys chs c = Some c'" "0 < ndefers s" "ndefers s < 2 ^ 31 - 1"
  shows "\<exists>s'. drain_rx s = Some s' \<and> con_at s' c' \<and> in_step s s'"
  using assms
proof (induction chs arbitrary: s c)
  case Nil
  then show ?case using drain_rx.simps[of s] in_step_refl[of s] by auto
next
  case (Cons ch chs)
  obtain c1 where k: "con_key ch c = Some c1" "con_keys chs c1 = Some c'" using Cons.prems(3) by (auto split: option.splits)
  obtain s1 where s1: "ttyhandle_in s = Some s1" "con_at s1 c1" "rx (uart s1) = chs" "in_step s s1"
    using con_key_step[OF Cons.prems(1,2) k(1) Cons.prems(4,5)] by blast
  obtain s2 where s2: "drain_rx s1 = Some s2" "con_at s2 c'" "in_step s1 s2"
    using Cons.IH[OF s1(2,3) k(2)] Cons.prems(4,5) in_step_fields(1)[OF s1(4)] by auto
  have "drain_rx s = Some s2" using drain_rx.simps[of s] s1(1) s2(1) Cons.prems(2) by simp
  then show ?case using s2(2) in_step_trans[OF s1(4) s2(3)] by blast
qed

theorem ttyhandler_keys:
  assumes inv: "kinv s" and at: "con_at s c" and keys: "con_keys (rx (uart s)) c = Some c'"
  shows "\<exists>s'. ttyhandler 4 brk s = Some s' \<and> kinv s' \<and> con_at s' c' \<and> tx (uart s') = tx (uart s) \<and> currpid s' = currpid s"
proof -
  let ?s1 = "s\<lparr>ndefers := 1, attempt := False\<rparr>"
  have nd: "ndefers s = 0" by (rule kinvD(3)[OF inv])
  have start: "resched_cntl DEFER_START s = Some (OK, ?s1)" using nd by (simp add: resched_cntl_def s32_id Let_def)
  have "con_at ?s1 c" by (rule con_at_cong[OF at]) simp_all
  then obtain s2 where s2: "drain_rx ?s1 = Some s2" "con_at s2 c'" "in_step ?s1 s2"
    using drain_rx_keys[of ?s1 c _ c'] keys by auto
  note F = in_step_fields[OF s2(3)] and l2 = con_atD(1)[OF s2(2)] and l = con_atD(1)[OF at]
  let ?s' = "s2\<lparr>ndefers := 0\<rparr>"
  have stop: "resched_cntl DEFER_STOP s2 = Some (OK, ?s')" using F by (simp add: resched_cntl_def Let_def)
  obtain t u n where E: "s2 = ?s1\<lparr>tty := t, uart := u, semtab := (semtab s)(isem s := (semtab s (isem s))\<lparr>scount := n\<rparr>)\<rparr>" "tyisem t = isem s"
    using s2(3) by (auto simp: in_step_def)
  have live: "sem_live s (isem s)" "0 \<le> scount (semtab s (isem s))" using l by (auto simp: line_is_def)
  have "ring TY_IBUFLEN (tyibuff (tty s2)) (tyihead (tty s2)) (tyitail (tty s2)) (c_avail c' @ c_line c')"
    "scount (semtab s2 (isem s2)) = int (length (c_avail c'))"
    using l2 by (auto simp: line_is_def line_ring_def)
  then have "n = int (length (c_avail c'))" "int (length (c_avail c')) \<le> TY_IBUFLEN" using ringD(5) E by fastforce+
  then have n: "0 \<le> n" "n < 2 ^ 31" by simp_all
  let ?s3 = "s\<lparr>semtab := (semtab s)(isem s := (semtab s (isem s))\<lparr>scount := n\<rparr>)\<rparr>"
  have "?s' = ?s3\<lparr>attempt := False\<rparr>\<lparr>tty := t, uart := u\<rparr>" unfolding E(1) using nd by (intro ustate.equality) simp_all
  then have inv': "kinv ?s'" using kinv_count[OF inv live n] by simp
  have "con_at ?s' c'" by (rule con_at_cong[OF s2(2)]) simp_all
  moreover have "ttyhandler 4 brk s = Some ?s'" using start s2(1) stop by (simp add: ttyhandler_def)
  ultimately show ?thesis using inv' F by (intro exI[of _ ?s']) simp
qed

section \<open>The console as a simulation\<close>

text \<open>Characters typed (they arrive by one receive interrupt), a character read, a buffer written, and a transmit interrupt
  that finds \<open>lvl\<close> characters in the UART's FIFO; the reply of the last is what it sends.\<close>

datatype con_call = Keys "byte list" | Getc | Write "byte list" | Send int

fun con_step :: "con_call \<Rightarrow> 'z ustate_scheme \<Rightarrow> (int list \<times> 'z ustate_scheme) option" where
  "con_step (Keys cs) s = map_option (Pair []) (ttyhandler 4 False (s\<lparr>uart := (uart s)\<lparr>rx := cs\<rparr>\<rparr>))"
| "con_step Getc s = do {
     s' \<leftarrow> ttygetc U_ttygetc s;
     if currpid s' = currpid s then do { (v, s) \<leftarrow> ttygetc_rest s'; Some ([v], s) } else None }"
| "con_step (Write bs) s = do {
     x \<leftarrow> ttywrite bs (int (length bs)) s;
     (v, s) \<leftarrow> run_puts (Suc (length (out_chars (tyocrlf (tty s)) (map (Pair False) bs)))) x;
     Some ([v], s) }"
| "con_step (Send lvl) s = do {
     s \<leftarrow> ttyhandler 2 False (s\<lparr>uart := (uart s)\<lparr>tx := [], txfifo_lvl := lvl\<rparr>\<rparr>);
     Some (map uint (tx (uart s)), s) }"

fun con_spec :: "con_call \<Rightarrow> con \<Rightarrow> (int list \<times> con) option" where
  "con_spec (Keys cs) c = map_option (Pair []) (con_keys cs c)"
| "con_spec Getc c = (case c_avail c of [] \<Rightarrow> None | ch # A \<Rightarrow> Some ([getc_value ch], c\<lparr>c_avail := A\<rparr>))"
| "con_spec (Write bs) c =
     (let X = out_chars True (map (Pair False) bs) in
      if bs \<noteq> [] \<and> length (c_out c) + length X \<le> 64 then Some ([OK], c\<lparr>c_out := c_out c @ X\<rparr>) else None)"
| "con_spec (Send lvl) c =
     (if c_held c then Some ([], c)
      else let u = nat (64 - lvl); v = u - length (c_echo c) in
        Some (map uint (take u (c_echo c) @ take v (c_out c)), c\<lparr>c_echo := drop u (c_echo c), c_out := drop v (c_out c)\<rparr>))"

definition console :: "'z ustate_scheme \<Rightarrow> con \<Rightarrow> bool" where
  "console s c \<longleftrightarrow> kinv s \<and> con_at s c"

definition con_start :: con where
  "con_start = \<lparr>c_avail = [], c_line = [], c_place = 0, c_held = False, c_echo = [], c_out = []\<rparr>"

lemma ttyinit_console:
  assumes "kinv s" "\<exists>i j. i \<noteq> j \<and> sem_ok i \<and> sem_ok j \<and> sstate (semtab s i) = S_FREE \<and> sstate (semtab s j) = S_FREE"
  shows "\<exists>s'. ttyinit irq intr s = Some (OK, s') \<and> console s' con_start \<and>
    ier (uart s') = 3 \<and> (irq \<le> 127 \<longrightarrow> intc_vector s' irq = intr)"
proof -
  obtain s' where "ttyinit irq intr s = Some (OK, s')" "kinv s'" "line_is s' [] []" "out_is s' [] []"
    "tyitail (tty s') = 0 \<and> \<not> tyoheld (tty s') \<and> echo_modes (tty s') \<and> tyocrlf (tty s') \<and> isem s' \<noteq> osem s'"
    "ier (uart s') = 3" "irq \<le> 127 \<longrightarrow> intc_vector s' irq = intr"
    using ttyinit_starts[OF assms, of irq intr] by blast
  then show ?thesis by (intro exI[of _ s']) (simp add: console_def con_at_def con_start_def)
qed

text \<open>The output side and a reader leave the other side's part alone.\<close>

lemma con_at_out:
  assumes at: "con_at s c" and o': "out_is s' E W" and fr: "out_frame s s'"
  shows "con_at s' (c\<lparr>c_echo := E, c_out := W\<rparr>)"
proof -
  note C = con_atD[OF at]
  obtain b a h g where t: "tty s' = (tty s)\<lparr>tyobuff := b, tyotail := a, tyehead := h, tyohead := g\<rparr>"
    and k: "semtab s' (isem s) = semtab s (isem s)" using fr C(7) unfolding out_frame_def by blast
  have "line_is s' (c_avail c) (c_line c)"
    using C(1) k by (simp add: line_is_def line_ring_def line_modes_def t)
  then show ?thesis using C o' by (simp add: con_at_def t echo_modes_def)
qed

lemma con_at_get:
  assumes at: "con_at s c" and l: "line_is s' A (c_line c)" and t: "tty s' = (tty s)\<lparr>tyihead := h\<rparr>"
    and k: "\<forall>k. k \<noteq> isem s \<longrightarrow> semtab s' k = semtab s k"
  shows "con_at s' (c\<lparr>c_avail := A\<rparr>)"
proof -
  note C = con_atD[OF at]
  have "semtab s' (osem s) = semtab s (osem s)" using k C(7) by metis
  then have "out_is s' (c_echo c) (c_out c)" using C(2) by (simp add: out_is_def t)
  then show ?thesis using C l by (simp add: con_at_def t echo_modes_def)
qed

interpretation con: simulation console con_step con_spec
proof unfold_locales
  fix s :: "'z ustate_scheme" and c x r c'
  assume con: "console s c" and spec: "con_spec x c = Some (r, c')"
  have inv: "kinv s" and at: "con_at s c" using con by (simp_all add: console_def)
  note C = con_atD[OF at]
  show "\<exists>s'. con_step x s = Some (r, s') \<and> console s' c'"
  proof (cases x)
    case (Keys cs)
    let ?s = "s\<lparr>uart := (uart s)\<lparr>rx := cs\<rparr>\<rparr>"
    have "kinv ?s" "con_at ?s c" "con_keys (rx (uart ?s)) c = Some c'" "r = []"
      using inv spec Keys con_at_cong[OF at, of ?s] by auto
    then show ?thesis using ttyhandler_keys[of ?s c c' False] Keys by (auto simp: console_def)
  next
    case Getc
    then obtain v D where A: "c_avail c = v # D" "r = [getc_value v]" "c' = c\<lparr>c_avail := D\<rparr>" using spec by (auto split: list.splits)
    obtain s1 s' h where s': "ttygetc U_ttygetc s = Some s1" "currpid s1 = currpid s" "ttygetc_rest s1 = Some (getc_value v, s')" "kinv s'"
      "line_is s' D (c_line c)" "tty s' = (tty s)\<lparr>tyihead := h\<rparr>" "\<forall>k. k \<noteq> isem s \<longrightarrow> semtab s' k = semtab s k"
      using getc_takes[OF inv C(1)[unfolded A(1)], of U_ttygetc] by blast
    then show ?thesis using con_at_get[OF at s'(5-7)] A Getc by (simp add: console_def)
  next
    case (Write bs)
    let ?X = "out_chars True (map (Pair False) bs)"
    have W: "bs \<noteq> []" "length (c_out c) + length ?X \<le> 64" "r = [OK]" "c' = c\<lparr>c_out := c_out c @ ?X\<rparr>"
      using spec Write by (auto simp: Let_def split: if_splits)
    have cr: "tyocrlf (tty s) = True" using C(6) by simp
    have n: "length bs = nat (int (length bs))" "0 < int (length bs)" using W(1) by simp_all
    obtain s' where s': "(ttywrite bs (int (length bs)) s \<bind> run_puts (Suc (length ?X))) = Some (OK, s')" "kinv s'"
      "out_is s' (c_echo c) (c_out c @ ?X)" "out_frame s s'"
      using ttywrite_puts[OF inv C(2) n] W(2) unfolding cr by blast
    have "con_step x s = Some (r, s')" using s'(1) cr W(3) Write by (auto simp: bind_eq_Some_conv)
    then show ?thesis using con_at_out[OF at s'(3,4)] s'(2) W(4) by (simp add: console_def)
  next
    case (Send lvl)
    let ?s = "s\<lparr>uart := (uart s)\<lparr>tx := [], txfifo_lvl := lvl\<rparr>\<rparr>"
    have pre: "kinv ?s" "con_at ?s c" using inv con_at_cong[OF at, of ?s] by simp_all
    have h: "ttyhandler 2 False ?s = ttyhandle_out ?s" by (simp add: ttyhandler_def)
    show ?thesis
    proof (cases "c_held c")
      case True
      then have "tyoheld (tty ?s)" using C(4) by simp
      then have "ttyhandle_out ?s = Some ?s" by (simp add: ttyhandle_out_def)
      then show ?thesis using True spec Send h pre by (simp add: console_def)
    next
      case False
      then have nh: "\<not> tyoheld (tty ?s)" using C(4) by simp
      let ?u = "nat (64 - lvl)" and ?v = "nat (64 - lvl) - length (c_echo c)"
      obtain s' where s': "ttyhandle_out ?s = Some s'" "kinv s'" "out_is s' (drop ?u (c_echo c)) (drop ?v (c_out c))"
        "tx (uart s') = take ?u (c_echo c) @ take ?v (c_out c)" "out_frame ?s s'"
        using ttyhandle_out_sends[OF pre(1) con_atD(2)[OF pre(2)] nh] by auto
      have "con_step x s = Some (r, s')" "c' = c\<lparr>c_echo := drop ?u (c_echo c), c_out := drop ?v (c_out c)\<rparr>"
        using spec False Send h s'(1,4) by (auto simp: Let_def)
      then show ?thesis using con_at_out[OF pre(2) s'(3,5)] s'(2) by (simp add: console_def)
    qed
  qed
qed

end
