(* ===== verification/Lib_Sort.thy ===== *)
theory Lib_Sort
  imports Xinu_Base "HOL-Library.Multiset" "HOL-Library.While_Combinator"
begin

text \<open>
  \<open>qsort\<close> of \<^verbatim>\<open>lib/qsort.c\<close>: quicksort with a middle part of elements equal to the pivot. The
  array is a function from element indices; a pointer of the source is \<open>base + es * index\<close>, where
  \<open>es\<close> is the size of an element, so \<open>p += es\<close> is \<open>+ 1\<close>, \<open>n / (2 * es)\<close> halves the number of
  elements, and the byte loops of \<open>qsexc\<close> and \<open>qstexc\<close> move whole elements. The comparison
  function is a parameter, as in the source; \<open>cmp_order\<close> is what its documentation asks of it.
\<close>

section \<open>Operations\<close>

definition qsexc :: "int \<Rightarrow> int \<Rightarrow> (int \<Rightarrow> 'a) \<Rightarrow> int \<Rightarrow> 'a" where
  "qsexc i j A = (let c = A i; A = A(i := A j) in A(j := c))"

definition qstexc :: "int \<Rightarrow> int \<Rightarrow> int \<Rightarrow> (int \<Rightarrow> 'a) \<Rightarrow> int \<Rightarrow> 'a" where
  "qstexc i j k A = (let c = A i; A = A(i := A k); A = A(k := A j) in A(j := c))"

text \<open>The partition loop, on the local variables of \<open>qs1\<close>. \<open>head\<close> tells the head of the \<open>for\<close>
  from the label \<open>loop\<close>.\<close>

record 'a qsvars =
  head :: bool
  vi :: int
  vlp :: int
  vhp :: int
  vj :: int
  arr :: "int \<Rightarrow> 'a"

definition qs_low :: "('a \<Rightarrow> 'a \<Rightarrow> int) \<Rightarrow> 'a qsvars \<Rightarrow> bool" where
  "qs_low qscmp v \<longleftrightarrow> head v \<and> vi v < vlp v \<and> qscmp (arr v (vi v)) (arr v (vlp v)) \<le> 0"

definition qs_done :: "('a \<Rightarrow> 'a \<Rightarrow> int) \<Rightarrow> 'a qsvars \<Rightarrow> bool" where
  "qs_done qscmp v \<longleftrightarrow> \<not> qs_low qscmp v \<and> \<not> vj v > vhp v \<and> vi v = vlp v"

definition qs_step :: "('a \<Rightarrow> 'a \<Rightarrow> int) \<Rightarrow> 'a qsvars \<Rightarrow> 'a qsvars" where
  "qs_step qscmp v =
     (let i = vi v; lp = vlp v; hp = vhp v; j = vj v; A = arr v in
      if head v \<and> i < lp \<and> qscmp (A i) (A lp) = 0 then v\<lparr>head := True, vlp := lp - 1, arr := qsexc i (lp - 1) A\<rparr>
      else if head v \<and> i < lp \<and> qscmp (A i) (A lp) < 0 then v\<lparr>head := True, vi := i + 1\<rparr>
      else if j > hp then
        if qscmp (A hp) (A j) = 0 then v\<lparr>head := False, vhp := hp + 1, arr := qsexc (hp + 1) j A\<rparr>
        else if qscmp (A hp) (A j) > 0 then
          if i = lp then v\<lparr>head := False, vi := lp + 1, vlp := lp + 1, vhp := hp + 1, arr := qstexc i (hp + 1) j A\<rparr>
          else v\<lparr>head := True, vi := i + 1, vj := j - 1, arr := qsexc i j A\<rparr>
        else v\<lparr>head := False, vj := j - 1\<rparr>
      else v\<lparr>head := True, vlp := lp - 1, vhp := hp - 1, vj := hp - 1, arr := qstexc j (lp - 1) i A\<rparr>)"

definition qs_part :: "('a \<Rightarrow> 'a \<Rightarrow> int) \<Rightarrow> int \<Rightarrow> int \<Rightarrow> (int \<Rightarrow> 'a) \<Rightarrow> 'a qsvars option" where
  "qs_part qscmp a l A = while_option (\<lambda>v. \<not> qs_done qscmp v) (qs_step qscmp)
     \<lparr>head = True, vi = a, vlp = a + (l - a) div 2, vhp = a + (l - a) div 2, vj = l - 1, arr = A\<rparr>"

text \<open>The recursive call takes the smaller side last: the other one is the \<open>goto start\<close>.\<close>

partial_function (option) qs1 :: "('a \<Rightarrow> 'a \<Rightarrow> int) \<Rightarrow> int \<Rightarrow> int \<Rightarrow> (int \<Rightarrow> 'a) \<Rightarrow> (int \<Rightarrow> 'a) option" where
  "qs1 qscmp a l A =
     (if l - a \<le> 1 then Some A
      else (case qs_part qscmp a l A of
         None \<Rightarrow> None
       | Some v \<Rightarrow>
         if vlp v - a \<ge> l - vhp v
         then do { A \<leftarrow> qs1 qscmp (vhp v + 1) l (arr v); qs1 qscmp a (vlp v) A }
         else do { A \<leftarrow> qs1 qscmp a (vlp v) (arr v); qs1 qscmp (vhp v + 1) l A }))"

definition qsort :: "(int \<Rightarrow> 'a) \<Rightarrow> int \<Rightarrow> int \<Rightarrow> ('a \<Rightarrow> 'a \<Rightarrow> int) \<Rightarrow> (int \<Rightarrow> 'a) option" where
  "qsort A a n fc = qs1 fc a (a + n) A"

section \<open>Comparison functions\<close>

definition cmp_order :: "('a \<Rightarrow> 'a \<Rightarrow> int) \<Rightarrow> bool" where
  "cmp_order cmp \<longleftrightarrow> (\<forall>x y. cmp x y < 0 \<longleftrightarrow> cmp y x > 0) \<and>
     (\<forall>x y z. cmp x y \<le> 0 \<longrightarrow> cmp y z \<le> 0 \<longrightarrow> cmp x z \<le> 0)"

lemma cmp_flip:
  assumes "cmp_order cmp"
  shows "cmp x y < 0 \<longleftrightarrow> cmp y x > 0" "cmp x y = 0 \<longleftrightarrow> cmp y x = 0" "cmp x y \<le> 0 \<longleftrightarrow> cmp y x \<ge> 0"
proof -
  have f: "cmp x y < 0 \<longleftrightarrow> cmp y x > 0" "cmp y x < 0 \<longleftrightarrow> cmp x y > 0" using assms by (auto simp: cmp_order_def)
  then show "cmp x y < 0 \<longleftrightarrow> cmp y x > 0" "cmp x y = 0 \<longleftrightarrow> cmp y x = 0" "cmp x y \<le> 0 \<longleftrightarrow> cmp y x \<ge> 0" by linarith+
qed

lemma cmp_trans: "cmp_order cmp \<Longrightarrow> cmp x y \<le> 0 \<Longrightarrow> cmp y z \<le> 0 \<Longrightarrow> cmp x z \<le> 0"
  unfolding cmp_order_def by blast

text \<open>Elements equal to the pivot compare as the pivot does.\<close>

lemma cmp_pivot:
  assumes o: "cmp_order cmp" and p: "cmp y p = 0"
  shows "cmp x y = 0 \<longleftrightarrow> cmp x p = 0" "cmp x y < 0 \<longleftrightarrow> cmp x p < 0" "cmp x y > 0 \<longleftrightarrow> cmp x p > 0"
    "cmp y x = 0 \<longleftrightarrow> cmp x p = 0" "cmp y x > 0 \<longleftrightarrow> cmp x p < 0"
proof -
  have le: "cmp x y \<le> 0 \<longleftrightarrow> cmp x p \<le> 0"
    using cmp_trans[OF o, of x y p] cmp_trans[OF o, of x p y] cmp_flip(2)[OF o, of y p] p by auto
  have ge: "cmp y x \<le> 0 \<longleftrightarrow> cmp p x \<le> 0"
    using cmp_trans[OF o, of y p x] cmp_trans[OF o, of p y x] cmp_flip(2)[OF o, of y p] p by auto
  have lt: "cmp x y < 0 \<longleftrightarrow> cmp x p < 0" using ge unfolding cmp_flip(1)[OF o] by auto
  have gt: "cmp x y > 0 \<longleftrightarrow> cmp x p > 0" using le by auto
  have yx: "cmp y x > 0 \<longleftrightarrow> cmp x y < 0" "cmp y x = 0 \<longleftrightarrow> cmp x y = 0"
    using cmp_flip(1)[OF o, of x y] cmp_flip(2)[OF o, of x y] by auto
  show "cmp x y = 0 \<longleftrightarrow> cmp x p = 0" using lt gt by auto
  then show "cmp y x = 0 \<longleftrightarrow> cmp x p = 0" using yx by simp
  show "cmp x y < 0 \<longleftrightarrow> cmp x p < 0" "cmp x y > 0 \<longleftrightarrow> cmp x p > 0" "cmp y x > 0 \<longleftrightarrow> cmp x p < 0"
    using lt gt yx by simp_all
qed

section \<open>Exchanges\<close>

definition rearranged :: "int \<Rightarrow> int \<Rightarrow> (int \<Rightarrow> 'a) \<Rightarrow> (int \<Rightarrow> 'a) \<Rightarrow> bool" where
  "rearranged a l A B \<longleftrightarrow> (\<forall>k. k < a \<or> l \<le> k \<longrightarrow> B k = A k) \<and>
     image_mset B (mset_set {a..<l}) = image_mset A (mset_set {a..<l})"

lemma rearranged_refl: "rearranged a l A A"
  by (simp add: rearranged_def)

lemma rearranged_trans: "rearranged a l A B \<Longrightarrow> rearranged a l B C \<Longrightarrow> rearranged a l A C"
  by (simp add: rearranged_def)

lemma rearranged_bij:
  assumes "bij_betw f {a..<l} {a..<l}" "\<And>k. k < a \<or> l \<le> k \<Longrightarrow> B k = A k" "\<And>k. a \<le> k \<Longrightarrow> k < l \<Longrightarrow> B k = A (f k)"
  shows "rearranged a l A B"
proof -
  have "image_mset B (mset_set {a..<l}) = image_mset A (image_mset f (mset_set {a..<l}))"
    using assms(3) by (auto simp: multiset.map_comp intro!: image_mset_cong)
  also have "image_mset f (mset_set {a..<l}) = mset_set {a..<l}"
    using assms(1) by (simp add: bij_betw_def image_mset_mset_set)
  finally show ?thesis using assms(2) by (simp add: rearranged_def)
qed

lemma qsexc_at: "qsexc i j A k = (if k = j then A i else if k = i then A j else A k)"
  by (simp add: qsexc_def Let_def)

lemma qstexc_at:
  "i \<noteq> j \<Longrightarrow> i \<noteq> k \<Longrightarrow> qstexc i j k A x = (if x = j then A i else if x = k then A j else if x = i then A k else A x)"
  by (simp add: qstexc_def Let_def)

lemma qsexc_rearranged:
  assumes "a \<le> i" "i < l" "a \<le> j" "j < l"
  shows "rearranged a l A (qsexc i j A)"
proof (rule rearranged_bij[where f = "\<lambda>k. if k = j then i else if k = i then j else k"])
  show "bij_betw (\<lambda>k. if k = j then i else if k = i then j else k) {a..<l} {a..<l}"
    by (rule bij_betw_byWitness[where f' = "\<lambda>k. if k = j then i else if k = i then j else k"]) (use assms in auto)
qed (use assms in \<open>auto simp: qsexc_at\<close>)

lemma qstexc_rearranged:
  assumes "i \<noteq> j" "i \<noteq> k" "a \<le> i" "i < l" "a \<le> j" "j < l" "a \<le> k" "k < l"
  shows "rearranged a l A (qstexc i j k A)"
proof (rule rearranged_bij[where f = "\<lambda>x. if x = j then i else if x = k then j else if x = i then k else x"])
  show "bij_betw (\<lambda>x. if x = j then i else if x = k then j else if x = i then k else x) {a..<l} {a..<l}"
  proof (cases "j = k")
    case True
    show ?thesis
      by (rule bij_betw_byWitness[where f' = "\<lambda>x. if x = j then i else if x = i then j else x"]) (use assms True in auto)
  next
    case False
    show ?thesis
      by (rule bij_betw_byWitness[where f' = "\<lambda>x. if x = i then j else if x = j then k else if x = k then i else x"])
        (use assms False in auto)
  qed
qed (use assms in \<open>auto simp: qstexc_at\<close>)

lemma rearranged_all:
  assumes "rearranged a l A B" "\<And>k. a \<le> k \<Longrightarrow> k < l \<Longrightarrow> P (A k)" "a \<le> x" "x < l"
  shows "P (B x)"
proof -
  have "B x \<in># image_mset B (mset_set {a..<l})" using assms(3,4) by simp
  moreover have "image_mset B (mset_set {a..<l}) = image_mset A (mset_set {a..<l})" using assms(1) by (simp add: rearranged_def)
  ultimately have "B x \<in># image_mset A (mset_set {a..<l})" by (simp only:)
  then show ?thesis using assms(2) by auto
qed

lemma rearranged_widen:
  assumes "rearranged b c A B" "a \<le> b" "c \<le> l" "b \<le> c"
  shows "rearranged a l A B"
proof -
  have S: "{a..<l} = {b..<c} \<union> ({a..<b} \<union> {c..<l})" "{b..<c} \<inter> ({a..<b} \<union> {c..<l}) = {}" using assms(2-4) by auto
  have "image_mset B (mset_set ({a..<b} \<union> {c..<l})) = image_mset A (mset_set ({a..<b} \<union> {c..<l}))"
    using assms(1) by (intro image_mset_cong) (auto simp: rearranged_def)
  then show ?thesis using assms(1-3) S(2) by (auto simp: rearranged_def S(1) mset_set_Union)
qed

section \<open>Partition\<close>

text \<open>Up to \<open>i\<close> the elements are below the pivot \<open>p\<close>, from \<open>lp\<close> to \<open>hp\<close> equal to it, beyond \<open>j\<close> above it.
  At the label \<open>loop\<close> the element at \<open>i\<close>, if it is not the pivot part yet, is known to be above it.\<close>

definition part_inv :: "('a \<Rightarrow> 'a \<Rightarrow> int) \<Rightarrow> 'a \<Rightarrow> int \<Rightarrow> int \<Rightarrow> 'a qsvars \<Rightarrow> bool" where
  "part_inv cmp p a l v \<longleftrightarrow> a \<le> vi v \<and> vi v \<le> vlp v \<and> vlp v \<le> vhp v \<and> vhp v \<le> vj v \<and> vj v < l \<and>
     (\<forall>k. a \<le> k \<longrightarrow> k < vi v \<longrightarrow> cmp (arr v k) p < 0) \<and>
     (\<forall>k. vlp v \<le> k \<longrightarrow> k \<le> vhp v \<longrightarrow> cmp (arr v k) p = 0) \<and>
     (\<forall>k. vj v < k \<longrightarrow> k < l \<longrightarrow> cmp (arr v k) p > 0) \<and>
     (head v \<or> vi v = vlp v \<or> cmp (arr v (vi v)) p > 0)"

definition part_measure :: "'a qsvars \<Rightarrow> nat" where
  "part_measure v = nat (vlp v - vi v) + nat (vj v - vhp v)"

lemma part_step:
  assumes o: "cmp_order cmp" and inv: "part_inv cmp p a l v" and nd: "\<not> qs_done cmp v"
  shows "part_inv cmp p a l (qs_step cmp v)" "rearranged a l (arr v) (arr (qs_step cmp v))"
    "part_measure (qs_step cmp v) < part_measure v"
proof -
  obtain h i lp hp j A where v: "v = \<lparr>head = h, vi = i, vlp = lp, vhp = hp, vj = j, arr = A\<rparr>" by (cases v) blast
  have I: "a \<le> i" "i \<le> lp" "lp \<le> hp" "hp \<le> j" "j < l" "\<And>k. a \<le> k \<Longrightarrow> k < i \<Longrightarrow> cmp (A k) p < 0"
    "\<And>k. lp \<le> k \<Longrightarrow> k \<le> hp \<Longrightarrow> cmp (A k) p = 0" "\<And>k. j < k \<Longrightarrow> k < l \<Longrightarrow> cmp (A k) p > 0"
    "h \<or> i = lp \<or> cmp (A i) p > 0"
    using inv unfolding part_inv_def v by simp_all
  have plp: "cmp (A lp) p = 0" "cmp (A hp) p = 0" using I(7) I(3) by simp_all
  note L = cmp_pivot[OF o plp(1)] and H = cmp_pivot[OF o plp(2)]
  let ?w = "qs_step cmp v"
  consider (eq) "h" "i < lp" "cmp (A i) p = 0" | (lt) "h" "i < lp" "cmp (A i) p < 0" |
    (jeq) "j > hp" "i = lp \<or> cmp (A i) p > 0" "cmp (A j) p = 0" |
    (jrot) "j > hp" "i = lp" "cmp (A j) p < 0" | (jex) "j > hp" "i < lp" "cmp (A i) p > 0" "cmp (A j) p < 0" |
    (jgt) "j > hp" "i = lp \<or> cmp (A i) p > 0" "cmp (A j) p > 0" | (rot) "j = hp" "i < lp" "cmp (A i) p > 0"
  proof -
    have "i < lp \<or> i = lp" "j > hp \<or> j = hp" "cmp (A i) p < 0 \<or> cmp (A i) p = 0 \<or> cmp (A i) p > 0"
      "cmp (A j) p < 0 \<or> cmp (A j) p = 0 \<or> cmp (A j) p > 0" using I(2,4) by auto
    moreover have "h \<and> i < lp \<and> \<not> cmp (A i) p > 0 \<or> j > hp \<or> i \<noteq> lp"
      using nd L(3)[of "A i"] unfolding qs_done_def qs_low_def v by auto
    ultimately show ?thesis using I(9) eq lt jeq jrot jex jgt rot by blast
  qed
  then have "part_inv cmp p a l ?w \<and> rearranged a l (arr v) (arr ?w) \<and> part_measure ?w < part_measure v"
  proof cases
    case eq
    then have "?w = \<lparr>head = True, vi = i, vlp = lp - 1, vhp = hp, vj = j, arr = qsexc i (lp - 1) A\<rparr>"
      by (simp add: v qs_step_def L)
    then show ?thesis using I eq
      by (auto simp: part_inv_def part_measure_def v qsexc_at intro!: qsexc_rearranged)
  next
    case lt
    then have "?w = \<lparr>head = True, vi = i + 1, vlp = lp, vhp = hp, vj = j, arr = A\<rparr>"
      by (simp add: v qs_step_def L)
    moreover have low: "cmp (A k) p < 0" if "a \<le> k" "k < i + 1" for k using I(6)[of k] lt(3) that by (cases "k = i") auto
    ultimately show ?thesis using I lt by (auto simp: part_inv_def part_measure_def v rearranged_refl)
  next
    case jeq
    then have "?w = \<lparr>head = False, vi = i, vlp = lp, vhp = hp + 1, vj = j, arr = qsexc (hp + 1) j A\<rparr>"
      using L(1,2)[of "A i"] H(4)[of "A j"] by (auto simp: v qs_step_def)
    then show ?thesis using I jeq
      by (auto simp: part_inv_def part_measure_def v qsexc_at intro!: qsexc_rearranged)
  next
    case jrot
    then have "?w = \<lparr>head = False, vi = lp + 1, vlp = lp + 1, vhp = hp + 1, vj = j, arr = qstexc i (hp + 1) j A\<rparr>"
      using H(4,5)[of "A j"] by (auto simp: v qs_step_def)
    then show ?thesis using I jrot
      by (auto simp: part_inv_def part_measure_def v qstexc_at intro!: qstexc_rearranged)
  next
    case jex
    then have "?w = \<lparr>head = True, vi = i + 1, vlp = lp, vhp = hp, vj = j - 1, arr = qsexc i j A\<rparr>"
      using L(1,2)[of "A i"] H(4,5)[of "A j"] by (auto simp: v qs_step_def)
    then show ?thesis using I jex
      by (auto simp: part_inv_def part_measure_def v qsexc_at intro!: qsexc_rearranged)
  next
    case jgt
    then have "?w = \<lparr>head = False, vi = i, vlp = lp, vhp = hp, vj = j - 1, arr = A\<rparr>"
      using L(1,2)[of "A i"] H(4,5)[of "A j"] by (auto simp: v qs_step_def)
    moreover have up: "cmp (A k) p > 0" if "j - 1 < k" "k < l" for k using I(8)[of k] jgt(3) that by (cases "k = j") auto
    ultimately show ?thesis using I jgt
      by (auto simp: part_inv_def part_measure_def v rearranged_refl)
  next
    case rot
    then have "?w = \<lparr>head = True, vi = i, vlp = lp - 1, vhp = hp - 1, vj = hp - 1, arr = qstexc j (lp - 1) i A\<rparr>"
      using L(1,2)[of "A i"] by (auto simp: v qs_step_def)
    then show ?thesis using I rot
      by (auto simp: part_inv_def part_measure_def v qstexc_at intro!: qstexc_rearranged)
  qed
  then show "part_inv cmp p a l ?w" "rearranged a l (arr v) (arr ?w)" "part_measure ?w < part_measure v" by simp_all
qed

lemma part_run:
  assumes o: "cmp_order cmp" and al: "l - a > 1"
  obtains v where "qs_part cmp a l A = Some v" "rearranged a l A (arr v)" "a \<le> vlp v" "vlp v \<le> vhp v" "vhp v < l"
    "\<And>k. a \<le> k \<Longrightarrow> k < vlp v \<Longrightarrow> cmp (arr v k) (arr v (vlp v)) < 0"
    "\<And>k. vlp v \<le> k \<Longrightarrow> k \<le> vhp v \<Longrightarrow> cmp (arr v k) (arr v (vlp v)) = 0"
    "\<And>k. vhp v < k \<Longrightarrow> k < l \<Longrightarrow> cmp (arr v k) (arr v (vlp v)) > 0"
proof -
  let ?c = "a + (l - a) div 2"
  let ?p = "A ?c"
  let ?v0 = "\<lparr>head = True, vi = a, vlp = ?c, vhp = ?c, vj = l - 1, arr = A\<rparr>"
  let ?P = "\<lambda>v. part_inv cmp ?p a l v \<and> rearranged a l A (arr v)"
  have mid: "a \<le> ?c" "?c \<le> l - 1" using al by auto
  have "cmp ?p ?p = 0" using cmp_flip(1)[OF o, of ?p ?p] by auto
  then have P0: "?P ?v0" using mid by (auto simp: part_inv_def rearranged_refl)
  have step: "?P (qs_step cmp v) \<and> part_measure (qs_step cmp v) < part_measure v" if "?P v" "\<not> qs_done cmp v" for v
    using part_step[OF o] that rearranged_trans by blast
  obtain v where v: "qs_part cmp a l A = Some v"
    unfolding qs_part_def using measure_while_option_Some[of ?P "\<lambda>v. \<not> qs_done cmp v" "qs_step cmp" part_measure ?v0] step P0 by blast
  have Pv: "?P v"
    by (rule while_option_rule[where P = ?P, OF _ v[unfolded qs_part_def] P0]) (use step in blast)
  have "qs_done cmp v" using while_option_stop[OF v[unfolded qs_part_def]] by simp
  then have fin: "vi v = vlp v" "\<not> vj v > vhp v" by (auto simp: qs_done_def)
  have I: "a \<le> vi v" "vi v \<le> vlp v" "vlp v \<le> vhp v" "vhp v \<le> vj v" "vj v < l"
    "\<And>k. a \<le> k \<Longrightarrow> k < vi v \<Longrightarrow> cmp (arr v k) ?p < 0" "\<And>k. vlp v \<le> k \<Longrightarrow> k \<le> vhp v \<Longrightarrow> cmp (arr v k) ?p = 0"
    "\<And>k. vj v < k \<Longrightarrow> k < l \<Longrightarrow> cmp (arr v k) ?p > 0" using Pv unfolding part_inv_def by blast+
  have "cmp (arr v (vlp v)) ?p = 0" using I(3,7) by simp
  note C = cmp_pivot[OF o this]
  show ?thesis using that[OF v] Pv I fin C(1-3) by simp
qed

section \<open>Correctness\<close>

definition ordered :: "('a \<Rightarrow> 'a \<Rightarrow> int) \<Rightarrow> int \<Rightarrow> int \<Rightarrow> (int \<Rightarrow> 'a) \<Rightarrow> bool" where
  "ordered cmp a l A \<longleftrightarrow> (\<forall>x y. a \<le> x \<longrightarrow> x \<le> y \<longrightarrow> y < l \<longrightarrow> cmp (A x) (A y) \<le> 0)"

text \<open>Sorted sides around a part that separates them.\<close>

lemma ordered_join:
  assumes o: "cmp_order cmp" and le: "a \<le> lp" "lp \<le> hp" "hp < l"
    and low: "ordered cmp a lp A" "\<And>k. a \<le> k \<Longrightarrow> k < lp \<Longrightarrow> cmp (A k) p \<le> 0"
    and mid: "\<And>k. lp \<le> k \<Longrightarrow> k \<le> hp \<Longrightarrow> cmp (A k) p = 0"
    and high: "ordered cmp (hp + 1) l A" "\<And>k. hp < k \<Longrightarrow> k < l \<Longrightarrow> cmp (A k) p \<ge> 0"
  shows "ordered cmp a l A"
  unfolding ordered_def
proof (intro allI impI)
  fix x y assume xy: "a \<le> x" "x \<le> y" "y < l"
  consider "y < lp" | "x \<le> hp" "lp \<le> y" | "hp < x" by linarith
  then show "cmp (A x) (A y) \<le> 0"
  proof cases
    case 1
    then show ?thesis using low(1) xy by (simp add: ordered_def)
  next
    case 2
    have "cmp (A x) p \<le> 0" using low(2)[of x] mid[of x] xy(1) 2(1) by (cases "x < lp") auto
    moreover have "cmp p (A y) \<le> 0"
      using high(2)[of y] mid[of y] xy(3) 2(2) cmp_flip(3)[OF o, of p "A y"] by (cases "hp < y") auto
    ultimately show ?thesis using cmp_trans[OF o] by blast
  next
    case 3
    then show ?thesis using high(1) xy by (simp add: ordered_def)
  qed
qed

lemma ordered_cong: "ordered cmp a l A \<Longrightarrow> (\<And>k. a \<le> k \<Longrightarrow> k < l \<Longrightarrow> B k = A k) \<Longrightarrow> ordered cmp a l B"
  by (simp add: ordered_def)

text \<open>Sorting one side and then the other, in either order.\<close>

lemma sides_sorted:
  assumes o: "cmp_order cmp" and le: "a \<le> lp" "lp \<le> hp" "hp < l"
    and low: "\<And>k. a \<le> k \<Longrightarrow> k < lp \<Longrightarrow> cmp (A k) p < 0" and mid: "\<And>k. lp \<le> k \<Longrightarrow> k \<le> hp \<Longrightarrow> cmp (A k) p = 0"
    and high: "\<And>k. hp < k \<Longrightarrow> k < l \<Longrightarrow> cmp (A k) p > 0"
    and B: "rearranged a lp A B" "ordered cmp a lp B" and C: "rearranged (hp + 1) l B C" "ordered cmp (hp + 1) l C"
  shows "rearranged a l A C" "ordered cmp a l C"
proof -
  show "rearranged a l A C"
    using rearranged_trans[OF rearranged_widen[OF B(1)] rearranged_widen[OF C(1)]] le by simp
  have out: "C k = B k" if "k \<le> hp" for k using C(1) that by (simp add: rearranged_def)
  have outA: "B k = A k" if "lp \<le> k" for k using B(1) that by (simp add: rearranged_def)
  show "ordered cmp a l C"
  proof (rule ordered_join[OF o le])
    show "ordered cmp a lp C" by (rule ordered_cong[OF B(2)]) (use le out in simp)
    show "cmp (C k) p \<le> 0" if "a \<le> k" "k < lp" for k
      using rearranged_all[OF B(1), of "\<lambda>x. cmp x p < 0" k] low that out[of k] le by simp
    show "cmp (C k) p = 0" if "lp \<le> k" "k \<le> hp" for k using out[of k] outA[of k] mid[of k] that by simp
    show "ordered cmp (hp + 1) l C" by (rule C(2))
    show "cmp (C k) p \<ge> 0" if "hp < k" "k < l" for k
      using rearranged_all[OF C(1), of "\<lambda>x. cmp x p > 0" k] high outA le that by simp
  qed
qed

lemma rearranged_swap:
  assumes "rearranged (hp + 1) l A B" "rearranged a lp B C" "lp \<le> hp"
  shows "\<exists>D. rearranged a lp A D \<and> rearranged (hp + 1) l D C \<and> (\<forall>k. a \<le> k \<longrightarrow> k < lp \<longrightarrow> D k = C k)"
proof -
  let ?D = "\<lambda>k. if a \<le> k \<and> k < lp then C k else A k"
  have BA: "B k = A k" if "k < lp" for k using assms(1,3) that by (simp add: rearranged_def)
  have CB: "C k = B k" if "hp < k" for k using assms(2,3) that by (simp add: rearranged_def)
  have CO: "C k = B k" if "k < a \<or> lp \<le> k" for k using assms(2) that by (auto simp: rearranged_def)
  have BO: "B k = A k" if "k < hp + 1 \<or> l \<le> k" for k using assms(1) that by (auto simp: rearranged_def)
  have "image_mset ?D (mset_set {a..<lp}) = image_mset C (mset_set {a..<lp})" by (intro image_mset_cong) auto
  also have "\<dots> = image_mset B (mset_set {a..<lp})" using assms(2) by (simp add: rearranged_def)
  also have "\<dots> = image_mset A (mset_set {a..<lp})" using BA by (intro image_mset_cong) auto
  finally have 1: "rearranged a lp A ?D" by (simp add: rearranged_def)
  have "image_mset C (mset_set {hp + 1..<l}) = image_mset B (mset_set {hp + 1..<l})"
    using CB by (intro image_mset_cong) auto
  also have "\<dots> = image_mset A (mset_set {hp + 1..<l})" using assms(1) by (simp add: rearranged_def)
  also have "\<dots> = image_mset ?D (mset_set {hp + 1..<l})" using assms(3) by (intro image_mset_cong) auto
  finally have "rearranged (hp + 1) l ?D C" using CO BO assms(3) by (auto simp: rearranged_def)
  then show ?thesis using 1 by (intro exI[of _ ?D]) simp
qed

theorem qs1_sorts:
  assumes o: "cmp_order cmp"
  shows "\<exists>B. qs1 cmp a l A = Some B \<and> rearranged a l A B \<and> ordered cmp a l B"
proof (induction "nat (l - a)" arbitrary: a l A rule: less_induct)
  case less
  show ?case
  proof (cases "l - a \<le> 1")
    case True
    have refl: "cmp x x \<le> 0" for x using cmp_flip(1)[OF o, of x x] by auto
    have "ordered cmp a l A" unfolding ordered_def
    proof (intro allI impI)
      fix x y assume "a \<le> x" "x \<le> y" "y < l"
      then have "x = y" using True by linarith
      then show "cmp (A x) (A y) \<le> 0" using refl by simp
    qed
    moreover have "qs1 cmp a l A = Some A" using True by (subst qs1.simps) simp
    ultimately show ?thesis using rearranged_refl by blast
  next
    case False
    then obtain v where v: "qs_part cmp a l A = Some v" "rearranged a l A (arr v)" "a \<le> vlp v" "vlp v \<le> vhp v" "vhp v < l"
      "\<And>k. a \<le> k \<Longrightarrow> k < vlp v \<Longrightarrow> cmp (arr v k) (arr v (vlp v)) < 0"
      "\<And>k. vlp v \<le> k \<Longrightarrow> k \<le> vhp v \<Longrightarrow> cmp (arr v k) (arr v (vlp v)) = 0"
      "\<And>k. vhp v < k \<Longrightarrow> k < l \<Longrightarrow> cmp (arr v k) (arr v (vlp v)) > 0"
      using part_run[OF o] by (metis not_le)
    have m: "nat (vlp v - a) < nat (l - a)" "nat (l - (vhp v + 1)) < nat (l - a)" using v(3-5) by auto
    have S: "rearranged a l (arr v) C" "ordered cmp a l C"
      if "rearranged a (vlp v) (arr v) B" "ordered cmp a (vlp v) B" "rearranged (vhp v + 1) l B C" "ordered cmp (vhp v + 1) l C"
      for B C
      by (rule sides_sorted[OF o v(3-5) _ _ _ that, where p = "arr v (vlp v)"], (fact v(6-8))+)+
    have run: "qs1 cmp a l A = (if vlp v - a \<ge> l - vhp v
         then do { A \<leftarrow> qs1 cmp (vhp v + 1) l (arr v); qs1 cmp a (vlp v) A }
         else do { A \<leftarrow> qs1 cmp a (vlp v) (arr v); qs1 cmp (vhp v + 1) l A })"
      using False v(1) by (subst qs1.simps) simp
    show ?thesis
    proof (cases "vlp v - a \<ge> l - vhp v")
      case True
      obtain B where B: "qs1 cmp (vhp v + 1) l (arr v) = Some B" "rearranged (vhp v + 1) l (arr v) B" "ordered cmp (vhp v + 1) l B"
        using less[OF m(2)] by blast
      obtain C where C: "qs1 cmp a (vlp v) B = Some C" "rearranged a (vlp v) B C" "ordered cmp a (vlp v) C"
        using less[OF m(1)] by blast
      obtain D where D: "rearranged a (vlp v) (arr v) D" "rearranged (vhp v + 1) l D C" "\<forall>k. a \<le> k \<longrightarrow> k < vlp v \<longrightarrow> D k = C k"
        using rearranged_swap[OF B(2) C(2) v(4)] by blast
      have "ordered cmp a (vlp v) D" by (rule ordered_cong[OF C(3)]) (use D(3) in simp)
      moreover have "ordered cmp (vhp v + 1) l C"
        by (rule ordered_cong[OF B(3)]) (use C(2) v(4) in \<open>simp add: rearranged_def\<close>)
      ultimately have "rearranged a l (arr v) C" "ordered cmp a l C" using S[OF D(1) _ D(2)] by blast+
      then show ?thesis using run True B(1) C(1) rearranged_trans[OF v(2)] by auto
    next
      case no: False
      obtain B where B: "qs1 cmp a (vlp v) (arr v) = Some B" "rearranged a (vlp v) (arr v) B" "ordered cmp a (vlp v) B"
        using less[OF m(1)] by blast
      obtain C where C: "qs1 cmp (vhp v + 1) l B = Some C" "rearranged (vhp v + 1) l B C" "ordered cmp (vhp v + 1) l C"
        using less[OF m(2)] by blast
      show ?thesis using run no B(1) C(1) S[OF B(2,3) C(2,3)] rearranged_trans[OF v(2)] by auto
    qed
  qed
qed

end
