(* ===== verification/Lib_Print.thy ===== *)
theory Lib_Print
  imports Lib_String "HOL-Library.Signed_Division"
begin

text \<open>
  Formatted output (\<^verbatim>\<open>lib/doprnt.c\<close>): the number conversions and the interpreter of the format
  string. The values that \<^verbatim>\<open>va_arg\<close> yields are a list of words, \<open>None\<close> when they run out; the output
  function appends to a list of characters. The local array \<^verbatim>\<open>string[20]\<close> is a list that lives as long as
  the call: a store behind its end, or a search for its end that runs out of it, is \<open>None\<close>.
\<close>

section \<open>Number conversions\<close>

text \<open>A conversion fills \<^verbatim>\<open>temp[1..n]\<close> from the lowest digit, skips leading zeros, and copies downwards
  to the zero byte in \<^verbatim>\<open>temp[0]\<close>.\<close>

fun top :: "nat \<Rightarrow> (nat \<Rightarrow> byte) \<Rightarrow> nat" where
  "top 0 temp = 0"
| "top (Suc i) temp = (if temp (Suc i) = 0x30 then top i temp else Suc i)"

fun copy_down :: "nat \<Rightarrow> (nat \<Rightarrow> byte) \<Rightarrow> byte list" where
  "copy_down 0 temp = [temp 0]"
| "copy_down (Suc i) temp = temp (Suc i) # copy_down i temp"

definition emit :: "nat \<Rightarrow> (nat \<Rightarrow> byte) \<Rightarrow> byte list" where
  "emit n temp = (let i = top n temp; i = (if i = 0 then i + 1 else i) in copy_down i temp)"

fun fill10 :: "nat \<Rightarrow> nat \<Rightarrow> int \<Rightarrow> (nat \<Rightarrow> byte) \<Rightarrow> nat \<Rightarrow> byte" where
  "fill10 0 i num temp = temp"
| "fill10 (Suc k) i num temp = fill10 k (Suc i) (num sdiv 10) (temp(i := word_of_int (num smod 10 + 0x30)))"

fun fill8 :: "nat \<Rightarrow> nat \<Rightarrow> int \<Rightarrow> (nat \<Rightarrow> byte) \<Rightarrow> nat \<Rightarrow> byte" where
  "fill8 0 i num temp = temp"
| "fill8 (Suc k) i num temp = fill8 k (Suc i) (drop_bit 3 num) (temp(i := word_of_int (and num 7 + 0x30)))"

fun fill16 :: "byte list \<Rightarrow> nat \<Rightarrow> nat \<Rightarrow> int \<Rightarrow> (nat \<Rightarrow> byte) \<Rightarrow> nat \<Rightarrow> byte" where
  "fill16 digs 0 i num temp = temp"
| "fill16 digs (Suc k) i num temp = fill16 digs k (Suc i) (drop_bit 4 num) (temp(i := digs ! nat (and num 15)))"

fun fill2 :: "nat \<Rightarrow> nat \<Rightarrow> int \<Rightarrow> (nat \<Rightarrow> byte) \<Rightarrow> nat \<Rightarrow> byte" where
  "fill2 0 i num temp = temp"
| "fill2 (Suc k) i num temp = fill2 k (Suc i) (drop_bit 1 num) (temp(i := (if num smod 2 = 0 then 0x30 else 0x31)))"

definition lower_digits :: "byte list" where
  "lower_digits = [0x30, 0x31, 0x32, 0x33, 0x34, 0x35, 0x36, 0x37, 0x38, 0x39, 0x61, 0x62, 0x63, 0x64, 0x65, 0x66]"

definition upper_digits :: "byte list" where
  "upper_digits = [0x30, 0x31, 0x32, 0x33, 0x34, 0x35, 0x36, 0x37, 0x38, 0x39, 0x41, 0x42, 0x43, 0x44, 0x45, 0x46]"

definition prtl10 :: "int \<Rightarrow> byte list" where
  "prtl10 num = emit 10 (fill10 10 1 num (\<lambda>_. 0))"

definition prtl8 :: "int \<Rightarrow> byte list" where
  "prtl8 num = (let temp = fill8 11 1 num (\<lambda>_. 0) in emit 11 (temp(11 := and (temp 11) 0x33)))"

definition prtl16 :: "int \<Rightarrow> byte list" where
  "prtl16 num = emit 8 (fill16 lower_digits 8 1 num (\<lambda>_. 0))"

definition prtX16 :: "int \<Rightarrow> byte list" where
  "prtX16 num = emit 8 (fill16 upper_digits 8 1 num (\<lambda>_. 0))"

definition prtl2 :: "int \<Rightarrow> byte list" where
  "prtl2 num = emit 32 (fill2 32 1 num (\<lambda>_. 0))"

section \<open>One field\<close>

text \<open>Stores into \<^verbatim>\<open>string\<close>, and the characters up to its zero byte.\<close>

definition put_at :: "nat \<Rightarrow> byte list \<Rightarrow> byte list \<Rightarrow> byte list option" where
  "put_at i xs buf = (if i + length xs \<le> length buf then Some (take i buf @ xs @ drop (i + length xs) buf) else None)"

definition str_of :: "byte list \<Rightarrow> byte list option" where
  "str_of buf = (if 0 \<in> set buf then Some (takeWhile (\<lambda>c. c \<noteq> 0) buf) else None)"

partial_function (option) read_str :: "bytes \<Rightarrow> uint32 \<Rightarrow> byte list \<Rightarrow> byte list option" where
  "read_str m a acc = (if m a = 0 then Some acc else read_str m (a + 1) (acc @ [m a]))"

definition pop_arg :: "uint32 list \<Rightarrow> (uint32 \<times> uint32 list) option" where
  "pop_arg args = (case args of [] \<Rightarrow> None | a # args \<Rightarrow> Some (a, args))"

text \<open>\<^verbatim>\<open>%u\<close> of a number above \<open>2\<^sup>3\<^sup>1\<close>: billions are taken off until it is positive as a \<^verbatim>\<open>long\<close>.\<close>

partial_function (option) billions :: "int \<Rightarrow> byte \<Rightarrow> (int \<times> byte) option" where
  "billions larg dig1 = (if larg < 0 then billions (s32 (larg - 1000000000)) (dig1 + 1) else Some (larg, dig1))"

text \<open>What one conversion yields: fill character, maximum width, sign, the characters of \<^verbatim>\<open>str\<close>, the arguments
  left, the local array, and characters output at once.\<close>

record conv =
  cfill :: byte
  cfmax :: int
  csign :: byte
  cstring :: "byte list"
  cargs :: "uint32 list"
  cbuf :: "byte list"
  cout :: "byte list"

text \<open>A conversion of one number by one of the routines above, with no maximum width.\<close>

definition conv_num :: "(int \<Rightarrow> byte list) \<Rightarrow> byte \<Rightarrow> uint32 list \<Rightarrow> byte list \<Rightarrow> conv option" where
  "conv_num prt fill args buf = do {
     (larg, args) \<leftarrow> pop_arg args;
     buf \<leftarrow> put_at 0 (prt (sint larg)) buf;
     str \<leftarrow> str_of buf;
     Some \<lparr>cfill = fill, cfmax = 0, csign = 0, cstring = str, cargs = args, cbuf = buf, cout = []\<rparr> }"

definition conv_pair :: "(int \<Rightarrow> byte list) \<Rightarrow> byte \<Rightarrow> uint32 list \<Rightarrow> byte list \<Rightarrow> conv option" where
  "conv_pair prt fill args buf = do {
     (larg, args) \<leftarrow> pop_arg args;
     buf \<leftarrow> put_at 0 (prt (sint larg)) buf;
     (larg, args) \<leftarrow> pop_arg args;
     buf \<leftarrow> put_at 8 (prt (sint larg)) buf;
     str \<leftarrow> str_of buf;
     Some \<lparr>cfill = fill, cfmax = 0, csign = 0, cstring = str, cargs = args, cbuf = buf, cout = []\<rparr> }"

definition conv_char :: "uint32 list \<Rightarrow> byte list \<Rightarrow> conv option" where
  "conv_char args buf = do {
     (a, args) \<leftarrow> pop_arg args;
     buf \<leftarrow> put_at 0 [ucast a, 0] buf;
     str \<leftarrow> str_of buf;
     Some \<lparr>cfill = 0x20, cfmax = 0, csign = 0, cstring = str, cargs = args, cbuf = buf, cout = []\<rparr> }"

definition conv_string :: "bytes \<Rightarrow> int \<Rightarrow> uint32 list \<Rightarrow> byte list \<Rightarrow> conv option" where
  "conv_string m fmax args buf = do {
     (a, args) \<leftarrow> pop_arg args;
     str \<leftarrow> (if a = 0 then Some [0x28, 0x6E, 0x75, 0x6C, 0x6C, 0x29] else read_str m a []);
     Some \<lparr>cfill = 0x20, cfmax = fmax, csign = 0, cstring = str, cargs = args, cbuf = buf, cout = []\<rparr> }"

definition conv_decimal :: "byte \<Rightarrow> int \<Rightarrow> uint32 list \<Rightarrow> byte list \<Rightarrow> conv option" where
  "conv_decimal fill fmax args buf = do {
     (a, args) \<leftarrow> pop_arg args;
     let larg = sint a;
     let (sign, larg) = (if larg < 0 then (0x2D, s32 (- larg)) else (0, larg));
     buf \<leftarrow> put_at 0 (prtl10 larg) buf;
     str \<leftarrow> str_of buf;
     Some \<lparr>cfill = fill, cfmax = fmax, csign = sign, cstring = str, cargs = args, cbuf = buf, cout = []\<rparr> }"

definition conv_unsigned :: "byte \<Rightarrow> uint32 list \<Rightarrow> byte list \<Rightarrow> conv option" where
  "conv_unsigned fill args buf = do {
     (a, args) \<leftarrow> pop_arg args;
     (larg, dig1) \<leftarrow> billions (sint a) 0;
     buf \<leftarrow> put_at 0 (prtl10 larg) buf;
     let buf = buf[0 := buf ! 0 + dig1];
     str \<leftarrow> str_of buf;
     Some \<lparr>cfill = fill, cfmax = 0, csign = 0, cstring = str, cargs = args, cbuf = buf, cout = []\<rparr> }"

text \<open>The \<^verbatim>\<open>switch\<close> on the format character.\<close>

definition convert :: "bytes \<Rightarrow> byte \<Rightarrow> byte \<Rightarrow> int \<Rightarrow> uint32 list \<Rightarrow> byte list \<Rightarrow> conv option" where
  "convert m f fill fmax args buf =
     (if f = 0x63 then conv_char args buf
      else if f = 0x73 then conv_string m fmax args buf
      else if f = 0x64 then conv_decimal fill fmax args buf
      else if f = 0x75 then conv_unsigned fill args buf
      else if f = 0x6F then conv_num prtl8 fill args buf
      else if f = 0x58 then conv_num prtX16 fill args buf
      else if f = 0x78 then conv_num prtl16 fill args buf
      else if f = 0x48 then conv_pair prtX16 fill args buf
      else if f = 0x68 then conv_pair prtl16 fill args buf
      else if f = 0x62 then conv_num prtl2 fill args buf
      else do {
        str \<leftarrow> str_of buf;
        Some \<lparr>cfill = fill, cfmax = fmax, csign = 0, cstring = str, cargs = args, cbuf = buf, cout = [f]\<rparr> })"

text \<open>\<^verbatim>\<open>_fdoprnt\<close> does not have \<^verbatim>\<open>%H\<close> and \<^verbatim>\<open>%h\<close>.\<close>

definition fconvert :: "bytes \<Rightarrow> byte \<Rightarrow> byte \<Rightarrow> int \<Rightarrow> uint32 list \<Rightarrow> byte list \<Rightarrow> conv option" where
  "fconvert m f fill fmax args buf =
     (if f = 0x63 then conv_char args buf
      else if f = 0x73 then conv_string m fmax args buf
      else if f = 0x64 then conv_decimal fill fmax args buf
      else if f = 0x75 then conv_unsigned fill args buf
      else if f = 0x6F then conv_num prtl8 fill args buf
      else if f = 0x58 then conv_num prtX16 fill args buf
      else if f = 0x78 then conv_num prtl16 fill args buf
      else if f = 0x62 then conv_num prtl2 fill args buf
      else do {
        str \<leftarrow> str_of buf;
        Some \<lparr>cfill = fill, cfmax = fmax, csign = 0, cstring = str, cargs = args, cbuf = buf, cout = [f]\<rparr> })"

abbreviation (input) MAXSTR :: int where "MAXSTR \<equiv> 80"

text \<open>What goes before the characters of \<^verbatim>\<open>str\<close>, how many of them are shown, and what goes after.\<close>

definition field_parts :: "bool \<Rightarrow> byte \<Rightarrow> int \<Rightarrow> int \<Rightarrow> byte \<Rightarrow> nat \<Rightarrow> byte list \<times> nat \<times> byte list" where
  "field_parts leftjust fill fmin fmax sign n =
     (let len = int n;
          fmin = (if fmin > MAXSTR \<or> fmin < 0 then 0 else fmin);
          fmax = (if fmax > MAXSTR \<or> fmax < 0 then 0 else fmax);
          (len, leading) =
            (if fmax \<noteq> 0 \<or> fmin \<noteq> 0
             then (let len = (if fmax \<noteq> 0 \<and> len > fmax then fmax else len);
                       leading = (if fmin \<noteq> 0 then fmin - len else 0)
                   in (len, if sign = 0x2D then leading - 1 else leading))
             else (len, 0))
      in ((if sign = 0x2D \<and> fill = 0x30 then [sign] else []) @
          (if leftjust then [] else replicate (nat leading) fill) @
          (if sign = 0x2D \<and> fill = 0x20 then [sign] else []),
          nat len, if leftjust then replicate (nat leading) fill else []))"

definition print_field :: "bool \<Rightarrow> byte \<Rightarrow> int \<Rightarrow> int \<Rightarrow> byte \<Rightarrow> byte list \<Rightarrow> byte list" where
  "print_field leftjust fill fmin fmax sign str =
     (case field_parts leftjust fill fmin fmax sign (length str) of (pre, n, post) \<Rightarrow> pre @ take n str @ post)"

section \<open>The format string\<close>

partial_function (option) width :: "bytes \<Rightarrow> uint32 \<Rightarrow> int \<Rightarrow> (int \<times> uint32) option" where
  "width m p n = (if 0x30 \<le> m p \<and> m p \<le> 0x39 then width m (p + 1) (s32 (n * 10 + uint (m p) - 0x30)) else Some (n, p))"

definition star_width :: "bytes \<Rightarrow> uint32 \<Rightarrow> uint32 list \<Rightarrow> (int \<times> uint32 \<times> uint32 list) option" where
  "star_width m p args =
     (if m p = 0x2A then do { (a, args) \<leftarrow> pop_arg args; Some (sint a, p + 1, args) }
      else do { (n, p) \<leftarrow> width m p 0; Some (n, p, args) })"

definition field :: "bytes \<Rightarrow> uint32 \<Rightarrow> uint32 list \<Rightarrow> (bool \<times> byte \<times> int \<times> int \<times> uint32 \<times> uint32 list) option" where
  "field m p args = do {
     let (leftjust, p) = (if m p = 0x2D then (True, p + 1) else (False, p));
     let (fill, p) = (if m p = 0x30 then (0x30, p + 1) else (0x20, p));
     (fmin, p, args) \<leftarrow> star_width m p args;
     (fmax, p, args) \<leftarrow> (if m p = 0x2E then star_width m (p + 1) args else Some (0, p, args));
     Some (leftjust, fill, fmin, fmax, p, args) }"

text \<open>\<^verbatim>\<open>_doprnt\<close> and \<^verbatim>\<open>_fdoprnt\<close> differ in the \<^verbatim>\<open>switch\<close> on the format character only, which is the argument \<open>cv\<close>.\<close>

partial_function (option) doprnt_with ::
  "(byte \<Rightarrow> byte \<Rightarrow> int \<Rightarrow> uint32 list \<Rightarrow> byte list \<Rightarrow> conv option) \<Rightarrow>
    bytes \<Rightarrow> uint32 \<Rightarrow> uint32 list \<Rightarrow> byte list \<Rightarrow> byte list \<Rightarrow> byte list option" where
  "doprnt_with cv m p args buf out =
     (if m p \<noteq> 0x25 then (if m p = 0 then Some out else doprnt_with cv m (p + 1) args buf (out @ [m p]))
      else if m (p + 1) = 0x25 then doprnt_with cv m (p + 2) args buf (out @ [0x25])
      else (case field m (p + 1) args of
          None \<Rightarrow> None
        | Some (leftjust, fill, fmin, fmax, p, args) \<Rightarrow>
          if m p = 0 then Some (out @ [0x25])
          else (case cv (m p) fill fmax args buf of
              None \<Rightarrow> None
            | Some c \<Rightarrow> doprnt_with cv m (p + 1) (cargs c) (cbuf c)
                (out @ cout c @ print_field leftjust (cfill c) fmin (cfmax c) (csign c) (cstring c)))))"

definition doprnt :: "bytes \<Rightarrow> uint32 \<Rightarrow> uint32 list \<Rightarrow> byte list \<Rightarrow> byte list option" where
  "doprnt m fmt args buf = doprnt_with (convert m) m fmt args buf []"

definition fdoprnt :: "bytes \<Rightarrow> uint32 \<Rightarrow> uint32 list \<Rightarrow> byte list \<Rightarrow> byte list option" where
  "fdoprnt m fmt args buf = doprnt_with (fconvert m) m fmt args buf []"

section \<open>Output to memory\<close>

text \<open>\<open>sprintf\<close> runs \<^verbatim>\<open>_fdoprnt\<close> with a routine that stores each character at once and advances the pointer \<open>s\<close>, so the
  format, the string arguments and the output share the memory: what has been stored so far is what is read next.\<close>

fun copy_str :: "bytes \<Rightarrow> uint32 \<Rightarrow> uint32 \<Rightarrow> nat \<Rightarrow> bytes" where
  "copy_str m s a 0 = m"
| "copy_str m s a (Suc n) = copy_str (m(s := m a)) (s + 1) (a + 1) n"

text \<open>Where the characters of \<^verbatim>\<open>str\<close> are: in memory for \<^verbatim>\<open>%s\<close>, in the local array or a constant otherwise.\<close>

definition str_src :: "byte \<Rightarrow> uint32 list \<Rightarrow> uint32 option" where
  "str_src f args = (if f = 0x73 \<and> hd args \<noteq> 0 then Some (hd args) else None)"

definition store_field :: "bool \<Rightarrow> int \<Rightarrow> conv \<Rightarrow> uint32 option \<Rightarrow> bytes \<Rightarrow> uint32 \<Rightarrow> uint32 \<times> bytes" where
  "store_field leftjust fmin c src m s =
     (case field_parts leftjust (cfill c) fmin (cfmax c) (csign c) (length (cstring c)) of (pre, n, post) \<Rightarrow>
        let xs = cout c @ pre; m = put m s xs; s = s + of_nat (length xs);
            m = (case src of None \<Rightarrow> put m s (take n (cstring c)) | Some a \<Rightarrow> copy_str m s a n);
            s = s + of_nat n
        in (s + of_nat (length post), put m s post))"

partial_function (option) sprnt :: "bytes \<Rightarrow> uint32 \<Rightarrow> uint32 list \<Rightarrow> byte list \<Rightarrow> uint32 \<Rightarrow> (uint32 \<times> bytes) option" where
  "sprnt m p args buf s =
     (if m p \<noteq> 0x25 then (if m p = 0 then Some (s, m) else sprnt (m(s := m p)) (p + 1) args buf (s + 1))
      else if m (p + 1) = 0x25 then sprnt (m(s := 0x25)) (p + 2) args buf (s + 1)
      else (case field m (p + 1) args of
          None \<Rightarrow> None
        | Some (leftjust, fill, fmin, fmax, p, args) \<Rightarrow>
          if m p = 0 then Some (s + 1, m(s := 0x25))
          else (case fconvert m (m p) fill fmax args buf of
              None \<Rightarrow> None
            | Some c \<Rightarrow> (case store_field leftjust fmin c (str_src (m p) args) m s of
                (s, m) \<Rightarrow> sprnt m (p + 1) (cargs c) (cbuf c) s))))"

definition sprintf :: "uint32 \<Rightarrow> uint32 \<Rightarrow> uint32 list \<Rightarrow> byte list \<Rightarrow> bytes \<Rightarrow> (uint32 \<times> bytes) option" where
  "sprintf str fmt args buf m = do { (s, m) \<leftarrow> sprnt m fmt args buf str; Some (str, m(s := 0)) }"

section \<open>Positional notation\<close>

text \<open>The digits of \<open>n\<close> to base \<open>b\<close>, written with the characters \<open>c\<close>. Decimal notation is one case.\<close>

fun in_base :: "nat \<Rightarrow> (nat \<Rightarrow> byte) \<Rightarrow> nat \<Rightarrow> byte list" where
  "in_base b c n = (if n < b \<or> b < 2 then [c n] else in_base b c (n div b) @ [c (n mod b)])"

declare in_base.simps [simp del]

abbreviation digit_char :: "nat \<Rightarrow> byte" where
  "digit_char d \<equiv> 0x30 + of_nat d"

lemma dec_numeral: "dec n = in_base 10 digit_char n"
proof (induction n rule: dec.induct)
  case (1 n)
  then show ?case by (subst dec.simps, subst in_base.simps) simp
qed

lemma digit_char_zero: "d < 10 \<Longrightarrow> digit_char d = 0x30 \<longleftrightarrow> d = 0"
proof
  assume d: "d < 10" "digit_char d = 0x30"
  then have "dval 0x30 = int d" using dig_byte(2)[OF d(1)] by simp
  then show "d = 0" by (simp add: dval_def)
qed simp

text \<open>\<^verbatim>\<open>temp\<close> after the loop of a conversion: digit \<open>j\<close> of the number, from the right, at \<open>j + 1\<close>.\<close>

abbreviation dig :: "nat \<Rightarrow> (nat \<Rightarrow> byte) \<Rightarrow> nat \<Rightarrow> nat \<Rightarrow> byte" where
  "dig b c n j \<equiv> c (n div b ^ j mod b)"

lemma copy_top:
  assumes "temp 0 \<noteq> 0x30"
  shows "copy_down (top n temp) temp = dropWhile (\<lambda>c. c = 0x30) (map temp (rev [1..<Suc n])) @ [temp 0]"
proof (induction n)
  case (Suc n)
  have c: "copy_down i temp = map temp (rev [1..<Suc i]) @ [temp 0]" for i by (induction i) simp_all
  have r: "map temp (rev [1..<Suc (Suc n)]) = temp (Suc n) # map temp (rev [1..<Suc n])" by simp
  show ?case
  proof (cases "temp (Suc n) = 0x30")
    case True
    then show ?thesis using Suc unfolding r by (simp del: upt_Suc)
  next
    case False
    then show ?thesis by (simp only: top.simps if_False c r list.map dropWhile.simps append_Cons copy_down.simps)
  qed
qed simp

lemma digits_numeral:
  assumes "0 < n" "n < b ^ k" "2 \<le> b" "\<And>d. d < b \<Longrightarrow> c d = 0x30 \<longleftrightarrow> d = 0"
  shows "dropWhile (\<lambda>c. c = 0x30) (map (dig b c n) (rev [0..<k])) = in_base b c n"
  using assms(1,2)
proof (induction k arbitrary: n)
  case (Suc k)
  have up: "[0..<Suc k] = 0 # map Suc [0..<k]" by (simp add: upt_conv_Cons map_Suc_upt del: upt_Suc)
  have m: "map (dig b c n) (rev [0..<Suc k]) = map (dig b c (n div b)) (rev [0..<k]) @ [c (n mod b)]"
    unfolding up by (simp add: rev_map comp_def div_mult2_eq)
  show ?case
  proof (cases "n < b")
    case True
    have z: "c 0 = 0x30" using assms(3) assms(4)[of 0] by simp
    have "map (dig b c (n div b)) (rev [0..<k]) = replicate k 0x30" using True z by (intro replicate_eqI) auto
    moreover have "c n \<noteq> 0x30" using True Suc.prems(1) assms(4) by simp
    ultimately show ?thesis unfolding m using True by (simp add: in_base.simps[of b c n] dropWhile_append)
  next
    case False
    then have n: "0 < n div b" "n div b < b ^ k"
      using Suc.prems assms(3) by (simp_all add: div_greater_zero_iff div_less_iff_less_mult mult.commute)
    note IH = Suc.IH[OF n]
    have "in_base b c (n div b) \<noteq> []" by (subst in_base.simps) simp
    then obtain x where "x \<in> set (map (dig b c (n div b)) (rev [0..<k]))" "\<not> x = 0x30"
      unfolding IH[symmetric] dropWhile_eq_Nil_conv by blast
    then have "dropWhile (\<lambda>c. c = 0x30) (map (dig b c n) (rev [0..<Suc k])) = in_base b c (n div b) @ [c (n mod b)]"
      unfolding m IH[symmetric] by (rule dropWhile_append1)
    then show ?thesis using False assms(3) by (simp add: in_base.simps[of b c n])
  qed
qed simp

text \<open>Whatever loop filled \<^verbatim>\<open>temp\<close> with the digits, the number that is copied out is its notation.\<close>

lemma emit_numeral:
  assumes t: "temp 0 = 0" "\<And>j. j < k \<Longrightarrow> temp (Suc j) = dig b c n j"
    and n: "n < b ^ k" "2 \<le> b" "0 < k" "\<And>d. d < b \<Longrightarrow> c d = 0x30 \<longleftrightarrow> d = 0"
  shows "emit k temp = in_base b c n @ [0]"
proof -
  have m: "map temp (rev [1..<Suc k]) = map (dig b c n) (rev [0..<k])"
  proof -
    have "[1..<Suc k] = map Suc [0..<k]" by (simp only: map_Suc_upt One_nat_def)
    then show ?thesis using t(2) by (simp add: rev_map)
  qed
  have cd: "copy_down (top k temp) temp = dropWhile (\<lambda>c. c = 0x30) (map (dig b c n) (rev [0..<k])) @ [0]"
    using copy_top[of temp k] t(1) unfolding m by simp
  show ?thesis
  proof (cases "n = 0")
    case True
    have z: "c 0 = 0x30" using n(2) n(4)[of 0] by simp
    have "dropWhile (\<lambda>c. c = 0x30) (map (dig b c n) (rev [0..<k])) = []" using True z by simp
    then have one: "copy_down (top k temp) temp = [0]" using cd by simp
    have "copy_down i temp \<noteq> []" for i by (cases i) simp_all
    then have "top k temp = 0" using one by (cases "top k temp") auto
    moreover have "temp (Suc 0) = 0x30" using t(2)[of 0] n(3) True z by simp
    ultimately show ?thesis using True t n(2) z by (simp add: emit_def in_base.simps[of b c 0])
  next
    case False
    then have "copy_down (top k temp) temp = in_base b c n @ [0]" using cd digits_numeral[where n = n and b = b and k = k and c = c] n by simp
    moreover have "top k temp \<noteq> 0"
    proof
      assume "top k temp = 0"
      then have "in_base b c n @ [0] = [temp 0]" using calculation by simp
      moreover have "in_base b c n \<noteq> []" by (subst in_base.simps) simp
      ultimately show False by simp
    qed
    ultimately show ?thesis by (simp add: emit_def)
  qed
qed

section \<open>The conversions\<close>

lemma fill10_digits:
  "fill10 k i (int n) temp j = (if i \<le> j \<and> j < i + k then dig 10 digit_char n (j - i) else temp j)"
proof (induction k arbitrary: i n temp)
  case (Suc k)
  have d: "int n sdiv 10 = int (n div 10)" "int n smod 10 = int (n mod 10)"
    by (cases "n = 0"; simp add: signed_divide_int_def signed_modulo_int_def zdiv_int zmod_int)+
  have w: "word_of_int (int (n mod 10) + 0x30) = dig 10 digit_char n 0" by simp
  have s: "dig 10 digit_char (n div 10) (j - Suc i) = dig 10 digit_char n (j - i)" if "Suc i \<le> j"
  proof -
    have "j - i = Suc (j - Suc i)" using that by simp
    then show ?thesis by (simp only: power_Suc div_mult2_eq)
  qed
  show ?case unfolding fill10.simps d w Suc.IH using s by (auto simp: not_le)
qed auto

lemma prtl10_dec:
  assumes "n < 10 ^ 10"
  shows "prtl10 (int n) = dec n @ [0]"
  unfolding prtl10_def dec_numeral
  by (rule emit_numeral) (use assms digit_char_zero in \<open>simp_all add: fill10_digits\<close>)

text \<open>The other bases shift the bits of the argument out; the arithmetic shift leaves the low 32 as they are.\<close>

lemma window:
  assumes "i + k \<le> 32"
  shows "take_bit k (drop_bit i (sint (v :: uint32))) = int (unat v div 2 ^ i mod 2 ^ k)"
proof -
  have "take_bit k (drop_bit i (sint v)) = take_bit k (drop_bit i (uint v))"
    by (rule bit_eqI) (use assms in \<open>auto simp: bit_take_bit_iff bit_drop_bit_eq bit_sint_iff bit_uint_iff min_def\<close>)
  then show ?thesis by (simp add: take_bit_eq_mod drop_bit_eq_div zdiv_int zmod_int)
qed

lemma and_digit: "and x 7 = take_bit 3 x" "and x 15 = take_bit 4 x" for x :: int
  by (simp_all add: take_bit_eq_mask mask_eq_exp_minus_1)

lemma fill8_digits:
  "fill8 k i num temp j =
     (if i \<le> j \<and> j < i + k then word_of_int (take_bit 3 (drop_bit (3 * (j - i)) num) + 0x30) else temp j)"
proof (induction k arbitrary: i num temp)
  case (Suc k)
  have s: "drop_bit (3 * (j - Suc i)) (drop_bit 3 num) = drop_bit (3 * (j - i)) num" if "Suc i \<le> j"
  proof -
    have "3 * (j - Suc i) + 3 = 3 * (j - i)" using that by simp
    then show ?thesis by (simp only: drop_bit_drop_bit)
  qed
  show ?case unfolding fill8.simps Suc.IH and_digit using s by (auto simp: not_le)
qed auto

lemma fill16_digits:
  "fill16 digs k i num temp j =
     (if i \<le> j \<and> j < i + k then digs ! nat (take_bit 4 (drop_bit (4 * (j - i)) num)) else temp j)"
proof (induction k arbitrary: i num temp)
  case (Suc k)
  have s: "drop_bit (4 * (j - Suc i)) (drop_bit 4 num) = drop_bit (4 * (j - i)) num" if "Suc i \<le> j"
  proof -
    have "4 * (j - Suc i) + 4 = 4 * (j - i)" using that by simp
    then show ?thesis by (simp only: drop_bit_drop_bit)
  qed
  show ?case unfolding fill16.simps Suc.IH and_digit using s by (auto simp: not_le)
qed auto

lemma fill2_digits:
  "fill2 k i num temp j =
     (if i \<le> j \<and> j < i + k then word_of_int (take_bit 1 (drop_bit (j - i) num) + 0x30) else temp j)"
proof (induction k arbitrary: i num temp)
  case (Suc k)
  have s: "drop_bit (j - Suc i) (drop_bit 1 num) = drop_bit (j - i) num" if "Suc i \<le> j"
  proof -
    have "j - Suc i + 1 = j - i" using that by simp
    then show ?thesis by (simp only: drop_bit_drop_bit)
  qed
  have e: "num smod 2 = 0 \<longleftrightarrow> even num"
    by (cases "num = 0") (auto simp: signed_modulo_int_def sgn_if minus_mod_self1 even_iff_mod_2_eq_zero zmod_zminus1_eq_if split: if_splits)
  have w: "word_of_int (take_bit 1 num + 0x30) = (if num smod 2 = 0 then 0x30 else 0x31 :: byte)"
    unfolding e by (auto simp: take_bit_eq_mod odd_iff_mod_2_eq_one)
  show ?case unfolding fill2.simps Suc.IH using s w by (auto simp: not_le)
qed auto

lemma lt_cases16: "n < 16 \<Longrightarrow> n \<in> {0, 1, 2, 3, 4, 5, 6, 7, 8, 9, 10, 11, 12, 13, 14, 15 :: nat}"
  using lessThan_iff[of n 16] by (simp add: lessThan_nat_numeral lessThan_Suc del: lessThan_iff) blast

lemma hex_zero: "n < 16 \<Longrightarrow> lower_digits ! n = 0x30 \<longleftrightarrow> n = 0" "n < 16 \<Longrightarrow> upper_digits ! n = 0x30 \<longleftrightarrow> n = 0"
  using lt_cases16[of n] by (auto simp: lower_digits_def upper_digits_def)

lemma unat_lt: "unat (v :: uint32) < 2 ^ 32"
  using unsigned_less[of v] by simp

lemma prtl16_hex: "prtl16 (sint (v :: uint32)) = in_base 16 (\<lambda>d. lower_digits ! d) (unat v) @ [0]"
  and prtX16_hex: "prtX16 (sint (v :: uint32)) = in_base 16 (\<lambda>d. upper_digits ! d) (unat v) @ [0]"
proof -
  have w: "nat (take_bit 4 (drop_bit (4 * j) (sint v))) = unat v div 16 ^ j mod 16" if "j < 8" for j
  proof -
    have "(2 :: nat) ^ (4 * j) = 16 ^ j" by (simp add: power_mult)
    then show ?thesis using window[of "4 * j" 4 v] that by simp
  qed
  have n: "unat v < 16 ^ 8" using unat_lt[of v] by simp
  show "prtl16 (sint v) = in_base 16 (\<lambda>d. lower_digits ! d) (unat v) @ [0]"
    unfolding prtl16_def by (rule emit_numeral) (use n w hex_zero in \<open>simp_all add: fill16_digits\<close>)
  show "prtX16 (sint v) = in_base 16 (\<lambda>d. upper_digits ! d) (unat v) @ [0]"
    unfolding prtX16_def by (rule emit_numeral) (use n w hex_zero in \<open>simp_all add: fill16_digits\<close>)
qed

lemma prtl2_binary: "prtl2 (sint (v :: uint32)) = in_base 2 digit_char (unat v) @ [0]"
proof -
  have w: "word_of_int (take_bit 1 (drop_bit j (sint v)) + 0x30) = dig 2 digit_char (unat v) j" if "j < 32" for j
    using window[of j 1 v] that by simp
  show ?thesis unfolding prtl2_def
    by (rule emit_numeral) (use unat_lt[of v] w digit_char_zero in \<open>simp_all add: fill2_digits\<close>)
qed

text \<open>The eleventh octal digit has two bits; the mask \<^verbatim>\<open>'3'\<close> removes the copies of the sign.\<close>

lemma prtl8_octal: "prtl8 (sint (v :: uint32)) = in_base 8 digit_char (unat v) @ [0]"
proof -
  let ?t = "fill8 11 1 (sint v) (\<lambda>_. 0)"
  have p: "(2 :: nat) ^ (3 * j) = 8 ^ j" for j by (simp add: power_mult)
  have w: "word_of_int (take_bit 3 (drop_bit (3 * j) (sint v)) + 0x30) = dig 8 digit_char (unat v) j" if "j < 10" for j
    using window[of "3 * j" 3 v] that p by simp
  let ?x = "take_bit 3 (drop_bit 30 (sint v))"
  have "take_bit 2 ?x = int (unat v div 2 ^ 30 mod 4)" using window[of 30 2 v] by simp
  moreover have "unat v div 2 ^ 30 < 4" using unat_lt[of v] by (simp add: div_less_iff_less_mult)
  ultimately have x: "?x mod 4 = int (unat v div 2 ^ 30)" by (simp add: take_bit_eq_mod)
  have "?x \<in> {0..<8}" by (simp add: take_bit_eq_mod)
  then have "?x = 0 \<or> ?x = 1 \<or> ?x = 2 \<or> ?x = 3 \<or> ?x = 4 \<or> ?x = 5 \<or> ?x = 6 \<or> ?x = 7" unfolding atLeastLessThan_iff by presburger
  then have "and (word_of_int (?x + 0x30)) 0x33 = (0x30 + word_of_int (?x mod 4) :: byte)" by auto
  also have "\<dots> = dig 8 digit_char (unat v) 10" using x unat_lt[of v] p[of 10] by simp
  finally have top: "and (?t 11) 0x33 = dig 8 digit_char (unat v) 10" by (simp add: fill8_digits)
  have t: "(?t(11 := and (?t 11) 0x33)) (Suc j) = dig 8 digit_char (unat v) j" if "j < 11" for j
  proof (cases "j = 10")
    case True
    then show ?thesis using top by simp
  next
    case False
    then show ?thesis using that w[of j] by (simp add: fill8_digits)
  qed
  have "unat v < 8 ^ 11" using unat_lt[of v] by simp
  then show ?thesis unfolding prtl8_def Let_def
    by (intro emit_numeral) (use t digit_char_zero in \<open>simp_all add: fill8_digits\<close>)
qed

section \<open>The local array\<close>

lemma numeral_chars: "(\<And>d. d < b \<Longrightarrow> P (c d)) \<Longrightarrow> 2 \<le> b \<Longrightarrow> list_all P (in_base b c n)"
proof (induction b c n rule: in_base.induct)
  case (1 b c n)
  then show ?case by (subst in_base.simps) auto
qed

lemma numeral_length: "n < b ^ k \<Longrightarrow> 2 \<le> b \<Longrightarrow> 0 < k \<Longrightarrow> length (in_base b c n) \<le> k"
proof (induction k arbitrary: n)
  case (Suc k)
  show ?case
  proof (cases "n < b")
    case False
    have "0 < k"
    proof (rule ccontr)
      assume "\<not> 0 < k"
      then show False using Suc.prems(1) False by simp
    qed
    moreover have "n div b < b ^ k" using Suc.prems(1,2) by (simp add: div_less_iff_less_mult mult.commute)
    ultimately have "length (in_base b c (n div b)) \<le> k" using Suc by simp
    then show ?thesis by (subst in_base.simps) (use Suc.prems(2) in simp)
  qed (subst in_base.simps, simp)
qed simp

lemma put_str:
  assumes "length xs < length buf" "0 \<notin> set xs"
  obtains b where "put_at 0 (xs @ [0]) buf = Some b" "str_of b = Some xs" "length b = length buf"
proof
  let ?b = "xs @ 0 # drop (Suc (length xs)) buf"
  show "put_at 0 (xs @ [0]) buf = Some ?b" using assms by (simp add: put_at_def)
  have "takeWhile (\<lambda>c. c \<noteq> 0) ?b = xs" using assms(2) by (subst takeWhile_append2) auto
  then show "str_of ?b = Some xs" by (simp add: str_of_def)
  show "length ?b = length buf" using assms(1) by simp
qed

lemma digit_char_nz: "d < 10 \<Longrightarrow> digit_char d \<noteq> 0"
  using dig_byte(1)[of d] by auto

lemma dec_chars: "0 \<notin> set (dec n)"
  using dec_digits(1)[of n] by (auto simp: list_all_iff)

lemma dec_length: "n < 10 ^ 10 \<Longrightarrow> length (dec n) \<le> 10"
  using numeral_length[of n 10 10] by (simp add: dec_numeral)

abbreviation field_of :: "byte \<Rightarrow> int \<Rightarrow> byte \<Rightarrow> byte list \<Rightarrow> uint32 list \<Rightarrow> byte list \<Rightarrow> conv" where
  "field_of fill fmax sign str args b \<equiv>
     \<lparr>cfill = fill, cfmax = fmax, csign = sign, cstring = str, cargs = args, cbuf = b, cout = []\<rparr>"

lemma conv_num_runs:
  assumes "prt (sint a) = xs @ [0]" "0 \<notin> set xs" "length xs < length buf"
  obtains b where "conv_num prt fill (a # args) buf = Some (field_of fill 0 0 xs args b)" "length b = length buf"
proof -
  obtain b where "put_at 0 (xs @ [0]) buf = Some b" "str_of b = Some xs" "length b = length buf"
    using put_str[OF assms(3,2)] .
  then show ?thesis using that[of b] assms(1) by (simp add: conv_num_def pop_arg_def)
qed

lemma conv_decimal_runs:
  assumes "sint a \<noteq> - (2 ^ 31)" "10 < length buf"
  obtains b where "conv_decimal fill fmax (a # args) buf =
      Some (field_of fill fmax (if sint a < 0 then 0x2D else 0) (dec (nat \<bar>sint a\<bar>)) args b)"
    "length b = length buf"
proof -
  let ?n = "nat \<bar>sint a\<bar>"
  have r: "- (2 ^ 31) < sint a" "sint a < 2 ^ 31" using sint_ge[of a] sint_lt[of a] assms(1) by simp_all
  then have n: "?n < 10 ^ 10" by simp
  have p: "prtl10 \<bar>sint a\<bar> = dec ?n @ [0]" using prtl10_dec[OF n] by simp
  have "length (dec ?n) < length buf" using dec_length[OF n] assms(2) by simp
  then obtain b where b: "put_at 0 (dec ?n @ [0]) buf = Some b" "str_of b = Some (dec ?n)" "length b = length buf"
    using put_str[OF _ dec_chars] by metis
  have "s32 (- sint a) = - sint a" by (rule s32_id) (use r in simp_all)
  then have "conv_decimal fill fmax (a # args) buf =
      Some (field_of fill fmax (if sint a < 0 then 0x2D else 0) (dec ?n) args b)"
    using b p by (cases "sint a < 0") (simp_all add: conv_decimal_def pop_arg_def Let_def)
  then show ?thesis using that b(3) by blast
qed

text \<open>\<^verbatim>\<open>%u\<close>: what is left after the billions has ten digits, and the first leaves room for them.\<close>

lemma s32_above: "2 ^ 31 \<le> x \<Longrightarrow> x < 3 * 2 ^ 31 \<Longrightarrow> s32 x = x - 2 ^ 32"
proof -
  assume x: "2 ^ 31 \<le> x" "x < 3 * 2 ^ 31"
  have "(x + 2 ^ 31) mod 2 ^ 32 = (x - 2 ^ 31 + 2 ^ 32) mod 2 ^ 32" by (simp add: add.commute)
  also have "\<dots> = (x - 2 ^ 31) mod 2 ^ 32" by (rule mod_add_self2)
  also have "\<dots> = x - 2 ^ 31" using x by (intro mod_pos_pos_trivial) simp_all
  finally show "s32 x = x - 2 ^ 32" by (simp add: s32_def)
qed

lemma s32_below: "- (3 * 2 ^ 31) \<le> x \<Longrightarrow> x < - (2 ^ 31) \<Longrightarrow> s32 x = x + 2 ^ 32"
proof -
  assume x: "- (3 * 2 ^ 31) \<le> x" "x < - (2 ^ 31)"
  have "(x + 2 ^ 31) mod 2 ^ 32 = (x + 2 ^ 31 + 2 ^ 32) mod 2 ^ 32" by (rule mod_add_self2[symmetric])
  also have "\<dots> = x + 2 ^ 31 + 2 ^ 32" using x by (intro mod_pos_pos_trivial) simp_all
  finally show "s32 x = x + 2 ^ 32" by (simp add: s32_def)
qed

lemma sint_s32: "sint (v :: uint32) = s32 (int (unat v))"
  by (simp add: sint_uint signed_take_bit_eq_take_bit_shift take_bit_eq_mod s32_def)

lemma billions_unsigned:
  fixes v :: uint32
  obtains r d where "billions (sint v) 0 = Some (int r, of_nat d)" "unat v = r + d * 10 ^ 9" "r < 2 ^ 31" "d \<le> 3"
    "d \<noteq> 0 \<longrightarrow> 10 ^ 9 \<le> r"
proof -
  define n where "n = unat v"
  let ?n = "int n"
  have sint: "sint v = s32 ?n" unfolding n_def by (rule sint_s32)
  have neg: "l < 0 \<Longrightarrow> billions l c = billions (s32 (l - 1000000000)) (c + 1)" for l c
    by (subst billions.simps) simp
  have pos: "\<not> l < 0 \<Longrightarrow> billions l c = Some (l, c)" for l c by (subst billions.simps) simp
  have n: "0 \<le> ?n" "?n < 4294967296" using unat_lt[of v] by (simp_all add: n_def[symmetric])
  consider "?n < 2147483648" | "2147483648 \<le> ?n" "?n < 3147483648" | "3147483648 \<le> ?n" "?n < 4147483648"
    | "4147483648 \<le> ?n" by linarith
  then have "\<exists>d \<le> 3. billions (sint v) 0 = Some (?n - int d * 1000000000, of_nat d) \<and>
      int d * 1000000000 \<le> ?n \<and> ?n - int d * 1000000000 < 2147483648 \<and> (d \<noteq> 0 \<longrightarrow> 1000000000 \<le> ?n - int d * 1000000000)"
  proof cases
    case 1
    then show ?thesis using n pos by (intro exI[of _ 0]) (simp add: sint s32_id)
  next
    case 2
    then have "sint v = ?n - 4294967296" "s32 (?n - 4294967296 - 1000000000) = ?n - 1000000000"
      using n s32_above[of ?n] s32_below[of "?n - 4294967296 - 1000000000"] by (simp_all add: sint)
    then show ?thesis using 2 n neg pos by (intro exI[of _ 1]) simp
  next
    case 3
    then have "sint v = ?n - 4294967296" "s32 (?n - 4294967296 - 1000000000) = ?n - 4294967296 - 1000000000"
      "s32 (?n - 4294967296 - 1000000000 - 1000000000) = ?n - 2000000000"
      using n s32_above[of ?n] s32_id[of "?n - 4294967296 - 1000000000"] s32_below[of "?n - 4294967296 - 1000000000 - 1000000000"]
      by (simp_all add: sint)
    then show ?thesis using 3 n neg pos by (intro exI[of _ 2]) simp
  next
    case 4
    then have "sint v = ?n - 4294967296" "s32 (?n - 4294967296 - 1000000000) = ?n - 4294967296 - 1000000000"
      "s32 (?n - 4294967296 - 1000000000 - 1000000000) = ?n - 4294967296 - 1000000000 - 1000000000"
      "s32 (?n - 4294967296 - 1000000000 - 1000000000 - 1000000000) = ?n - 3000000000"
      using n s32_above[of ?n] s32_id[of "?n - 4294967296 - 1000000000"] s32_id[of "?n - 4294967296 - 1000000000 - 1000000000"]
        s32_below[of "?n - 4294967296 - 1000000000 - 1000000000 - 1000000000"]
      by (simp_all add: sint)
    then show ?thesis using 4 n neg pos by (intro exI[of _ 3]) simp
  qed
  then obtain d where d: "d \<le> 3" "billions (sint v) 0 = Some (?n - int d * 1000000000, of_nat d)"
    "d * 1000000000 \<le> n" "n - d * 1000000000 < 2147483648" "d \<noteq> 0 \<longrightarrow> 1000000000 \<le> n - d * 1000000000"
    by fastforce
  show ?thesis by (rule that[of "n - d * 1000000000" d]) (use d in \<open>auto simp: n_def\<close>)
qed

text \<open>Adding to the first of ten digits adds to the number.\<close>

lemma numeral_ten_digits:
  "10 ^ k \<le> n \<Longrightarrow> n < 10 ^ Suc k \<Longrightarrow> dec n = digit_char (n div 10 ^ k) # map (dig 10 digit_char n) (rev [0..<k])"
proof (induction k arbitrary: n)
  case 0
  then show ?case by (simp add: dec.simps[of n])
next
  case (Suc k)
  then have r: "10 ^ k \<le> n div 10" "n div 10 < 10 ^ Suc k" by (simp_all add: less_eq_div_iff_mult_less_eq div_less_iff_less_mult mult.commute)
  have "\<not> n < 10"
  proof
    assume "n < 10"
    moreover have "(10 :: nat) \<le> 10 ^ Suc k" by simp
    ultimately show False using Suc.prems(1) by linarith
  qed
  then have "dec n = dec (n div 10) @ [digit_char (n mod 10)]" by (simp add: dec.simps[of n])
  moreover have "rev [0..<Suc k] = map Suc (rev [0..<k]) @ [0]"
    by (simp add: upt_conv_Cons map_Suc_upt rev_map[symmetric] del: upt_Suc)
  ultimately show ?case unfolding Suc.IH[OF r] by (simp add: div_mult2_eq comp_def)
qed

lemma add_billions:
  assumes "10 ^ 9 \<le> r" "r + d * 10 ^ 9 < 10 ^ 10"
  shows "(dec r)[0 := dec r ! 0 + of_nat d] = dec (r + d * 10 ^ 9)"
proof -
  let ?n = "r + d * 10 ^ 9"
  have r: "dec r = digit_char (r div 10 ^ 9) # map (dig 10 digit_char r) (rev [0..<9])"
    by (rule numeral_ten_digits) (use assms in simp_all)
  have n: "dec ?n = digit_char (?n div 10 ^ 9) # map (dig 10 digit_char ?n) (rev [0..<9])"
    by (rule numeral_ten_digits) (use assms in simp_all)
  have "?n div 10 ^ j mod 10 = r div 10 ^ j mod 10" if "j < 9" for j
  proof -
    have "9 = Suc (8 - j) + j" using that by simp
    then have e: "(10 :: nat) ^ 9 = 10 * 10 ^ (8 - j) * 10 ^ j" by (metis power_add power_Suc)
    have "?n = r + (d * 10 ^ (8 - j) * 10) * 10 ^ j" unfolding e by (simp only: ac_simps)
    then have "?n div 10 ^ j = r div 10 ^ j + d * 10 ^ (8 - j) * 10" by (simp only: div_mult_self1) simp
    then show ?thesis by simp
  qed
  then have "map (dig 10 digit_char ?n) (rev [0..<9]) = map (dig 10 digit_char r) (rev [0..<9])" by simp
  moreover have "?n div 10 ^ 9 = r div 10 ^ 9 + d" by simp
  ultimately show ?thesis unfolding n unfolding r by simp
qed

lemma conv_unsigned_runs:
  assumes "10 < length buf"
  obtains b where "conv_unsigned fill (a # args) buf = Some (field_of fill 0 0 (dec (unat a)) args b)" "length b = length buf"
proof -
  obtain r d where rd: "billions (sint a) 0 = Some (int r, of_nat d)" "unat a = r + d * 10 ^ 9" "r < 2 ^ 31" "d \<le> 3"
    "d \<noteq> 0 \<longrightarrow> 10 ^ 9 \<le> r" using billions_unsigned[of a] .
  have n: "r < 10 ^ 10" "unat a < 10 ^ 10" using rd(3) unat_lt[of a] by simp_all
  let ?xs = "dec r" and ?b = "dec r @ 0 # drop (Suc (length (dec r))) buf"
  have len: "length ?xs < length buf" using dec_length[OF n(1)] assms by simp
  have put: "put_at 0 (prtl10 (int r)) buf = Some ?b" using len prtl10_dec[OF n(1)] by (simp add: put_at_def)
  have ne: "?xs \<noteq> []" by (rule dec_digits(3))
  have x: "(?xs)[0 := ?xs ! 0 + of_nat d] = dec (unat a)"
  proof (cases "d = 0")
    case True
    then show ?thesis using rd(2) ne by (simp add: list_update_id)
  next
    case False
    have "(?xs)[0 := ?xs ! 0 + of_nat d] = dec (r + d * 10 ^ 9)" by (rule add_billions) (use rd False n(2) in simp_all)
    then show ?thesis using rd(2) by simp
  qed
  let ?c = "?b[0 := ?b ! 0 + of_nat d]"
  have c: "?c = dec (unat a) @ 0 # drop (Suc (length (dec r))) buf"
    using ne unfolding x[symmetric] by (simp add: list_update_append nth_append)
  have "takeWhile (\<lambda>c. c \<noteq> 0) ?c = dec (unat a)" unfolding c using dec_chars[of "unat a"] by (subst takeWhile_append2) auto
  then have "str_of ?c = Some (dec (unat a))" unfolding str_of_def using c by simp
  moreover have "length ?c = length buf" using len by simp
  ultimately show ?thesis using that[of ?c] put rd(1) by (simp add: conv_unsigned_def pop_arg_def Let_def del: list_update.simps)
qed

section \<open>Whole conversions\<close>

text \<open>A number in a field: sign, digits, and the filling, which goes between them when it is zeros on the left.\<close>

definition aligned :: "bool \<Rightarrow> byte \<Rightarrow> nat \<Rightarrow> byte list \<Rightarrow> byte list \<Rightarrow> byte list" where
  "aligned leftjust fill w sg str =
     (let pad = replicate (w - length sg - length str) fill in
      if leftjust then sg @ str @ pad else if fill = 0x30 then sg @ pad @ str else pad @ sg @ str)"

lemma print_field_aligned:
  assumes "0 \<le> fmin" "fmin \<le> 80" "fill = 0x20 \<or> fill = 0x30"
  shows "print_field leftjust fill fmin 0 sign str =
    aligned leftjust fill (nat fmin) (if sign = 0x2D then [0x2D] else []) str"
proof -
  have n: "nat (fmin - int (length str)) = nat fmin - length str"
    "nat (fmin - int (length str) - 1) = nat fmin - Suc (length str)" using assms(1) by linarith+
  show ?thesis
    using assms by (cases "fmin = 0") (auto simp: print_field_def field_parts_def aligned_def Let_def n)
qed

text \<open>What a conversion of one number shows: its sign and its digits.\<close>

definition number_text :: "byte \<Rightarrow> uint32 \<Rightarrow> (byte list \<times> byte list) option" where
  "number_text f a =
     (if f = 0x64 then
        (if sint a = - (2 ^ 31) then None
         else Some (if sint a < 0 then [0x2D] else [], dec (nat \<bar>sint a\<bar>)))
      else if f = 0x75 then Some ([], dec (unat a))
      else if f = 0x6F then Some ([], in_base 8 digit_char (unat a))
      else if f = 0x58 then Some ([], in_base 16 (\<lambda>d. upper_digits ! d) (unat a))
      else if f = 0x78 then Some ([], in_base 16 (\<lambda>d. lower_digits ! d) (unat a))
      else None)"

lemma numeral_str:
  assumes "\<And>d. d < b \<Longrightarrow> c d \<noteq> 0" "2 \<le> b" "n < b ^ k" "0 < k"
  shows "0 \<notin> set (in_base b c n)" "length (in_base b c n) \<le> k"
  using numeral_chars[of b "\<lambda>x. x \<noteq> 0" c n] numeral_length[of n b k c] assms by (auto simp: list_all_iff)

lemma hex_nz: "n < 16 \<Longrightarrow> lower_digits ! n \<noteq> 0" "n < 16 \<Longrightarrow> upper_digits ! n \<noteq> 0"
  using lt_cases16[of n] by (auto simp: lower_digits_def upper_digits_def)

lemma convert_number:
  assumes "number_text f a = Some (sg, str)" "11 < length buf"
  obtains b where "convert m f fill 0 (a # args) buf = Some (field_of fill 0 (if sg = [] then 0 else 0x2D) str args b)"
    "length b = length buf" "sg = [] \<or> sg = [0x2D]"
proof -
  have oct: "0 \<notin> set (in_base 8 digit_char (unat a))" "length (in_base 8 digit_char (unat a)) \<le> 11"
    using numeral_str[of 8 digit_char "unat a" 11] digit_char_nz unat_lt[of a] by simp_all
  have up: "0 \<notin> set (in_base 16 (\<lambda>d. upper_digits ! d) (unat a))" "length (in_base 16 (\<lambda>d. upper_digits ! d) (unat a)) \<le> 8"
    using numeral_str[of 16 "\<lambda>d. upper_digits ! d" "unat a" 8] hex_nz unat_lt[of a] by simp_all
  have lo: "0 \<notin> set (in_base 16 (\<lambda>d. lower_digits ! d) (unat a))" "length (in_base 16 (\<lambda>d. lower_digits ! d) (unat a)) \<le> 8"
    using numeral_str[of 16 "\<lambda>d. lower_digits ! d" "unat a" 8] hex_nz unat_lt[of a] by simp_all
  consider "f = 0x64" | "f = 0x75" | "f = 0x6F" | "f = 0x58" | "f = 0x78"
    using assms(1) by (auto simp: number_text_def split: if_splits)
  then show ?thesis
  proof cases
    case 1
    then have d: "sint a \<noteq> - (2 ^ 31)" "sg = (if sint a < 0 then [0x2D] else [])" "str = dec (nat \<bar>sint a\<bar>)"
      using assms(1) by (auto simp: number_text_def split: if_splits)
    obtain b where "conv_decimal fill 0 (a # args) buf =
        Some (field_of fill 0 (if sint a < 0 then 0x2D else 0) (dec (nat \<bar>sint a\<bar>)) args b)" "length b = length buf"
      using conv_decimal_runs[OF d(1), of buf fill 0 args] assms(2) by auto
    then show ?thesis using that[of b] 1 d by (simp add: convert_def)
  next
    case 2
    then show ?thesis using conv_unsigned_runs[of buf fill a args] that assms by (auto simp: number_text_def convert_def)
  next
    case 3
    then show ?thesis using conv_num_runs[where prt = prtl8 and a = a and buf = buf and fill = fill and args = args, OF prtl8_octal oct(1)] that assms oct(2)
      by (auto simp: number_text_def convert_def)
  next
    case 4
    then show ?thesis using conv_num_runs[where prt = prtX16 and a = a and buf = buf and fill = fill and args = args, OF prtX16_hex up(1)] that assms up(2)
      by (auto simp: number_text_def convert_def)
  next
    case 5
    then show ?thesis using conv_num_runs[where prt = prtl16 and a = a and buf = buf and fill = fill and args = args, OF prtl16_hex lo(1)] that assms lo(2)
      by (auto simp: number_text_def convert_def)
  qed
qed

text \<open>Twenty binary digits do not fit into the array with their zero byte.\<close>

lemma binary_overflows:
  assumes "2 ^ 19 \<le> unat a" "length buf = 20"
  shows "convert m 0x62 fill fmax (a # args) buf = None"
proof -
  have long: "k < length (in_base 2 c n)" if "2 ^ k \<le> n" for k n and c :: "nat \<Rightarrow> byte" using that
  proof (induction k arbitrary: n)
    case 0
    then show ?case by (subst in_base.simps) simp
  next
    case (Suc k)
    then have "2 ^ k \<le> n div 2" by simp
    moreover have "\<not> n < 2" using Suc.prems one_le_power[of "2 :: nat" k] unfolding power_Suc by linarith
    ultimately show ?case using Suc.IH[of "n div 2"] by (subst in_base.simps) simp
  qed
  have "19 < length (in_base 2 digit_char (unat a))" by (rule long[OF assms(1)])
  then show ?thesis using assms(2) by (simp add: convert_def conv_num_def pop_arg_def prtl2_binary put_at_def)
qed

section \<open>Formats\<close>

lemma width_run:
  "starts m p ds \<Longrightarrow> list_all is_dig ds \<Longrightarrow> \<not> is_dig (m (p + of_nat (length ds))) \<Longrightarrow> 0 \<le> n \<Longrightarrow>
   horner n ds < 2 ^ 31 \<Longrightarrow> width m p n = Some (horner n ds, p + of_nat (length ds))"
proof (induction ds arbitrary: p n)
  case Nil
  then have "\<not> (0x30 \<le> m p \<and> m p \<le> 0x39)" by simp
  then show ?case by (subst width.simps) (simp only: if_False horner_def foldl.simps, simp)
next
  case (Cons c ds)
  let ?n = "n * 10 + dval c"
  have pos: "0 \<le> ?n" using Cons.prems(2,4) by (simp add: dval_def word_le_def)
  have h: "horner n (c # ds) = horner ?n ds" by (simp add: horner_def)
  have "?n < 2 ^ 31" using horner_mono[OF pos, of ds] Cons.prems(2,5) h by simp
  then have "s32 (n * 10 + uint c - 0x30) = ?n" using pos s32_id[of ?n] by (simp add: dval_def algebra_simps)
  moreover have "width m (p + 1) ?n = Some (horner ?n ds, p + 1 + of_nat (length ds))"
    by (rule Cons.IH) (use Cons.prems pos h in \<open>simp_all add: algebra_simps\<close>)
  moreover have "0x30 \<le> m p \<and> m p \<le> 0x39" "m p = c" using Cons.prems(1,2) by simp_all
  ultimately show ?case unfolding h by (subst width.simps) (simp add: algebra_simps)
qed

lemma dec_head: "0 < n \<Longrightarrow> hd (dec n) \<noteq> 0x30"
proof -
  assume n: "0 < n"
  have "n < 10 ^ n" by (rule power_gt_expt) simp
  then have "dec n = dropWhile (\<lambda>c. c = 0x30) (map (dig 10 digit_char n) (rev [0..<n]))"
    unfolding dec_numeral using digits_numeral[of n 10 n digit_char] n digit_char_zero by simp
  then show ?thesis using hd_dropWhile[of "\<lambda>c. c = 0x30"] dec_digits(3)[of n] by metis
qed

text \<open>The text of a conversion with its flags and its width.\<close>

definition flags :: "bool \<Rightarrow> bool \<Rightarrow> nat \<Rightarrow> byte list" where
  "flags leftjust zero w = (if leftjust then [0x2D] else []) @ (if zero then [0x30] else []) @ (if w = 0 then [] else dec w)"

lemma field_plain:
  assumes s: "starts m p (flags lj z w @ [f])" and w: "w \<le> 80" and f: "f \<in> {0x64, 0x75, 0x6F, 0x58, 0x78, 0x73, 0x63}"
  shows "field m p args = Some (lj, if z then 0x30 else 0x20, int w, 0, p + of_nat (length (flags lj z w)), args)"
proof -
  let ?ds = "if w = 0 then [] else dec w"
  let ?q = "if lj then p + 1 else p"
  let ?r = "if z then ?q + 1 else ?q"
  let ?e = "?r + of_nat (length ?ds)"
  have q: "starts m ?q ((if z then [0x30] else []) @ ?ds @ [f])" "lj \<Longrightarrow> m p = 0x2D"
    using s by (auto simp: flags_def split: if_splits)
  then have r: "starts m ?r (?ds @ [f])" "z \<Longrightarrow> m ?q = 0x30" by (auto split: if_splits)
  have e: "m ?e = f" "starts m ?r ?ds" using r(1) by (simp_all add: starts_append)
  have hd: "hd (?ds @ [f]) = m ?r" using r(1) by (cases "?ds") (auto split: if_splits)
  have dighd: "w \<noteq> 0 \<Longrightarrow> is_dig (hd (dec w)) \<and> hd (dec w) \<noteq> 0x30"
    using dec_digits(1,3)[of w] dec_head[of w] by (cases "dec w") auto
  have nr: "m ?r \<noteq> 0x2A" "m ?r \<noteq> 0x30" "m ?r \<noteq> 0x2D"
    using hd dighd f dec_digits(3)[of w] by (auto split: if_splits)
  have w1: "width m ?r 0 = Some (int w, ?e)"
  proof -
    have "horner 0 ?ds = int w" "list_all is_dig ?ds" using dec_digits(1,2)[of w] by (simp_all add: horner_def)
    moreover have "\<not> is_dig (m ?e)" using f unfolding e(1) by auto
    ultimately show ?thesis using width_run[of m ?r ?ds 0] e(2) w by simp
  qed
  have lj: "(if m p = 0x2D then (True, p + 1) else (False, p)) = (lj, ?q)"
    using q(2) nr(3) r(2) by (cases lj; cases z) auto
  have z: "(if m ?q = 0x30 then (0x30, ?q + 1) else (0x20, ?q)) = (if z then 0x30 else 0x20, ?r)"
    using r(2) nr(2) by (cases z) auto
  have "?e = p + of_nat (length (flags lj z w))" by (simp add: flags_def algebra_simps)
  moreover have "m ?e \<noteq> 0x2E" using f unfolding e(1) by auto
  ultimately show ?thesis unfolding field_def Let_def lj case_prod_conv z star_width_def using nr(1) w1 by simp
qed

end
