(* ===== verification/Lib_Format.thy ===== *)
theory Lib_Format
  imports Lib_Print
begin

text \<open>
  What a whole format prints: the specification of \<open>doprnt\<close> and \<open>fdoprnt\<close> over a list of pieces, literal text,
  numbers, strings and characters, and the functions that call them, \<open>sprintf\<close> (\<^verbatim>\<open>lib/sprintf.c\<close>) and \<open>kprintf\<close>
  (\<^verbatim>\<open>system/kprintf.c\<close>).
\<close>

section \<open>Printing on the console line\<close>

text \<open>The characters one call of \<open>kputc\<close> sends.\<close>

definition kputc :: "byte \<Rightarrow> byte list" where
  "kputc c = (if c = 0x0A then [c, 0x0D] else [c])"

definition kprintf :: "bytes \<Rightarrow> uint32 \<Rightarrow> uint32 list \<Rightarrow> byte list \<Rightarrow> (int \<times> byte list) option" where
  "kprintf m fmt args buf = do { out \<leftarrow> doprnt m fmt args buf; Some (OK, concat (map kputc out)) }"

section \<open>Formats as lists of pieces\<close>

text \<open>A number with its flags, width and conversion; a string at an address; a character.\<close>

datatype piece =
    Text "byte list" | Percent
  | Num bool bool nat byte uint32
  | Str bool nat uint32 "byte list"
  | Chr bool nat uint32

fun piece_format :: "piece \<Rightarrow> byte list" where
  "piece_format (Text xs) = xs"
| "piece_format Percent = [0x25, 0x25]"
| "piece_format (Num lj z w f a) = 0x25 # flags lj z w @ [f]"
| "piece_format (Str lj w a xs) = 0x25 # flags lj False w @ [0x73]"
| "piece_format (Chr lj w a) = 0x25 # flags lj False w @ [0x63]"

fun piece_args :: "piece \<Rightarrow> uint32 list" where
  "piece_args (Num lj z w f a) = [a]"
| "piece_args (Str lj w a xs) = [a]"
| "piece_args (Chr lj w a) = [a]"
| "piece_args _ = []"

fun piece_text :: "piece \<Rightarrow> byte list" where
  "piece_text (Text xs) = xs"
| "piece_text Percent = [0x25]"
| "piece_text (Num lj z w f a) = (case number_text f a of None \<Rightarrow> [] | Some (sg, ds) \<Rightarrow> aligned lj (if z then 0x30 else 0x20) w sg ds)"
| "piece_text (Str lj w a xs) = aligned lj 0x20 w [] xs"
| "piece_text (Chr lj w a) = aligned lj 0x20 w [] [ucast a]"

fun piece_ok :: "bytes \<Rightarrow> piece \<Rightarrow> bool" where
  "piece_ok m (Text xs) \<longleftrightarrow> list_all (\<lambda>c. c \<noteq> 0 \<and> c \<noteq> 0x25) xs"
| "piece_ok m Percent \<longleftrightarrow> True"
| "piece_ok m (Num lj z w f a) \<longleftrightarrow> w \<le> 80 \<and> number_text f a \<noteq> None"
| "piece_ok m (Str lj w a xs) \<longleftrightarrow> w \<le> 80 \<and> a \<noteq> 0 \<and> cstr m a xs"
| "piece_ok m (Chr lj w a) \<longleftrightarrow> w \<le> 80 \<and> (ucast a :: byte) \<noteq> 0"

lemma read_str_cstr: "cstr m a xs \<Longrightarrow> read_str m a acc = Some (acc @ xs)"
proof (induction xs arbitrary: a acc)
  case Nil
  then show ?case by (subst read_str.simps) simp
next
  case (Cons x xs)
  then show ?case by (subst read_str.simps) simp
qed

text \<open>Each conversion prints its piece and goes on behind it, with some other contents of the local array.\<close>

lemma not_percent:
  assumes "starts m p (flags lj z w @ [f])" "f \<in> {0x64, 0x75, 0x6F, 0x58, 0x78, 0x73, 0x63}"
  shows "m p \<noteq> 0x25"
proof
  assume "m p = 0x25"
  moreover have "m p = hd (flags lj z w @ [f])" using assms(1) by (cases "flags lj z w @ [f]") auto
  moreover have "w \<noteq> 0 \<Longrightarrow> is_dig (hd (dec w))" using dec_digits(1,3)[of w] by (cases "dec w") auto
  ultimately show False using assms(2) dec_digits(3)[of w] by (auto simp: flags_def split: if_splits)
qed

lemma doprnt_field_step:
  assumes s: "starts m p (0x25 # flags lj z w @ [f])" and w: "w \<le> 80" and f: "f \<in> {0x64, 0x75, 0x6F, 0x58, 0x78, 0x73, 0x63}"
    and c: "cv f fill 0 (a # args) buf = Some (field_of fill 0 sign str args b)"
      "fill = (if z then 0x30 else 0x20)" "sg = [] \<and> sign = 0 \<or> sg = [0x2D] \<and> sign = 0x2D"
  shows "doprnt_with cv m p (a # args) buf out =
    doprnt_with cv m (p + of_nat (length (0x25 # flags lj z w @ [f]))) args b (out @ aligned lj fill w sg str)"
proof -
  let ?q = "p + 1 + of_nat (length (flags lj z w))" and ?fill = "if z then 0x30 else 0x20 :: byte"
  have s': "m p = 0x25" "starts m (p + 1) (flags lj z w @ [f])" "m ?q = f" using s by (auto simp: starts_append algebra_simps)
  have fl: "field m (p + 1) (a # args) = Some (lj, ?fill, int w, 0, ?q, a # args)" by (rule field_plain[OF s'(2) w f])
  have pf: "print_field lj fill (int w) 0 sign str = aligned lj fill w sg str"
    using print_field_aligned[of "int w" fill lj sign str] w c(2,3) by auto
  have "f \<noteq> 0" using f by auto
  then have "doprnt_with cv m p (a # args) buf out = doprnt_with cv m (?q + 1) args b (out @ aligned lj fill w sg str)"
    by (subst doprnt_with.simps) (use s'(1,3) not_percent[OF s'(2) f] fl c(1,2) pf in simp)
  then show ?thesis by (simp add: algebra_simps)
qed

lemma doprnt_text:
  "starts m p xs \<Longrightarrow> list_all (\<lambda>c. c \<noteq> 0 \<and> c \<noteq> 0x25) xs \<Longrightarrow>
   doprnt_with cv m p args buf out = doprnt_with cv m (p + of_nat (length xs)) args buf (out @ xs)"
proof (induction xs arbitrary: p out)
  case (Cons x xs)
  then have "doprnt_with cv m p args buf out = doprnt_with cv m (p + 1) args buf (out @ [x])"
    by (subst doprnt_with.simps) simp
  also have "\<dots> = doprnt_with cv m (p + 1 + of_nat (length xs)) args buf ((out @ [x]) @ xs)"
    by (rule Cons.IH) (use Cons.prems in simp_all)
  finally show ?case by (simp add: algebra_simps)
qed simp

text \<open>What a piece with one argument is for the interpreter.\<close>

lemma piece_conv:
  assumes cv: "cv = convert m \<or> cv = fconvert m" and ok: "piece_ok m d" and b: "length buf = 20"
    and d: "d \<noteq> Percent" "\<And>xs. d \<noteq> Text xs"
  obtains lj z w f a fill sign sg str b where "piece_format d = 0x25 # flags lj z w @ [f]" "piece_args d = [a]" "w \<le> 80"
    "f \<in> {0x64, 0x75, 0x6F, 0x58, 0x78, 0x73, 0x63}" "fill = (if z then 0x30 else 0x20)" "piece_text d = aligned lj fill w sg str"
    "sg = [] \<and> sign = 0 \<or> sg = [0x2D] \<and> sign = 0x2D" "length b = 20"
    "cv f fill 0 (a # args) buf = Some (field_of fill 0 sign str args b)"
    "f = 0x73 \<longrightarrow> d = Str lj w a str \<and> a \<noteq> 0 \<and> cstr m a str"
proof (cases d)
  case (Num lj z w f a)
  then obtain sg ds where t: "number_text f a = Some (sg, ds)" using ok by (cases "number_text f a") auto
  have f: "f \<in> {0x64, 0x75, 0x6F, 0x58, 0x78}" using t by (auto simp: number_text_def split: if_splits)
  let ?fill = "if z then 0x30 else 0x20 :: byte"
  obtain b' where b': "convert m f ?fill 0 (a # args) buf = Some (field_of ?fill 0 (if sg = [] then 0 else 0x2D) ds args b')"
    "length b' = 20" "sg = [] \<or> sg = [0x2D]" using convert_number[OF t, of buf m ?fill args] b by auto
  have c: "cv f ?fill 0 (a # args) buf = Some (field_of ?fill 0 (if sg = [] then 0 else 0x2D) ds args b')"
    using cv b'(1) f by (auto simp: convert_def fconvert_def)
  have g: "sg = [] \<and> (if sg = [] then 0 else 0x2D) = (0 :: byte) \<or> sg = [0x2D] \<and> (if sg = [] then 0 else 0x2D) = (0x2D :: byte)"
    using b'(3) by auto
  show ?thesis
    by (rule that[of lj z w f a ?fill sg ds _ b', OF _ _ _ _ refl _ g b'(2) c]) (use Num ok t f in simp_all, auto)
next
  case (Str lj w a xs)
  then have r: "read_str m a [] = Some xs" "a \<noteq> 0" using ok read_str_cstr[of m a xs "[]"] by simp_all
  have c: "cv 0x73 0x20 0 (a # args) buf = Some (field_of 0x20 0 0 xs args buf)"
    using cv r by (auto simp: convert_def fconvert_def conv_string_def pop_arg_def)
  show ?thesis
    by (rule that[of lj False w "0x73" a "0x20" "[]" xs 0 buf, OF _ _ _ _ _ _ _ b c]) (use Str ok in simp_all)
next
  case (Chr lj w a)
  let ?b = "[ucast a, 0] @ drop 2 buf"
  have n: "ucast a \<noteq> (0 :: byte)" using ok Chr by simp
  then have "str_of ?b = Some [ucast a]" by (simp add: str_of_def)
  moreover have "put_at 0 [ucast a, 0] buf = Some ?b" using b by (simp add: put_at_def numeral_2_eq_2)
  ultimately have c: "cv 0x63 0x20 0 (a # args) buf = Some (field_of 0x20 0 0 [ucast a] args ?b)"
    using cv by (auto simp: convert_def fconvert_def conv_char_def pop_arg_def)
  have l: "length ?b = 20" using b by simp
  show ?thesis
    by (rule that[of lj False w "0x63" a "0x20" "[]" "[ucast a]" 0 ?b, OF _ _ _ _ _ _ _ l c]) (use Chr ok in simp_all)
qed (use d in auto)

lemma doprnt_piece:
  assumes cv: "cv = convert m \<or> cv = fconvert m" and ok: "piece_ok m d" and s: "starts m p (piece_format d)" and b: "length buf = 20"
  obtains buf' where "length buf' = 20"
    "doprnt_with cv m p (piece_args d @ args) buf out =
     doprnt_with cv m (p + of_nat (length (piece_format d))) args buf' (out @ piece_text d)"
proof -
  consider xs where "d = Text xs" | "d = Percent" | "d \<noteq> Percent" "\<And>xs. d \<noteq> Text xs" by blast
  then show ?thesis
  proof cases
    case 1
    then show ?thesis using that[OF b] doprnt_text[of m p xs cv args buf out] ok s by simp
  next
    case 2
    have "doprnt_with cv m p args buf out = doprnt_with cv m (p + 2) args buf (out @ [0x25])"
      by (subst doprnt_with.simps) (use s 2 in simp)
    then show ?thesis using that[OF b] 2 by simp
  next
    case 3
    obtain lj z w f a fill sign sg str b' where P: "piece_format d = 0x25 # flags lj z w @ [f]" "piece_args d = [a]" "w \<le> 80"
      "f \<in> {0x64, 0x75, 0x6F, 0x58, 0x78, 0x73, 0x63}" "fill = (if z then 0x30 else 0x20)" "piece_text d = aligned lj fill w sg str"
      "sg = [] \<and> sign = 0 \<or> sg = [0x2D] \<and> sign = 0x2D" "length b' = 20"
      "cv f fill 0 (a # args) buf = Some (field_of fill 0 sign str args b')"
      "f = 0x73 \<longrightarrow> d = Str lj w a str \<and> a \<noteq> 0 \<and> cstr m a str"
      by (rule piece_conv[where args = args, OF cv ok b 3])
    from doprnt_field_step[where cv = cv, OF s[unfolded P(1)] P(3,4,9,5,7)] show ?thesis
      using that[OF P(8)] unfolding P(1,2,6) by simp
  qed
qed

theorem doprnt_pieces:
  assumes cv: "cv = convert m \<or> cv = fconvert m"
  shows "list_all (piece_ok m) ps \<Longrightarrow> starts m p (concat (map piece_format ps) @ [0]) \<Longrightarrow> length buf = 20 \<Longrightarrow>
    doprnt_with cv m p (concat (map piece_args ps)) buf out = Some (out @ concat (map piece_text ps))"
proof (induction ps arbitrary: p buf out)
  case Nil
  then show ?case by (subst doprnt_with.simps) simp
next
  case (Cons d ps)
  obtain buf' where b: "length buf' = 20"
    "doprnt_with cv m p (piece_args d @ concat (map piece_args ps)) buf out =
     doprnt_with cv m (p + of_nat (length (piece_format d))) (concat (map piece_args ps)) buf' (out @ piece_text d)"
    by (rule doprnt_piece[OF cv]) (use Cons.prems in \<open>auto simp: starts_append\<close>)
  have "starts m (p + of_nat (length (piece_format d))) (concat (map piece_format ps) @ [0])"
    using Cons.prems(2) by (simp add: starts_append algebra_simps)
  then show ?case using Cons.IH[OF _ _ b(1)] Cons.prems(1) b(2) by simp
qed

section \<open>Printing and reading back\<close>

text \<open>What \<^verbatim>\<open>%d\<close> printed, \<open>atoi\<close> reads.\<close>

lemma print_reads:
  assumes "number_text 0x64 a = Some (sg, str)" "starts m q (aligned False 0x20 w sg str @ [e])" "\<not> is_dig e"
  shows "atoi m q = Some (sint a)"
proof (rule atoi_dec)
  have d: "sint a \<noteq> - (2 ^ 31)" "sg = (if sint a < 0 then [0x2D] else [])" "str = dec (nat \<bar>sint a\<bar>)"
    using assms(1) by (auto simp: number_text_def split: if_splits)
  then have t: "sg @ str = dec_int (sint a)" by (simp add: dec_int_def)
  show "starts m q (replicate (w - length sg - length str) 0x20 @ dec_int (sint a) @ [e])"
    using assms(2) unfolding t[symmetric] by (simp add: aligned_def Let_def)
  show "list_all (\<lambda>c. c = 0x20 \<or> c = 9) (replicate (w - length sg - length str) 0x20)" by (simp add: list_all_iff)
  show "- (2 ^ 31) < sint a" "sint a < 2 ^ 31" using d(1) sint_ge[of a] sint_lt[of a] by simp_all
qed (rule assms(3))

lemma starts_put: "length xs \<le> 2 ^ 32 \<Longrightarrow> starts (put m a xs) a xs"
proof (induction xs arbitrary: a m)
  case (Cons x xs)
  then have "a \<notin> area (a + 1) (length xs)" by (intro area_fresh) simp
  then have "put m a (x # xs) a = x" by (simp add: put_same)
  then show ?case using Cons by simp
qed simp

section \<open>Printing into memory\<close>

text \<open>When the output overlaps nothing that is read, storing each character at once is storing the whole text.\<close>

lemma starts_cong:
  assumes "starts m a xs" "\<And>x. x \<in> area a (length xs) \<Longrightarrow> m' x = m x"
  shows "starts m' a xs"
  using assms by (induction xs arbitrary: a) (simp_all add: area_Suc)

lemma area_add: "area a (m + n) = area a m \<union> area (a + of_nat m) n"
  by (induction m arbitrary: a) (simp_all add: area_Suc algebra_simps)

lemma area_apart:
  fixes a b :: uint32
  assumes "unat b + k \<le> unat a" "unat a + n \<le> 2 ^ 32"
  shows "area a n \<inter> area b k = {}"
proof -
  have lt: "unat b + k \<le> 2 ^ 32" using assms(1) unat_lt[of a] by simp
  have u: "unat (c + of_nat i) = unat c + i" if "unat c + m \<le> 2 ^ 32" "i < m" for c :: uint32 and i m
    using that by (subst unat_add_lem[THEN iffD1]) (simp_all add: unat_of_nat)
  show ?thesis
  proof (rule ccontr)
    assume "area a n \<inter> area b k \<noteq> {}"
    then obtain i j where "i < n" "j < k" "a + of_nat i = b + of_nat j" by (auto simp: area_def)
    then show False using u[OF assms(2), of i] u[OF lt, of j] assms(1) by simp
  qed
qed

lemma put_starts: "starts m a xs \<Longrightarrow> area s (length ys) \<inter> area a (length xs) = {} \<Longrightarrow> starts (put m s ys) a xs"
  by (erule starts_cong) (auto intro: put_same)

lemma cstr_starts: "cstr m a xs \<Longrightarrow> starts m a xs"
  by (induction xs arbitrary: a) simp_all

lemma starts_take: "starts m a xs \<Longrightarrow> starts m a (take n xs)"
  using starts_append[of m a "take n xs" "drop n xs"] by simp

lemma copy_str_put:
  "starts m a xs \<Longrightarrow> n \<le> length xs \<Longrightarrow> area s n \<inter> area a n = {} \<Longrightarrow> copy_str m s a n = put m s (take n xs)"
proof (induction n arbitrary: m s a xs)
  case (Suc n)
  then obtain x ys where xs: "xs = x # ys" by (cases xs) auto
  have d: "area (s + 1) n \<inter> area (a + 1) n = {}" "s \<notin> area (a + 1) n" using Suc.prems(3) by (auto simp: area_Suc)
  have n: "m a = x" "starts m (a + 1) (take n ys)" "length (take n ys) = n" using Suc.prems(1,2) xs by (simp_all add: starts_take)
  have "starts (m(s := x)) (a + 1) (take n ys)"
    by (rule starts_cong[OF n(2)]) (use d(2) n(3) in auto)
  from Suc.IH[OF this _ d(1)] n(3) have "copy_str (m(s := x)) (s + 1) (a + 1) n = put (m(s := x)) (s + 1) (take n ys)"
    by (simp del: fun_upd_apply)
  then show ?case unfolding copy_str.simps n(1) xs take_Suc_Cons put.simps .
qed simp

lemma field_parts_len: "field_parts lj fill fmin fmax sign k = (pre, n, post) \<Longrightarrow> n \<le> k"
  by (auto simp: field_parts_def Let_def split: if_splits prod.splits)

lemma store_field_put:
  fixes X :: "byte list"
  assumes X: "X = cout c @ print_field lj (cfill c) fmin (cfmax c) (csign c) (cstring c)"
    and src: "\<And>a. src = Some a \<Longrightarrow> starts m a (cstring c) \<and> area s (length X) \<inter> area a (length (cstring c)) = {}"
  shows "store_field lj fmin c src m s = (s + of_nat (length X), put m s X)"
proof -
  let ?str = "cstring c"
  obtain pre n post where f: "field_parts lj (cfill c) fmin (cfmax c) (csign c) (length ?str) = (pre, n, post)"
    by (cases "field_parts lj (cfill c) fmin (cfmax c) (csign c) (length ?str)") auto
  have n: "n \<le> length ?str" using field_parts_len[OF f] .
  let ?xs = "cout c @ pre" and ?s = "s + of_nat (length (cout c @ pre))"
  have X': "X = ?xs @ take n ?str @ post" by (simp add: X print_field_def f)
  have l: "length X = length ?xs + (n + length post)" using n by (simp add: X')
  have "copy_str (put m s ?xs) ?s a n = put (put m s ?xs) ?s (take n ?str)" if "src = Some a" for a
  proof (rule copy_str_put[OF _ n])
    note S = src[OF that]
    have sub: "area s (length ?xs) \<union> area ?s n \<subseteq> area s (length X)" unfolding l area_add by auto
    then show "starts (put m s ?xs) a ?str" using S by (intro put_starts) auto
    have "area a n \<subseteq> area a (length ?str)" using n area_add[of a n "length ?str - n"] by auto
    then show "area ?s n \<inter> area a n = {}" using sub S by blast
  qed
  then show ?thesis
    using n by (cases src) (simp_all add: store_field_def f Let_def X' put_append algebra_simps)
qed

lemma sprnt_text:
  "starts m p xs \<Longrightarrow> list_all (\<lambda>c. c \<noteq> 0 \<and> c \<noteq> 0x25) xs \<Longrightarrow> area s (length xs) \<inter> area p (length xs) = {} \<Longrightarrow>
   sprnt m p args buf s = sprnt (put m s xs) (p + of_nat (length xs)) args buf (s + of_nat (length xs))"
proof (induction xs arbitrary: m p s)
  case (Cons x xs)
  have d: "area (s + 1) (length xs) \<inter> area (p + 1) (length xs) = {}" "s \<notin> area (p + 1) (length xs)"
    using Cons.prems(3) by (auto simp: area_Suc)
  have st: "starts (m(s := x)) (p + 1) xs" by (rule starts_cong[of m]) (use Cons.prems(1) d(2) in auto)
  have "sprnt m p args buf s = sprnt (m(s := x)) (p + 1) args buf (s + 1)"
    by (subst sprnt.simps) (use Cons.prems in simp)
  also have "\<dots> = sprnt (put (m(s := x)) (s + 1) xs) (p + 1 + of_nat (length xs)) args buf (s + 1 + of_nat (length xs))"
    by (rule Cons.IH[OF st _ d(1)]) (use Cons.prems in simp)
  finally show ?case by (simp add: algebra_simps)
qed simp

text \<open>The addresses a piece reads, besides the format.\<close>

fun piece_reads :: "piece \<Rightarrow> uint32 set" where
  "piece_reads (Str lj w a xs) = area a (Suc (length xs))"
| "piece_reads _ = {}"

lemma sprnt_piece:
  assumes ok: "piece_ok m d" and st: "starts m p (piece_format d)" and b: "length buf = 20"
    and dis: "area s (length (piece_text d)) \<inter> (area p (length (piece_format d)) \<union> piece_reads d) = {}"
  obtains buf' where "length buf' = 20"
    "sprnt m p (piece_args d @ args) buf s = sprnt (put m s (piece_text d)) (p + of_nat (length (piece_format d))) args buf'
       (s + of_nat (length (piece_text d)))"
proof -
  consider xs where "d = Text xs" | "d = Percent" | "d \<noteq> Percent" "\<And>xs. d \<noteq> Text xs" by blast
  then show ?thesis
  proof cases
    case 1
    then show ?thesis using that[OF b] sprnt_text[of m p xs s args buf] ok st dis by simp
  next
    case 2
    have "sprnt m p args buf s = sprnt (m(s := 0x25)) (p + 2) args buf (s + 1)"
      by (subst sprnt.simps) (use st 2 in simp)
    then show ?thesis using that[OF b] 2 by simp
  next
    case 3
    obtain lj z w f a fill sign sg str b' where P: "piece_format d = 0x25 # flags lj z w @ [f]" "piece_args d = [a]" "w \<le> 80"
      "f \<in> {0x64, 0x75, 0x6F, 0x58, 0x78, 0x73, 0x63}" "fill = (if z then 0x30 else 0x20)" "piece_text d = aligned lj fill w sg str"
      "sg = [] \<and> sign = 0 \<or> sg = [0x2D] \<and> sign = 0x2D" "length b' = 20"
      "fconvert m f fill 0 (a # args) buf = Some (field_of fill 0 sign str args b')"
      "f = 0x73 \<longrightarrow> d = Str lj w a str \<and> a \<noteq> 0 \<and> cstr m a str"
      by (rule piece_conv[where args = args, OF disjI2[OF refl] ok b 3])
    let ?q = "p + 1 + of_nat (length (flags lj z w))" and ?c = "field_of fill 0 sign str args b'"
    have s': "m p = 0x25" "starts m (p + 1) (flags lj z w @ [f])" "m ?q = f"
      using st unfolding P(1) by (auto simp: starts_append algebra_simps)
    have fl: "field m (p + 1) (a # args) = Some (lj, fill, int w, 0, ?q, a # args)"
      using field_plain[OF s'(2) P(3,4)] P(5) by simp
    have pf: "print_field lj fill (int w) 0 sign str = piece_text d"
      using print_field_aligned[of "int w" fill lj sign str] P(3,5-7) by auto
    have "store_field lj (int w) ?c (str_src f (a # args)) m s = (s + of_nat (length (piece_text d)), put m s (piece_text d))"
    proof (rule store_field_put)
      show "piece_text d = cout ?c @ print_field lj (cfill ?c) (int w) (cfmax ?c) (csign ?c) (cstring ?c)" using pf by simp
      fix a' assume "str_src f (a # args) = Some a'"
      then have "f = 0x73" "a' = a" by (auto simp: str_src_def split: if_splits)
      then have "d = Str lj w a str" "cstr m a str" using P(10) by simp_all
      moreover have "area a (length str) \<subseteq> area a (Suc (length str))" using area_add[of a "length str" 1] by simp
      ultimately show "starts m a' (cstring ?c) \<and> area s (length (piece_text d)) \<inter> area a' (length (cstring ?c)) = {}"
        using dis \<open>a' = a\<close> cstr_starts by auto
    qed
    moreover have "f \<noteq> 0" using P(4) by auto
    ultimately have "sprnt m p (a # args) buf s = sprnt (put m s (piece_text d)) (?q + 1) args b' (s + of_nat (length (piece_text d)))"
      by (subst sprnt.simps) (use s'(1,3) not_percent[OF s'(2) P(4)] fl P(9) in simp)
    then show ?thesis using that[OF P(8)] unfolding P(1,2) by (simp add: algebra_simps)
  qed
qed

definition format_reads :: "uint32 \<Rightarrow> piece list \<Rightarrow> uint32 set" where
  "format_reads p ps = area p (Suc (length (concat (map piece_format ps)))) \<union> \<Union> (piece_reads ` set ps)"

lemma piece_ok_put: "piece_ok m d \<Longrightarrow> area s (length xs) \<inter> piece_reads d = {} \<Longrightarrow> piece_ok (put m s xs) d"
  by (cases d) (auto intro!: cstr_cong[of m] put_same)

lemma sprnt_pieces:
  "list_all (piece_ok m) ps \<Longrightarrow> starts m p (concat (map piece_format ps) @ [0]) \<Longrightarrow> length buf = 20 \<Longrightarrow>
    area s (length (concat (map piece_text ps))) \<inter> format_reads p ps = {} \<Longrightarrow>
    sprnt m p (concat (map piece_args ps)) buf s =
      Some (s + of_nat (length (concat (map piece_text ps))), put m s (concat (map piece_text ps)))"
proof (induction ps arbitrary: m p buf s)
  case Nil
  then show ?case by (subst sprnt.simps) simp
next
  case (Cons d ps)
  let ?T = "piece_text d" and ?F = "piece_format d"
  let ?p = "p + of_nat (length ?F)" and ?s = "s + of_nat (length ?T)"
  have F: "area p (length ?F) \<union> piece_reads d \<union> format_reads ?p ps \<subseteq> format_reads p (d # ps)"
    using area_add[of p "length ?F" "Suc (length (concat (map piece_format ps)))"] by (auto simp: format_reads_def)
  have T: "area s (length (concat (map piece_text (d # ps)))) = area s (length ?T) \<union> area ?s (length (concat (map piece_text ps)))"
    by (simp add: area_add)
  have dis: "area s (length ?T) \<inter> (area p (length ?F) \<union> piece_reads d) = {}" "area s (length ?T) \<inter> format_reads ?p ps = {}"
    "area ?s (length (concat (map piece_text ps))) \<inter> format_reads ?p ps = {}" using Cons.prems(4) F unfolding T by blast+
  have st: "piece_ok m d" "starts m p ?F" "starts m ?p (concat (map piece_format ps) @ [0])"
    using Cons.prems(1,2) by (simp_all add: starts_append algebra_simps)
  obtain buf' where b: "length buf' = 20"
    "sprnt m p (piece_args d @ concat (map piece_args ps)) buf s = sprnt (put m s ?T) ?p (concat (map piece_args ps)) buf' ?s"
    using sprnt_piece[OF st(1,2) Cons.prems(3) dis(1)] by metis
  have "list_all (piece_ok (put m s ?T)) ps"
    using Cons.prems(1) dis(2) by (auto simp: list_all_iff format_reads_def intro!: piece_ok_put)
  moreover have "starts (put m s ?T) ?p (concat (map piece_format ps) @ [0])"
    by (rule put_starts[OF st(3)]) (use dis(2) in \<open>auto simp: format_reads_def\<close>)
  ultimately show ?case using Cons.IH[OF _ _ b(1) dis(3), of "put m s ?T"] b(2) by (simp add: put_append algebra_simps)
qed

lemma sprintf_pieces:
  assumes "list_all (piece_ok m) ps" "starts m fmt (concat (map piece_format ps) @ [0])" "length buf = 20"
    "area str (length (concat (map piece_text ps))) \<inter> format_reads fmt ps = {}"
  shows "sprintf str fmt (concat (map piece_args ps)) buf m = Some (str, put m str (concat (map piece_text ps) @ [0]))"
  using sprnt_pieces[OF assms] by (simp add: sprintf_def put_append)

lemma number_field_length:
  assumes "number_text 0x64 a = Some (sg, ds)" "w \<le> 80"
  shows "length (aligned False 0x20 w sg ds) \<le> 91"
proof -
  have "nat \<bar>sint a\<bar> < 10 ^ 10" using sint_ge[of a] sint_lt[of a] by simp
  then have "length ds \<le> 10" "length sg \<le> 1" using dec_length assms(1) by (auto simp: number_text_def split: if_splits)
  then show ?thesis using assms(2) by (simp add: aligned_def Let_def)
qed

lemma sprintf_number_atoi:
  assumes s: "starts m p ([0x25] @ flags False False w @ [0x64, 0])" and w: "w \<le> 80" and v: "sint a \<noteq> - (2 ^ 31)"
    and b: "length buf = 20" and d: "area str 91 \<inter> area p (3 + length (flags False False w)) = {}"
  shows "\<exists>m'. sprintf str p [a] buf m = Some (str, m') \<and> atoi m' str = Some (sint a)"
proof -
  obtain sg ds where t: "number_text 0x64 a = Some (sg, ds)" using v by (simp add: number_text_def)
  let ?xs = "aligned False 0x20 w sg ds @ [0]"
  have "area str (length (aligned False 0x20 w sg ds)) \<subseteq> area str 91"
    using area_add[of str "length (aligned False 0x20 w sg ds)" "91 - length (aligned False 0x20 w sg ds)"] number_field_length[OF t w] by auto
  then have "area str (length (aligned False 0x20 w sg ds)) \<inter> format_reads p [Num False False w 0x64 a] = {}"
    using d by (auto simp: format_reads_def numeral_3_eq_3)
  then have "sprintf str p [a] buf m = Some (str, put m str ?xs)"
    using sprintf_pieces[of m "[Num False False w 0x64 a]" p buf str] s w t b by simp
  moreover have "atoi (put m str ?xs) str = Some (sint a)"
  proof (rule print_reads[OF t])
    have "length ?xs \<le> 2 ^ 32" using number_field_length[OF t w] by simp
    then show "starts (put m str ?xs) str ?xs" by (rule starts_put)
  qed simp
  ultimately show ?thesis by blast
qed

end
