(* ===== verification/Net_Addr.thy ===== *)
theory Net_Addr
  imports Lib_Format
begin

unbundle bit_operations_syntax

text \<open>
  Internet addresses in dotted decimal (\<^verbatim>\<open>net/dot2ip.c\<close>). The result is the address stored through \<^verbatim>\<open>result\<close>, or
  \<open>None\<close> when the call returns \<open>SYSERR\<close> and stores nothing.
\<close>

section \<open>Reading\<close>

text \<open>The characters of one segment, of which \<open>k\<close> more may come: the one that ended it, its value, the next position.\<close>

fun dot_chars :: "nat \<Rightarrow> bytes \<Rightarrow> uint32 \<Rightarrow> int \<Rightarrow> (byte \<times> int \<times> uint32) option" where
  "dot_chars 0 m p val = Some (m (p - 1), val, p)"
| "dot_chars (Suc k) m p val =
     (let nch = 3 - k; ch = m p; p = p + 1 in
      if ch = 0 \<or> ch = 0x2E then (if nch = 0 then None else Some (ch, val, p))
      else if nch \<ge> 3 \<or> ch < 0x30 \<or> ch > 0x39 then None
      else dot_chars k m p (10 * val + (uint ch - 0x30)))"

text \<open>The segments, of which \<open>k\<close> more may come: how many were complete, the character that ended the last, the address.\<close>

fun dot_segs :: "nat \<Rightarrow> bytes \<Rightarrow> uint32 \<Rightarrow> byte \<Rightarrow> uint32 \<Rightarrow> (nat \<times> byte \<times> uint32) option" where
  "dot_segs 0 m p ch ipaddr = Some (4, ch, ipaddr)"
| "dot_segs (Suc k) m p ch ipaddr =
     (case dot_chars 4 m p 0 of
        None \<Rightarrow> None
      | Some (ch, val, p) \<Rightarrow>
        if val > 255 then None
        else let ipaddr = push_bit 8 ipaddr OR word_of_int val in
          if ch = 0 then Some (3 - k, ch, ipaddr) else dot_segs k m p ch ipaddr)"

definition dot2ip :: "bytes \<Rightarrow> uint32 \<Rightarrow> uint32 option" where
  "dot2ip m dotted =
     (case dot_segs 4 m dotted 0 0 of
        None \<Rightarrow> None
      | Some (seg, ch, ipaddr) \<Rightarrow> if seg \<ge> 4 \<or> ch \<noteq> 0 then None else Some ipaddr)"

section \<open>Dotted decimal\<close>

fun dotted_text :: "nat list \<Rightarrow> byte list" where
  "dotted_text [] = []"
| "dotted_text [n] = dec n"
| "dotted_text (n # ns) = dec n @ 0x2E # dotted_text ns"

definition addr_value :: "uint32 \<Rightarrow> nat list \<Rightarrow> uint32" where
  "addr_value a ns = foldl (\<lambda>a n. push_bit 8 a OR of_nat n) a ns"

lemma dot_chars_run:
  assumes "starts m p (ds @ [c])" "list_all is_dig ds" "c = 0 \<or> c = 0x2E" "length ds < k" "k \<le> 4" "ds \<noteq> [] \<or> k < 4"
  shows "dot_chars k m p val = Some (c, horner val ds, p + of_nat (length ds) + 1)"
  using assms
proof (induction ds arbitrary: k p val)
  case Nil
  then obtain k' where k: "k = Suc k'" by (cases k) auto
  then show ?case using Nil by (auto simp: Let_def horner_def)
next
  case (Cons d ds)
  then obtain k' where k: "k = Suc k'" by (cases k) auto
  have d: "d \<ge> 0x30" "d \<le> 0x39" "m p = d" using Cons.prems by simp_all
  then have nd: "d \<noteq> 0" "d \<noteq> 0x2E" "\<not> d < 0x30" "\<not> d > 0x39" by auto
  have "dot_chars k' m (p + 1) (10 * val + (uint d - 0x30)) =
      Some (c, horner (10 * val + (uint d - 0x30)) ds, p + 1 + of_nat (length ds) + 1)"
    by (rule Cons.IH) (use Cons.prems k in auto)
  moreover have "horner (10 * val + (uint d - 0x30)) ds = horner val (d # ds)" by (simp add: horner_def dval_def algebra_simps)
  moreover have "\<not> 3 - k' \<ge> 3" using Cons.prems(4) k by auto
  ultimately show ?case using d nd k by (simp add: Let_def algebra_simps)
qed

lemma dot_segs_run:
  assumes "starts m p (dotted_text ns @ [0])" "\<forall>n \<in> set ns. n < 256" "ns \<noteq> []" "length ns \<le> k" "k \<le> 4"
  shows "dot_segs k m p ch a = Some (3 + length ns - k, 0, addr_value a ns)"
  using assms
proof (induction ns arbitrary: k p ch a rule: dotted_text.induct)
  case (2 n)
  then obtain k' where k: "k = Suc k'" by (cases k) auto
  have "length (dec n) \<le> 3" using numeral_length[of n 10 3] 2 by (simp add: dec_numeral)
  then have "dot_chars 4 m p 0 = Some (0, horner 0 (dec n), p + of_nat (length (dec n)) + 1)"
    by (intro dot_chars_run) (use 2 dec_digits[of n] in simp_all)
  then show ?case using 2 k dec_digits(2)[of n] by (simp add: addr_value_def horner_def Let_def)
next
  case (3 n n' ns)
  then obtain k' where k: "k = Suc k'" by (cases k) auto
  have s: "starts m p (dec n @ [0x2E])" "starts m (p + of_nat (length (dec n)) + 1) (dotted_text (n' # ns) @ [0])"
    using "3.prems"(1) by (simp_all add: starts_append algebra_simps)
  have "length (dec n) \<le> 3" using numeral_length[of n 10 3] 3 by (simp add: dec_numeral)
  then have "dot_chars 4 m p 0 = Some (0x2E, horner 0 (dec n), p + of_nat (length (dec n)) + 1)"
    by (intro dot_chars_run s) (use dec_digits[of n] in simp_all)
  moreover have "dot_segs k' m (p + of_nat (length (dec n)) + 1) 0x2E (push_bit 8 a OR of_nat n) =
      Some (3 + length (n' # ns) - k', 0, addr_value (push_bit 8 a OR of_nat n) (n' # ns))"
    by (rule "3.IH"[OF s(2)]) (use 3 k in auto)
  ultimately show ?case using "3.prems" k dec_digits(2)[of n] by (simp add: addr_value_def horner_def Let_def)
qed simp

text \<open>One to four segments are read; an address with fewer than four is not refused.\<close>

lemma dot2ip_run:
  assumes "starts m p (dotted_text ns @ [0])" "\<forall>n \<in> set ns. n < 256" "ns \<noteq> []" "length ns \<le> 4"
  shows "dot2ip m p = Some (addr_value 0 ns)"
  using dot_segs_run[OF assms order_refl] assms(4) by (simp add: dot2ip_def)

text \<open>The four bytes of an address give it back.\<close>

definition addr_bytes :: "uint32 \<Rightarrow> nat list" where
  "addr_bytes a = map (\<lambda>k. unat (drop_bit k a AND 0xFF)) [24, 16, 8, 0]"

lemma byte_of: "drop_bit k (a :: uint32) AND 0xFF = take_bit 8 (drop_bit k a)"
  by (simp add: take_bit_eq_mask mask_eq_exp_minus_1)

lemma addr_bytes_value: "addr_value 0 (addr_bytes a) = a"
proof (rule bit_word_eqI)
  fix n assume "n < LENGTH(32)"
  then consider "n < 8" | "8 \<le> n" "n < 16" | "16 \<le> n" "n < 24" | "24 \<le> n" "n < 32" by fastforce
  then show "bit (addr_value 0 (addr_bytes a)) n = bit a n"
    unfolding addr_value_def addr_bytes_def byte_of by cases (auto simp: bit_simps)
qed

lemma addr_bytes_range: "\<forall>n \<in> set (addr_bytes a). n < 256" "length (addr_bytes a) = 4"
proof -
  have "unat (take_bit 8 w) < 256" for w :: uint32
    using take_bit_nat_less_exp[of 8 "unat w"] by (simp add: unsigned_take_bit_eq)
  then show "\<forall>n \<in> set (addr_bytes a). n < 256" unfolding addr_bytes_def byte_of by simp
  show "length (addr_bytes a) = 4" by (simp add: addr_bytes_def)
qed

text \<open>The format with which the addresses are printed, and what it prints.\<close>

definition dotted_format :: "byte list" where
  "dotted_format = [0x25, 0x64, 0x2E, 0x25, 0x64, 0x2E, 0x25, 0x64, 0x2E, 0x25, 0x64, 0]"

definition dotted_pieces :: "nat list \<Rightarrow> piece list" where
  "dotted_pieces ns = (let d = (\<lambda>n. Num False False 0 0x64 (of_nat n)) in
     [d (ns ! 0), Text [0x2E], d (ns ! 1), Text [0x2E], d (ns ! 2), Text [0x2E], d (ns ! 3)])"

lemma small_number: "n < 256 \<Longrightarrow> number_text 0x64 (of_nat n) = Some ([], dec n)"
  by (simp add: number_text_def signed_of_nat signed_take_bit_int_eq_self)

lemma dotted_pieces_text:
  assumes "\<forall>n \<in> set ns. n < 256" "length ns = 4"
  shows "list_all (piece_ok m) (dotted_pieces ns)" "concat (map piece_format (dotted_pieces ns)) @ [0] = dotted_format"
    "concat (map piece_args (dotted_pieces ns)) = map of_nat ns" "concat (map piece_text (dotted_pieces ns)) = dotted_text ns"
proof -
  obtain a b c d where ns: "ns = [a, b, c, d]" using assms(2) by (auto simp: length_Suc_conv eval_nat_numeral)
  then have n: "number_text 0x64 (of_nat x) = Some ([], dec x)" if "x \<in> {a, b, c, d}" for x
    using small_number assms(1) that by auto
  show "list_all (piece_ok m) (dotted_pieces ns)" by (simp add: dotted_pieces_def ns n)
  show "concat (map piece_format (dotted_pieces ns)) @ [0] = dotted_format"
    by (simp add: dotted_pieces_def ns flags_def dotted_format_def)
  show "concat (map piece_args (dotted_pieces ns)) = map of_nat ns"
    by (simp add: dotted_pieces_def ns)
  show "concat (map piece_text (dotted_pieces ns)) = dotted_text ns"
    by (simp add: dotted_pieces_def ns n aligned_def)
qed

lemma dotted_reads:
  assumes "\<forall>n \<in> set ns. n < 256" "length ns = 4"
  shows "format_reads fmt (dotted_pieces ns) \<subseteq> area fmt 12"
proof -
  have "Suc (length (concat (map piece_format (dotted_pieces ns)))) = 12"
    using arg_cong[OF dotted_pieces_text(2)[OF assms], of length] by (simp add: dotted_format_def)
  moreover have "piece_reads d = {}" if "d \<in> set (dotted_pieces ns)" for d using that by (auto simp: dotted_pieces_def)
  ultimately show ?thesis by (auto simp: format_reads_def)
qed

lemma dotted_length: "\<forall>n \<in> set ns. n < 256 \<Longrightarrow> length (dotted_text ns) \<le> 4 * length ns"
proof (induction ns rule: dotted_text.induct)
  case (2 n)
  then show ?case using numeral_length[of n 10 3 digit_char] by (simp add: dec_numeral)
next
  case (3 n n' ns)
  then show ?case using numeral_length[of n 10 3 digit_char] by (simp add: dec_numeral)
qed simp

lemma print_dotted:
  assumes f: "starts m fmt dotted_format" and b: "length buf = 20" and d: "area str 16 \<inter> area fmt 12 = {}"
  shows "\<exists>m'. sprintf str fmt (map of_nat (addr_bytes a)) buf m = Some (str, m') \<and> dot2ip m' str = Some a"
proof -
  let ?ns = "addr_bytes a"
  note R = addr_bytes_range[of a]
  note P = dotted_pieces_text(1)[OF R, of m] dotted_pieces_text(2-4)[OF R]
  let ?m = "put m str (dotted_text ?ns @ [0])"
  have "starts m fmt (concat (map piece_format (dotted_pieces ?ns)) @ [0])" using f P(2) by simp
  moreover have "area str (length (concat (map piece_text (dotted_pieces ?ns)))) \<subseteq> area str 16"
    using area_add[of str "length (dotted_text ?ns)" "16 - length (dotted_text ?ns)"] dotted_length[OF R(1)] R(2) unfolding P(4) by auto
  then have "area str (length (concat (map piece_text (dotted_pieces ?ns)))) \<inter> format_reads fmt (dotted_pieces ?ns) = {}"
    using d dotted_reads[OF R, of fmt] by blast
  ultimately have run: "sprintf str fmt (map of_nat ?ns) buf m = Some (str, ?m)"
    using sprintf_pieces[OF P(1) _ b, of fmt str] P(3,4) by simp
  have "length (dotted_text ?ns @ [0]) \<le> 2 ^ 32" using dotted_length[OF R(1)] R(2) by simp
  then have s: "starts ?m str (dotted_text ?ns @ [0])" by (rule starts_put)
  have "?ns \<noteq> []" using R(2) by auto
  then have "dot2ip ?m str = Some (addr_value 0 ?ns)" using dot2ip_run[OF s R(1)] R(2) by simp
  then show ?thesis using run addr_bytes_value[of a] by simp
qed

end
