(* ===== verification/Byte_Fields.thy ===== *)
theory Byte_Fields
  imports Lib_String
begin

unbundle bit_operations_syntax

text \<open>
  Packed structures as bytes by their offset. The machine is little-endian, so a field is its two or four bytes, and the
  structures that a buffer is read as overlap as they do in the code.
\<close>

type_synonym uint16 = "16 word"
type_synonym packet = "nat \<Rightarrow> byte"

section \<open>Fields\<close>

definition get16 :: "packet \<Rightarrow> nat \<Rightarrow> uint16" where
  "get16 p i = ucast (p i) OR push_bit 8 (ucast (p (i + 1)))"

definition put16 :: "packet \<Rightarrow> nat \<Rightarrow> uint16 \<Rightarrow> packet" where
  "put16 p i v = p(i := ucast v, i + 1 := ucast (drop_bit 8 v))"

definition get32 :: "packet \<Rightarrow> nat \<Rightarrow> uint32" where
  "get32 p i = ucast (p i) OR push_bit 8 (ucast (p (i + 1))) OR push_bit 16 (ucast (p (i + 2))) OR push_bit 24 (ucast (p (i + 3)))"

definition put32 :: "packet \<Rightarrow> nat \<Rightarrow> uint32 \<Rightarrow> packet" where
  "put32 p i v = p(i := ucast v, i + 1 := ucast (drop_bit 8 v), i + 2 := ucast (drop_bit 16 v), i + 3 := ucast (drop_bit 24 v))"

text \<open>\<^verbatim>\<open>memcpy\<close> of bytes out of and into a structure.\<close>

definition get_bytes :: "packet \<Rightarrow> nat \<Rightarrow> nat \<Rightarrow> byte list" where
  "get_bytes p i n = map (\<lambda>k. p (i + k)) [0..<n]"

definition put_bytes :: "nat \<Rightarrow> byte list \<Rightarrow> packet \<Rightarrow> packet" where
  "put_bytes i bs p = (\<lambda>k. if i \<le> k \<and> k < i + length bs then bs ! (k - i) else p k)"

section \<open>Reading what was written\<close>

lemma get16_put16: "get16 (put16 p i v) i = v"
proof -
  have "ucast (ucast v :: byte) OR push_bit 8 (ucast (ucast (drop_bit 8 v) :: byte)) = v"
    by (rule bit_word_eqI) (auto simp: bit_simps)
  then show ?thesis by (simp add: get16_def put16_def)
qed

lemma word32_split:
  "ucast (ucast v :: byte) OR push_bit 8 (ucast (ucast (drop_bit 8 v) :: byte)) OR push_bit 16 (ucast (ucast (drop_bit 16 v) :: byte)) OR
    push_bit 24 (ucast (ucast (drop_bit 24 v) :: byte)) = (v :: uint32)" (is "?l = v")
proof (rule bit_word_eqI)
  fix n assume "n < LENGTH(32)"
  then show "bit ?l n = bit v n" by (cases "n < 24"; cases "n < 16") (auto simp: bit_simps)
qed

lemma get32_bytes: "p i = ucast v \<Longrightarrow> p (i + 1) = ucast (drop_bit 8 v) \<Longrightarrow> p (i + 2) = ucast (drop_bit 16 v) \<Longrightarrow>
    p (i + 3) = ucast (drop_bit 24 v) \<Longrightarrow> get32 p i = v"
  unfolding get32_def by (simp only: word32_split)

lemma get16_bytes: "p i = ucast v \<Longrightarrow> p (i + 1) = ucast (drop_bit 8 v) \<Longrightarrow> get16 p i = v"
  unfolding get16_def by (simp, rule bit_word_eqI) (auto simp: bit_simps)

lemma get_bytes_eq: "length bs = n \<Longrightarrow> (\<And>k. k < n \<Longrightarrow> p (i + k) = bs ! k) \<Longrightarrow> get_bytes p i n = bs"
  by (auto simp: get_bytes_def intro: nth_equalityI)

end
