(* ===== verification/Net_Packet.thy ===== *)
theory Net_Packet
  imports Byte_Fields
begin

unbundle bit_operations_syntax

text \<open>
  Network packets (\<^verbatim>\<open>include/net.h\<close>, \<^verbatim>\<open>include/arp.h\<close>): the bytes of a packet by their offset. The structures are packed
  and the machine is little-endian, so a field is its two or four bytes, and the views of one packet as IP, UDP, ICMP
  or ARP overlap as they do in the code. Here are the fields, the byte order conversions and the checksums.
\<close>

abbreviation (input) net_ethtype :: nat where "net_ethtype \<equiv> 12"
abbreviation (input) net_ipvh :: nat where "net_ipvh \<equiv> 14"
abbreviation (input) net_iptos :: nat where "net_iptos \<equiv> 15"
abbreviation (input) net_iplen :: nat where "net_iplen \<equiv> 16"
abbreviation (input) net_ipid :: nat where "net_ipid \<equiv> 18"
abbreviation (input) net_ipfrag :: nat where "net_ipfrag \<equiv> 20"
abbreviation (input) net_ipttl :: nat where "net_ipttl \<equiv> 22"
abbreviation (input) net_ipproto :: nat where "net_ipproto \<equiv> 23"
abbreviation (input) net_ipcksum :: nat where "net_ipcksum \<equiv> 24"
abbreviation (input) net_ipsrc :: nat where "net_ipsrc \<equiv> 26"
abbreviation (input) net_ipdst :: nat where "net_ipdst \<equiv> 30"
abbreviation (input) net_udpsport :: nat where "net_udpsport \<equiv> 34"
abbreviation (input) net_udpdport :: nat where "net_udpdport \<equiv> 36"
abbreviation (input) net_udplen :: nat where "net_udplen \<equiv> 38"
abbreviation (input) net_udpcksum :: nat where "net_udpcksum \<equiv> 40"
abbreviation (input) net_udpdata :: nat where "net_udpdata \<equiv> 42"
abbreviation (input) net_ictype :: nat where "net_ictype \<equiv> 34"
abbreviation (input) net_iccode :: nat where "net_iccode \<equiv> 35"
abbreviation (input) net_iccksum :: nat where "net_iccksum \<equiv> 36"
abbreviation (input) net_icident :: nat where "net_icident \<equiv> 38"
abbreviation (input) net_icseq :: nat where "net_icseq \<equiv> 40"
abbreviation (input) net_icdata :: nat where "net_icdata \<equiv> 42"

section \<open>Byte order\<close>

definition htons :: "uint16 \<Rightarrow> uint16" where
  "htons x = (0xFF AND drop_bit 8 x) OR push_bit 8 (0xFF AND x)"

definition htonl :: "uint32 \<Rightarrow> uint32" where
  "htonl x = (drop_bit 24 x AND 0x000000FF) OR (drop_bit 8 x AND 0x0000FF00) OR (push_bit 8 x AND 0x00FF0000) OR (push_bit 24 x AND 0xFF000000)"

text \<open>The same macros under their other names.\<close>

abbreviation (input) ntohs :: "uint16 \<Rightarrow> uint16" where "ntohs \<equiv> htons"
abbreviation (input) ntohl :: "uint32 \<Rightarrow> uint32" where "ntohl \<equiv> htonl"

definition conv16 :: "nat \<Rightarrow> packet \<Rightarrow> packet" where
  "conv16 i p = put16 p i (htons (get16 p i))"

definition conv32 :: "nat \<Rightarrow> packet \<Rightarrow> packet" where
  "conv32 i p = put32 p i (htonl (get32 p i))"

definition ip_ntoh :: "packet \<Rightarrow> packet" where
  "ip_ntoh p = conv32 net_ipdst (conv32 net_ipsrc (conv16 net_ipfrag (conv16 net_ipid (conv16 net_iplen p))))"

definition ip_hton :: "packet \<Rightarrow> packet" where
  "ip_hton p = conv32 net_ipdst (conv32 net_ipsrc (conv16 net_ipfrag (conv16 net_ipid (conv16 net_iplen p))))"

definition udp_ntoh :: "packet \<Rightarrow> packet" where
  "udp_ntoh p = conv16 net_udplen (conv16 net_udpdport (conv16 net_udpsport p))"

definition udp_hton :: "packet \<Rightarrow> packet" where
  "udp_hton p = conv16 net_udplen (conv16 net_udpdport (conv16 net_udpsport p))"

definition icmp_hton :: "packet \<Rightarrow> packet" where
  "icmp_hton p = conv16 net_icseq (conv16 net_icident (conv16 net_iccksum p))"

definition icmp_ntoh :: "packet \<Rightarrow> packet" where
  "icmp_ntoh p = conv16 net_icseq (conv16 net_icident (conv16 net_iccksum p))"

definition eth_hton :: "packet \<Rightarrow> packet" where
  "eth_hton p = conv16 net_ethtype p"

definition eth_ntoh :: "packet \<Rightarrow> packet" where
  "eth_ntoh p = conv16 net_ethtype p"

lemma low_byte: "(0xFF :: 'a :: len word) AND x = take_bit 8 x" "x AND 0xFF = take_bit 8 x"
  by (simp_all add: take_bit_eq_mask mask_eq_exp_minus_1 and.commute)

lemma high_bit: "8 \<le> n \<Longrightarrow> \<not> bit (a :: byte) n"
  using bit_imp_le_length[of a n] by auto

lemma htons_bytes: "htons (ucast a OR push_bit 8 (ucast b)) = ucast b OR push_bit 8 (ucast a)" for a b :: byte
  unfolding htons_def low_byte by (rule bit_word_eqI) (auto simp: bit_simps high_bit)

lemma word16_bytes: "ucast (ucast a OR push_bit 8 (ucast b) :: uint16) = a"
    "ucast (drop_bit 8 (ucast a OR push_bit 8 (ucast b) :: uint16)) = b" for a b :: byte
  by (rule bit_word_eqI, auto simp: bit_simps high_bit)+

lemma conv16_swaps: "conv16 i p = p(i := p (i + 1), i + 1 := p i)"
  unfolding conv16_def get16_def htons_bytes put16_def word16_bytes ..

lemma conv16_twice: "conv16 i (conv16 i p) = p"
  unfolding conv16_swaps by (rule ext) simp

lemma word32_bytes:
  fixes a b c d :: byte
  defines "w \<equiv> ucast a OR push_bit 8 (ucast b) OR push_bit 16 (ucast c) OR push_bit 24 (ucast d) :: uint32"
  shows "ucast w = a" "ucast (drop_bit 8 w) = b" "ucast (drop_bit 16 w) = c" "ucast (drop_bit 24 w) = d"
  unfolding w_def by (rule bit_word_eqI, auto simp: bit_simps high_bit)+

lemma htonl_bytes: "htonl (ucast a OR push_bit 8 (ucast b) OR push_bit 16 (ucast c) OR push_bit 24 (ucast d)) =
    ucast d OR push_bit 8 (ucast c) OR push_bit 16 (ucast b) OR push_bit 24 (ucast a)" (is "htonl ?w = _") for a b c d :: byte
proof -
  have m: "(0xFF00 :: uint32) = push_bit 8 (mask 8)" "(0xFF0000 :: uint32) = push_bit 16 (mask 8)"
    "(0xFF000000 :: uint32) = push_bit 24 (mask 8)" by (simp_all add: mask_eq_exp_minus_1)
  have mid1: "drop_bit 8 w AND push_bit 8 (mask 8) = push_bit 8 (take_bit 8 (drop_bit 16 w))" for w :: uint32
    by (rule bit_word_eqI) (auto simp: bit_simps)
  have mid2: "push_bit 8 w AND push_bit 16 (mask 8) = push_bit 16 (take_bit 8 (drop_bit 8 w))" for w :: uint32
    by (rule bit_word_eqI) (auto simp: bit_simps)
  have mid3: "push_bit 24 w AND push_bit 24 (mask 8) = push_bit 24 (take_bit 8 w)" for w :: uint32
    by (rule bit_word_eqI) (auto simp: bit_simps)
  have low: "take_bit 8 w = ucast (ucast w :: byte)" for w :: uint32
    by (rule bit_word_eqI) (auto simp: bit_simps)
  show ?thesis unfolding htonl_def low_byte m mid1 mid2 mid3 low word32_bytes by (simp only: ac_simps)
qed

lemma conv32_swaps: "conv32 i p = p(i := p (i + 3), i + 1 := p (i + 2), i + 2 := p (i + 1), i + 3 := p i)"
  unfolding conv32_def get32_def htonl_bytes put32_def word32_bytes ..

lemma conv32_twice: "conv32 i (conv32 i p) = p"
  unfolding conv32_swaps by (rule ext) simp

text \<open>Conversions of fields that do not overlap.\<close>

lemma conv_outside: "j \<noteq> i \<Longrightarrow> j \<noteq> i + 1 \<Longrightarrow> conv16 i p j = p j"
  "j \<notin> {i, i + 1, i + 2, i + 3} \<Longrightarrow> conv32 i p j = p j"
  unfolding conv16_swaps conv32_swaps by simp_all

lemma conv_at:
  "conv16 i p k = (if i \<le> k \<and> k < i + 2 then p (2 * i + 1 - k) else p k)"
  "conv32 i p k = (if i \<le> k \<and> k < i + 4 then p (2 * i + 3 - k) else p k)"
proof -
  have "k = i \<or> k = i + 1" if "i \<le> k" "k < i + 2" using that by linarith
  moreover have "k = i \<or> k = i + 1 \<or> k = i + 2 \<or> k = i + 3" if "i \<le> k" "k < i + 4" using that by linarith
  ultimately show "conv16 i p k = (if i \<le> k \<and> k < i + 2 then p (2 * i + 1 - k) else p k)"
    "conv32 i p k = (if i \<le> k \<and> k < i + 4 then p (2 * i + 3 - k) else p k)"
    unfolding conv16_swaps conv32_swaps by (auto simp: numeral_2_eq_2 numeral_3_eq_3)
qed

lemma conv16_comm: "i + 2 \<le> j \<or> j + 2 \<le> i \<Longrightarrow> conv16 i (conv16 j p) = conv16 j (conv16 i p)"
  by (rule ext) (simp only: conv_at, auto)

lemma conv16_32_comm: "i + 2 \<le> j \<or> j + 4 \<le> i \<Longrightarrow> conv16 i (conv32 j p) = conv32 j (conv16 i p)"
  by (rule ext) (simp only: conv_at, auto)

lemma conv32_comm: "i + 4 \<le> j \<or> j + 4 \<le> i \<Longrightarrow> conv32 i (conv32 j p) = conv32 j (conv32 i p)"
  by (rule ext) (simp only: conv_at, auto)

lemma hton_ntoh:
  "ip_ntoh (ip_hton p) = p" "udp_ntoh (udp_hton p) = p" "icmp_ntoh (icmp_hton p) = p" "eth_ntoh (eth_hton p) = p"
  by (simp_all add: ip_ntoh_def ip_hton_def udp_ntoh_def udp_hton_def icmp_ntoh_def icmp_hton_def eth_ntoh_def eth_hton_def
      conv16_twice conv32_twice conv16_32_comm conv16_comm[of 20 18] conv16_comm[of 20 16] conv16_comm[of 18 16]
      conv16_comm[of 38 36] conv16_comm[of 38 34] conv16_comm[of 36 34] conv16_comm[of 40 38] conv16_comm[of 40 36] conv32_comm[of 30 26])

end
