(* ===== verification/Net_Checksum.thy ===== *)
theory Net_Checksum
  imports Net_Packet
begin

unbundle bit_operations_syntax

text \<open>
  The checksums of \<^verbatim>\<open>net/ip.c\<close> and \<^verbatim>\<open>net/icmp.c\<close>. Both add 16-bit words, add the carries to the sum once, and
  take the complement. The specification is the one's complement sum, in which a carry is added every time it arises;
  the two agree unless adding the carries gives another carry.
\<close>

section \<open>The code\<close>

fun sum_words :: "nat \<Rightarrow> packet \<Rightarrow> nat \<Rightarrow> uint32 \<Rightarrow> uint32" where
  "sum_words 0 p i cksum = cksum"
| "sum_words (Suc n) p i cksum = sum_words n p (i + 2) (cksum + ucast (htons (get16 p i)))"

definition ipcksum :: "packet \<Rightarrow> uint16" where
  "ipcksum p =
     (let cksum = sum_words 10 p net_ipvh 0;
          cksum = cksum + drop_bit 16 cksum;
          cksum = 0xFFFF AND NOT cksum;
          cksum = (if cksum = 0xFFFF then 0 else cksum)
      in ucast (0xFFFF AND cksum))"

definition icmp_cksum :: "packet \<Rightarrow> nat \<Rightarrow> int \<Rightarrow> uint16" where
  "icmp_cksum p buf buflen =
     (let scount = nat (drop_bit 1 buflen);
          cksum = sum_words scount p buf 0;
          cksum = (if buflen AND 1 \<noteq> 0 then cksum + push_bit 8 (ucast (p (buf + 2 * scount))) else cksum);
          cksum = cksum + drop_bit 16 cksum;
          cksum = 0xFFFF AND NOT cksum
      in ucast (0xFFFF AND cksum))"

section \<open>One's complement sums\<close>

text \<open>A 16-bit word in network order, the words of a header, and their one's complement sum.\<close>

definition be16 :: "packet \<Rightarrow> nat \<Rightarrow> nat" where
  "be16 p i = 256 * unat (p i) + unat (p (i + 1))"

definition be_words :: "nat \<Rightarrow> packet \<Rightarrow> nat \<Rightarrow> nat list" where
  "be_words n p i = map (\<lambda>k. be16 p (i + 2 * k)) [0..<n]"

definition oc_add :: "nat \<Rightarrow> nat \<Rightarrow> nat" where
  "oc_add a b = (if a + b > 65535 then a + b - 65535 else a + b)"

definition rfc1071 :: "nat list \<Rightarrow> nat" where
  "rfc1071 ws = 65535 - foldr oc_add ws 0"

lemma be16_less: "be16 p i < 65536"
  using unsigned_less[where 'a = nat, of "p i"] unsigned_less[where 'a = nat, of "p (i + 1)"] by (simp add: be16_def)

lemma be16_word: "unat (ucast (htons (get16 p i)) :: uint32) = be16 p i"
proof -
  let ?a = "p i" and ?b = "p (i + 1)"
  have h: "htons (get16 p i) = ucast ?b OR push_bit 8 (ucast ?a)" unfolding get16_def htons_bytes ..
  have "ucast ?b OR push_bit 8 (ucast ?a) = (ucast ?b + push_bit 8 (ucast ?a) :: uint16)"
    by (rule disjunctive_add[symmetric]) (auto simp: bit_simps high_bit)
  moreover have "unat (ucast ?b + push_bit 8 (ucast ?a) :: uint16) = be16 p i"
    using unsigned_less[where 'a = nat, of ?a] unsigned_less[where 'a = nat, of ?b] by (simp add: be16_def unat_word_ariths push_bit_eq_mult unsigned_ucast_eq take_bit_nat_eq_self)
  ultimately show ?thesis unfolding h using be16_less[of p i] by (simp add: unsigned_ucast_eq take_bit_nat_eq_self)
qed

lemma sum_words_val:
  "unat acc + n * 65536 < 2 ^ 32 \<Longrightarrow> unat (sum_words n p i acc) = unat acc + sum_list (be_words n p i)"
proof (induction n arbitrary: i acc)
  case (Suc n)
  have s: "unat (acc + ucast (htons (get16 p i))) = unat acc + be16 p i"
    using Suc.prems be16_less[of p i] be16_word[of p i] by (simp add: unat_word_ariths)
  have "be_words (Suc n) p i = be16 p i # be_words n p (i + 2)"
    by (simp add: be_words_def upt_conv_Cons map_Suc_upt[symmetric] comp_def del: upt_Suc)
  moreover have "unat (sum_words n p (i + 2) (acc + ucast (htons (get16 p i)))) =
      unat acc + be16 p i + sum_list (be_words n p (i + 2))"
    unfolding s[symmetric] by (rule Suc.IH) (use Suc.prems s be16_less[of p i] in simp)
  ultimately show ?case by simp
qed (simp add: be_words_def)

text \<open>The one's complement sum of words whose ordinary sum is \<open>s\<close>.\<close>

definition oc_norm :: "nat \<Rightarrow> nat" where
  "oc_norm s = (if s = 0 then 0 else (s - 1) mod 65535 + 1)"

lemma mod_twice: "v \<le> 2 * n \<Longrightarrow> 0 < n \<Longrightarrow> v mod n = (if v < n then v else if v < 2 * n then v - n else 0)" for v n :: nat
  by (cases "v = 2 * n") (auto simp: le_mod_geq)

lemma oc_norm_add:
  assumes "w < 65536"
  shows "oc_add w (oc_norm s) = oc_norm (w + s)"
proof (cases "s = 0")
  case True
  then show ?thesis using assms by (auto simp: oc_add_def oc_norm_def)
next
  case False
  define r where "r = (s - 1) mod 65535"
  have "w + s - 1 = w + (s - 1)" using False by linarith
  then have e: "(w + s - 1) mod 65535 = (w + r) mod 65535" by (simp add: r_def mod_simps)
  have "r < 65535" by (simp add: r_def)
  then have m: "(w + r) mod 65535 = (if w + r < 65535 then w + r else if w + r < 131070 then w + r - 65535 else 0)"
    using mod_twice[of "w + r" 65535] assms by simp
  have "oc_add w (r + 1) = (w + r) mod 65535 + 1" unfolding m oc_add_def using assms \<open>r < 65535\<close> by (simp split: if_split) linarith
  then show ?thesis using False e by (simp add: oc_norm_def r_def)
qed

lemma oc_sum: "\<forall>w \<in> set ws. w < 65536 \<Longrightarrow> foldr oc_add ws 0 = oc_norm (sum_list ws)"
  by (induction ws) (simp_all add: oc_norm_add, simp add: oc_norm_def)

section \<open>What the code computes\<close>

text \<open>The sum with its carries added once, cut to 16 bits.\<close>

definition folded :: "nat \<Rightarrow> nat" where
  "folded s = (s mod 65536 + s div 65536) mod 65536"

lemma fold_word:
  fixes c :: uint32
  assumes "unat c < 2 ^ 32 - 2 ^ 16"
  shows "unat (0xFFFF AND NOT (c + drop_bit 16 c)) = 65535 - folded (unat c)"
proof -
  let ?x = "c + drop_bit 16 c"
  have m: "(0xFFFF :: uint32) = mask 16" by (simp add: mask_eq_exp_minus_1)
  have d: "unat (drop_bit 16 c) = unat c div 65536" by (simp add: drop_bit_eq_div unat_div_distrib)
  have "unat c div 65536 < 65536" using assms by (simp add: less_mult_imp_div_less)
  then have x: "unat ?x = unat c + unat c div 65536" using assms by (simp add: unat_word_ariths d)
  have "0xFFFF AND NOT ?x = take_bit 16 (NOT ?x)" unfolding m by (simp add: take_bit_eq_mask and.commute)
  also have "\<dots> = mask 16 - take_bit 16 ?x"
    by (simp add: take_bit_not_eq_mask_diff)
  also have "unat \<dots> = 65535 - unat (take_bit 16 ?x)"
  proof -
    have "take_bit 16 ?x \<le> mask 16" unfolding m[symmetric] by (simp add: word_le_nat_alt take_bit_eq_mod unat_mod_distrib less_Suc_eq_le[symmetric])
    then have "unat (mask 16 - take_bit 16 ?x) = unat (mask 16 :: uint32) - unat (take_bit 16 ?x)" by (rule unat_sub)
    then show ?thesis by (simp add: mask_eq_exp_minus_1)
  qed
  also have "unat (take_bit 16 ?x) = unat ?x mod 65536" by (simp add: take_bit_eq_mod unat_mod_distrib)
  also have "\<dots> = folded (unat c)" unfolding x folded_def by (simp add: mod_simps)
  finally show ?thesis .
qed

lemma low16: "unat (ucast (0xFFFF AND (c :: uint32)) :: uint16) = unat c mod 65536"
proof -
  have m: "(0xFFFF :: uint32) = mask 16" by (simp add: mask_eq_exp_minus_1)
  have "0xFFFF AND c = take_bit 16 c" unfolding m by (simp add: take_bit_eq_mask and.commute)
  then show ?thesis by (simp add: unsigned_ucast_eq take_bit_eq_mod unat_mod_distrib)
qed

lemma ipcksum_val:
  defines "s \<equiv> \<lambda>p. sum_list (be_words 10 p net_ipvh)"
  shows "unat (ipcksum p) = (if folded (s p) = 0 then 0 else 65535 - folded (s p))"
proof -
  let ?c = "sum_words 10 p net_ipvh 0"
  have c: "unat ?c = s p" unfolding s_def by (subst sum_words_val) simp_all
  have "s p \<le> sum_list (map (\<lambda>_. 65535) [0..<10 :: nat])"
    unfolding s_def be_words_def using be16_less[of p] by (intro sum_list_mono) (simp add: less_Suc_eq_le[symmetric])
  then have "unat ?c < 2 ^ 32 - 2 ^ 16" unfolding c by (simp add: sum_list_triv)
  from fold_word[OF this] have f: "unat (0xFFFF AND NOT (?c + drop_bit 16 ?c)) = 65535 - folded (s p)" unfolding c .
  have l: "folded (s p) < 65536" by (simp add: folded_def)
  have "0xFFFF AND NOT (?c + drop_bit 16 ?c) = 0xFFFF \<longleftrightarrow> folded (s p) = 0"
    using f l by (auto simp: word_unat_eq_iff)
  then show ?thesis unfolding ipcksum_def Let_def low16 using f l by simp
qed

text \<open>Adding the carries once agrees with the one's complement sum unless it gives another carry.\<close>

definition carries_again :: "nat \<Rightarrow> bool" where
  "carries_again s \<longleftrightarrow> 65536 \<le> s mod 65536 + s div 65536"

lemma folded_digits: "r < 65536 \<Longrightarrow> folded (65536 * q + r) = (r + q) mod 65536"
  unfolding folded_def by (simp only: mod_mult_self4 div_mult_self4 mod_less div_less, simp)

lemma split_sum:
  fixes s :: nat
  assumes "s < 2 ^ 32"
  obtains l h where "s = 65536 * h + l" "l < 65536" "h < 65536" "s mod 65536 = l" "s div 65536 = h"
proof -
  have "s = 65536 * (s div 65536) + s mod 65536" by simp
  moreover have "s div 65536 < 65536" using assms by (simp add: less_mult_imp_div_less)
  ultimately show ?thesis using that[of "s div 65536" "s mod 65536"] by simp
qed

lemma folded_oc:
  assumes "s < 2 ^ 32"
  shows "oc_norm s = (if carries_again s then folded s + 1 else folded s)"
proof -
  obtain l h where s: "s = 65536 * h + l" "l < 65536" "h < 65536" "s mod 65536 = l" "s div 65536 = h"
    by (rule split_sum[OF assms])
  show ?thesis
  proof (cases "s = 0")
    case True
    then show ?thesis by (simp add: oc_norm_def folded_def carries_again_def)
  next
    case False
    then have "s - 1 = (l + h - 1) + h * 65535" using s(1) by linarith
    then have "(s - 1) mod 65535 = (l + h - 1) mod 65535" by (simp only: mod_mult_self1)
    also have "\<dots> = (if l + h - 1 < 65535 then l + h - 1 else if l + h - 1 < 131070 then l + h - 1 - 65535 else 0)"
      using mod_twice[of "l + h - 1" 65535] s(2,3) by simp
    finally have m: "(s - 1) mod 65535 = \<dots>" .
    have "0 < l + h" using False s(1) by (cases "h = 0") auto
    moreover have "folded s = (if 65536 \<le> l + h then l + h - 65536 else l + h)"
      unfolding folded_def s(4,5) using mod_twice[of "l + h" 65536] s(2,3) by simp
    ultimately show ?thesis unfolding oc_norm_def m carries_again_def s(4,5) using s(2,3) False by (simp split: if_split) linarith
  qed
qed

lemma again_less: "s < 2 ^ 32 \<Longrightarrow> carries_again s \<Longrightarrow> folded s < 65535"
  using folded_oc[of s] mod_less_divisor[of 65535 "s - 1"] by (auto simp: oc_norm_def split: if_splits)

lemma be_words_bound: "sum_list (be_words n p i) \<le> n * 65535"
proof -
  have "sum_list (be_words n p i) \<le> sum_list (map (\<lambda>_. 65535) [0..<n])"
    unfolding be_words_def using be16_less[of p] by (intro sum_list_mono) (simp add: less_Suc_eq_le[symmetric])
  then show ?thesis by (simp add: sum_list_triv mult.commute)
qed

lemma rfc1071_val: "rfc1071 (be_words n p i) = 65535 - oc_norm (sum_list (be_words n p i))"
  using oc_sum[of "be_words n p i"] be16_less by (auto simp: rfc1071_def be_words_def)

lemma ipcksum_rfc:
  "unat (ipcksum p) = (if folded (sum_list (be_words 10 p net_ipvh)) = 0 then 0
    else rfc1071 (be_words 10 p net_ipvh) + (if carries_again (sum_list (be_words 10 p net_ipvh)) then 1 else 0))"
proof -
  define s where "s = sum_list (be_words 10 p net_ipvh)"
  have "s < 2 ^ 32" using be_words_bound[of 10 p net_ipvh] unfolding s_def by simp
  note oc = folded_oc[OF this] and less = again_less[OF this]
  have "folded s < 65536" by (simp add: folded_def)
  then show ?thesis unfolding ipcksum_val rfc1071_val s_def[symmetric] oc using less by auto
qed

text \<open>Storing a checksum into a field that was zero adds it to the sum.\<close>

lemma htons_twice: "htons (htons v) = v"
proof -
  have v: "v = ucast (ucast v :: byte) OR push_bit 8 (ucast (ucast (drop_bit 8 v) :: byte))"
    by (rule bit_word_eqI) (auto simp: bit_simps)
  show ?thesis by (subst v, subst htons_bytes, subst htons_bytes, rule v[symmetric])
qed

lemma be16_put: "be16 (put16 p i (htons v)) i = unat v"
proof -
  have "htons (get16 (put16 p i (htons v)) i) = v" unfolding get16_put16 htons_twice ..
  moreover have "unat (ucast v :: uint32) = unat v"
    using unsigned_less[where 'a = nat, of v] by (simp add: unsigned_ucast_eq take_bit_nat_eq_self)
  ultimately show ?thesis using be16_word[of "put16 p i (htons v)" i] by simp
qed

lemma sum_store:
  assumes k: "k < n" and z: "be16 p (i + 2 * k) = 0"
  shows "sum_list (be_words n (put16 p (i + 2 * k) (htons v)) i) = sum_list (be_words n p i) + unat v"
proof -
  let ?q = "put16 p (i + 2 * k) (htons v)"
  have other: "be16 ?q (i + 2 * j) = be16 p (i + 2 * j)" if "j \<noteq> k" for j
  proof -
    have "i + 2 * j \<noteq> i + 2 * k + 1" "i + 2 * j + 1 \<noteq> i + 2 * k" by presburger+
    then show ?thesis using that by (simp add: be16_def put16_def)
  qed
  have s: "sum_list (be_words n r i) = be16 r (i + 2 * k) + (\<Sum>j \<in> {0..<n} - {k}. be16 r (i + 2 * j))" for r
    unfolding be_words_def interv_sum_list_conv_sum_set_nat set_upt using k by (intro sum.remove) simp_all
  have "(\<Sum>j \<in> {0..<n} - {k}. be16 ?q (i + 2 * j)) = (\<Sum>j \<in> {0..<n} - {k}. be16 p (i + 2 * j))"
    by (intro sum.cong) (auto simp: other)
  then show ?thesis unfolding s z be16_put by simp
qed

text \<open>What the sum becomes with the checksum in it.\<close>

lemma folded_back:
  assumes "s < 2 ^ 32 - 2 ^ 17"
  shows "folded (s + (65535 - folded s)) = (if carries_again s then 0 else 65535)"
proof -
  obtain l h where s: "s = 65536 * h + l" "l < 65536" "h < 65536" "s mod 65536 = l" "s div 65536 = h"
    by (rule split_sum[of s]) (use assms in simp)
  have h: "h < 65534" using assms s(1) by simp
  have f: "folded s = (if 65536 \<le> l + h then l + h - 65536 else l + h)"
    unfolding folded_def s(4,5) using mod_twice[of "l + h" 65536] s(2,3) by simp
  have top: "65535 - h < 65536" by simp
  show ?thesis
  proof (cases "65536 \<le> l + h")
    case True
    then have "s + (65535 - folded s) = 65536 * (h + 1) + (65535 - h)" using f s(1,2) h by simp
    moreover have "folded (65536 * (h + 1) + (65535 - h)) = 0"
      unfolding folded_digits[OF top] using h by simp
    ultimately show ?thesis using True by (simp only: carries_again_def s(4,5) if_True)
  next
    case False
    then have "s + (65535 - folded s) = 65536 * h + (65535 - h)" using f s(1,2) h by simp
    moreover have "folded (65536 * h + (65535 - h)) = 65535"
      unfolding folded_digits[OF top] using h by simp
    ultimately show ?thesis using False by (simp only: carries_again_def s(4,5) if_False)
  qed
qed

section \<open>Sending and checking\<close>

text \<open>The header checksum as \<^verbatim>\<open>ip_out\<close> stores it, and the check that \<^verbatim>\<open>ip_in\<close> makes.\<close>

definition ip_seal :: "packet \<Rightarrow> packet" where
  "ip_seal p = (let p = put16 p net_ipcksum 0 in put16 p net_ipcksum (htons (ipcksum p)))"

lemma htons_0: "htons 0 = 0" by (simp add: htons_def)

lemma ip_seal_checks: "ipcksum (ip_seal p) = 0"
proof -
  let ?q = "put16 p net_ipcksum 0" and ?s = "sum_list (be_words 10 (put16 p net_ipcksum 0) net_ipvh)"
  have z: "be16 ?q (net_ipvh + 2 * 5) = 0" using be16_put[of p 24 0] by (simp add: htons_0)
  have s: "sum_list (be_words 10 (ip_seal p) net_ipvh) = ?s + unat (ipcksum ?q)"
    using sum_store[OF _ z, of 10 "ipcksum ?q"] by (simp add: ip_seal_def Let_def)
  have b: "?s < 2 ^ 32 - 2 ^ 17" using be_words_bound[of 10 ?q net_ipvh] by simp
  have "folded (?s + unat (ipcksum ?q)) \<in> {0, 65535}"
  proof (cases "folded ?s = 0")
    case True
    then show ?thesis by (simp add: ipcksum_val)
  next
    case False
    then have "unat (ipcksum ?q) = 65535 - folded ?s" by (simp add: ipcksum_val)
    then show ?thesis using folded_back[OF b] by simp
  qed
  then have "unat (ipcksum (ip_seal p)) = 0" unfolding ipcksum_val s by auto
  then show ?thesis by (simp add: unat_eq_zero)
qed

text \<open>Every header with a valid checksum passes.\<close>

lemma ip_valid_checks:
  assumes "rfc1071 (be_words 10 p net_ipvh) = 0"
  shows "ipcksum p = 0"
proof -
  let ?s = "sum_list (be_words 10 p net_ipvh)"
  have "?s < 2 ^ 32" using be_words_bound[of 10 p net_ipvh] by simp
  have r: "65535 \<le> oc_norm ?s" using assms by (simp add: rfc1071_val)
  have "folded ?s = 65535 \<or> folded ?s = 0"
  proof -
    have "?s \<noteq> 0" "65534 \<le> (?s - 1) mod 65535" using r by (auto simp: oc_norm_def split: if_splits)
    moreover have "(?s - 1) mod 65535 < 65535" by simp
    ultimately have "(?s - 1) mod 65535 = 65534" by linarith
    then have o: "oc_norm ?s = 65535" using \<open>?s \<noteq> 0\<close> by (simp add: oc_norm_def)
    then obtain k where "?s - 1 = 65535 * k + 65534" using \<open>(?s - 1) mod 65535 = 65534\<close> by (metis mult_div_mod_eq)
    then have s: "?s = 65535 * (k + 1)" using \<open>?s \<noteq> 0\<close> by simp
    have k: "k + 1 \<le> 10" using be_words_bound[of 10 p net_ipvh] s by simp
    have "?s = 65536 * k + (65535 - k)" using s k by simp
    then have "folded ?s = (65535 - k + k) mod 65536" by (simp only: folded_digits[of "65535 - k"])
    then show ?thesis using k by simp
  qed
  then have "unat (ipcksum p) = 0" unfolding ipcksum_val by auto
  then show ?thesis by (simp add: unat_eq_zero)
qed

text \<open>The ICMP checksum over \<open>2 * n\<close> bytes.\<close>

lemma icmp_cksum_val:
  assumes "n < 65533"
  shows "unat (icmp_cksum p i (int (2 * n))) = 65535 - folded (sum_list (be_words n p i))"
proof -
  have n: "nat (drop_bit 1 (int (2 * n))) = n" "int (2 * n) AND 1 = 0"
    by (simp_all add: drop_bit_eq_div and_one_eq nat_div_distrib)
  let ?c = "sum_words n p i 0"
  have c: "unat ?c = sum_list (be_words n p i)" by (subst sum_words_val) (use assms in simp_all)
  then have "unat ?c < 2 ^ 32 - 2 ^ 16" using be_words_bound[of n p i] assms by simp
  from fold_word[OF this] have f: "unat (0xFFFF AND NOT (?c + drop_bit 16 ?c)) = 65535 - folded (unat ?c)" .
  then show ?thesis unfolding icmp_cksum_def Let_def n low16 c[symmetric] by simp
qed

text \<open>A message sealed like that is accepted unless the carries carried again: then it is refused.\<close>

definition icmp_seal :: "packet \<Rightarrow> int \<Rightarrow> packet" where
  "icmp_seal p len = (let p = put16 p net_iccksum 0 in put16 p net_iccksum (htons (icmp_cksum p net_ictype len)))"

lemma icmp_seal_checks:
  assumes "2 \<le> n" "n < 65533" and s: "s = sum_list (be_words n (put16 p net_iccksum 0) net_ictype)"
  shows "icmp_cksum (icmp_seal p (int (2 * n))) net_ictype (int (2 * n)) = (if carries_again s then 0xFFFF else 0)"
proof -
  let ?q = "put16 p net_iccksum 0"
  have z: "be16 ?q (net_ictype + 2 * 1) = 0" using be16_put[of p 36 0] by (simp add: htons_0)
  have b: "s < 2 ^ 32 - 2 ^ 17" using be_words_bound[of n ?q net_ictype] assms(2) unfolding s by simp
  have "sum_list (be_words n (icmp_seal p (int (2 * n))) net_ictype) = s + (65535 - folded s)"
    using sum_store[OF _ z, of n "icmp_cksum ?q net_ictype (int (2 * n))"] assms(1) icmp_cksum_val[OF assms(2), of ?q net_ictype]
    by (simp add: icmp_seal_def Let_def s)
  then have "unat (icmp_cksum (icmp_seal p (int (2 * n))) net_ictype (int (2 * n))) = (if carries_again s then 65535 else 0)"
    unfolding icmp_cksum_val[OF assms(2)] using folded_back[OF b] by simp
  then show ?thesis by (simp add: word_unat_eq_iff split: if_splits)
qed

end
