(* ===== verification/Net_State.thy ===== *)
theory Net_State
  imports Bufpool Ring Net_Checksum
begin

text \<open>
  The state of the network code: the endpoints of UDP and ICMP, the ARP cache, the output queue and the interface
  (\<^verbatim>\<open>include/udp.h\<close>, \<^verbatim>\<open>icmp.h\<close>, \<^verbatim>\<open>arp.h\<close>, \<^verbatim>\<open>ip.h\<close>, \<^verbatim>\<open>net.h\<close>), as an extension of the record of the upper components. \<open>pkts\<close>
  gives the bytes of the packet in the buffer at an address; what a call has still to do when its process runs again
  is in \<open>nkont\<close>. Then who owns the buffers of the pool, and what returning one or notifying a process does.
\<close>

section \<open>State\<close>

datatype epstate = EP_FREE | EP_USED | EP_RECV

record udpentry =
  udstate :: epstate
  udremip :: uint32
  udremport :: uint16
  udlocport :: uint16
  udhead :: int
  udtail :: int
  udcount :: int
  udpid :: int
  udqueue :: "int \<Rightarrow> uint32"

record icmpentry =
  icstate :: epstate
  icremip :: uint32
  ichead :: int
  ictail :: int
  iccount :: int
  icpid :: int
  icqueue :: "int \<Rightarrow> uint32"

datatype arstate = AR_FREE | AR_PENDING | AR_RESOLVED

record arpentry =
  arstate :: arstate
  arpaddr :: uint32
  arpid :: int
  arhaddr :: "byte list"

record iqentry =
  iqhead :: int
  iqtail :: int
  iqsem :: int
  iqbuf :: "int \<Rightarrow> uint32"

record network =
  ipucast :: uint32
  ipbcast :: uint32
  ipmask :: uint32
  ipprefix :: uint32
  iprouter :: uint32
  bootserver :: uint32
  ipvalid :: bool
  ethucast :: "byte list"
  ethbcast :: "byte list"

text \<open>
  Where a call stands that has given up the processor: waiting for a packet, for a free buffer, for the answer to an ARP
  request (with the tries left, the entry of the cache, the frame of the request, and what the caller does with the answer), or for the next
  packet of the output queue.
\<close>

datatype arp_user = For_ip_send uint32 | For_udp_send uint32 | For_ipout uint32

datatype ncont =
    N_udp_recv int int
  | N_udp_recvaddr int int
  | N_udp_send uint32 uint16 uint16 uint32 "byte list" int
  | N_udp_sendto int uint32 uint16 "byte list" int
  | N_icmp_recv int int
  | N_icmp_send uint32 uint16 uint16 uint16 "byte list" int
  | N_echo uint32
  | N_echo_free uint32
  | N_arp nat int packet arp_user
  | N_arp_in uint32 "int option"
  | N_ipout
  | N_netin

record nstate = ustate +
  udptab :: "int \<Rightarrow> udpentry"
  icmptab :: "int \<Rightarrow> icmpentry"
  arpcache :: "int \<Rightarrow> arpentry"
  ipoqueue :: iqentry
  netdata :: network
  netbufpool :: int
  udp_ident :: uint16
  udpto_ident :: uint16
  ipident :: uint32
  pkts :: "uint32 \<Rightarrow> packet"
  nkont :: "int \<Rightarrow> ncont option"

abbreviation (input) PACKLEN :: nat where "PACKLEN \<equiv> 1514"
abbreviation (input) UDP_SLOTS :: int where "UDP_SLOTS \<equiv> 6"
abbreviation (input) UDP_QSIZ :: int where "UDP_QSIZ \<equiv> 8"
abbreviation (input) ICMP_SLOTS :: int where "ICMP_SLOTS \<equiv> 10"
abbreviation (input) ICMP_QSIZ :: int where "ICMP_QSIZ \<equiv> 8"
abbreviation (input) ARP_SIZ :: int where "ARP_SIZ \<equiv> 16"

text \<open>The loops over a table that stop at the first entry with a property.\<close>

fun first_slot :: "nat \<Rightarrow> int \<Rightarrow> (int \<Rightarrow> bool) \<Rightarrow> int option" where
  "first_slot 0 i P = None"
| "first_slot (Suc n) i P = (if P i then Some i else first_slot n (i + 1) P)"

lemma first_slot_Some:
  assumes "first_slot n i P = Some k"
  shows "i \<le> k" "k < i + int n" "P k" "\<And>j. i \<le> j \<Longrightarrow> j < k \<Longrightarrow> \<not> P j"
proof -
  have "i \<le> k \<and> k < i + int n \<and> P k \<and> (\<forall>j. i \<le> j \<and> j < k \<longrightarrow> \<not> P j)"
    using assms
  proof (induction n arbitrary: i)
    case (Suc n)
    show ?case
    proof (cases "P i")
      case False
      then have IH: "i + 1 \<le> k \<and> k < i + 1 + int n \<and> P k \<and> (\<forall>j. i + 1 \<le> j \<and> j < k \<longrightarrow> \<not> P j)"
        using Suc by simp
      then have "\<not> P j" if "i \<le> j" "j < k" for j using that False by (cases "j = i") auto
      then show ?thesis using IH by auto
    qed (use Suc.prems in auto)
  qed simp
  then show "i \<le> k" "k < i + int n" "P k" "\<And>j. i \<le> j \<Longrightarrow> j < k \<Longrightarrow> \<not> P j" by auto
qed

lemma first_slot_None: "first_slot n i P = None \<longleftrightarrow> (\<forall>j. i \<le> j \<longrightarrow> j < i + int n \<longrightarrow> \<not> P j)"
proof (induction n arbitrary: i)
  case (Suc n)
  have e: "i \<le> j \<and> j < i + int (Suc n) \<longleftrightarrow> j = i \<or> i + 1 \<le> j \<and> j < i + 1 + int n" for j by auto
  have "(\<forall>j. i \<le> j \<longrightarrow> j < i + int (Suc n) \<longrightarrow> \<not> P j) \<longleftrightarrow> \<not> P i \<and> (\<forall>j. i + 1 \<le> j \<longrightarrow> j < i + 1 + int n \<longrightarrow> \<not> P j)"
    unfolding imp_conjL[symmetric] e by blast
  then show ?case using Suc[of "i + 1"] by simp
qed simp

lemma first_slot_cong: "(\<And>j. i \<le> j \<Longrightarrow> j < i + int n \<Longrightarrow> P j = Q j) \<Longrightarrow> first_slot n i P = first_slot n i Q"
  by (induction n arbitrary: i) auto

section \<open>The kernel's invariant and the new fields\<close>

lemma kinv_net [simp]:
  "kinv (s\<lparr>udptab := a\<rparr>) = kinv s" "kinv (s\<lparr>icmptab := b\<rparr>) = kinv s" "kinv (s\<lparr>arpcache := c\<rparr>) = kinv s"
  "kinv (s\<lparr>ipoqueue := d\<rparr>) = kinv s" "kinv (s\<lparr>netdata := e\<rparr>) = kinv s" "kinv (s\<lparr>netbufpool := f\<rparr>) = kinv s"
  "kinv (s\<lparr>ipident := g\<rparr>) = kinv s" "kinv (s\<lparr>pkts := h\<rparr>) = kinv s" "kinv (s\<lparr>nkont := i\<rparr>) = kinv s"
  "kinv (s\<lparr>udp_ident := j\<rparr>) = kinv s" "kinv (s\<lparr>udpto_ident := k\<rparr>) = kinv s"
  by (simp_all add: kinv_def kq_def kids_def qof_def eligible_def ksem_def sem_inv_def kmsg_def msg_inv_def
      kheap_def kstk_def stk_ok_def kpend_def cong: prstate.case_cong)

lemma busy_net [simp]:
  "busy (s\<lparr>udptab := a\<rparr>) = busy s" "busy (s\<lparr>icmptab := b\<rparr>) = busy s" "busy (s\<lparr>arpcache := c\<rparr>) = busy s"
  "busy (s\<lparr>ipoqueue := d\<rparr>) = busy s" "busy (s\<lparr>netdata := e\<rparr>) = busy s" "busy (s\<lparr>netbufpool := f\<rparr>) = busy s"
  "busy (s\<lparr>ipident := g\<rparr>) = busy s" "busy (s\<lparr>pkts := h\<rparr>) = busy s" "busy (s\<lparr>nkont := i\<rparr>) = busy s"
  "busy (s\<lparr>udp_ident := j\<rparr>) = busy s" "busy (s\<lparr>udpto_ident := k\<rparr>) = busy s"
  by (rule busy_cong; simp)+

text \<open>Calls of the kernel leave the network's part of the state alone.\<close>

lemma net_fields:
  assumes "kstate.more s' = kstate.more (s :: 'z nstate_scheme)"
  shows "udptab s' = udptab s" "icmptab s' = icmptab s" "arpcache s' = arpcache s" "ipoqueue s' = ipoqueue s"
    "netdata s' = netdata s" "netbufpool s' = netbufpool s" "ipident s' = ipident s" "udp_ident s' = udp_ident s" "udpto_ident s' = udpto_ident s"
    "pkts s' = pkts s" "nkont s' = nkont s"
  using assms by (cases s; cases s'; simp)+

lemma net_more: "kstate.more s' = kstate.more (s :: 'z nstate_scheme) \<Longrightarrow> nstate.more s' = nstate.more s"
  by (cases s; cases s'; simp)

lemma unsleep_untouched: "unsleep p s = Some (r, s') \<Longrightarrow> untouched K s s'"
  unfolding unsleep_def by (auto simp: bind_eq_Some_conv Let_def split: if_split_asm)

lemma send_untouched: "send p m s = Some (r, s') \<Longrightarrow> untouched K s s'"
proof -
  assume r: "send p m s = Some (r, s')"
  consider "s' = s" | "pr_upd p (\<lambda>e. e\<lparr>prmsg := m, prhasmsg := True\<rparr>) s = Some s'" |
    s1 r1 where "pr_upd p (\<lambda>e. e\<lparr>prmsg := m, prhasmsg := True\<rparr>) s = Some s1" "ready p s1 = Some (r1, s')" |
    s1 r1 s2 r2 where "pr_upd p (\<lambda>e. e\<lparr>prmsg := m, prhasmsg := True\<rparr>) s = Some s1" "unsleep p s1 = Some (r1, s2)"
      "ready p s2 = Some (r2, s')"
    using r by (auto simp: send_def bind_eq_Some_conv split: if_splits)
  then show ?thesis
  proof cases
    case 2
    then show ?thesis by (rule pr_upd_untouched)
  next
    case 3
    show ?thesis by (rule untouched_trans[OF pr_upd_untouched[OF 3(1)] ready_untouched[OF 3(2)]])
  next
    case 4
    show ?thesis
      by (rule untouched_trans[OF pr_upd_untouched[OF 4(1)] untouched_trans[OF unsleep_untouched[OF 4(2)] ready_untouched[OF 4(3)]]])
  qed simp
qed

lemma signal_one_sem:
  assumes "signal_one k s = Some s'"
  shows "sstate (semtab s' k) = sstate (semtab s k)"
proof -
  obtain s1 where u: "sem_upd k (\<lambda>e. e\<lparr>scount := s32 (scount e + 1)\<rparr>) s = Some s1"
    and r: "s' = s1 \<or> (\<exists>q p s2 r. on_qtab (dequeue q) s1 = Some (p, s2) \<and> ready p s2 = Some (r, s'))"
    using assms unfolding signal_one_def bind_eq_Some_conv by (fastforce simp: bind_eq_Some_conv split: if_split_asm)
  have "untouched {} s1 s'" using r by (auto intro: untouched_trans[OF on_qtab_untouched ready_untouched])
  from untouchedD(18)[OF this, of k] show ?thesis using u by (auto simp: sem_upd_def split: if_split_asm)
qed

lemma signal_sem: "signal k s = Some (r, s') \<Longrightarrow> sstate (semtab s' k) = sstate (semtab s k)"
  by (auto simp: signal_def bind_eq_Some_conv signal_one_sem split: if_split_asm)

lemma recvtime_more:
  assumes "recvtime w s = Some (r, s')"
  shows "kstate.more s' = kstate.more s"
proof -
  have i: "insertd p q k t = Some (r', t') \<Longrightarrow> kstate.more t' = kstate.more t" for p q k r' and t t' :: "'a kstate_scheme"
    by (auto simp: insertd_def bind_eq_Some_conv split: if_split_asm)
  have r: "resched t = Some t' \<Longrightarrow> kstate.more t' = kstate.more t" for t t' :: "'a kstate_scheme"
    by (rule untouchedD(17)[OF resched_untouched])
  have u: "pr_upd p f t = Some t' \<Longrightarrow> kstate.more t' = kstate.more t" for p f and t t' :: "'a kstate_scheme"
    by (rule untouchedD(17)[OF pr_upd_untouched])
  show ?thesis using assms
    by (auto simp: recvtime_def recvtime_rest_def bind_eq_Some_conv Let_def split: if_split_asm dest!: i r u)
qed

section \<open>Buffers\<close>

text \<open>
  The pool's free buffers \<open>fr\<close> and the buffers \<open>used\<close> that the network code holds, by the addresses of their headers;
  a packet starts behind its header. The semaphore counts no more than the free buffers.
\<close>

definition pool_own :: "'z kstate_scheme \<Rightarrow> int \<Rightarrow> uint32 list \<Rightarrow> uint32 list \<Rightarrow> bool" where
  "pool_own s p fr used \<longleftrightarrow> pool_rep s p fr \<and> distinct (fr @ used) \<and>
     (\<forall>x \<in> set used. busy s x \<and> mem s x = word_of_int p) \<and>
     0 \<le> p \<and> p < nbpools s \<and> nbpools s \<le> NBPOOLS \<and> sem_live s (bpsem (buftab s p)) \<and>
     scount (semtab s (bpsem (buftab s p))) \<le> int (length fr) \<and> length fr < 2 ^ 30"

lemma pool_ownD:
  assumes "pool_own s p fr used"
  shows "pool_rep s p fr" "distinct (fr @ used)" "x \<in> set used \<Longrightarrow> busy s x" "x \<in> set used \<Longrightarrow> mem s x = word_of_int p"
    "0 \<le> p" "p < nbpools s" "nbpools s \<le> NBPOOLS" "sem_live s (bpsem (buftab s p))"
    "scount (semtab s (bpsem (buftab s p))) \<le> int (length fr)" "length fr < 2 ^ 30"
  using assms by (auto simp: pool_own_def)

lemma pool_own_net [simp]:
  "pool_own (s\<lparr>udptab := a\<rparr>) = pool_own s" "pool_own (s\<lparr>icmptab := b\<rparr>) = pool_own s" "pool_own (s\<lparr>arpcache := c\<rparr>) = pool_own s"
  "pool_own (s\<lparr>ipoqueue := d\<rparr>) = pool_own s" "pool_own (s\<lparr>netdata := e\<rparr>) = pool_own s" "pool_own (s\<lparr>netbufpool := f\<rparr>) = pool_own s"
  "pool_own (s\<lparr>ipident := g\<rparr>) = pool_own s" "pool_own (s\<lparr>pkts := h\<rparr>) = pool_own s" "pool_own (s\<lparr>nkont := i\<rparr>) = pool_own s"
  "pool_own (s\<lparr>udp_ident := j\<rparr>) = pool_own s" "pool_own (s\<lparr>udpto_ident := k\<rparr>) = pool_own s"
  by (intro ext, simp add: pool_own_def pool_rep_def)+

lemma pool_own_untouched:
  assumes u: "untouched {} s s'"
  shows "pool_own s' p fr used = pool_own s p fr used"
  unfolding pool_own_def pool_rep_def busy_untouched[OF u] untouchedD(1,13,14)[OF u] using untouchedD(18)[OF u] by simp

lemma pool_own_perm: "pool_own s p fr used \<Longrightarrow> distinct used' \<Longrightarrow> set used' = set used \<Longrightarrow> pool_own s p fr used'"
  by (simp add: pool_own_def)

text \<open>Taking a buffer, returning one, and sending a message, in any state of the network code.\<close>

lemma getbuf_rest_owned:
  assumes inv: "kinv s" and own: "pool_own s p (x # fr) used" and c: "scount (semtab s (bpsem (buftab s p))) \<le> int (length fr)"
  shows "\<exists>s'. getbuf_rest p s = Some (x + 4, s') \<and> kinv s' \<and> pool_own s' p fr (x # used) \<and>
    kstate.more s' = kstate.more s \<and> proctab s' = proctab s \<and> currpid s' = currpid s \<and> pkont s' = pkont s \<and>
    semtab s' = semtab s \<and> buftab s' p = (buftab s p)\<lparr>bpnext := bpnext (buftab s' p)\<rparr>"
proof -
  note O = pool_ownD[OF own]
  obtain s' where s': "getbuf_rest p s = Some (x + 4, s')" "kinv s'" "pool_rep s' p fr" "mem s' x = word_of_int p" "busy s' = busy s"
    "\<forall>a. a \<noteq> x \<longrightarrow> mem s' a = mem s a" "bpsem (buftab s' p) = bpsem (buftab s p)" "nbpools s' = nbpools s"
    using getbuf_rest_pops[OF inv O(1)] by blast
  have f: "kstate.more s' = kstate.more s" "proctab s' = proctab s" "currpid s' = currpid s" "pkont s' = pkont s" "semtab s' = semtab s"
    "buftab s' p = (buftab s p)\<lparr>bpnext := bpnext (buftab s' p)\<rparr>"
    using s'(1) by (auto simp: getbuf_rest_def bind_eq_Some_conv Let_def)
  have "busy s x" using O(1) by (simp add: pool_rep_def)
  moreover have "mem s' y = word_of_int p" if "y \<in> set used" for y using O(2) O(4)[OF that] that s'(6) by (cases "y = x") auto
  ultimately have "pool_own s' p fr (x # used)" unfolding pool_own_def using O s' c f(5) by auto
  then show ?thesis using s'(1,2) f by blast
qed

lemma freebuf_owned:
  assumes inv: "kinv s" and own: "pool_own s p fr used" and x: "x \<in> set used" and room: "length fr + 1 < 2 ^ 30"
  shows "\<exists>s'. freebuf (x + 4) s = Some (OK, s') \<and> kinv s' \<and> pool_own s' p (x # fr) (remove1 x used) \<and>
    kstate.more s' = kstate.more s \<and> bpsem (buftab s' p) = bpsem (buftab s p) \<and>
    scount (semtab s' (bpsem (buftab s p))) = scount (semtab s (bpsem (buftab s p))) + 1"
proof -
  note O = pool_ownD[OF own]
  let ?k = "bpsem (buftab s p)"
  have xf: "x \<notin> set fr" "distinct used" using O(2) x by auto
  have c: "scount (semtab s ?k) < 2 ^ 31 - 1" using O(9) room by simp
  obtain s' where s': "freebuf (x + 4) s = Some (OK, s')" "kinv s'" "pool_rep s' p (x # fr)"
    "scount (semtab s' ?k) = scount (semtab s ?k) + 1"
    using freebuf_pushes[OF inv O(1,5,6,7) O(3)[OF x] xf(1) O(4)[OF x] _ _ c] O(8) by blast
  obtain r s1 where s1: "s1 = s\<lparr>mem := (mem s)(x := bpnext (buftab s p)), buftab := (buftab s)(p := (buftab s p)\<lparr>bpnext := x\<rparr>)\<rparr>"
    "signal ?k s1 = Some (r, s')"
    using s'(1) O(3,4)[OF x] O(5-7) by (auto simp: freebuf_def busy_access bind_eq_Some_conv Let_def
        signed_of_int signed_take_bit_int_eq_self split: if_splits)
  have u: "untouched {?k} s1 s'" by (rule signal_untouched[OF s1(2)]) simp
  have m: "mem s' = (mem s)(x := bpnext (buftab s p))" "kstate.more s' = kstate.more s" "nbpools s' = nbpools s"
    "bpsem (buftab s' p) = ?k" using untouchedD[OF u] s1(1) by simp_all
  have b: "busy s' = busy s"
    using busy_untouched[OF u] kheap_write(2)[OF kinvD(6)[OF inv] O(3)[OF x]] s1(1) by simp
  have "sstate (semtab s' ?k) = S_USED"
    using signal_sem[OF s1(2)] s1(1) O(8) by simp
  then have "pool_own s' p (x # fr) (remove1 x used)" unfolding pool_own_def b m using O s'(3,4) xf room x
    by (auto simp: set_remove1_eq distinct_remove1)
  then show ?thesis using s' m by blast
qed

end
