(* ===== verification/Net_Udp.thy ===== *)
theory Net_Udp
  imports Net_State
begin

text \<open>
  UDP endpoints (\<^verbatim>\<open>net/udp.c\<close>): incoming datagrams are matched against the table and queued at the first endpoint with
  room, a receiver takes them in order or waits for one. A call that waits stops inside \<open>recvtime\<close>; the code behind it is
  \<open>udp_recv_rest\<close> and \<open>udp_recvaddr_rest\<close>. The bytes a receiver gets are part of the result.
\<close>

abbreviation stopping :: "ncont \<Rightarrow> 'z nstate_scheme \<Rightarrow> 'z nstate_scheme" where
  "stopping k s \<equiv> s\<lparr>nkont := (nkont s)(currpid s := Some k)\<rparr>"

definition ud_upd :: "int \<Rightarrow> (udpentry \<Rightarrow> udpentry) \<Rightarrow> 'z nstate_scheme \<Rightarrow> 'z nstate_scheme" where
  "ud_upd i f s = s\<lparr>udptab := (udptab s)(i := f (udptab s i))\<rparr>"

section \<open>Operations\<close>

definition udp_init :: "'z nstate_scheme \<Rightarrow> 'z nstate_scheme" where
  "udp_init s = s\<lparr>udptab := (\<lambda>i. if 0 \<le> i \<and> i < UDP_SLOTS then (udptab s i)\<lparr>udstate := EP_FREE\<rparr> else udptab s i)\<rparr>"

definition udp_match :: "udpentry \<Rightarrow> packet \<Rightarrow> bool" where
  "udp_match udptr p \<longleftrightarrow> udstate udptr \<noteq> EP_FREE \<and> get16 p net_udpdport = udlocport udptr \<and>
     (udremport udptr = 0 \<or> get16 p net_udpsport = udremport udptr) \<and>
     (udremip udptr = 0 \<or> get32 p net_ipsrc = udremip udptr)"

definition udp_put :: "int \<Rightarrow> uint32 \<Rightarrow> 'z nstate_scheme \<Rightarrow> 'z nstate_scheme option" where
  "udp_put i pktptr s =
     (let t = udtail (udptab s i) in
      if t < 0 \<or> t \<ge> UDP_QSIZ then None
      else Some (ud_upd i (\<lambda>e. e\<lparr>udcount := udcount e + 1, udqueue := (udqueue e)(t := pktptr), udtail := wrap UDP_QSIZ t\<rparr>) s))"

definition udp_in :: "uint32 \<Rightarrow> 'z nstate_scheme \<Rightarrow> 'z nstate_scheme option" where
  "udp_in pktptr s =
     (case first_slot (nat UDP_SLOTS) 0 (\<lambda>i. udp_match (udptab s i) (pkts s pktptr) \<and> udcount (udptab s i) < UDP_QSIZ) of
        None \<Rightarrow> map_option snd (freebuf pktptr s)
      | Some i \<Rightarrow> do {
          s \<leftarrow> udp_put i pktptr s;
          if udstate (udptab s i) = EP_RECV
          then do {
            let s = ud_upd i (\<lambda>e. e\<lparr>udstate := EP_USED\<rparr>) s;
            (_, s) \<leftarrow> send (udpid (udptab s i)) 1 s;
            Some s }
          else Some s })"

definition udp_register :: "uint32 \<Rightarrow> uint16 \<Rightarrow> uint16 \<Rightarrow> 'z nstate_scheme \<Rightarrow> int \<times> 'z nstate_scheme" where
  "udp_register remip remport locport s =
     (case first_slot (nat UDP_SLOTS) 0 (\<lambda>i. udstate (udptab s i) \<noteq> EP_FREE \<and> remport = udremport (udptab s i) \<and>
         locport = udlocport (udptab s i) \<and> remip = udremip (udptab s i)) of
        Some _ \<Rightarrow> (SYSERR, s)
      | None \<Rightarrow>
         (case first_slot (nat UDP_SLOTS) 0 (\<lambda>i. udstate (udptab s i) = EP_FREE) of
            Some slot \<Rightarrow> (slot, ud_upd slot (\<lambda>e. e\<lparr>udlocport := locport, udremport := remport, udremip := remip,
              udcount := 0, udhead := 0, udtail := 0, udpid := - 1, udstate := EP_USED\<rparr>) s)
          | None \<Rightarrow> (SYSERR, s)))"

text \<open>Waiting for a packet, taking one off the queue, and copying bytes out of a packet's buffer.\<close>

definition udp_await :: "int \<Rightarrow> ncont \<Rightarrow> uint32 \<Rightarrow> 'z nstate_scheme \<Rightarrow> (uint32 outcome \<times> 'z nstate_scheme) option" where
  "udp_await slot k timeout s = do {
     let s = ud_upd slot (\<lambda>e. e\<lparr>udstate := EP_RECV, udpid := currpid s\<rparr>) s;
     (_, s) \<leftarrow> recvclr s;
     recvtime (sint timeout) (stopping k s) }"

definition udp_dequeue :: "int \<Rightarrow> 'z nstate_scheme \<Rightarrow> (uint32 \<times> 'z nstate_scheme) option" where
  "udp_dequeue slot s =
     (let h = udhead (udptab s slot) in
      if h < 0 \<or> h \<ge> UDP_QSIZ then None
      else Some (udqueue (udptab s slot) h, ud_upd slot (\<lambda>e. e\<lparr>udhead := wrap UDP_QSIZ h, udcount := udcount e - 1\<rparr>) s))"

definition copy_out :: "packet \<Rightarrow> nat \<Rightarrow> int \<Rightarrow> byte list option" where
  "copy_out p i n = (if 0 < n \<and> i + nat n > PACKLEN then None else Some (map (\<lambda>k. p (i + k)) [0..<nat n]))"

definition udp_take :: "int \<Rightarrow> int \<Rightarrow> 'z nstate_scheme \<Rightarrow> ((int \<times> byte list) \<times> 'z nstate_scheme) option" where
  "udp_take slot len s = do {
     (pkt, s) \<leftarrow> udp_dequeue slot s;
     let msglen = uint (get16 (pkts s pkt) net_udplen) - 8;
     let msglen = (if len < msglen then len else msglen);
     data \<leftarrow> copy_out (pkts s pkt) net_udpdata msglen;
     (_, s) \<leftarrow> freebuf pkt s;
     Some ((msglen, data), s) }"

definition udp_recv_rest :: "int \<Rightarrow> int \<Rightarrow> uint32 \<Rightarrow> 'z nstate_scheme \<Rightarrow> ((int \<times> byte list) \<times> 'z nstate_scheme) option" where
  "udp_recv_rest slot len msg s =
     (let s = ud_upd slot (\<lambda>e. e\<lparr>udstate := EP_USED\<rparr>) s in
      if msg = - 3 then Some ((TIMEOUT, []), s)
      else if msg \<noteq> 1 then Some ((SYSERR, []), s)
      else udp_take slot len s)"

definition finish :: "('r \<times> 's) option \<Rightarrow> ('r outcome \<times> 's) option" where
  "finish = map_option (\<lambda>(r, s). (Done r, s))"

definition udp_recv :: "int \<Rightarrow> int \<Rightarrow> uint32 \<Rightarrow> 'z nstate_scheme \<Rightarrow> ((int \<times> byte list) outcome \<times> 'z nstate_scheme) option" where
  "udp_recv slot len timeout s =
     (if slot < 0 \<or> slot \<ge> UDP_SLOTS then Some (Done (SYSERR, []), s)
      else if udstate (udptab s slot) \<noteq> EP_USED then Some (Done (SYSERR, []), s)
      else if udcount (udptab s slot) = 0 then do {
        (r, s) \<leftarrow> udp_await slot (N_udp_recv slot len) timeout s;
        (case r of Done msg \<Rightarrow> finish (udp_recv_rest slot len msg s) | Pending \<Rightarrow> Some (Pending, s)) }
      else finish (udp_take slot len s))"

text \<open>\<open>udp_recvaddr\<close> also records where the packet came from.\<close>

definition udp_takeaddr :: "int \<Rightarrow> int \<Rightarrow> 'z nstate_scheme \<Rightarrow>
    ((int \<times> (uint32 \<times> uint16) option \<times> byte list) \<times> 'z nstate_scheme) option" where
  "udp_takeaddr slot len s = do {
     (pkt, s) \<leftarrow> udp_dequeue slot s;
     let remip = get32 (pkts s pkt) net_ipsrc;
     let remport = get16 (pkts s pkt) net_udpsport;
     let msglen = uint (get16 (pkts s pkt) net_udplen) - 8;
     let msglen = (if len < msglen then len else msglen);
     data \<leftarrow> copy_out (pkts s pkt) net_udpdata msglen;
     (_, s) \<leftarrow> freebuf pkt s;
     Some ((msglen, Some (remip, remport), data), s) }"

definition udp_recvaddr_rest :: "int \<Rightarrow> int \<Rightarrow> uint32 \<Rightarrow> 'z nstate_scheme \<Rightarrow>
    ((int \<times> (uint32 \<times> uint16) option \<times> byte list) \<times> 'z nstate_scheme) option" where
  "udp_recvaddr_rest slot len msg s =
     (let s = ud_upd slot (\<lambda>e. e\<lparr>udstate := EP_USED\<rparr>) s in
      if msg = - 3 then Some ((TIMEOUT, None, []), s)
      else if msg \<noteq> 1 then Some ((SYSERR, None, []), s)
      else udp_takeaddr slot len s)"

definition udp_recvaddr :: "int \<Rightarrow> int \<Rightarrow> uint32 \<Rightarrow> 'z nstate_scheme \<Rightarrow>
    ((int \<times> (uint32 \<times> uint16) option \<times> byte list) outcome \<times> 'z nstate_scheme) option" where
  "udp_recvaddr slot len timeout s =
     (if slot < 0 \<or> slot \<ge> UDP_SLOTS then Some (Done (SYSERR, None, []), s)
      else if udstate (udptab s slot) \<noteq> EP_USED then Some (Done (SYSERR, None, []), s)
      else if udcount (udptab s slot) = 0 then do {
        (r, s) \<leftarrow> udp_await slot (N_udp_recvaddr slot len) timeout s;
        (case r of Done msg \<Rightarrow> finish (udp_recvaddr_rest slot len msg s) | Pending \<Rightarrow> Some (Pending, s)) }
      else finish (udp_takeaddr slot len s))"

text \<open>\<open>udp_release\<close> returns the queued packets, with rescheduling deferred.\<close>

fun udp_drain :: "nat \<Rightarrow> int \<Rightarrow> 'z nstate_scheme \<Rightarrow> 'z nstate_scheme option" where
  "udp_drain 0 slot s = Some s"
| "udp_drain (Suc n) slot s = (case udp_dequeue slot s of None \<Rightarrow> None | Some (pkt, s) \<Rightarrow>
     (case freebuf pkt s of None \<Rightarrow> None | Some (_, s) \<Rightarrow> udp_drain n slot s))"

definition udp_release :: "int \<Rightarrow> 'z nstate_scheme \<Rightarrow> (int \<times> 'z nstate_scheme) option" where
  "udp_release slot s =
     (if slot < 0 \<or> slot \<ge> UDP_SLOTS then Some (SYSERR, s)
      else if udstate (udptab s slot) = EP_FREE then Some (SYSERR, s)
      else do {
        (_, s) \<leftarrow> resched_cntl DEFER_START s;
        s \<leftarrow> udp_drain (nat (udcount (udptab s slot))) slot s;
        let s = ud_upd slot (\<lambda>e. e\<lparr>udstate := EP_FREE\<rparr>) s;
        (_, s) \<leftarrow> resched_cntl DEFER_STOP s;
        Some (OK, s) })"

section \<open>What the table stands for\<close>

text \<open>An endpoint is the addresses it is registered for with what is queued there, and whether a process waits; a
  free slot is none.\<close>

record 'q endpoint =
  ep_ip :: uint32
  ep_rport :: uint16
  ep_lport :: uint16
  ep_wait :: bool
  ep_queue :: "'q list"

type_synonym 'q endpoints = "int \<Rightarrow> 'q endpoint option"

definition udp_is :: "udpentry \<Rightarrow> uint32 endpoint option \<Rightarrow> bool" where
  "udp_is e x = (case x of
       None \<Rightarrow> udstate e = EP_FREE
     | Some p \<Rightarrow> udstate e = (if ep_wait p then EP_RECV else EP_USED) \<and> udremip e = ep_ip p \<and> udremport e = ep_rport p \<and>
         udlocport e = ep_lport p \<and> ring UDP_QSIZ (udqueue e) (udhead e) (udtail e) (ep_queue p) \<and>
         udcount e = int (length (ep_queue p)))"

definition udp_table :: "'z nstate_scheme \<Rightarrow> uint32 endpoints \<Rightarrow> bool" where
  "udp_table s T \<longleftrightarrow> (\<forall>i. 0 \<le> i \<longrightarrow> i < UDP_SLOTS \<longrightarrow> udp_is (udptab s i) (T i))"

lemma udp_tableD: "udp_table s T \<Longrightarrow> 0 \<le> i \<Longrightarrow> i < UDP_SLOTS \<Longrightarrow> udp_is (udptab s i) (T i)"
  by (simp add: udp_table_def)

lemma udp_table_upd:
  "udp_table s T \<Longrightarrow> udp_is (f (udptab s i)) x \<Longrightarrow> udp_table (ud_upd i f s) (T(i := x))"
  by (simp add: udp_table_def ud_upd_def)

lemma udp_table_same: "udptab s' = udptab s \<Longrightarrow> udp_table s' T = udp_table s T"
  by (simp add: udp_table_def)

lemma ud_upd_more [simp]:
  "kinv (ud_upd i f s) = kinv s" "pool_own (ud_upd i f s) = pool_own s" "netbufpool (ud_upd i f s) = netbufpool s"
  "pkts (ud_upd i f s) = pkts s" "semtab (ud_upd i f s) = semtab s" "buftab (ud_upd i f s) = buftab s"
  "currpid (ud_upd i f s) = currpid s" "proctab (ud_upd i f s) = proctab s" "pkont (ud_upd i f s) = pkont s"
  "ndefers (ud_upd i f s) = ndefers s" "attempt (ud_upd i f s) = attempt s"
  by (simp_all add: ud_upd_def)

lemma ud_upd_at [simp]: "udptab (ud_upd i f s) = (udptab s)(i := f (udptab s i))"
  by (simp add: ud_upd_def)

section \<open>Specification\<close>

definition ep_match :: "'q endpoint \<Rightarrow> packet \<Rightarrow> bool" where
  "ep_match e p \<longleftrightarrow> get16 p net_udpdport = ep_lport e \<and> (ep_rport e = 0 \<or> get16 p net_udpsport = ep_rport e) \<and>
     (ep_ip e = 0 \<or> get32 p net_ipsrc = ep_ip e)"

definition accepts :: "'q endpoints \<Rightarrow> packet \<Rightarrow> int \<Rightarrow> bool" where
  "accepts T p i = (case T i of None \<Rightarrow> False | Some e \<Rightarrow> ep_match e p \<and> int (length (ep_queue e)) < UDP_QSIZ)"

definition deliver :: "packet \<Rightarrow> 'q \<Rightarrow> 'q endpoints \<Rightarrow> (int \<times> 'q endpoints) option" where
  "deliver p x T = (case first_slot (nat UDP_SLOTS) 0 (accepts T p) of
       None \<Rightarrow> None
     | Some i \<Rightarrow> Some (i, T(i := map_option (\<lambda>e. e\<lparr>ep_queue := ep_queue e @ [x], ep_wait := False\<rparr>) (T i))))"

definition ep_register :: "uint32 \<Rightarrow> uint16 \<Rightarrow> uint16 \<Rightarrow> 'q endpoints \<Rightarrow> int \<times> 'q endpoints" where
  "ep_register ip rport lport T =
     (if \<exists>i \<in> {0..<UDP_SLOTS}. case T i of None \<Rightarrow> False | Some e \<Rightarrow> ep_ip e = ip \<and> ep_rport e = rport \<and> ep_lport e = lport
      then (SYSERR, T)
      else (case first_slot (nat UDP_SLOTS) 0 (\<lambda>i. T i = None) of
          None \<Rightarrow> (SYSERR, T)
        | Some i \<Rightarrow> (i, T(i := Some \<lparr>ep_ip = ip, ep_rport = rport, ep_lport = lport, ep_wait = False, ep_queue = []\<rparr>))))"

definition payload :: "packet \<Rightarrow> int \<Rightarrow> int \<times> byte list" where
  "payload p len = (let n = min len (uint (get16 p net_udplen) - 8) in (n, map (\<lambda>k. p (net_udpdata + k)) [0..<nat n]))"

text \<open>The code's table search agrees with the specification's.\<close>

lemma udp_is_match:
  assumes "udp_is e x"
  shows "udp_match e p \<longleftrightarrow> (case x of None \<Rightarrow> False | Some y \<Rightarrow> ep_match y p)"
  using assms by (auto simp: udp_is_def udp_match_def ep_match_def split: option.splits)

lemma in_slot:
  assumes "udp_table s T"
  shows "first_slot (nat UDP_SLOTS) 0 (\<lambda>i. udp_match (udptab s i) p \<and> udcount (udptab s i) < UDP_QSIZ) =
    first_slot (nat UDP_SLOTS) 0 (accepts T p)"
proof (rule first_slot_cong)
  fix j :: int assume "0 \<le> j" "j < 0 + int (nat UDP_SLOTS)"
  then have j: "udp_is (udptab s j) (T j)" using udp_tableD[OF assms, of j] by simp
  show "(udp_match (udptab s j) p \<and> udcount (udptab s j) < UDP_QSIZ) = accepts T p j"
    unfolding udp_is_match[OF j] accepts_def using j by (auto simp: udp_is_def split: option.splits)
qed

lemma register_sim:
  assumes "udp_table s T"
  shows "fst (udp_register ip rp lp s) = fst (ep_register ip rp lp T) \<and>
    udp_table (snd (udp_register ip rp lp s)) (snd (ep_register ip rp lp T))"
proof -
  note D = udp_tableD[OF assms]
  define dup where "dup i \<longleftrightarrow> udstate (udptab s i) \<noteq> EP_FREE \<and> rp = udremport (udptab s i) \<and>
    lp = udlocport (udptab s i) \<and> ip = udremip (udptab s i)" for i
  have dup: "dup i \<longleftrightarrow> (case T i of None \<Rightarrow> False | Some e \<Rightarrow> ep_ip e = ip \<and> ep_rport e = rp \<and> ep_lport e = lp)"
    if "i \<in> {0..<UDP_SLOTS}" for i
    using D[of i] that by (auto simp: dup_def udp_is_def split: option.splits)
  have free: "first_slot (nat UDP_SLOTS) 0 (\<lambda>i. udstate (udptab s i) = EP_FREE) = first_slot (nat UDP_SLOTS) 0 (\<lambda>i. T i = None)"
  proof (rule first_slot_cong)
    fix j :: int assume "0 \<le> j" "j < 0 + int (nat UDP_SLOTS)"
    then show "(udstate (udptab s j) = EP_FREE) = (T j = None)"
      using D[of j] by (cases "T j") (simp_all add: udp_is_def)
  qed
  show ?thesis
  proof (cases "first_slot (nat UDP_SLOTS) 0 dup")
    case (Some k)
    from first_slot_Some[OF this] have "k \<in> {0..<UDP_SLOTS}" "dup k" by auto
    then have "\<exists>i \<in> {0..<UDP_SLOTS}. case T i of None \<Rightarrow> False | Some e \<Rightarrow> ep_ip e = ip \<and> ep_rport e = rp \<and> ep_lport e = lp"
      using dup[of k] by blast
    then have "ep_register ip rp lp T = (SYSERR, T)" unfolding ep_register_def by (rule if_P)
    then show ?thesis using Some assms by (simp add: udp_register_def dup_def[abs_def])
  next
    case None
    then have no: "\<not> (\<exists>i \<in> {0..<UDP_SLOTS}. case T i of None \<Rightarrow> False | Some e \<Rightarrow> ep_ip e = ip \<and> ep_rport e = rp \<and> ep_lport e = lp)"
      unfolding first_slot_None using dup by auto
    let ?f = "\<lambda>e. e\<lparr>udlocport := lp, udremport := rp, udremip := ip, udcount := 0, udhead := 0, udtail := 0, udpid := - 1, udstate := EP_USED\<rparr>"
    have new: "udp_is (?f e) (Some \<lparr>ep_ip = ip, ep_rport = rp, ep_lport = lp, ep_wait = False, ep_queue = []\<rparr>)" for e
      by (simp add: udp_is_def ring_empty)
    show ?thesis
    proof (cases "first_slot (nat UDP_SLOTS) 0 (\<lambda>i. T i = None)")
      case full: None
      have "ep_register ip rp lp T = (SYSERR, T)" unfolding ep_register_def if_not_P[OF no] full by simp
      then show ?thesis using None full assms free by (simp add: udp_register_def dup_def[abs_def])
    next
      case (Some k)
      have "ep_register ip rp lp T = (k, T(k := Some \<lparr>ep_ip = ip, ep_rport = rp, ep_lport = lp, ep_wait = False, ep_queue = []\<rparr>))"
        unfolding ep_register_def if_not_P[OF no] Some by simp
      moreover have "udp_register ip rp lp s = (k, ud_upd k ?f s)"
        using None Some free by (simp add: udp_register_def dup_def[abs_def])
      ultimately show ?thesis using udp_table_upd[OF assms new] by simp
    qed
  qed
qed

end
