(* ===== verification/Net_Udp_Spec.thy ===== *)
theory Net_Udp_Spec
  imports Net_Udp "HOL-Library.Multiset"
begin

text \<open>
  What the UDP calls do to the endpoints as lists of packets, with the buffers accounted for: a buffer is in the pool's
  list, in one queue, or held by the call that works on it.
\<close>

section \<open>Buffers in the queues\<close>

definition headers :: "uint32 endpoint option \<Rightarrow> uint32 multiset" where
  "headers x = (case x of None \<Rightarrow> {#} | Some e \<Rightarrow> image_mset (\<lambda>a. a - 4) (mset (ep_queue e)))"

definition held :: "uint32 endpoints \<Rightarrow> uint32 multiset" where
  "held T = (\<Sum>i \<in> {0..<UDP_SLOTS}. headers (T i))"

definition net_own :: "'z nstate_scheme \<Rightarrow> uint32 list \<Rightarrow> uint32 multiset \<Rightarrow> uint32 endpoints \<Rightarrow> bool" where
  "net_own s fr U T \<longleftrightarrow> (\<exists>used. pool_own s (netbufpool s) fr used \<and> mset used = U + held T)"

lemma held_split: "0 \<le> i \<Longrightarrow> i < UDP_SLOTS \<Longrightarrow> held T = headers (T i) + (\<Sum>j \<in> {0..<UDP_SLOTS} - {i}. headers (T j))"
  unfolding held_def by (rule sum.remove) simp_all

lemma held_upd:
  assumes "0 \<le> i" "i < UDP_SLOTS"
  shows "held (T(i := x)) + headers (T i) = held T + headers x"
proof -
  have "(\<Sum>j \<in> {0..<UDP_SLOTS} - {i}. headers ((T(i := x)) j)) = (\<Sum>j \<in> {0..<UDP_SLOTS} - {i}. headers (T j))"
    by (rule sum.cong) auto
  then show ?thesis using held_split[OF assms, of T] held_split[OF assms, of "T(i := x)"] by simp
qed

lemma held_same: "0 \<le> i \<Longrightarrow> i < UDP_SLOTS \<Longrightarrow> headers x = headers (T i) \<Longrightarrow> held (T(i := x)) = held T"
  using held_upd[of i T x] by simp

lemma net_own_same:
  assumes "kstate.more s' = kstate.more (s :: 'z nstate_scheme)" "pool_own s' = pool_own s"
  shows "net_own s' fr U T = net_own s fr U T"
  using net_fields(6)[OF assms(1)] assms(2) by (simp add: net_own_def)

lemma net_own_upd [simp]: "net_own (ud_upd i f s) = net_own s" "net_own (stopping k s) = net_own s" "net_own (s\<lparr>pkts := h\<rparr>) = net_own s"
  by (intro ext, simp add: net_own_def)+

lemma net_own_untouched: "untouched {} s s' \<Longrightarrow> net_own s' fr U T = net_own s fr U T"
  by (rule net_own_same) (auto intro!: ext simp: untouchedD(17) pool_own_untouched)

lemma net_own_regroup: "net_own s fr U T \<Longrightarrow> U + held T = U' + held T' \<Longrightarrow> net_own s fr U' T'"
  by (simp add: net_own_def)

lemma freebuf_net:
  assumes inv: "kinv s" and own: "net_own s fr (U + {#x - 4#}) T" and room: "length fr + 1 < 2 ^ 30"
  shows "\<exists>s'. freebuf x s = Some (OK, s') \<and> kinv s' \<and> net_own s' ((x - 4) # fr) U T \<and> kstate.more s' = kstate.more s \<and>
    bpsem (buftab s' (netbufpool s)) = bpsem (buftab s (netbufpool s)) \<and>
    scount (semtab s' (bpsem (buftab s (netbufpool s)))) = scount (semtab s (bpsem (buftab s (netbufpool s)))) + 1"
proof -
  obtain used where u: "pool_own s (netbufpool s) fr used" "mset used = U + {#x - 4#} + held T"
    using own by (auto simp: net_own_def)
  have x: "x - 4 \<in> set used" using u(2) by (metis multi_member_last set_mset_mset union_iff)
  obtain s' where s': "freebuf (x - 4 + 4) s = Some (OK, s')" "kinv s'"
    "pool_own s' (netbufpool s) ((x - 4) # fr) (remove1 (x - 4) used)" "kstate.more s' = kstate.more s"
    "bpsem (buftab s' (netbufpool s)) = bpsem (buftab s (netbufpool s))"
    "scount (semtab s' (bpsem (buftab s (netbufpool s)))) = scount (semtab s (bpsem (buftab s (netbufpool s)))) + 1"
    using freebuf_owned[OF inv u(1) x room] by blast
  have "mset (remove1 (x - 4) used) = U + held T" using u(2) by simp
  then have "net_own s' ((x - 4) # fr) U T"
    unfolding net_own_def using s'(3) net_fields(6)[OF s'(4)] by auto
  then show ?thesis using s' by auto
qed

section \<open>Incoming packets\<close>

lemma udp_put_is:
  assumes "udp_is e (Some p)" "int (length (ep_queue p)) < UDP_QSIZ"
  shows "0 \<le> udtail e" "udtail e < UDP_QSIZ"
    "udp_is (e\<lparr>udcount := udcount e + 1, udqueue := (udqueue e)(udtail e := x), udtail := wrap UDP_QSIZ (udtail e)\<rparr>)
       (Some (p\<lparr>ep_queue := ep_queue p @ [x]\<rparr>))"
proof -
  have r: "ring UDP_QSIZ (udqueue e) (udhead e) (udtail e) (ep_queue p)" using assms(1) by (simp add: udp_is_def)
  show "0 \<le> udtail e" "udtail e < UDP_QSIZ" using ringD(3,4)[OF r] .
  show "udp_is (e\<lparr>udcount := udcount e + 1, udqueue := (udqueue e)(udtail e := x), udtail := wrap UDP_QSIZ (udtail e)\<rparr>)
       (Some (p\<lparr>ep_queue := ep_queue p @ [x]\<rparr>))"
    using assms(1) ring_put[OF r assms(2)] by (simp add: udp_is_def)
qed

lemma udp_used: "udp_is e (Some p) \<Longrightarrow> udp_is (e\<lparr>udstate := EP_USED\<rparr>) (Some (p\<lparr>ep_wait := False\<rparr>))"
  by (simp add: udp_is_def)

theorem udp_in_delivers:
  assumes inv: "kinv s" and tab: "udp_table s T" and own: "net_own s fr {#x - 4#} T"
    and d: "deliver (pkts s x) x T = Some (i, T')"
  shows "\<exists>s' e. T i = Some e \<and> udp_in x s = Some s' \<and> kinv s' \<and> udp_table s' T' \<and> net_own s' fr {#} T' \<and> pkts s' = pkts s \<and>
    netbufpool s' = netbufpool s \<and> (\<not> ep_wait e \<longrightarrow> s' = s\<lparr>udptab := udptab s'\<rparr>) \<and>
    (ep_wait e \<longrightarrow> (\<exists>r t. send (udpid (udptab s i)) 1 t = Some (r, s') \<and> t = s\<lparr>udptab := udptab t\<rparr>))"
proof -
  have f: "first_slot (nat UDP_SLOTS) 0 (accepts T (pkts s x)) = Some i"
    "T' = T(i := map_option (\<lambda>e. e\<lparr>ep_queue := ep_queue e @ [x], ep_wait := False\<rparr>) (T i))"
    using d by (auto simp: deliver_def split: option.splits)
  from first_slot_Some[OF f(1)] obtain e where e: "0 \<le> i" "i < UDP_SLOTS" "T i = Some e" "int (length (ep_queue e)) < UDP_QSIZ"
    by (auto simp: accepts_def split: option.splits)
  let ?e = "udptab s i" and ?p = "e\<lparr>ep_queue := ep_queue e @ [x]\<rparr>"
  have is1: "udp_is ?e (Some e)" using udp_tableD[OF tab e(1,2)] e(3) by simp
  note P = udp_put_is[OF is1 e(4)]
  let ?f = "\<lambda>e. e\<lparr>udcount := udcount e + 1, udqueue := (udqueue e)(udtail ?e := x), udtail := wrap UDP_QSIZ (udtail ?e)\<rparr>"
  let ?s1 = "ud_upd i ?f s"
  have put: "udp_put i x s = Some ?s1" using P(1,2) by (simp add: udp_put_def Let_def)
  have is2: "udp_is (udptab ?s1 i) (Some ?p)" using P(3) by simp
  have st: "udstate (udptab ?s1 i) = EP_RECV \<longleftrightarrow> ep_wait e" using is1 by (auto simp: udp_is_def)
  have T': "T' = T(i := Some (?p\<lparr>ep_wait := False\<rparr>))" using f(2) e(3) by simp
  have own': "net_own s fr {#} T'"
    by (rule net_own_regroup[OF own]) (use held_upd[OF e(1,2), of T "Some (?p\<lparr>ep_wait := False\<rparr>)"] e(3) T' in \<open>simp add: headers_def\<close>)
  have slot: "first_slot (nat UDP_SLOTS) 0 (\<lambda>i. udp_match (udptab s i) (pkts s x) \<and> udcount (udptab s i) < UDP_QSIZ) = Some i"
    unfolding in_slot[OF tab] by (rule f(1))
  have same: "ud_upd j g t = t\<lparr>udptab := udptab (ud_upd j g t)\<rparr>" for j g and t :: "'a nstate_scheme"
    by (simp add: ud_upd_def)
  show ?thesis
  proof (cases "ep_wait e")
    case False
    have run: "udp_in x s = Some ?s1" using slot put st False by (simp add: udp_in_def)
    have "udp_is (?f ?e) (Some (?p\<lparr>ep_wait := False\<rparr>))" using is2 False by (simp add: udp_is_def)
    then have "udp_table ?s1 T'" unfolding T' by (rule udp_table_upd[OF tab])
    moreover have "net_own ?s1 fr {#} T'" "kinv ?s1" using own' inv by simp_all
    ultimately show ?thesis using run e(3) False same[of i ?f s] ud_upd_more(3,4)[of i ?f s] by blast
  next
    case True
    let ?s2 = "ud_upd i (\<lambda>e. e\<lparr>udstate := EP_USED\<rparr>) ?s1"
    obtain r s' where s': "send (udpid ?e) 1 ?s2 = Some (r, s')" "kinv s'"
      using send_inv[of ?s2 "udpid ?e" 1] inv by auto
    note u = send_untouched[OF s'(1), of "{}"] and n = net_fields[OF untouchedD(17)[OF send_untouched[OF s'(1), of "{}"]]]
    have run: "udp_in x s = Some s'" using slot put st True s'(1) by (simp add: udp_in_def)
    have "udp_table ?s1 (T(i := Some ?p))" using is2 by (intro udp_table_upd[OF tab]) simp
    then have "udp_table ?s2 ((T(i := Some ?p))(i := Some (?p\<lparr>ep_wait := False\<rparr>)))" by (rule udp_table_upd) (rule udp_used[OF is2])
    then have "udp_table ?s2 T'" unfolding T' by simp
    then have "udp_table s' T'" using udp_table_same[OF n(1)] by blast
    moreover have "net_own s' fr {#} T'" using net_own_untouched[OF u] own' by simp
    moreover have "?s2 = s\<lparr>udptab := udptab ?s2\<rparr>" by (simp add: ud_upd_def)
    then have "\<exists>r t. send (udpid ?e) 1 t = Some (r, s') \<and> t = s\<lparr>udptab := udptab t\<rparr>" using s'(1) by blast
    moreover have "pkts s' = pkts s" "netbufpool s' = netbufpool s" using n by simp_all
    ultimately show ?thesis using run s'(2) e(3) True by blast
  qed
qed

theorem udp_in_discards:
  assumes inv: "kinv s" and tab: "udp_table s T" and own: "net_own s fr {#x - 4#} T" and room: "length fr + 1 < 2 ^ 30"
    and d: "deliver (pkts s x) x T = None"
  shows "\<exists>s'. udp_in x s = Some s' \<and> kinv s' \<and> udp_table s' T \<and> net_own s' ((x - 4) # fr) {#} T \<and>
    kstate.more s' = kstate.more s \<and>
    bpsem (buftab s' (netbufpool s)) = bpsem (buftab s (netbufpool s)) \<and>
    scount (semtab s' (bpsem (buftab s (netbufpool s)))) = scount (semtab s (bpsem (buftab s (netbufpool s)))) + 1"
proof -
  have f: "first_slot (nat UDP_SLOTS) 0 (accepts T (pkts s x)) = None"
    using d by (auto simp: deliver_def split: option.splits)
  have slot: "first_slot (nat UDP_SLOTS) 0 (\<lambda>i. udp_match (udptab s i) (pkts s x) \<and> udcount (udptab s i) < UDP_QSIZ) = None"
    unfolding in_slot[OF tab] by (rule f)
  obtain s' where s': "freebuf x s = Some (OK, s')" "kinv s'" "net_own s' ((x - 4) # fr) {#} T" "kstate.more s' = kstate.more s"
    "bpsem (buftab s' (netbufpool s)) = bpsem (buftab s (netbufpool s))"
    "scount (semtab s' (bpsem (buftab s (netbufpool s)))) = scount (semtab s (bpsem (buftab s (netbufpool s)))) + 1"
    using freebuf_net[of s fr "{#}" x T] inv own room by auto
  then show ?thesis using slot udp_table_same[OF net_fields(1)[OF s'(4)], of T] tab by (auto simp: udp_in_def)
qed

section \<open>Receiving\<close>

text \<open>The first packet of a queue is taken off.\<close>

lemma udp_dequeue_is:
  assumes tab: "udp_table s T" and i: "0 \<le> i" "i < UDP_SLOTS" and e: "T i = Some e" "ep_queue e = x # xs"
  shows "\<exists>s'. udp_dequeue i s = Some (x, s') \<and> udp_table s' (T(i := Some (e\<lparr>ep_queue := xs\<rparr>))) \<and>
    s' = s\<lparr>udptab := udptab s'\<rparr> \<and> (\<exists>f. s' = ud_upd i f s)"
proof -
  let ?e = "udptab s i"
  have is1: "udp_is ?e (Some e)" using udp_tableD[OF tab i] e(1) by simp
  then have r: "ring UDP_QSIZ (udqueue ?e) (udhead ?e) (udtail ?e) (x # xs)" using e(2) by (simp add: udp_is_def)
  let ?f = "\<lambda>e. e\<lparr>udhead := wrap UDP_QSIZ (udhead ?e), udcount := udcount e - 1\<rparr>"
  have "udp_is (?f ?e) (Some (e\<lparr>ep_queue := xs\<rparr>))" using is1 ring_get(2)[OF r] e(2) by (simp add: udp_is_def)
  then have "udp_table (ud_upd i ?f s) (T(i := Some (e\<lparr>ep_queue := xs\<rparr>)))" by (rule udp_table_upd[OF tab])
  moreover have "udp_dequeue i s = Some (x, ud_upd i ?f s)"
    using ringD(1,2)[OF r] ring_get(1)[OF r] by (simp add: udp_dequeue_def Let_def)
  moreover have "ud_upd i ?f s = s\<lparr>udptab := udptab (ud_upd i ?f s)\<rparr>" by (simp add: ud_upd_def)
  ultimately show ?thesis by blast
qed

lemma held_pop:
  assumes i: "0 \<le> i" "i < UDP_SLOTS" and e: "T i = Some e" "ep_queue e = x # xs"
  shows "{#x - 4#} + held (T(i := Some (e\<lparr>ep_queue := xs\<rparr>))) = held T"
proof -
  have "{#x - 4#} + held (T(i := Some (e\<lparr>ep_queue := xs\<rparr>))) + headers (T i) =
      held T + ({#x - 4#} + headers (Some (e\<lparr>ep_queue := xs\<rparr>)))"
    using held_upd[OF i, of T "Some (e\<lparr>ep_queue := xs\<rparr>)"] by simp
  also have "{#x - 4#} + headers (Some (e\<lparr>ep_queue := xs\<rparr>)) = headers (T i)" using e by (simp add: headers_def)
  finally show ?thesis by (rule add_right_imp_eq)
qed

text \<open>The bytes fit the buffer: the length in the packet is what the sender wrote, the receiver only bounds it by its own.\<close>

lemma copy_out_payload:
  assumes "min len (uint (get16 p net_udplen) - 8) \<le> 1472"
  shows "copy_out p net_udpdata (fst (payload p len)) = Some (snd (payload p len))"
  using assms by (auto simp: copy_out_def payload_def Let_def)

theorem udp_take_first:
  assumes inv: "kinv s" and tab: "udp_table s T" and own: "net_own s fr {#} T" and room: "length fr + 1 < 2 ^ 30"
    and i: "0 \<le> i" "i < UDP_SLOTS" and e: "T i = Some e" "ep_queue e = x # xs"
    and fits: "min len (uint (get16 (pkts s x) net_udplen) - 8) \<le> 1472"
  shows "\<exists>s'. udp_take i len s = Some (payload (pkts s x) len, s') \<and>
    udp_takeaddr i len s = Some ((fst (payload (pkts s x) len),
      Some (get32 (pkts s x) net_ipsrc, get16 (pkts s x) net_udpsport), snd (payload (pkts s x) len)), s') \<and>
    kinv s' \<and> udp_table s' (T(i := Some (e\<lparr>ep_queue := xs\<rparr>))) \<and>
    net_own s' ((x - 4) # fr) {#} (T(i := Some (e\<lparr>ep_queue := xs\<rparr>))) \<and> pkts s' = pkts s \<and> netbufpool s' = netbufpool s \<and>
    bpsem (buftab s' (netbufpool s)) = bpsem (buftab s (netbufpool s)) \<and>
    scount (semtab s' (bpsem (buftab s (netbufpool s)))) = scount (semtab s (bpsem (buftab s (netbufpool s)))) + 1"
proof -
  let ?T = "T(i := Some (e\<lparr>ep_queue := xs\<rparr>))"
  obtain s1 f where s1: "udp_dequeue i s = Some (x, s1)" "udp_table s1 ?T" "s1 = ud_upd i f s"
    using udp_dequeue_is[of s T i e x xs] tab i e by blast
  have "net_own s fr ({#} + {#x - 4#}) ?T"
    by (rule net_own_regroup[OF own]) (use held_pop[of i T e x xs] i e in simp)
  then have own1: "net_own s1 fr ({#} + {#x - 4#}) ?T" using s1(3) by simp
  have inv1: "kinv s1" using inv s1(3) by simp
  obtain s' where s': "freebuf x s1 = Some (OK, s')" "kinv s'" "net_own s' ((x - 4) # fr) {#} ?T" "kstate.more s' = kstate.more s1"
    "bpsem (buftab s' (netbufpool s1)) = bpsem (buftab s1 (netbufpool s1))"
    "scount (semtab s' (bpsem (buftab s1 (netbufpool s1)))) = scount (semtab s1 (bpsem (buftab s1 (netbufpool s1)))) + 1"
    using freebuf_net[OF inv1 own1 room] by blast
  have p1: "pkts s1 = pkts s" "netbufpool s1 = netbufpool s" "buftab s1 = buftab s" "semtab s1 = semtab s" using s1(3) by simp_all
  note n = net_fields[OF s'(4)]
  have c: "copy_out (pkts s x) net_udpdata (fst (payload (pkts s x) len)) = Some (snd (payload (pkts s x) len))"
    by (rule copy_out_payload[OF fits])
  have m: "(if len < uint (get16 (pkts s x) net_udplen) - 8 then len else uint (get16 (pkts s x) net_udplen) - 8) = fst (payload (pkts s x) len)"
    by (simp add: payload_def Let_def min_def)
  have "udp_take i len s = Some (payload (pkts s x) len, s')"
    unfolding udp_take_def Let_def s1(1) by (simp only: bind.bind_lunit prod.case p1 m c s'(1) prod.collapse)
  moreover have "udp_takeaddr i len s = Some ((fst (payload (pkts s x) len),
      Some (get32 (pkts s x) net_ipsrc, get16 (pkts s x) net_udpsport), snd (payload (pkts s x) len)), s')"
    unfolding udp_takeaddr_def Let_def s1(1) by (simp only: bind.bind_lunit prod.case p1 m c s'(1) prod.collapse)
  moreover have "udp_table s' ?T" using s1(2) udp_table_same[OF n(1)] by blast
  ultimately show ?thesis using s' n p1 by auto
qed

text \<open>Waiting: the entry records the process, which sleeps until a message or the timeout.\<close>

lemma udp_await_blocks:
  assumes inv: "kinv s" and cur: "currpid s \<noteq> NULLPROC" "pkont s (currpid s) \<noteq> Some K_receive" and w: "0 \<le> sint timeout"
    and tab: "udp_table s T" and i: "0 \<le> i" "i < UDP_SLOTS" and e: "T i = Some e"
  shows "\<exists>s'. udp_await i k timeout s = Some (Pending, s') \<and> kinv s' \<and> udp_table s' (T(i := Some (e\<lparr>ep_wait := True\<rparr>))) \<and>
    udpid (udptab s' i) = currpid s \<and> prstate (proctab s' (currpid s)) = PR_RECTIM \<and> nkont s' (currpid s) = Some k \<and>
    pkont s' (currpid s) = Some K_recvtime \<and> pkts s' = pkts s"
proof -
  let ?s1 = "ud_upd i (\<lambda>e. e\<lparr>udstate := EP_RECV, udpid := currpid s\<rparr>) s"
  have "udp_is ((udptab s i)\<lparr>udstate := EP_RECV, udpid := currpid s\<rparr>) (Some (e\<lparr>ep_wait := True\<rparr>))"
    using udp_tableD[OF tab i] e by (simp add: udp_is_def)
  then have t1: "udp_table ?s1 (T(i := Some (e\<lparr>ep_wait := True\<rparr>)))" by (rule udp_table_upd[OF tab])
  obtain m s2 where s2: "recvclr ?s1 = Some (m, s2)" "kinv s2" "\<not> prhasmsg (proctab s2 (currpid s))" "currpid s2 = currpid s"
    using recvclr_inv[of ?s1] inv cur(2) by auto
  have u2: "untouched {} ?s1 s2" using s2(1)
    by (auto simp: recvclr_def bind_eq_Some_conv split: if_split_asm dest!: pr_upd_untouched)
  have lt: "sint timeout < 2 ^ 31" using sint_lt[of timeout] by simp
  let ?s2 = "stopping k s2"
  have pre: "kinv ?s2" "currpid ?s2 \<noteq> NULLPROC" "\<not> prhasmsg (proctab ?s2 (currpid ?s2))" using s2 cur(1) by simp_all
  obtain s' where s': "recvtime (sint timeout) ?s2 = Some (Pending, s')" "kinv s'" "prstate (proctab s' (currpid s)) = PR_RECTIM"
    "pkont s' (currpid s) = Some K_recvtime"
    using recvtime_block[OF pre w lt] s2(4) by auto
  have m': "kstate.more s' = kstate.more ?s2" by (rule recvtime_more[OF s'(1)])
  note n = net_fields[OF m'] and n2 = net_fields[OF untouchedD(17)[OF u2]]
  have "udptab s' = udptab ?s1" using n(1) n2(1) by simp
  then show ?thesis using s2(1) s'  n n2 s2(4) t1 udp_table_same[of s' ?s1] by (auto simp: udp_await_def)
qed

end
