(* ===== verification/Net_Arp.thy ===== *)
theory Net_Arp
  imports Net_Udp_Spec
begin

text \<open>
  Address resolution (\<^verbatim>\<open>net/arp.c\<close>): the cache, incoming requests and replies, and the resolution of an address, which
  sends requests and waits for the answer. The Ethernet device is reached through the generated device switch, so
  writing a frame is a parameter \<open>ether\<close>; it is taken to return in the calling process. \<open>arp_in\<close> may give up the
  processor when it notifies the waiting process; the code behind that is \<open>arp_in_rest\<close>. What \<^verbatim>\<open>kprintf\<close> prints is left out.
\<close>

section \<open>Packets\<close>

abbreviation (input) arp_ethdst :: nat where "arp_ethdst \<equiv> 0"
abbreviation (input) arp_ethsrc :: nat where "arp_ethsrc \<equiv> 6"
abbreviation (input) arp_htype :: nat where "arp_htype \<equiv> 14"
abbreviation (input) arp_ptype :: nat where "arp_ptype \<equiv> 16"
abbreviation (input) arp_hlen :: nat where "arp_hlen \<equiv> 18"
abbreviation (input) arp_plen :: nat where "arp_plen \<equiv> 19"
abbreviation (input) arp_op :: nat where "arp_op \<equiv> 20"
abbreviation (input) arp_sndha :: nat where "arp_sndha \<equiv> 22"
abbreviation (input) arp_sndpa :: nat where "arp_sndpa \<equiv> 28"
abbreviation (input) arp_tarha :: nat where "arp_tarha \<equiv> 32"
abbreviation (input) arp_tarpa :: nat where "arp_tarpa \<equiv> 38"
abbreviation (input) ARP_LEN :: int where "ARP_LEN \<equiv> 42"

definition arp_ntoh :: "packet \<Rightarrow> packet" where
  "arp_ntoh p = conv32 arp_tarpa (conv32 arp_sndpa (conv16 arp_op (conv16 arp_ptype (conv16 arp_htype p))))"

definition arp_hton :: "packet \<Rightarrow> packet" where
  "arp_hton p = conv32 arp_tarpa (conv32 arp_sndpa (conv16 arp_op (conv16 arp_ptype (conv16 arp_htype p))))"

definition arp_frame :: "network \<Rightarrow> byte list \<Rightarrow> uint16 \<Rightarrow> byte list \<Rightarrow> uint32 \<Rightarrow> packet \<Rightarrow> packet" where
  "arp_frame nd ethdst op tarha tarpa p =
     (let p = put_bytes arp_ethdst ethdst p;
          p = put_bytes arp_ethsrc (ethucast nd) p;
          p = put16 p net_ethtype 0x0806;
          p = put16 p arp_htype 1;
          p = put16 p arp_ptype 0x0800;
          p = p(arp_hlen := 6, arp_plen := 4);
          p = put16 p arp_op op;
          p = put_bytes arp_sndha (ethucast nd) p;
          p = put32 p arp_sndpa (ipucast nd);
          p = put_bytes arp_tarha tarha p;
          p = put32 p arp_tarpa tarpa
      in eth_hton (arp_hton p))"

text \<open>The request and the reply, made in a buffer on the stack.\<close>

definition arp_request :: "network \<Rightarrow> uint32 \<Rightarrow> packet" where
  "arp_request nd nxthop = arp_frame nd (ethbcast nd) 1 (replicate 6 0) nxthop (\<lambda>_. 0)"

definition arp_reply :: "network \<Rightarrow> packet \<Rightarrow> packet" where
  "arp_reply nd p = arp_frame nd (get_bytes p arp_sndha 6) 2 (get_bytes p arp_sndha 6) (get32 p arp_sndpa) (\<lambda>_. 0)"

section \<open>Operations\<close>

definition ar_upd :: "int \<Rightarrow> (arpentry \<Rightarrow> arpentry) \<Rightarrow> 'z nstate_scheme \<Rightarrow> 'z nstate_scheme" where
  "ar_upd i f s = s\<lparr>arpcache := (arpcache s)(i := f (arpcache s i))\<rparr>"

definition arp_init :: "'z nstate_scheme \<Rightarrow> 'z nstate_scheme" where
  "arp_init s = s\<lparr>arpcache := (\<lambda>i. if 1 \<le> i \<and> i < ARP_SIZ then (arpcache s i)\<lparr>arstate := AR_FREE\<rparr> else arpcache s i)\<rparr>"

definition arp_lookup :: "uint32 \<Rightarrow> 'z nstate_scheme \<Rightarrow> int option" where
  "arp_lookup ip s = first_slot (nat ARP_SIZ) 0 (\<lambda>i. arstate (arpcache s i) \<noteq> AR_FREE \<and> arpaddr (arpcache s i) = ip)"

text \<open>\<^verbatim>\<open>memset\<close> leaves zeros: \<^verbatim>\<open>AR_FREE\<close> is zero.\<close>

definition arp_alloc :: "'z nstate_scheme \<Rightarrow> int \<times> 'z nstate_scheme" where
  "arp_alloc s =
     (let clear = (\<lambda>_. \<lparr>arstate = AR_FREE, arpaddr = 0, arpid = 0, arhaddr = replicate 6 0\<rparr>) in
      case first_slot (nat ARP_SIZ) 0 (\<lambda>i. arstate (arpcache s i) = AR_FREE) of
        Some slot \<Rightarrow> (slot, ar_upd slot clear s)
      | None \<Rightarrow> (case first_slot (nat ARP_SIZ) 0 (\<lambda>i. arstate (arpcache s i) = AR_RESOLVED) of
          Some slot \<Rightarrow> (slot, ar_upd slot clear s)
        | None \<Rightarrow> (SYSERR, s)))"

type_synonym 's ether = "packet \<Rightarrow> int \<Rightarrow> 's \<Rightarrow> (int \<times> 's) option"

definition drop_packet :: "uint32 \<Rightarrow> 'z nstate_scheme \<Rightarrow> (unit outcome \<times> 'z nstate_scheme) option" where
  "drop_packet pktptr s = do { (_, s) \<leftarrow> freebuf pktptr s; Some (Done (), s) }"

definition arp_in_rest :: "'z nstate_scheme ether \<Rightarrow> uint32 \<Rightarrow> int option \<Rightarrow> 'z nstate_scheme \<Rightarrow> (unit outcome \<times> 'z nstate_scheme) option" where
  "arp_in_rest ether pktptr found s =
     (let p = pkts s pktptr in
      if get16 p arp_op = 2 then drop_packet pktptr s
      else if \<not> ipvalid (netdata s) \<or> get32 p arp_tarpa \<noteq> ipucast (netdata s) then drop_packet pktptr s
      else
        let (slot, s) = (case found of Some slot \<Rightarrow> (slot, s)
          | None \<Rightarrow> (let (slot, s) = arp_alloc s in
              (slot, if slot = SYSERR then s
                     else ar_upd slot (\<lambda>e. e\<lparr>arpaddr := get32 p arp_sndpa, arhaddr := get_bytes p arp_sndha 6, arstate := AR_RESOLVED\<rparr>) s))) in
        if slot = SYSERR then drop_packet pktptr s
        else do {
          (_, s) \<leftarrow> ether (arp_reply (netdata s) p) ARP_LEN s;
          drop_packet pktptr s })"

definition arp_in :: "'z nstate_scheme ether \<Rightarrow> uint32 \<Rightarrow> 'z nstate_scheme \<Rightarrow> (unit outcome \<times> 'z nstate_scheme) option" where
  "arp_in ether pktptr s =
     (let p = arp_ntoh (pkts s pktptr);
          s = s\<lparr>pkts := (pkts s)(pktptr := p)\<rparr> in
      if get16 p arp_htype \<noteq> 1 \<or> get16 p arp_ptype \<noteq> 0x0800 then drop_packet pktptr s
      else (case arp_lookup (get32 p arp_sndpa) s of
          None \<Rightarrow> arp_in_rest ether pktptr None s
        | Some slot \<Rightarrow>
            (let s = ar_upd slot (\<lambda>e. e\<lparr>arhaddr := get_bytes p arp_sndha 6\<rparr>) s in
             if arstate (arpcache s slot) = AR_PENDING
             then do {
               let s = ar_upd slot (\<lambda>e. e\<lparr>arstate := AR_RESOLVED\<rparr>) s;
               (_, s) \<leftarrow> send (arpid (arpcache s slot)) 1 (s\<lparr>nkont := (nkont s)(currpid s := Some (N_arp_in pktptr (Some slot)))\<rparr>);
               Some (Pending, s) }
             else arp_in_rest ether pktptr (Some slot) s)))"

text \<open>What a message says while an answer is awaited: no answer yet, a failure, or the answer.\<close>

definition arp_answer :: "int \<Rightarrow> uint32 \<Rightarrow> ('z nstate_scheme \<Rightarrow> ((int \<times> byte list) outcome \<times> 'z nstate_scheme) option) \<Rightarrow>
    'z nstate_scheme \<Rightarrow> ((int \<times> byte list) outcome \<times> 'z nstate_scheme) option" where
  "arp_answer slot msg again s =
     (if msg = - 3 then again s
      else if msg = - 1 then Some (Done (SYSERR, []), s)
      else Some (Done (OK, arhaddr (arpcache s slot)), s))"

fun arp_tries :: "'z nstate_scheme ether \<Rightarrow> nat \<Rightarrow> int \<Rightarrow> packet \<Rightarrow> arp_user \<Rightarrow> 'z nstate_scheme \<Rightarrow>
    ((int \<times> byte list) outcome \<times> 'z nstate_scheme) option" where
  "arp_tries ether 0 slot apkt user s = Some (Done (TIMEOUT, []), ar_upd slot (\<lambda>e. e\<lparr>arstate := AR_FREE\<rparr>) s)"
| "arp_tries ether (Suc n) slot apkt user s =
     (case ether apkt ARP_LEN s of
        None \<Rightarrow> None
      | Some (_, s) \<Rightarrow>
         (case recvtime 300 (s\<lparr>nkont := (nkont s)(currpid s := Some (N_arp n slot apkt user))\<rparr>) of
            None \<Rightarrow> None
          | Some (Pending, s) \<Rightarrow> Some (Pending, s)
          | Some (Done msg, s) \<Rightarrow> arp_answer slot msg (arp_tries ether n slot apkt user) s))"

definition arp_resolve_rest :: "'z nstate_scheme ether \<Rightarrow> nat \<Rightarrow> int \<Rightarrow> packet \<Rightarrow> arp_user \<Rightarrow> 'z nstate_scheme \<Rightarrow>
    ((int \<times> byte list) outcome \<times> 'z nstate_scheme) option" where
  "arp_resolve_rest ether n slot apkt user s = do {
     (msg, s) \<leftarrow> recvtime_rest s;
     arp_answer slot msg (arp_tries ether n slot apkt user) s }"

definition arp_resolve :: "'z nstate_scheme ether \<Rightarrow> uint32 \<Rightarrow> arp_user \<Rightarrow> 'z nstate_scheme \<Rightarrow>
    ((int \<times> byte list) outcome \<times> 'z nstate_scheme) option" where
  "arp_resolve ether nxthop user s =
     (if nxthop = 0xFFFFFFFF then Some (Done (OK, ethbcast (netdata s)), s)
      else if nxthop = ipbcast (netdata s) then Some (Done (OK, ethbcast (netdata s)), s)
      else (case map_option (\<lambda>i. arpcache s i) (arp_lookup nxthop s) of
          Some e \<Rightarrow> Some (Done (if arstate e = AR_RESOLVED then (OK, arhaddr e) else (SYSERR, [])), s)
        | None \<Rightarrow>
           (let (slot, s) = arp_alloc s in
            if slot = SYSERR then Some (Done (SYSERR, []), s)
            else do {
              let s = ar_upd slot (\<lambda>e. e\<lparr>arstate := AR_PENDING, arpaddr := nxthop, arpid := currpid s\<rparr>) s;
              let apkt = arp_request (netdata s) nxthop;
              (_, s) \<leftarrow> recvclr s;
              arp_tries ether 3 slot apkt user s })))"

end
