(* ===== verification/Net_Icmp.thy ===== *)
theory Net_Icmp
  imports Net_Arp
begin

unbundle bit_operations_syntax

text \<open>
  ICMP echo messages (\<^verbatim>\<open>net/icmp.c\<close>) and the output queue that replies go to (\<^verbatim>\<open>ip_enqueue\<close>). A request is answered through a
  buffer of its own; a reply is queued at the endpoint its identifier names. Two behaviours of the code are kept as they
  are: \<open>icmp_in\<close> does not look at how many packets are queued, and the head of a queue wraps at the number of
  endpoints (10) and not at the size of the queue (8).
\<close>

definition ic_upd :: "int \<Rightarrow> (icmpentry \<Rightarrow> icmpentry) \<Rightarrow> 'z nstate_scheme \<Rightarrow> 'z nstate_scheme" where
  "ic_upd i f s = s\<lparr>icmptab := (icmptab s)(i := f (icmptab s i))\<rparr>"

definition icmp_init :: "'z nstate_scheme \<Rightarrow> 'z nstate_scheme" where
  "icmp_init s = s\<lparr>icmptab := (\<lambda>i. if 0 \<le> i \<and> i < ICMP_SLOTS then (icmptab s i)\<lparr>icstate := EP_FREE\<rparr> else icmptab s i)\<rparr>"

section \<open>Making a message\<close>

definition icmp_fill :: "network \<Rightarrow> uint16 \<Rightarrow> uint32 \<Rightarrow> uint16 \<Rightarrow> uint16 \<Rightarrow> uint16 \<Rightarrow> byte list \<Rightarrow> int \<Rightarrow> packet \<Rightarrow> packet" where
  "icmp_fill nd ipid remip ty ident seq data len p =
     (let p = put_bytes arp_ethsrc (ethucast nd) p;
          p = put16 p net_ethtype 0x800;
          p = p(net_ipvh := 0x45, net_iptos := 0);
          p = put16 p net_iplen (word_of_int (28 + len));
          p = put16 p net_ipid ipid;
          p = put16 p net_ipfrag 0;
          p = p(net_ipttl := 0xFF, net_ipproto := 1);
          p = put16 p net_ipcksum 0;
          p = put32 p net_ipsrc (ipucast nd);
          p = put32 p net_ipdst remip;
          p = p(net_ictype := ucast ty, net_iccode := 0);
          p = put16 p net_iccksum 0;
          p = put16 p net_icident ident;
          p = put16 p net_icseq seq
      in put_bytes net_icdata data p)"

text \<open>\<open>icmp_mkpkt\<close> behind the call of \<open>getbuf\<close>. The length given to \<^verbatim>\<open>memcpy\<close> must fit the packet and the data;
  the library's \<^verbatim>\<open>memcpy\<close> copies nothing when it is negative.\<close>

definition icmp_mkpkt_rest :: "uint32 \<Rightarrow> uint16 \<Rightarrow> uint16 \<Rightarrow> uint16 \<Rightarrow> byte list \<Rightarrow> int \<Rightarrow> 'z nstate_scheme \<Rightarrow> (uint32 \<times> 'z nstate_scheme) option" where
  "icmp_mkpkt_rest remip ty ident seq buf len s = do {
     (pkt, s) \<leftarrow> getbuf_rest (netbufpool s) s;
     if nat len > length buf \<or> nat len > 1472 then None
     else Some (pkt, s\<lparr>pkts := (pkts s)(pkt := icmp_fill (netdata s) (ucast (ipident s)) remip ty ident seq (take (nat len) buf) len (pkts s pkt)),
       ipident := ipident s + 1\<rparr>) }"

section \<open>The output queue\<close>

definition ip_enqueue :: "uint32 \<Rightarrow> 'z nstate_scheme \<Rightarrow> (int \<times> 'z nstate_scheme) option" where
  "ip_enqueue pktptr s =
     (let q = ipoqueue s in
      if semcount (iqsem q) s \<ge> 8 then do { (_, s) \<leftarrow> freebuf pktptr s; Some (SYSERR, s) }
      else if iqtail q < 0 \<or> iqtail q \<ge> 8 then None
      else do {
        (_, s) \<leftarrow> signal (iqsem q) (s\<lparr>ipoqueue := q\<lparr>iqbuf := (iqbuf q)(iqtail q := pktptr), iqtail := wrap 8 (iqtail q)\<rparr>\<rparr>);
        Some (OK, s) })"

section \<open>Incoming messages\<close>

text \<open>An echo request waits for a buffer (\<open>icmp_echo\<close>), and enqueueing the reply may switch to the output process
  (\<open>icmp_echo_rest\<close>) before the request's own buffer is returned.\<close>

definition icmp_echo :: "uint32 \<Rightarrow> 'z nstate_scheme \<Rightarrow> (unit outcome \<times> 'z nstate_scheme) option" where
  "icmp_echo pkt s = do {
     (r, s) \<leftarrow> getbuf (netbufpool s) (s\<lparr>nkont := (nkont s)(currpid s := Some (N_echo pkt))\<rparr>);
     (case r of Pending \<Rightarrow> Some (Pending, s) | Done _ \<Rightarrow> Some (Pending, s\<lparr>halted := True\<rparr>)) }"

definition icmp_echo_rest :: "uint32 \<Rightarrow> 'z nstate_scheme \<Rightarrow> (unit outcome \<times> 'z nstate_scheme) option" where
  "icmp_echo_rest pkt s = do {
     let p = pkts s pkt;
     (replypkt, s) \<leftarrow> icmp_mkpkt_rest (get32 p net_ipsrc) 0 (get16 p net_icident) (get16 p net_icseq)
        (get_bytes p net_icdata 1472) (uint (get16 p net_iplen) - 28) s;
     (_, s) \<leftarrow> ip_enqueue replypkt (s\<lparr>nkont := (nkont s)(currpid s := Some (N_echo_free pkt))\<rparr>);
     Some (Pending, s) }"

definition icmp_in :: "uint32 \<Rightarrow> 'z nstate_scheme \<Rightarrow> (unit outcome \<times> 'z nstate_scheme) option" where
  "icmp_in pkt s =
     (let p = pkts s pkt in
      if p net_ictype \<noteq> 0 \<and> p net_ictype \<noteq> 8 then drop_packet pkt s
      else if p net_ictype = 8 then icmp_echo pkt s
      else
        let slot = uint (get16 p net_icident) in
        if slot < 0 \<or> slot \<ge> ICMP_SLOTS then drop_packet pkt s
        else if icstate (icmptab s slot) = EP_FREE \<or> get32 p net_ipsrc \<noteq> icremip (icmptab s slot) then drop_packet pkt s
        else
          let t = ictail (icmptab s slot) in
          if t < 0 \<or> t \<ge> ICMP_QSIZ then None
          else
            let s = ic_upd slot (\<lambda>e. e\<lparr>iccount := iccount e + 1, icqueue := (icqueue e)(t := pkt), ictail := wrap ICMP_QSIZ t\<rparr>) s in
            if icstate (icmptab s slot) = EP_RECV
            then do {
              let s = ic_upd slot (\<lambda>e. e\<lparr>icstate := EP_USED\<rparr>) s;
              (_, s) \<leftarrow> send (icpid (icmptab s slot)) 1 s;
              Some (Done (), s) }
            else Some (Done (), s))"

section \<open>Endpoints\<close>

definition icmp_register :: "uint32 \<Rightarrow> 'z nstate_scheme \<Rightarrow> int \<times> 'z nstate_scheme" where
  "icmp_register remip s =
     (case first_slot (nat ICMP_SLOTS) 0 (\<lambda>i. icstate (icmptab s i) \<noteq> EP_FREE \<and> icremip (icmptab s i) = remip) of
        Some _ \<Rightarrow> (SYSERR, s)
      | None \<Rightarrow>
         (case first_slot (nat ICMP_SLOTS) 0 (\<lambda>i. icstate (icmptab s i) = EP_FREE) of
            None \<Rightarrow> (SYSERR, s)
          | Some slot \<Rightarrow> (slot, ic_upd slot (\<lambda>e. e\<lparr>icstate := EP_USED, icremip := remip, iccount := 0, ichead := 0, ictail := 0, icpid := - 1\<rparr>) s)))"

definition ic_dequeue :: "int \<Rightarrow> 'z nstate_scheme \<Rightarrow> (uint32 \<times> 'z nstate_scheme) option" where
  "ic_dequeue i s =
     (let h = ichead (icmptab s i) in
      if h < 0 \<or> h \<ge> ICMP_QSIZ then None
      else Some (icqueue (icmptab s i) h, ic_upd i (\<lambda>e. e\<lparr>ichead := wrap ICMP_SLOTS h, iccount := iccount e - 1\<rparr>) s))"

definition icmp_take :: "int \<Rightarrow> int \<Rightarrow> 'z nstate_scheme \<Rightarrow> ((int \<times> byte list) \<times> 'z nstate_scheme) option" where
  "icmp_take i len s = do {
     (pkt, s) \<leftarrow> ic_dequeue i s;
     let datalen = uint (get16 (pkts s pkt) net_iplen) - 28;
     let n = max 0 (min datalen len);
     data \<leftarrow> copy_out (pkts s pkt) net_icdata n;
     (_, s) \<leftarrow> freebuf pkt s;
     Some ((n, data), s) }"

definition icmp_recv_rest :: "int \<Rightarrow> int \<Rightarrow> uint32 \<Rightarrow> 'z nstate_scheme \<Rightarrow> ((int \<times> byte list) \<times> 'z nstate_scheme) option" where
  "icmp_recv_rest i len msg s =
     (let s = ic_upd i (\<lambda>e. e\<lparr>icstate := EP_USED\<rparr>) s in
      if msg = - 3 then Some ((TIMEOUT, []), s)
      else if msg \<noteq> 1 then Some ((SYSERR, []), s)
      else icmp_take i len s)"

definition icmp_recv :: "int \<Rightarrow> int \<Rightarrow> uint32 \<Rightarrow> 'z nstate_scheme \<Rightarrow> ((int \<times> byte list) outcome \<times> 'z nstate_scheme) option" where
  "icmp_recv icmpid len timeout s =
     (if icmpid < 0 \<or> icmpid \<ge> ICMP_SLOTS then Some (Done (SYSERR, []), s)
      else if icstate (icmptab s icmpid) \<noteq> EP_USED then Some (Done (SYSERR, []), s)
      else if iccount (icmptab s icmpid) = 0 then do {
        let s = ic_upd icmpid (\<lambda>e. e\<lparr>icstate := EP_RECV, icpid := currpid s\<rparr>) s;
        (_, s) \<leftarrow> recvclr s;
        (r, s) \<leftarrow> recvtime (sint timeout) (stopping (N_icmp_recv icmpid len) s);
        (case r of Done msg \<Rightarrow> finish (icmp_recv_rest icmpid len msg s) | Pending \<Rightarrow> Some (Pending, s)) }
      else finish (icmp_take icmpid len s))"

fun icmp_drain :: "nat \<Rightarrow> int \<Rightarrow> 'z nstate_scheme \<Rightarrow> 'z nstate_scheme option" where
  "icmp_drain 0 i s = Some s"
| "icmp_drain (Suc n) i s = (case ic_dequeue i s of None \<Rightarrow> None | Some (pkt, s) \<Rightarrow>
     (case freebuf pkt s of None \<Rightarrow> None | Some (_, s) \<Rightarrow> icmp_drain n i s))"

definition icmp_release :: "int \<Rightarrow> 'z nstate_scheme \<Rightarrow> (int \<times> 'z nstate_scheme) option" where
  "icmp_release icmpid s =
     (if icmpid < 0 \<or> icmpid \<ge> ICMP_SLOTS then Some (SYSERR, s)
      else if icstate (icmptab s icmpid) \<noteq> EP_USED then Some (SYSERR, s)
      else do {
        (_, s) \<leftarrow> resched_cntl DEFER_START s;
        s \<leftarrow> icmp_drain (nat (iccount (icmptab s icmpid))) icmpid s;
        let s = ic_upd icmpid (\<lambda>e. e\<lparr>icstate := EP_FREE\<rparr>) s;
        (_, s) \<leftarrow> resched_cntl DEFER_STOP s;
        Some (OK, s) })"

section \<open>What goes wrong\<close>

text \<open>A reply that arrives and is received moves the tail to \<open>(k + 1) mod 8\<close> but the head to \<open>k + 1\<close>.\<close>

definition icmp_at :: "int \<Rightarrow> int \<Rightarrow> 'z nstate_scheme \<Rightarrow> bool" where
  "icmp_at i k s \<longleftrightarrow> icstate (icmptab s i) = EP_USED \<and> ichead (icmptab s i) = k \<and> ictail (icmptab s i) = k mod 8 \<and> iccount (icmptab s i) = 0"

text \<open>The queued packets are not counted against the queue: in a full queue the oldest is overwritten.\<close>

lemma icmp_in_overruns:
  assumes p: "p = pkts s x" "p net_ictype = 0" "uint (get16 p net_icident) = i" "i < ICMP_SLOTS"
    and e: "icstate (icmptab s i) = EP_USED" "get32 p net_ipsrc = icremip (icmptab s i)"
    and q: "ring ICMP_QSIZ (icqueue (icmptab s i)) (ichead (icmptab s i)) (ictail (icmptab s i)) xs" "length xs = 8"
      "iccount (icmptab s i) = 8"
  shows "\<exists>s'. icmp_in x s = Some (Done (), s') \<and> iccount (icmptab s' i) = 9 \<and>
    icqueue (icmptab s' i) (ichead (icmptab s' i)) = x \<and> s' = s\<lparr>icmptab := icmptab s'\<rparr>"
proof -
  note R = ringD[OF q(1)]
  have "ictail (icmptab s i) = ichead (icmptab s i)" using R(1,2,6) q(2) by simp
  then show ?thesis using p e q(3) R(3,4)
    by (auto simp: icmp_in_def Let_def ic_upd_def)
qed

end
