(* ===== verification/Net_Ip.thy ===== *)
theory Net_Ip
  imports Net_Icmp
begin

text \<open>
  IP input and output (\<^verbatim>\<open>net/ip.c\<close>), the sending calls of UDP and ICMP, and the network's start and its two processes
  (\<^verbatim>\<open>net/net.c\<close>). Sending may wait for a buffer and, in \<open>arp_resolve\<close>, for an answer: \<open>udp_send_rest\<close>, \<open>udp_sendto_rest\<close>,
  \<open>icmp_send_rest\<close> and \<open>arp_resumed\<close> are what follows. The body of the loop of each process is a definition: \<open>netin_rest\<close> with
  what the device has read as an argument, and \<open>ipout_rest\<close>.
\<close>

section \<open>Output\<close>

definition ip_out_packet :: "packet \<Rightarrow> packet" where
  "ip_out_packet p =
     (let q = (if p net_ipproto = 17 then udp_hton (put16 p net_udpcksum 0)
               else if p net_ipproto = 1 then icmp_seal (icmp_hton p) (uint (get16 p net_iplen) - 20)
               else p)
      in eth_hton (ip_seal (ip_hton q)))"

definition ip_out :: "'z nstate_scheme ether \<Rightarrow> uint32 \<Rightarrow> 'z nstate_scheme \<Rightarrow> (int \<times> 'z nstate_scheme) option" where
  "ip_out ether pktptr s =
     (let p = pkts s pktptr; pktlen = uint (get16 p net_iplen) + 14 in
      if p net_ipproto = 1 \<and> net_ictype + nat (uint (get16 p net_iplen) - 20) > PACKLEN then None
      else do {
        let q = ip_out_packet p;
        (retval, s) \<leftarrow> ether q pktlen (s\<lparr>pkts := (pkts s)(pktptr := q)\<rparr>);
        (_, s) \<leftarrow> freebuf pktptr s;
        Some (if retval = SYSERR then SYSERR else OK, s) })"

section \<open>Input\<close>

definition ip_local :: "uint32 \<Rightarrow> 'z nstate_scheme \<Rightarrow> (unit outcome \<times> 'z nstate_scheme) option" where
  "ip_local pktptr s =
     (if pkts s pktptr net_ipproto = 17 then map_option (Pair (Done ())) (udp_in pktptr s)
      else if pkts s pktptr net_ipproto = 1 then icmp_in pktptr s
      else drop_packet pktptr s)"

text \<open>The checks on a packet and its conversion to host byte order; \<open>None\<close> is a packet that is dropped (what its buffer holds then
  is of no interest: every taker of a buffer writes the bytes it goes on to read).\<close>

definition ip_check :: "packet \<Rightarrow> packet option" where
  "ip_check p =
     (if ipcksum p \<noteq> 0 then None
      else let p = ip_ntoh p in
        if p net_ipvh \<noteq> 0x45 then None
        else if p net_ipproto = 17 then Some (udp_ntoh p)
        else if p net_ipproto = 1 then
          (if icmp_cksum p net_ictype (uint (get16 p net_iplen) - 20) \<noteq> 0 then None else Some (icmp_ntoh p))
        else Some p)"

definition for_us :: "network \<Rightarrow> packet \<Rightarrow> bool" where
  "for_us nd p \<longleftrightarrow> get32 p net_ipdst = 0xFFFFFFFF \<or>
     (if \<not> ipvalid nd then p net_ipproto = 17 else get32 p net_ipdst = ipucast nd \<or> get32 p net_ipdst = ipbcast nd)"

text \<open>The length in the header is believed: the checksum of an ICMP message may be asked of bytes behind the buffer.\<close>

definition reads_past :: "packet \<Rightarrow> bool" where
  "reads_past p \<longleftrightarrow> ipcksum p = 0 \<and> p net_ipvh = 0x45 \<and> p net_ipproto = 1 \<and>
     net_ictype + nat (uint (get16 (ip_ntoh p) net_iplen) - 20) > PACKLEN"

definition ip_in :: "uint32 \<Rightarrow> 'z nstate_scheme \<Rightarrow> (unit outcome \<times> 'z nstate_scheme) option" where
  "ip_in pktptr s =
     (if reads_past (pkts s pktptr) then None
      else case ip_check (pkts s pktptr) of
        None \<Rightarrow> drop_packet pktptr s
      | Some p \<Rightarrow>
         (let s = s\<lparr>pkts := (pkts s)(pktptr := p)\<rparr> in
          if for_us (netdata s) p then ip_local pktptr s else drop_packet pktptr s))"

section \<open>Sending\<close>

definition nexthop :: "network \<Rightarrow> uint32 \<Rightarrow> uint32" where
  "nexthop nd dest = (if dest AND ipmask nd = ipprefix nd then dest else iprouter nd)"

text \<open>With the hardware address, or without: then the packet is dropped.\<close>

definition ip_send_rest :: "'z nstate_scheme ether \<Rightarrow> uint32 \<Rightarrow> int \<times> byte list \<Rightarrow> 'z nstate_scheme \<Rightarrow> (int \<times> 'z nstate_scheme) option" where
  "ip_send_rest ether pktptr r s =
     (if fst r \<noteq> OK then do { (_, s) \<leftarrow> freebuf pktptr s; Some (SYSERR, s) }
      else ip_out ether pktptr (s\<lparr>pkts := (pkts s)(pktptr := put_bytes arp_ethdst (snd r) (pkts s pktptr))\<rparr>))"

definition ip_send :: "'z nstate_scheme ether \<Rightarrow> (uint32 \<Rightarrow> arp_user) \<Rightarrow> uint32 \<Rightarrow> 'z nstate_scheme \<Rightarrow> (int outcome \<times> 'z nstate_scheme) option" where
  "ip_send ether user pktptr s =
     (let dest = get32 (pkts s pktptr) net_ipdst in
      if dest AND 0xFF000000 = 0x7F000000 \<or> dest = ipucast (netdata s) then do {
        (r, s) \<leftarrow> ip_local pktptr s;
        Some (case r of Done _ \<Rightarrow> Done OK | Pending \<Rightarrow> Pending, s) }
      else if dest = 0xFFFFFFFF \<or> dest = ipbcast (netdata s) then
        finish (ip_out ether pktptr (s\<lparr>pkts := (pkts s)(pktptr := put_bytes arp_ethdst (ethbcast (netdata s)) (pkts s pktptr))\<rparr>))
      else if nexthop (netdata s) dest = 0 then do { (_, s) \<leftarrow> freebuf pktptr s; Some (Done SYSERR, s) }
      else do {
        (r, s) \<leftarrow> arp_resolve ether (nexthop (netdata s) dest) (user pktptr) s;
        (case r of Pending \<Rightarrow> Some (Pending, s) | Done a \<Rightarrow> finish (ip_send_rest ether pktptr a s)) })"

section \<open>The output process\<close>

definition ipout :: "'z nstate_scheme \<Rightarrow> (unit outcome \<times> 'z nstate_scheme) option" where
  "ipout s = do { (_, s) \<leftarrow> wait (iqsem (ipoqueue s)) (stopping N_ipout s); Some (Pending, s) }"

definition ipout_sent :: "'z nstate_scheme ether \<Rightarrow> uint32 \<Rightarrow> int \<times> byte list \<Rightarrow> 'z nstate_scheme \<Rightarrow> (unit outcome \<times> 'z nstate_scheme) option" where
  "ipout_sent ether pktptr r s = map_option (\<lambda>(_, s). (Done (), s)) (ip_send_rest ether pktptr r s)"

definition ipout_rest :: "'z nstate_scheme ether \<Rightarrow> 'z nstate_scheme \<Rightarrow> (unit outcome \<times> 'z nstate_scheme) option" where
  "ipout_rest ether s =
     (let q = ipoqueue s; h = iqhead q in
      if h < 0 \<or> h \<ge> 8 then None
      else
        let pktptr = iqbuf q h;
            s = s\<lparr>ipoqueue := q\<lparr>iqhead := wrap 8 h\<rparr>, pkts := (pkts s)(pktptr := put_bytes arp_ethsrc (ethucast (netdata s)) (pkts s pktptr))\<rparr>;
            dest = get32 (pkts s pktptr) net_ipdst in
        if dest = 0xFFFFFFFF \<or> dest = ipbcast (netdata s) then drop_packet pktptr s
        else if dest = ipucast (netdata s) then ip_local pktptr s
        else if nexthop (netdata s) dest = 0 then drop_packet pktptr s
        else do {
          (r, s) \<leftarrow> arp_resolve ether (nexthop (netdata s) dest) (For_ipout pktptr) s;
          (case r of Pending \<Rightarrow> Some (Pending, s) | Done a \<Rightarrow> ipout_sent ether pktptr a s) })"

text \<open>A process that waited for an address goes on with what it was sending. The result is that of the call it made.\<close>

definition arp_resumed :: "'z nstate_scheme ether \<Rightarrow> nat \<Rightarrow> int \<Rightarrow> packet \<Rightarrow> arp_user \<Rightarrow> 'z nstate_scheme \<Rightarrow> (int outcome \<times> 'z nstate_scheme) option" where
  "arp_resumed ether n slot apkt user s = do {
     (r, s) \<leftarrow> arp_resolve_rest ether n slot apkt user s;
     (case r of
        Pending \<Rightarrow> Some (Pending, s)
      | Done a \<Rightarrow> (case user of
          For_ip_send pktptr \<Rightarrow> finish (ip_send_rest ether pktptr a s)
        | For_udp_send pktptr \<Rightarrow> map_option (\<lambda>(_, s). (Done OK, s)) (ip_send_rest ether pktptr a s)
        | For_ipout pktptr \<Rightarrow> map_option (\<lambda>(_, s). (Done OK, s)) (ip_send_rest ether pktptr a s))) }"

section \<open>UDP\<close>

definition udp_fill :: "network \<Rightarrow> uint16 \<Rightarrow> uint32 \<Rightarrow> uint32 \<Rightarrow> uint16 \<Rightarrow> uint16 \<Rightarrow> byte list \<Rightarrow> int \<Rightarrow> packet \<Rightarrow> packet" where
  "udp_fill nd ipid locip remip locport remport data len p =
     (let p = put_bytes arp_ethsrc (ethucast nd) p;
          p = put16 p net_ethtype 0x0800;
          p = p(net_ipvh := 0x45, net_iptos := 0);
          p = put16 p net_iplen (word_of_int (28 + len));
          p = put16 p net_ipid ipid;
          p = put16 p net_ipfrag 0;
          p = p(net_ipttl := 0xFF, net_ipproto := 17);
          p = put16 p net_ipcksum 0;
          p = put32 p net_ipsrc locip;
          p = put32 p net_ipdst remip;
          p = put16 p net_udpsport locport;
          p = put16 p net_udpdport remport;
          p = put16 p net_udplen (word_of_int (8 + len));
          p = put16 p net_udpcksum 0
      in put_bytes net_udpdata data p)"

text \<open>The loop that copies the data stops at no bound but the length it was given.\<close>

definition data_of :: "byte list \<Rightarrow> int \<Rightarrow> byte list option" where
  "data_of buff len = (if nat len > length buff \<or> nat len > 1472 then None else Some (take (nat len) buff))"

definition udp_sent :: "(int outcome \<times> 's) option \<Rightarrow> (int outcome \<times> 's) option" where
  "udp_sent = map_option (\<lambda>(r, s). (case r of Done _ \<Rightarrow> Done OK | Pending \<Rightarrow> Pending, s))"

definition udp_send_rest :: "'z nstate_scheme ether \<Rightarrow> uint32 \<Rightarrow> uint16 \<Rightarrow> uint16 \<Rightarrow> uint32 \<Rightarrow> byte list \<Rightarrow> int \<Rightarrow> 'z nstate_scheme \<Rightarrow>
    (int outcome \<times> 'z nstate_scheme) option" where
  "udp_send_rest ether remip remport locport locip buff len s = do {
     (pkt, s) \<leftarrow> getbuf_rest (netbufpool s) s;
     data \<leftarrow> data_of buff len;
     udp_sent (ip_send ether For_udp_send pkt (s\<lparr>pkts := (pkts s)(pkt := udp_fill (netdata s) (udp_ident s) locip remip locport remport data len (pkts s pkt)),
       udp_ident := udp_ident s + 1\<rparr>)) }"

definition udp_send :: "int \<Rightarrow> byte list \<Rightarrow> int \<Rightarrow> 'z nstate_scheme \<Rightarrow> (int outcome \<times> 'z nstate_scheme) option" where
  "udp_send slot buff len s =
     (if slot < 0 \<or> slot \<ge> UDP_SLOTS then Some (Done SYSERR, s)
      else if udstate (udptab s slot) = EP_FREE then Some (Done SYSERR, s)
      else if udremip (udptab s slot) = 0 then Some (Done SYSERR, s)
      else do {
        let e = udptab s slot;
        (r, s) \<leftarrow> getbuf (netbufpool s) (stopping (N_udp_send (udremip e) (udremport e) (udlocport e) (ipucast (netdata s)) buff len) s);
        Some (case r of Done _ \<Rightarrow> Done SYSERR | Pending \<Rightarrow> Pending, s) })"

definition udp_sendto_rest :: "'z nstate_scheme ether \<Rightarrow> int \<Rightarrow> uint32 \<Rightarrow> uint16 \<Rightarrow> byte list \<Rightarrow> int \<Rightarrow> 'z nstate_scheme \<Rightarrow>
    (int outcome \<times> 'z nstate_scheme) option" where
  "udp_sendto_rest ether slot remip remport buff len s = do {
     (pkt, s) \<leftarrow> getbuf_rest (netbufpool s) s;
     data \<leftarrow> data_of buff len;
     udp_sent (ip_send ether For_udp_send pkt (s\<lparr>pkts := (pkts s)(pkt := udp_fill (netdata s) (udpto_ident s) (ipucast (netdata s)) remip
         (udlocport (udptab s slot)) remport data len (pkts s pkt)), udpto_ident := udpto_ident s + 1\<rparr>)) }"

definition udp_sendto :: "int \<Rightarrow> uint32 \<Rightarrow> uint16 \<Rightarrow> byte list \<Rightarrow> int \<Rightarrow> 'z nstate_scheme \<Rightarrow> (int outcome \<times> 'z nstate_scheme) option" where
  "udp_sendto slot remip remport buff len s =
     (if slot < 0 \<or> slot \<ge> UDP_SLOTS then Some (Done SYSERR, s)
      else if udstate (udptab s slot) = EP_FREE then Some (Done SYSERR, s)
      else do {
        (r, s) \<leftarrow> getbuf (netbufpool s) (stopping (N_udp_sendto slot remip remport buff len) s);
        Some (case r of Done _ \<Rightarrow> Done SYSERR | Pending \<Rightarrow> Pending, s) })"

section \<open>ICMP\<close>

definition icmp_send_rest :: "'z nstate_scheme ether \<Rightarrow> uint32 \<Rightarrow> uint16 \<Rightarrow> uint16 \<Rightarrow> uint16 \<Rightarrow> byte list \<Rightarrow> int \<Rightarrow> 'z nstate_scheme \<Rightarrow>
    (int outcome \<times> 'z nstate_scheme) option" where
  "icmp_send_rest ether remip ty ident seq buf len s = do {
     (pkt, s) \<leftarrow> icmp_mkpkt_rest remip ty ident seq buf len s;
     ip_send ether For_ip_send pkt s }"

text \<open>\<open>icmp_mkpkt\<close> panics when there is no pool to take a buffer from.\<close>

definition icmp_send :: "uint32 \<Rightarrow> uint16 \<Rightarrow> uint16 \<Rightarrow> uint16 \<Rightarrow> byte list \<Rightarrow> int \<Rightarrow> 'z nstate_scheme \<Rightarrow> (int outcome \<times> 'z nstate_scheme) option" where
  "icmp_send remip ty ident seq buf len s = do {
     (r, s) \<leftarrow> getbuf (netbufpool s) (stopping (N_icmp_send remip ty ident seq buf len) s);
     Some (Pending, case r of Done _ \<Rightarrow> s\<lparr>halted := True\<rparr> | Pending \<Rightarrow> s) }"

section \<open>Start and input process\<close>

text \<open>\<open>net_init\<close> up to the creation of the two processes; \<open>mac\<close> is what the device reports as its address.\<close>

definition net_init :: "byte list \<Rightarrow> 'z nstate_scheme \<Rightarrow> (unit outcome \<times> 'z nstate_scheme) option" where
  "net_init mac s = do {
     let s = s\<lparr>netdata := \<lparr>ipucast = 0, ipbcast = 0, ipmask = 0, ipprefix = 0, iprouter = 0, bootserver = 0, ipvalid = False,
       ethucast = mac, ethbcast = replicate 6 0xFF\<rparr>\<rparr>;
     (p, s) \<leftarrow> mkbufpool (int PACKLEN) (UDP_SLOTS * UDP_QSIZ + ICMP_SLOTS * ICMP_QSIZ + 1) s;
     let s = icmp_init (udp_init (arp_init (s\<lparr>netbufpool := p\<rparr>)));
     (sem, s) \<leftarrow> semcreate 0 (s\<lparr>ipoqueue := (ipoqueue s)\<lparr>iqhead := 0, iqtail := 0\<rparr>\<rparr>);
     let s = s\<lparr>ipoqueue := (ipoqueue s)\<lparr>iqsem := sem\<rparr>\<rparr>;
     Some (if sem = SYSERR then (Pending, s\<lparr>halted := True\<rparr>) else (Done (), s)) }"

definition netin :: "'z nstate_scheme \<Rightarrow> (unit outcome \<times> 'z nstate_scheme) option" where
  "netin s = do {
     (r, s) \<leftarrow> getbuf (netbufpool s) (stopping N_netin s);
     (case r of Done _ \<Rightarrow> None | Pending \<Rightarrow> Some (Pending, s)) }"

definition netin_rest :: "'z nstate_scheme ether \<Rightarrow> packet \<Rightarrow> 'z nstate_scheme \<Rightarrow> (unit outcome \<times> 'z nstate_scheme) option" where
  "netin_rest ether frame s = do {
     (pkt, s) \<leftarrow> getbuf_rest (netbufpool s) s;
     let p = eth_ntoh frame;
     let s = s\<lparr>pkts := (pkts s)(pkt := p)\<rparr>;
     if get16 p net_ethtype = 0x0806 then arp_in ether pkt s
     else if get16 p net_ethtype = 0x0800 then ip_in pkt s
     else drop_packet pkt s }"

end
