(* ===== verification/Net_Udp_Sim.thy ===== *)
theory Net_Udp_Sim
  imports Net_Udp_Spec Simulation
begin

text \<open>
  The UDP endpoints as a service: registering, arrival of packets, receiving and releasing, in any order, give the
  replies of the specification on lists of packets, and no buffer is lost.
\<close>

abbreviation psem :: "'z nstate_scheme \<Rightarrow> int" where
  "psem s \<equiv> bpsem (buftab s (netbufpool s))"

text \<open>The table and the pool, with nobody waiting for a buffer.\<close>

definition udp_rep :: "'z nstate_scheme \<Rightarrow> uint32 list \<Rightarrow> uint32 endpoints \<Rightarrow> bool" where
  "udp_rep s fr T \<longleftrightarrow> kinv s \<and> udp_table s T \<and> net_own s fr {#} T \<and> scount (semtab s (psem s)) = int (length fr)"

lemma udp_repD:
  assumes "udp_rep s fr T"
  shows "kinv s" "udp_table s T" "net_own s fr {#} T" "scount (semtab s (psem s)) = int (length fr)"
  using assms by (simp_all add: udp_rep_def)

lemma net_ownD:
  assumes "net_own s fr U T"
  shows "sem_live s (psem s)" "0 \<le> netbufpool s" "netbufpool s < nbpools s" "length fr < 2 ^ 30"
  using assms by (auto simp: net_own_def pool_own_def)

lemma kinv_att [simp]: "kinv (s\<lparr>attempt := a\<rparr>) = kinv s"
  by (simp add: kinv_def kq_def kids_def qof_def eligible_def ksem_def sem_inv_def kmsg_def msg_inv_def
      kheap_def kstk_def stk_ok_def kpend_def cong: prstate.case_cong)

lemma busy_flags [simp]: "busy (s\<lparr>attempt := a\<rparr>) = busy s" "busy (s\<lparr>semtab := k\<rparr>) = busy s" "busy (s\<lparr>ukont := f\<rparr>) = busy s"
  by (rule busy_cong; simp)+

section \<open>Releasing\<close>

text \<open>Returning a buffer that nobody waits for does the same whether or not rescheduling is deferred.\<close>

lemma freebuf_idle:
  assumes inv: "kinv s" and own: "net_own s fr (U + {#x - 4#}) T" and room: "length fr + 1 < 2 ^ 30"
    and c: "scount (semtab s (psem s)) = int (length fr)"
  shows "\<exists>s'. kinv s' \<and> net_own s' ((x - 4) # fr) U T \<and> scount (semtab s' (psem s')) = int (length ((x - 4) # fr)) \<and>
    kstate.more s' = kstate.more s \<and> attempt s' = attempt s \<and> currpid s' = currpid s \<and>
    (\<forall>d. freebuf x (s\<lparr>ndefers := d\<rparr>) = Some (OK, s'\<lparr>ndefers := d\<rparr>))"
proof -
  obtain s' where s': "freebuf x s = Some (OK, s')" "kinv s'" "net_own s' ((x - 4) # fr) U T" "kstate.more s' = kstate.more s"
    "bpsem (buftab s' (netbufpool s)) = psem s" "scount (semtab s' (psem s)) = scount (semtab s (psem s)) + 1"
    using freebuf_net[OF inv own room] by blast
  have e: "psem s' = psem s" using s'(4,5) net_fields(6)[OF s'(4)] by simp
  obtain w where w: "ld (x - 4) (mem s) = Some w" "0 \<le> sint w" "sint w < nbpools s"
    using s'(1,6) by (auto simp: freebuf_def bind_eq_Some_conv Let_def split: if_split_asm)
  have live: "sem_live s (psem s)" using net_ownD(1)[OF own] .
  obtain used where used: "pool_own s (netbufpool s) fr used" "x - 4 \<in> set used"
    using own unfolding net_own_def by (metis multi_member_last set_mset_mset union_iff)
  have "mem s (x - 4) = word_of_int (netbufpool s)" using pool_ownD(4)[OF used] .
  moreover have "w = mem s (x - 4)" using w(1) by (simp add: ld_def split: if_split_asm)
  ultimately have p: "sint w = netbufpool s"
    using pool_ownD(5-7)[OF used(1)] by (simp add: signed_of_int signed_take_bit_int_eq_self)
  have b: "busy s (x - 4)" using pool_ownD(3)[OF used] .
  let ?m = "(mem s)(x - 4 := bpnext (buftab s (netbufpool s)))"
  let ?b = "(buftab s)(netbufpool s := (buftab s (netbufpool s))\<lparr>bpnext := x - 4\<rparr>)"
  let ?k = "(semtab s)(psem s := (semtab s (psem s))\<lparr>scount := scount (semtab s (psem s)) + 1\<rparr>)"
  have run: "freebuf x (s\<lparr>ndefers := d\<rparr>) = Some (OK, s\<lparr>ndefers := d, mem := ?m, buftab := ?b, semtab := ?k\<rparr>)" for d
  proof -
    let ?s1 = "s\<lparr>ndefers := d, mem := ?m, buftab := ?b\<rparr>"
    have "signal (psem s) ?s1 = Some (OK, ?s1\<lparr>semtab := ?k\<rparr>)"
      using signal_idle[where s = ?s1 and k = "psem s"] live c room by simp
    then show ?thesis using w p busy_access[OF b] by (simp add: freebuf_def Let_def)
  qed
  have "s\<lparr>ndefers := ndefers s\<rparr> = s" by (rule kstate.equality) simp_all
  then have E: "s' = s\<lparr>mem := ?m, buftab := ?b, semtab := ?k\<rparr>" using run[of "ndefers s"] s'(1)
    by (auto intro!: kstate.equality)
  have "freebuf x (s\<lparr>ndefers := d\<rparr>) = Some (OK, s'\<lparr>ndefers := d\<rparr>)" for d unfolding run E by (auto intro!: kstate.equality)
  moreover have "scount (semtab s' (psem s')) = int (length ((x - 4) # fr))" using s'(6) c e by simp
  moreover have "attempt s' = attempt s" "currpid s' = currpid s" unfolding E by simp_all
  ultimately show ?thesis using s'(2-4) by blast
qed

lemma udp_drain_all:
  assumes "udp_rep s fr T" "0 \<le> i" "i < UDP_SLOTS" "T i = Some e" "length fr + length (ep_queue e) + 1 < 2 ^ 30"
  shows "\<exists>s' fr'. udp_drain (length (ep_queue e)) i (s\<lparr>ndefers := d\<rparr>) = Some (s'\<lparr>ndefers := d\<rparr>) \<and>
    udp_rep s' fr' (T(i := Some (e\<lparr>ep_queue := []\<rparr>))) \<and> length fr' = length fr + length (ep_queue e) \<and> pkts s' = pkts s \<and>
    attempt s' = attempt s \<and> currpid s' = currpid s"
  using assms
proof (induction "ep_queue e" arbitrary: s fr T e)
  case Nil
  have "e\<lparr>ep_queue := []\<rparr> = e" using Nil.hyps by simp
  then have "T(i := Some (e\<lparr>ep_queue := []\<rparr>)) = T" using Nil.prems(4) by auto
  then show ?case using Nil by (intro exI[of _ s] exI[of _ fr]) simp
next
  case (Cons x xs)
  note R = udp_repD[OF Cons.prems(1)]
  let ?e = "e\<lparr>ep_queue := xs\<rparr>" let ?T = "T(i := Some ?e)"
  obtain s1 f where s1: "udp_dequeue i s = Some (x, s1)" "udp_table s1 ?T" "s1 = ud_upd i f s"
    using udp_dequeue_is[of s T i e x xs] R(2) Cons.prems(2-4) Cons.hyps(2) by metis
  have "net_own s fr ({#} + {#x - 4#}) ?T"
    by (rule net_own_regroup[OF R(3)]) (use held_pop[of i T e x xs] Cons.prems Cons.hyps(2) in simp)
  then have own1: "net_own s1 fr ({#} + {#x - 4#}) ?T" using s1(3) by simp
  have c1: "scount (semtab s1 (psem s1)) = int (length fr)" "kinv s1" using R(1,4) s1(3) by simp_all
  have room: "length fr + 1 < 2 ^ 30" using Cons.prems(5) by simp
  obtain s2 where s2: "kinv s2" "net_own s2 ((x - 4) # fr) {#} ?T" "scount (semtab s2 (psem s2)) = int (length ((x - 4) # fr))"
    "kstate.more s2 = kstate.more s1" "attempt s2 = attempt s1" "currpid s2 = currpid s1"
    "\<forall>d. freebuf x (s1\<lparr>ndefers := d\<rparr>) = Some (OK, s2\<lparr>ndefers := d\<rparr>)"
    using freebuf_idle[OF c1(2) own1 room c1(1)] by blast
  note n = net_fields[OF s2(4)]
  have rep2: "udp_rep s2 ((x - 4) # fr) ?T" using s2 s1(2) udp_table_same[OF n(1)] by (simp add: udp_rep_def)
  have T2: "?T i = Some ?e" "xs = ep_queue ?e" "length ((x - 4) # fr) + length (ep_queue ?e) + 1 < 2 ^ 30"
    using Cons.prems(5) Cons.hyps(2)[symmetric] by simp_all
  obtain s' fr' where s': "udp_drain (length (ep_queue ?e)) i (s2\<lparr>ndefers := d\<rparr>) = Some (s'\<lparr>ndefers := d\<rparr>)"
    "udp_rep s' fr' (?T(i := Some (?e\<lparr>ep_queue := []\<rparr>)))" "length fr' = length ((x - 4) # fr) + length (ep_queue ?e)"
    "pkts s' = pkts s2" "attempt s' = attempt s2" "currpid s' = currpid s2"
    using Cons.hyps(1)[OF T2(2) rep2 Cons.prems(2,3) T2(1,3)] by blast
  have dq: "udp_dequeue i (s\<lparr>ndefers := d\<rparr>) = Some (x, s1\<lparr>ndefers := d\<rparr>)"
    using s1(1) by (auto simp: udp_dequeue_def Let_def ud_upd_def split: if_split_asm)
  have "udp_drain (length (ep_queue e)) i (s\<lparr>ndefers := d\<rparr>) = Some (s'\<lparr>ndefers := d\<rparr>)"
    using dq s2(7) s'(1) Cons.hyps(2)[symmetric] by simp
  moreover have "udp_rep s' fr' (T(i := Some (e\<lparr>ep_queue := []\<rparr>)))" using s'(2) by simp
  ultimately show ?case using s' n s2(5,6) s1(3) Cons.hyps(2)[symmetric] by (intro exI[of _ s'] exI[of _ fr']) simp
qed

theorem udp_release_all:
  assumes rep: "udp_rep s fr T" and i: "0 \<le> i" "i < UDP_SLOTS" and e: "T i = Some e"
    and room: "length fr + length (ep_queue e) + 1 < 2 ^ 30"
  shows "\<exists>s' fr'. udp_release i s = Some (OK, s') \<and> udp_rep s' fr' (T(i := None)) \<and>
    length fr' = length fr + length (ep_queue e) \<and> pkts s' = pkts s \<and> currpid s' = currpid s"
proof -
  note R = udp_repD[OF rep]
  let ?s0 = "s\<lparr>attempt := False\<rparr>"
  have nd: "ndefers s = 0" using kinvD(3)[OF R(1)] .
  have own0: "net_own ?s0 fr {#} T" using R(3) by (simp add: net_own_def pool_own_def pool_rep_def)
  have rep0: "udp_rep ?s0 fr T" using R own0 by (simp add: udp_rep_def udp_table_def)
  have is1: "udp_is (udptab s i) (Some e)" using udp_tableD[OF R(2) i] e by simp
  then have st: "udstate (udptab s i) \<noteq> EP_FREE" "nat (udcount (udptab s i)) = length (ep_queue e)" by (simp_all add: udp_is_def)
  have start: "resched_cntl DEFER_START s = Some (OK, ?s0\<lparr>ndefers := 1\<rparr>)"
    using nd by (simp add: resched_cntl_def s32_id Let_def)
  obtain s1 fr1 where s1: "udp_drain (length (ep_queue e)) i (?s0\<lparr>ndefers := 1\<rparr>) = Some (s1\<lparr>ndefers := 1\<rparr>)"
    "udp_rep s1 fr1 (T(i := Some (e\<lparr>ep_queue := []\<rparr>)))" "length fr1 = length fr + length (ep_queue e)" "pkts s1 = pkts ?s0"
    "attempt s1 = attempt ?s0" "currpid s1 = currpid ?s0"
    using udp_drain_all[OF rep0 i e room, of 1] by blast
  note R1 = udp_repD[OF s1(2)]
  let ?f = "\<lambda>e. e\<lparr>udstate := EP_FREE\<rparr>"
  let ?s' = "ud_upd i ?f s1"
  have nd1: "ndefers s1 = 0" using kinvD(3)[OF R1(1)] .
  have "ud_upd i ?f (s1\<lparr>ndefers := 1\<rparr>)\<lparr>ndefers := 0\<rparr> = ?s'" using nd1 by (auto simp: ud_upd_def intro!: nstate.equality)
  then have stop: "resched_cntl DEFER_STOP (ud_upd i ?f (s1\<lparr>ndefers := 1\<rparr>)) = Some (OK, ?s')"
    using s1(5) by (simp add: resched_cntl_def Let_def)
  have "udp_table ?s' ((T(i := Some (e\<lparr>ep_queue := []\<rparr>)))(i := None))" by (rule udp_table_upd[OF R1(2)]) (simp add: udp_is_def)
  moreover have "net_own ?s' fr1 {#} (T(i := None))"
  proof -
    have "held (T(i := Some (e\<lparr>ep_queue := []\<rparr>))) = held (T(i := None))"
      using held_upd[OF i, of "T(i := Some (e\<lparr>ep_queue := []\<rparr>))" None] by (simp add: headers_def)
    then show ?thesis using net_own_regroup[OF R1(3), of "{#}"] by simp
  qed
  ultimately have "udp_rep ?s' fr1 (T(i := None))" using R1(1,4) by (simp add: udp_rep_def)
  moreover have "udp_release i s = Some (OK, ?s')"
    using i st start s1(1) stop by (simp add: udp_release_def)
  ultimately show ?thesis using s1(3,4,6) by (intro exI[of _ ?s'] exI[of _ fr1]) simp
qed

section \<open>An arriving packet\<close>

text \<open>What the network input process does for a UDP packet: a buffer is taken, the packet is in it, and \<open>udp_in\<close> gets it.\<close>

definition udp_arrive :: "packet \<Rightarrow> 'z nstate_scheme \<Rightarrow> 'z nstate_scheme option" where
  "udp_arrive p s = do {
     (_, s) \<leftarrow> getbuf (netbufpool s) s;
     (pkt, s) \<leftarrow> getbuf_rest (netbufpool s) s;
     udp_in pkt (s\<lparr>pkts := (pkts s)(pkt := p)\<rparr>) }"

lemma take_buffer:
  assumes rep: "udp_rep s (h # fr) T"
  shows "\<exists>s1 s'. getbuf (netbufpool s) s = Some (Pending, s1) \<and> getbuf_rest (netbufpool s1) s1 = Some (h + 4, s') \<and>
    kinv s' \<and> udp_table s' T \<and> net_own s' fr {#h#} T \<and> scount (semtab s' (psem s')) = int (length fr) \<and>
    pkts s' = pkts s \<and> netbufpool s' = netbufpool s \<and> currpid s' = currpid s \<and> pkont s' = pkont s \<and> netbufpool s1 = netbufpool s"
proof -
  note R = udp_repD[OF rep]
  obtain used where used: "pool_own s (netbufpool s) (h # fr) used" "mset used = held T" using R(3) by (auto simp: net_own_def)
  note P = pool_ownD[OF used(1)]
  let ?s0 = "s\<lparr>ukont := (ukont s)(currpid s := Some (U_getbuf (netbufpool s)))\<rparr>"
  obtain s1 where s1: "wait (psem s) ?s0 = Some (OK, s1)" "kinv s1"
    "s1 = ?s0\<lparr>semtab := (semtab s)(psem s := (semtab s (psem s))\<lparr>scount := scount (semtab s (psem s)) - 1\<rparr>)\<rparr>"
    using wait_free[of ?s0 "psem s"] P(8) R(1,4) by auto
  have get: "getbuf (netbufpool s) s = Some (Pending, s1)" using P(5,6) s1(1) by (simp add: getbuf_def)
  have own1: "pool_own s1 (netbufpool s) (h # fr) used"
    using P(1-10) R(4) unfolding pool_own_def pool_rep_def s1(3) by simp
  have c: "scount (semtab s1 (bpsem (buftab s1 (netbufpool s)))) \<le> int (length fr)" using R(4) s1(3) by simp
  obtain s' where s': "getbuf_rest (netbufpool s) s1 = Some (h + 4, s')" "kinv s'" "pool_own s' (netbufpool s) fr (h # used)"
    "kstate.more s' = kstate.more s1" "currpid s' = currpid s1" "semtab s' = semtab s1" "pkont s' = pkont s1"
    "buftab s' (netbufpool s) = (buftab s1 (netbufpool s))\<lparr>bpnext := bpnext (buftab s' (netbufpool s))\<rparr>"
    using getbuf_rest_owned[OF s1(2) own1 c] by blast
  note n = net_fields[OF s'(4)]
  have e: "netbufpool s' = netbufpool s" "pkts s' = pkts s" "udptab s' = udptab s" "netbufpool s1 = netbufpool s"
    "currpid s' = currpid s" "pkont s' = pkont s" using n s'(5,7) s1(3) by simp_all
  have "bpsem (buftab s' (netbufpool s)) = psem s" by (subst s'(8)) (simp add: s1(3))
  then have "scount (semtab s' (psem s')) = int (length fr)" using s'(6) s1(3) R(4) e by simp
  moreover have "net_own s' fr {#h#} T" unfolding net_own_def e using s'(3) used(2) by (intro exI[of _ "h # used"]) simp
  ultimately show ?thesis using get s'(1,2) e udp_table_same[of s' s T] R(2) by auto
qed

theorem udp_arrive_ok:
  assumes rep: "udp_rep s (h # fr) T" and quiet: "\<And>i e. 0 \<le> i \<Longrightarrow> i < UDP_SLOTS \<Longrightarrow> T i = Some e \<Longrightarrow> \<not> ep_wait e"
  shows "\<exists>s'. udp_arrive p s = Some s' \<and> pkts s' = (pkts s)(h + 4 := p) \<and>
    (case deliver p (h + 4) T of
       Some (i, T') \<Rightarrow> udp_rep s' fr T'
     | None \<Rightarrow> udp_rep s' (h # fr) T)"
proof -
  obtain s1 s2 where s: "getbuf (netbufpool s) s = Some (Pending, s1)" "getbuf_rest (netbufpool s1) s1 = Some (h + 4, s2)"
    "kinv s2" "udp_table s2 T" "net_own s2 fr {#h#} T" "scount (semtab s2 (psem s2)) = int (length fr)" "pkts s2 = pkts s"
    using take_buffer[OF rep] by blast
  let ?s3 = "s2\<lparr>pkts := (pkts s)(h + 4 := p)\<rparr>"
  have run: "udp_arrive p s = udp_in (h + 4) ?s3" using s(1,2,7) by (simp add: udp_arrive_def)
  have h: "kinv ?s3" "udp_table ?s3 T" "net_own ?s3 fr {#h + 4 - 4#} T" "pkts ?s3 (h + 4) = p"
    using s(3-5) by (simp_all add: udp_table_def)
  show ?thesis
  proof (cases "deliver p (h + 4) T")
    case None
    have room: "length fr + 1 < 2 ^ 30" using net_ownD(4)[OF udp_repD(3)[OF rep]] by simp
    from None have d: "deliver (pkts ?s3 (h + 4)) (h + 4) T = None" using h(4) by simp
    obtain s' where s': "udp_in (h + 4) ?s3 = Some s'" "kinv s'" "udp_table s' T" "net_own s' (h # fr) {#} T"
      "kstate.more s' = kstate.more ?s3" "bpsem (buftab s' (netbufpool s2)) = psem s2"
      "scount (semtab s' (psem s2)) = scount (semtab s2 (psem s2)) + 1"
      using udp_in_discards[OF h(1-3) room d] by auto
    note n = net_fields[OF s'(5)]
    have "udp_rep s' (h # fr) T" using s' s(6) n by (simp add: udp_rep_def)
    then show ?thesis using run s'(1) n None by auto
  next
    case (Some a)
    then obtain i T' where d: "deliver (pkts ?s3 (h + 4)) (h + 4) T = Some (i, T')" "a = (i, T')" using h(4) by (cases a) simp
    have "first_slot (nat UDP_SLOTS) 0 (accepts T p) = Some i" using d Some by (auto simp: deliver_def split: option.splits)
    from first_slot_Some[OF this] have i: "0 \<le> i" "i < UDP_SLOTS" by auto
    obtain s' e where s': "T i = Some e" "udp_in (h + 4) ?s3 = Some s'" "kinv s'" "udp_table s' T'" "net_own s' fr {#} T'"
      "pkts s' = pkts ?s3" "netbufpool s' = netbufpool ?s3" "\<not> ep_wait e \<longrightarrow> s' = ?s3\<lparr>udptab := udptab s'\<rparr>"
      using udp_in_delivers[OF h(1-3) d(1)] by blast
    have f: "s' = ?s3\<lparr>udptab := udptab s'\<rparr>" using s'(8) quiet[OF i s'(1)] by blast
    have "buftab s' = buftab s2" "semtab s' = semtab s2" by (subst f, simp)+
    then have "udp_rep s' fr T'" using s' s(6) by (simp add: udp_rep_def)
    then show ?thesis using run s'(2,6) Some d(2) by auto
  qed
qed

section \<open>The service\<close>

datatype udp_call = U_register uint32 uint16 uint16 | U_arrive packet | U_recv int int | U_release int

definition on_slot :: "int \<Rightarrow> 'q endpoints \<Rightarrow> 'q endpoint option" where
  "on_slot i T = (if i < 0 \<or> i \<ge> UDP_SLOTS then None else T i)"

fun udp_spec :: "udp_call \<Rightarrow> nat \<times> packet endpoints \<Rightarrow> ((int \<times> byte list) \<times> nat \<times> packet endpoints) option" where
  "udp_spec (U_register ip rport lport) (n, T) = (let (r, T) = ep_register ip rport lport T in Some ((r, []), n, T))"
| "udp_spec (U_arrive p) (n, T) =
     (if n = 0 then None
      else case deliver p p T of Some (_, T) \<Rightarrow> Some ((0, []), n - 1, T) | None \<Rightarrow> Some ((0, []), n, T))"
| "udp_spec (U_recv i len) (n, T) =
     (case on_slot i T of
        None \<Rightarrow> Some ((SYSERR, []), n, T)
      | Some e \<Rightarrow> (case ep_queue e of
          [] \<Rightarrow> None
        | p # ps \<Rightarrow> if fst (payload p len) \<le> 1472 then Some (payload p len, n + 1, T(i := Some (e\<lparr>ep_queue := ps\<rparr>))) else None))"
| "udp_spec (U_release i) (n, T) =
     (case on_slot i T of
        None \<Rightarrow> Some ((SYSERR, []), n, T)
      | Some e \<Rightarrow> Some ((OK, []), n + length (ep_queue e), T(i := None)))"

fun udp_step :: "udp_call \<Rightarrow> 'z nstate_scheme \<Rightarrow> ((int \<times> byte list) \<times> 'z nstate_scheme) option" where
  "udp_step (U_register ip rport lport) s = (let (r, s) = udp_register ip rport lport s in Some ((r, []), s))"
| "udp_step (U_arrive p) s = map_option (Pair (0, [])) (udp_arrive p s)"
| "udp_step (U_recv i len) s = (case udp_recv i len 0 s of Some (Done r, s) \<Rightarrow> Some (r, s) | _ \<Rightarrow> None)"
| "udp_step (U_release i) s = map_option (\<lambda>(r, s). ((r, []), s)) (udp_release i s)"

text \<open>The packets behind the addresses in the queues; \<open>N\<close> buffers in all.\<close>

definition ep_map :: "('q \<Rightarrow> 'r) \<Rightarrow> 'q endpoint \<Rightarrow> 'r endpoint" where
  "ep_map f e = \<lparr>ep_ip = ep_ip e, ep_rport = ep_rport e, ep_lport = ep_lport e, ep_wait = ep_wait e, ep_queue = map f (ep_queue e)\<rparr>"

definition shows_as :: "(uint32 \<Rightarrow> packet) \<Rightarrow> uint32 endpoints \<Rightarrow> packet endpoints \<Rightarrow> bool" where
  "shows_as m C T \<longleftrightarrow> (\<forall>i. 0 \<le> i \<longrightarrow> i < UDP_SLOTS \<longrightarrow> T i = map_option (ep_map m) (C i) \<and> (\<forall>e. C i = Some e \<longrightarrow> \<not> ep_wait e))"

definition udp_sim :: "nat \<Rightarrow> 'z nstate_scheme \<Rightarrow> nat \<times> packet endpoints \<Rightarrow> bool" where
  "udp_sim N s A \<longleftrightarrow> (\<exists>fr C. udp_rep s fr C \<and> shows_as (pkts s) C (snd A) \<and> length fr = fst A \<and>
     fst A + size (held C) = N \<and> N + 1 < 2 ^ 30)"

lemma udp_simI:
  "udp_rep s fr C \<Longrightarrow> shows_as (pkts s) C T \<Longrightarrow> length fr = n \<Longrightarrow> n + size (held C) = N \<Longrightarrow> N + 1 < 2 ^ 30 \<Longrightarrow> udp_sim N s (n, T)"
  by (auto simp: udp_sim_def)

lemma shows_asD:
  assumes "shows_as m C T" "0 \<le> i" "i < UDP_SLOTS"
  shows "T i = map_option (ep_map m) (C i)" "C i = Some e \<Longrightarrow> \<not> ep_wait e"
  using assms by (auto simp: shows_as_def)

lemma shows_as_upd:
  assumes "shows_as m C T" "y = map_option (ep_map m) x" "\<And>e. x = Some e \<Longrightarrow> \<not> ep_wait e"
  shows "shows_as m (C(i := x)) (T(i := y))"
  using assms by (auto simp: shows_as_def)

lemma ep_map_sel [simp]: "ep_queue (ep_map m e) = map m (ep_queue e)" "ep_ip (ep_map m e) = ep_ip e"
  "ep_rport (ep_map m e) = ep_rport e" "ep_lport (ep_map m e) = ep_lport e" "ep_wait (ep_map m e) = ep_wait e"
  "ep_match (ep_map m e) p = ep_match e p"
  by (simp_all add: ep_map_def ep_match_def)

lemma ep_map_upd: "ep_map m (e\<lparr>ep_queue := q\<rparr>) = (ep_map m e)\<lparr>ep_queue := map m q\<rparr>"
  "ep_map m (e\<lparr>ep_queue := q, ep_wait := w\<rparr>) = (ep_map m e)\<lparr>ep_queue := map m q, ep_wait := w\<rparr>"
  by (simp_all add: ep_map_def)

section \<open>The code gives the specification's replies\<close>

lemma register_shows:
  assumes m: "shows_as m C T"
  shows "fst (ep_register ip rp lp C) = fst (ep_register ip rp lp T)"
    "shows_as m (snd (ep_register ip rp lp C)) (snd (ep_register ip rp lp T))"
    "held (snd (ep_register ip rp lp C)) = held C"
proof -
  have dup: "(\<exists>i \<in> {0..<UDP_SLOTS}. case C i of None \<Rightarrow> False | Some e \<Rightarrow> ep_ip e = ip \<and> ep_rport e = rp \<and> ep_lport e = lp) =
    (\<exists>i \<in> {0..<UDP_SLOTS}. case T i of None \<Rightarrow> False | Some e \<Rightarrow> ep_ip e = ip \<and> ep_rport e = rp \<and> ep_lport e = lp)" (is "?c = ?t")
    by (rule bex_cong) (auto simp: shows_asD(1)[OF m] split: option.splits)
  have free: "first_slot (nat UDP_SLOTS) 0 (\<lambda>i. C i = None) = first_slot (nat UDP_SLOTS) 0 (\<lambda>i. T i = None)"
    by (rule first_slot_cong) (simp add: shows_asD(1)[OF m])
  let ?n = "\<lparr>ep_ip = ip, ep_rport = rp, ep_lport = lp, ep_wait = False, ep_queue = []\<rparr>"
  consider "?t" | "\<not> ?t" "first_slot (nat UDP_SLOTS) 0 (\<lambda>i. T i = None) = None" |
    k where "\<not> ?t" "first_slot (nat UDP_SLOTS) 0 (\<lambda>i. T i = None) = Some k" by fastforce
  then have "fst (ep_register ip rp lp C) = fst (ep_register ip rp lp T) \<and>
    shows_as m (snd (ep_register ip rp lp C)) (snd (ep_register ip rp lp T)) \<and> held (snd (ep_register ip rp lp C)) = held C"
  proof cases
    case 1
    then show ?thesis unfolding ep_register_def dup by (simp only: if_True) (simp add: m)
  next
    case 2
    then show ?thesis unfolding ep_register_def dup free by (simp only: if_False) (simp add: m)
  next
    case 3
    from first_slot_Some[OF 3(2)[unfolded free[symmetric]]] have k: "0 \<le> k" "k < UDP_SLOTS" "C k = None" by auto
    have "held (C(k := Some ?n)) = held C" by (rule held_same[OF k(1,2)]) (simp add: headers_def k(3))
    moreover have "shows_as m (C(k := Some ?n)) (T(k := Some ?n))" by (rule shows_as_upd[OF m]) (auto simp: ep_map_def)
    ultimately show ?thesis using 3(2) unfolding ep_register_def dup free if_not_P[OF 3(1)] by simp
  qed
  then show "fst (ep_register ip rp lp C) = fst (ep_register ip rp lp T)"
    "shows_as m (snd (ep_register ip rp lp C)) (snd (ep_register ip rp lp T))"
    "held (snd (ep_register ip rp lp C)) = held C" by blast+
qed

lemma register_ok:
  assumes "udp_rep s fr C" "held (snd (ep_register ip rp lp C)) = held C"
  shows "udp_rep (snd (udp_register ip rp lp s)) fr (snd (ep_register ip rp lp C))"
    "fst (udp_register ip rp lp s) = fst (ep_register ip rp lp C)" "pkts (snd (udp_register ip rp lp s)) = pkts s"
proof -
  note R = udp_repD[OF assms(1)] and S = register_sim[OF udp_repD(2)[OF assms(1)], of ip rp lp]
  have c: "snd (udp_register ip rp lp s) = s \<or> (\<exists>i f. snd (udp_register ip rp lp s) = ud_upd i f s)"
    by (auto simp: udp_register_def split: option.splits)
  have own: "net_own s fr {#} (snd (ep_register ip rp lp C))" by (rule net_own_regroup[OF R(3)]) (simp add: assms(2))
  show "udp_rep (snd (udp_register ip rp lp s)) fr (snd (ep_register ip rp lp C))" "pkts (snd (udp_register ip rp lp s)) = pkts s"
    using c S R own by (auto simp: udp_rep_def)
  show "fst (udp_register ip rp lp s) = fst (ep_register ip rp lp C)" using S by blast
qed

lemma queued_elsewhere:
  assumes "net_own s (h # fr) U C" "0 \<le> i" "i < UDP_SLOTS" "C i = Some e" "a \<in> set (ep_queue e)"
  shows "a \<noteq> h + 4"
proof
  assume a: "a = h + 4"
  obtain used where u: "pool_own s (netbufpool s) (h # fr) used" "mset used = U + held C" using assms(1) by (auto simp: net_own_def)
  have "a - 4 \<in># headers (C i)" using assms(4,5) by (simp add: headers_def)
  then have "h \<in># held C" using held_split[OF assms(2,3), of C] a by simp
  then have "h \<in> set used" using u(2) by (metis set_mset_mset union_iff)
  then show False using pool_ownD(2)[OF u(1)] by simp
qed

lemma shows_as_fresh:
  assumes m: "shows_as m C T" and own: "net_own s (h # fr) U C"
  shows "shows_as (m(h + 4 := p)) C T"
proof -
  have "ep_map (m(h + 4 := p)) e = ep_map m e" if "0 \<le> i" "i < UDP_SLOTS" "C i = Some e" for i e
    using queued_elsewhere[OF own that] by (auto simp: ep_map_def)
  then have "map_option (ep_map (m(h + 4 := p))) (C i) = map_option (ep_map m) (C i)" if "0 \<le> i" "i < UDP_SLOTS" for i
    using that by (cases "C i") auto
  then show ?thesis using m by (simp add: shows_as_def)
qed

lemma deliver_shows:
  assumes m: "shows_as m C T" and x: "m x = p"
  shows "case deliver p x C of
      None \<Rightarrow> deliver p p T = None
    | Some (i, C') \<Rightarrow> (\<exists>T'. deliver p p T = Some (i, T') \<and> shows_as m C' T') \<and> size (held C') = Suc (size (held C))"
proof -
  have acc: "first_slot (nat UDP_SLOTS) 0 (accepts C p) = first_slot (nat UDP_SLOTS) 0 (accepts T p)"
    by (rule first_slot_cong) (auto simp: accepts_def shows_asD(1)[OF m] split: option.splits)
  show ?thesis
  proof (cases "first_slot (nat UDP_SLOTS) 0 (accepts C p)")
    case None
    then show ?thesis using acc by (simp add: deliver_def)
  next
    case (Some i)
    from first_slot_Some[OF this] obtain e where e: "0 \<le> i" "i < UDP_SLOTS" "C i = Some e" by (auto simp: accepts_def split: option.splits)
    let ?e = "e\<lparr>ep_queue := ep_queue e @ [x], ep_wait := False\<rparr>"
    have "shows_as m (C(i := Some ?e)) (T(i := Some ((ep_map m e)\<lparr>ep_queue := ep_queue (ep_map m e) @ [p], ep_wait := False\<rparr>)))"
      by (rule shows_as_upd[OF m]) (auto simp: ep_map_upd x)
    moreover have "size (held (C(i := Some ?e)) + headers (C i)) = size (held C + headers (Some ?e))"
      unfolding held_upd[OF e(1,2)] ..
    then have "size (held (C(i := Some ?e))) = Suc (size (held C))" using e(3) by (simp add: headers_def)
    moreover have "deliver p x C = Some (i, C(i := Some ?e))" using Some e(3) by (simp add: deliver_def)
    moreover have "deliver p p T = Some (i, T(i := Some ((ep_map m e)\<lparr>ep_queue := ep_queue (ep_map m e) @ [p], ep_wait := False\<rparr>)))"
      using trans[OF acc[symmetric] Some] e(3) shows_asD(1)[OF m e(1,2)] by (simp add: deliver_def)
    ultimately show ?thesis by simp
  qed
qed

lemma arrive_sim:
  assumes R: "udp_sim N s (n, T)" and sp: "udp_spec (U_arrive p) (n, T) = Some (r, A)"
  shows "\<exists>s'. udp_step (U_arrive p) s = Some (r, s') \<and> udp_sim N s' A"
proof -
  obtain fr C where C: "udp_rep s fr C" "shows_as (pkts s) C T" "length fr = n" "n + size (held C) = N" "N + 1 < 2 ^ 30"
    using R by (auto simp: udp_sim_def)
  obtain h fr' where fr: "fr = h # fr'" using sp C(3) by (cases fr) auto
  have quiet: "\<And>i e. 0 \<le> i \<Longrightarrow> i < UDP_SLOTS \<Longrightarrow> C i = Some e \<Longrightarrow> \<not> ep_wait e" using shows_asD(2)[OF C(2)] by blast
  obtain s' where s': "udp_arrive p s = Some s'" "pkts s' = (pkts s)(h + 4 := p)"
    "case deliver p (h + 4) C of Some (i, T') \<Rightarrow> udp_rep s' fr' T' | None \<Rightarrow> udp_rep s' (h # fr') C"
    using udp_arrive_ok[of s h fr' C p] C(1) fr quiet by blast
  have m: "shows_as (pkts s') C T" unfolding s'(2) by (rule shows_as_fresh[OF C(2) udp_repD(3)[OF C(1)[unfolded fr]]])
  have x: "pkts s' (h + 4) = p" by (simp add: s'(2))
  note D = deliver_shows[OF m x]
  show ?thesis
  proof (cases "deliver p (h + 4) C")
    case None
    then have A: "r = (0, [])" "A = (n, T)" using sp D C(3) fr by auto
    have "udp_rep s' (h # fr') C" using s'(3) None by simp
    then have "udp_sim N s' A" unfolding A(2) by (rule udp_simI[OF _ m]) (use C(3-5) fr in simp_all)
    then show ?thesis using s'(1) A(1) by simp
  next
    case (Some a)
    then obtain i C' T' where d: "a = (i, C')" "deliver p p T = Some (i, T')" "shows_as (pkts s') C' T'" "size (held C') = Suc (size (held C))"
      using D by (cases a) auto
    then have A: "r = (0, [])" "A = (n - 1, T')" using sp C(3) fr by auto
    have "udp_rep s' fr' C'" using s'(3) Some d(1) by simp
    then have "udp_sim N s' A" unfolding A(2) by (rule udp_simI[OF _ d(3)]) (use C(3-5) d(4) fr in simp_all)
    then show ?thesis using s'(1) A(1) by simp
  qed
qed

lemma recv_call_sim:
  assumes R: "udp_sim N s (n, T)" and sp: "udp_spec (U_recv i len) (n, T) = Some (r, A)"
  shows "\<exists>s'. udp_step (U_recv i len) s = Some (r, s') \<and> udp_sim N s' A"
proof -
  obtain fr C where C: "udp_rep s fr C" "shows_as (pkts s) C T" "length fr = n" "n + size (held C) = N" "N + 1 < 2 ^ 30"
    using R by (auto simp: udp_sim_def)
  note U = udp_repD[OF C(1)]
  show ?thesis
  proof (cases "0 \<le> i \<and> i < UDP_SLOTS \<and> C i \<noteq> None")
    case False
    have "on_slot i T = None" using False shows_asD(1)[OF C(2), of i] by (auto simp: on_slot_def)
    moreover have "udp_recv i len 0 s = Some (Done (SYSERR, []), s)"
      using False udp_tableD[OF U(2), of i] by (auto simp: udp_recv_def udp_is_def)
    ultimately show ?thesis using sp R by simp
  next
    case True
    then obtain e where e: "C i = Some e" and i: "0 \<le> i" "i < UDP_SLOTS" by auto
    have Ti: "T i = Some (ep_map (pkts s) e)" "\<not> ep_wait e" using shows_asD[OF C(2) i] e by simp_all
    obtain x xs where q: "ep_queue e = x # xs" using sp i Ti(1) by (cases "ep_queue e") (auto simp: on_slot_def)
    have A: "fst (payload (pkts s x) len) \<le> 1472" "r = payload (pkts s x) len"
      "A = (n + 1, T(i := Some ((ep_map (pkts s) e)\<lparr>ep_queue := map (pkts s) xs\<rparr>)))"
      using sp i Ti(1) q by (auto simp: on_slot_def split: if_split_asm)
    have fits: "min len (uint (get16 (pkts s x) net_udplen) - 8) \<le> 1472" using A(1) by (simp add: payload_def Let_def)
    have room: "length fr + 1 < 2 ^ 30" using C(3-5) by simp
    let ?C = "C(i := Some (e\<lparr>ep_queue := xs\<rparr>))"
    obtain s' where s': "udp_take i len s = Some (payload (pkts s x) len, s')" "kinv s'" "udp_table s' ?C"
      "net_own s' ((x - 4) # fr) {#} ?C" "pkts s' = pkts s" "netbufpool s' = netbufpool s"
      "bpsem (buftab s' (netbufpool s)) = psem s" "scount (semtab s' (psem s)) = scount (semtab s (psem s)) + 1"
      using udp_take_first[of s C fr i e x xs len] U(1-3) room i e q fits by blast
    have rep: "udp_rep s' ((x - 4) # fr) ?C" using s' U(4) by (simp add: udp_rep_def)
    have is1: "udp_is (udptab s i) (Some e)" using udp_tableD[OF U(2) i] e by simp
    then have "udp_recv i len 0 s = Some (Done (payload (pkts s x) len), s')"
      using i Ti(2) q s'(1) by (simp add: udp_recv_def udp_is_def finish_def)
    then have "udp_step (U_recv i len) s = Some (r, s')" using A(2) by simp
    moreover have "shows_as (pkts s') ?C (T(i := Some ((ep_map (pkts s) e)\<lparr>ep_queue := map (pkts s) xs\<rparr>)))"
      unfolding s'(5) by (rule shows_as_upd[OF C(2)]) (use Ti(2) in \<open>auto simp: ep_map_upd\<close>)
    moreover have "Suc (size (held ?C)) = size (held C)"
      using arg_cong[OF held_pop[of i C e x xs], of size] i e q by simp
    ultimately have "udp_sim N s' A" unfolding A(3) by (intro udp_simI[OF rep]) (use C(3-5) in simp_all)
    then show ?thesis using \<open>udp_step (U_recv i len) s = Some (r, s')\<close> by blast
  qed
qed

lemma release_sim:
  assumes R: "udp_sim N s (n, T)" and sp: "udp_spec (U_release i) (n, T) = Some (r, A)"
  shows "\<exists>s'. udp_step (U_release i) s = Some (r, s') \<and> udp_sim N s' A"
proof -
  obtain fr C where C: "udp_rep s fr C" "shows_as (pkts s) C T" "length fr = n" "n + size (held C) = N" "N + 1 < 2 ^ 30"
    using R by (auto simp: udp_sim_def)
  note U = udp_repD[OF C(1)]
  show ?thesis
  proof (cases "0 \<le> i \<and> i < UDP_SLOTS \<and> C i \<noteq> None")
    case False
    have "on_slot i T = None" using False shows_asD(1)[OF C(2), of i] by (auto simp: on_slot_def)
    moreover have "udp_release i s = Some (SYSERR, s)"
      using False udp_tableD[OF U(2), of i] by (auto simp: udp_release_def udp_is_def)
    ultimately show ?thesis using sp R by simp
  next
    case True
    then obtain e where e: "C i = Some e" and i: "0 \<le> i" "i < UDP_SLOTS" by auto
    have Ti: "T i = Some (ep_map (pkts s) e)" using shows_asD(1)[OF C(2) i] e by simp
    have A: "r = (OK, [])" "A = (n + length (ep_queue e), T(i := None))" using sp i Ti by (auto simp: on_slot_def)
    have hs: "held (C(i := None)) + headers (Some e) = held C" using held_upd[OF i, of C None] e by (simp add: headers_def)
    then have sz: "size (held (C(i := None))) + length (ep_queue e) = size (held C)"
      unfolding hs[symmetric] by (simp add: headers_def)
    have room: "length fr + length (ep_queue e) + 1 < 2 ^ 30" using C(3-5) sz by simp
    obtain s' fr' where s': "udp_release i s = Some (OK, s')" "udp_rep s' fr' (C(i := None))"
      "length fr' = length fr + length (ep_queue e)" "pkts s' = pkts s"
      using udp_release_all[of s fr C i e] C(1) i e room by blast
    have "shows_as (pkts s') (C(i := None)) (T(i := None))" unfolding s'(4) by (rule shows_as_upd[OF C(2)]) simp_all
    then have "udp_sim N s' A" unfolding A(2) by (intro udp_simI[OF s'(2)]) (use s'(3) C(3-5) sz in simp_all)
    then show ?thesis using s'(1) A(1) by simp
  qed
qed

interpretation udp: simulation "udp_sim N" udp_step udp_spec for N
proof unfold_locales
  fix s A c r A'
  assume R: "udp_sim N s A" and sp: "udp_spec c A = Some (r, A')"
  obtain n T where A: "A = (n, T)" by (cases A)
  show "\<exists>s'. udp_step c s = Some (r, s') \<and> udp_sim N s' A'"
  proof (cases c)
    case (U_register ip rp lp)
    obtain fr C where C: "udp_rep s fr C" "shows_as (pkts s) C T" "length fr = n" "n + size (held C) = N" "N + 1 < 2 ^ 30"
      using R A by (auto simp: udp_sim_def)
    note M = register_shows[OF C(2), of ip rp lp] and K = register_ok[OF C(1) register_shows(3)[OF C(2)], of ip rp lp]
    have "r = (fst (ep_register ip rp lp T), [])" "A' = (n, snd (ep_register ip rp lp T))"
      using sp A U_register by (auto simp: case_prod_beta)
    then show ?thesis using U_register K M C by (auto simp: udp_sim_def case_prod_beta intro!: exI[of _ fr])
  next
    case (U_arrive p)
    show ?thesis unfolding U_arrive by (rule arrive_sim) (use R sp A U_arrive in simp_all)
  next
    case (U_recv i len)
    show ?thesis unfolding U_recv by (rule recv_call_sim) (use R sp A U_recv in simp_all)
  next
    case (U_release i)
    show ?thesis unfolding U_release by (rule release_sim) (use R sp A U_release in simp_all)
  qed
qed

end
