(* ===== verification/Net_Arp_Spec.thy ===== *)
theory Net_Arp_Spec
  imports Net_Arp
begin

text \<open>
  The ARP cache: one entry for an address at most, whatever is called; what a packet teaches it; and how a process
  that waits for an answer gets it.
\<close>

section \<open>The device\<close>

text \<open>A driver that takes a frame at once: it changes its own part of the state, which is the rest of the record.\<close>

definition driver :: "(packet \<Rightarrow> int \<Rightarrow> 'z \<Rightarrow> int \<times> 'z) \<Rightarrow> 'z nstate_scheme ether" where
  "driver dev p n s = (let (r, z) = dev p n (nstate.more s) in Some (r, nstate.more_update (\<lambda>_. z) s))"

lemma driver_fields:
  assumes "driver dev p n s = Some (r, s')"
  shows "arpcache s' = arpcache s" "udptab s' = udptab s" "netdata s' = netdata s" "pkts s' = pkts s" "kinv s' = kinv s"
    "pool_own s' = pool_own s" "netbufpool s' = netbufpool s" "currpid s' = currpid s" "proctab s' = proctab s" "pkont s' = pkont s"
    "nkont s' = nkont s" "nstate.more s' = snd (dev p n (nstate.more s))"
proof -
  have s': "s' = nstate.more_update (\<lambda>_. snd (dev p n (nstate.more s))) s" using assms by (auto simp: driver_def Let_def case_prod_beta)
  have b: "busy s' = busy s" by (rule busy_cong) (simp_all add: s')
  show "arpcache s' = arpcache s" "udptab s' = udptab s" "netdata s' = netdata s" "pkts s' = pkts s"
    "netbufpool s' = netbufpool s" "currpid s' = currpid s" "proctab s' = proctab s" "pkont s' = pkont s" "nkont s' = nkont s"
    "nstate.more s' = snd (dev p n (nstate.more s))" by (simp_all add: s')
  show "kinv s' = kinv s"
    by (simp add: s' kinv_def kq_def kids_def qof_def eligible_def ksem_def sem_inv_def kmsg_def msg_inv_def
      kheap_def kstk_def stk_ok_def kpend_def cong: prstate.case_cong)
  show "pool_own s' = pool_own s" by (intro ext) (simp add: pool_own_def pool_rep_def b, simp add: s')
qed

text \<open>What is asked of a driver below, when it takes the frame: that the ARP cache is as before. Drivers that take the frame
  at once do; so do those that, as \<^verbatim>\<open>ethwrite\<close>, count a free descriptor off a semaphore first, when there is one.\<close>

definition keeps_cache :: "'z nstate_scheme ether \<Rightarrow> bool" where
  "keeps_cache ether \<longleftrightarrow> (\<forall>p n s r s'. ether p n s = Some (r, s') \<longrightarrow> arpcache s' = arpcache s)"

lemma keeps_cacheD: "keeps_cache ether \<Longrightarrow> ether p n s = Some (r, s') \<Longrightarrow> arpcache s' = arpcache s"
  unfolding keeps_cache_def by blast

definition slot_driver :: "int \<Rightarrow> (packet \<Rightarrow> int \<Rightarrow> 'z \<Rightarrow> int \<times> 'z) \<Rightarrow> 'z nstate_scheme ether" where
  "slot_driver osem dev p n s =
     (if sem_ok osem \<and> scount (semtab s osem) > 0 then do { (_, s) \<leftarrow> wait osem s; driver dev p n s } else None)"

lemma keeps_cache_drivers: "keeps_cache (driver dev)" "keeps_cache (slot_driver osem dev)"
proof -
  show d: "keeps_cache (driver dev)" unfolding keeps_cache_def using driver_fields(1) by blast
  show "keeps_cache (slot_driver osem dev)" unfolding keeps_cache_def
  proof (intro allI impI)
    fix p n s r s' assume "slot_driver osem dev p n s = Some (r, s')"
    then obtain q t where t: "wait osem s = Some (q, t)" "driver dev p n t = Some (r, s')"
      by (auto simp: slot_driver_def bind_eq_Some_conv split: if_split_asm)
    have "arpcache t = arpcache s" by (rule net_fields) (rule untouchedD(17)[OF wait_untouched[OF t(1), of UNIV]], simp)
    then show "arpcache s' = arpcache s" using keeps_cacheD[OF d t(2)] by simp
  qed
qed

section \<open>One entry for an address\<close>

definition arp_distinct :: "'z nstate_scheme \<Rightarrow> bool" where
  "arp_distinct s \<longleftrightarrow> (\<forall>i \<in> {0..<ARP_SIZ}. \<forall>j \<in> {0..<ARP_SIZ}. arstate (arpcache s i) \<noteq> AR_FREE \<longrightarrow> arstate (arpcache s j) \<noteq> AR_FREE \<longrightarrow>
     arpaddr (arpcache s i) = arpaddr (arpcache s j) \<longrightarrow> i = j)"

lemma arp_distinct_same: "arpcache s' = arpcache s \<Longrightarrow> arp_distinct s' = arp_distinct s"
  by (simp add: arp_distinct_def)

lemma arp_distinct_net [simp]: "arp_distinct (s\<lparr>nkont := k\<rparr>) = arp_distinct s" "arp_distinct (s\<lparr>pkts := h\<rparr>) = arp_distinct s"
  by (rule arp_distinct_same, simp)+

lemma arp_lookup_same: "arpcache s' = arpcache s \<Longrightarrow> arp_lookup ip s' = arp_lookup ip s"
  by (simp add: arp_lookup_def)

lemma ar_upd_fields [simp]:
  "arpcache (ar_upd i f s) = (arpcache s)(i := f (arpcache s i))" "udptab (ar_upd i f s) = udptab s" "netdata (ar_upd i f s) = netdata s"
  "pkts (ar_upd i f s) = pkts s" "kinv (ar_upd i f s) = kinv s" "pool_own (ar_upd i f s) = pool_own s"
  "netbufpool (ar_upd i f s) = netbufpool s" "currpid (ar_upd i f s) = currpid s" "proctab (ar_upd i f s) = proctab s"
  "pkont (ar_upd i f s) = pkont s" "nkont (ar_upd i f s) = nkont s" "nstate.more (ar_upd i f s) = nstate.more s"
  by (simp_all add: ar_upd_def)

lemma arp_lookup_Some:
  assumes "arp_lookup ip s = Some i"
  shows "0 \<le> i" "i < ARP_SIZ" "arstate (arpcache s i) \<noteq> AR_FREE" "arpaddr (arpcache s i) = ip"
  using first_slot_Some[OF assms[unfolded arp_lookup_def]] by auto

lemma arp_lookup_None: "arp_lookup ip s = None \<longleftrightarrow> (\<forall>i. 0 \<le> i \<longrightarrow> i < ARP_SIZ \<longrightarrow> arstate (arpcache s i) \<noteq> AR_FREE \<longrightarrow> arpaddr (arpcache s i) \<noteq> ip)"
  unfolding arp_lookup_def first_slot_None by auto

lemma arp_lookup_eq:
  assumes "arp_distinct s" "0 \<le> i" "i < ARP_SIZ" "arstate (arpcache s i) \<noteq> AR_FREE" "arpaddr (arpcache s i) = ip"
  shows "arp_lookup ip s = Some i"
proof (cases "arp_lookup ip s")
  case None
  then show ?thesis using assms(2-5) by (simp add: arp_lookup_None)
next
  case (Some j)
  note L = arp_lookup_Some[OF Some]
  have "i \<in> {0..<ARP_SIZ}" "j \<in> {0..<ARP_SIZ}" using assms(2,3) L(1,2) by auto
  then have "i = j" using assms(1,4,5) L(3,4) unfolding arp_distinct_def by metis
  then show ?thesis using Some by simp
qed

text \<open>An entry may change as long as its address is not that of another.\<close>

lemma arp_distinct_upd:
  assumes "arp_distinct s"
    and "\<And>j. \<lbrakk>0 \<le> j; j < ARP_SIZ; j \<noteq> i; arstate (arpcache s j) \<noteq> AR_FREE; arstate (f (arpcache s i)) \<noteq> AR_FREE\<rbrakk> \<Longrightarrow>
      arpaddr (arpcache s j) \<noteq> arpaddr (f (arpcache s i))"
  shows "arp_distinct (ar_upd i f s)"
  using assms unfolding arp_distinct_def ar_upd_fields by (auto simp: fun_upd_apply) metis+

lemma arp_alloc_cases:
  assumes "arp_alloc s = (slot, s')"
  obtains "slot = SYSERR" "s' = s" "\<forall>i. 0 \<le> i \<longrightarrow> i < ARP_SIZ \<longrightarrow> arstate (arpcache s i) = AR_PENDING" |
    f where "0 \<le> slot" "slot < ARP_SIZ" "s' = ar_upd slot f s" "arstate (f (arpcache s slot)) = AR_FREE" "arstate (arpcache s slot) \<noteq> AR_PENDING"
proof -
  let ?c = "\<lambda>_. \<lparr>arstate = AR_FREE, arpaddr = 0, arpid = 0, arhaddr = replicate 6 0\<rparr>"
  consider "first_slot (nat ARP_SIZ) 0 (\<lambda>i. arstate (arpcache s i) = AR_FREE) = Some slot" "s' = ar_upd slot ?c s" |
    "first_slot (nat ARP_SIZ) 0 (\<lambda>i. arstate (arpcache s i) = AR_RESOLVED) = Some slot" "s' = ar_upd slot ?c s" |
    "first_slot (nat ARP_SIZ) 0 (\<lambda>i. arstate (arpcache s i) = AR_FREE) = None"
    "first_slot (nat ARP_SIZ) 0 (\<lambda>i. arstate (arpcache s i) = AR_RESOLVED) = None" "slot = SYSERR" "s' = s"
    using assms by (auto simp: arp_alloc_def Let_def split: option.splits)
  then show ?thesis
  proof cases
    case 1
    from first_slot_Some[OF 1(1)] show ?thesis using that(2)[of ?c] 1(2) by auto
  next
    case 2
    from first_slot_Some[OF 2(1)] show ?thesis using that(2)[of ?c] 2(2) by auto
  next
    case 3
    have "arstate (arpcache s i) = AR_PENDING" if "0 \<le> i" "i < ARP_SIZ" for i
      using 3(1,2) that unfolding first_slot_None by (cases "arstate (arpcache s i)") auto
    then show ?thesis using that(1) 3(3,4) by blast
  qed
qed

lemma arp_alloc_distinct: "arp_distinct s \<Longrightarrow> arp_alloc s = (slot, s') \<Longrightarrow> arp_distinct s'"
  by (erule arp_alloc_cases) (auto intro: arp_distinct_upd)

text \<open>A new entry for an address that has none.\<close>

lemma arp_alloc_new:
  assumes d: "arp_distinct s" and al: "arp_alloc s = (slot, s')" "slot \<noteq> SYSERR" and none: "arp_lookup ip s = None"
    and f: "\<And>e. arpaddr (f e) = ip"
  shows "arp_distinct (ar_upd slot f s')" "0 \<le> slot" "slot < ARP_SIZ"
proof -
  obtain g where g: "0 \<le> slot" "slot < ARP_SIZ" "s' = ar_upd slot g s" using al by (auto elim!: arp_alloc_cases)
  then show "0 \<le> slot" "slot < ARP_SIZ" by blast+
  have "arp_distinct s'" by (rule arp_alloc_distinct[OF d al(1)])
  then show "arp_distinct (ar_upd slot f s')"
  proof (rule arp_distinct_upd)
    fix j assume "0 \<le> j" "j < ARP_SIZ" "j \<noteq> slot" "arstate (arpcache s' j) \<noteq> AR_FREE"
    then show "arpaddr (arpcache s' j) \<noteq> arpaddr (f (arpcache s' slot))" using none[unfolded arp_lookup_None] g(3) f by simp
  qed
qed

section \<open>Frames\<close>

lemma freebuf_more: "freebuf x s = Some (r, s') \<Longrightarrow> kstate.more s' = kstate.more s"
proof -
  assume "freebuf x s = Some (r, s')"
  then consider "s' = s" | m b k r' s1 where "s1 = s\<lparr>mem := m, buftab := b\<rparr>" "signal k s1 = Some (r', s')"
    by (auto simp: freebuf_def bind_eq_Some_conv Let_def split: if_split_asm)
  then show ?thesis
  proof cases
    case 2
    then show ?thesis using untouchedD(17)[OF signal_untouched[OF 2(2), of UNIV]] by simp
  qed simp
qed

lemma drop_packet_more: "drop_packet x s = Some (r, s') \<Longrightarrow> kstate.more s' = kstate.more s"
  by (auto simp: drop_packet_def bind_eq_Some_conv dest: freebuf_more)

lemma recvclr_more: "recvclr s = Some (m, s') \<Longrightarrow> kstate.more s' = kstate.more s"
  by (auto simp: recvclr_def bind_eq_Some_conv split: if_split_asm dest: untouchedD(17)[OF pr_upd_untouched])

lemma recvtime_rest_more: "recvtime_rest s = Some (m, s') \<Longrightarrow> kstate.more s' = kstate.more s"
  by (auto simp: recvtime_rest_def bind_eq_Some_conv split: if_split_asm dest: untouchedD(17)[OF pr_upd_untouched])

lemma cache_more: "kstate.more s' = kstate.more (s :: 'z nstate_scheme) \<Longrightarrow> arp_distinct s' = arp_distinct s"
  by (rule arp_distinct_same) (rule net_fields)

section \<open>Every call keeps the entries apart\<close>

text \<open>All that this asks of the driver is that it leaves the cache alone.\<close>

lemma arp_in_rest_distinct:
  assumes k: "keeps_cache ether" and d: "arp_distinct s" and found: "found = None \<Longrightarrow> arp_lookup (get32 (pkts s x) arp_sndpa) s = None"
    and r: "arp_in_rest ether x found s = Some (r, s')"
  shows "arp_distinct s'"
proof -
  let ?p = "pkts s x"
  let ?f = "\<lambda>e. e\<lparr>arpaddr := get32 ?p arp_sndpa, arhaddr := get_bytes ?p arp_sndha 6, arstate := AR_RESOLVED\<rparr>"
  consider "drop_packet x s = Some (r, s')" | t where "arp_distinct t" "drop_packet x t = Some (r, s')" |
    t a b u where "arp_distinct t" "ether a ARP_LEN t = Some (b, u)" "drop_packet x u = Some (r, s')"
  proof (cases found)
    case (Some i)
    then show ?thesis using r d that by (auto simp: arp_in_rest_def Let_def bind_eq_Some_conv split: if_split_asm)
  next
    case None
    obtain slot t where al: "arp_alloc s = (slot, t)" by fastforce
    show ?thesis
    proof (cases "slot = SYSERR")
      case True
      then show ?thesis using r None al that arp_alloc_distinct[OF d al] by (auto simp: arp_in_rest_def Let_def split: if_split_asm)
    next
      case False
      have "arp_distinct (ar_upd slot ?f t)" using arp_alloc_new(1)[OF d al False found[OF None], of ?f] by simp
      then show ?thesis using r None al False that by (auto simp: arp_in_rest_def Let_def bind_eq_Some_conv split: if_split_asm)
    qed
  qed
  then show ?thesis
  proof cases
    case 1
    then show ?thesis using d cache_more[OF drop_packet_more] by blast
  next
    case 2
    then show ?thesis using cache_more[OF drop_packet_more] by blast
  next
    case 3
    then show ?thesis using cache_more[OF drop_packet_more] arp_distinct_same[OF keeps_cacheD[OF k]] by blast
  qed
qed

theorem arp_in_distinct:
  assumes k: "keeps_cache ether" and d: "arp_distinct s" and r: "arp_in ether x s = Some (r, s')"
  shows "arp_distinct s'"
proof -
  let ?p = "arp_ntoh (pkts s x)"
  let ?s = "s\<lparr>pkts := (pkts s)(x := ?p)\<rparr>"
  let ?g = "\<lambda>e. e\<lparr>arhaddr := get_bytes ?p arp_sndha 6\<rparr>" and ?h = "\<lambda>e. e\<lparr>arstate := AR_RESOLVED\<rparr>"
  have d1: "arp_distinct ?s" using d by (simp only: arp_distinct_net)
  show ?thesis
  proof (cases "get16 ?p arp_htype \<noteq> 1 \<or> get16 ?p arp_ptype \<noteq> 0x0800")
    case True
    then have "drop_packet x ?s = Some (r, s')" using r by (simp add: arp_in_def Let_def)
    then show ?thesis using d1 cache_more[OF drop_packet_more] by blast
  next
    case ok: False
    show ?thesis
    proof (cases "arp_lookup (get32 ?p arp_sndpa) ?s")
      case None
      then have "arp_in_rest ether x None ?s = Some (r, s')" using r ok by (simp add: arp_in_def Let_def)
      then show ?thesis by (rule arp_in_rest_distinct[OF k d1, rotated -1]) (use None in simp_all)
    next
      case (Some i)
      note L = arp_lookup_Some[OF Some]
      have other: "arpaddr (arpcache ?s j) \<noteq> arpaddr (arpcache ?s i)"
        if "0 \<le> j" "j < ARP_SIZ" "j \<noteq> i" "arstate (arpcache ?s j) \<noteq> AR_FREE" for j
      proof
        assume "arpaddr (arpcache ?s j) = arpaddr (arpcache ?s i)"
        moreover have "i \<in> {0..<ARP_SIZ}" "j \<in> {0..<ARP_SIZ}" using L(1,2) that by auto
        ultimately show False using d1 L(3) that(3,4) unfolding arp_distinct_def by metis
      qed
      let ?s1 = "ar_upd i ?g ?s"
      have d2: "arp_distinct ?s1" by (rule arp_distinct_upd[OF d1]) (use other in simp)
      show ?thesis
      proof (cases "arstate (arpcache ?s i) = AR_PENDING")
        case False
        then have "arp_in_rest ether x (Some i) ?s1 = Some (r, s')" using r ok Some by (simp add: arp_in_def Let_def)
        then show ?thesis by (rule arp_in_rest_distinct[OF k d2, rotated -1]) simp_all
      next
        case True
        let ?s2 = "ar_upd i ?h ?s1"
        let ?s3 = "?s2\<lparr>nkont := (nkont s)(currpid s := Some (N_arp_in x (Some i)))\<rparr>"
        have "arp_distinct ?s2" by (rule arp_distinct_upd[OF d2]) (use other in simp)
        then have d3: "arp_distinct ?s3" by (simp only: arp_distinct_net)
        obtain r' where "send (arpid (arpcache s i)) 1 ?s3 = Some (r', s')"
          using r ok Some True by (auto simp: arp_in_def Let_def bind_eq_Some_conv)
        from cache_more[OF untouchedD(17)[OF send_untouched[OF this]]] d3 show ?thesis by blast
      qed
    qed
  qed
qed

lemma arp_tries_distinct:
  assumes k: "keeps_cache ether" and "arp_distinct s" "arp_tries ether n slot apkt user s = Some (r, s')"
  shows "arp_distinct s'"
  using assms(2,3)
proof (induction n arbitrary: s)
  case 0
  then have "s' = ar_upd slot (\<lambda>e. e\<lparr>arstate := AR_FREE\<rparr>) s" by simp
  then show ?case using 0(1) by (auto intro: arp_distinct_upd)
next
  case (Suc n)
  obtain a s1 where s1: "ether apkt ARP_LEN s = Some (a, s1)"
    using Suc.prems(2) by (auto split: option.splits)
  let ?s2 = "s1\<lparr>nkont := (nkont s1)(currpid s1 := Some (N_arp n slot apkt user))\<rparr>"
  obtain m s3 where s3: "recvtime 300 ?s2 = Some (m, s3)" using Suc.prems(2) s1 by (auto split: option.splits)
  have "arp_distinct ?s2" using Suc.prems(1) arp_distinct_same[OF keeps_cacheD[OF k s1]] by (simp only: arp_distinct_net)
  then have d3: "arp_distinct s3" using cache_more[OF recvtime_more[OF s3]] by blast
  show ?case
  proof (cases m)
    case (Done msg)
    then have "arp_answer slot msg (arp_tries ether n slot apkt user) s3 = Some (r, s')" using Suc.prems(2) s1 s3 by simp
    then show ?thesis using Suc.IH[OF d3] d3 by (auto simp: arp_answer_def split: if_split_asm)
  next
    case Pending
    then show ?thesis using Suc.prems(2) s1 s3 d3 by simp
  qed
qed

theorem arp_resolve_distinct:
  assumes k: "keeps_cache ether" and d: "arp_distinct s"
  shows "arp_resolve ether ip user s = Some (r, s') \<Longrightarrow> arp_distinct s'"
    "arp_resolve_rest ether n slot apkt user s = Some (r, s') \<Longrightarrow> arp_distinct s'"
proof -
  assume r: "arp_resolve ether ip user s = Some (r, s')"
  show "arp_distinct s'"
  proof (cases "ip = 0xFFFFFFFF \<or> ip = ipbcast (netdata s) \<or> arp_lookup ip s \<noteq> None")
    case True
    then have "s' = s" using r by (auto simp: arp_resolve_def split: if_split_asm)
    then show ?thesis using d by simp
  next
    case no: False
    obtain e t where al: "arp_alloc s = (e, t)" by fastforce
    show ?thesis
    proof (cases "e = SYSERR")
      case True
      then show ?thesis using r no al arp_alloc_distinct[OF d al] by (auto simp: arp_resolve_def)
    next
      case False
      let ?f = "\<lambda>e. e\<lparr>arstate := AR_PENDING, arpaddr := ip, arpid := currpid t\<rparr>"
      have d1: "arp_distinct (ar_upd e ?f t)" using arp_alloc_new(1)[OF d al False, of ip ?f] no by simp
      obtain m s2 where "recvclr (ar_upd e ?f t) = Some (m, s2)" "arp_tries ether 3 e (arp_request (netdata t) ip) user s2 = Some (r, s')"
        using r no al False by (auto simp: arp_resolve_def Let_def bind_eq_Some_conv)
      then show ?thesis using arp_tries_distinct[OF k] cache_more[OF recvclr_more] d1 by blast
    qed
  qed
next
  assume "arp_resolve_rest ether n slot apkt user s = Some (r, s')"
  then obtain m t where t: "recvtime_rest s = Some (m, t)" "arp_answer slot m (arp_tries ether n slot apkt user) t = Some (r, s')"
    by (auto simp: arp_resolve_rest_def bind_eq_Some_conv)
  have "arp_distinct t" using d cache_more[OF recvtime_rest_more[OF t(1)]] by blast
  then show "arp_distinct s'" using t(2) arp_tries_distinct[OF k] by (auto simp: arp_answer_def split: if_split_asm)
qed

section \<open>Asking and answering\<close>

text \<open>What is in the cache is returned at once; an address that another process is waiting for is refused.\<close>

lemma arp_resolve_known:
  assumes "arp_distinct s" "0 \<le> i" "i < ARP_SIZ" "arpaddr (arpcache s i) = ip" "ip \<noteq> 0xFFFFFFFF" "ip \<noteq> ipbcast (netdata s)"
  shows "arstate (arpcache s i) = AR_RESOLVED \<Longrightarrow> arp_resolve ether ip user s = Some (Done (OK, arhaddr (arpcache s i)), s)"
    "arstate (arpcache s i) = AR_PENDING \<Longrightarrow> arp_resolve ether ip user s = Some (Done (SYSERR, []), s)"
  using arp_lookup_eq[of s i ip] assms by (simp_all add: arp_resolve_def)

text \<open>Otherwise a request goes out and the caller sleeps on a pending entry.\<close>

theorem arp_resolve_asks:
  assumes inv: "kinv s" and cur: "currpid s \<noteq> NULLPROC" "pkont s (currpid s) \<noteq> Some K_receive"
    and ip: "ip \<noteq> 0xFFFFFFFF" "ip \<noteq> ipbcast (netdata s)" "arp_lookup ip s = None"
    and room: "\<exists>i. 0 \<le> i \<and> i < ARP_SIZ \<and> arstate (arpcache s i) \<noteq> AR_PENDING"
  shows "\<exists>s' i. arp_resolve (driver dev) ip user s = Some (Pending, s') \<and> kinv s' \<and> 0 \<le> i \<and> i < ARP_SIZ \<and>
    arstate (arpcache s' i) = AR_PENDING \<and> arpaddr (arpcache s' i) = ip \<and> arpid (arpcache s' i) = currpid s \<and>
    prstate (proctab s' (currpid s)) = PR_RECTIM \<and> nkont s' (currpid s) = Some (N_arp 2 i (arp_request (netdata s) ip) user) \<and> pkts s' = pkts s \<and>
    nstate.more s' = snd (dev (arp_request (netdata s) ip) ARP_LEN (nstate.more s))"
proof -
  obtain i t where al: "arp_alloc s = (i, t)" by fastforce
  obtain f where f: "0 \<le> i" "i < ARP_SIZ" "t = ar_upd i f s" using al room by (auto elim!: arp_alloc_cases)
  let ?s1 = "ar_upd i (\<lambda>e. e\<lparr>arstate := AR_PENDING, arpaddr := ip, arpid := currpid t\<rparr>) t"
  have i1: "kinv ?s1" "pkont ?s1 (currpid ?s1) \<noteq> Some K_receive" "currpid ?s1 = currpid s" using inv cur f(3) by simp_all
  obtain m s2 where s2: "recvclr ?s1 = Some (m, s2)" "kinv s2" "\<not> prhasmsg (proctab s2 (currpid s))" "currpid s2 = currpid s"
    using recvclr_inv[OF i1(1,2)] i1(3) by auto
  note m2 = net_fields[OF recvclr_more[OF s2(1)]]
  have x2: "nstate.more s2 = nstate.more s" "netdata s2 = netdata s" "arpcache s2 = arpcache ?s1"
    using net_more[OF recvclr_more[OF s2(1)]] m2 f(3) by simp_all
  obtain a s3 where s3: "driver dev (arp_request (netdata s) ip) ARP_LEN s2 = Some (a, s3)" by (auto simp: driver_def Let_def case_prod_beta)
  note D = driver_fields[OF s3]
  let ?s4 = "s3\<lparr>nkont := (nkont s3)(currpid s3 := Some (N_arp 2 i (arp_request (netdata s) ip) user))\<rparr>"
  have pre: "kinv ?s4" "currpid ?s4 \<noteq> NULLPROC" "\<not> prhasmsg (proctab ?s4 (currpid ?s4))" using D s2 cur(1) by simp_all
  obtain s' where s': "recvtime 300 ?s4 = Some (Pending, s')" "kinv s'" "prstate (proctab s' (currpid s)) = PR_RECTIM"
    using recvtime_block[OF pre, of 300] D s2(4) by auto
  note m' = net_fields[OF recvtime_more[OF s'(1)]]
  have more: "nstate.more s' = nstate.more s3" using net_more[OF recvtime_more[OF s'(1)]] by simp
  have tries: "arp_tries (driver dev) 3 i (arp_request (netdata s) ip) user s2 = Some (Pending, s')"
    using s3 s'(1) by (simp add: numeral_3_eq_3 numeral_2_eq_2)
  have "arp_resolve (driver dev) ip user s = Some (Pending, s')"
    using ip al f(1,3) s2(1) tries by (simp add: arp_resolve_def Let_def)
  moreover have "arpcache s' i = (arpcache t i)\<lparr>arstate := AR_PENDING, arpaddr := ip, arpid := currpid s\<rparr>"
    using m' D x2 f(3) by simp
  moreover have "nkont s' (currpid s) = Some (N_arp 2 i (arp_request (netdata s) ip) user)" using m' D s2(4) by simp
  moreover have "pkts s' = pkts s" using m' D m2 f(3) by simp
  moreover have "nstate.more s' = snd (dev (arp_request (netdata s) ip) ARP_LEN (nstate.more s))" using more D(12) x2 by simp
  ultimately show ?thesis using s'(2,3) f(1,2) by (intro exI[of _ s'] exI[of _ i]) simp
qed

text \<open>The answer: the entry is complete and the waiting process has its message.\<close>

theorem arp_in_wakes:
  assumes inv: "kinv s" and d: "arp_distinct s" and i: "0 \<le> i" "i < ARP_SIZ" "arstate (arpcache s i) = AR_PENDING"
    and c: "pid_ok (arpid (arpcache s i))" "prstate (proctab s (arpid (arpcache s i))) = PR_RECTIM"
    and p: "p = arp_ntoh (pkts s x)" "get16 p arp_htype = 1" "get16 p arp_ptype = 0x0800" "get32 p arp_sndpa = arpaddr (arpcache s i)"
  shows "\<exists>s'. arp_in (driver dev) x s = Some (Pending, s') \<and> kinv s' \<and> runnable (prstate (proctab s' (arpid (arpcache s i)))) \<and>
    prhasmsg (proctab s' (arpid (arpcache s i))) \<and> prmsg (proctab s' (arpid (arpcache s i))) = 1 \<and>
    arpcache s' = (arpcache s)(i := (arpcache s i)\<lparr>arhaddr := get_bytes p arp_sndha 6, arstate := AR_RESOLVED\<rparr>) \<and>
    nkont s' (currpid s) = Some (N_arp_in x (Some i)) \<and> pkts s' = (pkts s)(x := p)"
proof -
  let ?s = "s\<lparr>pkts := (pkts s)(x := p)\<rparr>"
  let ?s1 = "ar_upd i (\<lambda>e. e\<lparr>arhaddr := get_bytes p arp_sndha 6\<rparr>) ?s"
  let ?s2 = "ar_upd i (\<lambda>e. e\<lparr>arstate := AR_RESOLVED\<rparr>) ?s1"
  let ?s3 = "?s2\<lparr>nkont := (nkont s)(currpid s := Some (N_arp_in x (Some i)))\<rparr>"
  let ?c = "arpid (arpcache s i)"
  have l: "arp_lookup (get32 p arp_sndpa) ?s = Some i" by (rule arp_lookup_eq) (use d i p(4) in simp_all)
  have pre: "kinv ?s3" "prstate (proctab ?s3 ?c) \<in> {PR_RECV, PR_RECTIM}" using inv c(2) by simp_all
  obtain s' where s': "send ?c 1 ?s3 = Some (OK, s')" "kinv s'" "prmsg (proctab s' ?c) = 1" "prhasmsg (proctab s' ?c)"
    "runnable (prstate (proctab s' ?c))"
    using send_release[OF pre(1) c(1) pre(2), of 1] by blast
  note n = net_fields[OF untouchedD(17)[OF send_untouched[OF s'(1), of UNIV]]]
  have "arp_in (driver dev) x s = Some (Pending, s')"
    using p l i(3) s'(1) unfolding arp_in_def Let_def p(1)[symmetric] by simp
  then show ?thesis using s' n by (intro exI[of _ s']) simp
qed

text \<open>When the process runs again it returns the address.\<close>

lemma arp_resolve_returns:
  assumes "kinv s" "pkont s (currpid s) \<noteq> Some K_receive" "prhasmsg (proctab s (currpid s))" "prmsg (proctab s (currpid s)) = 1"
  shows "\<exists>s'. arp_resolve_rest ether n i apkt user s = Some (Done (OK, arhaddr (arpcache s i)), s') \<and> kinv s'"
proof -
  obtain s' where s': "recvtime_rest s = Some (1, s')" "kinv s'" using recvtime_rest_inv[OF assms(1,2)] assms(3,4) by auto
  note n = net_fields[OF recvtime_rest_more[OF s'(1)]]
  show ?thesis using s' n by (simp add: arp_resolve_rest_def arp_answer_def)
qed

text \<open>A request for our address is answered, and its sender is known from then on.\<close>

theorem arp_in_answers:
  assumes inv: "kinv s" and d: "arp_distinct s" and own: "net_own s fr {#x - 4#} T" and room: "length fr + 1 < 2 ^ 30"
    and p: "p = arp_ntoh (pkts s x)" "get16 p arp_htype = 1" "get16 p arp_ptype = 0x0800" "get16 p arp_op \<noteq> 2"
    and us: "ipvalid (netdata s)" "get32 p arp_tarpa = ipucast (netdata s)"
    and free: "case arp_lookup (get32 p arp_sndpa) s of Some i \<Rightarrow> arstate (arpcache s i) \<noteq> AR_PENDING
      | None \<Rightarrow> \<exists>i. 0 \<le> i \<and> i < ARP_SIZ \<and> arstate (arpcache s i) \<noteq> AR_PENDING"
  shows "\<exists>s' i. arp_in (driver dev) x s = Some (Done (), s') \<and> kinv s' \<and> arp_distinct s' \<and> net_own s' ((x - 4) # fr) {#} T \<and>
    0 \<le> i \<and> i < ARP_SIZ \<and> arstate (arpcache s' i) = AR_RESOLVED \<and> arpaddr (arpcache s' i) = get32 p arp_sndpa \<and>
    arhaddr (arpcache s' i) = get_bytes p arp_sndha 6 \<and> netdata s' = netdata s \<and>
    nstate.more s' = snd (dev (arp_reply (netdata s) p) ARP_LEN (nstate.more s))"
proof -
  let ?s = "s\<lparr>pkts := (pkts s)(x := p)\<rparr>" and ?m = "get_bytes p arp_sndha 6" and ?ip = "get32 p arp_sndpa"
  have lk: "arp_lookup ?ip ?s = arp_lookup ?ip s" by (rule arp_lookup_same) simp
  obtain i t where t: "arp_in (driver dev) x s = do { (_, s) \<leftarrow> driver dev (arp_reply (netdata s) p) ARP_LEN t; drop_packet x s }"
    "0 \<le> i" "i < ARP_SIZ" "arstate (arpcache t i) = AR_RESOLVED" "arpaddr (arpcache t i) = ?ip" "arhaddr (arpcache t i) = ?m"
    "kinv t = kinv s" "pool_own t = pool_own s" "netbufpool t = netbufpool s" "nstate.more t = nstate.more s" "netdata t = netdata s"
  proof (cases "arp_lookup ?ip s")
    case (Some i)
    note L = arp_lookup_Some[OF Some]
    let ?t = "ar_upd i (\<lambda>e. e\<lparr>arhaddr := ?m\<rparr>) ?s"
    have r: "arstate (arpcache s i) = AR_RESOLVED" using free Some L(3) by (cases "arstate (arpcache s i)") auto
    show ?thesis
    proof (rule that[of ?t i])
      show "arp_in (driver dev) x s = do { (_, s) \<leftarrow> driver dev (arp_reply (netdata s) p) ARP_LEN ?t; drop_packet x s }"
        unfolding arp_in_def Let_def p(1)[symmetric] using p(2-4) us Some lk r L(1) by (simp add: arp_in_rest_def Let_def)
    qed (use L r in simp_all)
  next
    case None
    obtain i u where al: "arp_alloc ?s = (i, u)" by fastforce
    obtain f where f: "0 \<le> i" "i < ARP_SIZ" "u = ar_upd i f ?s" using al free None by (auto elim!: arp_alloc_cases)
    let ?t = "ar_upd i (\<lambda>e. e\<lparr>arpaddr := ?ip, arhaddr := ?m, arstate := AR_RESOLVED\<rparr>) u"
    show ?thesis
    proof (rule that[of ?t i])
      show "arp_in (driver dev) x s = do { (_, s) \<leftarrow> driver dev (arp_reply (netdata s) p) ARP_LEN ?t; drop_packet x s }"
        unfolding arp_in_def Let_def p(1)[symmetric] using p(2-4) us None lk al f by (simp add: arp_in_rest_def Let_def)
    qed (use f in simp_all)
  qed
  obtain a t1 where t1: "driver dev (arp_reply (netdata s) p) ARP_LEN t = Some (a, t1)" by (auto simp: driver_def Let_def case_prod_beta)
  note D = driver_fields[OF t1]
  have own1: "net_own t1 fr ({#} + {#x - 4#}) T" using own D t by (simp add: net_own_def)
  have inv1: "kinv t1" using inv D t by simp
  obtain s' where s': "freebuf x t1 = Some (OK, s')" "kinv s'" "net_own s' ((x - 4) # fr) {#} T" "kstate.more s' = kstate.more t1"
    using freebuf_net[OF inv1 own1 room] by blast
  note n = net_fields[OF s'(4)]
  have more: "nstate.more s' = nstate.more t1" by (rule net_more[OF s'(4)])
  have run: "arp_in (driver dev) x s = Some (Done (), s')" using t(1) t1 s'(1) by (simp add: drop_packet_def)
  show ?thesis using run arp_in_distinct[OF keeps_cache_drivers(1) d run] s' t n D more by (intro exI[of _ s'] exI[of _ i]) simp
qed

end
