(* ===== verification/Net_Icmp_Spec.thy ===== *)
theory Net_Icmp_Spec
  imports Net_Icmp Net_Arp_Spec
begin

text \<open>What a ping program gets from an endpoint, and for how long.\<close>

lemma ic_upd_fields [simp]:
  "icmptab (ic_upd i f s) = (icmptab s)(i := f (icmptab s i))" "pkts (ic_upd i f s) = pkts s" "kinv (ic_upd i f s) = kinv s"
  "pool_own (ic_upd i f s) = pool_own s" "netbufpool (ic_upd i f s) = netbufpool s" "currpid (ic_upd i f s) = currpid s"
  "net_own (ic_upd i f s) = net_own s" "udptab (ic_upd i f s) = udptab s"
  by (simp_all add: ic_upd_def net_own_def[abs_def])

section \<open>Replies\<close>

definition echo_reply :: "packet \<Rightarrow> int \<Rightarrow> icmpentry \<Rightarrow> bool" where
  "echo_reply p i e \<longleftrightarrow> p net_ictype = 0 \<and> uint (get16 p net_icident) = i \<and> get32 p net_ipsrc = icremip e"

definition icmp_payload :: "packet \<Rightarrow> int \<Rightarrow> int \<times> byte list" where
  "icmp_payload p len = (let n = max 0 (min (uint (get16 p net_iplen) - 28) len) in (n, map (\<lambda>k. p (net_icdata + k)) [0..<nat n]))"

lemma icmp_in_stores:
  assumes i: "i < ICMP_SLOTS" and at: "icmp_at i k s" and p: "echo_reply (pkts s x) i (icmptab s i)"
  shows "icmp_in x s = Some (Done (), ic_upd i (\<lambda>e. e\<lparr>iccount := iccount e + 1, icqueue := (icqueue e)(k mod 8 := x), ictail := wrap ICMP_QSIZ (k mod 8)\<rparr>) s)"
proof -
  have "0 \<le> i" "\<not> k mod 8 < 0" "\<not> 8 \<le> k mod 8" using p by (auto simp: echo_reply_def not_less not_le)
  then show ?thesis using i at p
    by (simp add: icmp_in_def Let_def echo_reply_def icmp_at_def)
qed

theorem icmp_reply_received:
  assumes inv: "kinv s" and own: "net_own s fr {#x - 4#} T" and room: "length fr + 1 < 2 ^ 30"
    and i: "i < ICMP_SLOTS" and k: "0 \<le> k" "k < 8" and at: "icmp_at i k s" and p: "echo_reply (pkts s x) i (icmptab s i)"
    and fits: "fst (icmp_payload (pkts s x) len) \<le> 1472"
  shows "\<exists>s1 s2. icmp_in x s = Some (Done (), s1) \<and> icmp_recv i len timeout s1 = Some (Done (icmp_payload (pkts s x) len), s2) \<and>
    kinv s2 \<and> icmp_at i (k + 1) s2 \<and> net_own s2 ((x - 4) # fr) {#} T \<and> icremip (icmptab s2 i) = icremip (icmptab s i) \<and> pkts s2 = pkts s"
proof -
  let ?f = "\<lambda>e. e\<lparr>iccount := iccount e + 1, icqueue := (icqueue e)(k mod 8 := x), ictail := wrap ICMP_QSIZ (k mod 8)\<rparr>"
  let ?s1 = "ic_upd i ?f s"
  let ?g = "\<lambda>e. e\<lparr>ichead := wrap ICMP_SLOTS k, iccount := iccount e - 1\<rparr>"
  let ?s2 = "ic_upd i ?g ?s1"
  have i0: "0 \<le> i" using p by (auto simp: echo_reply_def)
  have e: "icstate (icmptab s i) = EP_USED" "ichead (icmptab s i) = k" "iccount (icmptab s i) = 0" using at by (simp_all add: icmp_at_def)
  have dq: "ic_dequeue i ?s1 = Some (x, ?s2)" using e k by (simp add: ic_dequeue_def Let_def)
  have own2: "net_own ?s2 fr ({#} + {#x - 4#}) T" "kinv ?s2" using own inv by simp_all
  obtain s' where s': "freebuf x ?s2 = Some (OK, s')" "kinv s'" "net_own s' ((x - 4) # fr) {#} T" "kstate.more s' = kstate.more ?s2"
    using freebuf_net[OF own2(2,1) room] by blast
  note n = net_fields[OF s'(4)]
  have c: "copy_out (pkts s x) net_icdata (fst (icmp_payload (pkts s x) len)) = Some (snd (icmp_payload (pkts s x) len))"
    using fits by (auto simp: copy_out_def icmp_payload_def Let_def)
  have m: "max 0 (min (uint (get16 (pkts s x) net_iplen) - 28) len) = fst (icmp_payload (pkts s x) len)"
    by (simp add: icmp_payload_def Let_def)
  have pk: "pkts ?s2 = pkts s" by simp
  have take: "icmp_take i len ?s1 = Some (icmp_payload (pkts s x) len, s')"
    unfolding icmp_take_def Let_def dq by (simp only: bind.bind_lunit prod.case m pk c s'(1) prod.collapse)
  have "icmp_recv i len timeout ?s1 = Some (Done (icmp_payload (pkts s x) len), s')"
    using i0 i e take by (simp add: icmp_recv_def finish_def)
  moreover have "icmp_at i (k + 1) s'"
    using e k n by (simp add: icmp_at_def wrap_mod)
  moreover have "icremip (icmptab s' i) = icremip (icmptab s i)" "pkts s' = pkts s" using n by simp_all
  ultimately show ?thesis using icmp_in_stores[OF i at p] s' by blast
qed

text \<open>The ninth: the head is behind the end of the queue.\<close>

theorem icmp_ninth_reply:
  assumes i: "i < ICMP_SLOTS" and at: "icmp_at i 8 s" and p: "echo_reply (pkts s x) i (icmptab s i)"
  shows "\<exists>s1. icmp_in x s = Some (Done (), s1) \<and> icmp_recv i len timeout s1 = None"
proof -
  have i0: "0 \<le> i" using p by (auto simp: echo_reply_def)
  show ?thesis using icmp_in_stores[OF i at p] i0 i at
    by (simp add: icmp_recv_def icmp_at_def icmp_take_def ic_dequeue_def finish_def)
qed

end
