(* ===== verification/Net_Ip_Spec.thy ===== *)
theory Net_Ip_Spec
  imports Net_Ip Net_Udp_Sim Net_Icmp_Spec
begin

text \<open>From one host to another: what IP output puts on the wire, IP input takes off; a datagram reaches its endpoint.\<close>

section \<open>Fields that do not overlap\<close>

lemma conv_put16:
  "i + 2 \<le> j \<or> j + 2 \<le> i \<Longrightarrow> conv16 i (put16 p j c) = put16 (conv16 i p) j c"
  "i + 4 \<le> j \<or> j + 2 \<le> i \<Longrightarrow> conv32 i (put16 p j c) = put16 (conv32 i p) j c"
  by (rule ext, auto simp: conv16_swaps conv32_swaps put16_def)+

lemma conv16_put16: "conv16 i (put16 p i c) = put16 p i (htons c)"
proof -
  have "conv16 i (put16 p i c) = put16 (put16 p i c) i (htons c)" by (simp add: conv16_def get16_put16)
  also have "\<dots> = put16 p i (htons c)" by (simp add: put16_def fun_upd_twist)
  finally show ?thesis .
qed

lemma put16_put16: "put16 (put16 p i a) i b = put16 p i b"
  by (rule ext) (simp add: put16_def)

lemma put16_other: "k \<noteq> i \<Longrightarrow> k \<noteq> i + 1 \<Longrightarrow> put16 p i c k = p k"
  by (simp add: put16_def)

lemma get_put16_other: "j + 2 \<le> i \<or> i + 2 \<le> j \<Longrightarrow> get16 (put16 p i c) j = get16 p j"
  "j + 4 \<le> i \<or> i + 2 \<le> j \<Longrightarrow> get32 (put16 p i c) j = get32 p j"
  by (auto simp: get16_def get32_def put16_def)

lemma ip_ntoh_cksum: "ip_ntoh (put16 p net_ipcksum c) = put16 (ip_ntoh p) net_ipcksum c"
  "udp_ntoh (put16 p net_ipcksum c) = put16 (udp_ntoh p) net_ipcksum c"
  "icmp_ntoh (put16 p net_ipcksum c) = put16 (icmp_ntoh p) net_ipcksum c"
  by (simp_all add: ip_ntoh_def udp_ntoh_def icmp_ntoh_def conv_put16)

lemma ip_seal_put: "\<exists>c. ip_seal p = put16 p net_ipcksum c"
  by (simp add: ip_seal_def Let_def put16_put16) blast

lemma icmp_seal_put: "\<exists>c. icmp_seal p n = put16 p net_iccksum c"
  by (simp add: icmp_seal_def Let_def put16_put16) blast

text \<open>Bytes that the conversions leave where they are.\<close>

lemma hton_bytes:
  "k < 16 \<or> k = 22 \<or> k = 23 \<Longrightarrow> ip_hton p k = p k" "k < 16 \<or> k = 22 \<or> k = 23 \<Longrightarrow> ip_ntoh p k = p k"
  "k < 34 \<Longrightarrow> udp_hton p k = p k" "k < 36 \<Longrightarrow> icmp_hton p k = p k" "34 \<le> k \<Longrightarrow> ip_ntoh p k = p k" "34 \<le> k \<Longrightarrow> ip_hton p k = p k"
  by (auto simp: ip_hton_def ip_ntoh_def udp_hton_def icmp_hton_def conv16_swaps conv32_swaps)

section \<open>UDP over the wire\<close>

theorem udp_wire:
  assumes p: "p net_ipproto = 17" "p net_ipvh = 0x45"
  shows "\<exists>c. ip_check (eth_ntoh (ip_out_packet p)) = Some (put16 (put16 p net_udpcksum 0) net_ipcksum c) \<and>
    \<not> reads_past (eth_ntoh (ip_out_packet p))"
proof -
  let ?u = "put16 p net_udpcksum 0"
  let ?q = "udp_hton ?u"
  obtain c where c: "ip_seal (ip_hton ?q) = put16 (ip_hton ?q) net_ipcksum c" using ip_seal_put by blast
  have w: "eth_ntoh (ip_out_packet p) = ip_seal (ip_hton ?q)" unfolding ip_out_packet_def hton_ntoh(4) using p(1) by (simp add: hton_ntoh)
  have n: "ip_ntoh (ip_seal (ip_hton ?q)) = put16 ?q net_ipcksum c" unfolding c ip_ntoh_cksum hton_ntoh ..
  have b: "put16 ?q net_ipcksum c net_ipvh = 0x45" "put16 ?q net_ipcksum c net_ipproto = 17"
    using p by (simp_all add: put16_other hton_bytes)
  have pr: "ip_seal (ip_hton ?q) net_ipproto = 17" unfolding c using p by (simp add: put16_other hton_bytes)
  have "ip_check (ip_seal (ip_hton ?q)) = Some (udp_ntoh (put16 ?q net_ipcksum c))"
    unfolding ip_check_def n Let_def using b ip_seal_checks[of "ip_hton ?q"] by simp
  also have "udp_ntoh (put16 ?q net_ipcksum c) = put16 ?u net_ipcksum c" unfolding ip_ntoh_cksum hton_ntoh ..
  finally show ?thesis using pr unfolding w reads_past_def by auto
qed

text \<open>A datagram for this host is queued at the endpoint its addresses select, with its data.\<close>

lemma deliver_cong:
  assumes "get16 p net_udpdport = get16 q net_udpdport" "get16 p net_udpsport = get16 q net_udpsport" "get32 p net_ipsrc = get32 q net_ipsrc"
  shows "deliver p x T = deliver q x T"
proof -
  have "accepts T p = accepts T q" by (rule ext) (simp add: accepts_def ep_match_def assms cong: option.case_cong)
  then show ?thesis by (simp add: deliver_def)
qed

theorem datagram_delivered:
  assumes inv: "kinv s" and tab: "udp_table s T" and own: "net_own s fr {#x - 4#} T"
    and p: "p net_ipproto = 17" "p net_ipvh = 0x45" and frame: "pkts s x = eth_ntoh (ip_out_packet p)"
    and us: "for_us (netdata s) p" and d: "deliver p x T = Some (i, T')"
  shows "\<exists>s'. ip_in x s = Some (Done (), s') \<and> kinv s' \<and> udp_table s' T' \<and> net_own s' fr {#} T' \<and>
    (\<forall>len. payload (pkts s' x) len = payload p len) \<and> get32 (pkts s' x) net_ipsrc = get32 p net_ipsrc \<and>
    get16 (pkts s' x) net_udpsport = get16 p net_udpsport"
proof -
  obtain c where c: "ip_check (pkts s x) = Some (put16 (put16 p net_udpcksum 0) net_ipcksum c)" "\<not> reads_past (pkts s x)"
    using udp_wire[OF p] frame by auto
  let ?p = "put16 (put16 p net_udpcksum 0) net_ipcksum c"
  let ?s = "s\<lparr>pkts := (pkts s)(x := ?p)\<rparr>"
  have f: "get16 ?p net_udpdport = get16 p net_udpdport" "get16 ?p net_udpsport = get16 p net_udpsport" "get32 ?p net_ipsrc = get32 p net_ipsrc"
    "get32 ?p net_ipdst = get32 p net_ipdst" "get16 ?p net_udplen = get16 p net_udplen" "?p net_ipproto = 17"
    "\<And>k. 42 \<le> k \<Longrightarrow> ?p k = p k"
    using p by (simp_all add: get_put16_other put16_other)
  have fu: "for_us (netdata ?s) ?p" using us f p by (auto simp: for_us_def split: if_split_asm)
  have "deliver (pkts ?s x) x T = Some (i, T')" using d deliver_cong[OF f(1-3), of x T] by simp
  moreover have "kinv ?s" "udp_table ?s T" "net_own ?s fr {#x - 4#} T" using inv tab own by (simp_all add: udp_table_def)
  ultimately obtain s' where s': "udp_in x ?s = Some s'" "kinv s'" "udp_table s' T'" "net_own s' fr {#} T'" "pkts s' = pkts ?s"
    using udp_in_delivers by blast
  have "ip_in x s = Some (Done (), s')" using c fu f(6) s'(1) by (simp add: ip_in_def ip_local_def)
  moreover have "payload (pkts s' x) len = payload p len" for len using f(5,7) s'(5) by (simp add: payload_def Let_def)
  ultimately show ?thesis using s' f by auto
qed

section \<open>Echo messages over the wire\<close>

lemma sum_words_cong: "(\<And>k. i \<le> k \<Longrightarrow> p k = q k) \<Longrightarrow> sum_words n p i a = sum_words n q i a"
  by (induction n arbitrary: i a) (simp_all add: get16_def)

lemma icmp_cksum_cong: "(\<And>k. i \<le> k \<Longrightarrow> p k = q k) \<Longrightarrow> icmp_cksum p i n = icmp_cksum q i n"
  using sum_words_cong[of i p q] by (simp add: icmp_cksum_def Let_def)

text \<open>A message with an even number of bytes passes exactly when its sum carries once at most.\<close>

theorem icmp_wire:
  assumes p: "p net_ipproto = 1" "p net_ipvh = 0x45" and n: "uint (get16 p net_iplen) = 20 + int (2 * n)" "2 \<le> n" "2 * n \<le> 1480"
    and s: "s = sum_list (be_words n (put16 (icmp_hton p) net_iccksum 0) net_ictype)"
  shows "if carries_again s then ip_check (eth_ntoh (ip_out_packet p)) = None
    else \<exists>c d. ip_check (eth_ntoh (ip_out_packet p)) = Some (put16 (put16 p net_iccksum c) net_ipcksum d)"
proof -
  let ?m = "int (2 * n)"
  let ?q = "icmp_seal (icmp_hton p) ?m"
  obtain c where c: "?q = put16 (icmp_hton p) net_iccksum c" using icmp_seal_put by blast
  obtain d where d: "ip_seal (ip_hton ?q) = put16 (ip_hton ?q) net_ipcksum d" using ip_seal_put by blast
  have w: "eth_ntoh (ip_out_packet p) = ip_seal (ip_hton ?q)" unfolding ip_out_packet_def using p(1) n(1) by (simp add: hton_ntoh)
  have nt: "ip_ntoh (ip_seal (ip_hton ?q)) = put16 ?q net_ipcksum d" unfolding d ip_ntoh_cksum hton_ntoh ..
  let ?r = "put16 ?q net_ipcksum d"
  have q: "?q k = p k" if "k < 36" for k unfolding c using that by (simp add: put16_other hton_bytes)
  have b: "?r net_ipvh = 0x45" "?r net_ipproto = 1" "get16 ?r net_iplen = get16 p net_iplen"
    using p q by (simp_all add: put16_other get_put16_other) (simp add: get16_def q)
  have ck: "icmp_cksum ?r net_ictype ?m = (if carries_again s then 0xFFFF else 0)"
    using icmp_cksum_cong[of net_ictype ?r ?q ?m] icmp_seal_checks[of n s "icmp_hton p"] n s by (simp add: put16_other)
  have "ip_check (ip_seal (ip_hton ?q)) = (if icmp_cksum ?r net_ictype ?m \<noteq> 0 then None else Some (icmp_ntoh ?r))"
    unfolding ip_check_def nt Let_def using b n(1) ip_seal_checks[of "ip_hton ?q"] by simp
  moreover have "icmp_ntoh ?r = put16 (put16 p net_iccksum (htons c)) net_ipcksum d"
  proof -
    have "icmp_ntoh ?q = icmp_ntoh (conv16 net_iccksum (put16 (conv16 net_iccksum (icmp_hton p)) net_iccksum (htons c)))"
      unfolding c conv16_put16 htons_twice by (simp add: put16_def conv16_swaps)
    also have "\<dots> = put16 p net_iccksum (htons c)"
      by (simp add: icmp_ntoh_def icmp_hton_def conv16_twice conv_put16 conv16_comm[of 40 38] conv16_comm[of 40 36] conv16_comm[of 38 36])
    finally show ?thesis unfolding ip_ntoh_cksum by simp
  qed
  ultimately show ?thesis unfolding w ck by auto
qed

section \<open>Start\<close>

text \<open>After \<open>net_init\<close> every buffer is in the pool, and no endpoint and no address is known.\<close>

theorem net_init_ready:
  assumes inv: "kinv s" and np: "0 \<le> nbpools s" "nbpools s < NBPOOLS" and sems: "i \<noteq> j" "sem_ok i" "sem_ok j"
      "sstate (semtab s i) = S_FREE" "sstate (semtab s j) = S_FREE"
    and heap: "heap_of s xs" "ff_alloc (roundmb 196080) xs = Some (buf, ys)"
  shows "\<exists>s'. net_init mac s = Some (Done (), s') \<and> udp_sim 129 s' (129, \<lambda>_. None) \<and>
    (\<forall>i. 0 \<le> i \<longrightarrow> i < ICMP_SLOTS \<longrightarrow> icstate (icmptab s' i) = EP_FREE) \<and>
    (\<forall>i. 1 \<le> i \<longrightarrow> i < ARP_SIZ \<longrightarrow> arstate (arpcache s' i) = AR_FREE) \<and> currpid s' = currpid s \<and>
    arpcache s' 0 = arpcache s 0 \<and> ethucast (netdata s') = mac \<and> ukont s' = ukont s \<and> pkont s' = pkont s \<and> proctab s' = proctab s"
proof -
  let ?n = "\<lparr>ipucast = 0, ipbcast = 0, ipmask = 0, ipprefix = 0, iprouter = 0, bootserver = 0, ipvalid = False,
       ethucast = mac, ethbcast = replicate 6 0xFF\<rparr>"
  let ?t = "s\<lparr>netdata := ?n\<rparr>"
  have args: "BP_MINB \<le> 1514" "1514 \<le> BP_MAXB" "(1 :: int) \<le> 129" "(129 :: int) \<le> BP_MAXN" by simp_all
  have pre: "kinv ?t" "0 \<le> nbpools ?t" "nbpools ?t < NBPOOLS" "heap_of ?t xs" using inv np heap(1) by simp_all
  have sz: "word_of_int (129 * ((1514 + 3 AND NOT 3) + 4)) = (196080 :: uint32)" by simp
  have al: "ff_alloc (roundmb (word_of_int (129 * ((1514 + 3 AND NOT 3) + 4)))) xs = Some (buf, ys)" unfolding sz by (rule heap(2))
  have ex: "\<exists>k. sem_ok k \<and> sstate (semtab ?t k) = S_FREE" using sems by auto
  obtain s1 z where s1: "mkbufpool 1514 129 ?t = Some (nbpools s, s1)" "kinv s1" "nbpools s1 = nbpools s + 1"
    "pool_rep s1 (nbpools s) (buf_addrs (nat (129 - 1)) z buf)" "sem_live s1 (bpsem (buftab s1 (nbpools s)))"
    "scount (semtab s1 (bpsem (buftab s1 (nbpools s)))) = 129" "kstate.more s1 = kstate.more ?t"
    "\<forall>j. j \<noteq> bpsem (buftab s1 (nbpools s)) \<longrightarrow> semtab s1 j = semtab ?t j"
    "currpid s1 = currpid s" "pkont s1 = pkont s" "proctab s1 = proctab s"
    using mkbufpool_makes_frame[OF pre(1) args pre(2-4) al ex] by auto
  note n1 = net_fields[OF s1(7)]
  let ?p = "nbpools s" and ?k = "bpsem (buftab s1 (nbpools s))" and ?fr = "buf_addrs (nat (129 - 1)) z buf"
  let ?a = "icmp_init (udp_init (arp_init (s1\<lparr>netbufpool := ?p\<rparr>)))"
  let ?b = "?a\<lparr>ipoqueue := (ipoqueue ?a)\<lparr>iqhead := 0, iqtail := 0\<rparr>\<rparr>"
  have a: "kinv ?b" "semtab ?b = semtab s1" using s1(2) by (simp_all add: icmp_init_def udp_init_def arp_init_def)
  obtain h where h: "sem_ok h" "sstate (semtab ?b h) = S_FREE" "h \<noteq> ?k"
  proof (cases "i = ?k")
    case True
    then have "sstate (semtab ?b j) = S_FREE" "j \<noteq> ?k" using s1(8) sems a(2) by simp_all
    then show ?thesis using that[of j] sems by simp
  next
    case False
    then have "sstate (semtab ?b i) = S_FREE" using s1(8) sems a(2) by simp
    then show ?thesis using that[of i] sems False by simp
  qed
  obtain r s2 where s2: "semcreate 0 ?b = Some (r, s2)" "kinv s2" "sem_ok r" "sstate (semtab ?b r) = S_FREE" "\<forall>j. j \<noteq> r \<longrightarrow> semtab s2 j = semtab ?b j"
  proof -
    have ex2: "\<exists>k. sem_ok k \<and> sstate (semtab ?b k) = S_FREE" using h(1,2) by blast
    have "(0 :: int) \<le> 0" "(0 :: int) < 2 ^ 31" by simp_all
    from semcreate_inv[OF a(1) this] show ?thesis unfolding if_P[OF ex2] using that by blast
  qed
  obtain nx sm where f2: "s2 = ?b\<lparr>nextsem := nx, semtab := sm\<rparr>" using semcreate_frame[OF s2(1)] by blast
  let ?s = "s2\<lparr>ipoqueue := (ipoqueue s2)\<lparr>iqsem := r\<rparr>\<rparr>"
  have rk: "r \<noteq> ?k" using s2(4) s1(5) a(2) by auto
  have run: "net_init mac s = Some (Done (), ?s)" using s1(1) s2(1,3) by (simp add: net_init_def Let_def)
  have F: "mem ?s = mem s1" "buftab ?s = buftab s1" "nbpools ?s = nbpools s1" "netbufpool ?s = ?p" "semtab ?s ?k = semtab s1 ?k"
    "busy ?s = busy s1"
    using s2(5) rk a(2) by (simp_all add: f2 icmp_init_def udp_init_def arp_init_def busy_cong[of "x\<lparr>semtab := y\<rparr>" x for x y] busy_cong[of "x\<lparr>nextsem := y\<rparr>" x for x y])
  have rep: "pool_rep ?s ?p ?fr" using s1(4) unfolding pool_rep_def F .
  have dist: "distinct ?fr" using s1(4) by (simp add: pool_rep_def)
  have len: "length ?fr = 129" by (simp add: buf_addrs_length)
  have "pool_own ?s ?p ?fr []" unfolding pool_own_def F using rep dist s1(3,5,6) np len F(5) by simp
  then have own: "net_own ?s ?fr {#} (\<lambda>_. None)" unfolding net_own_def F by (intro exI[of _ "[]"]) (simp add: held_def headers_def)
  have "udp_table ?s (\<lambda>_. None)" by (simp add: udp_table_def udp_is_def f2 icmp_init_def udp_init_def arp_init_def)
  then have "udp_rep ?s ?fr (\<lambda>_. None)" using s2(2) own s1(6) F len by (simp add: udp_rep_def)
  then have "udp_sim 129 ?s (129, \<lambda>_. None)"
    by (rule udp_simI) (simp_all add: shows_as_def buf_addrs_length held_def headers_def)
  moreover have "ukont s1 = ukont s" using more_fields(6)[of s1 ?t] s1(7) by simp
  ultimately show ?thesis using run n1 s1(9-11)
    by (intro exI[of _ ?s]) (simp add: f2 icmp_init_def udp_init_def arp_init_def)
qed

end
