(* ===== verification/Net_Arp_Frame.thy ===== *)
theory Net_Arp_Frame
  imports Net_Arp_Spec
begin

unbundle bit_operations_syntax

text \<open>The frames of an exchange, as their receiver reads them after the conversions to host byte order.\<close>

definition arp_host :: "network \<Rightarrow> byte list \<Rightarrow> uint16 \<Rightarrow> byte list \<Rightarrow> uint32 \<Rightarrow> packet \<Rightarrow> packet" where
  "arp_host nd ethdst op tarha tarpa p =
     put32 (put_bytes arp_tarha tarha (put32 (put_bytes arp_sndha (ethucast nd) (put16 ((put16 (put16 (put16
       (put_bytes arp_ethsrc (ethucast nd) (put_bytes arp_ethdst ethdst p)) net_ethtype 0x0806) arp_htype 1) arp_ptype 0x0800)
       (arp_hlen := 6, arp_plen := 4)) arp_op op)) arp_sndpa (ipucast nd))) arp_tarpa tarpa"

lemma arp_hton_ntoh: "arp_ntoh (arp_hton p) = p"
  by (simp add: arp_ntoh_def arp_hton_def conv16_twice conv32_twice conv16_32_comm conv32_comm[of 38 28]
      conv16_comm[of 20 16] conv16_comm[of 20 14] conv16_comm[of 16 14])

lemma arp_frame_read: "arp_ntoh (eth_ntoh (arp_frame nd ethdst op tarha tarpa p)) = arp_host nd ethdst op tarha tarpa p"
  unfolding arp_frame_def Let_def hton_ntoh(4) arp_hton_ntoh arp_host_def ..

lemma arp_host_fields:
  assumes "length (ethucast nd) = 6" "length ethdst = 6" "length tarha = 6"
  shows "get16 (arp_host nd ethdst op tarha tarpa p) arp_htype = 1" "get16 (arp_host nd ethdst op tarha tarpa p) arp_ptype = 0x0800"
    "get16 (arp_host nd ethdst op tarha tarpa p) arp_op = op" "get_bytes (arp_host nd ethdst op tarha tarpa p) arp_sndha 6 = ethucast nd"
    "get32 (arp_host nd ethdst op tarha tarpa p) arp_sndpa = ipucast nd" "get_bytes (arp_host nd ethdst op tarha tarpa p) arp_tarha 6 = tarha"
    "get32 (arp_host nd ethdst op tarha tarpa p) arp_tarpa = tarpa"
  using assms
  by (auto intro!: get16_bytes get32_bytes get_bytes_eq simp: arp_host_def put16_def put32_def put_bytes_def)

theorem arp_frames:
  fixes a b :: network and ip :: uint32
  assumes "length (ethucast a) = 6" "length (ethbcast a) = 6" "length (ethucast b) = 6"
  defines "q \<equiv> arp_ntoh (eth_ntoh (arp_request a ip))"
  defines "r \<equiv> arp_ntoh (eth_ntoh (arp_reply b q))"
  shows "get16 q arp_htype = 1 \<and> get16 q arp_ptype = 0x0800 \<and> get16 q arp_op = 1 \<and> get32 q arp_tarpa = ip \<and>
      get32 q arp_sndpa = ipucast a \<and> get_bytes q arp_sndha 6 = ethucast a"
    "get16 r arp_htype = 1 \<and> get16 r arp_ptype = 0x0800 \<and> get16 r arp_op = 2 \<and> get32 r arp_tarpa = ipucast a \<and>
      get32 r arp_sndpa = ipucast b \<and> get_bytes r arp_sndha 6 = ethucast b"
proof -
  have q: "q = arp_host a (ethbcast a) 1 (replicate 6 0) ip (\<lambda>_. 0)" unfolding q_def arp_request_def arp_frame_read ..
  have l: "length (replicate 6 (0 :: byte)) = 6" by simp
  note Q = arp_host_fields[OF assms(1,2) l, of 1 ip "\<lambda>_. 0", folded q]
  show "get16 q arp_htype = 1 \<and> get16 q arp_ptype = 0x0800 \<and> get16 q arp_op = 1 \<and> get32 q arp_tarpa = ip \<and>
      get32 q arp_sndpa = ipucast a \<and> get_bytes q arp_sndha 6 = ethucast a" using Q by simp
  have r: "r = arp_host b (ethucast a) 2 (ethucast a) (ipucast a) (\<lambda>_. 0)"
    unfolding r_def arp_reply_def arp_frame_read using Q by simp
  show "get16 r arp_htype = 1 \<and> get16 r arp_ptype = 0x0800 \<and> get16 r arp_op = 2 \<and> get32 r arp_tarpa = ipucast a \<and>
      get32 r arp_sndpa = ipucast b \<and> get_bytes r arp_sndha 6 = ethucast b"
    using arp_host_fields[OF assms(3,1,1), of 2 "ipucast a" "\<lambda>_. 0", folded r] by simp
qed

end
