(* ===== verification/Net_Udp_Wait.thy ===== *)
theory Net_Udp_Wait
  imports Net_Udp_Sim
begin

text \<open>
  A receiver that waits: \<open>udp_recv\<close> on an empty endpoint stops the process, the packet that arrives for the endpoint wakes it,
  and when it runs again it leaves with that packet's data.
\<close>

lemma recvtime_rest_untouched: "recvtime_rest s = Some (m, s') \<Longrightarrow> untouched {} s s'"
  by (auto simp: recvtime_rest_def bind_eq_Some_conv split: if_split_asm dest: pr_upd_untouched)

lemma recvtime_pool:
  assumes "recvtime w s = Some (r, s')"
  shows "pool_own s' = pool_own s"
proof -
  have q: "pool_own (t\<lparr>queuetab := a\<rparr>) = pool_own t" "pool_own (t\<lparr>pkont := k\<rparr>) = pool_own t" for a k and t :: "'a kstate_scheme"
    by (intro ext, simp add: pool_own_def pool_rep_def busy_cong[of "t\<lparr>queuetab := a\<rparr>" t] busy_cong[of "t\<lparr>pkont := k\<rparr>" t])+
  have i: "insertd p c k t = Some (r', t') \<Longrightarrow> pool_own t' = pool_own t" for p c k r' and t t' :: "'a kstate_scheme"
    by (auto simp: insertd_def bind_eq_Some_conv q split: if_split_asm)
  have u: "untouched {} t t' \<Longrightarrow> pool_own t' = pool_own t" for t t' :: "'a kstate_scheme"
    by (intro ext) (simp add: pool_own_untouched)
  have p: "pr_upd p f t = Some t' \<Longrightarrow> pool_own t' = pool_own t" for p f and t t' :: "'a kstate_scheme"
    by (rule u[OF pr_upd_untouched])
  have r: "resched t = Some t' \<Longrightarrow> pool_own t' = pool_own t" for t t' :: "'a kstate_scheme"
    by (rule u[OF resched_untouched])
  show ?thesis using assms
    by (auto simp: recvtime_def recvtime_rest_def bind_eq_Some_conv Let_def q split: if_split_asm dest!: i r p)
qed

lemma udp_await_own:
  assumes "udp_await i k w s = Some (r, s')" "net_own s fr U T" "0 \<le> i" "i < UDP_SLOTS" "T i = Some e"
  shows "net_own s' fr U (T(i := Some (e\<lparr>ep_wait := True\<rparr>)))"
proof -
  let ?s1 = "ud_upd i (\<lambda>e. e\<lparr>udstate := EP_RECV, udpid := currpid s\<rparr>) s"
  obtain m s2 where s2: "recvclr ?s1 = Some (m, s2)" "recvtime (sint w) (stopping k s2) = Some (r, s')"
    using assms(1) by (auto simp: udp_await_def bind_eq_Some_conv)
  have "untouched {} ?s1 s2" using s2(1) by (auto simp: recvclr_def bind_eq_Some_conv split: if_split_asm dest!: pr_upd_untouched)
  from net_own_untouched[OF this] have "net_own (stopping k s2) fr U T" using assms(2) by simp
  then have "net_own s' fr U T" using recvtime_pool[OF s2(2)] net_fields(6)[OF recvtime_more[OF s2(2)]] by (simp add: net_own_def)
  then show ?thesis by (rule net_own_regroup) (use held_same[OF assms(3,4), of "Some (e\<lparr>ep_wait := True\<rparr>)" T] assms(5) in \<open>simp add: headers_def\<close>)
qed

text \<open>The process stops.\<close>

theorem udp_recv_blocks:
  assumes "kinv s" "currpid s \<noteq> NULLPROC" "pkont s (currpid s) \<noteq> Some K_receive" "0 \<le> sint timeout"
    and tab: "udp_table s T" and i: "0 \<le> i" "i < UDP_SLOTS" and e: "T i = Some e" "\<not> ep_wait e" "ep_queue e = []"
    and own: "net_own s fr U T"
  shows "\<exists>s'. udp_recv i len timeout s = Some (Pending, s') \<and> kinv s' \<and> udp_table s' (T(i := Some (e\<lparr>ep_wait := True\<rparr>))) \<and>
    udpid (udptab s' i) = currpid s \<and> prstate (proctab s' (currpid s)) = PR_RECTIM \<and>
    nkont s' (currpid s) = Some (N_udp_recv i len) \<and> pkts s' = pkts s \<and> net_own s' fr U (T(i := Some (e\<lparr>ep_wait := True\<rparr>)))"
proof -
  have "udstate (udptab s i) = EP_USED" "udcount (udptab s i) = 0" using udp_tableD[OF tab i] e by (simp_all add: udp_is_def)
  then show ?thesis using udp_await_blocks[OF assms(1-4) tab i e(1), of "N_udp_recv i len"] i
    udp_await_own[OF _ own i e(1)] by (auto simp: udp_recv_def)
qed

text \<open>The packet wakes it.\<close>

theorem udp_in_wakes:
  assumes inv: "kinv s" and tab: "udp_table s T" and own: "net_own s fr {#x - 4#} T"
    and d: "deliver (pkts s x) x T = Some (i, T')" and e: "T i = Some e" "ep_wait e"
    and p: "p = udpid (udptab s i)" "pid_ok p" "prstate (proctab s p) = PR_RECTIM"
  shows "\<exists>s'. udp_in x s = Some s' \<and> kinv s' \<and> udp_table s' T' \<and> net_own s' fr {#} T' \<and> pkts s' = pkts s \<and>
    runnable (prstate (proctab s' p)) \<and> prhasmsg (proctab s' p) \<and> prmsg (proctab s' p) = 1"
proof -
  obtain s' r t where s': "udp_in x s = Some s'" "kinv s'" "udp_table s' T'" "net_own s' fr {#} T'" "pkts s' = pkts s"
    "send p 1 t = Some (r, s')" "t = s\<lparr>udptab := udptab t\<rparr>"
    using udp_in_delivers[OF inv tab own d] e p(1) by auto
  have t: "kinv t" "prstate (proctab t p) \<in> {PR_RECV, PR_RECTIM}" by (subst s'(7), use inv p(3) in simp)+
  show ?thesis using send_release[OF t(1) p(2) t(2), of 1] s' by auto
qed

text \<open>It runs again.\<close>

theorem udp_recv_resumes:
  assumes inv: "kinv s" and tab: "udp_table s T" and own: "net_own s fr {#} T" and room: "length fr + 1 < 2 ^ 30"
    and msg: "pkont s (currpid s) \<noteq> Some K_receive" "prhasmsg (proctab s (currpid s))" "prmsg (proctab s (currpid s)) = 1"
    and i: "0 \<le> i" "i < UDP_SLOTS" and e: "T i = Some e" "\<not> ep_wait e" "ep_queue e = x # xs"
    and fits: "fst (payload (pkts s x) len) \<le> 1472"
  shows "\<exists>t s'. recvtime_rest s = Some (1, t) \<and> udp_recv_rest i len 1 t = Some (payload (pkts s x) len, s') \<and> kinv s' \<and>
    udp_table s' (T(i := Some (e\<lparr>ep_queue := xs\<rparr>))) \<and> net_own s' ((x - 4) # fr) {#} (T(i := Some (e\<lparr>ep_queue := xs\<rparr>)))"
proof -
  obtain t where t: "recvtime_rest s = Some (1, t)" "kinv t" using recvtime_rest_inv[OF inv msg(1)] msg(2,3) by auto
  note u = recvtime_rest_untouched[OF t(1)]
  note n = net_fields[OF untouchedD(17)[OF u]]
  let ?t = "ud_upd i (\<lambda>e. e\<lparr>udstate := EP_USED\<rparr>) t"
  have tt: "udp_table t T" using tab udp_table_same[OF n(1)] by blast
  have "udp_is ((udptab t i)\<lparr>udstate := EP_USED\<rparr>) (Some e)" using udp_tableD[OF tt i] e by (simp add: udp_is_def)
  then have "udp_table ?t (T(i := Some e))" by (rule udp_table_upd[OF tt])
  then have t2: "udp_table ?t T" using e(1) by (simp add: fun_upd_idem)
  have o2: "net_own ?t fr {#} T" "kinv ?t" using net_own_untouched[OF u] own t(2) by simp_all
  have pk: "pkts ?t = pkts s" using n by simp
  have f2: "min len (uint (get16 (pkts ?t x) net_udplen) - 8) \<le> 1472" using fits unfolding pk by (simp add: payload_def Let_def)
  from udp_take_first[OF o2(2) t2 o2(1) room i e(1,3) f2] show ?thesis
    using t(1) unfolding pk by (auto simp: udp_recv_rest_def Let_def)
qed

end
