(* ===== verification/Fut_Queue.thy ===== *)
theory Fut_Queue
  imports Memory_Refine Simulation
begin

unbundle bit_operations_syntax

text \<open>
  The queue of process ids the futures use (\<^verbatim>\<open>include/fut_queue.h\<close>, \<^verbatim>\<open>apps/fut_queue.c\<close>), at an address: \<open>tail\<close> is its
  first word, the array \<^verbatim>\<open>queue[MAX_SIZE]\<close> follows, and \<open>head\<close> is behind the array. An index is not checked
  against the array, so an operation on memory that holds something else reads and writes wherever the words it takes
  for \<open>tail\<close> and \<open>head\<close> point to.
\<close>

section \<open>Operations\<close>

abbreviation (input) MAX_SIZE :: int where "MAX_SIZE \<equiv> 10"

definition q_head :: "uint32 \<Rightarrow> uint32" where
  "q_head qs = qs + 44"

definition q_slot :: "uint32 \<Rightarrow> uint32 \<Rightarrow> uint32" where
  "q_slot qs i = qs + 4 + 4 * i"

definition initqu :: "uint32 \<Rightarrow> memory \<Rightarrow> (int \<times> memory) option" where
  "initqu qs m = do { m \<leftarrow> st qs 0 m; m \<leftarrow> st (q_head qs) 0 m; Some (0, m) }"

definition enq :: "uint32 \<Rightarrow> int \<Rightarrow> memory \<Rightarrow> (int \<times> memory) option" where
  "enq qs pid m = do {
     tail \<leftarrow> ld qs m;
     if sint tail = MAX_SIZE then Some (- 1, m)
     else do {
       m \<leftarrow> st (q_slot qs tail) (word_of_int pid) m;
       tail \<leftarrow> ld qs m;
       m \<leftarrow> st qs (tail + 1) m;
       Some (0, m) } }"

definition q_reset :: "uint32 \<Rightarrow> memory \<Rightarrow> memory option" where
  "q_reset qs m = do { m \<leftarrow> st (q_head qs) 0 m; st qs 0 m }"

definition deq :: "uint32 \<Rightarrow> memory \<Rightarrow> (int \<times> memory) option" where
  "deq qs m = do {
     head \<leftarrow> ld (q_head qs) m;
     tail \<leftarrow> ld qs m;
     if head = tail then do { m \<leftarrow> q_reset qs m; Some (SYSERR, m) }
     else do {
       pid \<leftarrow> ld (q_slot qs head) m;
       m \<leftarrow> st (q_head qs) (head + 1) m;
       Some (sint pid, m) } }"

definition peek :: "uint32 \<Rightarrow> memory \<Rightarrow> (int \<times> memory) option" where
  "peek qs m = do {
     head \<leftarrow> ld (q_head qs) m;
     tail \<leftarrow> ld qs m;
     if head = tail then do { m \<leftarrow> q_reset qs m; Some (SYSERR, m) }
     else do { pid \<leftarrow> ld (q_slot qs head) m; Some (sint pid, m) } }"

definition isEmpty :: "uint32 \<Rightarrow> memory \<Rightarrow> int option" where
  "isEmpty qs m = do {
     head \<leftarrow> ld (q_head qs) m;
     tail \<leftarrow> ld qs m;
     Some (if head = tail then 1 else 0) }"

section \<open>The words of a queue\<close>

definition q_words :: "uint32 \<Rightarrow> uint32 set" where
  "q_words qs = (\<lambda>i. qs + 4 * of_nat i) ` {..<12}"

text \<open>An aligned area of twelve words that does not wrap.\<close>

definition q_area :: "uint32 \<Rightarrow> bool" where
  "q_area qs \<longleftrightarrow> qs \<noteq> 0 \<and> 4 dvd unat qs \<and> unat qs + 48 \<le> 2 ^ 32"

lemma q_word:
  assumes "q_area qs" "i < 12"
  shows "unat (qs + 4 * of_nat i) = unat qs + 4 * i" "qs + 4 * of_nat i \<noteq> 0" "(qs + 4 * of_nat i) AND 3 = 0"
proof -
  have n: "unat (4 * of_nat i :: uint32) = 4 * i" using assms(2) by (simp add: unat_word_ariths unat_of_nat)
  then show u: "unat (qs + 4 * of_nat i) = unat qs + 4 * i" using assms by (simp add: unat_word_ariths q_area_def)
  show "qs + 4 * of_nat i \<noteq> 0" using u assms(1) by (auto simp: q_area_def unat_eq_zero dest: arg_cong[where f = unat])
  have "4 dvd unat (qs + 4 * of_nat i)" unfolding u using assms(1) by (simp add: q_area_def)
  then show "(qs + 4 * of_nat i) AND 3 = 0" by (simp add: aligned4)
qed

lemma q_word_access:
  assumes "q_area qs" "i < 12"
  shows "ld (qs + 4 * of_nat i) m = Some (m (qs + 4 * of_nat i))"
    "st (qs + 4 * of_nat i) v m = Some (m(qs + 4 * of_nat i := v))"
  using q_word(2,3)[OF assms] by (simp_all add: ld_def st_def)

lemma q_word_inj: "q_area qs \<Longrightarrow> i < 12 \<Longrightarrow> j < 12 \<Longrightarrow> qs + 4 * of_nat i = qs + 4 * of_nat j \<longleftrightarrow> i = j"
  using q_word(1)[of qs i] q_word(1)[of qs j] by (metis add_left_cancel mult_left_cancel zero_neq_numeral)

lemma q_names: "q_head qs = qs + 4 * of_nat 11" "qs = qs + 4 * of_nat 0" "q_slot qs (of_nat i) = qs + 4 * of_nat (Suc i)"
  by (simp_all add: q_head_def q_slot_def)

section \<open>The queue as a list\<close>

text \<open>The specification: the waiting processes, and how many have been taken out since the queue was last found empty.
  Places are not used again until then, so the queue refuses a process when ten have been put in.\<close>

datatype fq_call = Init | Enq int | Deq | Peek | Is_empty

fun fq_step :: "uint32 \<Rightarrow> fq_call \<Rightarrow> memory \<Rightarrow> (int \<times> memory) option" where
  "fq_step qs Init m = initqu qs m"
| "fq_step qs (Enq p) m = enq qs p m"
| "fq_step qs Deq m = deq qs m"
| "fq_step qs Peek m = peek qs m"
| "fq_step qs Is_empty m = map_option (\<lambda>r. (r, m)) (isEmpty qs m)"

fun fq_spec :: "fq_call \<Rightarrow> nat \<times> int list \<Rightarrow> (int \<times> nat \<times> int list) option" where
  "fq_spec Init (h, xs) = Some (0, 0, [])"
| "fq_spec (Enq p) (h, xs) =
     (if p < - (2 ^ 31) \<or> 2 ^ 31 \<le> p then None
      else if h + length xs = 10 then Some (- 1, h, xs) else Some (0, h, xs @ [p]))"
| "fq_spec Deq (h, []) = Some (SYSERR, 0, [])"
| "fq_spec Deq (h, x # xs) = Some (x, Suc h, xs)"
| "fq_spec Peek (h, []) = Some (SYSERR, 0, [])"
| "fq_spec Peek (h, x # xs) = Some (x, h, x # xs)"
| "fq_spec Is_empty (h, xs) = Some (if xs = [] then 1 else 0, h, xs)"

definition fq_rep :: "memory \<Rightarrow> uint32 \<Rightarrow> memory \<Rightarrow> nat \<times> int list \<Rightarrow> bool" where
  "fq_rep m0 qs m = (\<lambda>(h, xs). q_area qs \<and> m qs = of_nat (h + length xs) \<and> m (q_head qs) = of_nat h \<and>
     h + length xs \<le> 10 \<and> (\<forall>i < length xs. m (q_slot qs (of_nat (h + i))) = word_of_int (xs ! i)) \<and>
     (\<forall>x \<in> set xs. - (2 ^ 31) \<le> x \<and> x < 2 ^ 31) \<and> (\<forall>a. a \<notin> q_words qs \<longrightarrow> m a = m0 a))"

lemma fq_repD:
  assumes "fq_rep m0 qs m (h, xs)"
  shows "q_area qs" "m qs = of_nat (h + length xs)" "m (q_head qs) = of_nat h" "h + length xs \<le> 10"
    "\<And>i. i < length xs \<Longrightarrow> m (q_slot qs (of_nat (h + i))) = word_of_int (xs ! i)"
    "\<And>x. x \<in> set xs \<Longrightarrow> - (2 ^ 31) \<le> x \<and> x < 2 ^ 31" "\<And>a. a \<notin> q_words qs \<Longrightarrow> m a = m0 a"
  using assms by (auto simp: fq_rep_def)

lemma fq_repI:
  assumes "q_area qs" "m qs = of_nat (h + length xs)" "m (q_head qs) = of_nat h" "h + length xs \<le> 10"
    "\<And>i. i < length xs \<Longrightarrow> m (q_slot qs (of_nat (h + i))) = word_of_int (xs ! i)"
    "\<And>x. x \<in> set xs \<Longrightarrow> - (2 ^ 31) \<le> x \<and> x < 2 ^ 31" "\<And>a. a \<notin> q_words qs \<Longrightarrow> m a = m0 a"
  shows "fq_rep m0 qs m (h, xs)"
  using assms by (simp add: fq_rep_def)

lemma q_access:
  assumes "q_area qs"
  shows "ld qs m = Some (m qs)" "st qs v m = Some (m(qs := v))"
    "ld (q_head qs) m = Some (m (q_head qs))" "st (q_head qs) v m = Some (m(q_head qs := v))"
    "i < 10 \<Longrightarrow> ld (q_slot qs (of_nat i)) m = Some (m (q_slot qs (of_nat i)))"
    "i < 10 \<Longrightarrow> st (q_slot qs (of_nat i)) v m = Some (m(q_slot qs (of_nat i) := v))"
  using q_word_access[OF assms, of 0] q_word_access[OF assms, of 11] q_word_access[OF assms, of "Suc i"]
  unfolding q_names(1,3) by simp_all

lemma q_distinct:
  assumes "q_area qs"
  shows "q_head qs \<noteq> qs" "i < 10 \<Longrightarrow> q_slot qs (of_nat i) \<noteq> qs" "i < 10 \<Longrightarrow> q_slot qs (of_nat i) \<noteq> q_head qs"
    "i < 10 \<Longrightarrow> j < 10 \<Longrightarrow> q_slot qs (of_nat i) = q_slot qs (of_nat j) \<longleftrightarrow> i = j"
  using q_word_inj[OF assms, of 11 0] q_word_inj[OF assms, of "Suc i" 0] q_word_inj[OF assms, of "Suc i" 11]
    q_word_inj[OF assms, of "Suc i" "Suc j"] unfolding q_names(1,3) by auto

lemma q_in_words: "qs \<in> q_words qs" "q_head qs \<in> q_words qs" "i < 10 \<Longrightarrow> q_slot qs (of_nat i) \<in> q_words qs"
  unfolding q_words_def q_names(1,3) by (rule image_eqI[where x = 0]; simp) (rule image_eqI[OF refl]; simp)+

lemma count_word: "n \<le> 10 \<Longrightarrow> sint (of_nat n :: uint32) = int n" "a \<le> 10 \<Longrightarrow> b \<le> 10 \<Longrightarrow> (of_nat a :: uint32) = of_nat b \<longleftrightarrow> a = b"
proof -
  show s: "sint (of_nat n :: uint32) = int n" if "n \<le> 10" for n
    using that signed_take_bit_int_eq_self[of 31 "int n"] by (simp add: signed_of_nat)
  show "a \<le> 10 \<Longrightarrow> b \<le> 10 \<Longrightarrow> (of_nat a :: uint32) = of_nat b \<longleftrightarrow> a = b"
    using s[of a] s[of b] by (metis of_nat_eq_iff)
qed

lemma int32_word: "- (2 ^ 31) \<le> x \<Longrightarrow> x < 2 ^ 31 \<Longrightarrow> sint (word_of_int x :: uint32) = x"
  by (simp add: signed_of_int signed_take_bit_int_eq_self)

lemma fq_empty:
  assumes "q_area qs" "m qs = 0" "m (q_head qs) = 0" "\<And>a. a \<notin> q_words qs \<Longrightarrow> m a = m0 a"
  shows "fq_rep m0 qs m (0, [])"
  using assms by (simp add: fq_rep_def)

lemma reset_rep:
  assumes "q_area qs" "\<And>a. a \<notin> q_words qs \<Longrightarrow> m a = m0 a"
  shows "q_reset qs m = Some (m(q_head qs := 0, qs := 0))" "fq_rep m0 qs (m(q_head qs := 0, qs := 0)) (0, [])"
proof -
  show "q_reset qs m = Some (m(q_head qs := 0, qs := 0))" by (simp add: q_reset_def q_access[OF assms(1)])
  show "fq_rep m0 qs (m(q_head qs := 0, qs := 0)) (0, [])"
    using q_distinct(1)[OF assms(1)] q_in_words(1,2)[of qs] assms by (intro fq_empty) auto
qed

lemma init_rep:
  assumes "q_area qs" "\<And>a. a \<notin> q_words qs \<Longrightarrow> m a = m0 a"
  shows "\<exists>m'. initqu qs m = Some (0, m') \<and> fq_rep m0 qs m' (0, [])"
  using q_distinct(1)[OF assms(1)] q_in_words(1,2)[of qs] assms
  by (auto simp: initqu_def q_access intro!: fq_empty)

lemma enq_rep:
  assumes rep: "fq_rep m0 qs m (h, xs)" and p: "- (2 ^ 31) \<le> p" "p < 2 ^ 31" and room: "h + length xs \<noteq> 10"
  shows "\<exists>m'. enq qs p m = Some (0, m') \<and> fq_rep m0 qs m' (h, xs @ [p])"
proof -
  note R = fq_repD[OF rep] and A = q_access[OF R(1)] and D = q_distinct[OF R(1)]
  let ?n = "h + length xs"
  let ?m = "m(q_slot qs (of_nat ?n) := word_of_int p, qs := of_nat (Suc ?n))"
  have n: "?n < 10" using R(4) room by simp
  have "enq qs p m = Some (0, ?m)"
    using n count_word(1)[of ?n] A(1) A(6)[OF n] D(2)[OF n] unfolding enq_def R(2) A(1)
    by (simp add: A R(2) add.commute)
  moreover have "?m (q_slot qs (of_nat (h + i))) = word_of_int ((xs @ [p]) ! i)" if "i < length (xs @ [p])" for i
  proof (cases "i = length xs")
    case True
    then show ?thesis using D(2)[OF n] by simp
  next
    case False
    then have "i < length xs" "h + i < 10" "h + i \<noteq> ?n" using that n by auto
    then show ?thesis using D(2)[of "h + i"] D(4)[of "h + i" ?n] R(5)[of i] n by (simp add: nth_append del: of_nat_add)
  qed
  moreover have "?m (q_head qs) = of_nat h" using D(1) D(3)[OF n] R(3) by auto
  moreover have "?m a = m0 a" if "a \<notin> q_words qs" for a
    using that q_in_words(1)[of qs] q_in_words(3)[OF n, of qs] R(7)[of a] by auto
  moreover have "?m qs = of_nat (h + length (xs @ [p]))" by simp
  moreover have "- (2 ^ 31) \<le> x \<and> x < 2 ^ 31" if "x \<in> set (xs @ [p])" for x using R(6)[of x] p that by auto
  ultimately show ?thesis using fq_repI[of qs ?m h "xs @ [p]" m0] R(1) n by (intro exI[of _ ?m]) simp
qed

lemma deq_rep:
  assumes rep: "fq_rep m0 qs m (h, x # xs)"
  shows "\<exists>m'. deq qs m = Some (x, m') \<and> fq_rep m0 qs m' (Suc h, xs)" "peek qs m = Some (x, m)"
proof -
  note R = fq_repD[OF rep] and A = q_access[OF R(1)] and D = q_distinct[OF R(1)]
  let ?m = "m(q_head qs := of_nat (Suc h))"
  have h: "h < 10" using R(4) by simp
  have ne: "m (q_head qs) \<noteq> m qs" unfolding R(2,3) using count_word(2)[of h "h + length (x # xs)"] R(4) by simp
  have v: "m (q_slot qs (of_nat h)) = word_of_int x" using R(5)[of 0] by simp
  have x: "sint (word_of_int x :: uint32) = x" by (rule int32_word) (use R(6)[of x] in simp_all)
  show "peek qs m = Some (x, m)" using ne v x A(5)[OF h] unfolding peek_def A(1,3) by (simp add: R(3))
  have "deq qs m = Some (x, ?m)" using ne v x A(5)[OF h] unfolding deq_def A(1,3) by (simp add: A R(3) add.commute)
  moreover have "?m (q_slot qs (of_nat (Suc h + i))) = word_of_int (xs ! i)" if "i < length xs" for i
    using R(5)[of "Suc i"] that D(3)[of "Suc h + i"] R(4) by (simp del: of_nat_add of_nat_Suc)
  moreover have "?m qs = of_nat (Suc h + length xs)" using D(1) R(2) by auto
  moreover have "?m a = m0 a" if "a \<notin> q_words qs" for a using that q_in_words(2)[of qs] R(7)[of a] by auto
  moreover have "?m (q_head qs) = of_nat (Suc h)" "Suc h + length xs \<le> 10" using R(4) by simp_all
  moreover have "- (2 ^ 31) \<le> y \<and> y < 2 ^ 31" if "y \<in> set xs" for y using R(6)[of y] that by simp
  ultimately show "\<exists>m'. deq qs m = Some (x, m') \<and> fq_rep m0 qs m' (Suc h, xs)"
    using fq_repI[of qs ?m "Suc h" xs m0] R(1) by blast
qed

lemma deq_empty:
  assumes rep: "fq_rep m0 qs m (h, [])"
  shows "\<exists>m'. deq qs m = Some (SYSERR, m') \<and> fq_rep m0 qs m' (0, [])"
    "\<exists>m'. peek qs m = Some (SYSERR, m') \<and> fq_rep m0 qs m' (0, [])"
proof -
  note R = fq_repD[OF rep] and A = q_access[OF R(1)]
  have e: "m (q_head qs) = m qs" using R(2,3) by simp
  show "\<exists>m'. deq qs m = Some (SYSERR, m') \<and> fq_rep m0 qs m' (0, [])"
    using reset_rep[OF R(1,7)] e by (simp add: deq_def A)
  show "\<exists>m'. peek qs m = Some (SYSERR, m') \<and> fq_rep m0 qs m' (0, [])"
    using reset_rep[OF R(1,7)] e by (simp add: peek_def A)
qed

lemma isEmpty_rep:
  assumes rep: "fq_rep m0 qs m (h, xs)"
  shows "isEmpty qs m = Some (if xs = [] then 1 else 0)"
proof -
  note R = fq_repD[OF rep] and A = q_access[OF R(1)]
  have "m (q_head qs) = m qs \<longleftrightarrow> xs = []"
    unfolding R(2,3) using count_word(2)[of h "h + length xs"] R(4) by auto
  then show ?thesis by (simp add: isEmpty_def A)
qed

lemma fq_sim:
  assumes "fq_rep m0 qs m a" "fq_spec c a = Some (r, a')"
  shows "\<exists>m'. fq_step qs c m = Some (r, m') \<and> fq_rep m0 qs m' a'"
proof -
  obtain h xs where a: "a = (h, xs)" by (cases a)
  note rep = assms(1)[unfolded a] and R = fq_repD[OF assms(1)[unfolded a]]
  show ?thesis
  proof (cases c)
    case Init
    then show ?thesis using assms(2) a init_rep[OF R(1,7)] by simp
  next
    case (Enq p)
    then have p: "- (2 ^ 31) \<le> p" "p < 2 ^ 31" using assms(2) a by (auto split: if_splits)
    show ?thesis
    proof (cases "h + length xs = 10")
      case True
      then have "enq qs p m = Some (- 1, m)"
        using count_word(1)[of 10] q_access(1)[OF R(1)] by (simp add: enq_def R(2))
      then show ?thesis using assms a Enq p True by simp
    next
      case False
      then show ?thesis using enq_rep[OF rep p] assms(2) a Enq p by simp
    qed
  next
    case Deq
    then show ?thesis using assms a deq_rep deq_empty by (cases xs) auto
  next
    case Peek
    then show ?thesis using assms a deq_rep(2) deq_empty(2) by (cases xs) auto
  next
    case Is_empty
    then show ?thesis using assms a isEmpty_rep[OF rep] by auto
  qed
qed

interpretation fq: simulation "fq_rep m0 qs" "fq_step qs" fq_spec for m0 qs
  by unfold_locales (rule fq_sim)

end
