(* ===== verification/Future.thy ===== *)
theory Future
  imports Upper_State Fut_Queue
begin

unbundle bit_operations_syntax

text \<open>
  Futures (\<^verbatim>\<open>include/future.h\<close>, \<^verbatim>\<open>system/future_alloc.c\<close>, \<^verbatim>\<open>future_free.c\<close>, \<^verbatim>\<open>future_get.c\<close>, \<^verbatim>\<open>future_set.c\<close>). A future is six
  words of memory. The code passes the addresses of the pointer fields \<^verbatim>\<open>set_queue\<close> and \<^verbatim>\<open>get_queue\<close> where a queue is
  expected, so its queues lie at those fields: they overlap each other, and reach behind the structure. The model keeps
  the addresses, so all of this happens in it as in the code.

  A call gives up the processor inside \<open>suspend\<close>, \<open>resume\<close> and \<open>resched\<close>; what it does when it runs again is in
  \<open>fkont\<close>. What \<^verbatim>\<open>kprintf\<close> prints is not modelled.
\<close>

section \<open>State\<close>

datatype fcont =
    X_get_suspended uint32 uint32 | X_get_resched uint32 uint32
  | S_get_suspended uint32 uint32 | S_get_resched uint32 uint32
  | Q_get_resumed uint32 uint32
  | Q_get_both uint32 uint32 | Q_get_both_suspended uint32 uint32 | Q_get_both_resched uint32 uint32
  | Q_get_suspended uint32 uint32 | Q_get_resched uint32 uint32
  | X_set_resumed
  | S_set_unmasked int
  | Q_set_both uint32 uint32 | Q_set_both_suspended uint32 uint32 | Q_set_both_resched uint32 uint32
  | Q_set_suspended uint32 uint32 | Q_set_resched uint32 uint32

record fstate = kstate +
  fkont :: "int \<Rightarrow> fcont option"

text \<open>The fields of \<^verbatim>\<open>struct futent\<close>.\<close>

abbreviation (input) F_value :: uint32 where "F_value \<equiv> 0"
abbreviation (input) F_flag :: uint32 where "F_flag \<equiv> 4"
abbreviation (input) F_state :: uint32 where "F_state \<equiv> 8"
abbreviation (input) F_pid :: uint32 where "F_pid \<equiv> 12"
abbreviation (input) F_set_queue :: uint32 where "F_set_queue \<equiv> 16"
abbreviation (input) F_get_queue :: uint32 where "F_get_queue \<equiv> 20"

abbreviation (input) FUTURE_EXCLUSIVE :: uint32 where "FUTURE_EXCLUSIVE \<equiv> 1"
abbreviation (input) FUTURE_SHARED :: uint32 where "FUTURE_SHARED \<equiv> 2"
abbreviation (input) FUTURE_QUEUE :: uint32 where "FUTURE_QUEUE \<equiv> 3"

abbreviation (input) FUTURE_EMPTY :: uint32 where "FUTURE_EMPTY \<equiv> 0"
abbreviation (input) FUTURE_WAITING :: uint32 where "FUTURE_WAITING \<equiv> 1"
abbreviation (input) FUTURE_VALID :: uint32 where "FUTURE_VALID \<equiv> 2"

definition rd :: "uint32 \<Rightarrow> 'z kstate_scheme \<Rightarrow> uint32 option" where
  "rd a s = ld a (mem s)"

definition wr :: "uint32 \<Rightarrow> uint32 \<Rightarrow> 'z kstate_scheme \<Rightarrow> 'z kstate_scheme option" where
  "wr a v s = map_option (\<lambda>m. s\<lparr>mem := m\<rparr>) (st a v (mem s))"

section \<open>Allocation\<close>

definition future_alloc :: "uint32 \<Rightarrow> 'z kstate_scheme \<Rightarrow> (uint32 \<times> 'z kstate_scheme) option" where
  "future_alloc future_flags s = do {
     (fut, s) \<leftarrow> getmem_k 24 s;
     (q, s) \<leftarrow> getmem_k 48 s;
     s \<leftarrow> wr (fut + F_set_queue) q s;
     (q, s) \<leftarrow> getmem_k 48 s;
     s \<leftarrow> wr (fut + F_get_queue) q s;
     (_, s) \<leftarrow> on_mem (initqu (fut + F_get_queue)) s;
     (_, s) \<leftarrow> on_mem (initqu (fut + F_set_queue)) s;
     s \<leftarrow> wr (fut + F_pid) 0 s;
     if fut = SYSERR_ptr then Some (0, s)
     else do {
       s \<leftarrow> wr (fut + F_flag) future_flags s;
       s \<leftarrow> wr (fut + F_state) FUTURE_EMPTY s;
       s \<leftarrow> wr (fut + F_pid) 0 s;
       s \<leftarrow> wr (fut + F_value) 0 s;
       Some (fut, s) } }"

definition future_free :: "uint32 \<Rightarrow> 'z kstate_scheme \<Rightarrow> (int \<times> 'z kstate_scheme) option" where
  "future_free futureRef s =
     (if futureRef = 0 then Some (- 1, s)
      else do {
        fut \<leftarrow> rd futureRef s;
        (status, s) \<leftarrow> freemem_k fut 24 s;
        if status = OK then do { s \<leftarrow> wr futureRef 0 s; Some (OK, s) }
        else Some (status, s) })"

section \<open>Giving up the processor\<close>

definition park :: "fcont \<Rightarrow> 'z fstate_scheme \<Rightarrow> (int outcome \<times> 'z fstate_scheme) option" where
  "park k s = do {
     let s = s\<lparr>fkont := (fkont s)(currpid s := Some k)\<rparr>;
     (_, s) \<leftarrow> suspend (currpid s) s;
     Some (Pending, s) }"

definition reschedule :: "fcont \<Rightarrow> 'z fstate_scheme \<Rightarrow> (int outcome \<times> 'z fstate_scheme) option" where
  "reschedule k s = do {
     let s = s\<lparr>fkont := (fkont s)(currpid s := Some k)\<rparr>;
     s \<leftarrow> resched s;
     Some (Pending, s) }"

definition resume_then :: "fcont \<Rightarrow> int \<Rightarrow> 'z fstate_scheme \<Rightarrow> (int outcome \<times> 'z fstate_scheme) option" where
  "resume_then k pid s = do {
     let s = s\<lparr>fkont := (fkont s)(currpid s := Some k)\<rparr>;
     (_, s) \<leftarrow> resume pid s;
     Some (Pending, s) }"

section \<open>future_get\<close>

text \<open>\<^verbatim>\<open>**valueRef = futureRef->value; return OK;\<close>\<close>

definition take_value :: "uint32 \<Rightarrow> uint32 \<Rightarrow> 'z kstate_scheme \<Rightarrow> (int outcome \<times> 'z kstate_scheme) option" where
  "take_value fut valueRef s = do {
     v \<leftarrow> rd (fut + F_value) s;
     s \<leftarrow> wr valueRef v s;
     Some (Done OK, s) }"

definition handle_exclusive_get :: "uint32 \<Rightarrow> uint32 \<Rightarrow> 'z fstate_scheme \<Rightarrow> (int outcome \<times> 'z fstate_scheme) option" where
  "handle_exclusive_get fut valueRef s = do {
     pid \<leftarrow> rd (fut + F_pid) s;
     if pid \<noteq> 0 then Some (Done SYSERR, s)
     else do {
       state \<leftarrow> rd (fut + F_state) s;
       if state = FUTURE_EMPTY then do {
         s \<leftarrow> wr (fut + F_state) FUTURE_WAITING s;
         s \<leftarrow> wr (fut + F_pid) (word_of_int (currpid s)) s;
         park (X_get_suspended fut valueRef) s }
       else if state = FUTURE_VALID then do {
         s \<leftarrow> wr (fut + F_pid) (word_of_int (currpid s)) s;
         take_value fut valueRef s }
       else if state = FUTURE_WAITING then Some (Done SYSERR, s)
       else Some (Done OK, s) } }"

definition handle_shared_get :: "uint32 \<Rightarrow> uint32 \<Rightarrow> 'z fstate_scheme \<Rightarrow> (int outcome \<times> 'z fstate_scheme) option" where
  "handle_shared_get fut valueRef s = do {
     state \<leftarrow> rd (fut + F_state) s;
     pid \<leftarrow> rd (fut + F_pid) s;
     if state = FUTURE_EMPTY \<or> state = FUTURE_WAITING \<or> state = FUTURE_VALID \<and> pid \<noteq> 0 then do {
       s \<leftarrow> wr (fut + F_state) FUTURE_WAITING s;
       (_, s) \<leftarrow> on_mem (enq (fut + F_get_queue) (currpid s)) s;
       park (S_get_suspended fut valueRef) s }
     else if state = FUTURE_VALID then take_value fut valueRef s
     else Some (Done OK, s) }"

definition handle_queue_get :: "uint32 \<Rightarrow> uint32 \<Rightarrow> 'z fstate_scheme \<Rightarrow> (int outcome \<times> 'z fstate_scheme) option" where
  "handle_queue_get fut valueRef s = do {
     es \<leftarrow> isEmpty (fut + F_set_queue) (mem s);
     eg \<leftarrow> isEmpty (fut + F_get_queue) (mem s);
     if es = 0 \<and> eg = 1 then do {
       (setProcID, s) \<leftarrow> on_mem (deq (fut + F_set_queue)) s;
       s \<leftarrow> wr (fut + F_pid) (word_of_int (currpid s)) s;
       resume_then (Q_get_resumed fut valueRef) setProcID s }
     else if es = 0 \<and> eg = 0 then do {
       (setProcID, s) \<leftarrow> on_mem (deq (fut + F_set_queue)) s;
       resume_then (Q_get_both fut valueRef) setProcID s }
     else do {
       (_, s) \<leftarrow> on_mem (enq (fut + F_get_queue) (currpid s)) s;
       s \<leftarrow> wr (fut + F_state) FUTURE_WAITING s;
       s \<leftarrow> wr (fut + F_pid) (word_of_int (currpid s)) s;
       park (Q_get_suspended fut valueRef) s } }"

definition future_get :: "uint32 \<Rightarrow> uint32 \<Rightarrow> 'z fstate_scheme \<Rightarrow> (int outcome \<times> 'z fstate_scheme) option" where
  "future_get fut valueRef s =
     (if fut = 0 then Some (Done SYSERR, s)
      else do {
        flag \<leftarrow> rd (fut + F_flag) s;
        if flag = FUTURE_EXCLUSIVE then handle_exclusive_get fut valueRef s
        else if flag = FUTURE_SHARED then handle_shared_get fut valueRef s
        else if flag = FUTURE_QUEUE then handle_queue_get fut valueRef s
        else Some (Done SYSERR, s) })"

section \<open>future_set\<close>

definition put_value :: "uint32 \<Rightarrow> uint32 \<Rightarrow> 'z kstate_scheme \<Rightarrow> 'z kstate_scheme option" where
  "put_value fut valueRef s = do { v \<leftarrow> rd valueRef s; wr (fut + F_value) v s }"

definition handle_exclusive_set :: "uint32 \<Rightarrow> uint32 \<Rightarrow> 'z fstate_scheme \<Rightarrow> (int outcome \<times> 'z fstate_scheme) option" where
  "handle_exclusive_set fut valueRef s = do {
     state \<leftarrow> rd (fut + F_state) s;
     if state = FUTURE_VALID then Some (Done SYSERR, s)
     else if state = FUTURE_EMPTY then do {
       s \<leftarrow> put_value fut valueRef s;
       s \<leftarrow> wr (fut + F_state) FUTURE_VALID s;
       Some (Done OK, s) }
     else if state = FUTURE_WAITING then do {
       s \<leftarrow> put_value fut valueRef s;
       s \<leftarrow> wr (fut + F_state) FUTURE_VALID s;
       pid \<leftarrow> rd (fut + F_pid) s;
       resume_then X_set_resumed (sint pid) s }
     else Some (Done OK, s) }"

text \<open>Interrupts are on again before the waiting process is resumed, so that is a step of its own.\<close>

definition handle_shared_set :: "uint32 \<Rightarrow> uint32 \<Rightarrow> 'z fstate_scheme \<Rightarrow> (int outcome \<times> 'z fstate_scheme) option" where
  "handle_shared_set fut valueRef s = do {
     state \<leftarrow> rd (fut + F_state) s;
     if state = FUTURE_VALID then Some (Done SYSERR, s)
     else if state = FUTURE_EMPTY then do {
       s \<leftarrow> wr (fut + F_state) FUTURE_VALID s;
       s \<leftarrow> put_value fut valueRef s;
       Some (Done OK, s) }
     else if state = FUTURE_WAITING then do {
       s \<leftarrow> put_value fut valueRef s;
       s \<leftarrow> wr (fut + F_state) FUTURE_VALID s;
       (procID, s) \<leftarrow> on_mem (deq (fut + F_get_queue)) s;
       s \<leftarrow> wr (fut + F_pid) (word_of_int procID) s;
       Some (Pending, s\<lparr>fkont := (fkont s)(currpid s := Some (S_set_unmasked procID))\<rparr>) }
     else Some (Done OK, s) }"

text \<open>A producer whose turn has come: it stores the value and resumes the first consumer.\<close>

definition produce :: "uint32 \<Rightarrow> uint32 \<Rightarrow> 'z kstate_scheme \<Rightarrow> (int outcome \<times> 'z kstate_scheme) option" where
  "produce fut valueRef s = do {
     s \<leftarrow> put_value fut valueRef s;
     (procID, s) \<leftarrow> on_mem (deq (fut + F_get_queue)) s;
     eg \<leftarrow> isEmpty (fut + F_get_queue) (mem s);
     s \<leftarrow> wr (fut + F_state) (if eg = 0 then FUTURE_WAITING else FUTURE_VALID) s;
     s \<leftarrow> wr (fut + F_pid) (word_of_int procID) s;
     (_, s) \<leftarrow> resume procID s;
     Some (Done OK, s) }"

definition handle_queue_set :: "uint32 \<Rightarrow> uint32 \<Rightarrow> 'z fstate_scheme \<Rightarrow> (int outcome \<times> 'z fstate_scheme) option" where
  "handle_queue_set fut valueRef s = do {
     eg \<leftarrow> isEmpty (fut + F_get_queue) (mem s);
     es \<leftarrow> isEmpty (fut + F_set_queue) (mem s);
     if eg = 0 \<and> es = 0 then do {
       (setProcID, s) \<leftarrow> on_mem (deq (fut + F_set_queue)) s;
       resume_then (Q_set_both fut valueRef) setProcID s }
     else if es = 1 \<and> eg = 0 then do {
       s \<leftarrow> put_value fut valueRef s;
       (getProcID, s) \<leftarrow> on_mem (deq (fut + F_get_queue)) s;
       s \<leftarrow> wr (fut + F_pid) (word_of_int getProcID) s;
       eg \<leftarrow> isEmpty (fut + F_get_queue) (mem s);
       s \<leftarrow> wr (fut + F_state) (if eg = 0 then FUTURE_WAITING else FUTURE_VALID) s;
       (_, s) \<leftarrow> resume getProcID s;
       Some (Done OK, s) }
     else do {
       (_, s) \<leftarrow> on_mem (enq (fut + F_set_queue) (currpid s)) s;
       park (Q_set_suspended fut valueRef) s } }"

definition future_set :: "uint32 \<Rightarrow> uint32 \<Rightarrow> 'z fstate_scheme \<Rightarrow> (int outcome \<times> 'z fstate_scheme) option" where
  "future_set fut valueRef s =
     (if fut = 0 then Some (Done SYSERR, s)
      else do {
        flag \<leftarrow> rd (fut + F_flag) s;
        if flag = FUTURE_EXCLUSIVE then handle_exclusive_set fut valueRef s
        else if flag = FUTURE_SHARED then handle_shared_set fut valueRef s
        else if flag = FUTURE_QUEUE then handle_queue_set fut valueRef s
        else Some (Done SYSERR, s) })"

section \<open>The rest of a call\<close>

text \<open>What the process does when it runs again; the rest of \<open>suspend\<close> itself (\<open>pkont\<close>) has run before.\<close>

definition exclusive_rest :: "fcont \<Rightarrow> 'z fstate_scheme \<Rightarrow> (int outcome \<times> 'z fstate_scheme) option" where
  "exclusive_rest k s = (case k of
     X_get_suspended fut valueRef \<Rightarrow> reschedule (X_get_resched fut valueRef) s
   | X_get_resched fut valueRef \<Rightarrow> take_value fut valueRef s
   | X_set_resumed \<Rightarrow> do { s \<leftarrow> resched s; Some (Done OK, s) }
   | _ \<Rightarrow> None)"

definition shared_rest :: "fcont \<Rightarrow> 'z fstate_scheme \<Rightarrow> (int outcome \<times> 'z fstate_scheme) option" where
  "shared_rest k s = (case k of
     S_get_suspended fut valueRef \<Rightarrow> reschedule (S_get_resched fut valueRef) s
   | S_get_resched fut valueRef \<Rightarrow> do { s \<leftarrow> wr (fut + F_pid) 0 s; take_value fut valueRef s }
   | S_set_unmasked procID \<Rightarrow> do { (_, s) \<leftarrow> resume procID s; Some (Done OK, s) }
   | _ \<Rightarrow> None)"

definition queue_get_rest :: "fcont \<Rightarrow> 'z fstate_scheme \<Rightarrow> (int outcome \<times> 'z fstate_scheme) option" where
  "queue_get_rest k s = (case k of
     Q_get_resumed fut valueRef \<Rightarrow> do {
       s \<leftarrow> wr (fut + F_state) FUTURE_WAITING s;
       (_, s) \<leftarrow> take_value fut valueRef s;
       eg \<leftarrow> isEmpty (fut + F_get_queue) (mem s);
       s \<leftarrow> wr (fut + F_state) (if eg = 0 then FUTURE_WAITING else FUTURE_EMPTY) s;
       Some (Done OK, s) }
   | Q_get_both fut valueRef \<Rightarrow> do {
       (_, s) \<leftarrow> on_mem (enq (fut + F_get_queue) (currpid s)) s;
       s \<leftarrow> wr (fut + F_state) FUTURE_WAITING s;
       s \<leftarrow> wr (fut + F_pid) (word_of_int (currpid s)) s;
       park (Q_get_both_suspended fut valueRef) s }
   | Q_get_both_suspended fut valueRef \<Rightarrow> reschedule (Q_get_both_resched fut valueRef) s
   | Q_get_both_resched fut valueRef \<Rightarrow> do {
       q \<leftarrow> rd (fut + F_get_queue) s;
       eg \<leftarrow> isEmpty q (mem s);
       s \<leftarrow> wr (fut + F_state) (if eg = 0 then FUTURE_WAITING else FUTURE_EMPTY) s;
       take_value fut valueRef s }
   | Q_get_suspended fut valueRef \<Rightarrow> reschedule (Q_get_resched fut valueRef) s
   | Q_get_resched fut valueRef \<Rightarrow> do {
       eg \<leftarrow> isEmpty (fut + F_get_queue) (mem s);
       s \<leftarrow> (if eg = 1 then wr (fut + F_state) FUTURE_WAITING s
             else do { s \<leftarrow> wr (fut + F_state) FUTURE_EMPTY s; wr (fut + F_pid) 0 s });
       take_value fut valueRef s }
   | _ \<Rightarrow> None)"

definition queue_set_rest :: "fcont \<Rightarrow> 'z fstate_scheme \<Rightarrow> (int outcome \<times> 'z fstate_scheme) option" where
  "queue_set_rest k s = (case k of
     Q_set_both fut valueRef \<Rightarrow> do {
       (_, s) \<leftarrow> on_mem (enq (fut + F_set_queue) (currpid s)) s;
       park (Q_set_both_suspended fut valueRef) s }
   | Q_set_both_suspended fut valueRef \<Rightarrow> reschedule (Q_set_both_resched fut valueRef) s
   | Q_set_both_resched fut valueRef \<Rightarrow> produce fut valueRef s
   | Q_set_suspended fut valueRef \<Rightarrow> reschedule (Q_set_resched fut valueRef) s
   | Q_set_resched fut valueRef \<Rightarrow> produce fut valueRef s
   | _ \<Rightarrow> None)"

fun is_exclusive :: "fcont \<Rightarrow> bool" where
  "is_exclusive (X_get_suspended _ _) = True"
| "is_exclusive (X_get_resched _ _) = True"
| "is_exclusive X_set_resumed = True"
| "is_exclusive _ = False"

fun is_shared :: "fcont \<Rightarrow> bool" where
  "is_shared (S_get_suspended _ _) = True"
| "is_shared (S_get_resched _ _) = True"
| "is_shared (S_set_unmasked _) = True"
| "is_shared _ = False"

fun is_queue_set :: "fcont \<Rightarrow> bool" where
  "is_queue_set (Q_set_both _ _) = True"
| "is_queue_set (Q_set_both_suspended _ _) = True"
| "is_queue_set (Q_set_both_resched _ _) = True"
| "is_queue_set (Q_set_suspended _ _) = True"
| "is_queue_set (Q_set_resched _ _) = True"
| "is_queue_set _ = False"

definition future_rest :: "'z fstate_scheme \<Rightarrow> (int outcome \<times> 'z fstate_scheme) option" where
  "future_rest s =
     (let s0 = s\<lparr>fkont := (fkont s)(currpid s := None)\<rparr> in
      case fkont s (currpid s) of
        None \<Rightarrow> None
      | Some k \<Rightarrow> if is_exclusive k then exclusive_rest k s0 else if is_shared k then shared_rest k s0
          else if is_queue_set k then queue_set_rest k s0 else queue_get_rest k s0)"

end
