(* ===== verification/Future_Inv.thy ===== *)
theory Future_Inv
  imports Future
begin

unbundle bit_operations_syntax

text \<open>
  What the futures guarantee. Exclusive mode is a one-place hand-over to one consumer, in either order. In the other modes
  the waiting consumers are served in order, one for each call of \<^verbatim>\<open>future_set\<close>, as long as every consumer comes before its
  producer; a producer that comes first destroys the consumers' queue.
\<close>

section \<open>Frame rules\<close>

lemma kinv_fkont [simp]: "kinv (s\<lparr>fkont := k\<rparr>) = kinv s"
  by (simp add: kinv_def kq_def kids_def qof_def eligible_def ksem_def sem_inv_def kmsg_def msg_inv_def
      kheap_def kstk_def stk_ok_def kpend_def cong: prstate.case_cong)

lemma busy_fkont [simp]: "busy (s\<lparr>fkont := k\<rparr>) = busy s"
  by (rule busy_cong; simp)

lemma fkont_more: "kstate.more s' = kstate.more (s :: 'z fstate_scheme) \<Longrightarrow> fkont s' = fkont s"
  by (cases s; cases s'; simp)

lemma rd_busy: "busy s a \<Longrightarrow> rd a s' = Some (mem s' a)"
  by (simp add: rd_def busy_access)

lemma wr_busy: "busy s a \<Longrightarrow> wr a v s' = Some (s'\<lparr>mem := (mem s')(a := v)\<rparr>)"
  by (simp add: wr_def busy_access)

lemma busy_wr: "kinv s \<Longrightarrow> busy s a \<Longrightarrow> busy (s\<lparr>mem := (mem s)(a := v)\<rparr>) = busy s"
  by (rule kheap_write(2)[OF kinvD(6)])

text \<open>The calls that give up the processor leave the memory alone.\<close>

lemma suspend_frame:
  fixes s :: "'z fstate_scheme"
  assumes inv: "kinv s" and cur: "currpid s \<noteq> NULLPROC"
  obtains s' where "suspend (currpid s) s = Some (Pending, s')" "kinv s'" "prstate (proctab s' (currpid s)) = PR_SUSP"
    "pkont s' (currpid s) = Some (K_suspend (currpid s))" "currpid s' = hd (rdy s)" "mem s' = mem s" "fkont s' = fkont s"
    "busy s' = busy s"
proof -
  obtain s' where s': "suspend (currpid s) s = Some (Pending, s')" "kinv s'" "prstate (proctab s' (currpid s)) = PR_SUSP"
    "pkont s' (currpid s) = Some (K_suspend (currpid s))" "currpid s' = hd (rdy s)"
    using suspend_self[OF inv cur] by blast
  obtain s1 where s1: "pr_upd (currpid s) (\<lambda>e. e\<lparr>prstate := PR_SUSP\<rparr>) s = Some s1"
    "resched (s1\<lparr>pkont := (pkont s1)(currpid s1 := Some (K_suspend (currpid s)))\<rparr>) = Some s'"
    using s'(1) by (auto simp: suspend_def bind_eq_Some_conv Let_def split: if_splits)
  note u1 = untouchedD[OF pr_upd_untouched[OF s1(1), where K = "{}"]] and u2 = untouchedD[OF resched_untouched[OF s1(2), where K = "{}"]]
  have m: "mem s' = mem s" "memlist s' = memlist s" "minheap s' = minheap s" "maxheap s' = maxheap s"
    using u1(1-4) u2(1-4) by simp_all
  have "fkont s1 = fkont s" "fkont s' = fkont s1" using fkont_more[OF u1(17)] fkont_more[OF u2(17)] by simp_all
  then have "fkont s' = fkont s" by simp
  moreover have "busy s' = busy s" by (rule busy_cong) (use m in simp_all)
  ultimately show ?thesis using that[OF s'] m(1) by blast
qed

lemma kframe_blocked:
  "kframe P s s' \<Longrightarrow> q \<notin> P \<Longrightarrow> \<not> runnable (prstate (proctab s q)) \<Longrightarrow> prstate (proctab s' q) = prstate (proctab s q)"
  unfolding kframe_def kloose_def by blast

lemma resched_frame:
  fixes s :: "'z fstate_scheme"
  assumes inv: "kinv s"
  obtains s' where "resched s = Some s'" "kinv s'" "mem s' = mem s" "fkont s' = fkont s" "pkont s' = pkont s" "busy s' = busy s"
    "\<forall>p. prstate (proctab s p) = PR_SUSP \<longrightarrow> prstate (proctab s' p) = PR_SUSP"
proof -
  note V = kinvD[OF inv]
  obtain s' where s': "resched s = Some s'" "kq {} s'" "eligible s'" "kframe {} s s'"
    using resched_rep[OF V(1)] V(3) by auto
  have k: "kinv s'" by (rule kinv_kframe[OF V(4-8) V(1,3) s'(4,2,3)]) simp
  note u = untouchedD[OF resched_untouched[OF s'(1), where K = "{}"]]
  have "prstate (proctab s' p) = PR_SUSP" if "prstate (proctab s p) = PR_SUSP" for p
    using kframe_blocked[OF s'(4), of p] that by simp
  then show ?thesis using that[OF s'(1) k u(1) fkont_more[OF u(17)] u(15)] busy_cong[OF u(2-4) u(1)] by blast
qed

lemma resume_frame:
  fixes s :: "'z fstate_scheme"
  assumes inv: "kinv s" and p: "pid_ok p" "prstate (proctab s p) = PR_SUSP"
  obtains r s' where "resume p s = Some (r, s')" "kinv s'" "runnable (prstate (proctab s' p))" "mem s' = mem s"
    "fkont s' = fkont s" "pkont s' = pkont s" "busy s' = busy s"
    "\<forall>q. q \<noteq> p \<longrightarrow> prstate (proctab s q) = PR_SUSP \<longrightarrow> prstate (proctab s' q) = PR_SUSP"
proof -
  note V = kinvD[OF inv]
  obtain s' where s': "resume p s = Some (prprio (proctab s p), s')" "kinv s'" "runnable (prstate (proctab s' p))"
    using resume_inv[OF inv p] by blast
  have r: "ready p s = Some (OK, s')"
    using s'(1) p by (auto simp: resume_def isbadpid_def range_simps bind_eq_Some_conv ready_def split: if_splits)
  have kq: "kq {p} s" by (rule kq_float[OF V(1)]) (simp add: qof_def p(2))
  have fr: "kframe {p} s s'"
    using ready_now[OF kq p(1)] p(2) V(3) r by (metis order_refl option.inject prod.inject prstate.distinct(9))
  note u = untouchedD[OF ready_untouched[OF r, where K = "{}"]]
  have "prstate (proctab s' q) = PR_SUSP" if "q \<noteq> p" "prstate (proctab s q) = PR_SUSP" for q
    using kframe_blocked[OF fr, of q] that by simp
  then show ?thesis using that[OF s' u(1) fkont_more[OF u(17)] u(15)] busy_cong[OF u(2-4) u(1)] by blast
qed

text \<open>Writing memory that is in use.\<close>

lemma kinv_busy_mem:
  assumes inv: "kinv s" and d: "\<And>a. m' a \<noteq> mem s a \<Longrightarrow> busy s a"
  shows "kinv (s\<lparr>mem := m'\<rparr>)" "busy (s\<lparr>mem := m'\<rparr>) = busy s" "heap_of s ys \<Longrightarrow> heap_of (s\<lparr>mem := m'\<rparr>) ys"
proof -
  obtain xs where xs: "heap_of s xs" using kinvD(6)[OF inv] by (auto simp: kheap_def)
  have same: "m' (memlist s) = mem s (memlist s)" "\<And>a. unat a \<in> free_bytes xs \<Longrightarrow> m' a = mem s a"
    using d xs unfolding busy_def by blast+
  have xs': "heap_of (s\<lparr>mem := m'\<rparr>) xs" using heap_rep_frame[OF xs same] by simp
  then show "kinv (s\<lparr>mem := m'\<rparr>)" using inv by (auto simp: kinv_def kheap_def)
  have eq: "heap_of (s\<lparr>mem := m'\<rparr>) ys = heap_of s ys" for ys
    using heap_rep_unique xs xs' by (metis (no_types, lifting) kstate.select_convs(1))
  show "busy (s\<lparr>mem := m'\<rparr>) = busy s" by (rule ext) (unfold busy_def eq, simp)
  show "heap_of s ys \<Longrightarrow> heap_of (s\<lparr>mem := m'\<rparr>) ys" using eq by simp
qed

section \<open>Exclusive mode\<close>

text \<open>A future in memory that is in use: its value, mode, state and process id.\<close>

definition future_is :: "uint32 \<Rightarrow> 'z kstate_scheme \<Rightarrow> uint32 \<Rightarrow> uint32 \<Rightarrow> uint32 \<Rightarrow> bool" where
  "future_is fut s flag state pid \<longleftrightarrow>
     busy s fut \<and> busy s (fut + 4) \<and> busy s (fut + 8) \<and> busy s (fut + 12) \<and>
     mem s (fut + 4) = flag \<and> mem s (fut + 8) = state \<and> mem s (fut + 12) = pid"

definition apart :: "uint32 \<Rightarrow> uint32 \<Rightarrow> bool" where
  "apart fut a \<longleftrightarrow> a \<noteq> fut \<and> a \<noteq> fut + 4 \<and> a \<noteq> fut + 8 \<and> a \<noteq> fut + 12"

lemma future_isD:
  assumes "future_is fut s flag state pid"
  shows "busy s fut" "busy s (fut + 4)" "busy s (fut + 8)" "busy s (fut + 12)" "fut \<noteq> 0"
    "rd fut s = Some (mem s fut)" "rd (fut + 4) s = Some flag" "rd (fut + 8) s = Some state" "rd (fut + 12) s = Some pid"
proof -
  show b: "busy s fut" "busy s (fut + 4)" "busy s (fut + 8)" "busy s (fut + 12)"
    using assms by (simp_all add: future_is_def)
  show "fut \<noteq> 0" using b(1) by (simp add: busy_def)
  show "rd fut s = Some (mem s fut)" "rd (fut + 4) s = Some flag" "rd (fut + 8) s = Some state" "rd (fut + 12) s = Some pid"
    using assms rd_busy[OF b(1), of s] rd_busy[OF b(2), of s] rd_busy[OF b(3), of s] rd_busy[OF b(4), of s]
    by (simp_all add: future_is_def)
qed

lemma exclusive_set_empty:
  assumes inv: "kinv s" and f: "future_is fut s FUTURE_EXCLUSIVE FUTURE_EMPTY pid" and x: "busy s x"
  shows "\<exists>s'. future_set fut x s = Some (Done OK, s') \<and> kinv s' \<and> busy s' = busy s \<and>
    future_is fut s' FUTURE_EXCLUSIVE FUTURE_VALID pid \<and> mem s' fut = mem s x \<and>
    s' = s\<lparr>mem := (mem s)(fut := mem s x, fut + 8 := FUTURE_VALID)\<rparr>"
proof -
  note F = future_isD[OF f]
  let ?m = "(mem s)(fut := mem s x, fut + 8 := FUTURE_VALID)"
  have run: "future_set fut x s = Some (Done OK, s\<lparr>mem := ?m\<rparr>)"
    using F(5,7,8) by (simp add: future_set_def handle_exclusive_set_def put_value_def rd_busy[OF x] wr_busy[OF F(1)] wr_busy[OF F(3)])
  have d: "?m a \<noteq> mem s a \<Longrightarrow> busy s a" for a using F(1,3) by (auto split: if_splits)
  note k = kinv_busy_mem[OF inv, of ?m, OF d]
  have "future_is fut (s\<lparr>mem := ?m\<rparr>) FUTURE_EXCLUSIVE FUTURE_VALID pid"
    using f k(2) by (simp add: future_is_def)
  then show ?thesis using k run by simp
qed

lemma exclusive_get_valid:
  assumes inv: "kinv s" and f: "future_is fut s FUTURE_EXCLUSIVE FUTURE_VALID 0" and y: "busy s y" "apart fut y"
  shows "\<exists>s'. future_get fut y s = Some (Done OK, s') \<and> kinv s' \<and> busy s' = busy s \<and>
    future_is fut s' FUTURE_EXCLUSIVE FUTURE_VALID (word_of_int (currpid s)) \<and> mem s' y = mem s fut \<and>
    s' = s\<lparr>mem := (mem s)(fut + 12 := word_of_int (currpid s), y := mem s fut)\<rparr>"
proof -
  note F = future_isD[OF f]
  let ?m = "(mem s)(fut + 12 := word_of_int (currpid s), y := mem s fut)"
  have run: "future_get fut y s = Some (Done OK, s\<lparr>mem := ?m\<rparr>)"
    using F(5-9) by (simp add: future_get_def handle_exclusive_get_def take_value_def rd_busy[OF F(1)] wr_busy[OF F(4)] wr_busy[OF y(1)])
  have d: "?m a \<noteq> mem s a \<Longrightarrow> busy s a" for a using F(4) y(1) by (auto split: if_splits)
  note k = kinv_busy_mem[OF inv, of ?m, OF d]
  have "future_is fut (s\<lparr>mem := ?m\<rparr>) FUTURE_EXCLUSIVE FUTURE_VALID (word_of_int (currpid s))"
    using f y(2) k(2) by (auto simp: future_is_def apart_def)
  then show ?thesis using k run by simp
qed

text \<open>Once a consumer is known, or the value is there, the future refuses others.\<close>

lemma exclusive_refuses:
  "future_is fut s FUTURE_EXCLUSIVE FUTURE_VALID pid \<Longrightarrow> future_set fut x s = Some (Done SYSERR, s)"
  "future_is fut s FUTURE_EXCLUSIVE state pid \<Longrightarrow> pid \<noteq> 0 \<Longrightarrow> future_get fut y s = Some (Done SYSERR, s)"
  using future_isD[of fut s] by (auto simp: future_set_def handle_exclusive_set_def future_get_def handle_exclusive_get_def)

text \<open>A consumer that comes first is suspended, and the producer resumes it.\<close>

lemma exclusive_get_waits:
  fixes s :: "'z fstate_scheme"
  assumes inv: "kinv s" and cur: "currpid s \<noteq> NULLPROC" and f: "future_is fut s FUTURE_EXCLUSIVE FUTURE_EMPTY 0"
  obtains s' where "future_get fut y s = Some (Pending, s')" "kinv s'" "prstate (proctab s' (currpid s)) = PR_SUSP"
    "pkont s' (currpid s) = Some (K_suspend (currpid s))" "fkont s' (currpid s) = Some (X_get_suspended fut y)"
    "currpid s' = hd (rdy s)" "future_is fut s' FUTURE_EXCLUSIVE FUTURE_WAITING (word_of_int (currpid s))" "busy s' = busy s"
    "mem s' = (mem s)(fut + 8 := FUTURE_WAITING, fut + 12 := word_of_int (currpid s))"
proof -
  note F = future_isD[OF f]
  let ?m = "(mem s)(fut + 8 := FUTURE_WAITING, fut + 12 := word_of_int (currpid s))"
  let ?s1 = "s\<lparr>mem := ?m\<rparr>"
  let ?s2 = "?s1\<lparr>fkont := (fkont s)(currpid s := Some (X_get_suspended fut y))\<rparr>"
  have d: "?m a \<noteq> mem s a \<Longrightarrow> busy s a" for a using F(3,4) by (auto split: if_splits)
  note k = kinv_busy_mem[OF inv, of ?m, OF d]
  have k2: "kinv ?s2" "currpid ?s2 \<noteq> NULLPROC" using k(1) cur by simp_all
  obtain s' where s': "suspend (currpid s) ?s2 = Some (Pending, s')" "kinv s'" "prstate (proctab s' (currpid s)) = PR_SUSP"
    "pkont s' (currpid s) = Some (K_suspend (currpid s))" "currpid s' = hd (rdy s)" "mem s' = ?m" "fkont s' = fkont ?s2"
    "busy s' = busy ?s2" using suspend_frame[OF k2] by auto
  have b: "busy s' = busy s" using s'(8) k(2) by simp
  have "future_get fut y s = Some (Pending, s')"
    using F(5,7,8,9) s'(1)
    by (simp add: future_get_def handle_exclusive_get_def park_def Let_def wr_busy[OF F(3)] wr_busy[OF F(4)])
  moreover have "future_is fut s' FUTURE_EXCLUSIVE FUTURE_WAITING (word_of_int (currpid s))"
    using f unfolding future_is_def b s'(6) by simp
  ultimately show ?thesis using that s' b by simp
qed

lemma exclusive_set_wakes:
  fixes s :: "'z fstate_scheme"
  assumes inv: "kinv s" and f: "future_is fut s FUTURE_EXCLUSIVE FUTURE_WAITING (word_of_int c)" and x: "busy s x"
    and c: "pid_ok c" "prstate (proctab s c) = PR_SUSP"
  obtains s' where "future_set fut x s = Some (Pending, s')" "kinv s'" "runnable (prstate (proctab s' c))"
    "future_is fut s' FUTURE_EXCLUSIVE FUTURE_VALID (word_of_int c)" "mem s' fut = mem s x" "busy s' = busy s"
    "fkont s' = (fkont s)(currpid s := Some X_set_resumed)" "pkont s' = pkont s"
proof -
  note F = future_isD[OF f]
  let ?m = "(mem s)(fut := mem s x, fut + 8 := FUTURE_VALID)"
  let ?s1 = "s\<lparr>mem := ?m\<rparr>"
  let ?s2 = "?s1\<lparr>fkont := (fkont s)(currpid s := Some X_set_resumed)\<rparr>"
  have d: "?m a \<noteq> mem s a \<Longrightarrow> busy s a" for a using F(1,3) by (auto split: if_splits)
  note k = kinv_busy_mem[OF inv, of ?m, OF d]
  have k2: "kinv ?s2" "prstate (proctab ?s2 c) = PR_SUSP" using k(1) c by simp_all
  obtain r s' where s': "resume c ?s2 = Some (r, s')" "kinv s'" "runnable (prstate (proctab s' c))" "mem s' = mem ?s2"
    "fkont s' = fkont ?s2" "pkont s' = pkont ?s2" "busy s' = busy ?s2"
    "\<forall>q. q \<noteq> c \<longrightarrow> prstate (proctab ?s2 q) = PR_SUSP \<longrightarrow> prstate (proctab s' q) = PR_SUSP"
    using resume_frame[OF k2(1) c(1) k2(2)] .
  have b: "busy s' = busy s" using s'(7) k(2) by simp
  have sc: "sint (word_of_int c :: uint32) = c" using c(1) by (intro int32_word) simp_all
  have "mem s (fut + 12) = word_of_int c" using f by (simp add: future_is_def)
  then have "future_set fut x s = Some (Pending, s')"
    using F(5,7,8) s'(1) sc
    by (simp add: future_set_def handle_exclusive_set_def put_value_def resume_then_def Let_def rd_busy[OF x] wr_busy[OF F(1)]
        wr_busy[OF F(3)] rd_busy[OF F(4)])
  moreover have "future_is fut s' FUTURE_EXCLUSIVE FUTURE_VALID (word_of_int c)"
    using f unfolding future_is_def b s'(4) by simp
  ultimately show ?thesis using that s' b by simp
qed

text \<open>The rest of the consumer's call: it gives way once more, then takes the value.\<close>

lemma get_rest_reschedules:
  fixes s :: "'z fstate_scheme"
  assumes inv: "kinv s" and k: "fkont s (currpid s) = Some (X_get_suspended fut y)"
  obtains s' where "future_rest s = Some (Pending, s')" "kinv s'" "mem s' = mem s" "busy s' = busy s"
    "fkont s' = (fkont s)(currpid s := Some (X_get_resched fut y))"
proof -
  let ?s1 = "s\<lparr>fkont := (fkont s)(currpid s := None)\<rparr>"
  let ?s2 = "?s1\<lparr>fkont := (fkont s)(currpid s := Some (X_get_resched fut y))\<rparr>"
  have "kinv ?s2" using inv by simp
  then obtain s' where s': "resched ?s2 = Some s'" "kinv s'" "mem s' = mem ?s2" "fkont s' = fkont ?s2" "busy s' = busy ?s2"
    using resched_frame[of ?s2] by metis
  have "future_rest s = Some (Pending, s')"
    using k s'(1) by (simp add: future_rest_def exclusive_rest_def reschedule_def Let_def)
  then show ?thesis using that s' by simp
qed

lemma get_rest_takes:
  fixes s :: "'z fstate_scheme"
  assumes inv: "kinv s" and k: "fkont s (currpid s) = Some (X_get_resched fut y)" and b: "busy s fut" "busy s y"
  shows "\<exists>s'. future_rest s = Some (Done OK, s') \<and> kinv s' \<and> mem s' = (mem s)(y := mem s fut) \<and> fkont s' (currpid s) = None"
proof -
  let ?s1 = "s\<lparr>fkont := (fkont s)(currpid s := None)\<rparr>"
  let ?s2 = "?s1\<lparr>mem := (mem s)(y := mem s fut)\<rparr>"
  have "kinv ?s1" "busy ?s1 y" using inv b(2) by simp_all
  from kinv_write[OF this, of "mem s fut"] have "kinv ?s2" by simp
  moreover have "future_rest s = Some (Done OK, ?s2)"
    using k by (simp add: future_rest_def exclusive_rest_def take_value_def Let_def rd_busy[OF b(1)] wr_busy[OF b(2)])
  ultimately show ?thesis by simp
qed

end
