(* ===== verification/Future_Modes.thy ===== *)
theory Future_Modes
  imports Future_Inv
begin

unbundle bit_operations_syntax

text \<open>
  The shared and the queue mode: consumers wait in the queue at the field \<^verbatim>\<open>get_queue\<close>, and each call of \<^verbatim>\<open>future_set\<close>
  serves the first of them. The queue of the producers lies four bytes lower over the same memory: a producer that
  enters it overwrites the count of the waiting consumers with its process id.
\<close>

section \<open>The words of a future and its queues\<close>

lemma q_words_set:
  "q_words qs = {qs, qs + 4, qs + 8, qs + 12, qs + 16, qs + 20, qs + 24, qs + 28, qs + 32, qs + 36, qs + 40, qs + 44}"
  by (simp add: q_words_def lessThan_nat_numeral lessThan_Suc) blast

lemma fields_outside:
  "fut \<notin> q_words (fut + 20)" "fut + 4 \<notin> q_words (fut + 20)" "fut + 8 \<notin> q_words (fut + 20)"
  "fut + 12 \<notin> q_words (fut + 20)" "fut + 16 \<notin> q_words (fut + 20)"
  by (simp_all add: q_words_set)

text \<open>A future whose memory, with that of the consumers' queue, is in use; the queue holds \<open>cs\<close>.\<close>

definition waiting_for :: "uint32 \<Rightarrow> 'z kstate_scheme \<Rightarrow> nat \<times> int list \<Rightarrow> bool" where
  "waiting_for fut s q \<longleftrightarrow> fq_rep (mem s) (fut + 20) (mem s) q \<and> (\<forall>a \<in> q_words (fut + 20). busy s a)"

lemma fq_rep_self: "fq_rep m0 qs m q \<Longrightarrow> fq_rep m qs m q"
  by (cases q) (simp add: fq_rep_def)

lemma fq_rep_cong:
  assumes "fq_rep m0 qs m (h, xs)" "\<And>a. a \<in> q_words qs \<Longrightarrow> m' a = m a"
  shows "fq_rep m' qs m' (h, xs)"
proof -
  note R = fq_repD[OF assms(1)]
  have "m' (q_slot qs (of_nat (h + i))) = m (q_slot qs (of_nat (h + i)))" if "i < length xs" for i
    by (rule assms(2), rule q_in_words(3)) (use R(4) that in simp)
  then show ?thesis using R assms(2)[OF q_in_words(1)] assms(2)[OF q_in_words(2)] by (intro fq_repI) (simp_all del: of_nat_add)
qed

text \<open>An operation on the consumers' queue, run on the kernel state.\<close>

lemma waiting_step:
  assumes inv: "kinv s" and w: "waiting_for fut s q" and sp: "fq_spec c q = Some (r, q')"
  obtains m where "fq_step (fut + 20) c (mem s) = Some (r, m)" "kinv (s\<lparr>mem := m\<rparr>)" "busy (s\<lparr>mem := m\<rparr>) = busy s"
    "waiting_for fut (s\<lparr>mem := m\<rparr>) q'" "\<forall>a. a \<notin> q_words (fut + 20) \<longrightarrow> m a = mem s a"
proof -
  have rep: "fq_rep (mem s) (fut + 20) (mem s) q" and b: "\<forall>a \<in> q_words (fut + 20). busy s a"
    using w by (simp_all add: waiting_for_def)
  obtain m where m: "fq_step (fut + 20) c (mem s) = Some (r, m)" "fq_rep (mem s) (fut + 20) m q'"
    using fq_sim[OF rep sp] by blast
  have same: "m a = mem s a" if "a \<notin> q_words (fut + 20)" for a using m(2) that by (cases q') (simp add: fq_rep_def)
  have d: "m a \<noteq> mem s a \<Longrightarrow> busy s a" for a using same[of a] b by blast
  note k = kinv_busy_mem[OF inv, of m, OF d]
  have "waiting_for fut (s\<lparr>mem := m\<rparr>) q'" using fq_rep_self[OF m(2)] b by (simp add: waiting_for_def k(2))
  then show ?thesis using that m(1) k same by blast
qed

text \<open>Writing a field keeps the queue.\<close>

lemma waiting_field:
  assumes inv: "kinv s" and w: "waiting_for fut s q" and a: "busy s a" "a \<notin> q_words (fut + 20)"
  shows "kinv (s\<lparr>mem := (mem s)(a := v)\<rparr>)" "busy (s\<lparr>mem := (mem s)(a := v)\<rparr>) = busy s"
    "waiting_for fut (s\<lparr>mem := (mem s)(a := v)\<rparr>) q"
proof -
  show "kinv (s\<lparr>mem := (mem s)(a := v)\<rparr>)" by (rule kinv_write[OF inv a(1)])
  show b: "busy (s\<lparr>mem := (mem s)(a := v)\<rparr>) = busy s" by (rule busy_wr[OF inv a(1)])
  obtain h xs where q: "q = (h, xs)" by (cases q)
  have "fq_rep ((mem s)(a := v)) (fut + 20) ((mem s)(a := v)) (h, xs)"
    by (rule fq_rep_cong[of "mem s" "fut + 20" "mem s"]) (use w a(2) q in \<open>auto simp: waiting_for_def\<close>)
  then show "waiting_for fut (s\<lparr>mem := (mem s)(a := v)\<rparr>) q" using w unfolding waiting_for_def b q by simp
qed

lemma waiting_same:
  assumes "waiting_for fut s q" "mem s' = mem s" "busy s' = busy s"
  shows "waiting_for fut s' q"
  using assms by (simp add: waiting_for_def)

lemma on_mem_run: "f (mem s) = Some (r, m) \<Longrightarrow> on_mem f s = Some (r, s\<lparr>mem := m\<rparr>)"
  by (simp add: on_mem_def)

section \<open>Waiting for a value\<close>

lemma int32_pid: "pid_ok p \<Longrightarrow> - (2 ^ 31) \<le> p \<and> p < 2 ^ 31"
  by simp

lemma user_word: "pid_ok p \<Longrightarrow> p \<noteq> NULLPROC \<Longrightarrow> (word_of_int p :: uint32) \<noteq> 0"
  using int32_word[of p] by auto

lemma shared_get_waits:
  fixes s :: "'z fstate_scheme"
  assumes inv: "kinv s" and cur: "currpid s \<noteq> NULLPROC" and f: "future_is fut s FUTURE_SHARED state pid"
    and st: "state = FUTURE_EMPTY \<or> state = FUTURE_WAITING \<or> state = FUTURE_VALID \<and> pid \<noteq> 0"
    and w: "waiting_for fut s (h, cs)" and room: "h + length cs < 10"
  obtains s' where "future_get fut y s = Some (Pending, s')" "kinv s'" "prstate (proctab s' (currpid s)) = PR_SUSP"
    "fkont s' (currpid s) = Some (S_get_suspended fut y)" "pkont s' (currpid s) = Some (K_suspend (currpid s))"
    "future_is fut s' FUTURE_SHARED FUTURE_WAITING pid" "waiting_for fut s' (h, cs @ [currpid s])" "currpid s' = hd (rdy s)"
proof -
  note F = future_isD[OF f]
  let ?c = "currpid s" and ?s1 = "s\<lparr>mem := (mem s)(fut + 8 := FUTURE_WAITING)\<rparr>"
  note W = waiting_field[OF inv w F(3) fields_outside(3), of FUTURE_WAITING]
  have "pid_ok ?c" using kqD(7)[OF kinvD(1)[OF inv]] by simp
  then have sp: "fq_spec (Enq ?c) (h, cs) = Some (0, h, cs @ [?c])" using room by simp
  obtain m where m: "fq_step (fut + 20) (Enq ?c) (mem ?s1) = Some (0, m)" "kinv (?s1\<lparr>mem := m\<rparr>)"
    "busy (?s1\<lparr>mem := m\<rparr>) = busy ?s1" "waiting_for fut (?s1\<lparr>mem := m\<rparr>) (h, cs @ [?c])"
    "\<forall>a. a \<notin> q_words (fut + 20) \<longrightarrow> m a = mem ?s1 a" using waiting_step[OF W(1,3) sp] .
  let ?s2 = "s\<lparr>mem := m\<rparr>\<lparr>fkont := (fkont s)(?c := Some (S_get_suspended fut y))\<rparr>"
  have k2: "kinv ?s2" "currpid ?s2 \<noteq> NULLPROC" using m(2) cur by simp_all
  obtain s' where s': "suspend (currpid ?s2) ?s2 = Some (Pending, s')" "kinv s'" "prstate (proctab s' (currpid ?s2)) = PR_SUSP"
    "pkont s' (currpid ?s2) = Some (K_suspend (currpid ?s2))" "currpid s' = hd (rdy ?s2)" "mem s' = mem ?s2"
    "fkont s' = fkont ?s2" "busy s' = busy ?s2" using suspend_frame[OF k2] .
  have b: "busy s' = busy s" using s'(8) m(3) W(2) by simp
  have e: "enq (fut + 20) ?c ((mem s)(fut + 8 := FUTURE_WAITING)) = Some (0, m)" using m(1) by simp
  have "future_get fut y s = Some (Pending, s')"
    using F(5,7,8,9) st s'(1)
    by (auto simp: future_get_def handle_shared_get_def park_def Let_def wr_busy[OF F(3)] on_mem_def e)
  moreover have "future_is fut s' FUTURE_SHARED FUTURE_WAITING pid"
    using f b s'(6) m(5) fields_outside[of fut] by (simp add: future_is_def)
  moreover have "waiting_for fut s' (h, cs @ [?c])"
    by (rule waiting_same[OF m(4)]) (use s'(6) b m(3) W(2) in simp_all)
  ultimately show ?thesis using that s' by simp
qed

text \<open>The producer serves the first consumer; the others stay suspended, and no further value is accepted.\<close>

lemma shared_set_serves:
  fixes s :: "'z fstate_scheme"
  assumes inv: "kinv s" and f: "future_is fut s FUTURE_SHARED FUTURE_WAITING pid" and x: "busy s x"
    and w: "waiting_for fut s (h, c # cs)" and c: "pid_ok c" "prstate (proctab s c) = PR_SUSP"
  obtains s1 s2 where "future_set fut x s = Some (Pending, s1)" "kinv s1" "currpid s1 = currpid s" "proctab s1 = proctab s"
    "future_rest s1 = Some (Done OK, s2)" "kinv s2" "runnable (prstate (proctab s2 c))"
    "\<forall>p. p \<noteq> c \<longrightarrow> prstate (proctab s p) = PR_SUSP \<longrightarrow> prstate (proctab s2 p) = PR_SUSP"
    "future_is fut s2 FUTURE_SHARED FUTURE_VALID (word_of_int c)" "mem s2 fut = mem s x" "waiting_for fut s2 (Suc h, cs)"
proof -
  note F = future_isD[OF f]
  let ?s1 = "s\<lparr>mem := (mem s)(fut := mem s x)\<rparr>"
  note W1 = waiting_field[OF inv w F(1) fields_outside(1), of "mem s x"]
  have b1: "busy ?s1 (fut + 8)" using W1(2) F(3) by simp
  note W2 = waiting_field[OF W1(1,3) b1 fields_outside(3), of FUTURE_VALID]
  let ?s2 = "?s1\<lparr>mem := (mem ?s1)(fut + 8 := FUTURE_VALID)\<rparr>"
  have sp: "fq_spec Deq (h, c # cs) = Some (c, Suc h, cs)" by simp
  obtain m where m: "fq_step (fut + 20) Deq (mem ?s2) = Some (c, m)" "kinv (?s2\<lparr>mem := m\<rparr>)"
    "busy (?s2\<lparr>mem := m\<rparr>) = busy ?s2" "waiting_for fut (?s2\<lparr>mem := m\<rparr>) (Suc h, cs)"
    "\<forall>a. a \<notin> q_words (fut + 20) \<longrightarrow> m a = mem ?s2 a" using waiting_step[OF W2(1,3) sp] .
  let ?s3 = "?s2\<lparr>mem := m\<rparr>" and ?k = "(fkont s)(currpid s := Some (S_set_unmasked c))"
  have b3: "busy ?s3 (fut + 12)" using m(3) W2(2) W1(2) F(4) by simp
  note W4 = waiting_field[OF m(2,4) b3 fields_outside(4), of "word_of_int c"]
  let ?s4 = "s\<lparr>mem := m(fut + 12 := word_of_int c)\<rparr>"
  have k4: "kinv ?s4" "waiting_for fut ?s4 (Suc h, cs)" "busy ?s4 = busy s"
    using W4 m(3) W2(2) W1(2) by simp_all
  have d: "deq (fut + 20) ((mem s)(fut := mem s x, fut + 8 := FUTURE_VALID)) = Some (c, m)" using m(1) by simp
  have set: "future_set fut x s = Some (Pending, ?s4\<lparr>fkont := ?k\<rparr>)"
    using F(5,7,8) by (simp add: future_set_def handle_shared_set_def put_value_def rd_busy[OF x] wr_busy[OF F(1)]
        wr_busy[OF F(3)] wr_busy[OF F(4)] on_mem_def d)
  let ?s5 = "?s4\<lparr>fkont := ?k\<rparr>\<lparr>fkont := (fkont s)(currpid s := None)\<rparr>"
  have k5: "kinv ?s5" "prstate (proctab ?s5 c) = PR_SUSP" using k4(1) c by simp_all
  obtain r s' where s': "resume c ?s5 = Some (r, s')" "kinv s'" "runnable (prstate (proctab s' c))" "mem s' = mem ?s5"
    "fkont s' = fkont ?s5" "pkont s' = pkont ?s5" "busy s' = busy ?s5"
    "\<forall>q. q \<noteq> c \<longrightarrow> prstate (proctab ?s5 q) = PR_SUSP \<longrightarrow> prstate (proctab s' q) = PR_SUSP"
    using resume_frame[OF k5(1) c(1) k5(2)] .
  have b: "busy s' = busy s" using s'(7) k4(3) by simp
  have "future_rest (?s4\<lparr>fkont := ?k\<rparr>) = Some (Done OK, s')"
    using s'(1) by (simp add: future_rest_def shared_rest_def Let_def)
  moreover have "future_is fut s' FUTURE_SHARED FUTURE_VALID (word_of_int c)" "mem s' fut = mem s x"
    using f b s'(4) m(5) fields_outside[of fut] by (simp_all add: future_is_def)
  moreover have "waiting_for fut s' (Suc h, cs)" by (rule waiting_same[OF k4(2)]) (use s'(4) b k4(3) in simp_all)
  ultimately show ?thesis using that[of "?s4\<lparr>fkont := ?k\<rparr>" s'] set k4(1) s'(2,3,8) by simp
qed

lemma shared_refuses: "future_is fut s FUTURE_SHARED FUTURE_VALID pid \<Longrightarrow> future_set fut x s = Some (Done SYSERR, s)"
  using future_isD[of fut s] by (auto simp: future_set_def handle_shared_set_def)

section \<open>Queue mode, consumers first\<close>

text \<open>No producer waits: the words the producers' queue takes for its head and its tail agree. The head is the last
  place of the consumers' queue, which nine consumers leave alone.\<close>

definition no_producer :: "uint32 \<Rightarrow> 'z kstate_scheme \<Rightarrow> bool" where
  "no_producer fut s \<longleftrightarrow> busy s (fut + 16) \<and> mem s (fut + 60) = mem s (fut + 16)"

lemma queue_busy:
  assumes "waiting_for fut s q"
  shows "busy s (fut + 20)" "busy s (fut + 24)" "busy s (fut + 60)" "busy s (fut + 64)"
  using assms by (simp_all add: waiting_for_def q_words_set add.commute)

lemma q_addresses: "q_head (fut + 16) = fut + 60" "q_head (fut + 20) = fut + 64" "q_slot (fut + 16) 0 = fut + 20"
  by (simp_all add: q_head_def q_slot_def add.commute)

lemma set_queue_empty:
  assumes "no_producer fut s" "waiting_for fut s q"
  shows "isEmpty (fut + 16) (mem s) = Some 1"
proof -
  show ?thesis using queue_busy(3)[OF assms(2)] assms(1) by (auto simp: no_producer_def isEmpty_def q_addresses busy_access)
qed

lemma get_queue_empty: "waiting_for fut s (h, cs) \<Longrightarrow> isEmpty (fut + 20) (mem s) = Some (if cs = [] then 1 else 0)"
  unfolding waiting_for_def by (blast intro: isEmpty_rep)

text \<open>Entering the queue does not touch the last place, nor does leaving it.\<close>

lemma enq_keeps:
  assumes "fq_rep m0 (fut + 20) m (h, cs)" "h + length cs < 9" "enq (fut + 20) p m = Some (r, m')"
  shows "m' (fut + 60) = m (fut + 60)"
proof -
  note R = fq_repD[OF assms(1)]
  let ?n = "h + length cs"
  have n: "?n < 10" using assms(2) by simp
  have s: "fut + 60 = q_slot (fut + 20) (of_nat 9)" by (simp add: q_slot_def)
  have "?n \<noteq> 9" "(9 :: nat) < 10" using assms(2) by simp_all
  then have ne: "fut + 60 \<noteq> q_slot (fut + 20) (of_nat ?n)" "fut + 60 \<noteq> fut + 20"
    using q_distinct(4)[OF R(1), of 9 ?n] n unfolding s by (metis, metis q_distinct(2)[OF R(1)])
  have "m' = m(q_slot (fut + 20) (of_nat ?n) := word_of_int p, fut + 20 := of_nat (Suc ?n)) \<or> m' = m"
    using assms(3) q_access(1,2)[OF R(1)] q_access(6)[OF R(1) n] q_distinct(2)[OF R(1) n]
    unfolding enq_def by (auto simp: R(2) add.commute bind_eq_Some_conv split: if_splits)
  then show ?thesis using ne by auto
qed

lemma deq_keeps:
  assumes "fq_rep m0 (fut + 20) m (h, c # cs)" "deq (fut + 20) m = Some (r, m')"
  shows "m' (fut + 60) = m (fut + 60)"
proof -
  note R = fq_repD[OF assms(1)]
  have ne: "fut + 60 \<noteq> fut + 64" by simp
  have "m (q_head (fut + 20)) \<noteq> m (fut + 20)"
    unfolding R(2,3) using count_word(2)[of h "h + length (c # cs)"] R(4) by simp
  then have "\<exists>v. m' = m(fut + 64 := v)"
    using assms(2) q_access(1,3,4)[OF R(1)] unfolding deq_def by (auto simp: bind_eq_Some_conv q_head_def add.commute[of fut])
  then show ?thesis using ne by (auto simp: add.commute[of fut])
qed

lemma queue_get_waits:
  fixes s :: "'z fstate_scheme"
  assumes inv: "kinv s" and cur: "currpid s \<noteq> NULLPROC" and f: "future_is fut s FUTURE_QUEUE state pid"
    and w: "waiting_for fut s (h, cs)" and room: "h + length cs < 9" and np: "no_producer fut s"
  obtains s' where "future_get fut y s = Some (Pending, s')" "kinv s'" "prstate (proctab s' (currpid s)) = PR_SUSP"
    "fkont s' (currpid s) = Some (Q_get_suspended fut y)" "pkont s' (currpid s) = Some (K_suspend (currpid s))"
    "future_is fut s' FUTURE_QUEUE FUTURE_WAITING (word_of_int (currpid s))"
    "waiting_for fut s' (h, cs @ [currpid s])" "no_producer fut s'" "currpid s' = hd (rdy s)"
proof -
  note F = future_isD[OF f]
  let ?c = "currpid s"
  have "pid_ok ?c" using kqD(7)[OF kinvD(1)[OF inv]] by simp
  then have sp: "fq_spec (Enq ?c) (h, cs) = Some (0, h, cs @ [?c])" using room by simp
  obtain m where m: "fq_step (fut + 20) (Enq ?c) (mem s) = Some (0, m)" "kinv (s\<lparr>mem := m\<rparr>)"
    "busy (s\<lparr>mem := m\<rparr>) = busy s" "waiting_for fut (s\<lparr>mem := m\<rparr>) (h, cs @ [?c])"
    "\<forall>a. a \<notin> q_words (fut + 20) \<longrightarrow> m a = mem s a" using waiting_step[OF inv w sp] .
  let ?s1 = "s\<lparr>mem := m\<rparr>"
  have b1: "busy ?s1 (fut + 8)" using m(3) F(3) by simp
  note W1 = waiting_field[OF m(2,4) b1 fields_outside(3), of FUTURE_WAITING]
  let ?s2 = "?s1\<lparr>mem := (mem ?s1)(fut + 8 := FUTURE_WAITING)\<rparr>"
  have b2: "busy ?s2 (fut + 12)" using W1(2) m(3) F(4) by simp
  note W2 = waiting_field[OF W1(1,3) b2 fields_outside(4), of "word_of_int ?c"]
  let ?m = "m(fut + 8 := FUTURE_WAITING, fut + 12 := word_of_int ?c)"
  let ?s3 = "s\<lparr>mem := ?m\<rparr>"
  have k3: "kinv ?s3" "busy ?s3 = busy s" "waiting_for fut ?s3 (h, cs @ [?c])" using W2 W1(2) m(3) by simp_all
  let ?s4 = "?s3\<lparr>fkont := (fkont s)(?c := Some (Q_get_suspended fut y))\<rparr>"
  have k4: "kinv ?s4" "currpid ?s4 \<noteq> NULLPROC" using k3(1) cur by simp_all
  obtain s' where s': "suspend (currpid ?s4) ?s4 = Some (Pending, s')" "kinv s'" "prstate (proctab s' (currpid ?s4)) = PR_SUSP"
    "pkont s' (currpid ?s4) = Some (K_suspend (currpid ?s4))" "currpid s' = hd (rdy ?s4)" "mem s' = mem ?s4"
    "fkont s' = fkont ?s4" "busy s' = busy ?s4" using suspend_frame[OF k4] .
  have b: "busy s' = busy s" using s'(8) k3(2) by simp
  have e: "enq (fut + 20) ?c (mem s) = Some (0, m)" using m(1) by simp
  have "future_get fut y s = Some (Pending, s')"
    using F(5,7) s'(1) set_queue_empty[OF np w] get_queue_empty[OF w]
    by (simp add: future_get_def handle_queue_get_def park_def Let_def wr_busy[OF F(3)] wr_busy[OF F(4)] on_mem_def e)
  moreover have "future_is fut s' FUTURE_QUEUE FUTURE_WAITING (word_of_int ?c)"
    using f b s'(6) m(5) fields_outside[of fut] by (simp add: future_is_def)
  moreover have "waiting_for fut s' (h, cs @ [?c])"
    by (rule waiting_same[OF k3(3)]) (use s'(6) b k3(2) in simp_all)
  moreover have "no_producer fut s'"
  proof -
    have "fq_rep (mem s) (fut + 20) (mem s) (h, cs)" using w by (simp add: waiting_for_def)
    from enq_keeps[OF this room e] have "m (fut + 60) = mem s (fut + 60)" .
    then show ?thesis using np b s'(6) m(5) fields_outside(5)[of fut] by (simp add: no_producer_def)
  qed
  ultimately show ?thesis using that s' by simp
qed

lemma queue_set_serves:
  fixes s :: "'z fstate_scheme"
  assumes inv: "kinv s" and f: "future_is fut s FUTURE_QUEUE state pid" and x: "busy s x"
    and w: "waiting_for fut s (h, c # cs)" and np: "no_producer fut s" and c: "pid_ok c" "prstate (proctab s c) = PR_SUSP"
  obtains s' where "future_set fut x s = Some (Done OK, s')" "kinv s'" "runnable (prstate (proctab s' c))"
    "\<forall>p. p \<noteq> c \<longrightarrow> prstate (proctab s p) = PR_SUSP \<longrightarrow> prstate (proctab s' p) = PR_SUSP"
    "future_is fut s' FUTURE_QUEUE (if cs = [] then FUTURE_VALID else FUTURE_WAITING) (word_of_int c)"
    "mem s' fut = mem s x" "waiting_for fut s' (Suc h, cs)" "no_producer fut s'"
proof -
  note F = future_isD[OF f]
  let ?s1 = "s\<lparr>mem := (mem s)(fut := mem s x)\<rparr>"
  note W1 = waiting_field[OF inv w F(1) fields_outside(1), of "mem s x"]
  have sp: "fq_spec Deq (h, c # cs) = Some (c, Suc h, cs)" by simp
  obtain m where m: "fq_step (fut + 20) Deq (mem ?s1) = Some (c, m)" "kinv (?s1\<lparr>mem := m\<rparr>)"
    "busy (?s1\<lparr>mem := m\<rparr>) = busy ?s1" "waiting_for fut (?s1\<lparr>mem := m\<rparr>) (Suc h, cs)"
    "\<forall>a. a \<notin> q_words (fut + 20) \<longrightarrow> m a = mem ?s1 a" using waiting_step[OF W1(1,3) sp] .
  let ?s2 = "?s1\<lparr>mem := m\<rparr>" and ?st = "if cs = [] then FUTURE_VALID else FUTURE_WAITING"
  have b2: "busy ?s2 (fut + 12)" using m(3) W1(2) F(4) by simp
  note W3 = waiting_field[OF m(2,4) b2 fields_outside(4), of "word_of_int c"]
  let ?s3 = "s\<lparr>mem := m(fut + 12 := word_of_int c)\<rparr>"
  have k3: "kinv ?s3" "busy ?s3 = busy s" "waiting_for fut ?s3 (Suc h, cs)" using W3 m(3) W1(2) by simp_all
  have b3: "busy ?s3 (fut + 8)" using k3(2) F(3) by simp
  note W4 = waiting_field[OF k3(1,3) b3 fields_outside(3), of ?st]
  let ?m = "m(fut + 12 := word_of_int c, fut + 8 := ?st)"
  let ?s4 = "s\<lparr>mem := ?m\<rparr>"
  have k4: "kinv ?s4" "busy ?s4 = busy s" "waiting_for fut ?s4 (Suc h, cs)" using W4 k3(2) by simp_all
  have c4: "prstate (proctab ?s4 c) = PR_SUSP" using c(2) by simp
  obtain r s' where s': "resume c ?s4 = Some (r, s')" "kinv s'" "runnable (prstate (proctab s' c))" "mem s' = mem ?s4"
    "fkont s' = fkont ?s4" "pkont s' = pkont ?s4" "busy s' = busy ?s4"
    "\<forall>q. q \<noteq> c \<longrightarrow> prstate (proctab ?s4 q) = PR_SUSP \<longrightarrow> prstate (proctab s' q) = PR_SUSP"
    using resume_frame[OF k4(1) c(1) c4] .
  have b: "busy s' = busy s" using s'(7) k4(2) by simp
  have d: "deq (fut + 20) ((mem s)(fut := mem s x)) = Some (c, m)" using m(1) by simp
  have ge: "isEmpty (fut + 20) (m(fut + 12 := word_of_int c)) = Some (if cs = [] then 1 else 0)"
    using get_queue_empty[OF k3(3)] by simp
  have "future_set fut x s = Some (Done OK, s')"
    using F(5,7) s'(1) set_queue_empty[OF np w] get_queue_empty[OF w] ge
    by (cases "cs = []") (simp_all add: future_set_def handle_queue_set_def put_value_def rd_busy[OF x] wr_busy[OF F(1)]
        wr_busy[OF F(3)] wr_busy[OF F(4)] on_mem_def d)
  moreover have "future_is fut s' FUTURE_QUEUE ?st (word_of_int c)" "mem s' fut = mem s x"
    using f b s'(4) m(5) fields_outside[of fut] by (auto simp: future_is_def)
  moreover have "waiting_for fut s' (Suc h, cs)"
    by (rule waiting_same[OF k4(3)]) (use s'(4) b k4(2) in simp_all)
  moreover have "no_producer fut s'"
  proof -
    have "fq_rep (mem ?s1) (fut + 20) (mem ?s1) (h, c # cs)" using W1(3) unfolding waiting_for_def by blast
    moreover have "deq (fut + 20) (mem ?s1) = Some (c, m)" using d by simp
    ultimately have "m (fut + 60) = mem ?s1 (fut + 60)" by (rule deq_keeps)
    then have "m (fut + 60) = mem s (fut + 60)" by simp
    then show ?thesis using np b s'(4) m(5) fields_outside(5)[of fut] by (simp add: no_producer_def)
  qed
  ultimately show ?thesis using that s' by simp
qed

section \<open>Queue mode, producer first\<close>

text \<open>Both queues empty, as \<open>future_alloc\<close> leaves them.\<close>

definition idle_queues :: "uint32 \<Rightarrow> 'z kstate_scheme \<Rightarrow> bool" where
  "idle_queues fut s \<longleftrightarrow> busy s (fut + 16) \<and> waiting_for fut s (0, []) \<and> mem s (fut + 16) = 0 \<and> mem s (fut + 60) = 0"

lemma producer_first:
  fixes s :: "'z fstate_scheme"
  assumes inv: "kinv s" and cur: "currpid s \<noteq> NULLPROC" and f: "future_is fut s FUTURE_QUEUE FUTURE_EMPTY 0"
    and idle: "idle_queues fut s"
  obtains s' where "future_set fut x s = Some (Pending, s')" "kinv s'" "prstate (proctab s' (currpid s)) = PR_SUSP"
    "fkont s' (currpid s) = Some (Q_set_suspended fut x)"
    "mem s' = (mem s)(fut + 20 := word_of_int (currpid s), fut + 16 := 1)" "busy s' = busy s"
proof -
  note F = future_isD[OF f]
  let ?c = "currpid s" and ?m = "(mem s)(fut + 20 := word_of_int (currpid s), fut + 16 := 1)"
  have w: "waiting_for fut s (0, [])" and z: "mem s (fut + 16) = 0" "mem s (fut + 60) = 0" and b16: "busy s (fut + 16)"
    using idle by (simp_all add: idle_queues_def)
  note b20 = queue_busy(1)[OF w]
  have d: "?m a \<noteq> mem s a \<Longrightarrow> busy s a" for a using b16 b20 by (auto split: if_splits)
  note k = kinv_busy_mem[OF inv, of ?m, OF d]
  have np: "no_producer fut s" using z b16 by (simp add: no_producer_def)
  have e: "enq (fut + 16) ?c (mem s) = Some (0, ?m)"
    using z b16 b20 by (simp add: enq_def q_addresses busy_access)
  let ?s2 = "s\<lparr>mem := ?m\<rparr>\<lparr>fkont := (fkont s)(?c := Some (Q_set_suspended fut x))\<rparr>"
  have k2: "kinv ?s2" "currpid ?s2 \<noteq> NULLPROC" using k(1) cur by simp_all
  obtain s' where s': "suspend (currpid ?s2) ?s2 = Some (Pending, s')" "kinv s'" "prstate (proctab s' (currpid ?s2)) = PR_SUSP"
    "pkont s' (currpid ?s2) = Some (K_suspend (currpid ?s2))" "currpid s' = hd (rdy ?s2)" "mem s' = mem ?s2"
    "fkont s' = fkont ?s2" "busy s' = busy ?s2" using suspend_frame[OF k2] .
  have "future_set fut x s = Some (Pending, s')"
    using F(5,7) s'(1) set_queue_empty[OF np w] get_queue_empty[OF w]
    by (simp add: future_set_def handle_queue_set_def park_def Let_def on_mem_def e)
  then show ?thesis using that s' k(2) by simp
qed

text \<open>The consumer that comes next takes the waiting producer's id for a waiting consumer: it will be suspended itself.\<close>

lemma consumer_second:
  fixes s :: "'z fstate_scheme"
  assumes inv: "kinv s" and f: "future_is fut s FUTURE_QUEUE FUTURE_EMPTY 0" and p: "pid_ok p" "p \<noteq> NULLPROC" "prstate (proctab s p) = PR_SUSP"
    and b: "busy s (fut + 16)" "busy s (fut + 20)" "busy s (fut + 60)" "busy s (fut + 64)"
    and m: "mem s (fut + 16) = 1" "mem s (fut + 20) = word_of_int p" "mem s (fut + 60) = 0" "mem s (fut + 64) = 0"
  obtains s' where "future_get fut y s = Some (Pending, s')" "kinv s'" "fkont s' (currpid s) = Some (Q_get_both fut y)"
    "runnable (prstate (proctab s' p))" "mem s' = (mem s)(fut + 60 := 1)"
proof -
  note F = future_isD[OF f]
  let ?m = "(mem s)(fut + 60 := 1)"
  have sp: "sint (word_of_int p :: uint32) = p" using p(1) by (intro int32_word) simp_all
  have es: "isEmpty (fut + 16) (mem s) = Some 0" using b m by (simp add: isEmpty_def q_addresses busy_access)
  have "(word_of_int p :: uint32) \<noteq> 0" using sp p(2) by auto
  then have eg: "isEmpty (fut + 20) (mem s) = Some 0" using b m by (simp add: isEmpty_def q_addresses busy_access)
  have d: "deq (fut + 16) (mem s) = Some (p, ?m)" using b m sp by (simp add: deq_def q_addresses busy_access)
  have dd: "?m a \<noteq> mem s a \<Longrightarrow> busy s a" for a using b by (auto split: if_splits)
  note k = kinv_busy_mem[OF inv, of ?m, OF dd]
  let ?s2 = "s\<lparr>mem := ?m\<rparr>\<lparr>fkont := (fkont s)(currpid s := Some (Q_get_both fut y))\<rparr>"
  have k2: "kinv ?s2" "prstate (proctab ?s2 p) = PR_SUSP" using k(1) p by simp_all
  obtain r s' where s': "resume p ?s2 = Some (r, s')" "kinv s'" "runnable (prstate (proctab s' p))" "mem s' = mem ?s2"
    "fkont s' = fkont ?s2" "pkont s' = pkont ?s2" "busy s' = busy ?s2"
    "\<forall>q. q \<noteq> p \<longrightarrow> prstate (proctab ?s2 q) = PR_SUSP \<longrightarrow> prstate (proctab s' q) = PR_SUSP"
    using resume_frame[OF k2(1) p(1) k2(2)] .
  have "future_get fut y s = Some (Pending, s')"
    using F(5,7) s'(1) es eg by (simp add: future_get_def handle_queue_get_def resume_then_def Let_def on_mem_def d)
  then show ?thesis using that s' by simp
qed

text \<open>Resumed in that branch, it enters the queue at the place the producer's id names, marks the future as waited
  for, and is suspended without having taken a value. (At ten the queue counts as full and it is not even entered.)\<close>

lemma small_word: "m < 2 ^ 32 - unat c \<Longrightarrow> unat (of_nat m + c :: uint32) = m + unat c"
  by (subst unat_add_lem[THEN iffD1]) (simp_all add: unat_of_nat)

lemma count_slot:
  assumes "pid_ok p" "p \<noteq> NULLPROC"
  shows "q_slot (fut + 20) (word_of_int p) \<notin> {fut, fut + 4, fut + 8, fut + 12, fut + 20}"
proof -
  obtain n where n: "p = int n" "n < 100" "n \<noteq> 0" using assms by (cases p) auto
  obtain m where m: "4 * n = m" "m < 400" "m \<noteq> 0" using n(2,3) by simp
  have w: "4 * (word_of_int p :: uint32) = of_nat m" by (simp add: n(1) m(1)[symmetric])
  have a: "of_nat m + (4 + k) \<noteq> (0 :: uint32)" if "unat (4 + k) + 400 < 2 ^ 32" for k
  proof
    assume z: "of_nat m + (4 + k) = (0 :: uint32)"
    have "m < 2 ^ 32 - unat (4 + k)" using that m(2) by simp
    from small_word[OF this] show False unfolding z using m(3) by simp
  qed
  have d: "q_slot (fut + 20) (word_of_int p) - (fut + 20 - k) = of_nat m + (4 + k)" for k
    unfolding q_slot_def w by (simp add: algebra_simps)
  have "q_slot (fut + 20) (word_of_int p) \<noteq> fut + 20 - k" if "unat (4 + k) + 400 < 2 ^ 32" for k
    using d[of k] a[OF that] by (metis right_minus_eq)
  from this[of 20] this[of 16] this[of 12] this[of 8] this[of 0] show ?thesis by (simp add: add.commute[of fut])
qed

lemma consumer_waits:
  fixes s :: "'z fstate_scheme"
  assumes inv: "kinv s" and cur: "currpid s \<noteq> NULLPROC" and k: "fkont s (currpid s) = Some (Q_get_both fut y)"
    and f: "future_is fut s FUTURE_QUEUE state pid" and p: "pid_ok p" "p \<noteq> NULLPROC"
    and b: "busy s (fut + 20)" "mem s (fut + 20) = word_of_int p" "p = 10 \<or> busy s (q_slot (fut + 20) (word_of_int p))"
  shows "\<exists>s'. future_rest s = Some (Pending, s') \<and> kinv s' \<and> prstate (proctab s' (currpid s)) = PR_SUSP \<and>
    fkont s' (currpid s) = Some (Q_get_both_suspended fut y) \<and>
    future_is fut s' FUTURE_QUEUE FUTURE_WAITING (word_of_int (currpid s)) \<and> mem s' fut = mem s fut"
proof -
  note F = future_isD[OF f]
  let ?c = "currpid s" and ?a = "q_slot (fut + 20) (word_of_int p)"
  note A = count_slot[OF p, of fut]
  have sp: "sint (word_of_int p :: uint32) = p" using p(1) by (intro int32_word) simp_all
  let ?m = "if p = 10 then mem s else (mem s)(?a := word_of_int ?c, fut + 20 := word_of_int p + 1)"
  have e: "\<exists>r. enq (fut + 20) ?c (mem s) = Some (r, ?m)"
    using b A sp by (auto simp: enq_def busy_access)
  let ?m2 = "?m(fut + 8 := FUTURE_WAITING, fut + 12 := word_of_int ?c)"
  have "?m2 a \<noteq> mem s a \<Longrightarrow> busy s a" for a using b F(3,4) by (auto split: if_splits)
  note K = kinv_busy_mem[OF inv, of ?m2, OF this]
  let ?k = "(fkont s)(?c := Some (Q_get_both_suspended fut y))"
  let ?s4 = "s\<lparr>mem := ?m2, fkont := ?k\<rparr>"
  have "kinv (s\<lparr>mem := ?m2\<rparr>\<lparr>fkont := ?k\<rparr>)" using K(1) by (simp del: fun_upd_apply)
  then have k4: "kinv ?s4" "currpid ?s4 \<noteq> NULLPROC" using cur by (simp_all del: fun_upd_apply)
  obtain s' where s': "suspend (currpid ?s4) ?s4 = Some (Pending, s')" "kinv s'" "prstate (proctab s' (currpid ?s4)) = PR_SUSP"
    "pkont s' (currpid ?s4) = Some (K_suspend (currpid ?s4))" "currpid s' = hd (rdy ?s4)" "mem s' = mem ?s4"
    "fkont s' = fkont ?s4" "busy s' = busy ?s4" using suspend_frame[OF k4] .
  have bb: "busy s' = busy s" using s'(8) K(2) by simp
  have "future_rest s = Some (Pending, s')"
    using e s'(1) by (auto simp: future_rest_def Let_def k queue_get_rest_def on_mem_def wr_busy[OF F(3)] wr_busy[OF F(4)] park_def
      simp del: fun_upd_apply)
  moreover have "future_is fut s' FUTURE_QUEUE FUTURE_WAITING (word_of_int ?c)" "mem s' fut = mem s fut"
    using f A bb s'(6) by (auto simp: future_is_def)
  ultimately show ?thesis using s'(2,3,7) by simp
qed

lemma suspended_user:
  assumes "kinv s" "prstate (proctab s c) = PR_SUSP"
  shows "c \<noteq> NULLPROC"
  using kqD(9)[OF kinvD(1)[OF assms(1)]] assms(2) by auto

end
