(* ===== verification/Future_Alloc.thy ===== *)
theory Future_Alloc
  imports Future_Modes Bufpool Memory_Sim
begin

unbundle bit_operations_syntax

text \<open>
  Allocating a future. The queue areas that \<open>future_alloc\<close> takes from the heap are forgotten at once, since it clears
  the pointers to them; its queues lie over the structure and the 44 bytes behind it. When the first area follows the
  structure on the heap, these bytes belong to nobody else; otherwise the call clears two words of foreign memory.
\<close>

lemma busy_shrink:
  assumes "busy s a" "heap_of s xs" "heap_of s' ys" "free_bytes ys \<subseteq> free_bytes xs" "memlist s' = memlist s"
  shows "busy s' a"
proof -
  have "unat a \<notin> free_bytes zs" if "heap_of s' zs" for zs
    using heap_rep_unique[OF that assms(3)] assms(1,2,4) unfolding busy_def by blast
  then show ?thesis using assms(1,5) by (simp add: busy_def)
qed

lemma round_sizes: "roundmb 24 = 24" "roundmb 48 = 48"
  by (simp_all add: roundmb_def)

lemma alloc_step:
  assumes inv: "kinv s" and heap: "heap_of s xs" "ff_alloc n xs = Some (a, ys)" and n: "n = 24 \<or> n = 48"
  obtains m where "getmem_k n s = Some (a, s\<lparr>mem := m\<rparr>)" "kinv (s\<lparr>mem := m\<rparr>)" "heap_of (s\<lparr>mem := m\<rparr>) ys"
    "\<And>x. unat a \<le> unat x \<Longrightarrow> unat x < unat a + unat n \<Longrightarrow> 4 dvd unat x \<Longrightarrow> busy (s\<lparr>mem := m\<rparr>) x"
    "\<And>x. busy s x \<Longrightarrow> busy (s\<lparr>mem := m\<rparr>) x" "a \<noteq> SYSERR_ptr" "8 dvd unat a" "unat a + unat n < 2 ^ 32"
proof -
  have r: "roundmb n = n" "n \<noteq> 0" "unat n + 7 < 2 ^ 32" "8 dvd unat n" using n round_sizes by auto
  have al: "ff_alloc (roundmb n) xs = Some (a, ys)" using heap(2) r(1) by simp
  note A = alloc_fresh[OF inv heap(1) al r(2,3)]
  obtain m where m: "getmem_k n s = Some (a, s\<lparr>mem := m\<rparr>)" "heap_of (s\<lparr>mem := m\<rparr>) ys" using A(1) by blast
  have "kheap (s\<lparr>mem := m\<rparr>)" using m(2) by (auto simp: kheap_def)
  then have k: "kinv (s\<lparr>mem := m\<rparr>)" using kinv_mem[OF inv] by simp
  have sub: "free_bytes ys \<subseteq> free_bytes xs"
    using ff_alloc_ok[OF heap(2) heap_repD(5,4)[OF heap(1)] r(4,2)] by blast
  have "busy (s\<lparr>mem := m\<rparr>) x" if "busy s x" for x using busy_shrink[OF that heap(1) m(2) sub] by simp
  moreover have "busy (s\<lparr>mem := m\<rparr>) x" if "unat a \<le> unat x" "unat x < unat a + unat n" "4 dvd unat x" for x
    by (rule A(7)[OF that m(2)]) simp_all
  ultimately show ?thesis using that m k A(2,4,5) by blast
qed

theorem future_alloc_makes:
  assumes inv: "kinv s" and heap: "heap_of s xs"
    and al: "ff_alloc 24 xs = Some (fut, xs1)" "ff_alloc 48 xs1 = Some (fut + 24, xs2)" "ff_alloc 48 xs2 = Some (q, xs3)"
  shows "\<exists>m. future_alloc flag s = Some (fut, s\<lparr>mem := m\<rparr>) \<and> kinv (s\<lparr>mem := m\<rparr>) \<and> heap_of (s\<lparr>mem := m\<rparr>) xs3 \<and>
    future_is fut (s\<lparr>mem := m\<rparr>) flag FUTURE_EMPTY 0 \<and> m fut = 0 \<and> idle_queues fut (s\<lparr>mem := m\<rparr>) \<and>
    (\<forall>x. busy s x \<longrightarrow> busy (s\<lparr>mem := m\<rparr>) x)"
proof -
  obtain m1 where m1: "getmem_k 24 s = Some (fut, s\<lparr>mem := m1\<rparr>)" "kinv (s\<lparr>mem := m1\<rparr>)" "heap_of (s\<lparr>mem := m1\<rparr>) xs1"
    "\<And>x. unat fut \<le> unat x \<Longrightarrow> unat x < unat fut + unat (24 :: uint32) \<Longrightarrow> 4 dvd unat x \<Longrightarrow> busy (s\<lparr>mem := m1\<rparr>) x"
    "\<And>x. busy s x \<Longrightarrow> busy (s\<lparr>mem := m1\<rparr>) x" "fut \<noteq> SYSERR_ptr" "8 dvd unat fut" "unat fut + unat (24 :: uint32) < 2 ^ 32"
    by (rule alloc_step[OF inv heap al(1)]) auto
  let ?s1 = "s\<lparr>mem := m1\<rparr>"
  obtain m2 where m2: "getmem_k 48 ?s1 = Some (fut + 24, s\<lparr>mem := m2\<rparr>)" "kinv (s\<lparr>mem := m2\<rparr>)" "heap_of (s\<lparr>mem := m2\<rparr>) xs2"
    "\<And>x. unat (fut + 24) \<le> unat x \<Longrightarrow> unat x < unat (fut + 24) + unat (48 :: uint32) \<Longrightarrow> 4 dvd unat x \<Longrightarrow> busy (s\<lparr>mem := m2\<rparr>) x"
    "\<And>x. busy ?s1 x \<Longrightarrow> busy (s\<lparr>mem := m2\<rparr>) x" "unat (fut + 24) + unat (48 :: uint32) < 2 ^ 32"
    by (rule alloc_step[OF m1(2,3) al(2)]) auto
  let ?s2 = "s\<lparr>mem := m2\<rparr>"
  have u24: "unat (fut + 24) = unat fut + 24" using m1(8) by (simp add: unat_word_ariths)
  have lim: "unat fut + 72 < 2 ^ 32" using m2(6) u24 by simp
  have ad: "unat (fut + 4 * of_nat k) = unat fut + 4 * k" if "k < 18" for k
    using that lim by (simp add: unat_word_ariths unat_of_nat)
  have d4: "4 dvd unat (fut + 4 * of_nat k)" if "k < 18" for k
    unfolding ad[OF that] using dvd8_4[OF m1(7)] by simp
  have b2: "busy ?s2 (fut + 4 * of_nat k)" if k: "k < 18" for k
  proof (cases "k < 6")
    case True
    have "busy ?s1 (fut + 4 * of_nat k)" by (rule m1(4)) (use ad[OF k] d4[OF k] True in simp_all)
    then show ?thesis by (rule m2(5))
  next
    case False
    show ?thesis by (rule m2(4)) (use ad[OF k] d4[OF k] u24 False k in simp_all)
  qed
  have f16: "busy ?s2 (fut + 16)" using b2[of 4] by simp
  let ?m3 = "m2(fut + 16 := fut + 24)"
  have d3: "?m3 a \<noteq> mem ?s2 a \<Longrightarrow> busy ?s2 a" for a using f16 by (auto split: if_splits)
  note k3 = kinv_busy_mem[OF m2(2), of ?m3, OF d3]
  let ?s3 = "s\<lparr>mem := ?m3\<rparr>"
  have "heap_of (?s2\<lparr>mem := ?m3\<rparr>) xs2" by (rule kinv_busy_mem(3)[OF m2(2) _ m2(3)], rule d3)
  then have k3': "kinv ?s3" "busy ?s3 = busy ?s2" "heap_of ?s3 xs2" using k3(1,2) by simp_all
  obtain m4 where m4: "getmem_k 48 ?s3 = Some (q, s\<lparr>mem := m4\<rparr>)" "kinv (s\<lparr>mem := m4\<rparr>)" "heap_of (s\<lparr>mem := m4\<rparr>) xs3"
    "\<And>x. busy ?s3 x \<Longrightarrow> busy (s\<lparr>mem := m4\<rparr>) x"
    by (rule alloc_step[OF k3'(1,3) al(3)]) auto
  let ?s4 = "s\<lparr>mem := m4\<rparr>"
  have b4: "busy ?s4 (fut + 4 * of_nat k)" if "k < 18" for k using b2[OF that] m4(4) k3'(2) by simp
  have B: "busy ?s4 fut" "busy ?s4 (fut + 4)" "busy ?s4 (fut + 8)" "busy ?s4 (fut + 12)" "busy ?s4 (fut + 16)"
    "busy ?s4 (fut + 20)" "busy ?s4 (fut + 60)" "busy ?s4 (fut + 64)"
    using b4[of 0] b4[of 1] b4[of 2] b4[of 3] b4[of 4] b4[of 5] b4[of 15] b4[of 16] by simp_all
  let ?m = "m4(fut + 20 := q, fut + 20 := 0, fut + 64 := 0, fut + 16 := 0, fut + 60 := 0, fut + 12 := 0, fut + 4 := flag,
    fut + 8 := FUTURE_EMPTY, fut + 12 := 0, fut := 0)"
  have dm: "?m a \<noteq> mem ?s4 a \<Longrightarrow> busy ?s4 a" for a using B by (auto split: if_splits)
  note k = kinv_busy_mem[OF m4(2), of ?m, OF dm]
  let ?s = "s\<lparr>mem := ?m\<rparr>"
  have "heap_of (?s4\<lparr>mem := ?m\<rparr>) xs3" by (rule kinv_busy_mem(3)[OF m4(2) _ m4(3)], rule dm)
  then have k': "kinv ?s" "busy ?s = busy ?s4" "heap_of ?s xs3" using k(1,2) by simp_all
  have run: "future_alloc flag s = Some (fut, ?s)"
    using m1(1,6) m2(1) m4(1)
    by (simp add: future_alloc_def wr_busy[OF f16] wr_busy[OF B(1)] wr_busy[OF B(2)] wr_busy[OF B(3)] wr_busy[OF B(4)]
        wr_busy[OF B(5)] wr_busy[OF B(6)] on_mem_def initqu_def q_addresses busy_access[OF B(5)] busy_access[OF B(6)]
        busy_access[OF B(7)] busy_access[OF B(8)])
  have v: "?m fut = 0" "?m (fut + 4) = flag" "?m (fut + 8) = 0" "?m (fut + 12) = 0" "?m (fut + 16) = 0" "?m (fut + 20) = 0"
    "?m (fut + 60) = 0" "?m (fut + 64) = 0" by simp_all
  note B' = B[folded k'(2)]
  have f: "future_is fut ?s flag FUTURE_EMPTY 0" 
    unfolding future_is_def by (intro conjI B') (use v in simp_all)
  have area: "q_area (fut + 20)"
    using ad[of 5] d4[of 5] lim B(6) by (simp add: q_area_def busy_def)
  have "fq_rep ?m (fut + 20) ?m (0, [])" by (rule fq_empty[OF area]) (use v in \<open>simp_all add: q_addresses\<close>)
  moreover have "busy ?s4 a" if a: "a \<in> q_words (fut + 20)" for a
  proof -
    obtain i where i: "i < 12" "a = fut + 20 + 4 * of_nat i" using a by (auto simp: q_words_def)
    then have "a = fut + 4 * of_nat (5 + i)" by simp
    then show ?thesis using b4[of "5 + i"] i(1) by simp
  qed
  ultimately have w: "waiting_for fut ?s (0, [])" unfolding waiting_for_def k'(2) by simp
  have "idle_queues fut ?s" unfolding idle_queues_def by (intro conjI B' w) (use v in simp_all)
  moreover have "busy ?s x" if "busy s x" for x using m4(4) m2(5) m1(5)[OF that] k'(2) k3'(2) by simp
  ultimately show ?thesis using run k' f v(1) by (intro exI[of _ ?m]) simp
qed

text \<open>Freeing gives back the structure only.\<close>

theorem future_free_gives:
  assumes inv: "kinv s" and heap: "heap_of s xs" and ref: "busy s ref" "unat (mem s ref) \<le> unat ref \<longrightarrow> unat (mem s ref) + 24 \<le> unat ref"
    and blk: "8 dvd unat (mem s ref)" "unat (minheap s) \<le> unat (mem s ref)" "unat (mem s ref) + 24 \<le> unat (maxheap s)"
      "{unat (mem s ref)..<unat (mem s ref) + 24} \<inter> free_bytes xs = {}"
  shows "\<exists>m ys. future_free ref s = Some (OK, s\<lparr>mem := m\<rparr>) \<and> kinv (s\<lparr>mem := m\<rparr>) \<and> heap_of (s\<lparr>mem := m\<rparr>) ys \<and>
    free_bytes ys = free_bytes xs \<union> {unat (mem s ref)..<unat (mem s ref) + 24} \<and> m ref = 0"
proof -
  let ?f = "mem s ref"
  have h: "heap_is (memlist s) (minheap s) (maxheap s) (mem s) xs" using heap by (simp add: heap_is_def)
  have n: "(24 :: uint32) \<noteq> 0" "small 24" by (simp_all add: small_def)
  have blk': "unat ?f + unat (roundmb 24) \<le> unat (maxheap s)" "{unat ?f..<unat ?f + unat (roundmb 24)} \<inter> free_bytes xs = {}"
    using blk(3,4) by (simp_all add: round_sizes)
  obtain m1 ys where m1: "freemem (memlist s) (minheap s) (maxheap s) ?f 24 (mem s) = Some (OK, m1)"
    "heap_is (memlist s) (minheap s) (maxheap s) m1 ys" "free_bytes ys = free_bytes xs \<union> {unat ?f..<unat ?f + 24}"
    using freemem_gives[OF h n blk(1,2) blk'] by (auto simp: round_sizes)
  let ?s1 = "s\<lparr>mem := m1\<rparr>"
  have h1: "heap_of ?s1 ys" using m1(2) by (simp add: heap_is_def)
  then have k1: "kinv ?s1" using kinv_mem[OF inv] by (auto simp: kheap_def)
  have "unat ref \<notin> free_bytes xs" using ref(1) heap by (simp add: busy_def)
  moreover have "unat ref \<notin> {unat ?f..<unat ?f + 24}" using ref(2) by auto
  ultimately have "unat ref \<notin> free_bytes zs" if "heap_of ?s1 zs" for zs
    using heap_rep_unique[OF that h1] m1(3) by simp
  then have b1: "busy ?s1 ref" using ref(1) by (simp add: busy_def)
  let ?m = "m1(ref := 0)"
  have d: "?m a \<noteq> mem ?s1 a \<Longrightarrow> busy ?s1 a" for a using b1 by (auto split: if_splits)
  have "heap_of (?s1\<lparr>mem := ?m\<rparr>) ys" by (rule kinv_busy_mem(3)[OF k1 _ h1], rule d)
  moreover have "kinv (?s1\<lparr>mem := ?m\<rparr>)" using kinv_write[OF k1 b1, of 0] by simp
  moreover have "future_free ref s = Some (OK, s\<lparr>mem := ?m\<rparr>)"
    using ref(1) m1(1) by (simp add: future_free_def rd_busy[OF ref(1)] wr_busy[OF b1] freemem_k_def on_mem_def busy_def)
  ultimately show ?thesis using m1(3) by (intro exI[of _ ?m] exI[of _ ys]) simp
qed

end
