(* ===== verification/Shell_Lex.thy ===== *)
theory Shell_Lex
  imports Lib_String
begin

text \<open>
  The lexical analyser of the shell (\<^verbatim>\<open>shell/lexan.c\<close>, \<^verbatim>\<open>include/shell.h\<close>). The pointer into the line is the rest of the line,
  its terminator included; reading behind it is \<open>None\<close>. The token buffer is the list of the characters stored so far, so
  \<^verbatim>\<open>tbindex\<close> is its length; \<^verbatim>\<open>tok\<close> and \<^verbatim>\<open>toktyp\<close> are the entries stored. A call hands back the value returned and
  what it has stored, also when it fails.
\<close>

section \<open>The analyser\<close>

abbreviation (input) SHELL_MAXTOK :: nat where "SHELL_MAXTOK \<equiv> 32"
abbreviation (input) SH_NEWLINE :: byte where "SH_NEWLINE \<equiv> 0x0A"
abbreviation (input) SH_AMPER :: byte where "SH_AMPER \<equiv> 0x26"
abbreviation (input) SH_BLANK :: byte where "SH_BLANK \<equiv> 0x20"
abbreviation (input) SH_TAB :: byte where "SH_TAB \<equiv> 0x09"
abbreviation (input) SH_SQUOTE :: byte where "SH_SQUOTE \<equiv> 0x27"
abbreviation (input) SH_DQUOTE :: byte where "SH_DQUOTE \<equiv> 0x22"
abbreviation (input) SH_LESS :: byte where "SH_LESS \<equiv> 0x3C"
abbreviation (input) SH_GREATER :: byte where "SH_GREATER \<equiv> 0x3E"

datatype toktyp = SH_TOK_AMPER | SH_TOK_LESS | SH_TOK_GREATER | SH_TOK_OTHER

definition ends_line :: "byte \<Rightarrow> bool" where
  "ends_line c \<longleftrightarrow> c = 0 \<or> c = SH_NEWLINE"

definition is_quote :: "byte \<Rightarrow> bool" where
  "is_quote c \<longleftrightarrow> c = SH_SQUOTE \<or> c = SH_DQUOTE"

definition ends_word :: "byte \<Rightarrow> bool" where
  "ends_word c \<longleftrightarrow> ends_line c \<or> c = SH_LESS \<or> c = SH_GREATER \<or> c = SH_BLANK \<or> c = SH_TAB \<or> c = SH_AMPER \<or> is_quote c"

fun skip_space :: "byte list \<Rightarrow> byte list" where
  "skip_space [] = []"
| "skip_space (c # p) = (if c = SH_BLANK \<or> c = SH_TAB then skip_space p else c # p)"

text \<open>The copy of a quoted string: the character that ended it, the rest of the line, the buffer.\<close>

fun quoted :: "byte \<Rightarrow> byte list \<Rightarrow> byte list \<Rightarrow> (byte \<times> byte list \<times> byte list) option" where
  "quoted q [] buf = None"
| "quoted q (c # p) buf = (if c \<noteq> q \<and> \<not> ends_line c then quoted q p (buf @ [c]) else Some (c, p, buf))"

fun lex_word :: "byte list \<Rightarrow> byte list \<Rightarrow> (byte list \<times> byte list) option" where
  "lex_word [] buf = None"
| "lex_word (c # p) buf = (if ends_word c then Some (c # p, buf) else lex_word p (buf @ [c]))"

lemma skip_space_length: "length (skip_space p) \<le> length p"
  by (induction p) auto

lemma quoted_length: "quoted q p buf = Some (c, p', buf') \<Longrightarrow> length p' < length p \<and> length p' + length buf' < length p + length buf"
  by (induction p arbitrary: buf) (fastforce split: if_splits)+

lemma lex_word_length: "lex_word p buf = Some (p', buf') \<Longrightarrow> length p' \<le> length p \<and> length p' + length buf' = length p + length buf"
  by (induction p arbitrary: buf) (fastforce split: if_splits)+

text \<open>One token, from its first character on: its type, whether it is well formed, the rest of the line, the buffer.\<close>

definition lex_token :: "byte \<Rightarrow> byte list \<Rightarrow> byte list \<Rightarrow> (toktyp \<times> bool \<times> byte list \<times> byte list) option" where
  "lex_token ch p buf =
     (if ch = SH_AMPER then Some (SH_TOK_AMPER, True, p, buf @ [ch, 0])
      else if ch = SH_LESS then Some (SH_TOK_LESS, True, p, buf @ [ch, 0])
      else if ch = SH_GREATER then Some (SH_TOK_GREATER, True, p, buf @ [ch, 0])
      else if is_quote ch then
        (case quoted ch p buf of None \<Rightarrow> None
         | Some (c, p, buf) \<Rightarrow>
           if c \<noteq> ch then Some (SH_TOK_OTHER, False, p, buf) else Some (SH_TOK_OTHER, True, p, buf @ [0]))
      else
        (case lex_word p (buf @ [ch]) of None \<Rightarrow> None
         | Some (p, buf) \<Rightarrow>
           if is_quote (hd p) \<or> hd p = SH_LESS \<or> hd p = SH_GREATER then Some (SH_TOK_OTHER, False, p, buf)
           else Some (SH_TOK_OTHER, True, p, buf @ [0])))"

lemma lex_token_length:
  assumes "lex_token ch p buf = Some (t, ok, p', buf')"
  shows "length p' \<le> length p" "length p' + length buf' \<le> length p + length buf + 2"
  using assms unfolding lex_token_def
  by (fastforce split: if_splits option.splits dest: quoted_length lex_word_length)+

type_synonym lexed = "int \<times> byte list \<times> nat list \<times> toktyp list"

function lex_loop :: "byte list \<Rightarrow> nat \<Rightarrow> byte list \<Rightarrow> nat list \<Rightarrow> toktyp list \<Rightarrow> lexed option" where
  "lex_loop p ntok tokbuf tok types =
     (case p of [] \<Rightarrow> None
      | c # _ \<Rightarrow>
        if ends_line c then Some (int ntok, tokbuf, tok, types)
        else if ntok \<ge> SHELL_MAXTOK then Some (SYSERR, tokbuf, tok, types)
        else (case skip_space p of [] \<Rightarrow> None
          | ch # p' \<Rightarrow>
            if ends_line ch then Some (int ntok, tokbuf, tok, types)
            else (case lex_token ch p' tokbuf of None \<Rightarrow> None
              | Some (t, ok, p'', buf) \<Rightarrow>
                if ok then lex_loop p'' (Suc ntok) buf (tok @ [length tokbuf]) (types @ [t])
                else Some (SYSERR, buf, tok @ [length tokbuf], types @ [t]))))"
  by pat_completeness auto
termination
proof (relation "measure (\<lambda>(p, _). length p)", goal_cases)
  case 1
  then show ?case by simp
next
  case (2 p ntok tokbuf tok types c cs ch p' r t r' ok r'' p'' buf)
  then show ?case using skip_space_length[of p] lex_token_length(1)[of ch p' tokbuf t ok p'' buf] by simp
qed

declare lex_loop.simps [simp del]

definition lexan :: "byte list \<Rightarrow> lexed option" where
  "lexan line = lex_loop line 0 [] [] []"

section \<open>Bounds\<close>

lemma skip_space_end:
  "\<exists>c \<in> set p. ends_line c \<Longrightarrow> \<exists>ch p'. skip_space p = ch # p' \<and> (\<exists>c \<in> set (ch # p'). ends_line c)"
  by (induction p) (auto simp: ends_line_def)

lemma quoted_end:
  assumes "\<exists>c \<in> set p. ends_line c" "\<not> ends_line q"
  shows "\<exists>c p' buf'. quoted q p buf = Some (c, p', buf') \<and> (c = q \<longrightarrow> (\<exists>c \<in> set p'. ends_line c))"
  using assms(1)
proof (induction p arbitrary: buf)
  case (Cons a p)
  show ?case
  proof (cases "a \<noteq> q \<and> \<not> ends_line a")
    case True
    then show ?thesis using Cons.IH[of "buf @ [a]"] Cons.prems by simp
  next
    case False
    then show ?thesis using Cons.prems assms(2) by auto
  qed
qed simp

lemma lex_word_end:
  "\<exists>c \<in> set p. ends_line c \<Longrightarrow> \<exists>p' buf'. lex_word p buf = Some (p', buf') \<and> (\<exists>c \<in> set p'. ends_line c)"
  by (induction p arbitrary: buf) (auto simp: ends_word_def)

lemma lex_token_end:
  assumes "\<exists>c \<in> set p. ends_line c" "\<not> ends_line ch"
  obtains t ok p' buf' where "lex_token ch p buf = Some (t, ok, p', buf')" "ok \<longrightarrow> (\<exists>c \<in> set p'. ends_line c)"
proof -
  obtain c p1 b1 where q: "quoted ch p buf = Some (c, p1, b1)" "c = ch \<longrightarrow> (\<exists>c \<in> set p1. ends_line c)"
    using quoted_end[OF assms] by blast
  obtain p2 b2 where w: "lex_word p (buf @ [ch]) = Some (p2, b2)" "\<exists>c \<in> set p2. ends_line c"
    using lex_word_end[OF assms(1)] by blast
  have "\<exists>t ok p' buf'. lex_token ch p buf = Some (t, ok, p', buf') \<and> (ok \<longrightarrow> (\<exists>c \<in> set p'. ends_line c))"
    unfolding lex_token_def q(1) w(1) using q(2) w(2) assms(1) by (simp add: ex_bool_eq split: if_split)
  then show ?thesis using that by blast
qed

text \<open>What the analyser stores, with room for as many more tokens as may come and a zero byte for each of them.\<close>

definition lex_bound :: "nat \<Rightarrow> lexed option \<Rightarrow> bool" where
  "lex_bound n r \<longleftrightarrow> (\<exists>k buf tok types. r = Some (k, buf, tok, types) \<and> length buf \<le> n \<and> length tok \<le> SHELL_MAXTOK \<and>
     length types = length tok \<and> (k = SYSERR \<or> k = int (length tok)))"

lemma lex_boundI:
  "length buf \<le> n \<Longrightarrow> length tok \<le> SHELL_MAXTOK \<Longrightarrow> length types = length tok \<Longrightarrow> k = SYSERR \<or> k = int (length tok) \<Longrightarrow>
   lex_bound n (Some (k, buf, tok, types))"
  by (simp add: lex_bound_def)

lemma lex_bound_mono: "lex_bound n r \<Longrightarrow> n \<le> n' \<Longrightarrow> lex_bound n' r"
  by (fastforce simp: lex_bound_def)

lemma lex_loop_bound:
  assumes "\<exists>c \<in> set p. ends_line c" "length tok = ntok" "length types = ntok" "ntok \<le> SHELL_MAXTOK"
  shows "lex_bound (length tokbuf + length p + (SHELL_MAXTOK - ntok)) (lex_loop p ntok tokbuf tok types)"
  using assms
proof (induction p ntok tokbuf tok types rule: lex_loop.induct)
  case (1 p ntok buf tok types)
  obtain c cs where p: "p = c # cs" using "1.prems"(1) by (cases p) auto
  obtain ch p' where s: "skip_space p = ch # p'" "\<exists>c \<in> set (ch # p'). ends_line c"
    using skip_space_end[OF "1.prems"(1)] by blast
  have len: "Suc (length p') \<le> length p" using skip_space_length[of p] s(1) by simp
  show ?case
  proof (cases "ends_line c \<or> SHELL_MAXTOK \<le> ntok \<or> ends_line ch")
    case True
    then show ?thesis using "1.prems" s(1) p by (subst lex_loop.simps) (auto intro!: lex_boundI)
  next
    case False
    then have f: "\<not> ends_line c" "\<not> SHELL_MAXTOK \<le> ntok" "\<not> ends_line ch" "ntok < 32" by simp_all
    then have "\<exists>c \<in> set p'. ends_line c" using s(2) by simp
    then obtain t ok p'' b where tk: "lex_token ch p' buf = Some (t, ok, p'', b)" "ok \<longrightarrow> (\<exists>c \<in> set p''. ends_line c)"
      using lex_token_end[OF _ f(3)] by metis
    note L = lex_token_length[OF tk(1)]
    let ?rest = "lex_loop p'' (Suc ntok) b (tok @ [length buf]) (types @ [t])"
    have run: "lex_loop p ntok buf tok types =
        (if ok then ?rest else Some (SYSERR, b, tok @ [length buf], types @ [t]))"
      using p f s(1) tk(1) by (subst lex_loop.simps) simp
    show ?thesis
    proof (cases ok)
      case True
      have "lex_bound (length b + length p'' + (SHELL_MAXTOK - Suc ntok)) ?rest"
        by (rule "1.IH"[OF p f(1,2) s(1) f(3) tk(1) refl refl refl True]) (use True tk(2) "1.prems"(2,3) f(4) in simp_all)
      then have "lex_bound (length buf + length p + (SHELL_MAXTOK - ntok)) ?rest"
        by (rule lex_bound_mono) (use len L f(4) in simp)
      then show ?thesis unfolding run using True by simp
    next
      case False
      then show ?thesis unfolding run using len L f(4) "1.prems"(2,3) by (simp add: lex_boundI)
    qed
  qed
qed

section \<open>Reading back a list of tokens\<close>

text \<open>A command line written from its tokens, a blank before each of them.\<close>

datatype token = Amper | Less | Greater | Word "byte list" | Quoted byte "byte list"

fun token_ok :: "token \<Rightarrow> bool" where
  "token_ok (Word w) \<longleftrightarrow> w \<noteq> [] \<and> list_all (\<lambda>c. \<not> ends_word c) w"
| "token_ok (Quoted q w) \<longleftrightarrow> is_quote q \<and> list_all (\<lambda>c. c \<noteq> q \<and> \<not> ends_line c) w"
| "token_ok _ \<longleftrightarrow> True"

fun token_text :: "token \<Rightarrow> byte list" where
  "token_text Amper = [SH_AMPER]"
| "token_text Less = [SH_LESS]"
| "token_text Greater = [SH_GREATER]"
| "token_text (Word w) = w"
| "token_text (Quoted q w) = q # w @ [q]"

fun token_chars :: "token \<Rightarrow> byte list" where
  "token_chars (Word w) = w"
| "token_chars (Quoted q w) = w"
| "token_chars t = token_text t"

fun token_type :: "token \<Rightarrow> toktyp" where
  "token_type Amper = SH_TOK_AMPER"
| "token_type Less = SH_TOK_LESS"
| "token_type Greater = SH_TOK_GREATER"
| "token_type _ = SH_TOK_OTHER"

fun command_line :: "token list \<Rightarrow> byte list" where
  "command_line [] = [SH_NEWLINE]"
| "command_line (t # ts) = SH_BLANK # token_text t @ command_line ts"

fun token_starts :: "nat \<Rightarrow> token list \<Rightarrow> nat list" where
  "token_starts n [] = []"
| "token_starts n (t # ts) = n # token_starts (n + length (token_chars t) + 1) ts"

lemma lex_word_run:
  "list_all (\<lambda>c. \<not> ends_word c) w \<Longrightarrow> ends_word c \<Longrightarrow> lex_word (w @ c # p) buf = Some (c # p, buf @ w)"
  by (induction w arbitrary: buf) auto

lemma quoted_run:
  "list_all (\<lambda>c. c \<noteq> q \<and> \<not> ends_line c) w \<Longrightarrow> quoted q (w @ q # p) buf = Some (q, p, buf @ w)"
  by (induction w arbitrary: buf) auto

lemma command_line_head: "\<exists>c p. command_line ts = c # p \<and> (c = SH_BLANK \<or> c = SH_NEWLINE)"
  by (cases ts) auto

lemma lex_token_run:
  assumes "token_ok t"
  shows "\<exists>ch p. token_text t @ command_line ts = ch # p \<and> \<not> ends_line ch \<and> ch \<noteq> SH_BLANK \<and> ch \<noteq> SH_TAB \<and>
    lex_token ch p buf = Some (token_type t, True, command_line ts, buf @ token_chars t @ [0])"
proof (cases t)
  case (Word w)
  obtain ch w' where w: "w = ch # w'" "\<not> ends_word ch" "list_all (\<lambda>c. \<not> ends_word c) w'"
    using assms Word by (cases w) auto
  obtain c p where c: "command_line ts = c # p" "c = SH_BLANK \<or> c = SH_NEWLINE" using command_line_head by blast
  have e: "ends_word c" "\<not> is_quote c" using c(2) by (auto simp: ends_word_def ends_line_def is_quote_def)
  have "lex_word (w' @ command_line ts) (buf @ [ch]) = Some (command_line ts, buf @ w)"
    unfolding c(1) using lex_word_run[OF w(3) e(1)] w(1) by simp
  then show ?thesis using w c e(2) Word
    by (intro exI[of _ ch] exI[of _ "w' @ command_line ts"]) (auto simp: ends_word_def lex_token_def)
next
  case (Quoted q w)
  then have q: "is_quote q" "list_all (\<lambda>c. c \<noteq> q \<and> \<not> ends_line c) w" using assms by simp_all
  have "q = SH_SQUOTE \<or> q = SH_DQUOTE" using q(1) by (simp add: is_quote_def)
  then show ?thesis using q quoted_run[OF q(2), of "command_line ts" buf] Quoted
    by (intro exI[of _ q] exI[of _ "w @ q # command_line ts"]) (auto simp: ends_line_def lex_token_def)
qed (simp_all add: lex_token_def ends_line_def)

lemma lex_loop_reads:
  assumes "list_all token_ok ts" "n + length ts \<le> SHELL_MAXTOK"
  shows "lex_loop (command_line ts) n buf tok types = Some (int (n + length ts),
    buf @ concat (map (\<lambda>t. token_chars t @ [0]) ts), tok @ token_starts (length buf) ts, types @ map token_type ts)"
  using assms
proof (induction ts arbitrary: n buf tok types)
  case Nil
  then show ?case by (subst lex_loop.simps) (simp add: ends_line_def)
next
  case (Cons t ts)
  obtain ch p where t: "token_text t @ command_line ts = ch # p" "\<not> ends_line ch" "ch \<noteq> SH_BLANK" "ch \<noteq> SH_TAB"
    "lex_token ch p buf = Some (token_type t, True, command_line ts, buf @ token_chars t @ [0])"
    using lex_token_run[of t ts buf] Cons.prems(1) by auto
  have "skip_space (command_line (t # ts)) = ch # p" using t by simp
  moreover have "n < SHELL_MAXTOK" using Cons.prems(2) by simp
  ultimately have "lex_loop (command_line (t # ts)) n buf tok types =
      lex_loop (command_line ts) (Suc n) (buf @ token_chars t @ [0]) (tok @ [length buf]) (types @ [token_type t])"
    using t by (subst lex_loop.simps) (simp add: ends_line_def)
  also have "\<dots> = Some (int (Suc n + length ts), (buf @ token_chars t @ [0]) @ concat (map (\<lambda>t. token_chars t @ [0]) ts),
      (tok @ [length buf]) @ token_starts (length (buf @ token_chars t @ [0])) ts, (types @ [token_type t]) @ map token_type ts)"
    by (rule Cons.IH) (use Cons.prems in simp_all)
  finally show ?case by simp
qed

end
