(* ===== verification/Sample_States.thy ===== *)
theory Sample_States
  imports System_Init Process_Inv Kernel_Machine Upper_State
begin

text \<open>
  Concrete kernel states, for checking that the hypotheses of the properties can be met: the
  loaded image, the state after start, and states with processes and semaphores in use.
\<close>

section \<open>The loaded image\<close>

definition proc0 :: procent where
  "proc0 = \<lparr>prstate = PR_FREE, prprio = 0, prstkptr = 0, prstkbase = 0, prstklen = 0,
     prname = replicate 16 (CHR 0x00), prsem = 0, prparent = 0, prmsg = 0, prhasmsg = False,
     prdesc = [0, 0, 0, 0, 0]\<rparr>"

definition end0 :: uint32 where "end0 = 0x81039000"

definition image0 :: kstate where
  "image0 = \<lparr>mem = (\<lambda>_. 0), memlist = 0x81038000, minheap = 0, maxheap = 0,
     queuetab = (\<lambda>_. \<lparr>qkey = 0, qnext = 0, qprev = 0\<rparr>), nextqid = NPROC, proctab = (\<lambda>_. proc0),
     prcount = 0, currpid = 0, nextpid = 1,
     semtab = (\<lambda>_. \<lparr>sstate = S_FREE, scount = 0, squeue = 0\<rparr>), nextsem = 0,
     readylist = 0, sleepq = 0, ndefers = 0, attempt = False, preempt = 0, clktime = 0, count1000 = 1000,
     buftab = (\<lambda>_. \<lparr>bpnext = 0, bpsem = 0, bpsize = 0\<rparr>), nbpools = 0, pkont = (\<lambda>_. None), halted = False\<rparr>"

lemma loaded_image0: "loaded end0 image0"
  by (simp add: loaded_def image0_def end0_def proc0_def)

lemma end0_small: "unat end0 + 8192 < unat (0xA0000000 :: uint32)"
  by (simp add: end0_def)

section \<open>After start\<close>

definition boot0 :: kstate where
  "boot0 = the (sysinit_kernel end0 image0)"

lemma boot0_booted: "sysinit_kernel end0 image0 = Some boot0" "booted boot0"
  using sysinit_kernel_booted[OF loaded_image0 end0_small] by (auto simp: boot0_def)

lemma boot0_inv: "kinv boot0"
  by (rule booted_inv[OF boot0_booted(2)])

lemma booted_empty: "booted s \<Longrightarrow> qid_ok (nextqid s) q \<Longrightarrow> qlist s q = []"
  by (rule qrep_queue_of[where Q = "\<lambda>_. []"]) (simp_all add: booted_def)

section \<open>Reachable states\<close>

text \<open>A switch table whose console closes as \<^verbatim>\<open>conf.c\<close> has it, and the kernel after one call.\<close>

definition dev0 :: "kstate devtab" where
  "dev0 = (\<lambda>_. \<lparr>dvnum = 0, dvminor = 0, dvname = ''CONSOLE'', dvinit = ionull, dvopen = (\<lambda>_ _. ionull), dvclose = ionull,
     dvread = (\<lambda>_ _. ionull), dvwrite = (\<lambda>_ _. ionull), dvseek = (\<lambda>_. ionull), dvgetc = ionull, dvputc = (\<lambda>_. ionull),
     dvcntl = (\<lambda>_ _ _. ionull)\<rparr>)"

definition sem0 :: kstate where
  "sem0 = snd (the (semcreate 1 boot0))"

lemma boot0_reachable: "reachable 0 dev0 boot0"
  unfolding reachable_def null_console_def
  using loaded_image0 end0_small boot0_booted(1) by (auto simp: dev0_def)

lemma sem0_facts:
  "kstep 0 dev0 boot0 sem0" "reachable 0 dev0 sem0" "\<exists>k. sem_ok k \<and> sstate (semtab sem0 k) = S_USED"
proof -
  have free: "\<exists>k. sem_ok k \<and> sstate (semtab boot0 k) = S_FREE"
    using boot0_booted(2) by (auto simp: booted_def intro!: exI[of _ 0])
  have n: "(0 :: int) \<le> 1" "(1 :: int) < 2 ^ 31" by simp_all
  obtain r s' where s': "semcreate 1 boot0 = Some (r, s')" "sem_ok r" "sstate (semtab s' r) = S_USED"
    using semcreate_inv[OF boot0_inv n, unfolded if_P[OF free]] by blast
  have e: "sem0 = s'" by (simp add: sem0_def s'(1))
  show "\<exists>k. sem_ok k \<and> sstate (semtab sem0 k) = S_USED" using s'(2,3) e by blast
  have "run_call 0 (Semcreate 1) boot0 = Some sem0" using s'(1) e by simp
  then show st: "kstep 0 dev0 boot0 sem0"
    using boot0_booted(2) by (intro kstep.call[of _ "Semcreate 1"]) (simp_all add: booted_def)
  show "reachable 0 dev0 sem0" by (rule reachable_step[OF boot0_reachable st])
qed

section \<open>Two user processes and a semaphore\<close>

text \<open>Process 1 is running, the null process is ready, process 2 is suspended, semaphore 0 is in use.\<close>

definition user_entry :: "prstate \<Rightarrow> procent \<Rightarrow> procent" where
  "user_entry x e = e\<lparr>prstate := x, prprio := 20\<rparr>"

definition setup0 :: kstate where
  "setup0 = boot0\<lparr>proctab := (proctab boot0)(0 := (proctab boot0 0)\<lparr>prstate := PR_READY\<rparr>,
       1 := user_entry PR_CURR (proctab boot0 1), 2 := user_entry PR_SUSP (proctab boot0 2)), currpid := 1,
     semtab := (semtab boot0)(0 := (semtab boot0 0)\<lparr>sstate := S_USED, scount := 0\<rparr>)\<rparr>"

definition user0 :: kstate where
  "user0 = snd (the (insert_q 0 (readylist setup0) 0 setup0))"

lemma setup0_fields:
  "readylist setup0 = 300" "sleepq setup0 = 302" "nextqid setup0 = NQENT" "currpid setup0 = 1" "ndefers setup0 = 0"
  "pkont setup0 = (\<lambda>_. None)" "nextsem setup0 = 0" "nextpid setup0 = 1" "\<not> halted setup0"
  "sem_ok k \<Longrightarrow> squeue (semtab setup0 k) = NPROC + 2 * k"
  "sem_ok k \<Longrightarrow> sstate (semtab setup0 k) = (if k = 0 then S_USED else S_FREE)" "scount (semtab setup0 0) = 0"
  "pid_ok p \<Longrightarrow> prstate (proctab setup0 p) =
     (if p = 0 then PR_READY else if p = 1 then PR_CURR else if p = 2 then PR_SUSP else PR_FREE)"
  "pid_ok p \<Longrightarrow> prprio (proctab setup0 p) = (if p = 1 \<or> p = 2 then 20 else 0)"
  "pid_ok p \<Longrightarrow> \<not> prhasmsg (proctab setup0 p)"
  using boot0_booted(2) unfolding booted_def by (simp_all add: setup0_def user_entry_def)

lemma setup0_empty: "qid_ok NQENT q \<Longrightarrow> qlist setup0 q = []"
  using booted_empty[OF boot0_booted(2), of q] boot0_booted(2) by (simp add: setup0_def booted_def)

lemma setup0_kq: "kq {0} setup0"
proof (rule kqI)
  have b: "qrep NQENT (queuetab boot0) (queue_of (queuetab boot0))"
    using boot0_booted(2) qrep_canon by (auto simp: booted_def)
  then show "qrep (nextqid setup0) (queuetab setup0) (qlist setup0)"
    unfolding setup0_fields by (simp add: setup0_def)
  show "kids setup0" unfolding kids_def setup0_fields(1-3) qid_ok_def by (auto simp: setup0_fields(10))
  show "set (qlist setup0 q) = {p. pid_ok p \<and> p \<notin> {0} \<and> qof setup0 p = Some q}" if "qid_ok (nextqid setup0) q" for q
    using setup0_empty[of q] that setup0_fields(3) by (auto simp: qof_def setup0_fields(13))
  show "prio_ok (prprio (proctab setup0 p))" if "pid_ok p" for p using that by (simp add: setup0_fields prio_ok_def)
  show "sem_ok (prsem (proctab setup0 p))" if "pid_ok p" "prstate (proctab setup0 p) = PR_WAIT" for p
    using that by (simp add: setup0_fields split: if_splits)
  show "sorted_wrt (\<lambda>a b. qkey (queuetab setup0 a) \<ge> qkey (queuetab setup0 b)) (rdy setup0)"
    using setup0_empty[of "readylist setup0"] by (simp add: setup0_fields qid_ok_def)
  show "pid_ok (currpid setup0)" by (simp add: setup0_fields)
  show "p = currpid setup0" if "pid_ok p" "prstate (proctab setup0 p) = PR_CURR" for p
    using that by (simp add: setup0_fields split: if_splits)
  show "prstate (proctab setup0 NULLPROC) \<in> {PR_CURR, PR_READY}" by (simp add: setup0_fields)
qed

lemma user0_queues:
  "\<exists>t. user0 = setup0\<lparr>queuetab := t\<rparr>" "kq {} user0" "rdy user0 = [0]" "qkey (queuetab user0 0) = 0"
  "\<And>q. qid_ok NQENT q \<Longrightarrow> q \<noteq> 300 \<Longrightarrow> qlist user0 q = []"
proof -
  have p0: "pid_ok 0" "prstate (proctab setup0 0) = PR_READY" "0 = prprio (proctab setup0 0)" by (simp_all add: setup0_fields)
  obtain t where t: "insert_q 0 (readylist setup0) 0 setup0 = Some (OK, setup0\<lparr>queuetab := t\<rparr>)"
    "kq {} (setup0\<lparr>queuetab := t\<rparr>)"
    "queue_of t (readylist setup0) = ins_key (\<lambda>x. qkey (queuetab setup0 x)) 0 0 (rdy setup0)"
    "\<forall>q. qid_ok (nextqid setup0) q \<longrightarrow> q \<noteq> readylist setup0 \<longrightarrow> queue_of t q = qlist setup0 q"
    "\<forall>i. qkey (t i) = (if i = 0 then 0 else qkey (queuetab setup0 i))"
    using insert_ready[OF setup0_kq p0] by blast
  have u: "user0 = setup0\<lparr>queuetab := t\<rparr>" by (simp add: user0_def t(1))
  show "\<exists>t. user0 = setup0\<lparr>queuetab := t\<rparr>" using u by blast
  show "kq {} user0" using u t(2) by simp
  have "qkey (t 0) = 0" using t(5) by presburger
  then show "qkey (queuetab user0 0) = 0" unfolding u by simp
  have "rdy setup0 = []" using setup0_empty[of "readylist setup0"] by (simp add: setup0_fields qid_ok_def)
  then show "rdy user0 = [0]" unfolding u using t(3) by (simp add: ins_key_def)
  show "qlist user0 q = []" if "qid_ok NQENT q" "q \<noteq> 300" for q
    unfolding u using t(4) that setup0_empty[OF that(1)] by (simp add: setup0_fields)
qed

lemma user0_fields:
  "readylist user0 = 300" "sleepq user0 = 302" "nextqid user0 = NQENT" "currpid user0 = 1" "ndefers user0 = 0"
  "pkont user0 = (\<lambda>_. None)" "proctab user0 = proctab setup0" "semtab user0 = semtab setup0" "\<not> halted user0"
  "nextsem user0 = 0" "nextpid user0 = 1" "mem user0 = mem boot0" "memlist user0 = memlist boot0"
  "minheap user0 = minheap boot0" "maxheap user0 = maxheap boot0"
proof -
  obtain t where u: "user0 = setup0\<lparr>queuetab := t\<rparr>" using user0_queues(1) by blast
  show "readylist user0 = 300" "sleepq user0 = 302" "nextqid user0 = NQENT" "currpid user0 = 1" "ndefers user0 = 0"
    "pkont user0 = (\<lambda>_. None)" "proctab user0 = proctab setup0" "semtab user0 = semtab setup0" "\<not> halted user0"
    "nextsem user0 = 0" "nextpid user0 = 1" unfolding u by (simp_all add: setup0_fields)
  show "mem user0 = mem boot0" "memlist user0 = memlist boot0" "minheap user0 = minheap boot0"
    "maxheap user0 = maxheap boot0" unfolding u by (simp_all add: setup0_def)
qed

lemma user0_lists: "slp user0 = []" "sem_ok k \<Longrightarrow> semq user0 k = []"
  using user0_queues(5)[of 302] user0_queues(5)[of "NPROC + 2 * k"]
  by (simp_all add: user0_fields setup0_fields qid_ok_def)

lemma user0_inv: "kinv user0"
proof -
  note V = kinvD[OF boot0_inv]
  have "eligible user0" by (simp add: eligible_def user0_fields setup0_fields)
  moreover have "ksem user0"
    unfolding ksem_def sem_inv_def using user0_lists(2) by (auto simp: user0_fields setup0_fields)
  moreover have "kmsg user0" unfolding kmsg_def msg_inv_def by (auto simp: user0_fields setup0_fields)
  moreover have "kheap user0" by (rule kheap_cong[OF V(6)]) (simp_all add: user0_fields)
  moreover have "stk_ok user0 (proctab user0 p)" if "pid_ok p" "p \<noteq> NULLPROC" for p
  proof -
    have "stk_ok boot0 (proctab boot0 p)" using V(7) that by (simp add: kstk_def)
    moreover have "stk_ok user0 (proctab user0 p) = stk_ok boot0 (proctab boot0 p)"
      unfolding user0_fields(7) using that by (simp add: stk_ok_def user0_fields setup0_def user_entry_def)
    ultimately show ?thesis by simp
  qed
  then have "kstk user0" by (simp add: kstk_def)
  moreover have "kpend user0" by (simp add: kpend_def user0_fields)
  ultimately show ?thesis using user0_queues(2) by (simp add: kinv_def user0_fields)
qed

text \<open>The kernel's invariant says nothing of the fields that other components add.\<close>

lemma kinv_extend: "kinv (kstate.extend (s :: kstate) m) = kinv s"
  by (simp add: kinv_def kq_def kids_def qof_def eligible_def ksem_def sem_inv_def kmsg_def msg_inv_def
      kheap_def kstk_def stk_ok_def kpend_def kstate.defs cong: prstate.case_cong)

section \<open>A waiting process\<close>

text \<open>Process 1 waits on semaphore 0, and the null process runs.\<close>

definition wait0 :: kstate where
  "wait0 = snd (the (wait 0 user0))"

lemma wait0_facts:
  "kinv wait0" "semq wait0 0 = [1]" "scount (semtab wait0 0) = - 1" "sstate (semtab wait0 0) = S_USED"
  "prstate (proctab wait0 1) = PR_WAIT" "currpid wait0 = 0" "pkont wait0 = pkont user0" "\<not> halted wait0"
proof -
  have k: "sem_ok 0" "sstate (semtab user0 0) = S_USED" "scount (semtab user0 0) \<le> 0" "currpid user0 \<noteq> NULLPROC"
    by (simp_all add: user0_fields setup0_fields)
  obtain s' where s': "wait 0 user0 = Some (OK, s')" "kinv s'" "semq s' 0 = semq user0 0 @ [currpid user0]"
    "scount (semtab s' 0) = scount (semtab user0 0) - 1" "prstate (proctab s' (currpid user0)) = PR_WAIT"
    "currpid s' = hd (rdy user0)"
    using wait_block[OF user0_inv k] by blast
  have w: "wait0 = s'" by (simp add: wait0_def s'(1))
  show "kinv wait0" "semq wait0 0 = [1]" "scount (semtab wait0 0) = - 1" "prstate (proctab wait0 1) = PR_WAIT"
    "currpid wait0 = 0"
    unfolding w using s'(2-6) user0_lists(2)[of 0] user0_queues(3) by (simp_all add: user0_fields setup0_fields)
  have u: "untouched UNIV user0 s'" by (rule wait_untouched[OF s'(1)]) simp
  show "pkont wait0 = pkont user0" "\<not> halted wait0" unfolding w using untouchedD(15,16)[OF u] user0_fields(9) by simp_all
  have "sstate (semtab s' 0) = S_USED"
  proof (rule ccontr)
    assume "sstate (semtab s' 0) \<noteq> S_USED"
    then have "sstate (semtab s' 0) = S_FREE" by (cases "sstate (semtab s' 0)") simp_all
    then have "semq s' 0 = []" using ksemD[OF kinvD(4)[OF s'(2)], of 0] by (simp add: sem_inv_def)
    then show False using s'(3) by simp
  qed
  then show "sstate (semtab wait0 0) = S_USED" unfolding w .
qed

text \<open>Process 1 waits for a message.\<close>

definition recv0 :: kstate where
  "recv0 = snd (the (receive user0))"

lemma recv0_facts:
  "kinv recv0" "prstate (proctab recv0 1) = PR_RECV" "pkont recv0 1 = Some K_receive" "currpid recv0 = 0"
proof -
  have "currpid user0 \<noteq> NULLPROC" "\<not> prhasmsg (proctab user0 (currpid user0))" by (simp_all add: user0_fields setup0_fields)
  then obtain s' where s': "receive user0 = Some (Pending, s')" "kinv s'" "prstate (proctab s' (currpid user0)) = PR_RECV"
    "pkont s' (currpid user0) = Some K_receive" "currpid s' = hd (rdy user0)"
    using receive_block[OF user0_inv] by blast
  have r: "recv0 = s'" by (simp add: recv0_def s'(1))
  show "kinv recv0" "prstate (proctab recv0 1) = PR_RECV" "pkont recv0 1 = Some K_receive" "currpid recv0 = 0"
    unfolding r using s'(2-5) user0_queues(3) by (simp_all add: user0_fields)
qed

text \<open>Process 1 sleeps for five milliseconds.\<close>

definition sleep0 :: kstate where
  "sleep0 = snd (the (sleepms 5 user0))"

lemma sleep0_facts: "kinv sleep0" "deltas (queuetab sleep0) (slp sleep0) = [(1, 5)]" "prstate (proctab sleep0 1) = PR_SLEEP"
proof -
  have "currpid user0 \<noteq> NULLPROC" "(5 :: uint32) \<noteq> 0" by (simp_all add: user0_fields)
  then obtain s' where s': "sleepms 5 user0 = Some (OK, s')" "kinv s'" "prstate (proctab s' (currpid user0)) = PR_SLEEP"
    "deltas (queuetab s') (slp s') = delta_insert (currpid user0) (sint (5 :: uint32)) (deltas (queuetab user0) (slp user0))"
    using sleepms_inv[OF user0_inv] by blast
  have r: "sleep0 = s'" by (simp add: sleep0_def s'(1))
  have "sint (5 :: uint32) = 5" by simp
  then show "kinv sleep0" "deltas (queuetab sleep0) (slp sleep0) = [(1, 5)]" "prstate (proctab sleep0 1) = PR_SLEEP"
    unfolding r using s'(2-4) user0_lists(1) by (simp_all add: user0_fields deltas_def)
qed

section \<open>A heap\<close>

definition heap0 :: memory where
  "heap0 = the (meminit 0x1000 0x2000 0x10000 (\<lambda>_. 0))"

lemma heap0_rep: "heap_rep 0x1000 (unat (0x2000 :: uint32)) (unat (0x10000 :: uint32)) heap0 [(0x2000, 0xE000)]"
proof -
  obtain m where m: "meminit 0x1000 0x2000 0x10000 (\<lambda>_. 0) = Some m"
    "heap_rep 0x1000 (unat (0x2000 :: uint32)) (unat (0x10000 :: uint32)) m [(0x2000, 0x10000 - 0x2000)]"
    using meminit_rep[of "0x1000" "0x2000" "0x10000" "\<lambda>_. 0"] by auto
  have "(0x10000 - 0x2000 :: uint32) = 0xE000" by simp
  then show ?thesis using m by (simp add: heap0_def)
qed

lemma getmem0: "\<exists>m'. getmem 0x1000 10 heap0 = Some (0x2000, m')"
proof -
  have "ff_alloc (roundmb 10) [(0x2000, 0xE000)] = Some (0x2000, [(0x2010, 0xDFF0)])" by (simp add: roundmb_def)
  moreover have "unat (0x2000 :: uint32) < 2 ^ 32" "(10 :: uint32) \<noteq> 0" "unat (10 :: uint32) + 7 < 2 ^ 32" by simp_all
  ultimately show ?thesis using getmem_rep[OF heap0_rep, of 10] by auto
qed

end
