(* ===== verification/Sample_Upper.thy ===== *)
theory Sample_Upper
  imports Sample_States Port_Sim Tty_Console
begin

text \<open>
  Concrete states of the message ports, the buffer pools and the console: each is what the code's own
  start-up routines leave, run one after the other on a loaded image.
\<close>

section \<open>A loaded image with the upper components\<close>

definition port_entry0 :: ptentry where
  "port_entry0 = \<lparr>ptssem = 0, ptrsem = 0, ptstate = PT_FREE, ptmaxcnt = 0, ptseq = 0, pthead = 0, pttail = 0\<rparr>"

definition tty0 :: ttycblk where
  "tty0 = \<lparr>tyihead = 0, tyitail = 0, tyibuff = (\<lambda>_. 0), tyisem = 0, tyohead = 0, tyotail = 0, tyobuff = (\<lambda>_. 0),
     tyosem = 0, tyehead = 0, tyetail = 0, tyebuff = (\<lambda>_. 0), tyimode = TY_IMRAW, tyiecho = False, tyieback = False,
     tyevis = False, tyecrlf = False, tyicrlf = False, tyierase = False, tyierasec = 0, tyeof = False, tyeofch = 0,
     tyikill = False, tyikillc = 0, tyicursor = 0, tyoflow = False, tyoheld = False, tyostop = 0, tyostart = 0,
     tyocrlf = False, tyifullc = 0\<rparr>"

definition uart0 :: uart_csreg where
  "uart0 = \<lparr>rx = [], tx = [], txfifo_lvl = 0, ier = 0, lcr = 0, dlm = 0, dll = 0, fcr = 0, mdr1 = 0\<rparr>"

definition uimage0 :: ustate where
  "uimage0 = kstate.extend image0
     \<lparr>porttab = (\<lambda>_. port_entry0), ptfree = 0, ptnextid = 0, tty = tty0, uart = uart0, intc_vector = (\<lambda>_. 0),
      mir = (\<lambda>_. 0), ukont = (\<lambda>_. None)\<rparr>"

lemma loaded_uimage0: "loaded end0 uimage0"
  by (simp add: loaded_def uimage0_def image0_def end0_def proc0_def kstate.defs)

definition uboot0 :: ustate where
  "uboot0 = the (sysinit_kernel end0 uimage0)"

lemma uboot0_facts:
  "booted uboot0" "kinv uboot0" "nbpools uboot0 = 0" "heap_of uboot0 [(end0, 0xA0000000 - end0 - 8192)]"
proof -
  obtain s' where s': "sysinit_kernel end0 uimage0 = Some s'" "booted s'" "nbpools s' = 0"
    "heap_of s' [(end0, 0xA0000000 - end0 - 8192)]"
    using sysinit_kernel_booted[OF loaded_uimage0 end0_small] by blast
  have "uboot0 = s'" by (simp add: uboot0_def s'(1))
  then show "booted uboot0" "kinv uboot0" "nbpools uboot0 = 0" "heap_of uboot0 [(end0, 0xA0000000 - end0 - 8192)]"
    using s' booted_inv by simp_all
qed

lemma uboot0_free: "sem_ok k \<Longrightarrow> sstate (semtab uboot0 k) = S_FREE"
  using uboot0_facts(1) unfolding booted_def by blast

lemma uboot0_spare: "spare_sems uboot0"
  using uboot0_free[of 0] uboot0_free[of 1] by (intro exI[of _ 0] exI[of _ 1]) simp

section \<open>Ports\<close>

text \<open>Four message nodes, no port in use.\<close>

definition ports0 :: ustate where
  "ports0 = snd (the (ptinit 4 uboot0))"

definition nodes0 :: "uint32 list" where
  "nodes0 = buf_addrs 3 8 end0"

lemma ports0_facts:
  "ptinit 4 uboot0 = Some (Done OK, ports0)" "kinv ports0" "ports_rep ports0 nodes0 (\<lambda>_. [])" "length nodes0 = 4"
  "\<not> isbadport p \<Longrightarrow> ptstate (porttab ports0 p) = PT_FREE" "ptnextid ports0 = 0" "spare_sems ports0"
proof -
  have al: "ff_alloc (roundmb (word_of_int (4 * 8))) [(end0, 0xA0000000 - end0 - 8192)] =
    Some (end0, [(end0 + 32, 0xA0000000 - end0 - 8192 - 32)])"
    by (simp add: end0_def roundmb_def)
  have n: "(1 :: int) \<le> 4" "(4 :: int) < 2 ^ 28" by simp_all
  obtain s' where s': "ptinit 4 uboot0 = Some (Done OK, s')" "kinv s'" "ports_rep s' (buf_addrs (nat (4 - 1)) 8 end0) (\<lambda>_. [])"
    "length (buf_addrs (nat (4 - 1)) 8 end0) = nat 4" "\<forall>p. \<not> isbadport p \<longrightarrow> ptstate (porttab s' p) = PT_FREE"
    "ptnextid s' = 0" "semtab s' = semtab uboot0"
    using ptinit_makes[OF uboot0_facts(2) n uboot0_facts(4) al] by blast
  have e: "ports0 = s'" by (simp add: ports0_def s'(1))
  have n0: "nat (4 - 1) = 3" by simp
  show "ptinit 4 uboot0 = Some (Done OK, ports0)" "kinv ports0" "ports_rep ports0 nodes0 (\<lambda>_. [])" "length nodes0 = 4"
    "ptnextid ports0 = 0"
    using s' unfolding e n0 nodes0_def by simp_all
  show "ptstate (porttab ports0 p) = PT_FREE" if "\<not> isbadport p" using s'(5) that unfolding e by blast
  show "spare_sems ports0" unfolding e s'(7) by (rule uboot0_spare)
qed

lemma ports0_free: "\<exists>p. \<not> isbadport p \<and> ptstate (porttab ports0 p) = PT_FREE"
  using ports0_facts(5)[of 0] by (intro exI[of _ 0]) (simp add: isbadport_def)

text \<open>A port for two messages.\<close>

definition chan_id :: int where
  "chan_id = fst (the (ptcreate 2 ports0))"

definition chan0 :: ustate where
  "chan0 = snd (the (ptcreate 2 ports0))"

lemma chan0_facts: "ptcreate 2 ports0 = Some (chan_id, chan0)" "port_is chan_id chan0 (2, [])"
  "ptmaxcnt (porttab chan0 chan_id) = 2"
proof -
  have "(0 :: int) \<le> 2" "nat 2 \<le> length nodes0" "(2 :: int) < 2 ^ 31 - 1" "0 \<le> ptnextid ports0" "ptnextid ports0 < NPORTS"
    using ports0_facts(4,6) by simp_all
  from ptcreate_port_is[OF ports0_facts(2,3) this ports0_free ports0_facts(7)]
  obtain p s' where s': "ptcreate 2 ports0 = Some (p, s')" "port_is p s' (nat 2, [])" "ptmaxcnt (porttab s' p) = 2" by auto
  then show "ptcreate 2 ports0 = Some (chan_id, chan0)" "port_is chan_id chan0 (2, [])"
    "ptmaxcnt (porttab chan0 chan_id) = 2" by (simp_all add: chan_id_def chan0_def)
qed

section \<open>A buffer pool\<close>

text \<open>Three buffers of sixteen bytes.\<close>

definition pool0 :: ustate where
  "pool0 = snd (the (mkbufpool 16 3 uboot0))"

lemma pool0_alloc:
  "ff_alloc (roundmb (word_of_int (3 * ((16 + 3 AND NOT 3) + 4)))) [(end0, 0xA0000000 - end0 - 8192)] =
    Some (end0, [(end0 + 64, 0xA0000000 - end0 - 8192 - 64)])"
  by (simp add: end0_def roundmb_def)

lemma pool0_facts:
  "mkbufpool 16 3 uboot0 = Some (0, pool0)" "kinv pool0" "nbpools pool0 = 1"
  "\<exists>sz. pool_rep pool0 0 (buf_addrs 2 sz end0)" "sem_live pool0 (bpsem (buftab pool0 0))"
  "scount (semtab pool0 (bpsem (buftab pool0 0))) = 3"
proof -
  have a: "BP_MINB \<le> 16" "16 \<le> BP_MAXB" "(1 :: int) \<le> 3" "3 \<le> BP_MAXN" "0 \<le> nbpools uboot0" "nbpools uboot0 < NBPOOLS"
    using uboot0_facts(3) by simp_all
  have "\<exists>k. sem_ok k \<and> sstate (semtab uboot0 k) = S_FREE" using uboot0_spare by blast
  from mkbufpool_makes[OF uboot0_facts(2) a uboot0_facts(4) pool0_alloc this]
  obtain s' sz where s': "mkbufpool 16 3 uboot0 = Some (nbpools uboot0, s')" "kinv s'" "nbpools s' = nbpools uboot0 + 1"
    "pool_rep s' (nbpools uboot0) (buf_addrs (nat (3 - 1)) sz end0)" "sem_live s' (bpsem (buftab s' (nbpools uboot0)))"
    "scount (semtab s' (bpsem (buftab s' (nbpools uboot0)))) = 3" by blast
  have e: "pool0 = s'" by (simp add: pool0_def s'(1))
  show "mkbufpool 16 3 uboot0 = Some (0, pool0)" "kinv pool0" "nbpools pool0 = 1" "\<exists>sz. pool_rep pool0 0 (buf_addrs 2 sz end0)"
    "sem_live pool0 (bpsem (buftab pool0 0))" "scount (semtab pool0 (bpsem (buftab pool0 0))) = 3"
    using s' uboot0_facts(3) unfolding e by auto
qed

section \<open>The console\<close>

definition con0 :: ustate where
  "con0 = snd (the (ttyinit 72 0x80001000 uboot0))"

lemma con0_facts:
  "kinv con0" "console con0 con_start" "line_is con0 [] []" "out_is con0 [] []"
proof -
  obtain s' where s': "ttyinit 72 0x80001000 uboot0 = Some (OK, s')" "console s' con_start"
    using ttyinit_console[OF uboot0_facts(2) uboot0_spare, of 72 "0x80001000"] by blast
  have "con0 = s'" by (simp add: con0_def s'(1))
  then show "kinv con0" "console con0 con_start" "line_is con0 [] []" "out_is con0 [] []"
    using s' by (simp_all add: console_def con_at_def con_start_def)
qed

text \<open>A switch table with the console first and null devices elsewhere, and the start of every device.\<close>

definition udev0 :: "ustate devtab" where
  "udev0 = (\<lambda>d. \<lparr>dvnum = d, dvminor = 0, dvname = ''dev'', dvinit = (if d = 0 then ttyinit 72 0x80001000 else ionull),
     dvopen = (\<lambda>_ _. ionull), dvclose = ionull, dvread = (\<lambda>_ _. ioerr), dvwrite = (\<lambda>_ _. ioerr), dvseek = (\<lambda>_. ioerr),
     dvgetc = ioerr, dvputc = (\<lambda>_. ioerr), dvcntl = (\<lambda>_ _ _. ioerr)\<rparr>)"

lemma uboot0_run: "sysinit_kernel end0 uimage0 = Some uboot0"
  using sysinit_kernel_booted[OF loaded_uimage0 end0_small] by (auto simp: uboot0_def)

lemma con0_run: "ttyinit 72 0x80001000 uboot0 = Some (OK, con0)"
  using ttyinit_starts[OF uboot0_facts(2) uboot0_spare, of 72 "0x80001000"] by (auto simp: con0_def)

lemma udev0_con0: "init_devs udev0 1 uboot0 = Some con0"
  by (simp add: init_dev_def isbaddev_def udev0_def con0_run)

lemma udev0_devs: "n < nat NDEVS \<Longrightarrow> init_devs udev0 (Suc n) uboot0 = Some con0"
proof (induction n)
  case 0
  then show ?case using udev0_con0 by simp
next
  case (Suc n)
  then show ?case by (simp add: init_dev_def isbaddev_def udev0_def ionull_def)
qed

lemma udev0_inits:
  assumes "n < nat NDEVS"
  shows "init_devs udev0 n uboot0 = Some t \<Longrightarrow> \<exists>r t'. dvinit (udev0 (int n)) t = Some (r, t') \<and> kinv t'"
proof (cases n)
  case 0
  then show "init_devs udev0 n uboot0 = Some t \<Longrightarrow> \<exists>r t'. dvinit (udev0 (int n)) t = Some (r, t') \<and> kinv t'"
    using con0_run con0_facts(1) by (simp add: udev0_def)
next
  case (Suc m)
  then show "init_devs udev0 n uboot0 = Some t \<Longrightarrow> \<exists>r t'. dvinit (udev0 (int n)) t = Some (r, t') \<and> kinv t'"
    using udev0_devs[of m] assms con0_facts(1) by (simp add: udev0_def ionull_def del: init_devs.simps)
qed

text \<open>The console after the keys \<open>o\<close>, \<open>x\<close>, backspace, \<open>k\<close>, return.\<close>

definition typed0 :: "byte list" where
  "typed0 = [0x6F, 0x78, 0x08, 0x6B, 0x0D]"

definition typed0_con :: con where
  "typed0_con = \<lparr>c_avail = [0x6F, 0x6B, 0x0A], c_line = [], c_place = 3, c_held = False,
     c_echo = [0x6F, 0x78, 8, 0x20, 8, 0x6B, 0x0D, 0x0A], c_out = []\<rparr>"

lemma typed0_keys: "con_keys typed0 con_start = Some typed0_con"
  by (simp add: typed0_def typed0_con_def con_start_def con_key_def con_edit_def con_echo_def shown_def rubout_def wrap_def Let_def)

definition line0 :: ustate where
  "line0 = the (ttyhandler 4 False (con0\<lparr>uart := (uart con0)\<lparr>rx := typed0\<rparr>\<rparr>))"

lemma line0_facts: "kinv line0" "line_is line0 ([0x6F, 0x6B] @ 0x0A # []) []"
proof -
  let ?s = "con0\<lparr>uart := (uart con0)\<lparr>rx := typed0\<rparr>\<rparr>"
  have "kinv ?s" "con_at ?s con_start" "con_keys (rx (uart ?s)) con_start = Some typed0_con"
    using con0_facts(2) typed0_keys con_at_cong[of con0 con_start ?s] by (simp_all add: console_def)
  then obtain s' where s': "ttyhandler 4 False ?s = Some s'" "kinv s'" "con_at s' typed0_con"
    using ttyhandler_keys[of ?s con_start typed0_con False] by blast
  then show "kinv line0" "line_is line0 ([0x6F, 0x6B] @ 0x0A # []) []"
    using con_atD(1)[OF s'(3)] by (simp_all add: line0_def typed0_con_def)
qed

text \<open>The console with two characters to send, its output FIFO empty.\<close>

lemma out0_exists: "\<exists>s :: ustate. kinv s \<and> out_is s [] [0x68, 0x69] \<and> \<not> tyoheld (tty s) \<and> uart s = uart0"
proof -
  have e: "out_chars c (map (Pair False) [0x68, 0x69]) = [0x68, 0x69]" for c by simp
  have l: "length [0x68, 0x69 :: byte] = nat 2" "(0 :: int) < 2" by simp_all
  obtain s' :: ustate where s': "kinv s'" "out_is s' [] ([] @ [0x68, 0x69])"
    using ttywrite_puts[OF con0_facts(1,4) l] unfolding e by fastforce
  let ?s = "s'\<lparr>uart := uart0, tty := (tty s')\<lparr>tyoheld := False\<rparr>\<rparr>"
  have "kinv ?s" "out_is ?s [] [0x68, 0x69]" "\<not> tyoheld (tty ?s)" "uart ?s = uart0" using s' by (simp_all add: out_is_def)
  then show ?thesis by blast
qed

end
