(* ===== verification/Sample_Future.thy ===== *)
theory Sample_Future
  imports Sample_States Future_Alloc
begin

text \<open>
  Concrete states with a future: process 1 runs, the null process is ready, process 2 is suspended, and the heap of the
  freshly started system holds the future that \<open>future_alloc\<close> has just made.
\<close>

section \<open>A state of the futures\<close>

definition fuser0 :: fstate where
  "fuser0 = kstate.extend user0 \<lparr>fkont = (\<lambda>_. None)\<rparr>"

lemma fuser0_facts:
  "kinv fuser0" "currpid fuser0 = 1" "rdy fuser0 = [0]" "heap_of fuser0 [(end0, 0xA0000000 - end0 - 8192)]"
  "prstate (proctab fuser0 2) = PR_SUSP"
proof -
  show "kinv fuser0" by (simp add: fuser0_def kinv_extend user0_inv)
  show "currpid fuser0 = 1" using user0_fields(4) by (simp add: fuser0_def kstate.defs)
  show "rdy fuser0 = [0]" using user0_queues(3) by (simp add: fuser0_def kstate.defs)
  have "heap_of boot0 [(end0, 0xA0000000 - end0 - 8192)]"
    using sysinit_kernel_booted[OF loaded_image0 end0_small] boot0_booted(1) by auto
  then show "heap_of fuser0 [(end0, 0xA0000000 - end0 - 8192)]"
    using user0_fields(12-15) by (simp add: fuser0_def kstate.defs)
  show "prstate (proctab fuser0 2) = PR_SUSP"
    using user0_fields(7) setup0_fields(13)[of 2] by (simp add: fuser0_def kstate.defs)
qed

section \<open>A future just made\<close>

definition future0 :: "uint32 \<Rightarrow> fstate" where
  "future0 flag = snd (the (future_alloc flag fuser0))"

lemma future0_alloc:
  "ff_alloc 24 [(end0, 0xA0000000 - end0 - 8192)] = Some (end0, [(end0 + 24, 0xA0000000 - end0 - 8192 - 24)])"
  "ff_alloc 48 [(end0 + 24, 0xA0000000 - end0 - 8192 - 24)] = Some (end0 + 24, [(end0 + 72, 0xA0000000 - end0 - 8192 - 72)])"
  "ff_alloc 48 [(end0 + 72, 0xA0000000 - end0 - 8192 - 72)] = Some (end0 + 72, [(end0 + 120, 0xA0000000 - end0 - 8192 - 120)])"
  by (simp_all add: end0_def)

lemma future0_makes:
  "\<exists>m. future_alloc flag fuser0 = Some (end0, fuser0\<lparr>mem := m\<rparr>) \<and> kinv (fuser0\<lparr>mem := m\<rparr>) \<and>
    heap_of (fuser0\<lparr>mem := m\<rparr>) [(end0 + 120, 0xA0000000 - end0 - 8192 - 120)] \<and>
    future_is end0 (fuser0\<lparr>mem := m\<rparr>) flag FUTURE_EMPTY 0 \<and> m end0 = 0 \<and> idle_queues end0 (fuser0\<lparr>mem := m\<rparr>)"
  using future_alloc_makes[OF fuser0_facts(1,4) future0_alloc, of flag] by blast

lemma future0_facts:
  "kinv (future0 flag)" "heap_of (future0 flag) [(end0 + 120, 0xA0000000 - end0 - 8192 - 120)]"
  "future_is end0 (future0 flag) flag FUTURE_EMPTY 0" "idle_queues end0 (future0 flag)" "currpid (future0 flag) = 1"
  "rdy (future0 flag) = [0]" "prstate (proctab (future0 flag) 2) = PR_SUSP" "mem (future0 flag) end0 = 0"
proof -
  obtain m where m: "future_alloc flag fuser0 = Some (end0, fuser0\<lparr>mem := m\<rparr>)" "kinv (fuser0\<lparr>mem := m\<rparr>)"
    "heap_of (fuser0\<lparr>mem := m\<rparr>) [(end0 + 120, 0xA0000000 - end0 - 8192 - 120)]"
    "future_is end0 (fuser0\<lparr>mem := m\<rparr>) flag FUTURE_EMPTY 0" "m end0 = 0" "idle_queues end0 (fuser0\<lparr>mem := m\<rparr>)"
    using future0_makes by blast
  have e: "future0 flag = fuser0\<lparr>mem := m\<rparr>" by (simp add: future0_def m(1))
  show "kinv (future0 flag)" "heap_of (future0 flag) [(end0 + 120, 0xA0000000 - end0 - 8192 - 120)]"
    "future_is end0 (future0 flag) flag FUTURE_EMPTY 0" "idle_queues end0 (future0 flag)" "currpid (future0 flag) = 1"
    "rdy (future0 flag) = [0]" "prstate (proctab (future0 flag) 2) = PR_SUSP" "mem (future0 flag) end0 = 0"
    unfolding e using m fuser0_facts by simp_all
qed

text \<open>Two words of the area behind the structure that one consumer in the queue leaves alone serve as variables.\<close>

definition var1 :: uint32 where "var1 = end0 + 48"
definition var2 :: uint32 where "var2 = end0 + 52"

lemma vars0: "busy (future0 flag) var1" "busy (future0 flag) var2" "apart end0 var1" "apart end0 var2" "var1 \<noteq> var2"
proof -
  have w: "\<forall>a \<in> q_words (end0 + 20). busy (future0 flag) a"
    using future0_facts(4)[of flag] by (simp add: idle_queues_def waiting_for_def)
  have "var1 \<in> q_words (end0 + 20)" "var2 \<in> q_words (end0 + 20)" unfolding q_words_set by (simp_all add: var1_def var2_def)
  then show "busy (future0 flag) var1" "busy (future0 flag) var2" using w by blast+
  show "apart end0 var1" "apart end0 var2" "var1 \<noteq> var2" by (simp_all add: apart_def var1_def var2_def end0_def)
qed

section \<open>A consumer waiting\<close>

text \<open>Process 2 is the first consumer.\<close>

definition consumer0 :: "uint32 \<Rightarrow> fstate" where
  "consumer0 flag = (future0 flag)\<lparr>mem := (mem (future0 flag))(end0 + 8 := FUTURE_WAITING, end0 + 24 := 2, end0 + 20 := 1)\<rparr>"

lemma consumer0_facts:
  "kinv (consumer0 flag)" "future_is end0 (consumer0 flag) flag FUTURE_WAITING 0" "busy (consumer0 flag) var1"
  "waiting_for end0 (consumer0 flag) (0, [2])" "no_producer end0 (consumer0 flag)" "pid_ok 2"
  "prstate (proctab (consumer0 flag) 2) = PR_SUSP" "currpid (consumer0 flag) = 1"
proof -
  let ?s = "future0 flag"
  let ?m = "(mem ?s)(end0 + 8 := FUTURE_WAITING, end0 + 24 := 2, end0 + 20 := 1)"
  have i: "busy ?s (end0 + 16)" "waiting_for end0 ?s (0, [])" "mem ?s (end0 + 16) = 0" "mem ?s (end0 + 60) = 0"
    using future0_facts(4)[of flag] by (simp_all add: idle_queues_def)
  note F = future_isD[OF future0_facts(3)[of flag]]
  have d: "?m a \<noteq> mem ?s a \<Longrightarrow> busy ?s a" for a using F(3) queue_busy(1,2)[OF i(2)] by (auto split: if_splits)
  note k = kinv_busy_mem[OF future0_facts(1), of ?m, OF d]
  have e: "consumer0 flag = ?s\<lparr>mem := ?m\<rparr>" by (simp add: consumer0_def)
  have b: "busy (consumer0 flag) = busy ?s" unfolding e by (rule k(2))
  have mm: "mem (consumer0 flag) = ?m" by (simp add: e)
  show "kinv (consumer0 flag)" unfolding e by (rule k(1))
  show "future_is end0 (consumer0 flag) flag FUTURE_WAITING 0"
    using future0_facts(3)[of flag] unfolding future_is_def b mm by simp
  show "busy (consumer0 flag) var1" unfolding b by (rule vars0)
  show "no_producer end0 (consumer0 flag)" unfolding no_producer_def b mm using i by simp
  show "pid_ok 2" by simp
  show "prstate (proctab (consumer0 flag) 2) = PR_SUSP" "currpid (consumer0 flag) = 1"
    unfolding e by (simp_all add: future0_facts)
  have r: "fq_rep (mem ?s) (end0 + 20) (mem ?s) (0, [])" "\<forall>a \<in> q_words (end0 + 20). busy ?s a"
    using i(2) by (simp_all add: waiting_for_def)
  note R = fq_repD[OF r(1)]
  have "fq_rep ?m (end0 + 20) ?m (0, [2])"
    by (rule fq_repI[OF R(1)]) (use R(3) in \<open>simp_all add: q_head_def q_slot_def\<close>)
  then show "waiting_for end0 (consumer0 flag) (0, [2])" unfolding waiting_for_def b mm using r(2) by simp
qed

text \<open>A consumer that has resumed a producer, with the count of the consumers' queue still the producer's id.\<close>

definition both0 :: fstate where
  "both0 = (consumer0 FUTURE_QUEUE)\<lparr>fkont := (fkont (consumer0 FUTURE_QUEUE))(1 := Some (Q_get_both end0 var2))\<rparr>"

lemma both0_facts:
  "kinv both0" "currpid both0 \<noteq> NULLPROC" "fkont both0 (currpid both0) = Some (Q_get_both end0 var2)"
  "future_is end0 both0 FUTURE_QUEUE FUTURE_WAITING 0" "busy both0 (q_slot (end0 + 20) (word_of_int 1))"
  "busy both0 (end0 + 20)" "mem both0 (end0 + 20) = word_of_int 1"
proof -
  have same: "busy both0 = busy (consumer0 FUTURE_QUEUE)" "mem both0 = mem (consumer0 FUTURE_QUEUE)" by (simp_all add: both0_def busy_def fun_eq_iff)
  show "kinv both0" "currpid both0 \<noteq> NULLPROC" "fkont both0 (currpid both0) = Some (Q_get_both end0 var2)"
    by (simp_all add: both0_def consumer0_facts)
  show "future_is end0 both0 FUTURE_QUEUE FUTURE_WAITING 0"
    using consumer0_facts(2)[of FUTURE_QUEUE] unfolding future_is_def same by simp
  have "\<forall>a \<in> q_words (end0 + 20). busy both0 a" using consumer0_facts(4)[of FUTURE_QUEUE] unfolding waiting_for_def same by blast
  then show "busy both0 (q_slot (end0 + 20) (word_of_int 1))" "busy both0 (end0 + 20)"
    unfolding q_words_set q_slot_def by (simp_all add: add.commute)
  show "mem both0 (end0 + 20) = word_of_int 1" unfolding same by (simp add: consumer0_def end0_def)
qed

end
