(* ===== verification/Sample_Net.thy ===== *)
theory Sample_Net
  imports Sample_Upper Net_Ip_Spec Net_Arp_Frame Net_Udp_Wait
begin

text \<open>
  Concrete states of the network: process 1 runs after \<open>net_init\<close>, process 2 is suspended, and an Ethernet driver that
  keeps what it is given.
\<close>

section \<open>A host with an address\<close>

definition mac0 :: "byte list" where
  "mac0 = [2, 0, 0, 0, 0, 1]"

definition host0 :: network where
  "host0 = \<lparr>ipucast = 0x0A000001, ipbcast = 0x0A0000FF, ipmask = 0xFFFFFF00, ipprefix = 0x0A000000, iprouter = 0x0A0000FE,
     bootserver = 0, ipvalid = True, ethucast = mac0, ethbcast = replicate 6 0xFF\<rparr>"

text \<open>A second host on the same network.\<close>

definition peer0 :: network where
  "peer0 = host0\<lparr>ipucast := 0x0A000002, ethucast := [2, 0, 0, 0, 0, 2]\<rparr>"

type_synonym wired = "packet list nstate_scheme"

definition wire0 :: "packet \<Rightarrow> int \<Rightarrow> packet list \<Rightarrow> int \<times> packet list" where
  "wire0 p n sent = (n, sent @ [p])"

definition nuser0 :: wired where
  "nuser0 = kstate.extend user0
     \<lparr>porttab = (\<lambda>_. port_entry0), ptfree = 0, ptnextid = 0, tty = tty0, uart = uart0, intc_vector = (\<lambda>_. 0),
      mir = (\<lambda>_. 0), ukont = (\<lambda>_. None),
      udptab = (\<lambda>_. \<lparr>udstate = EP_FREE, udremip = 0, udremport = 0, udlocport = 0, udhead = 0, udtail = 0, udcount = 0,
         udpid = 0, udqueue = (\<lambda>_. 0)\<rparr>),
      icmptab = (\<lambda>_. \<lparr>icstate = EP_FREE, icremip = 0, ichead = 0, ictail = 0, iccount = 0, icpid = 0, icqueue = (\<lambda>_. 0)\<rparr>),
      arpcache = (\<lambda>_. \<lparr>arstate = AR_FREE, arpaddr = 0, arpid = 0, arhaddr = []\<rparr>),
      ipoqueue = \<lparr>iqhead = 0, iqtail = 0, iqsem = 0, iqbuf = (\<lambda>_. 0)\<rparr>, netdata = host0, netbufpool = 0, udp_ident = 1,
      udpto_ident = 1, ipident = 32767, pkts = (\<lambda>_ _. 0), nkont = (\<lambda>_. None), \<dots> = []\<rparr>"

lemma nuser0_facts:
  "kinv nuser0" "heap_of nuser0 [(end0, 0xA0000000 - end0 - 8192)]" "nbpools nuser0 = 0" "currpid nuser0 = 1"
  "sem_ok k \<Longrightarrow> k \<noteq> 0 \<Longrightarrow> sstate (semtab nuser0 k) = S_FREE" "pkont nuser0 = (\<lambda>_. None)"
  "arstate (arpcache nuser0 i) = AR_FREE" "proctab nuser0 = proctab user0"
proof -
  show "kinv nuser0" by (simp add: nuser0_def kinv_extend user0_inv)
  have b: "heap_of boot0 [(end0, 0xA0000000 - end0 - 8192)]" "nbpools boot0 = 0"
    using sysinit_kernel_booted[OF loaded_image0 end0_small] boot0_booted(1) by auto
  then show "heap_of nuser0 [(end0, 0xA0000000 - end0 - 8192)]"
    using user0_fields(12-15) by (simp add: nuser0_def kstate.defs)
  obtain t where u: "user0 = setup0\<lparr>queuetab := t\<rparr>" using user0_queues(1) by blast
  show "nbpools nuser0 = 0" unfolding nuser0_def u using b(2) by (simp add: kstate.defs setup0_def)
  show "currpid nuser0 = 1" "pkont nuser0 = (\<lambda>_. None)" "proctab nuser0 = proctab user0" using user0_fields(4,6)
    by (simp_all add: nuser0_def kstate.defs)
  show "arstate (arpcache nuser0 i) = AR_FREE" by (simp add: nuser0_def kstate.defs)
  show "sstate (semtab nuser0 k) = S_FREE" if "sem_ok k" "k \<noteq> 0"
    using that user0_fields(8) setup0_fields(11)[of k] by (simp add: nuser0_def kstate.defs)
qed

text \<open>A datagram with two bytes from port 9 of the second host to port 7 of the first.\<close>

definition datagram0 :: packet where
  "datagram0 = put16 (put16 (put16 (put32 (put32 ((\<lambda>_. 0)(net_ipvh := 0x45, net_ipproto := 17, net_udpdata := 0x68, net_udpdata + 1 := 0x69))
     net_ipsrc 0x0A000002) net_ipdst 0x0A000001) net_udpsport 9) net_udpdport 7) net_udplen 10"

lemma datagram0_fields:
  "datagram0 net_ipproto = 17" "datagram0 net_ipvh = 0x45" "get16 datagram0 net_udpdport = 7" "get16 datagram0 net_udpsport = 9"
  "get16 datagram0 net_udplen = 10" "get32 datagram0 net_ipsrc = 0x0A000002" "get32 datagram0 net_ipdst = 0x0A000001"
  "payload datagram0 100 = (2, [0x68, 0x69])"
proof -
  show "datagram0 net_ipproto = 17" "datagram0 net_ipvh = 0x45" by (simp_all add: datagram0_def put16_def put32_def)
  show "get16 datagram0 net_udpdport = 7" "get16 datagram0 net_udpsport = 9" "get32 datagram0 net_ipsrc = 0x0A000002"
    "get32 datagram0 net_ipdst = 0x0A000001"
    by (auto intro!: get16_bytes get32_bytes simp: datagram0_def put16_def put32_def)
  show l: "get16 datagram0 net_udplen = 10" by (simp add: datagram0_def get16_put16)
  have "datagram0 net_udpdata = 0x68" "datagram0 (net_udpdata + 1) = 0x69" by (simp_all add: datagram0_def put16_def put32_def)
  moreover have "min 100 (uint (get16 datagram0 net_udplen) - 8) = 2" unfolding l by simp
  moreover have "[0..<nat 2] = [0, 1]" by (simp add: upt_rec)
  ultimately show "payload datagram0 100 = (2, [0x68, 0x69])" by (simp add: payload_def Let_def)
qed

lemma first_slots: "first_slot 6 0 P = (if P 0 then Some 0 else first_slot 5 1 P)"
  by (simp add: numeral_eq_Suc)

section \<open>The network started\<close>

definition net0 :: wired where
  "net0 = snd (the (net_init mac0 nuser0))"

lemma net0_alloc:
  "ff_alloc (roundmb 196080) [(end0, 0xA0000000 - end0 - 8192)] = Some (end0, [(end0 + 196080, 0xA0000000 - end0 - 8192 - 196080)])"
  by (simp add: end0_def roundmb_def)

lemma nuser0_pre:
  "0 \<le> nbpools nuser0" "nbpools nuser0 < NBPOOLS" "(1 :: int) \<noteq> 2" "sem_ok 1" "sem_ok 2"
  "sstate (semtab nuser0 1) = S_FREE" "sstate (semtab nuser0 2) = S_FREE"
  using nuser0_facts(3) nuser0_facts(5)[of 1] nuser0_facts(5)[of 2] by simp_all

lemma net0_facts:
  "net_init mac0 nuser0 = Some (Done (), net0)" "udp_sim 129 net0 (129, \<lambda>_. None)" "currpid net0 = 1"
  "ethucast (netdata net0) = mac0" "pkont net0 = (\<lambda>_. None)" "proctab net0 = proctab user0"
  "0 \<le> i \<Longrightarrow> i < ARP_SIZ \<Longrightarrow> arstate (arpcache net0 i) = AR_FREE"
proof -
  obtain s' where s': "net_init mac0 nuser0 = Some (Done (), s')" "udp_sim 129 s' (129, \<lambda>_. None)" "currpid s' = currpid nuser0"
    "arpcache s' 0 = arpcache nuser0 0" "ethucast (netdata s') = mac0" "pkont s' = pkont nuser0" "proctab s' = proctab nuser0"
    "\<forall>i. 1 \<le> i \<longrightarrow> i < ARP_SIZ \<longrightarrow> arstate (arpcache s' i) = AR_FREE"
    using net_init_ready[OF nuser0_facts(1) nuser0_pre nuser0_facts(2) net0_alloc] by blast
  have e: "net0 = s'" by (simp add: net0_def s'(1))
  show "net_init mac0 nuser0 = Some (Done (), net0)" "udp_sim 129 net0 (129, \<lambda>_. None)" "currpid net0 = 1"
    "ethucast (netdata net0) = mac0" "pkont net0 = (\<lambda>_. None)" "proctab net0 = proctab user0"
    unfolding e using s' nuser0_facts by simp_all
  show "arstate (arpcache net0 i) = AR_FREE" if "0 \<le> i" "i < ARP_SIZ"
    using s'(4,8) that nuser0_facts(7)[of 0] unfolding e by (cases "i = 0") simp_all
qed

section \<open>A packet taken in\<close>

text \<open>An endpoint at port 7 is registered; a buffer of the pool then holds the given packet.\<close>

definition echo7 :: "uint32 endpoint" where
  "echo7 = \<lparr>ep_ip = 0, ep_rport = 0, ep_lport = 7, ep_wait = False, ep_queue = []\<rparr>"

lemma endpoint0: "\<exists>fr. udp_rep (snd (udp_register 0 0 7 net0)) fr ((\<lambda>_. None)(0 := Some echo7)) \<and> length fr = 129"
proof -
  obtain fr C where C: "udp_rep net0 fr C" "shows_as (pkts net0) C (\<lambda>_. None)" "length fr = 129"
    using net0_facts(2) by (auto simp: udp_sim_def)
  have n: "C i = None" if "0 \<le> i" "i < UDP_SLOTS" for i using shows_asD(1)[OF C(2) that] by simp
  have t: "udp_table net0 (\<lambda>_. None)" using udp_repD(2)[OF C(1)] n by (simp add: udp_table_def)
  have h: "held C = held (\<lambda>_. None)" using n by (simp add: held_def headers_def)
  have own: "net_own net0 fr {#} (\<lambda>_. None)" using udp_repD(3)[OF C(1)] h by (simp add: net_own_def)
  have rep: "udp_rep net0 fr (\<lambda>_. None)" using C(1) t own by (simp add: udp_rep_def)
  have f: "first_slot (nat UDP_SLOTS) 0 (\<lambda>i. (\<lambda>_. None :: uint32 endpoint option) i = None) = Some 0"
    by (simp add: numeral_eq_Suc)
  have r: "snd (ep_register 0 0 7 (\<lambda>_. None)) = (\<lambda>_. None)(0 := Some echo7)"
    using f by (simp add: ep_register_def echo7_def)
  have "held ((\<lambda>_. None)(0 := Some echo7)) = held (\<lambda>_. None)" by (rule held_same) (simp_all add: headers_def echo7_def)
  then have "udp_rep (snd (udp_register 0 0 7 net0)) fr ((\<lambda>_. None)(0 := Some echo7))"
    using register_ok(1)[OF rep, of 0 0 7] r by simp
  then show ?thesis using C(3) by blast
qed

definition reg0 :: wired where
  "reg0 = snd (udp_register 0 0 7 net0)"

definition asked0 :: wired where
  "asked0 = snd (the (getbuf (netbufpool reg0) reg0))"

definition rxbuf0 :: uint32 where
  "rxbuf0 = fst (the (getbuf_rest (netbufpool asked0) asked0))"

definition rx0 :: "packet \<Rightarrow> wired" where
  "rx0 p = (snd (the (getbuf_rest (netbufpool asked0) asked0)))
     \<lparr>pkts := (\<lambda>_. p), netdata := host0, arpcache := arpcache nuser0\<rparr>"

lemma rx0_facts:
  "kinv (rx0 p)" "udp_table (rx0 p) ((\<lambda>_. None)(0 := Some echo7))" "currpid (rx0 p) = 1" "netdata (rx0 p) = host0"
  "pkts (rx0 p) x = p" "arstate (arpcache (rx0 p) i) = AR_FREE" "pkont (rx0 p) = (\<lambda>_. None)"
  "\<exists>fr. net_own (rx0 p) fr {#rxbuf0 - 4#} ((\<lambda>_. None)(0 := Some echo7)) \<and> length fr = 128"
proof -
  let ?T = "(\<lambda>_. None)(0 := Some echo7)"
  obtain fr where fr: "udp_rep reg0 fr ?T" "length fr = 129" using endpoint0 by (auto simp: reg0_def)
  obtain h fs where h: "fr = h # fs" "length fs = 128" using fr(2) by (cases fr) auto
  obtain s1 s' where s: "getbuf (netbufpool reg0) reg0 = Some (Pending, s1)" "getbuf_rest (netbufpool s1) s1 = Some (h + 4, s')"
    "kinv s'" "udp_table s' ?T" "net_own s' fs {#h#} ?T" "currpid s' = currpid reg0" "pkont s' = pkont reg0"
    using take_buffer[of reg0 h fs ?T] fr(1) h(1) by blast
  have a: "asked0 = s1" "rxbuf0 = h + 4" by (simp_all add: asked0_def rxbuf0_def s)
  have e: "rx0 p = s'\<lparr>pkts := (\<lambda>_. p), netdata := host0, arpcache := arpcache nuser0\<rparr>" by (simp add: rx0_def a s(2))
  have c: "currpid reg0 = 1" "pkont reg0 = (\<lambda>_. None)" using net0_facts(3,5) by (auto simp: reg0_def udp_register_def split: option.splits)
  show "kinv (rx0 p)" "udp_table (rx0 p) ?T" "currpid (rx0 p) = 1" "netdata (rx0 p) = host0" "pkts (rx0 p) x = p"
    "arstate (arpcache (rx0 p) i) = AR_FREE" "pkont (rx0 p) = (\<lambda>_. None)"
    unfolding e using s c nuser0_facts(7) by (simp_all add: udp_table_def)
  have "net_own (rx0 p) fs {#rxbuf0 - 4#} ?T" unfolding e a(2) using s(5) by (simp add: net_own_def)
  then show "\<exists>fr. net_own (rx0 p) fr {#rxbuf0 - 4#} ?T \<and> length fr = 128" using h(2) by blast
qed

text \<open>Process 1 waits at the endpoint for a second.\<close>

definition waiting0 :: "packet \<Rightarrow> wired" where
  "waiting0 p = snd (the (udp_recv 0 100 1000 (rx0 p)))"

definition wait7 :: "uint32 endpoint" where
  "wait7 = echo7\<lparr>ep_wait := True\<rparr>"

lemma waiting0_facts:
  "udp_recv 0 100 1000 (rx0 p) = Some (Pending, waiting0 p)" "kinv (waiting0 p)"
  "udp_table (waiting0 p) ((\<lambda>_. None)(0 := Some wait7))" "udpid (udptab (waiting0 p) 0) = 1"
  "prstate (proctab (waiting0 p) 1) = PR_RECTIM" "pkts (waiting0 p) x = p"
  "\<exists>fr. net_own (waiting0 p) fr {#rxbuf0 - 4#} ((\<lambda>_. None)(0 := Some wait7))"
proof -
  let ?T = "(\<lambda>_. None)(0 := Some echo7)"
  obtain fr where fr: "net_own (rx0 p) fr {#rxbuf0 - 4#} ?T" using rx0_facts(8) by blast
  have pre: "currpid (rx0 p) \<noteq> NULLPROC" "pkont (rx0 p) (currpid (rx0 p)) \<noteq> Some K_receive" "0 \<le> sint (1000 :: uint32)"
    "(0 :: int) \<le> 0" "(0 :: int) < UDP_SLOTS" "?T 0 = Some echo7" "\<not> ep_wait echo7" "ep_queue echo7 = []"
    using rx0_facts by (simp_all add: echo7_def)
  obtain s' where s': "udp_recv 0 100 1000 (rx0 p) = Some (Pending, s')" "kinv s'" "udp_table s' (?T(0 := Some wait7))"
    "udpid (udptab s' 0) = 1" "prstate (proctab s' 1) = PR_RECTIM" "pkts s' = pkts (rx0 p)"
    "net_own s' fr {#rxbuf0 - 4#} (?T(0 := Some wait7))"
    using udp_recv_blocks[OF rx0_facts(1) pre(1-3) rx0_facts(2) pre(4-8) fr, of 100] rx0_facts(3) unfolding wait7_def by auto
  have e: "waiting0 p = s'" by (simp add: waiting0_def s'(1))
  show "udp_recv 0 100 1000 (rx0 p) = Some (Pending, waiting0 p)" "kinv (waiting0 p)"
    "udp_table (waiting0 p) ((\<lambda>_. None)(0 := Some wait7))" "udpid (udptab (waiting0 p) 0) = 1"
    "prstate (proctab (waiting0 p) 1) = PR_RECTIM" "pkts (waiting0 p) x = p"
    "\<exists>fr. net_own (waiting0 p) fr {#rxbuf0 - 4#} ((\<lambda>_. None)(0 := Some wait7))"
    unfolding e using s' rx0_facts(5) by auto
qed

lemma rx0_distinct: "arp_distinct (rx0 p)" "arp_lookup ip (rx0 p) = None"
  using rx0_facts(6) by (simp_all add: arp_distinct_def arp_lookup_None)

lemma hosts0: "length (ethucast host0) = 6" "length (ethbcast host0) = 6" "length (ethucast peer0) = 6" "length (ethbcast peer0) = 6"
  by (simp_all add: host0_def peer0_def mac0_def)

section \<open>A reply to an echo request\<close>

text \<open>The reply has one byte of data; the entry has received \<open>k\<close> replies before.\<close>

definition reply0 :: packet where
  "reply0 = put16 (put32 ((\<lambda>_. 0)(net_icdata := 0x68)) net_ipsrc 0x0A000002) net_iplen 29"

lemma reply0_fields:
  "reply0 net_ictype = 0" "get16 reply0 net_icident = 0" "get32 reply0 net_ipsrc = 0x0A000002" "icmp_payload reply0 100 = (1, [0x68])"
proof -
  show "reply0 net_ictype = 0" by (simp add: reply0_def put16_def put32_def)
  show "get16 reply0 net_icident = 0" "get32 reply0 net_ipsrc = 0x0A000002"
    by (auto intro!: get16_bytes get32_bytes simp: reply0_def put16_def put32_def)
  have "get16 reply0 net_iplen = 29" by (simp add: reply0_def get16_put16)
  then have "uint (get16 reply0 net_iplen) = 29" by simp
  moreover have "reply0 net_icdata = 0x68" by (simp add: reply0_def put16_def put32_def)
  ultimately show "icmp_payload reply0 100 = (1, [0x68])" by (simp add: icmp_payload_def Let_def)
qed

definition pinged0 :: "int \<Rightarrow> wired" where
  "pinged0 k = (rx0 reply0)\<lparr>icmptab := (\<lambda>_. \<lparr>icstate = EP_USED, icremip = 0x0A000002, ichead = k, ictail = k mod 8,
     iccount = 0, icpid = 0, icqueue = (\<lambda>_. 0)\<rparr>)\<rparr>"

lemma pinged0_facts:
  "kinv (pinged0 k)" "icmp_at 0 k (pinged0 k)" "echo_reply (pkts (pinged0 k) x) 0 (icmptab (pinged0 k) 0)" "pkts (pinged0 k) x = reply0"
  "icmp_payload reply0 100 = (1, [0x68])"
  "\<exists>fr. net_own (pinged0 k) fr {#rxbuf0 - 4#} ((\<lambda>_. None)(0 := Some echo7)) \<and> length fr = 128"
proof -
  show "kinv (pinged0 k)" using rx0_facts(1) by (simp add: pinged0_def)
  show "icmp_at 0 k (pinged0 k)" by (simp add: pinged0_def icmp_at_def)
  show p: "pkts (pinged0 k) x = reply0" by (simp add: pinged0_def rx0_facts(5))
  show "echo_reply (pkts (pinged0 k) x) 0 (icmptab (pinged0 k) 0)"
    unfolding p echo_reply_def reply0_fields by (simp add: pinged0_def)
  show "icmp_payload reply0 100 = (1, [0x68])" by (rule reply0_fields)
  show "\<exists>fr. net_own (pinged0 k) fr {#rxbuf0 - 4#} ((\<lambda>_. None)(0 := Some echo7)) \<and> length fr = 128"
    using rx0_facts(8)[of reply0] by (simp add: pinged0_def net_own_def)
qed

section \<open>An address asked for\<close>

text \<open>Process 1 asks for the address of the second host and waits; the second host's answer is in the buffers.\<close>

definition need0 :: wired where
  "need0 = net0\<lparr>netdata := host0, pkts := (\<lambda>_. eth_ntoh (arp_reply peer0 (arp_ntoh (eth_ntoh (arp_request host0 0x0A000002)))))\<rparr>"

lemma need0_facts: "kinv need0" "currpid need0 \<noteq> NULLPROC" "pkont need0 (currpid need0) \<noteq> Some K_receive" "netdata need0 = host0"
  "0 \<le> i \<Longrightarrow> i < ARP_SIZ \<Longrightarrow> arstate (arpcache need0 i) = AR_FREE" "arp_distinct need0" "arp_lookup ip need0 = None"
proof -
  show "kinv need0" using net0_facts(2) by (auto simp: need0_def udp_sim_def udp_rep_def)
  show "currpid need0 \<noteq> NULLPROC" "pkont need0 (currpid need0) \<noteq> Some K_receive" "netdata need0 = host0"
    using net0_facts by (simp_all add: need0_def)
  show f: "arstate (arpcache need0 i) = AR_FREE" if "0 \<le> i" "i < ARP_SIZ" for i using net0_facts(7)[OF that] by (simp add: need0_def)
  show "arp_distinct need0" using f by (auto simp: arp_distinct_def)
  show "arp_lookup ip need0 = None" using f by (simp add: arp_lookup_None)
qed

end
