(* ===== verification/Spec2Isabelle.thy ===== *)
theory Spec2Isabelle
  imports Kernel_Machine Sleep_Time Memory_Sim Queue_Sim Port_Sim Tty_Console Lib_String Lib_Sort Lib_Format Net_Addr Net_Ip_Spec Net_Arp_Frame Net_Udp_Wait Future_Alloc Shell_Lex Sample_States Sample_Upper Sample_Future Sample_Net
begin

text \<open>
  XINU for the BeagleBone Black (\<^verbatim>\<open>src/bbb-xinu\<close>): the kernel, the message ports, the buffer pools, the
  console driver, the futures, the network stack (IP, UDP, ICMP, ARP), routines of the C library with formatted output, and the
  shell's lexical analyser.

  \<^bold>\<open>The program and how it is modelled.\<close> The kernel is a set of C functions on global tables, called by the
  current process or by an interrupt, with interrupts disabled while they run. A function is a definition
  on the state: it returns \<open>None\<close> for undefined behaviour (an index outside its table, a null or misaligned
  pointer) or a loop that does not end, and otherwise the C result and the new state; an error return is a value
  (\<open>SYSERR\<close>). \<^verbatim>\<open>int32\<close> and the smaller signed types are integers wrapped by \<open>s32\<close> and \<open>s16\<close>, \<^verbatim>\<open>uint32\<close> and pointers are
  32-bit words, memory is a map from addresses to words (to bytes for the string routines). A process that
  gives up the processor inside a call stops there: the code after the switch is a definition of its own
  (\<open>receive_rest\<close>, \<open>kill_rest\<close>, \<open>ptsend_rest\<close> and so on), and \<open>pkont\<close>, \<open>ukont\<close> and \<open>nkont\<close> record which one a process has still to run.

  \<^bold>\<open>Theories.\<close>
  \<^item> \<open>Xinu_Base\<close>: integer types, constants, memory accesses, the collection \<open>range_simps\<close>.
  \<^item> \<open>Queue_Table\<close>, \<open>Queue_Refine\<close>, \<open>Queue_Ops\<close>, \<open>Queue_Sim\<close>: \<^verbatim>\<open>queuetab\<close> (\<^verbatim>\<open>system/queue.c\<close>, \<^verbatim>\<open>getitem.c\<close>, \<^verbatim>\<open>insert.c\<close>,
    \<^verbatim>\<open>insertd.c\<close>, \<^verbatim>\<open>newqueue.c\<close>): the linked entries, their abstraction to lists (\<open>qrep\<close>, \<open>queue_of\<close>), each operation on
    lists, and the specification \<open>queue_spec\<close>.
  \<^item> \<open>Memory\<close>, \<open>Memory_Refine\<close>, \<open>Memory_Alloc\<close>, \<open>Memory_Stack\<close>, \<open>Memory_Free\<close>, \<open>Memory_Sim\<close>: the free list (\<^verbatim>\<open>getmem.c\<close>,
    \<^verbatim>\<open>getstk.c\<close>, \<^verbatim>\<open>freemem.c\<close>, \<^verbatim>\<open>meminit.c\<close>), its abstraction to a list of blocks (\<open>heap_rep\<close>) and \<open>mem_spec\<close>.
  \<^item> \<open>Kernel_State\<close>: the tables of the kernel in one record \<open>kstate\<close>. \<open>Scheduler\<close>, \<open>Semaphore\<close>, \<open>Clock\<close>, \<open>Messages\<close>,
    \<open>Process\<close>, \<open>Device_Switch\<close>, \<open>System_Init\<close>: the functions of \<^verbatim>\<open>system/\<close> that these names say.
  \<^item> \<open>Kernel_Inv\<close>, \<open>Sched_Inv\<close>, \<open>Kernel_Global\<close>, \<open>Process_Inv\<close>, \<open>Kernel_Frame\<close>: the invariant \<open>kinv\<close> (queues agree with
    process states, one process runs, counts agree with waiting processes, messages with states, heap and
    stacks well formed, suspended calls recorded), its preservation by every operation and what each operation leaves alone.
  \<^item> \<open>Kernel_Machine\<close>: the step relation \<open>kstep\<close> (a call, a clock interrupt, the rest of a call), the locale
    \<open>safe_machine\<close> with its interpretation, \<open>reachable\<close>. Reachable states are those after the part of \<open>sysinit\<close> before its
    device loop (\<open>sysinit_kernel\<close>); the routines of the devices act on the kernel through its calls, which are steps.
  \<^item> \<open>Sleep_Time\<close>: what the delta list of sleeping processes means, as due times.
  \<^item> \<open>Upper_State\<close>: the record \<open>ustate\<close> that adds ports, console and UART. \<open>Bufpool\<close> (\<^verbatim>\<open>mkbufpool.c\<close>, \<^verbatim>\<open>getbuf.c\<close>, \<^verbatim>\<open>freebuf.c\<close>), \<open>Ports\<close> and \<open>Port_Sim\<close> (\<^verbatim>\<open>pt*.c\<close>).
  \<^item> \<open>Tty\<close> (\<^verbatim>\<open>device/tty\<close>), \<open>Ring\<close> (ring buffers as lists), \<open>Tty_In\<close>, \<open>Tty_Out\<close>, \<open>Tty_IO\<close>, and \<open>Tty_Console\<close>: the
    console as a line editor with echo and flow control (\<open>con_spec\<close>).
  \<^item> \<open>Fut_Queue\<close> (\<^verbatim>\<open>apps/fut_queue.c\<close>), \<open>Future\<close> (\<^verbatim>\<open>system/future_*.c\<close>, with the state \<open>fstate\<close>): the futures at their
    addresses; \<open>Future_Inv\<close>, \<open>Future_Modes\<close>, \<open>Future_Alloc\<close>: what each mode guarantees, and where the overlapping queues fail.
  \<^item> \<open>Lib_String\<close>, \<open>Lib_Sort\<close>: routines of \<^verbatim>\<open>lib/\<close>. \<open>Lib_Print\<close>, \<open>Lib_Format\<close>: formatted output (\<^verbatim>\<open>lib/doprnt.c\<close>, \<^verbatim>\<open>fdoprnt.c\<close>,
    \<^verbatim>\<open>sprintf.c\<close>, \<^verbatim>\<open>system/kprintf.c\<close>) and its specification over pieces of a format.
  \<^item> \<open>Byte_Fields\<close>, \<open>Net_Packet\<close>, \<open>Net_Checksum\<close>: packets as bytes by offset, byte order (\<^verbatim>\<open>*_hton\<close>, \<^verbatim>\<open>*_ntoh\<close>), checksums against RFC 1071.
    \<open>Net_State\<close>: the tables of the network in the record \<open>nstate\<close>, and which buffers of the pool are whose (\<open>pool_own\<close>).
    \<open>Net_Udp\<close>, \<open>Net_Udp_Spec\<close>, \<open>Net_Udp_Wait\<close>, \<open>Net_Udp_Sim\<close> (\<^verbatim>\<open>net/udp.c\<close>): the endpoints as bounded queues (\<open>udp_table\<close>, \<open>udp_spec\<close>).
    \<open>Net_Arp\<close>, \<open>Net_Arp_Spec\<close>, \<open>Net_Arp_Frame\<close> (\<^verbatim>\<open>net/arp.c\<close>): the cache (\<open>arp_distinct\<close>), requests and replies. \<open>Net_Icmp\<close>, \<open>Net_Icmp_Spec\<close>
    (\<^verbatim>\<open>net/icmp.c\<close>): echo messages. \<open>Net_Ip\<close>, \<open>Net_Ip_Spec\<close> (\<^verbatim>\<open>net/ip.c\<close>, \<^verbatim>\<open>net.c\<close>): input, output, sending, start, from one host to another.
  \<^item> \<open>Net_Addr\<close>: dotted addresses (\<^verbatim>\<open>net/dot2ip.c\<close>). \<open>Shell_Lex\<close>: \<^verbatim>\<open>shell/lexan.c\<close>, its bounds and reading back of a command line.
  \<^item> \<open>Simulation\<close>: the locale \<open>simulation\<close>, the contract between an implementation and a specification; heap,
    queues, ports, the console, the queue of a future and the UDP endpoints are interpretations, and the theorems \<open>*_history\<close> are their histories.
  \<^item> \<open>Sample_States\<close>, \<open>Sample_Upper\<close>, \<open>Sample_Future\<close>, \<open>Sample_Net\<close>: states that the code's own start-up routines reach, for the witnesses.

  \<^bold>\<open>Bounds and fuel.\<close> Loops over a fixed number of entries recurse on that number (\<open>NPROC\<close>, \<open>NSEM\<close>, \<open>NPORTS\<close>); walks
  over links are \<open>partial_function (option)\<close>, and the theorems state that they return. \<open>queue_of\<close> follows at most
  \<open>NPROC\<close> links, enough because a process is on one queue only. \<open>run_puts\<close> and \<open>run_read\<close> bound how often a console
  call is resumed; \<open>ttyread_spec\<close> and \<open>ttywrite_spec\<close> name a number that is enough. \<open>legal\<close> lists what a caller of the kernel must
  respect: the null process does not block, counts do not overflow, a freed block lies in the heap, arguments fit
  their C types. Sizes within seven of \<open>2\<^sup>3\<^sup>2\<close>, which \<^verbatim>\<open>roundmb\<close> wraps to zero, and delays that are negative as \<^verbatim>\<open>int32\<close> are excluded there.

  \<^bold>\<open>Parameters.\<close> The switch table \<^verbatim>\<open>devtab\<close> is generated from the configuration; the kernel relies on \<open>null_console\<close>, that
  closing the console does nothing, and \<open>sysinit\<close> on the initialisation routines, that they return and keep the invariant. The function that disposes of a port's messages is the caller's; \<open>disposes\<close> says
  that it returns and leaves the ports alone. Sending a frame is a parameter of type \<open>ether\<close>; \<open>driver dev\<close> is any driver with a
  state of its own that leaves the kernel's alone, and where \<open>keeps_cache\<close> is enough the driver may change the rest of the kernel's state. The frame that \<open>netin\<close> reads is an argument of \<open>netin_rest\<close>. \<open>initret\<close> is the address of \<^verbatim>\<open>userret\<close>.

  \<^bold>\<open>Not modelled.\<close> Assembly (\<^verbatim>\<open>ctxsw.S\<close>, \<^verbatim>\<open>intr.S\<close>, \<^verbatim>\<open>start.S\<close>) and the registers of timer and interrupt controller beyond what
  the C code reads back; formatted input; the DHCP, DNS and TFTP clients and the packet dump; the creation of the two network processes at the
  end of \<^verbatim>\<open>net_init\<close>; the saved interrupt mask; the file systems, the remote disk and the Ethernet driver; the shell's command loop and its commands; the applications; the cross compiler that the repository carries along.
\<close>

section \<open>The kernel as a whole\<close>

text \<open>C1: the kernel invariant. In every state the kernel can reach from the end of \<open>sysinit_kernel\<close>, where the device
  loop of \<open>sysinit\<close> begins, by system calls, clock interrupts and resumed calls, the queues, semaphores, messages, heap, stacks and suspended calls
  are consistent with the process table.\<close>

theorem reachable_invariant:
  assumes "reachable initret devtab s"
  shows "kinv s"
  using assms by (rule reachable_kinv)

theorem reachable_invariant_witness:
  "kstep 0 dev0 boot0 sem0 \<and> reachable 0 dev0 sem0 \<and> kinv sem0"
  using reachable_invariant[OF sem0_facts(2)] sem0_facts by blast

text \<open>C2: progress. In a reachable kernel that has not halted, whatever can come next runs to its end without
  undefined behaviour and is a step to a state that keeps the invariant. When the current process is not inside a
  call, that is the tick of the clock (the handler with the overflow flag set, \<open>wakeup\<close> included) and every
  legal call; when it was just switched back to inside a call, it is the rest of that call.\<close>

theorem reachable_progress:
  assumes "reachable initret devtab s" "\<not> halted s"
  shows "if pkont s (currpid s) = None
    then (\<exists>r s'. clkhandler True s = Some (r, s') \<and> kstep initret devtab s s' \<and> kinv s') \<and>
      (\<forall>c. legal c s \<longrightarrow> (\<exists>s'. run_call initret c s = Some s' \<and> kstep initret devtab s s' \<and> kinv s'))
    else \<exists>s'. run_kont devtab s = Some s' \<and> kstep initret devtab s s' \<and> kinv s'"
  using kstep_enabled[OF reachable_kinv[OF assms(1)] reachable_null_console[OF assms(1)] assms(2)] .

theorem reachable_progress_witness:
  "reachable 0 dev0 boot0 \<and> \<not> halted boot0 \<and> (\<exists>r s'. clkhandler True boot0 = Some (r, s') \<and> kstep 0 dev0 boot0 s' \<and> kinv s') \<and>
    (\<exists>s'. run_call 0 (Semcreate 1) boot0 = Some s' \<and> kstep 0 dev0 boot0 s' \<and> kinv s')"
proof -
  have B: "\<not> halted boot0" "pkont boot0 (currpid boot0) = None" using boot0_booted(2) by (simp_all add: booted_def)
  have l: "legal (Semcreate 1) boot0" by simp
  show ?thesis
    using reachable_progress[OF boot0_reachable B(1), unfolded if_P[OF B(2)]] l B(1) boot0_reachable by blast
qed

text \<open>C3: every system call terminates. From a state that satisfies the invariant, each of the nineteen
  calls, with arguments in the ranges that \<open>legal\<close> lists, runs to its end or to the point where the
  caller is switched out, without an access outside its tables, and keeps the invariant.\<close>

theorem calls_terminate:
  assumes "kinv s" "pkont s (currpid s) = None" "legal c s"
  shows "\<exists>s'. run_call initret c s = Some s' \<and> kinv s'"
  using assms by (rule run_call_inv)

theorem calls_terminate_witness:
  "kinv user0 \<and> legal (Sleepms 5) user0 \<and> (\<exists>s'. run_call 0 (Sleepms 5) user0 = Some s' \<and> kinv s')"
proof -
  have "legal (Sleepms 5) user0" "pkont user0 (currpid user0) = None" by (simp_all add: user0_fields)
  then show ?thesis using calls_terminate[OF user0_inv] user0_inv by blast
qed

text \<open>C4: the kernel's tables stay well typed. In every reachable state the current process, the hint
  indices and the semaphore of a waiting process lie in their tables, priorities fit \<^verbatim>\<open>pri16\<close>, and the count
  of a semaphore in use fits \<^verbatim>\<open>int32\<close>, at worst minus the number of processes.\<close>

theorem reachable_typed:
  assumes "reachable initret devtab s"
  shows "pid_ok (currpid s) \<and> (0 \<le> nextsem s \<and> nextsem s < NSEM) \<and> (0 \<le> nextpid s \<and> nextpid s \<le> NPROC) \<and>
    (\<forall>p. pid_ok p \<longrightarrow> prio_ok (prprio (proctab s p)) \<and>
       (prstate (proctab s p) = PR_WAIT \<longrightarrow> sem_ok (prsem (proctab s p)))) \<and>
    (\<forall>k. sem_ok k \<longrightarrow> sstate (semtab s k) = S_USED \<longrightarrow> - NPROC \<le> scount (semtab s k) \<and> scount (semtab s k) < 2 ^ 31)"
proof -
  note I = reachable_kinv[OF assms]
  show ?thesis using kqD[OF kinvD(1)[OF I]] kinvD(8)[OF I] sem_count[OF I] unfolding kpend_def by blast
qed

theorem reachable_typed_witness:
  "reachable 0 dev0 sem0 \<and> pid_ok (currpid sem0) \<and> nextsem sem0 < NSEM \<and>
    (\<exists>k. sem_ok k \<and> sstate (semtab sem0 k) = S_USED \<and> scount (semtab sem0 k) < 2 ^ 31)"
  using reachable_typed[OF sem0_facts(2)] sem0_facts by blast

text \<open>C5: one process runs. In every reachable state the current process is the only one in state
  \<^verbatim>\<open>PR_CURR\<close>, and the ready list holds exactly the ready processes, each once, in descending order of
  the keys they were inserted with.\<close>

theorem one_running:
  assumes "reachable initret devtab s"
  shows "{p. pid_ok p \<and> prstate (proctab s p) = PR_CURR} = {currpid s} \<and>
    set (rdy s) = {p. pid_ok p \<and> prstate (proctab s p) = PR_READY} \<and> distinct (rdy s) \<and>
    sorted_wrt (\<lambda>p q. qkey (queuetab s p) \<ge> qkey (queuetab s q)) (rdy s)"
proof -
  note I = reachable_kinv[OF assms]
  note Q = kqD[OF kinvD(1)[OF I]]
  have "prstate (proctab s (currpid s)) = PR_CURR" using kinvD(2)[OF I] by (simp add: eligible_def)
  then show ?thesis using ready_list[OF I] Q(7,8) by blast
qed

theorem one_running_witness:
  "reachable 0 dev0 sem0 \<and> {p. pid_ok p \<and> prstate (proctab sem0 p) = PR_CURR} = {currpid sem0} \<and> distinct (rdy sem0)"
  using one_running[OF sem0_facts(2)] sem0_facts(2) by blast

text \<open>C6: semaphore accounting. In every reachable state the queue of a semaphore in use holds exactly the
  processes that wait on it, and their number is the amount by which its count is negative.\<close>

theorem semaphore_accounting:
  assumes "reachable initret devtab s" "sem_ok k" "sstate (semtab s k) = S_USED"
  shows "set (semq s k) = {p. pid_ok p \<and> prstate (proctab s p) = PR_WAIT \<and> prsem (proctab s p) = k} \<and>
    distinct (semq s k) \<and> int (length (semq s k)) = max 0 (- scount (semtab s k))"
proof -
  note I = reachable_kinv[OF assms(1)]
  show ?thesis using waiters[OF I assms(2)] sem_count(1)[OF I assms(2,3)] by blast
qed

theorem semaphore_accounting_witness:
  "\<exists>k. sem_ok k \<and> sstate (semtab sem0 k) = S_USED \<and>
    set (semq sem0 k) = {p. pid_ok p \<and> prstate (proctab sem0 p) = PR_WAIT \<and> prsem (proctab sem0 p) = k} \<and>
    int (length (semq sem0 k)) = max 0 (- scount (semtab sem0 k))"
  using semaphore_accounting[OF sem0_facts(2)] sem0_facts(3) by blast

text \<open>C7: system start. From the image the boot loader leaves, \<open>sysinit\<close> runs to its end and establishes
  the invariant. Before the device loop (\<open>sysinit_kernel\<close>) the null process runs on the top of memory, no
  semaphore is in use, and one free block reaches from the end of the image to the null process's stack; then the
  loop runs every device's initialisation routine in order. The routines are parameters: each of those the loop
  comes to must return and keep the invariant. The witness has the console's \<open>ttyinit\<close>, which takes two semaphores.\<close>

theorem sysinit_establishes_invariant:
  assumes "loaded end_addr s" "unat end_addr + 8192 < unat (0xA0000000 :: uint32)"
    and "\<And>n s1 t. n < nat NDEVS \<Longrightarrow> sysinit_kernel end_addr s = Some s1 \<Longrightarrow> init_devs devtab n s1 = Some t \<Longrightarrow> kinv t \<Longrightarrow>
      \<exists>r t'. dvinit (devtab (int n)) t = Some (r, t') \<and> kinv t'"
  shows "\<exists>s1 s'. sysinit_kernel end_addr s = Some s1 \<and> kinv s1 \<and> currpid s1 = 0 \<and>
    prstkbase (proctab s1 0) = 0xA0000000 - 4 \<and> (\<forall>k. sem_ok k \<longrightarrow> sstate (semtab s1 k) = S_FREE) \<and>
    heap_is (memlist s1) (minheap s1) (maxheap s1) (mem s1) [(end_addr, 0xA0000000 - end_addr - 8192)] \<and>
    sysinit devtab end_addr s = Some s' \<and> init_devs devtab (nat NDEVS) s1 = Some s' \<and> kinv s'"
proof -
  from sysinit_kernel_booted[OF assms(1,2)] obtain s1 where s1: "sysinit_kernel end_addr s = Some s1" "booted s1"
    "prstkbase (proctab s1 0) = 0xA0000000 - 4"
    "heap_rep (memlist s1) (unat (minheap s1)) (unat (maxheap s1)) (mem s1) [(end_addr, 0xA0000000 - end_addr - 8192)]" by blast
  have K: "kinv s1" using s1(2) by (rule booted_inv)
  obtain s' where s': "init_devs devtab (nat NDEVS) s1 = Some s'" "kinv s'"
    using init_devs_inv[of kinv s1 "nat NDEVS" devtab, OF K _ order_refl] assms(3)[OF _ s1(1)] by blast
  then have "sysinit devtab end_addr s = Some s'" by (simp add: sysinit_def s1(1) del: init_devs.simps)
  then show ?thesis using s1 s' K unfolding heap_is_def booted_def by blast
qed

theorem sysinit_establishes_invariant_witness:
  "loaded end0 uimage0 \<and> dvinit (udev0 0) = ttyinit 72 0x80001000 \<and>
    (\<exists>s'. sysinit udev0 end0 uimage0 = Some s' \<and> kinv s') \<and> init_devs udev0 1 uboot0 = Some con0"
proof -
  have "\<exists>r t'. dvinit (udev0 (int n)) t = Some (r, t') \<and> kinv t'"
    if "n < nat NDEVS" "sysinit_kernel end0 uimage0 = Some s1" "init_devs udev0 n s1 = Some t" "kinv t" for n s1 t
    using udev0_inits[OF that(1)] that(2-4) uboot0_run by (simp del: init_devs.simps)
  then have "\<exists>s'. sysinit udev0 end0 uimage0 = Some s' \<and> kinv s'"
    using sysinit_establishes_invariant[OF loaded_uimage0 end0_small, of udev0] by blast
  then show ?thesis using loaded_uimage0 udev0_con0 by (simp add: udev0_def del: init_devs.simps)
qed

section \<open>Scheduling and semaphores\<close>

text \<open>C8: \<open>resched\<close> refines the scheduling policy. With rescheduling allowed it leaves exactly the current
  process and ready list that \<open>sched_pick\<close> names (an eligible process keeps the processor only while
  its priority is above the first key; it goes behind equal keys), whatever the links in \<open>queuetab\<close> are.\<close>

theorem resched_refines_pick:
  assumes "kq {} s" "ndefers s \<le> 0"
  shows "\<exists>s'. resched s = Some s' \<and> (currpid s', rdy s') = sched_pick s \<and>
    prstate (proctab s' (currpid s')) = PR_CURR \<and> kq {} s' \<and> semtab s' = semtab s"
  using resched_rep[OF assms] unfolding kframe_def eligible_def by blast

theorem resched_refines_pick_witness:
  "kq {} user0 \<and> (\<exists>s'. resched user0 = Some s' \<and> (currpid s', rdy s') = (1, [0]) \<and> prstate (proctab s' 1) = PR_CURR)"
proof -
  have p: "sched_pick user0 = (1, [0])"
    using user0_queues(3,4) by (simp add: sched_pick_def eligible_def user0_fields setup0_fields)
  have "kq {} user0" "ndefers user0 \<le> 0" by (simp_all add: user0_queues(2) user0_fields)
  then show ?thesis using resched_refines_pick[of user0] unfolding p by auto
qed

text \<open>C9: \<open>wait\<close>. The count goes down by one. A positive count lets the caller go on; otherwise it is queued
  behind the processes that wait already and the first ready process runs.\<close>

theorem wait_spec:
  assumes "kinv s" "sem_ok k" "sstate (semtab s k) = S_USED" "currpid s \<noteq> NULLPROC"
  shows "\<exists>s'. wait k s = Some (OK, s') \<and> kinv s' \<and> scount (semtab s' k) = scount (semtab s k) - 1 \<and>
    (if scount (semtab s k) > 0 then semq s' k = semq s k \<and> currpid s' = currpid s \<and> rdy s' = rdy s
     else semq s' k = semq s k @ [currpid s] \<and> prstate (proctab s' (currpid s)) = PR_WAIT \<and>
       currpid s' = hd (rdy s) \<and> rdy s' = tl (rdy s))"
proof (cases "scount (semtab s k) > 0")
  case True
  then show ?thesis using wait_free[OF assms(1-3)] by auto
next
  case False
  then show ?thesis using wait_block[OF assms(1-3) _ assms(4)] by auto
qed

theorem wait_spec_witness:
  "kinv user0 \<and> (\<exists>s'. wait 0 user0 = Some (OK, s') \<and> scount (semtab s' 0) = - 1 \<and> semq s' 0 = [1] \<and> currpid s' = 0)"
proof -
  have "sem_ok 0" "sstate (semtab user0 0) = S_USED" "currpid user0 \<noteq> NULLPROC" by (simp_all add: user0_fields setup0_fields)
  from wait_spec[OF user0_inv this] show ?thesis
    using user0_inv user0_lists(2)[of 0] user0_queues(3) by (auto simp: user0_fields setup0_fields)
qed

text \<open>C10: \<open>signal\<close>. The count goes up by one and the process that has waited longest, if there is one,
  leaves the queue and can run.\<close>

theorem signal_spec:
  assumes "kinv s" "sem_ok k" "sstate (semtab s k) = S_USED" "scount (semtab s k) < 2 ^ 31 - 1"
  shows "\<exists>s'. signal k s = Some (OK, s') \<and> kinv s' \<and> scount (semtab s' k) = scount (semtab s k) + 1 \<and>
    semq s' k = drop 1 (semq s k) \<and> (\<forall>p \<in> set (take 1 (semq s k)). runnable (prstate (proctab s' p)))"
  using assms by (rule signal_inv)

theorem signal_spec_witness:
  "kinv wait0 \<and> semq wait0 0 = [1] \<and>
    (\<exists>s'. signal 0 wait0 = Some (OK, s') \<and> semq s' 0 = [] \<and> scount (semtab s' 0) = 0 \<and> runnable (prstate (proctab s' 1)))"
proof -
  have "sem_ok 0" "scount (semtab wait0 0) < 2 ^ 31 - 1" using wait0_facts by simp_all
  from signal_spec[OF wait0_facts(1) this(1) wait0_facts(4) this(2)] show ?thesis using wait0_facts by auto
qed

text \<open>\<open>signaln\<close> is \<open>n\<close> signals at once: the first \<open>n\<close> waiting processes, or all of them, leave the queue.\<close>

theorem signaln_spec:
  assumes "kinv s" "sem_ok k" "sstate (semtab s k) = S_USED" "0 \<le> n" "scount (semtab s k) + n < 2 ^ 31"
  shows "\<exists>s'. signaln k n s = Some (OK, s') \<and> kinv s' \<and> scount (semtab s' k) = scount (semtab s k) + n \<and>
    semq s' k = drop (nat n) (semq s k) \<and> (\<forall>p \<in> set (take (nat n) (semq s k)). runnable (prstate (proctab s' p)))"
  using assms by (rule signaln_inv)

theorem signaln_spec_witness:
  "kinv wait0 \<and> (\<exists>s'. signaln 0 3 wait0 = Some (OK, s') \<and> semq s' 0 = [] \<and> scount (semtab s' 0) = 2 \<and>
    runnable (prstate (proctab s' 1)))"
proof -
  have "sem_ok 0" "(0 :: int) \<le> 3" "scount (semtab wait0 0) + 3 < 2 ^ 31" using wait0_facts by simp_all
  from signaln_spec[OF wait0_facts(1) this(1) wait0_facts(4) this(2,3)] show ?thesis using wait0_facts by auto
qed

text \<open>\<open>semreset\<close> sets the count and releases every process that waits.\<close>

theorem semreset_spec:
  assumes "kinv s" "sem_ok k" "sstate (semtab s k) = S_USED" "0 \<le> n" "n < 2 ^ 31"
  shows "\<exists>s'. semreset k n s = Some (OK, s') \<and> kinv s' \<and> scount (semtab s' k) = n \<and>
    semq s' k = [] \<and> (\<forall>p \<in> set (semq s k). runnable (prstate (proctab s' p)))"
  using assms by (rule semreset_inv)

theorem semreset_spec_witness:
  "kinv wait0 \<and> (\<exists>s'. semreset 0 7 wait0 = Some (OK, s') \<and> semq s' 0 = [] \<and> scount (semtab s' 0) = 7 \<and>
    runnable (prstate (proctab s' 1)))"
proof -
  have "sem_ok 0" "(0 :: int) \<le> 7" "(7 :: int) < 2 ^ 31" by simp_all
  from semreset_spec[OF wait0_facts(1) this(1) wait0_facts(4) this(2,3)] show ?thesis using wait0_facts by auto
qed

text \<open>\<open>semdelete\<close> frees the semaphore and releases every process that waits, so no process is left
  on the queue of a semaphore that is not in use.\<close>

theorem semdelete_spec:
  assumes "kinv s" "sem_ok k" "sstate (semtab s k) = S_USED"
  shows "\<exists>s'. semdelete k s = Some (OK, s') \<and> kinv s' \<and> sstate (semtab s' k) = S_FREE \<and>
    semq s' k = [] \<and> (\<forall>p \<in> set (semq s k). runnable (prstate (proctab s' p)))"
  using assms by (rule semdelete_inv)

theorem semdelete_spec_witness:
  "kinv wait0 \<and> (\<exists>s'. semdelete 0 wait0 = Some (OK, s') \<and> sstate (semtab s' 0) = S_FREE \<and> semq s' 0 = [] \<and>
    runnable (prstate (proctab s' 1)))"
proof -
  have "sem_ok 0" by simp
  from semdelete_spec[OF wait0_facts(1) this wait0_facts(4)] show ?thesis using wait0_facts by auto
qed

text \<open>\<open>semcreate\<close> allocates a free semaphore when there is one, wherever the search starts, gives it the
  count and leaves the others alone; with none free it reports the error and changes no semaphore.\<close>

theorem semcreate_spec:
  assumes "kinv s" "0 \<le> n" "n < 2 ^ 31"
  shows "\<exists>r s'. semcreate n s = Some (r, s') \<and> kinv s' \<and>
    (if \<exists>k. sem_ok k \<and> sstate (semtab s k) = S_FREE
     then sem_ok r \<and> sstate (semtab s r) = S_FREE \<and> sstate (semtab s' r) = S_USED \<and>
       scount (semtab s' r) = n \<and> semq s' r = [] \<and> (\<forall>j. j \<noteq> r \<longrightarrow> semtab s' j = semtab s j)
     else r = SYSERR \<and> semtab s' = semtab s)"
  using assms by (rule semcreate_inv)

theorem semcreate_spec_witness:
  "kinv user0 \<and> sstate (semtab user0 0) = S_USED \<and>
    (\<exists>r s'. semcreate 5 user0 = Some (r, s') \<and> kinv s' \<and> sem_ok r \<and> r \<noteq> 0 \<and> scount (semtab s' r) = 5)"
proof -
  have u: "sem_ok 1 \<and> sstate (semtab user0 1) = S_FREE" "sstate (semtab user0 0) = S_USED" by (simp_all add: user0_fields setup0_fields)
  then have free: "\<exists>k. sem_ok k \<and> sstate (semtab user0 k) = S_FREE" by blast
  have n: "(0 :: int) \<le> 5" "(5 :: int) < 2 ^ 31" by simp_all
  obtain r s' where "semcreate 5 user0 = Some (r, s')" "kinv s'" "sem_ok r" "sstate (semtab user0 r) = S_FREE" "scount (semtab s' r) = 5"
    using semcreate_spec[OF user0_inv n, unfolded if_P[OF free]] by blast
  then show ?thesis using user0_inv u(2) by auto
qed

text \<open>Semaphore errors. On a semaphore that is out of the table or not in use, every call reports
  \<^verbatim>\<open>SYSERR\<close> and leaves the state as it was.\<close>

theorem sem_errors:
  assumes "\<not> (sem_ok k \<and> sstate (semtab s k) = S_USED)"
  shows "wait k s = Some (SYSERR, s) \<and> signal k s = Some (SYSERR, s) \<and> signaln k n s = Some (SYSERR, s) \<and>
    semdelete k s = Some (SYSERR, s) \<and> semreset k n s = Some (SYSERR, s) \<and> semcount k s = SYSERR"
  using sem_call_error[OF assms] by blast

theorem sem_errors_witness:
  "sstate (semtab user0 1) = S_FREE \<and> wait 1 user0 = Some (SYSERR, user0) \<and> signaln 1 4 user0 = Some (SYSERR, user0)"
proof -
  have "sstate (semtab user0 1) = S_FREE" by (simp add: user0_fields setup0_fields)
  then show ?thesis using sem_errors[of 1 user0 4] by simp
qed

section \<open>Memory and queues\<close>

text \<open>C11: the allocator refines a list of free blocks. Any sequence of \<open>getmem\<close>, \<open>getstk\<close> and \<open>freemem\<close>
  calls that the specification defines (first fit from the low end, last fit from the high end for stacks,
  freed blocks joined with their neighbours) runs on the linked blocks in memory without a bad access and
  gives the same replies, the error replies included.\<close>

theorem heap_history:
  assumes "heap_is ml mn mx m xs" "run (mem_spec mn mx) cs xs = Some (rs, ys)"
  shows "\<exists>m'. run (mem_step ml mn mx) cs m = Some (rs, m') \<and> heap_is ml mn mx m' ys"
  using assms by (rule heap.run_sim)

theorem heap_history_witness:
  "heap_is 0x1000 0x2000 0x10000 heap0 [(0x2000, 0xE000)] \<and>
   (\<exists>m'. run (mem_step 0x1000 0x2000 0x10000)
      [mem_call.Getmem 10, mem_call.Getstk 100, mem_call.Getmem 0, mem_call.Freemem 0x2000 10, mem_call.Freemem 0x2000 10] heap0 =
      Some ([Addr 0x2000, Addr 0xFFFC, Addr SYSERR_ptr, Code OK, Code SYSERR], m') \<and>
      heap_is 0x1000 0x2000 0x10000 m' [(0x2000, 0xDF98)])"
proof -
  have h: "heap_is 0x1000 0x2000 0x10000 heap0 [(0x2000, 0xE000)]" using heap0_rep by (simp add: heap_is_def)
  have "run (mem_spec 0x2000 0x10000)
      [mem_call.Getmem 10, mem_call.Getstk 100, mem_call.Getmem 0, mem_call.Freemem 0x2000 10, mem_call.Freemem 0x2000 10] [(0x2000, 0xE000)] =
      Some ([Addr 0x2000, Addr 0xFFFC, Addr SYSERR_ptr, Code OK, Code SYSERR], [(0x2000, 0xDF98)])"
    by (simp add: small_def roundmb_def lf_alloc_def fl_free_def fl_below_def fl_above_def join_next_def)
  from heap_history[OF h this] show ?thesis using h by blast
qed

text \<open>Allocated memory. A block that \<open>getmem\<close> returns is aligned to eight bytes, lies inside the heap
  and was free before; it is exactly what the free memory loses, and nothing outside the free memory and the
  list head is written.\<close>

theorem getmem_block:
  assumes "heap_is ml mn mx m xs" "n \<noteq> 0" "unat n + 7 < 2 ^ 32" "getmem ml n m = Some (a, m')" "a \<noteq> SYSERR_ptr"
  shows "\<exists>ys. heap_is ml mn mx m' ys \<and> 8 dvd unat a \<and> unat mn \<le> unat a \<and> unat a + unat (roundmb n) \<le> unat mx \<and>
    {unat a..<unat a + unat (roundmb n)} \<subseteq> free_bytes xs \<and>
    free_bytes ys = free_bytes xs - {unat a..<unat a + unat (roundmb n)} \<and>
    (\<forall>b. b \<noteq> ml \<longrightarrow> b \<noteq> ml + 4 \<longrightarrow> unat b \<notin> free_bytes xs \<longrightarrow> m' b = m b)"
  using getmem_gives[OF assms(1,2) _ assms(4,5)] assms(3) by (simp add: small_def)

theorem getmem_block_witness:
  "\<exists>m' ys. getmem 0x1000 10 heap0 = Some (0x2000, m') \<and> heap_is 0x1000 0x2000 0x10000 m' ys \<and>
    free_bytes ys = {0x2000..<0x10000} - {0x2000..<0x2010}"
proof -
  have h: "heap_is 0x1000 0x2000 0x10000 heap0 [(0x2000, 0xE000)]" using heap0_rep by (simp add: heap_is_def)
  obtain m' where m': "getmem 0x1000 10 heap0 = Some (0x2000, m')" using getmem0 by blast
  from getmem_block[OF h _ _ m'] show ?thesis using m' by (auto simp: roundmb_def)
qed

text \<open>C12: getting and giving back. Freeing a block just allocated succeeds and makes the same bytes free
  again; freeing it a second time is refused and changes nothing.\<close>

theorem getmem_freemem_roundtrip:
  assumes "heap_is ml mn mx m xs" "n \<noteq> 0" "unat n + 7 < 2 ^ 32" "getmem ml n m = Some (a, m1)" "a \<noteq> SYSERR_ptr"
  shows "\<exists>m2 ys. freemem ml mn mx a n m1 = Some (OK, m2) \<and> heap_is ml mn mx m2 ys \<and> free_bytes ys = free_bytes xs \<and>
    freemem ml mn mx a n m2 = Some (SYSERR, m2)"
  using getmem_freemem[OF assms(1,2) _ assms(4,5)] assms(3) by (simp add: small_def)

theorem getmem_freemem_roundtrip_witness:
  "\<exists>m1 m2. getmem 0x1000 10 heap0 = Some (0x2000, m1) \<and> freemem 0x1000 0x2000 0x10000 0x2000 10 m1 = Some (OK, m2) \<and>
    freemem 0x1000 0x2000 0x10000 0x2000 10 m2 = Some (SYSERR, m2)"
proof -
  have h: "heap_is 0x1000 0x2000 0x10000 heap0 [(0x2000, 0xE000)]" using heap0_rep by (simp add: heap_is_def)
  obtain m' where m': "getmem 0x1000 10 heap0 = Some (0x2000, m')" using getmem0 by blast
  from getmem_freemem_roundtrip[OF h _ _ m'] show ?thesis using m' by auto
qed

text \<open>C13: the queue table refines process lists. Any sequence of \<open>enqueue\<close>, \<open>insert\<close>, \<open>dequeue\<close>,
  \<open>getfirst\<close>, \<open>getlast\<close> and \<open>getitem\<close> calls that the specification defines runs on the linked entries and
  gives the same replies; the other queues stay as they are.\<close>

theorem queue_history:
  assumes "queues_are n t A" "run (queue_spec n) cs A = Some (rs, A')"
  shows "\<exists>t'. run queue_step cs t = Some (rs, t') \<and> queues_are n t' A'"
  using assms by (rule queues.run_sim)

theorem queue_history_witness:
  "queues_are NQENT (queuetab boot0) (\<lambda>_. [], \<lambda>i. qkey (queuetab boot0 i)) \<and>
   (\<exists>t'. run queue_step [Insert 3 300 7, Insert 4 300 9, Enqueue 5 100, Dequeue 300, Getitem 5 100, Getlast 300, Dequeue 300]
      (queuetab boot0) = Some ([OK, OK, 5, 4, 5, 3, EMPTY], t'))"
proof -
  have q: "queues_are NQENT (queuetab boot0) (\<lambda>_. [], \<lambda>i. qkey (queuetab boot0 i))"
    using boot0_booted(2) by (simp add: queues_are_def booted_def)
  have "\<exists>A. run (queue_spec NQENT) [Insert 3 300 7, Insert 4 300 9, Enqueue 5 100, Dequeue 300, Getitem 5 100, Getlast 300, Dequeue 300]
      (\<lambda>_. [], \<lambda>i. qkey (queuetab boot0 i)) = Some ([OK, OK, 5, 4, 5, 3, EMPTY], A)"
    by (simp add: qid_ok_def free_pid_def queued_def by_key_def)
  then show ?thesis using queue_history[OF q] q by blast
qed

text \<open>Queues are first-in first-out. Enqueueing processes and dequeueing as often gives the same
  processes in the same order.\<close>

theorem queue_fifo:
  assumes "queues_are n t (Q, f)" "qid_ok n q" "Q q = []" "distinct ps" "set ps \<subseteq> {0..<NPROC}" "set ps \<inter> queued n Q = {}"
  shows "\<exists>t1 t2. run queue_step (map (\<lambda>p. Enqueue p q) ps) t = Some (ps, t1) \<and>
    run queue_step (map (\<lambda>_. Dequeue q) ps) t1 = Some (ps, t2) \<and> queues_are n t2 (Q, f)"
proof -
  obtain t1 where t1: "run queue_step (map (\<lambda>p. Enqueue p q) ps) t = Some (ps, t1)" "queues_are n t1 (Q(q := ps), f)"
    using queues.run_sim[OF assms(1)] spec_enqueues[OF assms(2,4,5,6), of f] assms(3) by fastforce
  have "run (queue_spec n) (map (\<lambda>_. Dequeue q) ps) (Q(q := ps), f) = Some (ps, (Q(q := ps))(q := []), f)"
    by (rule spec_dequeues) (use assms(2) in simp_all)
  moreover have "(Q(q := ps))(q := []) = Q" using assms(3) by auto
  ultimately show ?thesis using queues.run_sim[OF t1(2)] t1(1) by fastforce
qed

theorem queue_fifo_witness:
  "\<exists>t1 t2. run queue_step [Enqueue 4 300, Enqueue 2 300, Enqueue 9 300] (queuetab boot0) = Some ([4, 2, 9], t1) \<and>
    run queue_step [Dequeue 300, Dequeue 300, Dequeue 300] t1 = Some ([4, 2, 9], t2)"
proof -
  have q: "queues_are NQENT (queuetab boot0) (\<lambda>_. [], \<lambda>i. qkey (queuetab boot0 i))"
    using boot0_booted(2) by (simp add: queues_are_def booted_def)
  have "qid_ok NQENT 300" "distinct [4, 2, 9 :: int]" "set [4, 2, 9] \<subseteq> {0..<NPROC}" "set [4, 2, 9] \<inter> queued NQENT (\<lambda>_. []) = {}"
    by (simp_all add: qid_ok_def queued_def)
  from queue_fifo[OF q this(1) refl this(2-4)] show ?thesis by auto
qed

section \<open>Time, messages and processes\<close>

text \<open>\<open>sleepms\<close>. The caller becomes due after the given number of ticks, behind the processes due no
  later, and every other sleeping process stays due when it was: the differences the queue stores are right.
  The first ready process runs.\<close>

theorem sleepms_due:
  assumes "kinv s" "currpid s \<noteq> NULLPROC" "0 < sint d" "delays (deltas (queuetab s) (slp s))"
  shows "\<exists>s'. sleepms d s = Some (OK, s') \<and> kinv s' \<and> prstate (proctab s' (currpid s)) = PR_SLEEP \<and>
    (let ts = due 0 (deltas (queuetab s) (slp s)) in
     due 0 (deltas (queuetab s') (slp s')) =
       takeWhile (\<lambda>(q, t). t \<le> sint d) ts @ (currpid s, sint d) # dropWhile (\<lambda>(q, t). t \<le> sint d) ts) \<and>
    currpid s' = hd (rdy s) \<and> rdy s' = tl (rdy s)"
proof -
  have d: "d \<noteq> 0" "sint d < 2 ^ 31" using assms(3) sint_lt[of d] by auto
  show ?thesis
    using sleepms_inv[OF assms(1,2) d(1)] delta_insert_due(1)[OF assms(4), of "sint d" 0 "currpid s"] assms(3) d(2)
    by (auto simp: Let_def)
qed

theorem sleepms_due_witness:
  "kinv user0 \<and> (\<exists>s'. sleepms 5 user0 = Some (OK, s') \<and> due 0 (deltas (queuetab s') (slp s')) = [(1, 5)] \<and> currpid s' = 0)"
proof -
  have "currpid user0 \<noteq> NULLPROC" "0 < sint (5 :: uint32)" "delays (deltas (queuetab user0) (slp user0))"
    using user0_lists(1) by (simp_all add: user0_fields deltas_def delays_def)
  from sleepms_due[OF user0_inv this] show ?thesis
    using user0_inv user0_lists(1) user0_queues(3) by (auto simp: user0_fields deltas_def)
qed

text \<open>C14: the clock. At each overflow interrupt every sleeping process is due one tick sooner, those that
  become due, and only those, leave the sleep queue, and they can run.\<close>

theorem clock_tick:
  assumes "kinv s" "delays (deltas (queuetab s) (slp s))"
    and pos: "\<And>p d ys. deltas (queuetab s) (slp s) = (p, d) # ys \<Longrightarrow> 0 < d"
  shows "\<exists>r s'. clkhandler True s = Some (r, s') \<and> kinv s' \<and>
    due 0 (deltas (queuetab s') (slp s')) =
      filter (\<lambda>(q, t). 0 < t) (map (\<lambda>(q, t). (q, t - 1)) (due 0 (deltas (queuetab s) (slp s)))) \<and>
    (\<forall>p \<in> set (slp s) - set (slp s'). runnable (prstate (proctab s' p)))"
proof -
  obtain r s' where s': "clkhandler True s = Some (r, s')" "kinv s'"
    "deltas (queuetab s') (slp s') = tick (deltas (queuetab s) (slp s))"
    "\<forall>p \<in> set (slp s) - set (slp s'). runnable (prstate (proctab s' p))" using clkhandler_inv[OF assms(1)] by blast
  have "due 0 (deltas (queuetab s') (slp s')) =
      filter (\<lambda>(q, t). 0 < t) (map (\<lambda>(q, t). (q, t - 1)) (due 0 (deltas (queuetab s) (slp s))))"
    unfolding s'(3) by (rule tick_due[OF assms(2) pos])
  then show ?thesis using s' by blast
qed

theorem clock_tick_witness:
  "kinv sleep0 \<and> due 0 (deltas (queuetab sleep0) (slp sleep0)) = [(1, 5)] \<and>
    (\<exists>r s'. clkhandler True sleep0 = Some (r, s') \<and> due 0 (deltas (queuetab s') (slp s')) = [(1, 4)])"
proof -
  note F = sleep0_facts
  have "delays (deltas (queuetab sleep0) (slp sleep0))" unfolding F(2) by (simp add: delays_def)
  moreover have "0 < d" if "deltas (queuetab sleep0) (slp sleep0) = (p, d) # ys" for p d ys using that unfolding F(2) by simp
  ultimately obtain r s' where "clkhandler True sleep0 = Some (r, s')" "due 0 (deltas (queuetab s') (slp s')) =
      filter (\<lambda>(q, t). 0 < t) (map (\<lambda>(q, t). (q, t - 1)) (due 0 (deltas (queuetab sleep0) (slp sleep0))))"
    using clock_tick[OF F(1)] by blast
  then show ?thesis using F(1) unfolding F(2) by simp
qed

text \<open>C15: \<open>send\<close>. A process without a message gets it; one that waits for a message, with or without a
  time limit, can run afterwards, any other keeps its state. A process that is not there or has a message
  already is not touched and the sender gets \<^verbatim>\<open>SYSERR\<close>.\<close>

theorem send_spec:
  assumes "kinv s" "pid_ok p"
  shows "\<exists>r s'. send p m s = Some (r, s') \<and> kinv s' \<and>
    (if prstate (proctab s p) = PR_FREE \<or> prhasmsg (proctab s p) then r = SYSERR \<and> s' = s
     else r = OK \<and> prmsg (proctab s' p) = m \<and> prhasmsg (proctab s' p) \<and>
       (if prstate (proctab s p) \<in> {PR_RECV, PR_RECTIM} then runnable (prstate (proctab s' p))
        else prstate (proctab s' p) = prstate (proctab s p)))"
proof -
  let ?e = "proctab s p"
  consider "prstate ?e = PR_FREE \<or> prhasmsg ?e" | "\<not> prhasmsg ?e" "prstate ?e \<in> {PR_RECV, PR_RECTIM}" |
    "\<not> prhasmsg ?e" "prstate ?e \<notin> {PR_FREE, PR_RECV, PR_RECTIM}" by blast
  then show ?thesis
  proof cases
    case 1
    then have "send p m s = Some (SYSERR, s)" using assms(2) by (intro send_error) (auto simp: isbadpid_def)
    then show ?thesis using 1 assms(1) by simp
  next
    case 2
    then show ?thesis using send_release[OF assms, of m] by auto
  next
    case 3
    then show ?thesis using send_store[OF assms 3(2,1), of m] by auto
  qed
qed

theorem send_spec_witness:
  "kinv recv0 \<and> prstate (proctab recv0 1) = PR_RECV \<and>
    (\<exists>s'. send 1 99 recv0 = Some (OK, s') \<and> prmsg (proctab s' 1) = 99 \<and> runnable (prstate (proctab s' 1)))"
proof -
  have p: "pid_ok 1" by simp
  have "\<not> prhasmsg (proctab recv0 1)" using kinvD(5)[OF recv0_facts(1)] recv0_facts(2) by (simp add: kmsg_def msg_inv_def)
  then show ?thesis using send_spec[OF recv0_facts(1) p, of 99] recv0_facts(1,2) by auto
qed

text \<open>\<open>receive\<close>. A waiting message is returned and taken away; without one the caller waits and the first
  ready process runs. When the caller is switched back to, it has a message, and the rest of the call returns it.\<close>

theorem receive_spec:
  assumes "kinv s" "currpid s \<noteq> NULLPROC" "pkont s (currpid s) = None"
  shows "if prhasmsg (proctab s (currpid s))
    then \<exists>s'. receive s = Some (Done (prmsg (proctab s (currpid s))), s') \<and> kinv s' \<and> \<not> prhasmsg (proctab s' (currpid s))
    else \<exists>s'. receive s = Some (Pending, s') \<and> kinv s' \<and> prstate (proctab s' (currpid s)) = PR_RECV \<and>
      currpid s' = hd (rdy s) \<and>
      (\<forall>t. kinv t \<longrightarrow> pkont t (currpid t) = pkont s' (currpid s) \<longrightarrow> prhasmsg (proctab t (currpid t)) \<and>
         (\<exists>t'. receive_rest (t\<lparr>pkont := (pkont t)(currpid t := None)\<rparr>) = Some (prmsg (proctab t (currpid t)), t') \<and> kinv t'))"
proof (cases "prhasmsg (proctab s (currpid s))")
  case True
  then show ?thesis using receive_now[OF assms(1,3)] by auto
next
  case False
  obtain s' where s': "receive s = Some (Pending, s')" "kinv s'" "prstate (proctab s' (currpid s)) = PR_RECV"
    "pkont s' (currpid s) = Some K_receive" "currpid s' = hd (rdy s)" using receive_block[OF assms(1,2) False] by blast
  have "\<forall>t. kinv t \<longrightarrow> pkont t (currpid t) = pkont s' (currpid s) \<longrightarrow> prhasmsg (proctab t (currpid t)) \<and>
      (\<exists>t'. receive_rest (t\<lparr>pkont := (pkont t)(currpid t := None)\<rparr>) = Some (prmsg (proctab t (currpid t)), t') \<and> kinv t')"
  proof (intro allI impI)
    fix t
    assume t: "kinv t" "pkont t (currpid t) = pkont s' (currpid s)"
    note t' = t(1) t(2)[unfolded s'(4)]
    let ?t = "t\<lparr>pkont := (pkont t)(currpid t := None)\<rparr>"
    have "kinv ?t" by (rule pend_inv[OF t(1)]) simp_all
    then show "prhasmsg (proctab t (currpid t)) \<and>
      (\<exists>t'. receive_rest (t\<lparr>pkont := (pkont t)(currpid t := None)\<rparr>) = Some (prmsg (proctab t (currpid t)), t') \<and> kinv t')"
      using receive_rest_inv[of ?t] pending_receive[OF t'] by auto
  qed
  then show ?thesis unfolding if_not_P[OF False] using s'(1-3,5) by (intro exI[of _ s'] conjI)
qed

theorem receive_spec_witness:
  "kinv user0 \<and> \<not> prhasmsg (proctab user0 1) \<and>
    (\<exists>s'. receive user0 = Some (Pending, s') \<and> kinv s' \<and> prstate (proctab s' 1) = PR_RECV \<and> currpid s' = 0)"
proof -
  have "currpid user0 \<noteq> NULLPROC" "pkont user0 (currpid user0) = None" "\<not> prhasmsg (proctab user0 (currpid user0))"
    "currpid user0 = 1" by (simp_all add: user0_fields setup0_fields)
  note A = this
  have "\<exists>s'. receive user0 = Some (Pending, s') \<and> kinv s' \<and> prstate (proctab s' (currpid user0)) = PR_RECV \<and>
      currpid s' = hd (rdy user0)"
    using receive_spec[OF user0_inv A(1,2), unfolded if_not_P[OF A(3)]] by blast
  then show ?thesis using user0_inv user0_queues(3) A(3) unfolding A(4) by simp
qed

text \<open>C16: \<open>create\<close>. With a priority of at least one, a free slot and a free block large enough for the stack, a
  new suspended process gets a free slot; when it is first switched to, \<open>ctxsw\<close> finds the
  entry point, the first four arguments and \<open>initret\<close> in its registers, and the further arguments are on its stack.
  Nothing else in the process table changes.\<close>

theorem create_spec:
  assumes "kinv s" "prio_ok prio" "unat ssize + 10 < 2 ^ 32"
    and "4 * (16 + length (drop 4 args)) \<le> unat (roundmb (stack_size ssize))"
    and "1 \<le> prio" "pid_ok p" "prstate (proctab s p) = PR_FREE"
    and "heap_of s xs" "(b, l) \<in> set xs" "roundmb (stack_size ssize) \<le> l"
  shows "\<exists>r s' sa sp. create initret procaddr ssize prio name args s = Some (r, s') \<and> kinv s' \<and>
    pid_ok r \<and> prstate (proctab s r) = PR_FREE \<and>
    proctab s' = (proctab s)(r := new_entry prio sa (stack_size ssize) name (currpid s) sp (proctab s r)) \<and>
    ctxsw_load sp (mem s') = Some (first_regs procaddr initret args (sa - of_nat (4 * length (drop 4 args)))) \<and>
    (\<forall>j. 4 + j < length args \<longrightarrow> mem s' (sa - of_nat (4 * length (drop 4 args)) + of_nat (4 * j)) = args ! (4 + j))"
proof -
  obtain r s' where R: "create initret procaddr ssize prio name args s = Some (r, s')" "kinv s'"
    "r = SYSERR \<and> proctab s' = proctab s \<and> prcount s' = prcount s \<and>
       (prio < 1 \<or> (\<forall>p. pid_ok p \<longrightarrow> prstate (proctab s p) \<noteq> PR_FREE) \<or>
        (\<exists>xs. heap_of s xs \<and> (\<forall>(b, l) \<in> set xs. l < roundmb (stack_size ssize)))) \<or>
     pid_ok r \<and> r \<noteq> NULLPROC \<and> 1 \<le> prio \<and> prstate (proctab s r) = PR_FREE \<and> prcount s' = s32 (prcount s + 1) \<and>
     (\<exists>sa sp. proctab s' = (proctab s)(r := new_entry prio sa (stack_size ssize) name (currpid s) sp (proctab s r)) \<and>
       ctxsw_load sp (mem s') =
         Some (first_regs procaddr initret args (sa - of_nat (4 * length (drop 4 args)))) \<and>
       (\<forall>j. 4 + j < length args \<longrightarrow>
         mem s' (sa - of_nat (4 * length (drop 4 args)) + of_nat (4 * j)) = args ! (4 + j)))"
    using create_inv[OF assms(1-4), of initret procaddr name] by (elim exE conjE) (rule that)
  have n3: "\<not> (\<exists>xs. heap_of s xs \<and> (\<forall>(b, l) \<in> set xs. l < roundmb (stack_size ssize)))"
  proof (rule notI)
    assume "\<exists>xs. heap_of s xs \<and> (\<forall>(b, l) \<in> set xs. l < roundmb (stack_size ssize))"
    then obtain ys where ys: "heap_of s ys" "\<forall>(b, l) \<in> set ys. l < roundmb (stack_size ssize)" by (elim exE conjE)
    have "ys = xs" by (rule heap_rep_unique[OF ys(1) assms(8)])
    then have "case (b, l) of (b, l) \<Rightarrow> l < roundmb (stack_size ssize)" using ys(2) assms(9) by (simp only:)
    then show False using assms(10) by simp
  qed
  have n1: "\<not> prio < 1" using assms(5) by simp
  have n2: "\<not> (\<forall>p. pid_ok p \<longrightarrow> prstate (proctab s p) \<noteq> PR_FREE)" using assms(6,7) by blast
  from R(3) have "pid_ok r" "prstate (proctab s r) = PR_FREE"
    "\<exists>sa sp. proctab s' = (proctab s)(r := new_entry prio sa (stack_size ssize) name (currpid s) sp (proctab s r)) \<and>
       ctxsw_load sp (mem s') =
         Some (first_regs procaddr initret args (sa - of_nat (4 * length (drop 4 args)))) \<and>
       (\<forall>j. 4 + j < length args \<longrightarrow>
         mem s' (sa - of_nat (4 * length (drop 4 args)) + of_nat (4 * j)) = args ! (4 + j))" 
    by (elim disjE conjE; (simp only: n1 n2 n3 simp_thms)?; assumption?)+
  then show ?thesis using R(1,2) by (elim exE conjE) (intro exI conjI, assumption+)
qed

theorem create_spec_witness:
  "\<exists>r s' sa sp. create 0x80000100 0x80002000 1024 20 ''worker'' [1, 2, 3, 4, 5] uboot0 = Some (r, s') \<and> kinv s' \<and> pid_ok r \<and>
    ctxsw_load sp (mem s') = Some (first_regs 0x80002000 0x80000100 [1, 2, 3, 4, 5] (sa - of_nat 4)) \<and>
    mem s' (sa - of_nat 4 + of_nat (4 * 0)) = 5"
proof -
  let ?args = "[1, 2, 3, 4, 5] :: uint32 list" and ?xs = "[(end0, 0xA0000000 - end0 - 8192)]"
  have z: "stack_size 1024 = 1024" "roundmb (1024 :: uint32) = 1024" by (simp_all add: stack_size_def roundew_def roundmb_def)
  have A: "prio_ok 20" "unat (1024 :: uint32) + 10 < 2 ^ 32" "4 * (16 + length (drop 4 ?args)) \<le> unat (roundmb (stack_size 1024))"
    "(1 :: int) \<le> 20" "pid_ok 1" by (simp_all add: prio_ok_def z)
  have B: "prstate (proctab uboot0 1) = PR_FREE" using uboot0_facts(1) by (simp add: booted_def)
  have C: "(end0, 0xA0000000 - end0 - 8192) \<in> set ?xs" "roundmb (stack_size 1024) \<le> 0xA0000000 - end0 - 8192"
    by (simp_all add: z end0_def)
  have d: "drop 4 ?args = [5]" "length ?args = 5" by simp_all
  from create_spec[OF uboot0_facts(2) A B uboot0_facts(4) C, of "0x80000100" "0x80002000" "''worker''", unfolded d]
  obtain r s' sa sp where R: "create 0x80000100 0x80002000 1024 20 ''worker'' ?args uboot0 = Some (r, s')" "kinv s'" "pid_ok r"
    "ctxsw_load sp (mem s') = Some (first_regs 0x80002000 0x80000100 ?args (sa - of_nat (4 * length [5 :: uint32])))"
    "\<forall>j. 4 + j < (5 :: nat) \<longrightarrow> mem s' (sa - of_nat (4 * length [5 :: uint32]) + of_nat (4 * j)) = ?args ! (4 + j)"
    by (elim exE conjE) (rule that[OF _ _ conjI], assumption+)
  have l: "4 * length [5 :: uint32] = 4" by simp
  have "mem s' (sa - of_nat 4 + of_nat (4 * 0)) = 5" using R(5)[unfolded l, rule_format, of 0] by simp
  then show ?thesis using R(1,2) R(3)[THEN conjunct1] R(3)[THEN conjunct2] R(4)[unfolded l] by (intro exI conjI)
qed

text \<open>C17: the second half of \<open>kill\<close>. Whatever state the victim is in (running, ready, waiting on a
  semaphore, sleeping, receiving, suspended), its entry is free afterwards and the invariant holds. It is taken off
  the queue it was on and every other process keeps its place there; a semaphore it waited on counts one waiting
  process less, and no other count changes; a victim that is not running leaves every other table entry alone, and a
  running one hands the processor to the head of the ready list. The bytes of its stack are free memory again
  (\<open>stack_freed\<close>), and no other byte is.\<close>

theorem kill_rest_spec:
  assumes "kinv s" "pid_ok p" "p \<noteq> NULLPROC" "null_console devtab"
  shows "\<exists>s'. kill_rest devtab p s = Some (if prstate (proctab s p) = PR_CURR then Pending else Done OK, s') \<and>
    kinv s' \<and> prstate (proctab s' p) = PR_FREE \<and> p \<notin> set (rdy s') \<and> p \<notin> set (slp s') \<and>
    (\<forall>k. sem_ok k \<longrightarrow> p \<notin> set (semq s' k) \<and> semq s' k = remove1 p (semq s k) \<and> sstate (semtab s' k) = sstate (semtab s k) \<and>
       scount (semtab s' k) = scount (semtab s k) + (if p \<in> set (semq s k) then 1 else 0)) \<and>
    slp s' = remove1 p (slp s) \<and>
    (if prstate (proctab s p) = PR_CURR then currpid s' = hd (rdy s) \<and> rdy s' = tl (rdy s)
     else currpid s' = currpid s \<and> rdy s' = remove1 p (rdy s) \<and> (\<forall>q. q \<noteq> p \<longrightarrow> proctab s' q = proctab s q)) \<and>
    stack_freed (proctab s p) s s'"
proof -
  obtain s' where s': "kill_rest devtab p s = Some (if prstate (proctab s p) = PR_CURR then Pending else Done OK, s')"
    "kinv s'" "prstate (proctab s' p) = PR_FREE" "off_queues p s s'" "stack_freed (proctab s p) s s'"
    using kill_rest_does[OF assms] by blast
  have "p \<notin> set (rdy s')" using ready_list(1)[OF s'(2)] s'(3) by simp
  moreover have "p \<notin> set (slp s')" using s'(2,3) by (rule free_not_asleep)
  moreover have "\<forall>k. sem_ok k \<longrightarrow> p \<notin> set (semq s' k)" using waiters(1)[OF s'(2)] s'(3) by simp
  ultimately show ?thesis using s' unfolding off_queues_def by blast
qed

theorem kill_rest_spec_witness:
  "kinv wait0 \<and> semq wait0 0 = [1] \<and> scount (semtab wait0 0) = -1 \<and>
    (\<exists>s'. kill_rest dev0 1 wait0 = Some (Done OK, s') \<and> prstate (proctab s' 1) = PR_FREE \<and> semq s' 0 = [] \<and>
       scount (semtab s' 0) = 0 \<and> stack_freed (proctab wait0 1) wait0 s')"
proof -
  have A: "pid_ok 1" "(1 :: int) \<noteq> NULLPROC" "null_console dev0" "sem_ok 0" by (simp_all add: null_console_def dev0_def)
  have n: "prstate (proctab wait0 1) \<noteq> PR_CURR" using wait0_facts by simp
  obtain s' where s': "kill_rest dev0 1 wait0 = Some (Done OK, s')" "prstate (proctab s' 1) = PR_FREE"
    "semq s' 0 = remove1 1 (semq wait0 0)"
    "scount (semtab s' 0) = scount (semtab wait0 0) + (if 1 \<in> set (semq wait0 0) then 1 else 0)"
    "stack_freed (proctab wait0 1) wait0 s'"
    using kill_rest_spec[OF wait0_facts(1) A(1-3), unfolded if_not_P[OF n]] A(4) by blast
  then show ?thesis using wait0_facts by simp
qed

text \<open>Suspending and resuming. A process that runs or is ready can be suspended: it leaves the ready list, or
  gives up the processor to the first ready process. Resuming it returns its priority and makes it able to run again.\<close>

theorem suspend_resume_roundtrip:
  assumes "kinv s" "pid_ok p" "p \<noteq> NULLPROC" "runnable (prstate (proctab s p))"
  shows "\<exists>r s1 s2. suspend p s = Some (r, s1) \<and> kinv s1 \<and> prstate (proctab s1 p) = PR_SUSP \<and>
    (if prstate (proctab s p) = PR_READY then r = Done (prprio (proctab s p)) \<and> currpid s1 = currpid s \<and> rdy s1 = remove1 p (rdy s)
     else r = Pending \<and> currpid s1 = hd (rdy s) \<and> rdy s1 = tl (rdy s)) \<and>
    resume p s1 = Some (prprio (proctab s1 p), s2) \<and> kinv s2 \<and> runnable (prstate (proctab s2 p))"
proof (cases "prstate (proctab s p) = PR_READY")
  case True
  obtain s1 where s1: "suspend p s = Some (Done (prprio (proctab s p)), s1)" "kinv s1" "prstate (proctab s1 p) = PR_SUSP"
    "rdy s1 = remove1 p (rdy s)" "currpid s1 = currpid s" using suspend_ready[OF assms(1-3) True] by blast
  then show ?thesis using True resume_inv[OF s1(2) assms(2) s1(3)] by auto
next
  case False
  then have c: "p = currpid s" using assms(2,4) kqD(8)[OF kinvD(1)[OF assms(1)]] by blast
  obtain s1 where s1: "suspend p s = Some (Pending, s1)" "kinv s1" "prstate (proctab s1 p) = PR_SUSP"
    "currpid s1 = hd (rdy s)" "rdy s1 = tl (rdy s)" using suspend_self[OF assms(1)] assms(3) unfolding c by blast
  then show ?thesis using False resume_inv[OF s1(2) assms(2) s1(3)] by auto
qed

theorem suspend_resume_roundtrip_witness:
  "\<exists>s1 s2. suspend 1 user0 = Some (Pending, s1) \<and> currpid s1 = 0 \<and> resume 1 s1 = Some (prprio (proctab s1 1), s2) \<and>
    runnable (prstate (proctab s2 1))"
proof -
  have "pid_ok 1" "(1 :: int) \<noteq> NULLPROC" "runnable (prstate (proctab user0 1))" "prstate (proctab user0 1) = PR_CURR"
    by (simp_all add: user0_fields setup0_fields)
  then show ?thesis using suspend_resume_roundtrip[OF user0_inv, of 1] user0_queues(3) by auto
qed

section \<open>Ports and buffer pools\<close>

text \<open>C18: a message port refines a bounded queue. From any consistent port table with a free entry, two free
  semaphores and \<open>n\<close> message nodes, \<open>ptcreate n\<close> makes a port on which every sequence of sends and receives
  that a queue with room for \<open>n\<close> messages defines gives that queue's replies.\<close>

theorem port_history:
  assumes "kinv s" "ports_rep s F Q" "0 \<le> n" "nat n \<le> length F" "n < 2 ^ 31 - 1" "0 \<le> ptnextid s" "ptnextid s < NPORTS"
    and "\<exists>p. \<not> isbadport p \<and> ptstate (porttab s p) = PT_FREE" "spare_sems s"
    and "run port_spec cs (nat n, []) = Some (rs, A)"
  shows "\<exists>p s1 s2. ptcreate n s = Some (p, s1) \<and> run (port_step p) cs s1 = Some (rs, s2) \<and> port_is p s2 A"
  using ptcreate_port_is[OF assms(1-9)] port.run_sim[OF _ assms(10)] by blast

theorem port_history_witness:
  "\<exists>p s1 s2. ptcreate 2 ports0 = Some (p, s1) \<and>
    run (port_step p) [port_call.Send 7, port_call.Send 8, Recv, port_call.Send 9, Recv, Recv] s1 =
      Some ([Sent OK, Sent OK, Received 7, Sent OK, Received 8, Received 9], s2)"
proof -
  have n: "(0 :: int) \<le> 2" "nat 2 \<le> length nodes0" "(2 :: int) < 2 ^ 31 - 1" "0 \<le> ptnextid ports0" "ptnextid ports0 < NPORTS"
    using ports0_facts(4,6) by simp_all
  have "run port_spec [port_call.Send 7, port_call.Send 8, Recv, port_call.Send 9, Recv, Recv] (nat 2, []) =
      Some ([Sent OK, Sent OK, Received 7, Sent OK, Received 8, Received 9], (2, []))" by simp
  from port_history[OF ports0_facts(2,3) n ports0_free ports0_facts(7) this] show ?thesis by blast
qed

text \<open>Ports are first-in first-out. Sending as many messages as fit and receiving as often yields the same
  messages in the same order and leaves the port empty.\<close>

theorem port_fifo:
  assumes "port_is p s (n, [])" "length ms \<le> n"
  shows "\<exists>s1 s2. run (port_step p) (map port_call.Send ms) s = Some (map (\<lambda>_. Sent OK) ms, s1) \<and>
    run (port_step p) (map (\<lambda>_. Recv) ms) s1 = Some (map Received ms, s2) \<and> port_is p s2 (n, [])"
proof -
  obtain s1 where s1: "run (port_step p) (map port_call.Send ms) s = Some (map (\<lambda>_. Sent OK) ms, s1)"
    "port_is p s1 (n - length ms, ms)" using port.run_sim[OF assms(1) spec_sends[OF assms(2)]] by auto
  then show ?thesis using port.run_sim[OF s1(2), of "map (\<lambda>_. Recv) ms"] spec_recvs[of ms "n - length ms" "[]"] assms(2) by auto
qed

theorem port_fifo_witness:
  "\<exists>s1 s2. run (port_step chan_id) [port_call.Send 7, port_call.Send 8] chan0 = Some ([Sent OK, Sent OK], s1) \<and>
    run (port_step chan_id) [Recv, Recv] s1 = Some ([Received 7, Received 8], s2)"
proof -
  have "length [7, 8 :: uint32] \<le> 2" by simp
  from port_fifo[OF chan0_facts(2) this] show ?thesis by auto
qed

text \<open>Clearing a port. The messages waiting in it go back to the free nodes after each was disposed of, the
  other ports keep theirs, the port is in limbo with a new sequence number, and a sender or receiver that waited
  since before finds the port changed and gives up without touching it.\<close>

theorem ptclear_spec:
  assumes "kinv s" "ports_rep s F Q" "port_live s p" "disposes d" "sem_live s (ptssem (porttab s p))"
    and "0 \<le> ptmaxcnt (porttab s p)" "ptmaxcnt (porttab s p) < 2 ^ 16"
  shows "\<exists>s'. ptclear p new d s = Some s' \<and> kinv s' \<and> ports_rep s' (Q p @ F) (Q(p := [])) \<and>
    ptstate (porttab s' p) = PT_LIMBO \<and> (\<forall>r. r \<noteq> p \<longrightarrow> messages s' (Q r) = messages s (Q r)) \<and>
    ptsend_rest p (ptseq (porttab s p)) msg s' = Some (Done SYSERR, s') \<and>
    ptrecv_rest p (ptseq (porttab s p)) s' = Some (- 1, s') \<and>
    (if new = PT_ALLOC then scount (semtab s' (ptssem (porttab s p))) = ptmaxcnt (porttab s p)
     else sstate (semtab s' (ptssem (porttab s p))) = S_FREE)"
proof -
  obtain s' where s': "ptclear p new d s = Some s'" "kinv s'" "ports_rep s' (Q p @ F) (Q(p := []))"
    "ptstate (porttab s' p) = PT_LIMBO" "\<forall>r. r \<noteq> p \<longrightarrow> messages s' (Q r) = messages s (Q r)"
    "if new = PT_ALLOC then scount (semtab s' (ptssem (porttab s p))) = ptmaxcnt (porttab s p)
     else sstate (semtab s' (ptssem (porttab s p))) = S_FREE"
    using ptclear_frees[OF assms, of new] by blast
  have "ptstate (porttab s' p) \<noteq> PT_ALLOC" using s'(4) by simp
  then show ?thesis using s' port_changed[of s' p] by blast
qed

theorem ptclear_spec_witness:
  "\<exists>s'. ptclear chan_id PT_FREE (\<lambda>_ s. Some s) chan0 = Some s' \<and> kinv s' \<and> ptstate (porttab s' chan_id) = PT_LIMBO \<and>
    ptsend_rest chan_id (ptseq (porttab chan0 chan_id)) 5 s' = Some (Done SYSERR, s')"
proof -
  obtain F Q where P: "kinv chan0" "port_live chan0 chan_id" "sem_live chan0 (ptssem (porttab chan0 chan_id))" "ports_rep chan0 F Q"
    using chan0_facts(2) by (auto simp: port_is_def)
  have "disposes (\<lambda>_ s. Some s)" by (auto simp: disposes_def)
  from ptclear_spec[OF P(1,4,2) this P(3), of PT_FREE 5] show ?thesis using chan0_facts(3) by auto
qed

text \<open>\<open>mkbufpool\<close>. A pool of \<open>n\<close> buffers of \<open>b\<close> bytes is cut from one allocated block: distinct buffers, spaced
  by at least \<open>b + 4\<close> bytes for the pool number in front of each, all on the free list of the pool, with a
  semaphore that counts them.\<close>

theorem mkbufpool_spec:
  assumes "kinv s" "BP_MINB \<le> b" "b \<le> BP_MAXB" "1 \<le> n" "n \<le> BP_MAXN" "0 \<le> nbpools s" "nbpools s < NBPOOLS"
    and "heap_of s xs" "ff_alloc (roundmb (word_of_int (n * ((b + 3 AND NOT 3) + 4)))) xs = Some (buf, ys)"
    and "\<exists>k. sem_ok k \<and> sstate (semtab s k) = S_FREE"
  shows "\<exists>s' sz. mkbufpool b n s = Some (nbpools s, s') \<and> kinv s' \<and> nbpools s' = nbpools s + 1 \<and>
    pool_rep s' (nbpools s) (buf_addrs (nat (n - 1)) sz buf) \<and> length (buf_addrs (nat (n - 1)) sz buf) = nat n \<and>
    nat (b + 4) \<le> unat sz \<and> sem_live s' (bpsem (buftab s' (nbpools s))) \<and>
    scount (semtab s' (bpsem (buftab s' (nbpools s)))) = n"
proof -
  have "length (buf_addrs (nat (n - 1)) sz buf) = nat n" for sz using assms(4) by (simp add: buf_addrs_length)
  then show ?thesis using mkbufpool_makes[OF assms] by blast
qed

theorem mkbufpool_spec_witness:
  "\<exists>s' sz. mkbufpool 16 3 uboot0 = Some (0, s') \<and> kinv s' \<and> pool_rep s' 0 (buf_addrs 2 sz end0) \<and> 20 \<le> unat sz \<and>
    scount (semtab s' (bpsem (buftab s' 0))) = 3"
proof -
  have a: "BP_MINB \<le> 16" "16 \<le> BP_MAXB" "(1 :: int) \<le> 3" "3 \<le> BP_MAXN" "0 \<le> nbpools uboot0" "nbpools uboot0 < NBPOOLS"
    using uboot0_facts(3) by simp_all
  have "\<exists>k. sem_ok k \<and> sstate (semtab uboot0 k) = S_FREE" using uboot0_spare by blast
  from mkbufpool_spec[OF uboot0_facts(2) a uboot0_facts(4) pool0_alloc this] show ?thesis using uboot0_facts(3) by auto
qed

text \<open>Taking a buffer and giving it back. \<open>getbuf\<close> does not block while buffers are left and returns the address
  behind the first one's pool number; \<open>freebuf\<close> finds the pool from that number and restores list and count.\<close>

theorem getbuf_freebuf_roundtrip:
  assumes "kinv s" "pool_rep s p (x # xs)" "0 \<le> p" "p < nbpools s" "nbpools s \<le> NBPOOLS"
    and "sem_live s (bpsem (buftab s p))" "0 < scount (semtab s (bpsem (buftab s p)))"
  shows "\<exists>s0 s1 s2. getbuf p s = Some (Pending, s0) \<and> currpid s0 = currpid s \<and> ukont s0 (currpid s) = Some (U_getbuf p) \<and>
    getbuf_rest p s0 = Some (x + 4, s1) \<and> kinv s1 \<and> pool_rep s1 p xs \<and>
    freebuf (x + 4) s1 = Some (OK, s2) \<and> kinv s2 \<and> pool_rep s2 p (x # xs) \<and>
    scount (semtab s2 (bpsem (buftab s p))) = scount (semtab s (bpsem (buftab s p)))"
  using assms by (rule getbuf_freebuf)

theorem getbuf_freebuf_roundtrip_witness:
  "\<exists>s0 s1 s2. getbuf 0 pool0 = Some (Pending, s0) \<and> getbuf_rest 0 s0 = Some (end0 + 4, s1) \<and>
    freebuf (end0 + 4) s1 = Some (OK, s2) \<and> scount (semtab s2 (bpsem (buftab pool0 0))) = 3"
proof -
  obtain sz xs where "pool_rep pool0 0 (end0 # xs)" using pool0_facts(4) by (auto simp: numeral_2_eq_2)
  from getbuf_freebuf_roundtrip[OF pool0_facts(2) this] show ?thesis using pool0_facts(3,5,6) by auto
qed

section \<open>The console\<close>

text \<open>C19: the console refines a line editor with echo. Any sequence of keys arriving by interrupt, characters read, buffers
  written and transmit interrupts that the line editor defines runs on the driver's three rings and two semaphores with the
  same replies. Observed are the characters read, what each transmit interrupt sends (nothing while output is held), the
  echo of each key, the bell when the line is full, erase and line kill with what they echo, control characters shown with
  an uparrow, a line becoming readable when it ends, and end of file alone on a line, which becomes readable at once.
  The line editor leaves undefined what makes the driver leave its rings.\<close>

theorem console_history:
  assumes "console s c" "run con_spec xs c = Some (rs, c')"
  shows "\<exists>s'. run con_step xs s = Some (rs, s') \<and> console s' c'"
  using assms by (rule con.run_sim)

theorem console_history_witness:
  "console con0 con_start \<and> (\<exists>s'. run con_step [Keys typed0, Getc, Getc, Send 0, Keys [0x78, 0x01, 0x15, 0x04, 0x13],
       Write [0x68, 0x69], Send 0, Keys [0x11], Send 0, Getc, Getc] con0 =
      Some ([[], [0x6F], [0x6B], [0x6F, 0x78, 8, 0x20, 8, 0x6B, 0x0D, 0x0A], [], [OK], [], [],
        [0x78, 0x5E, 0x41, 0x0D, 0x0A, 0x5E, 0x44, 0x68, 0x69], [0x0A], [EOF]], s') \<and>
      console s' (con_start\<lparr>c_place := 4\<rparr>))"
proof -
  let ?xs = "[Keys typed0, Getc, Getc, Send 0, Keys [0x78, 0x01, 0x15, 0x04, 0x13],
       Write [0x68, 0x69], Send 0, Keys [0x11], Send 0, Getc, Getc]"
  have "run con_spec ?xs con_start = Some ([[], [0x6F], [0x6B], [0x6F, 0x78, 8, 0x20, 8, 0x6B, 0x0D, 0x0A], [], [OK], [], [],
        [0x78, 0x5E, 0x41, 0x0D, 0x0A, 0x5E, 0x44, 0x68, 0x69], [0x0A], [EOF]], con_start\<lparr>c_place := 4\<rparr>)"
    unfolding run.simps con_spec.simps typed0_keys
    by (simp add: typed0_con_def con_start_def con_key_def con_edit_def con_echo_def shown_def wrap_def Let_def getc_value_def)
  from console_history[OF con0_facts(2) this] show ?thesis using con0_facts(2) by blast
qed

text \<open>C20: reading a line. When a whole line is in the buffer and the caller's count exceeds it, \<open>ttyread\<close> returns
  that line with its newline, counts it right, and leaves later input for the next reader.\<close>

theorem ttyread_spec:
  assumes "kinv s" "line_is s (ln @ TY_NEWLINE # A) L" "\<forall>c \<in> set ln. plain c" "int (length ln) < n"
  shows "\<exists>s'. (ttyread n s \<bind> run_read (length ln + 2)) = Some ((int (length ln) + 1, ln @ [TY_NEWLINE]), s') \<and>
    kinv s' \<and> line_is s' A L"
  using assms by (rule ttyread_line)

theorem ttyread_spec_witness:
  "\<exists>s'. (ttyread 80 line0 \<bind> run_read 4) = Some ((3, [0x6F, 0x6B, 0x0A]), s') \<and> kinv s' \<and> line_is s' [] []"
proof -
  have "\<forall>c \<in> set [0x6F, 0x6B]. plain c" "int (length [0x6F, 0x6B :: byte]) < 80" by (simp_all add: plain_def)
  from ttyread_spec[OF line0_facts this] show ?thesis by (simp add: eval_nat_numeral)
qed

text \<open>C21: writing. A buffer for which the output ring has room is put behind the waiting output, each newline preceded
  by a return where the console is set so, without blocking the writer and without a character sent or echoed yet.\<close>

theorem ttywrite_spec:
  assumes "kinv s" "out_is s E W" "length buff = nat n" "0 < n"
    and "length W + length (out_chars (tyocrlf (tty s)) (map (Pair False) buff)) \<le> 64"
  shows "\<exists>s'. (ttywrite buff n s \<bind> run_puts (Suc (length (out_chars (tyocrlf (tty s)) (map (Pair False) buff))))) = Some (OK, s') \<and>
    kinv s' \<and> out_is s' E (W @ out_chars (tyocrlf (tty s)) (map (Pair False) buff)) \<and> tx (uart s') = tx (uart s)"
  using ttywrite_puts[OF assms] by blast

theorem ttywrite_spec_witness:
  "\<exists>s'. (ttywrite [0x68, 0x69] 2 con0 \<bind> run_puts 3) = Some (OK, s') \<and> out_is s' [] [0x68, 0x69]"
proof -
  have e: "out_chars c (map (Pair False) [0x68, 0x69]) = [0x68, 0x69]" for c by simp
  have l: "length [0x68, 0x69 :: byte] = nat 2" "(0 :: int) < 2" by simp_all
  have f: "length ([] :: byte list) + length [0x68, 0x69 :: byte] \<le> 64" by simp
  from ttywrite_spec[OF con0_facts(1,4) l, unfolded e, OF f] show ?thesis by (auto simp: numeral_3_eq_3)
qed

text \<open>Sending. When output is not held, the output half of the driver moves characters to the UART's FIFO
  until that is full or nothing is left: echoed characters first, then output, in order and without loss; the writers'
  semaphore gets the places back, and the interrupt is turned off when both rings are empty.\<close>

theorem ttyhandle_out_spec:
  assumes "kinv s" "out_is s E W" "\<not> tyoheld (tty s)" "u = nat (UART_FIFO_SIZE - txfifo_lvl (uart s))"
  shows "\<exists>s'. ttyhandle_out s = Some s' \<and> kinv s' \<and> out_is s' (drop u E) (drop (u - length E) W) \<and>
    tx (uart s') = tx (uart s) @ take u E @ take (u - length E) W \<and>
    (drop u E = [] \<and> drop (u - length E) W = [] \<longrightarrow> ier (uart s') AND 2 = 0)"
  using ttyhandle_out_sends[OF assms(1-3)] unfolding assms(4) by blast

theorem ttyhandle_out_spec_witness:
  "\<exists>s s' :: ustate. out_is s [] [0x68, 0x69] \<and> ttyhandle_out s = Some s' \<and> out_is s' [] [] \<and>
    tx (uart s') = [0x68, 0x69] \<and> ier (uart s') AND 2 = 0"
proof -
  obtain s :: ustate where s: "kinv s" "out_is s [] [0x68, 0x69]" "\<not> tyoheld (tty s)" "uart s = uart0" using out0_exists by blast
  have u: "64 = nat (UART_FIFO_SIZE - txfifo_lvl (uart s))" by (simp add: s(4) uart0_def)
  have "tx (uart s) = []" by (simp add: s(4) uart0_def)
  then show ?thesis using ttyhandle_out_spec[OF s(1-3) u] s(2) by auto
qed

text \<open>Console start. \<open>ttyinit\<close> gives the console its two semaphores, empty rings and cooked mode, enables the
  receive and transmit interrupts and points the interrupt vector at the handler, from any state with two free semaphores.\<close>

theorem ttyinit_spec:
  assumes "kinv s" "spare_sems s"
  shows "\<exists>s'. ttyinit irq intr s = Some (OK, s') \<and> console s' con_start \<and>
    ier (uart s') = 3 \<and> (irq \<le> 127 \<longrightarrow> intc_vector s' irq = intr)"
  using assms by (rule ttyinit_console)

theorem ttyinit_spec_witness:
  "\<exists>s'. ttyinit 72 0x80001000 uboot0 = Some (OK, s') \<and> console s' con_start \<and> intc_vector s' 72 = 0x80001000"
proof -
  have "(72 :: int) \<le> 127" by simp
  then show ?thesis using ttyinit_spec[OF uboot0_facts(2) uboot0_spare, of 72 "0x80001000"] by blast
qed

section \<open>Library routines\<close>

text \<open>Decimal numbers. \<open>atoi\<close> reads back every number of the C type's range but the least, as printed in
  decimal, after blanks and tabs and up to the first character that is no digit.\<close>

theorem atoi_reads_decimal:
  assumes "starts m p (bs @ dec_int v @ [e])" "list_all (\<lambda>c. c = 0x20 \<or> c = 9) bs" "\<not> is_dig e"
    and "- (2 ^ 31) < v" "v < 2 ^ 31"
  shows "atoi m p = Some v"
  using assms by (rule atoi_dec)

theorem atoi_reads_decimal_witness:
  "atoi (put (\<lambda>_. 0) 100 [0x20, 0x2D, 0x34, 0x32, 0x3B]) 100 = Some (- 42)"
proof -
  have d: "dec 4 = [0x34]" "dec 42 = dec 4 @ [0x32]" by (simp_all add: dec.simps[of 4] dec.simps[of 42])
  have "starts (put (\<lambda>_. 0) 100 [0x20, 0x2D, 0x34, 0x32, 0x3B]) 100 ([0x20] @ dec_int (- 42) @ [0x3B])"
    by (simp add: dec_int_def d)
  moreover have "list_all (\<lambda>c. c = 0x20 \<or> c = 9) [0x20 :: byte]" "\<not> is_dig 0x3B" by simp_all
  ultimately show ?thesis by (rule atoi_reads_decimal) simp_all
qed

text \<open>C22: sorting. \<open>qsort\<close> terminates for every comparison function that is a total preorder, whatever the array
  holds, and leaves the elements of the segment rearranged and in order and the rest of the array as it was.\<close>

theorem qsort_sorts:
  assumes "cmp_order cmp"
  shows "\<exists>B. qsort A a n cmp = Some B \<and> rearranged a (a + n) A B \<and> ordered cmp a (a + n) B"
  unfolding qsort_def using qs1_sorts[OF assms] .

theorem qsort_sorts_witness:
  "\<exists>B. qsort (\<lambda>i. (5 * i) mod 7) 1 6 (\<lambda>x y. x - y) = Some B \<and> ordered (\<lambda>x y. x - y) 1 7 B"
proof -
  have "cmp_order (\<lambda>x y :: int. x - y)" by (simp add: cmp_order_def)
  from qsort_sorts[OF this, of "\<lambda>i. (5 * i) mod 7" 1 6] show ?thesis by auto
qed

text \<open>String routines. On zero-terminated strings \<open>strlen\<close> is the length of the list of characters, \<open>strcmp\<close>
  tells equality and lexicographic order, and \<open>strstr\<close> finds the first place where a non-empty string occurs.\<close>

theorem string_reference:
  assumes "cstr m a xs" "cstr m b ys" "length xs < 2 ^ 31"
  shows "strlen m a = Some (int (length xs)) \<and>
    strcmp m a b = Some (if xs = ys then 0 else if (xs, ys) \<in> lexord {(u, v). u < v} then - 1 else 1) \<and>
    (ys \<noteq> [] \<longrightarrow> strstr m a b = Some (ptr_at a (first_prefix ys xs)))"
  using strlen_cstr[OF assms(1,3)] strcmp_cstr[OF assms(1,2)] strstr_cstr[OF assms(1,2)] by blast

theorem string_reference_witness:
  "strlen (put (put (\<lambda>_. 0) 100 [0x61, 0x62, 0x62, 0x63, 0]) 200 [0x62, 0x63, 0]) 100 = Some 4 \<and>
   strstr (put (put (\<lambda>_. 0) 100 [0x61, 0x62, 0x62, 0x63, 0]) 200 [0x62, 0x63, 0]) 100 200 = Some 102"
proof -
  let ?m = "put (put (\<lambda>_. 0) 100 [0x61, 0x62, 0x62, 0x63, 0]) 200 [0x62, 0x63, 0]"
  have "cstr ?m 100 [0x61, 0x62, 0x62, 0x63]" "cstr ?m 200 [0x62, 0x63]" "length [0x61, 0x62, 0x62, 0x63 :: byte] < 2 ^ 31" by simp_all
  from string_reference[OF this] show ?thesis by (simp add: ptr_at_def)
qed

section \<open>Futures\<close>

text \<open>The queue of a future. Any sequence of calls on a queue in an area of its own gives the replies of a list
  of process ids that are served in the order of their coming, of which at most ten are taken before the queue has to be
  found empty again; nothing outside the area changes.\<close>

theorem fut_queue_history:
  assumes "fq_rep m0 qs m q" "run fq_spec cs q = Some (rs, q')"
  shows "\<exists>m'. run (fq_step qs) cs m = Some (rs, m') \<and> fq_rep m0 qs m' q'"
  using assms by (rule fq.run_sim)

theorem fut_queue_history_witness:
  "\<exists>m'. run (fq_step 0x1000) [Init, Enq 3, Enq 5, Deq, Peek, Is_empty, Deq, Deq] (\<lambda>_. 0) =
    Some ([0, 0, 0, 3, 5, 0, 5, SYSERR], m') \<and> fq_rep (\<lambda>_. 0) 0x1000 m' (0, [])"
proof -
  have "fq_rep (\<lambda>_. 0) 0x1000 (\<lambda>_. 0) (0, [])" by (rule fq_empty) (simp_all add: q_area_def)
  moreover have "run fq_spec [Init, Enq 3, Enq 5, Deq, Peek, Is_empty, Deq, Deq] (0, []) = Some ([0, 0, 0, 3, 5, 0, 5, SYSERR], (0, []))"
    by simp
  ultimately show ?thesis by (rule fut_queue_history)
qed

text \<open>C23: the hand-over of an exclusive future, consumer first. The consumer is suspended and the next ready process
  runs; when that sets the future, the value is in it, the consumer may run again and the state and the heap are sound.\<close>

theorem exclusive_handover:
  fixes s :: "'z fstate_scheme"
  assumes inv: "kinv s" and cur: "currpid s \<noteq> NULLPROC" and f: "future_is fut s FUTURE_EXCLUSIVE FUTURE_EMPTY 0"
    and x: "busy s x" "apart fut x"
  shows "\<exists>s1 s2. future_get fut y s = Some (Pending, s1) \<and> prstate (proctab s1 (currpid s)) = PR_SUSP \<and> currpid s1 = hd (rdy s) \<and>
    fkont s1 (currpid s) = Some (X_get_suspended fut y) \<and> future_set fut x s1 = Some (Pending, s2) \<and> kinv s2 \<and>
    runnable (prstate (proctab s2 (currpid s))) \<and> mem s2 fut = mem s x \<and>
    future_is fut s2 FUTURE_EXCLUSIVE FUTURE_VALID (word_of_int (currpid s))"
proof -
  obtain s1 where s1: "future_get fut y s = Some (Pending, s1)" "kinv s1" "prstate (proctab s1 (currpid s)) = PR_SUSP"
    "pkont s1 (currpid s) = Some (K_suspend (currpid s))" "fkont s1 (currpid s) = Some (X_get_suspended fut y)"
    "currpid s1 = hd (rdy s)" "future_is fut s1 FUTURE_EXCLUSIVE FUTURE_WAITING (word_of_int (currpid s))" "busy s1 = busy s"
    "mem s1 = (mem s)(fut + 8 := FUTURE_WAITING, fut + 12 := word_of_int (currpid s))"
    by (rule exclusive_get_waits[OF inv cur f])
  have c: "pid_ok (currpid s)" using kqD(7)[OF kinvD(1)[OF inv]] .
  have x1: "busy s1 x" using x(1) s1(8) by simp
  obtain s2 where s2: "future_set fut x s1 = Some (Pending, s2)" "kinv s2" "runnable (prstate (proctab s2 (currpid s)))"
    "future_is fut s2 FUTURE_EXCLUSIVE FUTURE_VALID (word_of_int (currpid s))" "mem s2 fut = mem s1 x" "busy s2 = busy s1"
    "fkont s2 = (fkont s1)(currpid s1 := Some X_set_resumed)" "pkont s2 = pkont s1"
    by (rule exclusive_set_wakes[OF s1(2,7) x1 c s1(3)])
  have "mem s1 x = mem s x" using x(2) s1(9) by (simp add: apart_def)
  then show ?thesis using s1 s2 by (intro exI[of _ s1] exI[of _ s2]) simp
qed

theorem exclusive_handover_witness:
  "\<exists>s1 s2. future_get end0 var2 (future0 FUTURE_EXCLUSIVE) = Some (Pending, s1) \<and> currpid s1 = 0 \<and>
    future_set end0 var1 s1 = Some (Pending, s2) \<and> runnable (prstate (proctab s2 1))"
  using exclusive_handover[OF future0_facts(1) _ future0_facts(3) vars0(1,3), of var2] by (auto simp: future0_facts)

text \<open>The rest of the consumer's call, in whatever state it runs again: it gives way to the other processes once
  more, and when it runs the next time it stores the future's value and returns OK.\<close>

theorem consumer_returns:
  fixes s t :: "'z fstate_scheme"
  assumes "kinv s" "fkont s (currpid s) = Some (X_get_suspended fut y)"
    and "kinv t" "fkont t (currpid t) = Some (X_get_resched fut y)" "busy t fut" "busy t y"
  shows "\<exists>s' t'. future_rest s = Some (Pending, s') \<and> kinv s' \<and> mem s' = mem s \<and>
    fkont s' (currpid s) = Some (X_get_resched fut y) \<and>
    future_rest t = Some (Done OK, t') \<and> kinv t' \<and> mem t' = (mem t)(y := mem t fut) \<and> fkont t' (currpid t) = None"
proof -
  obtain s' where s': "future_rest s = Some (Pending, s')" "kinv s'" "mem s' = mem s" "busy s' = busy s"
    "fkont s' = (fkont s)(currpid s := Some (X_get_resched fut y))"
    by (rule get_rest_reschedules[OF assms(1,2)])
  then show ?thesis using get_rest_takes[OF assms(3-6)] by auto
qed

theorem consumer_returns_witness:
  "\<exists>(s :: fstate) (t :: fstate) s' t'. future_rest s = Some (Pending, s') \<and> future_rest t = Some (Done OK, t') \<and> mem t' var1 = mem t end0"
proof -
  let ?f = "future0 FUTURE_EXCLUSIVE"
  let ?s = "?f\<lparr>fkont := \<lambda>_. Some (X_get_suspended end0 var1)\<rparr>" and ?t = "?f\<lparr>fkont := \<lambda>_. Some (X_get_resched end0 var1)\<rparr>"
  have "kinv ?s" "kinv ?t" by (simp_all add: future0_facts)
  moreover have "busy ?t end0" "busy ?t var1" using future_isD(1)[OF future0_facts(3)] vars0(1) by simp_all
  ultimately have "\<exists>s' t'. future_rest ?s = Some (Pending, s') \<and> kinv s' \<and> mem s' = mem ?s \<and>
    fkont s' (currpid ?s) = Some (X_get_resched end0 var1) \<and>
    future_rest ?t = Some (Done OK, t') \<and> kinv t' \<and> mem t' = (mem ?t)(var1 := mem ?t end0) \<and> fkont t' (currpid ?t) = None"
    by (intro consumer_returns) simp_all
  then obtain s' t' where "future_rest ?s = Some (Pending, s')" "future_rest ?t = Some (Done OK, t')"
    "mem t' = (mem ?t)(var1 := mem ?t end0)" by blast
  then show ?thesis by (intro exI[of _ ?s] exI[of _ ?t] exI[of _ s'] exI[of _ t']) simp
qed

text \<open>An exclusive future serves once. Producer first, the value comes back to the consumer; every later
  call of \<open>future_set\<close> and \<open>future_get\<close> is refused and changes nothing.\<close>

theorem exclusive_once:
  fixes s :: "'z fstate_scheme"
  assumes inv: "kinv s" and cur: "currpid s \<noteq> NULLPROC" and f: "future_is fut s FUTURE_EXCLUSIVE FUTURE_EMPTY 0"
    and x: "busy s x" and y: "busy s y" "apart fut y"
  shows "\<exists>s1 s2. future_set fut x s = Some (Done OK, s1) \<and> future_get fut y s1 = Some (Done OK, s2) \<and> kinv s2 \<and>
    mem s2 y = mem s x \<and> (\<forall>z. future_set fut z s2 = Some (Done SYSERR, s2) \<and> future_get fut z s2 = Some (Done SYSERR, s2))"
proof -
  obtain s1 where s1: "future_set fut x s = Some (Done OK, s1)" "kinv s1" "busy s1 = busy s"
    "future_is fut s1 FUTURE_EXCLUSIVE FUTURE_VALID 0" "mem s1 fut = mem s x"
    "s1 = s\<lparr>mem := (mem s)(fut := mem s x, fut + 8 := FUTURE_VALID)\<rparr>"
    using exclusive_set_empty[OF inv f x] by blast
  have cur1: "currpid s1 = currpid s" using s1(6) by simp
  have y1: "busy s1 y" using y(1) s1(3) by simp
  obtain s2 where s2: "future_get fut y s1 = Some (Done OK, s2)" "kinv s2"
    "future_is fut s2 FUTURE_EXCLUSIVE FUTURE_VALID (word_of_int (currpid s))" "mem s2 y = mem s1 fut"
    using exclusive_get_valid[OF s1(2,4) y1 y(2)] cur1 by auto
  have "pid_ok (currpid s)" using kqD(7)[OF kinvD(1)[OF inv]] .
  then have "sint (word_of_int (currpid s) :: uint32) = currpid s" by (intro int32_word) simp_all
  then have "(word_of_int (currpid s) :: uint32) \<noteq> 0" using cur by auto
  then show ?thesis using s1 s2 exclusive_refuses[OF s2(3)] by (intro exI[of _ s1] exI[of _ s2]) simp
qed

theorem exclusive_once_witness:
  "\<exists>s1 s2. future_set end0 var1 (future0 FUTURE_EXCLUSIVE) = Some (Done OK, s1) \<and> future_get end0 var2 s1 = Some (Done OK, s2) \<and>
    mem s2 var2 = mem (future0 FUTURE_EXCLUSIVE) var1 \<and> future_get end0 var2 s2 = Some (Done SYSERR, s2)"
  using exclusive_once[OF future0_facts(1) _ future0_facts(3) vars0(1,2,4)] by (fastforce simp: future0_facts)

text \<open>C24: the life of a future. Made on a heap that has room for it and its two queue areas behind it, it is empty;
  freed, its 24 bytes return and the caller's pointer is cleared, while the 96 bytes of the queue areas are lost.\<close>

theorem future_lifecycle:
  assumes inv: "kinv s" and heap: "heap_of s xs" and ref: "busy s ref"
    and al: "ff_alloc 24 xs = Some (fut, xs1)" "ff_alloc 48 xs1 = Some (fut + 24, xs2)" "ff_alloc 48 xs2 = Some (q, xs3)"
  shows "\<exists>s1 s2 ys. future_alloc flag s = Some (fut, s1) \<and> kinv s1 \<and> future_is fut s1 flag FUTURE_EMPTY 0 \<and> mem s1 fut = 0 \<and>
    future_free ref (s1\<lparr>mem := (mem s1)(ref := fut)\<rparr>) = Some (OK, s2) \<and> kinv s2 \<and> mem s2 ref = 0 \<and> heap_of s2 ys \<and>
    free_bytes ys = free_bytes xs - ({unat (fut + 24)..<unat (fut + 24) + 48} \<union> {unat q..<unat q + 48})"
proof -
  obtain m where m: "future_alloc flag s = Some (fut, s\<lparr>mem := m\<rparr>)" "kinv (s\<lparr>mem := m\<rparr>)" "heap_of (s\<lparr>mem := m\<rparr>) xs3"
    "future_is fut (s\<lparr>mem := m\<rparr>) flag FUTURE_EMPTY 0" "m fut = 0" "busy (s\<lparr>mem := m\<rparr>) ref"
    using future_alloc_makes[OF inv heap al, of flag] ref by blast
  let ?m = "m(ref := fut)" and ?s1 = "s\<lparr>mem := m\<rparr>"
  let ?t = "s\<lparr>mem := ?m\<rparr>"
  note H = heap_repD(5,4)[OF heap]
  have A: "fl_ok (unat (minheap s)) (unat (maxheap s)) xs1" "{unat fut..<unat fut + 24} \<subseteq> free_bytes xs"
    "free_bytes xs1 = free_bytes xs - {unat fut..<unat fut + 24}" "8 dvd unat fut" "unat (minheap s) \<le> unat fut"
    "unat fut + 24 \<le> unat (maxheap s)"
    using ff_alloc_ok[OF al(1) H] by simp_all
  have B: "fl_ok (unat (minheap s)) (unat (maxheap s)) xs2" "{unat (fut + 24)..<unat (fut + 24) + 48} \<subseteq> free_bytes xs1"
    "free_bytes xs2 = free_bytes xs1 - {unat (fut + 24)..<unat (fut + 24) + 48}"
    using ff_alloc_ok[OF al(2) A(1) H(2)] by simp_all
  have C: "{unat q..<unat q + 48} \<subseteq> free_bytes xs2" "free_bytes xs3 = free_bytes xs2 - {unat q..<unat q + 48}"
    using ff_alloc_ok[OF al(3) B(1) H(2)] by simp_all
  have out: "unat ref \<notin> {unat fut..<unat fut + 24}" using ref heap A(2) unfolding busy_def by blast
  have d: "?m a \<noteq> mem ?s1 a \<Longrightarrow> busy ?s1 a" for a using m(6) by (auto split: if_splits)
  note k = kinv_busy_mem[OF m(2), of ?m, OF d]
  have ht: "heap_of (?s1\<lparr>mem := ?m\<rparr>) xs3" by (rule kinv_busy_mem(3)[OF m(2) _ m(3)], rule d)
  have t: "kinv ?t" "heap_of ?t xs3" "busy ?t ref" using k(1,2) ht m(6) by simp_all
  have "\<exists>m' ys. future_free ref ?t = Some (OK, ?t\<lparr>mem := m'\<rparr>) \<and> kinv (?t\<lparr>mem := m'\<rparr>) \<and> heap_of (?t\<lparr>mem := m'\<rparr>) ys \<and>
    free_bytes ys = free_bytes xs3 \<union> {unat (mem ?t ref)..<unat (mem ?t ref) + 24} \<and> m' ref = 0"
    by (rule future_free_gives[OF t]) (use A B C out in auto)
  then obtain m' ys where f: "future_free ref ?t = Some (OK, s\<lparr>mem := m'\<rparr>)" "kinv (s\<lparr>mem := m'\<rparr>)" "heap_of (s\<lparr>mem := m'\<rparr>) ys"
    "free_bytes ys = free_bytes xs3 \<union> {unat fut..<unat fut + 24}" "m' ref = 0" by auto
  have "free_bytes ys = free_bytes xs - ({unat (fut + 24)..<unat (fut + 24) + 48} \<union> {unat q..<unat q + 48})"
    using f(4) A(2,3) B(2,3) C by blast
  then show ?thesis using m f by (intro exI[of _ ?s1] exI[of _ "s\<lparr>mem := m'\<rparr>"] exI[of _ ys]) simp
qed

theorem future_lifecycle_witness:
  "\<exists>(s :: fstate) s1 s2 fut ref. future_alloc FUTURE_SHARED s = Some (fut, s1) \<and>
    future_free ref (s1\<lparr>mem := (mem s1)(ref := fut)\<rparr>) = Some (OK, s2) \<and> mem s2 ref = 0"
proof -
  have "ff_alloc 24 [(end0 + 120, 0xA0000000 - end0 - 8192 - 120)] =
      Some (end0 + 120, [(end0 + 144, 0xA0000000 - end0 - 8192 - 144)])"
    "ff_alloc 48 [(end0 + 144, 0xA0000000 - end0 - 8192 - 144)] =
      Some (end0 + 120 + 24, [(end0 + 192, 0xA0000000 - end0 - 8192 - 192)])"
    "ff_alloc 48 [(end0 + 192, 0xA0000000 - end0 - 8192 - 192)] =
      Some (end0 + 192, [(end0 + 240, 0xA0000000 - end0 - 8192 - 240)])"
    by (simp_all add: end0_def)
  from future_lifecycle[OF future0_facts(1,2) vars0(1) this] show ?thesis by blast
qed



text \<open>Queue mode, consumers first. A consumer is suspended behind those already waiting; a producer stores its
  value, resumes the one that has waited longest and leaves the others waiting in their order.\<close>

theorem queue_serves_first:
  fixes s t :: "'z fstate_scheme"
  assumes "kinv s" "currpid s \<noteq> NULLPROC" "future_is fut s FUTURE_QUEUE state pid"
    and "waiting_for fut s (h, cs)" "h + length cs < 9" "no_producer fut s"
    and "kinv t" "future_is fut t FUTURE_QUEUE state' pid'" "busy t x" "waiting_for fut t (h', c # cs')" "no_producer fut t"
    and "pid_ok c" "prstate (proctab t c) = PR_SUSP"
  shows "\<exists>s' t'. future_get fut y s = Some (Pending, s') \<and> kinv s' \<and> prstate (proctab s' (currpid s)) = PR_SUSP \<and>
    waiting_for fut s' (h, cs @ [currpid s]) \<and> no_producer fut s' \<and>
    future_set fut x t = Some (Done OK, t') \<and> kinv t' \<and> runnable (prstate (proctab t' c)) \<and> mem t' fut = mem t x \<and>
    waiting_for fut t' (Suc h', cs') \<and> no_producer fut t' \<and>
    (\<forall>p. p \<noteq> c \<longrightarrow> prstate (proctab t p) = PR_SUSP \<longrightarrow> prstate (proctab t' p) = PR_SUSP)"
proof -
  obtain s' where "future_get fut y s = Some (Pending, s')" "kinv s'" "prstate (proctab s' (currpid s)) = PR_SUSP"
    "fkont s' (currpid s) = Some (Q_get_suspended fut y)" "pkont s' (currpid s) = Some (K_suspend (currpid s))"
    "future_is fut s' FUTURE_QUEUE FUTURE_WAITING (word_of_int (currpid s))"
    "waiting_for fut s' (h, cs @ [currpid s])" "no_producer fut s'" "currpid s' = hd (rdy s)"
    by (rule queue_get_waits[OF assms(1-6)])
  moreover obtain t' where "future_set fut x t = Some (Done OK, t')" "kinv t'" "runnable (prstate (proctab t' c))"
    "\<forall>p. p \<noteq> c \<longrightarrow> prstate (proctab t p) = PR_SUSP \<longrightarrow> prstate (proctab t' p) = PR_SUSP"
    "future_is fut t' FUTURE_QUEUE (if cs' = [] then FUTURE_VALID else FUTURE_WAITING) (word_of_int c)"
    "mem t' fut = mem t x" "waiting_for fut t' (Suc h', cs')" "no_producer fut t'"
    by (rule queue_set_serves[OF assms(7-13)])
  ultimately show ?thesis by blast
qed

theorem queue_serves_first_witness:
  "\<exists>s' t'. future_get end0 var2 (consumer0 FUTURE_QUEUE) = Some (Pending, s') \<and> waiting_for end0 s' (0, [2, 1]) \<and>
    future_set end0 var1 (consumer0 FUTURE_QUEUE) = Some (Done OK, t') \<and> runnable (prstate (proctab t' 2)) \<and>
    waiting_for end0 t' (1, [])"
proof -
  have "currpid (consumer0 FUTURE_QUEUE) \<noteq> NULLPROC" "0 + length [2 :: int] < 9" by (simp_all add: consumer0_facts)
  from queue_serves_first[OF consumer0_facts(1) this(1) consumer0_facts(2,4) this(2) consumer0_facts(5,1-5,6,7), of var2]
  show ?thesis by (auto simp: consumer0_facts)
qed



section \<open>Formatted output, addresses and the shell's lexical analyser\<close>

text \<open>C27: formatted output. For a format made of literal text, \<^verbatim>\<open>%%\<close>, numbers (\<^verbatim>\<open>%d\<close>, \<^verbatim>\<open>%u\<close>, \<^verbatim>\<open>%o\<close>, \<^verbatim>\<open>%x\<close>,
  \<^verbatim>\<open>%X\<close> with flags and a width up to 80), strings and characters, both interpreters print the texts of the pieces
  in order: numbers in positional notation, filled and aligned to their width. The least \<^verbatim>\<open>int\<close> has no text for \<^verbatim>\<open>%d\<close>.\<close>

theorem doprnt_prints:
  assumes "list_all (piece_ok m) ps" "starts m fmt (concat (map piece_format ps) @ [0])" "length buf = 20"
  shows "doprnt m fmt (concat (map piece_args ps)) buf = Some (concat (map piece_text ps)) \<and>
    fdoprnt m fmt (concat (map piece_args ps)) buf = Some (concat (map piece_text ps)) \<and>
    kprintf m fmt (concat (map piece_args ps)) buf = Some (OK, concat (map kputc (concat (map piece_text ps))))"
  using doprnt_pieces[OF disjI1[OF refl] assms] doprnt_pieces[OF disjI2[OF refl] assms]
  by (simp add: doprnt_def fdoprnt_def kprintf_def)

theorem doprnt_prints_witness:
  "doprnt (put (\<lambda>_. 0) 100 [0x25, 0x35, 0x64, 0x7C, 0x25, 0x2D, 0x34, 0x78, 0x0A]) 100 [- 42, 255] (replicate 20 0) =
    Some [0x20, 0x20, 0x2D, 0x34, 0x32, 0x7C, 0x66, 0x66, 0x20, 0x20, 0x0A]"
proof -
  let ?m = "put (\<lambda>_. 0) 100 [0x25, 0x35, 0x64, 0x7C, 0x25, 0x2D, 0x34, 0x78, 0x0A]"
  let ?ps = "[Num False False 5 0x64 (- 42), Text [0x7C], Num True False 4 0x78 255, Text [0x0A]]"
  have d: "dec 5 = [0x35]" "dec 4 = [0x34]" "dec 42 = [0x34, 0x32]" "in_base 16 ((!) lower_digits) 255 = [0x66, 0x66]"
    by (simp_all add: dec.simps[of 4] dec.simps[of 5] dec.simps[of 42] in_base.simps[of 16 _ 255] in_base.simps[of 16 _ 15] lower_digits_def)
  have r: "replicate 2 x = [x, x]" for x :: byte by (simp add: numeral_2_eq_2)
  have n: "number_text 0x64 (- 42) = Some ([0x2D], dec 42)" "number_text 0x78 255 = Some ([], in_base 16 ((!) lower_digits) 255)"
    by (simp_all add: number_text_def)
  have "list_all (piece_ok ?m) ?ps" by (simp add: n)
  moreover have "starts ?m 100 (concat (map piece_format ?ps) @ [0])" by (simp add: flags_def d)
  ultimately have "doprnt ?m 100 (concat (map piece_args ?ps)) (replicate 20 0) = Some (concat (map piece_text ?ps))"
    by (intro doprnt_prints[THEN conjunct1]) simp_all
  moreover have "concat (map piece_text ?ps) = [0x20, 0x20, 0x2D, 0x34, 0x32, 0x7C, 0x66, 0x66, 0x20, 0x20, 0x0A]"
    by (simp add: n d r aligned_def)
  ultimately show ?thesis by simp
qed

text \<open>Printing and reading a number. What \<open>sprintf\<close> stores for \<^verbatim>\<open>%d\<close>, with any width up to 80, \<open>atoi\<close>
  reads back as the same number, for every number of the type but the least, when the output does not reach the format.\<close>

theorem sprintf_atoi:
  assumes "starts m p ([0x25] @ flags False False w @ [0x64, 0])" "w \<le> 80" "sint a \<noteq> - (2 ^ 31)" "length buf = 20"
    and "area str 91 \<inter> area p (3 + length (flags False False w)) = {}"
  shows "\<exists>m'. sprintf str p [a] buf m = Some (str, m') \<and> atoi m' str = Some (sint a)"
  using assms by (rule sprintf_number_atoi)

theorem sprintf_atoi_witness:
  "\<exists>m'. sprintf 200 100 [- 7] (replicate 20 0) (put (\<lambda>_. 0) 100 [0x25, 0x34, 0x64, 0]) = Some (200, m') \<and> atoi m' 200 = Some (- 7)"
proof -
  have "starts (put (\<lambda>_. 0) 100 [0x25, 0x34, 0x64, 0]) 100 ([0x25] @ flags False False 4 @ [0x64, 0])"
    by (simp add: flags_def dec.simps[of 4])
  moreover have "area 200 91 \<inter> area 100 (3 + length (flags False False 4)) = {}"
    by (rule area_apart) (simp_all add: flags_def dec.simps[of 4])
  ultimately show ?thesis using sprintf_atoi[of _ 100 4 "- 7" "replicate 20 0" 200] by simp
qed

text \<open>C28: internet addresses. The dotted decimal text that the format of the system's messages gives for the four
  bytes of an address is stored by \<open>sprintf\<close>, and read back by \<open>dot2ip\<close> as that address, when the 16 bytes at \<open>str\<close> do not
  overlap the format: each character is stored as soon as it is produced, and the format is read behind it.\<close>

theorem dotted_roundtrip:
  assumes "starts m fmt dotted_format" "length buf = 20" "area str 16 \<inter> area fmt 12 = {}"
  shows "\<exists>m'. sprintf str fmt (map of_nat (addr_bytes a)) buf m = Some (str, m') \<and> dot2ip m' str = Some a"
  using assms by (rule print_dotted)

theorem dotted_roundtrip_witness:
  "\<exists>m'. sprintf 200 100 [10, 0, 2, 15] (replicate 20 0) (put (\<lambda>_. 0) 100 dotted_format) = Some (200, m') \<and>
    dot2ip m' 200 = Some 0x0A00020F"
proof -
  have "starts (put (\<lambda>_. 0) 100 dotted_format) 100 dotted_format" by (rule starts_put) (simp add: dotted_format_def)
  moreover have "area 200 16 \<inter> area 100 12 = {}" by (rule area_apart) simp_all
  moreover have "map of_nat (addr_bytes 0x0A00020F) = [10, 0, 2, 15 :: uint32]" by (simp add: addr_bytes_def)
  ultimately show ?thesis using dotted_roundtrip[of _ 100 "replicate 20 0" 200 "0x0A00020F"] by fastforce
qed

text \<open>C29: bounds of the lexical analyser. On a line that ends, in a newline or a zero byte, \<open>lexan\<close> returns, has
  stored at most as many characters as the line has and one more for each of at most 32 tokens, and the number returned
  is that of the tokens stored, or it is \<open>SYSERR\<close>.\<close>

theorem lexan_bounds:
  assumes "\<exists>c \<in> set line. ends_line c"
  shows "\<exists>k buf tok types. lexan line = Some (k, buf, tok, types) \<and> length buf \<le> length line + SHELL_MAXTOK \<and>
    length tok \<le> SHELL_MAXTOK \<and> length types = length tok \<and> (k = SYSERR \<or> k = int (length tok))"
  using lex_loop_bound[OF assms, of "[]" 0 "[]" "[]"] by (auto simp: lexan_def lex_bound_def)

theorem lexan_bounds_witness:
  "\<exists>k buf tok types. lexan [0x6C, 0x73, 0x22, 0x0A] = Some (k, buf, tok, types) \<and> length buf \<le> 36"
proof -
  have "\<exists>c \<in> set [0x6C, 0x73, 0x22, 0x0A]. ends_line c" by (simp add: ends_line_def)
  from lexan_bounds[OF this] show ?thesis by auto
qed

text \<open>C30: reading a command line. From a line written from at most 32 tokens with a blank before each, words,
  quoted strings and the three operators, \<open>lexan\<close> reads the number, the characters, the starts and the types of
  these tokens.\<close>

theorem lexan_reads:
  assumes "list_all token_ok ts" "length ts \<le> SHELL_MAXTOK"
  shows "lexan (command_line ts) = Some (int (length ts), concat (map (\<lambda>t. token_chars t @ [0]) ts),
    token_starts 0 ts, map token_type ts)"
  using lex_loop_reads[OF assms(1), of 0 "[]" "[]" "[]"] assms(2) by (simp add: lexan_def)

theorem lexan_reads_witness:
  "lexan [0x20, 0x6C, 0x73, 0x20, 0x3E, 0x20, 0x27, 0x61, 0x20, 0x27, 0x20, 0x26, 0x0A] =
    Some (4, [0x6C, 0x73, 0, 0x3E, 0, 0x61, 0x20, 0, 0x26, 0], [0, 3, 5, 8], [SH_TOK_OTHER, SH_TOK_GREATER, SH_TOK_OTHER, SH_TOK_AMPER])"
proof -
  let ?ts = "[token.Word [0x6C, 0x73], Greater, Quoted 0x27 [0x61, 0x20], Amper]"
  have "list_all token_ok ?ts" "length ?ts \<le> 32" by (simp_all add: ends_word_def ends_line_def is_quote_def)
  from lexan_reads[OF this] show ?thesis by simp
qed


section \<open>The network\<close>

text \<open>C31: the UDP endpoints refine a table of bounded queues. From any consistent state with room for it, \<open>net_init\<close>
  succeeds, and then every sequence of registrations, arriving packets, receptions that find a packet, and releases gets the
  replies that the specification on lists of packets gives, and none of the 129 buffers is lost.\<close>

theorem udp_history:
  assumes "kinv s" "0 \<le> nbpools s" "nbpools s < NBPOOLS" "i \<noteq> j" "sem_ok i" "sem_ok j"
    and "sstate (semtab s i) = S_FREE" "sstate (semtab s j) = S_FREE"
    and "heap_of s xs" "ff_alloc (roundmb 196080) xs = Some (buf, ys)"
    and "run udp_spec cs (129, \<lambda>_. None) = Some (rs, A)"
  shows "\<exists>s1 s2. net_init mac s = Some (Done (), s1) \<and> run udp_step cs s1 = Some (rs, s2) \<and> udp_sim 129 s2 A"
  using net_init_ready[OF assms(1-10)] udp.run_sim[OF _ assms(11)] by blast

theorem udp_history_witness:
  "\<exists>s1 s2. net_init mac0 nuser0 = Some (Done (), s1) \<and>
    run udp_step [U_register 0 0 7, U_register 0 0 7, U_arrive datagram0, U_recv 0 100, U_release 0, U_recv 0 100] s1 =
      Some ([(0, []), (SYSERR, []), (0, []), (2, [0x68, 0x69]), (OK, []), (SYSERR, [])], s2)"
proof -
  let ?T = "(\<lambda>_. None)(0 := Some \<lparr>ep_ip = 0, ep_rport = 0, ep_lport = 7, ep_wait = False, ep_queue = []\<rparr>) :: packet endpoints"
  have r: "ep_register 0 0 7 (\<lambda>_. None) = (0, ?T)" by (simp add: ep_register_def first_slots)
  have r2: "ep_register 0 0 7 ?T = (SYSERR, ?T)" unfolding ep_register_def by (rule if_P) (auto intro: bexI[of _ 0])
  have d: "deliver datagram0 datagram0 ?T = Some (0, ?T(0 := Some \<lparr>ep_ip = 0, ep_rport = 0, ep_lport = 7, ep_wait = False, ep_queue = [datagram0]\<rparr>))"
    by (simp add: deliver_def first_slots accepts_def ep_match_def datagram0_fields(3,4))
  have "\<exists>A. run udp_spec [U_register 0 0 7, U_register 0 0 7, U_arrive datagram0, U_recv 0 100, U_release 0, U_recv 0 100] (129, \<lambda>_. None) =
    Some ([(0, []), (SYSERR, []), (0, []), (2, [0x68, 0x69]), (OK, []), (SYSERR, [])], A)"
    by (simp add: r r2 d on_slot_def datagram0_fields(8))
  then obtain A where A: "run udp_spec [U_register 0 0 7, U_register 0 0 7, U_arrive datagram0, U_recv 0 100, U_release 0, U_recv 0 100] (129, \<lambda>_. None) =
    Some ([(0, []), (SYSERR, []), (0, []), (2, [0x68, 0x69]), (OK, []), (SYSERR, [])], A)" by blast
  show ?thesis using udp_history[OF nuser0_facts(1) nuser0_pre nuser0_facts(2) net0_alloc A] by blast
qed

text \<open>C32: a datagram goes from one host to the process of another. Suppose that the frame in the buffer is what \<open>ip_out\<close> makes of
  the datagram, that the datagram is for this host and that an idle endpoint accepts it. Then \<open>ip_in\<close> queues it there, and
  \<open>udp_recvaddr\<close> returns its data, at most \<open>len\<close> bytes, with the sender's address and port; the buffer goes back to the pool.\<close>

theorem datagram_arrives:
  assumes "kinv s" "udp_table s T" "net_own s fr {#x - 4#} T" and room: "length fr + 1 < 2 ^ 30"
    and "p net_ipproto = 17" "p net_ipvh = 0x45" "pkts s x = eth_ntoh (ip_out_packet p)" "for_us (netdata s) p"
    and d: "deliver p x T = Some (i, T')" and e: "T i = Some e" "\<not> ep_wait e" "ep_queue e = []"
    and fits: "fst (payload p len) \<le> 1472"
  shows "\<exists>s1 s2. ip_in x s = Some (Done (), s1) \<and> udp_table s1 T' \<and>
    udp_recvaddr i len timeout s1 = Some (Done (fst (payload p len), Some (get32 p net_ipsrc, get16 p net_udpsport), snd (payload p len)), s2) \<and>
    kinv s2 \<and> udp_table s2 T \<and> net_own s2 ((x - 4) # fr) {#} T"
proof -
  obtain s1 where s1: "ip_in x s = Some (Done (), s1)" "kinv s1" "udp_table s1 T'" "net_own s1 fr {#} T'"
    "\<And>len. payload (pkts s1 x) len = payload p len" "get32 (pkts s1 x) net_ipsrc = get32 p net_ipsrc"
    "get16 (pkts s1 x) net_udpsport = get16 p net_udpsport"
    using datagram_delivered[OF assms(1-3,5-9)] by blast
  have f: "first_slot (nat UDP_SLOTS) 0 (accepts T p) = Some i" "T' i = Some (e\<lparr>ep_queue := [x]\<rparr>)" "T' = T(i := Some (e\<lparr>ep_queue := [x]\<rparr>))"
    using d e by (auto simp: deliver_def split: option.splits)
  from first_slot_Some[OF f(1)] have i: "0 \<le> i" "i < UDP_SLOTS" by auto
  have q: "ep_queue (e\<lparr>ep_queue := [x]\<rparr>) = [x]" by simp
  have ft: "min len (uint (get16 (pkts s1 x) net_udplen) - 8) \<le> 1472" using fits unfolding s1(5)[symmetric] by (simp add: payload_def Let_def)
  have popped: "T'(i := Some (e\<lparr>ep_queue := [x], ep_queue := []\<rparr>)) = T" using e f(3) by (auto simp: fun_eq_iff)
  obtain s2 where s2: "udp_takeaddr i len s1 = Some ((fst (payload p len), Some (get32 p net_ipsrc, get16 p net_udpsport), snd (payload p len)), s2)"
    "kinv s2" "udp_table s2 T" "net_own s2 ((x - 4) # fr) {#} T"
    using udp_take_first[OF s1(2,3,4) room i f(2) q ft] unfolding s1(5-7) popped by blast
  have "udp_is (udptab s1 i) (Some (e\<lparr>ep_queue := [x]\<rparr>))" using udp_tableD[OF s1(3) i] f(2) by simp
  then have "udp_recvaddr i len timeout s1 = Some (Done (fst (payload p len), Some (get32 p net_ipsrc, get16 p net_udpsport), snd (payload p len)), s2)"
    using i e(2) s2(1) by (simp add: udp_recvaddr_def udp_is_def finish_def)
  then show ?thesis using s1 s2 by blast
qed

lemma delivered7: "deliver datagram0 x ((\<lambda>_. None)(0 := Some (echo7\<lparr>ep_wait := w\<rparr>))) =
    Some (0, (\<lambda>_. None)(0 := Some (echo7\<lparr>ep_queue := [x]\<rparr>)))"
  by (simp add: deliver_def first_slots accepts_def ep_match_def echo7_def datagram0_fields(3,4))

theorem datagram_arrives_witness:
  "\<exists>s1 s2. ip_in rxbuf0 (rx0 (eth_ntoh (ip_out_packet datagram0))) = Some (Done (), s1) \<and>
    udp_recvaddr 0 100 1000 s1 = Some (Done (2, Some (0x0A000002, 9), [0x68, 0x69]), s2) \<and> kinv s2"
proof -
  let ?s = "rx0 (eth_ntoh (ip_out_packet datagram0))" and ?T = "(\<lambda>_. None)(0 := Some echo7)"
  obtain fr where fr: "net_own ?s fr {#rxbuf0 - 4#} ?T" "length fr + 1 < 2 ^ 30" using rx0_facts(8) by fastforce
  have d: "deliver datagram0 rxbuf0 ?T = Some (0, (\<lambda>_. None)(0 := Some (echo7\<lparr>ep_queue := [rxbuf0]\<rparr>)))"
    using delivered7[of rxbuf0 False] by (simp add: echo7_def)
  have e: "?T 0 = Some echo7" "\<not> ep_wait echo7" "ep_queue echo7 = []" by (simp_all add: echo7_def)
  have us: "for_us (netdata ?s) datagram0" unfolding rx0_facts(4) by (simp add: for_us_def datagram0_fields host0_def)
  have fits: "fst (payload datagram0 100) \<le> 1472" unfolding datagram0_fields(8) by simp
  from datagram_arrives[OF rx0_facts(1,2) fr datagram0_fields(1,2) rx0_facts(5) us d e fits, of 1000] show ?thesis
    unfolding datagram0_fields(4,6,8) by auto
qed

text \<open>C33: a waiting receiver is served. If the packet's endpoint has a process waiting in \<open>udp_recv\<close>, \<open>udp_in\<close> queues the packet and
  makes that process eligible with the message \<open>OK\<close>; and in every later state in which it runs with that message while the packet is
  the first of the endpoint's queue, the rest of \<open>udp_recv\<close> returns the packet's data and gives the buffer back.\<close>

theorem receiver_served:
  assumes "kinv s" "udp_table s T" "net_own s fr {#x - 4#} T" "deliver (pkts s x) x T = Some (i, T')"
    and "T i = Some e" "ep_wait e" "p = udpid (udptab s i)" "pid_ok p" "prstate (proctab s p) = PR_RECTIM"
  shows "\<exists>s'. udp_in x s = Some s' \<and> kinv s' \<and> udp_table s' T' \<and> net_own s' fr {#} T' \<and>
    runnable (prstate (proctab s' p)) \<and> prhasmsg (proctab s' p) \<and> prmsg (proctab s' p) = 1 \<and>
    (\<forall>t U gr f xs len. kinv t \<and> udp_table t U \<and> net_own t gr {#} U \<and> length gr + 1 < 2 ^ 30 \<and> currpid t = p \<and>
      pkont t p \<noteq> Some K_receive \<and> prhasmsg (proctab t p) \<and> prmsg (proctab t p) = 1 \<and>
      U i = Some f \<and> \<not> ep_wait f \<and> ep_queue f = x # xs \<and> pkts t x = pkts s x \<and> fst (payload (pkts s x) len) \<le> 1472 \<longrightarrow>
      (\<exists>t1 t'. recvtime_rest t = Some (1, t1) \<and> udp_recv_rest i len 1 t1 = Some (payload (pkts s x) len, t') \<and> kinv t' \<and>
        udp_table t' (U(i := Some (f\<lparr>ep_queue := xs\<rparr>))) \<and> net_own t' ((x - 4) # gr) {#} (U(i := Some (f\<lparr>ep_queue := xs\<rparr>)))))"
proof -
  have i: "0 \<le> i" "i < UDP_SLOTS" using assms(4) first_slot_Some[of "nat UDP_SLOTS" 0 "accepts T (pkts s x)" i]
    by (auto simp: deliver_def split: option.splits)
  obtain s' where "udp_in x s = Some s'" "kinv s'" "udp_table s' T'" "net_own s' fr {#} T'" "runnable (prstate (proctab s' p))"
    "prhasmsg (proctab s' p)" "prmsg (proctab s' p) = 1"
    using udp_in_wakes[OF assms] by blast
  moreover have "\<exists>t1 t'. recvtime_rest t = Some (1, t1) \<and> udp_recv_rest i len 1 t1 = Some (payload (pkts s x) len, t') \<and> kinv t' \<and>
      udp_table t' (U(i := Some (f\<lparr>ep_queue := xs\<rparr>))) \<and> net_own t' ((x - 4) # gr) {#} (U(i := Some (f\<lparr>ep_queue := xs\<rparr>)))"
    if "kinv t" "udp_table t U" "net_own t gr {#} U" "length gr + 1 < 2 ^ 30" "currpid t = p" "pkont t p \<noteq> Some K_receive"
      "prhasmsg (proctab t p)" "prmsg (proctab t p) = 1" "U i = Some f" "\<not> ep_wait f" "ep_queue f = x # xs" "pkts t x = pkts s x"
      "fst (payload (pkts s x) len) \<le> 1472" for t U gr f xs len
    using udp_recv_resumes[of t U gr i f x xs len] that i by simp
  ultimately show ?thesis by blast
qed

theorem receiver_served_witness:
  "\<exists>s1. udp_recv 0 100 1000 (rx0 datagram0) = Some (Pending, waiting0 datagram0) \<and> prstate (proctab (waiting0 datagram0) 1) = PR_RECTIM \<and>
    udp_in rxbuf0 (waiting0 datagram0) = Some s1 \<and> runnable (prstate (proctab s1 1)) \<and> prmsg (proctab s1 1) = 1"
proof -
  let ?s = "waiting0 datagram0" and ?T = "(\<lambda>_. None)(0 := Some wait7)"
  note W = waiting0_facts[of datagram0]
  obtain fr where fr: "net_own ?s fr {#rxbuf0 - 4#} ?T" using W(7) by blast
  have d: "deliver (pkts ?s rxbuf0) rxbuf0 ?T = Some (0, (\<lambda>_. None)(0 := Some (echo7\<lparr>ep_queue := [rxbuf0]\<rparr>)))"
    unfolding W(6) wait7_def by (rule delivered7)
  have e: "?T 0 = Some wait7" "ep_wait wait7" "1 = udpid (udptab ?s 0)" "pid_ok 1" using W(4) by (simp_all add: wait7_def)
  show ?thesis using receiver_served[OF W(2,3) fr d e W(5)] W(1,5) by blast
qed

text \<open>C34: the header checksum. \<open>ipcksum\<close> adds the carries once only: its value is that of RFC 1071 unless the sum carries a second time, when
  it is one too large, and zero stands for all ones. Every header that \<open>ip_out\<close> seals passes the check of \<open>ip_in\<close>, and so does
  every header that is correct by the RFC.\<close>

theorem header_sum:
  "unat (ipcksum p) = (if folded (sum_list (be_words 10 p net_ipvh)) = 0 then 0
      else rfc1071 (be_words 10 p net_ipvh) + (if carries_again (sum_list (be_words 10 p net_ipvh)) then 1 else 0)) \<and>
    ipcksum (ip_seal p) = 0 \<and> (rfc1071 (be_words 10 p net_ipvh) = 0 \<longrightarrow> ipcksum p = 0)"
  using ipcksum_rfc[of p] ip_seal_checks[of p] ip_valid_checks[of p] by blast

theorem header_sum_witness: "ipcksum ((\<lambda>_. 0)(net_ipvh := 0xFF, net_iptos := 0xFF)) = 0"
proof -
  let ?p = "(\<lambda>_. 0)(net_ipvh := 0xFF, net_iptos := 0xFF) :: packet"
  have "be_words 10 ?p net_ipvh = [65535, 0, 0, 0, 0, 0, 0, 0, 0, 0]" by (simp add: be_words_def be16_def upt_rec)
  then have "rfc1071 (be_words 10 ?p net_ipvh) = 0" by (simp add: rfc1071_def oc_add_def)
  then show ?thesis using header_sum[of ?p] by blast
qed

text \<open>C35: ICMP messages on the wire. An even-sized message that \<open>ip_out\<close> has sealed is accepted by \<open>ip_in\<close>, unchanged but for the
  two checksums, exactly when the sum of its words carries once at most. For the other messages the checksum that the code
  computes is not the one it accepts, and the message is dropped.\<close>

theorem echo_on_the_wire:
  assumes "p net_ipproto = 1" "p net_ipvh = 0x45" "uint (get16 p net_iplen) = 20 + int (2 * n)" "2 \<le> n" "2 * n \<le> 1480"
    and "s = sum_list (be_words n (put16 (icmp_hton p) net_iccksum 0) net_ictype)"
  shows "if carries_again s then ip_check (eth_ntoh (ip_out_packet p)) = None
    else \<exists>c d. ip_check (eth_ntoh (ip_out_packet p)) = Some (put16 (put16 p net_iccksum c) net_ipcksum d)"
  by (rule icmp_wire[OF assms])

theorem echo_on_the_wire_witness:
  "ip_check (eth_ntoh (ip_out_packet (put16 ((\<lambda>_. 0)(net_ipvh := 0x45, net_ipproto := 1, net_ictype := 8, 40 := 0, 41 := 0xF8, 42 := 0xFF, 43 := 0xFF)) net_iplen 30))) = None"
proof -
  let ?p = "put16 ((\<lambda>_. 0)(net_ipvh := 0x45, net_ipproto := 1, net_ictype := 8, 40 := 0, 41 := 0xF8, 42 := 0xFF, 43 := 0xFF)) net_iplen 30"
  let ?s = "sum_list (be_words 5 (put16 (icmp_hton ?p) net_iccksum 0) net_ictype)"
  have p: "?p net_ipproto = 1" "?p net_ipvh = 0x45" by (simp_all add: put16_def)
  have len: "uint (get16 ?p net_iplen) = 20 + int (2 * 5)" unfolding get16_put16 by simp
  have n: "(2 :: nat) \<le> 5" "2 * 5 \<le> (1480 :: nat)" by simp_all
  have "be_words 5 (put16 (icmp_hton ?p) net_iccksum 0) net_ictype = [0x0800, 0, 0, 0xF800, 0xFFFF]"
    by (simp add: be_words_def be16_def upt_rec icmp_hton_def conv16_swaps put16_def)
  then have s: "?s = 0x1FFFF" by simp
  have "carries_again ?s" unfolding s by (simp add: carries_again_def)
  then show ?thesis using echo_on_the_wire[OF p len n refl] by simp
qed

text \<open>C36: an address is in the ARP cache once. \<open>arp_in\<close>, \<open>arp_resolve\<close> and the rest of \<open>arp_resolve\<close> after a wait keep it so that
  two entries in use never have the same protocol address, whatever the packet or the address is. The Ethernet driver is a
  parameter; when it takes a frame it must have left the ARP cache alone, whatever else of the kernel's state it changed. A
  driver that has to wait for a free descriptor is not covered; one that finds its semaphore positive is.\<close>

theorem arp_entries_unique:
  assumes "keeps_cache ether" "arp_distinct s"
  shows "(\<forall>x r s'. arp_in ether x s = Some (r, s') \<longrightarrow> arp_distinct s') \<and>
    (\<forall>ip user r s'. arp_resolve ether ip user s = Some (r, s') \<longrightarrow> arp_distinct s') \<and>
    (\<forall>n slot apkt user r s'. arp_resolve_rest ether n slot apkt user s = Some (r, s') \<longrightarrow> arp_distinct s')"
  using arp_in_distinct[OF assms] arp_resolve_distinct[OF assms] by blast

lemma asked0: "\<exists>s' i. arp_resolve (driver wire0) 0x0A000002 (For_ip_send y) need0 = Some (Pending, s') \<and> kinv s' \<and> 0 \<le> i \<and> i < ARP_SIZ \<and>
    arstate (arpcache s' i) = AR_PENDING \<and> arpaddr (arpcache s' i) = 0x0A000002 \<and> arpid (arpcache s' i) = 1 \<and>
    prstate (proctab s' 1) = PR_RECTIM \<and> pkts s' = pkts need0 \<and> arp_distinct s'"
proof -
  have ip: "(0x0A000002 :: uint32) \<noteq> 0xFFFFFFFF" "(0x0A000002 :: uint32) \<noteq> ipbcast (netdata need0)"
    unfolding need0_facts(4) by (simp_all add: host0_def)
  have room: "\<exists>i. 0 \<le> i \<and> i < ARP_SIZ \<and> arstate (arpcache need0 i) \<noteq> AR_PENDING"
    using need0_facts(5)[of 0] by (intro exI[of _ 0]) simp
  obtain s' i where s': "arp_resolve (driver wire0) 0x0A000002 (For_ip_send y) need0 = Some (Pending, s')" "kinv s'" "0 \<le> i" "i < ARP_SIZ"
    "arstate (arpcache s' i) = AR_PENDING" "arpaddr (arpcache s' i) = 0x0A000002" "arpid (arpcache s' i) = currpid need0"
    "prstate (proctab s' (currpid need0)) = PR_RECTIM" "pkts s' = pkts need0"
    using arp_resolve_asks[OF need0_facts(1-3) ip need0_facts(7) room, of wire0 "For_ip_send y"] by blast
  have "currpid need0 = 1" using net0_facts(3) by (simp add: need0_def)
  then show ?thesis using s' arp_resolve_distinct(1)[OF keeps_cache_drivers(1) need0_facts(6) s'(1)] by metis
qed

theorem arp_entries_unique_witness:
  "keeps_cache (driver wire0) \<and> keeps_cache (slot_driver 5 wire0) \<and>
    (\<exists>s'. arp_resolve (driver wire0) 0x0A000002 (For_ip_send 0) need0 = Some (Pending, s') \<and> arp_distinct s' \<and>
      (\<forall>x r t. arp_in (driver wire0) x s' = Some (r, t) \<longrightarrow> arp_distinct t) \<and>
      (\<forall>x r t. arp_in (slot_driver 5 wire0) x s' = Some (r, t) \<longrightarrow> arp_distinct t))"
proof -
  note K = keeps_cache_drivers(1)[of wire0] keeps_cache_drivers(2)[of 5 wire0]
  obtain s' where s': "arp_resolve (driver wire0) 0x0A000002 (For_ip_send 0) need0 = Some (Pending, s')" using asked0 by blast
  have d: "arp_distinct s'" using arp_entries_unique[OF K(1) need0_facts(6)] s' by blast
  have "\<forall>x r t. arp_in (driver wire0) x s' = Some (r, t) \<longrightarrow> arp_distinct t" using arp_entries_unique[OF K(1) d] by blast
  moreover have "\<forall>x r t. arp_in (slot_driver 5 wire0) x s' = Some (r, t) \<longrightarrow> arp_distinct t" using arp_entries_unique[OF K(2) d] by blast
  ultimately show ?thesis using s' d K by (intro conjI exI[of _ s']) simp_all
qed

text \<open>C37: a request for this host's address is answered. If the frame in the buffer is the request that host \<open>a\<close> broadcasts for the address of
  this host, \<open>arp_in\<close> records the pair of addresses of \<open>a\<close>, sends one frame, and gives the buffer back; the frame, read as \<open>a\<close>
  reads it, is a reply to \<open>a\<close> with the addresses of this host.\<close>

theorem arp_request_answered:
  assumes inv: "kinv s" "arp_distinct s" "net_own s fr {#x - 4#} T" "length fr + 1 < 2 ^ 30"
    and frame: "pkts s x = eth_ntoh (arp_request a (ipucast (netdata s)))" "ipvalid (netdata s)"
    and len: "length (ethucast a) = 6" "length (ethbcast a) = 6" "length (ethucast (netdata s)) = 6"
    and free: "case arp_lookup (ipucast a) s of Some i \<Rightarrow> arstate (arpcache s i) \<noteq> AR_PENDING
      | None \<Rightarrow> \<exists>i. 0 \<le> i \<and> i < ARP_SIZ \<and> arstate (arpcache s i) \<noteq> AR_PENDING"
  shows "\<exists>s' i f. arp_in (driver dev) x s = Some (Done (), s') \<and> kinv s' \<and> net_own s' ((x - 4) # fr) {#} T \<and>
    0 \<le> i \<and> i < ARP_SIZ \<and> arstate (arpcache s' i) = AR_RESOLVED \<and> arpaddr (arpcache s' i) = ipucast a \<and>
    arhaddr (arpcache s' i) = ethucast a \<and> nstate.more s' = snd (dev f ARP_LEN (nstate.more s)) \<and>
    (let r = arp_ntoh (eth_ntoh f) in get16 r arp_htype = 1 \<and> get16 r arp_ptype = 0x0800 \<and> get16 r arp_op = 2 \<and>
      get32 r arp_tarpa = ipucast a \<and> get32 r arp_sndpa = ipucast (netdata s) \<and> get_bytes r arp_sndha 6 = ethucast (netdata s))"
proof -
  define q where "q = arp_ntoh (pkts s x)"
  note F = arp_frames[OF len, of "ipucast (netdata s)", folded frame(1) q_def]
  have op: "get16 q arp_op \<noteq> 2" using F(1) by simp
  have us: "get16 q arp_htype = 1" "get16 q arp_ptype = 0x0800" "get32 q arp_tarpa = ipucast (netdata s)" "get32 q arp_sndpa = ipucast a"
    "get_bytes q arp_sndha 6 = ethucast a" using F(1) by simp_all
  obtain s' i where "arp_in (driver dev) x s = Some (Done (), s')" "kinv s'" "net_own s' ((x - 4) # fr) {#} T"
    "0 \<le> i" "i < ARP_SIZ" "arstate (arpcache s' i) = AR_RESOLVED" "arpaddr (arpcache s' i) = ipucast a" "arhaddr (arpcache s' i) = ethucast a"
    "nstate.more s' = snd (dev (arp_reply (netdata s) q) ARP_LEN (nstate.more s))"
    using arp_in_answers[OF inv q_def us(1,2) op frame(2) us(3) free[folded us(4)], of dev] unfolding us by blast
  then show ?thesis using F(2) unfolding Let_def by blast
qed

theorem arp_request_answered_witness:
  "\<exists>s' i. arp_in (driver wire0) rxbuf0 (rx0 (eth_ntoh (arp_request peer0 0x0A000001))) = Some (Done (), s') \<and>
    arpaddr (arpcache s' i) = 0x0A000002 \<and> arhaddr (arpcache s' i) = [2, 0, 0, 0, 0, 2]"
proof -
  let ?s = "rx0 (eth_ntoh (arp_request peer0 0x0A000001))" and ?T = "(\<lambda>_. None)(0 := Some echo7)"
  obtain fr where fr: "net_own ?s fr {#rxbuf0 - 4#} ?T" "length fr + 1 < 2 ^ 30" using rx0_facts(8) by fastforce
  have frame: "pkts ?s rxbuf0 = eth_ntoh (arp_request peer0 (ipucast (netdata ?s)))" "ipvalid (netdata ?s)" "length (ethucast (netdata ?s)) = 6"
    unfolding rx0_facts(4,5) by (simp_all add: host0_def mac0_def)
  have free: "case arp_lookup (ipucast peer0) ?s of Some i \<Rightarrow> arstate (arpcache ?s i) \<noteq> AR_PENDING
      | None \<Rightarrow> \<exists>i. 0 \<le> i \<and> i < ARP_SIZ \<and> arstate (arpcache ?s i) \<noteq> AR_PENDING"
    unfolding rx0_distinct(2) using rx0_facts(6) by (simp add: exI[of _ 0])
  have p: "ipucast peer0 = 0x0A000002" "ethucast peer0 = [2, 0, 0, 0, 0, 2]" by (simp_all add: peer0_def)
  show ?thesis
    using arp_request_answered[OF rx0_facts(1) rx0_distinct(1) fr frame(1,2) hosts0(3,4) frame(3) free, of wire0] unfolding p by blast
qed

text \<open>C38: an answer reaches the process that asked. If a process waits in \<open>arp_resolve\<close> for the sender of the ARP packet in the buffer,
  \<open>arp_in\<close> stores the hardware address in its entry and makes the process eligible with the message \<open>OK\<close>; and in every later
  state in which it runs with that message and the entry is still there, the rest of \<open>arp_resolve\<close> returns that address.\<close>

theorem arp_answer_returns:
  assumes "kinv s" "arp_distinct s" "0 \<le> i" "i < ARP_SIZ" "arstate (arpcache s i) = AR_PENDING"
    and "pid_ok (arpid (arpcache s i))" "prstate (proctab s (arpid (arpcache s i))) = PR_RECTIM"
    and "p = arp_ntoh (pkts s x)" "get16 p arp_htype = 1" "get16 p arp_ptype = 0x0800" "get32 p arp_sndpa = arpaddr (arpcache s i)"
  shows "\<exists>s'. arp_in (driver dev) x s = Some (Pending, s') \<and> kinv s' \<and> nkont s' (currpid s) = Some (N_arp_in x (Some i)) \<and>
    runnable (prstate (proctab s' (arpid (arpcache s i)))) \<and> prhasmsg (proctab s' (arpid (arpcache s i))) \<and>
    prmsg (proctab s' (arpid (arpcache s i))) = 1 \<and> arstate (arpcache s' i) = AR_RESOLVED \<and>
    (\<forall>t n apkt user. kinv t \<and> currpid t = arpid (arpcache s i) \<and> pkont t (currpid t) \<noteq> Some K_receive \<and> prhasmsg (proctab t (currpid t)) \<and>
      prmsg (proctab t (currpid t)) = 1 \<and> arpcache t i = arpcache s' i \<longrightarrow>
      (\<exists>t'. arp_resolve_rest (driver dev) n i apkt user t = Some (Done (OK, get_bytes p arp_sndha 6), t') \<and> kinv t'))"
proof -
  obtain s' where s': "arp_in (driver dev) x s = Some (Pending, s')" "kinv s'" "runnable (prstate (proctab s' (arpid (arpcache s i))))"
    "prhasmsg (proctab s' (arpid (arpcache s i)))" "prmsg (proctab s' (arpid (arpcache s i))) = 1"
    "arpcache s' = (arpcache s)(i := (arpcache s i)\<lparr>arhaddr := get_bytes p arp_sndha 6, arstate := AR_RESOLVED\<rparr>)"
    "nkont s' (currpid s) = Some (N_arp_in x (Some i))"
    using arp_in_wakes[OF assms, of dev] by blast
  have "arstate (arpcache s' i) = AR_RESOLVED" and h: "arhaddr (arpcache s' i) = get_bytes p arp_sndha 6" using s'(6) by simp_all
  moreover have "\<exists>t'. arp_resolve_rest (driver dev) n i apkt user t = Some (Done (OK, get_bytes p arp_sndha 6), t') \<and> kinv t'"
    if "kinv t" "pkont t (currpid t) \<noteq> Some K_receive" "prhasmsg (proctab t (currpid t))" "prmsg (proctab t (currpid t)) = 1"
      "arpcache t i = arpcache s' i" for t n apkt user
    using arp_resolve_returns[OF that(1-4), of "driver dev" n i apkt user] that(5) h by simp
  ultimately show ?thesis using s'(1-5,7) by blast
qed

theorem arp_answer_returns_witness:
  "\<exists>s s' i. arp_resolve (driver wire0) 0x0A000002 (For_ip_send 0) need0 = Some (Pending, s) \<and> prstate (proctab s 1) = PR_RECTIM \<and>
    arp_in (driver wire0) 0 s = Some (Pending, s') \<and> runnable (prstate (proctab s' 1)) \<and> arstate (arpcache s' i) = AR_RESOLVED"
proof -
  let ?q = "arp_ntoh (eth_ntoh (arp_request host0 0x0A000002))"
  obtain s i where s: "arp_resolve (driver wire0) 0x0A000002 (For_ip_send 0) need0 = Some (Pending, s)" "kinv s" "0 \<le> i" "i < ARP_SIZ"
    "arstate (arpcache s i) = AR_PENDING" "arpaddr (arpcache s i) = 0x0A000002" "arpid (arpcache s i) = 1" "prstate (proctab s 1) = PR_RECTIM"
    "pkts s = pkts need0" "arp_distinct s" using asked0 by blast
  have x: "arp_ntoh (pkts s 0) = arp_ntoh (eth_ntoh (arp_reply peer0 ?q))" unfolding s(9) by (simp add: need0_def)
  note F = arp_frames(2)[OF hosts0(1-3), of "0x0A000002", folded x]
  have p: "get16 (arp_ntoh (pkts s 0)) arp_htype = 1" "get16 (arp_ntoh (pkts s 0)) arp_ptype = 0x0800"
    "get32 (arp_ntoh (pkts s 0)) arp_sndpa = arpaddr (arpcache s i)" using F s(6) by (simp_all add: peer0_def)
  have c: "pid_ok (arpid (arpcache s i))" "prstate (proctab s (arpid (arpcache s i))) = PR_RECTIM" using s(7,8) by simp_all
  show ?thesis using arp_answer_returns[OF s(2,10,3,4,5) c refl p, of wire0] s(1,7,8) by metis
qed

text \<open>C39: echo replies one at a time. An entry of the ICMP table that has received \<open>k\<close> replies so far, none of them queued, gets the next
  one. For \<open>k < 8\<close> the reply is queued and \<open>icmp_recv\<close> returns its data and gives the buffer back. The ninth reply is lost:
  \<open>icmp_recv\<close> wraps the head at the size of the table and not at that of the queue, so that it reads behind the queue.\<close>

theorem echo_replies:
  assumes "kinv s" "net_own s fr {#x - 4#} T" "length fr + 1 < 2 ^ 30" and i: "i < ICMP_SLOTS" and "0 \<le> k" "k \<le> 8"
    and at: "icmp_at i k s" "echo_reply (pkts s x) i (icmptab s i)" and "fst (icmp_payload (pkts s x) len) \<le> 1472"
  shows "\<exists>s1. icmp_in x s = Some (Done (), s1) \<and>
    (if k < 8 then \<exists>s2. icmp_recv i len timeout s1 = Some (Done (icmp_payload (pkts s x) len), s2) \<and> kinv s2 \<and> icmp_at i (k + 1) s2 \<and>
       net_own s2 ((x - 4) # fr) {#} T
     else icmp_recv i len timeout s1 = None)"
proof (cases "k < 8")
  case True
  then show ?thesis using icmp_reply_received[OF assms(1-3) i \<open>0 \<le> k\<close> True at assms(9), of timeout] by auto
next
  case False
  then have "icmp_at i 8 s" using at(1) \<open>k \<le> 8\<close> by simp
  then show ?thesis using icmp_ninth_reply[OF i _ at(2), of len timeout] False by auto
qed

theorem echo_replies_witness:
  "(\<exists>s1. icmp_in rxbuf0 (pinged0 8) = Some (Done (), s1) \<and> icmp_recv 0 100 1000 s1 = None) \<and>
    (\<exists>s1 s2. icmp_in rxbuf0 (pinged0 0) = Some (Done (), s1) \<and> icmp_recv 0 100 1000 s1 = Some (Done (1, [0x68]), s2))"
proof -
  have i: "(0 :: int) < ICMP_SLOTS" by simp
  have f: "fst (icmp_payload (pkts (pinged0 k) rxbuf0) 100) \<le> 1472" for k unfolding pinged0_facts(4,5) by simp
  have own: "\<exists>fr. net_own (pinged0 k) fr {#rxbuf0 - 4#} ((\<lambda>_. None)(0 := Some echo7)) \<and> length fr + 1 < 2 ^ 30" for k
    using pinged0_facts(6)[of k] by fastforce
  obtain fr where fr: "net_own (pinged0 8) fr {#rxbuf0 - 4#} ((\<lambda>_. None)(0 := Some echo7))" "length fr + 1 < 2 ^ 30" using own by blast
  have k: "(0 :: int) \<le> 8" "(8 :: int) \<le> 8" "(0 :: int) \<le> 0" "(0 :: int) \<le> 8" by simp_all
  have "\<exists>s1. icmp_in rxbuf0 (pinged0 8) = Some (Done (), s1) \<and> icmp_recv 0 100 1000 s1 = None"
    using echo_replies[OF pinged0_facts(1) fr i k(1,2) pinged0_facts(2,3) f] by fastforce
  moreover obtain gr where gr: "net_own (pinged0 0) gr {#rxbuf0 - 4#} ((\<lambda>_. None)(0 := Some echo7))" "length gr + 1 < 2 ^ 30" using own by blast
  have "\<exists>s1 s2. icmp_in rxbuf0 (pinged0 0) = Some (Done (), s1) \<and> icmp_recv 0 100 1000 s1 = Some (Done (1, [0x68]), s2)"
    using echo_replies[OF pinged0_facts(1) gr i k(3,4) pinged0_facts(2,3) f] unfolding pinged0_facts(4,5) by fastforce
  ultimately show ?thesis by blast
qed

end
